(* ===== verification/Pggat_Prelude.thy ===== *)
theory Pggat_Prelude
  imports Main "HOL-Library.Word" "HOL-Library.Monad_Syntax"
begin

text \<open>
  Shared vocabulary of the development: how the fragments of Go that every component uses are
  written in HOL.  A Go panic (index out of range, failed assertion, nil dereference, negative
  length handed to \<^verbatim>\<open>make\<close>) is the value \<^term>\<open>None\<close> of an option, and \<^verbatim>\<open>do\<close> blocks over
  options sequence statements that may panic.  A Go slice whose capacity plays no role is a list; a
  Go map is a partial function; a byte is an 8 bit word; a Go string is a list of characters, since
  both are sequences of 8 bit units.
\<close>

section \<open>Fact collections and type names\<close>

named_theorems go_simps \<open>unfolding rules for the Go primitives\<close>
named_theorems ring_laws \<open>what each ring operation does to the abstract list\<close>
named_theorems codec_intros \<open>closure of the packet codec law under the code generator's constructs\<close>
named_theorems wire_simps \<open>defining equations of encoder and decoder primitives\<close>

type_synonym byte = "8 word"

type_synonym uuid = nat
  \<comment> \<open>a UUID is only compared for equality; \<^verbatim>\<open>uuid.Nil\<close> is 0\<close>

abbreviation (input) uuid_nil :: uuid where
  "uuid_nil \<equiv> 0"

section \<open>Slices\<close>

definition go_len :: "'a list \<Rightarrow> int" where
  "go_len xs = int (length xs)"

text \<open>Indexing, assignment to an index and slicing panic outside the range.\<close>

definition go_index :: "'a list \<Rightarrow> int \<Rightarrow> 'a option" where
  "go_index xs i = (if 0 \<le> i \<and> i < go_len xs then Some (xs ! nat i) else None)"

definition go_assign :: "'a list \<Rightarrow> int \<Rightarrow> 'a \<Rightarrow> 'a list option" where
  "go_assign xs i v = (if 0 \<le> i \<and> i < go_len xs then Some (xs[nat i := v]) else None)"

definition go_slice :: "'a list \<Rightarrow> int \<Rightarrow> int \<Rightarrow> 'a list option" where
  "go_slice xs lo hi =
     (if 0 \<le> lo \<and> lo \<le> hi \<and> hi \<le> go_len xs then Some (take (nat (hi - lo)) (drop (nat lo) xs))
      else None)"

text \<open>\<^verbatim>\<open>make([]T, n)\<close> panics on a negative length and fills with the zero value.\<close>

definition go_make :: "'a \<Rightarrow> int \<Rightarrow> 'a list option" where
  "go_make z n = (if 0 \<le> n then Some (replicate (nat n) z) else None)"

text \<open>\<^verbatim>\<open>copy(dst, src)\<close> overwrites the first \<^verbatim>\<open>min(len(dst), len(src))\<close> elements of \<^verbatim>\<open>dst\<close>.\<close>

definition go_copy :: "'a list \<Rightarrow> 'a list \<Rightarrow> 'a list" where
  "go_copy dst src = take (length dst) src @ drop (length src) dst"

lemma go_index_Some [go_simps]:
  "0 \<le> i \<Longrightarrow> i < go_len xs \<Longrightarrow> go_index xs i = Some (xs ! nat i)"
  by (simp add: go_index_def)

lemma go_assign_Some [go_simps]:
  "0 \<le> i \<Longrightarrow> i < go_len xs \<Longrightarrow> go_assign xs i v = Some (xs[nat i := v])"
  by (simp add: go_assign_def)

lemma length_go_copy [simp]: "length (go_copy dst src) = length dst"
  by (simp add: go_copy_def min_def)

lemma go_len_nonneg [simp]: "0 \<le> go_len xs"
  by (simp add: go_len_def)

section \<open>Strings and bytes\<close>

text \<open>The conversions \<^verbatim>\<open>[]byte(s)\<close> and \<^verbatim>\<open>string(b)\<close>.\<close>

definition bytes_of :: "string \<Rightarrow> byte list" where
  "bytes_of s = map (\<lambda>c. of_nat (of_char c)) s"

definition string_of :: "byte list \<Rightarrow> string" where
  "string_of bs = map (\<lambda>b. char_of (unat b)) bs"

lemma string_of_bytes_of [simp]: "string_of (bytes_of s) = s"
proof -
  have "char_of (unat (of_nat (of_char c) :: byte)) = c" for c :: char
  proof -
    have "(of_char c :: nat) < 256" by (rule nat_of_char_less_256)
    then have "unat (of_nat (of_char c) :: byte) = of_char c"
      by (simp add: unat_of_nat)
    then show ?thesis by simp
  qed
  then show ?thesis by (simp add: bytes_of_def string_of_def comp_def map_idI)
qed

lemma bytes_of_string_of [simp]: "bytes_of (string_of bs) = bs"
proof -
  have "of_nat (of_char (char_of (unat b) :: char)) = b" for b :: byte
  proof -
    have "unat b < 256" using unsigned_less [of b, where 'a = nat] by simp
    then have "(of_char (char_of (unat b) :: char) :: nat) = unat b"
      by simp
    then show ?thesis by simp
  qed
  then show ?thesis by (simp add: bytes_of_def string_of_def comp_def map_idI)
qed

lemma length_bytes_of [simp]: "length (bytes_of s) = length s"
  by (simp add: bytes_of_def)

lemma length_string_of [simp]: "length (string_of bs) = length bs"
  by (simp add: string_of_def)

section \<open>Generic facts\<close>

lemma mod_add_neq:
  fixes h i n c :: nat
  assumes "i < n" and "n < c"
  shows "(h + i) mod c \<noteq> (h + n) mod c"
proof
  assume "(h + i) mod c = (h + n) mod c"
  then have "c dvd (h + n) - (h + i)"
    by (metis add_le_cancel_left assms(1) less_imp_le_nat mod_eq_dvd_iff_nat)
  with assms show False by (auto dest: dvd_imp_le)
qed

lemma append_terminated:
  "xs @ x # as = ys @ x # bs \<Longrightarrow> x \<notin> set xs \<Longrightarrow> x \<notin> set ys \<Longrightarrow> xs = ys"
proof (induction xs arbitrary: ys)
  case Nil
  then show ?case by (cases ys) auto
next
  case (Cons a xs)
  then show ?case by (cases ys) auto
qed

lemma filter_idI: "(\<And>x. x \<in> set xs \<Longrightarrow> P x) \<Longrightarrow> filter P xs = xs"
  by (simp add: filter_id_conv)

lemma filter_emptyI: "(\<And>x. x \<in> set xs \<Longrightarrow> \<not> P x) \<Longrightarrow> filter P xs = []"
  by (simp add: filter_empty_conv)

end
