(* ===== verification/Fed_Base.thy ===== *)
theory Fed_Base
  imports Pggat_Prelude
begin

text \<open>
  What the encoder and the decoder of \<^verbatim>\<open>lib/fed\<close> share: the error values, big-endian integers, and
  writes into a fixed array.  A Go string is a sequence of bytes; on the wire it is followed by a
  zero byte.  Signed integers are kept as words of their width (\<^verbatim>\<open>uint16(int16)\<close> and its kin are then
  the identity) and read with \<^const>\<open>sint\<close> where the code compares them.
\<close>

unbundle bit_operations_syntax

section \<open>Errors\<close>

text \<open>The error values of the package, and \<open>IOErr\<close> for whatever else a connection reports.\<close>

datatype go_error =
    EOF | ErrUnexpectedEOF | ErrWrongNumberOfBytes | ErrOverranReadBuffer
  | ErrUnexpectedPacket | ErrInvalidFormat | IOErr nat

definition defaultBufferSize :: nat where
  "defaultBufferSize = 4 * 1024"

lemma defaultBufferSize_ge [simp]: "8 \<le> defaultBufferSize" "0 < defaultBufferSize"
  "defaultBufferSize \<noteq> 0"
  by (simp_all add: defaultBufferSize_def)

section \<open>Big-endian integers\<close>

definition be16 :: "16 word \<Rightarrow> byte list" where
  "be16 v = [ucast (drop_bit 8 v), ucast v]"

definition be32 :: "32 word \<Rightarrow> byte list" where
  "be32 v = [ucast (drop_bit 24 v), ucast (drop_bit 16 v), ucast (drop_bit 8 v), ucast v]"

definition be64 :: "64 word \<Rightarrow> byte list" where
  "be64 v = [ucast (drop_bit 56 v), ucast (drop_bit 48 v), ucast (drop_bit 40 v),
     ucast (drop_bit 32 v), ucast (drop_bit 24 v), ucast (drop_bit 16 v), ucast (drop_bit 8 v), ucast v]"

fun of_be16 :: "byte list \<Rightarrow> 16 word" where
  "of_be16 [b0, b1] = ucast b1 OR push_bit 8 (ucast b0)"
| "of_be16 _ = 0"

fun of_be32 :: "byte list \<Rightarrow> 32 word" where
  "of_be32 [b0, b1, b2, b3] =
     ucast b3 OR push_bit 8 (ucast b2) OR push_bit 16 (ucast b1) OR push_bit 24 (ucast b0)"
| "of_be32 _ = 0"

fun of_be64 :: "byte list \<Rightarrow> 64 word" where
  "of_be64 [b0, b1, b2, b3, b4, b5, b6, b7] =
     ucast b7 OR push_bit 8 (ucast b6) OR push_bit 16 (ucast b5) OR push_bit 24 (ucast b4) OR
     push_bit 32 (ucast b3) OR push_bit 40 (ucast b2) OR push_bit 48 (ucast b1) OR push_bit 56 (ucast b0)"
| "of_be64 _ = 0"

lemma of_be16_be16 [simp]: "of_be16 (be16 v) = v"
  unfolding be16_def by (simp, rule bit_word_eqI) (auto simp: bit_simps)

lemma of_be32_be32 [simp]: "of_be32 (be32 v) = v"
proof (rule bit_word_eqI)
  fix n
  assume "n < LENGTH(32)"
  then consider "n < 8" | "8 \<le> n" "n < 16" | "16 \<le> n" "n < 24" | "24 \<le> n" "n < 32"
    by fastforce
  then show "bit (of_be32 (be32 v)) n = bit v n"
    by cases (simp_all add: be32_def bit_simps less_diff_conv2)
qed

lemma of_be64_be64 [simp]: "of_be64 (be64 v) = v"
proof (rule bit_word_eqI)
  fix n
  assume "n < LENGTH(64)"
  then consider "n < 8" | "8 \<le> n" "n < 16" | "16 \<le> n" "n < 24" | "24 \<le> n" "n < 32" | "32 \<le> n" "n < 40" | "40 \<le> n" "n < 48" | "48 \<le> n" "n < 56" | "56 \<le> n" "n < 64"
    by fastforce
  then show "bit (of_be64 (be64 v)) n = bit v n"
    by cases (simp_all add: be64_def bit_simps less_diff_conv2)
qed

lemma length_be [simp]: "length (be16 v) = 2" "length (be32 w) = 4" "length (be64 x) = 8"
  by (simp_all add: be16_def be32_def be64_def)

section \<open>Writing into a fixed array\<close>

text \<open>\<^verbatim>\<open>copy(buf[pos:pos+len(bs)], bs)\<close>: the slice expression panics out of range.\<close>

definition go_put :: "'a list \<Rightarrow> int \<Rightarrow> 'a list \<Rightarrow> 'a list option" where
  "go_put buf pos bs =
     (if 0 \<le> pos \<and> pos + go_len bs \<le> go_len buf
      then Some (take (nat pos) buf @ bs @ drop (nat pos + length bs) buf) else None)"

lemma go_put_Some:
  assumes "0 \<le> pos" "pos + go_len bs \<le> go_len buf"
  shows "\<exists>buf'. go_put buf pos bs = Some buf' \<and> length buf' = length buf \<and>
    take (nat pos) buf' = take (nat pos) buf \<and> take (nat pos + length bs) buf' = take (nat pos) buf @ bs"
  using assms by (auto simp: go_put_def go_len_def)

end
