(* ===== verification/Fed_Encoder.thy ===== *)
theory Fed_Encoder
  imports Fed_Base
begin

text \<open>
  The buffered packet encoder of \<^verbatim>\<open>lib/fed/encoder.go\<close>.  The \<^verbatim>\<open>io.Writer\<close> behind it is its sink and the
  outcomes of the coming calls of \<^verbatim>\<open>Write\<close>: \<^term>\<open>None\<close> for a complete write, \<open>Some (n, err)\<close> for one that
  stops after \<open>n\<close> bytes with an error; past the end of the script every write succeeds.  A method is a
  function from the encoder to its error result and the new encoder, inside an option for panics.
  Shown: no method panics, and what a sequence of methods puts on the wire does not depend on where the
  buffer was flushed.
\<close>

section \<open>State\<close>

record writer =
  w_sink :: "byte list"
  w_faults :: "(nat \<times> go_error) option list"

definition Writer_Write :: "byte list \<Rightarrow> writer \<Rightarrow> go_error option \<times> writer" where
  "Writer_Write bs w =
     (case w_faults w of
        [] \<Rightarrow> (None, w\<lparr>w_sink := w_sink w @ bs\<rparr>)
      | None # fs \<Rightarrow> (None, w\<lparr>w_sink := w_sink w @ bs, w_faults := fs\<rparr>)
      | Some (n, err) # fs \<Rightarrow> (Some err, w\<lparr>w_sink := w_sink w @ take n bs, w_faults := fs\<rparr>))"

record encoder =
  e_buffer :: "byte list"
  e_bufferPos :: int
  e_writer :: writer
  e_packetType :: byte
  e_packetLength :: int
  e_packetPos :: int

type_synonym enc = "encoder \<Rightarrow> (go_error option \<times> encoder) option"

definition NewEncoder :: "writer \<Rightarrow> encoder" where
  "NewEncoder w = \<lparr>e_buffer = replicate defaultBufferSize 0, e_bufferPos = 0, e_writer = w,
     e_packetType = 0, e_packetLength = 0, e_packetPos = 0\<rparr>"

definition enc_Reset :: "writer \<Rightarrow> encoder \<Rightarrow> encoder" where
  "enc_Reset w e = e\<lparr>e_bufferPos := 0, e_writer := w\<rparr>"

section \<open>Sequencing\<close>

text \<open>\<^verbatim>\<open>if err := A(); err != nil { return err }\<close> followed by the rest, and a range loop of it.\<close>

definition enc_seq :: "enc \<Rightarrow> enc \<Rightarrow> enc" where
  "enc_seq A B e = do {
     (r, e) \<leftarrow> A e;
     case r of Some err \<Rightarrow> Some (Some err, e) | None \<Rightarrow> B e
   }"

definition enc_skip :: enc where
  "enc_skip e = Some (None, e)"

fun enc_each :: "('a \<Rightarrow> enc) \<Rightarrow> 'a list \<Rightarrow> enc" where
  "enc_each f [] = enc_skip"
| "enc_each f (x # xs) = enc_seq (f x) (enc_each f xs)"

section \<open>Methods\<close>

definition enc_Flush :: enc where
  "enc_Flush e =
     (if e_bufferPos e = 0 then Some (None, e)
      else do {
        bs \<leftarrow> go_slice (e_buffer e) 0 (e_bufferPos e);
        let (err, w) = Writer_Write bs (e_writer e);
        Some (err, e\<lparr>e_writer := w, e_bufferPos := 0\<rparr>)
      })"

text \<open>
  The common body of \<^verbatim>\<open>writeByte\<close>, \<^verbatim>\<open>Uint16\<close>, \<^verbatim>\<open>Uint32\<close>, \<^verbatim>\<open>Uint64\<close> and of the length in \<^verbatim>\<open>Next\<close>: flush
  when the bytes do not fit, then store them.
\<close>

definition enc_store :: "byte list \<Rightarrow> enc" where
  "enc_store bs e = do {
     buf \<leftarrow> go_put (e_buffer e) (e_bufferPos e) bs;
     Some (None, e\<lparr>e_buffer := buf, e_bufferPos := e_bufferPos e + go_len bs\<rparr>)
   }"

definition enc_put :: "byte list \<Rightarrow> enc" where
  "enc_put bs =
     enc_seq (\<lambda>e. if e_bufferPos e + go_len bs > go_len (e_buffer e) then enc_Flush e else Some (None, e))
       (enc_store bs)"

definition enc_advance :: "int \<Rightarrow> enc" where
  "enc_advance n e = Some (None, e\<lparr>e_packetPos := e_packetPos e + n\<rparr>)"

definition enc_writeByte :: "byte \<Rightarrow> enc" where
  "enc_writeByte b = enc_put [b]"

definition enc_WriteByte :: "byte \<Rightarrow> enc" where
  "enc_WriteByte b e =
     (if e_packetPos e \<noteq> e_packetLength e then Some (Some ErrWrongNumberOfBytes, e)
      else enc_writeByte b (e\<lparr>e_packetType := 0, e_packetLength := 0, e_packetPos := 0\<rparr>))"

definition enc_Next :: "byte \<Rightarrow> int \<Rightarrow> enc" where
  "enc_Next typ len e =
     (if e_packetPos e \<noteq> e_packetLength e then Some (Some ErrWrongNumberOfBytes, e)
      else enc_seq (if typ \<noteq> 0 then enc_writeByte typ else enc_skip)
             (enc_seq (enc_put (be32 (word_of_int (len + 4))))
                (\<lambda>e. Some (None, e\<lparr>e_packetType := typ, e_packetLength := len, e_packetPos := 0\<rparr>))) e)"

definition enc_Uint8 :: "byte \<Rightarrow> enc" where
  "enc_Uint8 v e = do {
     (err, e) \<leftarrow> enc_writeByte v e;
     Some (err, e\<lparr>e_packetPos := e_packetPos e + 1\<rparr>)
   }"

definition enc_Uint16 :: "16 word \<Rightarrow> enc" where
  "enc_Uint16 v = enc_seq (enc_put (be16 v)) (enc_advance 2)"

definition enc_Uint32 :: "32 word \<Rightarrow> enc" where
  "enc_Uint32 v = enc_seq (enc_put (be32 v)) (enc_advance 4)"

definition enc_Uint64 :: "64 word \<Rightarrow> enc" where
  "enc_Uint64 v = enc_seq (enc_put (be64 v)) (enc_advance 8)"

definition enc_Int8 :: "8 word \<Rightarrow> enc" where "enc_Int8 v = enc_Uint8 v"
definition enc_Int16 :: "16 word \<Rightarrow> enc" where "enc_Int16 v = enc_Uint16 v"
definition enc_Int32 :: "32 word \<Rightarrow> enc" where "enc_Int32 v = enc_Uint32 v"
definition enc_Int64 :: "64 word \<Rightarrow> enc" where "enc_Int64 v = enc_Uint64 v"

text \<open>A float is its IEEE bit pattern (\<^verbatim>\<open>math.Float32bits\<close>, \<^verbatim>\<open>math.Float64bits\<close>).\<close>

definition enc_Float32 :: "32 word \<Rightarrow> enc" where "enc_Float32 v = enc_Uint32 v"
definition enc_Float64 :: "64 word \<Rightarrow> enc" where "enc_Float64 v = enc_Uint64 v"

text \<open>The copy loop of \<^verbatim>\<open>String\<close>: fill the buffer, flush when it is full, until nothing is left.\<close>

partial_function (option) enc_copy :: "byte list \<Rightarrow> encoder \<Rightarrow> (go_error option \<times> encoder) option" where
  "enc_copy v e =
     (if v = [] then Some (None, e)
      else do {
        space \<leftarrow> go_slice (e_buffer e) (e_bufferPos e) (go_len (e_buffer e));
        let n = min (length space) (length v);
        buf \<leftarrow> go_put (e_buffer e) (e_bufferPos e) (take n v);
        let e = e\<lparr>e_buffer := buf, e_bufferPos := e_bufferPos e + int n,
                  e_packetPos := e_packetPos e + int n\<rparr>;
        if e_bufferPos e \<ge> go_len (e_buffer e) then do {
          (err, e) \<leftarrow> enc_Flush e;
          if err = None then enc_copy (drop n v) e else Some (err, e)
        } else enc_copy (drop n v) e
      })"

declare enc_copy.simps [code]

definition enc_String :: "string \<Rightarrow> enc" where
  "enc_String v = enc_seq (enc_copy (bytes_of v)) (enc_seq (enc_writeByte 0) (enc_advance 1))"

section \<open>What the methods put on the wire\<close>

definition enc_inv :: "encoder \<Rightarrow> bool" where
  "enc_inv e \<longleftrightarrow> length (e_buffer e) = defaultBufferSize \<and> 0 \<le> e_bufferPos e \<and>
     e_bufferPos e \<le> int defaultBufferSize"

text \<open>Everything handed to the encoder so far, flushed or not.\<close>

definition enc_out :: "encoder \<Rightarrow> byte list" where
  "enc_out e = w_sink (e_writer e) @ take (nat (e_bufferPos e)) (e_buffer e)"

definition no_faults :: "encoder \<Rightarrow> bool" where
  "no_faults e \<longleftrightarrow> list_all (\<lambda>f. f = None) (w_faults (e_writer e))"

text \<open>
  \<open>emits_raw A bs n\<close>: \<open>A\<close> never panics; when it reports no error it has added exactly \<open>bs\<close> to the output
  and \<open>n\<close> to the position in the packet; and it reports no error unless the writer did.
\<close>

definition emits_raw :: "enc \<Rightarrow> byte list \<Rightarrow> int \<Rightarrow> bool" where
  "emits_raw A bs n \<longleftrightarrow> (\<forall>e. enc_inv e \<longrightarrow> (\<exists>r e'. A e = Some (r, e') \<and> enc_inv e' \<and>
     (r = None \<longrightarrow> enc_out e' = enc_out e @ bs \<and> e_packetPos e' = e_packetPos e + n \<and>
        e_packetType e' = e_packetType e \<and> e_packetLength e' = e_packetLength e) \<and>
     (no_faults e \<longrightarrow> r = None \<and> no_faults e')))"

abbreviation emits :: "enc \<Rightarrow> byte list \<Rightarrow> bool" where
  "emits A bs \<equiv> emits_raw A bs (go_len bs)"

lemma emits_rawI:
  assumes "\<And>e. enc_inv e \<Longrightarrow> \<exists>r e'. A e = Some (r, e') \<and> enc_inv e' \<and>
     (r = None \<longrightarrow> enc_out e' = enc_out e @ bs \<and> e_packetPos e' = e_packetPos e + n \<and>
        e_packetType e' = e_packetType e \<and> e_packetLength e' = e_packetLength e) \<and>
     (no_faults e \<longrightarrow> r = None \<and> no_faults e')"
  shows "emits_raw A bs n"
  using assms by (simp add: emits_raw_def)

lemma emits_rawE:
  assumes "emits_raw A bs n" "enc_inv e"
  obtains r e' where "A e = Some (r, e')" "enc_inv e'"
    "r = None \<Longrightarrow> enc_out e' = enc_out e @ bs" "r = None \<Longrightarrow> e_packetPos e' = e_packetPos e + n"
    "r = None \<Longrightarrow> e_packetType e' = e_packetType e" "r = None \<Longrightarrow> e_packetLength e' = e_packetLength e"
    "no_faults e \<Longrightarrow> r = None" "no_faults e \<Longrightarrow> no_faults e'"
  using assms unfolding emits_raw_def by blast

lemma emits_raw_seq:
  assumes "emits_raw A bs m" "emits_raw B cs n"
  shows "emits_raw (enc_seq A B) (bs @ cs) (m + n)"
proof (rule emits_rawI)
  fix e assume e: "enc_inv e"
  from emits_rawE [OF assms(1) e] obtain r e1 where a: "A e = Some (r, e1)" "enc_inv e1"
    "r = None \<Longrightarrow> enc_out e1 = enc_out e @ bs" "r = None \<Longrightarrow> e_packetPos e1 = e_packetPos e + m"
    "r = None \<Longrightarrow> e_packetType e1 = e_packetType e" "r = None \<Longrightarrow> e_packetLength e1 = e_packetLength e"
    "no_faults e \<Longrightarrow> r = None" "no_faults e \<Longrightarrow> no_faults e1" by metis
  show "\<exists>r e'. enc_seq A B e = Some (r, e') \<and> enc_inv e' \<and>
     (r = None \<longrightarrow> enc_out e' = enc_out e @ bs @ cs \<and> e_packetPos e' = e_packetPos e + (m + n) \<and>
        e_packetType e' = e_packetType e \<and> e_packetLength e' = e_packetLength e) \<and>
     (no_faults e \<longrightarrow> r = None \<and> no_faults e')"
  proof (cases r)
    case (Some err)
    with a show ?thesis by (auto simp: enc_seq_def)
  next
    case None
    from emits_rawE [OF assms(2) a(2)] obtain r2 e2 where b: "B e1 = Some (r2, e2)" "enc_inv e2"
      "r2 = None \<Longrightarrow> enc_out e2 = enc_out e1 @ cs" "r2 = None \<Longrightarrow> e_packetPos e2 = e_packetPos e1 + n"
      "r2 = None \<Longrightarrow> e_packetType e2 = e_packetType e1"
      "r2 = None \<Longrightarrow> e_packetLength e2 = e_packetLength e1"
      "no_faults e1 \<Longrightarrow> r2 = None" "no_faults e1 \<Longrightarrow> no_faults e2" by metis
    with None a show ?thesis by (auto simp: enc_seq_def)
  qed
qed

lemma emits_seq [codec_intros]: "emits A bs \<Longrightarrow> emits B cs \<Longrightarrow> emits (enc_seq A B) (bs @ cs)"
  using emits_raw_seq [of A bs "go_len bs" B cs "go_len cs"] by (simp add: go_len_def)

lemma emits_skip [codec_intros]: "emits enc_skip []"
  by (simp add: emits_raw_def enc_skip_def go_len_def)

lemma emits_each [codec_intros]:
  "(\<And>x. emits (f x) (g x)) \<Longrightarrow> emits (enc_each f xs) (concat (map g xs))"
  by (induction xs) (auto intro: emits_seq emits_skip)

lemma Flush_emits: "emits_raw enc_Flush [] 0"
proof (rule emits_rawI)
  fix e assume e: "enc_inv e"
  show "\<exists>r e'. enc_Flush e = Some (r, e') \<and> enc_inv e' \<and>
     (r = None \<longrightarrow> enc_out e' = enc_out e @ [] \<and> e_packetPos e' = e_packetPos e + 0 \<and>
        e_packetType e' = e_packetType e \<and> e_packetLength e' = e_packetLength e) \<and>
     (no_faults e \<longrightarrow> r = None \<and> no_faults e')"
    using e by (auto simp: enc_Flush_def enc_inv_def enc_out_def no_faults_def Writer_Write_def
        go_slice_def go_len_def split: list.split option.split)
qed

lemma Flush_pos: "enc_Flush e = Some (r, e') \<Longrightarrow> e_bufferPos e' = 0"
  by (auto simp: enc_Flush_def split: if_splits Option.bind_splits prod.splits)

lemma store_ok:
  assumes "enc_inv e" "e_bufferPos e + go_len bs \<le> int defaultBufferSize"
  shows "\<exists>e'. enc_store bs e = Some (None, e') \<and> enc_inv e' \<and> enc_out e' = enc_out e @ bs \<and>
    e_packetPos e' = e_packetPos e \<and> e_packetType e' = e_packetType e \<and>
    e_packetLength e' = e_packetLength e \<and> e_writer e' = e_writer e \<and>
    e_bufferPos e' = e_bufferPos e + go_len bs"
proof -
  from assms go_put_Some [of "e_bufferPos e" bs "e_buffer e"] obtain buf where
    "go_put (e_buffer e) (e_bufferPos e) bs = Some buf" "length buf = length (e_buffer e)"
    "take (nat (e_bufferPos e) + length bs) buf = take (nat (e_bufferPos e)) (e_buffer e) @ bs"
    by (auto simp: enc_inv_def go_len_def)
  with assms show ?thesis
    by (auto simp: enc_store_def enc_inv_def enc_out_def go_len_def nat_add_distrib)
qed

lemma put_emits:
  assumes "length bs \<le> 8"
  shows "emits_raw (enc_put bs) bs 0"
proof (rule emits_rawI)
  fix e assume e: "enc_inv e"
  let ?fits = "\<not> e_bufferPos e + go_len bs > go_len (e_buffer e)"
  have put: "enc_put bs e = enc_seq (\<lambda>e. if ?fits then Some (None, e) else enc_Flush e) (enc_store bs) e"
    by (simp add: enc_put_def enc_seq_def)
  have small: "go_len bs \<le> int defaultBufferSize"
    using assms by (simp add: go_len_def defaultBufferSize_def)
  show "\<exists>r e'. enc_put bs e = Some (r, e') \<and> enc_inv e' \<and>
     (r = None \<longrightarrow> enc_out e' = enc_out e @ bs \<and> e_packetPos e' = e_packetPos e + 0 \<and>
        e_packetType e' = e_packetType e \<and> e_packetLength e' = e_packetLength e) \<and>
     (no_faults e \<longrightarrow> r = None \<and> no_faults e')"
  proof (cases ?fits)
    case True
    with store_ok [OF e, of bs] e show ?thesis
      unfolding put by (auto simp: enc_seq_def enc_inv_def go_len_def no_faults_def)
  next
    case False
    from emits_rawE [OF Flush_emits e] obtain r e1 where f: "enc_Flush e = Some (r, e1)" "enc_inv e1"
      "r = None \<Longrightarrow> enc_out e1 = enc_out e @ []" "r = None \<Longrightarrow> e_packetPos e1 = e_packetPos e + 0"
      "r = None \<Longrightarrow> e_packetType e1 = e_packetType e" "r = None \<Longrightarrow> e_packetLength e1 = e_packetLength e"
      "no_faults e \<Longrightarrow> r = None" "no_faults e \<Longrightarrow> no_faults e1" by metis
    with store_ok [OF f(2), of bs] Flush_pos [OF f(1)] small False show ?thesis
      unfolding put by (cases r) (auto simp: enc_seq_def no_faults_def)
  qed
qed

lemma advance_emits: "emits_raw (enc_advance n) [] n"
  by (simp add: emits_raw_def enc_advance_def enc_inv_def enc_out_def no_faults_def)

lemma put_advance: "length bs \<le> 8 \<Longrightarrow> n = go_len bs \<Longrightarrow> emits (enc_seq (enc_put bs) (enc_advance n)) bs"
  using emits_raw_seq [OF put_emits advance_emits, of bs n] by simp

lemma Uint8_emits [codec_intros]: "emits (enc_Uint8 v) [v]"
proof (rule emits_rawI)
  fix e assume e: "enc_inv e"
  from put_emits [of "[v]"] have "emits_raw (enc_writeByte v) [v] 0" by (simp add: enc_writeByte_def)
  from emits_rawE [OF this e] obtain r e1 where f: "enc_writeByte v e = Some (r, e1)" "enc_inv e1"
      "r = None \<Longrightarrow> enc_out e1 = enc_out e @ [v]" "r = None \<Longrightarrow> e_packetPos e1 = e_packetPos e + 0"
      "r = None \<Longrightarrow> e_packetType e1 = e_packetType e" "r = None \<Longrightarrow> e_packetLength e1 = e_packetLength e"
      "no_faults e \<Longrightarrow> r = None" "no_faults e \<Longrightarrow> no_faults e1" by metis
  then show "\<exists>r e'. enc_Uint8 v e = Some (r, e') \<and> enc_inv e' \<and>
     (r = None \<longrightarrow> enc_out e' = enc_out e @ [v] \<and> e_packetPos e' = e_packetPos e + go_len [v] \<and>
        e_packetType e' = e_packetType e \<and> e_packetLength e' = e_packetLength e) \<and>
     (no_faults e \<longrightarrow> r = None \<and> no_faults e')"
    by (simp add: enc_Uint8_def enc_inv_def enc_out_def no_faults_def go_len_def)
qed

lemma Uint_emits [codec_intros]:
  "emits (enc_Uint16 v) (be16 v)" "emits (enc_Uint32 w) (be32 w)" "emits (enc_Uint64 x) (be64 x)"
  unfolding enc_Uint16_def enc_Uint32_def enc_Uint64_def by (rule put_advance; simp add: go_len_def)+

lemma Int_emits [codec_intros]:
  "emits (enc_Int8 u) [u]" "emits (enc_Int16 v) (be16 v)" "emits (enc_Int32 w) (be32 w)"
  "emits (enc_Int64 x) (be64 x)"
  unfolding enc_Int8_def enc_Int16_def enc_Int32_def enc_Int64_def by (intro codec_intros)+

text \<open>One round of the copy loop.\<close>

lemma enc_copy_step:
  assumes "enc_inv e" "v \<noteq> []"
  shows "\<exists>n e1. n \<le> length v \<and> enc_inv e1 \<and> enc_out e1 = enc_out e @ take n v \<and>
    e_packetPos e1 = e_packetPos e + int n \<and> e_packetType e1 = e_packetType e \<and>
    e_packetLength e1 = e_packetLength e \<and> e_writer e1 = e_writer e \<and>
    (n = 0 \<longrightarrow> e_bufferPos e = int defaultBufferSize \<and> e_bufferPos e1 = int defaultBufferSize) \<and>
    enc_copy v e =
      (if e_bufferPos e1 \<ge> go_len (e_buffer e1) then do {
         (err, e) \<leftarrow> enc_Flush e1;
         if err = None then enc_copy (drop n v) e else Some (err, e)
       } else enc_copy (drop n v) e1)"
proof -
  let ?sp = "drop (nat (e_bufferPos e)) (e_buffer e)"
  let ?n = "min (length ?sp) (length v)"
  have sp: "go_slice (e_buffer e) (e_bufferPos e) (go_len (e_buffer e)) = Some ?sp"
    using assms(1) by (simp add: go_slice_def enc_inv_def go_len_def)
  have fit: "e_bufferPos e + go_len (take ?n v) \<le> int defaultBufferSize"
    using assms(1) by (auto simp: enc_inv_def go_len_def min_def)
  from go_put_Some [of "e_bufferPos e" "take ?n v" "e_buffer e"] assms(1) fit obtain buf where
    b: "go_put (e_buffer e) (e_bufferPos e) (take ?n v) = Some buf" "length buf = length (e_buffer e)"
    "take (nat (e_bufferPos e) + ?n) buf = take (nat (e_bufferPos e)) (e_buffer e) @ take ?n v"
    by (auto simp: enc_inv_def go_len_def)
  define e1 where "e1 = e\<lparr>e_buffer := buf, e_bufferPos := e_bufferPos e + int ?n,
    e_packetPos := e_packetPos e + int ?n\<rparr>"
  have "enc_copy v e =
      (if e_bufferPos e1 \<ge> go_len (e_buffer e1) then do {
         (err, e) \<leftarrow> enc_Flush e1;
         if err = None then enc_copy (drop ?n v) e else Some (err, e)
       } else enc_copy (drop ?n v) e1)"
    using assms(2) sp b(1) by (subst enc_copy.simps) (simp add: e1_def Let_def)
  moreover have "enc_inv e1" using assms(1) b(2) fit by (auto simp: enc_inv_def e1_def go_len_def)
  moreover have "enc_out e1 = enc_out e @ take ?n v"
    using b(3) assms(1) by (simp add: enc_out_def e1_def enc_inv_def nat_add_distrib)
  moreover have "?n = 0 \<longrightarrow> e_bufferPos e = int defaultBufferSize \<and> e_bufferPos e1 = int defaultBufferSize"
    using assms by (auto simp: e1_def enc_inv_def min_def split: if_splits)
  ultimately show ?thesis
    by (intro exI [of _ ?n] exI [of _ e1]) (auto simp: e1_def)
qed

lemma enc_copy_emits: "emits (enc_copy v) v"
proof (rule emits_rawI)
  fix e assume "enc_inv e"
  then show "\<exists>r e'. enc_copy v e = Some (r, e') \<and> enc_inv e' \<and>
     (r = None \<longrightarrow> enc_out e' = enc_out e @ v \<and> e_packetPos e' = e_packetPos e + go_len v \<and>
        e_packetType e' = e_packetType e \<and> e_packetLength e' = e_packetLength e) \<and>
     (no_faults e \<longrightarrow> r = None \<and> no_faults e')" (is "?P v e")
  proof (induction "2 * length v + (if e_bufferPos e = int defaultBufferSize then 1 else 0)"
      arbitrary: v e rule: less_induct)
    case less
    show ?case
    proof (cases "v = []")
      case True
      with less.prems show ?thesis by (subst enc_copy.simps) (simp add: go_len_def)
    next
      case False
      from enc_copy_step [OF less.prems False] obtain n e1 where s: "n \<le> length v" "enc_inv e1"
        "enc_out e1 = enc_out e @ take n v" "e_packetPos e1 = e_packetPos e + int n"
        "e_packetType e1 = e_packetType e" "e_packetLength e1 = e_packetLength e"
        "e_writer e1 = e_writer e"
        "n = 0 \<longrightarrow> e_bufferPos e = int defaultBufferSize \<and> e_bufferPos e1 = int defaultBufferSize"
        "enc_copy v e =
          (if e_bufferPos e1 \<ge> go_len (e_buffer e1) then do {
             (err, e) \<leftarrow> enc_Flush e1;
             if err = None then enc_copy (drop n v) e else Some (err, e)
           } else enc_copy (drop n v) e1)"
        by (elim exE conjE) rule
      have nf: "no_faults e1 = no_faults e" using s(7) by (simp add: no_faults_def)
      show ?thesis
      proof (cases "e_bufferPos e1 \<ge> go_len (e_buffer e1)")
        case False
        with s(2,8) have "n \<noteq> 0" by (auto simp: enc_inv_def go_len_def)
        then have "?P (drop n v) e1" by (intro less.hyps) (use s(1,2) in auto)
        with s False nf show ?thesis by (auto simp: go_len_def)
      next
        case True
        from emits_rawE [OF Flush_emits s(2)] obtain r e2 where f: "enc_Flush e1 = Some (r, e2)"
          "enc_inv e2" "r = None \<Longrightarrow> enc_out e2 = enc_out e1 @ []"
          "r = None \<Longrightarrow> e_packetPos e2 = e_packetPos e1 + 0"
          "r = None \<Longrightarrow> e_packetType e2 = e_packetType e1"
          "r = None \<Longrightarrow> e_packetLength e2 = e_packetLength e1"
          "no_faults e1 \<Longrightarrow> r = None" "no_faults e1 \<Longrightarrow> no_faults e2" by metis
        have "?P (drop n v) e2"
          by (rule less.hyps) (use f(2) s(1,8) False Flush_pos [OF f(1)] in auto)
        with s f True nf show ?thesis
          by (cases r) (auto simp: go_len_def)
      qed
    qed
  qed
qed

lemma writeByte_emits: "emits_raw (enc_writeByte b) [b] 0"
  unfolding enc_writeByte_def by (rule put_emits) simp

lemma String_emits: "emits (enc_String v) (bytes_of v @ [0])"
  using emits_raw_seq [OF enc_copy_emits emits_raw_seq [OF writeByte_emits advance_emits],
      of "bytes_of v" 0 1]
  by (simp add: enc_String_def go_len_def add.commute)

text \<open>The header of a packet: the type byte unless it is 0, then the length including itself.\<close>

definition header :: "byte \<Rightarrow> int \<Rightarrow> byte list" where
  "header typ len = (if typ \<noteq> 0 then [typ] else []) @ be32 (word_of_int (len + 4))"

lemma Next_ok:
  assumes "enc_inv e" "e_packetPos e = e_packetLength e"
  shows "\<exists>r e'. enc_Next typ len e = Some (r, e') \<and> enc_inv e' \<and>
    (r = None \<longrightarrow> enc_out e' = enc_out e @ header typ len \<and> e_packetType e' = typ \<and>
       e_packetLength e' = len \<and> e_packetPos e' = 0) \<and>
    (no_faults e \<longrightarrow> r = None \<and> no_faults e')"
proof -
  let ?A = "enc_seq (if typ \<noteq> 0 then enc_writeByte typ else enc_skip)
    (enc_put (be32 (word_of_int (len + 4))))"
  let ?S = "\<lambda>e. Some (None, e\<lparr>e_packetType := typ, e_packetLength := len, e_packetPos := 0\<rparr>)"
  have assoc: "enc_Next typ len e = enc_seq ?A ?S e"
    using assms(2) by (auto simp: enc_Next_def enc_seq_def split: Option.bind_splits option.splits)
  have "emits_raw enc_skip [] 0" using emits_skip by (simp add: go_len_def)
  then have "emits_raw ?A (header typ len) (0 + 0)"
    unfolding header_def by (intro emits_raw_seq put_emits) (auto intro: writeByte_emits)
  from emits_rawE [OF this assms(1)] obtain r e1 where a: "?A e = Some (r, e1)" "enc_inv e1"
    "r = None \<Longrightarrow> enc_out e1 = enc_out e @ header typ len" "no_faults e \<Longrightarrow> r = None"
    "no_faults e \<Longrightarrow> no_faults e1" by metis
  show ?thesis
    unfolding assoc enc_seq_def [of ?A ?S]
    using a by (cases r) (auto simp: enc_inv_def enc_out_def no_faults_def)
qed

lemma Next_wrong_count: "e_packetPos e \<noteq> e_packetLength e \<Longrightarrow>
  enc_Next typ len e = Some (Some ErrWrongNumberOfBytes, e)"
  by (simp add: enc_Next_def)

lemma enc_inv_New [simp]: "enc_inv (NewEncoder w)"
  by (simp add: enc_inv_def NewEncoder_def)

lemma enc_out_New [simp]: "enc_out (NewEncoder w) = w_sink w"
  by (simp add: enc_out_def NewEncoder_def)

text \<open>After a flush that reported no error everything has reached the sink.\<close>

lemma Flush_sink:
  assumes "enc_inv e" "enc_Flush e = Some (None, e')"
  shows "w_sink (e_writer e') = enc_out e" "enc_inv e'" "enc_out e' = enc_out e"
proof -
  from emits_rawE [OF Flush_emits assms(1)] assms(2) show f: "enc_inv e'" "enc_out e' = enc_out e"
    by force+
  from f(2) Flush_pos [OF assms(2)] show "w_sink (e_writer e') = enc_out e"
    by (simp add: enc_out_def)
qed

end
