(* ===== verification/Fed_Decoder.thy ===== *)
theory Fed_Decoder
  imports Fed_Base
begin

text \<open>
  The buffered packet decoder of \<^verbatim>\<open>lib/fed/decoder.go\<close>.  The \<^verbatim>\<open>io.Reader\<close> behind it is a script: a list of
  chunks, each with an optional error that the read finishing the chunk reports along with the bytes;
  a read takes as much of the first chunk as fits, and past the end of the script it reports \<open>EOF\<close>.
  Chunks may be empty.  A method that reads a value returns \<open>Inl err\<close> or \<open>Inr value\<close> and the new decoder,
  inside an option for panics; the value Go returns along with an error is not represented, every caller
  drops it.  Shown: no method panics or runs forever, whatever the reader does; and on a reader that
  reports no errors the values read do not depend on how the bytes were cut into chunks.
\<close>

section \<open>State\<close>

type_synonym reader = "(byte list \<times> go_error option) list"

fun Reader_Read :: "nat \<Rightarrow> reader \<Rightarrow> byte list \<times> go_error option \<times> reader" where
  "Reader_Read k [] = ([], Some EOF, [])"
| "Reader_Read k ((bs, err) # rs) =
     (if length bs > k then (take k bs, None, (drop k bs, err) # rs) else (bs, err, rs))"

record decoder =
  d_buffer :: "byte list"
  d_bufferWrite :: int
  d_bufferRead :: int
  d_reader :: reader
  d_packetType :: byte
  d_packetLength :: int
  d_packetPos :: int

type_synonym 'a dec = "decoder \<Rightarrow> ((go_error + 'a) \<times> decoder) option"

definition dec_Reset :: "reader \<Rightarrow> decoder \<Rightarrow> decoder" where
  "dec_Reset r d = d\<lparr>d_packetLength := 0, d_packetPos := 0, d_bufferRead := 0, d_bufferWrite := 0,
     d_reader := r\<rparr>"

definition NewDecoder :: "reader \<Rightarrow> decoder" where
  "NewDecoder r = dec_Reset r
     \<lparr>d_buffer = replicate defaultBufferSize 0, d_bufferWrite = 0, d_bufferRead = 0, d_reader = [],
      d_packetType = 0, d_packetLength = 0, d_packetPos = 0\<rparr>"

text \<open>\<^verbatim>\<open>CloneDecoder\<close>: a copy with another reader; nil stands for the reader that is at its end.\<close>

definition CloneDecoder :: "decoder \<Rightarrow> reader option \<Rightarrow> decoder" where
  "CloneDecoder d r = d\<lparr>d_reader := (case r of None \<Rightarrow> [] | Some r \<Rightarrow> r)\<rparr>"

section \<open>Sequencing\<close>

text \<open>\<^verbatim>\<open>x, err := m(); if err != nil { return err }\<close> followed by the rest.\<close>

definition dec_bind :: "'a dec \<Rightarrow> ('a \<Rightarrow> 'b dec) \<Rightarrow> 'b dec" where
  "dec_bind m f d = do {
     (r, d) \<leftarrow> m d;
     case r of Inl err \<Rightarrow> Some (Inl err, d) | Inr x \<Rightarrow> f x d
   }"

definition dec_return :: "'a \<Rightarrow> 'a dec" where
  "dec_return x d = Some (Inr x, d)"

definition dec_fail :: "go_error \<Rightarrow> 'a dec" where
  "dec_fail err d = Some (Inl err, d)"

section \<open>Raw reads\<close>

definition dec_refill :: "decoder \<Rightarrow> (go_error option \<times> decoder) option" where
  "dec_refill d =
     (if d_bufferWrite d \<ge> go_len (d_buffer d) then Some (None, d)
      else do {
        space \<leftarrow> go_slice (d_buffer d) (d_bufferWrite d) (go_len (d_buffer d));
        let (bs, err, r) = Reader_Read (length space) (d_reader d);
        buf \<leftarrow> go_put (d_buffer d) (d_bufferWrite d) bs;
        Some (err, d\<lparr>d_buffer := buf, d_bufferWrite := d_bufferWrite d + go_len bs, d_reader := r\<rparr>)
      })"

text \<open>\<^verbatim>\<open>T.bufferRead += n\<close>, and both positions back to 0 when the buffer is drained.\<close>

definition dec_consume :: "int \<Rightarrow> decoder \<Rightarrow> decoder" where
  "dec_consume n d =
     (if d_bufferRead d + n = d_bufferWrite d then d\<lparr>d_bufferRead := 0, d_bufferWrite := 0\<rparr>
      else d\<lparr>d_bufferRead := d_bufferRead d + n\<rparr>)"

partial_function (option) dec_discard :: "int \<Rightarrow> decoder \<Rightarrow> (go_error option \<times> decoder) option" where
  "dec_discard n d =
     (if n \<le> 0 then Some (None, d)
      else if d_bufferWrite d \<noteq> 0 then
        let count = min n (d_bufferWrite d - d_bufferRead d);
            d' = dec_consume count d in
        if d_bufferRead d + count = d_bufferWrite d then do {
          (err, d') \<leftarrow> dec_refill d';
          if err = None then dec_discard (n - count) d' else Some (err, d')
        } else Some (None, d')
      else do {
        (err, d) \<leftarrow> dec_refill d;
        if err = None then dec_discard n d else Some (err, d)
      })"

text \<open>\<^verbatim>\<open>read\<close> into a slice of length \<open>k\<close>: the bytes copied, the error, the decoder.\<close>

definition dec_read :: "nat \<Rightarrow> decoder \<Rightarrow> (byte list \<times> go_error option \<times> decoder) option" where
  "dec_read k d =
     (if k = 0 then Some ([], None, d)
      else if d_bufferWrite d \<noteq> 0 then do {
        avail \<leftarrow> go_slice (d_buffer d) (d_bufferRead d) (d_bufferWrite d);
        let n = min k (length avail);
        Some (take n avail, None, dec_consume (int n) d)
      }
      else if k > length (d_buffer d) then
        let (bs, err, r) = Reader_Read k (d_reader d) in Some (bs, err, d\<lparr>d_reader := r\<rparr>)
      else do {
        (err, d) \<leftarrow> dec_refill d;
        avail \<leftarrow> go_slice (d_buffer d) (d_bufferRead d) (d_bufferWrite d);
        let n = min k (length avail);
        Some (take n avail, err, dec_consume (int n) d)
      })"

text \<open>The loop of \<^verbatim>\<open>readFull\<close>; \<open>acc\<close> is the part of the slice already filled.\<close>

partial_function (option) dec_readFull ::
  "nat \<Rightarrow> byte list \<Rightarrow> decoder \<Rightarrow> (byte list \<times> go_error option \<times> decoder) option" where
  "dec_readFull k acc d =
     (if length acc < k then do {
        (bs, err, d) \<leftarrow> dec_read (k - length acc) d;
        let acc = acc @ bs;
        case err of
          Some err \<Rightarrow> Some (acc, Some (if err = EOF \<and> acc \<noteq> [] then ErrUnexpectedEOF else err), d)
        | None \<Rightarrow> dec_readFull k acc d
      } else Some (acc, None, d))"

declare dec_discard.simps [code] dec_readFull.simps [code]

section \<open>Methods\<close>

definition dec_Read :: "nat \<Rightarrow> decoder \<Rightarrow> (byte list \<times> go_error option \<times> decoder) option" where
  "dec_Read k d = (let rem = d_packetLength d - d_packetPos d in
     if rem = 0 then Some ([], Some EOF, d)
     else do {
       _ \<leftarrow> (if int k > rem then if 0 \<le> rem then Some () else None else Some ());
       (bs, err, d) \<leftarrow> (if int k > rem then dec_read (nat rem) d else dec_read k d);
       Some (bs, err, d\<lparr>d_packetPos := d_packetPos d + go_len bs\<rparr>)
     })"

definition dec_Buffered :: "decoder \<Rightarrow> int" where
  "dec_Buffered d = d_bufferWrite d - d_bufferRead d"

text \<open>A fixed-size value: fill \<^verbatim>\<open>decodeBuf[:k]\<close>, advance the packet position also on an error.\<close>

definition dec_fixed :: "nat \<Rightarrow> (byte list \<Rightarrow> 'a) \<Rightarrow> 'a dec" where
  "dec_fixed k f d = do {
     (bs, err, d) \<leftarrow> dec_readFull k [] d;
     let d = d\<lparr>d_packetPos := d_packetPos d + int k\<rparr>;
     Some (case err of Some err \<Rightarrow> Inl err | None \<Rightarrow> Inr (f bs), d)
   }"

definition dec_Uint8 :: "byte dec" where "dec_Uint8 = dec_fixed 1 hd"
definition dec_Uint16 :: "16 word dec" where "dec_Uint16 = dec_fixed 2 of_be16"
definition dec_Uint32 :: "32 word dec" where "dec_Uint32 = dec_fixed 4 of_be32"
definition dec_Uint64 :: "64 word dec" where "dec_Uint64 = dec_fixed 8 of_be64"
definition dec_Int8 :: "8 word dec" where "dec_Int8 = dec_Uint8"
definition dec_Int16 :: "16 word dec" where "dec_Int16 = dec_Uint16"
definition dec_Int32 :: "32 word dec" where "dec_Int32 = dec_Uint32"
definition dec_Int64 :: "64 word dec" where "dec_Int64 = dec_Uint64"
definition dec_Float32 :: "32 word dec" where "dec_Float32 = dec_Uint32"
definition dec_Float64 :: "64 word dec" where "dec_Float64 = dec_Uint64"

text \<open>Skip what is left of the current packet; the common start of \<^verbatim>\<open>ReadByte\<close> and \<^verbatim>\<open>Next\<close>.\<close>

definition dec_finish :: "decoder \<Rightarrow> (go_error option \<times> decoder) option" where
  "dec_finish d = (let rem = d_packetLength d - d_packetPos d in
     if rem < 0 then Some (Some ErrOverranReadBuffer, d)
     else if rem > 0 then dec_discard rem d
     else Some (None, d))"

definition dec_ReadByte :: "byte dec" where
  "dec_ReadByte d = do {
     (err, d) \<leftarrow> dec_finish d;
     case err of Some err \<Rightarrow> Some (Inl err, d)
     | None \<Rightarrow> do {
         (bs, err, d) \<leftarrow> dec_readFull 1 [] (d\<lparr>d_packetType := 0, d_packetLength := 0, d_packetPos := 0\<rparr>);
         Some (case err of Some err \<Rightarrow> Inl err | None \<Rightarrow> Inr (hd bs), d)
       }
   }"

definition dec_Next :: "bool \<Rightarrow> unit dec" where
  "dec_Next typed d = do {
     (err, d) \<leftarrow> dec_finish d;
     case err of Some err \<Rightarrow> Some (Inl err, d)
     | None \<Rightarrow> do {
         (bs, err, d) \<leftarrow> dec_readFull (if typed then 5 else 4) [] d;
         case err of Some err \<Rightarrow> Some (Inl err, d)
         | None \<Rightarrow>
             Some (Inr (), d\<lparr>d_packetType := (if typed then hd bs else 0),
               d_packetLength := uint (of_be32 (if typed then tl bs else bs)) - 4,
               d_packetPos := 0\<rparr>)
       }
   }"

text \<open>
  \<^verbatim>\<open>String\<close>.  \<open>dec_scan\<close> looks for the zero byte in the buffer and takes the string up to it;
  \<open>dec_String_loop\<close> is the refilling loop with the string built so far.
\<close>

definition dec_scan :: "byte list \<Rightarrow> decoder \<Rightarrow> (byte list option \<times> decoder) option" where
  "dec_scan built d = do {
     avail \<leftarrow> go_slice (d_buffer d) (d_bufferRead d) (d_bufferWrite d);
     let s = takeWhile (\<lambda>b. b \<noteq> 0) avail;
     if length s < length avail then
       Some (Some (built @ s), (dec_consume (go_len s + 1) d)
         \<lparr>d_packetPos := d_packetPos d + go_len (built @ s) + 1\<rparr>)
     else Some (None, d)
   }"

partial_function (option) dec_String_loop :: "byte list \<Rightarrow> decoder \<Rightarrow> ((go_error + string) \<times> decoder) option" where
  "dec_String_loop built d = do {
     (err, d) \<leftarrow> dec_refill d;
     case err of
       Some err \<Rightarrow> Some (Inl err, d\<lparr>d_packetPos := d_packetPos d + go_len built\<rparr>)
     | None \<Rightarrow> do {
         (res, d') \<leftarrow> dec_scan built d;
         case res of
           Some s \<Rightarrow> Some (Inr (string_of s), d')
         | None \<Rightarrow> do {
             avail \<leftarrow> go_slice (d_buffer d) (d_bufferRead d) (d_bufferWrite d);
             dec_String_loop (built @ avail) (d\<lparr>d_bufferRead := 0, d_bufferWrite := 0\<rparr>)
           }
       }
   }"

declare dec_String_loop.simps [code]

definition dec_String :: "string dec" where
  "dec_String d = do {
     (err, d) \<leftarrow> (if d_bufferWrite d = 0 then dec_refill d else Some (None, d));
     case err of
       Some err \<Rightarrow> Some (Inl err, d)
     | None \<Rightarrow> do {
         (res, d') \<leftarrow> dec_scan [] d;
         case res of
           Some s \<Rightarrow> Some (Inr (string_of s), d')
         | None \<Rightarrow> do {
             avail \<leftarrow> go_slice (d_buffer d) (d_bufferRead d) (d_bufferWrite d);
             dec_String_loop avail (d\<lparr>d_bufferRead := 0, d_bufferWrite := 0\<rparr>)
           }
       }
   }"

section \<open>The byte stream behind a decoder\<close>

definition dec_inv :: "decoder \<Rightarrow> bool" where
  "dec_inv d \<longleftrightarrow> length (d_buffer d) = defaultBufferSize \<and> 0 \<le> d_bufferRead d \<and>
     d_bufferRead d \<le> d_bufferWrite d \<and> d_bufferWrite d \<le> int defaultBufferSize \<and>
     (d_bufferRead d = d_bufferWrite d \<longrightarrow> d_bufferWrite d = 0)"

definition buffered :: "decoder \<Rightarrow> byte list" where
  "buffered d = take (nat (d_bufferWrite d - d_bufferRead d)) (drop (nat (d_bufferRead d)) (d_buffer d))"

text \<open>The bytes still to come: those in the buffer, then those of the reader.\<close>

definition dec_stream :: "decoder \<Rightarrow> byte list" where
  "dec_stream d = buffered d @ concat (map fst (d_reader d))"

text \<open>A reader that reports no error before its end.\<close>

definition clean :: "decoder \<Rightarrow> bool" where
  "clean d \<longleftrightarrow> list_all (\<lambda>c. snd c = None) (d_reader d)"

text \<open>\<open>d'\<close> is \<open>d\<close> after it consumed \<open>bs\<close> from the stream.\<close>

definition dec_step :: "decoder \<Rightarrow> byte list \<Rightarrow> decoder \<Rightarrow> bool" where
  "dec_step d bs d' \<longleftrightarrow> dec_inv d' \<and> dec_stream d = bs @ dec_stream d' \<and>
     length (d_reader d') \<le> length (d_reader d) \<and>
     length (concat (map fst (d_reader d'))) \<le> length (concat (map fst (d_reader d))) \<and> d_packetType d' = d_packetType d \<and>
     d_packetLength d' = d_packetLength d \<and> (clean d \<longrightarrow> clean d')"

text \<open>Every raw read makes the weight smaller or reports an error, so the loops end.\<close>

definition weight :: "decoder \<Rightarrow> nat" where
  "weight d = length (dec_stream d) + length (d_reader d)"

lemma dec_step_refl: "dec_inv d \<Longrightarrow> dec_step d [] d"
  by (simp add: dec_step_def)

lemma dec_step_trans: "dec_step d bs d1 \<Longrightarrow> dec_step d1 cs d2 \<Longrightarrow> dec_step d (bs @ cs) d2"
  by (auto simp: dec_step_def)

lemma dec_step_weight: "dec_step d bs d' \<Longrightarrow> weight d' + length bs \<le> weight d"
  by (simp add: dec_step_def weight_def)

lemma dec_step_inv: "dec_step d bs d' \<Longrightarrow> dec_inv d'"
  by (simp add: dec_step_def)

lemma dec_step_pos [simp]:
  "dec_step d bs (d'\<lparr>d_packetPos := n\<rparr>) = dec_step d bs d'"
  "dec_step (d\<lparr>d_packetPos := n\<rparr>) bs d' = dec_step d bs d'"
  "weight (d\<lparr>d_packetPos := n\<rparr>) = weight d" "dec_inv (d\<lparr>d_packetPos := n\<rparr>) = dec_inv d"
  "dec_stream (d\<lparr>d_packetPos := n\<rparr>) = dec_stream d" "clean (d\<lparr>d_packetPos := n\<rparr>) = clean d"
  by (simp_all add: dec_step_def weight_def dec_inv_def dec_stream_def clean_def buffered_def)

lemma dec_inv_New [simp]: "dec_inv (NewDecoder r)"
  by (simp add: dec_inv_def NewDecoder_def dec_Reset_def)

lemma Clone_buffered:
  assumes "dec_inv d"
  shows "dec_inv (CloneDecoder d None)" "dec_stream (CloneDecoder d None) = buffered d"
  using assms by (simp_all add: CloneDecoder_def dec_inv_def dec_stream_def buffered_def)

lemma dec_stream_New [simp]: "dec_stream (NewDecoder r) = concat (map fst r)"
  by (simp add: dec_stream_def NewDecoder_def dec_Reset_def buffered_def)

lemma avail: "dec_inv d \<Longrightarrow> go_slice (d_buffer d) (d_bufferRead d) (d_bufferWrite d) = Some (buffered d)"
  by (simp add: dec_inv_def go_slice_def buffered_def go_len_def)

lemma length_buffered: "dec_inv d \<Longrightarrow> int (length (buffered d)) = d_bufferWrite d - d_bufferRead d"
  by (auto simp: dec_inv_def buffered_def)

lemma buffered_empty: "dec_inv d \<Longrightarrow> buffered d = [] \<longleftrightarrow> d_bufferWrite d = 0"
  using length_buffered [of d] by (auto simp: dec_inv_def simp flip: length_0_conv)

lemma consume_ok:
  assumes "dec_inv d" "n \<le> length (buffered d)"
  shows "dec_step d (take n (buffered d)) (dec_consume (int n) d)"
    "buffered (dec_consume (int n) d) = drop n (buffered d)"
    "d_packetPos (dec_consume (int n) d) = d_packetPos d"
    "d_reader (dec_consume (int n) d) = d_reader d"
proof -
  have bd: "buffered (dec_consume (int n) d) = drop n (buffered d)"
  proof (cases "d_bufferRead d + int n = d_bufferWrite d")
    case True
    with assms have "length (buffered d) = n" using length_buffered [of d] by simp
    with True show ?thesis by (simp add: dec_consume_def buffered_def)
  next
    case False
    have "nat (d_bufferRead d + int n) = n + nat (d_bufferRead d)"
      "nat (d_bufferWrite d - (d_bufferRead d + int n)) = nat (d_bufferWrite d - d_bufferRead d) - n"
      using assms(1) by (auto simp: dec_inv_def)
    with False show ?thesis by (simp add: dec_consume_def buffered_def drop_take)
  qed
  then show "buffered (dec_consume (int n) d) = drop n (buffered d)" .
  have "dec_inv (dec_consume (int n) d)"
    using assms length_buffered [OF assms(1)] by (auto simp: dec_consume_def dec_inv_def)
  with bd show "dec_step d (take n (buffered d)) (dec_consume (int n) d)"
    by (simp add: dec_step_def dec_stream_def clean_def)
      (simp add: dec_consume_def)
qed (simp_all add: dec_consume_def)

lemma refill_ok:
  assumes "dec_inv d" "d_bufferWrite d = 0"
  shows "\<exists>err d'. dec_refill d = Some (err, d') \<and> dec_step d [] d' \<and> d_packetPos d' = d_packetPos d \<and>
    (err = None \<longrightarrow> buffered d' \<noteq> [] \<or> length (d_reader d') < length (d_reader d)) \<and>
    (clean d \<longrightarrow> err = (if d_reader d = [] then Some EOF else None))"
proof -
  have br: "d_bufferRead d = 0" using assms by (simp add: dec_inv_def)
  have sl: "go_slice (d_buffer d) 0 (go_len (d_buffer d)) = Some (d_buffer d)"
    by (simp add: go_slice_def go_len_def)
  obtain bs err r where rd: "Reader_Read (length (d_buffer d)) (d_reader d) = (bs, err, r)"
    by (cases "Reader_Read (length (d_buffer d)) (d_reader d)") auto
  have r: "length bs \<le> length (d_buffer d)" "concat (map fst (d_reader d)) = bs @ concat (map fst r)"
    "length r \<le> length (d_reader d)" "clean d \<longrightarrow> list_all (\<lambda>c. snd c = None) r"
    "err = None \<longrightarrow> bs \<noteq> [] \<or> length r < length (d_reader d)"
    "clean d \<longrightarrow> err = (if d_reader d = [] then Some EOF else None)"
    using rd assms(1) by (cases "d_reader d"; auto simp: clean_def dec_inv_def split: if_splits)+
  have put: "go_put (d_buffer d) 0 bs = Some (bs @ drop (length bs) (d_buffer d))"
    using r(1) by (simp add: go_put_def go_len_def)
  define d' where "d' = d\<lparr>d_buffer := bs @ drop (length bs) (d_buffer d), d_bufferWrite := go_len bs,
    d_reader := r\<rparr>"
  have "dec_refill d = Some (err, d')"
    using assms sl rd put by (simp add: dec_refill_def d'_def dec_inv_def go_len_def)
  moreover have bd: "buffered d' = bs" using br by (simp add: buffered_def d'_def go_len_def)
  moreover have "dec_step d [] d'"
    using assms br r bd
    by (auto simp: dec_step_def dec_inv_def d'_def dec_stream_def clean_def go_len_def buffered_empty
        buffered_def [of d])
  ultimately show ?thesis using r by (auto simp: d'_def)
qed

lemma refill_weight:
  assumes "dec_inv d" "d_bufferWrite d = 0" "dec_refill d = Some (None, d')"
  shows "buffered d' \<noteq> [] \<or> weight d' < weight d"
  using refill_ok [OF assms(1,2)] assms(3) by (auto simp: dec_step_def weight_def)

lemma read_ok:
  assumes "dec_inv d" "0 < k"
  shows "\<exists>bs err d'. dec_read k d = Some (bs, err, d') \<and> dec_step d bs d' \<and> length bs \<le> k \<and>
    d_packetPos d' = d_packetPos d \<and> (err = None \<longrightarrow> weight d' < weight d) \<and>
    (clean d \<longrightarrow> err = (if d_bufferWrite d = 0 \<and> d_reader d = [] then Some EOF else None))"
proof -
  consider (buf) "d_bufferWrite d \<noteq> 0" | (direct) "d_bufferWrite d = 0" "k > length (d_buffer d)"
    | (fill) "d_bufferWrite d = 0" "\<not> k > length (d_buffer d)" by blast
  then show ?thesis
  proof cases
    case buf
    define n where "n = min k (length (buffered d))"
    have "buffered d \<noteq> []" using buf assms(1) by (simp add: buffered_empty)
    then have n: "0 < n" "n \<le> length (buffered d)" "n \<le> k" using assms(2) by (auto simp: n_def)
    note c = consume_ok [OF assms(1) n(2)]
    have "dec_read k d = Some (take n (buffered d), None, dec_consume (int n) d)"
      using buf assms by (simp add: dec_read_def avail Let_def n_def)
    with dec_step_weight [OF c(1)] c n buf show ?thesis by simp
  next
    case direct
    obtain bs err r where rd: "Reader_Read k (d_reader d) = (bs, err, r)"
      by (cases "Reader_Read k (d_reader d)") auto
    have r: "length bs \<le> k" "concat (map fst (d_reader d)) = bs @ concat (map fst r)"
      "length r \<le> length (d_reader d)" "clean d \<longrightarrow> list_all (\<lambda>c. snd c = None) r"
      "err = None \<longrightarrow> length r < length bs + length (d_reader d)"
      "clean d \<longrightarrow> err = (if d_reader d = [] then Some EOF else None)"
      using rd assms by (cases "d_reader d"; auto simp: clean_def split: if_splits)+
    have "buffered d = []" using direct assms(1) by (simp add: buffered_empty)
    then have "dec_step d bs (d\<lparr>d_reader := r\<rparr>)" "err = None \<longrightarrow> weight (d\<lparr>d_reader := r\<rparr>) < weight d"
      using assms(1) r by (auto simp: dec_step_def dec_inv_def dec_stream_def clean_def buffered_def
          weight_def)
    with direct assms(2) rd r show ?thesis by (simp add: dec_read_def)
  next
    case fill
    from refill_ok [OF assms(1) fill(1)] obtain err d1 where f: "dec_refill d = Some (err, d1)"
      "dec_step d [] d1" "d_packetPos d1 = d_packetPos d"
      "clean d \<longrightarrow> err = (if d_reader d = [] then Some EOF else None)" by blast
    have d1: "dec_inv d1" using f(2) by (rule dec_step_inv)
    define n where "n = min k (length (buffered d1))"
    have rd: "dec_read k d = Some (take n (buffered d1), err, dec_consume (int n) d1)"
      using fill assms f(1) d1 by (simp add: dec_read_def avail Let_def n_def)
    have n: "n \<le> length (buffered d1)" "n \<le> k" by (auto simp: n_def)
    note c = consume_ok [OF d1 n(1)]
    have st: "dec_step d (take n (buffered d1)) (dec_consume (int n) d1)"
      using dec_step_trans [OF f(2) c(1)] by simp
    have "weight (dec_consume (int n) d1) < weight d" if "err = None"
    proof -
      have w: "weight (dec_consume (int n) d1) + n \<le> weight d1" "weight d1 \<le> weight d"
        using dec_step_weight [OF c(1)] dec_step_weight [OF f(2)] n by auto
      from refill_weight [OF assms(1) fill(1)] f(1) that
      have "0 < length (buffered d1) \<or> weight d1 < weight d" by blast
      then show ?thesis
      proof
        assume "0 < length (buffered d1)"
        then have "0 < n" using assms(2) by (simp add: n_def)
        with w show ?thesis by linarith
      qed (use w in linarith)
    qed
    with rd st f c n fill show ?thesis by auto
  qed
qed

lemma clean_stream_end:
  assumes "dec_inv d" "d_bufferWrite d = 0" "d_reader d = []"
  shows "dec_stream d = []"
  using assms by (simp add: dec_stream_def buffered_empty)

lemma readFull_ok:
  assumes "dec_inv d" "length acc \<le> k"
  shows "\<exists>bs err d'. dec_readFull k acc d = Some (acc @ bs, err, d') \<and> dec_step d bs d' \<and>
    d_packetPos d' = d_packetPos d \<and> (err = None \<longrightarrow> length (acc @ bs) = k) \<and>
    (clean d \<longrightarrow> (if k \<le> length acc + length (dec_stream d) then err = None
       else err = Some (if acc = [] \<and> dec_stream d = [] then EOF else ErrUnexpectedEOF)))"
  using assms
proof (induction "weight d" arbitrary: d acc rule: less_induct)
  case less
  show ?case
  proof (cases "length acc < k")
    case False
    then show ?thesis using less.prems dec_step_refl by (subst dec_readFull.simps) auto
  next
    case True
    from read_ok [OF less.prems(1), of "k - length acc"] True obtain bs err d1 where r:
      "dec_read (k - length acc) d = Some (bs, err, d1)" "dec_step d bs d1"
      "length bs \<le> k - length acc" "d_packetPos d1 = d_packetPos d"
      "err = None \<longrightarrow> weight d1 < weight d"
      "clean d \<longrightarrow> err = (if d_bufferWrite d = 0 \<and> d_reader d = [] then Some EOF else None)"
      by auto
    show ?thesis
    proof (cases err)
      case (Some e)
      have "dec_readFull k acc d =
          Some (acc @ bs, Some (if e = EOF \<and> acc @ bs \<noteq> [] then ErrUnexpectedEOF else e), d1)"
        using True r(1) Some by (subst dec_readFull.simps) simp
      moreover have "e = EOF \<and> dec_stream d = []" if "clean d"
        using that r(6) Some less.prems(1) clean_stream_end [of d] by (auto split: if_splits)
      ultimately show ?thesis using r True by (auto simp: dec_step_def)
    next
      case None
      with r(5) have w: "weight d1 < weight d" by simp
      have le: "length (acc @ bs) \<le> k" using r(3) True by simp
      from less.hyps [OF w dec_step_inv [OF r(2)] le] obtain cs err2 d2 where i:
        "dec_readFull k (acc @ bs) d1 = Some ((acc @ bs) @ cs, err2, d2)" "dec_step d1 cs d2"
        "d_packetPos d2 = d_packetPos d1" "err2 = None \<longrightarrow> length ((acc @ bs) @ cs) = k"
        "clean d1 \<longrightarrow> (if k \<le> length (acc @ bs) + length (dec_stream d1) then err2 = None
           else err2 = Some (if acc @ bs = [] \<and> dec_stream d1 = [] then EOF else ErrUnexpectedEOF))"
        by (elim exE conjE) rule
      have "dec_readFull k acc d = Some (acc @ bs @ cs, err2, d2)"
        using True r(1) None i(1) by (subst dec_readFull.simps) simp
      moreover have "dec_stream d = bs @ dec_stream d1" "clean d \<longrightarrow> clean d1"
        using r(2) by (auto simp: dec_step_def)
      ultimately show ?thesis using dec_step_trans [OF r(2) i(2)] r i by auto
    qed
  qed
qed

section \<open>Reading values\<close>

text \<open>
  \<open>total m\<close>: \<open>m\<close> always returns, and moves forward in the stream.  \<open>reads m bs v\<close>: on a reader without errors
  that holds \<open>bs\<close> next, \<open>m\<close> consumes \<open>bs\<close> and returns \<open>v\<close>, whatever the chunks are; \<open>reads_end m bs v\<close> is the
  same when \<open>bs\<close> is the rest of the packet.
\<close>

definition total :: "'a dec \<Rightarrow> bool" where
  "total m \<longleftrightarrow> (\<forall>d. dec_inv d \<longrightarrow> (\<exists>r d' bs. m d = Some (r, d') \<and> dec_step d bs d'))"

definition reads_if :: "bool \<Rightarrow> 'a dec \<Rightarrow> byte list \<Rightarrow> 'a \<Rightarrow> bool" where
  "reads_if fin m bs v \<longleftrightarrow> (\<forall>d rest. dec_inv d \<longrightarrow> clean d \<longrightarrow> dec_stream d = bs @ rest \<longrightarrow>
     (fin \<longrightarrow> d_packetPos d + go_len bs = d_packetLength d) \<longrightarrow>
     (\<exists>d'. m d = Some (Inr v, d') \<and> dec_step d bs d' \<and> d_packetPos d' = d_packetPos d + go_len bs))"

abbreviation "reads \<equiv> reads_if False"
abbreviation "reads_end \<equiv> reads_if True"

lemma reads_reads_if: "reads m bs v \<Longrightarrow> reads_if fin m bs v"
  by (simp add: reads_if_def)

lemma reads_bind:
  assumes "reads m bs v" "reads_if fin (f v) cs w"
  shows "reads_if fin (dec_bind m f) (bs @ cs) w"
  unfolding reads_if_def
proof (intro allI impI)
  fix d rest
  assume d: "dec_inv d" "clean d" "dec_stream d = (bs @ cs) @ rest"
    "fin \<longrightarrow> d_packetPos d + go_len (bs @ cs) = d_packetLength d"
  with assms(1) obtain d1 where a: "m d = Some (Inr v, d1)" "dec_step d bs d1"
    "d_packetPos d1 = d_packetPos d + go_len bs" by (force simp: reads_if_def)
  have "dec_inv d1" "clean d1" "dec_stream d1 = cs @ rest" "d_packetLength d1 = d_packetLength d"
    using a(2) d by (auto simp: dec_step_def)
  with assms(2) d(4) a(3) obtain d2 where b: "f v d1 = Some (Inr w, d2)" "dec_step d1 cs d2"
    "d_packetPos d2 = d_packetPos d1 + go_len cs" by (force simp: reads_if_def go_len_def)
  from a b dec_step_trans [OF a(2) b(2)] show "\<exists>d'. dec_bind m f d = Some (Inr w, d') \<and>
    dec_step d (bs @ cs) d' \<and> d_packetPos d' = d_packetPos d + go_len (bs @ cs)"
    by (simp add: dec_bind_def go_len_def)
qed

lemma reads_return: "v = w \<Longrightarrow> reads_if fin (dec_return v) [] w"
  by (auto simp: reads_if_def dec_return_def go_len_def dec_step_refl)

lemma total_bind [codec_intros]:
  assumes "total m" "\<And>v. total (f v)"
  shows "total (dec_bind m f)"
  unfolding total_def
proof (intro allI impI)
  fix d assume "dec_inv d"
  with assms(1) obtain r d1 bs where a: "m d = Some (r, d1)" "dec_step d bs d1"
    unfolding total_def by blast
  show "\<exists>r d' bs. dec_bind m f d = Some (r, d') \<and> dec_step d bs d'"
  proof (cases r)
    case (Inl e)
    with a show ?thesis by (auto simp: dec_bind_def)
  next
    case (Inr v)
    from assms(2) [of v] dec_step_inv [OF a(2)] obtain r2 d2 cs where
      "f v d1 = Some (r2, d2)" "dec_step d1 cs d2" unfolding total_def by blast
    with a Inr dec_step_trans [OF a(2)] show ?thesis by (fastforce simp: dec_bind_def)
  qed
qed

lemma total_return [codec_intros]: "total (dec_return v)"
  by (auto simp: total_def dec_return_def intro: dec_step_refl)

lemma total_fail [codec_intros]: "total (dec_fail e)"
  by (auto simp: total_def dec_fail_def intro: dec_step_refl)

lemma total_if [codec_intros]: "total m \<Longrightarrow> total n \<Longrightarrow> total (if b then m else n)"
  by simp

lemma fixed_total: "total (dec_fixed k f)"
  unfolding total_def
proof (intro allI impI)
  fix d assume "dec_inv d"
  from readFull_ok [OF this, of "[]" k] show "\<exists>r d' bs. dec_fixed k f d = Some (r, d') \<and> dec_step d bs d'"
    by (auto simp: dec_fixed_def split: option.split)
qed

lemma fixed_reads:
  assumes "length bs = k"
  shows "reads (dec_fixed k f) bs (f bs)"
  unfolding reads_if_def
proof (intro allI impI)
  fix d rest
  assume d: "dec_inv d" "clean d" "dec_stream d = bs @ rest"
  from readFull_ok [OF d(1), of "[]" k] d assms obtain cs d' where
    r: "dec_readFull k [] d = Some (cs, None, d')" "dec_step d cs d'" "d_packetPos d' = d_packetPos d"
    "length cs = k" by auto
  from r(2,4) d(3) assms have "cs = bs" by (auto simp: dec_step_def)
  with r assms show "\<exists>d'. dec_fixed k f d = Some (Inr (f bs), d') \<and> dec_step d bs d' \<and>
    d_packetPos d' = d_packetPos d + go_len bs" by (simp add: dec_fixed_def go_len_def)
qed

lemmas dec_int_defs = dec_Uint8_def dec_Uint16_def dec_Uint32_def dec_Uint64_def
  dec_Int8_def dec_Int16_def dec_Int32_def dec_Int64_def

lemma Uint_total [codec_intros]: "total dec_Uint8" "total dec_Uint16" "total dec_Uint32"
  "total dec_Uint64" "total dec_Int8" "total dec_Int16" "total dec_Int32" "total dec_Int64"
  by (simp_all add: dec_int_defs fixed_total)

lemma Uint_reads: "reads dec_Uint8 [u] u" "reads dec_Uint16 (be16 v) v"
  "reads dec_Uint32 (be32 w) w" "reads dec_Uint64 (be64 x) x" "reads dec_Int8 [u] u"
  "reads dec_Int16 (be16 v) v" "reads dec_Int32 (be32 w) w" "reads dec_Int64 (be64 x) x"
  using fixed_reads [of "[u]" 1 hd] fixed_reads [of "be16 v" 2 of_be16] fixed_reads [of "be32 w" 4 of_be32]
    fixed_reads [of "be64 x" 8 of_be64]
  by (simp_all add: dec_int_defs)

section \<open>Reading strings\<close>

lemma takeWhile_split:
  assumes "length (takeWhile P xs) < length xs"
  shows "\<exists>x ys. xs = takeWhile P xs @ x # ys \<and> \<not> P x"
proof -
  have "dropWhile P xs \<noteq> []" using assms by (metis append.right_neutral less_irrefl takeWhile_dropWhile_id)
  then obtain x ys where "dropWhile P xs = x # ys" by (cases "dropWhile P xs") auto
  moreover from this have "\<not> P x" using hd_dropWhile [of P xs] by simp
  ultimately show ?thesis using takeWhile_dropWhile_id [of P xs] by metis
qed

lemma scan_ok:
  assumes "dec_inv d"
  shows "(\<exists>s d'. dec_scan built d = Some (Some (built @ s), d') \<and> 0 \<notin> set s \<and> dec_step d (s @ [0]) d' \<and>
      d_packetPos d' = d_packetPos d + go_len (built @ s) + 1)
    \<or> (dec_scan built d = Some (None, d) \<and> 0 \<notin> set (buffered d))"
proof -
  let ?s = "takeWhile (\<lambda>b. b \<noteq> 0) (buffered d)"
  show ?thesis
  proof (cases "length ?s < length (buffered d)")
    case True
    from takeWhile_split [OF True] obtain ys where b: "buffered d = ?s @ 0 # ys" by auto
    have l: "length ?s + 1 \<le> length (buffered d)" using True by simp
    have "take (length ?s + 1) (buffered d) = ?s @ [0]" by (subst (2) b) simp
    with consume_ok [OF assms l] True show ?thesis
      using set_takeWhileD by (force simp: dec_scan_def avail assms go_len_def Let_def add.commute)
  next
    case False
    have "buffered d = ?s @ dropWhile (\<lambda>b. b \<noteq> 0) (buffered d)" by simp
    then have "buffered d = ?s" using False by (metis append_Nil2 length_append linorder_not_less
          not_add_less1 length_0_conv add_eq_self_zero le_neq_implies_less length_takeWhile_le)
    then have "0 \<notin> set (buffered d)" using set_takeWhileD [of 0 "\<lambda>b. b \<noteq> 0" "buffered d"] by metis
    with False show ?thesis by (simp add: dec_scan_def avail assms Let_def)
  qed
qed

lemma drain_ok:
  assumes "dec_inv d"
  shows "dec_step d (buffered d) (d\<lparr>d_bufferRead := 0, d_bufferWrite := 0\<rparr>)"
  using assms by (auto simp: dec_step_def dec_inv_def dec_stream_def buffered_def clean_def)

text \<open>What \<^verbatim>\<open>String\<close> promises when it has already built \<open>built\<close>.\<close>

definition string_ok :: "byte list \<Rightarrow> decoder \<Rightarrow> ((go_error + string) \<times> decoder) option \<Rightarrow> bool" where
  "string_ok built d res \<longleftrightarrow> (\<exists>r d' bs. res = Some (r, d') \<and> dec_step d bs d' \<and>
     (\<forall>v. r = Inr v \<longrightarrow> bytes_of v @ [0] = built @ bs \<and> 0 \<notin> set (bytes_of v) - set built \<and>
        d_packetPos d' = d_packetPos d + go_len (built @ bs)) \<and>
     (clean d \<and> 0 \<in> set (dec_stream d) \<longrightarrow> (\<exists>v. r = Inr v)))"

lemma scan_found:
  assumes "dec_inv d" "dec_scan built d = Some (Some s, d')"
  shows "string_ok built d (Some (Inr (string_of s), d'))"
  using scan_ok [OF assms(1), of built] assms(2) by (fastforce simp: string_ok_def go_len_def)

lemma string_ok_step:
  assumes "dec_step d bs d1" "d_packetPos d1 = d_packetPos d" "string_ok (built @ bs) d1 res" "0 \<notin> set bs"
  shows "string_ok built d res"
proof -
  from assms(3) obtain r d' cs where r: "res = Some (r, d')" "dec_step d1 cs d'"
    "\<forall>v. r = Inr v \<longrightarrow> bytes_of v @ [0] = (built @ bs) @ cs \<and> 0 \<notin> set (bytes_of v) - set (built @ bs) \<and>
        d_packetPos d' = d_packetPos d1 + go_len ((built @ bs) @ cs)"
    "clean d1 \<and> 0 \<in> set (dec_stream d1) \<longrightarrow> (\<exists>v. r = Inr v)"
    by (auto simp: string_ok_def)
  have "clean d \<longrightarrow> clean d1" "0 \<in> set (dec_stream d) \<longrightarrow> 0 \<in> set (dec_stream d1)"
    using assms(1,4) by (auto simp: dec_step_def)
  with dec_step_trans [OF assms(1) r(2)] r assms(2,4) show ?thesis
    unfolding string_ok_def by (intro exI [of _ r] exI [of _ d'] exI [of _ "bs @ cs"]) auto
qed

lemma string_ok_refill_error:
  assumes "dec_inv d" "d_bufferWrite d = 0" "dec_refill d = Some (Some err, d1)"
  shows "string_ok built d (Some (Inl err, d1\<lparr>d_packetPos := n\<rparr>))"
proof -
  from refill_ok [OF assms(1,2)] assms(3) have r: "dec_step d [] d1" "clean d \<longrightarrow> d_reader d = []"
    by (auto split: if_splits)
  then have "clean d \<longrightarrow> dec_stream d = []" using assms(1,2) by (auto intro: clean_stream_end)
  with r show ?thesis by (auto simp: string_ok_def)
qed

lemma String_loop_ok:
  assumes "dec_inv d" "d_bufferWrite d = 0"
  shows "string_ok built d (dec_String_loop built d)"
  using assms
proof (induction "weight d" arbitrary: d built rule: less_induct)
  case less
  from refill_ok [OF less.prems] obtain err d1 where f: "dec_refill d = Some (err, d1)" "dec_step d [] d1"
    "d_packetPos d1 = d_packetPos d" by blast
  have d1: "dec_inv d1" using f(2) by (rule dec_step_inv)
  show ?case
  proof (cases err)
    case (Some e)
    then have "dec_String_loop built d = Some (Inl e, d1\<lparr>d_packetPos := d_packetPos d1 + go_len built\<rparr>)"
      using f(1) by (subst dec_String_loop.simps) simp
    with string_ok_refill_error [OF less.prems] f(1) Some show ?thesis by simp
  next
    case None
    let ?d2 = "d1\<lparr>d_bufferRead := 0, d_bufferWrite := 0\<rparr>"
    note dr = drain_ok [OF d1]
    have loop: "dec_String_loop built d = (case dec_scan built d1 of None \<Rightarrow> None | Some (res, d') \<Rightarrow>
        (case res of Some s \<Rightarrow> Some (Inr (string_of s), d')
         | None \<Rightarrow> dec_String_loop (built @ buffered d1) ?d2))"
      using f(1) None avail [OF d1]
      by (subst dec_String_loop.simps) (auto split: option.split Option.bind_splits)
    have "string_ok built d1 (dec_String_loop built d)"
      using scan_ok [OF d1, of built]
    proof (elim disjE exE conjE)
      fix s d' assume "dec_scan built d1 = Some (Some (built @ s), d')"
      with scan_found [OF d1] loop show ?thesis by simp
    next
      assume n: "dec_scan built d1 = Some (None, d1)" "0 \<notin> set (buffered d1)"
      have "weight ?d2 < weight d"
        using refill_weight [OF less.prems] f(1) None dec_step_weight [OF f(2)] dec_step_weight [OF dr]
        by (auto simp flip: length_greater_0_conv)
      then have "string_ok (built @ buffered d1) ?d2 (dec_String_loop (built @ buffered d1) ?d2)"
        by (rule less.hyps) (use dec_step_inv [OF dr] in auto)
      then have "string_ok built d1 (dec_String_loop (built @ buffered d1) ?d2)"
        by (rule string_ok_step [OF dr _ _ n(2), rotated]) simp
      with n(1) loop show ?thesis by simp
    qed
    then show ?thesis
      by (intro string_ok_step [OF f(2,3)]) simp_all
  qed
qed

lemma String_ok:
  assumes "dec_inv d"
  shows "string_ok [] d (dec_String d)"
proof -
  have rest: "string_ok [] d1 (do {
         (res, d') \<leftarrow> dec_scan [] d1;
         case res of
           Some s \<Rightarrow> Some (Inr (string_of s), d')
         | None \<Rightarrow> do {
             avail \<leftarrow> go_slice (d_buffer d1) (d_bufferRead d1) (d_bufferWrite d1);
             dec_String_loop avail (d1\<lparr>d_bufferRead := 0, d_bufferWrite := 0\<rparr>)
           }
       })" if d1: "dec_inv d1" for d1
    using scan_ok [OF d1, of "[]"]
  proof (elim disjE exE conjE)
    fix s d' assume "dec_scan [] d1 = Some (Some ([] @ s), d')"
    with scan_found [OF d1] show ?thesis by simp
  next
    note dr = drain_ok [OF d1]
    assume n: "dec_scan [] d1 = Some (None, d1)" "0 \<notin> set (buffered d1)"
    have "string_ok ([] @ buffered d1) (d1\<lparr>d_bufferRead := 0, d_bufferWrite := 0\<rparr>)
      (dec_String_loop (buffered d1) (d1\<lparr>d_bufferRead := 0, d_bufferWrite := 0\<rparr>))"
      using String_loop_ok [OF dec_step_inv [OF dr]] by simp
    from string_ok_step [OF dr _ this n(2)] n(1) avail [OF d1] show ?thesis by simp
  qed
  show ?thesis
  proof (cases "d_bufferWrite d = 0")
    case False
    with rest [OF assms] show ?thesis by (simp add: dec_String_def)
  next
    case True
    from refill_ok [OF assms True] obtain err d1 where f: "dec_refill d = Some (err, d1)" "dec_step d [] d1"
      "d_packetPos d1 = d_packetPos d" by blast
    show ?thesis
    proof (cases err)
      case (Some e)
      with string_ok_refill_error [OF assms True, of e d1 "[]" "d_packetPos d1"] f(1) True show ?thesis
        by (simp add: dec_String_def)
    next
      case None
      have "string_ok [] d1 (dec_String d)"
        using rest [OF dec_step_inv [OF f(2)]] f(1) None True by (simp add: dec_String_def)
      with string_ok_step [OF f(2,3)] show ?thesis by simp
    qed
  qed
qed

lemma String_total [codec_intros]: "total dec_String"
  using String_ok by (fastforce simp: total_def string_ok_def)

lemma String_reads:
  assumes "0 \<notin> set (bytes_of v)"
  shows "reads dec_String (bytes_of v @ [0]) v"
  unfolding reads_if_def
proof (intro allI impI)
  fix d rest
  assume d: "dec_inv d" "clean d" "dec_stream d = (bytes_of v @ [0]) @ rest"
  from String_ok [OF d(1)] d obtain w d' where r: "dec_String d = Some (Inr w, d')"
    "dec_step d (bytes_of w @ [0]) d'" "0 \<notin> set (bytes_of w)"
    "d_packetPos d' = d_packetPos d + go_len (bytes_of w @ [0])"
    by (auto simp: string_ok_def)
  have "bytes_of w @ 0 # dec_stream d' = bytes_of v @ 0 # rest" using r(2) d(3) by (simp add: dec_step_def)
  then have "bytes_of w = bytes_of v" using r(3) assms by (rule append_terminated)
  then have "w = v" by (metis string_of_bytes_of)
  with r show "\<exists>d'. dec_String d = Some (Inr v, d') \<and> dec_step d (bytes_of v @ [0]) d' \<and>
    d_packetPos d' = d_packetPos d + go_len (bytes_of v @ [0])" by blast
qed

section \<open>Packet boundaries\<close>

definition discard_spec :: "int \<Rightarrow> decoder \<Rightarrow> (go_error option \<times> decoder) option \<Rightarrow> bool" where
  "discard_spec n d res \<longleftrightarrow> (\<exists>err d' bs. res = Some (err, d') \<and> dec_step d bs d' \<and>
     d_packetPos d' = d_packetPos d \<and> (err = None \<longrightarrow> go_len bs = n) \<and>
     (clean d \<and> n < go_len (dec_stream d) \<longrightarrow> err = None))"

lemma discard_spec_step:
  assumes "dec_step d bs d1" "d_packetPos d1 = d_packetPos d" "discard_spec (n - go_len bs) d1 res"
  shows "discard_spec n d res"
proof -
  from assms(3) obtain err d' cs where r: "res = Some (err, d')" "dec_step d1 cs d'"
    "d_packetPos d' = d_packetPos d1" "err = None \<longrightarrow> go_len cs = n - go_len bs"
    "clean d1 \<and> n - go_len bs < go_len (dec_stream d1) \<longrightarrow> err = None"
    by (auto simp: discard_spec_def)
  have "clean d \<longrightarrow> clean d1" "go_len (dec_stream d) = go_len bs + go_len (dec_stream d1)"
    using assms(1) by (auto simp: dec_step_def go_len_def)
  with dec_step_trans [OF assms(1) r(2)] r assms(2) show ?thesis
    unfolding discard_spec_def
    by (intro exI [of _ err] exI [of _ d'] exI [of _ "bs @ cs"]) (auto simp: go_len_def)
qed

text \<open>Refilling an empty buffer and going on.\<close>

lemma discard_spec_refill:
  assumes "dec_inv d" "d_bufferWrite d = 0" "0 \<le> n"
    and "\<And>d1. dec_refill d = Some (None, d1) \<Longrightarrow> dec_step d [] d1 \<Longrightarrow> discard_spec n d1 (dec_discard n d1)"
  shows "discard_spec n d (do {
    (err, d) \<leftarrow> dec_refill d;
    if err = None then dec_discard n d else Some (err, d)
  })"
proof -
  from refill_ok [OF assms(1,2)] obtain err d1 where f: "dec_refill d = Some (err, d1)" "dec_step d [] d1"
    "d_packetPos d1 = d_packetPos d" "clean d \<longrightarrow> err = (if d_reader d = [] then Some EOF else None)"
    by blast
  show ?thesis
  proof (cases err)
    case None
    have "discard_spec n d (dec_discard n d1)"
      by (rule discard_spec_step [OF f(2,3)]) (use assms(4) f None in \<open>simp add: go_len_def\<close>)
    with f(1) None show ?thesis by simp
  next
    case (Some e)
    have "clean d \<longrightarrow> dec_stream d = []"
      using f(4) Some assms by (auto intro: clean_stream_end split: if_splits)
    with f Some assms(3) show ?thesis by (auto simp: discard_spec_def go_len_def)
  qed
qed

lemma discard_ok:
  assumes "dec_inv d" "0 \<le> n"
  shows "discard_spec n d (dec_discard n d)"
  using assms
proof (induction "2 * weight d + (if d_bufferWrite d = 0 then 1 else 0)" arbitrary: d n rule: less_induct)
  case less
  consider (fin) "n = 0" | (buf) "0 < n" "d_bufferWrite d \<noteq> 0" | (empty) "0 < n" "d_bufferWrite d = 0"
    using less.prems(2) by linarith
  then show ?case
  proof cases
    case fin
    with less.prems dec_step_refl show ?thesis
      by (subst dec_discard.simps) (auto simp: go_len_def discard_spec_def)
  next
    case buf
    define c where "c = min (nat n) (length (buffered d))"
    have "buffered d \<noteq> []" using buf less.prems(1) by (simp add: buffered_empty)
    then have c: "0 < c" "c \<le> length (buffered d)" "int c \<le> n" using buf by (auto simp: c_def)
    have ic: "int c = min n (d_bufferWrite d - d_bufferRead d)"
      using length_buffered [OF less.prems(1)] buf(1) by (simp add: c_def)
    note k = consume_ok [OF less.prems(1) c(2)]
    let ?d1 = "dec_consume (int c) d"
    have d1: "dec_inv ?d1" using k(1) by (rule dec_step_inv)
    have len: "go_len (take c (buffered d)) = int c" using c by (simp add: go_len_def)
    show ?thesis
    proof (cases "d_bufferRead d + int c = d_bufferWrite d")
      case False
      have "dec_discard n d = Some (None, ?d1)"
        using buf False by (subst dec_discard.simps) (simp add: Let_def ic [symmetric])
      moreover have "int c = n" using False ic by (simp add: min_def split: if_splits)
      ultimately show ?thesis using k len by (auto simp: discard_spec_def)
    next
      case True
      have dis: "dec_discard n d = do {
          (err, d) \<leftarrow> dec_refill ?d1;
          if err = None then dec_discard (n - int c) d else Some (err, d)
        }"
        using buf True by (subst dec_discard.simps) (simp add: Let_def ic [symmetric])
      have w1: "d_bufferWrite ?d1 = 0" using True by (simp add: dec_consume_def)
      have "discard_spec (n - int c) ?d1 (dec_discard n d)"
        unfolding dis
      proof (rule discard_spec_refill [OF d1 w1])
        fix d2 assume d2: "dec_step ?d1 [] d2"
        show "discard_spec (n - int c) d2 (dec_discard (n - int c) d2)"
          using dec_step_weight [OF d2] dec_step_weight [OF k(1)] c buf(2)
          by (intro less.hyps dec_step_inv [OF d2]) auto
      qed (use c in simp)
      then show ?thesis by (intro discard_spec_step [OF k(1,3)]) (simp add: len)
    qed
  next
    case empty
    have "dec_discard n d = do {
        (err, d) \<leftarrow> dec_refill d;
        if err = None then dec_discard n d else Some (err, d)
      }"
      using empty by (subst dec_discard.simps) simp
    moreover have "discard_spec n d \<dots>"
    proof (rule discard_spec_refill [OF less.prems(1) empty(2) less.prems(2)])
      fix d1 assume f: "dec_refill d = Some (None, d1)" "dec_step d [] d1"
      have d1: "dec_inv d1" using f(2) by (rule dec_step_inv)
      from refill_weight [OF less.prems(1) empty(2) f(1)]
      have "d_bufferWrite d1 \<noteq> 0 \<or> weight d1 < weight d" using d1 by (simp add: buffered_empty)
      with dec_step_weight [OF f(2)] empty(2) show "discard_spec n d1 (dec_discard n d1)"
        by (intro less.hyps d1 less.prems(2)) auto
    qed
    ultimately show ?thesis by simp
  qed
qed

lemma finish_ok:
  assumes "dec_inv d" "clean d" "d_packetPos d \<le> d_packetLength d" "dec_stream d = skip @ rest"
    "rest \<noteq> []" "go_len skip = d_packetLength d - d_packetPos d"
  shows "\<exists>d'. dec_finish d = Some (None, d') \<and> dec_step d skip d'"
proof (cases "d_packetLength d = d_packetPos d")
  case True
  with assms show ?thesis by (auto simp: dec_finish_def go_len_def dec_step_refl)
next
  case False
  let ?n = "d_packetLength d - d_packetPos d"
  have n: "0 < ?n" using False assms(3) by simp
  have "?n < go_len (dec_stream d)"
    using assms(4-6) by (simp add: go_len_def del: length_greater_0_conv flip: length_greater_0_conv)
  with discard_ok [OF assms(1), of ?n] n assms(2) obtain d' bs where
    r: "dec_discard ?n d = Some (None, d')" "dec_step d bs d'" "go_len bs = ?n"
    by (auto simp: discard_spec_def)
  from r(2,3) assms(4,6) have "bs = skip" by (auto simp: dec_step_def go_len_def append_eq_append_conv)
  with r n show ?thesis by (auto simp: dec_finish_def)
qed

lemma dec_Next_ok:
  assumes "dec_inv d" "clean d" "d_packetPos d \<le> d_packetLength d" "dec_stream d = skip @ hdr @ rest"
    "go_len skip = d_packetLength d - d_packetPos d" "length hdr = (if typed then 5 else 4)"
  shows "\<exists>d'. dec_Next typed d = Some (Inr (), d') \<and> dec_inv d' \<and> clean d' \<and> dec_stream d' = rest \<and>
    d_packetType d' = (if typed then hd hdr else 0) \<and> d_packetPos d' = 0 \<and>
    d_packetLength d' = uint (of_be32 (if typed then tl hdr else hdr)) - 4 \<and>
    length (concat (map fst (d_reader d'))) \<le> length (concat (map fst (d_reader d)))"
proof -
  have "hdr @ rest \<noteq> []" using assms(6) by (auto split: if_splits)
  from finish_ok [OF assms(1-4) this assms(5)] obtain d1 where f: "dec_finish d = Some (None, d1)"
    "dec_step d skip d1" by blast
  have d1: "dec_inv d1" "clean d1" "dec_stream d1 = hdr @ rest"
    using f(2) assms(2,4) by (auto simp: dec_step_def)
  from readFull_ok [OF d1(1), of "[]" "length hdr"] d1 obtain bs d2 where r:
    "dec_readFull (length hdr) [] d1 = Some (bs, None, d2)" "dec_step d1 bs d2" "length bs = length hdr"
    by auto
  from r(2,3) d1(3) have "bs = hdr" "dec_stream d2 = rest" by (auto simp: dec_step_def)
  moreover have "dec_inv d2" "clean d2" using r(2) d1(2) by (auto simp: dec_step_def)
  moreover have "length (concat (map fst (d_reader d2))) \<le> length (concat (map fst (d_reader d)))"
    using f(2) r(2) by (simp add: dec_step_def)
  ultimately show ?thesis using f(1) r(1) assms(6)
    by (auto simp: dec_Next_def dec_inv_def clean_def dec_stream_def buffered_def split: if_splits)
qed

text \<open>A packet that was read past its end makes the next call fail.\<close>

lemma dec_Next_overrun: "d_packetLength d < d_packetPos d \<Longrightarrow>
    dec_Next typed d = Some (Inl ErrOverranReadBuffer, d)"
  by (simp add: dec_Next_def dec_finish_def)

lemma finish_total:
  assumes "dec_inv d"
  shows "\<exists>err d' bs. dec_finish d = Some (err, d') \<and> dec_step d bs d'"
  using dec_step_refl [OF assms] discard_ok [OF assms, of "d_packetLength d - d_packetPos d"]
  by (auto simp: dec_finish_def discard_spec_def Let_def) blast+

lemma dec_Next_total:
  assumes "dec_inv d"
  shows "\<exists>r d'. dec_Next typed d = Some (r, d') \<and> dec_inv d' \<and> weight d' \<le> weight d"
proof -
  from finish_total [OF assms] obtain err d1 bs where f: "dec_finish d = Some (err, d1)" "dec_step d bs d1"
    by blast
  show ?thesis
  proof (cases err)
    case (Some e)
    with f dec_step_weight [OF f(2)] show ?thesis by (auto simp: dec_Next_def dest: dec_step_inv)
  next
    case None
    from readFull_ok [OF dec_step_inv [OF f(2)], of "[]" "if typed then 5 else 4"] obtain cs err2 d2 where
      r: "dec_readFull (if typed then 5 else 4) [] d1 = Some (cs, err2, d2)" "dec_step d1 cs d2" by auto
    have w: "weight d2 \<le> weight d" using dec_step_weight [OF f(2)] dec_step_weight [OF r(2)] by simp
    have "dec_inv d2" using r(2) by (rule dec_step_inv)
    with f(1) None r(1) w show ?thesis
      by (cases err2) (auto simp: dec_Next_def dec_inv_def weight_def dec_stream_def buffered_def)
  qed
qed

lemma dec_Read_ok:
  assumes "dec_inv d" "0 < k" "d_packetPos d < d_packetLength d"
  shows "\<exists>bs err d'. dec_Read k d = Some (bs, err, d') \<and> dec_step d bs d' \<and> length bs \<le> k \<and>
    d_packetPos d' = d_packetPos d + go_len bs \<and> d_packetPos d' \<le> d_packetLength d \<and>
    (err = None \<longrightarrow> weight d' < weight d) \<and>
    (clean d \<and> dec_stream d \<noteq> [] \<longrightarrow> err = None)"
proof -
  let ?rem = "d_packetLength d - d_packetPos d"
  define j where "j = (if int k > ?rem then nat ?rem else k)"
  have j: "0 < j" "j \<le> k" "int j \<le> ?rem" using assms(2,3) by (auto simp: j_def)
  from read_ok [OF assms(1) j(1)] obtain bs err d1 where r: "dec_read j d = Some (bs, err, d1)"
    "dec_step d bs d1" "length bs \<le> j" "d_packetPos d1 = d_packetPos d" "err = None \<longrightarrow> weight d1 < weight d"
    "clean d \<longrightarrow> err = (if d_bufferWrite d = 0 \<and> d_reader d = [] then Some EOF else None)" by blast
  have "dec_Read k d = Some (bs, err, d1\<lparr>d_packetPos := d_packetPos d1 + go_len bs\<rparr>)"
    using r(1) assms(3) by (auto simp: dec_Read_def j_def Let_def split: if_splits)
  moreover have "clean d \<and> dec_stream d \<noteq> [] \<longrightarrow> err = None"
    using r(6) clean_stream_end [OF assms(1)] by auto
  ultimately show ?thesis using r j by (auto simp: go_len_def)
qed

end
