(* ===== verification/Fed_Codec.thy ===== *)
theory Fed_Codec
  imports Fed_Encoder Fed_Decoder
begin

text \<open>
  Packets between a decoder and an encoder: \<^verbatim>\<open>Encoder.ReadFrom\<close>, \<^verbatim>\<open>PendingPacket\<close> of
  \<^verbatim>\<open>lib/fed/packet.go\<close> and the codec of \<^verbatim>\<open>lib/fed/codecs/netconncodec/codec.go\<close>.  A packet the proxy does not
  look into is copied from the reading codec's decoder to the writing codec's encoder; shown is that the
  copy is exact for every chunking of the input and every state of the two buffers.
\<close>

section \<open>Encoder.ReadFrom\<close>

text \<open>The loop; \<open>n\<close> counts the bytes copied so far.\<close>

partial_function (option) enc_ReadFrom_loop ::
  "int \<Rightarrow> encoder \<Rightarrow> decoder \<Rightarrow> (int \<times> go_error option \<times> encoder \<times> decoder) option" where
  "enc_ReadFrom_loop n e d = do {
     (ferr, e) \<leftarrow> (if e_bufferPos e \<ge> go_len (e_buffer e) then enc_Flush e else Some (None, e));
     case ferr of
       Some err \<Rightarrow> Some (n, Some err, e\<lparr>e_packetPos := e_packetPos e + n\<rparr>, d)
     | None \<Rightarrow> do {
         space \<leftarrow> go_slice (e_buffer e) (e_bufferPos e) (go_len (e_buffer e));
         (bs, err, d) \<leftarrow> dec_Read (length space) d;
         (_, e) \<leftarrow> enc_store bs e;
         let n = n + go_len bs;
         case err of
           None \<Rightarrow> enc_ReadFrom_loop n e d
         | Some err \<Rightarrow>
             if err = EOF then
               Some (n, if n = 0 then Some ErrUnexpectedEOF else None, e\<lparr>e_packetPos := e_packetPos e + n\<rparr>, d)
             else Some (n, Some err, e\<lparr>e_packetPos := e_packetPos e + n\<rparr>, d)
       }
   }"

declare enc_ReadFrom_loop.simps [code]

definition enc_ReadFrom :: "encoder \<Rightarrow> decoder \<Rightarrow> (int \<times> go_error option \<times> encoder \<times> decoder) option" where
  "enc_ReadFrom e d = enc_ReadFrom_loop 0 e d"

section \<open>PendingPacket\<close>

text \<open>\<^verbatim>\<open>PendingPacket.WriteTo\<close>: copy until the packet is used up.\<close>

partial_function (option) Pending_WriteTo ::
  "encoder \<Rightarrow> decoder \<Rightarrow> (go_error option \<times> encoder \<times> decoder) option" where
  "Pending_WriteTo e d =
     (if d_packetPos d < d_packetLength d then do {
        (_, err, e, d) \<leftarrow> enc_ReadFrom e d;
        case err of Some err \<Rightarrow> Some (Some err, e, d) | None \<Rightarrow> Pending_WriteTo e d
      } else Some (None, e, d))"

declare Pending_WriteTo.simps [code]

section \<open>The codec over a connection\<close>

text \<open>\<^verbatim>\<open>c_closed\<close> stands for \<^verbatim>\<open>conn.Close()\<close> having been called on the connection.\<close>

record codec =
  c_ssl :: bool
  c_encoder :: encoder
  c_decoder :: decoder
  c_closed :: bool

definition NewCodec :: "writer \<Rightarrow> reader \<Rightarrow> codec" where
  "NewCodec w r = \<lparr>c_ssl = False, c_encoder = NewEncoder w, c_decoder = NewDecoder r, c_closed = False\<rparr>"

definition codec_ReadPacket :: "bool \<Rightarrow> codec \<Rightarrow> ((go_error + unit) \<times> codec) option" where
  "codec_ReadPacket typed c = do {
     (r, d) \<leftarrow> dec_Next typed (c_decoder c);
     Some (r, c\<lparr>c_decoder := d\<rparr>)
   }"

text \<open>\<^verbatim>\<open>WritePacket\<close> of a packet with the given type, length and \<^verbatim>\<open>WriteTo\<close>.\<close>

definition codec_WritePacket :: "byte \<Rightarrow> int \<Rightarrow> enc \<Rightarrow> codec \<Rightarrow> (go_error option \<times> codec) option" where
  "codec_WritePacket typ len wr c = do {
     (err, e) \<leftarrow> enc_seq (enc_Next typ len) wr (c_encoder c);
     Some (err, c\<lparr>c_encoder := e\<rparr>)
   }"

text \<open>\<^verbatim>\<open>WritePacket\<close> of a \<^verbatim>\<open>PendingPacket\<close>, whose type and length are those of its decoder.\<close>

definition codec_WritePending :: "codec \<Rightarrow> decoder \<Rightarrow> (go_error option \<times> codec \<times> decoder) option" where
  "codec_WritePending c d = do {
     (err, e) \<leftarrow> enc_Next (d_packetType d) (d_packetLength d) (c_encoder c);
     case err of Some err \<Rightarrow> Some (Some err, c\<lparr>c_encoder := e\<rparr>, d)
     | None \<Rightarrow> do {
         (err, e, d) \<leftarrow> Pending_WriteTo e d;
         Some (err, c\<lparr>c_encoder := e\<rparr>, d)
       }
   }"

definition codec_WriteByte :: "byte \<Rightarrow> codec \<Rightarrow> (go_error option \<times> codec) option" where
  "codec_WriteByte b c = do {
     (err, e) \<leftarrow> enc_WriteByte b (c_encoder c);
     Some (err, c\<lparr>c_encoder := e\<rparr>)
   }"

definition codec_Flush :: "codec \<Rightarrow> (go_error option \<times> codec) option" where
  "codec_Flush c = do {
     (err, e) \<leftarrow> enc_Flush (c_encoder c);
     Some (err, c\<lparr>c_encoder := e\<rparr>)
   }"

definition codec_ReadByte :: "codec \<Rightarrow> ((go_error + byte) \<times> codec) option" where
  "codec_ReadByte c = do {
     (err, c) \<leftarrow> codec_Flush c;
     case err of Some err \<Rightarrow> Some (Inl err, c)
     | None \<Rightarrow> do {
         (r, d) \<leftarrow> dec_ReadByte (c_decoder c);
         Some (r, c\<lparr>c_decoder := d\<rparr>)
       }
   }"

definition codec_Close :: "codec \<Rightarrow> (go_error option \<times> codec) option" where
  "codec_Close c = do {
     (err, c) \<leftarrow> codec_Flush c;
     case err of Some err \<Rightarrow> Some (Some err, c) | None \<Rightarrow> Some (None, c\<lparr>c_closed := True\<rparr>)
   }"

text \<open>
  \<^verbatim>\<open>EnableSSL\<close>: \<open>w\<close> and \<open>r\<close> are the writing and the reading side of the TLS connection \<open>crypto/tls\<close> puts on the
  socket and \<open>handshake\<close> is the result of its handshake.  The two string errors of the code are
  \<open>IOErr 1\<close> and \<open>IOErr 2\<close>.
\<close>

definition codec_EnableSSL ::
  "writer \<Rightarrow> reader \<Rightarrow> go_error option \<Rightarrow> codec \<Rightarrow> (go_error option \<times> codec) option" where
  "codec_EnableSSL w r handshake c =
     (if c_ssl c then Some (Some (IOErr 1), c)
      else do {
        (err, c) \<leftarrow> codec_Flush (c\<lparr>c_ssl := True\<rparr>);
        case err of Some err \<Rightarrow> Some (Some err, c)
        | None \<Rightarrow>
            if dec_Buffered (c_decoder c) > 0 then Some (Some (IOErr 2), c)
            else Some (handshake, c\<lparr>c_encoder := enc_Reset w (c_encoder c),
                                    c_decoder := dec_Reset r (c_decoder c)\<rparr>)
      })"

section \<open>Forwarding is exact\<close>

definition copied :: "int \<Rightarrow> encoder \<Rightarrow> decoder \<Rightarrow> (int \<times> go_error option \<times> encoder \<times> decoder) option \<Rightarrow> bool" where
  "copied n e d res \<longleftrightarrow> (\<exists>err e' d' bs. res = Some (n + go_len bs, err, e', d') \<and> dec_step d bs d' \<and>
     enc_inv e' \<and> d_packetPos d' = d_packetPos d + go_len bs \<and> d_packetPos d' \<le> d_packetLength d \<and>
     (err = None \<longrightarrow> n + go_len bs \<noteq> 0 \<and> enc_out e' = enc_out e @ bs \<and>
        e_packetPos e' = e_packetPos e + (n + go_len bs) \<and> e_packetType e' = e_packetType e \<and>
        e_packetLength e' = e_packetLength e) \<and>
     (clean d \<and> no_faults e \<and> d_packetLength d - d_packetPos d \<le> go_len (dec_stream d) \<longrightarrow>
        d_packetPos d' = d_packetLength d \<and> (n + go_len bs \<noteq> 0 \<longrightarrow> err = None) \<and> no_faults e'))"

lemma copied_step:
  assumes "dec_step d bs d1" "d_packetPos d1 = d_packetPos d + go_len bs"
    and "enc_out e1 = enc_out e @ bs" "e_packetPos e1 = e_packetPos e" "e_packetType e1 = e_packetType e"
    "e_packetLength e1 = e_packetLength e" "no_faults e \<longrightarrow> no_faults e1"
    and "copied (n + go_len bs) e1 d1 res"
  shows "copied n e d res"
proof -
  from assms(8) obtain err e' d' cs where r: "res = Some (n + go_len bs + go_len cs, err, e', d')"
    "dec_step d1 cs d'" "enc_inv e'" "d_packetPos d' = d_packetPos d1 + go_len cs"
    "d_packetPos d' \<le> d_packetLength d1"
    "err = None \<longrightarrow> n + go_len bs + go_len cs \<noteq> 0 \<and> enc_out e' = enc_out e1 @ cs \<and>
        e_packetPos e' = e_packetPos e1 + (n + go_len bs + go_len cs) \<and> e_packetType e' = e_packetType e1 \<and>
        e_packetLength e' = e_packetLength e1"
    "clean d1 \<and> no_faults e1 \<and> d_packetLength d1 - d_packetPos d1 \<le> go_len (dec_stream d1) \<longrightarrow>
        d_packetPos d' = d_packetLength d1 \<and> (n + go_len bs + go_len cs \<noteq> 0 \<longrightarrow> err = None) \<and> no_faults e'"
    unfolding copied_def by blast
  have d: "clean d \<longrightarrow> clean d1" "go_len (dec_stream d) = go_len bs + go_len (dec_stream d1)"
    "d_packetLength d1 = d_packetLength d"
    using assms(1) by (auto simp: dec_step_def go_len_def)
  have l: "go_len (bs @ cs) = go_len bs + go_len cs" by (simp add: go_len_def)
  show ?thesis
    unfolding copied_def
    by (rule exI [of _ err], rule exI [of _ e'], rule exI [of _ d'], rule exI [of _ "bs @ cs"])
      (use r dec_step_trans [OF assms(1) r(2)] d l assms(2-7) in \<open>auto simp: algebra_simps\<close>)
qed

text \<open>One round of the loop once the encoder's buffer has room.\<close>

lemma ReadFrom_round:
  assumes e: "enc_inv e" "e_bufferPos e < int defaultBufferSize"
    and d: "dec_inv d" "d_packetPos d \<le> d_packetLength d" and n: "0 \<le> n"
    and IH: "\<And>n e d'. weight d' < weight d \<Longrightarrow> enc_inv e \<Longrightarrow> dec_inv d' \<Longrightarrow>
      d_packetPos d' \<le> d_packetLength d' \<Longrightarrow> 0 \<le> n \<Longrightarrow> copied n e d' (enc_ReadFrom_loop n e d')"
  shows "copied n e d (enc_ReadFrom_loop n e d)"
proof -
  let ?k = "length (drop (nat (e_bufferPos e)) (e_buffer e))"
  have sp: "go_slice (e_buffer e) (e_bufferPos e) (go_len (e_buffer e)) =
      Some (drop (nat (e_bufferPos e)) (e_buffer e))"
    using e by (simp add: go_slice_def enc_inv_def go_len_def)
  have k: "0 < ?k" "int ?k = int defaultBufferSize - e_bufferPos e" using e by (auto simp: enc_inv_def)
  have nofl: "\<not> e_bufferPos e \<ge> go_len (e_buffer e)" using e by (simp add: enc_inv_def go_len_def)
  show ?thesis
  proof (cases "d_packetPos d = d_packetLength d")
    case True
    then have "dec_Read ?k d = Some ([], Some EOF, d)" by (simp add: dec_Read_def)
    moreover from store_ok [OF e(1), of "[]"] e obtain e' where s: "enc_store [] e = Some (None, e')"
      "enc_inv e'" "enc_out e' = enc_out e" "e_packetPos e' = e_packetPos e" "e_packetType e' = e_packetType e"
      "e_packetLength e' = e_packetLength e" "e_writer e' = e_writer e" by (auto simp: go_len_def)
    ultimately have "enc_ReadFrom_loop n e d =
        Some (n, if n = 0 then Some ErrUnexpectedEOF else None, e'\<lparr>e_packetPos := e_packetPos e' + n\<rparr>, d)"
      using sp nofl by (subst enc_ReadFrom_loop.simps) (simp add: go_len_def)
    with s True d dec_step_refl [OF d(1)] show ?thesis
      unfolding copied_def
      by (intro exI [of _ "if n = 0 then Some ErrUnexpectedEOF else None"]
          exI [of _ "e'\<lparr>e_packetPos := e_packetPos e' + n\<rparr>"] exI [of _ d] exI [of _ "[]"])
        (auto simp: go_len_def enc_inv_def enc_out_def no_faults_def)
  next
    case False
    then have "d_packetPos d < d_packetLength d" using d(2) by simp
    from dec_Read_ok [OF d(1) k(1) this] obtain bs err d1 where r: "dec_Read ?k d = Some (bs, err, d1)"
      "dec_step d bs d1" "length bs \<le> ?k" "d_packetPos d1 = d_packetPos d + go_len bs"
      "d_packetPos d1 \<le> d_packetLength d" "err = None \<longrightarrow> weight d1 < weight d"
      "clean d \<and> dec_stream d \<noteq> [] \<longrightarrow> err = None" by blast
    have "e_bufferPos e + go_len bs \<le> int defaultBufferSize"
      using of_nat_mono [OF r(3), where 'a = int] k(2) unfolding go_len_def by linarith
    from store_ok [OF e(1) this] obtain e1 where s: "enc_store bs e = Some (None, e1)"
      "enc_inv e1" "enc_out e1 = enc_out e @ bs" "e_packetPos e1 = e_packetPos e"
      "e_packetType e1 = e_packetType e" "e_packetLength e1 = e_packetLength e" "e_writer e1 = e_writer e"
      by auto
    have nf: "no_faults e1 = no_faults e" using s(7) by (simp add: no_faults_def)
    show ?thesis
    proof (cases err)
      case None
      have "enc_ReadFrom_loop n e d = enc_ReadFrom_loop (n + go_len bs) e1 d1"
        using sp nofl r(1) s(1) None by (subst enc_ReadFrom_loop.simps) simp
      moreover have "copied (n + go_len bs) e1 d1 (enc_ReadFrom_loop (n + go_len bs) e1 d1)"
        using r s None n by (intro IH) (auto simp: dec_step_def)
      ultimately show ?thesis using copied_step [OF r(2,4) s(3-6)] nf by simp
    next
      case (Some er)
      let ?e = "e1\<lparr>e_packetPos := e_packetPos e1 + (n + go_len bs)\<rparr>"
      let ?err = "if er = EOF then if n + go_len bs = 0 then Some ErrUnexpectedEOF else None else Some er"
      have res: "enc_ReadFrom_loop n e d = Some (n + go_len bs, ?err, ?e, d1)"
        using sp nofl r(1) s(1) Some by (subst enc_ReadFrom_loop.simps) (simp add: Let_def)
      have short: "\<not> (clean d \<and> d_packetLength d - d_packetPos d \<le> go_len (dec_stream d))"
        using r(7) Some False d(2) by (auto simp: go_len_def)
      have e': "enc_inv ?e" "enc_out ?e = enc_out e @ bs"
        using s(2,3) by (auto simp: enc_inv_def enc_out_def)
      show ?thesis
        unfolding copied_def res
        by (rule exI [of _ ?err], rule exI [of _ ?e], rule exI [of _ d1], rule exI [of _ bs])
          (use r(2,4,5) s(4-6) e' short in \<open>simp, blast\<close>)
    qed
  qed
qed

lemma ReadFrom_loop_ok:
  assumes "enc_inv e" "dec_inv d" "d_packetPos d \<le> d_packetLength d" "0 \<le> n"
  shows "copied n e d (enc_ReadFrom_loop n e d)"
  using assms
proof (induction "weight d" arbitrary: n e d rule: less_induct)
  case less
  have IH: "copied n e d' (enc_ReadFrom_loop n e d')" if "weight d' < weight d" "enc_inv e" "dec_inv d'"
    "d_packetPos d' \<le> d_packetLength d'" "0 \<le> n" for n e d'
    using less.hyps that by blast
  show ?case
  proof (cases "e_bufferPos e < int defaultBufferSize")
    case True
    show ?thesis by (rule ReadFrom_round [OF less.prems(1) True less.prems(2,3,4) IH])
  next
    case False
    from emits_rawE [OF Flush_emits less.prems(1)] obtain r e1 where f: "enc_Flush e = Some (r, e1)"
      "enc_inv e1" "r = None \<Longrightarrow> enc_out e1 = enc_out e @ []"
      "r = None \<Longrightarrow> e_packetPos e1 = e_packetPos e + 0"
      "r = None \<Longrightarrow> e_packetType e1 = e_packetType e" "r = None \<Longrightarrow> e_packetLength e1 = e_packetLength e"
      "no_faults e \<Longrightarrow> r = None" "no_faults e \<Longrightarrow> no_faults e1" by metis
    have full: "e_bufferPos e \<ge> go_len (e_buffer e)"
      using False less.prems(1) by (simp add: enc_inv_def go_len_def)
    have pos: "e_bufferPos e1 = 0" using f(1) by (rule Flush_pos)
    have empty: "\<not> e_bufferPos e1 \<ge> go_len (e_buffer e1)"
      using pos f(2) by (simp add: enc_inv_def go_len_def)
    show ?thesis
    proof (cases r)
      case None
      have "enc_ReadFrom_loop n e d = enc_ReadFrom_loop n e1 d"
        using full empty f(1) None
        by (subst enc_ReadFrom_loop.simps, subst (2) enc_ReadFrom_loop.simps) simp
      moreover have "copied n e1 d (enc_ReadFrom_loop n e1 d)"
        by (rule ReadFrom_round [OF f(2) _ less.prems(2,3,4) IH]) (simp add: pos)
      ultimately show ?thesis
        using copied_step [OF dec_step_refl [OF less.prems(2)], of e1 e n] f None by (simp add: go_len_def)
    next
      case (Some err)
      have "enc_ReadFrom_loop n e d = Some (n, Some err, e1\<lparr>e_packetPos := e_packetPos e1 + n\<rparr>, d)"
        using full f(1) Some by (subst enc_ReadFrom_loop.simps) simp
      with f Some less.prems dec_step_refl [OF less.prems(2)] show ?thesis
        unfolding copied_def
        by (intro exI [of _ "Some err"] exI [of _ "e1\<lparr>e_packetPos := e_packetPos e1 + n\<rparr>"] exI [of _ d]
            exI [of _ "[]"]) (auto simp: go_len_def enc_inv_def)
    qed
  qed
qed

text \<open>
  What \<^verbatim>\<open>PendingPacket.WriteTo\<close> promises: it returns; when it reports no error it copied exactly the rest
  of the packet; and it reports no error unless the reader or the writer did, or the input ends inside
  the packet.
\<close>

definition forwarded :: "encoder \<Rightarrow> decoder \<Rightarrow> (go_error option \<times> encoder \<times> decoder) option \<Rightarrow> bool" where
  "forwarded e d res \<longleftrightarrow> (\<exists>err e' d' bs. res = Some (err, e', d') \<and> dec_step d bs d' \<and> enc_inv e' \<and>
     d_packetPos d' = d_packetPos d + go_len bs \<and>
     (err = None \<longrightarrow> d_packetPos d' = d_packetLength d \<and> enc_out e' = enc_out e @ bs \<and>
        e_packetPos e' = e_packetPos e + go_len bs \<and> e_packetType e' = e_packetType e \<and>
        e_packetLength e' = e_packetLength e) \<and>
     (clean d \<and> no_faults e \<and> d_packetLength d - d_packetPos d \<le> go_len (dec_stream d) \<longrightarrow>
        err = None \<and> no_faults e'))"

lemma Pending_WriteTo_ok:
  assumes "enc_inv e" "dec_inv d" "d_packetPos d \<le> d_packetLength d"
  shows "forwarded e d (Pending_WriteTo e d)"
  using assms
proof (induction "nat (d_packetLength d - d_packetPos d)" arbitrary: e d rule: less_induct)
  case less
  show ?case
  proof (cases "d_packetPos d < d_packetLength d")
    case False
    then have "Pending_WriteTo e d = Some (None, e, d)" by (subst Pending_WriteTo.simps) simp
    with False less.prems dec_step_refl show ?thesis
      unfolding forwarded_def by (auto simp: go_len_def intro!: exI [of _ "[]"])
  next
    case True
    from ReadFrom_loop_ok [OF less.prems(1,2), of 0] True
    have "copied 0 e d (enc_ReadFrom e d)" by (simp add: enc_ReadFrom_def)
    from this [unfolded copied_def add_0] obtain err e1 d1 bs where r:
      "enc_ReadFrom e d = Some (go_len bs, err, e1, d1)" "dec_step d bs d1" "enc_inv e1"
      "d_packetPos d1 = d_packetPos d + go_len bs" "d_packetPos d1 \<le> d_packetLength d"
      "err = None \<longrightarrow> go_len bs \<noteq> 0 \<and> enc_out e1 = enc_out e @ bs \<and>
        e_packetPos e1 = e_packetPos e + go_len bs \<and> e_packetType e1 = e_packetType e \<and>
        e_packetLength e1 = e_packetLength e"
      "clean d \<and> no_faults e \<and> d_packetLength d - d_packetPos d \<le> go_len (dec_stream d) \<longrightarrow>
        d_packetPos d1 = d_packetLength d \<and> (go_len bs \<noteq> 0 \<longrightarrow> err = None) \<and> no_faults e1"
      by (elim exE conjE) rule
    have d1: "dec_inv d1" "d_packetLength d1 = d_packetLength d" "clean d \<longrightarrow> clean d1"
      "go_len (dec_stream d) = go_len bs + go_len (dec_stream d1)"
      using r(2) by (auto simp: dec_step_def go_len_def)
    show ?thesis
    proof (cases err)
      case (Some er)
      have "Pending_WriteTo e d = Some (Some er, e1, d1)"
        using True r(1) Some by (subst Pending_WriteTo.simps) simp
      moreover have "\<not> (clean d \<and> no_faults e \<and> d_packetLength d - d_packetPos d \<le> go_len (dec_stream d))"
        using r(4,7) Some True by auto
      ultimately show ?thesis using r unfolding forwarded_def by auto
    next
      case None
      have loop: "Pending_WriteTo e d = Pending_WriteTo e1 d1"
        using True r(1) None by (subst Pending_WriteTo.simps) simp
      have "nat (d_packetLength d1 - d_packetPos d1) < nat (d_packetLength d - d_packetPos d)"
        using r(4,6) None True d1(2) go_len_nonneg [of bs] by linarith
      then have "forwarded e1 d1 (Pending_WriteTo e1 d1)"
        using less.hyps r(3,5) d1 by simp
      then obtain err2 e2 d2 cs where i: "Pending_WriteTo e1 d1 = Some (err2, e2, d2)" "dec_step d1 cs d2"
        "enc_inv e2" "d_packetPos d2 = d_packetPos d1 + go_len cs"
        "err2 = None \<longrightarrow> d_packetPos d2 = d_packetLength d1 \<and> enc_out e2 = enc_out e1 @ cs \<and>
          e_packetPos e2 = e_packetPos e1 + go_len cs \<and> e_packetType e2 = e_packetType e1 \<and>
          e_packetLength e2 = e_packetLength e1"
        "clean d1 \<and> no_faults e1 \<and> d_packetLength d1 - d_packetPos d1 \<le> go_len (dec_stream d1) \<longrightarrow>
          err2 = None \<and> no_faults e2" unfolding forwarded_def by blast
      have l: "go_len (bs @ cs) = go_len bs + go_len cs" by (simp add: go_len_def)
      show ?thesis
        unfolding forwarded_def loop i(1)
        by (rule exI [of _ err2], rule exI [of _ e2], rule exI [of _ d2], rule exI [of _ "bs @ cs"])
          (use dec_step_trans [OF r(2) i(2)] r i d1 l None in auto)
    qed
  qed
qed

end
