(* ===== verification/Packet_Combinators.thy ===== *)
theory Packet_Combinators
  imports Fed_Codec
begin

text \<open>
  The building blocks of the generated packet code in \<^verbatim>\<open>lib/fed/packets/v3.0/packets.go\<close>: every
  \<^verbatim>\<open>WriteTo\<close> and \<^verbatim>\<open>ReadFrom\<close> there is put together from integers, zero-terminated strings, slices with a
  16-bit or 32-bit count, nullable byte slices with a signed length, lists ended by a zero key, and the
  bytes up to the end of the packet.  Each block is given here once, as the code has it, with the law that
  what the writer emits the reader reads back.
\<close>

section \<open>Writers\<close>

text \<open>\<^verbatim>\<open>uint16(len(xs))\<close> and \<^verbatim>\<open>uint32(len(xs))\<close> wrap around for long slices.\<close>

definition enc_slice16 :: "('a \<Rightarrow> enc) \<Rightarrow> 'a list \<Rightarrow> enc" where
  "enc_slice16 f xs = enc_seq (enc_Uint16 (word_of_nat (length xs))) (enc_each f xs)"

definition enc_slice32 :: "('a \<Rightarrow> enc) \<Rightarrow> 'a list \<Rightarrow> enc" where
  "enc_slice32 f xs = enc_seq (enc_Uint32 (word_of_nat (length xs))) (enc_each f xs)"

text \<open>A nullable slice: nil is \<^term>\<open>None\<close> and has length -1.\<close>

definition enc_nullable :: "byte list option \<Rightarrow> enc" where
  "enc_nullable v = enc_seq
     (enc_Int32 (case v of None \<Rightarrow> - 1 | Some xs \<Rightarrow> word_of_nat (length xs)))
     (enc_each enc_Uint8 (case v of None \<Rightarrow> [] | Some xs \<Rightarrow> xs))"

section \<open>Readers\<close>

definition dec_panic :: "'a dec" where
  "dec_panic d = None"

text \<open>\<^verbatim>\<open>if decoder.Type() != T.Type() { return ErrUnexpectedPacket }\<close>\<close>

definition dec_typed :: "byte \<Rightarrow> 'a dec \<Rightarrow> 'a dec" where
  "dec_typed t m d = (if d_packetType d \<noteq> t then dec_fail ErrUnexpectedPacket d else m d)"

primrec dec_times :: "nat \<Rightarrow> 'a dec \<Rightarrow> 'a list dec" where
  "dec_times 0 m = dec_return []"
| "dec_times (Suc n) m = dec_bind m (\<lambda>x. dec_bind (dec_times n m) (\<lambda>xs. dec_return (x # xs)))"

definition dec_slice16 :: "'a dec \<Rightarrow> 'a list dec" where
  "dec_slice16 m = dec_bind dec_Uint16 (\<lambda>n. dec_times (unat n) m)"

definition dec_slice32 :: "'a dec \<Rightarrow> 'a list dec" where
  "dec_slice32 m = dec_bind dec_Uint32 (\<lambda>n. dec_times (unat n) m)"

text \<open>\<^verbatim>\<open>make([]uint8, int(n))\<close> panics when the signed length is below -1.\<close>

definition dec_nullable :: "byte list option dec" where
  "dec_nullable = dec_bind dec_Int32 (\<lambda>n.
     if n = - 1 then dec_return None
     else if sint n < 0 then dec_panic
     else dec_bind (dec_times (nat (sint n)) dec_Uint8) (\<lambda>xs. dec_return (Some xs)))"

text \<open>Bytes up to the end of the packet.\<close>

partial_function (option) dec_remaining :: "decoder \<Rightarrow> ((go_error + byte list) \<times> decoder) option" where
  "dec_remaining d =
     (if d_packetPos d \<ge> d_packetLength d then Some (Inr [], d)
      else do {
        (r, d) \<leftarrow> dec_Uint8 d;
        case r of Inl err \<Rightarrow> Some (Inl err, d)
        | Inr b \<Rightarrow> do {
            (r, d) \<leftarrow> dec_remaining d;
            Some (map_sum id ((#) b) r, d)
          }
      })"

text \<open>Entries until one whose first field has the zero value \<open>z\<close>; that one is dropped.\<close>

partial_function (option) dec_until ::
  "'k \<Rightarrow> 'k dec \<Rightarrow> ('k \<Rightarrow> 'a dec) \<Rightarrow> decoder \<Rightarrow> ((go_error + 'a list) \<times> decoder) option" where
  "dec_until z key val d = do {
     (r, d) \<leftarrow> key d;
     case r of Inl err \<Rightarrow> Some (Inl err, d)
     | Inr k \<Rightarrow>
         if k = z then Some (Inr [], d)
         else do {
           (r, d) \<leftarrow> val k d;
           case r of Inl err \<Rightarrow> Some (Inl err, d)
           | Inr v \<Rightarrow> do {
               (r, d) \<leftarrow> dec_until z key val d;
               Some (map_sum id ((#) v) r, d)
             }
         }
   }"

declare dec_remaining.simps [code] dec_until.simps [code]

section \<open>The wire format of the blocks\<close>

definition wire_str :: "string \<Rightarrow> byte list" where
  "wire_str s = bytes_of s @ [0]"

definition wire_slice16 :: "('a \<Rightarrow> byte list) \<Rightarrow> 'a list \<Rightarrow> byte list" where
  "wire_slice16 g xs = be16 (word_of_nat (length xs)) @ concat (map g xs)"

definition wire_slice32 :: "('a \<Rightarrow> byte list) \<Rightarrow> 'a list \<Rightarrow> byte list" where
  "wire_slice32 g xs = be32 (word_of_nat (length xs)) @ concat (map g xs)"

definition wire_nullable :: "byte list option \<Rightarrow> byte list" where
  "wire_nullable v = (case v of None \<Rightarrow> be32 (- 1) | Some xs \<Rightarrow> be32 (word_of_nat (length xs)) @ xs)"

definition wire_until :: "byte list \<Rightarrow> ('a \<Rightarrow> byte list) \<Rightarrow> 'a list \<Rightarrow> byte list" where
  "wire_until z g xs = concat (map g xs) @ z"

lemma go_len_append [wire_simps]: "go_len (xs @ ys) = go_len xs + go_len ys"
  by (simp add: go_len_def)

lemma go_len_concat [wire_simps]: "go_len (concat (map g xs)) = sum_list (map (\<lambda>x. go_len (g x)) xs)"
  by (induction xs) (auto simp: go_len_def)

lemma go_len_simps [wire_simps]: "go_len [] = 0" "go_len (x # xs) = 1 + go_len xs"
  "go_len (be16 v) = 2" "go_len (be32 w) = 4" "go_len (wire_str s) = go_len s + 1"
  by (simp_all add: go_len_def wire_str_def)

lemma sum_ones [wire_simps]: "sum_list (map (\<lambda>_. 1) xs) = go_len xs"
  by (simp add: sum_list_triv go_len_def)

lemma go_len_wire [wire_simps]:
  "go_len (wire_slice16 g xs) = 2 + sum_list (map (\<lambda>x. go_len (g x)) xs)"
  "go_len (wire_slice32 g xs) = 4 + sum_list (map (\<lambda>x. go_len (g x)) xs)"
  "go_len (wire_until z g xs) = sum_list (map (\<lambda>x. go_len (g x)) xs) + go_len z"
  "go_len (wire_nullable v) = 4 + sum_list (map (\<lambda>_. 1) (case v of None \<Rightarrow> [] | Some ys \<Rightarrow> ys))"
  by (simp_all add: wire_slice16_def wire_slice32_def wire_until_def wire_simps)
    (simp add: wire_nullable_def sum_list_triv go_len_def split: option.split)

lemma String_emits_wire [codec_intros]: "emits (enc_String v) (wire_str v)"
  unfolding wire_str_def by (rule String_emits)

lemma concat_singles [simp]: "concat (map (\<lambda>x. [x]) xs) = xs"
  by (induction xs) auto

lemma each_Uint8_emits [codec_intros]: "emits (enc_each enc_Uint8 xs) xs"
  using emits_each [of enc_Uint8 "\<lambda>x. [x]" xs] Uint8_emits by simp

lemma slice_emits [codec_intros]:
  assumes "\<And>x. emits (f x) (g x)"
  shows "emits (enc_slice16 f xs) (wire_slice16 g xs)" "emits (enc_slice32 f xs) (wire_slice32 g xs)"
  unfolding enc_slice16_def enc_slice32_def wire_slice16_def wire_slice32_def
  by (intro emits_seq Uint_emits emits_each assms)+

lemma nullable_emits [codec_intros]: "emits (enc_nullable v) (wire_nullable v)"
proof (cases v)
  case None
  show ?thesis
    using emits_seq [OF Int_emits(3) emits_skip, of "- 1"]
    by (simp add: enc_nullable_def wire_nullable_def None)
next
  case (Some xs)
  show ?thesis
    using emits_seq [OF Int_emits(3) each_Uint8_emits, of "word_of_nat (length xs)" xs]
    by (simp add: enc_nullable_def wire_nullable_def Some)
qed

lemma until_emits [codec_intros]:
  assumes "\<And>x. emits (f x) (g x)" "emits Z z"
  shows "emits (enc_seq (enc_each f xs) Z) (wire_until z g xs)"
  unfolding wire_until_def by (intro emits_seq emits_each assms)

section \<open>Reading the blocks back\<close>

definition no_nul :: "string \<Rightarrow> bool" where
  "no_nul s \<longleftrightarrow> CHR 0x00 \<notin> set s"

lemma no_nul_bytes: "no_nul s \<Longrightarrow> 0 \<notin> set (bytes_of s)"
proof -
  have "c = CHR 0x00" if "(of_nat (of_char c) :: byte) = 0" for c :: char
  proof -
    have "(of_char c :: nat) < 256" by (rule nat_of_char_less_256)
    moreover have "unat (of_nat (of_char c) :: byte) = 0" using that by simp
    ultimately have "(of_char c :: nat) = 0" by (simp add: unat_of_nat)
    then have "(of_char c :: nat) = of_char (CHR 0x00)" by simp
    then show ?thesis by (rule of_char_eqI)
  qed
  then show "no_nul s \<Longrightarrow> 0 \<notin> set (bytes_of s)" by (force simp: no_nul_def bytes_of_def)
qed

lemma String_reads_wire: "no_nul v \<Longrightarrow> reads dec_String (wire_str v) v"
  unfolding wire_str_def by (intro String_reads no_nul_bytes)

lemma reads_last: "reads_if fin m bs v \<Longrightarrow> f v = dec_return w \<Longrightarrow> reads_if fin (dec_bind m f) bs w"
  unfolding reads_if_def dec_bind_def dec_return_def by (fastforce split: Option.bind_splits)

lemma times_reads:
  "(\<And>x. x \<in> set xs \<Longrightarrow> reads m (g x) x) \<Longrightarrow> reads (dec_times (length xs) m) (concat (map g xs)) xs"
proof (induction xs)
  case Nil
  show ?case by (simp add: reads_return)
next
  case (Cons x xs)
  then have "reads (dec_times (length xs) m) (concat (map g xs)) xs" by simp
  then have "reads (dec_bind (dec_times (length xs) m) (\<lambda>xs. dec_return (x # xs))) (concat (map g xs)) (x # xs)"
    by (rule reads_last) simp
  then have "reads (dec_bind m (\<lambda>x. dec_bind (dec_times (length xs) m) (\<lambda>xs. dec_return (x # xs))))
      (g x @ concat (map g xs)) (x # xs)"
    by (intro reads_bind [OF Cons.prems]) simp_all
  then show ?case by simp
qed

lemma slice16_reads:
  assumes "length xs < 2 ^ 16" "\<And>x. x \<in> set xs \<Longrightarrow> reads m (g x) x"
  shows "reads (dec_slice16 m) (wire_slice16 g xs) xs"
  unfolding dec_slice16_def wire_slice16_def
proof (rule reads_bind [OF Uint_reads(2)])
  have "unat (word_of_nat (length xs) :: 16 word) = length xs" using assms(1) by (simp add: unat_of_nat)
  with times_reads [OF assms(2)]
  show "reads (dec_times (unat (word_of_nat (length xs) :: 16 word)) m) (concat (map g xs)) xs" by simp
qed

lemma slice32_reads:
  assumes "length xs < 2 ^ 32" "\<And>x. x \<in> set xs \<Longrightarrow> reads m (g x) x"
  shows "reads (dec_slice32 m) (wire_slice32 g xs) xs"
  unfolding dec_slice32_def wire_slice32_def
proof (rule reads_bind [OF Uint_reads(3)])
  have "unat (word_of_nat (length xs) :: 32 word) = length xs" using assms(1) by (simp add: unat_of_nat)
  with times_reads [OF assms(2)]
  show "reads (dec_times (unat (word_of_nat (length xs) :: 32 word)) m) (concat (map g xs)) xs" by simp
qed

lemma bytes_reads: "reads (dec_times (length xs) dec_Uint8) xs xs"
  using times_reads [of xs dec_Uint8 "\<lambda>x. [x]"] Uint_reads(1) by simp

text \<open>A nullable slice fits when its length is below \<open>2\<^sup>3\<^sup>1\<close>.\<close>

definition fits31 :: "byte list option \<Rightarrow> bool" where
  "fits31 v \<longleftrightarrow> (case v of None \<Rightarrow> True | Some xs \<Rightarrow> length xs < 2 ^ 31)"

lemma sint_of_nat32:
  assumes "n < 2 ^ 31"
  shows "sint (word_of_nat n :: 32 word) = int n"
proof -
  have "signed_take_bit 31 (int n) = int n" using assms by (intro signed_take_bit_int_eq_self) auto
  then show ?thesis by (simp add: signed_of_nat)
qed

lemma nullable_reads:
  assumes "fits31 v"
  shows "reads dec_nullable (wire_nullable v) v"
proof (cases v)
  case None
  have "reads dec_nullable (be32 (- 1)) None"
    unfolding dec_nullable_def by (rule reads_last [OF Uint_reads(7)]) simp
  with None show ?thesis by (simp add: wire_nullable_def)
next
  case (Some xs)
  let ?n = "word_of_nat (length xs) :: 32 word"
  have n: "sint ?n = int (length xs)" using assms Some by (simp add: fits31_def sint_of_nat32)
  then have "?n \<noteq> - 1" by (metis of_nat_0_le_iff signed_minus_1 neg_0_le_iff_le not_one_le_zero)
  then have "(if ?n = - 1 then dec_return None
      else if sint ?n < 0 then dec_panic
      else dec_bind (dec_times (nat (sint ?n)) dec_Uint8) (\<lambda>xs. dec_return (Some xs)))
    = dec_bind (dec_times (length xs) dec_Uint8) (\<lambda>xs. dec_return (Some xs))"
    using n by simp
  moreover have "reads \<dots> xs (Some xs)" by (rule reads_last [OF bytes_reads]) simp
  ultimately have "reads dec_nullable (be32 ?n @ xs) (Some xs)"
    unfolding dec_nullable_def by (intro reads_bind [OF Uint_reads(7)]) simp
  with Some show ?thesis by (simp add: wire_nullable_def)
qed

lemma remaining_reads: "reads_end dec_remaining bs bs"
  unfolding reads_if_def
proof (intro allI impI)
  fix d rest
  assume "dec_inv d" "clean d" "dec_stream d = bs @ rest"
    "True \<longrightarrow> d_packetPos d + go_len bs = d_packetLength d"
  then show "\<exists>d'. dec_remaining d = Some (Inr bs, d') \<and> dec_step d bs d' \<and>
      d_packetPos d' = d_packetPos d + go_len bs"
  proof (induction bs arbitrary: d)
    case Nil
    then show ?case by (subst dec_remaining.simps) (simp add: go_len_def dec_step_refl)
  next
    case (Cons b bs)
    from Uint_reads(1) [of b] Cons.prems obtain d1 where u: "dec_Uint8 d = Some (Inr b, d1)"
      "dec_step d [b] d1" "d_packetPos d1 = d_packetPos d + 1" by (force simp: reads_if_def go_len_def)
    have d1: "dec_inv d1" "clean d1" "dec_stream d1 = bs @ rest" "d_packetLength d1 = d_packetLength d"
      using u(2) Cons.prems by (auto simp: dec_step_def)
    with Cons.IH [of d1] Cons.prems(4) u(3) obtain d2 where i: "dec_remaining d1 = Some (Inr bs, d2)"
      "dec_step d1 bs d2" "d_packetPos d2 = d_packetPos d1 + go_len bs" by (auto simp: go_len_def)
    have "dec_remaining d = Some (Inr (b # bs), d2)"
      using Cons.prems(4) u(1) i(1) by (subst dec_remaining.simps) (simp add: go_len_def)
    with dec_step_trans [OF u(2) i(2)] u(3) i(3) show ?case by (simp add: go_len_def)
  qed
qed

lemma until_reads:
  assumes "\<And>x. x \<in> set xs \<Longrightarrow> reads key (kb x) (kf x)" "\<And>x. x \<in> set xs \<Longrightarrow> kf x \<noteq> z"
    and "\<And>x. x \<in> set xs \<Longrightarrow> reads (val (kf x)) (vb x) x" "reads key zb z"
  shows "reads (dec_until z key val) (wire_until zb (\<lambda>x. kb x @ vb x) xs) xs"
  using assms(1-3)
proof (induction xs)
  case Nil
  show ?case
    unfolding reads_if_def
  proof (intro allI impI)
    fix d rest
    assume "dec_inv d" "clean d" "dec_stream d = wire_until zb (\<lambda>x. kb x @ vb x) [] @ rest"
    with assms(4) obtain d' where "key d = Some (Inr z, d')" "dec_step d zb d'"
      "d_packetPos d' = d_packetPos d + go_len zb" by (force simp: reads_if_def wire_until_def)
    then show "\<exists>d'. dec_until z key val d = Some (Inr [], d') \<and>
        dec_step d (wire_until zb (\<lambda>x. kb x @ vb x) []) d' \<and>
        d_packetPos d' = d_packetPos d + go_len (wire_until zb (\<lambda>x. kb x @ vb x) [])"
      by (subst dec_until.simps) (simp add: wire_until_def)
  qed
next
  case (Cons x xs)
  show ?case
    unfolding reads_if_def
  proof (intro allI impI)
    fix d rest
    assume d: "dec_inv d" "clean d"
      "dec_stream d = wire_until zb (\<lambda>x. kb x @ vb x) (x # xs) @ rest"
    let ?bs = "wire_until zb (\<lambda>x. kb x @ vb x) xs"
    have "reads (dec_bind key (\<lambda>k. val k)) (kb x @ vb x) x"
      by (rule reads_bind) (use Cons.prems in auto)
    moreover have st: "dec_stream d = (kb x @ vb x) @ ?bs @ rest" using d(3) by (simp add: wire_until_def)
    ultimately obtain d1 where a: "dec_bind key (\<lambda>k. val k) d = Some (Inr x, d1)"
      "dec_step d (kb x @ vb x) d1" "d_packetPos d1 = d_packetPos d + go_len (kb x @ vb x)"
      using d by (auto simp: reads_if_def)
    have "dec_inv d1" "clean d1" "dec_stream d1 = ?bs @ rest" using a(2) d st by (auto simp: dec_step_def)
    with Cons.IH Cons.prems obtain d2 where b: "dec_until z key val d1 = Some (Inr xs, d2)"
      "dec_step d1 ?bs d2" "d_packetPos d2 = d_packetPos d1 + go_len ?bs" by (force simp: reads_if_def)
    from Cons.prems(1) [of x] d(1,2) st obtain dk where k: "key d = Some (Inr (kf x), dk)"
      by (force simp: reads_if_def)
    have "dec_until z key val d = Some (Inr (x # xs), d2)"
      using k Cons.prems(2) [of x] a(1) b(1)
      by (subst dec_until.simps) (auto simp: dec_bind_def split: Option.bind_splits sum.splits)
    moreover have "wire_until zb (\<lambda>x. kb x @ vb x) (x # xs) = (kb x @ vb x) @ ?bs"
      by (simp add: wire_until_def)
    ultimately show "\<exists>d'. dec_until z key val d = Some (Inr (x # xs), d') \<and>
        dec_step d (wire_until zb (\<lambda>x. kb x @ vb x) (x # xs)) d' \<and>
        d_packetPos d' = d_packetPos d + go_len (wire_until zb (\<lambda>x. kb x @ vb x) (x # xs))"
      using dec_step_trans [OF a(2) b(2)] a(3) b(3) by (simp add: go_len_def)
  qed
qed

section \<open>The readers always return\<close>

text \<open>A reader makes progress when every value it returns used up some of the stream.\<close>

definition progress :: "'a dec \<Rightarrow> bool" where
  "progress m \<longleftrightarrow> total m \<and> (\<forall>d v d'. dec_inv d \<longrightarrow> m d = Some (Inr v, d') \<longrightarrow> weight d' < weight d)"

lemma Uint8_progress: "progress dec_Uint8"
proof -
  have "weight d' < weight d" if "dec_inv d" "dec_Uint8 d = Some (Inr v, d')" for d v d'
  proof -
    from readFull_ok [OF that(1), of "[]" 1] obtain bs err d1 where r:
      "dec_readFull 1 [] d = Some (bs, err, d1)" "dec_step d bs d1" "err = None \<longrightarrow> length bs = 1" by auto
    with that(2) have "err = None" "d' = d1\<lparr>d_packetPos := d_packetPos d1 + 1\<rparr>"
      by (auto simp: dec_Uint8_def dec_fixed_def split: option.splits)
    with dec_step_weight [OF r(2)] r(3) show ?thesis by simp
  qed
  then show ?thesis using Uint_total(1) by (auto simp: progress_def)
qed

lemma String_progress: "progress dec_String"
proof -
  have "weight d' < weight d" if "dec_inv d" "dec_String d = Some (Inr v, d')" for d v d'
  proof -
    from String_ok [OF that(1)] that(2) have "dec_step d (bytes_of v @ [0]) d'"
      by (auto simp: string_ok_def)
    from dec_step_weight [OF this] show ?thesis by simp
  qed
  then show ?thesis using String_total by (auto simp: progress_def)
qed

lemma times_total [codec_intros]: "total m \<Longrightarrow> total (dec_times n m)"
  by (induction n) (auto intro: codec_intros)

lemma slice_total [codec_intros]: "total m \<Longrightarrow> total (dec_slice16 m)" "total m \<Longrightarrow> total (dec_slice32 m)"
  unfolding dec_slice16_def dec_slice32_def by (intro codec_intros; assumption)+

lemma typed_total [codec_intros]: "total m \<Longrightarrow> total (dec_typed t m)"
  by (auto simp: total_def dec_typed_def dec_fail_def intro: dec_step_refl)

lemma totalD: "total m \<Longrightarrow> dec_inv d \<Longrightarrow> \<exists>r d' bs. m d = Some (r, d') \<and> dec_step d bs d'"
  by (simp add: total_def)

lemma remaining_total [codec_intros]: "total dec_remaining"
  unfolding total_def
proof (intro allI impI)
  fix d assume "dec_inv d"
  then show "\<exists>r d' bs. dec_remaining d = Some (r, d') \<and> dec_step d bs d'"
  proof (induction "weight d" arbitrary: d rule: less_induct)
    case less
    from totalD [OF Uint_total(1) less.prems] obtain r d1 bs where
      u: "dec_Uint8 d = Some (r, d1)" "dec_step d bs d1" by blast
    show ?case
    proof (cases "d_packetPos d \<ge> d_packetLength d")
      case True
      with dec_step_refl [OF less.prems] show ?thesis by (subst dec_remaining.simps) auto
    next
      case False
      show ?thesis
      proof (cases r)
        case (Inl e)
        with u False show ?thesis by (subst dec_remaining.simps) auto
      next
        case (Inr b)
        with Uint8_progress u less.prems have "weight d1 < weight d" by (auto simp: progress_def)
        from less.hyps [OF this dec_step_inv [OF u(2)]] obtain r2 d2 cs where
          "dec_remaining d1 = Some (r2, d2)" "dec_step d1 cs d2" by blast
        with u Inr False dec_step_trans [OF u(2)] show ?thesis by (subst dec_remaining.simps) fastforce
      qed
    qed
  qed
qed

lemma until_total [codec_intros]:
  assumes "progress key" "\<And>k. total (val k)"
  shows "total (dec_until z key val)"
  unfolding total_def
proof (intro allI impI)
  fix d assume "dec_inv d"
  then show "\<exists>r d' bs. dec_until z key val d = Some (r, d') \<and> dec_step d bs d'"
  proof (induction "weight d" arbitrary: d rule: less_induct)
    case less
    have tk: "total key" using assms(1) by (simp add: progress_def)
    from totalD [OF tk less.prems] obtain r d1 bs where u: "key d = Some (r, d1)" "dec_step d bs d1" by blast
    show ?case
    proof (cases "\<exists>k. r = Inr k \<and> k \<noteq> z")
      case False
      with u show ?thesis by (subst dec_until.simps) (auto split: sum.split)
    next
      case True
      then obtain k where k: "r = Inr k" "k \<noteq> z" by blast
      from totalD [OF assms(2) dec_step_inv [OF u(2)], of k] obtain r1 d2 cs where
        v: "val k d1 = Some (r1, d2)" "dec_step d1 cs d2" by blast
      note st = dec_step_trans [OF u(2) v(2)]
      show ?thesis
      proof (cases r1)
        case (Inl e)
        with u k v st show ?thesis by (subst dec_until.simps) auto
      next
        case (Inr y)
        have "weight d1 < weight d" using assms(1) u k less.prems by (auto simp: progress_def)
        then have "weight d2 < weight d" using dec_step_weight [OF v(2)] by linarith
        from less.hyps [OF this dec_step_inv [OF v(2)]] obtain r2 d3 es where
          "dec_until z key val d2 = Some (r2, d3)" "dec_step d2 es d3" by blast
        with u k v Inr dec_step_trans [OF st] show ?thesis by (subst dec_until.simps) fastforce
      qed
    qed
  qed
qed

section \<open>The law of a packet\<close>

text \<open>
  \<open>packet_law typ len wr rd ok v\<close>: \<^verbatim>\<open>WriteTo\<close> emits exactly \<^verbatim>\<open>Length()\<close> bytes; and when \<open>v\<close> is representable
  (\<open>ok\<close>), \<^verbatim>\<open>ReadFrom\<close> on a packet of the same type whose body is these bytes returns \<open>v\<close>.
\<close>

definition packet_law :: "byte \<Rightarrow> int \<Rightarrow> enc \<Rightarrow> 'a dec \<Rightarrow> bool \<Rightarrow> 'a \<Rightarrow> bool" where
  "packet_law typ len wr rd ok v \<longleftrightarrow> (\<exists>bs. emits wr bs \<and> len = go_len bs \<and>
     (ok \<longrightarrow> (\<forall>d rest. dec_inv d \<longrightarrow> clean d \<longrightarrow> dec_stream d = bs @ rest \<longrightarrow> d_packetType d = typ \<longrightarrow>
        d_packetPos d + go_len bs = d_packetLength d \<longrightarrow>
        (\<exists>d'. rd d = Some (Inr v, d') \<and> dec_step d bs d' \<and> d_packetPos d' = d_packetPos d + go_len bs))))"

lemma packet_lawI:
  assumes "emits wr bs" "len = go_len bs" "ok \<Longrightarrow> reads_end m bs v"
  shows "packet_law typ len wr (dec_typed typ m) ok v"
  unfolding packet_law_def
  by (rule exI [of _ bs]) (use assms in \<open>auto simp: dec_typed_def reads_if_def\<close>)

text \<open>The same law seen through an injective tag.\<close>

lemma packet_law_tag:
  assumes "packet_law typ len wr rd ok v"
  shows "packet_law typ len wr (dec_bind rd (\<lambda>x. dec_return (f x))) ok (f v)"
  using assms unfolding packet_law_def dec_bind_def dec_return_def by fastforce

lemma reads_endI: "reads m bs v \<Longrightarrow> reads_end m bs v"
  by (rule reads_reads_if)

lemmas emit_rules = emits_seq emits_skip Uint8_emits Uint_emits Int_emits String_emits_wire
  slice_emits nullable_emits each_Uint8_emits

lemmas read_rules = reads_bind reads_last remaining_reads reads_endI Uint_reads String_reads_wire
  slice16_reads slice32_reads nullable_reads reads_return

end
