(* ===== verification/Packets.thy ===== *)
theory Packets
  imports Packet_Combinators
begin

text \<open>
  The packets of \<^verbatim>\<open>lib/fed/packets/v3.0/packets.go\<close>, in the order of that file.  Each packet has its data
  type, \<^verbatim>\<open>Length\<close>, \<^verbatim>\<open>ReadFrom\<close> and \<^verbatim>\<open>WriteTo\<close>, a predicate \<open>_ok\<close> for the values the wire format can
  represent (no zero byte inside a string, counts that fit their field), and the law that \<^verbatim>\<open>WriteTo\<close> writes
  exactly \<^verbatim>\<open>Length\<close> bytes and \<^verbatim>\<open>ReadFrom\<close> reads the value back.  \<^verbatim>\<open>ReadFrom\<close> is applied to a fresh variable
  everywhere in the repository, so it is the value it leaves there.
\<close>

definition type_code :: "char \<Rightarrow> byte" where
  "type_code c = of_nat (of_char c)"

section \<open>Authentication\<close>

subsection \<open>AuthenticationPayloadCleartextPassword\<close>

datatype AuthenticationPayloadCleartextPassword = AuthenticationPayloadCleartextPassword

definition AuthenticationPayloadCleartextPassword_Length :: "AuthenticationPayloadCleartextPassword \<Rightarrow> int" where
  "AuthenticationPayloadCleartextPassword_Length T =
     0"

definition AuthenticationPayloadCleartextPassword_ReadFrom :: "AuthenticationPayloadCleartextPassword dec" where
  "AuthenticationPayloadCleartextPassword_ReadFrom = dec_return AuthenticationPayloadCleartextPassword"

definition AuthenticationPayloadCleartextPassword_WriteTo :: "AuthenticationPayloadCleartextPassword \<Rightarrow> enc" where
  "AuthenticationPayloadCleartextPassword_WriteTo T =
     enc_skip"

definition AuthenticationPayloadCleartextPassword_ok :: "AuthenticationPayloadCleartextPassword \<Rightarrow> bool" where
  "AuthenticationPayloadCleartextPassword_ok T \<longleftrightarrow> True"

lemma AuthenticationPayloadCleartextPassword_emits: "\<exists>bs. emits (AuthenticationPayloadCleartextPassword_WriteTo v) bs \<and> AuthenticationPayloadCleartextPassword_Length v = go_len bs \<and>
    (AuthenticationPayloadCleartextPassword_ok v \<longrightarrow> reads_end AuthenticationPayloadCleartextPassword_ReadFrom bs v)"
  unfolding AuthenticationPayloadCleartextPassword_WriteTo_def AuthenticationPayloadCleartextPassword_ReadFrom_def
  by (rule exI, rule conjI, (rule emit_rules)+, rule conjI, simp add: AuthenticationPayloadCleartextPassword_Length_def wire_simps)
    (rule impI, ((rule read_rules | simp add: AuthenticationPayloadCleartextPassword_ok_def list_all_iff)+), cases v, simp)

lemma AuthenticationPayloadCleartextPassword_total: "total AuthenticationPayloadCleartextPassword_ReadFrom"
  unfolding AuthenticationPayloadCleartextPassword_ReadFrom_def by (intro codec_intros)

subsection \<open>AuthenticationPayloadGSS\<close>

datatype AuthenticationPayloadGSS = AuthenticationPayloadGSS

definition AuthenticationPayloadGSS_Length :: "AuthenticationPayloadGSS \<Rightarrow> int" where
  "AuthenticationPayloadGSS_Length T =
     0"

definition AuthenticationPayloadGSS_ReadFrom :: "AuthenticationPayloadGSS dec" where
  "AuthenticationPayloadGSS_ReadFrom = dec_return AuthenticationPayloadGSS"

definition AuthenticationPayloadGSS_WriteTo :: "AuthenticationPayloadGSS \<Rightarrow> enc" where
  "AuthenticationPayloadGSS_WriteTo T =
     enc_skip"

definition AuthenticationPayloadGSS_ok :: "AuthenticationPayloadGSS \<Rightarrow> bool" where
  "AuthenticationPayloadGSS_ok T \<longleftrightarrow> True"

lemma AuthenticationPayloadGSS_emits: "\<exists>bs. emits (AuthenticationPayloadGSS_WriteTo v) bs \<and> AuthenticationPayloadGSS_Length v = go_len bs \<and>
    (AuthenticationPayloadGSS_ok v \<longrightarrow> reads_end AuthenticationPayloadGSS_ReadFrom bs v)"
  unfolding AuthenticationPayloadGSS_WriteTo_def AuthenticationPayloadGSS_ReadFrom_def
  by (rule exI, rule conjI, (rule emit_rules)+, rule conjI, simp add: AuthenticationPayloadGSS_Length_def wire_simps)
    (rule impI, ((rule read_rules | simp add: AuthenticationPayloadGSS_ok_def list_all_iff)+), cases v, simp)

lemma AuthenticationPayloadGSS_total: "total AuthenticationPayloadGSS_ReadFrom"
  unfolding AuthenticationPayloadGSS_ReadFrom_def by (intro codec_intros)

subsection \<open>AuthenticationPayloadGSSContinue\<close>

type_synonym AuthenticationPayloadGSSContinue = "byte list"

definition AuthenticationPayloadGSSContinue_Length :: "AuthenticationPayloadGSSContinue \<Rightarrow> int" where
  "AuthenticationPayloadGSSContinue_Length T =
     sum_list (map (\<lambda>_. 1) T)"

definition AuthenticationPayloadGSSContinue_ReadFrom :: "AuthenticationPayloadGSSContinue dec" where
  "AuthenticationPayloadGSSContinue_ReadFrom = dec_remaining"

definition AuthenticationPayloadGSSContinue_WriteTo :: "AuthenticationPayloadGSSContinue \<Rightarrow> enc" where
  "AuthenticationPayloadGSSContinue_WriteTo T =
     enc_each enc_Uint8 T"

definition AuthenticationPayloadGSSContinue_ok :: "AuthenticationPayloadGSSContinue \<Rightarrow> bool" where
  "AuthenticationPayloadGSSContinue_ok T \<longleftrightarrow> True"

lemma AuthenticationPayloadGSSContinue_emits: "\<exists>bs. emits (AuthenticationPayloadGSSContinue_WriteTo v) bs \<and> AuthenticationPayloadGSSContinue_Length v = go_len bs \<and>
    (AuthenticationPayloadGSSContinue_ok v \<longrightarrow> reads_end AuthenticationPayloadGSSContinue_ReadFrom bs v)"
  unfolding AuthenticationPayloadGSSContinue_WriteTo_def AuthenticationPayloadGSSContinue_ReadFrom_def
  by (rule exI, rule conjI, (rule emit_rules)+, rule conjI, simp add: AuthenticationPayloadGSSContinue_Length_def wire_simps)
    (rule impI, ((rule read_rules | simp add: AuthenticationPayloadGSSContinue_ok_def list_all_iff)+))

lemma AuthenticationPayloadGSSContinue_total: "total AuthenticationPayloadGSSContinue_ReadFrom"
  unfolding AuthenticationPayloadGSSContinue_ReadFrom_def by (intro codec_intros)

subsection \<open>AuthenticationPayloadKerberosV5\<close>

datatype AuthenticationPayloadKerberosV5 = AuthenticationPayloadKerberosV5

definition AuthenticationPayloadKerberosV5_Length :: "AuthenticationPayloadKerberosV5 \<Rightarrow> int" where
  "AuthenticationPayloadKerberosV5_Length T =
     0"

definition AuthenticationPayloadKerberosV5_ReadFrom :: "AuthenticationPayloadKerberosV5 dec" where
  "AuthenticationPayloadKerberosV5_ReadFrom = dec_return AuthenticationPayloadKerberosV5"

definition AuthenticationPayloadKerberosV5_WriteTo :: "AuthenticationPayloadKerberosV5 \<Rightarrow> enc" where
  "AuthenticationPayloadKerberosV5_WriteTo T =
     enc_skip"

definition AuthenticationPayloadKerberosV5_ok :: "AuthenticationPayloadKerberosV5 \<Rightarrow> bool" where
  "AuthenticationPayloadKerberosV5_ok T \<longleftrightarrow> True"

lemma AuthenticationPayloadKerberosV5_emits: "\<exists>bs. emits (AuthenticationPayloadKerberosV5_WriteTo v) bs \<and> AuthenticationPayloadKerberosV5_Length v = go_len bs \<and>
    (AuthenticationPayloadKerberosV5_ok v \<longrightarrow> reads_end AuthenticationPayloadKerberosV5_ReadFrom bs v)"
  unfolding AuthenticationPayloadKerberosV5_WriteTo_def AuthenticationPayloadKerberosV5_ReadFrom_def
  by (rule exI, rule conjI, (rule emit_rules)+, rule conjI, simp add: AuthenticationPayloadKerberosV5_Length_def wire_simps)
    (rule impI, ((rule read_rules | simp add: AuthenticationPayloadKerberosV5_ok_def list_all_iff)+), cases v, simp)

lemma AuthenticationPayloadKerberosV5_total: "total AuthenticationPayloadKerberosV5_ReadFrom"
  unfolding AuthenticationPayloadKerberosV5_ReadFrom_def by (intro codec_intros)

subsection \<open>AuthenticationPayloadMD5Password\<close>

type_synonym AuthenticationPayloadMD5Password = "byte list"

definition AuthenticationPayloadMD5Password_Length :: "AuthenticationPayloadMD5Password \<Rightarrow> int" where
  "AuthenticationPayloadMD5Password_Length T =
     sum_list (map (\<lambda>_. 1) T)"

definition AuthenticationPayloadMD5Password_ReadFrom :: "AuthenticationPayloadMD5Password dec" where
  "AuthenticationPayloadMD5Password_ReadFrom = dec_times 4 dec_Uint8"

definition AuthenticationPayloadMD5Password_WriteTo :: "AuthenticationPayloadMD5Password \<Rightarrow> enc" where
  "AuthenticationPayloadMD5Password_WriteTo T =
     enc_each enc_Uint8 T"

definition AuthenticationPayloadMD5Password_ok :: "AuthenticationPayloadMD5Password \<Rightarrow> bool" where
  "AuthenticationPayloadMD5Password_ok T \<longleftrightarrow> length T = 4"

lemma AuthenticationPayloadMD5Password_emits: "\<exists>bs. emits (AuthenticationPayloadMD5Password_WriteTo v) bs \<and> AuthenticationPayloadMD5Password_Length v = go_len bs \<and>
    (AuthenticationPayloadMD5Password_ok v \<longrightarrow> reads_end AuthenticationPayloadMD5Password_ReadFrom bs v)"
  unfolding AuthenticationPayloadMD5Password_WriteTo_def AuthenticationPayloadMD5Password_ReadFrom_def
  by (rule exI, rule conjI, (rule emit_rules)+, rule conjI, simp add: AuthenticationPayloadMD5Password_Length_def wire_simps)
    (use bytes_reads [of v] in \<open>auto simp: AuthenticationPayloadMD5Password_ok_def intro: reads_endI\<close>)

lemma AuthenticationPayloadMD5Password_total: "total AuthenticationPayloadMD5Password_ReadFrom"
  unfolding AuthenticationPayloadMD5Password_ReadFrom_def by (intro codec_intros)

subsection \<open>AuthenticationPayloadOk\<close>

datatype AuthenticationPayloadOk = AuthenticationPayloadOk

definition AuthenticationPayloadOk_Length :: "AuthenticationPayloadOk \<Rightarrow> int" where
  "AuthenticationPayloadOk_Length T =
     0"

definition AuthenticationPayloadOk_ReadFrom :: "AuthenticationPayloadOk dec" where
  "AuthenticationPayloadOk_ReadFrom = dec_return AuthenticationPayloadOk"

definition AuthenticationPayloadOk_WriteTo :: "AuthenticationPayloadOk \<Rightarrow> enc" where
  "AuthenticationPayloadOk_WriteTo T =
     enc_skip"

definition AuthenticationPayloadOk_ok :: "AuthenticationPayloadOk \<Rightarrow> bool" where
  "AuthenticationPayloadOk_ok T \<longleftrightarrow> True"

lemma AuthenticationPayloadOk_emits: "\<exists>bs. emits (AuthenticationPayloadOk_WriteTo v) bs \<and> AuthenticationPayloadOk_Length v = go_len bs \<and>
    (AuthenticationPayloadOk_ok v \<longrightarrow> reads_end AuthenticationPayloadOk_ReadFrom bs v)"
  unfolding AuthenticationPayloadOk_WriteTo_def AuthenticationPayloadOk_ReadFrom_def
  by (rule exI, rule conjI, (rule emit_rules)+, rule conjI, simp add: AuthenticationPayloadOk_Length_def wire_simps)
    (rule impI, ((rule read_rules | simp add: AuthenticationPayloadOk_ok_def list_all_iff)+), cases v, simp)

lemma AuthenticationPayloadOk_total: "total AuthenticationPayloadOk_ReadFrom"
  unfolding AuthenticationPayloadOk_ReadFrom_def by (intro codec_intros)

subsection \<open>AuthenticationPayloadSASL\<close>

record AuthenticationPayloadSASLMethod =
  SASLMethod_Method :: string

type_synonym AuthenticationPayloadSASL = "AuthenticationPayloadSASLMethod list"

definition AuthenticationPayloadSASL_Length :: "AuthenticationPayloadSASL \<Rightarrow> int" where
  "AuthenticationPayloadSASL_Length T = sum_list (map (\<lambda>x. (go_len (SASLMethod_Method x) + 1)) T) + (go_len ('''' :: string) + 1)"

definition AuthenticationPayloadSASL_ReadFrom :: "AuthenticationPayloadSASL dec" where
  "AuthenticationPayloadSASL_ReadFrom = dec_until '''' dec_String (\<lambda>k. dec_return \<lparr>SASLMethod_Method = k\<rparr>)"

definition AuthenticationPayloadSASL_WriteTo :: "AuthenticationPayloadSASL \<Rightarrow> enc" where
  "AuthenticationPayloadSASL_WriteTo T =
     enc_seq (enc_each (\<lambda>x. enc_String (SASLMethod_Method x)) T) (enc_String '''')"

definition AuthenticationPayloadSASL_ok :: "AuthenticationPayloadSASL \<Rightarrow> bool" where
  "AuthenticationPayloadSASL_ok T \<longleftrightarrow> list_all (\<lambda>x. SASLMethod_Method x \<noteq> '''' \<and> no_nul (SASLMethod_Method x)) T"

lemma AuthenticationPayloadSASL_wire:
  "emits (AuthenticationPayloadSASL_WriteTo T) (wire_until (wire_str '''') (\<lambda>x. wire_str (SASLMethod_Method x) @ []) T)"
  "AuthenticationPayloadSASL_Length T = go_len (wire_until (wire_str '''') (\<lambda>x. wire_str (SASLMethod_Method x) @ []) T)"
  unfolding AuthenticationPayloadSASL_WriteTo_def
  by ((unfold append_Nil2, rule until_emits, (rule emit_rules)+), simp add: AuthenticationPayloadSASL_Length_def wire_simps)

lemma AuthenticationPayloadSASL_read_back:
  assumes "AuthenticationPayloadSASL_ok T"
  shows "reads (dec_until '''' dec_String (\<lambda>k. dec_return \<lparr>SASLMethod_Method = k\<rparr>)) (wire_until (wire_str '''') (\<lambda>x. wire_str (SASLMethod_Method x) @ []) T) T"
proof (rule until_reads [where kf = "\<lambda>x. SASLMethod_Method x"])
  show "reads dec_String (wire_str (SASLMethod_Method x)) (SASLMethod_Method x)" "SASLMethod_Method x \<noteq> ''''" if "x \<in> set T" for x
    using that assms by (auto simp: AuthenticationPayloadSASL_ok_def list_all_iff intro: read_rules)
  show "reads ((\<lambda>k. dec_return \<lparr>SASLMethod_Method = k\<rparr>) (SASLMethod_Method x)) ([]) x" if "x \<in> set T" for x
    by (rule reads_return) simp
  show "reads dec_String (wire_str '''') ''''" by (rule read_rules) (simp add: no_nul_def)
qed

lemma AuthenticationPayloadSASL_total: "total AuthenticationPayloadSASL_ReadFrom"
  unfolding AuthenticationPayloadSASL_ReadFrom_def by (intro codec_intros String_progress)

lemma AuthenticationPayloadSASL_emits: "\<exists>bs. emits (AuthenticationPayloadSASL_WriteTo v) bs \<and> AuthenticationPayloadSASL_Length v = go_len bs \<and>
    (AuthenticationPayloadSASL_ok v \<longrightarrow> reads_end AuthenticationPayloadSASL_ReadFrom bs v)"
  unfolding AuthenticationPayloadSASL_ReadFrom_def using AuthenticationPayloadSASL_wire [of v] reads_endI [OF AuthenticationPayloadSASL_read_back, of v] by blast

subsection \<open>AuthenticationPayloadSASLContinue\<close>

type_synonym AuthenticationPayloadSASLContinue = "byte list"

definition AuthenticationPayloadSASLContinue_Length :: "AuthenticationPayloadSASLContinue \<Rightarrow> int" where
  "AuthenticationPayloadSASLContinue_Length T =
     sum_list (map (\<lambda>_. 1) T)"

definition AuthenticationPayloadSASLContinue_ReadFrom :: "AuthenticationPayloadSASLContinue dec" where
  "AuthenticationPayloadSASLContinue_ReadFrom = dec_remaining"

definition AuthenticationPayloadSASLContinue_WriteTo :: "AuthenticationPayloadSASLContinue \<Rightarrow> enc" where
  "AuthenticationPayloadSASLContinue_WriteTo T =
     enc_each enc_Uint8 T"

definition AuthenticationPayloadSASLContinue_ok :: "AuthenticationPayloadSASLContinue \<Rightarrow> bool" where
  "AuthenticationPayloadSASLContinue_ok T \<longleftrightarrow> True"

lemma AuthenticationPayloadSASLContinue_emits: "\<exists>bs. emits (AuthenticationPayloadSASLContinue_WriteTo v) bs \<and> AuthenticationPayloadSASLContinue_Length v = go_len bs \<and>
    (AuthenticationPayloadSASLContinue_ok v \<longrightarrow> reads_end AuthenticationPayloadSASLContinue_ReadFrom bs v)"
  unfolding AuthenticationPayloadSASLContinue_WriteTo_def AuthenticationPayloadSASLContinue_ReadFrom_def
  by (rule exI, rule conjI, (rule emit_rules)+, rule conjI, simp add: AuthenticationPayloadSASLContinue_Length_def wire_simps)
    (rule impI, ((rule read_rules | simp add: AuthenticationPayloadSASLContinue_ok_def list_all_iff)+))

lemma AuthenticationPayloadSASLContinue_total: "total AuthenticationPayloadSASLContinue_ReadFrom"
  unfolding AuthenticationPayloadSASLContinue_ReadFrom_def by (intro codec_intros)

subsection \<open>AuthenticationPayloadSASLFinal\<close>

type_synonym AuthenticationPayloadSASLFinal = "byte list"

definition AuthenticationPayloadSASLFinal_Length :: "AuthenticationPayloadSASLFinal \<Rightarrow> int" where
  "AuthenticationPayloadSASLFinal_Length T =
     sum_list (map (\<lambda>_. 1) T)"

definition AuthenticationPayloadSASLFinal_ReadFrom :: "AuthenticationPayloadSASLFinal dec" where
  "AuthenticationPayloadSASLFinal_ReadFrom = dec_remaining"

definition AuthenticationPayloadSASLFinal_WriteTo :: "AuthenticationPayloadSASLFinal \<Rightarrow> enc" where
  "AuthenticationPayloadSASLFinal_WriteTo T =
     enc_each enc_Uint8 T"

definition AuthenticationPayloadSASLFinal_ok :: "AuthenticationPayloadSASLFinal \<Rightarrow> bool" where
  "AuthenticationPayloadSASLFinal_ok T \<longleftrightarrow> True"

lemma AuthenticationPayloadSASLFinal_emits: "\<exists>bs. emits (AuthenticationPayloadSASLFinal_WriteTo v) bs \<and> AuthenticationPayloadSASLFinal_Length v = go_len bs \<and>
    (AuthenticationPayloadSASLFinal_ok v \<longrightarrow> reads_end AuthenticationPayloadSASLFinal_ReadFrom bs v)"
  unfolding AuthenticationPayloadSASLFinal_WriteTo_def AuthenticationPayloadSASLFinal_ReadFrom_def
  by (rule exI, rule conjI, (rule emit_rules)+, rule conjI, simp add: AuthenticationPayloadSASLFinal_Length_def wire_simps)
    (rule impI, ((rule read_rules | simp add: AuthenticationPayloadSASLFinal_ok_def list_all_iff)+))

lemma AuthenticationPayloadSASLFinal_total: "total AuthenticationPayloadSASLFinal_ReadFrom"
  unfolding AuthenticationPayloadSASLFinal_ReadFrom_def by (intro codec_intros)

subsection \<open>AuthenticationPayloadSSPI\<close>

datatype AuthenticationPayloadSSPI = AuthenticationPayloadSSPI

definition AuthenticationPayloadSSPI_Length :: "AuthenticationPayloadSSPI \<Rightarrow> int" where
  "AuthenticationPayloadSSPI_Length T =
     0"

definition AuthenticationPayloadSSPI_ReadFrom :: "AuthenticationPayloadSSPI dec" where
  "AuthenticationPayloadSSPI_ReadFrom = dec_return AuthenticationPayloadSSPI"

definition AuthenticationPayloadSSPI_WriteTo :: "AuthenticationPayloadSSPI \<Rightarrow> enc" where
  "AuthenticationPayloadSSPI_WriteTo T =
     enc_skip"

definition AuthenticationPayloadSSPI_ok :: "AuthenticationPayloadSSPI \<Rightarrow> bool" where
  "AuthenticationPayloadSSPI_ok T \<longleftrightarrow> True"

lemma AuthenticationPayloadSSPI_emits: "\<exists>bs. emits (AuthenticationPayloadSSPI_WriteTo v) bs \<and> AuthenticationPayloadSSPI_Length v = go_len bs \<and>
    (AuthenticationPayloadSSPI_ok v \<longrightarrow> reads_end AuthenticationPayloadSSPI_ReadFrom bs v)"
  unfolding AuthenticationPayloadSSPI_WriteTo_def AuthenticationPayloadSSPI_ReadFrom_def
  by (rule exI, rule conjI, (rule emit_rules)+, rule conjI, simp add: AuthenticationPayloadSSPI_Length_def wire_simps)
    (rule impI, ((rule read_rules | simp add: AuthenticationPayloadSSPI_ok_def list_all_iff)+), cases v, simp)

lemma AuthenticationPayloadSSPI_total: "total AuthenticationPayloadSSPI_ReadFrom"
  unfolding AuthenticationPayloadSSPI_ReadFrom_def by (intro codec_intros)

text \<open>The interface \<^verbatim>\<open>AuthenticationPayloadMode\<close> and its implementations.\<close>

datatype AuthenticationPayloadMode =
    AuthCleartextPassword AuthenticationPayloadCleartextPassword
  | AuthGSS AuthenticationPayloadGSS
  | AuthGSSContinue AuthenticationPayloadGSSContinue
  | AuthKerberosV5 AuthenticationPayloadKerberosV5
  | AuthMD5Password AuthenticationPayloadMD5Password
  | AuthOk AuthenticationPayloadOk
  | AuthSASL AuthenticationPayloadSASL
  | AuthSASLContinue AuthenticationPayloadSASLContinue
  | AuthSASLFinal AuthenticationPayloadSASLFinal
  | AuthSSPI AuthenticationPayloadSSPI

fun AuthenticationPayloadMode_code :: "AuthenticationPayloadMode \<Rightarrow> 32 word" where
  "AuthenticationPayloadMode_code (AuthCleartextPassword T) = 3"
| "AuthenticationPayloadMode_code (AuthGSS T) = 7"
| "AuthenticationPayloadMode_code (AuthGSSContinue T) = 8"
| "AuthenticationPayloadMode_code (AuthKerberosV5 T) = 2"
| "AuthenticationPayloadMode_code (AuthMD5Password T) = 5"
| "AuthenticationPayloadMode_code (AuthOk T) = 0"
| "AuthenticationPayloadMode_code (AuthSASL T) = 10"
| "AuthenticationPayloadMode_code (AuthSASLContinue T) = 11"
| "AuthenticationPayloadMode_code (AuthSASLFinal T) = 12"
| "AuthenticationPayloadMode_code (AuthSSPI T) = 9"

fun AuthenticationPayloadMode_Length :: "AuthenticationPayloadMode \<Rightarrow> int" where
  "AuthenticationPayloadMode_Length (AuthCleartextPassword T) = AuthenticationPayloadCleartextPassword_Length T"
| "AuthenticationPayloadMode_Length (AuthGSS T) = AuthenticationPayloadGSS_Length T"
| "AuthenticationPayloadMode_Length (AuthGSSContinue T) = AuthenticationPayloadGSSContinue_Length T"
| "AuthenticationPayloadMode_Length (AuthKerberosV5 T) = AuthenticationPayloadKerberosV5_Length T"
| "AuthenticationPayloadMode_Length (AuthMD5Password T) = AuthenticationPayloadMD5Password_Length T"
| "AuthenticationPayloadMode_Length (AuthOk T) = AuthenticationPayloadOk_Length T"
| "AuthenticationPayloadMode_Length (AuthSASL T) = AuthenticationPayloadSASL_Length T"
| "AuthenticationPayloadMode_Length (AuthSASLContinue T) = AuthenticationPayloadSASLContinue_Length T"
| "AuthenticationPayloadMode_Length (AuthSASLFinal T) = AuthenticationPayloadSASLFinal_Length T"
| "AuthenticationPayloadMode_Length (AuthSSPI T) = AuthenticationPayloadSSPI_Length T"

fun AuthenticationPayloadMode_WriteTo :: "AuthenticationPayloadMode \<Rightarrow> enc" where
  "AuthenticationPayloadMode_WriteTo (AuthCleartextPassword T) = AuthenticationPayloadCleartextPassword_WriteTo T"
| "AuthenticationPayloadMode_WriteTo (AuthGSS T) = AuthenticationPayloadGSS_WriteTo T"
| "AuthenticationPayloadMode_WriteTo (AuthGSSContinue T) = AuthenticationPayloadGSSContinue_WriteTo T"
| "AuthenticationPayloadMode_WriteTo (AuthKerberosV5 T) = AuthenticationPayloadKerberosV5_WriteTo T"
| "AuthenticationPayloadMode_WriteTo (AuthMD5Password T) = AuthenticationPayloadMD5Password_WriteTo T"
| "AuthenticationPayloadMode_WriteTo (AuthOk T) = AuthenticationPayloadOk_WriteTo T"
| "AuthenticationPayloadMode_WriteTo (AuthSASL T) = AuthenticationPayloadSASL_WriteTo T"
| "AuthenticationPayloadMode_WriteTo (AuthSASLContinue T) = AuthenticationPayloadSASLContinue_WriteTo T"
| "AuthenticationPayloadMode_WriteTo (AuthSASLFinal T) = AuthenticationPayloadSASLFinal_WriteTo T"
| "AuthenticationPayloadMode_WriteTo (AuthSSPI T) = AuthenticationPayloadSSPI_WriteTo T"

fun AuthenticationPayloadMode_ok :: "AuthenticationPayloadMode \<Rightarrow> bool" where
  "AuthenticationPayloadMode_ok (AuthCleartextPassword T) = AuthenticationPayloadCleartextPassword_ok T"
| "AuthenticationPayloadMode_ok (AuthGSS T) = AuthenticationPayloadGSS_ok T"
| "AuthenticationPayloadMode_ok (AuthGSSContinue T) = AuthenticationPayloadGSSContinue_ok T"
| "AuthenticationPayloadMode_ok (AuthKerberosV5 T) = AuthenticationPayloadKerberosV5_ok T"
| "AuthenticationPayloadMode_ok (AuthMD5Password T) = AuthenticationPayloadMD5Password_ok T"
| "AuthenticationPayloadMode_ok (AuthOk T) = AuthenticationPayloadOk_ok T"
| "AuthenticationPayloadMode_ok (AuthSASL T) = AuthenticationPayloadSASL_ok T"
| "AuthenticationPayloadMode_ok (AuthSASLContinue T) = AuthenticationPayloadSASLContinue_ok T"
| "AuthenticationPayloadMode_ok (AuthSASLFinal T) = AuthenticationPayloadSASLFinal_ok T"
| "AuthenticationPayloadMode_ok (AuthSSPI T) = AuthenticationPayloadSSPI_ok T"

text \<open>The switch that chooses the implementation and reads it.\<close>

definition AuthenticationPayloadMode_read :: "32 word \<Rightarrow> AuthenticationPayloadMode dec" where
  "AuthenticationPayloadMode_read n =
    (if n = 3 then dec_bind AuthenticationPayloadCleartextPassword_ReadFrom (\<lambda>T. dec_return (AuthCleartextPassword T))
     else if n = 7 then dec_bind AuthenticationPayloadGSS_ReadFrom (\<lambda>T. dec_return (AuthGSS T))
     else if n = 8 then dec_bind AuthenticationPayloadGSSContinue_ReadFrom (\<lambda>T. dec_return (AuthGSSContinue T))
     else if n = 2 then dec_bind AuthenticationPayloadKerberosV5_ReadFrom (\<lambda>T. dec_return (AuthKerberosV5 T))
     else if n = 5 then dec_bind AuthenticationPayloadMD5Password_ReadFrom (\<lambda>T. dec_return (AuthMD5Password T))
     else if n = 0 then dec_bind AuthenticationPayloadOk_ReadFrom (\<lambda>T. dec_return (AuthOk T))
     else if n = 10 then dec_bind AuthenticationPayloadSASL_ReadFrom (\<lambda>T. dec_return (AuthSASL T))
     else if n = 11 then dec_bind AuthenticationPayloadSASLContinue_ReadFrom (\<lambda>T. dec_return (AuthSASLContinue T))
     else if n = 12 then dec_bind AuthenticationPayloadSASLFinal_ReadFrom (\<lambda>T. dec_return (AuthSASLFinal T))
     else if n = 9 then dec_bind AuthenticationPayloadSSPI_ReadFrom (\<lambda>T. dec_return (AuthSSPI T))
     else dec_fail ErrInvalidFormat)"

lemma AuthenticationPayloadMode_emits: "\<exists>bs. emits (AuthenticationPayloadMode_WriteTo m) bs \<and> AuthenticationPayloadMode_Length m = go_len bs \<and>
    (AuthenticationPayloadMode_ok m \<longrightarrow> reads_end (AuthenticationPayloadMode_read (AuthenticationPayloadMode_code m)) bs m)"
proof (cases m)
  case (AuthCleartextPassword T)
  with AuthenticationPayloadCleartextPassword_emits [of T] show ?thesis by (auto simp: AuthenticationPayloadMode_read_def intro: reads_last)
next
  case (AuthGSS T)
  with AuthenticationPayloadGSS_emits [of T] show ?thesis by (auto simp: AuthenticationPayloadMode_read_def intro: reads_last)
next
  case (AuthGSSContinue T)
  with AuthenticationPayloadGSSContinue_emits [of T] show ?thesis by (auto simp: AuthenticationPayloadMode_read_def intro: reads_last)
next
  case (AuthKerberosV5 T)
  with AuthenticationPayloadKerberosV5_emits [of T] show ?thesis by (auto simp: AuthenticationPayloadMode_read_def intro: reads_last)
next
  case (AuthMD5Password T)
  with AuthenticationPayloadMD5Password_emits [of T] show ?thesis by (auto simp: AuthenticationPayloadMode_read_def intro: reads_last)
next
  case (AuthOk T)
  with AuthenticationPayloadOk_emits [of T] show ?thesis by (auto simp: AuthenticationPayloadMode_read_def intro: reads_last)
next
  case (AuthSASL T)
  with AuthenticationPayloadSASL_emits [of T] show ?thesis by (auto simp: AuthenticationPayloadMode_read_def intro: reads_last)
next
  case (AuthSASLContinue T)
  with AuthenticationPayloadSASLContinue_emits [of T] show ?thesis by (auto simp: AuthenticationPayloadMode_read_def intro: reads_last)
next
  case (AuthSASLFinal T)
  with AuthenticationPayloadSASLFinal_emits [of T] show ?thesis by (auto simp: AuthenticationPayloadMode_read_def intro: reads_last)
next
  case (AuthSSPI T)
  with AuthenticationPayloadSSPI_emits [of T] show ?thesis by (auto simp: AuthenticationPayloadMode_read_def intro: reads_last)
qed

lemma AuthenticationPayloadMode_read_total: "total (AuthenticationPayloadMode_read n)"
  unfolding AuthenticationPayloadMode_read_def
  by (intro codec_intros AuthenticationPayloadCleartextPassword_total AuthenticationPayloadGSS_total AuthenticationPayloadGSSContinue_total
      AuthenticationPayloadKerberosV5_total AuthenticationPayloadMD5Password_total AuthenticationPayloadOk_total
      AuthenticationPayloadSASL_total AuthenticationPayloadSASLContinue_total AuthenticationPayloadSASLFinal_total
      AuthenticationPayloadSSPI_total)

record Authentication =
  Authentication_Mode :: AuthenticationPayloadMode

definition TypeAuthentication :: byte where "TypeAuthentication = type_code CHR ''R''"

definition Authentication_Length :: "Authentication \<Rightarrow> int" where
  "Authentication_Length T = 4 + AuthenticationPayloadMode_Length (Authentication_Mode T)"

definition Authentication_ReadFrom :: "Authentication dec" where
  "Authentication_ReadFrom = dec_typed TypeAuthentication
    (dec_bind dec_Int32 (\<lambda>n.
     dec_bind (AuthenticationPayloadMode_read n) (\<lambda>m. dec_return \<lparr>Authentication_Mode = m\<rparr>)))"

definition Authentication_WriteTo :: "Authentication \<Rightarrow> enc" where
  "Authentication_WriteTo T =
     enc_seq (enc_Int32 (AuthenticationPayloadMode_code (Authentication_Mode T))) (AuthenticationPayloadMode_WriteTo (Authentication_Mode T))"

definition Authentication_ok :: "Authentication \<Rightarrow> bool" where
  "Authentication_ok T \<longleftrightarrow> AuthenticationPayloadMode_ok (Authentication_Mode T)"

lemma Authentication_law: "packet_law TypeAuthentication (Authentication_Length v) (Authentication_WriteTo v) Authentication_ReadFrom (Authentication_ok v) v"
proof -
  from AuthenticationPayloadMode_emits [of "Authentication_Mode v"] obtain bs where bs: "emits (AuthenticationPayloadMode_WriteTo (Authentication_Mode v)) bs"
    "AuthenticationPayloadMode_Length (Authentication_Mode v) = go_len bs"
    "AuthenticationPayloadMode_ok (Authentication_Mode v) \<Longrightarrow> reads_end (AuthenticationPayloadMode_read (AuthenticationPayloadMode_code (Authentication_Mode v))) bs (Authentication_Mode v)" by blast
  have 1: "emits (Authentication_WriteTo v) (be32 (AuthenticationPayloadMode_code (Authentication_Mode v)) @ bs)"
    unfolding Authentication_WriteTo_def by (intro emits_seq Int_emits bs(1))
  have 2: "Authentication_Length v = go_len (be32 (AuthenticationPayloadMode_code (Authentication_Mode v)) @ bs)"
    by (simp add: Authentication_Length_def bs(2) wire_simps)
  have 3: "reads_end (dec_bind dec_Int32 (\<lambda>n.
     dec_bind (AuthenticationPayloadMode_read n) (\<lambda>m. dec_return \<lparr>Authentication_Mode = m\<rparr>)))
    (be32 (AuthenticationPayloadMode_code (Authentication_Mode v)) @ bs) v" if "Authentication_ok v"
    by (rule reads_bind, rule Uint_reads, rule reads_last, rule bs(3))
      (use that in \<open>simp add: Authentication_ok_def\<close>, cases v, simp)
  show ?thesis unfolding Authentication_ReadFrom_def by (rule packet_lawI [OF 1 2 3])
qed

lemma Authentication_total: "total Authentication_ReadFrom"
  unfolding Authentication_ReadFrom_def by (intro codec_intros AuthenticationPayloadMode_read_total)

section \<open>Messages\<close>

subsection \<open>BackendKeyData\<close>

record BackendKeyData =
  BackendKeyData_ProcessID :: "32 word"
  BackendKeyData_SecretKey :: "32 word"

definition TypeBackendKeyData :: byte where "TypeBackendKeyData = type_code CHR ''K''"

definition BackendKeyData_Length :: "BackendKeyData \<Rightarrow> int" where
  "BackendKeyData_Length T =
     4 +
     4"

definition BackendKeyData_ReadFrom :: "BackendKeyData dec" where
  "BackendKeyData_ReadFrom = dec_typed TypeBackendKeyData
    (dec_bind dec_Int32 (\<lambda>ProcessID.
     dec_bind dec_Int32 (\<lambda>SecretKey.
     dec_return \<lparr>BackendKeyData_ProcessID = ProcessID, BackendKeyData_SecretKey = SecretKey\<rparr>)))"

definition BackendKeyData_WriteTo :: "BackendKeyData \<Rightarrow> enc" where
  "BackendKeyData_WriteTo T =
     enc_seq (enc_Int32 (BackendKeyData_ProcessID T))
    (enc_Int32 (BackendKeyData_SecretKey T))"

definition BackendKeyData_ok :: "BackendKeyData \<Rightarrow> bool" where
  "BackendKeyData_ok T \<longleftrightarrow> True"

lemma BackendKeyData_law: "packet_law TypeBackendKeyData (BackendKeyData_Length v) (BackendKeyData_WriteTo v) BackendKeyData_ReadFrom (BackendKeyData_ok v) v"
  unfolding BackendKeyData_WriteTo_def BackendKeyData_ReadFrom_def
  by (rule packet_lawI, (rule emit_rules)+, simp add: BackendKeyData_Length_def wire_simps)
    (((rule read_rules | simp add: BackendKeyData_ok_def list_all_iff)+), cases v, simp)

lemma BackendKeyData_total: "total BackendKeyData_ReadFrom"
  unfolding BackendKeyData_ReadFrom_def by (intro codec_intros)

subsection \<open>Bind\<close>

record Bind =
  Bind_Destination :: string
  Bind_Source :: string
  Bind_FormatCodes :: "16 word list"
  Bind_Parameters :: "byte list option list"
  Bind_ResultFormatCodes :: "16 word list"

definition TypeBind :: byte where "TypeBind = type_code CHR ''B''"

definition Bind_Length :: "Bind \<Rightarrow> int" where
  "Bind_Length T =
     (go_len (Bind_Destination T) + 1) +
     (go_len (Bind_Source T) + 1) +
     (2 + sum_list (map (\<lambda>_. 2) (Bind_FormatCodes T))) +
     (2 + sum_list (map (\<lambda>x. 4 + sum_list (map (\<lambda>_. 1) (case x of None \<Rightarrow> [] | Some ys \<Rightarrow> ys))) (Bind_Parameters T))) +
     (2 + sum_list (map (\<lambda>_. 2) (Bind_ResultFormatCodes T)))"

definition Bind_ReadFrom :: "Bind dec" where
  "Bind_ReadFrom = dec_typed TypeBind
    (dec_bind dec_String (\<lambda>Destination.
     dec_bind dec_String (\<lambda>Source.
     dec_bind (dec_slice16 dec_Int16) (\<lambda>FormatCodes.
     dec_bind (dec_slice16 dec_nullable) (\<lambda>Parameters.
     dec_bind (dec_slice16 dec_Int16) (\<lambda>ResultFormatCodes.
     dec_return \<lparr>Bind_Destination = Destination, Bind_Source = Source, Bind_FormatCodes = FormatCodes, Bind_Parameters = Parameters, Bind_ResultFormatCodes = ResultFormatCodes\<rparr>))))))"

definition Bind_WriteTo :: "Bind \<Rightarrow> enc" where
  "Bind_WriteTo T =
     enc_seq (enc_String (Bind_Destination T))
    (enc_seq (enc_String (Bind_Source T))
    (enc_seq (enc_slice16 enc_Int16 (Bind_FormatCodes T))
    (enc_seq (enc_slice16 enc_nullable (Bind_Parameters T))
    (enc_slice16 enc_Int16 (Bind_ResultFormatCodes T)))))"

definition Bind_ok :: "Bind \<Rightarrow> bool" where
  "Bind_ok T \<longleftrightarrow> no_nul (Bind_Destination T) \<and>
     no_nul (Bind_Source T) \<and>
     length (Bind_FormatCodes T) < 2 ^ 16 \<and>
     length (Bind_Parameters T) < 2 ^ 16 \<and>
     list_all fits31 (Bind_Parameters T) \<and>
     length (Bind_ResultFormatCodes T) < 2 ^ 16"

lemma Bind_law: "packet_law TypeBind (Bind_Length v) (Bind_WriteTo v) Bind_ReadFrom (Bind_ok v) v"
  unfolding Bind_WriteTo_def Bind_ReadFrom_def
  by (rule packet_lawI, (rule emit_rules)+, simp add: Bind_Length_def wire_simps)
    (((rule read_rules | simp add: Bind_ok_def list_all_iff)+), cases v, simp)

subsection \<open>BindComplete\<close>

datatype BindComplete = BindComplete

definition TypeBindComplete :: byte where "TypeBindComplete = type_code CHR ''2''"

definition BindComplete_Length :: "BindComplete \<Rightarrow> int" where
  "BindComplete_Length T =
     0"

definition BindComplete_ReadFrom :: "BindComplete dec" where
  "BindComplete_ReadFrom = dec_typed TypeBindComplete
    (dec_return BindComplete)"

definition BindComplete_WriteTo :: "BindComplete \<Rightarrow> enc" where
  "BindComplete_WriteTo T =
     enc_skip"

definition BindComplete_ok :: "BindComplete \<Rightarrow> bool" where
  "BindComplete_ok T \<longleftrightarrow> True"

lemma BindComplete_law: "packet_law TypeBindComplete (BindComplete_Length v) (BindComplete_WriteTo v) BindComplete_ReadFrom (BindComplete_ok v) v"
  unfolding BindComplete_WriteTo_def BindComplete_ReadFrom_def
  by (rule packet_lawI, (rule emit_rules)+, simp add: BindComplete_Length_def wire_simps)
    (((rule read_rules | simp add: BindComplete_ok_def list_all_iff)+), cases v, simp)

lemma BindComplete_total: "total BindComplete_ReadFrom"
  unfolding BindComplete_ReadFrom_def by (intro codec_intros)

subsection \<open>Close\<close>

record Close =
  Close_Which :: byte
  Close_Name :: string

definition TypeClose :: byte where "TypeClose = type_code CHR ''C''"

definition Close_Length :: "Close \<Rightarrow> int" where
  "Close_Length T =
     1 +
     (go_len (Close_Name T) + 1)"

definition Close_ReadFrom :: "Close dec" where
  "Close_ReadFrom = dec_typed TypeClose
    (dec_bind dec_Uint8 (\<lambda>Which.
     dec_bind dec_String (\<lambda>Name.
     dec_return \<lparr>Close_Which = Which, Close_Name = Name\<rparr>)))"

definition Close_WriteTo :: "Close \<Rightarrow> enc" where
  "Close_WriteTo T =
     enc_seq (enc_Uint8 (Close_Which T))
    (enc_String (Close_Name T))"

definition Close_ok :: "Close \<Rightarrow> bool" where
  "Close_ok T \<longleftrightarrow> no_nul (Close_Name T)"

lemma Close_law: "packet_law TypeClose (Close_Length v) (Close_WriteTo v) Close_ReadFrom (Close_ok v) v"
  unfolding Close_WriteTo_def Close_ReadFrom_def
  by (rule packet_lawI, (rule emit_rules)+, simp add: Close_Length_def wire_simps)
    (((rule read_rules | simp add: Close_ok_def list_all_iff)+), cases v, simp)

lemma Close_total: "total Close_ReadFrom"
  unfolding Close_ReadFrom_def by (intro codec_intros)

subsection \<open>CloseComplete\<close>

datatype CloseComplete = CloseComplete

definition TypeCloseComplete :: byte where "TypeCloseComplete = type_code CHR ''3''"

definition CloseComplete_Length :: "CloseComplete \<Rightarrow> int" where
  "CloseComplete_Length T =
     0"

definition CloseComplete_ReadFrom :: "CloseComplete dec" where
  "CloseComplete_ReadFrom = dec_typed TypeCloseComplete
    (dec_return CloseComplete)"

definition CloseComplete_WriteTo :: "CloseComplete \<Rightarrow> enc" where
  "CloseComplete_WriteTo T =
     enc_skip"

definition CloseComplete_ok :: "CloseComplete \<Rightarrow> bool" where
  "CloseComplete_ok T \<longleftrightarrow> True"

lemma CloseComplete_law: "packet_law TypeCloseComplete (CloseComplete_Length v) (CloseComplete_WriteTo v) CloseComplete_ReadFrom (CloseComplete_ok v) v"
  unfolding CloseComplete_WriteTo_def CloseComplete_ReadFrom_def
  by (rule packet_lawI, (rule emit_rules)+, simp add: CloseComplete_Length_def wire_simps)
    (((rule read_rules | simp add: CloseComplete_ok_def list_all_iff)+), cases v, simp)

lemma CloseComplete_total: "total CloseComplete_ReadFrom"
  unfolding CloseComplete_ReadFrom_def by (intro codec_intros)

subsection \<open>CommandComplete\<close>

type_synonym CommandComplete = string

definition TypeCommandComplete :: byte where "TypeCommandComplete = type_code CHR ''C''"

definition CommandComplete_Length :: "CommandComplete \<Rightarrow> int" where
  "CommandComplete_Length T =
     go_len T + 1"

definition CommandComplete_ReadFrom :: "CommandComplete dec" where
  "CommandComplete_ReadFrom = dec_typed TypeCommandComplete
    (dec_String)"

definition CommandComplete_WriteTo :: "CommandComplete \<Rightarrow> enc" where
  "CommandComplete_WriteTo T =
     enc_String T"

definition CommandComplete_ok :: "CommandComplete \<Rightarrow> bool" where
  "CommandComplete_ok T \<longleftrightarrow> no_nul T"

lemma CommandComplete_law: "packet_law TypeCommandComplete (CommandComplete_Length v) (CommandComplete_WriteTo v) CommandComplete_ReadFrom (CommandComplete_ok v) v"
  unfolding CommandComplete_WriteTo_def CommandComplete_ReadFrom_def
  by (rule packet_lawI, (rule emit_rules)+, simp add: CommandComplete_Length_def wire_simps)
    (((rule read_rules | simp add: CommandComplete_ok_def list_all_iff)+))

lemma CommandComplete_total: "total CommandComplete_ReadFrom"
  unfolding CommandComplete_ReadFrom_def by (intro codec_intros)

subsection \<open>CopyBothResponse\<close>

record CopyBothResponse =
  CopyBothResponse_Mode :: byte
  CopyBothResponse_ColumnFormatCodes :: "16 word list"

definition TypeCopyBothResponse :: byte where "TypeCopyBothResponse = type_code CHR ''W''"

definition CopyBothResponse_Length :: "CopyBothResponse \<Rightarrow> int" where
  "CopyBothResponse_Length T =
     1 +
     (2 + sum_list (map (\<lambda>_. 2) (CopyBothResponse_ColumnFormatCodes T)))"

definition CopyBothResponse_ReadFrom :: "CopyBothResponse dec" where
  "CopyBothResponse_ReadFrom = dec_typed TypeCopyBothResponse
    (dec_bind dec_Int8 (\<lambda>Mode.
     dec_bind (dec_slice16 dec_Int16) (\<lambda>ColumnFormatCodes.
     dec_return \<lparr>CopyBothResponse_Mode = Mode, CopyBothResponse_ColumnFormatCodes = ColumnFormatCodes\<rparr>)))"

definition CopyBothResponse_WriteTo :: "CopyBothResponse \<Rightarrow> enc" where
  "CopyBothResponse_WriteTo T =
     enc_seq (enc_Int8 (CopyBothResponse_Mode T))
    (enc_slice16 enc_Int16 (CopyBothResponse_ColumnFormatCodes T))"

definition CopyBothResponse_ok :: "CopyBothResponse \<Rightarrow> bool" where
  "CopyBothResponse_ok T \<longleftrightarrow> length (CopyBothResponse_ColumnFormatCodes T) < 2 ^ 16"

lemma CopyBothResponse_law: "packet_law TypeCopyBothResponse (CopyBothResponse_Length v) (CopyBothResponse_WriteTo v) CopyBothResponse_ReadFrom (CopyBothResponse_ok v) v"
  unfolding CopyBothResponse_WriteTo_def CopyBothResponse_ReadFrom_def
  by (rule packet_lawI, (rule emit_rules)+, simp add: CopyBothResponse_Length_def wire_simps)
    (((rule read_rules | simp add: CopyBothResponse_ok_def list_all_iff)+), cases v, simp)

lemma CopyBothResponse_total: "total CopyBothResponse_ReadFrom"
  unfolding CopyBothResponse_ReadFrom_def by (intro codec_intros)

subsection \<open>CopyData\<close>

type_synonym CopyData = "byte list"

definition TypeCopyData :: byte where "TypeCopyData = type_code CHR ''d''"

definition CopyData_Length :: "CopyData \<Rightarrow> int" where
  "CopyData_Length T =
     sum_list (map (\<lambda>_. 1) T)"

definition CopyData_ReadFrom :: "CopyData dec" where
  "CopyData_ReadFrom = dec_typed TypeCopyData
    (dec_remaining)"

definition CopyData_WriteTo :: "CopyData \<Rightarrow> enc" where
  "CopyData_WriteTo T =
     enc_each enc_Uint8 T"

definition CopyData_ok :: "CopyData \<Rightarrow> bool" where
  "CopyData_ok T \<longleftrightarrow> True"

lemma CopyData_law: "packet_law TypeCopyData (CopyData_Length v) (CopyData_WriteTo v) CopyData_ReadFrom (CopyData_ok v) v"
  unfolding CopyData_WriteTo_def CopyData_ReadFrom_def
  by (rule packet_lawI, (rule emit_rules)+, simp add: CopyData_Length_def wire_simps)
    (((rule read_rules | simp add: CopyData_ok_def list_all_iff)+))

lemma CopyData_total: "total CopyData_ReadFrom"
  unfolding CopyData_ReadFrom_def by (intro codec_intros)

subsection \<open>CopyDone\<close>

datatype CopyDone = CopyDone

definition TypeCopyDone :: byte where "TypeCopyDone = type_code CHR ''c''"

definition CopyDone_Length :: "CopyDone \<Rightarrow> int" where
  "CopyDone_Length T =
     0"

definition CopyDone_ReadFrom :: "CopyDone dec" where
  "CopyDone_ReadFrom = dec_typed TypeCopyDone
    (dec_return CopyDone)"

definition CopyDone_WriteTo :: "CopyDone \<Rightarrow> enc" where
  "CopyDone_WriteTo T =
     enc_skip"

definition CopyDone_ok :: "CopyDone \<Rightarrow> bool" where
  "CopyDone_ok T \<longleftrightarrow> True"

lemma CopyDone_law: "packet_law TypeCopyDone (CopyDone_Length v) (CopyDone_WriteTo v) CopyDone_ReadFrom (CopyDone_ok v) v"
  unfolding CopyDone_WriteTo_def CopyDone_ReadFrom_def
  by (rule packet_lawI, (rule emit_rules)+, simp add: CopyDone_Length_def wire_simps)
    (((rule read_rules | simp add: CopyDone_ok_def list_all_iff)+), cases v, simp)

lemma CopyDone_total: "total CopyDone_ReadFrom"
  unfolding CopyDone_ReadFrom_def by (intro codec_intros)

subsection \<open>CopyFail\<close>

type_synonym CopyFail = string

definition TypeCopyFail :: byte where "TypeCopyFail = type_code CHR ''f''"

definition CopyFail_Length :: "CopyFail \<Rightarrow> int" where
  "CopyFail_Length T =
     go_len T + 1"

definition CopyFail_ReadFrom :: "CopyFail dec" where
  "CopyFail_ReadFrom = dec_typed TypeCopyFail
    (dec_String)"

definition CopyFail_WriteTo :: "CopyFail \<Rightarrow> enc" where
  "CopyFail_WriteTo T =
     enc_String T"

definition CopyFail_ok :: "CopyFail \<Rightarrow> bool" where
  "CopyFail_ok T \<longleftrightarrow> no_nul T"

lemma CopyFail_law: "packet_law TypeCopyFail (CopyFail_Length v) (CopyFail_WriteTo v) CopyFail_ReadFrom (CopyFail_ok v) v"
  unfolding CopyFail_WriteTo_def CopyFail_ReadFrom_def
  by (rule packet_lawI, (rule emit_rules)+, simp add: CopyFail_Length_def wire_simps)
    (((rule read_rules | simp add: CopyFail_ok_def list_all_iff)+))

lemma CopyFail_total: "total CopyFail_ReadFrom"
  unfolding CopyFail_ReadFrom_def by (intro codec_intros)

subsection \<open>CopyInResponse\<close>

record CopyInResponse =
  CopyInResponse_Mode :: byte
  CopyInResponse_ColumnFormatCodes :: "16 word list"

definition TypeCopyInResponse :: byte where "TypeCopyInResponse = type_code CHR ''G''"

definition CopyInResponse_Length :: "CopyInResponse \<Rightarrow> int" where
  "CopyInResponse_Length T =
     1 +
     (2 + sum_list (map (\<lambda>_. 2) (CopyInResponse_ColumnFormatCodes T)))"

definition CopyInResponse_ReadFrom :: "CopyInResponse dec" where
  "CopyInResponse_ReadFrom = dec_typed TypeCopyInResponse
    (dec_bind dec_Int8 (\<lambda>Mode.
     dec_bind (dec_slice16 dec_Int16) (\<lambda>ColumnFormatCodes.
     dec_return \<lparr>CopyInResponse_Mode = Mode, CopyInResponse_ColumnFormatCodes = ColumnFormatCodes\<rparr>)))"

definition CopyInResponse_WriteTo :: "CopyInResponse \<Rightarrow> enc" where
  "CopyInResponse_WriteTo T =
     enc_seq (enc_Int8 (CopyInResponse_Mode T))
    (enc_slice16 enc_Int16 (CopyInResponse_ColumnFormatCodes T))"

definition CopyInResponse_ok :: "CopyInResponse \<Rightarrow> bool" where
  "CopyInResponse_ok T \<longleftrightarrow> length (CopyInResponse_ColumnFormatCodes T) < 2 ^ 16"

lemma CopyInResponse_law: "packet_law TypeCopyInResponse (CopyInResponse_Length v) (CopyInResponse_WriteTo v) CopyInResponse_ReadFrom (CopyInResponse_ok v) v"
  unfolding CopyInResponse_WriteTo_def CopyInResponse_ReadFrom_def
  by (rule packet_lawI, (rule emit_rules)+, simp add: CopyInResponse_Length_def wire_simps)
    (((rule read_rules | simp add: CopyInResponse_ok_def list_all_iff)+), cases v, simp)

lemma CopyInResponse_total: "total CopyInResponse_ReadFrom"
  unfolding CopyInResponse_ReadFrom_def by (intro codec_intros)

subsection \<open>CopyOutResponse\<close>

record CopyOutResponse =
  CopyOutResponse_Mode :: byte
  CopyOutResponse_ColumnFormatCodes :: "16 word list"

definition TypeCopyOutResponse :: byte where "TypeCopyOutResponse = type_code CHR ''H''"

definition CopyOutResponse_Length :: "CopyOutResponse \<Rightarrow> int" where
  "CopyOutResponse_Length T =
     1 +
     (2 + sum_list (map (\<lambda>_. 2) (CopyOutResponse_ColumnFormatCodes T)))"

definition CopyOutResponse_ReadFrom :: "CopyOutResponse dec" where
  "CopyOutResponse_ReadFrom = dec_typed TypeCopyOutResponse
    (dec_bind dec_Int8 (\<lambda>Mode.
     dec_bind (dec_slice16 dec_Int16) (\<lambda>ColumnFormatCodes.
     dec_return \<lparr>CopyOutResponse_Mode = Mode, CopyOutResponse_ColumnFormatCodes = ColumnFormatCodes\<rparr>)))"

definition CopyOutResponse_WriteTo :: "CopyOutResponse \<Rightarrow> enc" where
  "CopyOutResponse_WriteTo T =
     enc_seq (enc_Int8 (CopyOutResponse_Mode T))
    (enc_slice16 enc_Int16 (CopyOutResponse_ColumnFormatCodes T))"

definition CopyOutResponse_ok :: "CopyOutResponse \<Rightarrow> bool" where
  "CopyOutResponse_ok T \<longleftrightarrow> length (CopyOutResponse_ColumnFormatCodes T) < 2 ^ 16"

lemma CopyOutResponse_law: "packet_law TypeCopyOutResponse (CopyOutResponse_Length v) (CopyOutResponse_WriteTo v) CopyOutResponse_ReadFrom (CopyOutResponse_ok v) v"
  unfolding CopyOutResponse_WriteTo_def CopyOutResponse_ReadFrom_def
  by (rule packet_lawI, (rule emit_rules)+, simp add: CopyOutResponse_Length_def wire_simps)
    (((rule read_rules | simp add: CopyOutResponse_ok_def list_all_iff)+), cases v, simp)

lemma CopyOutResponse_total: "total CopyOutResponse_ReadFrom"
  unfolding CopyOutResponse_ReadFrom_def by (intro codec_intros)

subsection \<open>DataRow\<close>

type_synonym DataRow = "byte list option list"

definition TypeDataRow :: byte where "TypeDataRow = type_code CHR ''D''"

definition DataRow_Length :: "DataRow \<Rightarrow> int" where
  "DataRow_Length T =
     2 + sum_list (map (\<lambda>x. 4 + sum_list (map (\<lambda>_. 1) (case x of None \<Rightarrow> [] | Some ys \<Rightarrow> ys))) T)"

definition DataRow_ReadFrom :: "DataRow dec" where
  "DataRow_ReadFrom = dec_typed TypeDataRow
    (dec_slice16 dec_nullable)"

definition DataRow_WriteTo :: "DataRow \<Rightarrow> enc" where
  "DataRow_WriteTo T =
     enc_slice16 enc_nullable T"

definition DataRow_ok :: "DataRow \<Rightarrow> bool" where
  "DataRow_ok T \<longleftrightarrow> length T < 2 ^ 16 \<and>
     list_all fits31 T"

lemma DataRow_law: "packet_law TypeDataRow (DataRow_Length v) (DataRow_WriteTo v) DataRow_ReadFrom (DataRow_ok v) v"
  unfolding DataRow_WriteTo_def DataRow_ReadFrom_def
  by (rule packet_lawI, (rule emit_rules)+, simp add: DataRow_Length_def wire_simps)
    (((rule read_rules | simp add: DataRow_ok_def list_all_iff)+))

subsection \<open>Describe\<close>

record Describe =
  Describe_Which :: byte
  Describe_Name :: string

definition TypeDescribe :: byte where "TypeDescribe = type_code CHR ''D''"

definition Describe_Length :: "Describe \<Rightarrow> int" where
  "Describe_Length T =
     1 +
     (go_len (Describe_Name T) + 1)"

definition Describe_ReadFrom :: "Describe dec" where
  "Describe_ReadFrom = dec_typed TypeDescribe
    (dec_bind dec_Uint8 (\<lambda>Which.
     dec_bind dec_String (\<lambda>Name.
     dec_return \<lparr>Describe_Which = Which, Describe_Name = Name\<rparr>)))"

definition Describe_WriteTo :: "Describe \<Rightarrow> enc" where
  "Describe_WriteTo T =
     enc_seq (enc_Uint8 (Describe_Which T))
    (enc_String (Describe_Name T))"

definition Describe_ok :: "Describe \<Rightarrow> bool" where
  "Describe_ok T \<longleftrightarrow> no_nul (Describe_Name T)"

lemma Describe_law: "packet_law TypeDescribe (Describe_Length v) (Describe_WriteTo v) Describe_ReadFrom (Describe_ok v) v"
  unfolding Describe_WriteTo_def Describe_ReadFrom_def
  by (rule packet_lawI, (rule emit_rules)+, simp add: Describe_Length_def wire_simps)
    (((rule read_rules | simp add: Describe_ok_def list_all_iff)+), cases v, simp)

lemma Describe_total: "total Describe_ReadFrom"
  unfolding Describe_ReadFrom_def by (intro codec_intros)

subsection \<open>EmptyQueryResponse\<close>

datatype EmptyQueryResponse = EmptyQueryResponse

definition TypeEmptyQueryResponse :: byte where "TypeEmptyQueryResponse = type_code CHR ''I''"

definition EmptyQueryResponse_Length :: "EmptyQueryResponse \<Rightarrow> int" where
  "EmptyQueryResponse_Length T =
     0"

definition EmptyQueryResponse_ReadFrom :: "EmptyQueryResponse dec" where
  "EmptyQueryResponse_ReadFrom = dec_typed TypeEmptyQueryResponse
    (dec_return EmptyQueryResponse)"

definition EmptyQueryResponse_WriteTo :: "EmptyQueryResponse \<Rightarrow> enc" where
  "EmptyQueryResponse_WriteTo T =
     enc_skip"

definition EmptyQueryResponse_ok :: "EmptyQueryResponse \<Rightarrow> bool" where
  "EmptyQueryResponse_ok T \<longleftrightarrow> True"

lemma EmptyQueryResponse_law: "packet_law TypeEmptyQueryResponse (EmptyQueryResponse_Length v) (EmptyQueryResponse_WriteTo v) EmptyQueryResponse_ReadFrom (EmptyQueryResponse_ok v) v"
  unfolding EmptyQueryResponse_WriteTo_def EmptyQueryResponse_ReadFrom_def
  by (rule packet_lawI, (rule emit_rules)+, simp add: EmptyQueryResponse_Length_def wire_simps)
    (((rule read_rules | simp add: EmptyQueryResponse_ok_def list_all_iff)+), cases v, simp)

lemma EmptyQueryResponse_total: "total EmptyQueryResponse_ReadFrom"
  unfolding EmptyQueryResponse_ReadFrom_def by (intro codec_intros)

subsection \<open>Execute\<close>

record Execute =
  Execute_Target :: string
  Execute_MaxRows :: "32 word"

definition TypeExecute :: byte where "TypeExecute = type_code CHR ''E''"

definition Execute_Length :: "Execute \<Rightarrow> int" where
  "Execute_Length T =
     (go_len (Execute_Target T) + 1) +
     4"

definition Execute_ReadFrom :: "Execute dec" where
  "Execute_ReadFrom = dec_typed TypeExecute
    (dec_bind dec_String (\<lambda>Target.
     dec_bind dec_Uint32 (\<lambda>MaxRows.
     dec_return \<lparr>Execute_Target = Target, Execute_MaxRows = MaxRows\<rparr>)))"

definition Execute_WriteTo :: "Execute \<Rightarrow> enc" where
  "Execute_WriteTo T =
     enc_seq (enc_String (Execute_Target T))
    (enc_Uint32 (Execute_MaxRows T))"

definition Execute_ok :: "Execute \<Rightarrow> bool" where
  "Execute_ok T \<longleftrightarrow> no_nul (Execute_Target T)"

lemma Execute_law: "packet_law TypeExecute (Execute_Length v) (Execute_WriteTo v) Execute_ReadFrom (Execute_ok v) v"
  unfolding Execute_WriteTo_def Execute_ReadFrom_def
  by (rule packet_lawI, (rule emit_rules)+, simp add: Execute_Length_def wire_simps)
    (((rule read_rules | simp add: Execute_ok_def list_all_iff)+), cases v, simp)

lemma Execute_total: "total Execute_ReadFrom"
  unfolding Execute_ReadFrom_def by (intro codec_intros)

subsection \<open>Flush\<close>

datatype Flush = Flush

definition TypeFlush :: byte where "TypeFlush = type_code CHR ''H''"

definition Flush_Length :: "Flush \<Rightarrow> int" where
  "Flush_Length T =
     0"

definition Flush_ReadFrom :: "Flush dec" where
  "Flush_ReadFrom = dec_typed TypeFlush
    (dec_return Flush)"

definition Flush_WriteTo :: "Flush \<Rightarrow> enc" where
  "Flush_WriteTo T =
     enc_skip"

definition Flush_ok :: "Flush \<Rightarrow> bool" where
  "Flush_ok T \<longleftrightarrow> True"

lemma Flush_law: "packet_law TypeFlush (Flush_Length v) (Flush_WriteTo v) Flush_ReadFrom (Flush_ok v) v"
  unfolding Flush_WriteTo_def Flush_ReadFrom_def
  by (rule packet_lawI, (rule emit_rules)+, simp add: Flush_Length_def wire_simps)
    (((rule read_rules | simp add: Flush_ok_def list_all_iff)+), cases v, simp)

lemma Flush_total: "total Flush_ReadFrom"
  unfolding Flush_ReadFrom_def by (intro codec_intros)

subsection \<open>FunctionCall\<close>

record FunctionCall =
  FunctionCall_ObjectID :: "32 word"
  FunctionCall_ArgumentFormatCodes :: "16 word list"
  FunctionCall_Arguments :: "byte list option list"
  FunctionCall_ResultFormatCode :: "16 word"

definition TypeFunctionCall :: byte where "TypeFunctionCall = type_code CHR ''F''"

definition FunctionCall_Length :: "FunctionCall \<Rightarrow> int" where
  "FunctionCall_Length T =
     4 +
     (2 + sum_list (map (\<lambda>_. 2) (FunctionCall_ArgumentFormatCodes T))) +
     (2 + sum_list (map (\<lambda>x. 4 + sum_list (map (\<lambda>_. 1) (case x of None \<Rightarrow> [] | Some ys \<Rightarrow> ys))) (FunctionCall_Arguments T))) +
     2"

definition FunctionCall_ReadFrom :: "FunctionCall dec" where
  "FunctionCall_ReadFrom = dec_typed TypeFunctionCall
    (dec_bind dec_Int32 (\<lambda>ObjectID.
     dec_bind (dec_slice16 dec_Int16) (\<lambda>ArgumentFormatCodes.
     dec_bind (dec_slice16 dec_nullable) (\<lambda>Arguments.
     dec_bind dec_Int16 (\<lambda>ResultFormatCode.
     dec_return \<lparr>FunctionCall_ObjectID = ObjectID, FunctionCall_ArgumentFormatCodes = ArgumentFormatCodes, FunctionCall_Arguments = Arguments, FunctionCall_ResultFormatCode = ResultFormatCode\<rparr>)))))"

definition FunctionCall_WriteTo :: "FunctionCall \<Rightarrow> enc" where
  "FunctionCall_WriteTo T =
     enc_seq (enc_Int32 (FunctionCall_ObjectID T))
    (enc_seq (enc_slice16 enc_Int16 (FunctionCall_ArgumentFormatCodes T))
    (enc_seq (enc_slice16 enc_nullable (FunctionCall_Arguments T))
    (enc_Int16 (FunctionCall_ResultFormatCode T))))"

definition FunctionCall_ok :: "FunctionCall \<Rightarrow> bool" where
  "FunctionCall_ok T \<longleftrightarrow> length (FunctionCall_ArgumentFormatCodes T) < 2 ^ 16 \<and>
     length (FunctionCall_Arguments T) < 2 ^ 16 \<and>
     list_all fits31 (FunctionCall_Arguments T)"

lemma FunctionCall_law: "packet_law TypeFunctionCall (FunctionCall_Length v) (FunctionCall_WriteTo v) FunctionCall_ReadFrom (FunctionCall_ok v) v"
  unfolding FunctionCall_WriteTo_def FunctionCall_ReadFrom_def
  by (rule packet_lawI, (rule emit_rules)+, simp add: FunctionCall_Length_def wire_simps)
    (((rule read_rules | simp add: FunctionCall_ok_def list_all_iff)+), cases v, simp)

subsection \<open>FunctionCallResponse\<close>

type_synonym FunctionCallResponse = "byte list option"

definition TypeFunctionCallResponse :: byte where "TypeFunctionCallResponse = type_code CHR ''V''"

definition FunctionCallResponse_Length :: "FunctionCallResponse \<Rightarrow> int" where
  "FunctionCallResponse_Length T =
     4 + sum_list (map (\<lambda>_. 1) (case T of None \<Rightarrow> [] | Some ys \<Rightarrow> ys))"

definition FunctionCallResponse_ReadFrom :: "FunctionCallResponse dec" where
  "FunctionCallResponse_ReadFrom = dec_typed TypeFunctionCallResponse
    (dec_nullable)"

definition FunctionCallResponse_WriteTo :: "FunctionCallResponse \<Rightarrow> enc" where
  "FunctionCallResponse_WriteTo T =
     enc_nullable T"

definition FunctionCallResponse_ok :: "FunctionCallResponse \<Rightarrow> bool" where
  "FunctionCallResponse_ok T \<longleftrightarrow> fits31 T"

lemma FunctionCallResponse_law: "packet_law TypeFunctionCallResponse (FunctionCallResponse_Length v) (FunctionCallResponse_WriteTo v) FunctionCallResponse_ReadFrom (FunctionCallResponse_ok v) v"
  unfolding FunctionCallResponse_WriteTo_def FunctionCallResponse_ReadFrom_def
  by (rule packet_lawI, (rule emit_rules)+, simp add: FunctionCallResponse_Length_def wire_simps)
    (((rule read_rules | simp add: FunctionCallResponse_ok_def list_all_iff)+))

subsection \<open>GSSResponse\<close>

type_synonym GSSResponse = "byte list"

definition TypeGSSResponse :: byte where "TypeGSSResponse = type_code CHR ''p''"

definition GSSResponse_Length :: "GSSResponse \<Rightarrow> int" where
  "GSSResponse_Length T =
     sum_list (map (\<lambda>_. 1) T)"

definition GSSResponse_ReadFrom :: "GSSResponse dec" where
  "GSSResponse_ReadFrom = dec_typed TypeGSSResponse
    (dec_remaining)"

definition GSSResponse_WriteTo :: "GSSResponse \<Rightarrow> enc" where
  "GSSResponse_WriteTo T =
     enc_each enc_Uint8 T"

definition GSSResponse_ok :: "GSSResponse \<Rightarrow> bool" where
  "GSSResponse_ok T \<longleftrightarrow> True"

lemma GSSResponse_law: "packet_law TypeGSSResponse (GSSResponse_Length v) (GSSResponse_WriteTo v) GSSResponse_ReadFrom (GSSResponse_ok v) v"
  unfolding GSSResponse_WriteTo_def GSSResponse_ReadFrom_def
  by (rule packet_lawI, (rule emit_rules)+, simp add: GSSResponse_Length_def wire_simps)
    (((rule read_rules | simp add: GSSResponse_ok_def list_all_iff)+))

lemma GSSResponse_total: "total GSSResponse_ReadFrom"
  unfolding GSSResponse_ReadFrom_def by (intro codec_intros)

subsection \<open>MarkiplierResponse\<close>

record MarkiplierResponseField =
  MarkiplierResponseField_Code :: byte
  MarkiplierResponseField_Value :: string

type_synonym MarkiplierResponse = "MarkiplierResponseField list"

definition TypeMarkiplierResponse :: byte where "TypeMarkiplierResponse = type_code CHR ''E''"

definition MarkiplierResponse_Length :: "MarkiplierResponse \<Rightarrow> int" where
  "MarkiplierResponse_Length T = sum_list (map (\<lambda>x. 1 + (go_len (MarkiplierResponseField_Value x) + 1)) T) + 1"

definition MarkiplierResponse_ReadFrom :: "MarkiplierResponse dec" where
  "MarkiplierResponse_ReadFrom = dec_typed TypeMarkiplierResponse
    (dec_until 0 dec_Uint8 (\<lambda>k. dec_bind dec_String (\<lambda>v. dec_return \<lparr>MarkiplierResponseField_Code = k, MarkiplierResponseField_Value = v\<rparr>)))"

definition MarkiplierResponse_WriteTo :: "MarkiplierResponse \<Rightarrow> enc" where
  "MarkiplierResponse_WriteTo T =
     enc_seq (enc_each (\<lambda>x. enc_seq (enc_Uint8 (MarkiplierResponseField_Code x)) (enc_String (MarkiplierResponseField_Value x))) T) (enc_Uint8 0)"

definition MarkiplierResponse_ok :: "MarkiplierResponse \<Rightarrow> bool" where
  "MarkiplierResponse_ok T \<longleftrightarrow> list_all (\<lambda>x. MarkiplierResponseField_Code x \<noteq> 0 \<and> no_nul (MarkiplierResponseField_Value x)) T"

lemma MarkiplierResponse_wire:
  "emits (MarkiplierResponse_WriteTo T) (wire_until ([0]) (\<lambda>x. [MarkiplierResponseField_Code x] @ wire_str (MarkiplierResponseField_Value x)) T)"
  "MarkiplierResponse_Length T = go_len (wire_until ([0]) (\<lambda>x. [MarkiplierResponseField_Code x] @ wire_str (MarkiplierResponseField_Value x)) T)"
  unfolding MarkiplierResponse_WriteTo_def
  by ((rule until_emits, (rule emit_rules)+), simp add: MarkiplierResponse_Length_def wire_simps)

lemma MarkiplierResponse_read_back:
  assumes "MarkiplierResponse_ok T"
  shows "reads (dec_until 0 dec_Uint8 (\<lambda>k. dec_bind dec_String (\<lambda>v. dec_return \<lparr>MarkiplierResponseField_Code = k, MarkiplierResponseField_Value = v\<rparr>))) (wire_until ([0]) (\<lambda>x. [MarkiplierResponseField_Code x] @ wire_str (MarkiplierResponseField_Value x)) T) T"
proof (rule until_reads [where kf = "\<lambda>x. MarkiplierResponseField_Code x"])
  show "reads dec_Uint8 ([MarkiplierResponseField_Code x]) (MarkiplierResponseField_Code x)" "MarkiplierResponseField_Code x \<noteq> 0" if "x \<in> set T" for x
    using that assms by (auto simp: MarkiplierResponse_ok_def list_all_iff intro: read_rules)
  show "reads ((\<lambda>k. dec_bind dec_String (\<lambda>v. dec_return \<lparr>MarkiplierResponseField_Code = k, MarkiplierResponseField_Value = v\<rparr>)) (MarkiplierResponseField_Code x)) (wire_str (MarkiplierResponseField_Value x)) x" if "x \<in> set T" for x
    by (cases x, rule reads_last, rule read_rules) (use assms that in \<open>auto simp: MarkiplierResponse_ok_def list_all_iff\<close>)
  show "reads dec_Uint8 ([0]) 0" by (rule read_rules)
qed

lemma MarkiplierResponse_total: "total MarkiplierResponse_ReadFrom"
  unfolding MarkiplierResponse_ReadFrom_def by (intro codec_intros Uint8_progress)

lemma MarkiplierResponse_law: "packet_law TypeMarkiplierResponse (MarkiplierResponse_Length v) (MarkiplierResponse_WriteTo v) MarkiplierResponse_ReadFrom (MarkiplierResponse_ok v) v"
  unfolding MarkiplierResponse_ReadFrom_def
  by (rule packet_lawI [OF MarkiplierResponse_wire reads_endI [OF MarkiplierResponse_read_back]])

subsection \<open>NegotiateProtocolVersion\<close>

record NegotiateProtocolVersion =
  NegotiateProtocolVersion_MinorProtocolVersion :: "32 word"
  NegotiateProtocolVersion_UnrecognizedProtocolOptions :: "string list"

definition TypeNegotiateProtocolVersion :: byte where "TypeNegotiateProtocolVersion = type_code CHR ''v''"

definition NegotiateProtocolVersion_Length :: "NegotiateProtocolVersion \<Rightarrow> int" where
  "NegotiateProtocolVersion_Length T =
     4 +
     (4 + sum_list (map (\<lambda>x. go_len x + 1) (NegotiateProtocolVersion_UnrecognizedProtocolOptions T)))"

definition NegotiateProtocolVersion_ReadFrom :: "NegotiateProtocolVersion dec" where
  "NegotiateProtocolVersion_ReadFrom = dec_typed TypeNegotiateProtocolVersion
    (dec_bind dec_Int32 (\<lambda>MinorProtocolVersion.
     dec_bind (dec_slice32 dec_String) (\<lambda>UnrecognizedProtocolOptions.
     dec_return \<lparr>NegotiateProtocolVersion_MinorProtocolVersion = MinorProtocolVersion, NegotiateProtocolVersion_UnrecognizedProtocolOptions = UnrecognizedProtocolOptions\<rparr>)))"

definition NegotiateProtocolVersion_WriteTo :: "NegotiateProtocolVersion \<Rightarrow> enc" where
  "NegotiateProtocolVersion_WriteTo T =
     enc_seq (enc_Int32 (NegotiateProtocolVersion_MinorProtocolVersion T))
    (enc_slice32 enc_String (NegotiateProtocolVersion_UnrecognizedProtocolOptions T))"

definition NegotiateProtocolVersion_ok :: "NegotiateProtocolVersion \<Rightarrow> bool" where
  "NegotiateProtocolVersion_ok T \<longleftrightarrow> length (NegotiateProtocolVersion_UnrecognizedProtocolOptions T) < 2 ^ 32 \<and>
     list_all no_nul (NegotiateProtocolVersion_UnrecognizedProtocolOptions T)"

lemma NegotiateProtocolVersion_law: "packet_law TypeNegotiateProtocolVersion (NegotiateProtocolVersion_Length v) (NegotiateProtocolVersion_WriteTo v) NegotiateProtocolVersion_ReadFrom (NegotiateProtocolVersion_ok v) v"
  unfolding NegotiateProtocolVersion_WriteTo_def NegotiateProtocolVersion_ReadFrom_def
  by (rule packet_lawI, (rule emit_rules)+, simp add: NegotiateProtocolVersion_Length_def wire_simps)
    (((rule read_rules | simp add: NegotiateProtocolVersion_ok_def list_all_iff)+), cases v, simp)

lemma NegotiateProtocolVersion_total: "total NegotiateProtocolVersion_ReadFrom"
  unfolding NegotiateProtocolVersion_ReadFrom_def by (intro codec_intros)

subsection \<open>NoData\<close>

datatype NoData = NoData

definition TypeNoData :: byte where "TypeNoData = type_code CHR ''n''"

definition NoData_Length :: "NoData \<Rightarrow> int" where
  "NoData_Length T =
     0"

definition NoData_ReadFrom :: "NoData dec" where
  "NoData_ReadFrom = dec_typed TypeNoData
    (dec_return NoData)"

definition NoData_WriteTo :: "NoData \<Rightarrow> enc" where
  "NoData_WriteTo T =
     enc_skip"

definition NoData_ok :: "NoData \<Rightarrow> bool" where
  "NoData_ok T \<longleftrightarrow> True"

lemma NoData_law: "packet_law TypeNoData (NoData_Length v) (NoData_WriteTo v) NoData_ReadFrom (NoData_ok v) v"
  unfolding NoData_WriteTo_def NoData_ReadFrom_def
  by (rule packet_lawI, (rule emit_rules)+, simp add: NoData_Length_def wire_simps)
    (((rule read_rules | simp add: NoData_ok_def list_all_iff)+), cases v, simp)

lemma NoData_total: "total NoData_ReadFrom"
  unfolding NoData_ReadFrom_def by (intro codec_intros)

subsection \<open>NoticeResponse\<close>

record NoticeResponseField =
  NoticeResponseField_Code :: byte
  NoticeResponseField_Value :: string

type_synonym NoticeResponse = "NoticeResponseField list"

definition TypeNoticeResponse :: byte where "TypeNoticeResponse = type_code CHR ''N''"

definition NoticeResponse_Length :: "NoticeResponse \<Rightarrow> int" where
  "NoticeResponse_Length T = sum_list (map (\<lambda>x. 1 + (go_len (NoticeResponseField_Value x) + 1)) T) + 1"

definition NoticeResponse_ReadFrom :: "NoticeResponse dec" where
  "NoticeResponse_ReadFrom = dec_typed TypeNoticeResponse
    (dec_until 0 dec_Uint8 (\<lambda>k. dec_bind dec_String (\<lambda>v. dec_return \<lparr>NoticeResponseField_Code = k, NoticeResponseField_Value = v\<rparr>)))"

definition NoticeResponse_WriteTo :: "NoticeResponse \<Rightarrow> enc" where
  "NoticeResponse_WriteTo T =
     enc_seq (enc_each (\<lambda>x. enc_seq (enc_Uint8 (NoticeResponseField_Code x)) (enc_String (NoticeResponseField_Value x))) T) (enc_Uint8 0)"

definition NoticeResponse_ok :: "NoticeResponse \<Rightarrow> bool" where
  "NoticeResponse_ok T \<longleftrightarrow> list_all (\<lambda>x. NoticeResponseField_Code x \<noteq> 0 \<and> no_nul (NoticeResponseField_Value x)) T"

lemma NoticeResponse_wire:
  "emits (NoticeResponse_WriteTo T) (wire_until ([0]) (\<lambda>x. [NoticeResponseField_Code x] @ wire_str (NoticeResponseField_Value x)) T)"
  "NoticeResponse_Length T = go_len (wire_until ([0]) (\<lambda>x. [NoticeResponseField_Code x] @ wire_str (NoticeResponseField_Value x)) T)"
  unfolding NoticeResponse_WriteTo_def
  by ((rule until_emits, (rule emit_rules)+), simp add: NoticeResponse_Length_def wire_simps)

lemma NoticeResponse_read_back:
  assumes "NoticeResponse_ok T"
  shows "reads (dec_until 0 dec_Uint8 (\<lambda>k. dec_bind dec_String (\<lambda>v. dec_return \<lparr>NoticeResponseField_Code = k, NoticeResponseField_Value = v\<rparr>))) (wire_until ([0]) (\<lambda>x. [NoticeResponseField_Code x] @ wire_str (NoticeResponseField_Value x)) T) T"
proof (rule until_reads [where kf = "\<lambda>x. NoticeResponseField_Code x"])
  show "reads dec_Uint8 ([NoticeResponseField_Code x]) (NoticeResponseField_Code x)" "NoticeResponseField_Code x \<noteq> 0" if "x \<in> set T" for x
    using that assms by (auto simp: NoticeResponse_ok_def list_all_iff intro: read_rules)
  show "reads ((\<lambda>k. dec_bind dec_String (\<lambda>v. dec_return \<lparr>NoticeResponseField_Code = k, NoticeResponseField_Value = v\<rparr>)) (NoticeResponseField_Code x)) (wire_str (NoticeResponseField_Value x)) x" if "x \<in> set T" for x
    by (cases x, rule reads_last, rule read_rules) (use assms that in \<open>auto simp: NoticeResponse_ok_def list_all_iff\<close>)
  show "reads dec_Uint8 ([0]) 0" by (rule read_rules)
qed

lemma NoticeResponse_total: "total NoticeResponse_ReadFrom"
  unfolding NoticeResponse_ReadFrom_def by (intro codec_intros Uint8_progress)

lemma NoticeResponse_law: "packet_law TypeNoticeResponse (NoticeResponse_Length v) (NoticeResponse_WriteTo v) NoticeResponse_ReadFrom (NoticeResponse_ok v) v"
  unfolding NoticeResponse_ReadFrom_def
  by (rule packet_lawI [OF NoticeResponse_wire reads_endI [OF NoticeResponse_read_back]])

subsection \<open>NotificationResponse\<close>

record NotificationResponse =
  NotificationResponse_ProcessID :: "32 word"
  NotificationResponse_Channel :: string
  NotificationResponse_Payload :: string

definition TypeNotificationResponse :: byte where "TypeNotificationResponse = type_code CHR ''A''"

definition NotificationResponse_Length :: "NotificationResponse \<Rightarrow> int" where
  "NotificationResponse_Length T =
     4 +
     (go_len (NotificationResponse_Channel T) + 1) +
     (go_len (NotificationResponse_Payload T) + 1)"

definition NotificationResponse_ReadFrom :: "NotificationResponse dec" where
  "NotificationResponse_ReadFrom = dec_typed TypeNotificationResponse
    (dec_bind dec_Int32 (\<lambda>ProcessID.
     dec_bind dec_String (\<lambda>Channel.
     dec_bind dec_String (\<lambda>Payload.
     dec_return \<lparr>NotificationResponse_ProcessID = ProcessID, NotificationResponse_Channel = Channel, NotificationResponse_Payload = Payload\<rparr>))))"

definition NotificationResponse_WriteTo :: "NotificationResponse \<Rightarrow> enc" where
  "NotificationResponse_WriteTo T =
     enc_seq (enc_Int32 (NotificationResponse_ProcessID T))
    (enc_seq (enc_String (NotificationResponse_Channel T))
    (enc_String (NotificationResponse_Payload T)))"

definition NotificationResponse_ok :: "NotificationResponse \<Rightarrow> bool" where
  "NotificationResponse_ok T \<longleftrightarrow> no_nul (NotificationResponse_Channel T) \<and>
     no_nul (NotificationResponse_Payload T)"

lemma NotificationResponse_law: "packet_law TypeNotificationResponse (NotificationResponse_Length v) (NotificationResponse_WriteTo v) NotificationResponse_ReadFrom (NotificationResponse_ok v) v"
  unfolding NotificationResponse_WriteTo_def NotificationResponse_ReadFrom_def
  by (rule packet_lawI, (rule emit_rules)+, simp add: NotificationResponse_Length_def wire_simps)
    (((rule read_rules | simp add: NotificationResponse_ok_def list_all_iff)+), cases v, simp)

lemma NotificationResponse_total: "total NotificationResponse_ReadFrom"
  unfolding NotificationResponse_ReadFrom_def by (intro codec_intros)

subsection \<open>ParameterDescription\<close>

type_synonym ParameterDescription = "32 word list"

definition TypeParameterDescription :: byte where "TypeParameterDescription = type_code CHR ''t''"

definition ParameterDescription_Length :: "ParameterDescription \<Rightarrow> int" where
  "ParameterDescription_Length T =
     2 + sum_list (map (\<lambda>_. 4) T)"

definition ParameterDescription_ReadFrom :: "ParameterDescription dec" where
  "ParameterDescription_ReadFrom = dec_typed TypeParameterDescription
    (dec_slice16 dec_Int32)"

definition ParameterDescription_WriteTo :: "ParameterDescription \<Rightarrow> enc" where
  "ParameterDescription_WriteTo T =
     enc_slice16 enc_Int32 T"

definition ParameterDescription_ok :: "ParameterDescription \<Rightarrow> bool" where
  "ParameterDescription_ok T \<longleftrightarrow> length T < 2 ^ 16"

lemma ParameterDescription_law: "packet_law TypeParameterDescription (ParameterDescription_Length v) (ParameterDescription_WriteTo v) ParameterDescription_ReadFrom (ParameterDescription_ok v) v"
  unfolding ParameterDescription_WriteTo_def ParameterDescription_ReadFrom_def
  by (rule packet_lawI, (rule emit_rules)+, simp add: ParameterDescription_Length_def wire_simps)
    (((rule read_rules | simp add: ParameterDescription_ok_def list_all_iff)+))

lemma ParameterDescription_total: "total ParameterDescription_ReadFrom"
  unfolding ParameterDescription_ReadFrom_def by (intro codec_intros)

subsection \<open>ParameterStatus\<close>

record ParameterStatus =
  ParameterStatus_Key :: string
  ParameterStatus_Value :: string

definition TypeParameterStatus :: byte where "TypeParameterStatus = type_code CHR ''S''"

definition ParameterStatus_Length :: "ParameterStatus \<Rightarrow> int" where
  "ParameterStatus_Length T =
     (go_len (ParameterStatus_Key T) + 1) +
     (go_len (ParameterStatus_Value T) + 1)"

definition ParameterStatus_ReadFrom :: "ParameterStatus dec" where
  "ParameterStatus_ReadFrom = dec_typed TypeParameterStatus
    (dec_bind dec_String (\<lambda>Key.
     dec_bind dec_String (\<lambda>Value.
     dec_return \<lparr>ParameterStatus_Key = Key, ParameterStatus_Value = Value\<rparr>)))"

definition ParameterStatus_WriteTo :: "ParameterStatus \<Rightarrow> enc" where
  "ParameterStatus_WriteTo T =
     enc_seq (enc_String (ParameterStatus_Key T))
    (enc_String (ParameterStatus_Value T))"

definition ParameterStatus_ok :: "ParameterStatus \<Rightarrow> bool" where
  "ParameterStatus_ok T \<longleftrightarrow> no_nul (ParameterStatus_Key T) \<and>
     no_nul (ParameterStatus_Value T)"

lemma ParameterStatus_law: "packet_law TypeParameterStatus (ParameterStatus_Length v) (ParameterStatus_WriteTo v) ParameterStatus_ReadFrom (ParameterStatus_ok v) v"
  unfolding ParameterStatus_WriteTo_def ParameterStatus_ReadFrom_def
  by (rule packet_lawI, (rule emit_rules)+, simp add: ParameterStatus_Length_def wire_simps)
    (((rule read_rules | simp add: ParameterStatus_ok_def list_all_iff)+), cases v, simp)

lemma ParameterStatus_total: "total ParameterStatus_ReadFrom"
  unfolding ParameterStatus_ReadFrom_def by (intro codec_intros)

subsection \<open>Parse\<close>

record Parse =
  Parse_Destination :: string
  Parse_Query :: string
  Parse_ParameterDataTypes :: "32 word list"

definition TypeParse :: byte where "TypeParse = type_code CHR ''P''"

definition Parse_Length :: "Parse \<Rightarrow> int" where
  "Parse_Length T =
     (go_len (Parse_Destination T) + 1) +
     (go_len (Parse_Query T) + 1) +
     (2 + sum_list (map (\<lambda>_. 4) (Parse_ParameterDataTypes T)))"

definition Parse_ReadFrom :: "Parse dec" where
  "Parse_ReadFrom = dec_typed TypeParse
    (dec_bind dec_String (\<lambda>Destination.
     dec_bind dec_String (\<lambda>Query.
     dec_bind (dec_slice16 dec_Int32) (\<lambda>ParameterDataTypes.
     dec_return \<lparr>Parse_Destination = Destination, Parse_Query = Query, Parse_ParameterDataTypes = ParameterDataTypes\<rparr>))))"

definition Parse_WriteTo :: "Parse \<Rightarrow> enc" where
  "Parse_WriteTo T =
     enc_seq (enc_String (Parse_Destination T))
    (enc_seq (enc_String (Parse_Query T))
    (enc_slice16 enc_Int32 (Parse_ParameterDataTypes T)))"

definition Parse_ok :: "Parse \<Rightarrow> bool" where
  "Parse_ok T \<longleftrightarrow> no_nul (Parse_Destination T) \<and>
     no_nul (Parse_Query T) \<and>
     length (Parse_ParameterDataTypes T) < 2 ^ 16"

lemma Parse_law: "packet_law TypeParse (Parse_Length v) (Parse_WriteTo v) Parse_ReadFrom (Parse_ok v) v"
  unfolding Parse_WriteTo_def Parse_ReadFrom_def
  by (rule packet_lawI, (rule emit_rules)+, simp add: Parse_Length_def wire_simps)
    (((rule read_rules | simp add: Parse_ok_def list_all_iff)+), cases v, simp)

lemma Parse_total: "total Parse_ReadFrom"
  unfolding Parse_ReadFrom_def by (intro codec_intros)

subsection \<open>ParseComplete\<close>

datatype ParseComplete = ParseComplete

definition TypeParseComplete :: byte where "TypeParseComplete = type_code CHR ''1''"

definition ParseComplete_Length :: "ParseComplete \<Rightarrow> int" where
  "ParseComplete_Length T =
     0"

definition ParseComplete_ReadFrom :: "ParseComplete dec" where
  "ParseComplete_ReadFrom = dec_typed TypeParseComplete
    (dec_return ParseComplete)"

definition ParseComplete_WriteTo :: "ParseComplete \<Rightarrow> enc" where
  "ParseComplete_WriteTo T =
     enc_skip"

definition ParseComplete_ok :: "ParseComplete \<Rightarrow> bool" where
  "ParseComplete_ok T \<longleftrightarrow> True"

lemma ParseComplete_law: "packet_law TypeParseComplete (ParseComplete_Length v) (ParseComplete_WriteTo v) ParseComplete_ReadFrom (ParseComplete_ok v) v"
  unfolding ParseComplete_WriteTo_def ParseComplete_ReadFrom_def
  by (rule packet_lawI, (rule emit_rules)+, simp add: ParseComplete_Length_def wire_simps)
    (((rule read_rules | simp add: ParseComplete_ok_def list_all_iff)+), cases v, simp)

lemma ParseComplete_total: "total ParseComplete_ReadFrom"
  unfolding ParseComplete_ReadFrom_def by (intro codec_intros)

subsection \<open>PasswordMessage\<close>

type_synonym PasswordMessage = string

definition TypePasswordMessage :: byte where "TypePasswordMessage = type_code CHR ''p''"

definition PasswordMessage_Length :: "PasswordMessage \<Rightarrow> int" where
  "PasswordMessage_Length T =
     go_len T + 1"

definition PasswordMessage_ReadFrom :: "PasswordMessage dec" where
  "PasswordMessage_ReadFrom = dec_typed TypePasswordMessage
    (dec_String)"

definition PasswordMessage_WriteTo :: "PasswordMessage \<Rightarrow> enc" where
  "PasswordMessage_WriteTo T =
     enc_String T"

definition PasswordMessage_ok :: "PasswordMessage \<Rightarrow> bool" where
  "PasswordMessage_ok T \<longleftrightarrow> no_nul T"

lemma PasswordMessage_law: "packet_law TypePasswordMessage (PasswordMessage_Length v) (PasswordMessage_WriteTo v) PasswordMessage_ReadFrom (PasswordMessage_ok v) v"
  unfolding PasswordMessage_WriteTo_def PasswordMessage_ReadFrom_def
  by (rule packet_lawI, (rule emit_rules)+, simp add: PasswordMessage_Length_def wire_simps)
    (((rule read_rules | simp add: PasswordMessage_ok_def list_all_iff)+))

lemma PasswordMessage_total: "total PasswordMessage_ReadFrom"
  unfolding PasswordMessage_ReadFrom_def by (intro codec_intros)

subsection \<open>PortalSuspended\<close>

datatype PortalSuspended = PortalSuspended

definition TypePortalSuspended :: byte where "TypePortalSuspended = type_code CHR ''s''"

definition PortalSuspended_Length :: "PortalSuspended \<Rightarrow> int" where
  "PortalSuspended_Length T =
     0"

definition PortalSuspended_ReadFrom :: "PortalSuspended dec" where
  "PortalSuspended_ReadFrom = dec_typed TypePortalSuspended
    (dec_return PortalSuspended)"

definition PortalSuspended_WriteTo :: "PortalSuspended \<Rightarrow> enc" where
  "PortalSuspended_WriteTo T =
     enc_skip"

definition PortalSuspended_ok :: "PortalSuspended \<Rightarrow> bool" where
  "PortalSuspended_ok T \<longleftrightarrow> True"

lemma PortalSuspended_law: "packet_law TypePortalSuspended (PortalSuspended_Length v) (PortalSuspended_WriteTo v) PortalSuspended_ReadFrom (PortalSuspended_ok v) v"
  unfolding PortalSuspended_WriteTo_def PortalSuspended_ReadFrom_def
  by (rule packet_lawI, (rule emit_rules)+, simp add: PortalSuspended_Length_def wire_simps)
    (((rule read_rules | simp add: PortalSuspended_ok_def list_all_iff)+), cases v, simp)

lemma PortalSuspended_total: "total PortalSuspended_ReadFrom"
  unfolding PortalSuspended_ReadFrom_def by (intro codec_intros)

subsection \<open>Query\<close>

type_synonym Query = string

definition TypeQuery :: byte where "TypeQuery = type_code CHR ''Q''"

definition Query_Length :: "Query \<Rightarrow> int" where
  "Query_Length T =
     go_len T + 1"

definition Query_ReadFrom :: "Query dec" where
  "Query_ReadFrom = dec_typed TypeQuery
    (dec_String)"

definition Query_WriteTo :: "Query \<Rightarrow> enc" where
  "Query_WriteTo T =
     enc_String T"

definition Query_ok :: "Query \<Rightarrow> bool" where
  "Query_ok T \<longleftrightarrow> no_nul T"

lemma Query_law: "packet_law TypeQuery (Query_Length v) (Query_WriteTo v) Query_ReadFrom (Query_ok v) v"
  unfolding Query_WriteTo_def Query_ReadFrom_def
  by (rule packet_lawI, (rule emit_rules)+, simp add: Query_Length_def wire_simps)
    (((rule read_rules | simp add: Query_ok_def list_all_iff)+))

lemma Query_total: "total Query_ReadFrom"
  unfolding Query_ReadFrom_def by (intro codec_intros)

subsection \<open>ReadyForQuery\<close>

type_synonym ReadyForQuery = byte

definition TypeReadyForQuery :: byte where "TypeReadyForQuery = type_code CHR ''Z''"

definition ReadyForQuery_Length :: "ReadyForQuery \<Rightarrow> int" where
  "ReadyForQuery_Length T =
     1"

definition ReadyForQuery_ReadFrom :: "ReadyForQuery dec" where
  "ReadyForQuery_ReadFrom = dec_typed TypeReadyForQuery
    (dec_Uint8)"

definition ReadyForQuery_WriteTo :: "ReadyForQuery \<Rightarrow> enc" where
  "ReadyForQuery_WriteTo T =
     enc_Uint8 T"

definition ReadyForQuery_ok :: "ReadyForQuery \<Rightarrow> bool" where
  "ReadyForQuery_ok T \<longleftrightarrow> True"

lemma ReadyForQuery_law: "packet_law TypeReadyForQuery (ReadyForQuery_Length v) (ReadyForQuery_WriteTo v) ReadyForQuery_ReadFrom (ReadyForQuery_ok v) v"
  unfolding ReadyForQuery_WriteTo_def ReadyForQuery_ReadFrom_def
  by (rule packet_lawI, (rule emit_rules)+, simp add: ReadyForQuery_Length_def wire_simps)
    (((rule read_rules | simp add: ReadyForQuery_ok_def list_all_iff)+))

lemma ReadyForQuery_total: "total ReadyForQuery_ReadFrom"
  unfolding ReadyForQuery_ReadFrom_def by (intro codec_intros)

subsection \<open>RowDescription\<close>

record RowDescriptionRow =
  Row_Name :: string
  Row_TableID :: "32 word"
  Row_ColumnAttributeNumber :: "16 word"
  Row_FieldDataType :: "32 word"
  Row_DataTypeSize :: "16 word"
  Row_TypeModifier :: "32 word"
  Row_FormatCode :: "16 word"

type_synonym RowDescription = "RowDescriptionRow list"

definition TypeRowDescription :: byte where "TypeRowDescription = type_code CHR ''T''"

definition RowDescription_Length :: "RowDescription \<Rightarrow> int" where
  "RowDescription_Length T =
     2 + sum_list (map (\<lambda>x. (go_len (Row_Name x) + 1) + 4 + 2 + 4 + 2 + 4 + 2) T)"

text \<open>The body of the loops over the rows.\<close>

definition RowDescriptionRow_read :: "RowDescriptionRow dec" where
  "RowDescriptionRow_read =
     dec_bind dec_String (\<lambda>Name.
     dec_bind dec_Int32 (\<lambda>TableID.
     dec_bind dec_Int16 (\<lambda>ColumnAttributeNumber.
     dec_bind dec_Int32 (\<lambda>FieldDataType.
     dec_bind dec_Int16 (\<lambda>DataTypeSize.
     dec_bind dec_Int32 (\<lambda>TypeModifier.
     dec_bind dec_Int16 (\<lambda>FormatCode.
     dec_return \<lparr>Row_Name = Name, Row_TableID = TableID, Row_ColumnAttributeNumber = ColumnAttributeNumber, Row_FieldDataType = FieldDataType,
       Row_DataTypeSize = DataTypeSize, Row_TypeModifier = TypeModifier, Row_FormatCode = FormatCode\<rparr>)))))))"

definition RowDescription_ReadFrom :: "RowDescription dec" where
  "RowDescription_ReadFrom = dec_typed TypeRowDescription (dec_slice16 RowDescriptionRow_read)"

definition RowDescriptionRow_write :: "RowDescriptionRow \<Rightarrow> enc" where
  "RowDescriptionRow_write x =
     enc_seq (enc_String (Row_Name x))
    (enc_seq (enc_Int32 (Row_TableID x))
    (enc_seq (enc_Int16 (Row_ColumnAttributeNumber x))
    (enc_seq (enc_Int32 (Row_FieldDataType x))
    (enc_seq (enc_Int16 (Row_DataTypeSize x))
    (enc_seq (enc_Int32 (Row_TypeModifier x))
    (enc_Int16 (Row_FormatCode x)))))))"

definition RowDescription_WriteTo :: "RowDescription \<Rightarrow> enc" where
  "RowDescription_WriteTo T = enc_slice16 RowDescriptionRow_write T"

definition RowDescription_ok :: "RowDescription \<Rightarrow> bool" where
  "RowDescription_ok T \<longleftrightarrow> length T < 2 ^ 16 \<and> list_all (\<lambda>x. no_nul (Row_Name x)) T"

definition RowDescriptionRow_wire :: "RowDescriptionRow \<Rightarrow> byte list" where
  "RowDescriptionRow_wire x = wire_str (Row_Name x) @ be32 (Row_TableID x) @
     be16 (Row_ColumnAttributeNumber x) @ be32 (Row_FieldDataType x) @ be16 (Row_DataTypeSize x) @
     be32 (Row_TypeModifier x) @ be16 (Row_FormatCode x)"

lemma Row_emits: "emits (RowDescriptionRow_write x) (RowDescriptionRow_wire x)"
  unfolding RowDescriptionRow_write_def RowDescriptionRow_wire_def by (intro emit_rules)

lemma Row_reads: "no_nul (Row_Name x) \<Longrightarrow> reads RowDescriptionRow_read (RowDescriptionRow_wire x) x"
  unfolding RowDescriptionRow_read_def RowDescriptionRow_wire_def
  by (((rule read_rules | simp)+), cases x, simp)

lemma RowDescription_law: "packet_law TypeRowDescription (RowDescription_Length v)
    (RowDescription_WriteTo v) RowDescription_ReadFrom (RowDescription_ok v) v"
  unfolding RowDescription_WriteTo_def RowDescription_ReadFrom_def
  by (rule packet_lawI, rule slice_emits, rule Row_emits,
      simp add: RowDescription_Length_def RowDescriptionRow_wire_def wire_simps add.assoc)
    (rule reads_endI, rule slice16_reads; simp add: RowDescription_ok_def list_all_iff Row_reads)

lemma RowDescription_total: "total RowDescription_ReadFrom"
  unfolding RowDescription_ReadFrom_def RowDescriptionRow_read_def by (intro codec_intros)

subsection \<open>SASLInitialResponse\<close>

record SASLInitialResponse =
  SASLInitialResponse_Mechanism :: string
  SASLInitialResponse_InitialClientResponse :: "byte list option"

definition TypeSASLInitialResponse :: byte where "TypeSASLInitialResponse = type_code CHR ''p''"

definition SASLInitialResponse_Length :: "SASLInitialResponse \<Rightarrow> int" where
  "SASLInitialResponse_Length T =
     (go_len (SASLInitialResponse_Mechanism T) + 1) +
     (4 + sum_list (map (\<lambda>_. 1) (case SASLInitialResponse_InitialClientResponse T of None \<Rightarrow> [] | Some ys \<Rightarrow> ys)))"

definition SASLInitialResponse_ReadFrom :: "SASLInitialResponse dec" where
  "SASLInitialResponse_ReadFrom = dec_typed TypeSASLInitialResponse
    (dec_bind dec_String (\<lambda>Mechanism.
     dec_bind dec_nullable (\<lambda>InitialClientResponse.
     dec_return \<lparr>SASLInitialResponse_Mechanism = Mechanism, SASLInitialResponse_InitialClientResponse = InitialClientResponse\<rparr>)))"

definition SASLInitialResponse_WriteTo :: "SASLInitialResponse \<Rightarrow> enc" where
  "SASLInitialResponse_WriteTo T =
     enc_seq (enc_String (SASLInitialResponse_Mechanism T))
    (enc_nullable (SASLInitialResponse_InitialClientResponse T))"

definition SASLInitialResponse_ok :: "SASLInitialResponse \<Rightarrow> bool" where
  "SASLInitialResponse_ok T \<longleftrightarrow> no_nul (SASLInitialResponse_Mechanism T) \<and>
     fits31 (SASLInitialResponse_InitialClientResponse T)"

lemma SASLInitialResponse_law: "packet_law TypeSASLInitialResponse (SASLInitialResponse_Length v) (SASLInitialResponse_WriteTo v) SASLInitialResponse_ReadFrom (SASLInitialResponse_ok v) v"
  unfolding SASLInitialResponse_WriteTo_def SASLInitialResponse_ReadFrom_def
  by (rule packet_lawI, (rule emit_rules)+, simp add: SASLInitialResponse_Length_def wire_simps)
    (((rule read_rules | simp add: SASLInitialResponse_ok_def list_all_iff)+), cases v, simp)

subsection \<open>SASLResponse\<close>

type_synonym SASLResponse = "byte list"

definition TypeSASLResponse :: byte where "TypeSASLResponse = type_code CHR ''p''"

definition SASLResponse_Length :: "SASLResponse \<Rightarrow> int" where
  "SASLResponse_Length T =
     sum_list (map (\<lambda>_. 1) T)"

definition SASLResponse_ReadFrom :: "SASLResponse dec" where
  "SASLResponse_ReadFrom = dec_typed TypeSASLResponse
    (dec_remaining)"

definition SASLResponse_WriteTo :: "SASLResponse \<Rightarrow> enc" where
  "SASLResponse_WriteTo T =
     enc_each enc_Uint8 T"

definition SASLResponse_ok :: "SASLResponse \<Rightarrow> bool" where
  "SASLResponse_ok T \<longleftrightarrow> True"

lemma SASLResponse_law: "packet_law TypeSASLResponse (SASLResponse_Length v) (SASLResponse_WriteTo v) SASLResponse_ReadFrom (SASLResponse_ok v) v"
  unfolding SASLResponse_WriteTo_def SASLResponse_ReadFrom_def
  by (rule packet_lawI, (rule emit_rules)+, simp add: SASLResponse_Length_def wire_simps)
    (((rule read_rules | simp add: SASLResponse_ok_def list_all_iff)+))

lemma SASLResponse_total: "total SASLResponse_ReadFrom"
  unfolding SASLResponse_ReadFrom_def by (intro codec_intros)

section \<open>Startup\<close>

subsection \<open>StartupPayloadControlPayloadCancel\<close>

record StartupPayloadControlPayloadCancel =
  StartupPayloadControlPayloadCancel_ProcessID :: "32 word"
  StartupPayloadControlPayloadCancel_SecretKey :: "32 word"

definition StartupPayloadControlPayloadCancel_Length :: "StartupPayloadControlPayloadCancel \<Rightarrow> int" where
  "StartupPayloadControlPayloadCancel_Length T =
     4 +
     4"

definition StartupPayloadControlPayloadCancel_ReadFrom :: "StartupPayloadControlPayloadCancel dec" where
  "StartupPayloadControlPayloadCancel_ReadFrom = dec_bind dec_Int32 (\<lambda>ProcessID.
     dec_bind dec_Int32 (\<lambda>SecretKey.
     dec_return \<lparr>StartupPayloadControlPayloadCancel_ProcessID = ProcessID, StartupPayloadControlPayloadCancel_SecretKey = SecretKey\<rparr>))"

definition StartupPayloadControlPayloadCancel_WriteTo :: "StartupPayloadControlPayloadCancel \<Rightarrow> enc" where
  "StartupPayloadControlPayloadCancel_WriteTo T =
     enc_seq (enc_Int32 (StartupPayloadControlPayloadCancel_ProcessID T))
    (enc_Int32 (StartupPayloadControlPayloadCancel_SecretKey T))"

definition StartupPayloadControlPayloadCancel_ok :: "StartupPayloadControlPayloadCancel \<Rightarrow> bool" where
  "StartupPayloadControlPayloadCancel_ok T \<longleftrightarrow> True"

lemma StartupPayloadControlPayloadCancel_emits: "\<exists>bs. emits (StartupPayloadControlPayloadCancel_WriteTo v) bs \<and> StartupPayloadControlPayloadCancel_Length v = go_len bs \<and>
    (StartupPayloadControlPayloadCancel_ok v \<longrightarrow> reads_end StartupPayloadControlPayloadCancel_ReadFrom bs v)"
  unfolding StartupPayloadControlPayloadCancel_WriteTo_def StartupPayloadControlPayloadCancel_ReadFrom_def
  by (rule exI, rule conjI, (rule emit_rules)+, rule conjI, simp add: StartupPayloadControlPayloadCancel_Length_def wire_simps)
    (rule impI, ((rule read_rules | simp add: StartupPayloadControlPayloadCancel_ok_def list_all_iff)+), cases v, simp)

lemma StartupPayloadControlPayloadCancel_total: "total StartupPayloadControlPayloadCancel_ReadFrom"
  unfolding StartupPayloadControlPayloadCancel_ReadFrom_def by (intro codec_intros)

subsection \<open>StartupPayloadControlPayloadGSSAPI\<close>

datatype StartupPayloadControlPayloadGSSAPI = StartupPayloadControlPayloadGSSAPI

definition StartupPayloadControlPayloadGSSAPI_Length :: "StartupPayloadControlPayloadGSSAPI \<Rightarrow> int" where
  "StartupPayloadControlPayloadGSSAPI_Length T =
     0"

definition StartupPayloadControlPayloadGSSAPI_ReadFrom :: "StartupPayloadControlPayloadGSSAPI dec" where
  "StartupPayloadControlPayloadGSSAPI_ReadFrom = dec_return StartupPayloadControlPayloadGSSAPI"

definition StartupPayloadControlPayloadGSSAPI_WriteTo :: "StartupPayloadControlPayloadGSSAPI \<Rightarrow> enc" where
  "StartupPayloadControlPayloadGSSAPI_WriteTo T =
     enc_skip"

definition StartupPayloadControlPayloadGSSAPI_ok :: "StartupPayloadControlPayloadGSSAPI \<Rightarrow> bool" where
  "StartupPayloadControlPayloadGSSAPI_ok T \<longleftrightarrow> True"

lemma StartupPayloadControlPayloadGSSAPI_emits: "\<exists>bs. emits (StartupPayloadControlPayloadGSSAPI_WriteTo v) bs \<and> StartupPayloadControlPayloadGSSAPI_Length v = go_len bs \<and>
    (StartupPayloadControlPayloadGSSAPI_ok v \<longrightarrow> reads_end StartupPayloadControlPayloadGSSAPI_ReadFrom bs v)"
  unfolding StartupPayloadControlPayloadGSSAPI_WriteTo_def StartupPayloadControlPayloadGSSAPI_ReadFrom_def
  by (rule exI, rule conjI, (rule emit_rules)+, rule conjI, simp add: StartupPayloadControlPayloadGSSAPI_Length_def wire_simps)
    (rule impI, ((rule read_rules | simp add: StartupPayloadControlPayloadGSSAPI_ok_def list_all_iff)+), cases v, simp)

lemma StartupPayloadControlPayloadGSSAPI_total: "total StartupPayloadControlPayloadGSSAPI_ReadFrom"
  unfolding StartupPayloadControlPayloadGSSAPI_ReadFrom_def by (intro codec_intros)

subsection \<open>StartupPayloadControlPayloadSSL\<close>

datatype StartupPayloadControlPayloadSSL = StartupPayloadControlPayloadSSL

definition StartupPayloadControlPayloadSSL_Length :: "StartupPayloadControlPayloadSSL \<Rightarrow> int" where
  "StartupPayloadControlPayloadSSL_Length T =
     0"

definition StartupPayloadControlPayloadSSL_ReadFrom :: "StartupPayloadControlPayloadSSL dec" where
  "StartupPayloadControlPayloadSSL_ReadFrom = dec_return StartupPayloadControlPayloadSSL"

definition StartupPayloadControlPayloadSSL_WriteTo :: "StartupPayloadControlPayloadSSL \<Rightarrow> enc" where
  "StartupPayloadControlPayloadSSL_WriteTo T =
     enc_skip"

definition StartupPayloadControlPayloadSSL_ok :: "StartupPayloadControlPayloadSSL \<Rightarrow> bool" where
  "StartupPayloadControlPayloadSSL_ok T \<longleftrightarrow> True"

lemma StartupPayloadControlPayloadSSL_emits: "\<exists>bs. emits (StartupPayloadControlPayloadSSL_WriteTo v) bs \<and> StartupPayloadControlPayloadSSL_Length v = go_len bs \<and>
    (StartupPayloadControlPayloadSSL_ok v \<longrightarrow> reads_end StartupPayloadControlPayloadSSL_ReadFrom bs v)"
  unfolding StartupPayloadControlPayloadSSL_WriteTo_def StartupPayloadControlPayloadSSL_ReadFrom_def
  by (rule exI, rule conjI, (rule emit_rules)+, rule conjI, simp add: StartupPayloadControlPayloadSSL_Length_def wire_simps)
    (rule impI, ((rule read_rules | simp add: StartupPayloadControlPayloadSSL_ok_def list_all_iff)+), cases v, simp)

lemma StartupPayloadControlPayloadSSL_total: "total StartupPayloadControlPayloadSSL_ReadFrom"
  unfolding StartupPayloadControlPayloadSSL_ReadFrom_def by (intro codec_intros)

text \<open>The interface \<^verbatim>\<open>StartupPayloadControlPayloadMode\<close> and its implementations.\<close>

datatype StartupPayloadControlPayloadMode =
    ControlCancel StartupPayloadControlPayloadCancel
  | ControlGSSAPI StartupPayloadControlPayloadGSSAPI
  | ControlSSL StartupPayloadControlPayloadSSL

fun StartupPayloadControlPayloadMode_code :: "StartupPayloadControlPayloadMode \<Rightarrow> 16 word" where
  "StartupPayloadControlPayloadMode_code (ControlCancel T) = 5678"
| "StartupPayloadControlPayloadMode_code (ControlGSSAPI T) = 5680"
| "StartupPayloadControlPayloadMode_code (ControlSSL T) = 5679"

fun StartupPayloadControlPayloadMode_Length :: "StartupPayloadControlPayloadMode \<Rightarrow> int" where
  "StartupPayloadControlPayloadMode_Length (ControlCancel T) = StartupPayloadControlPayloadCancel_Length T"
| "StartupPayloadControlPayloadMode_Length (ControlGSSAPI T) = StartupPayloadControlPayloadGSSAPI_Length T"
| "StartupPayloadControlPayloadMode_Length (ControlSSL T) = StartupPayloadControlPayloadSSL_Length T"

fun StartupPayloadControlPayloadMode_WriteTo :: "StartupPayloadControlPayloadMode \<Rightarrow> enc" where
  "StartupPayloadControlPayloadMode_WriteTo (ControlCancel T) = StartupPayloadControlPayloadCancel_WriteTo T"
| "StartupPayloadControlPayloadMode_WriteTo (ControlGSSAPI T) = StartupPayloadControlPayloadGSSAPI_WriteTo T"
| "StartupPayloadControlPayloadMode_WriteTo (ControlSSL T) = StartupPayloadControlPayloadSSL_WriteTo T"

fun StartupPayloadControlPayloadMode_ok :: "StartupPayloadControlPayloadMode \<Rightarrow> bool" where
  "StartupPayloadControlPayloadMode_ok (ControlCancel T) = StartupPayloadControlPayloadCancel_ok T"
| "StartupPayloadControlPayloadMode_ok (ControlGSSAPI T) = StartupPayloadControlPayloadGSSAPI_ok T"
| "StartupPayloadControlPayloadMode_ok (ControlSSL T) = StartupPayloadControlPayloadSSL_ok T"

text \<open>The switch that chooses the implementation and reads it.\<close>

definition StartupPayloadControlPayloadMode_read :: "16 word \<Rightarrow> StartupPayloadControlPayloadMode dec" where
  "StartupPayloadControlPayloadMode_read n =
    (if n = 5678 then dec_bind StartupPayloadControlPayloadCancel_ReadFrom (\<lambda>T. dec_return (ControlCancel T))
     else if n = 5680 then dec_bind StartupPayloadControlPayloadGSSAPI_ReadFrom (\<lambda>T. dec_return (ControlGSSAPI T))
     else if n = 5679 then dec_bind StartupPayloadControlPayloadSSL_ReadFrom (\<lambda>T. dec_return (ControlSSL T))
     else dec_fail ErrInvalidFormat)"

lemma StartupPayloadControlPayloadMode_emits: "\<exists>bs. emits (StartupPayloadControlPayloadMode_WriteTo m) bs \<and> StartupPayloadControlPayloadMode_Length m = go_len bs \<and>
    (StartupPayloadControlPayloadMode_ok m \<longrightarrow> reads_end (StartupPayloadControlPayloadMode_read (StartupPayloadControlPayloadMode_code m)) bs m)"
proof (cases m)
  case (ControlCancel T)
  with StartupPayloadControlPayloadCancel_emits [of T] show ?thesis by (auto simp: StartupPayloadControlPayloadMode_read_def intro: reads_last)
next
  case (ControlGSSAPI T)
  with StartupPayloadControlPayloadGSSAPI_emits [of T] show ?thesis by (auto simp: StartupPayloadControlPayloadMode_read_def intro: reads_last)
next
  case (ControlSSL T)
  with StartupPayloadControlPayloadSSL_emits [of T] show ?thesis by (auto simp: StartupPayloadControlPayloadMode_read_def intro: reads_last)
qed

lemma StartupPayloadControlPayloadMode_read_total: "total (StartupPayloadControlPayloadMode_read n)"
  unfolding StartupPayloadControlPayloadMode_read_def
  by (intro codec_intros StartupPayloadControlPayloadCancel_total StartupPayloadControlPayloadGSSAPI_total StartupPayloadControlPayloadSSL_total)

record StartupPayloadControl =
  StartupPayloadControl_Mode :: StartupPayloadControlPayloadMode

definition StartupPayloadControl_Length :: "StartupPayloadControl \<Rightarrow> int" where
  "StartupPayloadControl_Length T = 2 + StartupPayloadControlPayloadMode_Length (StartupPayloadControl_Mode T)"

definition StartupPayloadControl_ReadFrom :: "StartupPayloadControl dec" where
  "StartupPayloadControl_ReadFrom = dec_bind dec_Int16 (\<lambda>n.
     dec_bind (StartupPayloadControlPayloadMode_read n) (\<lambda>m. dec_return \<lparr>StartupPayloadControl_Mode = m\<rparr>))"

definition StartupPayloadControl_WriteTo :: "StartupPayloadControl \<Rightarrow> enc" where
  "StartupPayloadControl_WriteTo T =
     enc_seq (enc_Int16 (StartupPayloadControlPayloadMode_code (StartupPayloadControl_Mode T))) (StartupPayloadControlPayloadMode_WriteTo (StartupPayloadControl_Mode T))"

definition StartupPayloadControl_ok :: "StartupPayloadControl \<Rightarrow> bool" where
  "StartupPayloadControl_ok T \<longleftrightarrow> StartupPayloadControlPayloadMode_ok (StartupPayloadControl_Mode T)"

lemma StartupPayloadControl_emits: "\<exists>bs. emits (StartupPayloadControl_WriteTo v) bs \<and> StartupPayloadControl_Length v = go_len bs \<and>
    (StartupPayloadControl_ok v \<longrightarrow> reads_end StartupPayloadControl_ReadFrom bs v)"
proof -
  from StartupPayloadControlPayloadMode_emits [of "StartupPayloadControl_Mode v"] obtain bs where bs: "emits (StartupPayloadControlPayloadMode_WriteTo (StartupPayloadControl_Mode v)) bs"
    "StartupPayloadControlPayloadMode_Length (StartupPayloadControl_Mode v) = go_len bs"
    "StartupPayloadControlPayloadMode_ok (StartupPayloadControl_Mode v) \<Longrightarrow> reads_end (StartupPayloadControlPayloadMode_read (StartupPayloadControlPayloadMode_code (StartupPayloadControl_Mode v))) bs (StartupPayloadControl_Mode v)" by blast
  have 1: "emits (StartupPayloadControl_WriteTo v) (be16 (StartupPayloadControlPayloadMode_code (StartupPayloadControl_Mode v)) @ bs)"
    unfolding StartupPayloadControl_WriteTo_def by (intro emits_seq Int_emits bs(1))
  have 2: "StartupPayloadControl_Length v = go_len (be16 (StartupPayloadControlPayloadMode_code (StartupPayloadControl_Mode v)) @ bs)"
    by (simp add: StartupPayloadControl_Length_def bs(2) wire_simps)
  have 3: "reads_end (dec_bind dec_Int16 (\<lambda>n.
     dec_bind (StartupPayloadControlPayloadMode_read n) (\<lambda>m. dec_return \<lparr>StartupPayloadControl_Mode = m\<rparr>)))
    (be16 (StartupPayloadControlPayloadMode_code (StartupPayloadControl_Mode v)) @ bs) v" if "StartupPayloadControl_ok v"
    by (rule reads_bind, rule Uint_reads, rule reads_last, rule bs(3))
      (use that in \<open>simp add: StartupPayloadControl_ok_def\<close>, cases v, simp)
  show ?thesis unfolding StartupPayloadControl_ReadFrom_def using 1 2 3 by blast
qed

lemma StartupPayloadControl_total: "total StartupPayloadControl_ReadFrom"
  unfolding StartupPayloadControl_ReadFrom_def by (intro codec_intros StartupPayloadControlPayloadMode_read_total)

record StartupPayloadVersion3PayloadParameter =
  Parameter_Key :: string
  Parameter_Value :: string

record StartupPayloadVersion3 =
  Version3_MinorVersion :: "16 word"
  Version3_Parameters :: "StartupPayloadVersion3PayloadParameter list"

definition StartupPayloadVersion3_Length :: "StartupPayloadVersion3 \<Rightarrow> int" where
  "StartupPayloadVersion3_Length T =
     2 + sum_list (map (\<lambda>x. (go_len (Parameter_Key x) + 1) + (go_len (Parameter_Value x) + 1))
       (Version3_Parameters T)) + (go_len ('''' :: string) + 1)"

definition StartupPayloadVersion3_ReadFrom :: "StartupPayloadVersion3 dec" where
  "StartupPayloadVersion3_ReadFrom =
     dec_bind dec_Int16 (\<lambda>MinorVersion.
     dec_bind (dec_until '''' dec_String (\<lambda>k. dec_bind dec_String (\<lambda>v.
       dec_return \<lparr>Parameter_Key = k, Parameter_Value = v\<rparr>))) (\<lambda>Parameters.
     dec_return \<lparr>Version3_MinorVersion = MinorVersion, Version3_Parameters = Parameters\<rparr>))"

definition StartupPayloadVersion3_WriteTo :: "StartupPayloadVersion3 \<Rightarrow> enc" where
  "StartupPayloadVersion3_WriteTo T =
     enc_seq (enc_Int16 (Version3_MinorVersion T))
    (enc_seq (enc_each (\<lambda>x. enc_seq (enc_String (Parameter_Key x)) (enc_String (Parameter_Value x)))
       (Version3_Parameters T)) (enc_String ''''))"

definition StartupPayloadVersion3_ok :: "StartupPayloadVersion3 \<Rightarrow> bool" where
  "StartupPayloadVersion3_ok T \<longleftrightarrow> list_all (\<lambda>x. Parameter_Key x \<noteq> '''' \<and> no_nul (Parameter_Key x) \<and>
     no_nul (Parameter_Value x)) (Version3_Parameters T)"

lemma StartupPayloadVersion3_emits: "\<exists>bs. emits (StartupPayloadVersion3_WriteTo v) bs \<and>
    StartupPayloadVersion3_Length v = go_len bs \<and>
    (StartupPayloadVersion3_ok v \<longrightarrow> reads_end StartupPayloadVersion3_ReadFrom bs v)"
proof -
  let ?ps = "wire_until (wire_str '''') (\<lambda>x. wire_str (Parameter_Key x) @ wire_str (Parameter_Value x))
    (Version3_Parameters v)"
  let ?bs = "be16 (Version3_MinorVersion v) @ ?ps"
  have 1: "emits (StartupPayloadVersion3_WriteTo v) ?bs"
    unfolding StartupPayloadVersion3_WriteTo_def by (intro emits_seq until_emits emit_rules)
  have 2: "StartupPayloadVersion3_Length v = go_len ?bs"
    by (simp add: StartupPayloadVersion3_Length_def wire_simps)
  have 3: "reads (dec_until '''' dec_String (\<lambda>k. dec_bind dec_String (\<lambda>v.
       dec_return \<lparr>Parameter_Key = k, Parameter_Value = v\<rparr>))) ?ps (Version3_Parameters v)"
    if ok: "StartupPayloadVersion3_ok v"
  proof (rule until_reads [where kf = Parameter_Key])
    show "reads dec_String (wire_str (Parameter_Key x)) (Parameter_Key x)" "Parameter_Key x \<noteq> ''''"
      if "x \<in> set (Version3_Parameters v)" for x
      using that ok by (auto simp: StartupPayloadVersion3_ok_def list_all_iff intro: read_rules)
    show "reads (dec_bind dec_String (\<lambda>v. dec_return \<lparr>Parameter_Key = Parameter_Key x, Parameter_Value = v\<rparr>))
        (wire_str (Parameter_Value x)) x" if "x \<in> set (Version3_Parameters v)" for x
      by (cases x, rule reads_last, rule String_reads_wire)
        (use that ok in \<open>auto simp: StartupPayloadVersion3_ok_def list_all_iff\<close>)
    show "reads dec_String (wire_str '''') ''''" by (rule String_reads_wire) (simp add: no_nul_def)
  qed
  have "reads_end StartupPayloadVersion3_ReadFrom ?bs v" if ok: "StartupPayloadVersion3_ok v"
    unfolding StartupPayloadVersion3_ReadFrom_def
    by (rule reads_bind, rule Uint_reads, rule reads_last, rule reads_endI, rule 3 [OF ok]) (cases v, simp)
  with 1 2 show ?thesis by blast
qed

lemma StartupPayloadVersion3_total: "total StartupPayloadVersion3_ReadFrom"
  unfolding StartupPayloadVersion3_ReadFrom_def by (intro codec_intros String_progress)

text \<open>The interface \<^verbatim>\<open>StartupPayloadMode\<close> and its implementations.\<close>

datatype StartupPayloadMode =
    StartupControl StartupPayloadControl
  | StartupVersion3 StartupPayloadVersion3

fun StartupPayloadMode_code :: "StartupPayloadMode \<Rightarrow> 16 word" where
  "StartupPayloadMode_code (StartupControl T) = 1234"
| "StartupPayloadMode_code (StartupVersion3 T) = 3"

fun StartupPayloadMode_Length :: "StartupPayloadMode \<Rightarrow> int" where
  "StartupPayloadMode_Length (StartupControl T) = StartupPayloadControl_Length T"
| "StartupPayloadMode_Length (StartupVersion3 T) = StartupPayloadVersion3_Length T"

fun StartupPayloadMode_WriteTo :: "StartupPayloadMode \<Rightarrow> enc" where
  "StartupPayloadMode_WriteTo (StartupControl T) = StartupPayloadControl_WriteTo T"
| "StartupPayloadMode_WriteTo (StartupVersion3 T) = StartupPayloadVersion3_WriteTo T"

fun StartupPayloadMode_ok :: "StartupPayloadMode \<Rightarrow> bool" where
  "StartupPayloadMode_ok (StartupControl T) = StartupPayloadControl_ok T"
| "StartupPayloadMode_ok (StartupVersion3 T) = StartupPayloadVersion3_ok T"

text \<open>The switch that chooses the implementation and reads it.\<close>

definition StartupPayloadMode_read :: "16 word \<Rightarrow> StartupPayloadMode dec" where
  "StartupPayloadMode_read n =
    (if n = 1234 then dec_bind StartupPayloadControl_ReadFrom (\<lambda>T. dec_return (StartupControl T))
     else if n = 3 then dec_bind StartupPayloadVersion3_ReadFrom (\<lambda>T. dec_return (StartupVersion3 T))
     else dec_fail ErrInvalidFormat)"

lemma StartupPayloadMode_emits: "\<exists>bs. emits (StartupPayloadMode_WriteTo m) bs \<and> StartupPayloadMode_Length m = go_len bs \<and>
    (StartupPayloadMode_ok m \<longrightarrow> reads_end (StartupPayloadMode_read (StartupPayloadMode_code m)) bs m)"
proof (cases m)
  case (StartupControl T)
  with StartupPayloadControl_emits [of T] show ?thesis by (auto simp: StartupPayloadMode_read_def intro: reads_last)
next
  case (StartupVersion3 T)
  with StartupPayloadVersion3_emits [of T] show ?thesis by (auto simp: StartupPayloadMode_read_def intro: reads_last)
qed

lemma StartupPayloadMode_read_total: "total (StartupPayloadMode_read n)"
  unfolding StartupPayloadMode_read_def
  by (intro codec_intros StartupPayloadControl_total StartupPayloadVersion3_total)

record Startup =
  Startup_Mode :: StartupPayloadMode

definition Startup_Length :: "Startup \<Rightarrow> int" where
  "Startup_Length T = 2 + StartupPayloadMode_Length (Startup_Mode T)"

definition Startup_ReadFrom :: "Startup dec" where
  "Startup_ReadFrom = dec_typed 0
    (dec_bind dec_Int16 (\<lambda>n.
     dec_bind (StartupPayloadMode_read n) (\<lambda>m. dec_return \<lparr>Startup_Mode = m\<rparr>)))"

definition Startup_WriteTo :: "Startup \<Rightarrow> enc" where
  "Startup_WriteTo T =
     enc_seq (enc_Int16 (StartupPayloadMode_code (Startup_Mode T))) (StartupPayloadMode_WriteTo (Startup_Mode T))"

definition Startup_ok :: "Startup \<Rightarrow> bool" where
  "Startup_ok T \<longleftrightarrow> StartupPayloadMode_ok (Startup_Mode T)"

lemma Startup_law: "packet_law 0 (Startup_Length v) (Startup_WriteTo v) Startup_ReadFrom (Startup_ok v) v"
proof -
  from StartupPayloadMode_emits [of "Startup_Mode v"] obtain bs where bs: "emits (StartupPayloadMode_WriteTo (Startup_Mode v)) bs"
    "StartupPayloadMode_Length (Startup_Mode v) = go_len bs"
    "StartupPayloadMode_ok (Startup_Mode v) \<Longrightarrow> reads_end (StartupPayloadMode_read (StartupPayloadMode_code (Startup_Mode v))) bs (Startup_Mode v)" by blast
  have 1: "emits (Startup_WriteTo v) (be16 (StartupPayloadMode_code (Startup_Mode v)) @ bs)"
    unfolding Startup_WriteTo_def by (intro emits_seq Int_emits bs(1))
  have 2: "Startup_Length v = go_len (be16 (StartupPayloadMode_code (Startup_Mode v)) @ bs)"
    by (simp add: Startup_Length_def bs(2) wire_simps)
  have 3: "reads_end (dec_bind dec_Int16 (\<lambda>n.
     dec_bind (StartupPayloadMode_read n) (\<lambda>m. dec_return \<lparr>Startup_Mode = m\<rparr>)))
    (be16 (StartupPayloadMode_code (Startup_Mode v)) @ bs) v" if "Startup_ok v"
    by (rule reads_bind, rule Uint_reads, rule reads_last, rule bs(3))
      (use that in \<open>simp add: Startup_ok_def\<close>, cases v, simp)
  show ?thesis unfolding Startup_ReadFrom_def by (rule packet_lawI [OF 1 2 3])
qed

lemma Startup_total: "total Startup_ReadFrom"
  unfolding Startup_ReadFrom_def by (intro codec_intros StartupPayloadMode_read_total)

section \<open>Sync and Terminate\<close>

subsection \<open>Sync\<close>

datatype Sync = Sync

definition TypeSync :: byte where "TypeSync = type_code CHR ''S''"

definition Sync_Length :: "Sync \<Rightarrow> int" where
  "Sync_Length T =
     0"

definition Sync_ReadFrom :: "Sync dec" where
  "Sync_ReadFrom = dec_typed TypeSync
    (dec_return Sync)"

definition Sync_WriteTo :: "Sync \<Rightarrow> enc" where
  "Sync_WriteTo T =
     enc_skip"

definition Sync_ok :: "Sync \<Rightarrow> bool" where
  "Sync_ok T \<longleftrightarrow> True"

lemma Sync_law: "packet_law TypeSync (Sync_Length v) (Sync_WriteTo v) Sync_ReadFrom (Sync_ok v) v"
  unfolding Sync_WriteTo_def Sync_ReadFrom_def
  by (rule packet_lawI, (rule emit_rules)+, simp add: Sync_Length_def wire_simps)
    (((rule read_rules | simp add: Sync_ok_def list_all_iff)+), cases v, simp)

lemma Sync_total: "total Sync_ReadFrom"
  unfolding Sync_ReadFrom_def by (intro codec_intros)

subsection \<open>Terminate\<close>

datatype Terminate = Terminate

definition TypeTerminate :: byte where "TypeTerminate = type_code CHR ''X''"

definition Terminate_Length :: "Terminate \<Rightarrow> int" where
  "Terminate_Length T =
     0"

definition Terminate_ReadFrom :: "Terminate dec" where
  "Terminate_ReadFrom = dec_typed TypeTerminate
    (dec_return Terminate)"

definition Terminate_WriteTo :: "Terminate \<Rightarrow> enc" where
  "Terminate_WriteTo T =
     enc_skip"

definition Terminate_ok :: "Terminate \<Rightarrow> bool" where
  "Terminate_ok T \<longleftrightarrow> True"

lemma Terminate_law: "packet_law TypeTerminate (Terminate_Length v) (Terminate_WriteTo v) Terminate_ReadFrom (Terminate_ok v) v"
  unfolding Terminate_WriteTo_def Terminate_ReadFrom_def
  by (rule packet_lawI, (rule emit_rules)+, simp add: Terminate_Length_def wire_simps)
    (((rule read_rules | simp add: Terminate_ok_def list_all_iff)+), cases v, simp)

lemma Terminate_total: "total Terminate_ReadFrom"
  unfolding Terminate_ReadFrom_def by (intro codec_intros)

end
