(* ===== verification/Packet_Transport.thy ===== *)
theory Packet_Transport
  imports Packets
begin

text \<open>
  All packets as one type, the \<^verbatim>\<open>Packet\<close> and \<^verbatim>\<open>ReadablePacket\<close> interfaces of \<^verbatim>\<open>lib/fed/packet.go\<close>, and the
  end-to-end behaviour of two codecs: what one writes the other reads, for every sequence of packets and
  every way the network cuts the bytes into pieces.
\<close>

section \<open>The packet interface\<close>

datatype packet =
    PAuthentication Authentication
  | PBackendKeyData BackendKeyData
  | PBind Bind
  | PBindComplete BindComplete
  | PClose Close
  | PCloseComplete CloseComplete
  | PCommandComplete CommandComplete
  | PCopyBothResponse CopyBothResponse
  | PCopyData CopyData
  | PCopyDone CopyDone
  | PCopyFail CopyFail
  | PCopyInResponse CopyInResponse
  | PCopyOutResponse CopyOutResponse
  | PDataRow DataRow
  | PDescribe Describe
  | PEmptyQueryResponse EmptyQueryResponse
  | PExecute Execute
  | PFlush Flush
  | PFunctionCall FunctionCall
  | PFunctionCallResponse FunctionCallResponse
  | PGSSResponse GSSResponse
  | PMarkiplierResponse MarkiplierResponse
  | PNegotiateProtocolVersion NegotiateProtocolVersion
  | PNoData NoData
  | PNoticeResponse NoticeResponse
  | PNotificationResponse NotificationResponse
  | PParameterDescription ParameterDescription
  | PParameterStatus ParameterStatus
  | PParse Parse
  | PParseComplete ParseComplete
  | PPasswordMessage PasswordMessage
  | PPortalSuspended PortalSuspended
  | PQuery Query
  | PReadyForQuery ReadyForQuery
  | PRowDescription RowDescription
  | PSASLInitialResponse SASLInitialResponse
  | PSASLResponse SASLResponse
  | PStartup Startup
  | PSync Sync
  | PTerminate Terminate

primrec packet_Type :: "packet \<Rightarrow> byte" where
  "packet_Type (PAuthentication T) = TypeAuthentication"
| "packet_Type (PBackendKeyData T) = TypeBackendKeyData"
| "packet_Type (PBind T) = TypeBind"
| "packet_Type (PBindComplete T) = TypeBindComplete"
| "packet_Type (PClose T) = TypeClose"
| "packet_Type (PCloseComplete T) = TypeCloseComplete"
| "packet_Type (PCommandComplete T) = TypeCommandComplete"
| "packet_Type (PCopyBothResponse T) = TypeCopyBothResponse"
| "packet_Type (PCopyData T) = TypeCopyData"
| "packet_Type (PCopyDone T) = TypeCopyDone"
| "packet_Type (PCopyFail T) = TypeCopyFail"
| "packet_Type (PCopyInResponse T) = TypeCopyInResponse"
| "packet_Type (PCopyOutResponse T) = TypeCopyOutResponse"
| "packet_Type (PDataRow T) = TypeDataRow"
| "packet_Type (PDescribe T) = TypeDescribe"
| "packet_Type (PEmptyQueryResponse T) = TypeEmptyQueryResponse"
| "packet_Type (PExecute T) = TypeExecute"
| "packet_Type (PFlush T) = TypeFlush"
| "packet_Type (PFunctionCall T) = TypeFunctionCall"
| "packet_Type (PFunctionCallResponse T) = TypeFunctionCallResponse"
| "packet_Type (PGSSResponse T) = TypeGSSResponse"
| "packet_Type (PMarkiplierResponse T) = TypeMarkiplierResponse"
| "packet_Type (PNegotiateProtocolVersion T) = TypeNegotiateProtocolVersion"
| "packet_Type (PNoData T) = TypeNoData"
| "packet_Type (PNoticeResponse T) = TypeNoticeResponse"
| "packet_Type (PNotificationResponse T) = TypeNotificationResponse"
| "packet_Type (PParameterDescription T) = TypeParameterDescription"
| "packet_Type (PParameterStatus T) = TypeParameterStatus"
| "packet_Type (PParse T) = TypeParse"
| "packet_Type (PParseComplete T) = TypeParseComplete"
| "packet_Type (PPasswordMessage T) = TypePasswordMessage"
| "packet_Type (PPortalSuspended T) = TypePortalSuspended"
| "packet_Type (PQuery T) = TypeQuery"
| "packet_Type (PReadyForQuery T) = TypeReadyForQuery"
| "packet_Type (PRowDescription T) = TypeRowDescription"
| "packet_Type (PSASLInitialResponse T) = TypeSASLInitialResponse"
| "packet_Type (PSASLResponse T) = TypeSASLResponse"
| "packet_Type (PStartup T) = 0"
| "packet_Type (PSync T) = TypeSync"
| "packet_Type (PTerminate T) = TypeTerminate"

primrec packet_Length :: "packet \<Rightarrow> int" where
  "packet_Length (PAuthentication T) = Authentication_Length T"
| "packet_Length (PBackendKeyData T) = BackendKeyData_Length T"
| "packet_Length (PBind T) = Bind_Length T"
| "packet_Length (PBindComplete T) = BindComplete_Length T"
| "packet_Length (PClose T) = Close_Length T"
| "packet_Length (PCloseComplete T) = CloseComplete_Length T"
| "packet_Length (PCommandComplete T) = CommandComplete_Length T"
| "packet_Length (PCopyBothResponse T) = CopyBothResponse_Length T"
| "packet_Length (PCopyData T) = CopyData_Length T"
| "packet_Length (PCopyDone T) = CopyDone_Length T"
| "packet_Length (PCopyFail T) = CopyFail_Length T"
| "packet_Length (PCopyInResponse T) = CopyInResponse_Length T"
| "packet_Length (PCopyOutResponse T) = CopyOutResponse_Length T"
| "packet_Length (PDataRow T) = DataRow_Length T"
| "packet_Length (PDescribe T) = Describe_Length T"
| "packet_Length (PEmptyQueryResponse T) = EmptyQueryResponse_Length T"
| "packet_Length (PExecute T) = Execute_Length T"
| "packet_Length (PFlush T) = Flush_Length T"
| "packet_Length (PFunctionCall T) = FunctionCall_Length T"
| "packet_Length (PFunctionCallResponse T) = FunctionCallResponse_Length T"
| "packet_Length (PGSSResponse T) = GSSResponse_Length T"
| "packet_Length (PMarkiplierResponse T) = MarkiplierResponse_Length T"
| "packet_Length (PNegotiateProtocolVersion T) = NegotiateProtocolVersion_Length T"
| "packet_Length (PNoData T) = NoData_Length T"
| "packet_Length (PNoticeResponse T) = NoticeResponse_Length T"
| "packet_Length (PNotificationResponse T) = NotificationResponse_Length T"
| "packet_Length (PParameterDescription T) = ParameterDescription_Length T"
| "packet_Length (PParameterStatus T) = ParameterStatus_Length T"
| "packet_Length (PParse T) = Parse_Length T"
| "packet_Length (PParseComplete T) = ParseComplete_Length T"
| "packet_Length (PPasswordMessage T) = PasswordMessage_Length T"
| "packet_Length (PPortalSuspended T) = PortalSuspended_Length T"
| "packet_Length (PQuery T) = Query_Length T"
| "packet_Length (PReadyForQuery T) = ReadyForQuery_Length T"
| "packet_Length (PRowDescription T) = RowDescription_Length T"
| "packet_Length (PSASLInitialResponse T) = SASLInitialResponse_Length T"
| "packet_Length (PSASLResponse T) = SASLResponse_Length T"
| "packet_Length (PStartup T) = Startup_Length T"
| "packet_Length (PSync T) = Sync_Length T"
| "packet_Length (PTerminate T) = Terminate_Length T"

primrec packet_WriteTo :: "packet \<Rightarrow> enc" where
  "packet_WriteTo (PAuthentication T) = Authentication_WriteTo T"
| "packet_WriteTo (PBackendKeyData T) = BackendKeyData_WriteTo T"
| "packet_WriteTo (PBind T) = Bind_WriteTo T"
| "packet_WriteTo (PBindComplete T) = BindComplete_WriteTo T"
| "packet_WriteTo (PClose T) = Close_WriteTo T"
| "packet_WriteTo (PCloseComplete T) = CloseComplete_WriteTo T"
| "packet_WriteTo (PCommandComplete T) = CommandComplete_WriteTo T"
| "packet_WriteTo (PCopyBothResponse T) = CopyBothResponse_WriteTo T"
| "packet_WriteTo (PCopyData T) = CopyData_WriteTo T"
| "packet_WriteTo (PCopyDone T) = CopyDone_WriteTo T"
| "packet_WriteTo (PCopyFail T) = CopyFail_WriteTo T"
| "packet_WriteTo (PCopyInResponse T) = CopyInResponse_WriteTo T"
| "packet_WriteTo (PCopyOutResponse T) = CopyOutResponse_WriteTo T"
| "packet_WriteTo (PDataRow T) = DataRow_WriteTo T"
| "packet_WriteTo (PDescribe T) = Describe_WriteTo T"
| "packet_WriteTo (PEmptyQueryResponse T) = EmptyQueryResponse_WriteTo T"
| "packet_WriteTo (PExecute T) = Execute_WriteTo T"
| "packet_WriteTo (PFlush T) = Flush_WriteTo T"
| "packet_WriteTo (PFunctionCall T) = FunctionCall_WriteTo T"
| "packet_WriteTo (PFunctionCallResponse T) = FunctionCallResponse_WriteTo T"
| "packet_WriteTo (PGSSResponse T) = GSSResponse_WriteTo T"
| "packet_WriteTo (PMarkiplierResponse T) = MarkiplierResponse_WriteTo T"
| "packet_WriteTo (PNegotiateProtocolVersion T) = NegotiateProtocolVersion_WriteTo T"
| "packet_WriteTo (PNoData T) = NoData_WriteTo T"
| "packet_WriteTo (PNoticeResponse T) = NoticeResponse_WriteTo T"
| "packet_WriteTo (PNotificationResponse T) = NotificationResponse_WriteTo T"
| "packet_WriteTo (PParameterDescription T) = ParameterDescription_WriteTo T"
| "packet_WriteTo (PParameterStatus T) = ParameterStatus_WriteTo T"
| "packet_WriteTo (PParse T) = Parse_WriteTo T"
| "packet_WriteTo (PParseComplete T) = ParseComplete_WriteTo T"
| "packet_WriteTo (PPasswordMessage T) = PasswordMessage_WriteTo T"
| "packet_WriteTo (PPortalSuspended T) = PortalSuspended_WriteTo T"
| "packet_WriteTo (PQuery T) = Query_WriteTo T"
| "packet_WriteTo (PReadyForQuery T) = ReadyForQuery_WriteTo T"
| "packet_WriteTo (PRowDescription T) = RowDescription_WriteTo T"
| "packet_WriteTo (PSASLInitialResponse T) = SASLInitialResponse_WriteTo T"
| "packet_WriteTo (PSASLResponse T) = SASLResponse_WriteTo T"
| "packet_WriteTo (PStartup T) = Startup_WriteTo T"
| "packet_WriteTo (PSync T) = Sync_WriteTo T"
| "packet_WriteTo (PTerminate T) = Terminate_WriteTo T"

primrec packet_ok :: "packet \<Rightarrow> bool" where
  "packet_ok (PAuthentication T) = Authentication_ok T"
| "packet_ok (PBackendKeyData T) = BackendKeyData_ok T"
| "packet_ok (PBind T) = Bind_ok T"
| "packet_ok (PBindComplete T) = BindComplete_ok T"
| "packet_ok (PClose T) = Close_ok T"
| "packet_ok (PCloseComplete T) = CloseComplete_ok T"
| "packet_ok (PCommandComplete T) = CommandComplete_ok T"
| "packet_ok (PCopyBothResponse T) = CopyBothResponse_ok T"
| "packet_ok (PCopyData T) = CopyData_ok T"
| "packet_ok (PCopyDone T) = CopyDone_ok T"
| "packet_ok (PCopyFail T) = CopyFail_ok T"
| "packet_ok (PCopyInResponse T) = CopyInResponse_ok T"
| "packet_ok (PCopyOutResponse T) = CopyOutResponse_ok T"
| "packet_ok (PDataRow T) = DataRow_ok T"
| "packet_ok (PDescribe T) = Describe_ok T"
| "packet_ok (PEmptyQueryResponse T) = EmptyQueryResponse_ok T"
| "packet_ok (PExecute T) = Execute_ok T"
| "packet_ok (PFlush T) = Flush_ok T"
| "packet_ok (PFunctionCall T) = FunctionCall_ok T"
| "packet_ok (PFunctionCallResponse T) = FunctionCallResponse_ok T"
| "packet_ok (PGSSResponse T) = GSSResponse_ok T"
| "packet_ok (PMarkiplierResponse T) = MarkiplierResponse_ok T"
| "packet_ok (PNegotiateProtocolVersion T) = NegotiateProtocolVersion_ok T"
| "packet_ok (PNoData T) = NoData_ok T"
| "packet_ok (PNoticeResponse T) = NoticeResponse_ok T"
| "packet_ok (PNotificationResponse T) = NotificationResponse_ok T"
| "packet_ok (PParameterDescription T) = ParameterDescription_ok T"
| "packet_ok (PParameterStatus T) = ParameterStatus_ok T"
| "packet_ok (PParse T) = Parse_ok T"
| "packet_ok (PParseComplete T) = ParseComplete_ok T"
| "packet_ok (PPasswordMessage T) = PasswordMessage_ok T"
| "packet_ok (PPortalSuspended T) = PortalSuspended_ok T"
| "packet_ok (PQuery T) = Query_ok T"
| "packet_ok (PReadyForQuery T) = ReadyForQuery_ok T"
| "packet_ok (PRowDescription T) = RowDescription_ok T"
| "packet_ok (PSASLInitialResponse T) = SASLInitialResponse_ok T"
| "packet_ok (PSASLResponse T) = SASLResponse_ok T"
| "packet_ok (PStartup T) = Startup_ok T"
| "packet_ok (PSync T) = Sync_ok T"
| "packet_ok (PTerminate T) = Terminate_ok T"

text \<open>\<^verbatim>\<open>ReadFrom\<close> is a method of the variable that receives the packet; only its type matters.\<close>

primrec packet_ReadFrom :: "packet \<Rightarrow> packet dec" where
  "packet_ReadFrom (PAuthentication T) = dec_bind Authentication_ReadFrom (\<lambda>x. dec_return (PAuthentication x))"
| "packet_ReadFrom (PBackendKeyData T) = dec_bind BackendKeyData_ReadFrom (\<lambda>x. dec_return (PBackendKeyData x))"
| "packet_ReadFrom (PBind T) = dec_bind Bind_ReadFrom (\<lambda>x. dec_return (PBind x))"
| "packet_ReadFrom (PBindComplete T) = dec_bind BindComplete_ReadFrom (\<lambda>x. dec_return (PBindComplete x))"
| "packet_ReadFrom (PClose T) = dec_bind Close_ReadFrom (\<lambda>x. dec_return (PClose x))"
| "packet_ReadFrom (PCloseComplete T) = dec_bind CloseComplete_ReadFrom (\<lambda>x. dec_return (PCloseComplete x))"
| "packet_ReadFrom (PCommandComplete T) = dec_bind CommandComplete_ReadFrom (\<lambda>x. dec_return (PCommandComplete x))"
| "packet_ReadFrom (PCopyBothResponse T) = dec_bind CopyBothResponse_ReadFrom (\<lambda>x. dec_return (PCopyBothResponse x))"
| "packet_ReadFrom (PCopyData T) = dec_bind CopyData_ReadFrom (\<lambda>x. dec_return (PCopyData x))"
| "packet_ReadFrom (PCopyDone T) = dec_bind CopyDone_ReadFrom (\<lambda>x. dec_return (PCopyDone x))"
| "packet_ReadFrom (PCopyFail T) = dec_bind CopyFail_ReadFrom (\<lambda>x. dec_return (PCopyFail x))"
| "packet_ReadFrom (PCopyInResponse T) = dec_bind CopyInResponse_ReadFrom (\<lambda>x. dec_return (PCopyInResponse x))"
| "packet_ReadFrom (PCopyOutResponse T) = dec_bind CopyOutResponse_ReadFrom (\<lambda>x. dec_return (PCopyOutResponse x))"
| "packet_ReadFrom (PDataRow T) = dec_bind DataRow_ReadFrom (\<lambda>x. dec_return (PDataRow x))"
| "packet_ReadFrom (PDescribe T) = dec_bind Describe_ReadFrom (\<lambda>x. dec_return (PDescribe x))"
| "packet_ReadFrom (PEmptyQueryResponse T) = dec_bind EmptyQueryResponse_ReadFrom (\<lambda>x. dec_return (PEmptyQueryResponse x))"
| "packet_ReadFrom (PExecute T) = dec_bind Execute_ReadFrom (\<lambda>x. dec_return (PExecute x))"
| "packet_ReadFrom (PFlush T) = dec_bind Flush_ReadFrom (\<lambda>x. dec_return (PFlush x))"
| "packet_ReadFrom (PFunctionCall T) = dec_bind FunctionCall_ReadFrom (\<lambda>x. dec_return (PFunctionCall x))"
| "packet_ReadFrom (PFunctionCallResponse T) = dec_bind FunctionCallResponse_ReadFrom (\<lambda>x. dec_return (PFunctionCallResponse x))"
| "packet_ReadFrom (PGSSResponse T) = dec_bind GSSResponse_ReadFrom (\<lambda>x. dec_return (PGSSResponse x))"
| "packet_ReadFrom (PMarkiplierResponse T) = dec_bind MarkiplierResponse_ReadFrom (\<lambda>x. dec_return (PMarkiplierResponse x))"
| "packet_ReadFrom (PNegotiateProtocolVersion T) = dec_bind NegotiateProtocolVersion_ReadFrom (\<lambda>x. dec_return (PNegotiateProtocolVersion x))"
| "packet_ReadFrom (PNoData T) = dec_bind NoData_ReadFrom (\<lambda>x. dec_return (PNoData x))"
| "packet_ReadFrom (PNoticeResponse T) = dec_bind NoticeResponse_ReadFrom (\<lambda>x. dec_return (PNoticeResponse x))"
| "packet_ReadFrom (PNotificationResponse T) = dec_bind NotificationResponse_ReadFrom (\<lambda>x. dec_return (PNotificationResponse x))"
| "packet_ReadFrom (PParameterDescription T) = dec_bind ParameterDescription_ReadFrom (\<lambda>x. dec_return (PParameterDescription x))"
| "packet_ReadFrom (PParameterStatus T) = dec_bind ParameterStatus_ReadFrom (\<lambda>x. dec_return (PParameterStatus x))"
| "packet_ReadFrom (PParse T) = dec_bind Parse_ReadFrom (\<lambda>x. dec_return (PParse x))"
| "packet_ReadFrom (PParseComplete T) = dec_bind ParseComplete_ReadFrom (\<lambda>x. dec_return (PParseComplete x))"
| "packet_ReadFrom (PPasswordMessage T) = dec_bind PasswordMessage_ReadFrom (\<lambda>x. dec_return (PPasswordMessage x))"
| "packet_ReadFrom (PPortalSuspended T) = dec_bind PortalSuspended_ReadFrom (\<lambda>x. dec_return (PPortalSuspended x))"
| "packet_ReadFrom (PQuery T) = dec_bind Query_ReadFrom (\<lambda>x. dec_return (PQuery x))"
| "packet_ReadFrom (PReadyForQuery T) = dec_bind ReadyForQuery_ReadFrom (\<lambda>x. dec_return (PReadyForQuery x))"
| "packet_ReadFrom (PRowDescription T) = dec_bind RowDescription_ReadFrom (\<lambda>x. dec_return (PRowDescription x))"
| "packet_ReadFrom (PSASLInitialResponse T) = dec_bind SASLInitialResponse_ReadFrom (\<lambda>x. dec_return (PSASLInitialResponse x))"
| "packet_ReadFrom (PSASLResponse T) = dec_bind SASLResponse_ReadFrom (\<lambda>x. dec_return (PSASLResponse x))"
| "packet_ReadFrom (PStartup T) = dec_bind Startup_ReadFrom (\<lambda>x. dec_return (PStartup x))"
| "packet_ReadFrom (PSync T) = dec_bind Sync_ReadFrom (\<lambda>x. dec_return (PSync x))"
| "packet_ReadFrom (PTerminate T) = dec_bind Terminate_ReadFrom (\<lambda>x. dec_return (PTerminate x))"

lemmas packet_laws =
  Authentication_law BackendKeyData_law Bind_law BindComplete_law
  Close_law CloseComplete_law CommandComplete_law CopyBothResponse_law
  CopyData_law CopyDone_law CopyFail_law CopyInResponse_law
  CopyOutResponse_law DataRow_law Describe_law EmptyQueryResponse_law
  Execute_law Flush_law FunctionCall_law FunctionCallResponse_law
  GSSResponse_law MarkiplierResponse_law NegotiateProtocolVersion_law NoData_law
  NoticeResponse_law NotificationResponse_law ParameterDescription_law ParameterStatus_law
  Parse_law ParseComplete_law PasswordMessage_law PortalSuspended_law
  Query_law ReadyForQuery_law RowDescription_law SASLInitialResponse_law
  SASLResponse_law Startup_law Sync_law Terminate_law

lemma packet_law_all:
  "packet_law (packet_Type p) (packet_Length p) (packet_WriteTo p) (packet_ReadFrom p) (packet_ok p) p"
  by (cases p) (simp_all add: packet_law_tag packet_laws)

text \<open>The packets with a nullable byte slice; only their \<^verbatim>\<open>ReadFrom\<close> can panic.\<close>

definition has_nullable :: "packet \<Rightarrow> bool" where
  "has_nullable p = (case p of PBind T \<Rightarrow> True | PDataRow T \<Rightarrow> True | PFunctionCall T \<Rightarrow> True | PFunctionCallResponse T \<Rightarrow> True | PSASLInitialResponse T \<Rightarrow> True | _ \<Rightarrow> False)"

lemmas packet_totals =
  Authentication_total BackendKeyData_total BindComplete_total Close_total
  CloseComplete_total CommandComplete_total CopyBothResponse_total CopyData_total
  CopyDone_total CopyFail_total CopyInResponse_total CopyOutResponse_total
  Describe_total EmptyQueryResponse_total Execute_total Flush_total
  GSSResponse_total MarkiplierResponse_total NegotiateProtocolVersion_total NoData_total
  NoticeResponse_total NotificationResponse_total ParameterDescription_total ParameterStatus_total
  Parse_total ParseComplete_total PasswordMessage_total PortalSuspended_total
  Query_total ReadyForQuery_total RowDescription_total SASLResponse_total
  Startup_total Sync_total Terminate_total

lemma packet_ReadFrom_returns: "\<not> has_nullable p \<Longrightarrow> total (packet_ReadFrom p)"
  by (cases p) (simp_all add: has_nullable_def packet_totals total_bind total_return)

end
