(* ===== verification/Fed_Transport.thy ===== *)
theory Fed_Transport
  imports Packet_Transport
begin

text \<open>
  End to end: a codec that writes a sequence of packets and flushes, a network that delivers the bytes in
  pieces of any size, and a codec that reads them.  The client of the packet interface is proved once in
  the locale \<open>wire_format\<close>, from the law of a packet alone, and used for the generated packets through its
  interpretation.  Also here: a packet the proxy forwards without decoding is copied byte for byte.
\<close>

section \<open>Sending and receiving\<close>

text \<open>\<^verbatim>\<open>WritePacket\<close> for each packet, then \<^verbatim>\<open>Flush\<close>; a packet is given by its type, length and \<^verbatim>\<open>WriteTo\<close>.\<close>

primrec send_list :: "(byte \<times> int \<times> enc) list \<Rightarrow> codec \<Rightarrow> (go_error option \<times> codec) option" where
  "send_list [] c = codec_Flush c"
| "send_list (p # ps) c = do {
     (err, c) \<leftarrow> codec_WritePacket (fst p) (fst (snd p)) (snd (snd p)) c;
     case err of Some err \<Rightarrow> Some (Some err, c) | None \<Rightarrow> send_list ps c
   }"

text \<open>\<^verbatim>\<open>ReadPacket\<close> and \<^verbatim>\<open>ReadFrom\<close> for each expected packet; the flag says whether it carries a type byte.\<close>

primrec recv_list :: "(bool \<times> 'a dec) list \<Rightarrow> codec \<Rightarrow> ((go_error + 'a list) \<times> codec) option" where
  "recv_list [] c = Some (Inr [], c)"
| "recv_list (p # ps) c = do {
     (r, c) \<leftarrow> codec_ReadPacket (fst p) c;
     case r of Inl err \<Rightarrow> Some (Inl err, c)
     | Inr _ \<Rightarrow> do {
         (r, d) \<leftarrow> snd p (c_decoder c);
         let c = c\<lparr>c_decoder := d\<rparr>;
         case r of Inl err \<Rightarrow> Some (Inl err, c)
         | Inr v \<Rightarrow> do {
             (r, c) \<leftarrow> recv_list ps c;
             Some (map_sum id ((#) v) r, c)
           }
       }
   }"

definition send_packets :: "packet list \<Rightarrow> codec \<Rightarrow> (go_error option \<times> codec) option" where
  "send_packets ps = send_list (map (\<lambda>p. (packet_Type p, packet_Length p, packet_WriteTo p)) ps)"

definition recv_packets :: "packet list \<Rightarrow> codec \<Rightarrow> ((go_error + packet list) \<times> codec) option" where
  "recv_packets ps = recv_list (map (\<lambda>p. (packet_Type p \<noteq> 0, packet_ReadFrom p)) ps)"

lemma NewCodec_simps [simp]:
  "c_encoder (NewCodec w r) = NewEncoder w" "c_decoder (NewCodec w r) = NewDecoder r"
  "e_packetPos (NewEncoder w) = 0" "e_packetLength (NewEncoder w) = 0" "e_writer (NewEncoder w) = w"
  "d_packetPos (NewDecoder r) = 0" "d_packetLength (NewDecoder r) = 0" "d_reader (NewDecoder r) = r"
  by (simp_all add: NewCodec_def NewEncoder_def NewDecoder_def dec_Reset_def)

section \<open>The interface\<close>

locale wire_format =
  fixes ptype :: "'p \<Rightarrow> byte"
    and plen :: "'p \<Rightarrow> int"
    and pwrite :: "'p \<Rightarrow> enc"
    and pread :: "'p \<Rightarrow> 'p dec"
    and pok :: "'p \<Rightarrow> bool"
  assumes law: "packet_law (ptype p) (plen p) (pwrite p) (pread p) (pok p) p"
begin

lemma body_exists:
  "\<exists>body. \<forall>p. emits (pwrite p) (body p) \<and> plen p = go_len (body p) \<and>
     (pok p \<longrightarrow> (\<forall>d rest. dec_inv d \<longrightarrow> clean d \<longrightarrow> dec_stream d = body p @ rest \<longrightarrow> d_packetType d = ptype p \<longrightarrow>
        d_packetPos d + go_len (body p) = d_packetLength d \<longrightarrow>
        (\<exists>d'. pread p d = Some (Inr p, d') \<and> dec_step d (body p) d' \<and>
           d_packetPos d' = d_packetPos d + go_len (body p))))"
  using law unfolding packet_law_def by (intro choice) blast

text \<open>One packet through \<^verbatim>\<open>WritePacket\<close>.\<close>

lemma write_one:
  assumes "emits (pwrite p) b" "plen p = go_len b"
    and e: "enc_inv (c_encoder c)" "e_packetPos (c_encoder c) = e_packetLength (c_encoder c)"
      "no_faults (c_encoder c)"
  shows "\<exists>e'. codec_WritePacket (ptype p) (plen p) (pwrite p) c = Some (None, c\<lparr>c_encoder := e'\<rparr>) \<and>
    enc_inv e' \<and> e_packetPos e' = e_packetLength e' \<and> no_faults e' \<and>
    enc_out e' = enc_out (c_encoder c) @ header (ptype p) (plen p) @ b"
proof -
  from Next_ok [OF e(1,2), of "ptype p" "plen p"] e(3) obtain e1 where n:
    "enc_Next (ptype p) (plen p) (c_encoder c) = Some (None, e1)" "enc_inv e1" "no_faults e1"
    "enc_out e1 = enc_out (c_encoder c) @ header (ptype p) (plen p)" "e_packetLength e1 = plen p"
    "e_packetPos e1 = 0" by auto
  from emits_rawE [OF assms(1) n(2)] n(3) obtain e2 where w: "pwrite p e1 = Some (None, e2)"
    "enc_inv e2" "enc_out e2 = enc_out e1 @ b" "e_packetPos e2 = e_packetPos e1 + go_len b"
    "e_packetLength e2 = e_packetLength e1" "no_faults e2" by metis
  with n assms(2) show ?thesis by (auto simp: codec_WritePacket_def enc_seq_def)
qed

lemma send_ok:
  assumes body: "\<And>p. emits (pwrite p) (body p)" "\<And>p. plen p = go_len (body p)"
    and e: "enc_inv (c_encoder c)" "e_packetPos (c_encoder c) = e_packetLength (c_encoder c)"
      "no_faults (c_encoder c)"
  shows "\<exists>c'. send_list (map (\<lambda>p. (ptype p, plen p, pwrite p)) ps) c = Some (None, c') \<and>
    w_sink (e_writer (c_encoder c')) =
      enc_out (c_encoder c) @ concat (map (\<lambda>p. header (ptype p) (plen p) @ body p) ps)"
  using e
proof (induction ps arbitrary: c)
  case Nil
  from emits_rawE [OF Flush_emits Nil(1)] Nil(3) obtain e' where
    f: "enc_Flush (c_encoder c) = Some (None, e')" by metis
  with Flush_sink [OF Nil(1) f] show ?case by (simp add: codec_Flush_def)
next
  case (Cons p ps)
  from write_one [OF body Cons.prems, of p] obtain e' where w:
    "codec_WritePacket (ptype p) (plen p) (pwrite p) c = Some (None, c\<lparr>c_encoder := e'\<rparr>)"
    "enc_inv e'" "e_packetPos e' = e_packetLength e'" "no_faults e'"
    "enc_out e' = enc_out (c_encoder c) @ header (ptype p) (plen p) @ body p" by blast
  with Cons.IH [of "c\<lparr>c_encoder := e'\<rparr>"] show ?case by auto
qed

lemma header_split:
  assumes "0 \<le> len" "len + 4 < 2 ^ 32"
  shows "length (header typ len) = (if typ \<noteq> 0 then 5 else 4)"
    "(if typ \<noteq> 0 then hd (header typ len) else 0) = typ"
    "uint (of_be32 (if typ \<noteq> 0 then tl (header typ len) else header typ len)) - 4 = len"
proof -
  have "uint (word_of_int (len + 4) :: 32 word) = len + 4"
    using assms by (subst uint_word_of_int) (simp add: mod_pos_pos_trivial)
  then show "uint (of_be32 (if typ \<noteq> 0 then tl (header typ len) else header typ len)) - 4 = len"
    by (simp add: header_def)
qed (simp_all add: header_def)

lemma recv_ok:
  assumes body: "\<And>p. plen p = go_len (body p)"
    "\<And>p d rest. pok p \<Longrightarrow> dec_inv d \<Longrightarrow> clean d \<Longrightarrow> dec_stream d = body p @ rest \<Longrightarrow> d_packetType d = ptype p \<Longrightarrow>
        d_packetPos d + go_len (body p) = d_packetLength d \<Longrightarrow>
        \<exists>d'. pread p d = Some (Inr p, d') \<and> dec_step d (body p) d' \<and>
           d_packetPos d' = d_packetPos d + go_len (body p)"
    and ps: "\<And>p. p \<in> set ps \<Longrightarrow> pok p \<and> plen p + 4 < 2 ^ 32"
    and d: "dec_inv (c_decoder c)" "clean (c_decoder c)"
      "d_packetPos (c_decoder c) = d_packetLength (c_decoder c)"
      "dec_stream (c_decoder c) = concat (map (\<lambda>p. header (ptype p) (plen p) @ body p) ps) @ rest"
  shows "\<exists>c'. recv_list (map (\<lambda>p. (ptype p \<noteq> 0, pread p)) ps) c = Some (Inr ps, c') \<and>
    dec_stream (c_decoder c') = rest"
  using ps d
proof (induction ps arbitrary: c)
  case Nil
  then show ?case by simp
next
  case (Cons p ps)
  let ?more = "concat (map (\<lambda>p. header (ptype p) (plen p) @ body p) ps) @ rest"
  have p: "pok p" "0 \<le> plen p" "plen p + 4 < 2 ^ 32" using Cons.prems(1) [of p] body(1) by auto
  have st: "dec_stream (c_decoder c) = [] @ header (ptype p) (plen p) @ (body p @ ?more)"
    using Cons.prems(5) by simp
  from dec_Next_ok [OF Cons.prems(2,3) _ st, of "ptype p \<noteq> 0"] Cons.prems(4) header_split [OF p(2,3)]
  obtain d1 where n: "dec_Next (ptype p \<noteq> 0) (c_decoder c) = Some (Inr (), d1)" "dec_inv d1" "clean d1"
    "dec_stream d1 = body p @ ?more" "d_packetType d1 = ptype p" "d_packetPos d1 = 0"
    "d_packetLength d1 = plen p" by (auto simp: go_len_def)
  from body(2) [OF p(1) n(2-5)] n(6,7) body(1) obtain d2 where r: "pread p d1 = Some (Inr p, d2)"
    "dec_step d1 (body p) d2" "d_packetPos d2 = plen p" by auto
  have "dec_inv d2" "clean d2" "dec_stream d2 = ?more" "d_packetLength d2 = plen p"
    using r(2) n by (auto simp: dec_step_def)
  with Cons.IH [of "c\<lparr>c_decoder := d2\<rparr>"] Cons.prems(1) r(3) obtain c' where
    "recv_list (map (\<lambda>p. (ptype p \<noteq> 0, pread p)) ps) (c\<lparr>c_decoder := d2\<rparr>) = Some (Inr ps, c')"
    "dec_stream (c_decoder c') = rest" by auto
  with n(1) r(1) show ?case by (simp add: codec_ReadPacket_def)
qed

text \<open>What is sent is received.\<close>

lemma transmit:
  assumes "\<And>p. p \<in> set ps \<Longrightarrow> pok p \<and> plen p + 4 < 2 ^ 32" "list_all (\<lambda>f. f = None) (w_faults w)"
    "w_sink w = []"
  shows "\<exists>c. send_list (map (\<lambda>p. (ptype p, plen p, pwrite p)) ps) (NewCodec w r) = Some (None, c) \<and>
    (\<forall>chunks w'. list_all (\<lambda>k. snd k = None) chunks \<longrightarrow>
       concat (map fst chunks) = w_sink (e_writer (c_encoder c)) \<longrightarrow>
       (\<exists>c'. recv_list (map (\<lambda>p. (ptype p \<noteq> 0, pread p)) ps) (NewCodec w' chunks) = Some (Inr ps, c')))"
proof -
  obtain body where b: "\<And>p. emits (pwrite p) (body p)" "\<And>p. plen p = go_len (body p)"
    "\<And>p d rest. pok p \<Longrightarrow> dec_inv d \<Longrightarrow> clean d \<Longrightarrow> dec_stream d = body p @ rest \<Longrightarrow> d_packetType d = ptype p \<Longrightarrow>
        d_packetPos d + go_len (body p) = d_packetLength d \<Longrightarrow>
        \<exists>d'. pread p d = Some (Inr p, d') \<and> dec_step d (body p) d' \<and>
           d_packetPos d' = d_packetPos d + go_len (body p)"
    using body_exists by blast
  have "no_faults (NewEncoder w)" using assms(2) by (simp add: no_faults_def)
  then obtain c where c: "send_list (map (\<lambda>p. (ptype p, plen p, pwrite p)) ps) (NewCodec w r) = Some (None, c)"
    "w_sink (e_writer (c_encoder c)) = concat (map (\<lambda>p. header (ptype p) (plen p) @ body p) ps)"
    using send_ok [OF b(1,2), of "NewCodec w r" ps] assms(3) by auto
  show ?thesis
  proof (rule exI [of _ c], intro conjI allI impI)
    fix chunks :: reader and w'
    assume k: "list_all (\<lambda>k. snd k = None) chunks"
      "concat (map fst chunks) = w_sink (e_writer (c_encoder c))"
    have "clean (NewDecoder chunks)" using k(1) by (simp add: clean_def)
    then have "\<exists>c'. recv_list (map (\<lambda>p. (ptype p \<noteq> 0, pread p)) ps) (NewCodec w' chunks) = Some (Inr ps, c') \<and>
      dec_stream (c_decoder c') = []"
      by (intro recv_ok [where body = body] b(2) assms(1)) (erule (5) b(3), use k(2) c(2) in simp_all)
    then show "\<exists>c'. recv_list (map (\<lambda>p. (ptype p \<noteq> 0, pread p)) ps) (NewCodec w' chunks) = Some (Inr ps, c')"
      by blast
  qed (rule c(1))
qed

end

interpretation fed: wire_format packet_Type packet_Length packet_WriteTo packet_ReadFrom packet_ok
  by unfold_locales (rule packet_law_all)

section \<open>Properties\<close>

text \<open>
  (C1) Round trip of the whole protocol: any sequence of representable packets (no zero byte inside a
  string, counts that fit their fields, total length below \<open>2\<^sup>3\<^sup>2\<close>), written by one codec and flushed, is read
  back as the same sequence by another codec, however the network cuts the byte stream into chunks,
  empty ones included, and independently of the 4096-byte buffers on both sides.
\<close>

theorem packets_transmit:
  assumes "\<And>p. p \<in> set ps \<Longrightarrow> packet_ok p \<and> packet_Length p + 4 < 2 ^ 32"
    and "list_all (\<lambda>f. f = None) (w_faults w)" and "w_sink w = []"
  shows "\<exists>c. send_packets ps (NewCodec w r) = Some (None, c) \<and>
    (\<forall>chunks w'. list_all (\<lambda>k. snd k = None) chunks \<longrightarrow>
       concat (map fst chunks) = w_sink (e_writer (c_encoder c)) \<longrightarrow>
       (\<exists>c'. recv_packets ps (NewCodec w' chunks) = Some (Inr ps, c')))"
  unfolding send_packets_def recv_packets_def by (rule fed.transmit [OF assms])

theorem packets_transmit_witness:
  "\<exists>c chunks c'. send_packets [PQuery ''SELECT 1'', PBind \<lparr>Bind_Destination = ''p'', Bind_Source = ''s'',
       Bind_FormatCodes = [1], Bind_Parameters = [None, Some [7, 0]], Bind_ResultFormatCodes = []\<rparr>, PSync Sync]
     (NewCodec \<lparr>w_sink = [], w_faults = [None]\<rparr> []) = Some (None, c) \<and>
   concat (map fst chunks) = w_sink (e_writer (c_encoder c)) \<and>
   recv_packets [PQuery ''SELECT 1'', PBind \<lparr>Bind_Destination = ''p'', Bind_Source = ''s'',
       Bind_FormatCodes = [1], Bind_Parameters = [None, Some [7, 0]], Bind_ResultFormatCodes = []\<rparr>, PSync Sync]
     (NewCodec \<lparr>w_sink = [], w_faults = []\<rparr> chunks) =
     Some (Inr [PQuery ''SELECT 1'', PBind \<lparr>Bind_Destination = ''p'', Bind_Source = ''s'',
       Bind_FormatCodes = [1], Bind_Parameters = [None, Some [7, 0]], Bind_ResultFormatCodes = []\<rparr>, PSync Sync], c')"
  (is "\<exists>c chunks c'. send_packets ?ps (NewCodec ?w []) = _ \<and> _")
proof -
  have ok: "packet_ok p \<and> packet_Length p + 4 < 2 ^ 32" if "p \<in> set ?ps" for p
    using that by (auto simp: Query_ok_def Bind_ok_def Sync_ok_def no_nul_def fits31_def Query_Length_def
        Bind_Length_def Sync_Length_def go_len_def)
  from packets_transmit [of ?ps ?w "[]", OF ok] obtain c where c:
    "send_packets ?ps (NewCodec ?w []) = Some (None, c)"
    "\<And>chunks w'. list_all (\<lambda>k. snd k = None) chunks \<Longrightarrow>
       concat (map fst chunks) = w_sink (e_writer (c_encoder c)) \<Longrightarrow>
       \<exists>c'. recv_packets ?ps (NewCodec w' chunks) = Some (Inr ?ps, c')" by auto
  let ?k = "map (\<lambda>b. ([b], None)) (w_sink (e_writer (c_encoder c))) :: reader"
  have "list_all (\<lambda>k. snd k = None) ?k" "concat (map fst ?k) = w_sink (e_writer (c_encoder c))"
    by (simp_all add: list_all_iff comp_def)
  with c show ?thesis by blast
qed

text \<open>
  (C33) \<^verbatim>\<open>Length()\<close> is exact for every packet value, representable or not: after a \<^verbatim>\<open>WritePacket\<close> that
  reports no error the encoder has written exactly the announced number of body bytes, so the check of
  the next \<^verbatim>\<open>WritePacket\<close> (\<^verbatim>\<open>ErrWrongNumberOfBytes\<close>) cannot fail because of it.
\<close>

theorem WritePacket_exact:
  assumes "enc_inv (c_encoder c)"
    and "codec_WritePacket (packet_Type p) (packet_Length p) (packet_WriteTo p) c = Some (None, c')"
  shows "e_packetPos (c_encoder c') = e_packetLength (c_encoder c') \<and> enc_inv (c_encoder c') \<and>
    (\<exists>body. go_len body = packet_Length p \<and>
       enc_out (c_encoder c') = enc_out (c_encoder c) @ header (packet_Type p) (packet_Length p) @ body)"
proof -
  from packet_law_all [of p] obtain bs where bs: "emits (packet_WriteTo p) bs" "packet_Length p = go_len bs"
    unfolding packet_law_def by blast
  from assms(2) have at: "e_packetPos (c_encoder c) = e_packetLength (c_encoder c)"
    by (auto simp: codec_WritePacket_def enc_seq_def enc_Next_def split: if_splits Option.bind_splits option.splits)
  from Next_ok [OF assms(1) at, of "packet_Type p" "packet_Length p"] assms(2) obtain e1 where n:
    "enc_Next (packet_Type p) (packet_Length p) (c_encoder c) = Some (None, e1)" "enc_inv e1"
    "enc_out e1 = enc_out (c_encoder c) @ header (packet_Type p) (packet_Length p)"
    "e_packetLength e1 = packet_Length p" "e_packetPos e1 = 0"
    by (auto simp: codec_WritePacket_def enc_seq_def split: option.splits)
  from emits_rawE [OF bs(1) n(2)] obtain r e2 where w: "packet_WriteTo p e1 = Some (r, e2)" "enc_inv e2"
    "r = None \<Longrightarrow> enc_out e2 = enc_out e1 @ bs" "r = None \<Longrightarrow> e_packetPos e2 = e_packetPos e1 + go_len bs"
    "r = None \<Longrightarrow> e_packetLength e2 = e_packetLength e1" by metis
  from assms(2) n(1) w(1) have "r = None" "c' = c\<lparr>c_encoder := e2\<rparr>"
    by (auto simp: codec_WritePacket_def enc_seq_def)
  with n bs w show ?thesis by auto
qed

theorem WritePacket_exact_witness:
  "\<exists>c'. codec_WritePacket (packet_Type (PQuery ''SELECT 1'')) (packet_Length (PQuery ''SELECT 1''))
      (packet_WriteTo (PQuery ''SELECT 1'')) (NewCodec \<lparr>w_sink = [], w_faults = []\<rparr> []) = Some (None, c') \<and>
    e_packetPos (c_encoder c') = e_packetLength (c_encoder c')"
proof -
  let ?c = "NewCodec \<lparr>w_sink = [], w_faults = []\<rparr> []"
  from packet_law_all [of "PQuery ''SELECT 1''"] obtain bs where bs:
    "emits (packet_WriteTo (PQuery ''SELECT 1'')) bs" "packet_Length (PQuery ''SELECT 1'') = go_len bs"
    unfolding packet_law_def by blast
  from fed.write_one [OF bs, of ?c] obtain e' where
    "codec_WritePacket (packet_Type (PQuery ''SELECT 1'')) (packet_Length (PQuery ''SELECT 1''))
      (packet_WriteTo (PQuery ''SELECT 1'')) ?c = Some (None, ?c\<lparr>c_encoder := e'\<rparr>)"
    by (auto simp: no_faults_def)
  with WritePacket_exact [of ?c "PQuery ''SELECT 1''" "?c\<lparr>c_encoder := e'\<rparr>"] show ?thesis by auto
qed

text \<open>
  Forwarding is transparent: a packet that is read from one codec and written to another without
  being decoded (\<^verbatim>\<open>PendingPacket\<close>) arrives there with the same header and the same body, and the reading
  side is left exactly behind it, for every chunking of the input and every fill level of the two buffers.
\<close>

theorem forward_exact:
  assumes "dec_inv (c_decoder ci)" and "clean (c_decoder ci)"
    and "d_packetPos (c_decoder ci) = d_packetLength (c_decoder ci)"
    and "dec_stream (c_decoder ci) = header typ (go_len body) @ body @ rest"
    and "go_len body + 4 < 2 ^ 32"
    and "enc_inv (c_encoder co)" and "e_packetPos (c_encoder co) = e_packetLength (c_encoder co)"
    and "no_faults (c_encoder co)"
  shows "\<exists>d co' d'. codec_ReadPacket (typ \<noteq> 0) ci = Some (Inr (), ci\<lparr>c_decoder := d\<rparr>) \<and>
    codec_WritePending co d = Some (None, co', d') \<and> dec_stream d' = rest \<and>
    d_packetPos d' = d_packetLength d' \<and>
    enc_out (c_encoder co') = enc_out (c_encoder co) @ header typ (go_len body) @ body \<and>
    e_packetPos (c_encoder co') = e_packetLength (c_encoder co')"
proof -
  have len: "0 \<le> go_len body" by simp
  note h = fed.header_split [OF len assms(5), of "typ"]
  have st: "dec_stream (c_decoder ci) = [] @ header typ (go_len body) @ (body @ rest)" using assms(4) by simp
  from dec_Next_ok [OF assms(1,2) _ st, of "typ \<noteq> 0"] assms(3) h obtain d where d:
    "dec_Next (typ \<noteq> 0) (c_decoder ci) = Some (Inr (), d)" "dec_inv d" "clean d" "dec_stream d = body @ rest"
    "d_packetType d = typ" "d_packetPos d = 0" "d_packetLength d = go_len body" by (auto simp: go_len_def)
  from Next_ok [OF assms(6,7), of "typ" "go_len body"] assms(8) obtain e1 where n:
    "enc_Next typ (go_len body) (c_encoder co) = Some (None, e1)" "enc_inv e1" "no_faults e1"
    "enc_out e1 = enc_out (c_encoder co) @ header typ (go_len body)" "e_packetLength e1 = go_len body"
    "e_packetPos e1 = 0" by auto
  from Pending_WriteTo_ok [OF n(2) d(2)] d n(3) obtain e2 d' bs where p:
    "Pending_WriteTo e1 d = Some (None, e2, d')" "dec_step d bs d'" "d_packetPos d' = go_len bs"
    "d_packetPos d' = go_len body" "enc_out e2 = enc_out e1 @ bs" "e_packetPos e2 = e_packetPos e1 + go_len bs"
    "e_packetLength e2 = e_packetLength e1" by (auto simp: forwarded_def go_len_def)
  have "bs = body" using p(2-4) d(4) by (auto simp: dec_step_def go_len_def append_eq_append_conv)
  with d n p show ?thesis
    by (auto simp: codec_ReadPacket_def codec_WritePending_def dec_step_def)
qed

theorem forward_exact_witness:
  "\<exists>d co' d'. codec_ReadPacket True (NewCodec \<lparr>w_sink = [], w_faults = []\<rparr>
       [([90], None), ([], None), ([0, 0], None), ([0, 5, 73], None)]) =
       Some (Inr (), (NewCodec \<lparr>w_sink = [], w_faults = []\<rparr>
         [([90], None), ([], None), ([0, 0], None), ([0, 5, 73], None)])\<lparr>c_decoder := d\<rparr>) \<and>
     codec_WritePending (NewCodec \<lparr>w_sink = [], w_faults = []\<rparr> []) d = Some (None, co', d') \<and>
     dec_stream d' = [] \<and> enc_out (c_encoder co') = [90, 0, 0, 0, 5, 73]"
  (is "\<exists>d co' d'. codec_ReadPacket True ?ci = _ \<and> codec_WritePending ?co d = _ \<and> _")
proof -
  have h: "header 90 (go_len [73 :: byte]) = [90, 0, 0, 0, 5]" by (simp add: header_def go_len_def be32_def)
  have st: "dec_stream (c_decoder ?ci) = header 90 (go_len [73 :: byte]) @ [73] @ []" by (simp add: h)
  have "\<exists>d co' d'. codec_ReadPacket ((90::byte) \<noteq> 0) ?ci = Some (Inr (), ?ci\<lparr>c_decoder := d\<rparr>) \<and>
    codec_WritePending ?co d = Some (None, co', d') \<and> dec_stream d' = [] \<and>
    d_packetPos d' = d_packetLength d' \<and>
    enc_out (c_encoder co') = enc_out (c_encoder ?co) @ header 90 (go_len [73 :: byte]) @ [73] \<and>
    e_packetPos (c_encoder co') = e_packetLength (c_encoder co')"
    by (rule forward_exact [OF _ _ _ st]) (simp_all add: clean_def no_faults_def go_len_def)
  then show ?thesis by (auto simp: h)
qed

text \<open>
  (C32) Reading a packet returns on every connection that delivers finitely many bytes: for every packet type without a
  nullable byte slice, every state of the buffer and every finite sequence of chunks and errors that ends in \<open>EOF\<close>
  (hostile contents included), \<^verbatim>\<open>ReadFrom\<close> ends with a value or an error and never panics; the decoder stays well-formed.
  On a connection that never stops sending this fails: \<^verbatim>\<open>String\<close> does not look at the length of the packet, see
  \<open>String_leaves_packet\<close> below.
\<close>

theorem ReadFrom_returns:
  assumes "\<not> has_nullable p" and "dec_inv d"
  shows "\<exists>r d'. packet_ReadFrom p d = Some (r, d') \<and> dec_inv d'"
  using totalD [OF packet_ReadFrom_returns [OF assms(1)] assms(2)] by (auto dest: dec_step_inv)

theorem ReadFrom_returns_witness:
  "\<exists>r d'. packet_ReadFrom (PQuery '''') (NewDecoder [([1, 2], None), ([3], Some (IOErr 0))]) = Some (r, d')"
  using ReadFrom_returns [of "PQuery ''''" "NewDecoder [([1, 2], None), ([3], Some (IOErr 0))]"]
  by (auto simp: has_nullable_def)

text \<open>
  A string is read up to its zero byte, wherever that is: a string that the packet does not end goes on in the bytes
  that follow the packet.
\<close>

lemma String_leaves_packet:
  assumes "dec_inv d" "clean d" "no_nul v" "dec_stream d = wire_str v @ rest" "d_packetLength d < d_packetPos d + go_len (wire_str v)"
  shows "\<exists>d'. dec_String d = Some (Inr v, d') \<and> dec_stream d' = rest \<and> d_packetLength d' < d_packetPos d'"
  using String_reads_wire [OF assms(3)] assms(1,2,4,5) by (fastforce simp: reads_if_def dec_step_def)

text \<open>
  A \<^verbatim>\<open>SASLInitialResponse\<close> whose response length is a negative number other than -1 crashes the
  process: \<^verbatim>\<open>make([]uint8, int(n))\<close> panics.  The packet is read before the client is authenticated.
\<close>

theorem SASLInitialResponse_panics:
  assumes "dec_inv d" and "clean d" and "d_packetType d = TypeSASLInitialResponse"
    and "no_nul mech" and "dec_stream d = wire_str mech @ be32 n @ rest" and "sint n < - 1"
  shows "SASLInitialResponse_ReadFrom d = None"
proof -
  from String_reads_wire [OF assms(4)] assms(1,2,5) obtain d1 where s: "dec_String d = Some (Inr mech, d1)"
    "dec_step d (wire_str mech) d1" by (force simp: reads_if_def)
  have d1: "dec_inv d1" "clean d1" "dec_stream d1 = be32 n @ rest"
    using s(2) assms(2,5) by (auto simp: dec_step_def)
  with Uint_reads(7) [of n] obtain d2 where "dec_Int32 d1 = Some (Inr n, d2)" by (force simp: reads_if_def)
  moreover have "n \<noteq> - 1" "sint n < 0" using assms(6) by auto
  ultimately show ?thesis using s(1) assms(3)
    by (simp add: SASLInitialResponse_ReadFrom_def dec_typed_def dec_bind_def dec_nullable_def dec_panic_def)
qed

theorem SASLInitialResponse_panics_witness:
  "SASLInitialResponse_ReadFrom ((NewDecoder [([0, 255, 255, 255, 254], None)])
     \<lparr>d_packetType := TypeSASLInitialResponse\<rparr>) = None"
proof (rule SASLInitialResponse_panics [where mech = "''''" and n = "- 2" and rest = "[]"])
  have "be32 (- 2) = [255, 255, 255, 254]" by code_simp
  then show "dec_stream ((NewDecoder [([0, 255, 255, 255, 254], None)])
      \<lparr>d_packetType := TypeSASLInitialResponse\<rparr>) = wire_str '''' @ be32 (- 2) @ []"
    by (simp add: dec_stream_def buffered_def NewDecoder_def dec_Reset_def wire_str_def bytes_of_def)
qed (simp_all add: dec_inv_def clean_def NewDecoder_def dec_Reset_def no_nul_def)

lemma refill_fresh:
  assumes "length bs \<le> defaultBufferSize"
  shows "\<exists>d. dec_refill (NewDecoder [(bs, err)]) = Some (err, d) \<and> dec_inv d \<and> buffered d = bs \<and>
    d_packetPos d = 0"
proof -
  let ?start = "NewDecoder [(bs, err)]"
  let ?d = "?start\<lparr>d_buffer := bs @ drop (length bs) (d_buffer ?start), d_bufferWrite := go_len bs, d_reader := []\<rparr>"
  have f: "d_bufferWrite ?start = 0" "d_bufferRead ?start = 0" "length (d_buffer ?start) = defaultBufferSize"
    by (simp_all add: NewDecoder_def dec_Reset_def)
  have "dec_refill ?start = Some (err, ?d)"
    using f assms by (simp add: dec_refill_def go_slice_def go_put_def go_len_def)
  moreover have "dec_inv ?d" "buffered ?d = bs"
    using f assms by (simp_all add: dec_inv_def buffered_def go_len_def)
  ultimately show ?thesis by (intro exI [of _ ?d]) simp
qed

text \<open>
  A last packet delivered together with the end of the stream is lost: when the connection returns
  the final bytes and \<^verbatim>\<open>io.EOF\<close> from the same \<^verbatim>\<open>Read\<close> (as \<^verbatim>\<open>crypto/tls\<close> does when a close-notify follows the
  data, and as \<^verbatim>\<open>io.Reader\<close> allows), \<^verbatim>\<open>Next\<close> reports \<^verbatim>\<open>io.ErrUnexpectedEOF\<close> although the whole packet is
  in the buffer.
\<close>

theorem data_with_EOF_lost:
  assumes "5 \<le> length bs" and "length bs \<le> defaultBufferSize"
  shows "\<exists>d. dec_Next True (NewDecoder [(bs, Some EOF)]) = Some (Inl ErrUnexpectedEOF, d) \<and>
    buffered d = drop 5 bs"
proof -
  let ?start = "NewDecoder [(bs, Some EOF)]"
  from refill_fresh [OF assms(2)] obtain d where r: "dec_refill ?start = Some (Some EOF, d)" "dec_inv d"
    "buffered d = bs" by blast
  have z: "d_bufferWrite ?start = 0" "length (d_buffer ?start) = defaultBufferSize"
    by (simp_all add: NewDecoder_def dec_Reset_def)
  have "5 \<le> defaultBufferSize" by (simp add: defaultBufferSize_def)
  then have "dec_read 5 ?start = Some (take 5 bs, Some EOF, dec_consume 5 d)"
    using z r avail [OF r(2)] assms(1) by (simp add: dec_read_def Let_def)
  then have "dec_readFull 5 [] ?start = Some (take 5 bs, Some ErrUnexpectedEOF, dec_consume 5 d)"
    using assms(1) by (subst dec_readFull.simps) (auto simp: Let_def)
  then have "dec_Next True ?start = Some (Inl ErrUnexpectedEOF, dec_consume 5 d)"
    by (simp add: dec_Next_def dec_finish_def)
  with consume_ok(2) [OF r(2), of 5] r(3) assms(1) show ?thesis by simp
qed

theorem data_with_EOF_lost_witness:
  "\<exists>d. dec_Next True (NewDecoder [([90, 0, 0, 0, 5, 73], Some EOF)]) = Some (Inl ErrUnexpectedEOF, d) \<and>
    buffered d = [73]"
  using data_with_EOF_lost [of "[90, 0, 0, 0, 5, 73]"] by (simp add: defaultBufferSize_def)

end
