(* ===== verification/Perror.thy ===== *)
theory Perror
  imports Packets
begin

text \<open>
  The errors that travel on the wire, \<^verbatim>\<open>lib/perror\<close>: an error value with its severity, code, message and extra
  fields, and its conversion from and to an ErrorResponse (\<^verbatim>\<open>MarkiplierResponse\<close> in the code).
\<close>

type_synonym Severity = string
type_synonym Code = string

record ExtraField =
  ef_Type :: byte
  ef_Value :: string

record perror =
  pe_severity :: Severity
  pe_code :: Code
  pe_message :: string
  pe_extra :: "ExtraField list"

definition FATAL :: Severity where "FATAL = ''FATAL''"
definition ERROR :: Severity where "ERROR = ''ERROR''"

definition ProtocolViolation :: Code where "ProtocolViolation = ''08P01''"
definition FeatureNotSupported :: Code where "FeatureNotSupported = ''0A000''"
definition InvalidAuthorizationSpecification :: Code where "InvalidAuthorizationSpecification = ''28000''"
definition InvalidPassword :: Code where "InvalidPassword = ''28P01''"
definition ReadOnlySqlTransaction :: Code where "ReadOnlySqlTransaction = ''25006''"
definition InternalError :: Code where "InternalError = ''XX000''"

definition perror_New :: "Severity \<Rightarrow> Code \<Rightarrow> string \<Rightarrow> ExtraField list \<Rightarrow> perror" where
  "perror_New severity code message extra =
     \<lparr>pe_severity = severity, pe_code = code, pe_message = message, pe_extra = extra\<rparr>"

definition perror_String :: "perror \<Rightarrow> string" where
  "perror_String T = pe_severity T @ '': '' @ pe_message T"

text \<open>One round of the loop of \<^verbatim>\<open>FromPacket\<close> over the fields of the packet.\<close>

definition FromPacket_field :: "MarkiplierResponseField \<Rightarrow> perror \<Rightarrow> perror" where
  "FromPacket_field field e =
     (let code = MarkiplierResponseField_Code field; v = MarkiplierResponseField_Value field in
      if code = type_code CHR ''S'' then e\<lparr>pe_severity := v\<rparr>
      else if code = type_code CHR ''C'' then e\<lparr>pe_code := v\<rparr>
      else if code = type_code CHR ''M'' then e\<lparr>pe_message := v\<rparr>
      else e\<lparr>pe_extra := pe_extra e @ [\<lparr>ef_Type = code, ef_Value = v\<rparr>]\<rparr>)"

definition FromPacket :: "MarkiplierResponse \<Rightarrow> perror" where
  "FromPacket packet = fold FromPacket_field packet (perror_New [] [] [] [])"

definition ToPacket :: "perror \<Rightarrow> MarkiplierResponse" where
  "ToPacket e =
     [\<lparr>MarkiplierResponseField_Code = type_code CHR ''S'', MarkiplierResponseField_Value = pe_severity e\<rparr>,
      \<lparr>MarkiplierResponseField_Code = type_code CHR ''C'', MarkiplierResponseField_Value = pe_code e\<rparr>,
      \<lparr>MarkiplierResponseField_Code = type_code CHR ''M'', MarkiplierResponseField_Value = pe_message e\<rparr>] @
     map (\<lambda>f. \<lparr>MarkiplierResponseField_Code = ef_Type f, MarkiplierResponseField_Value = ef_Value f\<rparr>) (pe_extra e)"

text \<open>The types of the extra fields are not those of the three standard ones.\<close>

definition standard_fields :: "byte set" where
  "standard_fields = type_code ` {CHR ''S'', CHR ''C'', CHR ''M''}"

definition perror_ok :: "perror \<Rightarrow> bool" where
  "perror_ok e \<longleftrightarrow> (\<forall>f\<in>set (pe_extra e). ef_Type f \<notin> standard_fields)"

lemma FromPacket_extra:
  assumes "\<forall>f\<in>set fs. ef_Type f \<notin> standard_fields"
  shows "fold FromPacket_field (map (\<lambda>f. \<lparr>MarkiplierResponseField_Code = ef_Type f, MarkiplierResponseField_Value = ef_Value f\<rparr>) fs) e =
    e\<lparr>pe_extra := pe_extra e @ fs\<rparr>"
  using assms
proof (induction fs arbitrary: e)
  case (Cons f fs)
  have "FromPacket_field \<lparr>MarkiplierResponseField_Code = ef_Type f, MarkiplierResponseField_Value = ef_Value f\<rparr> e =
    e\<lparr>pe_extra := pe_extra e @ [f]\<rparr>"
    using Cons.prems by (auto simp: FromPacket_field_def standard_fields_def Let_def)
  with Cons show ?case by simp
qed simp

lemma type_codes_SCM [simp]:
  "type_code CHR ''C'' \<noteq> type_code CHR ''S''" "type_code CHR ''M'' \<noteq> type_code CHR ''S''"
  "type_code CHR ''M'' \<noteq> type_code CHR ''C''"
  by (simp_all add: type_code_def)

text \<open>
  An error written as an ErrorResponse is read back unchanged by the code that reads errors, as long as its
  extra fields do not use the letters of severity, code and message.
\<close>

theorem perror_roundtrip:
  assumes "perror_ok e"
  shows "FromPacket (ToPacket e) = e"
proof -
  have "FromPacket (ToPacket e) =
    fold FromPacket_field (map (\<lambda>f. \<lparr>MarkiplierResponseField_Code = ef_Type f, MarkiplierResponseField_Value = ef_Value f\<rparr>) (pe_extra e))
      (perror_New (pe_severity e) (pe_code e) (pe_message e) [])"
    by (simp add: FromPacket_def ToPacket_def FromPacket_field_def perror_New_def)
  also have "\<dots> = e"
    using assms by (subst FromPacket_extra) (simp_all add: perror_ok_def perror_New_def)
  finally show ?thesis .
qed

theorem perror_roundtrip_witness:
  "let e = perror_New FATAL ProtocolViolation ''bad'' [\<lparr>ef_Type = type_code CHR ''H'', ef_Value = ''hint''\<rparr>] in
   perror_ok e \<and> FromPacket (ToPacket e) = e"
proof -
  let ?e = "perror_New FATAL ProtocolViolation ''bad'' [\<lparr>ef_Type = type_code CHR ''H'', ef_Value = ''hint''\<rparr>]"
  have "perror_ok ?e"
    by (simp add: perror_ok_def perror_New_def standard_fields_def type_code_def)
  with perror_roundtrip [OF this] show ?thesis by (simp add: Let_def)
qed

end
