(* ===== verification/Fed_Message.thy ===== *)
theory Fed_Message
  imports Packet_Transport Perror
begin

text \<open>
  The packets as the layers above the codec see them (\<^verbatim>\<open>lib/fed/packet.go\<close>): a \<^verbatim>\<open>fed.Packet\<close> is a concrete
  packet or a \<^verbatim>\<open>PendingPacket\<close> still in the decoder.  Both are represented by the packet they decode to
  in their direction (the round trip of \<^verbatim>\<open>Fed_Transport\<close>), a pending packet whose body does not decode by
  its type alone: \<open>Bad\<close> when the reader returns an error, \<open>BadLength\<close> when the body holds a nullable slice of a
  negative length other than -1, on which the reader panics in \<^verbatim>\<open>make\<close> (\<open>dec_nullable\<close> of \<^verbatim>\<open>Packet_Combinators\<close>).  Of
  the packets decoded at this layer only \<^verbatim>\<open>Bind\<close> has such slices.  A panic is \<^term>\<open>None\<close>; \<^verbatim>\<open>ToConcrete\<close> of a
  concrete packet of another Go type is one, too.
\<close>

datatype fed_error =
    EFed go_error | EUnexpectedPacket byte | EExpectedIdle | EUnexpectedAuthenticationResponse | ErrFailed
  | ErrMethodNotSupported | ErrSASLMechanismNotSupported | ESSLAlreadyEnabled | ErrReadOnly | ErrNew string | EPerror perror

datatype msg = Msg packet | Bad byte | BadLength byte

fun msg_Type :: "msg \<Rightarrow> byte" where
  "msg_Type (Msg p) = packet_Type p"
| "msg_Type (Bad t) = t"
| "msg_Type (BadLength t) = t"

type_synonym 'a outcome = "(fed_error + 'a) option"

text \<open>
  Errors: those of the codec, the sentinel errors of the packages above it, \<^verbatim>\<open>errors.New\<close> with its text, and
  the errors of \<^verbatim>\<open>lib/perror\<close>.  \<^verbatim>\<open>ToConcrete\<close>, for the packet types that this layer decodes.\<close>

fun to_Close :: "msg \<Rightarrow> Close outcome" where
  "to_Close (Msg (PClose p)) = Some (Inr p)"
| "to_Close (Bad t) = Some (Inl (EFed ErrInvalidFormat))"
| "to_Close _ = None"

fun to_Parse :: "msg \<Rightarrow> Parse outcome" where
  "to_Parse (Msg (PParse p)) = Some (Inr p)"
| "to_Parse (Bad t) = Some (Inl (EFed ErrInvalidFormat))"
| "to_Parse _ = None"

fun to_Bind :: "msg \<Rightarrow> Bind outcome" where
  "to_Bind (Msg (PBind p)) = Some (Inr p)"
| "to_Bind (Bad t) = Some (Inl (EFed ErrInvalidFormat))"
| "to_Bind _ = None"

fun to_CommandComplete :: "msg \<Rightarrow> CommandComplete outcome" where
  "to_CommandComplete (Msg (PCommandComplete p)) = Some (Inr p)"
| "to_CommandComplete (Bad t) = Some (Inl (EFed ErrInvalidFormat))"
| "to_CommandComplete _ = None"

fun to_ReadyForQuery :: "msg \<Rightarrow> ReadyForQuery outcome" where
  "to_ReadyForQuery (Msg (PReadyForQuery p)) = Some (Inr p)"
| "to_ReadyForQuery (Bad t) = Some (Inl (EFed ErrInvalidFormat))"
| "to_ReadyForQuery _ = None"

fun to_ParameterStatus :: "msg \<Rightarrow> ParameterStatus outcome" where
  "to_ParameterStatus (Msg (PParameterStatus p)) = Some (Inr p)"
| "to_ParameterStatus (Bad t) = Some (Inl (EFed ErrInvalidFormat))"
| "to_ParameterStatus _ = None"

fun to_MarkiplierResponse :: "msg \<Rightarrow> MarkiplierResponse outcome" where
  "to_MarkiplierResponse (Msg (PMarkiplierResponse p)) = Some (Inr p)"
| "to_MarkiplierResponse (Bad t) = Some (Inl (EFed ErrInvalidFormat))"
| "to_MarkiplierResponse _ = None"

text \<open>\<^verbatim>\<open>Error()\<close>; the texts of the operating system's errors are a parameter.\<close>

primrec go_error_text :: "(nat \<Rightarrow> string) \<Rightarrow> go_error \<Rightarrow> string" where
  "go_error_text os EOF = ''EOF''"
| "go_error_text os ErrUnexpectedEOF = ''unexpected EOF''"
| "go_error_text os ErrWrongNumberOfBytes = ''wrong number of bytes written''"
| "go_error_text os ErrOverranReadBuffer = ''overran read buffer''"
| "go_error_text os ErrUnexpectedPacket = ''unexpected packet''"
| "go_error_text os ErrInvalidFormat = ''invalid packet format''"
| "go_error_text os (IOErr n) = os n"

text \<open>\<^verbatim>\<open>%c\<close> of a byte: the UTF-8 encoding of the rune.\<close>

definition rune_utf8 :: "byte \<Rightarrow> string" where
  "rune_utf8 t =
     (let n = unat t in
      if n < 128 then [char_of n] else [char_of (192 + n div 64), char_of (128 + n mod 64)])"

primrec err_text :: "(nat \<Rightarrow> string) \<Rightarrow> fed_error \<Rightarrow> string" where
  "err_text os (EFed e) = go_error_text os e"
| "err_text os (EUnexpectedPacket t) = ''unexpected packet: '' @ rune_utf8 t"
| "err_text os EExpectedIdle = ''expected server to return ReadyForQuery(IDLE)''"
| "err_text os EUnexpectedAuthenticationResponse = ''unexpected authentication response''"
| "err_text os ErrFailed = ''auth failed''"
| "err_text os ErrSASLMechanismNotSupported = ''SASL mechanism not supported''"
| "err_text os ErrMethodNotSupported = ''auth method not supported''"
| "err_text os ESSLAlreadyEnabled = ''SSL is already enabled''"
| "err_text os ErrReadOnly = ''read only txn''"
| "err_text os (ErrNew s) = s"
| "err_text os (EPerror e) = perror_String e"

definition perror_Wrap :: "(nat \<Rightarrow> string) \<Rightarrow> fed_error \<Rightarrow> perror" where
  "perror_Wrap os err =
     (case err of EPerror e \<Rightarrow> e | _ \<Rightarrow> perror_New FATAL InternalError (err_text os err) [])"

end
