(* ===== verification/Ring_Buffer.thy ===== *)
theory Ring_Buffer
  imports Pggat_Prelude
begin

text \<open>
  The growable ring buffer of \<^verbatim>\<open>lib/util/ring/ring.go\<close> and the double-ended queue interface its
  clients (the LIFO pooler's waiter queue, the three pending queues of the extended query
  middleware) rely on.  The state is the Go struct: the backing array, \<^verbatim>\<open>head\<close>, \<^verbatim>\<open>tail\<close> and
  \<^verbatim>\<open>length\<close> as integers, so that the comparisons with \<^verbatim>\<open>-1\<close> are the code's.  Every operation that
  can panic returns an option.  The interface is the locale \<open>deque\<close>; the ring implements it.
\<close>

section \<open>The state and its operations\<close>

record 'a ring =
  r_buf :: "'a list"
  r_head :: int
  r_tail :: int
  r_length :: int

text \<open>The zero value of the struct, the empty ring every client starts from.\<close>

definition ring_zero :: "'a ring" where
  "ring_zero = \<lparr>r_buf = [], r_head = 0, r_tail = 0, r_length = 0\<rparr>"

text \<open>The zero value \<^verbatim>\<open>*new(T)\<close> of the element type is the argument \<open>z\<close>.\<close>

definition MakeRing :: "'a \<Rightarrow> int \<Rightarrow> int \<Rightarrow> 'a ring option" where
  "MakeRing z len capacity =
     (if len > capacity then None
      else do {
        b \<leftarrow> go_make z capacity;
        Some \<lparr>r_buf = b, r_head = 0, r_tail = len, r_length = len\<rparr>
      })"

definition grow :: "'a \<Rightarrow> 'a ring \<Rightarrow> 'a ring option" where
  "grow z r = do {
     let size = (if go_len (r_buf r) * 2 = 0 then 2 else go_len (r_buf r) * 2);
     b0 \<leftarrow> go_make z size;
     front \<leftarrow> go_slice (r_buf r) (r_head r) (go_len (r_buf r));
     back \<leftarrow> go_slice (r_buf r) 0 (r_head r);
     let b1 = go_copy b0 front;
     let b2 = take (length front) b1 @ go_copy (drop (length front) b1) back;
     Some (r\<lparr>r_head := 0, r_tail := r_length r, r_buf := b2\<rparr>)
   }"

definition incHead :: "'a ring \<Rightarrow> 'a ring option" where
  "incHead r =
     (if r_length r = 0 then None
      else let r = r\<lparr>r_length := r_length r - 1\<rparr>;
               r = r\<lparr>r_head := r_head r + 1\<rparr>
           in Some (if r_head r = go_len (r_buf r) then r\<lparr>r_head := 0\<rparr> else r))"

definition decHead :: "'a \<Rightarrow> 'a ring \<Rightarrow> 'a ring option" where
  "decHead z r = do {
     r \<leftarrow> (if r_length r = go_len (r_buf r) then grow z r else Some r);
     let r = r\<lparr>r_length := r_length r + 1\<rparr>;
     let r = r\<lparr>r_head := r_head r - 1\<rparr>;
     Some (if r_head r = -1 then r\<lparr>r_head := go_len (r_buf r) - 1\<rparr> else r)
   }"

definition incTail :: "'a \<Rightarrow> 'a ring \<Rightarrow> 'a ring option" where
  "incTail z r = do {
     r \<leftarrow> (if r_length r = go_len (r_buf r) then grow z r else Some r);
     let r = r\<lparr>r_length := r_length r + 1\<rparr>;
     let r = r\<lparr>r_tail := r_tail r + 1\<rparr>;
     Some (if r_tail r = go_len (r_buf r) then r\<lparr>r_tail := 0\<rparr> else r)
   }"

definition decTail :: "'a ring \<Rightarrow> 'a ring option" where
  "decTail r =
     (if r_length r = 0 then None
      else let r = r\<lparr>r_length := r_length r - 1\<rparr>;
               r = r\<lparr>r_tail := r_tail r - 1\<rparr>
           in Some (if r_tail r = -1 then r\<lparr>r_tail := go_len (r_buf r) - 1\<rparr> else r))"

definition tailSub1 :: "'a ring \<Rightarrow> int" where
  "tailSub1 r = (let t = r_tail r - 1 in if t = -1 then go_len (r_buf r) - 1 else t)"

text \<open>The result \<^verbatim>\<open>(T, bool)\<close> is an option: \<^term>\<open>None\<close> for \<^verbatim>\<open>(*new(T), false)\<close>.\<close>

definition PopFront :: "'a \<Rightarrow> 'a ring \<Rightarrow> ('a option \<times> 'a ring) option" where
  "PopFront z r =
     (if r_length r = 0 then Some (None, r)
      else do {
        front \<leftarrow> go_index (r_buf r) (r_head r);
        b \<leftarrow> go_assign (r_buf r) (r_head r) z;
        r \<leftarrow> incHead (r\<lparr>r_buf := b\<rparr>);
        Some (Some front, r)
      })"

definition PopBack :: "'a \<Rightarrow> 'a ring \<Rightarrow> ('a option \<times> 'a ring) option" where
  "PopBack z r =
     (if r_length r = 0 then Some (None, r)
      else do {
        r \<leftarrow> decTail r;
        back \<leftarrow> go_index (r_buf r) (r_tail r);
        b \<leftarrow> go_assign (r_buf r) (r_tail r) z;
        Some (Some back, r\<lparr>r_buf := b\<rparr>)
      })"

definition Ring_Clear :: "'a ring \<Rightarrow> 'a ring" where
  "Ring_Clear r = r\<lparr>r_head := 0, r_tail := 0, r_length := 0\<rparr>"

definition PushFront :: "'a \<Rightarrow> 'a \<Rightarrow> 'a ring \<Rightarrow> 'a ring option" where
  "PushFront z v r = do {
     r \<leftarrow> decHead z r;
     b \<leftarrow> go_assign (r_buf r) (r_head r) v;
     Some (r\<lparr>r_buf := b\<rparr>)
   }"

definition PushBack :: "'a \<Rightarrow> 'a \<Rightarrow> 'a ring \<Rightarrow> 'a ring option" where
  "PushBack z v r = do {
     r \<leftarrow> incTail z r;
     b \<leftarrow> go_assign (r_buf r) (tailSub1 r) v;
     Some (r\<lparr>r_buf := b\<rparr>)
   }"

definition Ring_Length :: "'a ring \<Rightarrow> int" where
  "Ring_Length r = r_length r"

definition Ring_Capacity :: "'a ring \<Rightarrow> int" where
  "Ring_Capacity r = go_len (r_buf r)"

definition Ring_Get :: "'a ring \<Rightarrow> int \<Rightarrow> 'a option" where
  "Ring_Get r n =
     (if n \<ge> r_length r then None
      else let ptr = r_head r + n
           in go_index (r_buf r) (if ptr \<ge> go_len (r_buf r) then ptr - go_len (r_buf r) else ptr))"

section \<open>Invariant and abstraction\<close>

text \<open>
  \<open>tail\<close> is always the slot after the last element, modulo the capacity; on an empty backing array
  all three counters are 0 (\<open>x mod 0 = x\<close>).
\<close>

definition ring_inv :: "'a ring \<Rightarrow> bool" where
  "ring_inv r \<longleftrightarrow>
     0 \<le> r_length r \<and> r_length r \<le> go_len (r_buf r) \<and>
     0 \<le> r_head r \<and> r_head r < max 1 (go_len (r_buf r)) \<and>
     r_tail r = (r_head r + r_length r) mod go_len (r_buf r)"

text \<open>The elements from the front to the back.\<close>

definition ring_list :: "'a ring \<Rightarrow> 'a list" where
  "ring_list r =
     map (\<lambda>i. r_buf r ! ((nat (r_head r) + i) mod length (r_buf r))) [0..<nat (r_length r)]"

lemma length_ring_list [simp]: "length (ring_list r) = nat (r_length r)"
  by (simp add: ring_list_def)

text \<open>A ring in normal form: contents, head and length as natural numbers.\<close>

definition mk_ring :: "'a list \<Rightarrow> nat \<Rightarrow> nat \<Rightarrow> 'a ring" where
  "mk_ring b h n =
     \<lparr>r_buf = b, r_head = int h, r_tail = int ((h + n) mod length b), r_length = int n\<rparr>"

lemma mk_ring_sel [simp]:
  "r_buf (mk_ring b h n) = b" "r_head (mk_ring b h n) = int h"
  "r_tail (mk_ring b h n) = int ((h + n) mod length b)" "r_length (mk_ring b h n) = int n"
  by (simp_all add: mk_ring_def)

lemma mk_ring_r_buf [simp]:
  "length b' = length b \<Longrightarrow> (mk_ring b h n)\<lparr>r_buf := b'\<rparr> = mk_ring b' h n"
  by (simp add: mk_ring_def)

lemma ring_inv_cases:
  assumes "ring_inv r"
  obtains b h n where "r = mk_ring b h n" "n \<le> length b" "h < max 1 (length b)"
proof -
  let ?h = "nat (r_head r)" and ?n = "nat (r_length r)"
  from assms have "r = mk_ring (r_buf r) ?h ?n"
    by (cases r) (simp add: ring_inv_def mk_ring_def go_len_def zmod_int)
  moreover from assms have "?n \<le> length (r_buf r)" "?h < max 1 (length (r_buf r))"
    by (auto simp: ring_inv_def go_len_def)
  ultimately show thesis by (rule that)
qed

lemma ring_inv_mk_ring: "n \<le> length b \<Longrightarrow> h < max 1 (length b) \<Longrightarrow> ring_inv (mk_ring b h n)"
  by (auto simp: ring_inv_def go_len_def zmod_int)

lemma ring_list_mk_ring:
  "ring_list (mk_ring b h n) = map (\<lambda>i. b ! ((h + i) mod length b)) [0..<n]"
  by (simp add: ring_list_def)

lemma ring_list_full:
  assumes "h \<le> length b"
  shows "map (\<lambda>i. b ! ((h + i) mod length b)) [0..<length b] = drop h b @ take h b"
  using assms by (intro nth_equalityI) (auto simp: nth_append mod_if add.commute)

section \<open>What each operation does\<close>

lemma grow_mk_ring:
  assumes "h < max 1 (length b)" and "n = length b"
  shows "\<exists>b'. grow z (mk_ring b h n) = Some (mk_ring b' 0 n) \<and> n < length b' \<and>
    ring_list (mk_ring b' 0 n) = ring_list (mk_ring b h n)"
proof -
  let ?sz = "if length b = 0 then 2 else length b * 2"
  let ?b' = "drop h b @ take h b @ replicate (?sz - length b) z"
  from assms(1) have h: "h \<le> length b" by (cases b) auto
  have "grow z (mk_ring b h n) = Some (mk_ring ?b' 0 n)"
    using h assms(2)
    by (auto simp: grow_def go_make_def go_slice_def go_copy_def go_len_def mk_ring_def Let_def
        nat_mult_distrib)
  moreover have "ring_list (mk_ring ?b' 0 n) = drop h b @ take h b"
    using h assms(2) by (intro nth_equalityI) (auto simp: ring_list_mk_ring nth_append)
  ultimately show ?thesis
    using h assms(2) by (intro exI [of _ ?b']) (auto simp: ring_list_mk_ring ring_list_full)
qed

text \<open>Before an insertion the ring has a free slot, whether or not it had to grow.\<close>

lemma grow_if_full:
  assumes "ring_inv r"
  obtains b h n where
    "(if r_length r = go_len (r_buf r) then grow z r else Some r) = Some (mk_ring b h n)"
    "n < length b" "h < length b" "ring_list (mk_ring b h n) = ring_list r"
proof -
  from assms obtain b h n where r: "r = mk_ring b h n" "n \<le> length b" "h < max 1 (length b)"
    by (rule ring_inv_cases)
  show thesis
  proof (cases "n = length b")
    case True
    with grow_mk_ring [OF r(3), of n z] r that show thesis by (fastforce simp: go_len_def)
  next
    case False
    with r that show thesis by (auto simp: go_len_def)
  qed
qed

lemma PushBack_ring:
  assumes "ring_inv r"
  shows "\<exists>r'. PushBack z v r = Some r' \<and> ring_inv r' \<and> ring_list r' = ring_list r @ [v]"
proof -
  from assms obtain b h n where g:
    "(if r_length r = go_len (r_buf r) then grow z r else Some r) = Some (mk_ring b h n)"
    "n < length b" "h < length b" "ring_list (mk_ring b h n) = ring_list r"
    by (rule grow_if_full)
  let ?t = "(h + n) mod length b"
  have tl: "?t < length b" using g(2) by (intro mod_less_divisor) linarith
  have t: "(if ?t + 1 = length b then 0 else ?t + 1) = (h + Suc n) mod length b"
    using g(2) by (simp add: mod_Suc)
  have it: "incTail z r = Some (mk_ring b h (Suc n))"
    using g(1) t by (auto simp: incTail_def mk_ring_def go_len_def Let_def)
  have sub: "tailSub1 (mk_ring b h (Suc n)) = int ?t"
    using g(2) by (auto simp: tailSub1_def Let_def go_len_def mod_Suc)
  have "PushBack z v r = Some (mk_ring (b[?t := v]) h (Suc n))"
    using tl by (simp add: PushBack_def it sub go_assign_def go_len_def)
  moreover have "ring_list (mk_ring (b[?t := v]) h (Suc n)) = ring_list r @ [v]"
    using g(2) tl mod_add_neq [of _ n "length b" h]
    by (auto simp: ring_list_mk_ring g(4) [symmetric] intro!: nth_list_update_neq [OF not_sym])
  ultimately show ?thesis using g(2,3) by (auto intro!: ring_inv_mk_ring)
qed

lemma PushFront_ring:
  assumes "ring_inv r"
  shows "\<exists>r'. PushFront z v r = Some r' \<and> ring_inv r' \<and> ring_list r' = v # ring_list r"
proof -
  from assms obtain b h n where g:
    "(if r_length r = go_len (r_buf r) then grow z r else Some r) = Some (mk_ring b h n)"
    "n < length b" "h < length b" "ring_list (mk_ring b h n) = ring_list r"
    by (rule grow_if_full)
  define h' where "h' = (if h = 0 then length b - 1 else h - 1)"
  have h': "h' < length b" using g(3) by (auto simp: h'_def)
  have "h' + Suc i = (if h = 0 then length b + i else h + i)" for i
    using g(3) by (auto simp: h'_def)
  then have shift: "(h' + Suc i) mod length b = (h + i) mod length b" for i
    by simp
  have "decHead z r = Some (mk_ring b h' (Suc n))"
    using g(1,3) shift [of n]
    by (auto simp: decHead_def mk_ring_def go_len_def Let_def h'_def)
  then have "PushFront z v r = Some (mk_ring (b[h' := v]) h' (Suc n))"
    using h' by (simp add: PushFront_def go_assign_def go_len_def)
  moreover have "ring_list (mk_ring (b[h' := v]) h' (Suc n)) = v # ring_list r"
  proof -
    have ne: "h' \<noteq> (h + i) mod length b" if "i < n" for i
      using mod_add_neq [of 0 "Suc i" "length b" h'] that g(2) h' shift [of i] by auto
    then have "b[h' := v] ! ((h + i) mod length b) = b ! ((h + i) mod length b)" if "i < n" for i
      using that by (auto intro: nth_list_update_neq)
    then show ?thesis
      using h' shift
      by (simp add: ring_list_mk_ring g(4) [symmetric] map_upt_Suc del: upt_Suc)
  qed
  ultimately show ?thesis using g(2) h' by (auto intro!: ring_inv_mk_ring)
qed

lemma PopFront_ring:
  assumes "ring_inv r" and "ring_list r = x # xs"
  shows "\<exists>r'. PopFront z r = Some (Some x, r') \<and> ring_inv r' \<and> ring_list r' = xs"
proof -
  from assms(1) obtain b h n where r: "r = mk_ring b h n" "n \<le> length b" "h < max 1 (length b)"
    by (rule ring_inv_cases)
  from assms(2) obtain m where n: "n = Suc m"
    unfolding r(1) ring_list_mk_ring by (cases n) auto
  with r have h: "h < length b" by auto
  define h' where "h' = (if Suc h = length b then 0 else Suc h)"
  have h': "h' < length b" "h' = Suc h mod length b" using h by (auto simp: h'_def mod_Suc)
  then have shift: "(h' + i) mod length b = (h + Suc i) mod length b" for i
    by (simp add: mod_add_left_eq)
  have "PopFront z r = Some (Some (b ! h), mk_ring (b[h := z]) h' m)"
    using h shift [of m]
    by (auto simp: PopFront_def r n go_index_def go_assign_def go_len_def incHead_def Let_def
        mk_ring_def h'_def)
  moreover have "b[h := z] ! ((h + Suc i) mod length b) = b ! ((h + Suc i) mod length b)"
    if "i < m" for i
    using that r(2) h mod_add_neq [of 0 "Suc i" "length b" h] by (simp add: n)
  then have "ring_list (mk_ring (b[h := z]) h' m) = xs \<and> b ! h = x"
    using assms(2) h shift by (simp add: r n ring_list_mk_ring map_upt_Suc del: upt_Suc) auto
  ultimately show ?thesis using r(2) h' by (auto simp: n intro!: ring_inv_mk_ring)
qed

lemma PopBack_ring:
  assumes "ring_inv r" and "ring_list r = xs @ [x]"
  shows "\<exists>r'. PopBack z r = Some (Some x, r') \<and> ring_inv r' \<and> ring_list r' = xs"
proof -
  from assms(1) obtain b h n where r: "r = mk_ring b h n" "n \<le> length b" "h < max 1 (length b)"
    by (rule ring_inv_cases)
  from assms(2) obtain m where n: "n = Suc m"
    unfolding r(1) ring_list_mk_ring by (cases n) auto
  with r have h: "h < length b" by auto
  let ?t = "(h + m) mod length b"
  have t: "?t < length b" using h by (intro mod_less_divisor) linarith
  have "decTail r = Some (mk_ring b h m)"
    using h by (auto simp: decTail_def r n mk_ring_def Let_def go_len_def mod_Suc)
  then have "PopBack z r = Some (Some (b ! ?t), mk_ring (b[?t := z]) h m)"
    using t by (simp add: PopBack_def, simp add: r n go_index_def go_assign_def go_len_def)
  moreover have "b[?t := z] ! ((h + i) mod length b) = b ! ((h + i) mod length b)" if "i < m" for i
    using that r(2) mod_add_neq [of i m "length b" h] by (simp add: n)
  then have "ring_list (mk_ring (b[?t := z]) h m) = xs \<and> b ! ?t = x"
    using assms(2) by (auto simp: r n ring_list_mk_ring)
  ultimately show ?thesis using r(2) h by (auto simp: n intro!: ring_inv_mk_ring)
qed

lemma Pop_empty:
  "ring_inv r \<Longrightarrow> ring_list r = [] \<Longrightarrow> PopFront z r = Some (None, r)"
  "ring_inv r \<Longrightarrow> ring_list r = [] \<Longrightarrow> PopBack z r = Some (None, r)"
  by (auto simp: PopFront_def PopBack_def ring_list_def ring_inv_def)

lemma Ring_Get_ring:
  assumes "ring_inv r" and "0 \<le> i" and "i < int (length (ring_list r))"
  shows "Ring_Get r i = Some (ring_list r ! nat i)"
proof -
  from assms(1) obtain b h n where r: "r = mk_ring b h n" "n \<le> length b" "h < max 1 (length b)"
    by (rule ring_inv_cases)
  from assms(2,3) obtain j where j: "i = int j" "j < n"
    by (metis int_eq_iff length_ring_list mk_ring_sel(4) nat_int r(1) of_nat_less_iff)
  with r have "h < length b" "j < length b" by auto
  with j show ?thesis
    by (auto simp: Ring_Get_def r ring_list_mk_ring go_index_def go_len_def Let_def mod_if nat_diff_distrib
        nat_add_distrib)
qed

lemma Ring_Clear_ring: "ring_inv (Ring_Clear r)" "ring_list (Ring_Clear r) = []"
  by (auto simp: ring_inv_def ring_list_def Ring_Clear_def)

lemma ring_zero_ring: "ring_inv ring_zero" "ring_list ring_zero = []"
  by (auto simp: ring_inv_def ring_list_def ring_zero_def go_len_def)

lemma Ring_Length_ring: "ring_inv r \<Longrightarrow> Ring_Length r = int (length (ring_list r))"
  by (simp add: Ring_Length_def ring_inv_def)

section \<open>The queue interface\<close>

text \<open>
  What a client of the ring may rely on.  Every operation succeeds (no panic) on a well-formed
  queue, keeps it well formed, and acts on the abstract list the way its name says.
\<close>

locale deque =
  fixes empty :: 'q
    and push_front :: "'a \<Rightarrow> 'q \<Rightarrow> 'q option"
    and push_back :: "'a \<Rightarrow> 'q \<Rightarrow> 'q option"
    and pop_front :: "'q \<Rightarrow> ('a option \<times> 'q) option"
    and pop_back :: "'q \<Rightarrow> ('a option \<times> 'q) option"
    and size :: "'q \<Rightarrow> int"
    and get :: "'q \<Rightarrow> int \<Rightarrow> 'a option"
    and clear :: "'q \<Rightarrow> 'q"
    and contents :: "'q \<Rightarrow> 'a list"
    and invar :: "'q \<Rightarrow> bool"
  assumes empty: "invar empty" "contents empty = []"
    and push_front: "invar q \<Longrightarrow>
      \<exists>q'. push_front x q = Some q' \<and> invar q' \<and> contents q' = x # contents q"
    and push_back: "invar q \<Longrightarrow>
      \<exists>q'. push_back x q = Some q' \<and> invar q' \<and> contents q' = contents q @ [x]"
    and pop_front: "invar q \<Longrightarrow> contents q = x # xs \<Longrightarrow>
      \<exists>q'. pop_front q = Some (Some x, q') \<and> invar q' \<and> contents q' = xs"
    and pop_back: "invar q \<Longrightarrow> contents q = xs @ [x] \<Longrightarrow>
      \<exists>q'. pop_back q = Some (Some x, q') \<and> invar q' \<and> contents q' = xs"
    and pop_front_empty: "invar q \<Longrightarrow> contents q = [] \<Longrightarrow> pop_front q = Some (None, q)"
    and pop_back_empty: "invar q \<Longrightarrow> contents q = [] \<Longrightarrow> pop_back q = Some (None, q)"
    and size: "invar q \<Longrightarrow> size q = int (length (contents q))"
    and get: "invar q \<Longrightarrow> 0 \<le> i \<Longrightarrow> i < int (length (contents q)) \<Longrightarrow>
      get q i = Some (contents q ! nat i)"
    and clear: "invar (clear q)" "contents (clear q) = []"
begin

text \<open>Derived rules: totality of the pops, and the two-case form used by clients.\<close>

lemma pop_front_cases:
  assumes "invar q"
  obtains (none) "pop_front q = Some (None, q)" "contents q = []"
    | (some) x xs q' where "pop_front q = Some (Some x, q')" "contents q = x # xs" "invar q'"
        "contents q' = xs"
proof (cases "contents q")
  case Nil
  with assms show thesis by (auto intro: none pop_front_empty)
next
  case (Cons x xs)
  with pop_front [OF assms this] show thesis by (auto intro: some)
qed

lemma pop_back_cases:
  assumes "invar q"
  obtains (none) "pop_back q = Some (None, q)" "contents q = []"
    | (some) x xs q' where "pop_back q = Some (Some x, q')" "contents q = xs @ [x]" "invar q'"
        "contents q' = xs"
proof (cases "contents q" rule: rev_cases)
  case Nil
  with assms show thesis by (auto intro: none pop_back_empty)
next
  case (snoc xs x)
  with pop_back [OF assms this] show thesis by (auto intro: some)
qed

lemma push_backE:
  assumes "invar q"
  obtains q' where "push_back x q = Some q'" "invar q'" "contents q' = contents q @ [x]"
  using push_back [OF assms, of x] by blast

lemma push_frontE:
  assumes "invar q"
  obtains q' where "push_front x q = Some q'" "invar q'" "contents q' = x # contents q"
  using push_front [OF assms, of x] by blast

text \<open>Pushing an element and popping from the other end of an empty queue returns it.\<close>

lemma push_back_pop_front:
  assumes "invar q" and "contents q = []" and "push_back x q = Some q'"
  shows "\<exists>q''. pop_front q' = Some (Some x, q'') \<and> contents q'' = []"
  using assms push_backE [OF assms(1), of x] pop_front [of q' x "[]"] by fastforce

end

interpretation rg: deque
  where empty = ring_zero and push_front = "PushFront z" and push_back = "PushBack z"
    and pop_front = "PopFront z" and pop_back = "PopBack z" and size = Ring_Length
    and get = Ring_Get and clear = Ring_Clear and contents = ring_list and invar = ring_inv
  for z :: 'a
  by unfold_locales
    (simp_all add: ring_zero_ring PushFront_ring PushBack_ring PopFront_ring PopBack_ring
      Pop_empty Ring_Length_ring Ring_Get_ring Ring_Clear_ring)

section \<open>Refinement: any run of operations\<close>

text \<open>
  A client performs an arbitrary sequence of operations on a ring.  \<open>ring_step\<close> runs one on the
  concrete buffer, \<open>deque_step\<close> is the specification on lists; both return what the caller sees.
\<close>

datatype 'a ring_op =
    OpPushFront 'a | OpPushBack 'a | OpPopFront | OpPopBack | OpClear | OpLength | OpGet int

datatype 'a ring_out = OutUnit | OutElem "'a option" | OutInt int | OutPanic

fun ring_step :: "'a \<Rightarrow> 'a ring_op \<Rightarrow> 'a ring \<Rightarrow> ('a ring_out \<times> 'a ring) option" where
  "ring_step z (OpPushFront x) r = map_option (\<lambda>r. (OutUnit, r)) (PushFront z x r)"
| "ring_step z (OpPushBack x) r = map_option (\<lambda>r. (OutUnit, r)) (PushBack z x r)"
| "ring_step z OpPopFront r = map_option (\<lambda>(v, r). (OutElem v, r)) (PopFront z r)"
| "ring_step z OpPopBack r = map_option (\<lambda>(v, r). (OutElem v, r)) (PopBack z r)"
| "ring_step z OpClear r = Some (OutUnit, Ring_Clear r)"
| "ring_step z OpLength r = Some (OutInt (Ring_Length r), r)"
| "ring_step z (OpGet i) r = map_option (\<lambda>v. (OutElem (Some v), r)) (Ring_Get r i)"

fun ring_run :: "'a \<Rightarrow> 'a ring_op list \<Rightarrow> 'a ring \<Rightarrow> ('a ring_out list \<times> 'a ring) option" where
  "ring_run z [] r = Some ([], r)"
| "ring_run z (p # ps) r = do {
     (out, r) \<leftarrow> ring_step z p r;
     (outs, r) \<leftarrow> ring_run z ps r;
     Some (out # outs, r)
   }"

fun deque_step :: "'a ring_op \<Rightarrow> 'a list \<Rightarrow> ('a ring_out \<times> 'a list) option" where
  "deque_step (OpPushFront x) xs = Some (OutUnit, x # xs)"
| "deque_step (OpPushBack x) xs = Some (OutUnit, xs @ [x])"
| "deque_step OpPopFront xs = Some (case xs of [] \<Rightarrow> (OutElem None, []) | x # ys \<Rightarrow> (OutElem (Some x), ys))"
| "deque_step OpPopBack xs =
     Some (if xs = [] then (OutElem None, []) else (OutElem (Some (last xs)), butlast xs))"
| "deque_step OpClear xs = Some (OutUnit, [])"
| "deque_step OpLength xs = Some (OutInt (int (length xs)), xs)"
| "deque_step (OpGet i) xs = map_option (\<lambda>v. (OutElem (Some v), xs)) (go_index xs i)"

fun deque_run :: "'a ring_op list \<Rightarrow> 'a list \<Rightarrow> ('a ring_out list \<times> 'a list) option" where
  "deque_run [] xs = Some ([], xs)"
| "deque_run (p # ps) xs = do {
     (out, xs) \<leftarrow> deque_step p xs;
     (outs, xs) \<leftarrow> deque_run ps xs;
     Some (out # outs, xs)
   }"

lemma ring_step_refines:
  assumes "ring_inv r" and "deque_step p (ring_list r) = Some (out, xs)"
  shows "\<exists>r'. ring_step z p r = Some (out, r') \<and> ring_inv r' \<and> ring_list r' = xs"
proof (cases p)
  case (OpPushFront x)
  with rg.push_front [OF assms(1), of z x] assms(2) show ?thesis by auto
next
  case (OpPushBack x)
  with rg.push_back [OF assms(1), of z x] assms(2) show ?thesis by auto
next
  case OpPopFront
  with assms show ?thesis by (cases rule: rg.pop_front_cases [OF assms(1), of z]) auto
next
  case OpPopBack
  with assms show ?thesis by (cases rule: rg.pop_back_cases [OF assms(1), of z]) auto
next
  case OpClear
  with assms(2) show ?thesis by (simp add: rg.clear)
next
  case OpLength
  with assms show ?thesis by (auto simp: rg.size simp del: length_ring_list)
next
  case (OpGet i)
  with assms show ?thesis
    by (auto simp: go_index_def go_len_def rg.get simp del: length_ring_list split: if_splits)
qed

text \<open>
  (C34) The ring buffer refines a double-ended queue: started from the zero ring, every sequence of
  pushes, pops, clears, length queries and in-range reads that the list specification allows runs on
  the buffer without a panic, returns exactly the specified results, and leaves the buffer holding
  exactly the specified list, whatever growing and wrapping around happened on the way.
\<close>

theorem ring_refines_deque:
  assumes "deque_run ps [] = Some (outs, xs)"
  shows "\<exists>r. ring_run z ps ring_zero = Some (outs, r) \<and> ring_inv r \<and> ring_list r = xs"
proof -
  have "\<exists>r'. ring_run z ps r = Some (outs, r') \<and> ring_inv r' \<and> ring_list r' = xs"
    if "ring_inv r" "deque_run ps (ring_list r) = Some (outs, xs)" for r
    using that
  proof (induction ps arbitrary: r outs)
    case Nil
    then show ?case by simp
  next
    case (Cons p ps)
    from Cons.prems(2) obtain out ys outs' where s:
      "deque_step p (ring_list r) = Some (out, ys)" "deque_run ps ys = Some (outs', xs)"
      "outs = out # outs'"
      by (auto simp: Option.bind_eq_Some_conv)
    from ring_step_refines [OF Cons.prems(1) s(1), of z] obtain r1 where r1:
      "ring_step z p r = Some (out, r1)" "ring_inv r1" "ring_list r1 = ys" by blast
    with Cons.IH [of r1 outs'] s show ?case by auto
  qed
  from this [of ring_zero] assms show ?thesis by (simp add: rg.empty)
qed

theorem ring_refines_deque_witness:
  "\<exists>r. ring_run (0::nat) [OpPushBack 1, OpPushFront 2, OpPushBack 3, OpPopFront, OpGet 1] ring_zero
     = Some ([OutUnit, OutUnit, OutUnit, OutElem (Some 2), OutElem (Some 3)], r) \<and>
     ring_inv r \<and> ring_list r = [1, 3]"
  by (rule ring_refines_deque) (simp add: go_index_def go_len_def)

text \<open>
  A ring made full, with \<^verbatim>\<open>MakeRing(n, n)\<close>, breaks: its tail is left one past the end of the
  backing array instead of wrapped to 0, so removing one element from the front and pushing one at
  the back indexes out of range and panics.
\<close>

theorem MakeRing_full_panics:
  assumes "2 \<le> n"
  shows "(do { r \<leftarrow> MakeRing z n n; (_, r) \<leftarrow> PopFront z r; PushBack z v r }) = None"
proof -
  from assms obtain k where "n - 2 = int k" using zero_le_imp_eq_int [of "n - 2"] by auto
  then have n: "n = int (Suc (Suc k))" by simp
  show ?thesis
    by (simp add: n MakeRing_def go_make_def PopFront_def go_index_def go_assign_def go_len_def
        incHead_def PushBack_def incTail_def tailSub1_def Let_def nat_add_distrib)
qed

theorem MakeRing_full_panics_witness:
  "(2::int) \<le> 4 \<and>
   (do { r \<leftarrow> MakeRing (0::nat) 4 4; (_, r) \<leftarrow> PopFront 0 r; PushBack 0 7 r }) = None"
proof -
  have h: "(2::int) \<le> 4" by simp
  with MakeRing_full_panics [OF h, of "0::nat" 7] show ?thesis by simp
qed

end
