(* ===== verification/Eqp_State.thy ===== *)
theory Eqp_State
  imports Fed_Message Ring_Buffer "HOL-Library.AList"
begin

text \<open>
  The extended query middleware of \<^verbatim>\<open>lib/fed/middlewares/eqp/state.go\<close>: it watches the packets of one
  connection and keeps the prepared statements and portals that exist on the other side, together with
  the requests that are not answered yet.  A Go map is an association list; the order of the list is
  the (arbitrary) iteration order.  The rings hold pointers; the zero records stand for nil, which is
  never read back.
\<close>

datatype CloseVariant = CloseVariantPreparedStatement | CloseVariantPortal

record eqp_close =
  ec_Variant :: CloseVariant
  ec_Target :: string

record eqp_state =
  eq_preparedStatements :: "(string \<times> Parse) list"
  eq_portals :: "(string \<times> Bind) list"
  eq_pendingPreparedStatements :: "Parse ring"
  eq_pendingPortals :: "Bind ring"
  eq_pendingCloses :: "eqp_close ring"

definition Parse_nil :: Parse where
  "Parse_nil = \<lparr>Parse_Destination = [], Parse_Query = [], Parse_ParameterDataTypes = []\<rparr>"

definition Bind_nil :: Bind where
  "Bind_nil = \<lparr>Bind_Destination = [], Bind_Source = [], Bind_FormatCodes = [], Bind_Parameters = [],
     Bind_ResultFormatCodes = []\<rparr>"

definition eqp_close_zero :: eqp_close where
  "eqp_close_zero = \<lparr>ec_Variant = CloseVariantPreparedStatement, ec_Target = []\<rparr>"

definition eqp_new :: eqp_state where
  "eqp_new = \<lparr>eq_preparedStatements = [], eq_portals = [], eq_pendingPreparedStatements = ring_zero,
     eq_pendingPortals = ring_zero, eq_pendingCloses = ring_zero\<rparr>"

type_synonym eqp_result = "((fed_error + msg) \<times> eqp_state) option"

section \<open>Requests\<close>

definition eqp_Close :: "msg \<Rightarrow> eqp_state \<Rightarrow> eqp_result" where
  "eqp_Close packet T = do {
     r \<leftarrow> to_Close packet;
     case r of
       Inl err \<Rightarrow> Some (Inl err, T)
     | Inr p \<Rightarrow>
         (let push = (\<lambda>variant. do {
            q \<leftarrow> PushBack eqp_close_zero \<lparr>ec_Variant = variant, ec_Target = Close_Name p\<rparr> (eq_pendingCloses T);
            Some (Inr (Msg (PClose p)), T\<lparr>eq_pendingCloses := q\<rparr>) }) in
          if Close_Which p = type_code CHR ''S'' then push CloseVariantPreparedStatement
          else if Close_Which p = type_code CHR ''P'' then push CloseVariantPortal
          else Some (Inl (EFed ErrInvalidFormat), T))
   }"

definition eqp_Parse :: "msg \<Rightarrow> eqp_state \<Rightarrow> eqp_result" where
  "eqp_Parse packet T = do {
     r \<leftarrow> to_Parse packet;
     case r of
       Inl err \<Rightarrow> Some (Inl err, T)
     | Inr p \<Rightarrow> do {
         q \<leftarrow> PushBack Parse_nil p (eq_pendingPreparedStatements T);
         Some (Inr (Msg (PParse p)), T\<lparr>eq_pendingPreparedStatements := q\<rparr>)
       }
   }"

definition eqp_Bind :: "msg \<Rightarrow> eqp_state \<Rightarrow> eqp_result" where
  "eqp_Bind packet T = do {
     r \<leftarrow> to_Bind packet;
     case r of
       Inl err \<Rightarrow> Some (Inl err, T)
     | Inr p \<Rightarrow> do {
         q \<leftarrow> PushBack Bind_nil p (eq_pendingPortals T);
         Some (Inr (Msg (PBind p)), T\<lparr>eq_pendingPortals := q\<rparr>)
       }
   }"

definition eqp_Query :: "eqp_state \<Rightarrow> eqp_state" where
  "eqp_Query T = T\<lparr>eq_portals := AList.delete [] (eq_portals T),
     eq_preparedStatements := AList.delete [] (eq_preparedStatements T)\<rparr>"

definition eqp_C2S :: "msg \<Rightarrow> eqp_state \<Rightarrow> eqp_result" where
  "eqp_C2S packet T =
     (if msg_Type packet = TypeClose then eqp_Close packet T
      else if msg_Type packet = TypeParse then eqp_Parse packet T
      else if msg_Type packet = TypeBind then eqp_Bind packet T
      else if msg_Type packet = TypeQuery then Some (Inr packet, eqp_Query T)
      else Some (Inr packet, T))"

section \<open>Responses\<close>

definition eqp_CloseComplete :: "eqp_state \<Rightarrow> eqp_state option" where
  "eqp_CloseComplete T = do {
     (c, q) \<leftarrow> PopFront eqp_close_zero (eq_pendingCloses T);
     let T = T\<lparr>eq_pendingCloses := q\<rparr>;
     case c of
       None \<Rightarrow> Some T
     | Some c \<Rightarrow>
         (case ec_Variant c of
            CloseVariantPortal \<Rightarrow> Some (T\<lparr>eq_portals := AList.delete (ec_Target c) (eq_portals T)\<rparr>)
          | CloseVariantPreparedStatement \<Rightarrow>
              Some (T\<lparr>eq_preparedStatements := AList.delete (ec_Target c) (eq_preparedStatements T)\<rparr>))
   }"

definition eqp_ParseComplete :: "eqp_state \<Rightarrow> eqp_state option" where
  "eqp_ParseComplete T = do {
     (p, q) \<leftarrow> PopFront Parse_nil (eq_pendingPreparedStatements T);
     let T = T\<lparr>eq_pendingPreparedStatements := q\<rparr>;
     case p of
       None \<Rightarrow> Some T
     | Some p \<Rightarrow>
         Some (T\<lparr>eq_preparedStatements := AList.update (Parse_Destination p) p (eq_preparedStatements T)\<rparr>)
   }"

definition eqp_BindComplete :: "eqp_state \<Rightarrow> eqp_state option" where
  "eqp_BindComplete T = do {
     (p, q) \<leftarrow> PopFront Bind_nil (eq_pendingPortals T);
     let T = T\<lparr>eq_pendingPortals := q\<rparr>;
     case p of
       None \<Rightarrow> Some T
     | Some p \<Rightarrow> Some (T\<lparr>eq_portals := AList.update (Bind_Destination p) p (eq_portals T)\<rparr>)
   }"

text \<open>\<^verbatim>\<open>Clear\<close> of the three rings.\<close>

definition eqp_clear_pending :: "eqp_state \<Rightarrow> eqp_state" where
  "eqp_clear_pending T = T\<lparr>eq_pendingPreparedStatements := Ring_Clear (eq_pendingPreparedStatements T),
     eq_pendingPortals := Ring_Clear (eq_pendingPortals T), eq_pendingCloses := Ring_Clear (eq_pendingCloses T)\<rparr>"

definition eqp_CommandComplete :: "msg \<Rightarrow> eqp_state \<Rightarrow> eqp_result" where
  "eqp_CommandComplete packet T = do {
     r \<leftarrow> to_CommandComplete packet;
     case r of
       Inl err \<Rightarrow> Some (Inl err, T)
     | Inr p \<Rightarrow> Some (Inr (Msg (PCommandComplete p)),
         if p = ''DISCARD ALL'' then eqp_clear_pending (T\<lparr>eq_preparedStatements := [], eq_portals := []\<rparr>) else T)
   }"

definition eqp_ReadyForQuery :: "msg \<Rightarrow> eqp_state \<Rightarrow> eqp_result" where
  "eqp_ReadyForQuery packet T = do {
     r \<leftarrow> to_ReadyForQuery packet;
     case r of
       Inl err \<Rightarrow> Some (Inl err, T)
     | Inr p \<Rightarrow> Some (Inr (Msg (PReadyForQuery p)),
         eqp_clear_pending (if p = type_code CHR ''I'' then T\<lparr>eq_portals := []\<rparr> else T))
   }"

definition eqp_S2C :: "msg \<Rightarrow> eqp_state \<Rightarrow> eqp_result" where
  "eqp_S2C packet T =
     (if msg_Type packet = TypeCloseComplete then map_option (Pair (Inr packet)) (eqp_CloseComplete T)
      else if msg_Type packet = TypeParseComplete then map_option (Pair (Inr packet)) (eqp_ParseComplete T)
      else if msg_Type packet = TypeBindComplete then map_option (Pair (Inr packet)) (eqp_BindComplete T)
      else if msg_Type packet = TypeCommandComplete then eqp_CommandComplete packet T
      else if msg_Type packet = TypeReadyForQuery then eqp_ReadyForQuery packet T
      else Some (Inr packet, T))"

section \<open>Copying the state\<close>

text \<open>The loop over \<^verbatim>\<open>other.pending...Get(i)\<close>, from index \<open>i\<close>, with \<open>n\<close> elements to go.\<close>

primrec ring_append :: "nat \<Rightarrow> 'a \<Rightarrow> int \<Rightarrow> 'a ring \<Rightarrow> 'a ring \<Rightarrow> 'a ring option" where
  "ring_append 0 z i other r = Some r"
| "ring_append (Suc n) z i other r = do {
     v \<leftarrow> Ring_Get other i;
     r \<leftarrow> PushBack z v r;
     ring_append n z (i + 1) other r
   }"

definition ring_copy :: "'a \<Rightarrow> 'a ring \<Rightarrow> 'a ring \<Rightarrow> 'a ring option" where
  "ring_copy z other r = ring_append (nat (Ring_Length other)) z 0 other r"

definition eqp_Set :: "eqp_state \<Rightarrow> eqp_state \<Rightarrow> eqp_state option" where
  "eqp_Set other T = do {
     let T = eqp_clear_pending (T\<lparr>eq_preparedStatements := [], eq_portals := []\<rparr>);
     let T = T\<lparr>eq_preparedStatements := fold (\<lambda>(k, v). AList.update k v) (eq_preparedStatements other) [],
       eq_portals := fold (\<lambda>(k, v). AList.update k v) (eq_portals other) []\<rparr>;
     ps \<leftarrow> ring_copy Parse_nil (eq_pendingPreparedStatements other) (eq_pendingPreparedStatements T);
     po \<leftarrow> ring_copy Bind_nil (eq_pendingPortals other) (eq_pendingPortals T);
     cl \<leftarrow> ring_copy eqp_close_zero (eq_pendingCloses other) (eq_pendingCloses T);
     Some (T\<lparr>eq_pendingPreparedStatements := ps, eq_pendingPortals := po, eq_pendingCloses := cl\<rparr>)
   }"

section \<open>Abstract view\<close>

record eqp_view =
  v_stmts :: "string \<rightharpoonup> Parse"
  v_portals :: "string \<rightharpoonup> Bind"
  v_parses :: "Parse list"
  v_binds :: "Bind list"
  v_closes :: "eqp_close list"

definition eqp_abs :: "eqp_state \<Rightarrow> eqp_view" where
  "eqp_abs T = \<lparr>v_stmts = map_of (eq_preparedStatements T), v_portals = map_of (eq_portals T),
     v_parses = ring_list (eq_pendingPreparedStatements T), v_binds = ring_list (eq_pendingPortals T),
     v_closes = ring_list (eq_pendingCloses T)\<rparr>"

definition eqp_inv :: "eqp_state \<Rightarrow> bool" where
  "eqp_inv T \<longleftrightarrow> ring_inv (eq_pendingPreparedStatements T) \<and> ring_inv (eq_pendingPortals T) \<and>
     ring_inv (eq_pendingCloses T) \<and> distinct (map fst (eq_preparedStatements T)) \<and> distinct (map fst (eq_portals T))"

lemma eqp_inv_new: "eqp_inv eqp_new" by (simp add: eqp_inv_def eqp_new_def rg.empty)

text \<open>Extended query requests, their acknowledgements, and what an acknowledged request does.\<close>

datatype eqp_req = ReqParse Parse | ReqBind Bind | ReqClose eqp_close

primrec variant_code :: "CloseVariant \<Rightarrow> byte" where
  "variant_code CloseVariantPreparedStatement = type_code CHR ''S''"
| "variant_code CloseVariantPortal = type_code CHR ''P''"

primrec req_msg :: "eqp_req \<Rightarrow> msg" where
  "req_msg (ReqParse p) = Msg (PParse p)"
| "req_msg (ReqBind p) = Msg (PBind p)"
| "req_msg (ReqClose c) = Msg (PClose \<lparr>Close_Which = variant_code (ec_Variant c), Close_Name = ec_Target c\<rparr>)"

primrec ack_msg :: "eqp_req \<Rightarrow> msg" where
  "ack_msg (ReqParse p) = Msg (PParseComplete ParseComplete)"
| "ack_msg (ReqBind p) = Msg (PBindComplete BindComplete)"
| "ack_msg (ReqClose c) = Msg (PCloseComplete CloseComplete)"

primrec spec_req :: "eqp_req \<Rightarrow> eqp_view \<Rightarrow> eqp_view" where
  "spec_req (ReqParse p) v = v\<lparr>v_parses := v_parses v @ [p]\<rparr>"
| "spec_req (ReqBind p) v = v\<lparr>v_binds := v_binds v @ [p]\<rparr>"
| "spec_req (ReqClose c) v = v\<lparr>v_closes := v_closes v @ [c]\<rparr>"

primrec spec_apply :: "eqp_req \<Rightarrow> eqp_view \<Rightarrow> eqp_view" where
  "spec_apply (ReqParse p) v = v\<lparr>v_stmts := (v_stmts v)(Parse_Destination p \<mapsto> p)\<rparr>"
| "spec_apply (ReqBind p) v = v\<lparr>v_portals := (v_portals v)(Bind_Destination p \<mapsto> p)\<rparr>"
| "spec_apply (ReqClose c) v =
     (case ec_Variant c of
        CloseVariantPortal \<Rightarrow> v\<lparr>v_portals := (v_portals v)(ec_Target c := None)\<rparr>
      | CloseVariantPreparedStatement \<Rightarrow> v\<lparr>v_stmts := (v_stmts v)(ec_Target c := None)\<rparr>)"

lemmas type_bytes = TypeClose_def TypeParse_def TypeBind_def TypeQuery_def TypeCloseComplete_def
  TypeParseComplete_def TypeBindComplete_def TypeCommandComplete_def TypeReadyForQuery_def type_code_def

lemma eqp_C2S_req:
  assumes "eqp_inv T"
  shows "\<exists>T'. eqp_C2S (req_msg r) T = Some (Inr (req_msg r), T') \<and> eqp_inv T' \<and> eqp_abs T' = spec_req r (eqp_abs T)"
proof (cases r)
  case (ReqParse p)
  have "ring_inv (eq_pendingPreparedStatements T)" using assms by (simp add: eqp_inv_def)
  from rg.push_backE [OF this, of Parse_nil p] obtain q where
    "PushBack Parse_nil p (eq_pendingPreparedStatements T) = Some q" "ring_inv q"
    "ring_list q = ring_list (eq_pendingPreparedStatements T) @ [p]" by metis
  with ReqParse assms show ?thesis
    by (simp add: eqp_C2S_def eqp_Parse_def eqp_inv_def eqp_abs_def type_bytes)
next
  case (ReqBind p)
  have "ring_inv (eq_pendingPortals T)" using assms by (simp add: eqp_inv_def)
  from rg.push_backE [OF this, of Bind_nil p] obtain q where
    "PushBack Bind_nil p (eq_pendingPortals T) = Some q" "ring_inv q"
    "ring_list q = ring_list (eq_pendingPortals T) @ [p]" by metis
  with ReqBind assms show ?thesis
    by (simp add: eqp_C2S_def eqp_Bind_def eqp_inv_def eqp_abs_def type_bytes)
next
  case (ReqClose c)
  have "ring_inv (eq_pendingCloses T)" using assms by (simp add: eqp_inv_def)
  from rg.push_backE [OF this, of eqp_close_zero c] obtain q where
    "PushBack eqp_close_zero c (eq_pendingCloses T) = Some q" "ring_inv q"
    "ring_list q = ring_list (eq_pendingCloses T) @ [c]" by metis
  moreover obtain vr tg where "c = \<lparr>ec_Variant = vr, ec_Target = tg\<rparr>" by (cases c)
  ultimately show ?thesis using ReqClose assms
    by (cases vr) (simp_all add: eqp_C2S_def eqp_Close_def eqp_inv_def eqp_abs_def type_bytes)
qed

text \<open>The pending queues of the view hold exactly the requests not acknowledged yet, per kind and in order.\<close>

definition parses_of :: "eqp_req list \<Rightarrow> Parse list" where
  "parses_of rs = concat (map (\<lambda>r. case r of ReqParse p \<Rightarrow> [p] | _ \<Rightarrow> []) rs)"

definition binds_of :: "eqp_req list \<Rightarrow> Bind list" where
  "binds_of rs = concat (map (\<lambda>r. case r of ReqBind p \<Rightarrow> [p] | _ \<Rightarrow> []) rs)"

definition closes_of :: "eqp_req list \<Rightarrow> eqp_close list" where
  "closes_of rs = concat (map (\<lambda>r. case r of ReqClose c \<Rightarrow> [c] | _ \<Rightarrow> []) rs)"

definition pending_view :: "eqp_req list \<Rightarrow> eqp_view \<Rightarrow> eqp_view" where
  "pending_view rs v = v\<lparr>v_parses := parses_of rs, v_binds := binds_of rs, v_closes := closes_of rs\<rparr>"

lemma pending_simps [simp]:
  "parses_of [] = []" "binds_of [] = []" "closes_of [] = []"
  "parses_of (r # rs) = (case r of ReqParse p \<Rightarrow> [p] | _ \<Rightarrow> []) @ parses_of rs"
  "binds_of (r # rs) = (case r of ReqBind p \<Rightarrow> [p] | _ \<Rightarrow> []) @ binds_of rs"
  "closes_of (r # rs) = (case r of ReqClose c \<Rightarrow> [c] | _ \<Rightarrow> []) @ closes_of rs"
  "parses_of (rs @ rs') = parses_of rs @ parses_of rs'" "binds_of (rs @ rs') = binds_of rs @ binds_of rs'"
  "closes_of (rs @ rs') = closes_of rs @ closes_of rs'"
  by (simp_all add: parses_of_def binds_of_def closes_of_def)

lemma eqp_abs_pending:
  "eqp_abs T = pending_view rs v \<longleftrightarrow> map_of (eq_preparedStatements T) = v_stmts v \<and> map_of (eq_portals T) = v_portals v \<and>
     ring_list (eq_pendingPreparedStatements T) = parses_of rs \<and> ring_list (eq_pendingPortals T) = binds_of rs \<and>
     ring_list (eq_pendingCloses T) = closes_of rs"
  by (cases v) (auto simp: eqp_abs_def pending_view_def)

lemma spec_req_pending: "spec_req r (pending_view rs v) = pending_view (rs @ [r]) v"
  by (cases r) (simp_all add: pending_view_def)

lemma spec_apply_pending: "spec_apply r (pending_view rs v) = pending_view rs (spec_apply r v)"
  by (cases r) (simp_all add: pending_view_def split: CloseVariant.split)

lemma eqp_S2C_ack:
  assumes "eqp_inv T" "eqp_abs T = pending_view (r # rs) v"
  shows "\<exists>T'. eqp_S2C (ack_msg r) T = Some (Inr (ack_msg r), T') \<and> eqp_inv T' \<and>
    eqp_abs T' = pending_view rs (spec_apply r v)"
proof (cases r)
  case (ReqParse p)
  have "ring_inv (eq_pendingPreparedStatements T)" "ring_list (eq_pendingPreparedStatements T) = p # parses_of rs"
    using assms ReqParse by (auto simp: eqp_inv_def eqp_abs_pending)
  from rg.pop_front [OF this, of Parse_nil] obtain q where
    "PopFront Parse_nil (eq_pendingPreparedStatements T) = Some (Some p, q)" "ring_inv q" "ring_list q = parses_of rs"
    by (elim exE conjE) rule
  with ReqParse assms show ?thesis
    by (auto simp: eqp_S2C_def eqp_ParseComplete_def eqp_inv_def eqp_abs_pending type_bytes
        update_conv' distinct_update)
next
  case (ReqBind p)
  have "ring_inv (eq_pendingPortals T)" "ring_list (eq_pendingPortals T) = p # binds_of rs"
    using assms ReqBind by (auto simp: eqp_inv_def eqp_abs_pending)
  from rg.pop_front [OF this, of Bind_nil] obtain q where
    "PopFront Bind_nil (eq_pendingPortals T) = Some (Some p, q)" "ring_inv q" "ring_list q = binds_of rs"
    by (elim exE conjE) rule
  with ReqBind assms show ?thesis
    by (auto simp: eqp_S2C_def eqp_BindComplete_def eqp_inv_def eqp_abs_pending type_bytes
        update_conv' distinct_update)
next
  case (ReqClose c)
  have "ring_inv (eq_pendingCloses T)" "ring_list (eq_pendingCloses T) = c # closes_of rs"
    using assms ReqClose by (auto simp: eqp_inv_def eqp_abs_pending)
  from rg.pop_front [OF this, of eqp_close_zero] obtain q where
    "PopFront eqp_close_zero (eq_pendingCloses T) = Some (Some c, q)" "ring_inv q" "ring_list q = closes_of rs"
    by (elim exE conjE) rule
  with ReqClose assms show ?thesis
    by (cases "ec_Variant c") (auto simp: eqp_S2C_def eqp_CloseComplete_def eqp_inv_def eqp_abs_pending type_bytes delete_conv' distinct_delete)
qed

lemma eqp_clear_ok:
  "eqp_inv T \<Longrightarrow> eqp_inv (eqp_clear_pending T)"
  "eqp_abs (eqp_clear_pending T) = pending_view [] (eqp_abs T)"
  by (simp_all add: eqp_clear_pending_def eqp_inv_def eqp_abs_def pending_view_def rg.clear)

section \<open>Sessions\<close>

text \<open>
  The session on the other side, as the protocol has it: its prepared statements and portals, the requests that it has
  not acknowledged yet, and whether a Sync or a simple query waits for its \<^verbatim>\<open>ReadyForQuery\<close>.  The session acknowledges
  requests in order.  An acknowledged request takes effect; those that are not acknowledged by \<^verbatim>\<open>ReadyForQuery\<close> have
  failed or were skipped.  The end of a transaction drops the portals, a simple query the unnamed statement and portal, and
  \<^verbatim>\<open>DISCARD ALL\<close> everything.  No other command drops statements or portals (\<^verbatim>\<open>DEALLOCATE\<close> and \<^verbatim>\<open>CLOSE\<close> do; the middleware
  does not react to them, see \<open>eqp_S2C_CommandComplete\<close>).
\<close>

record session =
  se_stmts :: "string \<rightharpoonup> Parse"
  se_portals :: "string \<rightharpoonup> Bind"
  se_todo :: "eqp_req list"
  se_synced :: bool

definition session_new :: session where
  "session_new = \<lparr>se_stmts = Map.empty, se_portals = Map.empty, se_todo = [], se_synced = False\<rparr>"

datatype session_event =
    EvReq eqp_req | EvQuery Query | EvSync | EvSend packet | EvAck | EvComplete string | EvReady byte | EvOther packet

definition eqp_silent :: "packet \<Rightarrow> bool" where
  "eqp_silent p \<longleftrightarrow> packet_Type p \<notin> {TypeClose, TypeParse, TypeBind, TypeQuery}"

definition eqp_ignored :: "packet \<Rightarrow> bool" where
  "eqp_ignored p \<longleftrightarrow> packet_Type p \<notin> {TypeCloseComplete, TypeParseComplete, TypeBindComplete, TypeCommandComplete, TypeReadyForQuery}"

primrec req_effect :: "eqp_req \<Rightarrow> session \<Rightarrow> session" where
  "req_effect (ReqParse p) s = s\<lparr>se_stmts := (se_stmts s)(Parse_Destination p \<mapsto> p)\<rparr>"
| "req_effect (ReqBind p) s = s\<lparr>se_portals := (se_portals s)(Bind_Destination p \<mapsto> p)\<rparr>"
| "req_effect (ReqClose c) s =
     (case ec_Variant c of
        CloseVariantPortal \<Rightarrow> s\<lparr>se_portals := (se_portals s)(ec_Target c := None)\<rparr>
      | CloseVariantPreparedStatement \<Rightarrow> s\<lparr>se_stmts := (se_stmts s)(ec_Target c := None)\<rparr>)"

text \<open>
  The protocol as the pooler uses it: after a Sync or a simple query no further request, query or Sync is sent until
  \<^verbatim>\<open>ReadyForQuery\<close>; a simple query is sent only when no request is unanswered, and \<^verbatim>\<open>DISCARD ALL\<close>, which cannot run in a
  transaction, completes only then.
\<close>

fun session_step :: "session_event \<Rightarrow> session \<Rightarrow> session option" where
  "session_step (EvReq r) s = (if se_synced s then None else Some (s\<lparr>se_todo := se_todo s @ [r]\<rparr>))"
| "session_step (EvQuery q) s =
     (if se_synced s \<or> se_todo s \<noteq> [] then None
      else Some (s\<lparr>se_synced := True, se_stmts := (se_stmts s)([] := None), se_portals := (se_portals s)([] := None)\<rparr>))"
| "session_step EvSync s = (if se_synced s then None else Some (s\<lparr>se_synced := True\<rparr>))"
| "session_step (EvSend p) s = (if eqp_silent p then Some s else None)"
| "session_step EvAck s = (case se_todo s of [] \<Rightarrow> None | r # rs \<Rightarrow> Some (req_effect r (s\<lparr>se_todo := rs\<rparr>)))"
| "session_step (EvComplete tag) s =
     (if tag = ''DISCARD ALL'' then
        (if se_todo s = [] then Some (s\<lparr>se_stmts := Map.empty, se_portals := Map.empty\<rparr>) else None)
      else Some s)"
| "session_step (EvReady st) s =
     (if se_synced s then
        Some (s\<lparr>se_synced := False, se_todo := [], se_portals := if st = type_code CHR ''I'' then Map.empty else se_portals s\<rparr>)
      else None)"
| "session_step (EvOther p) s = (if eqp_ignored p then Some s else None)"

fun session_run :: "session_event list \<Rightarrow> session \<Rightarrow> session option" where
  "session_run [] s = Some s"
| "session_run (ev # evs) s = session_step ev s \<bind> session_run evs"

text \<open>The packet of an event, and what the middleware does with it.\<close>

fun eqp_watch :: "session_event \<Rightarrow> session \<Rightarrow> eqp_state \<Rightarrow> eqp_result" where
  "eqp_watch (EvReq r) s T = eqp_C2S (req_msg r) T"
| "eqp_watch (EvQuery q) s T = eqp_C2S (Msg (PQuery q)) T"
| "eqp_watch EvSync s T = eqp_C2S (Msg (PSync Sync)) T"
| "eqp_watch (EvSend p) s T = eqp_C2S (Msg p) T"
| "eqp_watch EvAck s T = eqp_S2C (ack_msg (hd (se_todo s))) T"
| "eqp_watch (EvComplete tag) s T = eqp_S2C (Msg (PCommandComplete tag)) T"
| "eqp_watch (EvReady st) s T = eqp_S2C (Msg (PReadyForQuery st)) T"
| "eqp_watch (EvOther p) s T = eqp_S2C (Msg p) T"

fun eqp_run :: "session_event list \<Rightarrow> session \<Rightarrow> eqp_state \<Rightarrow> eqp_state option" where
  "eqp_run [] s T = Some T"
| "eqp_run (ev # evs) s T = do {
     s' \<leftarrow> session_step ev s;
     (r, T) \<leftarrow> eqp_watch ev s T;
     case r of Inl err \<Rightarrow> None | Inr _ \<Rightarrow> eqp_run evs s' T
   }"

definition follows :: "eqp_state \<Rightarrow> session \<Rightarrow> bool" where
  "follows T s \<longleftrightarrow> eqp_inv T \<and> map_of (eq_preparedStatements T) = se_stmts s \<and> map_of (eq_portals T) = se_portals s \<and>
     ring_list (eq_pendingPreparedStatements T) = parses_of (se_todo s) \<and> ring_list (eq_pendingPortals T) = binds_of (se_todo s) \<and>
     ring_list (eq_pendingCloses T) = closes_of (se_todo s)"

lemma follows_new: "follows eqp_new session_new"
  by (simp add: follows_def eqp_inv_new session_new_def) (simp add: eqp_new_def rg.empty)

lemma follows_view:
  "follows T s \<longleftrightarrow> eqp_inv T \<and>
     eqp_abs T = pending_view (se_todo s) \<lparr>v_stmts = se_stmts s, v_portals = se_portals s, v_parses = [], v_binds = [], v_closes = []\<rparr>"
  by (auto simp: follows_def eqp_abs_pending)

lemma eqp_S2C_ignored: "eqp_ignored p \<Longrightarrow> eqp_S2C (Msg p) T = Some (Inr (Msg p), T)"
  by (simp add: eqp_S2C_def eqp_ignored_def)

lemma eqp_C2S_silent: "eqp_silent p \<Longrightarrow> eqp_C2S (Msg p) T = Some (Inr (Msg p), T)"
  by (simp add: eqp_C2S_def eqp_silent_def)

lemma follows_req:
  assumes "follows T s"
  shows "\<exists>m T'. eqp_C2S (req_msg r) T = Some (Inr m, T') \<and> follows T' (s\<lparr>se_todo := se_todo s @ [r]\<rparr>)"
  using eqp_C2S_req [of T r] assms by (auto simp: follows_view spec_req_pending)

lemma follows_ack:
  assumes "follows T s" "se_todo s = r # rs"
  shows "\<exists>m T'. eqp_S2C (ack_msg r) T = Some (Inr m, T') \<and> follows T' (req_effect r (s\<lparr>se_todo := rs\<rparr>))"
proof -
  let ?v = "\<lparr>v_stmts = se_stmts s, v_portals = se_portals s, v_parses = [], v_binds = [], v_closes = []\<rparr>"
  have "eqp_inv T" "eqp_abs T = pending_view (r # rs) ?v" using assms by (simp_all add: follows_view)
  from eqp_S2C_ack [OF this] obtain T' where t: "eqp_S2C (ack_msg r) T = Some (Inr (ack_msg r), T')" "eqp_inv T'"
    "eqp_abs T' = pending_view rs (spec_apply r ?v)" by (elim exE conjE) rule
  moreover have "pending_view rs (spec_apply r ?v) = pending_view (se_todo (req_effect r (s\<lparr>se_todo := rs\<rparr>)))
      \<lparr>v_stmts = se_stmts (req_effect r (s\<lparr>se_todo := rs\<rparr>)), v_portals = se_portals (req_effect r (s\<lparr>se_todo := rs\<rparr>)),
        v_parses = [], v_binds = [], v_closes = []\<rparr>"
    by (cases r) (simp_all split: CloseVariant.split)
  ultimately show ?thesis by (auto simp: follows_view)
qed

lemma follows_query:
  assumes "follows T s"
  shows "follows (eqp_Query T) (s\<lparr>se_synced := True, se_stmts := (se_stmts s)([] := None), se_portals := (se_portals s)([] := None)\<rparr>)"
  using assms by (auto simp: follows_def eqp_Query_def eqp_inv_def delete_conv' distinct_delete)

lemma follows_discard:
  assumes "follows T s" "se_todo s = []"
  shows "follows (eqp_clear_pending (T\<lparr>eq_preparedStatements := [], eq_portals := []\<rparr>)) (s\<lparr>se_stmts := Map.empty, se_portals := Map.empty\<rparr>)"
  using assms by (simp add: follows_def eqp_clear_pending_def eqp_inv_def rg.clear)

lemma follows_ready:
  assumes "follows T s"
  shows "\<exists>T'. eqp_S2C (Msg (PReadyForQuery st)) T = Some (Inr (Msg (PReadyForQuery st)), T') \<and>
    follows T' (s\<lparr>se_synced := False, se_todo := [], se_portals := if st = type_code CHR ''I'' then Map.empty else se_portals s\<rparr>)"
  using assms
  by (auto simp: eqp_S2C_def eqp_ReadyForQuery_def type_bytes follows_def eqp_clear_pending_def eqp_inv_def rg.clear)

lemma follows_step:
  assumes "follows T s" "session_step ev s = Some s'"
  shows "\<exists>m T'. eqp_watch ev s T = Some (Inr m, T') \<and> follows T' s'"
proof (cases ev)
  case (EvReq r)
  with assms follows_req [OF assms(1), of r] show ?thesis by (auto split: if_splits)
next
  case (EvQuery q)
  with assms follows_query [OF assms(1)] show ?thesis by (auto simp: eqp_C2S_def type_bytes split: if_splits)
next
  case EvSync
  then have "s' = s\<lparr>se_synced := True\<rparr>" using assms(2) by (auto split: if_splits)
  moreover have "eqp_silent (PSync Sync)" by (simp add: eqp_silent_def TypeSync_def type_bytes)
  ultimately show ?thesis using EvSync assms(1) eqp_C2S_silent by (auto simp: follows_def)
next
  case (EvSend p)
  with assms eqp_C2S_silent [of p T] show ?thesis by (auto split: if_splits)
next
  case EvAck
  with assms obtain r rs where "se_todo s = r # rs" "s' = req_effect r (s\<lparr>se_todo := rs\<rparr>)" by (auto split: list.splits)
  with EvAck follows_ack [OF assms(1)] show ?thesis by auto
next
  case (EvComplete tag)
  have "eqp_S2C (Msg (PCommandComplete tag)) T = Some (Inr (Msg (PCommandComplete tag)),
      if tag = ''DISCARD ALL'' then eqp_clear_pending (T\<lparr>eq_preparedStatements := [], eq_portals := []\<rparr>) else T)"
    by (simp add: eqp_S2C_def eqp_CommandComplete_def type_bytes)
  with EvComplete assms follows_discard [OF assms(1)] show ?thesis by (auto split: if_splits)
next
  case (EvReady st)
  with assms(2) have "s' = s\<lparr>se_synced := False, se_todo := [], se_portals := if st = type_code CHR ''I'' then Map.empty else se_portals s\<rparr>"
    by (auto split: if_splits)
  with EvReady follows_ready [OF assms(1), of st] show ?thesis by auto
next
  case (EvOther p)
  with assms eqp_S2C_ignored [of p T] show ?thesis by (auto split: if_splits)
qed

lemma follows_run: "session_run evs s = Some s' \<Longrightarrow> follows T s \<Longrightarrow> \<exists>T'. eqp_run evs s T = Some T' \<and> follows T' s'"
proof (induction evs arbitrary: s T)
  case (Cons ev evs)
  then obtain s1 where s1: "session_step ev s = Some s1" "session_run evs s1 = Some s'" by (auto split: bind_splits)
  from follows_step [OF Cons.prems(2) s1(1)] obtain m T1 where "eqp_watch ev s T = Some (Inr m, T1)" "follows T1 s1" by blast
  with Cons.IH [OF s1(2)] s1(1) show ?case by auto
qed simp


definition parse_of :: "string \<Rightarrow> string \<Rightarrow> Parse" where
  "parse_of name q = \<lparr>Parse_Destination = name, Parse_Query = q, Parse_ParameterDataTypes = []\<rparr>"

text \<open>
  A pipeline in a transaction of which the third statement fails, with an executed command, then a simple query, and then
  a request that is not acknowledged yet.
\<close>

definition sample_session :: "session_event list" where
  "sample_session = [EvReq (ReqParse (parse_of ''a'' ''SELECT 1'')), EvReq (ReqParse (parse_of [] ''BEGIN'')),
     EvReq (ReqParse (parse_of ''b'' ''bad'')), EvAck, EvAck, EvComplete ''SELECT 1'', EvSync, EvReady 84,
     EvQuery ''SELECT 2'', EvComplete ''SELECT 1'', EvReady 84, EvReq (ReqParse (parse_of ''c'' ''SELECT 3''))]"


text \<open>
  A statement without a name that is not acknowledged yet when a simple query is sent stays listed, although the query
  destroys it: the middleware forgets at the packet, not at its answer.
\<close>

lemma eqp_Query_early:
  assumes "follows T (session_new\<lparr>se_todo := [ReqParse p]\<rparr>)" "Parse_Destination p = []"
  shows "\<exists>T' m. eqp_S2C (ack_msg (ReqParse p)) (eqp_Query T) = Some (Inr m, T') \<and> map_of (eq_preparedStatements T') [] = Some p"
proof -
  have "follows (eqp_Query T) (session_new\<lparr>se_todo := [ReqParse p]\<rparr>)"
    using assms(1) by (auto simp: follows_def eqp_Query_def eqp_inv_def delete_conv' distinct_delete session_new_def)
  from follows_ack [OF this] assms(2) show ?thesis by (auto simp: follows_def)
qed

text \<open>
  Only \<^verbatim>\<open>DISCARD ALL\<close> forgets the tracked state; after \<^verbatim>\<open>DEALLOCATE\<close> or \<^verbatim>\<open>CLOSE\<close> in a simple query, which the
  comment of \<^verbatim>\<open>CommandComplete\<close> names too, the statements that the server has dropped stay listed.
\<close>

lemma eqp_S2C_CommandComplete:
  "eqp_S2C (Msg (PCommandComplete tag)) T =
     Some (Inr (Msg (PCommandComplete tag)),
       if tag = ''DISCARD ALL'' then eqp_clear_pending (T\<lparr>eq_preparedStatements := [], eq_portals := []\<rparr>) else T)"
  by (simp add: eqp_S2C_def eqp_CommandComplete_def type_bytes)

section \<open>Set\<close>

lemma ring_append_ok:
  assumes "ring_inv other" "ring_inv r" "ring_list other = xs @ ys" "ring_list r = zs"
  shows "\<exists>r'. ring_append (length ys) z (int (length xs)) other r = Some r' \<and> ring_inv r' \<and> ring_list r' = zs @ ys"
  using assms
proof (induction ys arbitrary: xs r zs)
  case (Cons y ys)
  have "Ring_Get other (int (length xs)) = Some y"
    using rg.get [OF Cons.prems(1), of "int (length xs)"] Cons.prems(3) by simp
  moreover from rg.push_backE [OF Cons.prems(2), of z y] obtain r1 where
    r1: "PushBack z y r = Some r1" "ring_inv r1" "ring_list r1 = zs @ [y]" using Cons.prems(4) by metis
  moreover have "ring_list other = (xs @ [y]) @ ys" using Cons.prems(3) by simp
  from Cons.IH [OF Cons.prems(1) r1(2) this r1(3)] have "\<exists>r'. ring_append (length ys) z (int (length xs) + 1) other r1 = Some r' \<and>
      ring_inv r' \<and> ring_list r' = zs @ y # ys" by (simp add: add.commute)
  ultimately show ?case by simp
qed simp

lemma ring_copy_ok:
  assumes "ring_inv other" "ring_inv r" "ring_list r = []"
  shows "\<exists>r'. ring_copy z other r = Some r' \<and> ring_inv r' \<and> ring_list r' = ring_list other"
  using ring_append_ok [OF assms(1,2) _ assms(3), of "[]" "ring_list other" z] rg.size [OF assms(1)]
  by (simp add: ring_copy_def del: length_ring_list)

lemma fold_update_ok:
  "map_of (fold (\<lambda>(k, v). AList.update k v) xs ys) k = (case map_of (rev xs) k of None \<Rightarrow> map_of ys k | Some v \<Rightarrow> Some v)"
  "distinct (map fst ys) \<Longrightarrow> distinct (map fst (fold (\<lambda>(k, v). AList.update k v) xs ys))"
  by (induction xs arbitrary: ys) (auto simp: update_conv' distinct_update map_add_def split: option.splits)

lemma map_copy_ok:
  assumes "distinct (map fst xs)"
  shows "map_of (fold (\<lambda>(k, v). AList.update k v) xs []) = map_of xs"
proof -
  have "map_of (rev xs) = map_of xs" using assms by (subst map_of_inject_set) (auto simp: rev_map [symmetric])
  then show ?thesis by (intro ext) (auto simp: fold_update_ok(1) split: option.split)
qed

lemma eqp_Set_ok:
  assumes "eqp_inv other" "eqp_inv T"
  shows "\<exists>T'. eqp_Set other T = Some T' \<and> eqp_inv T' \<and> eqp_abs T' = eqp_abs other"
proof -
  let ?T = "eqp_clear_pending (T\<lparr>eq_preparedStatements := [], eq_portals := []\<rparr>)"
  have o: "ring_inv (eq_pendingPreparedStatements other)" "ring_inv (eq_pendingPortals other)"
    "ring_inv (eq_pendingCloses other)" using assms(1) by (simp_all add: eqp_inv_def)
  have t: "ring_inv (eq_pendingPreparedStatements ?T)" "ring_inv (eq_pendingPortals ?T)" "ring_inv (eq_pendingCloses ?T)"
    "ring_list (eq_pendingPreparedStatements ?T) = []" "ring_list (eq_pendingPortals ?T) = []" "ring_list (eq_pendingCloses ?T) = []"
    by (simp_all add: eqp_clear_pending_def rg.clear)
  from ring_copy_ok [OF o(1) t(1,4), of Parse_nil] obtain a where
    a: "ring_copy Parse_nil (eq_pendingPreparedStatements other) (eq_pendingPreparedStatements ?T) = Some a"
    "ring_inv a" "ring_list a = ring_list (eq_pendingPreparedStatements other)" by (elim exE conjE) rule
  from ring_copy_ok [OF o(2) t(2,5), of Bind_nil] obtain b where
    b: "ring_copy Bind_nil (eq_pendingPortals other) (eq_pendingPortals ?T) = Some b"
    "ring_inv b" "ring_list b = ring_list (eq_pendingPortals other)" by (elim exE conjE) rule
  from ring_copy_ok [OF o(3) t(3,6), of eqp_close_zero] obtain c where
    c: "ring_copy eqp_close_zero (eq_pendingCloses other) (eq_pendingCloses ?T) = Some c"
    "ring_inv c" "ring_list c = ring_list (eq_pendingCloses other)" by (elim exE conjE) rule
  show ?thesis using assms a b c
    by (auto simp: eqp_Set_def eqp_inv_def eqp_abs_def map_copy_ok fold_update_ok(2))
qed

end
