(* ===== verification/Strutil.thy ===== *)
theory Strutil
  imports Pggat_Prelude
begin

text \<open>
  \<^verbatim>\<open>lib/util/strutil\<close>: case-insensitive names, cutting, quoting and the wildcard matcher.  Strings are
  lists of ASCII characters (a rune is then a byte); an invalid rune, which \<^verbatim>\<open>Matches\<close> rejects, does not
  occur, and the empty string, for which the decoder returns \<^verbatim>\<open>RuneError\<close> as well, is the \<^term>\<open>[]\<close> case.
\<close>

section \<open>Case-insensitive strings\<close>

definition lower_char :: "char \<Rightarrow> char" where
  "lower_char c = (if 65 \<le> (of_char c :: nat) \<and> (of_char c :: nat) \<le> 90 then char_of ((of_char c :: nat) + 32) else c)"

definition ToLower :: "string \<Rightarrow> string" where
  "ToLower s = map lower_char s"

type_synonym CIString = string

definition MakeCIString :: "string \<Rightarrow> CIString" where
  "MakeCIString value = ToLower value"

lemma lower_char_idem: "lower_char (lower_char c) = lower_char c"
  by (auto simp: lower_char_def)

lemma MakeCIString_idem: "MakeCIString (MakeCIString s) = MakeCIString s"
  by (simp add: MakeCIString_def ToLower_def lower_char_idem)

section \<open>Cutting\<close>

text \<open>\<^verbatim>\<open>strings.Cut\<close>: at the first occurrence of the separator.\<close>

fun strings_Cut :: "string \<Rightarrow> string \<Rightarrow> string \<times> string \<times> bool" where
  "strings_Cut s sep =
     (if take (length sep) s = sep then ([], drop (length sep) s, True)
      else case s of
        [] \<Rightarrow> ([], [], False)
      | c # cs \<Rightarrow> (case strings_Cut cs sep of (before, after, found) \<Rightarrow>
          if found then (c # before, after, True) else (s, [], False)))"

declare strings_Cut.simps [simp del]

definition CutLeft :: "string \<Rightarrow> string \<Rightarrow> string \<times> string \<times> bool" where
  "CutLeft s sep = (case strings_Cut s sep of (before, after, found) \<Rightarrow>
     if found then (before, after, True) else ([], before, False))"

text \<open>\<^verbatim>\<open>strings.LastIndex\<close>: the greatest index at which the separator occurs, or -1.\<close>

definition LastIndex :: "string \<Rightarrow> string \<Rightarrow> int" where
  "LastIndex s sep =
     (case filter (\<lambda>i. take (length sep) (drop i s) = sep) (rev [0..<length s + 1]) of
        [] \<Rightarrow> - 1 | i # _ \<Rightarrow> int i)"

definition CutRight :: "string \<Rightarrow> string \<Rightarrow> string \<times> string \<times> bool" where
  "CutRight s sep =
     (let i = LastIndex s sep in
      if i \<ge> 0 then (take (nat i) s, drop (nat i + length sep) s, True) else (s, [], False))"

lemma strings_Cut_found: "strings_Cut s sep = (before, after, True) \<Longrightarrow> s = before @ sep @ after"
  by (induction s sep arbitrary: before rule: strings_Cut.induct)
    (subst (asm) (2) strings_Cut.simps, auto split: if_splits list.splits prod.splits,
      metis append_take_drop_id)

lemma CutRight_found:
  assumes "CutRight s sep = (before, after, True)"
  shows "s = before @ sep @ after"
proof -
  let ?P = "\<lambda>i. take (length sep) (drop i s) = sep"
  from assms obtain i js where i: "filter ?P (rev [0..<length s + 1]) = i # js" "before = take i s"
    "after = drop (i + length sep) s"
    by (auto simp: CutRight_def LastIndex_def Let_def split: if_splits list.splits)
  then have "i \<in> set (filter ?P (rev [0..<length s + 1]))" by simp
  then have "take (length sep) (drop i s) = sep" unfolding set_filter by blast
  then have "drop i s = sep @ drop (length sep) (drop i s)" by (metis append_take_drop_id)
  then show ?thesis using i(2,3) by (metis append_take_drop_id drop_drop add.commute)
qed

section \<open>Quoting\<close>

abbreviation (input) backslash :: char where "backslash \<equiv> CHR 0x5C"

definition escape_char :: "char \<Rightarrow> char \<Rightarrow> string" where
  "escape_char q r = (if q = r \<or> r = backslash then [backslash, r] else [r])"

definition Escape :: "string \<Rightarrow> char \<Rightarrow> string" where
  "Escape str q =
     (if list_ex (\<lambda>r. r = q \<or> r = backslash) str then concat (map (escape_char q) str) else str)"

lemma Escape_concat: "Escape str q = concat (map (escape_char q) str)"
proof (cases "list_ex (\<lambda>r. r = q \<or> r = backslash) str")
  case False
  then have "concat (map (escape_char q) str) = str"
    by (induction str) (auto simp: escape_char_def)
  with False show ?thesis by (simp add: Escape_def)
qed (simp add: Escape_def)

text \<open>
  Two ways to read a quoted text up to its closing quote, with the text and what follows it.  With
  backslash escapes (\<^verbatim>\<open>standard_conforming_strings = off\<close>), and as in standard SQL, where a backslash is an
  ordinary character and a quote is written twice.
\<close>

fun read_escaped :: "char \<Rightarrow> string \<Rightarrow> (string \<times> string) option" where
  "read_escaped q [] = None"
| "read_escaped q (c # cs) =
     (if c = backslash then
        (case cs of [] \<Rightarrow> None
         | d # ds \<Rightarrow> map_option (\<lambda>(t, rest). (d # t, rest)) (read_escaped q ds))
      else if c = q then Some ([], cs)
      else map_option (\<lambda>(t, rest). (c # t, rest)) (read_escaped q cs))"

fun read_standard :: "char \<Rightarrow> string \<Rightarrow> (string \<times> string) option" where
  "read_standard q [] = None"
| "read_standard q (c # cs) =
     (if c = q then
        (case cs of
           d # ds \<Rightarrow> if d = q then map_option (\<lambda>(t, rest). (q # t, rest)) (read_standard q ds) else Some ([], cs)
         | [] \<Rightarrow> Some ([], []))
      else map_option (\<lambda>(t, rest). (c # t, rest)) (read_standard q cs))"

text \<open>
  Round trip with backslash escapes: a reader that treats the backslash as an escape character gets
  back exactly the text and stops at the closing quote.
\<close>

theorem Escape_roundtrip:
  assumes "q \<noteq> backslash"
  shows "read_escaped q (Escape str q @ q # rest) = Some (str, rest)"
  using assms unfolding Escape_concat by (induction str) (auto simp: escape_char_def)

theorem Escape_roundtrip_witness: "read_escaped CHR 0x27 (Escape [CHR ''a'', CHR 0x27] CHR 0x27 @ [CHR 0x27]) = Some ([CHR ''a'', CHR 0x27], [])"
  by (rule Escape_roundtrip) simp

lemma escape_standard:
  assumes "q \<noteq> backslash" "q \<in> set str"
  shows "read_standard q (concat (map (escape_char q) str) @ [q]) = None \<or>
    (\<exists>t d ds. read_standard q (concat (map (escape_char q) str) @ [q]) = Some (t, d # ds))"
  using assms(2)
proof (induction str)
  case (Cons c cs)
  show ?case
  proof (cases "c = q")
    case True
    show ?thesis
    proof (cases cs)
      case Nil
      with True assms(1) show ?thesis by (simp add: escape_char_def)
    next
      case c2: (Cons d ds)
      then obtain e es where e: "concat (map (escape_char q) cs) = e # es" "e \<noteq> q"
        using assms(1) by (cases "q = d"; cases "d = backslash") (auto simp: escape_char_def)
      moreover have "escape_char q q = [backslash, q]" by (simp add: escape_char_def)
      ultimately show ?thesis using True assms(1) by simp
    qed
  next
    case False
    with Cons have "read_standard q (concat (map (escape_char q) cs) @ [q]) = None \<or>
        (\<exists>t d ds. read_standard q (concat (map (escape_char q) cs) @ [q]) = Some (t, d # ds))" by simp
    moreover have "escape_char q c = [backslash, c] \<or> escape_char q c = [c]" by (simp add: escape_char_def)
    ultimately show ?thesis using False assms(1) by auto
  qed
qed simp

text \<open>
  Under standard string syntax, the default of PostgreSQL, the quoting breaks: whenever the text
  contains the quote, the literal \<^verbatim>\<open>'...'\<close> is never closed exactly at its end: either text of the value
  spills out of the literal and is read as SQL, or the literal swallows the closing quote.
\<close>

theorem Escape_breaks_standard:
  assumes "q \<noteq> backslash" "q \<in> set str"
  shows "\<not> (\<exists>t. read_standard q (Escape str q @ [q]) = Some (t, []))"
  using escape_standard [OF assms] by (auto simp: Escape_concat)

theorem Escape_breaks_standard_witness:
  "read_standard CHR 0x27 (Escape ([CHR 0x27] @ ''; DROP x --'') CHR 0x27 @ [CHR 0x27]) =
     Some ([backslash], ''; DROP x --'' @ [CHR 0x27]) \<and>
   \<not> (\<exists>t. read_standard CHR 0x27 (Escape ([CHR 0x27] @ ''; DROP x --'') CHR 0x27 @ [CHR 0x27]) = Some (t, []))"
proof
  show "read_standard CHR 0x27 (Escape ([CHR 0x27] @ ''; DROP x --'') CHR 0x27 @ [CHR 0x27]) =
     Some ([backslash], ''; DROP x --'' @ [CHR 0x27])" by code_simp
qed (rule Escape_breaks_standard; simp)

section \<open>Wildcards\<close>

text \<open>
  \<^verbatim>\<open>Matches\<close>.  For a star that is not the last character the code tries the suffixes of the haystack from
  the shortest non-empty one (the empty one for an empty haystack) to the whole; \<open>i\<close> is their length.
\<close>

function (sequential) Matches :: "string \<Rightarrow> string \<Rightarrow> bool"
  and Matches_star :: "string \<Rightarrow> string \<Rightarrow> nat \<Rightarrow> bool" where
  "Matches [] [] = True"
| "Matches [] (h # hs) = False"
| "Matches (e # matcher) haystack =
     (if e = CHR ''*'' then
        if matcher = [] then True else Matches_star matcher haystack (min 1 (length haystack))
      else case haystack of
        [] \<Rightarrow> False
      | c # cs \<Rightarrow> if c \<noteq> e then False else Matches matcher cs)"
| "Matches_star matcher haystack i =
     (if Matches matcher (drop (length haystack - i) haystack) then True
      else if length haystack \<le> i then False
      else Matches_star matcher haystack (i + 1))"
  by pat_completeness auto
termination
  by (relation "measure (\<lambda>x. case x of Inl (m, h) \<Rightarrow> length m * (length m + length h + 3) * 2 |
      Inr (m, h, i) \<Rightarrow> length m * (length m + length h + 3) * 2 + (length h - i) + 1)")
    (auto simp: algebra_simps)

text \<open>The meaning of a pattern: a star stands for any text.\<close>

fun glob :: "string \<Rightarrow> string \<Rightarrow> bool" where
  "glob [] h = (h = [])"
| "glob (e # p) h =
     (if e = CHR ''*'' then list_ex (\<lambda>k. glob p (drop k h)) [0..<length h + 1]
      else (case h of [] \<Rightarrow> False | c # cs \<Rightarrow> c = e \<and> glob p cs))"

lemma glob_star: "glob (CHR ''*'' # p) h \<longleftrightarrow> (\<exists>k\<le>length h. glob p (drop k h))"
proof -
  have "set [0..<length h + 1] = {..length h}" by auto
  then show ?thesis unfolding glob.simps list_ex_iff by auto
qed

lemma glob_empty: "glob p [] \<Longrightarrow> p \<noteq> [] \<Longrightarrow> glob p h"
proof (induction p)
  case (Cons e p)
  then have e: "e = CHR ''*''" "glob p []" by (auto split: if_splits)
  then have "glob p (drop (length h) h)" by simp
  then show ?case unfolding e(1) glob_star by blast
qed simp

lemma Matches_star_ok:
  assumes "\<And>h. Matches m h = glob m h" "i \<le> length h"
  shows "Matches_star m h i = (\<exists>k\<le>length h - i. glob m (drop k h))"
  using assms(2)
proof (induction "length h - i" arbitrary: i)
  case 0
  then have "i = length h" by simp
  with assms(1) show ?case by simp
next
  case (Suc n)
  then have "n = length h - (i + 1)" "i + 1 \<le> length h" by simp_all
  note ih = Suc.hyps(1) [OF this]
  have "(\<exists>k\<le>length h - i. glob m (drop k h)) \<longleftrightarrow>
      glob m (drop (length h - i) h) \<or> (\<exists>k\<le>length h - (i + 1). glob m (drop k h))"
  proof -
    have "length h - i = Suc (length h - (i + 1))" using Suc.hyps(2) by simp
    then show ?thesis by (metis le_Suc_eq)
  qed
  with ih assms(1) Suc.hyps(2) show ?case by (subst Matches_star.simps) auto
qed

declare Matches_star.simps [simp del]

text \<open>
  The matcher implements wildcards: \<^verbatim>\<open>Matches\<close>, which tries only non-empty suffixes after a star,
  returns true exactly when the haystack can be obtained from the pattern by replacing every star by
  some text.
\<close>

theorem Matches_glob: "Matches p h = glob p h"
proof (induction p arbitrary: h)
  case Nil
  then show ?case by (cases h) simp_all
next
  case (Cons e p)
  show ?case
  proof (cases "e = CHR ''*'' \<and> p \<noteq> []")
    case False
    then show ?thesis using Cons by (auto simp: list_ex_iff split: list.split intro: bexI [of _ "length h"])
  next
    case True
    have "Matches (e # p) h = (\<exists>k\<le>length h - min 1 (length h). glob p (drop k h))"
      using True Matches_star_ok [OF Cons, of "min 1 (length h)" h] by simp
    also have "\<dots> = (\<exists>k\<le>length h. glob p (drop k h))"
    proof
      assume "\<exists>k\<le>length h. glob p (drop k h)"
      then obtain k where k: "k \<le> length h" "glob p (drop k h)" by blast
      show "\<exists>k\<le>length h - min 1 (length h). glob p (drop k h)"
      proof (cases "k \<le> length h - min 1 (length h)")
        case False
        then have "k = length h" using k(1) by simp
        then have "glob p []" using k(2) by simp
        then show ?thesis using glob_empty True by blast
      qed (use k(2) in blast)
    qed (metis diff_le_self le_trans)
    finally show ?thesis using True glob_star by simp
  qed
qed

end
