(* ===== verification/Fed_Conn.thy ===== *)
theory Fed_Conn
  imports Eqp_State Strutil
begin

text \<open>
  \<^verbatim>\<open>lib/fed/conn.go\<close> with the middlewares of \<^verbatim>\<open>lib/fed/middlewares\<close>: the parameter status middleware \<^verbatim>\<open>ps\<close>, the
  extended query middleware \<^verbatim>\<open>eqp\<close>, \<^verbatim>\<open>unterminate\<close> and the tracers, which return every packet unchanged.
  The codec below is a script: what each \<^verbatim>\<open>ReadPacket\<close> of it returns, the packets written so far, and what
  each write, each flush and each TLS handshake returns (no error once a script is used up, \<^verbatim>\<open>io.EOF\<close> once
  the inbox is empty).  \<^verbatim>\<open>cn_codec_ssl\<close> is the flag of the codec, \<^verbatim>\<open>cn_SSL\<close> the field of the connection.
\<close>

section \<open>Parameter status\<close>

record ps_client =
  pc_synced :: bool
  pc_parameters :: "(CIString \<times> string) list"

record ps_server =
  pv_parameters :: "(CIString \<times> string) list"

text \<open>A missing key of a Go map reads as the zero value.\<close>

definition map_get :: "(string \<times> string) list \<Rightarrow> string \<Rightarrow> string" where
  "map_get m k = (case map_of m k of Some v \<Rightarrow> v | None \<Rightarrow> [])"

definition ps_NewClient :: "(CIString \<times> string) list \<Rightarrow> ps_client" where
  "ps_NewClient parameters = \<lparr>pc_synced = False, pc_parameters = parameters\<rparr>"

definition ps_NewServer :: "(CIString \<times> string) list \<Rightarrow> ps_server" where
  "ps_NewServer parameters = \<lparr>pv_parameters = parameters\<rparr>"

definition ps_Client_WritePacket :: "msg \<Rightarrow> ps_client \<Rightarrow> ((fed_error + msg option) \<times> ps_client) option" where
  "ps_Client_WritePacket packet T =
     (if msg_Type packet = TypeParameterStatus then do {
        r \<leftarrow> to_ParameterStatus packet;
        case r of
          Inl err \<Rightarrow> Some (Inl err, T)
        | Inr p \<Rightarrow>
            (let ikey = MakeCIString (ParameterStatus_Key p) in
             if pc_synced T \<and> map_get (pc_parameters T) ikey = ParameterStatus_Value p then Some (Inr None, T)
             else Some (Inr (Some (Msg (PParameterStatus p))),
               T\<lparr>pc_parameters := AList.update ikey (ParameterStatus_Value p) (pc_parameters T)\<rparr>))
      } else Some (Inr (Some packet), T))"

definition ps_Client_Set :: "ps_client \<Rightarrow> ps_client \<Rightarrow> ps_client" where
  "ps_Client_Set other T = T\<lparr>pc_synced := pc_synced other,
     pc_parameters := fold (\<lambda>(k, v). AList.update k v) (pc_parameters other) []\<rparr>"

definition ps_Server_ReadPacket :: "msg \<Rightarrow> ps_server \<Rightarrow> ((fed_error + msg option) \<times> ps_server) option" where
  "ps_Server_ReadPacket packet T =
     (if msg_Type packet = TypeParameterStatus then do {
        r \<leftarrow> to_ParameterStatus packet;
        case r of
          Inl err \<Rightarrow> Some (Inl err, T)
        | Inr p \<Rightarrow> Some (Inr (Some (Msg (PParameterStatus p))),
            T\<lparr>pv_parameters := AList.update (MakeCIString (ParameterStatus_Key p)) (ParameterStatus_Value p) (pv_parameters T)\<rparr>)
      } else Some (Inr (Some packet), T))"

section \<open>Read-only transactions\<close>

text \<open>
  The middleware of \<^verbatim>\<open>pools/hybrid\<close>: while a transaction runs on a replica it records what the client sends; once the
  transaction turned out to write, the record is replayed to the primary, and the answers to all but its last packet
  are dropped, since the client has seen them.  Here the record is the list of its packets, of which the first \<open>hm_pos\<close> are
  read; the code keeps their bytes in a buffer behind an encoder and a decoder, which \<^verbatim>\<open>Hybrid_Buffer\<close> models and shows to
  stand for this list.
\<close>

record hybrid_mw =
  hm_primary :: bool
  hm_buf :: "msg list"
  hm_pos :: nat

definition hybrid_NewMiddleware :: hybrid_mw where
  "hybrid_NewMiddleware = \<lparr>hm_primary = False, hm_buf = [], hm_pos = 0\<rparr>"

definition hybrid_Buffered :: "hybrid_mw \<Rightarrow> bool" where
  "hybrid_Buffered T \<longleftrightarrow> hm_pos T < length (hm_buf T)"

definition hybrid_PreRead :: "hybrid_mw \<Rightarrow> msg option \<times> hybrid_mw" where
  "hybrid_PreRead T =
     (if \<not> hm_primary T then (None, T)
      else if \<not> hybrid_Buffered T then (None, T)
      else (Some (hm_buf T ! hm_pos T), T\<lparr>hm_pos := hm_pos T + 1\<rparr>))"

definition hybrid_ReadPacket :: "msg \<Rightarrow> hybrid_mw \<Rightarrow> msg \<times> hybrid_mw" where
  "hybrid_ReadPacket packet T =
     (if hm_primary T then (packet, T)
      else
        let T = T\<lparr>hm_buf := hm_buf T @ [packet]\<rparr> in
        (hm_buf T ! hm_pos T, T\<lparr>hm_pos := hm_pos T + 1\<rparr>))"

definition hybrid_WritePacket :: "msg \<Rightarrow> hybrid_mw \<Rightarrow> (fed_error + msg option) option" where
  "hybrid_WritePacket packet T =
     (if hm_primary T \<and> hybrid_Buffered T then Some (Inr None)
      else if msg_Type packet = TypeMarkiplierResponse then do {
        r \<leftarrow> to_MarkiplierResponse packet;
        case r of
          Inl err \<Rightarrow> Some (Inl err)
        | Inr p \<Rightarrow>
            if \<exists>field\<in>set p. MarkiplierResponseField_Code field = type_code CHR ''C'' \<and>
                MarkiplierResponseField_Value field = ReadOnlySqlTransaction
            then Some (Inl ErrReadOnly)
            else Some (Inr (Some (Msg (PMarkiplierResponse p))))
      }
      else Some (Inr (Some packet)))"

definition hybrid_Reset :: "hybrid_mw \<Rightarrow> hybrid_mw" where
  "hybrid_Reset T = T\<lparr>hm_primary := False, hm_buf := [], hm_pos := 0\<rparr>"

definition hybrid_Primary :: "hybrid_mw \<Rightarrow> hybrid_mw" where
  "hybrid_Primary T = T\<lparr>hm_primary := True, hm_pos := 0\<rparr>"

section \<open>Middlewares\<close>

datatype middleware =
    MwEqpClient eqp_state | MwEqpServer eqp_state | MwPsClient ps_client | MwPsServer ps_server
  | MwHybrid hybrid_mw | MwUnterminate | MwTrace

type_synonym mw_result = "((fed_error + msg option) \<times> middleware) option"

definition eqp_wrap :: "(eqp_state \<Rightarrow> middleware) \<Rightarrow> eqp_result \<Rightarrow> mw_result" where
  "eqp_wrap C r = map_option (\<lambda>(r, T). (map_sum (\<lambda>e. e) Some r, C T)) r"

fun mw_PreRead :: "bool \<Rightarrow> middleware \<Rightarrow> mw_result" where
  "mw_PreRead typed (MwEqpClient T) = Some (Inr None, MwEqpClient T)"
| "mw_PreRead typed (MwEqpServer T) = Some (Inr None, MwEqpServer T)"
| "mw_PreRead typed (MwPsClient T) = Some (Inr None, MwPsClient T)"
| "mw_PreRead typed (MwPsServer T) = Some (Inr None, MwPsServer T)"
| "mw_PreRead typed (MwHybrid T) = (case hybrid_PreRead T of (r, T) \<Rightarrow> Some (Inr r, MwHybrid T))"
| "mw_PreRead typed MwUnterminate = Some (Inr None, MwUnterminate)"
| "mw_PreRead typed MwTrace = Some (Inr None, MwTrace)"

fun mw_ReadPacket :: "msg \<Rightarrow> middleware \<Rightarrow> mw_result" where
  "mw_ReadPacket packet (MwEqpClient T) = eqp_wrap MwEqpClient (eqp_C2S packet T)"
| "mw_ReadPacket packet (MwEqpServer T) = eqp_wrap MwEqpServer (eqp_S2C packet T)"
| "mw_ReadPacket packet (MwPsClient T) = Some (Inr (Some packet), MwPsClient T)"
| "mw_ReadPacket packet (MwPsServer T) = map_option (\<lambda>(r, T). (r, MwPsServer T)) (ps_Server_ReadPacket packet T)"
| "mw_ReadPacket packet (MwHybrid T) = (case hybrid_ReadPacket packet T of (r, T) \<Rightarrow> Some (Inr (Some r), MwHybrid T))"
| "mw_ReadPacket packet MwUnterminate =
     Some (if msg_Type packet = TypeTerminate then Inl (EFed EOF) else Inr (Some packet), MwUnterminate)"
| "mw_ReadPacket packet MwTrace = Some (Inr (Some packet), MwTrace)"

fun mw_WritePacket :: "msg \<Rightarrow> middleware \<Rightarrow> mw_result" where
  "mw_WritePacket packet (MwEqpClient T) = eqp_wrap MwEqpClient (eqp_S2C packet T)"
| "mw_WritePacket packet (MwEqpServer T) = eqp_wrap MwEqpServer (eqp_C2S packet T)"
| "mw_WritePacket packet (MwPsClient T) = map_option (\<lambda>(r, T). (r, MwPsClient T)) (ps_Client_WritePacket packet T)"
| "mw_WritePacket packet (MwPsServer T) = Some (Inr (Some packet), MwPsServer T)"
| "mw_WritePacket packet (MwHybrid T) = map_option (\<lambda>r. (r, MwHybrid T)) (hybrid_WritePacket packet T)"
| "mw_WritePacket packet MwUnterminate = Some (Inr (Some packet), MwUnterminate)"
| "mw_WritePacket packet MwTrace = Some (Inr (Some packet), MwTrace)"

fun mw_PostWrite :: "middleware \<Rightarrow> mw_result" where
  "mw_PostWrite m = Some (Inr None, m)"

section \<open>Connections\<close>

record BackendKey =
  bk_ProcessID :: "32 word"
  bk_SecretKey :: "32 word"

record conn =
  cn_inbox :: "(fed_error + msg) list"
  cn_outbox :: "msg list"
  cn_writes :: "fed_error option list"
  cn_flushes :: "fed_error option list"
  cn_bytes_in :: "(fed_error + byte) list"
  cn_bytes_out :: "byte list"
  cn_tls :: "fed_error option list"
  cn_codec_ssl :: bool
  cn_Middleware :: "middleware list"
  cn_SSL :: bool
  cn_User :: string
  cn_Database :: string
  cn_InitialParameters :: "(CIString \<times> string) list"
  cn_BackendKey :: BackendKey
  cn_Authenticated :: bool
  cn_Ready :: bool

type_synonym 'a io = "conn \<Rightarrow> ((fed_error + 'a) \<times> conn) option"

definition NewConn :: "(fed_error + msg) list \<Rightarrow> conn" where
  "NewConn inbox = \<lparr>cn_inbox = inbox, cn_outbox = [], cn_writes = [], cn_flushes = [], cn_bytes_in = [],
     cn_bytes_out = [], cn_tls = [], cn_codec_ssl = False, cn_Middleware = [], cn_SSL = False, cn_User = [],
     cn_Database = [], cn_InitialParameters = [], cn_BackendKey = \<lparr>bk_ProcessID = 0, bk_SecretKey = 0\<rparr>,
     cn_Authenticated = False, cn_Ready = False\<rparr>"

text \<open>The codec.\<close>

definition conn_Flush :: "conn \<Rightarrow> fed_error option \<times> conn" where
  "conn_Flush T = (case cn_flushes T of [] \<Rightarrow> (None, T) | f # fs \<Rightarrow> (f, T\<lparr>cn_flushes := fs\<rparr>))"

definition conn_readPacket :: "conn \<Rightarrow> (fed_error + msg) \<times> conn" where
  "conn_readPacket T = (case cn_inbox T of [] \<Rightarrow> (Inl (EFed EOF), T) | m # ms \<Rightarrow> (m, T\<lparr>cn_inbox := ms\<rparr>))"

definition conn_writePacket :: "msg \<Rightarrow> conn \<Rightarrow> fed_error option \<times> conn" where
  "conn_writePacket packet T =
     (case cn_writes T of
        Some err # fs \<Rightarrow> (Some err, T\<lparr>cn_writes := fs\<rparr>)
      | None # fs \<Rightarrow> (None, T\<lparr>cn_writes := fs, cn_outbox := cn_outbox T @ [packet]\<rparr>)
      | [] \<Rightarrow> (None, T\<lparr>cn_outbox := cn_outbox T @ [packet]\<rparr>))"

text \<open>A packet through a list of middlewares, in the order of the list; nil stops it.\<close>

fun mw_through :: "(msg \<Rightarrow> middleware \<Rightarrow> mw_result) \<Rightarrow> msg \<Rightarrow> middleware list \<Rightarrow>
    ((fed_error + msg option) \<times> middleware list) option" where
  "mw_through f packet [] = Some (Inr (Some packet), [])"
| "mw_through f packet (m # ms) = do {
     (r, m) \<leftarrow> f packet m;
     case r of
       Inl err \<Rightarrow> Some (Inl err, m # ms)
     | Inr None \<Rightarrow> Some (Inr None, m # ms)
     | Inr (Some packet) \<Rightarrow> map_option (\<lambda>(r, ms). (r, m # ms)) (mw_through f packet ms)
   }"

text \<open>\<^verbatim>\<open>for j := i; j < len(T.Middleware); j++\<close> and \<^verbatim>\<open>for j := i; j >= 0; j--\<close>.\<close>

definition conn_read_from :: "nat \<Rightarrow> msg \<Rightarrow> conn \<Rightarrow> ((fed_error + msg option) \<times> conn) option" where
  "conn_read_from i packet T =
     map_option (\<lambda>(r, ms). (r, T\<lparr>cn_Middleware := take i (cn_Middleware T) @ ms\<rparr>))
       (mw_through mw_ReadPacket packet (drop i (cn_Middleware T)))"

definition conn_write_from :: "nat \<Rightarrow> msg \<Rightarrow> conn \<Rightarrow> ((fed_error + msg option) \<times> conn) option" where
  "conn_write_from n packet T =
     map_option (\<lambda>(r, ms). (r, T\<lparr>cn_Middleware := rev ms @ drop n (cn_Middleware T)\<rparr>))
       (mw_through mw_WritePacket packet (rev (take n (cn_Middleware T))))"

partial_function (option) conn_PreRead :: "bool \<Rightarrow> nat \<Rightarrow> conn \<Rightarrow> ((fed_error + msg option) \<times> conn) option" where
  "conn_PreRead typed i T =
     (if i < length (cn_Middleware T) then do {
        (r, m) \<leftarrow> mw_PreRead typed (cn_Middleware T ! i);
        let T = T\<lparr>cn_Middleware := (cn_Middleware T)[i := m]\<rparr>;
        case r of
          Inl err \<Rightarrow> Some (Inl err, T)
        | Inr None \<Rightarrow> conn_PreRead typed (i + 1) T
        | Inr (Some packet) \<Rightarrow> do {
            (r, T) \<leftarrow> conn_read_from i packet T;
            case r of
              Inl err \<Rightarrow> Some (Inl err, T)
            | Inr None \<Rightarrow> conn_PreRead typed i T
            | Inr (Some packet) \<Rightarrow> Some (Inr (Some packet), T)
          }
      } else Some (Inr None, T))"

partial_function (option) conn_ReadPacket_loop :: "bool \<Rightarrow> conn \<Rightarrow> ((fed_error + msg) \<times> conn) option" where
  "conn_ReadPacket_loop typed T = do {
     (r, T) \<leftarrow> conn_PreRead typed 0 T;
     case r of
       Inl err \<Rightarrow> Some (Inl err, T)
     | Inr (Some packet) \<Rightarrow> Some (Inr packet, T)
     | Inr None \<Rightarrow>
         (case conn_readPacket T of
            (Inl err, T) \<Rightarrow> Some (Inl err, T)
          | (Inr packet, T) \<Rightarrow> do {
              (r, T) \<leftarrow> conn_read_from 0 packet T;
              case r of
                Inl err \<Rightarrow> Some (Inl err, T)
              | Inr (Some packet) \<Rightarrow> Some (Inr packet, T)
              | Inr None \<Rightarrow> conn_ReadPacket_loop typed T
            })
   }"

definition conn_ReadPacket :: "bool \<Rightarrow> msg io" where
  "conn_ReadPacket typed T =
     (case conn_Flush T of
        (Some err, T) \<Rightarrow> Some (Inl err, T)
      | (None, T) \<Rightarrow> conn_ReadPacket_loop typed T)"

text \<open>The loop over \<^verbatim>\<open>PostWrite\<close>, with the middlewares below index \<open>n\<close> to go.\<close>

partial_function (option) conn_PostWrite :: "nat \<Rightarrow> conn \<Rightarrow> (fed_error option \<times> conn) option" where
  "conn_PostWrite n T =
     (if n = 0 then Some (None, T)
      else do {
        (r, m) \<leftarrow> mw_PostWrite (cn_Middleware T ! (n - 1));
        let T = T\<lparr>cn_Middleware := (cn_Middleware T)[n - 1 := m]\<rparr>;
        case r of
          Inl err \<Rightarrow> Some (Some err, T)
        | Inr None \<Rightarrow> conn_PostWrite (n - 1) T
        | Inr (Some packet) \<Rightarrow> do {
            (r, T) \<leftarrow> conn_write_from n packet T;
            case r of
              Inl err \<Rightarrow> Some (Some err, T)
            | Inr None \<Rightarrow> conn_PostWrite n T
            | Inr (Some packet) \<Rightarrow>
                (case conn_writePacket packet T of
                   (Some err, T) \<Rightarrow> Some (Some err, T)
                 | (None, T) \<Rightarrow> conn_PostWrite n T)
          }
      })"

definition conn_WritePacket :: "msg \<Rightarrow> conn \<Rightarrow> (fed_error option \<times> conn) option" where
  "conn_WritePacket packet T = do {
     (r, T) \<leftarrow> conn_write_from (length (cn_Middleware T)) packet T;
     case r of
       Inl err \<Rightarrow> Some (Some err, T)
     | Inr None \<Rightarrow> conn_PostWrite (length (cn_Middleware T)) T
     | Inr (Some packet) \<Rightarrow>
         (case conn_writePacket packet T of
            (Some err, T) \<Rightarrow> Some (Some err, T)
          | (None, T) \<Rightarrow> conn_PostWrite (length (cn_Middleware T)) T)
   }"

text \<open>Single bytes and TLS.\<close>

definition conn_WriteByte :: "byte \<Rightarrow> conn \<Rightarrow> fed_error option \<times> conn" where
  "conn_WriteByte b T =
     (case cn_writes T of
        Some err # fs \<Rightarrow> (Some err, T\<lparr>cn_writes := fs\<rparr>)
      | None # fs \<Rightarrow> (None, T\<lparr>cn_writes := fs, cn_bytes_out := cn_bytes_out T @ [b]\<rparr>)
      | [] \<Rightarrow> (None, T\<lparr>cn_bytes_out := cn_bytes_out T @ [b]\<rparr>))"

definition conn_ReadByte :: "conn \<Rightarrow> (fed_error + byte) \<times> conn" where
  "conn_ReadByte T =
     (case conn_Flush T of
        (Some err, T) \<Rightarrow> (Inl err, T)
      | (None, T) \<Rightarrow>
          (case cn_bytes_in T of [] \<Rightarrow> (Inl (EFed EOF), T) | b # bs \<Rightarrow> (b, T\<lparr>cn_bytes_in := bs\<rparr>)))"

definition conn_EnableSSL :: "conn \<Rightarrow> fed_error option \<times> conn" where
  "conn_EnableSSL T =
     (if cn_codec_ssl T then (Some ESSLAlreadyEnabled, T)
      else
        (case conn_Flush (T\<lparr>cn_codec_ssl := True\<rparr>) of
           (Some err, T) \<Rightarrow> (Some err, T)
         | (None, T) \<Rightarrow> (case cn_tls T of [] \<Rightarrow> (None, T) | r # rs \<Rightarrow> (r, T\<lparr>cn_tls := rs\<rparr>))))"

declare conn_PreRead.simps [code] conn_ReadPacket_loop.simps [code] conn_PostWrite.simps [code]

section \<open>Packets that fit their direction\<close>

text \<open>
  A packet that carries the type byte of a packet this layer decodes is that packet, or a body that the decoder
  refuses with an error: then \<^verbatim>\<open>ToConcrete\<close> does not panic.  This leaves out a \<^verbatim>\<open>Bind\<close> with a parameter length below
  -1 (\<open>BadLength\<close>), on which the decoder panics: \<open>bad_Bind_panics\<close> below.
\<close>

definition c2s_msg :: "msg \<Rightarrow> bool" where
  "c2s_msg m \<longleftrightarrow> (msg_Type m = TypeClose \<longrightarrow> to_Close m \<noteq> None) \<and> (msg_Type m = TypeParse \<longrightarrow> to_Parse m \<noteq> None) \<and>
     (msg_Type m = TypeBind \<longrightarrow> to_Bind m \<noteq> None)"

text \<open>A \<^verbatim>\<open>Bind\<close> with a parameter length below -1 panics in the extended query middleware; no caller recovers.\<close>

lemma bad_Bind_panics:
  assumes "cn_inbox client = Inr (BadLength TypeBind) # rest" "cn_flushes client = []" "cn_Middleware client = [MwUnterminate, MwEqpClient T]"
  shows "conn_ReadPacket typed client = None"
proof -
  have id: "client\<lparr>cn_Middleware := [MwUnterminate, MwEqpClient T]\<rparr> = client" using assms by (auto intro: conn.equality)
  have "conn_PreRead typed 2 client = Some (Inr None, client)" using assms by (subst conn_PreRead.simps) simp
  then have "conn_PreRead typed 1 client = Some (Inr None, client)"
    using assms by (subst conn_PreRead.simps) (simp add: Let_def numeral_2_eq_2 id)
  then have "conn_PreRead typed 0 client = Some (Inr None, client)" using assms by (subst conn_PreRead.simps) (simp add: Let_def id)
  then show ?thesis
    using assms unfolding conn_ReadPacket_def
    by (simp add: conn_Flush_def conn_ReadPacket_loop.simps [of typed client] conn_readPacket_def conn_read_from_def eqp_wrap_def
        eqp_C2S_def eqp_Bind_def type_bytes TypeTerminate_def type_code_def)
qed

definition s2c_msg :: "msg \<Rightarrow> bool" where
  "s2c_msg m \<longleftrightarrow> (msg_Type m = TypeCommandComplete \<longrightarrow> to_CommandComplete m \<noteq> None) \<and>
     (msg_Type m = TypeReadyForQuery \<longrightarrow> to_ReadyForQuery m \<noteq> None) \<and>
     (msg_Type m = TypeParameterStatus \<longrightarrow> to_ParameterStatus m \<noteq> None) \<and>
     (msg_Type m = TypeMarkiplierResponse \<longrightarrow> to_MarkiplierResponse m \<noteq> None)"

lemma to_ParameterStatus_Inr: "to_ParameterStatus m = Some (Inr p) \<Longrightarrow> m = Msg (PParameterStatus p)"
  by (cases m rule: to_ParameterStatus.cases) auto
lemma to_ReadyForQuery_Inr: "to_ReadyForQuery m = Some (Inr p) \<Longrightarrow> m = Msg (PReadyForQuery p)"
  by (cases m rule: to_ReadyForQuery.cases) auto
lemma to_MarkiplierResponse_Inr: "to_MarkiplierResponse m = Some (Inr p) \<Longrightarrow> m = Msg (PMarkiplierResponse p)"
  by (cases m rule: to_MarkiplierResponse.cases) auto
lemma to_CommandComplete_Inr: "to_CommandComplete m = Some (Inr p) \<Longrightarrow> m = Msg (PCommandComplete p)"
  by (cases m rule: to_CommandComplete.cases) auto
lemma to_Close_Inr: "to_Close m = Some (Inr p) \<Longrightarrow> m = Msg (PClose p)"
  by (cases m rule: to_Close.cases) auto
lemma to_Parse_Inr: "to_Parse m = Some (Inr p) \<Longrightarrow> m = Msg (PParse p)"
  by (cases m rule: to_Parse.cases) auto
lemma to_Bind_Inr: "to_Bind m = Some (Inr p) \<Longrightarrow> m = Msg (PBind p)"
  by (cases m rule: to_Bind.cases) auto

lemmas to_concrete = to_MarkiplierResponse_Inr to_ParameterStatus_Inr to_ReadyForQuery_Inr to_CommandComplete_Inr to_Close_Inr to_Parse_Inr to_Bind_Inr

lemma eqp_Close_total:
  assumes "eqp_inv T" "to_Close m \<noteq> None"
  shows "\<exists>r T'. eqp_Close m T = Some (r, T') \<and> eqp_inv T' \<and> (r = Inr m \<or> (\<exists>e. r = Inl e))"
proof -
  from assms(2) obtain r where r: "to_Close m = Some r" by auto
  show ?thesis
  proof (cases r)
    case (Inr p)
    have inv: "ring_inv (eq_pendingCloses T)" using assms by (simp add: eqp_inv_def)
    have "\<exists>q. PushBack eqp_close_zero c (eq_pendingCloses T) = Some q \<and> ring_inv q" for c
      using rg.push_backE [OF inv, of eqp_close_zero c] by metis
    then obtain q where "\<And>c. PushBack eqp_close_zero c (eq_pendingCloses T) = Some (q c) \<and> ring_inv (q c)" by metis
    with Inr r assms to_Close_Inr [of m p] show ?thesis by (simp add: eqp_Close_def eqp_inv_def)
  qed (use r assms in \<open>simp add: eqp_Close_def\<close>)
qed

lemma eqp_Parse_total:
  assumes "eqp_inv T" "to_Parse m \<noteq> None"
  shows "\<exists>r T'. eqp_Parse m T = Some (r, T') \<and> eqp_inv T' \<and> (r = Inr m \<or> (\<exists>e. r = Inl e))"
proof -
  from assms(2) obtain r where r: "to_Parse m = Some r" by auto
  show ?thesis
  proof (cases r)
    case (Inr p)
    have inv: "ring_inv (eq_pendingPreparedStatements T)" using assms by (simp add: eqp_inv_def)
    obtain q where "PushBack Parse_nil p (eq_pendingPreparedStatements T) = Some q" "ring_inv q"
      using rg.push_backE [OF inv, of Parse_nil p] by metis
    with Inr r assms to_Parse_Inr [of m p] show ?thesis by (simp add: eqp_Parse_def eqp_inv_def)
  qed (use r assms in \<open>simp add: eqp_Parse_def\<close>)
qed

lemma eqp_Bind_total:
  assumes "eqp_inv T" "to_Bind m \<noteq> None"
  shows "\<exists>r T'. eqp_Bind m T = Some (r, T') \<and> eqp_inv T' \<and> (r = Inr m \<or> (\<exists>e. r = Inl e))"
proof -
  from assms(2) obtain r where r: "to_Bind m = Some r" by auto
  show ?thesis
  proof (cases r)
    case (Inr p)
    have inv: "ring_inv (eq_pendingPortals T)" using assms by (simp add: eqp_inv_def)
    obtain q where "PushBack Bind_nil p (eq_pendingPortals T) = Some q" "ring_inv q"
      using rg.push_backE [OF inv, of Bind_nil p] by metis
    with Inr r assms to_Bind_Inr [of m p] show ?thesis by (simp add: eqp_Bind_def eqp_inv_def)
  qed (use r assms in \<open>simp add: eqp_Bind_def\<close>)
qed

lemma eqp_C2S_total:
  assumes "eqp_inv T" "c2s_msg m"
  shows "\<exists>r T'. eqp_C2S m T = Some (r, T') \<and> eqp_inv T' \<and> (r = Inr m \<or> (\<exists>e. r = Inl e))"
proof -
  have "eqp_inv (eqp_Query T)" using assms by (simp add: eqp_inv_def eqp_Query_def distinct_delete)
  with assms eqp_Close_total [of T m] eqp_Parse_total [of T m] eqp_Bind_total [of T m] show ?thesis
    by (simp add: eqp_C2S_def c2s_msg_def)
qed

lemma PopFront_total: "ring_inv q \<Longrightarrow> \<exists>x q'. PopFront z q = Some (x, q') \<and> ring_inv q'"
  by (rule rg.pop_front_cases [of q z]) auto

lemma eqp_complete_total:
  assumes "eqp_inv T"
  shows "\<exists>T'. eqp_CloseComplete T = Some T' \<and> eqp_inv T'" "\<exists>T'. eqp_ParseComplete T = Some T' \<and> eqp_inv T'"
    "\<exists>T'. eqp_BindComplete T = Some T' \<and> eqp_inv T'"
proof -
  have "ring_inv (eq_pendingCloses T)" using assms by (simp add: eqp_inv_def)
  from PopFront_total [OF this, of eqp_close_zero] obtain x q where "PopFront eqp_close_zero (eq_pendingCloses T) = Some (x, q)" "ring_inv q"
    by (elim exE conjE) rule
  with assms show "\<exists>T'. eqp_CloseComplete T = Some T' \<and> eqp_inv T'"
    by (cases x) (auto simp: eqp_CloseComplete_def eqp_inv_def distinct_delete Let_def split: CloseVariant.split)
  have "ring_inv (eq_pendingPreparedStatements T)" using assms by (simp add: eqp_inv_def)
  from PopFront_total [OF this, of Parse_nil] obtain x q where "PopFront Parse_nil (eq_pendingPreparedStatements T) = Some (x, q)" "ring_inv q"
    by (elim exE conjE) rule
  with assms show "\<exists>T'. eqp_ParseComplete T = Some T' \<and> eqp_inv T'"
    by (cases x) (simp_all add: eqp_ParseComplete_def eqp_inv_def distinct_update)
  have "ring_inv (eq_pendingPortals T)" using assms by (simp add: eqp_inv_def)
  from PopFront_total [OF this, of Bind_nil] obtain x q where "PopFront Bind_nil (eq_pendingPortals T) = Some (x, q)" "ring_inv q"
    by (elim exE conjE) rule
  with assms show "\<exists>T'. eqp_BindComplete T = Some T' \<and> eqp_inv T'"
    by (cases x) (simp_all add: eqp_BindComplete_def eqp_inv_def distinct_update)
qed

lemma eqp_CommandComplete_total:
  assumes "eqp_inv T" "to_CommandComplete m \<noteq> None"
  shows "\<exists>r T'. eqp_CommandComplete m T = Some (r, T') \<and> eqp_inv T' \<and> (r = Inr m \<or> (\<exists>e. r = Inl e))"
proof -
  from assms(2) obtain r where r: "to_CommandComplete m = Some r" by auto
  have "eqp_inv (T\<lparr>eq_preparedStatements := [], eq_portals := []\<rparr>)" using assms by (simp add: eqp_inv_def)
  from eqp_clear_ok(1) [OF this] r assms to_CommandComplete_Inr [of m] show ?thesis
    by (cases r) (simp_all add: eqp_CommandComplete_def)
qed

lemma eqp_ReadyForQuery_total:
  assumes "eqp_inv T" "to_ReadyForQuery m \<noteq> None"
  shows "\<exists>r T'. eqp_ReadyForQuery m T = Some (r, T') \<and> eqp_inv T' \<and> (r = Inr m \<or> (\<exists>e. r = Inl e))"
proof -
  from assms(2) obtain r where r: "to_ReadyForQuery m = Some r" by auto
  have "eqp_inv (T\<lparr>eq_portals := []\<rparr>)" using assms by (simp add: eqp_inv_def)
  from eqp_clear_ok(1) [OF this] eqp_clear_ok(1) [OF assms(1)] r assms to_ReadyForQuery_Inr [of m] show ?thesis
    by (cases r) (simp_all add: eqp_ReadyForQuery_def)
qed

lemma eqp_S2C_total:
  assumes "eqp_inv T" "s2c_msg m"
  shows "\<exists>r T'. eqp_S2C m T = Some (r, T') \<and> eqp_inv T' \<and> (r = Inr m \<or> (\<exists>e. r = Inl e))"
  using assms eqp_complete_total [OF assms(1)] eqp_CommandComplete_total [of T m] eqp_ReadyForQuery_total [of T m]
  unfolding eqp_S2C_def s2c_msg_def by auto

section \<open>Contract of the middlewares\<close>

text \<open>
  The two ends of a session: the connection of a client, from which client packets are read, and the
  connection to a server.
\<close>

datatype conn_side = ClientSide | ServerSide

primrec reads_ok :: "conn_side \<Rightarrow> msg \<Rightarrow> bool" where
  "reads_ok ClientSide m = c2s_msg m"
| "reads_ok ServerSide m = s2c_msg m"

primrec writes_ok :: "conn_side \<Rightarrow> msg \<Rightarrow> bool" where
  "writes_ok ClientSide m = s2c_msg m"
| "writes_ok ServerSide m = c2s_msg m"

primrec mw_ok :: "conn_side \<Rightarrow> middleware \<Rightarrow> bool" where
  "mw_ok sd (MwEqpClient T) = (sd = ClientSide \<and> eqp_inv T)"
| "mw_ok sd (MwEqpServer T) = (sd = ServerSide \<and> eqp_inv T)"
| "mw_ok sd (MwPsClient T) = (sd = ClientSide)"
| "mw_ok sd (MwPsServer T) = (sd = ServerSide)"
| "mw_ok sd (MwHybrid T) = (sd = ClientSide \<and> (\<forall>m\<in>set (hm_buf T). c2s_msg m) \<and> (\<not> hm_primary T \<longrightarrow> hm_pos T = length (hm_buf T)))"
| "mw_ok sd MwUnterminate = True"
| "mw_ok sd MwTrace = True"

text \<open>The kind of a middleware, and the packets that it has still to replay.\<close>

datatype mw_kind = KEqpClient | KEqpServer | KPsClient | KPsServer | KHybrid | KUnterminate | KTrace

primrec kind_of :: "middleware \<Rightarrow> mw_kind" where
  "kind_of (MwEqpClient T) = KEqpClient"
| "kind_of (MwEqpServer T) = KEqpServer"
| "kind_of (MwPsClient T) = KPsClient"
| "kind_of (MwPsServer T) = KPsServer"
| "kind_of (MwHybrid T) = KHybrid"
| "kind_of MwUnterminate = KUnterminate"
| "kind_of MwTrace = KTrace"

primrec unread :: "middleware \<Rightarrow> msg list" where
  "unread (MwEqpClient T) = []"
| "unread (MwEqpServer T) = []"
| "unread (MwPsClient T) = []"
| "unread (MwPsServer T) = []"
| "unread (MwHybrid T) = (if hm_primary T then drop (hm_pos T) (hm_buf T) else [])"
| "unread MwUnterminate = []"
| "unread MwTrace = []"

abbreviation mw_frame :: "middleware \<Rightarrow> mw_kind \<times> msg list" where
  "mw_frame w \<equiv> (kind_of w, unread w)"

text \<open>
  What \<^verbatim>\<open>Conn\<close> relies on: a middleware answers every packet of its direction, never changes one, keeps back only packets
  that it may drop, and what it has to replay does not change on the way.
\<close>

locale packet_filter =
  fixes handle :: "msg \<Rightarrow> middleware \<Rightarrow> mw_result"
    and good :: "middleware \<Rightarrow> bool"
    and fits :: "msg \<Rightarrow> bool"
    and droppable :: "msg \<Rightarrow> middleware \<Rightarrow> bool"
  assumes handle_ok: "good m \<Longrightarrow> fits p \<Longrightarrow>
    \<exists>r m'. handle p m = Some (r, m') \<and> good m' \<and> mw_frame m' = mw_frame m \<and>
      (r = Inr (Some p) \<or> (\<exists>e. r = Inl e) \<or> r = Inr None \<and> droppable p m)"
begin

lemma through_ok:
  assumes "\<forall>w\<in>set ws. good w" "fits p"
  shows "\<exists>r ws'. mw_through handle p ws = Some (r, ws') \<and> (\<forall>w\<in>set ws'. good w) \<and> map mw_frame ws' = map mw_frame ws \<and>
    (r = Inr (Some p) \<or> (\<exists>e. r = Inl e) \<or> r = Inr None \<and> (\<exists>w\<in>set ws. droppable p w))"
  using assms(1)
proof (induction ws)
  case (Cons w ws)
  from Cons.prems have "good w" by simp
  from handle_ok [OF this assms(2)] obtain r w' where w: "handle p w = Some (r, w')" "good w'" "mw_frame w' = mw_frame w"
    "r = Inr (Some p) \<or> (\<exists>e. r = Inl e) \<or> r = Inr None \<and> droppable p w" by (elim exE conjE) rule
  from Cons obtain r' ws' where "mw_through handle p ws = Some (r', ws')" "\<forall>w\<in>set ws'. good w" "map mw_frame ws' = map mw_frame ws"
    "r' = Inr (Some p) \<or> (\<exists>e. r' = Inl e) \<or> r' = Inr None \<and> (\<exists>w\<in>set ws. droppable p w)" by auto
  with w Cons.prems show ?case by auto
qed simp

end

lemma eqp_wrap_ok:
  "\<exists>r T'. f = Some (r, T') \<and> eqp_inv T' \<and> (r = Inr m \<or> (\<exists>e. r = Inl e)) \<Longrightarrow>
   \<exists>r T'. eqp_wrap C f = Some (r, C T') \<and> eqp_inv T' \<and> (r = Inr (Some m) \<or> (\<exists>e. r = Inl e))"
  by (auto simp: eqp_wrap_def)

lemma mw_ReadPacket_ok:
  assumes "mw_ok sd w" "reads_ok sd m"
  shows "\<exists>r w'. mw_ReadPacket m w = Some (r, w') \<and> mw_ok sd w' \<and> mw_frame w' = mw_frame w \<and> (r = Inr (Some m) \<or> (\<exists>e. r = Inl e))"
proof (cases w)
  case (MwEqpClient T)
  with assms eqp_wrap_ok [OF eqp_C2S_total, of T m MwEqpClient] show ?thesis by auto
next
  case (MwEqpServer T)
  with assms eqp_wrap_ok [OF eqp_S2C_total, of T m MwEqpServer] show ?thesis by auto
next
  case (MwPsServer T)
  with assms to_ParameterStatus_Inr [of m] show ?thesis
    by (auto simp: ps_Server_ReadPacket_def s2c_msg_def split: sum.split)
next
  case (MwHybrid T)
  with assms show ?thesis by (auto simp: hybrid_ReadPacket_def Let_def)
qed (use assms in auto)

lemma hybrid_WritePacket_ok:
  assumes "s2c_msg m"
  shows "\<exists>r. hybrid_WritePacket m T = Some r \<and> (r = Inr (Some m) \<or> (\<exists>e. r = Inl e) \<or> r = Inr None)"
  using assms to_MarkiplierResponse_Inr [of m]
  by (auto simp: hybrid_WritePacket_def s2c_msg_def split: sum.split)

lemma mw_WritePacket_ok:
  assumes "mw_ok sd w" "writes_ok sd m"
  shows "\<exists>r w'. mw_WritePacket m w = Some (r, w') \<and> mw_ok sd w' \<and> mw_frame w' = mw_frame w \<and>
    (r = Inr (Some m) \<or> (\<exists>e. r = Inl e) \<or> r = Inr None \<and> sd = ClientSide \<and> (msg_Type m = TypeParameterStatus \<or> kind_of w = KHybrid))"
proof (cases w)
  case (MwEqpClient T)
  with assms eqp_wrap_ok [OF eqp_S2C_total, of T m MwEqpClient] show ?thesis by auto
next
  case (MwEqpServer T)
  with assms eqp_wrap_ok [OF eqp_C2S_total, of T m MwEqpServer] show ?thesis by auto
next
  case (MwPsClient T)
  with assms to_ParameterStatus_Inr [of m] show ?thesis
    by (auto simp: ps_Client_WritePacket_def s2c_msg_def Let_def split: sum.split)
next
  case (MwHybrid T)
  with assms have s: "sd = ClientSide" "s2c_msg m" by auto
  from hybrid_WritePacket_ok [OF s(2), of T] MwHybrid assms s(1) show ?thesis by auto
qed (use assms in auto)

interpretation rd: packet_filter mw_ReadPacket "mw_ok sd" "reads_ok sd" "\<lambda>_ _. False" for sd
  by unfold_locales (use mw_ReadPacket_ok in auto)

interpretation wr: packet_filter mw_WritePacket "mw_ok sd" "writes_ok sd"
  "\<lambda>m w. sd = ClientSide \<and> (msg_Type m = TypeParameterStatus \<or> kind_of w = KHybrid)" for sd
  by unfold_locales (use mw_WritePacket_ok in auto)

section \<open>Reading and writing\<close>

text \<open>Without a packet to replay, reading starts at the codec.\<close>

lemma mw_PreRead_none: "unread w = [] \<Longrightarrow> mw_PreRead typed w = Some (Inr None, w)"
  by (cases w) (auto simp: hybrid_PreRead_def hybrid_Buffered_def split: if_splits)

lemma conn_PreRead_none:
  "i \<le> length (cn_Middleware T) \<Longrightarrow> \<forall>w\<in>set (drop i (cn_Middleware T)). unread w = [] \<Longrightarrow> conn_PreRead typed i T = Some (Inr None, T)"
proof (induction "length (cn_Middleware T) - i" arbitrary: i)
  case 0
  then show ?case by (subst conn_PreRead.simps) simp
next
  case (Suc n)
  then have i: "i < length (cn_Middleware T)" by simp
  have d: "drop i (cn_Middleware T) = cn_Middleware T ! i # drop (i + 1) (cn_Middleware T)" using Cons_nth_drop_Suc [OF i] by simp
  have "mw_PreRead typed (cn_Middleware T ! i) = Some (Inr None, cn_Middleware T ! i)"
    using Suc.prems(2) unfolding d by (intro mw_PreRead_none) simp
  with Suc i show ?case unfolding d by (subst conn_PreRead.simps) simp
qed

lemma conn_PostWrite_none: "n \<le> length (cn_Middleware T) \<Longrightarrow> conn_PostWrite n T = Some (None, T)"
proof (induction n)
  case (Suc n)
  then show ?case by (subst conn_PostWrite.simps) simp
qed (subst conn_PostWrite.simps, simp)

definition conn_inv :: "conn_side \<Rightarrow> conn \<Rightarrow> bool" where
  "conn_inv sd T \<longleftrightarrow> (\<forall>w\<in>set (cn_Middleware T). mw_ok sd w) \<and> (\<forall>r\<in>set (cn_inbox T). \<forall>m. r = Inr m \<longrightarrow> reads_ok sd m)"

text \<open>The fields that packets do not touch.\<close>

definition conn_rest :: "conn \<Rightarrow> conn" where
  "conn_rest T = T\<lparr>cn_inbox := [], cn_outbox := [], cn_writes := [], cn_flushes := [], cn_Middleware := []\<rparr>"

lemma conn_rest_upd [simp]:
  "conn_rest (T\<lparr>cn_inbox := a\<rparr>) = conn_rest T" "conn_rest (T\<lparr>cn_outbox := b\<rparr>) = conn_rest T"
  "conn_rest (T\<lparr>cn_writes := c\<rparr>) = conn_rest T" "conn_rest (T\<lparr>cn_flushes := d\<rparr>) = conn_rest T"
  "conn_rest (T\<lparr>cn_Middleware := e\<rparr>) = conn_rest T"
  by (simp_all add: conn_rest_def)

lemma conn_Flush_frame: "\<exists>f fs. conn_Flush T = (f, T\<lparr>cn_flushes := fs\<rparr>)"
  by (cases "cn_flushes T") (auto simp: conn_Flush_def intro: exI [of _ "[]"])

lemma conn_writePacket_frame:
  "\<exists>e ws. conn_writePacket m T = (e, T\<lparr>cn_writes := ws, cn_outbox := cn_outbox T @ (if e = None then [m] else [])\<rparr>)"
proof (cases "cn_writes T")
  case Nil
  then have "conn_writePacket m T = (None, T\<lparr>cn_writes := [], cn_outbox := cn_outbox T @ [m]\<rparr>)"
    by (simp add: conn_writePacket_def)
  then show ?thesis by auto
next
  case (Cons w ws)
  then have "conn_writePacket m T = (w, T\<lparr>cn_writes := ws, cn_outbox := cn_outbox T @ (if w = None then [m] else [])\<rparr>)"
    by (cases w) (simp_all add: conn_writePacket_def)
  then show ?thesis by blast
qed

text \<open>What is left to read: the packets to replay, then those of the codec.\<close>

definition replay :: "conn \<Rightarrow> msg list" where
  "replay T = concat (map unread (cn_Middleware T))"

definition cn_todo :: "conn \<Rightarrow> (fed_error + msg) list" where
  "cn_todo T = map Inr (replay T) @ cn_inbox T"

abbreviation kinds :: "conn \<Rightarrow> mw_kind list" where
  "kinds T \<equiv> map kind_of (cn_Middleware T)"

lemma replay_nil: "KHybrid \<notin> set (kinds T) \<Longrightarrow> replay T = []"
proof -
  have "kind_of w \<noteq> KHybrid \<Longrightarrow> unread w = []" for w by (cases w) auto
  then show "KHybrid \<notin> set (kinds T) \<Longrightarrow> replay T = []" by (force simp: replay_def)
qed

lemma todo_plain: "KHybrid \<notin> set (kinds T) \<Longrightarrow> cn_todo T = cn_inbox T"
  by (simp add: cn_todo_def replay_nil)

lemma todo_server: "conn_inv ServerSide T \<Longrightarrow> cn_todo T = cn_inbox T"
proof -
  have k: "mw_ok ServerSide w \<Longrightarrow> kind_of w \<noteq> KHybrid" for w by (cases w) auto
  show "conn_inv ServerSide T \<Longrightarrow> cn_todo T = cn_inbox T" by (rule todo_plain) (use k in \<open>force simp: conn_inv_def\<close>)
qed

lemma todo_upd [simp]:
  "cn_todo (T\<lparr>cn_outbox := b\<rparr>) = cn_todo T" "cn_todo (T\<lparr>cn_writes := c\<rparr>) = cn_todo T" "cn_todo (T\<lparr>cn_flushes := d\<rparr>) = cn_todo T"
  by (simp_all add: cn_todo_def replay_def)

lemma todo_frame:
  "map mw_frame ws = map mw_frame (cn_Middleware T) \<Longrightarrow> map kind_of ws = kinds T \<and> cn_todo (T\<lparr>cn_Middleware := ws\<rparr>) = cn_todo T"
proof -
  assume f: "map mw_frame ws = map mw_frame (cn_Middleware T)"
  from arg_cong [OF f, of "map fst"] arg_cong [OF f, of "map snd"] show ?thesis by (simp add: cn_todo_def replay_def comp_def)
qed

text \<open>
  A read returns the next packet itself, or an error; it never returns a packet twice, and it leaves what was written
  as it is.
\<close>

definition conn_same :: "conn \<Rightarrow> conn \<Rightarrow> bool" where
  "conn_same T T' \<longleftrightarrow> conn_rest T' = conn_rest T \<and> kinds T' = kinds T"

definition read_post :: "conn_side \<Rightarrow> conn \<Rightarrow> fed_error + msg \<Rightarrow> conn \<Rightarrow> bool" where
  "read_post sd T r T' \<longleftrightarrow> conn_inv sd T' \<and> conn_same T T' \<and> cn_outbox T' = cn_outbox T \<and> cn_writes T' = cn_writes T \<and>
     (\<exists>pre. cn_inbox T = pre @ cn_inbox T') \<and>
     (case r of
        Inr m \<Rightarrow> reads_ok sd m \<and> cn_todo T = Inr m # cn_todo T'
      | Inl e \<Rightarrow> cn_todo T' = cn_todo T \<or> (\<exists>x. cn_todo T = x # cn_todo T'))"

lemma conn_same_refl [simp]: "conn_same T T"
  by (simp add: conn_same_def)

lemma conn_same_trans: "conn_same T T' \<Longrightarrow> conn_same T' T'' \<Longrightarrow> conn_same T T''"
  by (simp add: conn_same_def)

lemma mw_PreRead_some:
  assumes "mw_ok sd w" "unread w = m # ms"
  shows "\<exists>w'. mw_PreRead typed w = Some (Inr (Some m), w') \<and> mw_ok sd w' \<and> kind_of w' = kind_of w \<and> unread w' = ms \<and> reads_ok sd m"
proof (cases w)
  case (MwHybrid T)
  with assms have p: "hm_primary T" "drop (hm_pos T) (hm_buf T) = m # ms" by (auto split: if_splits)
  then have l: "hm_pos T < length (hm_buf T)" by (metis drop_eq_Nil list.distinct(1) not_le)
  with p(2) have "hm_buf T ! hm_pos T = m" "drop (Suc (hm_pos T)) (hm_buf T) = ms" by (metis Cons_nth_drop_Suc list.inject)+
  with MwHybrid p(1) l assms(1) show ?thesis by (auto simp: hybrid_PreRead_def hybrid_Buffered_def)
qed (use assms in auto)

lemma conn_read_from_ok:
  assumes "conn_inv sd T" "reads_ok sd m"
  shows "\<exists>r ws. conn_read_from i m T = Some (r, T\<lparr>cn_Middleware := ws\<rparr>) \<and> (\<forall>w\<in>set ws. mw_ok sd w) \<and>
    map mw_frame ws = map mw_frame (cn_Middleware T) \<and> (r = Inr (Some m) \<or> (\<exists>e. r = Inl e))"
proof -
  let ?a = "take i (cn_Middleware T)" and ?b = "drop i (cn_Middleware T)"
  have ok: "\<forall>w\<in>set ?a. mw_ok sd w" "\<forall>w\<in>set ?b. mw_ok sd w"
    using assms(1) by (auto simp: conn_inv_def dest: in_set_takeD in_set_dropD)
  from rd.through_ok [OF ok(2) assms(2)] obtain r ws' where w: "mw_through mw_ReadPacket m ?b = Some (r, ws')"
    "\<forall>w\<in>set ws'. mw_ok sd w" "map mw_frame ws' = map mw_frame ?b" "r = Inr (Some m) \<or> (\<exists>e. r = Inl e)" by (elim exE conjE) blast
  have "map mw_frame (?a @ ws') = map mw_frame (?a @ ?b)" unfolding map_append w(3) ..
  then have "map mw_frame (?a @ ws') = map mw_frame (cn_Middleware T)" by simp
  moreover have "conn_read_from i m T = Some (r, T\<lparr>cn_Middleware := ?a @ ws'\<rparr>)" using w(1) by (simp add: conn_read_from_def)
  moreover have "\<forall>w\<in>set (?a @ ws'). mw_ok sd w" using ok(1) w(2) by auto
  ultimately show ?thesis using w(4) by blast
qed

lemma conn_PreRead_replay:
  assumes "conn_inv sd T" "\<forall>w\<in>set (take i (cn_Middleware T)). unread w = []" "replay T = m # ms" "i \<le> length (cn_Middleware T)"
  shows "\<exists>r ws. conn_PreRead typed i T = Some (r, T\<lparr>cn_Middleware := ws\<rparr>) \<and> (\<forall>w\<in>set ws. mw_ok sd w) \<and> map kind_of ws = kinds T \<and>
    concat (map unread ws) = ms \<and> reads_ok sd m \<and> (r = Inr (Some m) \<or> (\<exists>e. r = Inl e))"
  using assms(2,4)
proof (induction "length (cn_Middleware T) - i" arbitrary: i)
  case 0
  then have "concat (map unread (cn_Middleware T)) = []" by simp
  with assms(3) show ?case by (simp add: replay_def)
next
  case (Suc n)
  let ?ws = "cn_Middleware T"
  from Suc have i: "i < length ?ws" by simp
  have sp: "?ws = take i ?ws @ ?ws ! i # drop (Suc i) ?ws" by (rule id_take_nth_drop [OF i])
  show ?case
  proof (cases "unread (?ws ! i)")
    case Nil
    have "\<forall>w\<in>set (take (i + 1) ?ws). unread w = []" using Suc.prems(1) Nil i by (simp add: take_Suc_conv_app_nth)
    with Suc.hyps(1) [of "i + 1"] Suc.hyps(2) i mw_PreRead_none [OF Nil, of typed] show ?thesis
      by (subst conn_PreRead.simps) simp
  next
    case (Cons m' ms')
    have c0: "concat (map unread (take i ?ws)) = []" using Suc.prems(1) by auto
    have "replay T = m' # ms' @ concat (map unread (drop (Suc i) ?ws))"
      unfolding replay_def by (subst sp) (simp add: c0 Cons)
    with assms(3) have m: "m' = m" "ms = ms' @ concat (map unread (drop (Suc i) ?ws))" by simp_all
    have "mw_ok sd (?ws ! i)" using assms(1) i by (simp add: conn_inv_def)
    from mw_PreRead_some [OF this Cons, of typed] obtain w' where
      w: "mw_PreRead typed (?ws ! i) = Some (Inr (Some m), w')" "mw_ok sd w'" "kind_of w' = kind_of (?ws ! i)" "unread w' = ms'" "reads_ok sd m"
      unfolding m(1) by (elim exE conjE) rule
    let ?T = "T\<lparr>cn_Middleware := ?ws[i := w']\<rparr>"
    have inv: "conn_inv sd ?T" using assms(1) w(2) by (auto simp: conn_inv_def dest: subsetD [OF set_update_subset_insert])
    from conn_read_from_ok [OF inv w(5), of i] obtain r ws where r: "conn_read_from i m ?T = Some (r, T\<lparr>cn_Middleware := ws\<rparr>)"
      "\<forall>w\<in>set ws. mw_ok sd w" "map mw_frame ws = map mw_frame (?ws[i := w'])" "r = Inr (Some m) \<or> (\<exists>e. r = Inl e)" by auto
    have u: "?ws[i := w'] = take i ?ws @ w' # drop (Suc i) ?ws" by (rule upd_conv_take_nth_drop [OF i])
    have k: "map kind_of (?ws[i := w']) = kinds T" by (subst (2) sp) (simp add: u w(3))
    have c: "concat (map unread (?ws[i := w'])) = ms" unfolding u m(2) by (simp add: c0 w(4))
    from todo_frame [of ws ?T] r(3) k have "map kind_of ws = kinds T" by simp
    moreover have "concat (map unread ws) = ms" using arg_cong [OF r(3), of "map snd"] c by (simp add: comp_def)
    ultimately show ?thesis using i w(1,5) r by (subst conn_PreRead.simps) auto
  qed
qed

lemmas conn_read_simps = conn_ReadPacket_def conn_ReadPacket_loop.simps conn_PreRead_none conn_readPacket_def

lemma conn_PreRead_empty: "replay T = [] \<Longrightarrow> conn_PreRead typed 0 T = Some (Inr None, T)"
  by (rule conn_PreRead_none) (auto simp: replay_def)

lemmas conn_read_empty = conn_ReadPacket_def conn_ReadPacket_loop.simps conn_PreRead_empty conn_readPacket_def

lemma conn_ReadPacket_packet:
  assumes "conn_inv sd T" "replay T = []" "conn_Flush T = (None, T\<lparr>cn_flushes := fs\<rparr>)" "cn_inbox T = Inr m # xs"
  shows "\<exists>r ws. conn_ReadPacket typed T = Some (r, T\<lparr>cn_flushes := fs, cn_inbox := xs, cn_Middleware := ws\<rparr>) \<and>
    (\<forall>w\<in>set ws. mw_ok sd w) \<and> map mw_frame ws = map mw_frame (cn_Middleware T) \<and> (r = Inr m \<or> (\<exists>e. r = Inl e))"
proof -
  let ?T = "T\<lparr>cn_flushes := fs, cn_inbox := xs\<rparr>"
  have "conn_inv sd ?T" "reads_ok sd m" using assms by (auto simp: conn_inv_def)
  from conn_read_from_ok [OF this, of 0] obtain r ws where r: "conn_read_from 0 m ?T = Some (r, ?T\<lparr>cn_Middleware := ws\<rparr>)"
    "\<forall>w\<in>set ws. mw_ok sd w" "map mw_frame ws = map mw_frame (cn_Middleware ?T)" "r = Inr (Some m) \<or> (\<exists>e. r = Inl e)" by (elim exE conjE) rule
  have e: "replay (T\<lparr>cn_flushes := fs\<rparr>) = []" using assms(2) by (simp add: replay_def)
  from r(4) show ?thesis
  proof
    assume "r = Inr (Some m)"
    with r assms e show ?thesis by (intro exI [of _ "Inr m"] exI [of _ ws]) (simp add: conn_read_empty)
  next
    assume "\<exists>e. r = Inl e"
    with r assms e show ?thesis by (auto simp: conn_read_empty)
  qed
qed

lemma conn_ReadPacket_ok:
  assumes "conn_inv sd T"
  shows "\<exists>r T'. conn_ReadPacket typed T = Some (r, T') \<and> read_post sd T r T'"
proof -
  from conn_Flush_frame [of T] obtain f fs where f: "conn_Flush T = (f, T\<lparr>cn_flushes := fs\<rparr>)" by (elim exE) rule
  let ?F = "T\<lparr>cn_flushes := fs\<rparr>"
  have re: "replay ?F = replay T" by (simp add: replay_def)
  consider (flush) e where "f = Some e" | (replays) m ms where "f = None" "replay T = m # ms" | (eof) "f = None" "replay T = []" "cn_inbox T = []"
    | (err) e xs where "f = None" "replay T = []" "cn_inbox T = Inl e # xs" | (pkt) m xs where "f = None" "replay T = []" "cn_inbox T = Inr m # xs"
    by (metis list.exhaust option.exhaust sum.exhaust)
  then show ?thesis
  proof cases
    case flush
    with f assms show ?thesis by (simp add: conn_ReadPacket_def read_post_def conn_inv_def conn_same_def)
  next
    case replays
    have "conn_inv sd ?F" using assms by (simp add: conn_inv_def)
    from conn_PreRead_replay [OF this, of 0 m ms typed] replays(2) re obtain r ws where
      r: "conn_PreRead typed 0 ?F = Some (r, ?F\<lparr>cn_Middleware := ws\<rparr>)" "\<forall>w\<in>set ws. mw_ok sd w" "map kind_of ws = kinds T"
        "concat (map unread ws) = ms" "reads_ok sd m" "r = Inr (Some m) \<or> (\<exists>e. r = Inl e)" by auto
    have post: "conn_inv sd (?F\<lparr>cn_Middleware := ws\<rparr>)" "conn_same T (?F\<lparr>cn_Middleware := ws\<rparr>)"
      "cn_todo T = Inr m # cn_todo (?F\<lparr>cn_Middleware := ws\<rparr>)"
      using assms r replays(2) by (simp_all add: conn_inv_def conn_same_def cn_todo_def replay_def)
    from r(6) show ?thesis
    proof
      assume "r = Inr (Some m)"
      with f r post replays(1) show ?thesis by (simp add: conn_ReadPacket_def conn_ReadPacket_loop.simps read_post_def)
    next
      assume "\<exists>e. r = Inl e"
      with f r post replays(1) show ?thesis by (auto simp: conn_ReadPacket_def conn_ReadPacket_loop.simps read_post_def)
    qed
  next
    case eof
    with f re assms show ?thesis by (simp add: conn_read_empty read_post_def conn_inv_def conn_same_def)
  next
    case err
    let ?E = "?F\<lparr>cn_inbox := xs\<rparr>"
    have "replay ?E = replay T" by (simp add: replay_def)
    then have "cn_todo T = Inl e # cn_todo ?E" using err by (simp add: cn_todo_def)
    with f re assms err show ?thesis by (simp add: conn_read_empty read_post_def conn_inv_def conn_same_def)
  next
    case pkt
    from conn_ReadPacket_packet [OF assms pkt(2) f [unfolded pkt] pkt(3), of typed] obtain r ws where
      r: "conn_ReadPacket typed T = Some (r, T\<lparr>cn_flushes := fs, cn_inbox := xs, cn_Middleware := ws\<rparr>)"
      "\<forall>w\<in>set ws. mw_ok sd w" "map mw_frame ws = map mw_frame (cn_Middleware T)" "r = Inr m \<or> (\<exists>e. r = Inl e)" by (elim exE conjE) rule
    let ?P = "T\<lparr>cn_flushes := fs, cn_inbox := xs, cn_Middleware := ws\<rparr>"
    have k: "map kind_of ws = kinds T" and "replay ?P = replay T"
      using todo_frame [OF r(3)] arg_cong [OF r(3), of "map snd"] by (simp_all add: comp_def replay_def)
    then have "cn_todo T = Inr m # cn_todo ?P" using pkt by (simp add: cn_todo_def)
    with k have "read_post sd T r ?P"
      using r(2,4) assms pkt by (auto simp: read_post_def conn_inv_def conn_same_def)
    with r(1) show ?thesis by blast
  qed
qed

text \<open>
  A write appends the packet to the output, or drops it (for a client only: a parameter status, or what a replay
  answers), or fails.
\<close>

definition write_post :: "conn_side \<Rightarrow> msg \<Rightarrow> conn \<Rightarrow> fed_error option \<Rightarrow> conn \<Rightarrow> bool" where
  "write_post sd m T r T' \<longleftrightarrow> conn_inv sd T' \<and> conn_same T T' \<and> cn_inbox T' = cn_inbox T \<and> cn_todo T' = cn_todo T \<and>
     (if r = None
      then cn_outbox T' = cn_outbox T @ [m] \<or>
        cn_outbox T' = cn_outbox T \<and> sd = ClientSide \<and> (msg_Type m = TypeParameterStatus \<or> KHybrid \<in> set (kinds T))
      else cn_outbox T' = cn_outbox T)"

lemma conn_WritePacket_ok:
  assumes "conn_inv sd T" "writes_ok sd m"
  shows "\<exists>r T'. conn_WritePacket m T = Some (r, T') \<and> write_post sd m T r T'"
proof -
  let ?ws = "cn_Middleware T"
  have "\<forall>w\<in>set (rev ?ws). mw_ok sd w" using assms by (simp add: conn_inv_def)
  from wr.through_ok [OF this assms(2)] obtain r ws' where w: "mw_through mw_WritePacket m (rev ?ws) = Some (r, ws')"
    "\<forall>w\<in>set ws'. mw_ok sd w" "map mw_frame ws' = map mw_frame (rev ?ws)"
    and c: "r = Inr (Some m) \<or> (\<exists>e. r = Inl e) \<or>
      r = Inr None \<and> sd = ClientSide \<and> (msg_Type m = TypeParameterStatus \<or> KHybrid \<in> set (kinds T))"
    by (elim exE conjE) (force simp: image_iff)
  have fr: "map mw_frame (rev ws') = map mw_frame ?ws" using arg_cong [OF w(3), of rev] by (simp add: rev_map)
  let ?T = "T\<lparr>cn_Middleware := rev ws'\<rparr>"
  have len: "length ws' = length ?ws" using arg_cong [OF w(3), of length] by simp
  have wf: "conn_write_from (length ?ws) m T = Some (r, ?T)" using w by (simp add: conn_write_from_def)
  have inv: "conn_inv sd ?T" "conn_same T ?T" "cn_todo ?T = cn_todo T"
    using assms w todo_frame [OF fr] by (simp_all add: conn_inv_def conn_same_def)
  from c show ?thesis
  proof (elim disjE exE conjE)
    assume r: "r = Inr (Some m)"
    from conn_writePacket_frame [of m ?T] obtain e u where
      e: "conn_writePacket m ?T = (e, ?T\<lparr>cn_writes := u, cn_outbox := cn_outbox ?T @ (if e = None then [m] else [])\<rparr>)"
      by (elim exE) rule
    let ?T' = "?T\<lparr>cn_writes := u, cn_outbox := cn_outbox ?T @ (if e = None then [m] else [])\<rparr>"
    have "conn_WritePacket m T = Some (e, ?T')" using wf r e len by (cases e) (simp_all add: conn_WritePacket_def conn_PostWrite_none)
    moreover have "write_post sd m T e ?T'" using inv by (simp add: write_post_def conn_inv_def conn_same_def)
    ultimately show ?thesis by blast
  next
    fix e assume "r = Inl e"
    with wf have "conn_WritePacket m T = Some (Some e, ?T)" by (simp add: conn_WritePacket_def)
    moreover have "write_post sd m T (Some e) ?T" using inv by (simp add: write_post_def)
    ultimately show ?thesis by blast
  next
    assume "r = Inr None" and d: "sd = ClientSide" "msg_Type m = TypeParameterStatus"
    with wf len have "conn_WritePacket m T = Some (None, ?T)" by (simp add: conn_WritePacket_def conn_PostWrite_none)
    moreover have "write_post sd m T None ?T" using inv d by (simp add: write_post_def)
    ultimately show ?thesis by blast
  next
    assume "r = Inr None" and d: "sd = ClientSide" "KHybrid \<in> set (kinds T)"
    with wf len have "conn_WritePacket m T = Some (None, ?T)" by (simp add: conn_WritePacket_def conn_PostWrite_none)
    moreover have "write_post sd m T None ?T" using inv d by (simp add: write_post_def)
    ultimately show ?thesis by blast
  qed
qed

end
