(* ===== verification/Backend_Query.thy ===== *)
theory Backend_Query
  imports Fed_Conn
begin

text \<open>
  The query machine of \<^verbatim>\<open>lib/bouncer/backends/v0\<close> (\<^verbatim>\<open>context.go\<close>, \<^verbatim>\<open>query.go\<close>) and \<^verbatim>\<open>Bounce\<close> of \<^verbatim>\<open>lib/bouncer/bouncers/v2\<close>:
  one transaction between a client (the peer) and a server.  \<^verbatim>\<open>Peer = nil\<close> is the flag \<^verbatim>\<open>b_HasPeer\<close>, so that the
  connection of the peer is still there when the transaction returns.  \<^term>\<open>None\<close> is a panic, or a loop that
  does not return; an error is an optional value, as in the code.
\<close>

record binding =
  b_Server :: conn
  b_Peer :: conn
  b_HasPeer :: bool
  b_Packet :: "msg option"
  b_PeerError :: "fed_error option"
  b_TxState :: byte

type_synonym backend = "binding \<Rightarrow> (fed_error option \<times> binding) option"

section \<open>Operations on the two connections\<close>

text \<open>The type of the current packet; a nil packet panics.\<close>

definition packet_type :: "binding \<Rightarrow> byte option" where
  "packet_type T = map_option msg_Type (b_Packet T)"

definition ServerRead :: backend where
  "ServerRead T = do {
     (r, s) \<leftarrow> conn_ReadPacket True (b_Server T);
     case r of
       Inl err \<Rightarrow> Some (Some err, T\<lparr>b_Server := s, b_Packet := None\<rparr>)
     | Inr packet \<Rightarrow> Some (None, T\<lparr>b_Server := s, b_Packet := Some packet\<rparr>)
   }"

definition ServerWrite :: backend where
  "ServerWrite T = do {
     packet \<leftarrow> b_Packet T;
     (err, s) \<leftarrow> conn_WritePacket packet (b_Server T);
     Some (err, T\<lparr>b_Server := s\<rparr>)
   }"

definition PeerOK :: "binding \<Rightarrow> bool" where
  "PeerOK T \<longleftrightarrow> b_HasPeer T \<and> b_PeerError T = None"

definition PeerFail :: "fed_error \<Rightarrow> binding \<Rightarrow> binding" where
  "PeerFail err T = T\<lparr>b_HasPeer := False, b_PeerError := Some err\<rparr>"

definition PeerRead :: "binding \<Rightarrow> (bool \<times> binding) option" where
  "PeerRead T =
     (if \<not> PeerOK T then Some (False, T)
      else do {
        (r, p) \<leftarrow> conn_ReadPacket True (b_Peer T);
        case r of
          Inl err \<Rightarrow> Some (False, PeerFail err (T\<lparr>b_Peer := p, b_Packet := None\<rparr>))
        | Inr packet \<Rightarrow> Some (True, T\<lparr>b_Peer := p, b_Packet := Some packet\<rparr>)
      })"

definition PeerWrite :: "binding \<Rightarrow> binding option" where
  "PeerWrite T =
     (if \<not> PeerOK T then Some T
      else do {
        packet \<leftarrow> b_Packet T;
        (err, p) \<leftarrow> conn_WritePacket packet (b_Peer T);
        case err of
          None \<Rightarrow> Some (T\<lparr>b_Peer := p\<rparr>)
        | Some err \<Rightarrow> Some (PeerFail err (T\<lparr>b_Peer := p\<rparr>))
      })"

section \<open>Copy\<close>

partial_function (option) copyIn_loop :: backend where
  "copyIn_loop T = do {
     (ok, T) \<leftarrow> PeerRead T;
     if \<not> ok then ServerWrite (T\<lparr>b_Packet := Some (Msg (PCopyFail ''peer failed''))\<rparr>)
     else do {
       t \<leftarrow> packet_type T;
       if t = TypeCopyData then do {
         (err, T) \<leftarrow> ServerWrite T;
         case err of Some err \<Rightarrow> Some (Some err, T) | None \<Rightarrow> copyIn_loop T
       }
       else if t = TypeCopyDone \<or> t = TypeCopyFail then ServerWrite T
       else copyIn_loop (PeerFail (EUnexpectedPacket t) T)
     }
   }"

definition copyIn :: backend where
  "copyIn T = do { T \<leftarrow> PeerWrite T; copyIn_loop T }"

partial_function (option) copyOut_loop :: backend where
  "copyOut_loop T = do {
     (err, T) \<leftarrow> ServerRead T;
     case err of
       Some err \<Rightarrow> Some (Some err, T)
     | None \<Rightarrow> do {
         t \<leftarrow> packet_type T;
         if t \<in> {TypeCopyData, TypeNoticeResponse, TypeParameterStatus, TypeNotificationResponse} then do {
           T \<leftarrow> PeerWrite T;
           copyOut_loop T
         }
         else if t \<in> {TypeCopyDone, TypeMarkiplierResponse} then do { T \<leftarrow> PeerWrite T; Some (None, T) }
         else Some (Some (EUnexpectedPacket t), T)
       }
   }"

definition copyOut :: backend where
  "copyOut T = do { T \<leftarrow> PeerWrite T; copyOut_loop T }"

section \<open>Simple query and function call\<close>

text \<open>The branch for \<^verbatim>\<open>ReadyForQuery\<close>, the same in the three loops.\<close>

definition ready_for_query :: backend where
  "ready_for_query T = do {
     packet \<leftarrow> b_Packet T;
     r \<leftarrow> to_ReadyForQuery packet;
     case r of
       Inl err \<Rightarrow> Some (Some err, T)
     | Inr p \<Rightarrow> do {
         T \<leftarrow> PeerWrite (T\<lparr>b_Packet := Some (Msg (PReadyForQuery p)), b_TxState := p\<rparr>);
         Some (None, T)
       }
   }"

partial_function (option) query_loop :: backend where
  "query_loop T = do {
     (err, T) \<leftarrow> ServerRead T;
     case err of
       Some err \<Rightarrow> Some (Some err, T)
     | None \<Rightarrow> do {
         t \<leftarrow> packet_type T;
         if t \<in> {TypeCommandComplete, TypeRowDescription, TypeDataRow, TypeEmptyQueryResponse, TypeMarkiplierResponse,
             TypeNoticeResponse, TypeParameterStatus, TypeNotificationResponse} then do {
           T \<leftarrow> PeerWrite T;
           query_loop T
         }
         else if t = TypeCopyInResponse then do {
           (err, T) \<leftarrow> copyIn T;
           case err of Some err \<Rightarrow> Some (Some err, T) | None \<Rightarrow> query_loop T
         }
         else if t = TypeCopyOutResponse then do {
           (err, T) \<leftarrow> copyOut T;
           case err of Some err \<Rightarrow> Some (Some err, T) | None \<Rightarrow> query_loop T
         }
         else if t = TypeReadyForQuery then ready_for_query T
         else Some (Some (EUnexpectedPacket t), T)
       }
   }"

definition query :: backend where
  "query T = do {
     (err, T) \<leftarrow> ServerWrite T;
     case err of Some err \<Rightarrow> Some (Some err, T) | None \<Rightarrow> query_loop T
   }"

definition queryString :: "string \<Rightarrow> backend" where
  "queryString q T = query (T\<lparr>b_Packet := Some (Msg (PQuery q))\<rparr>)"

text \<open>A binding for a call from outside, the peer being optional.\<close>

definition new_binding :: "conn \<Rightarrow> conn option \<Rightarrow> msg option \<Rightarrow> binding" where
  "new_binding server peer packet =
     \<lparr>b_Server = server, b_Peer = (case peer of Some c \<Rightarrow> c | None \<Rightarrow> NewConn []), b_HasPeer = (peer \<noteq> None),
      b_Packet = packet, b_PeerError = None, b_TxState = 0\<rparr>"

type_synonym backend_result = "((fed_error option \<times> fed_error option) \<times> conn \<times> conn) option"

definition binding_result :: "(fed_error option \<times> binding) option \<Rightarrow> backend_result" where
  "binding_result r = map_option (\<lambda>(err, T). ((err, b_PeerError T), b_Server T, b_Peer T)) r"

definition QueryString :: "conn \<Rightarrow> conn option \<Rightarrow> string \<Rightarrow> backend_result" where
  "QueryString server peer q = binding_result (queryString q (new_binding server peer None))"

definition SetParameter_sql :: "CIString \<Rightarrow> string \<Rightarrow> string" where
  "SetParameter_sql name v = ''SET '' @ [CHR 0x22] @ Escape name (CHR 0x22) @ [CHR 0x22] @ '' = '' @ [CHR 0x27] @
     Escape v (CHR 0x27) @ [CHR 0x27]"

definition SetParameter :: "conn \<Rightarrow> conn option \<Rightarrow> CIString \<Rightarrow> string \<Rightarrow> backend_result" where
  "SetParameter server peer name v = QueryString server peer (SetParameter_sql name v)"

partial_function (option) functionCall_loop :: backend where
  "functionCall_loop T = do {
     (err, T) \<leftarrow> ServerRead T;
     case err of
       Some err \<Rightarrow> Some (Some err, T)
     | None \<Rightarrow> do {
         t \<leftarrow> packet_type T;
         if t \<in> {TypeMarkiplierResponse, TypeFunctionCallResponse, TypeNoticeResponse, TypeParameterStatus,
             TypeNotificationResponse} then do {
           T \<leftarrow> PeerWrite T;
           functionCall_loop T
         }
         else if t = TypeReadyForQuery then ready_for_query T
         else Some (Some (EUnexpectedPacket t), T)
       }
   }"

definition functionCall :: backend where
  "functionCall T = do {
     (err, T) \<leftarrow> ServerWrite T;
     case err of Some err \<Rightarrow> Some (Some err, T) | None \<Rightarrow> functionCall_loop T
   }"

section \<open>Extended query\<close>

partial_function (option) sync_loop :: "binding \<Rightarrow> ((bool \<times> fed_error option) \<times> binding) option" where
  "sync_loop T = do {
     (err, T) \<leftarrow> ServerRead T;
     case err of
       Some err \<Rightarrow> Some ((False, Some err), T)
     | None \<Rightarrow> do {
         t \<leftarrow> packet_type T;
         if t \<in> {TypeParseComplete, TypeBindComplete, TypeCloseComplete, TypeMarkiplierResponse, TypeRowDescription, TypeNoData,
             TypeParameterDescription, TypeCommandComplete, TypeDataRow, TypeEmptyQueryResponse, TypePortalSuspended,
             TypeNoticeResponse, TypeParameterStatus, TypeNotificationResponse} then do {
           T \<leftarrow> PeerWrite T;
           sync_loop T
         }
         else if t = TypeCopyInResponse then do {
           (err, T) \<leftarrow> copyIn T;
           Some ((False, err), T)
         }
         else if t = TypeCopyOutResponse then do {
           (err, T) \<leftarrow> copyOut T;
           case err of Some err \<Rightarrow> Some ((False, Some err), T) | None \<Rightarrow> sync_loop T
         }
         else if t = TypeReadyForQuery then do {
           (err, T) \<leftarrow> ready_for_query T;
           Some ((err = None, err), T)
         }
         else Some ((False, Some (EUnexpectedPacket t)), T)
       }
   }"

definition sync :: "binding \<Rightarrow> ((bool \<times> fed_error option) \<times> binding) option" where
  "sync T = do {
     (err, T) \<leftarrow> ServerWrite T;
     case err of Some err \<Rightarrow> Some ((False, Some err), T) | None \<Rightarrow> sync_loop T
   }"

definition Sync_packet :: msg where
  "Sync_packet = Msg (PSync Sync)"

definition Backend_Sync :: "conn \<Rightarrow> conn option \<Rightarrow> backend_result" where
  "Backend_Sync server peer =
     binding_result (map_option (\<lambda>((_, err), T). (err, T)) (sync (new_binding server peer (Some Sync_packet))))"

text \<open>The inner loop once the peer is gone.\<close>

partial_function (option) eqp_drain :: backend where
  "eqp_drain T = do {
     ((ok, err), T) \<leftarrow> sync (T\<lparr>b_Packet := Some Sync_packet\<rparr>);
     case err of
       Some err \<Rightarrow> Some (Some err, T)
     | None \<Rightarrow> if ok then Some (None, T) else eqp_drain T
   }"

definition eqp_types :: "byte set" where
  "eqp_types = {TypeParse, TypeBind, TypeClose, TypeDescribe, TypeExecute, TypeFlush}"

partial_function (option) eqp_loop :: backend where
  "eqp_loop T = do {
     (ok, T) \<leftarrow> PeerRead T;
     if \<not> ok then eqp_drain T
     else do {
       t \<leftarrow> packet_type T;
       if t = TypeSync then do {
         ((ok, err), T) \<leftarrow> sync T;
         case err of
           Some err \<Rightarrow> Some (Some err, T)
         | None \<Rightarrow> if ok then Some (None, T) else eqp_loop T
       }
       else if t \<in> eqp_types then do {
         (err, T) \<leftarrow> ServerWrite T;
         case err of Some err \<Rightarrow> Some (Some err, T) | None \<Rightarrow> eqp_loop T
       }
       else eqp_loop (PeerFail (EUnexpectedPacket t) T)
     }
   }"

definition eqp :: backend where
  "eqp T = do {
     (err, T) \<leftarrow> ServerWrite T;
     case err of Some err \<Rightarrow> Some (Some err, T) | None \<Rightarrow> eqp_loop T
   }"

section \<open>Transaction\<close>

text \<open>The switch on the type of the packet.\<close>

definition transaction_step :: backend where
  "transaction_step T = do {
     t \<leftarrow> packet_type T;
     if t = TypeQuery then query T
     else if t = TypeFunctionCall then functionCall T
     else if t = TypeSync then do {
       T \<leftarrow> PeerWrite (T\<lparr>b_Packet := Some (Msg (PReadyForQuery (b_TxState T)))\<rparr>);
       Some (None, T)
     }
     else if t \<in> eqp_types then eqp T
     else Some (None, PeerFail (EUnexpectedPacket t) T)
   }"

definition transaction_abort :: backend where
  "transaction_abort T = do {
     (err, T) \<leftarrow> queryString ''ABORT;'' T;
     case err of
       Some err \<Rightarrow> Some (Some err, T)
     | None \<Rightarrow> if b_TxState T \<noteq> type_code CHR ''I'' then Some (Some EExpectedIdle, T) else Some (None, T)
   }"

partial_function (option) transaction :: backend where
  "transaction T = do {
     (err, T) \<leftarrow> transaction_step T;
     case err of
       Some err \<Rightarrow> Some (Some err, T)
     | None \<Rightarrow>
         if b_TxState T = type_code CHR ''I'' then Some (None, T)
         else do {
           (ok, T) \<leftarrow> PeerRead T;
           if ok then transaction T else transaction_abort T
         }
   }"

definition Transaction :: "conn \<Rightarrow> conn \<Rightarrow> msg \<Rightarrow> backend_result" where
  "Transaction server peer initialPacket = binding_result (transaction (new_binding server (Some peer) (Some initialPacket)))"

definition Bounce :: "conn \<Rightarrow> conn \<Rightarrow> msg \<Rightarrow> ((fed_error option \<times> fed_error option) \<times> conn \<times> conn) option" where
  "Bounce client server initialPacket =
     map_option (\<lambda>((serverError, clientError), s, c). ((clientError, serverError), c, s)) (Transaction server client initialPacket)"

definition Cancel :: "conn \<Rightarrow> BackendKey \<Rightarrow> (fed_error option \<times> conn) option" where
  "Cancel server key = conn_WritePacket (Msg (PStartup \<lparr>Startup_Mode =
     StartupControl \<lparr>StartupPayloadControl_Mode = ControlCancel
       \<lparr>StartupPayloadControlPayloadCancel_ProcessID = bk_ProcessID key,
        StartupPayloadControlPayloadCancel_SecretKey = bk_SecretKey key\<rparr>\<rparr>\<rparr>)) server"

section \<open>The relay as an automaton\<close>

text \<open>
  What a transaction is allowed to do: it holds at most one packet at a time.  A packet from the server must be
  written to the peer before anything else happens, a packet of the peer must be written to the server, or make
  the peer fail, or (a \<^verbatim>\<open>Sync\<close> outside of a pipeline) be answered by \<^verbatim>\<open>ReadyForQuery\<close> with the current transaction state.
  The pooler's own packets are \<^verbatim>\<open>Sync\<close>, \<^verbatim>\<open>CopyFail\<close> and \<^verbatim>\<open>ABORT\<close>, and they are used only once the peer is gone; nothing
  follows a failure of the server.  The other components are the transaction state and whether the peer is there;
  \<^verbatim>\<open>PW m p\<close> is a write to the peer after which it is still there (\<^verbatim>\<open>p\<close>) or not.
\<close>

datatype bevent = SR msg | SW msg | SE | PR msg | PF | PW msg bool | Own msg | Tx byte

datatype hold = Idle | FromServer msg | FromPeer msg | ToServer msg | ToPeer msg | Broken

type_synonym relay = "hold \<times> byte \<times> bool"

definition own_packets :: "msg set" where
  "own_packets = {Sync_packet, Msg (PCopyFail ''peer failed''), Msg (PQuery ''ABORT;'')}"

fun relay_step :: "relay \<Rightarrow> bevent \<Rightarrow> relay option" where
  "relay_step (Idle, tx, p) (SR m) = Some (FromServer m, tx, p)"
| "relay_step (Idle, tx, p) (PR m) = (if p then Some (FromPeer m, tx, p) else None)"
| "relay_step (Idle, tx, p) PF = Some (Idle, tx, False)"
| "relay_step (Idle, tx, p) SE = Some (Broken, tx, p)"
| "relay_step (Idle, tx, p) (Own m) = (if \<not> p \<and> m \<in> own_packets then Some (ToServer m, tx, p) else None)"
| "relay_step (FromServer m, tx, p) (Tx s) = (if m = Msg (PReadyForQuery s) then Some (FromServer m, s, p) else None)"
| "relay_step (FromServer m, tx, p) (PW m' p') = (if m' = m \<and> (p' \<longrightarrow> p) then Some (Idle, tx, p') else None)"
| "relay_step (FromPeer m, tx, p) (SW m') = (if m' = m then Some (Idle, tx, p) else None)"
| "relay_step (FromPeer m, tx, p) PF = Some (Idle, tx, False)"
| "relay_step (FromPeer m, tx, p) SE = Some (Broken, tx, p)"
| "relay_step (FromPeer m, tx, p) (Own m') =
     (if msg_Type m = TypeSync \<and> m' = Msg (PReadyForQuery tx) then Some (ToPeer m', tx, p) else None)"
| "relay_step (ToServer m, tx, p) (SW m') = (if m' = m then Some (Idle, tx, p) else None)"
| "relay_step (ToServer m, tx, p) SE = Some (Broken, tx, p)"
| "relay_step (ToPeer m, tx, p) (PW m' p') = (if m' = m \<and> (p' \<longrightarrow> p) then Some (Idle, tx, p') else None)"
| "relay_step _ _ = None"

primrec relay_run :: "relay \<Rightarrow> bevent list \<Rightarrow> relay option" where
  "relay_run st [] = Some st"
| "relay_run st (e # es) = Option.bind (relay_step st e) (\<lambda>st. relay_run st es)"

lemma relay_run_append: "relay_run st (xs @ ys) = Option.bind (relay_run st xs) (\<lambda>st. relay_run st ys)"
  by (induction xs arbitrary: st) (auto split: bind_splits)

text \<open>The steps of the code that make these events.\<close>

inductive bstep :: "binding \<Rightarrow> bevent \<Rightarrow> binding \<Rightarrow> bool" where
  SR: "ServerRead T = Some (None, T') \<Longrightarrow> b_Packet T' = Some m \<Longrightarrow> bstep T (SR m) T'"
| SR_fail: "ServerRead T = Some (Some err, T') \<Longrightarrow> bstep T SE T'"
| SW: "b_Packet T = Some m \<Longrightarrow> ServerWrite T = Some (None, T') \<Longrightarrow> bstep T (SW m) T'"
| SW_fail: "ServerWrite T = Some (Some err, T') \<Longrightarrow> bstep T SE T'"
| PR: "PeerRead T = Some (True, T') \<Longrightarrow> b_Packet T' = Some m \<Longrightarrow> bstep T (PR m) T'"
| PR_fail: "PeerRead T = Some (False, T') \<Longrightarrow> bstep T PF T'"
| Fail: "bstep T PF (PeerFail err T)"
| PW: "b_Packet T = Some m \<Longrightarrow> PeerWrite T = Some T' \<Longrightarrow> p = PeerOK T' \<Longrightarrow> bstep T (PW m p) T'"
| Own: "bstep T (Own m) (T\<lparr>b_Packet := Some m\<rparr>)"
| Tx: "b_Packet T = Some (Msg (PReadyForQuery s)) \<Longrightarrow> bstep T (Tx s) (T\<lparr>b_TxState := s\<rparr>)"

inductive brun :: "binding \<Rightarrow> bevent list \<Rightarrow> binding \<Rightarrow> bool" where
  nil: "brun T [] T"
| cons: "bstep T e T' \<Longrightarrow> brun T' es T'' \<Longrightarrow> brun T (e # es) T''"

lemma brun_append: "brun T xs T' \<Longrightarrow> brun T' ys T'' \<Longrightarrow> brun T (xs @ ys) T''"
  by (induction rule: brun.induct) (auto intro: brun.intros)

lemma brun_one: "bstep T e T' \<Longrightarrow> brun T [e] T'"
  by (auto intro: brun.intros)

section \<open>Invariant\<close>

definition binv :: "binding \<Rightarrow> bool" where
  "binv T \<longleftrightarrow> conn_inv ServerSide (b_Server T) \<and> conn_inv ClientSide (b_Peer T)"

primrec holding :: "hold \<Rightarrow> binding \<Rightarrow> bool" where
  "holding Idle T = True"
| "holding (FromServer m) T = (b_Packet T = Some m \<and> s2c_msg m)"
| "holding (FromPeer m) T = (b_Packet T = Some m \<and> c2s_msg m)"
| "holding (ToServer m) T = (b_Packet T = Some m \<and> c2s_msg m)"
| "holding (ToPeer m) T = (b_Packet T = Some m \<and> s2c_msg m)"
| "holding Broken T = True"

text \<open>What is left to read on both sides bounds every loop.\<close>

definition to_read :: "binding \<Rightarrow> nat" where
  "to_read T = length (cn_inbox (b_Server T)) + length (cn_todo (b_Peer T))"

definition relay_of :: "hold \<Rightarrow> binding \<Rightarrow> relay" where
  "relay_of h T = (h, b_TxState T, PeerOK T)"

text \<open>The packets of a log, by where they came from and where they went.\<close>

definition srs :: "bevent list \<Rightarrow> msg list" where
  "srs log = concat (map (\<lambda>e. case e of SR m \<Rightarrow> [m] | _ \<Rightarrow> []) log)"
definition sws :: "bevent list \<Rightarrow> msg list" where
  "sws log = concat (map (\<lambda>e. case e of SW m \<Rightarrow> [m] | _ \<Rightarrow> []) log)"
definition prs :: "bevent list \<Rightarrow> msg list" where
  "prs log = concat (map (\<lambda>e. case e of PR m \<Rightarrow> [m] | _ \<Rightarrow> []) log)"
definition pws :: "bevent list \<Rightarrow> msg list" where
  "pws log = concat (map (\<lambda>e. case e of PW m p \<Rightarrow> [m] | _ \<Rightarrow> []) log)"

lemmas log_defs = srs_def sws_def prs_def pws_def

lemma log_append:
  "srs (xs @ ys) = srs xs @ srs ys" "sws (xs @ ys) = sws xs @ sws ys" "prs (xs @ ys) = prs xs @ prs ys"
  "pws (xs @ ys) = pws xs @ pws ys"
  by (simp_all add: log_defs)

text \<open>
  What the log says is what happened on the connections: all the packets of the server were taken from its inbox
  and all that were written reached it, as long as it did not fail; likewise for the peer, where a parameter
  status may have been kept back.
\<close>

definition not_ps :: "msg \<Rightarrow> bool" where
  "not_ps m \<longleftrightarrow> msg_Type m \<noteq> TypeParameterStatus"

definition moved :: "bevent list \<Rightarrow> hold \<Rightarrow> binding \<Rightarrow> binding \<Rightarrow> bool" where
  "moved log h' T T' \<longleftrightarrow>
     (h' \<noteq> Broken \<longrightarrow> cn_inbox (b_Server T) = map Inr (srs log) @ cn_inbox (b_Server T') \<and>
        cn_outbox (b_Server T') = cn_outbox (b_Server T) @ sws log) \<and>
     (PeerOK T' \<longrightarrow> cn_todo (b_Peer T) = map Inr (prs log) @ cn_todo (b_Peer T') \<and>
        (\<exists>out. cn_outbox (b_Peer T') = cn_outbox (b_Peer T) @ out \<and>
          (KHybrid \<notin> set (kinds (b_Peer T)) \<longrightarrow> filter not_ps out = filter not_ps (pws log))))"

definition relays :: "hold \<Rightarrow> binding \<Rightarrow> hold \<Rightarrow> binding \<Rightarrow> bool" where
  "relays h T h' T' \<longleftrightarrow> binv T' \<and> holding h' T' \<and>
     (\<exists>pre. cn_inbox (b_Server T) = pre @ cn_inbox (b_Server T')) \<and>
     (\<exists>pre. cn_inbox (b_Peer T) = pre @ cn_inbox (b_Peer T')) \<and>
     (\<exists>pre. cn_todo (b_Peer T) = pre @ cn_todo (b_Peer T')) \<and>
     conn_same (b_Server T) (b_Server T') \<and> conn_same (b_Peer T) (b_Peer T') \<and>
     (\<exists>log. brun T log T' \<and> relay_run (relay_of h T) log = Some (relay_of h' T') \<and> moved log h' T T')"

text \<open>A peer that is gone does not come back, and nothing follows a failure of the server.\<close>

lemma relay_step_gone: "relay_step st e = Some st' \<Longrightarrow> \<not> snd (snd st) \<Longrightarrow> \<not> snd (snd st')"
  by (induction st e rule: relay_step.induct) (auto split: if_splits)

lemma relay_run_gone: "relay_run st es = Some st' \<Longrightarrow> \<not> snd (snd st) \<Longrightarrow> \<not> snd (snd st')"
proof (induction es arbitrary: st)
  case (Cons e es)
  then obtain st1 where "relay_step st e = Some st1" "relay_run st1 es = Some st'" by (auto split: bind_splits)
  with Cons relay_step_gone [of st e st1] show ?case by blast
qed simp

lemma relay_run_Broken: "relay_run (Broken, tx, p) es = Some st' \<Longrightarrow> es = [] \<and> st' = (Broken, tx, p)"
  by (cases es) auto

lemma moved_trans:
  assumes "moved xs h' T T'" "moved ys h'' T' T''" "h'' \<noteq> Broken \<longrightarrow> h' \<noteq> Broken" "PeerOK T'' \<longrightarrow> PeerOK T'"
    and k: "kinds (b_Peer T') = kinds (b_Peer T)"
  shows "moved (xs @ ys) h'' T T''"
  unfolding moved_def
proof (intro conjI impI)
  assume b: "h'' \<noteq> Broken"
  with assms show "cn_inbox (b_Server T) = map Inr (srs (xs @ ys)) @ cn_inbox (b_Server T'')"
    "cn_outbox (b_Server T'') = cn_outbox (b_Server T) @ sws (xs @ ys)" by (auto simp: moved_def log_append)
next
  assume p: "PeerOK T''"
  with assms show "cn_todo (b_Peer T) = map Inr (prs (xs @ ys)) @ cn_todo (b_Peer T'')" by (auto simp: moved_def log_append)
  from p assms(4) have "PeerOK T'" by simp
  with assms(1) obtain o1 where o1: "cn_outbox (b_Peer T') = cn_outbox (b_Peer T) @ o1"
    "KHybrid \<notin> set (kinds (b_Peer T)) \<longrightarrow> filter not_ps o1 = filter not_ps (pws xs)" unfolding moved_def by blast
  from p assms(2) obtain o2 where "cn_outbox (b_Peer T'') = cn_outbox (b_Peer T') @ o2"
    "KHybrid \<notin> set (kinds (b_Peer T)) \<longrightarrow> filter not_ps o2 = filter not_ps (pws ys)" unfolding moved_def k by blast
  with o1 show "\<exists>out. cn_outbox (b_Peer T'') = cn_outbox (b_Peer T) @ out \<and>
      (KHybrid \<notin> set (kinds (b_Peer T)) \<longrightarrow> filter not_ps out = filter not_ps (pws (xs @ ys)))"
    by (intro exI [of _ "o1 @ o2"]) (simp add: log_append)
qed

lemma relays_trans:
  assumes "relays h T h' T'" "relays h' T' h'' T''"
  shows "relays h T h'' T''"
proof -
  from assms obtain xs ys p1 p2 p3 p4 p5 p6 where a: "brun T xs T'" "relay_run (relay_of h T) xs = Some (relay_of h' T')" "moved xs h' T T'"
    and b: "brun T' ys T''" "relay_run (relay_of h' T') ys = Some (relay_of h'' T'')" "moved ys h'' T' T''"
    and c: "binv T''" "holding h'' T''" "cn_inbox (b_Server T) = p1 @ cn_inbox (b_Server T')"
      "cn_inbox (b_Server T') = p2 @ cn_inbox (b_Server T'')" "cn_inbox (b_Peer T) = p3 @ cn_inbox (b_Peer T')"
      "cn_inbox (b_Peer T') = p4 @ cn_inbox (b_Peer T'')" "cn_todo (b_Peer T) = p5 @ cn_todo (b_Peer T')"
      "cn_todo (b_Peer T') = p6 @ cn_todo (b_Peer T'')"
    and k: "conn_same (b_Server T) (b_Server T')" "conn_same (b_Peer T) (b_Peer T')" "conn_same (b_Server T') (b_Server T'')"
      "conn_same (b_Peer T') (b_Peer T'')"
    unfolding relays_def by (elim exE conjE) rule
  have "h' = Broken \<Longrightarrow> h'' = Broken" using b(2) by (auto simp: relay_of_def dest: relay_run_Broken)
  moreover have "PeerOK T'' \<Longrightarrow> PeerOK T'" using relay_run_gone [OF b(2)] by (auto simp: relay_of_def)
  moreover have "kinds (b_Peer T') = kinds (b_Peer T)" using k(2) by (simp add: conn_same_def)
  ultimately have "moved (xs @ ys) h'' T T''" using a(3) b(3) by (intro moved_trans [where h' = h' and T' = T']) auto
  with a b c conn_same_trans [OF k(1,3)] conn_same_trans [OF k(2,4)] brun_append [OF a(1) b(1)] show ?thesis
    unfolding relays_def by (intro conjI exI [of _ "xs @ ys"]) (auto simp: relay_run_append)
qed

lemma relays_refl: "binv T \<Longrightarrow> holding h T \<Longrightarrow> relays h T h T"
  unfolding relays_def moved_def by (auto intro: exI [of _ "[]"] brun.nil simp: log_defs)

lemma relays_step:
  "bstep T e T' \<Longrightarrow> relay_step (relay_of h T) e = Some (relay_of h' T') \<Longrightarrow> binv T' \<Longrightarrow> holding h' T' \<Longrightarrow>
   \<exists>pre. cn_inbox (b_Server T) = pre @ cn_inbox (b_Server T') \<Longrightarrow>
   \<exists>pre. cn_inbox (b_Peer T) = pre @ cn_inbox (b_Peer T') \<Longrightarrow> \<exists>pre. cn_todo (b_Peer T) = pre @ cn_todo (b_Peer T') \<Longrightarrow>
   conn_same (b_Server T) (b_Server T') \<Longrightarrow> conn_same (b_Peer T) (b_Peer T') \<Longrightarrow> moved [e] h' T T' \<Longrightarrow> relays h T h' T'"
  unfolding relays_def by (auto intro!: exI [of _ "[e]"] brun_one)

lemma relaysD: "relays h T h' T' \<Longrightarrow> binv T'" "relays h T h' T' \<Longrightarrow> holding h' T'" "relays h T h' T' \<Longrightarrow> to_read T' \<le> to_read T"
  by (auto simp: relays_def to_read_def)

lemma relays_gone: "relays h T h' T' \<Longrightarrow> \<not> PeerOK T \<Longrightarrow> \<not> PeerOK T'"
  unfolding relays_def relay_of_def by (elim exE conjE) (drule relay_run_gone, simp_all)

section \<open>Single operations\<close>

lemma ServerRead_cases:
  assumes "binv T"
  obtains (ok) m T' where "ServerRead T = Some (None, T')" "relays Idle T (FromServer m) T'" "b_Packet T' = Some m"
      "to_read T' < to_read T" "cn_inbox (b_Server T) = Inr m # cn_inbox (b_Server T')"
    | (err) e T' where "ServerRead T = Some (Some e, T')" "relays Idle T Broken T'"
proof -
  have inv: "conn_inv ServerSide (b_Server T)" using assms by (simp add: binv_def)
  from conn_ReadPacket_ok [OF inv, of True] obtain r s where r: "conn_ReadPacket True (b_Server T) = Some (r, s)"
    "read_post ServerSide (b_Server T) r s" by (elim exE conjE) rule
  show thesis
  proof (cases r)
    case (Inl e)
    let ?T = "T\<lparr>b_Server := s, b_Packet := None\<rparr>"
    have e: "ServerRead T = Some (Some e, ?T)" using r Inl by (simp add: ServerRead_def)
    have "relays Idle T Broken ?T"
      by (rule relays_step [OF bstep.SR_fail [OF e]]) (use r assms Inl in \<open>auto simp: read_post_def binv_def relay_of_def PeerOK_def moved_def log_defs\<close>)
    with e show thesis by (rule err)
  next
    case (Inr m)
    let ?T = "T\<lparr>b_Server := s, b_Packet := Some m\<rparr>"
    have e: "ServerRead T = Some (None, ?T)" using r Inr by (simp add: ServerRead_def)
    have ib: "cn_inbox (b_Server T) = Inr m # cn_inbox s" and s: "conn_inv ServerSide s" "cn_outbox s = cn_outbox (b_Server T)"
      "conn_same (b_Server T) s" and m: "s2c_msg m"
      using r Inr todo_server [OF inv] todo_server [of s] by (auto simp: read_post_def)
    have "relays Idle T (FromServer m) ?T"
      by (rule relays_step [OF bstep.SR [OF e]]) (use s ib m assms in \<open>auto simp: binv_def relay_of_def PeerOK_def moved_def log_defs\<close>)
    with e show thesis by (rule ok) (use ib in \<open>auto simp: to_read_def\<close>)
  qed
qed

lemma ServerWrite_cases:
  assumes "binv T" "holding h T" "h = FromPeer m \<or> h = ToServer m"
  obtains (ok) T' where "ServerWrite T = Some (None, T')" "relays h T Idle T'"
    | (err) e T' where "ServerWrite T = Some (Some e, T')" "relays h T Broken T'"
proof -
  have inv: "conn_inv ServerSide (b_Server T)" using assms by (simp add: binv_def)
  have m: "writes_ok ServerSide m" "b_Packet T = Some m" using assms by auto
  from conn_WritePacket_ok [OF inv m(1)] obtain r s where r: "conn_WritePacket m (b_Server T) = Some (r, s)"
    "write_post ServerSide m (b_Server T) r s" by (elim exE conjE) rule
  let ?T = "T\<lparr>b_Server := s\<rparr>"
  have e: "ServerWrite T = Some (r, ?T)" using r m by (simp add: ServerWrite_def)
  have inv': "binv ?T" "cn_inbox (b_Peer ?T) = cn_inbox (b_Peer T)" "cn_inbox (b_Server ?T) = cn_inbox (b_Server T)"
    "r = None \<longrightarrow> cn_outbox s = cn_outbox (b_Server T) @ [m]" "conn_same (b_Server T) s"
    using r assms by (auto simp: write_post_def binv_def)
  show thesis
  proof (cases r)
    case None
    have "relays h T Idle ?T"
      by (rule relays_step [OF bstep.SW [OF m(2) e [unfolded None]]]) (use inv' assms None in \<open>auto simp: relay_of_def PeerOK_def moved_def log_defs\<close>)
    with e None show thesis by (intro ok) simp_all
  next
    case (Some x)
    have "relays h T Broken ?T"
      by (rule relays_step [OF bstep.SW_fail [OF e [unfolded Some]]]) (use inv' assms in \<open>auto simp: relay_of_def PeerOK_def moved_def log_defs\<close>)
    with e Some show thesis by (intro err) simp_all
  qed
qed

lemma PeerRead_cases:
  assumes "binv T"
  obtains (ok) m T' where "PeerRead T = Some (True, T')" "relays Idle T (FromPeer m) T'" "b_Packet T' = Some m"
      "to_read T' < to_read T" "b_TxState T' = b_TxState T"
    | (err) T' where "PeerRead T = Some (False, T')" "relays Idle T Idle T'" "b_TxState T' = b_TxState T" "\<not> PeerOK T'"
proof (cases "PeerOK T")
  case False
  then have e: "PeerRead T = Some (False, T)" by (simp add: PeerRead_def)
  have "relays Idle T Idle T" by (rule relays_refl) (use assms in auto)
  with e show thesis by (rule err) (use False in simp_all)
next
  case True
  have inv: "conn_inv ClientSide (b_Peer T)" using assms by (simp add: binv_def)
  from conn_ReadPacket_ok [OF inv, of True] obtain r s where r: "conn_ReadPacket True (b_Peer T) = Some (r, s)"
    "read_post ClientSide (b_Peer T) r s" by (elim exE conjE) rule
  show thesis
  proof (cases r)
    case (Inl e)
    let ?T = "PeerFail e (T\<lparr>b_Peer := s, b_Packet := None\<rparr>)"
    have e: "PeerRead T = Some (False, ?T)" using r Inl True by (simp add: PeerRead_def)
    have "relays Idle T Idle ?T"
      by (rule relays_step [OF bstep.PR_fail [OF e]])
        (use r assms Inl in \<open>auto simp: read_post_def binv_def PeerFail_def relay_of_def PeerOK_def moved_def log_defs\<close>)
    with e show thesis by (rule err) (simp_all add: PeerFail_def PeerOK_def)
  next
    case (Inr m)
    let ?T = "T\<lparr>b_Peer := s, b_Packet := Some m\<rparr>"
    have e: "PeerRead T = Some (True, ?T)" using r Inr True by (simp add: PeerRead_def)
    have ib: "cn_todo (b_Peer T) = Inr m # cn_todo s" and s: "conn_inv ClientSide s" "cn_outbox s = cn_outbox (b_Peer T)"
      "\<exists>pre. cn_inbox (b_Peer T) = pre @ cn_inbox s" "conn_same (b_Peer T) s" and m: "c2s_msg m"
      using r Inr by (auto simp: read_post_def)
    have "relays Idle T (FromPeer m) ?T"
      by (rule relays_step [OF bstep.PR [OF e]]) (use s ib m assms True in \<open>auto simp: binv_def relay_of_def PeerOK_def moved_def log_defs\<close>)
    with e show thesis by (rule ok) (use ib in \<open>auto simp: to_read_def\<close>)
  qed
qed

lemma PeerWrite_obtain:
  assumes "binv T" "holding h T" "h = FromServer m \<or> h = ToPeer m"
  obtains T' where "PeerWrite T = Some T'" "relays h T Idle T'" "b_TxState T' = b_TxState T" "to_read T' = to_read T"
    "cn_inbox (b_Server T') = cn_inbox (b_Server T)"
proof -
  have pkt: "b_Packet T = Some m" "writes_ok ClientSide m" using assms by auto
  have "\<exists>T'. PeerWrite T = Some T' \<and> binv T' \<and> (PeerOK T' \<longrightarrow> PeerOK T) \<and> moved [PW m (PeerOK T')] Idle T T' \<and> b_Server T' = b_Server T \<and> b_TxState T' = b_TxState T \<and>
    cn_inbox (b_Peer T') = cn_inbox (b_Peer T) \<and> cn_todo (b_Peer T') = cn_todo (b_Peer T) \<and> conn_same (b_Peer T) (b_Peer T')"
  proof (cases "PeerOK T")
    case False
    with assms show ?thesis by (simp add: PeerWrite_def moved_def log_defs)
  next
    case True
    have "conn_inv ClientSide (b_Peer T)" using assms by (simp add: binv_def)
    from conn_WritePacket_ok [OF this pkt(2)] obtain r s where r: "conn_WritePacket m (b_Peer T) = Some (r, s)"
      "write_post ClientSide m (b_Peer T) r s" by (elim exE conjE) rule
    with True pkt assms show ?thesis
      by (cases r) (auto simp: PeerWrite_def PeerFail_def binv_def write_post_def PeerOK_def moved_def log_defs not_ps_def)
  qed
  then obtain T' where T': "PeerWrite T = Some T'" "binv T'" "b_Server T' = b_Server T" "b_TxState T' = b_TxState T"
    "cn_inbox (b_Peer T') = cn_inbox (b_Peer T)" "cn_todo (b_Peer T') = cn_todo (b_Peer T)" "conn_same (b_Peer T) (b_Peer T')"
    "PeerOK T' \<longrightarrow> PeerOK T" "moved [PW m (PeerOK T')] Idle T T'" by (elim exE conjE) rule
  have "relays h T Idle T'"
    by (rule relays_step [OF bstep.PW [OF pkt(1) T'(1) refl]]) (use T' assms in \<open>auto simp: relay_of_def\<close>)
  from T'(1) this T'(4) show thesis by (rule that) (simp_all add: T' to_read_def)
qed

lemma PeerFail_relays:
  "binv T \<Longrightarrow> h = Idle \<or> h = FromPeer m \<Longrightarrow> relays h T Idle (PeerFail e T)"
  by (rule relays_step [OF bstep.Fail]) (auto simp: PeerFail_def binv_def relay_of_def PeerOK_def moved_def log_defs)

lemma Own_relays:
  "binv T \<Longrightarrow> \<not> PeerOK T \<Longrightarrow> m \<in> own_packets \<Longrightarrow> relays Idle T (ToServer m) (T\<lparr>b_Packet := Some m\<rparr>)"
  by (rule relays_step [OF bstep.Own])
    (auto simp: binv_def relay_of_def PeerOK_def moved_def log_defs own_packets_def Sync_packet_def c2s_msg_def type_code_def TypeSync_def TypeCopyFail_def
      TypeQuery_def TypeClose_def TypeParse_def TypeBind_def)

section \<open>Routines return\<close>

definition returns :: "hold \<Rightarrow> binding \<Rightarrow> (fed_error option \<times> binding) option \<Rightarrow> (binding \<Rightarrow> bool) \<Rightarrow> bool" where
  "returns h T r Q \<longleftrightarrow> (\<exists>err T' h'. r = Some (err, T') \<and> relays h T h' T' \<and> (err = None \<longrightarrow> h' = Idle \<and> Q T'))"

lemma returnsI: "relays h T h' T' \<Longrightarrow> err = None \<longrightarrow> h' = Idle \<and> Q T' \<Longrightarrow> returns h T (Some (err, T')) Q"
  unfolding returns_def by blast

lemma returns_err: "relays h T h' T' \<Longrightarrow> returns h T (Some (Some e, T')) Q"
  by (rule returnsI) auto

lemma returns_from: "relays h T h1 T1 \<Longrightarrow> returns h1 T1 r Q \<Longrightarrow> returns h T r Q"
  unfolding returns_def by (blast intro: relays_trans)

lemma returns_bind:
  assumes "returns h T r P" "\<And>T1. relays h T Idle T1 \<Longrightarrow> P T1 \<Longrightarrow> returns h T (g T1) Q"
  shows "returns h T (Option.bind r (\<lambda>(err, T). case err of Some err \<Rightarrow> Some (Some err, T) | None \<Rightarrow> g T)) Q"
proof -
  from assms(1) obtain err T' h' where r: "r = Some (err, T')" "relays h T h' T'" "err = None \<longrightarrow> h' = Idle \<and> P T'"
    unfolding returns_def by (elim exE conjE) rule
  with assms(2) [of T'] show ?thesis by (cases err) (simp_all add: returns_err)
qed

lemma returns_mono: "returns h T r P \<Longrightarrow> (\<And>T'. relays h T Idle T' \<Longrightarrow> P T' \<Longrightarrow> Q T') \<Longrightarrow> returns h T r Q"
  unfolding returns_def by blast

text \<open>The last packet read from the server is the ReadyForQuery that gave the transaction state.\<close>

definition settled :: "binding \<Rightarrow> binding \<Rightarrow> bool" where
  "settled T T' \<longleftrightarrow> (\<exists>pre. cn_inbox (b_Server T) = pre @ [Inr (Msg (PReadyForQuery (b_TxState T')))] @ cn_inbox (b_Server T'))"

lemma settled_from: "relays h T h1 T1 \<Longrightarrow> settled T1 T' \<Longrightarrow> settled T T'"
  unfolding relays_def settled_def by (elim exE conjE) (auto intro!: exI)

lemma settled_less: "relays h T h' T' \<Longrightarrow> settled T T' \<Longrightarrow> to_read T' < to_read T"
  unfolding relays_def settled_def to_read_def by (elim exE conjE) simp

lemma returns_settled: "relays h T h1 T1 \<Longrightarrow> returns h1 T1 r (settled T1) \<Longrightarrow> returns h T r (settled T)"
  by (rule returns_from, assumption) (erule returns_mono, erule (1) settled_from)

lemma returns_after:
  "relays h T h1 T1 \<Longrightarrow> (binv T1 \<Longrightarrow> returns h1 T1 r (settled T1)) \<Longrightarrow> returns h T r (settled T)"
  by (blast intro: returns_settled relaysD)

lemma packet_type_Some: "b_Packet T = Some m \<Longrightarrow> packet_type T = Some (msg_Type m)"
  by (simp add: packet_type_def)

lemma ServerWrite_returns:
  assumes "binv T" "holding h T" "h = FromPeer m \<or> h = ToServer m"
  shows "returns h T (ServerWrite T) (\<lambda>_. True)"
proof (rule ServerWrite_cases [OF assms])
  fix T' assume "ServerWrite T = Some (None, T')" "relays h T Idle T'"
  then show ?thesis by (auto intro: returnsI)
next
  fix e T' assume "ServerWrite T = Some (Some e, T')" "relays h T Broken T'"
  then show ?thesis by (auto intro: returns_err)
qed

lemma copyIn_loop_returns: "binv T \<Longrightarrow> returns Idle T (copyIn_loop T) (\<lambda>_. True)"
proof (induction "to_read T" arbitrary: T rule: less_induct)
  case less
  show ?case
  proof (rule PeerRead_cases [OF less.prems])
    fix T' assume p: "PeerRead T = Some (False, T')" "relays Idle T Idle T'" "\<not> PeerOK T'"
    let ?m = "Msg (PCopyFail ''peer failed'')" let ?T = "T'\<lparr>b_Packet := Some ?m\<rparr>"
    have o: "relays Idle T' (ToServer ?m) ?T" using p by (intro Own_relays relaysD) (auto simp: own_packets_def)
    have "returns (ToServer ?m) ?T (ServerWrite ?T) (\<lambda>_. True)"
      by (rule ServerWrite_returns) (use o relaysD in blast)+
    from returns_from [OF relays_trans [OF p(2) o] this] show ?thesis
      by (subst copyIn_loop.simps) (simp add: p)
  next
    fix m T' assume p: "PeerRead T = Some (True, T')" "relays Idle T (FromPeer m) T'" "b_Packet T' = Some m"
      "to_read T' < to_read T"
    have inv: "binv T'" "holding (FromPeer m) T'" by (rule relaysD [OF p(2)])+
    have w: "returns (FromPeer m) T' (ServerWrite T') (\<lambda>_. True)"
      by (rule ServerWrite_returns [OF inv]) simp
    have loop: "returns (FromPeer m) T' (copyIn_loop T1) (\<lambda>_. True)" if "relays (FromPeer m) T' Idle T1" for T1
      by (rule returns_from [OF that less.hyps]) (use p relaysD [OF that] in auto)
    have f: "relays (FromPeer m) T' Idle (PeerFail (EUnexpectedPacket (msg_Type m)) T')"
      by (rule PeerFail_relays [OF inv(1)]) simp
    have "returns (FromPeer m) T' (copyIn_loop T) (\<lambda>_. True)"
      by (subst copyIn_loop.simps) (simp add: p packet_type_Some w loop [OF f] returns_bind [OF w loop])
    with p(2) show ?thesis by (rule returns_from)
  qed
qed

lemma copyIn_returns:
  assumes "binv T" "holding (FromServer m) T"
  shows "returns (FromServer m) T (copyIn T) (\<lambda>_. True)"
proof -
  from assms obtain T' where p: "PeerWrite T = Some T'" "relays (FromServer m) T Idle T'"
    by (rule PeerWrite_obtain) auto
  from returns_from [OF p(2) copyIn_loop_returns [OF relaysD(1) [OF p(2)]]] show ?thesis
    by (simp add: copyIn_def p)
qed

lemma copyOut_loop_returns: "binv T \<Longrightarrow> returns Idle T (copyOut_loop T) (\<lambda>_. True)"
proof (induction "to_read T" arbitrary: T rule: less_induct)
  case less
  show ?case
  proof (rule ServerRead_cases [OF less.prems])
    fix e T' assume "ServerRead T = Some (Some e, T')" "relays Idle T Broken T'"
    then show ?thesis by (subst copyOut_loop.simps) (simp add: returns_err)
  next
    fix m T' assume p: "ServerRead T = Some (None, T')" "relays Idle T (FromServer m) T'" "b_Packet T' = Some m"
      "to_read T' < to_read T"
    from relaysD(1,2) [OF p(2)] obtain T1 where w: "PeerWrite T' = Some T1" "relays (FromServer m) T' Idle T1"
      "to_read T1 = to_read T'" by (rule PeerWrite_obtain) auto
    have r: "relays Idle T Idle T1" by (rule relays_trans [OF p(2) w(2)])
    have "returns Idle T (copyOut_loop T1) (\<lambda>_. True)"
      by (rule returns_from [OF r less.hyps]) (use p w relaysD [OF w(2)] in auto)
    with p w r show ?thesis
      by (subst copyOut_loop.simps) (auto simp: packet_type_Some intro: returnsI returns_err)
  qed
qed

lemma copyOut_returns:
  assumes "binv T" "holding (FromServer m) T"
  shows "returns (FromServer m) T (copyOut T) (\<lambda>_. True)"
proof -
  from assms obtain T' where p: "PeerWrite T = Some T'" "relays (FromServer m) T Idle T'"
    by (rule PeerWrite_obtain) auto
  from returns_from [OF p(2) copyOut_loop_returns [OF relaysD(1) [OF p(2)]]] show ?thesis
    by (simp add: copyOut_def p)
qed

lemma ready_for_query_returns:
  assumes "ServerRead T = Some (None, T')" "relays Idle T (FromServer m) T'" "msg_Type m = TypeReadyForQuery"
    "cn_inbox (b_Server T) = Inr m # cn_inbox (b_Server T')"
  shows "returns Idle T (ready_for_query T') (settled T)"
proof -
  have inv: "binv T'" "b_Packet T' = Some m" "s2c_msg m" using relaysD [OF assms(2)] by auto
  from inv(3) assms(3) obtain r where r: "to_ReadyForQuery m = Some r" by (auto simp: s2c_msg_def)
  show ?thesis
  proof (cases r)
    case (Inl e)
    with r inv assms show ?thesis by (simp add: ready_for_query_def returns_err [OF assms(2)])
  next
    case (Inr p)
    with r have m: "m = Msg (PReadyForQuery p)" by (intro to_ReadyForQuery_Inr) simp
    let ?T = "T'\<lparr>b_TxState := p\<rparr>"
    have tx: "relays (FromServer m) T' (FromServer m) ?T"
      by (rule relays_step [OF bstep.Tx]) (use inv m in \<open>auto simp: binv_def relay_of_def PeerOK_def moved_def log_defs\<close>)
    from relaysD(1,2) [OF tx] obtain T1 where w: "PeerWrite ?T = Some T1" "relays (FromServer m) ?T Idle T1"
      "b_TxState T1 = b_TxState ?T" "cn_inbox (b_Server T1) = cn_inbox (b_Server ?T)" by (rule PeerWrite_obtain) auto
    have "T'\<lparr>b_Packet := Some (Msg (PReadyForQuery p)), b_TxState := p\<rparr> = ?T" using inv m by (cases T') simp
    with w(1) have "PeerWrite (T'\<lparr>b_Packet := Some (Msg (PReadyForQuery p)), b_TxState := p\<rparr>) = Some T1" by (simp only:)
    then have "ready_for_query T' = Some (None, T1)" using inv(2) r Inr by (simp add: ready_for_query_def)
    moreover have "settled T T1" using w assms(4) m by (auto simp: settled_def)
    ultimately show ?thesis
      using relays_trans [OF relays_trans [OF assms(2) tx] w(2)] by (auto intro: returnsI)
  qed
qed

text \<open>One packet relayed from the server to the peer.\<close>

lemma forward_obtain:
  assumes "relays Idle T (FromServer m) T'" "to_read T' < to_read T"
  obtains T1 where "PeerWrite T' = Some T1" "relays Idle T Idle T1" "to_read T1 < to_read T"
proof -
  from relaysD(1,2) [OF assms(1)] obtain T1 where w: "PeerWrite T' = Some T1" "relays (FromServer m) T' Idle T1"
    "to_read T1 = to_read T'" by (rule PeerWrite_obtain) auto
  from w(1) relays_trans [OF assms(1) w(2)] show thesis by (rule that) (use w assms in simp)
qed

lemma query_loop_returns: "binv T \<Longrightarrow> returns Idle T (query_loop T) (settled T)"
proof (induction "to_read T" arbitrary: T rule: less_induct)
  case less
  show ?case
  proof (rule ServerRead_cases [OF less.prems])
    fix e T' assume "ServerRead T = Some (Some e, T')" "relays Idle T Broken T'"
    then show ?thesis by (subst query_loop.simps) (simp add: returns_err)
  next
    fix m T' assume p: "ServerRead T = Some (None, T')" "relays Idle T (FromServer m) T'" "b_Packet T' = Some m"
      "to_read T' < to_read T" "cn_inbox (b_Server T) = Inr m # cn_inbox (b_Server T')"
    have inv: "binv T'" "holding (FromServer m) T'" by (rule relaysD [OF p(2)])+
    from p(2,4) obtain T1 where w: "PeerWrite T' = Some T1" "relays Idle T Idle T1" "to_read T1 < to_read T"
      by (rule forward_obtain)
    have loop: "returns Idle T (query_loop T2) (settled T)" if "relays Idle T Idle T2" "to_read T2 < to_read T" for T2
      by (rule returns_settled [OF that(1) less.hyps [OF that(2) relaysD(1) [OF that(1)]]])
    have loop': "returns (FromServer m) T' (query_loop T2) (settled T)" if "relays (FromServer m) T' Idle T2" for T2
    proof -
      have "returns Idle T2 (query_loop T2) (settled T2)"
        by (rule less.hyps) (use relaysD [OF that] p in auto)
      with that have "returns (FromServer m) T' (query_loop T2) (settled T')" by (rule returns_settled)
      then show ?thesis by (rule returns_mono) (rule settled_from [OF p(2)])
    qed
    note ci = returns_from [OF p(2) returns_bind [OF copyIn_returns [OF inv] loop']]
    note co = returns_from [OF p(2) returns_bind [OF copyOut_returns [OF inv] loop']]
    show ?thesis
      using p(1) packet_type_Some [OF p(3)] w(1) loop [OF w(2,3)] ci co ready_for_query_returns [OF p(1,2) _ p(5)] returns_err [OF p(2)]
      by (subst query_loop.simps) simp
  qed
qed

lemma query_returns:
  assumes "binv T" "holding h T" "h = FromPeer m \<or> h = ToServer m"
  shows "returns h T (query T) (settled T)"
  unfolding query_def
  by (rule returns_bind [OF ServerWrite_returns [OF assms]])
    (erule returns_after, erule query_loop_returns)

lemma functionCall_loop_returns: "binv T \<Longrightarrow> returns Idle T (functionCall_loop T) (settled T)"
proof (induction "to_read T" arbitrary: T rule: less_induct)
  case less
  show ?case
  proof (rule ServerRead_cases [OF less.prems])
    fix e T' assume "ServerRead T = Some (Some e, T')" "relays Idle T Broken T'"
    then show ?thesis by (subst functionCall_loop.simps) (simp add: returns_err)
  next
    fix m T' assume p: "ServerRead T = Some (None, T')" "relays Idle T (FromServer m) T'" "b_Packet T' = Some m"
      "to_read T' < to_read T" "cn_inbox (b_Server T) = Inr m # cn_inbox (b_Server T')"
    from p(2,4) obtain T1 where w: "PeerWrite T' = Some T1" "relays Idle T Idle T1" "to_read T1 < to_read T"
      by (rule forward_obtain)
    have loop: "returns Idle T (functionCall_loop T1) (settled T)"
      by (rule returns_settled [OF w(2) less.hyps [OF w(3) relaysD(1) [OF w(2)]]])
    show ?thesis
      using p(1) packet_type_Some [OF p(3)] w(1) loop ready_for_query_returns [OF p(1,2) _ p(5)] returns_err [OF p(2)]
      by (subst functionCall_loop.simps) simp
  qed
qed

lemma functionCall_returns:
  assumes "binv T" "holding h T" "h = FromPeer m \<or> h = ToServer m"
  shows "returns h T (functionCall T) (settled T)"
  unfolding functionCall_def
  by (rule returns_bind [OF ServerWrite_returns [OF assms]])
    (erule returns_after, erule functionCall_loop_returns)

text \<open>\<^verbatim>\<open>sync\<close> has two results: whether the pipeline is done, and an error.\<close>

definition sync_returns :: "hold \<Rightarrow> binding \<Rightarrow> ((bool \<times> fed_error option) \<times> binding) option \<Rightarrow> bool" where
  "sync_returns h T r \<longleftrightarrow> (\<exists>ok err T' h'. r = Some ((ok, err), T') \<and> relays h T h' T' \<and>
     (err = None \<longrightarrow> h' = Idle \<and> to_read T' < to_read T \<and> (ok \<longrightarrow> settled T T')))"

lemma sync_returnsI:
  "relays h T h' T' \<Longrightarrow> err = None \<longrightarrow> h' = Idle \<and> to_read T' < to_read T \<and> (ok \<longrightarrow> settled T T') \<Longrightarrow>
   sync_returns h T (Some ((ok, err), T'))"
  unfolding sync_returns_def by blast

lemma sync_returns_from:
  assumes "relays h T h1 T1" "sync_returns h1 T1 r"
  shows "sync_returns h T r"
proof -
  from assms(2) obtain ok err T' h' where r: "r = Some ((ok, err), T')" "relays h1 T1 h' T'"
    "err = None \<longrightarrow> h' = Idle \<and> to_read T' < to_read T1 \<and> (ok \<longrightarrow> settled T1 T')"
    unfolding sync_returns_def by (elim exE conjE) rule
  show ?thesis unfolding r(1)
    by (rule sync_returnsI [OF relays_trans [OF assms(1) r(2)]])
      (use r(3) relaysD(3) [OF assms(1)] settled_from [OF assms(1)] in auto)
qed

lemma sync_loop_returns: "binv T \<Longrightarrow> sync_returns Idle T (sync_loop T)"
proof (induction "to_read T" arbitrary: T rule: less_induct)
  case less
  show ?case
  proof (rule ServerRead_cases [OF less.prems])
    fix e T' assume "ServerRead T = Some (Some e, T')" "relays Idle T Broken T'"
    then show ?thesis by (subst sync_loop.simps) (simp add: sync_returnsI)
  next
    fix m T' assume p: "ServerRead T = Some (None, T')" "relays Idle T (FromServer m) T'" "b_Packet T' = Some m"
      "to_read T' < to_read T" "cn_inbox (b_Server T) = Inr m # cn_inbox (b_Server T')"
    have inv: "binv T'" "holding (FromServer m) T'" by (rule relaysD [OF p(2)])+
    from p(2,4) obtain T1 where w: "PeerWrite T' = Some T1" "relays Idle T Idle T1" "to_read T1 < to_read T"
      by (rule forward_obtain)
    have loop: "sync_returns Idle T (sync_loop T2)" if "relays Idle T Idle T2" "to_read T2 < to_read T" for T2
      by (rule sync_returns_from [OF that(1) less.hyps [OF that(2) relaysD(1) [OF that(1)]]])
    from copyIn_returns [OF inv] obtain e2 T2 h2 where ci: "copyIn T' = Some (e2, T2)" "relays (FromServer m) T' h2 T2"
      "e2 = None \<longrightarrow> h2 = Idle" unfolding returns_def by (elim exE conjE) simp
    have ci': "sync_returns Idle T (Some ((False, e2), T2))"
      by (rule sync_returnsI [OF relays_trans [OF p(2) ci(2)]]) (use ci relaysD(3) [OF ci(2)] p(4) in auto)
    from copyOut_returns [OF inv] obtain e3 T3 h3 where co: "copyOut T' = Some (e3, T3)" "relays (FromServer m) T' h3 T3"
      "e3 = None \<longrightarrow> h3 = Idle" unfolding returns_def by (elim exE conjE) simp
    have co': "sync_returns Idle T (case e3 of Some err \<Rightarrow> Some ((False, Some err), T3) | None \<Rightarrow> sync_loop T3)"
      using co relays_trans [OF p(2) co(2)] relaysD(3) [OF co(2)] p(4) loop [of T3]
      by (cases e3) (auto intro: sync_returnsI)
    have rfq: "sync_returns Idle T (Option.bind (ready_for_query T') (\<lambda>(err, T). Some ((err = None, err), T)))"
      if t: "msg_Type m = TypeReadyForQuery"
    proof -
      from ready_for_query_returns [OF p(1,2) t p(5)] obtain e4 T4 h4 where
        r: "ready_for_query T' = Some (e4, T4)" "relays Idle T h4 T4" "e4 = None \<longrightarrow> h4 = Idle \<and> settled T T4"
        unfolding returns_def by (elim exE conjE) simp
      have "to_read T4 < to_read T" if "e4 = None"
        using r(3) that settled_less [OF r(2)] by simp
      then show ?thesis unfolding r(1) bind.bind_lunit prod.case
        by (intro sync_returnsI [OF r(2)]) (use r(3) in auto)
    qed
    show ?thesis
      using p(1) packet_type_Some [OF p(3)] w(1) loop [OF w(2,3)] ci(1) ci' co(1) co' rfq sync_returnsI [OF p(2)]
      by (subst sync_loop.simps) simp
  qed
qed

lemma sync_returns_sync:
  assumes "binv T" "holding h T" "h = FromPeer m \<or> h = ToServer m"
  shows "sync_returns h T (sync T)"
proof (rule ServerWrite_cases [OF assms])
  fix T' assume w: "ServerWrite T = Some (None, T')" "relays h T Idle T'"
  from sync_returns_from [OF w(2) sync_loop_returns [OF relaysD(1) [OF w(2)]]] show ?thesis by (simp add: sync_def w)
next
  fix e T' assume "ServerWrite T = Some (Some e, T')" "relays h T Broken T'"
  then show ?thesis by (simp add: sync_def sync_returnsI)
qed

lemma sync_obtain:
  assumes "sync_returns h T r"
  obtains ok T' where "r = Some ((ok, None), T')" "relays h T Idle T'" "to_read T' < to_read T" "ok \<longrightarrow> settled T T'"
    | ok e T' h' where "r = Some ((ok, Some e), T')" "relays h T h' T'"
proof -
  from assms obtain ok err T' h' where r: "r = Some ((ok, err), T')" "relays h T h' T'"
    "err = None \<longrightarrow> h' = Idle \<and> to_read T' < to_read T \<and> (ok \<longrightarrow> settled T T')"
    unfolding sync_returns_def by (elim exE conjE) rule
  show thesis
  proof (cases err)
    case None
    with r show thesis by (intro that(1)) auto
  next
    case (Some e)
    with r show thesis by (intro that(2)) simp_all
  qed
qed

lemma eqp_drain_returns: "binv T \<Longrightarrow> \<not> PeerOK T \<Longrightarrow> returns Idle T (eqp_drain T) (settled T)"
proof (induction "to_read T" arbitrary: T rule: less_induct)
  case less
  let ?T = "T\<lparr>b_Packet := Some Sync_packet\<rparr>"
  have o: "relays Idle T (ToServer Sync_packet) ?T" using less.prems by (rule Own_relays) (simp add: own_packets_def)
  have "sync_returns (ToServer Sync_packet) ?T (sync ?T)"
    by (rule sync_returns_sync) (use relaysD [OF o] in auto)
  from sync_returns_from [OF o this] show ?case
  proof (rule sync_obtain)
    fix ok T' assume s: "sync ?T = Some ((ok, None), T')" "relays Idle T Idle T'" "to_read T' < to_read T" "ok \<longrightarrow> settled T T'"
    have "returns Idle T (eqp_drain T') (settled T)"
      by (rule returns_settled [OF s(2) less.hyps [OF s(3) relaysD(1) [OF s(2)] relays_gone [OF s(2) less.prems(2)]]])
    with s show ?thesis by (subst eqp_drain.simps) (auto intro: returnsI)
  next
    fix ok e T' h' assume "sync ?T = Some ((ok, Some e), T')" "relays Idle T h' T'"
    then show ?thesis by (subst eqp_drain.simps) (simp add: returns_err)
  qed
qed

lemma eqp_loop_returns: "binv T \<Longrightarrow> returns Idle T (eqp_loop T) (settled T)"
proof (induction "to_read T" arbitrary: T rule: less_induct)
  case less
  show ?case
  proof (rule PeerRead_cases [OF less.prems])
    fix T' assume p: "PeerRead T = Some (False, T')" "relays Idle T Idle T'" "\<not> PeerOK T'"
    from returns_settled [OF p(2) eqp_drain_returns [OF relaysD(1) [OF p(2)] p(3)]] show ?thesis
      by (subst eqp_loop.simps) (simp add: p)
  next
    fix m T' assume p: "PeerRead T = Some (True, T')" "relays Idle T (FromPeer m) T'" "b_Packet T' = Some m"
      "to_read T' < to_read T"
    have inv: "binv T'" "holding (FromPeer m) T'" by (rule relaysD [OF p(2)])+
    have loop: "returns (FromPeer m) T' (eqp_loop T1) (settled T)" if r: "relays (FromPeer m) T' Idle T1" for T1
    proof -
      have "returns Idle T1 (eqp_loop T1) (settled T1)" by (rule less.hyps) (use relaysD [OF r] p in auto)
      from returns_settled [OF r this] show ?thesis by (rule returns_mono) (rule settled_from [OF p(2)])
    qed
    have w: "returns (FromPeer m) T' (ServerWrite T') (\<lambda>_. True)" by (rule ServerWrite_returns [OF inv]) simp
    have f: "relays (FromPeer m) T' Idle (PeerFail (EUnexpectedPacket (msg_Type m)) T')"
      by (rule PeerFail_relays [OF inv(1)]) simp
    have "sync_returns (FromPeer m) T' (sync T')" by (rule sync_returns_sync [OF inv]) simp
    then have s: "returns (FromPeer m) T' (Option.bind (sync T') (\<lambda>((ok, err), T).
        case err of Some err \<Rightarrow> Some (Some err, T) | None \<Rightarrow> if ok then Some (None, T) else eqp_loop T)) (settled T)"
    proof (rule sync_obtain)
      fix ok T1 assume "sync T' = Some ((ok, None), T1)" "relays (FromPeer m) T' Idle T1" "ok \<longrightarrow> settled T' T1"
      with loop [of T1] settled_from [OF p(2)] show ?thesis by (auto intro: returnsI)
    next
      fix ok e T1 h1 assume "sync T' = Some ((ok, Some e), T1)" "relays (FromPeer m) T' h1 T1"
      then show ?thesis by (simp add: returns_err)
    qed
    have "returns (FromPeer m) T' (eqp_loop T) (settled T)"
      using p(1) packet_type_Some [OF p(3)] s loop [OF f] returns_bind [OF w loop]
      by (subst eqp_loop.simps) simp
    with p(2) show ?thesis by (rule returns_from)
  qed
qed

lemma eqp_returns:
  assumes "binv T" "holding h T" "h = FromPeer m \<or> h = ToServer m"
  shows "returns h T (eqp T) (settled T)"
  unfolding eqp_def
  by (rule returns_bind [OF ServerWrite_returns [OF assms]]) (erule returns_after, erule eqp_loop_returns)

text \<open>
  After one round the transaction state is that of the last ReadyForQuery, or it is still the one of before and the
  server was not asked anything.
\<close>

lemma transaction_step_returns:
  assumes "binv T" "holding (FromPeer m) T"
  shows "returns (FromPeer m) T (transaction_step T) (\<lambda>T'. settled T T' \<or> b_TxState T' = b_TxState T)"
proof -
  have q: "returns (FromPeer m) T (query T) (settled T)" and f: "returns (FromPeer m) T (functionCall T) (settled T)"
    and e: "returns (FromPeer m) T (eqp T) (settled T)"
    using query_returns [OF assms] functionCall_returns [OF assms] eqp_returns [OF assms] by simp_all
  note weaken = returns_mono [of "FromPeer m" T _ "settled T" "\<lambda>T'. settled T T' \<or> b_TxState T' = b_TxState T"]
  have pkt: "packet_type T = Some (msg_Type m)" using assms by (simp add: packet_type_Some)
  have fail: "returns (FromPeer m) T (Some (None, PeerFail (EUnexpectedPacket (msg_Type m)) T))
      (\<lambda>T'. settled T T' \<or> b_TxState T' = b_TxState T)"
    by (rule returnsI [OF PeerFail_relays [OF assms(1)]]) (auto simp: PeerFail_def)
  have sy: "returns (FromPeer m) T (Option.bind (PeerWrite (T\<lparr>b_Packet := Some (Msg (PReadyForQuery (b_TxState T)))\<rparr>))
      (\<lambda>T. Some (None, T))) (\<lambda>T'. settled T T' \<or> b_TxState T' = b_TxState T)" if t: "msg_Type m = TypeSync"
  proof -
    let ?z = "Msg (PReadyForQuery (b_TxState T))" let ?T = "T\<lparr>b_Packet := Some ?z\<rparr>"
    have z: "s2c_msg ?z" by (simp add: s2c_msg_def type_bytes TypeParameterStatus_def TypeMarkiplierResponse_def)
    have o: "relays (FromPeer m) T (ToPeer ?z) ?T"
      by (rule relays_step [OF bstep.Own]) (use assms t z in \<open>auto simp: binv_def relay_of_def PeerOK_def moved_def log_defs\<close>)
    from relaysD(1,2) [OF o] obtain T1 where w: "PeerWrite ?T = Some T1" "relays (ToPeer ?z) ?T Idle T1"
      "b_TxState T1 = b_TxState ?T" by (rule PeerWrite_obtain) auto
    from returnsI [OF relays_trans [OF o w(2)]] show ?thesis by (simp add: w)
  qed
  show ?thesis
    using pkt weaken [OF q] weaken [OF f] weaken [OF e] fail sy by (simp add: transaction_step_def)
qed

lemma transaction_abort_returns:
  assumes "binv T" "\<not> PeerOK T"
  shows "returns Idle T (transaction_abort T) (\<lambda>T'. settled T T' \<and> b_TxState T' = type_code CHR ''I'')"
proof -
  let ?m = "Msg (PQuery ''ABORT;'')" let ?T = "T\<lparr>b_Packet := Some ?m\<rparr>"
  have o: "relays Idle T (ToServer ?m) ?T" using assms by (rule Own_relays) (simp add: own_packets_def)
  have "returns (ToServer ?m) ?T (query ?T) (settled ?T)" by (rule query_returns) (use relaysD [OF o] in auto)
  from returns_settled [OF o this] have "returns Idle T (queryString ''ABORT;'' T) (settled T)"
    by (simp add: queryString_def)
  then show ?thesis unfolding transaction_abort_def
    by (rule returns_bind) (auto intro: returnsI returns_err)
qed

lemma transaction_returns:
  "binv T \<Longrightarrow> holding (FromPeer m) T \<Longrightarrow> b_TxState T \<noteq> type_code CHR ''I'' \<Longrightarrow>
   returns (FromPeer m) T (transaction T) (\<lambda>T'. settled T T' \<and> b_TxState T' = type_code CHR ''I'')"
proof (induction "to_read T" arbitrary: T m rule: less_induct)
  case less
  let ?Q = "\<lambda>T T'. settled T T' \<and> b_TxState T' = type_code CHR ''I''"
  have nxt: "returns (FromPeer m) T (if b_TxState T1 = type_code CHR ''I'' then Some (None, T1)
      else Option.bind (PeerRead T1) (\<lambda>(ok, T). if ok then transaction T else transaction_abort T)) (?Q T)"
    if r: "relays (FromPeer m) T Idle T1" "settled T T1 \<or> b_TxState T1 = b_TxState T" for T1
  proof (cases "b_TxState T1 = type_code CHR ''I''")
    case True
    with r less.prems show ?thesis by (auto intro: returnsI)
  next
    case False
    have lift: "returns Idle T1 x (?Q T1) \<Longrightarrow> returns (FromPeer m) T x (?Q T)" for x
      by (rule returns_from [OF r(1)]) (erule returns_mono, use settled_from [OF r(1)] in blast)
    show ?thesis
    proof (rule PeerRead_cases [OF relaysD(1) [OF r(1)]])
      fix m2 T2 assume p: "PeerRead T1 = Some (True, T2)" "relays Idle T1 (FromPeer m2) T2" "to_read T2 < to_read T1"
        "b_TxState T2 = b_TxState T1"
      have "returns (FromPeer m2) T2 (transaction T2) (?Q T2)"
        by (rule less.hyps) (use relaysD [OF p(2)] p relaysD(3) [OF r(1)] False in auto)
      then have "returns (FromPeer m2) T2 (transaction T2) (?Q T1)"
        by (rule returns_mono) (use settled_from [OF p(2)] in blast)
      from lift [OF returns_from [OF p(2) this]] False p show ?thesis by simp
    next
      fix T2 assume p: "PeerRead T1 = Some (False, T2)" "relays Idle T1 Idle T2" "\<not> PeerOK T2"
      have "returns Idle T2 (transaction_abort T2) (?Q T1)"
        by (rule returns_mono [OF transaction_abort_returns [OF relaysD(1) [OF p(2)] p(3)]])
          (use settled_from [OF p(2)] in blast)
      from lift [OF returns_from [OF p(2) this]] False p show ?thesis by simp
    qed
  qed
  show ?case
    by (subst transaction.simps)
      (rule returns_bind [OF transaction_step_returns [OF less.prems(1,2)] nxt])
qed

section \<open>Both directions of the relay\<close>

text \<open>The packets that are in flight while a packet is held.\<close>

definition held_s :: "hold \<Rightarrow> msg list" where
  "held_s h = (case h of FromServer m \<Rightarrow> [m] | _ \<Rightarrow> [])"
definition held_p :: "hold \<Rightarrow> msg list" where
  "held_p h = (case h of FromPeer m \<Rightarrow> [m] | _ \<Rightarrow> [])"

definition not_rfq :: "msg \<Rightarrow> bool" where
  "not_rfq m \<longleftrightarrow> msg_Type m \<noteq> TypeReadyForQuery"
definition not_sync :: "msg \<Rightarrow> bool" where
  "not_sync m \<longleftrightarrow> msg_Type m \<noteq> TypeSync"

text \<open>States that occur while the peer is there: no packet of the pooler for the server, and phony replies only.\<close>

definition plain :: "hold \<Rightarrow> bool" where
  "plain h \<longleftrightarrow> (case h of ToServer m \<Rightarrow> False | ToPeer m \<Rightarrow> \<not> not_rfq m | _ \<Rightarrow> True)"

lemma relay_step_balance:
  assumes "relay_step (h, tx, True) e = Some (h', tx', True)" "plain h"
  shows "plain h' \<and> filter not_rfq (held_s h @ srs [e]) = filter not_rfq (pws [e] @ held_s h') \<and>
    (h' \<noteq> Broken \<longrightarrow> filter not_sync (held_p h @ prs [e]) = filter not_sync (sws [e] @ held_p h'))"
  using assms
  by (cases h; cases e) (auto simp: plain_def held_s_def held_p_def log_defs not_rfq_def not_sync_def split: if_splits)

lemma chain: "a @ b = c @ d \<Longrightarrow> d @ e = f \<Longrightarrow> a @ b @ e = c @ f"
  by (metis append.assoc)

lemma relay_run_balance:
  "relay_run (h, tx, True) es = Some (Idle, tx', True) \<Longrightarrow> plain h \<Longrightarrow>
   filter not_rfq (held_s h @ srs es) = filter not_rfq (pws es) \<and>
   filter not_sync (held_p h @ prs es) = filter not_sync (sws es)"
proof (induction es arbitrary: h tx)
  case Nil
  then show ?case by (simp add: held_s_def held_p_def log_defs)
next
  case (Cons e es)
  from Cons.prems obtain h1 tx1 p1 where s: "relay_step (h, tx, True) e = Some (h1, tx1, p1)"
    and r: "relay_run (h1, tx1, p1) es = Some (Idle, tx', True)" by (auto split: bind_splits)
  from relay_run_gone [OF r] have p1: p1 by auto
  from r have b: "h1 \<noteq> Broken" by (auto dest: relay_run_Broken)
  from relay_step_balance [OF s [unfolded p1 [THEN eqTrueI]] Cons.prems(2)] b
  have st: "plain h1" "filter not_rfq (held_s h @ srs [e]) = filter not_rfq (pws [e] @ held_s h1)"
    "filter not_sync (held_p h @ prs [e]) = filter not_sync (sws [e] @ held_p h1)" by auto
  from Cons.IH [of h1 tx1] r p1 st(1) have "filter not_rfq (held_s h1 @ srs es) = filter not_rfq (pws es)"
    "filter not_sync (held_p h1 @ prs es) = filter not_sync (sws es)" by auto
  with st(2,3) show ?case using log_append [of "[e]" es]
    by (simp add: chain [of _ _ _ "filter not_rfq (held_s h1)"] chain [of _ _ _ "filter not_sync (held_p h1)"])
qed

section \<open>Properties\<close>

text \<open>Only a failure takes the peer away, and it leaves its error.\<close>

lemma bstep_peer: "bstep T e T' \<Longrightarrow> b_HasPeer T \<or> b_PeerError T \<noteq> None \<Longrightarrow> b_HasPeer T' \<or> b_PeerError T' \<noteq> None"
  by (induction rule: bstep.induct)
    (auto simp: ServerRead_def ServerWrite_def PeerRead_def PeerWrite_def PeerFail_def split: bind_splits if_splits sum.splits option.splits)

lemma brun_peer: "brun T log T' \<Longrightarrow> b_HasPeer T \<or> b_PeerError T \<noteq> None \<Longrightarrow> b_HasPeer T' \<or> b_PeerError T' \<noteq> None"
  by (induction rule: brun.induct) (auto dest: bstep_peer)

lemma new_binding_start:
  assumes "conn_inv ServerSide server" "conn_inv ClientSide client" "c2s_msg m"
  shows "binv (new_binding server (Some client) (Some m))" "holding (FromPeer m) (new_binding server (Some client) (Some m))"
    "b_TxState (new_binding server (Some client) (Some m)) \<noteq> type_code CHR ''I''"
  using assms by (simp_all add: new_binding_def binv_def type_code_def)

lemma Transaction_obtain:
  assumes "conn_inv ServerSide server" "conn_inv ClientSide client" "c2s_msg m"
  obtains err T h log where "Transaction server client m = Some ((err, b_PeerError T), b_Server T, b_Peer T)"
    "transaction (new_binding server (Some client) (Some m)) = Some (err, T)" "binv T"
    "brun (new_binding server (Some client) (Some m)) log T"
    "relay_run (FromPeer m, 0, True) log = Some (h, b_TxState T, PeerOK T)"
    "moved log h (new_binding server (Some client) (Some m)) T" "conn_same client (b_Peer T)"
    "err = None \<longrightarrow> h = Idle \<and> settled (new_binding server (Some client) (Some m)) T \<and> b_TxState T = type_code CHR ''I''"
proof -
  let ?B = "new_binding server (Some client) (Some m)"
  from transaction_returns [OF new_binding_start [OF assms]] obtain err T h where
    t: "transaction ?B = Some (err, T)" "relays (FromPeer m) ?B h T"
      "err = None \<longrightarrow> h = Idle \<and> settled ?B T \<and> b_TxState T = type_code CHR ''I''"
    unfolding returns_def by (elim exE conjE) simp
  from t(2) obtain log where l: "brun ?B log T" "relay_run (relay_of (FromPeer m) ?B) log = Some (relay_of h T)" "moved log h ?B T"
    unfolding relays_def by (elim exE conjE) rule
  have "Transaction server client m = Some ((err, b_PeerError T), b_Server T, b_Peer T)"
    by (simp add: Transaction_def binding_result_def t)
  moreover have "relay_run (FromPeer m, 0, True) log = Some (h, b_TxState T, PeerOK T)"
    using l(2) by (simp add: relay_of_def new_binding_def PeerOK_def)
  moreover have "conn_same client (b_Peer T)" using t(2) by (simp add: relays_def new_binding_def)
  ultimately show thesis using that t(1,3) relaysD(1) [OF t(2)] l by blast
qed

declare copyIn_loop.simps [code] copyOut_loop.simps [code] query_loop.simps [code] functionCall_loop.simps [code]
  sync_loop.simps [code] eqp_drain.simps [code] eqp_loop.simps [code] transaction.simps [code]

text \<open>A session: a client with the middlewares the pool gives it sends a query, the server answers with one row.\<close>

definition sample_query :: msg where
  "sample_query = Msg (PQuery ''SELECT 1'')"

definition sample_client :: conn where
  "sample_client = (NewConn [Inr (Msg (PTerminate Terminate))])
     \<lparr>cn_Middleware := [MwUnterminate, MwPsClient (ps_NewClient []), MwEqpClient eqp_new]\<rparr>"

definition sample_server :: conn where
  "sample_server = (NewConn (map (\<lambda>p. Inr (Msg p)) [PDataRow [], PCommandComplete ''SELECT 1'',
      PReadyForQuery (type_code CHR ''I''), PNoData NoData]))
     \<lparr>cn_Middleware := [MwPsServer (ps_NewServer []), MwEqpServer eqp_new]\<rparr>"

lemma sample_ok: "conn_inv ServerSide sample_server" "conn_inv ClientSide sample_client" "c2s_msg sample_query"
  by (simp_all add: conn_inv_def sample_server_def sample_client_def sample_query_def NewConn_def eqp_inv_new c2s_msg_def s2c_msg_def
      type_bytes TypeParameterStatus_def TypeMarkiplierResponse_def TypeDataRow_def TypeNoData_def TypeTerminate_def)

lemma sample_run: "\<exists>c s. Bounce sample_client sample_server sample_query = Some ((None, None), c, s)"
proof -
  have "map_option fst (Bounce sample_client sample_server sample_query) = Some (None, None)" by code_simp
  then show ?thesis by auto
qed

text \<open>
  (C4) A transaction always returns: whatever finite sequence of packets and errors the two connections deliver, and
  whatever their writes and flushes answer, \<^verbatim>\<open>Bounce\<close> ends without a panic and leaves both connections well formed, provided
  that the client sends no \<^verbatim>\<open>Bind\<close> with a parameter length below -1.  That is the hypothesis \<open>c2s_msg\<close> on the first packet and, within
  \<open>conn_inv\<close>, on all later ones; on such a \<^verbatim>\<open>Bind\<close> the extended query middleware panics (\<open>bad_Bind_panics\<close>).
\<close>

theorem Bounce_returns:
  assumes "conn_inv ServerSide server" "conn_inv ClientSide client" "c2s_msg m"
  shows "\<exists>clientError serverError client' server'.
    Bounce client server m = Some ((clientError, serverError), client', server') \<and>
    conn_inv ClientSide client' \<and> conn_inv ServerSide server'"
proof (rule Transaction_obtain [OF assms])
  fix err T assume "Transaction server client m = Some ((err, b_PeerError T), b_Server T, b_Peer T)" "binv T"
  then show ?thesis by (simp add: Bounce_def binv_def)
qed

theorem Bounce_returns_witness:
  "\<exists>clientError serverError client' server'.
    Bounce sample_client sample_server sample_query = Some ((clientError, serverError), client', server') \<and>
    conn_inv ClientSide client' \<and> conn_inv ServerSide server'"
  using Bounce_returns [OF sample_ok] .

text \<open>
  (C2) A server that goes back to the pool is idle: when \<^verbatim>\<open>Bounce\<close> reports no server error, the last packet read from
  the server was \<^verbatim>\<open>ReadyForQuery\<close> with status \<^verbatim>\<open>I\<close>, whether or not the client failed meanwhile.
\<close>

theorem Bounce_leaves_idle:
  assumes "conn_inv ServerSide server" "conn_inv ClientSide client" "c2s_msg m"
    "Bounce client server m = Some ((clientError, None), client', server')"
  shows "\<exists>taken. cn_inbox server = taken @ [Inr (Msg (PReadyForQuery (type_code CHR ''I'')))] @ cn_inbox server'"
proof (rule Transaction_obtain [OF assms(1-3)])
  fix err T h assume t: "Transaction server client m = Some ((err, b_PeerError T), b_Server T, b_Peer T)"
    and q: "err = None \<longrightarrow> h = Idle \<and> settled (new_binding server (Some client) (Some m)) T \<and> b_TxState T = type_code CHR ''I''"
  from t assms(4) have "err = None" "server' = b_Server T" by (auto simp: Bounce_def)
  with q show ?thesis by (auto simp: settled_def new_binding_def)
qed

theorem Bounce_leaves_idle_witness:
  "\<exists>client' server' taken. Bounce sample_client sample_server sample_query = Some ((None, None), client', server') \<and>
    cn_inbox sample_server = taken @ [Inr (Msg (PReadyForQuery (type_code CHR ''I'')))] @ cn_inbox server'"
proof -
  from sample_run obtain c s where "Bounce sample_client sample_server sample_query = Some ((None, None), c, s)" by (elim exE)
  with Bounce_leaves_idle [OF sample_ok this] show ?thesis by blast
qed

text \<open>
  (C3) A transaction without errors delivers everything, in order, exactly once, to a client without the middleware of the
  hybrid pool (which drops answers on purpose): the client has received precisely the packets taken from the server, and
  the server precisely the first packet and the packets taken from the client.  Three kinds of packets are not counted,
  because the pooler suppresses or makes some of them itself: \<^verbatim>\<open>ParameterStatus\<close> (suppressed when the client knows the value) and
  \<^verbatim>\<open>ReadyForQuery\<close> (made by the pooler as the answer to a phony \<^verbatim>\<open>Sync\<close>) towards the client, and \<^verbatim>\<open>Sync\<close> towards the server (a phony one is
  never forwarded).
\<close>

theorem Bounce_delivers:
  assumes "conn_inv ServerSide server" "conn_inv ClientSide client" "c2s_msg m" "KHybrid \<notin> set (kinds client)"
    "Bounce client server m = Some ((None, None), client', server')"
  shows "\<exists>got out asked sent.
    cn_inbox server = map Inr got @ cn_inbox server' \<and> cn_outbox client' = cn_outbox client @ out \<and>
    filter (\<lambda>m. not_ps m \<and> not_rfq m) out = filter (\<lambda>m. not_ps m \<and> not_rfq m) got \<and>
    cn_inbox client = map Inr asked @ cn_inbox client' \<and> cn_outbox server' = cn_outbox server @ sent \<and>
    filter not_sync sent = filter not_sync (m # asked)"
proof (rule Transaction_obtain [OF assms(1-3)])
  let ?B = "new_binding server (Some client) (Some m)"
  fix err T h log assume t: "Transaction server client m = Some ((err, b_PeerError T), b_Server T, b_Peer T)"
    and l: "relay_run (FromPeer m, 0, True) log = Some (h, b_TxState T, PeerOK T)" "moved log h ?B T"
    and q: "err = None \<longrightarrow> h = Idle \<and> settled ?B T \<and> b_TxState T = type_code CHR ''I''" and b: "brun ?B log T"
    and k: "conn_same client (b_Peer T)"
  from t assms(5) have e: "err = None" "b_PeerError T = None" "server' = b_Server T" "client' = b_Peer T"
    by (auto simp: Bounce_def)
  with q have h: "h = Idle" by simp
  have ok: "PeerOK T" using brun_peer [OF b] e by (auto simp: PeerOK_def new_binding_def)
  from l(1) ok h have bal: "filter not_rfq (srs log) = filter not_rfq (pws log)"
    "filter not_sync (m # prs log) = filter not_sync (sws log)"
    using relay_run_balance [of "FromPeer m" 0 log] by (auto simp: plain_def held_s_def held_p_def)
  from l(2) ok obtain out where o: "cn_outbox (b_Peer T) = cn_outbox (b_Peer ?B) @ out" "filter not_ps out = filter not_ps (pws log)"
    unfolding moved_def using assms(4) by (auto simp: new_binding_def)
  have todo: "cn_todo client = cn_inbox client" "cn_todo (b_Peer T) = cn_inbox (b_Peer T)"
    using assms(4) k by (auto simp: conn_same_def intro!: todo_plain)
  have "filter (\<lambda>m. not_ps m \<and> not_rfq m) out = filter not_rfq (filter not_ps out)" by (simp add: conj_commute)
  also have "\<dots> = filter not_ps (filter not_rfq (pws log))" by (simp add: o conj_commute)
  also have "\<dots> = filter (\<lambda>m. not_ps m \<and> not_rfq m) (srs log)" by (simp add: bal(1) [symmetric] conj_commute)
  finally show ?thesis using l(2) h ok o(1) bal(2) e
    by (intro exI [of _ "srs log"] exI [of _ out] exI [of _ "prs log"] exI [of _ "sws log"])
      (simp add: moved_def new_binding_def todo)
qed

theorem Bounce_delivers_witness:
  "\<exists>client' server' got out asked sent.
    Bounce sample_client sample_server sample_query = Some ((None, None), client', server') \<and>
    cn_inbox sample_server = map Inr got @ cn_inbox server' \<and> cn_outbox client' = cn_outbox sample_client @ out \<and>
    filter (\<lambda>m. not_ps m \<and> not_rfq m) out = filter (\<lambda>m. not_ps m \<and> not_rfq m) got \<and>
    cn_inbox sample_client = map Inr asked @ cn_inbox client' \<and> cn_outbox server' = cn_outbox sample_server @ sent \<and>
    filter not_sync sent = filter not_sync (sample_query # asked)"
proof -
  from sample_run obtain c s where "Bounce sample_client sample_server sample_query = Some ((None, None), c, s)" by (elim exE)
  moreover have "KHybrid \<notin> set (kinds sample_client)" by (simp add: sample_client_def)
  ultimately show ?thesis using Bounce_delivers [OF sample_ok] by blast
qed

text \<open>
  A client whose first packet is \<^verbatim>\<open>Sync\<close> is answered with \<^verbatim>\<open>ReadyForQuery\<close> and the status byte 0, which is no
  transaction status: the state of a new binding is the zero value, not \<^verbatim>\<open>I\<close>.  The server is not asked.
\<close>

theorem phony_sync_status_zero:
  assumes "cn_Middleware client = []" "cn_writes client = []"
  shows "map_option (\<lambda>(err, T). (err, b_Server T, cn_outbox (b_Peer T)))
      (transaction_step (new_binding server (Some client) (Some Sync_packet))) =
    Some (None, server, cn_outbox client @ [Msg (PReadyForQuery 0)])"
proof -
  have "conn_WritePacket (Msg (PReadyForQuery 0)) client =
      Some (None, client\<lparr>cn_outbox := cn_outbox client @ [Msg (PReadyForQuery 0)]\<rparr>)"
    using assms by (simp add: conn_WritePacket_def conn_write_from_def conn_writePacket_def conn_PostWrite_none)
  then show ?thesis
    by (simp add: transaction_step_def new_binding_def packet_type_def Sync_packet_def PeerWrite_def PeerOK_def
        TypeSync_def TypeQuery_def TypeFunctionCall_def type_code_def)
qed

theorem phony_sync_status_zero_witness:
  "map_option (\<lambda>(err, T). (err, b_Server T, cn_outbox (b_Peer T)))
      (transaction_step (new_binding sample_server (Some (NewConn [])) (Some Sync_packet))) =
    Some (None, sample_server, [Msg (PReadyForQuery 0)])"
  using phony_sync_status_zero [of "NewConn []" sample_server] by (simp add: NewConn_def)

end
