(* ===== verification/Go_Collections.thy ===== *)
theory Go_Collections
  imports Pggat_Prelude
begin

text \<open>
  The slice helpers of \<^verbatim>\<open>lib/util/slices\<close> and the free list of \<^verbatim>\<open>lib/util/pools\<close>.  \<^verbatim>\<open>RemoveIndex\<close> and
  \<^verbatim>\<open>DeleteIndex\<close> work in place: the model returns the backing slice after the call along with the shorter
  slice the code returns.
\<close>

section \<open>Slices\<close>

fun slices_Contains :: "'a list \<Rightarrow> 'a \<Rightarrow> bool" where
  "slices_Contains [] needle = False"
| "slices_Contains (hay # hs) needle = (if hay = needle then True else slices_Contains hs needle)"

fun slices_Equal_loop :: "'a list \<Rightarrow> 'a list \<Rightarrow> bool" where
  "slices_Equal_loop (a # as) (b # bs) = (if a \<noteq> b then False else slices_Equal_loop as bs)"
| "slices_Equal_loop _ _ = True"

definition slices_Equal :: "'a list \<Rightarrow> 'a list \<Rightarrow> bool" where
  "slices_Equal a b = (if length a \<noteq> length b then False else slices_Equal_loop a b)"

fun slices_Index_from :: "int \<Rightarrow> 'a list \<Rightarrow> 'a \<Rightarrow> int" where
  "slices_Index_from i [] needle = - 1"
| "slices_Index_from i (v # vs) needle = (if needle = v then i else slices_Index_from (i + 1) vs needle)"

definition slices_Index :: "'a list \<Rightarrow> 'a \<Rightarrow> int" where
  "slices_Index haystack needle = slices_Index_from 0 haystack needle"

text \<open>\<^verbatim>\<open>copy(slice[idx:], slice[idx+1:])\<close>, then \<open>last\<close> is stored in the last place.\<close>

definition shift_out :: "'a list \<Rightarrow> int \<Rightarrow> 'a \<Rightarrow> ('a list \<times> 'a list) option" where
  "shift_out sl idx last_item = do {
     tail \<leftarrow> go_slice sl idx (go_len sl);
     rest \<leftarrow> go_slice sl (idx + 1) (go_len sl);
     let sl = take (nat idx) sl @ go_copy tail rest;
     sl \<leftarrow> go_assign sl (go_len sl - 1) last_item;
     short \<leftarrow> go_slice sl 0 (go_len sl - 1);
     Some (sl, short)
   }"

definition slices_RemoveIndex :: "'a list \<Rightarrow> int \<Rightarrow> ('a list \<times> 'a list) option" where
  "slices_RemoveIndex sl idx = do { item \<leftarrow> go_index sl idx; shift_out sl idx item }"

definition slices_DeleteIndex :: "'a \<Rightarrow> 'a list \<Rightarrow> int \<Rightarrow> ('a list \<times> 'a list) option" where
  "slices_DeleteIndex z sl idx = shift_out sl idx z"

definition slices_Remove :: "'a list \<Rightarrow> 'a \<Rightarrow> 'a list option" where
  "slices_Remove sl item = (let i = slices_Index sl item in
     if i = - 1 then Some sl else map_option snd (slices_RemoveIndex sl i))"

definition slices_Delete :: "'a \<Rightarrow> 'a list \<Rightarrow> 'a \<Rightarrow> 'a list option" where
  "slices_Delete z sl item = (let i = slices_Index sl item in
     if i = - 1 then Some sl else map_option snd (slices_DeleteIndex z sl i))"

text \<open>\<^verbatim>\<open>Resize\<close> of a slice with the given capacity.\<close>

definition slices_Resize :: "'a \<Rightarrow> int \<Rightarrow> 'a list \<Rightarrow> int \<Rightarrow> 'a list option" where
  "slices_Resize z cap sl n =
     (if cap < n then map_option (\<lambda>a. go_copy a sl) (go_make z n)
      else if go_len sl < n then Some (sl @ replicate (nat n - length sl) z)
      else go_slice sl 0 n)"

definition slices_Clear :: "'a \<Rightarrow> 'a list \<Rightarrow> 'a list" where
  "slices_Clear z sl = map (\<lambda>_. z) sl"

lemma slices_Contains_iff [simp]: "slices_Contains xs x \<longleftrightarrow> x \<in> set xs"
  by (induction xs) auto

lemma slices_Equal_iff [simp]: "slices_Equal xs ys \<longleftrightarrow> xs = ys"
proof -
  have "length xs = length ys \<Longrightarrow> slices_Equal_loop xs ys \<longleftrightarrow> xs = ys"
    by (induction xs ys rule: list_induct2) auto
  then show ?thesis by (auto simp: slices_Equal_def)
qed

lemma slices_Index_from_cases:
  "(x \<notin> set xs \<and> slices_Index_from i xs x = - 1) \<or>
   (\<exists>ys zs. xs = ys @ x # zs \<and> x \<notin> set ys \<and> slices_Index_from i xs x = i + go_len ys)"
proof (induction xs arbitrary: i)
  case (Cons v vs)
  show ?case
  proof (cases "x = v")
    case True
    then show ?thesis by (intro disjI2 exI [of _ "[]"] exI [of _ vs]) (simp add: go_len_def)
  next
    case False
    show ?thesis
      using Cons.IH [of "i + 1"]
    proof (elim disjE exE conjE)
      fix ys zs assume "vs = ys @ x # zs" "x \<notin> set ys" "slices_Index_from (i + 1) vs x = i + 1 + go_len ys"
      with False show ?thesis by (intro disjI2 exI [of _ "v # ys"] exI [of _ zs]) (simp add: go_len_def)
    qed (use False in simp)
  qed
qed simp

lemma shift_out_ok:
  "shift_out (ys @ x # zs) (go_len ys) w = Some (ys @ zs @ [w], ys @ zs)"
proof -
  obtain l where c: "go_copy (x # zs) zs = zs @ [l]"
    by (cases zs rule: rev_cases) (auto simp: go_copy_def)
  let ?sl = "ys @ zs @ [l]"
  have 1: "go_slice (ys @ x # zs) (go_len ys) (go_len (ys @ x # zs)) = Some (x # zs)"
    "go_slice (ys @ x # zs) (go_len ys + 1) (go_len (ys @ x # zs)) = Some zs"
    by (simp_all add: go_slice_def go_len_def nat_add_distrib)
  have n: "nat (go_len ?sl - 1) = length (ys @ zs)" by (simp add: go_len_def nat_add_distrib)
  then have "go_assign ?sl (go_len ?sl - 1) w = Some (?sl[length (ys @ zs) := w])"
    by (simp add: go_assign_def) (simp add: go_len_def)
  also have "?sl[length (ys @ zs) := w] = ys @ zs @ [w]"
    using list_update_length [of "ys @ zs" l "[]" w] by simp
  finally have 2: "go_assign ?sl (go_len ?sl - 1) w = Some (ys @ zs @ [w])" .
  have 3: "go_slice (ys @ zs @ [w]) 0 (go_len (ys @ zs @ [w]) - 1) = Some (ys @ zs)"
    by (simp add: go_slice_def go_len_def nat_add_distrib)
  have "take (nat (go_len ys)) (ys @ x # zs) = ys" by (simp add: go_len_def)
  with 1 2 3 c show ?thesis by (simp add: shift_out_def Let_def)
qed

text \<open>Removing takes out the first occurrence and keeps the order.\<close>

lemma slices_Remove_remove1: "slices_Remove xs x = Some (remove1 x xs)"
  using slices_Index_from_cases [of x xs 0]
proof (elim disjE exE conjE)
  fix ys zs assume a: "xs = ys @ x # zs" "x \<notin> set ys" "slices_Index_from 0 xs x = 0 + go_len ys"
  then have "slices_RemoveIndex xs (go_len ys) = Some (ys @ zs @ [x], ys @ zs)"
    by (simp add: slices_RemoveIndex_def shift_out_ok go_index_def) (simp add: go_len_def)
  with a show ?thesis by (simp add: slices_Remove_def slices_Index_def remove1_append go_len_def)
qed (simp add: slices_Remove_def slices_Index_def remove1_idem)

lemma slices_Delete_remove1: "slices_Delete z xs x = Some (remove1 x xs)"
  using slices_Index_from_cases [of x xs 0]
proof (elim disjE exE conjE)
  fix ys zs assume a: "xs = ys @ x # zs" "x \<notin> set ys" "slices_Index_from 0 xs x = 0 + go_len ys"
  then show ?thesis
    using go_len_nonneg [of ys]
    by (simp add: slices_Delete_def slices_Index_def slices_DeleteIndex_def shift_out_ok remove1_append
        del: go_len_nonneg)
qed (simp add: slices_Delete_def slices_Index_def remove1_idem)

lemma slices_Resize_ok:
  assumes "0 \<le> n" "go_len xs \<le> cap"
  shows "slices_Resize z cap xs n = Some (take (nat n) xs @ replicate (nat n - length xs) z)"
  using assms by (auto simp: slices_Resize_def go_make_def go_copy_def go_slice_def go_len_def)

lemma slices_Resize_negative: "n < 0 \<Longrightarrow> slices_Resize z cap xs n = None"
  by (auto simp: slices_Resize_def go_make_def go_slice_def go_len_def)

section \<open>Free lists\<close>

text \<open>\<^verbatim>\<open>Pool\<close>; \<^verbatim>\<open>Locked\<close> is the same under a mutex, so each call of it is one atomic step.\<close>

definition Pool_Get :: "'a list \<Rightarrow> 'a option \<times> 'a list" where
  "Pool_Get P = (if P = [] then (None, P) else (Some (last P), butlast P))"

definition Pool_Put :: "'a \<Rightarrow> 'a list \<Rightarrow> 'a list" where
  "Pool_Put v P = P @ [v]"

lemma Pool_Get_Put [simp]: "Pool_Get (Pool_Put v P) = (Some v, P)"
  by (simp add: Pool_Get_def Pool_Put_def)

lemma Pool_Get_cases:
  obtains (none) "Pool_Get P = (None, [])" "P = []"
    | (some) c Q where "Pool_Get P = (Some c, Q)" "P = Q @ [c]"
  by (cases P rule: rev_cases) (auto simp: Pool_Get_def)

end
