(* ===== verification/Middleware_Sync.thy ===== *)
theory Middleware_Sync
  imports Backend_Query Go_Collections
begin

text \<open>
  Pairing a client with a server: \<^verbatim>\<open>lib/fed/middlewares/eqp/sync.go\<close> brings the prepared statements and portals of the
  server to those of the client, \<^verbatim>\<open>lib/fed/middlewares/ps/sync.go\<close> the parameters.  The middlewares are found by
  \<^verbatim>\<open>LookupMiddleware\<close> in the list of the connection; since the code holds a pointer, a change of what it found is
  a change of the entry of that list.
\<close>

section \<open>LookupMiddleware\<close>

fun lookup_eqp_client :: "middleware list \<Rightarrow> eqp_state option" where
  "lookup_eqp_client [] = None"
| "lookup_eqp_client (MwEqpClient T # ms) = Some T"
| "lookup_eqp_client (m # ms) = lookup_eqp_client ms"

fun lookup_eqp_server :: "middleware list \<Rightarrow> eqp_state option" where
  "lookup_eqp_server [] = None"
| "lookup_eqp_server (MwEqpServer T # ms) = Some T"
| "lookup_eqp_server (m # ms) = lookup_eqp_server ms"

fun lookup_ps_client :: "middleware list \<Rightarrow> ps_client option" where
  "lookup_ps_client [] = None"
| "lookup_ps_client (MwPsClient T # ms) = Some T"
| "lookup_ps_client (m # ms) = lookup_ps_client ms"

fun lookup_ps_server :: "middleware list \<Rightarrow> ps_server option" where
  "lookup_ps_server [] = None"
| "lookup_ps_server (MwPsServer T # ms) = Some T"
| "lookup_ps_server (m # ms) = lookup_ps_server ms"

text \<open>Writing through the pointers that the lookups of the parameter status middleware return.\<close>

fun store_ps_client :: "ps_client \<Rightarrow> middleware list \<Rightarrow> middleware list" where
  "store_ps_client T [] = []"
| "store_ps_client T (MwPsClient _ # ms) = MwPsClient T # ms"
| "store_ps_client T (m # ms) = m # store_ps_client T ms"

fun store_ps_server :: "ps_server \<Rightarrow> middleware list \<Rightarrow> middleware list" where
  "store_ps_server T [] = []"
| "store_ps_server T (MwPsServer _ # ms) = MwPsServer T # ms"
| "store_ps_server T (m # ms) = m # store_ps_server T ms"

section \<open>Extended query state\<close>

definition preparedStatementsEqual :: "Parse \<Rightarrow> Parse \<Rightarrow> bool" where
  "preparedStatementsEqual a b \<longleftrightarrow> Parse_Query a = Parse_Query b \<and> slices_Equal (Parse_ParameterDataTypes a) (Parse_ParameterDataTypes b)"

definition close_msg :: "char \<Rightarrow> string \<Rightarrow> msg" where
  "close_msg which name = Msg (PClose \<lparr>Close_Which = type_code which, Close_Name = name\<rparr>)"

text \<open>The packets of the four loops of \<^verbatim>\<open>SyncMiddleware\<close>.\<close>

definition portal_closes :: "eqp_state \<Rightarrow> msg list" where
  "portal_closes s = map (\<lambda>(name, _). close_msg CHR ''P'' name) (eq_portals s)"

definition keeps_statement :: "eqp_state \<Rightarrow> string \<times> Parse \<Rightarrow> bool" where
  "keeps_statement c = (\<lambda>(name, preparedStatement).
     case map_of (eq_preparedStatements c) name of
       Some clientPreparedStatement \<Rightarrow> preparedStatementsEqual preparedStatement clientPreparedStatement \<or> name = []
     | None \<Rightarrow> False)"

definition statement_closes :: "eqp_state \<Rightarrow> eqp_state \<Rightarrow> msg list" where
  "statement_closes c s = map (\<lambda>(name, _). close_msg CHR ''S'' name) (filter (\<lambda>e. \<not> keeps_statement c e) (eq_preparedStatements s))"

definition has_statement :: "eqp_state \<Rightarrow> string \<times> Parse \<Rightarrow> bool" where
  "has_statement s = (\<lambda>(name, preparedStatement).
     case map_of (eq_preparedStatements s) name of
       Some serverPreparedStatement \<Rightarrow> preparedStatementsEqual preparedStatement serverPreparedStatement
     | None \<Rightarrow> False)"

definition statement_parses :: "eqp_state \<Rightarrow> eqp_state \<Rightarrow> msg list" where
  "statement_parses c s = map (\<lambda>(_, p). Msg (PParse p)) (filter (\<lambda>e. \<not> has_statement s e) (eq_preparedStatements c))"

definition portal_binds :: "eqp_state \<Rightarrow> msg list" where
  "portal_binds c = map (\<lambda>(_, p). Msg (PBind p)) (eq_portals c)"

text \<open>A loop of writes that returns at the first error.\<close>

fun write_all :: "msg list \<Rightarrow> conn \<Rightarrow> (fed_error option \<times> conn) option" where
  "write_all [] server = Some (None, server)"
| "write_all (p # ps) server = do {
     (err, server) \<leftarrow> conn_WritePacket p server;
     case err of Some err \<Rightarrow> Some (Some err, server) | None \<Rightarrow> write_all ps server
   }"

text \<open>
  The four loops in turn, on the state the server's middleware has when each begins; the result says whether
  anything was written.
\<close>

definition eqp_sync_phase :: "(eqp_state \<Rightarrow> msg list) \<Rightarrow> conn \<Rightarrow> ((bool \<times> fed_error option) \<times> conn) option" where
  "eqp_sync_phase f server = do {
     s \<leftarrow> lookup_eqp_server (cn_Middleware server);
     (err, server) \<leftarrow> write_all (f s) server;
     Some ((f s \<noteq> [], err), server)
   }"

fun eqp_sync_phases :: "(eqp_state \<Rightarrow> msg list) list \<Rightarrow> bool \<Rightarrow> conn \<Rightarrow> ((bool \<times> fed_error option) \<times> conn) option" where
  "eqp_sync_phases [] needs server = Some ((needs, None), server)"
| "eqp_sync_phases (f # fs) needs server = do {
     ((wrote, err), server) \<leftarrow> eqp_sync_phase f server;
     case err of
       Some err \<Rightarrow> Some ((needs \<or> wrote, Some err), server)
     | None \<Rightarrow> eqp_sync_phases fs (needs \<or> wrote) server
   }"

definition eqp_SyncMiddleware :: "eqp_state \<Rightarrow> conn \<Rightarrow> (fed_error option \<times> conn) option" where
  "eqp_SyncMiddleware c server = do {
     ((needsBackendSync, err), server) \<leftarrow>
       eqp_sync_phases [portal_closes, statement_closes c, statement_parses c, \<lambda>_. portal_binds c] False server;
     case err of
       Some err \<Rightarrow> Some (Some err, server)
     | None \<Rightarrow>
         if needsBackendSync then map_option (\<lambda>((err, _), server, _). (err, server)) (Backend_Sync server None)
         else Some (None, server)
   }"

definition eqp_Sync :: "conn \<Rightarrow> conn \<Rightarrow> (fed_error option \<times> conn) option" where
  "eqp_Sync client server = do {
     c \<leftarrow> lookup_eqp_client (cn_Middleware client);
     eqp_SyncMiddleware c server
   }"

section \<open>Parameters\<close>

text \<open>
  \<^verbatim>\<open>sync\<close> for one name.  The client connection is optional; the client's middleware is an entry of its list if it is
  there, and a separate value if not (\<^verbatim>\<open>SyncMiddleware\<close>).  The result: the two errors, the client and the server.
\<close>

type_synonym ps_result = "((fed_error option \<times> fed_error option) \<times> conn option \<times> conn) option"

definition write_status :: "conn option \<Rightarrow> string \<Rightarrow> string \<Rightarrow> (fed_error option \<times> conn option) option" where
  "write_status client name v =
     (case client of
        None \<Rightarrow> Some (None, None)
      | Some cl \<Rightarrow> map_option (\<lambda>(err, cl). (err, Some cl))
          (conn_WritePacket (Msg (PParameterStatus \<lparr>ParameterStatus_Key = name, ParameterStatus_Value = v\<rparr>)) cl))"

definition ps_sync :: "CIString list \<Rightarrow> ps_client \<Rightarrow> conn option \<Rightarrow> conn \<Rightarrow> CIString \<Rightarrow> ps_result" where
  "ps_sync tracking c client server name = do {
     s \<leftarrow> lookup_ps_server (cn_Middleware server);
     let v = map_get (pc_parameters c) name;
     let hasValue = (map_of (pc_parameters c) name \<noteq> None);
     let expected = map_get (pv_parameters s) name;
     let hasExpected = (map_of (pv_parameters s) name \<noteq> None);
     if v = expected then
       if client \<noteq> None \<and> \<not> pc_synced c
       then map_option (\<lambda>(err, client). ((err, None), client, server)) (write_status client name expected)
       else Some ((None, None), client, server)
     else if hasValue \<and> slices_Contains tracking name then do {
       ((serverErr, _), server, _) \<leftarrow> SetParameter server None name v;
       case serverErr of
         Some e \<Rightarrow> Some ((None, Some e), client, server)
       | None \<Rightarrow> do {
           s \<leftarrow> lookup_ps_server (cn_Middleware server);
           let server = server\<lparr>cn_Middleware := store_ps_server (s\<lparr>pv_parameters := AList.update name v (pv_parameters s)\<rparr>) (cn_Middleware server)\<rparr>;
           if \<not> pc_synced c
           then map_option (\<lambda>(err, client). ((err, None), client, server)) (write_status client name v)
           else Some ((None, None), client, server)
         }
     }
     else if hasExpected
     then map_option (\<lambda>(err, client). ((err, None), client, server)) (write_status client name expected)
     else Some ((None, None), client, server)
   }"

text \<open>
  \<^verbatim>\<open>SyncMiddleware\<close>: no client connection, the middleware of the client does not change.  The keys of a map are
  visited in the order of its list; the keys of the server are those it has when the second loop begins.
\<close>

fun ps_SyncMiddleware_loop :: "CIString list \<Rightarrow> ps_client \<Rightarrow> conn \<Rightarrow> CIString list \<Rightarrow> (fed_error option \<times> conn) option" where
  "ps_SyncMiddleware_loop tracking c server [] = Some (None, server)"
| "ps_SyncMiddleware_loop tracking c server (name # names) = do {
     ((_, serverErr), _, server) \<leftarrow> ps_sync tracking c None server name;
     case serverErr of Some e \<Rightarrow> Some (Some e, server) | None \<Rightarrow> ps_SyncMiddleware_loop tracking c server names
   }"

definition ps_SyncMiddleware :: "CIString list \<Rightarrow> ps_client \<Rightarrow> conn \<Rightarrow> (fed_error option \<times> conn) option" where
  "ps_SyncMiddleware tracking c server = do {
     _ \<leftarrow> lookup_ps_server (cn_Middleware server);
     (err, server) \<leftarrow> ps_SyncMiddleware_loop tracking c server (map fst (pc_parameters c));
     case err of
       Some e \<Rightarrow> Some (Some e, server)
     | None \<Rightarrow> do {
         s \<leftarrow> lookup_ps_server (cn_Middleware server);
         ps_SyncMiddleware_loop tracking c server
           (filter (\<lambda>name. map_of (pc_parameters c) name = None) (map fst (pv_parameters s)))
       }
   }"

text \<open>\<^verbatim>\<open>Sync\<close>: the middleware of the client is read again before each name, since a write to the client changes it.\<close>

fun ps_Sync_loop :: "bool \<Rightarrow> CIString list \<Rightarrow> conn \<Rightarrow> conn \<Rightarrow> CIString list \<Rightarrow> ps_result" where
  "ps_Sync_loop skip tracking client server [] = Some ((None, None), Some client, server)"
| "ps_Sync_loop skip tracking client server (name # names) = do {
     c \<leftarrow> lookup_ps_client (cn_Middleware client);
     if skip \<and> map_of (pc_parameters c) name \<noteq> None then ps_Sync_loop skip tracking client server names
     else do {
       ((clientErr, serverErr), client', server) \<leftarrow> ps_sync tracking c (Some client) server name;
       client \<leftarrow> client';
       if clientErr \<noteq> None \<or> serverErr \<noteq> None then Some ((clientErr, serverErr), Some client, server)
       else ps_Sync_loop skip tracking client server names
     }
   }"

definition ps_Sync :: "CIString list \<Rightarrow> conn \<Rightarrow> conn \<Rightarrow> ps_result" where
  "ps_Sync tracking client server = do {
     c \<leftarrow> lookup_ps_client (cn_Middleware client);
     _ \<leftarrow> lookup_ps_server (cn_Middleware server);
     ((clientErr, serverErr), client', server) \<leftarrow> ps_Sync_loop False tracking client server (map fst (pc_parameters c));
     client \<leftarrow> client';
     if clientErr \<noteq> None \<or> serverErr \<noteq> None then Some ((clientErr, serverErr), Some client, server)
     else do {
       s \<leftarrow> lookup_ps_server (cn_Middleware server);
       ((clientErr, serverErr), client', server) \<leftarrow> ps_Sync_loop True tracking client server (map fst (pv_parameters s));
       client \<leftarrow> client';
       if clientErr \<noteq> None \<or> serverErr \<noteq> None then Some ((clientErr, serverErr), Some client, server)
       else do {
         c \<leftarrow> lookup_ps_client (cn_Middleware client);
         Some ((None, None),
           Some (client\<lparr>cn_Middleware := store_ps_client (c\<lparr>pc_synced := True\<rparr>) (cn_Middleware client)\<rparr>), server)
       }
     }
   }"

section \<open>The requests of a synchronisation\<close>

definition portal_close :: "string \<Rightarrow> eqp_req" where
  "portal_close name = ReqClose \<lparr>ec_Variant = CloseVariantPortal, ec_Target = name\<rparr>"
definition statement_close :: "string \<Rightarrow> eqp_req" where
  "statement_close name = ReqClose \<lparr>ec_Variant = CloseVariantPreparedStatement, ec_Target = name\<rparr>"

definition dropped :: "eqp_state \<Rightarrow> eqp_state \<Rightarrow> string list" where
  "dropped c s = map fst (filter (\<lambda>e. \<not> keeps_statement c e) (eq_preparedStatements s))"
definition missing :: "eqp_state \<Rightarrow> eqp_state \<Rightarrow> (string \<times> Parse) list" where
  "missing c s = filter (\<lambda>e. \<not> has_statement s e) (eq_preparedStatements c)"

definition sync_reqs :: "eqp_state \<Rightarrow> eqp_state \<Rightarrow> eqp_req list" where
  "sync_reqs c s = map portal_close (map fst (eq_portals s)) @ map statement_close (dropped c s) @
     map (\<lambda>e. ReqParse (snd e)) (missing c s) @ map (\<lambda>e. ReqBind (snd e)) (eq_portals c)"

text \<open>The server answers every request in order, then \<^verbatim>\<open>ReadyForQuery\<close>.\<close>

definition sync_replies :: "eqp_req list \<Rightarrow> byte \<Rightarrow> (fed_error + msg) list" where
  "sync_replies rs st = (if rs = [] then [] else map (\<lambda>r. Inr (ack_msg r)) rs @ [Inr (Msg (PReadyForQuery st))])"

lemma sync_phases_msgs:
  "portal_closes s = map req_msg (map portal_close (map fst (eq_portals s)))"
  "statement_closes c s = map req_msg (map statement_close (dropped c s))"
  "statement_parses c s = map req_msg (map (\<lambda>e. ReqParse (snd e)) (missing c s))"
  "portal_binds c = map req_msg (map (\<lambda>e. ReqBind (snd e)) (eq_portals c))"
  by (simp_all add: portal_closes_def statement_closes_def statement_parses_def portal_binds_def dropped_def missing_def
      portal_close_def statement_close_def close_msg_def split_beta)

section \<open>Writing the requests\<close>

text \<open>A server connection as the pool makes it: no failing I/O, the parameter middleware and the extended query middleware.\<close>

definition paired :: "ps_server \<Rightarrow> eqp_state \<Rightarrow> conn \<Rightarrow> bool" where
  "paired p s T \<longleftrightarrow> cn_Middleware T = [MwPsServer p, MwEqpServer s] \<and> cn_writes T = [] \<and> cn_flushes T = []"

definition same_maps :: "eqp_state \<Rightarrow> eqp_state \<Rightarrow> bool" where
  "same_maps s s' \<longleftrightarrow> eq_preparedStatements s' = eq_preparedStatements s \<and> eq_portals s' = eq_portals s"

lemma eqp_C2S_req_maps: "eqp_C2S (req_msg r) s = Some (x, s') \<Longrightarrow> same_maps s s'"
  by (cases r; cases x)
    (auto simp: same_maps_def eqp_C2S_def eqp_Parse_def eqp_Bind_def eqp_Close_def type_bytes Let_def split: bind_splits if_splits)

lemma write_req:
  assumes "paired p s T" "eqp_inv s" "eqp_abs s = pending_view rs v"
  shows "\<exists>s'. conn_WritePacket (req_msg r) T = Some (None, T\<lparr>cn_outbox := cn_outbox T @ [req_msg r], cn_Middleware := [MwPsServer p, MwEqpServer s']\<rparr>) \<and>
    eqp_inv s' \<and> eqp_abs s' = pending_view (rs @ [r]) v \<and> same_maps s s'"
proof -
  from eqp_C2S_req [OF assms(2), of r] obtain s' where s': "eqp_C2S (req_msg r) s = Some (Inr (req_msg r), s')" "eqp_inv s'"
    "eqp_abs s' = spec_req r (eqp_abs s)" by (elim exE conjE) rule
  have "conn_WritePacket (req_msg r) T =
      Some (None, T\<lparr>cn_outbox := cn_outbox T @ [req_msg r], cn_Middleware := [MwPsServer p, MwEqpServer s']\<rparr>)"
    using assms(1) s'(1) by (simp add: paired_def conn_WritePacket_def conn_write_from_def conn_writePacket_def conn_PostWrite_none eqp_wrap_def)
  then show ?thesis using s' assms(3) eqp_C2S_req_maps [OF s'(1)] by (auto simp: spec_req_pending)
qed

lemma write_all_reqs:
  assumes "paired p s T" "eqp_inv s" "eqp_abs s = pending_view rs0 v"
  shows "\<exists>s'. write_all (map req_msg rs) T = Some (None, T\<lparr>cn_outbox := cn_outbox T @ map req_msg rs, cn_Middleware := [MwPsServer p, MwEqpServer s']\<rparr>) \<and>
    eqp_inv s' \<and> eqp_abs s' = pending_view (rs0 @ rs) v \<and> same_maps s s'"
  using assms
proof (induction rs arbitrary: s T rs0)
  case Nil
  then have "T\<lparr>cn_Middleware := [MwPsServer p, MwEqpServer s]\<rparr> = T" by (simp add: paired_def)
  with Nil show ?case by (intro exI [of _ s]) (simp add: same_maps_def)
next
  case (Cons r rs)
  from write_req [OF Cons.prems, of r] obtain s1 where
    s1: "conn_WritePacket (req_msg r) T = Some (None, T\<lparr>cn_outbox := cn_outbox T @ [req_msg r], cn_Middleware := [MwPsServer p, MwEqpServer s1]\<rparr>)"
      "eqp_inv s1" "eqp_abs s1 = pending_view (rs0 @ [r]) v" "same_maps s s1" by (elim exE conjE) rule
  let ?T = "T\<lparr>cn_outbox := cn_outbox T @ [req_msg r], cn_Middleware := [MwPsServer p, MwEqpServer s1]\<rparr>"
  have "paired p s1 ?T" using Cons.prems(1) by (simp add: paired_def)
  from Cons.IH [OF this s1(2,3)] obtain s' where "write_all (map req_msg rs) ?T =
      Some (None, ?T\<lparr>cn_outbox := cn_outbox ?T @ map req_msg rs, cn_Middleware := [MwPsServer p, MwEqpServer s']\<rparr>)"
    "eqp_inv s'" "eqp_abs s' = pending_view ((rs0 @ [r]) @ rs) v" "same_maps s1 s'" by (elim exE conjE) rule
  with s1 show ?case by (intro exI [of _ s']) (simp add: same_maps_def)
qed

lemma sync_phases_ok:
  assumes "\<forall>(f, rs)\<in>set frs. \<forall>s'. same_maps s s' \<longrightarrow> f s' = map req_msg rs"
    "paired p s T" "eqp_inv s" "eqp_abs s = pending_view rs0 v"
  shows "\<exists>s' out. eqp_sync_phases (map fst frs) b T =
      Some ((b \<or> concat (map snd frs) \<noteq> [], None), T\<lparr>cn_outbox := out, cn_Middleware := [MwPsServer p, MwEqpServer s']\<rparr>) \<and>
    eqp_inv s' \<and> eqp_abs s' = pending_view (rs0 @ concat (map snd frs)) v \<and> same_maps s s'"
  using assms
proof (induction frs arbitrary: s T rs0 b)
  case Nil
  then have "T\<lparr>cn_outbox := cn_outbox T, cn_Middleware := [MwPsServer p, MwEqpServer s]\<rparr> = T" by (simp add: paired_def)
  with Nil show ?case by (intro exI [of _ s] exI [of _ "cn_outbox T"]) (simp add: same_maps_def)
next
  case (Cons fr frs)
  obtain f rs where fr: "fr = (f, rs)" by fastforce
  with Cons.prems(1) have f: "f s = map req_msg rs" by (auto simp: same_maps_def)
  from write_all_reqs [OF Cons.prems(2-4), of rs] obtain s1 where
    s1: "write_all (map req_msg rs) T = Some (None, T\<lparr>cn_outbox := cn_outbox T @ map req_msg rs, cn_Middleware := [MwPsServer p, MwEqpServer s1]\<rparr>)"
      "eqp_inv s1" "eqp_abs s1 = pending_view (rs0 @ rs) v" "same_maps s s1" by (elim exE conjE) rule
  let ?T = "T\<lparr>cn_outbox := cn_outbox T @ map req_msg rs, cn_Middleware := [MwPsServer p, MwEqpServer s1]\<rparr>"
  have ph: "eqp_sync_phase f T = Some ((rs \<noteq> [], None), ?T)"
    using Cons.prems(2) f s1(1) by (simp add: eqp_sync_phase_def paired_def)
  have "\<forall>(f, rs)\<in>set frs. \<forall>s'. same_maps s1 s' \<longrightarrow> f s' = map req_msg rs" "paired p s1 ?T"
    using Cons.prems(1,2) s1(4) by (auto simp: same_maps_def paired_def)
  from Cons.IH [OF this s1(2,3), of "b \<or> rs \<noteq> []"] obtain s' out where
    "eqp_sync_phases (map fst frs) (b \<or> rs \<noteq> []) ?T =
      Some (((b \<or> rs \<noteq> []) \<or> concat (map snd frs) \<noteq> [], None), ?T\<lparr>cn_outbox := out, cn_Middleware := [MwPsServer p, MwEqpServer s']\<rparr>)"
    "eqp_inv s'" "eqp_abs s' = pending_view ((rs0 @ rs) @ concat (map snd frs)) v" "same_maps s1 s'" by (elim exE conjE) rule
  with s1 ph fr show ?case by (intro exI [of _ s'] exI [of _ out]) (auto simp: same_maps_def)
qed

section \<open>Reading the answers\<close>

lemma read_through:
  assumes "paired p s T" "cn_inbox T = Inr m # xs" "eqp_S2C m s = Some (Inr m, s')" "msg_Type m \<noteq> TypeParameterStatus"
  shows "conn_ReadPacket True T = Some (Inr m, T\<lparr>cn_inbox := xs, cn_Middleware := [MwPsServer p, MwEqpServer s']\<rparr>)"
  using assms
  by (simp add: paired_def conn_read_simps conn_Flush_def conn_read_from_def ps_Server_ReadPacket_def eqp_wrap_def)

definition sync_types :: "byte set" where
  "sync_types = {TypeParseComplete, TypeBindComplete, TypeCloseComplete, TypeMarkiplierResponse, TypeRowDescription, TypeNoData,
     TypeParameterDescription, TypeCommandComplete, TypeDataRow, TypeEmptyQueryResponse, TypePortalSuspended,
     TypeNoticeResponse, TypeParameterStatus, TypeNotificationResponse}"

lemma sync_loop_forward:
  assumes "ServerRead B = Some (None, B')" "b_Packet B' = Some m" "msg_Type m \<in> sync_types" "PeerWrite B' = Some B''"
  shows "sync_loop B = sync_loop B''"
  using assms packet_type_Some [OF assms(2)] unfolding sync_types_def by (subst sync_loop.simps) simp

lemma ack_types: "msg_Type (ack_msg r) \<in> sync_types" "msg_Type (ack_msg r) \<noteq> TypeParameterStatus"
  by (cases r; simp add: sync_types_def type_bytes TypeParameterStatus_def)+

definition ready_view :: "byte \<Rightarrow> eqp_view \<Rightarrow> eqp_view" where
  "ready_view st v = pending_view [] (if st = type_code CHR ''I'' then v\<lparr>v_portals := Map.empty\<rparr> else v)"

lemma eqp_S2C_ready:
  assumes "eqp_inv s"
  shows "\<exists>s'. eqp_S2C (Msg (PReadyForQuery st)) s = Some (Inr (Msg (PReadyForQuery st)), s') \<and> eqp_inv s' \<and>
    eqp_abs s' = ready_view st (eqp_abs s)"
proof -
  let ?s = "if st = type_code CHR ''I'' then s\<lparr>eq_portals := []\<rparr> else s"
  have "eqp_inv ?s" "eqp_abs ?s = (if st = type_code CHR ''I'' then (eqp_abs s)\<lparr>v_portals := Map.empty\<rparr> else eqp_abs s)"
    using assms by (auto simp: eqp_inv_def eqp_abs_def)
  with eqp_clear_ok [of ?s] show ?thesis
    by (simp add: eqp_S2C_def eqp_ReadyForQuery_def type_bytes ready_view_def)
qed

lemma sync_loop_ready:
  assumes "\<not> PeerOK B" "paired p s (b_Server B)" "cn_inbox (b_Server B) = Inr (Msg (PReadyForQuery st)) # rest" "eqp_inv s"
  shows "\<exists>B' s'. sync_loop B = Some ((True, None), B') \<and> cn_Middleware (b_Server B') = [MwPsServer p, MwEqpServer s'] \<and>
    cn_inbox (b_Server B') = rest \<and> eqp_inv s' \<and> eqp_abs s' = ready_view st (eqp_abs s)"
proof -
  from eqp_S2C_ready [OF assms(4), of st] obtain s' where s': "eqp_S2C (Msg (PReadyForQuery st)) s = Some (Inr (Msg (PReadyForQuery st)), s')"
    "eqp_inv s'" "eqp_abs s' = ready_view st (eqp_abs s)" by (elim exE conjE) rule
  let ?B = "B\<lparr>b_Server := (b_Server B)\<lparr>cn_inbox := rest, cn_Middleware := [MwPsServer p, MwEqpServer s']\<rparr>, b_Packet := Some (Msg (PReadyForQuery st))\<rparr>"
  have "ServerRead B = Some (None, ?B)"
    using read_through [OF assms(2,3) s'(1)] by (simp add: ServerRead_def type_bytes TypeParameterStatus_def)
  moreover have "ready_for_query ?B = Some (None, ?B\<lparr>b_TxState := st\<rparr>)"
    using assms(1) by (simp add: ready_for_query_def PeerWrite_def PeerOK_def)
  ultimately have "sync_loop B = Some ((True, None), ?B\<lparr>b_TxState := st\<rparr>)"
    by (subst sync_loop.simps) (simp add: packet_type_def type_bytes TypeMarkiplierResponse_def TypeRowDescription_def TypeNoData_def
      TypeParameterDescription_def TypeDataRow_def TypeEmptyQueryResponse_def TypePortalSuspended_def TypeNoticeResponse_def
      TypeParameterStatus_def TypeNotificationResponse_def TypeCopyInResponse_def TypeCopyOutResponse_def)
  with s' show ?thesis by auto
qed

lemma sync_loop_acks:
  assumes "\<not> PeerOK B" "paired p s (b_Server B)"
    "cn_inbox (b_Server B) = map (\<lambda>r. Inr (ack_msg r)) rs @ Inr (Msg (PReadyForQuery st)) # rest" "eqp_inv s" "eqp_abs s = pending_view rs v"
  shows "\<exists>B' s'. sync_loop B = Some ((True, None), B') \<and> cn_Middleware (b_Server B') = [MwPsServer p, MwEqpServer s'] \<and>
    cn_inbox (b_Server B') = rest \<and> eqp_inv s' \<and> eqp_abs s' = ready_view st (pending_view [] (fold spec_apply rs v))"
  using assms
proof (induction rs arbitrary: B s v)
  case Nil
  then show ?case using sync_loop_ready [of B p s st rest] by simp
next
  case (Cons r rs)
  from eqp_S2C_ack [OF Cons.prems(4,5)] obtain s1 where
    s1: "eqp_S2C (ack_msg r) s = Some (Inr (ack_msg r), s1)" "eqp_inv s1" "eqp_abs s1 = pending_view rs (spec_apply r v)"
    by (elim exE conjE) rule
  let ?xs = "map (\<lambda>r. Inr (ack_msg r)) rs @ Inr (Msg (PReadyForQuery st)) # rest"
  let ?B = "B\<lparr>b_Server := (b_Server B)\<lparr>cn_inbox := ?xs, cn_Middleware := [MwPsServer p, MwEqpServer s1]\<rparr>, b_Packet := Some (ack_msg r)\<rparr>"
  have "cn_inbox (b_Server B) = Inr (ack_msg r) # ?xs" using Cons.prems(3) by simp
  from read_through [OF Cons.prems(2) this s1(1) ack_types(2)] have "ServerRead B = Some (None, ?B)" by (simp add: ServerRead_def)
  moreover have "PeerWrite ?B = Some ?B" using Cons.prems(1) by (simp add: PeerWrite_def PeerOK_def)
  ultimately have "sync_loop B = sync_loop ?B" by (intro sync_loop_forward [where m = "ack_msg r"]) (simp_all add: ack_types)
  moreover have "\<not> PeerOK ?B" "paired p s1 (b_Server ?B)" "cn_inbox (b_Server ?B) = ?xs"
    using Cons.prems(1,2) by (simp_all add: PeerOK_def paired_def)
  note Cons.IH [OF this s1(2,3)]
  ultimately show ?case by simp
qed

lemma Backend_Sync_ok:
  assumes "paired p s T" "cn_inbox T = map (\<lambda>r. Inr (ack_msg r)) rs @ Inr (Msg (PReadyForQuery st)) # rest"
    "eqp_inv s" "eqp_abs s = pending_view rs v"
  shows "\<exists>T' s'. map_option (\<lambda>((err, _), server, _). (err, server)) (Backend_Sync T None) = Some (None, T') \<and>
    cn_Middleware T' = [MwPsServer p, MwEqpServer s'] \<and> cn_inbox T' = rest \<and> eqp_inv s' \<and>
    eqp_abs s' = ready_view st (pending_view [] (fold spec_apply rs v))"
proof -
  let ?B = "new_binding T None (Some Sync_packet)" let ?T = "T\<lparr>cn_outbox := cn_outbox T @ [Sync_packet]\<rparr>"
  have "T\<lparr>cn_Middleware := [MwPsServer p, MwEqpServer s], cn_outbox := cn_outbox T @ [Sync_packet]\<rparr> = ?T"
    using assms(1) by (simp add: paired_def)
  moreover have "eqp_C2S Sync_packet s = Some (Inr Sync_packet, s)" by (simp add: eqp_C2S_def Sync_packet_def type_bytes TypeSync_def)
  ultimately have "conn_WritePacket Sync_packet T = Some (None, ?T)"
    using assms(1) by (simp add: paired_def conn_WritePacket_def conn_write_from_def conn_writePacket_def conn_PostWrite_none eqp_wrap_def)
  then have w: "ServerWrite ?B = Some (None, ?B\<lparr>b_Server := ?T\<rparr>)" by (simp add: ServerWrite_def new_binding_def)
  have "\<exists>B' s'. sync_loop (?B\<lparr>b_Server := ?T\<rparr>) = Some ((True, None), B') \<and> cn_Middleware (b_Server B') = [MwPsServer p, MwEqpServer s'] \<and>
    cn_inbox (b_Server B') = rest \<and> eqp_inv s' \<and> eqp_abs s' = ready_view st (pending_view [] (fold spec_apply rs v))"
    by (rule sync_loop_acks [where s = s]) (use assms in \<open>auto simp: PeerOK_def new_binding_def paired_def\<close>)
  with w show ?thesis by (auto simp: Backend_Sync_def binding_result_def sync_def)
qed

section \<open>The result\<close>

text \<open>Every entry is stored under its own name.\<close>

definition keyed :: "eqp_state \<Rightarrow> bool" where
  "keyed c \<longleftrightarrow> (\<forall>(n, p)\<in>set (eq_preparedStatements c). Parse_Destination p = n) \<and> (\<forall>(n, p)\<in>set (eq_portals c). Bind_Destination p = n)"

lemma fold_portal_close:
  "v_stmts (fold spec_apply (map portal_close ns) v) = v_stmts v"
  "v_portals (fold spec_apply (map portal_close ns) v) = (\<lambda>n. if n \<in> set ns then None else v_portals v n)"
  by (induction ns arbitrary: v) (auto simp: portal_close_def)

lemma fold_statement_close:
  "v_stmts (fold spec_apply (map statement_close ns) v) = (\<lambda>n. if n \<in> set ns then None else v_stmts v n)"
  "v_portals (fold spec_apply (map statement_close ns) v) = v_portals v"
  by (induction ns arbitrary: v) (auto simp: statement_close_def)

lemma fold_parses:
  assumes "distinct (map fst es)" "\<forall>(n, p)\<in>set es. Parse_Destination p = n"
  shows "v_stmts (fold spec_apply (map (\<lambda>e. ReqParse (snd e)) es) v) = v_stmts v ++ map_of es \<and>
    v_portals (fold spec_apply (map (\<lambda>e. ReqParse (snd e)) es) v) = v_portals v"
  using assms
proof (induction es arbitrary: v)
  case (Cons e es)
  then show ?case by (cases e) (auto simp: map_add_def fun_eq_iff map_of_eq_None_iff [THEN iffD2] split: option.split)
qed simp

lemma fold_binds:
  assumes "distinct (map fst es)" "\<forall>(n, p)\<in>set es. Bind_Destination p = n"
  shows "v_portals (fold spec_apply (map (\<lambda>e. ReqBind (snd e)) es) v) = v_portals v ++ map_of es \<and>
    v_stmts (fold spec_apply (map (\<lambda>e. ReqBind (snd e)) es) v) = v_stmts v"
  using assms
proof (induction es arbitrary: v)
  case (Cons e es)
  then show ?case by (cases e) (auto simp: map_add_def fun_eq_iff map_of_eq_None_iff [THEN iffD2] split: option.split)
qed simp

lemma distinct_map_filter: "distinct (map fst xs) \<Longrightarrow> distinct (map fst (filter P xs))"
  by (induction xs) auto

lemma map_of_filter_key:
  "distinct (map fst xs) \<Longrightarrow> map_of (filter P xs) n = (case map_of xs n of Some x \<Rightarrow> if P (n, x) then Some x else None | None \<Rightarrow> None)"
  by (induction xs) (auto split: option.splits simp: map_of_eq_None_iff image_iff)

lemma in_dropped:
  "distinct (map fst (eq_preparedStatements s)) \<Longrightarrow>
   n \<in> set (dropped c s) \<longleftrightarrow> (\<exists>p. map_of (eq_preparedStatements s) n = Some p \<and> \<not> keeps_statement c (n, p))"
  unfolding dropped_def by (force simp: map_of_eq_Some_iff image_iff)

lemma cleared: "(\<lambda>n. if n \<in> set (map fst xs) then None else map_of xs n) = Map.empty"
  by (simp add: fun_eq_iff map_of_eq_None_iff)

lemma eqp_abs_maps: "v_stmts (eqp_abs T) = map_of (eq_preparedStatements T)" "v_portals (eqp_abs T) = map_of (eq_portals T)"
  by (simp_all add: eqp_abs_def)

lemma sync_reqs_effect:
  assumes "eqp_inv c" "keyed c" "eqp_inv s"
    and v: "v_stmts v = map_of (eq_preparedStatements s)" "v_portals v = map_of (eq_portals s)"
  shows "v_portals (fold spec_apply (sync_reqs c s) v) = map_of (eq_portals c)"
    "case map_of (eq_preparedStatements c) n of
       None \<Rightarrow> v_stmts (fold spec_apply (sync_reqs c s) v) n = None
     | Some a \<Rightarrow> \<exists>b. v_stmts (fold spec_apply (sync_reqs c s) v) n = Some b \<and> preparedStatementsEqual a b"
proof -
  have d: "distinct (map fst (missing c s))" "distinct (map fst (eq_portals c))" "distinct (map fst (eq_preparedStatements s))"
    "distinct (map fst (eq_preparedStatements c))" using assms by (simp_all add: eqp_inv_def missing_def distinct_map_filter)
  have k: "\<forall>(n, p)\<in>set (missing c s). Parse_Destination p = n" "\<forall>(n, p)\<in>set (eq_portals c). Bind_Destination p = n"
    using assms(2) by (auto simp: keyed_def missing_def)
  have p: "v_portals (fold spec_apply (map portal_close (map fst (eq_portals s))) v) = Map.empty"
    unfolding fold_portal_close v cleared ..
  show "v_portals (fold spec_apply (sync_reqs c s) v) = map_of (eq_portals c)"
    by (simp add: sync_reqs_def fold_statement_close fold_parses [OF d(1) k(1)] fold_binds [OF d(2) k(2)] p del: map_map)
  have e: "v_stmts (fold spec_apply (sync_reqs c s) v) n =
      ((\<lambda>n. if n \<in> set (dropped c s) then None else map_of (eq_preparedStatements s) n) ++ map_of (missing c s)) n"
    by (simp add: sync_reqs_def fold_statement_close fold_parses [OF d(1) k(1)] fold_binds [OF d(2) k(2)] fold_portal_close v cong: if_cong del: map_map)
  show "case map_of (eq_preparedStatements c) n of
       None \<Rightarrow> v_stmts (fold spec_apply (sync_reqs c s) v) n = None
     | Some a \<Rightarrow> \<exists>b. v_stmts (fold spec_apply (sync_reqs c s) v) n = Some b \<and> preparedStatementsEqual a b"
    unfolding e missing_def map_add_def map_of_filter_key [OF d(4)] in_dropped [OF d(3)]
    by (auto simp: has_statement_def keeps_statement_def preparedStatementsEqual_def slices_Equal_iff split: option.splits)
qed

text \<open>
  (C5) Pairing restores the client's prepared statements on the server.  The server's connection has the parameter status
  and the extended query middleware, no request outstanding, and no failing write or flush; the server answers the
  requests of \<^verbatim>\<open>eqp.Sync\<close> in order and without an error and then reports a status.  Afterwards the server's middleware holds, for every name,
  a statement with the query and the parameter types of the client's, and no other statement.  If the status is idle,
  as that of a pooled server between two transactions is, it holds no portal; under any other status exactly the
  client's portals.  Nothing else is read from the server.
\<close>

theorem eqp_Sync_matches:
  assumes "lookup_eqp_client (cn_Middleware client) = Some c" "eqp_inv c" "keyed c"
    "paired p s server" "eqp_inv s" "eqp_abs s = pending_view [] (eqp_abs s)"
    "cn_inbox server = sync_replies (sync_reqs c s) st @ rest"
  shows "\<exists>server' s'. eqp_Sync client server = Some (None, server') \<and> lookup_eqp_server (cn_Middleware server') = Some s' \<and>
    cn_inbox server' = rest \<and>
    (\<forall>n. case map_of (eq_preparedStatements c) n of
       None \<Rightarrow> map_of (eq_preparedStatements s') n = None
     | Some a \<Rightarrow> \<exists>b. map_of (eq_preparedStatements s') n = Some b \<and> preparedStatementsEqual a b) \<and>
    (st \<noteq> type_code CHR ''I'' \<longrightarrow> map_of (eq_portals s') = map_of (eq_portals c)) \<and>
    (st = type_code CHR ''I'' \<longrightarrow> eq_portals s' = [])"
proof -
  let ?v = "eqp_abs s" let ?w = "fold spec_apply (sync_reqs c s) ?v"
  let ?frs = "[(portal_closes, map portal_close (map fst (eq_portals s))), (statement_closes c, map statement_close (dropped c s)),
    (statement_parses c, map (\<lambda>e. ReqParse (snd e)) (missing c s)), (\<lambda>_. portal_binds c, map (\<lambda>e. ReqBind (snd e)) (eq_portals c))]"
  have c: "concat (map snd ?frs) = sync_reqs c s" by (simp add: sync_reqs_def)
  have ph: "\<forall>(f, rs)\<in>set ?frs. \<forall>s'. same_maps s s' \<longrightarrow> f s' = map req_msg rs"
    unfolding sync_phases_msgs by (auto simp: same_maps_def dropped_def missing_def has_statement_def)
  from sync_phases_ok [OF ph assms(4-6), of False] obtain s1 out where
    s1: "eqp_sync_phases (map fst ?frs) False server =
        Some ((sync_reqs c s \<noteq> [], None), server\<lparr>cn_outbox := out, cn_Middleware := [MwPsServer p, MwEqpServer s1]\<rparr>)"
      "eqp_inv s1" "eqp_abs s1 = pending_view (sync_reqs c s) ?v" "same_maps s s1"
    unfolding c by (elim exE conjE) simp
  let ?T = "server\<lparr>cn_outbox := out, cn_Middleware := [MwPsServer p, MwEqpServer s1]\<rparr>"
  have eff: "v_portals ?w = map_of (eq_portals c)"
    "case map_of (eq_preparedStatements c) n of None \<Rightarrow> v_stmts ?w n = None
     | Some a \<Rightarrow> \<exists>b. v_stmts ?w n = Some b \<and> preparedStatementsEqual a b" for n
    by (rule sync_reqs_effect [OF assms(2,3,5)], simp_all add: eqp_abs_def)+
  have run: "eqp_Sync client server = (if sync_reqs c s \<noteq> []
      then map_option (\<lambda>((err, _), server, _). (err, server)) (Backend_Sync ?T None) else Some (None, ?T))"
    using s1(1) assms(1) by (simp add: eqp_Sync_def eqp_SyncMiddleware_def del: eqp_sync_phases.simps)
  show ?thesis
  proof (cases "sync_reqs c s = []")
    case True
    with s1(3) have m: "map_of (eq_preparedStatements s1) = v_stmts ?w" "map_of (eq_portals s1) = v_portals ?w"
      by (simp_all add: eqp_abs_pending)
    have "eq_portals s1 = []" using True s1(4) by (simp add: sync_reqs_def same_maps_def)
    moreover have "\<forall>n. case map_of (eq_preparedStatements c) n of None \<Rightarrow> map_of (eq_preparedStatements s1) n = None
      | Some a \<Rightarrow> \<exists>b. map_of (eq_preparedStatements s1) n = Some b \<and> preparedStatementsEqual a b"
      unfolding m using eff(2) by blast
    ultimately show ?thesis using run True assms(7) eff(1) m(2) by (simp add: sync_replies_def)
  next
    case False
    have "paired p s1 ?T" "cn_inbox ?T = map (\<lambda>r. Inr (ack_msg r)) (sync_reqs c s) @ Inr (Msg (PReadyForQuery st)) # rest"
      using assms(4,7) False by (simp_all add: paired_def sync_replies_def)
    from Backend_Sync_ok [OF this s1(2,3)] obtain T' s' where
      t: "map_option (\<lambda>((err, _), server, _). (err, server)) (Backend_Sync ?T None) = Some (None, T')"
        "cn_Middleware T' = [MwPsServer p, MwEqpServer s']" "cn_inbox T' = rest" "eqp_abs s' = ready_view st (pending_view [] ?w)"
      by (elim exE conjE) rule
    have m: "map_of (eq_preparedStatements s') = v_stmts ?w"
      "map_of (eq_portals s') = (if st = type_code CHR ''I'' then Map.empty else v_portals ?w)"
      unfolding eqp_abs_maps [symmetric] t(4) by (simp_all add: ready_view_def pending_view_def)
    have "st = type_code CHR ''I'' \<Longrightarrow> eq_portals s' = []" using m(2) by (simp add: map_of_eq_empty_iff)
    moreover have "\<forall>n. case map_of (eq_preparedStatements c) n of None \<Rightarrow> map_of (eq_preparedStatements s') n = None
      | Some a \<Rightarrow> \<exists>b. map_of (eq_preparedStatements s') n = Some b \<and> preparedStatementsEqual a b"
      unfolding m using eff(2) by blast
    ultimately show ?thesis using run False t m(2) eff(1) by simp
  qed
qed

definition sample_parse :: "string \<Rightarrow> string \<Rightarrow> Parse" where
  "sample_parse n q = \<lparr>Parse_Destination = n, Parse_Query = q, Parse_ParameterDataTypes = []\<rparr>"

definition sample_c :: eqp_state where
  "sample_c = eqp_new\<lparr>eq_preparedStatements := [(''a'', sample_parse ''a'' ''SELECT 1''), (''b'', sample_parse ''b'' ''SELECT 2'')]\<rparr>"

definition sample_s :: eqp_state where
  "sample_s = eqp_new\<lparr>eq_preparedStatements := [(''b'', sample_parse ''b'' ''SELECT 3''), (''z'', sample_parse ''z'' ''SELECT 4'')]\<rparr>"

theorem eqp_Sync_matches_witness:
  "let client = (NewConn [])\<lparr>cn_Middleware := [MwEqpClient sample_c]\<rparr>;
       server = (NewConn (sync_replies (sync_reqs sample_c sample_s) (type_code CHR ''I'')))
         \<lparr>cn_Middleware := [MwPsServer (ps_NewServer []), MwEqpServer sample_s]\<rparr> in
   \<exists>server' s'. eqp_Sync client server = Some (None, server') \<and> lookup_eqp_server (cn_Middleware server') = Some s' \<and>
     (\<exists>b. map_of (eq_preparedStatements s') ''b'' = Some b \<and> preparedStatementsEqual (sample_parse ''b'' ''SELECT 2'') b) \<and>
     map_of (eq_preparedStatements s') ''z'' = None"
proof -
  let ?client = "(NewConn [])\<lparr>cn_Middleware := [MwEqpClient sample_c]\<rparr>"
  let ?server = "(NewConn (sync_replies (sync_reqs sample_c sample_s) (type_code CHR ''I'')))
         \<lparr>cn_Middleware := [MwPsServer (ps_NewServer []), MwEqpServer sample_s]\<rparr>"
  have i: "eqp_inv sample_c" "keyed sample_c" "eqp_inv sample_s" "eqp_abs sample_s = pending_view [] (eqp_abs sample_s)"
    using eqp_inv_new by (auto simp: sample_c_def sample_s_def eqp_inv_def keyed_def sample_parse_def eqp_abs_pending)
      (simp_all add: eqp_abs_def eqp_new_def rg.empty)
  have m: "map_of (eq_preparedStatements sample_c) ''b'' = Some (sample_parse ''b'' ''SELECT 2'')"
    "map_of (eq_preparedStatements sample_c) ''z'' = None" by (simp_all add: sample_c_def)
  have "paired (ps_NewServer []) sample_s ?server" by (simp add: paired_def NewConn_def)
  from eqp_Sync_matches [of ?client, OF _ i(1,2) this i(3,4), of "type_code CHR ''I''" "[]"] obtain server' s' where
    r: "eqp_Sync ?client ?server = Some (None, server')" "lookup_eqp_server (cn_Middleware server') = Some s'"
      "\<forall>n. case map_of (eq_preparedStatements sample_c) n of None \<Rightarrow> map_of (eq_preparedStatements s') n = None
         | Some a \<Rightarrow> \<exists>b. map_of (eq_preparedStatements s') n = Some b \<and> preparedStatementsEqual a b"
    by (auto simp: NewConn_def)
  from r(3) [rule_format, of "''b''"] r(3) [rule_format, of "''z''"] r(1,2) m show ?thesis by (simp add: Let_def)
qed

section \<open>Agreement on a parameter\<close>

text \<open>
  A middleware between the pooler and the parameter status middleware of a client that hands a
  \<^verbatim>\<open>ParameterStatus\<close> on: any but another parameter status middleware of a client and the hybrid one while it has
  answers to drop.
\<close>

abbreviation status_packet :: "string \<Rightarrow> string \<Rightarrow> msg" where
  "status_packet name v \<equiv> Msg (PParameterStatus \<lparr>ParameterStatus_Key = name, ParameterStatus_Value = v\<rparr>)"

fun forwards_status :: "middleware \<Rightarrow> bool" where
  "forwards_status (MwPsClient _) = False"
| "forwards_status (MwHybrid T) = (\<not> (hm_primary T \<and> hybrid_Buffered T))"
| "forwards_status _ = True"

lemma forwards_status_write: "forwards_status w \<Longrightarrow> mw_WritePacket (status_packet name v) w = Some (Inr (Some (status_packet name v)), w)"
  by (cases w) (auto simp: eqp_wrap_def eqp_S2C_def eqp_C2S_def hybrid_WritePacket_def type_bytes type_code_def TypeMarkiplierResponse_def TypeParameterStatus_def)

lemma forwards_status_through:
  "\<forall>w\<in>set ws. forwards_status w \<Longrightarrow> mw_through mw_WritePacket (status_packet name v) (ws @ us) =
     map_option (\<lambda>(r, us). (r, ws @ us)) (mw_through mw_WritePacket (status_packet name v) us)"
  by (induction ws) (auto simp: forwards_status_write option.map_comp comp_def split_beta'
      intro: option.map_ident [symmetric])

lemma mw_WritePacket_kind: "mw_WritePacket m w = Some (r, w') \<Longrightarrow> kind_of w' = kind_of w"
  by (cases w) (auto simp: eqp_wrap_def)

lemma mw_through_kinds: "mw_through mw_WritePacket m ws = Some (r, ws') \<Longrightarrow> map kind_of ws' = map kind_of ws"
  by (induction ws arbitrary: m r ws')
    (auto simp: mw_WritePacket_kind split: bind_splits sum.splits option.splits)

lemma lookup_ps_client_None: "lookup_ps_client ms = None \<longleftrightarrow> KPsClient \<notin> kind_of ` set ms"
  by (induction ms rule: lookup_ps_client.induct) auto

lemma lookup_ps_client_append: "lookup_ps_client us = None \<Longrightarrow> lookup_ps_client (us @ ws) = lookup_ps_client ws"
  by (induction us rule: lookup_ps_client.induct) auto

lemma conn_write_status:
  assumes "cn_Middleware client = pre @ MwPsClient c # post" "lookup_ps_client pre = None" "\<forall>w\<in>set post. forwards_status w"
    "MakeCIString name = name" "\<not> (pc_synced c \<and> map_get (pc_parameters c) name = v)"
    "conn_WritePacket (status_packet name v) client = Some (None, client')"
  shows "lookup_ps_client (cn_Middleware client') = Some (c\<lparr>pc_parameters := AList.update name v (pc_parameters c)\<rparr>)"
proof -
  let ?c = "c\<lparr>pc_parameters := AList.update name v (pc_parameters c)\<rparr>"
  have through: "mw_through mw_WritePacket (status_packet name v) (rev (cn_Middleware client)) =
      map_option (\<lambda>(r, us). (r, rev post @ MwPsClient ?c # us)) (mw_through mw_WritePacket (status_packet name v) (rev pre))"
    using assms forwards_status_through [of "rev post" name v "MwPsClient c # rev pre"]
    by (auto simp: ps_Client_WritePacket_def option.map_comp comp_def split_beta')
  with assms(6) obtain r us where u: "mw_through mw_WritePacket (status_packet name v) (rev pre) = Some (r, us)"
    by (auto simp: conn_WritePacket_def conn_write_from_def split: bind_splits)
  with through assms(6) have "cn_Middleware client' = rev us @ MwPsClient ?c # post"
    by (auto simp: conn_WritePacket_def conn_write_from_def conn_PostWrite_none conn_writePacket_def
        split: sum.splits option.splits list.splits)
  moreover have "lookup_ps_client (rev us) = None"
    using mw_through_kinds [OF u] assms(2) unfolding lookup_ps_client_None by (metis list.set_map set_rev)
  ultimately show ?thesis by (simp add: lookup_ps_client_append)
qed

lemma lookup_store_ps_server: "lookup_ps_server ms = Some s \<Longrightarrow> lookup_ps_server (store_ps_server t ms) = Some t"
  by (induction ms rule: lookup_ps_server.induct) auto

lemma map_get_update: "map_get (AList.update k v m) k' = (if k' = k then v else map_get m k')"
  by (simp add: map_get_def update_conv')



end
