(* ===== verification/Server_Login.thy ===== *)
theory Server_Login
  imports Backend_Query
begin

text \<open>
  Logging in to a server: \<^verbatim>\<open>lib/bouncer/backends/v0/accept.go\<close> with \<^verbatim>\<open>lib/bouncer/sslmode.go\<close>.  The credentials are what the
  code asks of them (\<^verbatim>\<open>lib/auth/credentials.go\<close>): which of the client interfaces they implement, and their answers.  A
  SASL conversation belongs to a library; it is a value \<^typ>\<open>'e\<close> with its \<^verbatim>\<open>Write\<close>, which returns bytes and an error.
\<close>

section \<open>SSL modes\<close>

type_synonym SSLMode = string

definition ShouldAttempt :: "SSLMode \<Rightarrow> bool" where
  "ShouldAttempt T \<longleftrightarrow> T \<noteq> ''disable''"

definition IsRequired :: "SSLMode \<Rightarrow> bool" where
  "IsRequired T \<longleftrightarrow> T \<notin> {''disable'', ''allow'', ''prefer'', ''''}"

definition VerifyCertificates :: "SSLMode \<Rightarrow> bool" where
  "VerifyCertificates T \<longleftrightarrow> T \<in> {''verify-ca'', ''verify-full''}"

section \<open>Parameters\<close>

type_synonym 'e sasl_write = "'e \<Rightarrow> byte list option \<Rightarrow> (byte list \<times> fed_error option) \<times> 'e"

record 'e client_creds =
  cc_EncodeCleartext :: "string option"
  cc_EncodeMD5 :: "(byte list \<Rightarrow> string) option"
  cc_EncodeSASL :: "(string list \<Rightarrow> fed_error + string \<times> 'e) option"
  cc_Write :: "'e sasl_write"

record 'e accept_options =
  ao_SSLMode :: SSLMode
  ao_Username :: string
  ao_Credentials :: "'e client_creds"
  ao_Database :: string
  ao_StartupParameters :: "(CIString \<times> string) list"

text \<open>\<^verbatim>\<open>ToConcrete\<close> of the packets of this phase, called for packets of the right type only.\<close>

fun to_Authentication :: "msg \<Rightarrow> Authentication outcome" where
  "to_Authentication (Msg (PAuthentication p)) = Some (Inr p)"
| "to_Authentication (Bad t) = Some (Inl (EFed ErrInvalidFormat))"
| "to_Authentication _ = None"

fun to_BackendKeyData :: "msg \<Rightarrow> BackendKeyData outcome" where
  "to_BackendKeyData (Msg (PBackendKeyData p)) = Some (Inr p)"
| "to_BackendKeyData (Bad t) = Some (Inl (EFed ErrInvalidFormat))"
| "to_BackendKeyData _ = None"

section \<open>SASL\<close>

text \<open>The result of a step: whether the phase is done, or an error.\<close>

type_synonym 'r login = "conn \<Rightarrow> ((fed_error + 'r) \<times> conn) option"

definition login_write :: "msg \<Rightarrow> 'r \<Rightarrow> 'r login" where
  "login_write m r T = do {
     (err, T) \<leftarrow> conn_WritePacket m T;
     Some (case err of Some e \<Rightarrow> Inl e | None \<Rightarrow> Inr r, T)
   }"

definition authenticationSASLChallenge :: "'e sasl_write \<Rightarrow> 'e \<Rightarrow> (bool \<times> 'e) login" where
  "authenticationSASLChallenge conv encoder T = do {
     (r, T) \<leftarrow> conn_ReadPacket True T;
     case r of
       Inl err \<Rightarrow> Some (Inl err, T)
     | Inr packet \<Rightarrow>
         if msg_Type packet \<noteq> TypeAuthentication then Some (Inl (EUnexpectedPacket (msg_Type packet)), T)
         else do {
           r \<leftarrow> to_Authentication packet;
           case r of
             Inl err \<Rightarrow> Some (Inl err, T)
           | Inr p \<Rightarrow>
               (case Authentication_Mode p of
                  AuthSASLContinue mode \<Rightarrow>
                    (case conv encoder (Some mode) of
                       ((response, Some err), encoder) \<Rightarrow> Some (Inl err, T)
                     | ((response, None), encoder) \<Rightarrow> login_write (Msg (PSASLResponse response)) (False, encoder) T)
                | AuthSASLFinal mode \<Rightarrow>
                    (case conv encoder (Some mode) of
                       ((_, Some (EFed EOF)), encoder) \<Rightarrow> Some (Inr (True, encoder), T)
                     | ((_, Some err), encoder) \<Rightarrow> Some (Inl err, T)
                     | ((_, None), encoder) \<Rightarrow> Some (Inl (ErrNew ''expected EOF''), T))
                | _ \<Rightarrow> Some (Inl EUnexpectedAuthenticationResponse, T))
         }
   }"

partial_function (option) sasl_loop :: "'e sasl_write \<Rightarrow> 'e \<Rightarrow> conn \<Rightarrow> ((fed_error + unit) \<times> conn) option" where
  "sasl_loop conv encoder T = do {
     (r, T) \<leftarrow> authenticationSASLChallenge conv encoder T;
     case r of
       Inl err \<Rightarrow> Some (Inl err, T)
     | Inr done \<Rightarrow> if fst done then Some (Inr (), T) else sasl_loop conv (snd done) T
   }"

definition authenticationSASL :: "'e sasl_write \<Rightarrow> (string list \<Rightarrow> fed_error + string \<times> 'e) \<Rightarrow> string list \<Rightarrow> bool login" where
  "authenticationSASL conv encode mechanisms T =
     (case encode mechanisms of
        Inl err \<Rightarrow> Some (Inl err, T)
      | Inr (mechanism, encoder) \<Rightarrow>
          (case conv encoder None of
             ((_, Some err), encoder) \<Rightarrow> Some (Inl err, T)
           | ((initialResponse, None), encoder) \<Rightarrow> do {
               (err, T) \<leftarrow> conn_WritePacket (Msg (PSASLInitialResponse
                 \<lparr>SASLInitialResponse_Mechanism = mechanism, SASLInitialResponse_InitialClientResponse = Some initialResponse\<rparr>)) T;
               case err of
                 Some err \<Rightarrow> Some (Inl err, T)
               | None \<Rightarrow> map_option (\<lambda>(r, T). (map_sum (\<lambda>e. e) (\<lambda>_. False) r, T)) (sasl_loop conv encoder T)
             }))"

section \<open>Authentication\<close>

definition authenticationMD5 :: "(byte list \<Rightarrow> string) \<Rightarrow> byte list \<Rightarrow> bool login" where
  "authenticationMD5 encode salt = login_write (Msg (PPasswordMessage (encode salt))) False"

definition authenticationCleartext :: "string \<Rightarrow> bool login" where
  "authenticationCleartext pw = login_write (Msg (PPasswordMessage pw)) False"

definition authentication :: "'e client_creds \<Rightarrow> Authentication \<Rightarrow> bool login" where
  "authentication creds p T =
     (case Authentication_Mode p of
        AuthOk _ \<Rightarrow> Some (Inr True, T\<lparr>cn_Authenticated := True\<rparr>)
      | AuthKerberosV5 _ \<Rightarrow> Some (Inl (ErrNew ''kerberos v5 is not supported''), T)
      | AuthCleartextPassword _ \<Rightarrow>
          (case cc_EncodeCleartext creds of
             None \<Rightarrow> Some (Inl ErrMethodNotSupported, T)
           | Some pw \<Rightarrow> authenticationCleartext pw T)
      | AuthMD5Password salt \<Rightarrow>
          (case cc_EncodeMD5 creds of
             None \<Rightarrow> Some (Inl ErrMethodNotSupported, T)
           | Some encode \<Rightarrow> authenticationMD5 encode salt T)
      | AuthGSS _ \<Rightarrow> Some (Inl (ErrNew ''gss is not supported''), T)
      | AuthSSPI _ \<Rightarrow> Some (Inl (ErrNew ''sspi is not supported''), T)
      | AuthSASL mode \<Rightarrow>
          (case cc_EncodeSASL creds of
             None \<Rightarrow> Some (Inl ErrMethodNotSupported, T)
           | Some encode \<Rightarrow> authenticationSASL (cc_Write creds) encode (map SASLMethod_Method mode) T)
      | _ \<Rightarrow> Some (Inl (ErrNew ''unknown authentication method''), T))"

definition startup0 :: "'e client_creds \<Rightarrow> bool login" where
  "startup0 creds T = do {
     (r, T) \<leftarrow> conn_ReadPacket True T;
     case r of
       Inl err \<Rightarrow> Some (Inl err, T)
     | Inr packet \<Rightarrow>
         (let t = msg_Type packet in
          if t = TypeMarkiplierResponse then do {
            r \<leftarrow> to_MarkiplierResponse packet;
            Some (case r of Inl err \<Rightarrow> Inl err | Inr p \<Rightarrow> Inl (EPerror (FromPacket p)), T)
          }
          else if t = TypeAuthentication then do {
            r \<leftarrow> to_Authentication packet;
            case r of Inl err \<Rightarrow> Some (Inl err, T) | Inr p \<Rightarrow> authentication creds p T
          }
          else if t = TypeNegotiateProtocolVersion
          then Some (Inl (ErrNew ''server wanted to negotiate protocol version''), T)
          else Some (Inl (EUnexpectedPacket t), T))
   }"

definition startup1 :: "bool login" where
  "startup1 T = do {
     (r, T) \<leftarrow> conn_ReadPacket True T;
     case r of
       Inl err \<Rightarrow> Some (Inl err, T)
     | Inr packet \<Rightarrow>
         (let t = msg_Type packet in
          if t = TypeBackendKeyData then do {
            r \<leftarrow> to_BackendKeyData packet;
            case r of
              Inl err \<Rightarrow> Some (Inl err, T)
            | Inr p \<Rightarrow> Some (Inr False, T\<lparr>cn_BackendKey := \<lparr>bk_ProcessID = BackendKeyData_ProcessID p, bk_SecretKey = BackendKeyData_SecretKey p\<rparr>\<rparr>)
          }
          else if t = TypeParameterStatus then do {
            r \<leftarrow> to_ParameterStatus packet;
            case r of
              Inl err \<Rightarrow> Some (Inl err, T)
            | Inr p \<Rightarrow> Some (Inr False, T\<lparr>cn_InitialParameters :=
                AList.update (MakeCIString (ParameterStatus_Key p)) (ParameterStatus_Value p) (cn_InitialParameters T)\<rparr>)
          }
          else if t = TypeReadyForQuery then Some (Inr True, T)
          else if t = TypeMarkiplierResponse then do {
            r \<leftarrow> to_MarkiplierResponse packet;
            Some (case r of Inl err \<Rightarrow> Inl err | Inr p \<Rightarrow> Inl (EPerror (FromPacket p)), T)
          }
          else if t = TypeNoticeResponse then Some (Inr False, T)
          else Some (Inl (EUnexpectedPacket t), T))
   }"

section \<open>Accept\<close>

definition ssl_request :: msg where
  "ssl_request = Msg (PStartup \<lparr>Startup_Mode =
     StartupControl \<lparr>StartupPayloadControl_Mode = ControlSSL StartupPayloadControlPayloadSSL\<rparr>\<rparr>)"

definition enableSSL :: "bool login" where
  "enableSSL T = do {
     (err, T) \<leftarrow> conn_WritePacket ssl_request T;
     case err of
       Some err \<Rightarrow> Some (Inl err, T)
     | None \<Rightarrow>
         (case conn_ReadByte T of
            (Inl err, T) \<Rightarrow> Some (Inl err, T)
          | (Inr yn, T) \<Rightarrow>
              if yn \<noteq> type_code CHR ''S'' then Some (Inr False, T)
              else
                (case conn_EnableSSL T of
                   (Some err, T) \<Rightarrow> Some (Inl err, T)
                 | (None, T) \<Rightarrow> Some (Inr True, T)))
   }"

definition startup_packet :: "string \<Rightarrow> string \<Rightarrow> (CIString \<times> string) list \<Rightarrow> msg" where
  "startup_packet username database params = Msg (PStartup \<lparr>Startup_Mode = StartupVersion3 \<lparr>Version3_MinorVersion = 0,
     Version3_Parameters = [\<lparr>Parameter_Key = ''user'', Parameter_Value = username\<rparr>,
       \<lparr>Parameter_Key = ''database'', Parameter_Value = database\<rparr>] @
       map (\<lambda>(k, v). \<lparr>Parameter_Key = k, Parameter_Value = v\<rparr>) params\<rparr>\<rparr>)"

partial_function (option) until_done :: "bool login \<Rightarrow> conn \<Rightarrow> ((fed_error + unit) \<times> conn) option" where
  "until_done step T = do {
     (r, T) \<leftarrow> step T;
     case r of
       Inl err \<Rightarrow> Some (Inl err, T)
     | Inr done \<Rightarrow> if done then Some (Inr (), T) else until_done step T
   }"

definition accept_ssl :: "'e accept_options \<Rightarrow> unit login" where
  "accept_ssl opts T =
     (if ShouldAttempt (ao_SSLMode opts) then do {
        (r, T) \<leftarrow> enableSSL T;
        case r of
          Inl err \<Rightarrow> Some (Inl err, T)
        | Inr sslEnabled \<Rightarrow>
            if \<not> sslEnabled \<and> IsRequired (ao_SSLMode opts) then Some (Inl (ErrNew ''server rejected SSL encryption''), T)
            else Some (Inr (), T)
      }
      else Some (Inr (), T))"

definition accept :: "'e accept_options \<Rightarrow> unit login" where
  "accept opts T = (
     let username = ao_Username opts;
         database = (if ao_Database opts = [] then username else ao_Database opts) in
     do {
       (r, T) \<leftarrow> accept_ssl opts T;
       case r of
         Inl err \<Rightarrow> Some (Inl err, T)
       | Inr _ \<Rightarrow> do {
           (err, T) \<leftarrow> conn_WritePacket (startup_packet username database (ao_StartupParameters opts)) T;
           case err of
             Some err \<Rightarrow> Some (Inl err, T)
           | None \<Rightarrow> do {
               (r, T) \<leftarrow> until_done (startup0 (ao_Credentials opts)) T;
               case r of
                 Inl err \<Rightarrow> Some (Inl err, T)
               | Inr _ \<Rightarrow> until_done startup1 T
             }
         }
     })"

declare sasl_loop.simps [code] until_done.simps [code]

section \<open>Steps of the login\<close>

text \<open>The packets of a server during the login carry the bodies of their types.\<close>

definition login_msg :: "msg \<Rightarrow> bool" where
  "login_msg m \<longleftrightarrow> (msg_Type m = TypeAuthentication \<longrightarrow> to_Authentication m \<noteq> None) \<and>
     (msg_Type m = TypeMarkiplierResponse \<longrightarrow> to_MarkiplierResponse m \<noteq> None) \<and>
     (msg_Type m = TypeBackendKeyData \<longrightarrow> to_BackendKeyData m \<noteq> None)"

definition linv :: "conn \<Rightarrow> bool" where
  "linv T \<longleftrightarrow> conn_inv ServerSide T \<and> (\<forall>m. Inr m \<in> set (cn_inbox T) \<longrightarrow> login_msg m)"

text \<open>A part of the login that only reads and writes packets.\<close>

definition login_rest :: "conn \<Rightarrow> (CIString \<times> string) list \<times> BackendKey \<times> bool" where
  "login_rest T = (cn_InitialParameters T, cn_BackendKey T, cn_Authenticated T)"

lemma login_rest_conn_rest: "conn_rest T' = conn_rest T \<Longrightarrow> login_rest T' = login_rest T"
  unfolding login_rest_def conn_rest_def by (drule arg_cong [of _ _ "\<lambda>T. (cn_InitialParameters T, cn_BackendKey T, cn_Authenticated T)"]) simp

definition exchanges :: "conn \<Rightarrow> conn \<Rightarrow> bool" where
  "exchanges T T' \<longleftrightarrow> linv T' \<and> login_rest T' = login_rest T \<and> (\<exists>pre. cn_inbox T = pre @ cn_inbox T')"

lemma exchanges_trans: "exchanges T T' \<Longrightarrow> exchanges T' T'' \<Longrightarrow> exchanges T T''"
  unfolding exchanges_def by (elim conjE exE) (auto intro!: exI)

lemma exchanges_refl: "linv T \<Longrightarrow> exchanges T T"
  by (simp add: exchanges_def)

lemma exchanges_len: "exchanges T T' \<Longrightarrow> length (cn_inbox T') \<le> length (cn_inbox T)"
  unfolding exchanges_def by (elim conjE exE) simp

lemma login_read:
  assumes "linv T"
  obtains (pkt) m T' where "conn_ReadPacket typed T = Some (Inr m, T')" "exchanges T T'" "cn_inbox T = Inr m # cn_inbox T'"
      "login_msg m" "s2c_msg m"
    | (err) e T' where "conn_ReadPacket typed T = Some (Inl e, T')" "exchanges T T'"
proof -
  have inv: "conn_inv ServerSide T" using assms by (simp add: linv_def)
  from conn_ReadPacket_ok [OF inv, of typed] obtain r T' where r: "conn_ReadPacket typed T = Some (r, T')" "read_post ServerSide T r T'"
    by (elim exE conjE) rule
  have rest: "login_rest T' = login_rest T" using r(2) by (intro login_rest_conn_rest) (simp add: read_post_def conn_same_def)
  have todo: "cn_todo T = cn_inbox T" "cn_todo T' = cn_inbox T'"
    using r(2) by (auto simp: read_post_def intro: todo_server inv)
  from r(2) obtain pre where p: "cn_inbox T = pre @ cn_inbox T'" and inv': "conn_inv ServerSide T'" unfolding read_post_def by blast
  then have ex: "exchanges T T'" using assms rest unfolding exchanges_def linv_def by simp
  show thesis
  proof (cases r)
    case (Inl e)
    with r ex show thesis by (intro err) simp_all
  next
    case (Inr m)
    with r todo have "cn_inbox T = Inr m # cn_inbox T'" "s2c_msg m" by (simp_all add: read_post_def)
    moreover from this assms have "login_msg m" by (simp add: linv_def)
    ultimately show thesis using r Inr ex by (intro pkt) simp_all
  qed
qed

lemma login_writes:
  assumes "linv T" "c2s_msg m"
  obtains err T' where "conn_WritePacket m T = Some (err, T')" "exchanges T T'" "cn_inbox T' = cn_inbox T"
    "err = None \<longrightarrow> cn_outbox T' = cn_outbox T @ [m]" "err \<noteq> None \<longrightarrow> cn_outbox T' = cn_outbox T"
proof -
  have inv: "conn_inv ServerSide T" "writes_ok ServerSide m" using assms by (simp_all add: linv_def)
  from conn_WritePacket_ok [OF this] obtain err T' where w: "conn_WritePacket m T = Some (err, T')" "write_post ServerSide m T err T'"
    by (elim exE conjE) rule
  have "login_rest T' = login_rest T" using w(2) by (intro login_rest_conn_rest) (simp add: write_post_def conn_same_def)
  with w assms have "exchanges T T'" by (auto simp: write_post_def exchanges_def linv_def)
  from w(1) this show thesis by (rule that) (use w(2) in \<open>auto simp: write_post_def split: if_splits\<close>)
qed

lemma c2s_login [simp]:
  "c2s_msg (Msg (PSASLResponse b))" "c2s_msg (Msg (PSASLInitialResponse i))" "c2s_msg (Msg (PPasswordMessage w))" "c2s_msg (Msg (PStartup u))"
  by (simp_all add: c2s_msg_def TypeClose_def TypeParse_def TypeBind_def type_code_def TypeSASLResponse_def TypeSASLInitialResponse_def
      TypePasswordMessage_def )

text \<open>
  The contract of a step: it returns, consumes a packet unless it fails, and what it leaves is well formed.
\<close>

definition step_ok :: "conn \<Rightarrow> ((fed_error + 'r) \<times> conn) option \<Rightarrow> bool" where
  "step_ok T v \<longleftrightarrow> (\<exists>r T'. v = Some (r, T') \<and> exchanges T T' \<and> (\<forall>x. r = Inr x \<longrightarrow> length (cn_inbox T') < length (cn_inbox T)))"

lemma step_okI: "exchanges T T' \<Longrightarrow> \<forall>x. r = Inr x \<longrightarrow> length (cn_inbox T') < length (cn_inbox T) \<Longrightarrow> step_ok T (Some (r, T'))"
  unfolding step_ok_def by blast

lemma login_write_ok:
  assumes "exchanges T T1" "length (cn_inbox T1) < length (cn_inbox T)" "c2s_msg m"
  shows "step_ok T (login_write m r T1)"
proof -
  have "linv T1" using assms by (simp add: exchanges_def)
  then obtain err T' where w: "conn_WritePacket m T1 = Some (err, T')" "exchanges T1 T'" "cn_inbox T' = cn_inbox T1"
    using assms(3) by (rule login_writes) blast
  with assms show ?thesis
    by (cases err) (auto simp: login_write_def intro!: step_okI exchanges_trans [OF assms(1) w(2)])
qed

lemma challenge_ok:
  assumes "linv T"
  shows "step_ok T (authenticationSASLChallenge conv encoder T)"
proof (rule login_read [OF assms, of True])
  fix e T' assume "conn_ReadPacket True T = Some (Inl e, T')" "exchanges T T'"
  then show ?thesis by (simp add: authenticationSASLChallenge_def step_okI)
next
  fix m T' assume r: "conn_ReadPacket True T = Some (Inr m, T')" "exchanges T T'" "cn_inbox T = Inr m # cn_inbox T'" "login_msg m"
  have len: "length (cn_inbox T') < length (cn_inbox T)" using r(3) by simp
  note ok = step_okI [OF r(2)] login_write_ok [OF r(2) len]
  show ?thesis
  proof (cases "msg_Type m = TypeAuthentication")
    case False
    with r(1) show ?thesis by (simp add: authenticationSASLChallenge_def ok)
  next
    case True
    with r(4) obtain p where "to_Authentication m = Some p" by (auto simp: login_msg_def)
    with r(1) True len show ?thesis
      by (auto simp: authenticationSASLChallenge_def ok split: sum.splits AuthenticationPayloadMode.splits prod.splits option.splits
          fed_error.splits go_error.splits intro!: ok)
  qed
qed

lemma sasl_loop_ok: "linv T \<Longrightarrow> \<exists>r T'. sasl_loop conv encoder T = Some (r, T') \<and> exchanges T T'"
proof (induction "length (cn_inbox T)" arbitrary: T encoder rule: less_induct)
  case less
  from challenge_ok [OF less.prems, of conv encoder] obtain r T1 where c: "authenticationSASLChallenge conv encoder T = Some (r, T1)"
    "exchanges T T1" "\<forall>x. r = Inr x \<longrightarrow> length (cn_inbox T1) < length (cn_inbox T)" unfolding step_ok_def by (elim exE conjE) rule
  show ?case
  proof (cases r)
    case (Inr x)
    have "\<exists>r T'. sasl_loop conv (snd x) T1 = Some (r, T') \<and> exchanges T1 T'"
      by (rule less.hyps) (use c Inr in \<open>auto simp: exchanges_def\<close>)
    with c Inr show ?thesis by (subst sasl_loop.simps) (auto intro: exchanges_trans)
  qed (use c in \<open>subst sasl_loop.simps, auto\<close>)
qed

lemma authenticationSASL_ok:
  assumes "exchanges T0 T" "length (cn_inbox T) < length (cn_inbox T0)"
  shows "step_ok T0 (authenticationSASL conv encode ms T)"
proof -
  have inv: "linv T" using assms by (simp add: exchanges_def)
  show ?thesis
  proof (cases "encode ms")
    case (Inl e)
    with assms show ?thesis by (simp add: authenticationSASL_def step_okI)
  next
    case (Inr me)
    obtain mech enc where me: "me = (mech, enc)" by fastforce
    obtain b e enc' where wr: "conv enc None = ((b, e), enc')" by (metis surj_pair)
    let ?m = "Msg (PSASLInitialResponse \<lparr>SASLInitialResponse_Mechanism = mech, SASLInitialResponse_InitialClientResponse = Some b\<rparr>)"
    obtain err T1 where w: "conn_WritePacket ?m T = Some (err, T1)" "exchanges T T1" "cn_inbox T1 = cn_inbox T"
      by (rule login_writes [OF inv, of ?m]) simp_all
    have "linv T1" using w(2) by (simp add: exchanges_def)
    from sasl_loop_ok [OF this, of conv enc'] obtain r T2 where l: "sasl_loop conv enc' T1 = Some (r, T2)" "exchanges T1 T2"
      by (elim exE conjE) rule
    have "exchanges T0 T1" "exchanges T0 T2" using exchanges_trans assms(1) w(2) l(2) by blast+
    moreover have "length (cn_inbox T2) \<le> length (cn_inbox T)" using exchanges_len [OF l(2)] w(3) by simp
    ultimately show ?thesis using assms Inr me wr w(1,3) l(1)
      by (cases e; cases err) (auto simp: authenticationSASL_def intro!: step_okI)
  qed
qed

lemma linv_upd [simp]:
  "linv (T\<lparr>cn_Authenticated := a\<rparr>) = linv T" "linv (T\<lparr>cn_BackendKey := k\<rparr>) = linv T" "linv (T\<lparr>cn_InitialParameters := p\<rparr>) = linv T"
  by (simp_all add: linv_def conn_inv_def)

definition is_ok :: "Authentication \<Rightarrow> bool" where
  "is_ok a \<longleftrightarrow> (case Authentication_Mode a of AuthOk _ \<Rightarrow> True | _ \<Rightarrow> False)"

lemma login_write_not_True: "login_write m False T \<noteq> Some (Inr True, T')"
  by (auto simp: login_write_def split: bind_splits option.splits)

lemma authenticationSASL_not_True: "authenticationSASL conv encode ms T \<noteq> Some (Inr True, T')"
  by (auto simp: authenticationSASL_def map_sum_def split: sum.splits prod.splits option.splits bind_splits)

lemma authentication_ok:
  assumes "exchanges T0 T" "length (cn_inbox T) < length (cn_inbox T0)"
  shows "is_ok a \<Longrightarrow> authentication creds a T = Some (Inr True, T\<lparr>cn_Authenticated := True\<rparr>)"
    "\<not> is_ok a \<Longrightarrow> step_ok T0 (authentication creds a T)"
    "\<not> is_ok a \<Longrightarrow> authentication creds a T \<noteq> Some (Inr True, T')"
proof -
  show "is_ok a \<Longrightarrow> authentication creds a T = Some (Inr True, T\<lparr>cn_Authenticated := True\<rparr>)"
    by (simp add: is_ok_def authentication_def split: AuthenticationPayloadMode.splits)
  note ok = step_okI [OF assms(1)] login_write_ok [OF assms] authenticationSASL_ok [OF assms]
  show "\<not> is_ok a \<Longrightarrow> step_ok T0 (authentication creds a T)"
    by (simp add: is_ok_def authentication_def authenticationMD5_def authenticationCleartext_def ok
        split: AuthenticationPayloadMode.splits option.splits)
  show "\<not> is_ok a \<Longrightarrow> authentication creds a T \<noteq> Some (Inr True, T')"
    by (simp add: is_ok_def authentication_def authenticationMD5_def authenticationCleartext_def login_write_not_True authenticationSASL_not_True
        split: AuthenticationPayloadMode.splits option.splits)
qed

lemma startup0_cases:
  assumes "linv T"
  obtains (ok) a T1 where "startup0 creds T = Some (Inr True, T1\<lparr>cn_Authenticated := True\<rparr>)" "exchanges T T1" "is_ok a"
      "cn_inbox T = Inr (Msg (PAuthentication a)) # cn_inbox T1"
    | (more) r T' where "startup0 creds T = Some (r, T')" "r \<noteq> Inr True" "exchanges T T'"
      "r = Inr False \<longrightarrow> length (cn_inbox T') < length (cn_inbox T)"
proof (rule login_read [OF assms, of True])
  fix e T' assume "conn_ReadPacket True T = Some (Inl e, T')" "exchanges T T'"
  then show thesis by (intro more [of "Inl e" T']) (simp_all add: startup0_def)
next
  fix m T' assume r: "conn_ReadPacket True T = Some (Inr m, T')" "exchanges T T'" "cn_inbox T = Inr m # cn_inbox T'" "login_msg m"
  have len: "length (cn_inbox T') < length (cn_inbox T)" using r(3) by simp
  show thesis
  proof (cases "msg_Type m = TypeAuthentication")
    case True
    with r(4) obtain p where p: "to_Authentication m = Some p" by (auto simp: login_msg_def)
    have nt: "TypeAuthentication \<noteq> TypeMarkiplierResponse" by (simp add: TypeAuthentication_def TypeMarkiplierResponse_def type_code_def)
    show thesis
    proof (cases p)
      case (Inl e)
      with r(1,2) p True nt show thesis by (intro more [of "Inl e" T']) (simp_all add: startup0_def)
    next
      case (Inr a)
      have s: "startup0 creds T = authentication creds a T'" using r(1) p True nt Inr by (simp add: startup0_def)
      have m: "m = Msg (PAuthentication a)" using p Inr by (cases m rule: to_Authentication.cases) auto
      show thesis
      proof (cases "is_ok a")
        case True
        with s r(2,3) m authentication_ok(1) [OF r(2) len] show thesis by (intro ok) simp_all
      next
        case False
        from authentication_ok(2) [OF r(2) len False, of creds] obtain x T1 where
          x: "authentication creds a T' = Some (x, T1)" "exchanges T T1" "\<forall>y. x = Inr y \<longrightarrow> length (cn_inbox T1) < length (cn_inbox T)"
          unfolding step_ok_def by (elim exE conjE) rule
        with s authentication_ok(3) [OF r(2) len False] show thesis by (intro more [of x T1]) auto
      qed
    qed
  next
    case False
    then have "\<exists>e. startup0 creds T = Some (Inl e, T')"
      using r(1,4) by (auto simp: startup0_def login_msg_def Let_def split: sum.splits)
    with r(2) show thesis by (auto intro: more)
  qed
qed

text \<open>What the packets after the authentication tell.\<close>

fun learn :: "msg \<Rightarrow> (CIString \<times> string) list \<times> BackendKey \<times> bool \<Rightarrow> (CIString \<times> string) list \<times> BackendKey \<times> bool" where
  "learn (Msg (PParameterStatus p)) (ps, k, a) = (AList.update (MakeCIString (ParameterStatus_Key p)) (ParameterStatus_Value p) ps, k, a)"
| "learn (Msg (PBackendKeyData p)) (ps, k, a) = (ps, \<lparr>bk_ProcessID = BackendKeyData_ProcessID p, bk_SecretKey = BackendKeyData_SecretKey p\<rparr>, a)"
| "learn m v = v"

lemma startup1_cases:
  assumes "linv T"
  obtains (fin) m T' where "startup1 T = Some (Inr True, T')" "exchanges T T'" "cn_inbox T = Inr m # cn_inbox T'" "msg_Type m = TypeReadyForQuery"
    | (more) m T' where "startup1 T = Some (Inr False, T')" "linv T'" "cn_inbox T = Inr m # cn_inbox T'" "login_rest T' = learn m (login_rest T)"
    | (err) e T' where "startup1 T = Some (Inl e, T')" "linv T'"
proof (rule login_read [OF assms, of True])
  fix e T' assume "conn_ReadPacket True T = Some (Inl e, T')" "exchanges T T'"
  then show thesis by (intro err [of e T']) (simp_all add: startup1_def exchanges_def)
next
  note ts = TypeBackendKeyData_def TypeParameterStatus_def TypeReadyForQuery_def TypeMarkiplierResponse_def TypeNoticeResponse_def type_code_def
  fix m T' assume r: "conn_ReadPacket True T = Some (Inr m, T')" "exchanges T T'" "cn_inbox T = Inr m # cn_inbox T'" "login_msg m" "s2c_msg m"
  have inv: "linv T'" "login_rest T' = login_rest T" using r(2) by (auto simp: exchanges_def)
  consider (key) "msg_Type m = TypeBackendKeyData" | (ps) "msg_Type m = TypeParameterStatus" | (rfq) "msg_Type m = TypeReadyForQuery"
    | (notice) "msg_Type m = TypeNoticeResponse"
    | (other) "msg_Type m \<notin> {TypeBackendKeyData, TypeParameterStatus, TypeReadyForQuery, TypeNoticeResponse}" by blast
  then show thesis
  proof cases
    case key
    with r(4) obtain p where p: "to_BackendKeyData m = Some p" by (auto simp: login_msg_def)
    show thesis
    proof (cases p)
      case (Inl e)
      with r(1) p key inv show thesis by (intro err [of e T']) (simp_all add: startup1_def)
    next
      case (Inr k)
      with p have m: "m = Msg (PBackendKeyData k)" by (cases m rule: to_BackendKeyData.cases) auto
      let ?T = "T'\<lparr>cn_BackendKey := \<lparr>bk_ProcessID = BackendKeyData_ProcessID k, bk_SecretKey = BackendKeyData_SecretKey k\<rparr>\<rparr>"
      have "startup1 T = Some (Inr False, ?T)" using r(1) p key Inr by (simp add: startup1_def)
      moreover have "login_rest ?T = learn m (login_rest T)" using inv(2) unfolding m by (simp add: login_rest_def)
      ultimately show thesis using r(3) inv(1) by (intro more [of ?T m]) simp_all
    qed
  next
    case ps
    with r(5) obtain p where p: "to_ParameterStatus m = Some p" by (auto simp: s2c_msg_def)
    show thesis
    proof (cases p)
      case (Inl e)
      with r(1) p ps inv show thesis by (intro err [of e T']) (simp_all add: startup1_def ts)
    next
      case (Inr k)
      with p have m: "m = Msg (PParameterStatus k)" by (intro to_ParameterStatus_Inr) simp
      let ?T = "T'\<lparr>cn_InitialParameters := AList.update (MakeCIString (ParameterStatus_Key k)) (ParameterStatus_Value k) (cn_InitialParameters T')\<rparr>"
      have "startup1 T = Some (Inr False, ?T)" using r(1) p ps Inr by (simp add: startup1_def ts)
      moreover have "login_rest ?T = learn m (login_rest T)" using inv(2) unfolding m by (simp add: login_rest_def)
      ultimately show thesis using r(3) inv(1) by (intro more [of ?T m]) simp_all
    qed
  next
    case rfq
    with r(1-3) show thesis by (intro fin [of T' m]) (simp_all add: startup1_def ts)
  next
    case notice
    then have "learn m v = v" for v by (cases "(m, v)" rule: learn.cases) (auto simp: ts)
    with r(1,3) notice inv show thesis by (intro more [of T' m]) (simp_all add: startup1_def ts)
  next
    case other
    then have "\<exists>e. startup1 T = Some (Inl e, T')"
      using r(1,4) by (auto simp: startup1_def login_msg_def Let_def split: sum.splits)
    with inv(1) show thesis by (auto intro: err)
  qed
qed

section \<open>Phases\<close>

text \<open>A phase repeats a step until it says that it is done; a step that asks for more has consumed a packet.\<close>

locale login_phase =
  fixes step :: "bool login" and invar :: "conn \<Rightarrow> bool"
  assumes step: "invar T \<Longrightarrow> \<exists>r T'. step T = Some (r, T') \<and> invar T' \<and> (r = Inr False \<longrightarrow> length (cn_inbox T') < length (cn_inbox T))"
begin

lemma returns: "invar T \<Longrightarrow> \<exists>r T'. until_done step T = Some (r, T') \<and> invar T'"
proof (induction "length (cn_inbox T)" arbitrary: T rule: less_induct)
  case less
  from step [OF less.prems] obtain r T1 where s: "step T = Some (r, T1)" "invar T1"
    "r = Inr False \<longrightarrow> length (cn_inbox T1) < length (cn_inbox T)" by (elim exE conjE) rule
  show ?case
  proof (cases "r = Inr False")
    case True
    with s less.hyps [of T1] show ?thesis by (subst until_done.simps) simp
  next
    case False
    with s show ?thesis by (subst until_done.simps) (auto split: sum.splits)
  qed
qed

lemma run_induct:
  assumes "until_done step T = Some (Inr u, T')" "invar T"
    and last: "\<And>T T'. invar T \<Longrightarrow> step T = Some (Inr True, T') \<Longrightarrow> P T T'"
    and again: "\<And>T T1 T'. invar T \<Longrightarrow> step T = Some (Inr False, T1) \<Longrightarrow> invar T1 \<Longrightarrow> P T1 T' \<Longrightarrow> P T T'"
  shows "P T T'"
  using assms(1,2)
proof (induction "length (cn_inbox T)" arbitrary: T rule: less_induct)
  case less
  from step [OF less.prems(2)] obtain r T1 where s: "step T = Some (r, T1)" "invar T1"
    "r = Inr False \<longrightarrow> length (cn_inbox T1) < length (cn_inbox T)" by (elim exE conjE) rule
  have u: "until_done step T = (case r of Inl err \<Rightarrow> Some (Inl err, T1) | Inr d \<Rightarrow> if d then Some (Inr (), T1) else until_done step T1)"
    by (subst until_done.simps) (simp add: s(1))
  show ?case
  proof (cases r)
    case (Inr d)
    show ?thesis
    proof (cases d)
      case True
      with u less.prems(1) Inr have "T' = T1" by simp
      with s Inr True less.prems(2) show ?thesis by (auto intro: last)
    next
      case False
      with u less.prems(1) Inr have "until_done step T1 = Some (Inr u, T')" by simp
      with less.hyps [of T1] s Inr False have "P T1 T'" by simp
      with s Inr False less.prems(2) show ?thesis by (auto intro: again)
    qed
  qed (use u less.prems in simp)
qed

end

interpretation ph0: login_phase "startup0 creds" linv for creds
proof
  fix T assume "linv T"
  then show "\<exists>r T'. startup0 creds T = Some (r, T') \<and> linv T' \<and> (r = Inr False \<longrightarrow> length (cn_inbox T') < length (cn_inbox T))"
    by (rule startup0_cases [of T creds]) (auto simp: exchanges_def)
qed

interpretation ph1: login_phase startup1 linv
proof
  fix T assume "linv T"
  then show "\<exists>r T'. startup1 T = Some (r, T') \<and> linv T' \<and> (r = Inr False \<longrightarrow> length (cn_inbox T') < length (cn_inbox T))"
    by (rule startup1_cases [of T]) (auto simp: exchanges_def)
qed

lemma phase0_result:
  assumes "until_done (startup0 creds) T = Some (Inr u, T')" "linv T"
  shows "\<exists>xs a. cn_inbox T = xs @ [Inr (Msg (PAuthentication a))] @ cn_inbox T' \<and> is_ok a \<and>
    login_rest T' = (cn_InitialParameters T, cn_BackendKey T, True)"
  using assms
proof (rule ph0.run_induct)
  fix T T' assume "linv T" "startup0 creds T = Some (Inr True, T')"
  then show "\<exists>xs a. cn_inbox T = xs @ [Inr (Msg (PAuthentication a))] @ cn_inbox T' \<and> is_ok a \<and>
      login_rest T' = (cn_InitialParameters T, cn_BackendKey T, True)"
    by (elim startup0_cases [of T creds]) (auto simp: login_rest_def exchanges_def)
next
  fix T T1 T' assume "linv T" "startup0 creds T = Some (Inr False, T1)"
    and IH: "\<exists>xs a. cn_inbox T1 = xs @ [Inr (Msg (PAuthentication a))] @ cn_inbox T' \<and> is_ok a \<and>
      login_rest T' = (cn_InitialParameters T1, cn_BackendKey T1, True)"
  then have "exchanges T T1" by (elim startup0_cases [of T creds]) auto
  then obtain pre where "cn_inbox T = pre @ cn_inbox T1" "login_rest T1 = login_rest T" by (auto simp: exchanges_def)
  moreover from IH obtain xs a where "cn_inbox T1 = xs @ [Inr (Msg (PAuthentication a))] @ cn_inbox T'" "is_ok a"
    "login_rest T' = (cn_InitialParameters T1, cn_BackendKey T1, True)" by (elim exE conjE)
  ultimately show "\<exists>xs a. cn_inbox T = xs @ [Inr (Msg (PAuthentication a))] @ cn_inbox T' \<and> is_ok a \<and>
      login_rest T' = (cn_InitialParameters T, cn_BackendKey T, True)"
    by (intro exI [of _ "pre @ xs"] exI [of _ a]) (simp add: login_rest_def)
qed

lemma phase1_result:
  assumes "until_done startup1 T = Some (Inr u, T')" "linv T"
  shows "\<exists>ys z. cn_inbox T = map Inr ys @ [Inr z] @ cn_inbox T' \<and> msg_Type z = TypeReadyForQuery \<and>
    login_rest T' = fold learn ys (login_rest T)"
  using assms
proof (rule ph1.run_induct)
  fix T T' assume "linv T" "startup1 T = Some (Inr True, T')"
  then show "\<exists>ys z. cn_inbox T = map Inr ys @ [Inr z] @ cn_inbox T' \<and> msg_Type z = TypeReadyForQuery \<and>
      login_rest T' = fold learn ys (login_rest T)"
    by (elim startup1_cases [of T]) (auto simp: exchanges_def intro: exI [of _ "[]"])
next
  fix T T1 T' assume "linv T" "startup1 T = Some (Inr False, T1)"
    and IH: "\<exists>ys z. cn_inbox T1 = map Inr ys @ [Inr z] @ cn_inbox T' \<and> msg_Type z = TypeReadyForQuery \<and>
      login_rest T' = fold learn ys (login_rest T1)"
  then obtain m where "cn_inbox T = Inr m # cn_inbox T1" "login_rest T1 = learn m (login_rest T)"
    by (elim startup1_cases [of T]) auto
  moreover from IH obtain ys z where "cn_inbox T1 = map Inr ys @ [Inr z] @ cn_inbox T'" "msg_Type z = TypeReadyForQuery"
    "login_rest T' = fold learn ys (login_rest T1)" by (elim exE conjE)
  ultimately show "\<exists>ys z. cn_inbox T = map Inr ys @ [Inr z] @ cn_inbox T' \<and> msg_Type z = TypeReadyForQuery \<and>
      login_rest T' = fold learn ys (login_rest T)"
    by (intro exI [of _ "m # ys"] exI [of _ z]) simp
qed

section \<open>Accept\<close>

lemma conn_rest_login: "exchanges T T' \<Longrightarrow> linv T'" by (simp add: exchanges_def)

lemma conn_ReadByte_frame:
  "\<exists>r fs bs. conn_ReadByte T = (r, T\<lparr>cn_flushes := fs, cn_bytes_in := bs\<rparr>)"
proof -
  from conn_Flush_frame [of T] obtain f fs where f: "conn_Flush T = (f, T\<lparr>cn_flushes := fs\<rparr>)" by (elim exE) rule
  show ?thesis
  proof (cases f)
    case (Some e)
    with f have "conn_ReadByte T = (Inl e, T\<lparr>cn_flushes := fs, cn_bytes_in := cn_bytes_in T\<rparr>)" by (simp add: conn_ReadByte_def)
    then show ?thesis by blast
  next
    case None
    with f have "conn_ReadByte T = ((case cn_bytes_in T of [] \<Rightarrow> Inl (EFed EOF) | b # _ \<Rightarrow> b), T\<lparr>cn_flushes := fs, cn_bytes_in := tl (cn_bytes_in T)\<rparr>)"
      by (cases "cn_bytes_in T") (auto simp: conn_ReadByte_def intro!: conn.equality)
    then show ?thesis by blast
  qed
qed

lemma conn_EnableSSL_frame:
  "\<exists>e fs ts b. conn_EnableSSL T = (e, T\<lparr>cn_codec_ssl := b, cn_flushes := fs, cn_tls := ts\<rparr>) \<and> (e = None \<longrightarrow> b)"
proof (cases "cn_codec_ssl T")
  case True
  then have "conn_EnableSSL T = (Some ESSLAlreadyEnabled, T\<lparr>cn_codec_ssl := True, cn_flushes := cn_flushes T, cn_tls := cn_tls T\<rparr>)"
    by (simp add: conn_EnableSSL_def)
  then show ?thesis by blast
next
  case False
  from conn_Flush_frame [of "T\<lparr>cn_codec_ssl := True\<rparr>"] obtain f fs where
    f: "conn_Flush (T\<lparr>cn_codec_ssl := True\<rparr>) = (f, T\<lparr>cn_codec_ssl := True, cn_flushes := fs\<rparr>)" by (elim exE) rule
  show ?thesis
  proof (cases f)
    case (Some e)
    with f False have "conn_EnableSSL T = (Some e, T\<lparr>cn_codec_ssl := True, cn_flushes := fs, cn_tls := cn_tls T\<rparr>)" by (simp add: conn_EnableSSL_def)
    then show ?thesis by blast
  next
    case None
    with f False have "conn_EnableSSL T = ((case cn_tls T of [] \<Rightarrow> None | r # _ \<Rightarrow> r), T\<lparr>cn_codec_ssl := True, cn_flushes := fs, cn_tls := tl (cn_tls T)\<rparr>)"
      by (cases "cn_tls T") (auto simp: conn_EnableSSL_def intro!: conn.equality)
    then show ?thesis by blast
  qed
qed

text \<open>Before TLS is on, the connection has seen at most the request for it.\<close>

lemma enableSSL_ok:
  assumes "linv T"
  shows "\<exists>r T'. enableSSL T = Some (r, T') \<and> exchanges T T' \<and> cn_inbox T' = cn_inbox T \<and>
    (cn_outbox T' = cn_outbox T \<or> cn_outbox T' = cn_outbox T @ [ssl_request]) \<and> (r = Inr True \<longrightarrow> cn_codec_ssl T')"
proof -
  have c: "c2s_msg ssl_request" by (simp add: ssl_request_def)
  obtain err T1 where w: "conn_WritePacket ssl_request T = Some (err, T1)" "exchanges T T1" "cn_inbox T1 = cn_inbox T"
    "err = None \<longrightarrow> cn_outbox T1 = cn_outbox T @ [ssl_request]" "err \<noteq> None \<longrightarrow> cn_outbox T1 = cn_outbox T"
    by (rule login_writes [OF assms c])
  from conn_ReadByte_frame [of T1] obtain r fs bs where rb: "conn_ReadByte T1 = (r, T1\<lparr>cn_flushes := fs, cn_bytes_in := bs\<rparr>)" by (elim exE) rule
  let ?T = "T1\<lparr>cn_flushes := fs, cn_bytes_in := bs\<rparr>"
  from conn_EnableSSL_frame [of ?T] obtain e fs' ts b where
    en: "conn_EnableSSL ?T = (e, ?T\<lparr>cn_codec_ssl := b, cn_flushes := fs', cn_tls := ts\<rparr>)" "e = None \<longrightarrow> b" by (elim exE conjE) rule
  have ex: "exchanges T ?T" "exchanges T (?T\<lparr>cn_codec_ssl := b, cn_flushes := fs', cn_tls := ts\<rparr>)"
    using w(2) by (auto simp: exchanges_def linv_def conn_inv_def login_rest_def)
  show ?thesis
  proof (cases err)
    case (Some x)
    with w show ?thesis by (simp add: enableSSL_def)
  next
    case None
    with w ex rb en show ?thesis
      by (cases r; cases e) (auto simp: enableSSL_def)
  qed
qed

lemma accept_ssl_ok:
  assumes "linv T"
  shows "\<exists>r T'. accept_ssl opts T = Some (r, T') \<and> exchanges T T' \<and> cn_inbox T' = cn_inbox T \<and>
    (cn_outbox T' = cn_outbox T \<or> cn_outbox T' = cn_outbox T @ [ssl_request]) \<and>
    (r = Inr () \<and> IsRequired (ao_SSLMode opts) \<longrightarrow> enableSSL T = Some (Inr True, T') \<and> cn_codec_ssl T')"
proof (cases "ShouldAttempt (ao_SSLMode opts)")
  case False
  then have "\<not> IsRequired (ao_SSLMode opts)" by (simp add: ShouldAttempt_def IsRequired_def)
  with False assms exchanges_refl show ?thesis by (simp add: accept_ssl_def)
next
  case True
  from enableSSL_ok [OF assms] obtain r T' where r: "enableSSL T = Some (r, T')" "exchanges T T'" "cn_inbox T' = cn_inbox T"
    "cn_outbox T' = cn_outbox T \<or> cn_outbox T' = cn_outbox T @ [ssl_request]" "r = Inr True \<longrightarrow> cn_codec_ssl T'"
    by (elim exE conjE) rule
  then show ?thesis using True by (cases r) (auto simp: accept_ssl_def)
qed

text \<open>The run of \<^verbatim>\<open>accept\<close> once TLS is settled.\<close>

definition accept_tail :: "'e accept_options \<Rightarrow> unit login" where
  "accept_tail opts T = do {
     (err, T) \<leftarrow> conn_WritePacket (startup_packet (ao_Username opts)
       (if ao_Database opts = [] then ao_Username opts else ao_Database opts) (ao_StartupParameters opts)) T;
     case err of
       Some err \<Rightarrow> Some (Inl err, T)
     | None \<Rightarrow> do {
         (r, T) \<leftarrow> until_done (startup0 (ao_Credentials opts)) T;
         case r of Inl err \<Rightarrow> Some (Inl err, T) | Inr _ \<Rightarrow> until_done startup1 T
       }
   }"

lemma accept_split:
  "accept opts T = do {
     (r, T) \<leftarrow> accept_ssl opts T;
     case r of Inl err \<Rightarrow> Some (Inl err, T) | Inr _ \<Rightarrow> accept_tail opts T
   }"
  unfolding accept_def accept_tail_def Let_def ..

lemma startup_obtain:
  assumes "linv T"
  obtains err T' where "conn_WritePacket (startup_packet u d ps) T = Some (err, T')" "exchanges T T'" "cn_inbox T' = cn_inbox T"
  by (rule login_writes [OF assms, of "startup_packet u d ps"]) (simp_all add: startup_packet_def)

lemma accept_tail_returns: "linv T \<Longrightarrow> \<exists>r T'. accept_tail opts T = Some (r, T') \<and> linv T'"
proof -
  assume "linv T"
  let ?m = "startup_packet (ao_Username opts) (if ao_Database opts = [] then ao_Username opts else ao_Database opts) (ao_StartupParameters opts)"
  from \<open>linv T\<close> obtain err T1 where w: "conn_WritePacket ?m T = Some (err, T1)" "exchanges T T1" by (rule startup_obtain)
  have "linv T1" using w(2) by (simp add: exchanges_def)
  from ph0.returns [OF this, of "ao_Credentials opts"] obtain r T2 where r: "until_done (startup0 (ao_Credentials opts)) T1 = Some (r, T2)" "linv T2"
    by (elim exE conjE) rule
  with w \<open>linv T1\<close> ph1.returns [OF r(2)] show ?thesis
    by (cases err; cases r) (auto simp: accept_tail_def)
qed

text \<open>
  Logging in to a server always ends: for every finite sequence of packets and errors of the server, whatever
  the SASL library answers, \<^verbatim>\<open>accept\<close> returns without a panic.
\<close>

theorem accept_returns:
  assumes "linv T"
  shows "\<exists>r T'. accept opts T = Some (r, T') \<and> linv T'"
proof -
  from accept_ssl_ok [OF assms, of opts] obtain r T' where r: "accept_ssl opts T = Some (r, T')" "exchanges T T'"
    by (elim exE conjE) rule
  then have "linv T'" by (simp add: exchanges_def)
  with r accept_tail_returns [of T' opts] show ?thesis by (cases r) (auto simp: accept_split)
qed

text \<open>
  (C21) A login succeeds only on the server's word, and keeps what the server said: the packets read are those of the
  authentication, up to AuthenticationOk, then the parameters and the key, up to ReadyForQuery; the parameters and the
  cancellation key of the connection are exactly those reported in between, and it is marked as authenticated.
\<close>

theorem accept_result:
  assumes "linv T" "accept opts T = Some (Inr (), T')"
  shows "\<exists>xs a ys z. cn_inbox T = xs @ [Inr (Msg (PAuthentication a))] @ map Inr ys @ [Inr z] @ cn_inbox T' \<and>
    is_ok a \<and> msg_Type z = TypeReadyForQuery \<and>
    (cn_InitialParameters T', cn_BackendKey T', cn_Authenticated T') = fold learn ys (cn_InitialParameters T, cn_BackendKey T, True)"
proof -
  from accept_ssl_ok [OF assms(1), of opts] obtain r T1 where r: "accept_ssl opts T = Some (r, T1)" "exchanges T T1" "cn_inbox T1 = cn_inbox T"
    by (elim exE conjE) rule
  with assms(2) have t: "accept_tail opts T1 = Some (Inr (), T')" by (cases r) (simp_all add: accept_split)
  let ?m = "startup_packet (ao_Username opts) (if ao_Database opts = [] then ao_Username opts else ao_Database opts) (ao_StartupParameters opts)"
  have "linv T1" using r(2) by (simp add: exchanges_def)
  then obtain err T2 where w: "conn_WritePacket ?m T1 = Some (err, T2)" "exchanges T1 T2" "cn_inbox T2 = cn_inbox T1" by (rule startup_obtain)
  have "linv T2" using w(2) by (simp add: exchanges_def)
  from ph0.returns [OF this, of "ao_Credentials opts"] obtain q T3 where q: "until_done (startup0 (ao_Credentials opts)) T2 = Some (q, T3)" "linv T3"
    by (elim exE conjE) rule
  from t w(1) q(1) have e: "err = None" "q = Inr ()" "until_done startup1 T3 = Some (Inr (), T')"
    by (cases err; cases q; simp add: accept_tail_def)+
  from phase0_result [OF q(1) [unfolded e] \<open>linv T2\<close>] obtain xs a where a: "cn_inbox T2 = xs @ [Inr (Msg (PAuthentication a))] @ cn_inbox T3" "is_ok a"
    "login_rest T3 = (cn_InitialParameters T2, cn_BackendKey T2, True)" by (elim exE conjE) rule
  from phase1_result [OF e(3) q(2)] obtain ys z where y: "cn_inbox T3 = map Inr ys @ [Inr z] @ cn_inbox T'" "msg_Type z = TypeReadyForQuery"
    "login_rest T' = fold learn ys (login_rest T3)" by (elim exE conjE) rule
  have "login_rest T2 = login_rest T" using r(2) w(2) by (simp add: exchanges_def)
  with a y r(3) w(3) show ?thesis
    by (intro exI [of _ xs] exI [of _ a] exI [of _ ys] exI [of _ z]) (simp add: login_rest_def)
qed

text \<open>
  (C20) With an SSL mode that requires encryption nothing but the request for TLS is sent in the clear: either the
  handshake was done and everything after the request went through it, or the login failed and the connection has
  seen no other packet.
\<close>

theorem accept_requires_ssl:
  assumes "linv T" "IsRequired (ao_SSLMode opts)" "accept opts T = Some (r, T')"
  shows "(\<exists>T1. enableSSL T = Some (Inr True, T1) \<and> cn_codec_ssl T1 \<and> accept_tail opts T1 = Some (r, T')) \<or>
    (\<exists>e. r = Inl e) \<and> (cn_outbox T' = cn_outbox T \<or> cn_outbox T' = cn_outbox T @ [ssl_request])"
proof -
  from accept_ssl_ok [OF assms(1), of opts] obtain q T1 where q: "accept_ssl opts T = Some (q, T1)"
    "cn_outbox T1 = cn_outbox T \<or> cn_outbox T1 = cn_outbox T @ [ssl_request]"
    "q = Inr () \<and> IsRequired (ao_SSLMode opts) \<longrightarrow> enableSSL T = Some (Inr True, T1) \<and> cn_codec_ssl T1" by (elim exE conjE) rule
  with assms(2,3) show ?thesis by (cases q) (auto simp: accept_split)
qed

section \<open>A login\<close>

definition sample_creds :: "nat client_creds" where
  "sample_creds = \<lparr>cc_EncodeCleartext = Some ''secret'', cc_EncodeMD5 = None, cc_EncodeSASL = None,
     cc_Write = (\<lambda>e _. (([], None), e))\<rparr>"

definition sample_opts :: "nat accept_options" where
  "sample_opts = \<lparr>ao_SSLMode = ''require'', ao_Username = ''bob'', ao_Credentials = sample_creds, ao_Database = [], ao_StartupParameters = []\<rparr>"

definition sample_login :: conn where
  "sample_login = (NewConn (map (\<lambda>p. Inr (Msg p))
     [PAuthentication \<lparr>Authentication_Mode = AuthCleartextPassword AuthenticationPayloadCleartextPassword\<rparr>,
      PAuthentication \<lparr>Authentication_Mode = AuthOk AuthenticationPayloadOk\<rparr>,
      PParameterStatus \<lparr>ParameterStatus_Key = ''TimeZone'', ParameterStatus_Value = ''UTC''\<rparr>,
      PReadyForQuery (type_code CHR ''I'')]))\<lparr>cn_bytes_in := [Inr (type_code CHR ''S'')]\<rparr>"

lemma sample_login_inv: "linv sample_login"
  by (auto simp: linv_def conn_inv_def sample_login_def NewConn_def s2c_msg_def login_msg_def type_bytes TypeAuthentication_def
      TypeParameterStatus_def TypeMarkiplierResponse_def TypeBackendKeyData_def)

lemma sample_login_run: "\<exists>T'. accept sample_opts sample_login = Some (Inr (), T')"
proof -
  have "map_option fst (accept sample_opts sample_login) = Some (Inr ())" by code_simp
  then show ?thesis by auto
qed

theorem accept_returns_witness: "\<exists>r T'. accept sample_opts sample_login = Some (r, T') \<and> linv T'"
  using accept_returns [OF sample_login_inv] .

theorem accept_result_witness:
  "\<exists>T' xs a ys z. accept sample_opts sample_login = Some (Inr (), T') \<and>
    cn_inbox sample_login = xs @ [Inr (Msg (PAuthentication a))] @ map Inr ys @ [Inr z] @ cn_inbox T' \<and> is_ok a"
proof -
  from sample_login_run obtain T' where "accept sample_opts sample_login = Some (Inr (), T')" by (elim exE)
  with accept_result [OF sample_login_inv this] show ?thesis by blast
qed

theorem accept_requires_ssl_witness:
  "\<exists>T1 T'. enableSSL sample_login = Some (Inr True, T1) \<and> cn_codec_ssl T1 \<and> accept sample_opts sample_login = Some (Inr (), T')"
proof -
  from sample_login_run obtain T' where a: "accept sample_opts sample_login = Some (Inr (), T')" by (elim exE)
  have "IsRequired (ao_SSLMode sample_opts)" by (simp add: IsRequired_def sample_opts_def)
  from accept_requires_ssl [OF sample_login_inv this a] a show ?thesis by auto
qed

end
