(* ===== verification/Client_Login.thy ===== *)
theory Client_Login
  imports Server_Login
begin

text \<open>
  Accepting a client: \<^verbatim>\<open>lib/bouncer/frontends/v0\<close>, the startup of a connection (\<^verbatim>\<open>accept.go\<close>) and its
  authentication (\<^verbatim>\<open>authenticate.go\<close>).  A client that logs in has no middlewares yet, so every packet read is
  pending.  The packets of type \<^verbatim>\<open>p\<close> have four formats, of which the reader picks one; such a packet is given by
  its body, as a SASLResponse (whose format is any body), and decoded by the readers of \<^verbatim>\<open>Packets\<close>.  The credentials
  are what \<^verbatim>\<open>lib/auth/credentials.go\<close> says of them: which server interfaces they implement, and their answers;
  the random numbers are arguments.
\<close>

section \<open>Pending packets\<close>

fun to_Startup :: "msg \<Rightarrow> Startup outcome" where
  "to_Startup (Msg (PStartup p)) = Some (Inr p)"
| "to_Startup (Bad t) = Some (Inl (EFed ErrInvalidFormat))"
| "to_Startup _ = Some (Inl (EFed ErrUnexpectedPacket))"

text \<open>The decoder when the packet of type \<^verbatim>\<open>p\<close> with this body is current, and nothing follows it yet.\<close>

definition pending_p :: "byte list \<Rightarrow> decoder" where
  "pending_p body = (NewDecoder [(body, None)])\<lparr>d_packetType := TypePasswordMessage, d_packetLength := go_len body\<rparr>"

definition read_pending :: "'a dec \<Rightarrow> msg \<Rightarrow> 'a outcome" where
  "read_pending ReadFrom m =
     (case m of
        Msg (PSASLResponse body) \<Rightarrow> map_option (\<lambda>(r, _). map_sum EFed (\<lambda>x. x) r) (ReadFrom (pending_p body))
      | Bad t \<Rightarrow> Some (Inl (EFed (if t = TypePasswordMessage then ErrInvalidFormat else ErrUnexpectedPacket)))
      | _ \<Rightarrow> Some (Inl (EFed ErrUnexpectedPacket)))"

definition to_PasswordMessage :: "msg \<Rightarrow> PasswordMessage outcome" where
  "to_PasswordMessage = read_pending PasswordMessage_ReadFrom"

definition to_SASLInitialResponse :: "msg \<Rightarrow> SASLInitialResponse outcome" where
  "to_SASLInitialResponse = read_pending SASLInitialResponse_ReadFrom"

definition to_SASLResponse :: "msg \<Rightarrow> SASLResponse outcome" where
  "to_SASLResponse = read_pending SASLResponse_ReadFrom"

section \<open>Startup parameters\<close>

text \<open>
  \<^verbatim>\<open>strings.Fields\<close> on the bytes of a UTF-8 string: the length of the white space at the front, as \<^verbatim>\<open>unicode.IsSpace\<close> has it
  (also U+0085, U+00A0, U+1680, U+2000 to U+200A, U+2028, U+2029, U+202F, U+205F and U+3000).  A byte that starts such
  a rune never occurs inside another one, so that invalid UTF-8 is covered.
\<close>

definition wide_spaces :: "nat list list" where
  "wide_spaces = [[225, 154, 128], [226, 129, 159], [227, 128, 128]] @ map (\<lambda>x. [226, 128, x]) ([128..<139] @ [168, 169, 175])"

definition space_len :: "string \<Rightarrow> nat" where
  "space_len s =
     (case map of_char (take 3 s) of
        [] \<Rightarrow> 0
      | a # bs \<Rightarrow>
          if a \<in> {9, 10, 11, 12, 13, 32} then 1
          else if a = 194 \<and> bs \<noteq> [] \<and> hd bs \<in> {133, 160} then 2
          else if a # bs \<in> set wide_spaces then 3 else 0)"

function fields_from :: "string \<Rightarrow> string \<Rightarrow> string list" where
  "fields_from cur s =
     (case s of
        [] \<Rightarrow> if cur = [] then [] else [cur]
      | c # cs \<Rightarrow>
          if space_len s = 0 then fields_from (cur @ [c]) cs
          else (if cur = [] then [] else [cur]) @ fields_from [] (drop (space_len s) s))"
  by pat_completeness auto

termination fields_from
  by (relation "measure (\<lambda>(cur, s). length s)") auto

declare fields_from.simps [simp del]

definition strings_Fields :: "string \<Rightarrow> string list" where
  "strings_Fields s = fields_from [] s"

definition fatal :: "Code \<Rightarrow> string \<Rightarrow> fed_error" where
  "fatal code message = EPerror (perror_New FATAL code message [])"

definition set_parameter :: "string \<Rightarrow> string \<Rightarrow> conn \<Rightarrow> conn" where
  "set_parameter key v T = T\<lparr>cn_InitialParameters := AList.update (MakeCIString key) v (cn_InitialParameters T)\<rparr>"

text \<open>The loop over the fields of \<^verbatim>\<open>options\<close>; \<^verbatim>\<open>fields[i]\<close> after the last field panics.\<close>

fun option_fields :: "string list \<Rightarrow> conn \<Rightarrow> ((fed_error + unit) \<times> conn) option" where
  "option_fields [] T = Some (Inr (), T)"
| "option_fields [f] T = (if f = ''-c'' then None else Some (Inl (fatal FeatureNotSupported ''Flag not supported, sorry''), T))"
| "option_fields (f # kv # fs) T =
     (if f = ''-c'' then
        (case strings_Cut kv ''='' of
           (key, v, ok) \<Rightarrow>
             if \<not> ok then Some (Inl (fatal ProtocolViolation ''Expected key=value''), T)
             else option_fields fs (set_parameter key v T))
      else Some (Inl (fatal FeatureNotSupported ''Flag not supported, sorry''), T))"

text \<open>The loop over the parameters, with the unsupported protocol extensions so far.\<close>

fun startup_parameters :: "StartupPayloadVersion3PayloadParameter list \<Rightarrow> string list \<Rightarrow> conn \<Rightarrow> ((fed_error + string list) \<times> conn) option" where
  "startup_parameters [] unsupported T = Some (Inr unsupported, T)"
| "startup_parameters (p # ps) unsupported T =
     (let key = Parameter_Key p; v = Parameter_Value p in
      if key = ''user'' then startup_parameters ps unsupported (T\<lparr>cn_User := v\<rparr>)
      else if key = ''database'' then startup_parameters ps unsupported (T\<lparr>cn_Database := v\<rparr>)
      else if key = ''options'' then do {
        (r, T) \<leftarrow> option_fields (strings_Fields v) T;
        case r of Inl err \<Rightarrow> Some (Inl err, T) | Inr _ \<Rightarrow> startup_parameters ps unsupported T
      }
      else if key = ''replication'' then Some (Inl (fatal FeatureNotSupported ''Replication mode is not supported yet''), T)
      else if take 5 key = ''_pq_.'' then startup_parameters ps (unsupported @ [key]) T
      else startup_parameters ps unsupported (set_parameter key v T))"

section \<open>Startup\<close>

record acceptResult =
  ar_CancelKey :: BackendKey
  ar_IsCanceling :: bool

definition acceptResult_zero :: acceptResult where
  "acceptResult_zero = \<lparr>ar_CancelKey = \<lparr>bk_ProcessID = 0, bk_SecretKey = 0\<rparr>, ar_IsCanceling = False\<rparr>"

definition io_result :: "fed_error option \<times> conn \<Rightarrow> 'r \<Rightarrow> ((fed_error + 'r) \<times> conn) option" where
  "io_result r x = Some (case fst r of Some err \<Rightarrow> Inl err | None \<Rightarrow> Inr x, snd r)"

definition client_version3 :: "StartupPayloadVersion3 \<Rightarrow> acceptResult \<Rightarrow> (acceptResult \<times> bool) login" where
  "client_version3 mode result T = do {
     (r, T) \<leftarrow> startup_parameters (Version3_Parameters mode) [] T;
     case r of
       Inl err \<Rightarrow> Some (Inl err, T)
     | Inr unsupportedOptions \<Rightarrow> do {
         (err, T) \<leftarrow>
           (if Version3_MinorVersion mode \<noteq> 0 \<or> unsupportedOptions \<noteq> []
            then conn_WritePacket (Msg (PNegotiateProtocolVersion
              \<lparr>NegotiateProtocolVersion_MinorProtocolVersion = 0,
               NegotiateProtocolVersion_UnrecognizedProtocolOptions = unsupportedOptions\<rparr>)) T
            else Some (None, T));
         case err of
           Some err \<Rightarrow> Some (Inl err, T)
         | None \<Rightarrow>
             if cn_User T = [] then Some (Inl (fatal InvalidAuthorizationSpecification ''User is required''), T)
             else Some (Inr (result\<lparr>ar_IsCanceling := False\<rparr>, True),
               if cn_Database T = [] then T\<lparr>cn_Database := cn_User T\<rparr> else T)
       }
   }"

text \<open>The result with its flag \<^verbatim>\<open>IsCanceling\<close>, and whether the startup is done; \<open>tls\<close>: an SSL configuration is given.\<close>

definition client_control :: "bool \<Rightarrow> StartupPayloadControlPayloadMode \<Rightarrow> acceptResult \<Rightarrow> (acceptResult \<times> bool) login" where
  "client_control tls control result T =
     (let more = (result\<lparr>ar_IsCanceling := False\<rparr>, False) in
      case control of
        ControlCancel c \<Rightarrow>
          Some (Inr (result\<lparr>ar_CancelKey := \<lparr>bk_ProcessID = StartupPayloadControlPayloadCancel_ProcessID c,
            bk_SecretKey = StartupPayloadControlPayloadCancel_SecretKey c\<rparr>, ar_IsCanceling := True\<rparr>, True), T)
      | ControlSSL _ \<Rightarrow>
          if \<not> tls then io_result (conn_WriteByte (type_code CHR ''N'') T) more
          else
            (case conn_WriteByte (type_code CHR ''S'') T of
               (Some err, T) \<Rightarrow> Some (Inl err, T)
             | (None, T) \<Rightarrow> io_result (conn_EnableSSL T) more)
      | ControlGSSAPI _ \<Rightarrow> io_result (conn_WriteByte (type_code CHR ''N'') T) more)"

definition client_startup0 :: "bool \<Rightarrow> acceptResult \<Rightarrow> (acceptResult \<times> bool) login" where
  "client_startup0 tls result T = do {
     (r, T) \<leftarrow> conn_ReadPacket False T;
     case r of
       Inl err \<Rightarrow> Some (Inl err, T)
     | Inr packet \<Rightarrow> do {
         r \<leftarrow> to_Startup packet;
         case r of
           Inl err \<Rightarrow> Some (Inl err, T)
         | Inr p \<Rightarrow>
             (case Startup_Mode p of
                StartupControl mode \<Rightarrow> client_control tls (StartupPayloadControl_Mode mode) result T
              | StartupVersion3 mode \<Rightarrow> client_version3 mode result T)
       }
   }"

partial_function (option) client_accept0 :: "bool \<Rightarrow> acceptResult \<Rightarrow> conn \<Rightarrow> ((fed_error + acceptResult) \<times> conn) option" where
  "client_accept0 tls result T = do {
     (r, T) \<leftarrow> client_startup0 tls result T;
     case r of
       Inl err \<Rightarrow> Some (Inl err, T)
     | Inr res \<Rightarrow> if snd res then Some (Inr (fst res), T) else client_accept0 tls (fst res) T
   }"

definition client_fail :: "(nat \<Rightarrow> string) \<Rightarrow> fed_error \<Rightarrow> conn \<Rightarrow> conn option" where
  "client_fail os err T = map_option snd (conn_WritePacket (Msg (PMarkiplierResponse (ToPacket (perror_Wrap os err)))) T)"

definition client_accept :: "(nat \<Rightarrow> string) \<Rightarrow> bool \<Rightarrow> acceptResult login" where
  "client_accept os tls T = do {
     (r, T) \<leftarrow> client_accept0 tls acceptResult_zero T;
     case r of
       Inl err \<Rightarrow> do { T \<leftarrow> client_fail os err T; Some (Inl err, T) }
     | Inr result \<Rightarrow> Some (Inr result, T)
   }"

definition client_Accept :: "(nat \<Rightarrow> string) \<Rightarrow> bool \<Rightarrow> (BackendKey \<times> bool) login" where
  "client_Accept os tls T = do {
     (r, T) \<leftarrow> client_accept os tls T;
     Some (map_sum (\<lambda>e. e) (\<lambda>result. (ar_CancelKey result, ar_IsCanceling result)) r, T)
   }"

declare client_accept0.simps [code]

section \<open>Authentication\<close>

record 'v server_creds =
  sc_SASL :: "(string list \<times> (string \<Rightarrow> fed_error + 'v)) option"
  sc_MD5 :: "(byte list \<Rightarrow> string \<Rightarrow> fed_error option) option"
  sc_Write :: "'v sasl_write"

text \<open>What \<^verbatim>\<open>crypto/rand\<close> returns: the salt, the process number and the key.\<close>

record randoms =
  rnd_salt :: "fed_error + byte list"
  rnd_process :: "fed_error + byte list"
  rnd_key :: "fed_error + byte list"

text \<open>The response, whether the conversation is done, and the state of the verifier; \<^verbatim>\<open>io.EOF\<close> ends a conversation.\<close>

definition verifier_Write :: "'v sasl_write \<Rightarrow> 'v \<Rightarrow> byte list option \<Rightarrow> fed_error + byte list \<times> bool \<times> 'v" where
  "verifier_Write conv tool p =
     (case conv tool p of
        ((resp, Some err), tool) \<Rightarrow> if err = EFed EOF then Inr (resp, True, tool) else Inl err
      | ((resp, None), tool) \<Rightarrow> Inr (resp, False, tool))"

definition authenticationSASLInitial :: "'v sasl_write \<Rightarrow> (string \<Rightarrow> fed_error + 'v) \<Rightarrow> (byte list \<times> bool \<times> 'v) login" where
  "authenticationSASLInitial conv VerifySASL T = do {
     (r, T) \<leftarrow> conn_ReadPacket True T;
     case r of
       Inl err \<Rightarrow> Some (Inl err, T)
     | Inr packet \<Rightarrow> do {
         r \<leftarrow> to_SASLInitialResponse packet;
         case r of
           Inl err \<Rightarrow> Some (Inl err, T)
         | Inr p \<Rightarrow>
             (case VerifySASL (SASLInitialResponse_Mechanism p) of
                Inl err \<Rightarrow> Some (Inl err, T)
              | Inr tool \<Rightarrow> Some (verifier_Write conv tool (SASLInitialResponse_InitialClientResponse p), T))
       }
   }"

definition authenticationSASLContinue :: "'v sasl_write \<Rightarrow> 'v \<Rightarrow> (byte list \<times> bool \<times> 'v) login" where
  "authenticationSASLContinue conv tool T = do {
     (r, T) \<leftarrow> conn_ReadPacket True T;
     case r of
       Inl err \<Rightarrow> Some (Inl err, T)
     | Inr packet \<Rightarrow> do {
         r \<leftarrow> to_SASLResponse packet;
         case r of
           Inl err \<Rightarrow> Some (Inl err, T)
         | Inr p \<Rightarrow> Some (verifier_Write conv tool (Some p), T)
       }
   }"

abbreviation auth_msg :: "AuthenticationPayloadMode \<Rightarrow> msg" where
  "auth_msg mode \<equiv> Msg (PAuthentication \<lparr>Authentication_Mode = mode\<rparr>)"

partial_function (option) client_sasl_loop :: "'v sasl_write \<Rightarrow> byte list \<times> bool \<times> 'v \<Rightarrow> conn \<Rightarrow> ((fed_error + unit) \<times> conn) option" where
  "client_sasl_loop conv s T =
     (case s of (resp, fin, tool) \<Rightarrow>
        if fin then do {
          (err, T) \<leftarrow> conn_WritePacket (auth_msg (AuthSASLFinal resp)) T;
          Some (case err of Some err \<Rightarrow> Inl err | None \<Rightarrow> Inr (), T)
        }
        else do {
          (err, T) \<leftarrow> conn_WritePacket (auth_msg (AuthSASLContinue resp)) T;
          case err of
            Some err \<Rightarrow> Some (Inl err, T)
          | None \<Rightarrow> do {
              (r, T) \<leftarrow> authenticationSASLContinue conv tool T;
              case r of Inl err \<Rightarrow> Some (Inl err, T) | Inr s \<Rightarrow> client_sasl_loop conv s T
            }
        })"

definition client_authenticationSASL :: "'v sasl_write \<Rightarrow> string list \<Rightarrow> (string \<Rightarrow> fed_error + 'v) \<Rightarrow> unit login" where
  "client_authenticationSASL conv mechanisms VerifySASL T = do {
     (err, T) \<leftarrow> conn_WritePacket (auth_msg (AuthSASL (map (\<lambda>m. \<lparr>SASLMethod_Method = m\<rparr>) mechanisms))) T;
     case err of
       Some err \<Rightarrow> Some (Inl err, T)
     | None \<Rightarrow> do {
         (r, T) \<leftarrow> authenticationSASLInitial conv VerifySASL T;
         case r of Inl err \<Rightarrow> Some (Inl err, T) | Inr s \<Rightarrow> client_sasl_loop conv s T
       }
   }"

definition client_authenticationMD5 :: "randoms \<Rightarrow> (byte list \<Rightarrow> string \<Rightarrow> fed_error option) \<Rightarrow> unit login" where
  "client_authenticationMD5 rnd VerifyMD5 T =
     (case rnd_salt rnd of
        Inl err \<Rightarrow> Some (Inl err, T)
      | Inr salt \<Rightarrow> do {
          (err, T) \<leftarrow> conn_WritePacket (auth_msg (AuthMD5Password salt)) T;
          case err of
            Some err \<Rightarrow> Some (Inl err, T)
          | None \<Rightarrow> do {
              (r, T) \<leftarrow> conn_ReadPacket True T;
              case r of
                Inl err \<Rightarrow> Some (Inl err, T)
              | Inr packet \<Rightarrow> do {
                  r \<leftarrow> to_PasswordMessage packet;
                  case r of
                    Inl err \<Rightarrow> Some (Inl err, T)
                  | Inr pw \<Rightarrow> Some (case VerifyMD5 salt pw of Some err \<Rightarrow> Inl err | None \<Rightarrow> Inr (), T)
                }
            }
        })"

definition client_verify :: "randoms \<Rightarrow> 'v server_creds option \<Rightarrow> unit login" where
  "client_verify rnd creds T =
     (case creds of
        None \<Rightarrow> Some (Inr (), T)
      | Some creds \<Rightarrow>
          (case sc_SASL creds of
             Some (mechanisms, VerifySASL) \<Rightarrow> client_authenticationSASL (sc_Write creds) mechanisms VerifySASL T
           | None \<Rightarrow>
               (case sc_MD5 creds of
                  Some VerifyMD5 \<Rightarrow> client_authenticationMD5 rnd VerifyMD5 T
                | None \<Rightarrow> Some (Inl (fatal InternalError ''Auth method not supported''), T))))"

definition client_authenticate :: "randoms \<Rightarrow> 'v server_creds option \<Rightarrow> unit login" where
  "client_authenticate rnd creds T = do {
     (r, T) \<leftarrow> client_verify rnd creds T;
     case r of
       Inl err \<Rightarrow> Some (Inl err, T)
     | Inr _ \<Rightarrow> do {
         (err, T) \<leftarrow> conn_WritePacket (auth_msg (AuthOk AuthenticationPayloadOk)) T;
         case err of
           Some err \<Rightarrow> Some (Inl err, T)
         | None \<Rightarrow>
             (let T = T\<lparr>cn_Authenticated := True\<rparr> in
              case (rnd_process rnd, rnd_key rnd) of
                (Inl err, _) \<Rightarrow> Some (Inl err, T)
              | (_, Inl err) \<Rightarrow> Some (Inl err, T)
              | (Inr processID, Inr backendKey) \<Rightarrow>
                  (let T = T\<lparr>cn_BackendKey := \<lparr>bk_ProcessID = of_be32 processID, bk_SecretKey = of_be32 backendKey\<rparr>\<rparr> in
                   login_write (Msg (PBackendKeyData \<lparr>BackendKeyData_ProcessID = of_be32 processID,
                     BackendKeyData_SecretKey = of_be32 backendKey\<rparr>)) () T))
       }
   }"

definition client_Authenticate :: "randoms \<Rightarrow> 'v server_creds option \<Rightarrow> unit login" where
  "client_Authenticate rnd creds T = (if cn_Authenticated T then Some (Inr (), T) else client_authenticate rnd creds T)"

declare client_sasl_loop.simps [code]

section \<open>Connections without middlewares\<close>

definition bare :: "conn \<Rightarrow> bool" where
  "bare T \<longleftrightarrow> cn_Middleware T = []"

lemma bare_upd [simp]:
  "bare (T\<lparr>cn_inbox := a\<rparr>) = bare T" "bare (T\<lparr>cn_outbox := b\<rparr>) = bare T" "bare (T\<lparr>cn_writes := c\<rparr>) = bare T"
  "bare (T\<lparr>cn_flushes := d\<rparr>) = bare T" "bare (T\<lparr>cn_Authenticated := g\<rparr>) = bare T" "bare (T\<lparr>cn_BackendKey := h\<rparr>) = bare T"
  "bare (T\<lparr>cn_User := i\<rparr>) = bare T" "bare (T\<lparr>cn_Database := j\<rparr>) = bare T" "bare (T\<lparr>cn_InitialParameters := k\<rparr>) = bare T"
  "bare (T\<lparr>cn_bytes_out := l\<rparr>) = bare T" "bare (T\<lparr>cn_codec_ssl := m\<rparr>) = bare T" "bare (T\<lparr>cn_tls := n\<rparr>) = bare T"
  by (simp_all add: bare_def)

lemma bare_readE:
  assumes "bare T"
  obtains (pkt) m fs xs where "conn_ReadPacket typed T = Some (Inr m, T\<lparr>cn_flushes := fs, cn_inbox := xs\<rparr>)" "cn_inbox T = Inr m # xs"
    | (err) e fs xs where "conn_ReadPacket typed T = Some (Inl e, T\<lparr>cn_flushes := fs, cn_inbox := xs\<rparr>)" "\<exists>pre. cn_inbox T = pre @ xs"
proof -
  from conn_Flush_frame [of T] obtain f fs where f: "conn_Flush T = (f, T\<lparr>cn_flushes := fs\<rparr>)" by (elim exE) rule
  have m: "cn_Middleware T = []" using assms by (simp add: bare_def)
  consider (flush) e where "f = Some e" | (eof) "f = None" "cn_inbox T = []"
    | (bad) e xs where "f = None" "cn_inbox T = Inl e # xs" | (ok) m xs where "f = None" "cn_inbox T = Inr m # xs"
    by (metis list.exhaust option.exhaust sum.exhaust)
  then show thesis
  proof cases
    case flush
    with f show thesis by (intro err [where e = e and fs = fs and xs = "cn_inbox T"]) (simp_all add: conn_ReadPacket_def)
  next
    case eof
    with f m show thesis by (intro err [where e = "EFed EOF" and fs = fs and xs = "[]"]) (simp_all add: conn_read_simps)
  next
    case bad
    with f m show thesis by (intro err [where e = e and fs = fs and xs = xs]) (simp_all add: conn_read_simps)
  next
    case ok
    with f m show thesis by (intro pkt [where m = m and fs = fs and xs = xs]) (simp_all add: conn_read_simps conn_read_from_def)
  qed
qed

lemma bare_WritePacket:
  assumes "bare T"
  shows "conn_WritePacket m T = Some (conn_writePacket m T)"
proof -
  from conn_writePacket_frame [of m T] obtain e ws where
    w: "conn_writePacket m T = (e, T\<lparr>cn_writes := ws, cn_outbox := cn_outbox T @ (if e = None then [m] else [])\<rparr>)" by (elim exE) rule
  have "conn_write_from (length (cn_Middleware T)) m T = Some (Inr (Some m), T)"
    using assms by (auto simp: conn_write_from_def bare_def intro!: conn.equality)
  with w assms show ?thesis
    by (cases e) (simp_all add: conn_WritePacket_def bare_def conn_PostWrite_none)
qed

lemma bare_writeE:
  assumes "bare T"
  obtains (ok) ws where "conn_WritePacket m T = Some (None, T\<lparr>cn_writes := ws, cn_outbox := cn_outbox T @ [m]\<rparr>)" "cn_writes T = [] \<longrightarrow> ws = []"
    | (err) e ws where "conn_WritePacket m T = Some (Some e, T\<lparr>cn_writes := ws, cn_outbox := cn_outbox T\<rparr>)" "cn_writes T \<noteq> []"
proof (cases "cn_writes T")
  case Nil
  with assms show thesis by (intro ok [of "[]"]) (simp_all add: bare_WritePacket conn_writePacket_def)
next
  case (Cons w ws)
  show thesis
  proof (cases w)
    case None
    with Cons assms show thesis by (intro ok [of ws]) (simp_all add: bare_WritePacket conn_writePacket_def)
  next
    case (Some e)
    with Cons assms show thesis by (intro err [of e ws]) (simp_all add: bare_WritePacket conn_writePacket_def)
  qed
qed

lemma bare_write_frame:
  assumes "bare T"
  shows "\<exists>e ws os. conn_WritePacket m T = Some (e, T\<lparr>cn_writes := ws, cn_outbox := os\<rparr>) \<and> (cn_writes T = [] \<longrightarrow> ws = [])"
  by (rule bare_writeE [OF assms, of m]) blast+

section \<open>The pending packets decode or are refused\<close>

lemma pending_p_inv: "dec_inv (pending_p body)"
  by (simp add: pending_p_def NewDecoder_def dec_Reset_def dec_inv_def)

lemma read_pending_total: "total f \<Longrightarrow> \<exists>r. read_pending f m = Some r"
  using pending_p_inv unfolding total_def read_pending_def by (fastforce split: msg.split packet.split)

lemmas SASLResponse_read_total = read_pending_total [OF SASLResponse_total, folded to_SASLResponse_def]
  and PasswordMessage_read_total = read_pending_total [OF PasswordMessage_total, folded to_PasswordMessage_def]

lemma to_PasswordMessage_wire:
  assumes "no_nul s"
  shows "to_PasswordMessage (Msg (PSASLResponse (wire_str s))) = Some (Inr s)"
proof -
  let ?d = "pending_p (wire_str s)"
  have "dec_stream ?d = wire_str s @ []" "clean ?d" "d_packetType ?d = TypePasswordMessage"
    by (simp_all add: pending_p_def NewDecoder_def dec_Reset_def dec_stream_def buffered_def clean_def)
  with String_reads_wire [OF assms] pending_p_inv [of "wire_str s"] obtain d' where "PasswordMessage_ReadFrom ?d = Some (Inr s, d')"
    by (fastforce simp: reads_if_def PasswordMessage_ReadFrom_def dec_typed_def)
  then show ?thesis by (simp add: to_PasswordMessage_def read_pending_def)
qed

section \<open>The startup parameters\<close>

text \<open>The settings that the parameters ask for, in order: \<^verbatim>\<open>-c key=value\<close> in \<^verbatim>\<open>options\<close>, and the parameters of no special meaning.\<close>

fun option_settings :: "string list \<Rightarrow> (string \<times> string) list" where
  "option_settings (f # kv # fs) = (fst (strings_Cut kv ''=''), fst (snd (strings_Cut kv ''=''))) # option_settings fs"
| "option_settings _ = []"

definition parameter_settings :: "StartupPayloadVersion3PayloadParameter \<Rightarrow> (string \<times> string) list" where
  "parameter_settings p =
     (if Parameter_Key p \<in> {''user'', ''database'', ''replication''} then []
      else if Parameter_Key p = ''options'' then option_settings (strings_Fields (Parameter_Value p))
      else if take 5 (Parameter_Key p) = ''_pq_.'' then []
      else [(Parameter_Key p, Parameter_Value p)])"

definition settle :: "(string \<times> string) list \<Rightarrow> (CIString \<times> string) list \<Rightarrow> (CIString \<times> string) list" where
  "settle ss m = fold (\<lambda>(k, v). AList.update (MakeCIString k) v) ss m"

text \<open>The last value of a parameter.\<close>

definition last_value :: "string \<Rightarrow> StartupPayloadVersion3PayloadParameter list \<Rightarrow> string \<Rightarrow> string" where
  "last_value k ps v = fold (\<lambda>p v. if Parameter_Key p = k then Parameter_Value p else v) ps v"

text \<open>The fields that the startup sets.\<close>

definition identity_of :: "conn \<Rightarrow> string \<times> string \<times> (CIString \<times> string) list" where
  "identity_of T = (cn_User T, cn_Database T, cn_InitialParameters T)"

text \<open>All else of a connection that the parameters do not touch.\<close>

definition beside :: "conn \<Rightarrow> conn" where
  "beside T = T\<lparr>cn_User := [], cn_Database := [], cn_InitialParameters := []\<rparr>"

lemma beside_upd [simp]:
  "beside (T\<lparr>cn_User := a\<rparr>) = beside T" "beside (T\<lparr>cn_Database := b\<rparr>) = beside T" "beside (T\<lparr>cn_InitialParameters := c\<rparr>) = beside T"
  by (simp_all add: beside_def)

lemma option_fields_result:
  "option_fields fs T = Some (r, T') \<Longrightarrow> beside T' = beside T \<and> (r = Inr () \<longrightarrow>
    identity_of T' = (cn_User T, cn_Database T, settle (option_settings fs) (cn_InitialParameters T)))"
proof (induction fs T rule: option_fields.induct)
  case (3 f kv fs T)
  then show ?case by (auto simp: set_parameter_def identity_of_def settle_def split: if_splits prod.splits)
qed (auto simp: identity_of_def settle_def split: if_splits)

lemma startup_parameters_result:
  "startup_parameters ps us T = Some (r, T') \<Longrightarrow> beside T' = beside T \<and> (\<forall>us'. r = Inr us' \<longrightarrow>
    identity_of T' = (last_value ''user'' ps (cn_User T), last_value ''database'' ps (cn_Database T),
      settle (concat (map parameter_settings ps)) (cn_InitialParameters T)))"
proof (induction ps arbitrary: us T)
  case (Cons p ps)
  show ?case
  proof (cases "Parameter_Key p = ''options''")
    case True
    with Cons.prems obtain q T1 where o: "option_fields (strings_Fields (Parameter_Value p)) T = Some (q, T1)"
      by (auto simp: Let_def bind_eq_Some_conv)
    note o' = option_fields_result [OF o]
    show ?thesis
    proof (cases q)
      case (Inl e)
      with True Cons.prems o o' show ?thesis by (auto simp: Let_def)
    next
      case (Inr u)
      with True Cons.prems o have s: "startup_parameters ps us T1 = Some (r, T')" by (simp add: Let_def)
      from Cons.IH [OF s] True o' Inr show ?thesis
        by (auto simp: last_value_def parameter_settings_def settle_def identity_of_def)
    qed
  qed (use Cons in \<open>auto simp: Let_def last_value_def parameter_settings_def settle_def identity_of_def set_parameter_def split: if_splits\<close>)
qed (simp add: identity_of_def last_value_def settle_def)

text \<open>The fields end with a flag without its setting.\<close>

definition options_end :: "StartupPayloadVersion3PayloadParameter \<Rightarrow> bool" where
  "options_end p \<longleftrightarrow> Parameter_Key p = ''options'' \<and> (let fs = strings_Fields (Parameter_Value p) in
     fs \<noteq> [] \<and> last fs = ''-c'')"

lemma option_fields_returns: "fs = [] \<or> last fs \<noteq> ''-c'' \<Longrightarrow> \<exists>r T'. option_fields fs T = Some (r, T')"
  by (induction fs T rule: option_fields.induct) (auto split: if_splits prod.splits)

lemma startup_parameters_returns: "\<forall>p\<in>set ps. \<not> options_end p \<Longrightarrow> \<exists>r T'. startup_parameters ps us T = Some (r, T')"
proof (induction ps arbitrary: us T)
  case (Cons p ps)
  show ?case
  proof (cases "Parameter_Key p = ''options''")
    case True
    with Cons.prems have "strings_Fields (Parameter_Value p) = [] \<or> last (strings_Fields (Parameter_Value p)) \<noteq> ''-c''"
      by (simp add: options_end_def Let_def)
    from option_fields_returns [OF this, of T] obtain q T1 where "option_fields (strings_Fields (Parameter_Value p)) T = Some (q, T1)"
      by (elim exE) rule
    with True Cons show ?thesis by (cases q) (simp_all add: Let_def)
  qed (use Cons in \<open>simp add: Let_def\<close>)
qed simp

section \<open>The startup loop\<close>

lemma beside_fields:
  assumes "beside T' = beside T"
  shows "cn_inbox T' = cn_inbox T" "cn_outbox T' = cn_outbox T" "bare T' = bare T" "cn_writes T' = cn_writes T"
  using arg_cong [OF assms, of cn_inbox] arg_cong [OF assms, of cn_outbox] arg_cong [OF assms, of cn_Middleware]
    arg_cong [OF assms, of cn_writes] by (simp_all add: beside_def bare_def)

lemma conn_WriteByte_frame: "\<exists>e ws bs. conn_WriteByte b T = (e, T\<lparr>cn_writes := ws, cn_bytes_out := bs\<rparr>) \<and> (cn_writes T = [] \<longrightarrow> ws = [])"
proof (cases "cn_writes T")
  case Nil
  then have "conn_WriteByte b T = (None, T\<lparr>cn_writes := [], cn_bytes_out := cn_bytes_out T @ [b]\<rparr>)"
    by (simp add: conn_WriteByte_def)
  with Nil show ?thesis by blast
next
  case (Cons w ws)
  then have "conn_WriteByte b T = (w, T\<lparr>cn_writes := ws, cn_bytes_out := cn_bytes_out T @ (if w = None then [b] else [])\<rparr>)"
    by (cases w) (simp_all add: conn_WriteByte_def)
  moreover have "cn_writes T = [] \<longrightarrow> ws = []" using Cons by simp
  ultimately show ?thesis by blast
qed

text \<open>A control request that is not a cancellation changes neither packets nor the identity of the client.\<close>

definition idles :: "conn \<Rightarrow> conn \<Rightarrow> bool" where
  "idles T T' \<longleftrightarrow> identity_of T' = identity_of T \<and> cn_inbox T' = cn_inbox T \<and> cn_outbox T' = cn_outbox T \<and>
     (bare T \<longrightarrow> bare T') \<and> (cn_writes T = [] \<longrightarrow> cn_writes T' = [])"

lemma idles_trans: "idles T T' \<Longrightarrow> idles T' T'' \<Longrightarrow> idles T T''"
  by (simp add: idles_def)

lemma idles_WriteByte: "idles T (snd (conn_WriteByte b T))"
proof -
  from conn_WriteByte_frame [of b T] obtain e ws bs where
    "conn_WriteByte b T = (e, T\<lparr>cn_writes := ws, cn_bytes_out := bs\<rparr>)" "cn_writes T = [] \<longrightarrow> ws = []" by (elim exE conjE) rule
  then show ?thesis by (simp add: idles_def identity_of_def)
qed

lemma idles_EnableSSL: "idles T (snd (conn_EnableSSL T))"
proof -
  from conn_EnableSSL_frame [of T] obtain e fs ts b where
    "conn_EnableSSL T = (e, T\<lparr>cn_codec_ssl := b, cn_flushes := fs, cn_tls := ts\<rparr>)" by (elim exE conjE) rule
  then show ?thesis by (simp add: idles_def identity_of_def)
qed

lemma client_control_other:
  assumes "\<And>c. control \<noteq> ControlCancel c"
  shows "\<exists>r T'. client_control tls control result T = Some (r, T') \<and> idles T T' \<and> (\<forall>x. r = Inr x \<longrightarrow> x = (result\<lparr>ar_IsCanceling := False\<rparr>, False))"
proof -
  let ?more = "(result\<lparr>ar_IsCanceling := False\<rparr>, False)"
  have n: "\<exists>r T'. io_result p ?more = Some (r, T') \<and> idles T T' \<and> (\<forall>x. r = Inr x \<longrightarrow> x = ?more)" if "idles T (snd p)" for p
    using that by (auto simp: io_result_def split: option.split)
  note nn = n [OF idles_WriteByte]
  show ?thesis
  proof (cases control)
    case (ControlSSL s)
    obtain e T1 where w: "conn_WriteByte (type_code CHR ''S'') T = (e, T1)" by fastforce
    then have i: "idles T T1" using idles_WriteByte [of T "type_code CHR ''S''"] by simp
    note ne = n [OF idles_trans [OF i idles_EnableSSL]]
    show ?thesis
    proof (cases tls)
      case True
      with ControlSSL w i ne show ?thesis by (cases e) (simp_all add: client_control_def Let_def)
    next
      case False
      with ControlSSL nn show ?thesis by (simp add: client_control_def Let_def)
    qed
  next
    case (ControlGSSAPI s)
    with nn show ?thesis by (simp add: client_control_def Let_def)
  qed (use assms in simp)
qed

text \<open>What the client ends up as, from the packet that ends its startup.\<close>

definition started :: "conn \<Rightarrow> Startup \<Rightarrow> acceptResult \<Rightarrow> conn \<Rightarrow> bool" where
  "started T p result T' \<longleftrightarrow>
     (case Startup_Mode p of
        StartupControl c \<Rightarrow> identity_of T' = identity_of T \<and>
          (\<exists>k. StartupPayloadControl_Mode c = ControlCancel k \<and> ar_IsCanceling result \<and>
             ar_CancelKey result = \<lparr>bk_ProcessID = StartupPayloadControlPayloadCancel_ProcessID k,
               bk_SecretKey = StartupPayloadControlPayloadCancel_SecretKey k\<rparr>)
      | StartupVersion3 v \<Rightarrow>
          (let ps = Version3_Parameters v; user = last_value ''user'' ps (cn_User T); database = last_value ''database'' ps (cn_Database T) in
           \<not> ar_IsCanceling result \<and> user \<noteq> [] \<and>
           identity_of T' = (user, if database = [] then user else database,
             settle (concat (map parameter_settings ps)) (cn_InitialParameters T))))"

lemma started_cong: "identity_of T1 = identity_of T \<Longrightarrow> started T1 p res T' = started T p res T'"
  by (cases "Startup_Mode p") (auto simp: started_def identity_of_def Let_def)

lemma client_version3_result:
  assumes "bare T" "client_version3 v result T = Some (r, T')"
  shows "cn_inbox T' = cn_inbox T \<and> bare T' \<and> (cn_writes T = [] \<longrightarrow> cn_writes T' = []) \<and>
    (\<forall>x. r = Inr x \<longrightarrow> snd x \<and> started T \<lparr>Startup_Mode = StartupVersion3 v\<rparr> (fst x) T')"
proof -
  from assms(2) obtain q T1 where q: "startup_parameters (Version3_Parameters v) [] T = Some (q, T1)"
    by (auto simp: client_version3_def bind_eq_Some_conv)
  note q' = startup_parameters_result [OF q]
  then have b: "cn_inbox T1 = cn_inbox T" "bare T1" "cn_writes T1 = cn_writes T" using assms(1) beside_fields [of T1 T] by simp_all
  show ?thesis
  proof (cases q)
    case (Inl e)
    with assms(2) q b show ?thesis by (auto simp: client_version3_def)
  next
    case (Inr us)
    note sp = q' [THEN conjunct2, rule_format, OF Inr]
    let ?neg = "Version3_MinorVersion v \<noteq> 0 \<or> us \<noteq> []"
    let ?m = "Msg (PNegotiateProtocolVersion \<lparr>NegotiateProtocolVersion_MinorProtocolVersion = 0,
      NegotiateProtocolVersion_UnrecognizedProtocolOptions = us\<rparr>)"
    obtain e ws os where w: "(if ?neg then conn_WritePacket ?m T1 else Some (None, T1)) = Some (e, T1\<lparr>cn_writes := ws, cn_outbox := os\<rparr>)"
      "cn_writes T1 = [] \<longrightarrow> ws = []"
    proof (cases ?neg)
      case True
      from bare_write_frame [OF b(2), of ?m] obtain e ws os where
        "conn_WritePacket ?m T1 = Some (e, T1\<lparr>cn_writes := ws, cn_outbox := os\<rparr>)" "cn_writes T1 = [] \<longrightarrow> ws = []"
        by (elim exE conjE) rule
      with True show thesis by (intro that [where e = e and ws = ws and os = os]) simp_all
    next
      case False
      then show thesis by (intro that [where e = None and ws = "cn_writes T1" and os = "cn_outbox T1"]) simp_all
    qed
    with assms(2) q Inr b sp show ?thesis
      by (cases e) (auto simp: client_version3_def started_def identity_of_def Let_def split: if_splits)
  qed
qed

definition steps_on :: "conn \<Rightarrow> conn \<Rightarrow> bool" where
  "steps_on T T' \<longleftrightarrow> bare T' \<and> (cn_writes T = [] \<longrightarrow> cn_writes T' = []) \<and> (\<exists>pre. cn_inbox T = pre @ cn_inbox T')"

lemma client_startup0_result:
  assumes "bare T" "client_startup0 tls result T = Some (r, T')"
  shows "steps_on T T' \<and> (\<forall>x. r = Inr x \<longrightarrow> length (cn_inbox T') < length (cn_inbox T) \<and>
    (if snd x then \<exists>p. cn_inbox T = Inr (Msg (PStartup p)) # cn_inbox T' \<and> started T p (fst x) T'
     else identity_of T' = identity_of T))"
proof (rule bare_readE [OF assms(1), of False])
  fix e fs xs assume "conn_ReadPacket False T = Some (Inl e, T\<lparr>cn_flushes := fs, cn_inbox := xs\<rparr>)" "\<exists>pre. cn_inbox T = pre @ xs"
  with assms show ?thesis by (auto simp: client_startup0_def steps_on_def)
next
  fix m fs xs assume rd: "conn_ReadPacket False T = Some (Inr m, T\<lparr>cn_flushes := fs, cn_inbox := xs\<rparr>)" "cn_inbox T = Inr m # xs"
  let ?T = "T\<lparr>cn_flushes := fs, cn_inbox := xs\<rparr>"
  have b: "bare ?T" "identity_of ?T = identity_of T" using assms(1) by (simp_all add: identity_of_def)
  show ?thesis
  proof (cases "\<exists>p. m = Msg (PStartup p)")
    case False
    then obtain e where "to_Startup m = Some (Inl e)" by (cases m rule: to_Startup.cases) auto
    with assms rd show ?thesis by (auto simp: client_startup0_def steps_on_def)
  next
    case True
    then obtain p where p: "m = Msg (PStartup p)" by auto
    show ?thesis
    proof (cases "Startup_Mode p")
      case (StartupVersion3 v)
      with assms(2) rd p have "client_version3 v result ?T = Some (r, T')" by (simp add: client_startup0_def)
      from client_version3_result [OF b(1) this] StartupVersion3 rd p show ?thesis
        by (auto simp: steps_on_def started_def Let_def)
    next
      case (StartupControl c)
      with assms(2) rd p have c: "client_control tls (StartupPayloadControl_Mode c) result ?T = Some (r, T')" by (simp add: client_startup0_def)
      show ?thesis
      proof (cases "\<exists>k. StartupPayloadControl_Mode c = ControlCancel k")
        case True
        with c rd p StartupControl b assms(1) show ?thesis
          by (auto simp: client_control_def Let_def steps_on_def started_def identity_of_def)
      next
        case False
        then have "\<And>k. StartupPayloadControl_Mode c \<noteq> ControlCancel k" by simp
        from client_control_other [OF this, of tls result ?T] c have "idles ?T T'" "\<forall>x. r = Inr x \<longrightarrow> \<not> snd x" by auto
        with b rd assms(1) show ?thesis by (auto simp: idles_def steps_on_def)
      qed
    qed
  qed
qed

lemma client_accept0_result:
  assumes "bare T" "client_accept0 tls result T = Some (r, T')"
  shows "steps_on T T' \<and> (\<forall>res. r = Inr res \<longrightarrow>
    (\<exists>pre p. cn_inbox T = pre @ Inr (Msg (PStartup p)) # cn_inbox T' \<and> started T p res T'))"
  using assms
proof (induction "length (cn_inbox T)" arbitrary: T result rule: less_induct)
  case less
  from less.prems(2) obtain q T1 where q: "client_startup0 tls result T = Some (q, T1)"
    by (subst (asm) client_accept0.simps) (auto simp: bind_eq_Some_conv)
  note q' = client_startup0_result [OF less.prems(1) q]
  show ?case
  proof (cases q)
    case (Inl e)
    with less.prems(2) q have "r = Inl e" "T' = T1" by (subst (asm) client_accept0.simps, simp)+
    with q' show ?thesis by simp
  next
    case (Inr x)
    show ?thesis
    proof (cases "snd x")
      case True
      with less.prems(2) q Inr have "r = Inr (fst x)" "T' = T1" by (subst (asm) client_accept0.simps, simp)+
      with q' Inr True show ?thesis by (auto intro!: exI [of _ "[]"])
    next
      case False
      with less.prems(2) q Inr have l: "client_accept0 tls (fst x) T1 = Some (r, T')" by (subst (asm) client_accept0.simps) simp
      have "length (cn_inbox T1) < length (cn_inbox T)" "bare T1" "identity_of T1 = identity_of T" using q' Inr False by (simp_all add: steps_on_def)
      note h = less.hyps [OF this(1,2) l]
      have st: "started T1 p res T' = started T p res T'" for p res
        using \<open>identity_of T1 = identity_of T\<close> by (rule started_cong)
      from q' obtain pre where "cn_inbox T = pre @ cn_inbox T1" by (auto simp: steps_on_def)
      then show ?thesis using h q' st by (auto simp: steps_on_def)
    qed
  qed
qed

text \<open>No startup packet ends its options with a flag.\<close>

definition startups_end_well :: "(fed_error + msg) list \<Rightarrow> bool" where
  "startups_end_well xs \<longleftrightarrow> (\<forall>p v. Inr (Msg (PStartup p)) \<in> set xs \<longrightarrow> Startup_Mode p = StartupVersion3 v \<longrightarrow>
     (\<forall>q\<in>set (Version3_Parameters v). \<not> options_end q))"

lemma client_version3_returns:
  assumes "bare T" "\<forall>q\<in>set (Version3_Parameters v). \<not> options_end q"
  shows "\<exists>r T'. client_version3 v result T = Some (r, T')"
proof -
  from startup_parameters_returns [OF assms(2), of "[]" T] obtain q T1 where q: "startup_parameters (Version3_Parameters v) [] T = Some (q, T1)"
    by (elim exE) rule
  have "bare T1" using startup_parameters_result [OF q] assms(1) beside_fields [of T1 T] by simp
  then have w: "\<exists>e T2. (if c then conn_WritePacket m T1 else Some (None, T1)) = Some (e, T2)" for c m
    using bare_write_frame [of T1 m] by auto
  show ?thesis
  proof (cases q)
    case (Inr us)
    from w obtain e T2 where
      "(if Version3_MinorVersion v \<noteq> 0 \<or> us \<noteq> [] then conn_WritePacket (Msg (PNegotiateProtocolVersion
        \<lparr>NegotiateProtocolVersion_MinorProtocolVersion = 0, NegotiateProtocolVersion_UnrecognizedProtocolOptions = us\<rparr>)) T1
        else Some (None, T1)) = Some (e, T2)" by blast
    with Inr q show ?thesis by (cases e) (simp_all add: client_version3_def)
  qed (use q in \<open>simp add: client_version3_def\<close>)
qed

lemma client_startup0_returns:
  assumes "bare T" "startups_end_well (cn_inbox T)"
  shows "\<exists>r T'. client_startup0 tls result T = Some (r, T')"
proof (rule bare_readE [OF assms(1), of False])
  fix m fs xs assume rd: "conn_ReadPacket False T = Some (Inr m, T\<lparr>cn_flushes := fs, cn_inbox := xs\<rparr>)" "cn_inbox T = Inr m # xs"
  have b: "bare (T\<lparr>cn_flushes := fs, cn_inbox := xs\<rparr>)" using assms(1) by simp
  from assms(2) rd(2) have v: "m = Msg (PStartup p) \<Longrightarrow> Startup_Mode p = StartupVersion3 v \<Longrightarrow> \<forall>q\<in>set (Version3_Parameters v). \<not> options_end q" for p v
    by (simp add: startups_end_well_def)
  have c: "\<exists>r T'. client_control tls k result T = Some (r, T')" for k T
  proof (cases k)
    case (ControlCancel c)
    then show ?thesis by (simp add: client_control_def Let_def)
  qed (use client_control_other [of k tls result T] in blast)+
  from rd v client_version3_returns [OF b] c show ?thesis
    by (cases m rule: to_Startup.cases) (auto simp: client_startup0_def split: StartupPayloadMode.split)
qed (simp add: client_startup0_def)

lemma client_accept0_returns:
  assumes "bare T" "startups_end_well (cn_inbox T)"
  shows "\<exists>r T'. client_accept0 tls result T = Some (r, T')"
  using assms
proof (induction "length (cn_inbox T)" arbitrary: T result rule: less_induct)
  case less
  from client_startup0_returns [OF less.prems, of tls result] obtain q T1 where q: "client_startup0 tls result T = Some (q, T1)" by (elim exE) rule
  note q' = client_startup0_result [OF less.prems(1) q]
  then have w: "startups_end_well (cn_inbox T1)" using less.prems(2) by (auto simp: steps_on_def startups_end_well_def)
  show ?case
  proof (cases q)
    case (Inl e)
    with q show ?thesis by (subst client_accept0.simps) simp
  next
    case (Inr x)
    with q' have "length (cn_inbox T1) < length (cn_inbox T)" "bare T1" by (simp_all add: steps_on_def)
    from less.hyps [OF this w, of "fst x"] q Inr show ?thesis by (subst client_accept0.simps) simp
  qed
qed

section \<open>Accepting a client\<close>

text \<open>
  (C22) The identity of an accepted client is what its last startup packet asks for: the user is its last \<^verbatim>\<open>user\<close>
  parameter and not empty, the database its last \<^verbatim>\<open>database\<close> parameter or else the user, and the initial parameters
  are exactly the other settings of the packet under lower-case names.  A cancellation returns the key that the
  packet carries, and nothing of the connection is set.
\<close>

theorem client_Accept_result:
  assumes "bare T" "client_Accept os tls T = Some (Inr (key, canceling), T')"
  shows "\<exists>pre p. cn_inbox T = pre @ Inr (Msg (PStartup p)) # cn_inbox T' \<and>
    started T p \<lparr>ar_CancelKey = key, ar_IsCanceling = canceling\<rparr> T'"
proof -
  from assms(2) obtain q T1 where q: "client_accept0 tls acceptResult_zero T = Some (q, T1)"
    by (auto simp: client_Accept_def client_accept_def bind_eq_Some_conv)
  with assms(2) obtain res where "q = Inr res" "T1 = T'" and k: "ar_CancelKey res = key" "ar_IsCanceling res = canceling"
    by (cases q) (auto simp: client_Accept_def client_accept_def bind_eq_Some_conv)
  with client_accept0_result [OF assms(1) q] have
    "\<exists>pre p. cn_inbox T = pre @ Inr (Msg (PStartup p)) # cn_inbox T' \<and> started T p res T'" by simp
  moreover have "res = \<lparr>ar_CancelKey = key, ar_IsCanceling = canceling\<rparr>" using k by (cases res) simp
  ultimately show ?thesis by simp
qed

text \<open>
  Accepting a client ends for every finite sequence of packets and errors, unless the options of a startup
  packet end with a flag, and a client that is refused is told why: when no write fails, the last packet it gets is
  the ErrorResponse of the error.
\<close>

theorem client_Accept_returns:
  assumes "bare T" "startups_end_well (cn_inbox T)"
  shows "\<exists>r T'. client_Accept os tls T = Some (r, T') \<and> bare T' \<and>
    (\<forall>err. r = Inl err \<and> cn_writes T = [] \<longrightarrow>
       (\<exists>ms. cn_outbox T' = ms @ [Msg (PMarkiplierResponse (ToPacket (perror_Wrap os err)))]))"
proof -
  from client_accept0_returns [OF assms, of tls acceptResult_zero] obtain q T1 where
    q: "client_accept0 tls acceptResult_zero T = Some (q, T1)" by (elim exE) rule
  have b: "bare T1" "cn_writes T = [] \<longrightarrow> cn_writes T1 = []" using client_accept0_result [OF assms(1) q] by (simp_all add: steps_on_def)
  show ?thesis
  proof (cases q)
    case (Inr res)
    with q b show ?thesis by (simp add: client_Accept_def client_accept_def)
  next
    case (Inl e)
    let ?m = "Msg (PMarkiplierResponse (ToPacket (perror_Wrap os e)))"
    show ?thesis
      by (rule bare_writeE [OF b(1), of ?m]) (use q Inl b in \<open>auto simp: client_Accept_def client_accept_def client_fail_def\<close>)
  qed
qed

text \<open>
  (C39) A startup packet whose options end with the flag \<^verbatim>\<open>-c\<close> panics, before the client is known.
\<close>

theorem options_flag_panics:
  assumes "bare T" "cn_flushes T = []" "cn_inbox T = Inr (Msg (PStartup \<lparr>Startup_Mode = StartupVersion3
    \<lparr>Version3_MinorVersion = n, Version3_Parameters = \<lparr>Parameter_Key = ''options'', Parameter_Value = ''-c''\<rparr> # ps\<rparr>\<rparr>)) # xs"
  shows "client_Accept os tls T = None"
proof -
  have "strings_Fields ''-c'' = [''-c'']" by code_simp
  then have "client_startup0 tls acceptResult_zero T = None"
    using assms by (simp add: client_startup0_def conn_read_simps conn_Flush_def bare_def conn_read_from_def client_version3_def)
  then show ?thesis by (simp add: client_Accept_def client_accept_def client_accept0.simps)
qed

definition sample_startup :: "string \<Rightarrow> conn" where
  "sample_startup options = NewConn [Inr (Msg (PStartup \<lparr>Startup_Mode = StartupVersion3 \<lparr>Version3_MinorVersion = 0,
     Version3_Parameters = [\<lparr>Parameter_Key = ''options'', Parameter_Value = options\<rparr>,
       \<lparr>Parameter_Key = ''user'', Parameter_Value = ''bob''\<rparr>]\<rparr>\<rparr>))]"

lemma sample_startup_bare: "bare (sample_startup x)"
  by (simp add: sample_startup_def bare_def NewConn_def)

theorem client_Accept_result_witness:
  "\<exists>key T' pre p. client_Accept (\<lambda>_. []) False (sample_startup ''-c TimeZone=UTC'') = Some (Inr (key, False), T') \<and>
    started (sample_startup ''-c TimeZone=UTC'') p \<lparr>ar_CancelKey = key, ar_IsCanceling = False\<rparr> T' \<and>
    identity_of T' = (''bob'', ''bob'', [(''timezone'', ''UTC'')])"
proof -
  let ?r = "client_Accept (\<lambda>_. []) False (sample_startup ''-c TimeZone=UTC'')"
  have "map_option (\<lambda>(r, T). (map_sum (\<lambda>e. e) snd r, identity_of T)) ?r =
    Some (Inr False, ''bob'', ''bob'', [(''timezone'', ''UTC'')])" by code_simp
  then obtain q T' where q: "?r = Some (q, T')" "map_sum (\<lambda>e. e) snd q = Inr False"
    "identity_of T' = (''bob'', ''bob'', [(''timezone'', ''UTC'')])" by auto
  then obtain key where a: "?r = Some (Inr (key, False), T')" by (cases q) auto
  with client_Accept_result [OF sample_startup_bare a] q(3) show ?thesis by blast
qed

theorem client_Accept_returns_witness:
  "\<exists>r T'. client_Accept (\<lambda>_. []) False (sample_startup ''-d'') = Some (r, T') \<and> bare T'"
proof -
  have "strings_Fields ''-d'' = [''-d'']" by code_simp
  then have "startups_end_well (cn_inbox (sample_startup ''-d''))"
    by (simp add: startups_end_well_def sample_startup_def NewConn_def options_end_def)
  from client_Accept_returns [OF sample_startup_bare this] show ?thesis by blast
qed

theorem options_flag_panics_witness: "client_Accept (\<lambda>_. []) False (sample_startup ''-c'') = None"
  by (rule options_flag_panics [OF sample_startup_bare]) (simp_all add: sample_startup_def NewConn_def)

section \<open>Verification of a client\<close>

text \<open>A conversation that the verifier ends with the last message.\<close>

primrec converses :: "'v sasl_write \<Rightarrow> 'v \<Rightarrow> byte list option list \<Rightarrow> bool" where
  "converses conv tool [] = False"
| "converses conv tool (p # ps) =
     (case verifier_Write conv tool p of
        Inl _ \<Rightarrow> False
      | Inr (_, fin, tool) \<Rightarrow> if fin then ps = [] else converses conv tool ps)"

text \<open>
  What a client has to send to prove who it is.  With SASL: the choice of a mechanism with the first message of a
  conversation, and its other messages; with MD5: the answer to the salt.
\<close>

definition sasl_proof :: "'v sasl_write \<Rightarrow> (string \<Rightarrow> fed_error + 'v) \<Rightarrow> (fed_error + msg) list \<Rightarrow> bool" where
  "sasl_proof conv VerifySASL inbox \<longleftrightarrow> (\<exists>m ms rest p tool. inbox = Inr m # map Inr ms @ rest \<and>
     to_SASLInitialResponse m = Some (Inr p) \<and> VerifySASL (SASLInitialResponse_Mechanism p) = Inr tool \<and>
     (\<exists>ps. map to_SASLResponse ms = map (\<lambda>p. Some (Inr p)) ps \<and>
        converses conv tool (SASLInitialResponse_InitialClientResponse p # map Some ps)))"

definition md5_proof :: "randoms \<Rightarrow> (byte list \<Rightarrow> string \<Rightarrow> fed_error option) \<Rightarrow> (fed_error + msg) list \<Rightarrow> bool" where
  "md5_proof rnd VerifyMD5 inbox \<longleftrightarrow> (\<exists>salt m rest pw. rnd_salt rnd = Inr salt \<and> inbox = Inr m # rest \<and>
     to_PasswordMessage m = Some (Inr pw) \<and> VerifyMD5 salt pw = None)"

definition proves :: "randoms \<Rightarrow> 'v server_creds option \<Rightarrow> (fed_error + msg) list \<Rightarrow> bool" where
  "proves rnd creds inbox \<longleftrightarrow>
     (case creds of
        None \<Rightarrow> True
      | Some creds \<Rightarrow>
          (case sc_SASL creds of
             Some (_, VerifySASL) \<Rightarrow> sasl_proof (sc_Write creds) VerifySASL inbox
           | None \<Rightarrow> (case sc_MD5 creds of Some VerifyMD5 \<Rightarrow> md5_proof rnd VerifyMD5 inbox | None \<Rightarrow> False)))"

abbreviation ok_msg :: msg where
  "ok_msg \<equiv> auth_msg (AuthOk AuthenticationPayloadOk)"

text \<open>An exchange of packets in which AuthenticationOk is not sent.\<close>

definition chat :: "conn \<Rightarrow> conn \<Rightarrow> bool" where
  "chat T T' \<longleftrightarrow> bare T' \<and> cn_Authenticated T' = cn_Authenticated T \<and> (\<exists>pre. cn_inbox T = pre @ cn_inbox T') \<and>
     (\<exists>post. cn_outbox T' = cn_outbox T @ post \<and> ok_msg \<notin> set post)"

lemma chat_refl: "bare T \<Longrightarrow> chat T T"
  by (simp add: chat_def)

lemma chat_trans: "chat T T' \<Longrightarrow> chat T' T'' \<Longrightarrow> chat T T''"
  unfolding chat_def by (elim conjE exE) auto

lemma chat_readE:
  assumes "bare T"
  obtains (pkt) m T' where "conn_ReadPacket typed T = Some (Inr m, T')" "chat T T'" "cn_inbox T = Inr m # cn_inbox T'"
    | (err) e T' where "conn_ReadPacket typed T = Some (Inl e, T')" "chat T T'"
proof (rule bare_readE [OF assms, of typed])
  fix m fs xs assume "conn_ReadPacket typed T = Some (Inr m, T\<lparr>cn_flushes := fs, cn_inbox := xs\<rparr>)" "cn_inbox T = Inr m # xs"
  with assms show thesis by (intro pkt) (auto simp: chat_def)
next
  fix e fs xs assume "conn_ReadPacket typed T = Some (Inl e, T\<lparr>cn_flushes := fs, cn_inbox := xs\<rparr>)" "\<exists>pre. cn_inbox T = pre @ xs"
  with assms show thesis by (intro err) (auto simp: chat_def)
qed

lemma chat_write:
  assumes "bare T" "m \<noteq> ok_msg"
  shows "\<exists>e T'. conn_WritePacket m T = Some (e, T') \<and> chat T T' \<and> cn_inbox T' = cn_inbox T"
  by (rule bare_writeE [OF assms(1), of m]) (use assms in \<open>simp_all add: chat_def\<close>)

lemma authenticationSASLContinue_ok:
  assumes "bare T"
  shows "\<exists>r T'. authenticationSASLContinue conv tool T = Some (r, T') \<and> chat T T' \<and>
    (\<forall>s. r = Inr s \<longrightarrow> (\<exists>m p. cn_inbox T = Inr m # cn_inbox T' \<and> to_SASLResponse m = Some (Inr p) \<and>
       verifier_Write conv tool (Some p) = Inr s))"
  using assms
proof (rule chat_readE [of _ True])
  fix m T' assume rd: "conn_ReadPacket True T = Some (Inr m, T')" "chat T T'" "cn_inbox T = Inr m # cn_inbox T'"
  from SASLResponse_read_total [of m] obtain q where "to_SASLResponse m = Some q" by (elim exE)
  with rd show ?thesis by (cases q) (simp_all add: authenticationSASLContinue_def)
qed (simp add: authenticationSASLContinue_def)

lemma client_sasl_loop_ok:
  assumes "bare T"
  shows "\<exists>r T'. client_sasl_loop conv (resp, fin, tool) T = Some (r, T') \<and> chat T T' \<and>
    (r = Inr () \<longrightarrow> (\<exists>ms ps. cn_inbox T = map Inr ms @ cn_inbox T' \<and>
       map to_SASLResponse ms = map (\<lambda>p. Some (Inr p)) ps \<and> (if fin then ps = [] else converses conv tool (map Some ps))))"
  using assms
proof (induction "length (cn_inbox T)" arbitrary: T resp fin tool rule: less_induct)
  case less
  let ?m = "auth_msg (if fin then AuthSASLFinal resp else AuthSASLContinue resp)"
  have "?m \<noteq> ok_msg" by simp
  from chat_write [OF less.prems this] obtain e T1 where
    w: "conn_WritePacket ?m T = Some (e, T1)" "chat T T1" "cn_inbox T1 = cn_inbox T" by (elim exE conjE) rule
  show ?case
  proof (cases "fin \<or> e \<noteq> None")
    case True
    with w show ?thesis by (subst client_sasl_loop.simps) (cases e; auto)
  next
    case False
    have "bare T1" using w by (simp add: chat_def)
    from authenticationSASLContinue_ok [OF this, of conv tool] obtain q T2 where
      q: "authenticationSASLContinue conv tool T1 = Some (q, T2)" "chat T1 T2"
      "\<forall>s. q = Inr s \<longrightarrow> (\<exists>m p. cn_inbox T1 = Inr m # cn_inbox T2 \<and> to_SASLResponse m = Some (Inr p) \<and>
         verifier_Write conv tool (Some p) = Inr s)" by (elim exE conjE) rule
    note c = chat_trans [OF w(2) q(2)]
    show ?thesis
    proof (cases q)
      case (Inl e')
      with w q c False show ?thesis by (subst client_sasl_loop.simps) simp
    next
      case (Inr s)
      obtain resp' fin' tool' where s: "s = (resp', fin', tool')" by (cases s)
      from q(3) Inr obtain m p where m: "cn_inbox T1 = Inr m # cn_inbox T2" "to_SASLResponse m = Some (Inr p)"
        "verifier_Write conv tool (Some p) = Inr s" by auto
      have step: "client_sasl_loop conv (resp, fin, tool) T = client_sasl_loop conv (resp', fin', tool') T2"
        using w q(1) Inr s False by (subst client_sasl_loop.simps) simp
      have "length (cn_inbox T2) < length (cn_inbox T)" unfolding w(3) [symmetric] m(1) by simp
      moreover have "bare T2" using c by (simp add: chat_def)
      ultimately obtain r T' where
        r: "client_sasl_loop conv (resp', fin', tool') T2 = Some (r, T')" "chat T2 T'"
        "r = Inr () \<longrightarrow> (\<exists>ms ps. cn_inbox T2 = map Inr ms @ cn_inbox T' \<and>
           map to_SASLResponse ms = map (\<lambda>p. Some (Inr p)) ps \<and> (if fin' then ps = [] else converses conv tool' (map Some ps)))"
        using less.hyps [of T2 resp' fin' tool'] by blast
      have "\<exists>ms ps. cn_inbox T = map Inr ms @ cn_inbox T' \<and> map to_SASLResponse ms = map (\<lambda>p. Some (Inr p)) ps \<and>
        converses conv tool (map Some ps)" if "r = Inr ()"
      proof -
        from r(3) that obtain ms ps where "cn_inbox T2 = map Inr ms @ cn_inbox T'"
          "map to_SASLResponse ms = map (\<lambda>p. Some (Inr p)) ps" "if fin' then ps = [] else converses conv tool' (map Some ps)" by blast
        then show ?thesis using w(3) m s by (intro exI [of _ "m # ms"] exI [of _ "p # ps"]) simp
      qed
      with step r(1) chat_trans [OF c r(2)] False show ?thesis by simp
    qed
  qed
qed

lemma authenticationSASLInitial_ok:
  assumes "bare T" "authenticationSASLInitial conv VerifySASL T = Some (r, T')"
  shows "chat T T' \<and> (\<forall>s. r = Inr s \<longrightarrow> (\<exists>m p tool. cn_inbox T = Inr m # cn_inbox T' \<and>
    to_SASLInitialResponse m = Some (Inr p) \<and> VerifySASL (SASLInitialResponse_Mechanism p) = Inr tool \<and>
    verifier_Write conv tool (SASLInitialResponse_InitialClientResponse p) = Inr s))"
  using assms(1)
proof (rule chat_readE [of _ True])
  fix e T1 assume "conn_ReadPacket True T = Some (Inl e, T1)" "chat T T1"
  with assms(2) show ?thesis by (auto simp: authenticationSASLInitial_def)
next
  fix m T1 assume rd: "conn_ReadPacket True T = Some (Inr m, T1)" "chat T T1" "cn_inbox T = Inr m # cn_inbox T1"
  with assms(2) obtain q where q: "to_SASLInitialResponse m = Some q" by (auto simp: authenticationSASLInitial_def bind_eq_Some_conv)
  show ?thesis
  proof (cases q)
    case (Inr p)
    with rd q assms(2) show ?thesis
      by (cases "VerifySASL (SASLInitialResponse_Mechanism p)") (auto simp: authenticationSASLInitial_def)
  qed (use rd q assms(2) in \<open>auto simp: authenticationSASLInitial_def\<close>)
qed

lemma client_authenticationSASL_ok:
  assumes "bare T" "client_authenticationSASL conv mechanisms VerifySASL T = Some (r, T')"
  shows "chat T T' \<and> (r = Inr () \<longrightarrow> sasl_proof conv VerifySASL (cn_inbox T))"
proof -
  let ?m = "auth_msg (AuthSASL (map (\<lambda>m. \<lparr>SASLMethod_Method = m\<rparr>) mechanisms))"
  have "?m \<noteq> ok_msg" by simp
  from chat_write [OF assms(1) this] obtain e T1 where
    w: "conn_WritePacket ?m T = Some (e, T1)" "chat T T1" "cn_inbox T1 = cn_inbox T" by (elim exE conjE) rule
  show ?thesis
  proof (cases e)
    case (Some x)
    with w assms(2) show ?thesis by (auto simp: client_authenticationSASL_def)
  next
    case None
    with w assms(2) obtain q T2 where q: "authenticationSASLInitial conv VerifySASL T1 = Some (q, T2)"
      by (auto simp: client_authenticationSASL_def bind_eq_Some_conv)
    have "bare T1" using w by (simp add: chat_def)
    note i = authenticationSASLInitial_ok [OF this q]
    note c = chat_trans [OF w(2) i [THEN conjunct1]]
    show ?thesis
    proof (cases q)
      case (Inl e)
      with None w q c assms(2) show ?thesis by (auto simp: client_authenticationSASL_def)
    next
      case (Inr s)
      obtain resp fin tool' where s: "s = (resp, fin, tool')" by (cases s)
      from i Inr s obtain m p tool where p: "cn_inbox T1 = Inr m # cn_inbox T2" "to_SASLInitialResponse m = Some (Inr p)"
        "VerifySASL (SASLInitialResponse_Mechanism p) = Inr tool"
        "verifier_Write conv tool (SASLInitialResponse_InitialClientResponse p) = Inr (resp, fin, tool')" by auto
      from None w q Inr s assms(2) have l: "client_sasl_loop conv (resp, fin, tool') T2 = Some (r, T')"
        by (simp add: client_authenticationSASL_def)
      have "bare T2" using c by (simp add: chat_def)
      from client_sasl_loop_ok [OF this, of conv resp fin tool'] l have "chat T2 T'" and
        x: "r = Inr () \<longrightarrow> (\<exists>ms ps. cn_inbox T2 = map Inr ms @ cn_inbox T' \<and>
         map to_SASLResponse ms = map (\<lambda>p. Some (Inr p)) ps \<and> (if fin then ps = [] else converses conv tool' (map Some ps)))" by auto
      moreover have "sasl_proof conv VerifySASL (cn_inbox T)" if "r = Inr ()"
      proof -
        from x that obtain ms ps where "cn_inbox T2 = map Inr ms @ cn_inbox T'"
          "map to_SASLResponse ms = map (\<lambda>p. Some (Inr p)) ps" "if fin then ps = [] else converses conv tool' (map Some ps)" by blast
        with p w(3) show ?thesis unfolding sasl_proof_def
          by (intro exI [of _ m] exI [of _ ms] exI [of _ "cn_inbox T'"] exI [of _ p] exI [of _ tool] conjI exI [of _ ps]) simp_all
      qed
      ultimately show ?thesis using chat_trans [OF c] by simp
    qed
  qed
qed

lemma client_authenticationMD5_ok:
  assumes "bare T"
  shows "\<exists>r T'. client_authenticationMD5 rnd VerifyMD5 T = Some (r, T') \<and> chat T T' \<and>
    (r = Inr () \<longrightarrow> md5_proof rnd VerifyMD5 (cn_inbox T))"
proof (cases "rnd_salt rnd")
  case (Inl e)
  with assms chat_refl show ?thesis by (simp add: client_authenticationMD5_def)
next
  case (Inr salt)
  have "auth_msg (AuthMD5Password salt) \<noteq> ok_msg" by simp
  from chat_write [OF assms this] obtain e T1 where
    w: "conn_WritePacket (auth_msg (AuthMD5Password salt)) T = Some (e, T1)" "chat T T1" "cn_inbox T1 = cn_inbox T" by (elim exE conjE) rule
  show ?thesis
  proof (cases e)
    case (Some x)
    with w Inr show ?thesis by (simp add: client_authenticationMD5_def)
  next
    case None
    have "bare T1" using w by (simp add: chat_def)
    then show ?thesis
    proof (rule chat_readE [of _ True])
      fix e T2 assume "conn_ReadPacket True T1 = Some (Inl e, T2)" "chat T1 T2"
      with None w Inr chat_trans [OF w(2) this(2)] show ?thesis by (simp add: client_authenticationMD5_def)
    next
      fix m T2 assume rd: "conn_ReadPacket True T1 = Some (Inr m, T2)" "chat T1 T2" "cn_inbox T1 = Inr m # cn_inbox T2"
      from PasswordMessage_read_total [of m] obtain q where "to_PasswordMessage m = Some q" by (elim exE)
      moreover have "cn_inbox T = Inr m # cn_inbox T2" using w(3) rd(3) by simp
      then have "md5_proof rnd VerifyMD5 (cn_inbox T)" if "to_PasswordMessage m = Some (Inr pw)" "VerifyMD5 salt pw = None" for pw
        using that Inr unfolding md5_proof_def by blast
      ultimately show ?thesis using None w(1) Inr rd(1) chat_trans [OF w(2) rd(2)]
        by (cases q) (auto simp: client_authenticationMD5_def split: option.split)
    qed
  qed
qed

lemma client_verify_ok:
  assumes "bare T" "client_verify rnd creds T = Some (r, T')"
  shows "chat T T' \<and> (r = Inr () \<longrightarrow> proves rnd creds (cn_inbox T))"
proof (cases creds)
  case None
  with assms chat_refl show ?thesis by (auto simp: client_verify_def proves_def)
next
  case (Some c)
  show ?thesis
  proof (cases "sc_SASL c")
    case s: (Some x)
    with Some assms client_authenticationSASL_ok [OF assms(1), of "sc_Write c" "fst x" "snd x" r T'] show ?thesis
      by (cases x) (simp add: client_verify_def proves_def)
  next
    case None
    show ?thesis
    proof (cases "sc_MD5 c")
      case m: (Some VerifyMD5)
      with Some None assms(2) client_authenticationMD5_ok [OF assms(1), of rnd VerifyMD5] show ?thesis
        by (auto simp: client_verify_def proves_def)
    qed (use Some None assms chat_refl in \<open>auto simp: client_verify_def\<close>)
  qed
qed

text \<open>
  (C6) Nobody gets in without proof: a client is marked as authenticated, or sent AuthenticationOk, only when there
  are no credentials to check, or when the packets it sent next prove them: a password message that verifies against
  the salt that was sent, or a SASL conversation that the verifier completed with the last message.
\<close>

theorem client_Authenticate_proof:
  assumes "bare T" "\<not> cn_Authenticated T" "client_Authenticate rnd creds T = Some (r, T')"
    "cn_Authenticated T' \<or> ok_msg \<in> set (drop (length (cn_outbox T)) (cn_outbox T'))"
  shows "proves rnd creds (cn_inbox T)"
proof -
  from assms(2,3) obtain q T1 where q: "client_verify rnd creds T = Some (q, T1)"
    by (auto simp: client_Authenticate_def client_authenticate_def bind_eq_Some_conv)
  note v = client_verify_ok [OF assms(1) q]
  show ?thesis
  proof (cases q)
    case (Inl e)
    with q assms(2,3) have "T' = T1" by (simp add: client_Authenticate_def client_authenticate_def)
    with v assms(2,4) show ?thesis by (auto simp: chat_def)
  qed (use v in simp)
qed

definition sample_md5 :: "nat server_creds" where
  "sample_md5 = \<lparr>sc_SASL = None, sc_MD5 = Some (\<lambda>salt pw. if pw = ''ok'' then None else Some ErrFailed), sc_Write = (\<lambda>v _. (([], None), v))\<rparr>"

definition sample_randoms :: randoms where
  "sample_randoms = \<lparr>rnd_salt = Inr [1, 2, 3, 4], rnd_process = Inr [0, 0, 0, 1], rnd_key = Inr [0, 0, 0, 2]\<rparr>"

definition sample_client :: conn where
  "sample_client = NewConn [Inr (Msg (PSASLResponse (wire_str ''ok'')))]"

theorem client_Authenticate_proof_witness: "proves sample_randoms (Some sample_md5) (cn_inbox sample_client)"
proof -
  have "to_PasswordMessage (Msg (PSASLResponse (wire_str ''ok''))) = Some (Inr ''ok'')"
    by (rule to_PasswordMessage_wire) (simp add: no_nul_def)
  then obtain T' where a: "client_Authenticate sample_randoms (Some sample_md5) sample_client = Some (Inr (), T')" "cn_Authenticated T'"
    by (auto simp: client_Authenticate_def client_authenticate_def client_verify_def client_authenticationMD5_def sample_client_def NewConn_def
        sample_randoms_def sample_md5_def bare_WritePacket bare_def conn_writePacket_def conn_read_simps conn_Flush_def conn_read_from_def login_write_def)
  have "bare sample_client" "\<not> cn_Authenticated sample_client" by (simp_all add: sample_client_def NewConn_def bare_def)
  from client_Authenticate_proof [OF this a(1)] a(2) show ?thesis by simp
qed

end
