(* ===== verification/Credentials.thy ===== *)
theory Credentials
  imports Client_Login
begin

text \<open>
  The credentials of \<^verbatim>\<open>lib/auth/credentials\<close>: passwords, MD5 secrets and SCRAM secrets, how a secret of the
  configuration is read (\<^verbatim>\<open>FromString\<close>), and which interfaces of \<^verbatim>\<open>lib/auth\<close> each implements.  MD5, and the SCRAM
  library with its hash functions, are parameters; hex, base64 and decimal numbers are those of the Go standard
  library.  A nil key of a SCRAM secret is \<^term>\<open>None\<close>.
\<close>

section \<open>Texts\<close>

definition hex_digit :: "nat \<Rightarrow> char" where
  "hex_digit n = ''0123456789abcdef'' ! n"

definition hex_Encode :: "byte list \<Rightarrow> string" where
  "hex_Encode bs = concat (map (\<lambda>b. [hex_digit (unat b div 16), hex_digit (unat b mod 16)]) bs)"

definition hex_value :: "char \<Rightarrow> nat option" where
  "hex_value c =
     (let n = (of_char c :: nat) in
      if 48 \<le> n \<and> n \<le> 57 then Some (n - 48)
      else if 97 \<le> n \<and> n \<le> 102 then Some (n - 87)
      else if 65 \<le> n \<and> n \<le> 70 then Some (n - 55)
      else None)"

fun hex_DecodeString :: "string \<Rightarrow> byte list option" where
  "hex_DecodeString [] = Some []"
| "hex_DecodeString [c] = None"
| "hex_DecodeString (c # d # cs) = do {
     h \<leftarrow> hex_value c;
     l \<leftarrow> hex_value d;
     bs \<leftarrow> hex_DecodeString cs;
     Some (word_of_nat (16 * h + l) # bs)
   }"

definition b64_value :: "char \<Rightarrow> nat option" where
  "b64_value c =
     (let n = (of_char c :: nat) in
      if 65 \<le> n \<and> n \<le> 90 then Some (n - 65)
      else if 97 \<le> n \<and> n \<le> 122 then Some (n - 71)
      else if 48 \<le> n \<and> n \<le> 57 then Some (n + 4)
      else if n = 43 then Some 62
      else if n = 47 then Some 63
      else None)"

text \<open>The quanta of \<^verbatim>\<open>base64.StdEncoding\<close>; the padding ends the text, its spare bits are not looked at.\<close>

fun b64_quanta :: "string \<Rightarrow> byte list option" where
  "b64_quanta [] = Some []"
| "b64_quanta (a # b # c # d # cs) = do {
     a \<leftarrow> b64_value a;
     b \<leftarrow> b64_value b;
     if c = CHR ''='' then (if d = CHR ''='' \<and> cs = [] then Some [word_of_nat (4 * a + b div 16)] else None)
     else do {
       c \<leftarrow> b64_value c;
       if d = CHR ''='' then
         (if cs = [] then Some [word_of_nat (4 * a + b div 16), word_of_nat (16 * (b mod 16) + c div 4)] else None)
       else do {
         d \<leftarrow> b64_value d;
         bs \<leftarrow> b64_quanta cs;
         Some (word_of_nat (4 * a + b div 16) # word_of_nat (16 * (b mod 16) + c div 4) # word_of_nat (64 * (c mod 4) + d) # bs)
       }
     }
   }"
| "b64_quanta _ = None"

definition base64_DecodeString :: "string \<Rightarrow> byte list option" where
  "base64_DecodeString s = b64_quanta (filter (\<lambda>c. c \<noteq> CHR 0x0A \<and> c \<noteq> CHR 0x0D) s)"

fun decimal :: "string \<Rightarrow> int \<Rightarrow> int option" where
  "decimal [] n = Some n"
| "decimal (c # cs) n = (let d = (of_char c :: nat) in if 48 \<le> d \<and> d \<le> 57 then decimal cs (10 * n + int d - 48) else None)"

text \<open>\<^verbatim>\<open>strconv.Atoi\<close> on 64 bits.\<close>

definition Atoi :: "string \<Rightarrow> int option" where
  "Atoi s =
     (let neg = (take 1 s = ''-''); digits = (if take 1 s \<in> {''-'', ''+''} then drop 1 s else s) in
      if digits = [] then None
      else do {
        n \<leftarrow> decimal digits 0;
        let v = (if neg then - n else n);
        if - (2 ^ 63) \<le> v \<and> v < 2 ^ 63 then Some v else None
      })"

section \<open>The SCRAM library\<close>

record ServerKeys =
  sk_ServerKey :: "byte list"
  sk_StoredKey :: "byte list"
  sk_Salt :: "byte list"
  sk_Iters :: int

record ClientKeys =
  ck_ClientKey :: "byte list"
  ck_ServerKey :: "byte list"
  ck_Salt :: "byte list"
  ck_Iters :: int

record 'c scram =
  sl_SaltedPassword :: "byte list \<Rightarrow> byte list \<Rightarrow> int \<Rightarrow> byte list"
  sl_ServerKey :: "byte list \<Rightarrow> byte list"
  sl_ClientKey :: "byte list \<Rightarrow> byte list"
  sl_StoredKey :: "byte list \<Rightarrow> byte list"
  sl_ClientPassword :: "string \<Rightarrow> 'c"
  sl_ClientKeys :: "ClientKeys \<Rightarrow> 'c"
  sl_ServerConversation :: "ServerKeys option \<Rightarrow> 'c"
  sl_Write :: "'c sasl_write"
  sl_RecoveredClientKey :: "'c \<Rightarrow> byte list option"

section \<open>Secrets\<close>

record Cleartext =
  cl_Username :: string
  cl_Password :: string

record MD5 =
  md_Hash :: "byte list"

record Scram =
  sc_Keys :: ServerKeys
  sc_clientKey :: "byte list option"

datatype credentials = CCleartext Cleartext | CMD5 MD5 | CScram Scram

definition ScramSHA256 :: string where "ScramSHA256 = ''SCRAM-SHA-256''"

subsection \<open>MD5\<close>

type_synonym hash = "byte list \<Rightarrow> byte list"

definition MD5FromString :: "string \<Rightarrow> MD5 option" where
  "MD5FromString v =
     (if take 3 v \<noteq> ''md5'' then None
      else map_option (\<lambda>h. \<lparr>md_Hash = h\<rparr>) (hex_DecodeString (drop 3 v)))"

definition MD5_EncodeMD5 :: "hash \<Rightarrow> MD5 \<Rightarrow> byte list \<Rightarrow> string" where
  "MD5_EncodeMD5 md5 T salt = ''md5'' @ hex_Encode (md5 (bytes_of (hex_Encode (md_Hash T)) @ salt))"

definition MD5_VerifyMD5 :: "hash \<Rightarrow> MD5 \<Rightarrow> byte list \<Rightarrow> string \<Rightarrow> fed_error option" where
  "MD5_VerifyMD5 md5 T salt v = (if MD5_EncodeMD5 md5 T salt \<noteq> v then Some ErrFailed else None)"

subsection \<open>Passwords\<close>

definition Cleartext_EncodeCleartext :: "Cleartext \<Rightarrow> string" where
  "Cleartext_EncodeCleartext T = cl_Password T"

definition Cleartext_VerifyCleartext :: "Cleartext \<Rightarrow> string \<Rightarrow> fed_error option" where
  "Cleartext_VerifyCleartext T v = (if cl_Password T \<noteq> v then Some ErrFailed else None)"

definition Cleartext_EncodeMD5 :: "hash \<Rightarrow> Cleartext \<Rightarrow> byte list \<Rightarrow> string" where
  "Cleartext_EncodeMD5 md5 T salt =
     (let sum1 = md5 (bytes_of (cl_Password T) @ bytes_of (cl_Username T)); hexEncoded = hex_Encode sum1;
          sum2 = md5 (bytes_of hexEncoded @ salt) in
      ''md5'' @ hex_Encode sum2)"

definition Cleartext_VerifyMD5 :: "hash \<Rightarrow> Cleartext \<Rightarrow> byte list \<Rightarrow> string \<Rightarrow> fed_error option" where
  "Cleartext_VerifyMD5 md5 T salt v = (if Cleartext_EncodeMD5 md5 T salt \<noteq> v then Some ErrFailed else None)"

definition Cleartext_EncodeSASL :: "'c scram \<Rightarrow> Cleartext \<Rightarrow> string list \<Rightarrow> fed_error + string \<times> 'c" where
  "Cleartext_EncodeSASL lib T mechanisms =
     (if ScramSHA256 \<in> set mechanisms then Inr (ScramSHA256, sl_ClientPassword lib (cl_Password T))
      else Inl ErrSASLMechanismNotSupported)"

text \<open>The lookup of the server conversation, with the salt that \<^verbatim>\<open>rand.Read\<close> returns.\<close>

definition Cleartext_Lookup :: "'c scram \<Rightarrow> Cleartext \<Rightarrow> fed_error + byte list \<Rightarrow> ServerKeys option" where
  "Cleartext_Lookup lib T r =
     (case r of
        Inl err \<Rightarrow> None
      | Inr salt \<Rightarrow>
          (let saltedPassword = sl_SaltedPassword lib (bytes_of (cl_Password T)) salt 4096 in
           Some \<lparr>sk_ServerKey = sl_ServerKey lib saltedPassword,
             sk_StoredKey = sl_StoredKey lib (sl_ClientKey lib saltedPassword), sk_Salt = salt, sk_Iters = 4096\<rparr>))"

definition Cleartext_VerifySASL :: "'c scram \<Rightarrow> Cleartext \<Rightarrow> fed_error + byte list \<Rightarrow> string \<Rightarrow> fed_error + 'c" where
  "Cleartext_VerifySASL lib T r mechanism =
     (if mechanism = ScramSHA256 then Inr (sl_ServerConversation lib (Cleartext_Lookup lib T r))
      else Inl ErrSASLMechanismNotSupported)"

subsection \<open>SCRAM\<close>

definition ScramFromString :: "string \<Rightarrow> Scram option" where
  "ScramFromString password =
     (case strings_Cut password ''$'' of (alg, iterKeys, ok) \<Rightarrow>
      if \<not> ok \<or> alg \<noteq> ScramSHA256 then None
      else case strings_Cut iterKeys ''$'' of (iterSalt, keys, ok) \<Rightarrow>
      if \<not> ok then None
      else case strings_Cut iterSalt '':'' of (iter, salt, ok) \<Rightarrow>
      if \<not> ok then None
      else case strings_Cut keys '':'' of (storedKey, serverKey, ok) \<Rightarrow>
      if \<not> ok then None
      else do {
        iters \<leftarrow> Atoi iter;
        salt \<leftarrow> base64_DecodeString salt;
        stored \<leftarrow> base64_DecodeString storedKey;
        server \<leftarrow> base64_DecodeString serverKey;
        Some \<lparr>sc_Keys = \<lparr>sk_ServerKey = server, sk_StoredKey = stored, sk_Salt = salt, sk_Iters = iters\<rparr>, sc_clientKey = None\<rparr>
      })"

definition Scram_EncodeSASL :: "'c scram \<Rightarrow> Scram \<Rightarrow> string list \<Rightarrow> fed_error + string \<times> 'c" where
  "Scram_EncodeSASL lib T mechanisms =
     (case sc_clientKey T of
        None \<Rightarrow> Inl (ErrNew ''you must log in with SASL first'')
      | Some clientKey \<Rightarrow>
          if ScramSHA256 \<in> set mechanisms
          then Inr (ScramSHA256, sl_ClientKeys lib \<lparr>ck_ClientKey = clientKey, ck_ServerKey = sk_ServerKey (sc_Keys T),
            ck_Salt = sk_Salt (sc_Keys T), ck_Iters = sk_Iters (sc_Keys T)\<rparr>)
          else Inl ErrSASLMechanismNotSupported)"

text \<open>The verifier of a SCRAM secret keeps the client's key when the conversation ends well.\<close>

definition Interceptor_Write :: "'c scram \<Rightarrow> (Scram \<times> 'c) sasl_write" where
  "Interceptor_Write lib v bytes =
     (case v of (T, conversation) \<Rightarrow>
      case sl_Write lib conversation bytes of ((resp, err), conversation) \<Rightarrow>
        ((resp, err), (if err = Some (EFed EOF) then T\<lparr>sc_clientKey := sl_RecoveredClientKey lib conversation\<rparr> else T, conversation)))"

definition Scram_VerifySASL :: "'c scram \<Rightarrow> Scram \<Rightarrow> string \<Rightarrow> fed_error + Scram \<times> 'c" where
  "Scram_VerifySASL lib T mechanism =
     (if mechanism = ScramSHA256 then Inr (T, sl_ServerConversation lib (Some (sc_Keys T)))
      else Inl ErrSASLMechanismNotSupported)"

subsection \<open>Reading a secret\<close>

definition FromString :: "string \<Rightarrow> string \<Rightarrow> credentials option" where
  "FromString user password =
     (if password = [] then None
      else case ScramFromString password of
        Some v \<Rightarrow> Some (CScram v)
      | None \<Rightarrow>
          (case MD5FromString password of
             Some v \<Rightarrow> Some (CMD5 v)
           | None \<Rightarrow> Some (CCleartext \<lparr>cl_Username = user, cl_Password = password\<rparr>)))"

text \<open>The interfaces: as credentials of the server that logs in a client, and of a client of a server.\<close>

primrec as_server :: "hash \<Rightarrow> 'c scram \<Rightarrow> fed_error + byte list \<Rightarrow> credentials \<Rightarrow> (Scram option \<times> 'c) server_creds" where
  "as_server md5 lib r (CCleartext T) =
     \<lparr>sc_SASL = Some ([ScramSHA256], \<lambda>m. map_sum (\<lambda>e. e) (\<lambda>c. (None, c)) (Cleartext_VerifySASL lib T r m)),
      sc_MD5 = Some (Cleartext_VerifyMD5 md5 T),
      sc_Write = (\<lambda>(s, c) bs. case sl_Write lib c bs of (x, c) \<Rightarrow> (x, (s, c)))\<rparr>"
| "as_server md5 lib r (CMD5 T) =
     \<lparr>sc_SASL = None, sc_MD5 = Some (MD5_VerifyMD5 md5 T), sc_Write = (\<lambda>(s, c) bs. case sl_Write lib c bs of (x, c) \<Rightarrow> (x, (s, c)))\<rparr>"
| "as_server md5 lib r (CScram T) =
     \<lparr>sc_SASL = Some ([ScramSHA256], \<lambda>m. map_sum (\<lambda>e. e) (\<lambda>(T, c). (Some T, c)) (Scram_VerifySASL lib T m)), sc_MD5 = None,
      sc_Write = (\<lambda>(s, c) bs. case s of
        Some T \<Rightarrow> (case Interceptor_Write lib (T, c) bs of (x, (T, c)) \<Rightarrow> (x, (Some T, c)))
      | None \<Rightarrow> (case sl_Write lib c bs of (x, c) \<Rightarrow> (x, (None, c))))\<rparr>"

primrec as_client :: "hash \<Rightarrow> 'c scram \<Rightarrow> credentials \<Rightarrow> 'c client_creds" where
  "as_client md5 lib (CCleartext T) =
     \<lparr>cc_EncodeCleartext = Some (Cleartext_EncodeCleartext T), cc_EncodeMD5 = Some (Cleartext_EncodeMD5 md5 T),
      cc_EncodeSASL = Some (Cleartext_EncodeSASL lib T), cc_Write = sl_Write lib\<rparr>"
| "as_client md5 lib (CMD5 T) =
     \<lparr>cc_EncodeCleartext = None, cc_EncodeMD5 = Some (MD5_EncodeMD5 md5 T), cc_EncodeSASL = None, cc_Write = sl_Write lib\<rparr>"
| "as_client md5 lib (CScram T) =
     \<lparr>cc_EncodeCleartext = None, cc_EncodeMD5 = None, cc_EncodeSASL = Some (Scram_EncodeSASL lib T), cc_Write = sl_Write lib\<rparr>"

section \<open>Hex round trip\<close>

lemma hex_digit_ok: "n < 16 \<Longrightarrow> hex_value (hex_digit n) = Some n \<and> hex_digit n \<notin> {CHR ''$'', CHR 0x00}"
proof -
  assume "n < 16"
  then have "n \<in> set [0..<16]" by simp
  moreover have "\<forall>n\<in>set [0..<16]. hex_value (hex_digit n) = Some n \<and> hex_digit n \<notin> {CHR ''$'', CHR 0x00}" by code_simp
  ultimately show ?thesis by (rule bspec [rotated])
qed

lemma byte_div_16: "unat (b :: byte) div 16 < 16"
  using unsigned_less [of b, where ?'a = nat] by (simp add: less_mult_imp_div_less)

lemma hex_roundtrip: "hex_DecodeString (hex_Encode bs) = Some bs"
proof (induction bs)
  case (Cons b bs)
  have "word_of_nat (16 * (unat b div 16) + unat b mod 16) = b" unfolding mult_div_mod_eq by simp
  with Cons hex_digit_ok [OF byte_div_16 [of b]] hex_digit_ok [of "unat b mod 16"] show ?case
    by (simp add: hex_Encode_def del: of_nat_add of_nat_mult)
qed (simp add: hex_Encode_def)

lemma hex_Encode_chars: "CHR ''$'' \<notin> set (hex_Encode bs)" "no_nul (hex_Encode bs)"
  using hex_digit_ok [OF byte_div_16] hex_digit_ok [of "unat b mod 16" for b]
  by (force simp: hex_Encode_def no_nul_def)+

lemma strings_Cut_single: "c \<notin> set s \<Longrightarrow> strings_Cut s [c] = (s, [], False)"
  by (induction s) (subst strings_Cut.simps, auto)+

lemma FromString_MD5: "FromString user (''md5'' @ hex_Encode h) = Some (CMD5 \<lparr>md_Hash = h\<rparr>)"
proof -
  have "CHR ''$'' \<notin> set (''md5'' @ hex_Encode h)" using hex_Encode_chars by simp
  then have "ScramFromString (''md5'' @ hex_Encode h) = None" unfolding ScramFromString_def by (subst strings_Cut_single) simp_all
  then show ?thesis by (simp add: FromString_def MD5FromString_def hex_roundtrip)
qed

section \<open>An MD5 login\<close>

lemma bare_ok:
  assumes "bare T" "cn_writes T = []" "cn_flushes T = []"
  shows "conn_WritePacket m T = Some (None, T\<lparr>cn_outbox := cn_outbox T @ [m]\<rparr>)"
    "cn_inbox T = Inr m # xs \<Longrightarrow> conn_ReadPacket typed T = Some (Inr m, T\<lparr>cn_inbox := xs\<rparr>)"
proof -
  show "conn_WritePacket m T = Some (None, T\<lparr>cn_outbox := cn_outbox T @ [m]\<rparr>)"
    using assms by (simp add: bare_WritePacket conn_writePacket_def)
  assume "cn_inbox T = Inr m # xs"
  with assms show "conn_ReadPacket typed T = Some (Inr m, T\<lparr>cn_inbox := xs\<rparr>)"
    by (auto simp: conn_read_simps conn_Flush_def conn_read_from_def bare_def intro!: conn.equality)
qed

text \<open>A client that answers the salt with a text that verifies is let in.\<close>

lemma client_MD5_completes:
  assumes "bare T" "cn_writes T = []" "cn_flushes T = []" "\<not> cn_Authenticated T"
    and "cn_inbox T = Inr (Msg (PSASLResponse (wire_str pw))) # xs" "no_nul pw"
    and "sc_SASL creds = None" "sc_MD5 creds = Some verify" "verify salt pw = None"
    and "rnd_salt rnd = Inr salt" "rnd_process rnd = Inr p" "rnd_key rnd = Inr k"
  shows "\<exists>T'. client_Authenticate rnd (Some creds) T = Some (Inr (), T') \<and> cn_Authenticated T' \<and>
    cn_outbox T' = cn_outbox T @ [auth_msg (AuthMD5Password salt), ok_msg,
      Msg (PBackendKeyData \<lparr>BackendKeyData_ProcessID = of_be32 p, BackendKeyData_SecretKey = of_be32 k\<rparr>)] \<and>
    cn_BackendKey T' = \<lparr>bk_ProcessID = of_be32 p, bk_SecretKey = of_be32 k\<rparr>"
  using assms to_PasswordMessage_wire [OF assms(6)]
  by (simp add: client_Authenticate_def client_authenticate_def client_verify_def client_authenticationMD5_def
      bare_ok bare_ok(2) [where xs = xs] login_write_def)

text \<open>
  (C23) A password and its MD5 secret agree, for every salt and whatever MD5 computes: the secret
  \<^verbatim>\<open>md5\<close> with the hash of password and user name is read as an MD5 secret, and the answer that the login to a server
  (\<^verbatim>\<open>backends/v0\<close>) gives with the password to the salt of the login of a client (\<^verbatim>\<open>frontends/v0\<close>) lets the client in.
\<close>

theorem md5_login_agrees:
  assumes "FromString user secret = Some creds" "secret = ''md5'' @ hex_Encode (md (bytes_of pw @ bytes_of user))"
    and "bare S" "cn_writes S = []" "cn_flushes S = []"
    and "rnd_salt rnd = Inr salt" "rnd_process rnd = Inr p" "rnd_key rnd = Inr k"
  shows "\<exists>S' answer. authentication (as_client md lib (CCleartext \<lparr>cl_Username = user, cl_Password = pw\<rparr>))
      \<lparr>Authentication_Mode = AuthMD5Password salt\<rparr> S = Some (Inr False, S') \<and>
    cn_outbox S' = cn_outbox S @ [Msg (PPasswordMessage answer)] \<and>
    (\<forall>T xs. bare T \<and> cn_writes T = [] \<and> cn_flushes T = [] \<and> \<not> cn_Authenticated T \<and>
       cn_inbox T = Inr (Msg (PSASLResponse (wire_str answer))) # xs \<longrightarrow>
     (\<exists>T'. client_Authenticate rnd (Some (as_server md lib r creds)) T = Some (Inr (), T') \<and> cn_Authenticated T'))"
proof -
  let ?pw = "\<lparr>cl_Username = user, cl_Password = pw\<rparr>" and ?h = "\<lparr>md_Hash = md (bytes_of pw @ bytes_of user)\<rparr>"
  let ?answer = "Cleartext_EncodeMD5 md ?pw salt"
  have c: "creds = CMD5 ?h" using assms(1,2) FromString_MD5 by simp
  have e: "MD5_EncodeMD5 md ?h salt = ?answer" by (simp add: MD5_EncodeMD5_def Cleartext_EncodeMD5_def Let_def)
  have n: "no_nul ?answer" using hex_Encode_chars(2) by (simp add: Cleartext_EncodeMD5_def Let_def no_nul_def)
  have v: "MD5_VerifyMD5 md ?h salt ?answer = None" by (simp add: MD5_VerifyMD5_def e)
  have "\<exists>T'. client_Authenticate rnd (Some (as_server md lib r creds)) T = Some (Inr (), T') \<and> cn_Authenticated T'"
    if "bare T" "cn_writes T = []" "cn_flushes T = []" "\<not> cn_Authenticated T"
      "cn_inbox T = Inr (Msg (PSASLResponse (wire_str ?answer))) # xs" for T xs
    using client_MD5_completes [where verify = "MD5_VerifyMD5 md ?h" and creds = "as_server md lib r creds", OF that n _ _ v assms(6-8)] c by auto
  moreover have "authentication (as_client md lib (CCleartext ?pw)) \<lparr>Authentication_Mode = AuthMD5Password salt\<rparr> S =
    Some (Inr False, S\<lparr>cn_outbox := cn_outbox S @ [Msg (PPasswordMessage ?answer)]\<rparr>)"
    using assms(3-5) by (simp add: authentication_def authenticationMD5_def login_write_def bare_ok)
  ultimately show ?thesis
    by (intro exI [of _ "S\<lparr>cn_outbox := cn_outbox S @ [Msg (PPasswordMessage ?answer)]\<rparr>"] exI [of _ ?answer]) simp
qed

text \<open>The witness takes a hash that returns its input.\<close>

definition no_scram :: "nat scram" where
  "no_scram = \<lparr>sl_SaltedPassword = (\<lambda>p _ _. p), sl_ServerKey = (\<lambda>x. x), sl_ClientKey = (\<lambda>x. x), sl_StoredKey = (\<lambda>x. x),
     sl_ClientPassword = (\<lambda>_. 0), sl_ClientKeys = (\<lambda>_. 0), sl_ServerConversation = (\<lambda>_. 0), sl_Write = (\<lambda>c _. (([], None), c)),
     sl_RecoveredClientKey = (\<lambda>_. None)\<rparr>"

theorem md5_login_agrees_witness:
  "\<exists>answer T'. client_Authenticate sample_randoms
      (Some (as_server (\<lambda>x. x) no_scram (Inr []) (CMD5 \<lparr>md_Hash = bytes_of ''pwbob''\<rparr>)))
      (NewConn [Inr (Msg (PSASLResponse (wire_str answer)))]) = Some (Inr (), T') \<and> cn_Authenticated T'"
proof -
  have c: "FromString ''bob'' (''md5'' @ hex_Encode (bytes_of ''pw'' @ bytes_of ''bob'')) = Some (CMD5 \<lparr>md_Hash = bytes_of ''pwbob''\<rparr>)"
  proof -
    have "bytes_of ''pw'' @ bytes_of ''bob'' = bytes_of ''pwbob''" by (simp add: bytes_of_def)
    then show ?thesis by (simp only: FromString_MD5)
  qed
  have n: "bare (NewConn x)" "cn_writes (NewConn x) = []" "cn_flushes (NewConn x) = []" "\<not> cn_Authenticated (NewConn x)"
    "cn_inbox (NewConn x) = x" for x
    by (simp_all add: NewConn_def bare_def)
  have s: "rnd_salt sample_randoms = Inr [1, 2, 3, 4]" "rnd_process sample_randoms = Inr [0, 0, 0, 1]" "rnd_key sample_randoms = Inr [0, 0, 0, 2]"
    by (simp_all add: sample_randoms_def)
  from md5_login_agrees [where md = "\<lambda>x. x" and S = "NewConn []" and lib = no_scram and r = "Inr []", OF c refl n(1-3) s]
  obtain answer where "\<forall>T xs. bare T \<and> cn_writes T = [] \<and> cn_flushes T = [] \<and> \<not> cn_Authenticated T \<and>
       cn_inbox T = Inr (Msg (PSASLResponse (wire_str answer))) # xs \<longrightarrow>
     (\<exists>T'. client_Authenticate sample_randoms (Some (as_server (\<lambda>x. x) no_scram (Inr []) (CMD5 \<lparr>md_Hash = bytes_of ''pwbob''\<rparr>))) T =
        Some (Inr (), T') \<and> cn_Authenticated T')" by (elim exE conjE) rule
  from this [rule_format, of "NewConn [Inr (Msg (PSASLResponse (wire_str answer)))]" "[]"] n show ?thesis by blast
qed

section \<open>SCRAM\<close>

text \<open>
  A SCRAM secret has no key for the server until a client has logged in with it; the verifier takes the key over from
  the conversation exactly when the conversation ends well.
\<close>

lemma Scram_needs_login:
  "ScramFromString s = Some T \<Longrightarrow> Scram_EncodeSASL lib T ms = Inl (ErrNew ''you must log in with SASL first'')"
  by (auto simp: ScramFromString_def Scram_EncodeSASL_def bind_eq_Some_conv split: prod.splits if_splits)

lemma Interceptor_keeps_key:
  assumes "sl_Write lib c bs = ((resp, err), c')" "Interceptor_Write lib (T, c) bs = ((resp', err'), (T', c''))"
  shows "resp' = resp \<and> err' = err \<and> c'' = c' \<and> sc_Keys T' = sc_Keys T \<and>
    sc_clientKey T' = (if err = Some (EFed EOF) then sl_RecoveredClientKey lib c' else sc_clientKey T)"
  using assms by (auto simp: Interceptor_Write_def)

lemma Scram_after_login:
  assumes "sl_Write lib c bs = ((resp, Some (EFed EOF)), c')" "sl_RecoveredClientKey lib c' = Some key" "ScramSHA256 \<in> set ms"
  shows "\<exists>T'. Interceptor_Write lib (T, c) bs = ((resp, Some (EFed EOF)), (T', c')) \<and>
    Scram_EncodeSASL lib T' ms = Inr (ScramSHA256, sl_ClientKeys lib \<lparr>ck_ClientKey = key, ck_ServerKey = sk_ServerKey (sc_Keys T),
      ck_Salt = sk_Salt (sc_Keys T), ck_Iters = sk_Iters (sc_Keys T)\<rparr>)"
  using assms by (simp add: Interceptor_Write_def Scram_EncodeSASL_def)

end
