(* ===== verification/Go_Channels.thy ===== *)
theory Go_Channels
  imports Go_Collections
begin

text \<open>
  Go channels of capacity one, as the poolers use them to hand a server to a waiting client, and the
  facts about which client waits on which channel that both poolers share.  A channel is a number
  (0 is nil) into a heap of channel states.  \<^term>\<open>None\<close> stands for a panic (send on or close of a closed
  channel) and for blocking forever (send on a full channel, receive from an empty one).
\<close>

type_synonym chan = nat

record chan_state =
  ch_buf :: "uuid list"
  ch_closed :: bool

definition chan_make :: chan_state where
  "chan_make = \<lparr>ch_buf = [], ch_closed = False\<rparr>"

definition chan_send :: "uuid \<Rightarrow> chan_state \<Rightarrow> chan_state option" where
  "chan_send v ch = (if ch_closed ch \<or> ch_buf ch \<noteq> [] then None else Some (ch\<lparr>ch_buf := [v]\<rparr>))"

text \<open>\<^verbatim>\<open>v, ok := <-c\<close>\<close>

definition chan_recv :: "chan_state \<Rightarrow> (uuid \<times> bool \<times> chan_state) option" where
  "chan_recv ch =
     (case ch_buf ch of v # vs \<Rightarrow> Some (v, True, ch\<lparr>ch_buf := vs\<rparr>)
      | [] \<Rightarrow> if ch_closed ch then Some (uuid_nil, False, ch) else None)"

definition chan_close :: "chan_state \<Rightarrow> chan_state option" where
  "chan_close ch = (if ch_closed ch then None else Some (ch\<lparr>ch_closed := True\<rparr>))"

section \<open>Waiting clients\<close>

definition wait_inj :: "(nat \<rightharpoonup> chan) \<Rightarrow> bool" where
  "wait_inj wait \<longleftrightarrow> (\<forall>t1 t2 c. wait t1 = Some c \<longrightarrow> wait t2 = Some c \<longrightarrow> t1 = t2)"

lemma wait_inj_forget: "wait_inj w \<Longrightarrow> wait_inj (w(t := None))"
  by (auto simp: wait_inj_def)

lemma wait_inj_upd: "wait_inj w \<Longrightarrow> c \<notin> ran w \<Longrightarrow> wait_inj (w(t \<mapsto> c))"
  by (auto simp: wait_inj_def ran_def)

lemma ran_forget: "w t = Some c \<Longrightarrow> wait_inj w \<Longrightarrow> ran (w(t := None)) = ran w - {c}"
proof (intro set_eqI iffI)
  fix x assume "w t = Some c" "wait_inj w" "x \<in> ran (w(t := None))"
  then show "x \<in> ran w - {c}" by (auto simp: wait_inj_def ran_def split: if_splits)
next
  fix x assume "w t = Some c" "x \<in> ran w - {c}"
  then obtain a where "w a = Some x" "w t \<noteq> Some x" by (auto simp: ran_def)
  then have "w a = Some x" "a \<noteq> t" by auto
  then have "(w(t := None)) a = Some x" by simp
  then show "x \<in> ran (w(t := None))" by (rule ranI)
qed

text \<open>A channel that was served: closed, or holding the server for its client.\<close>

definition delivered :: "chan_state \<Rightarrow> bool" where
  "delivered ch \<longleftrightarrow> ch_closed ch \<and> ch_buf ch = [] \<or> \<not> ch_closed ch \<and> (\<exists>s. ch_buf ch = [s])"

section \<open>The hand-over invariant\<close>

text \<open>What a client holds after a call that returned \<open>v\<close>; the nil id means it got nothing.\<close>

definition client_got :: "uuid \<Rightarrow> uuid list \<Rightarrow> uuid list" where
  "client_got v held = (if v = uuid_nil then held else v # held)"

text \<open>
  Channels: \<open>W\<close> are those still waiting to be served, \<open>P\<close> the free list, \<open>wait\<close> says which client waits on
  which channel.  A channel is free, waiting or served, and its content fits.
\<close>

definition chans_ok :: "chan set \<Rightarrow> chan list \<Rightarrow> (chan \<Rightarrow> chan_state) \<Rightarrow> chan \<Rightarrow> (nat \<rightharpoonup> chan) \<Rightarrow> bool" where
  "chans_ok W P chans next_id wait \<longleftrightarrow>
     0 < next_id \<and> distinct P \<and> W \<subseteq> ran wait \<and> set P \<inter> ran wait = {} \<and>
     wait_inj wait \<and>
     (\<forall>c\<in>W \<union> set P. chans c = chan_make) \<and>
     (\<forall>c\<in>ran wait - W. delivered (chans c)) \<and>
     (\<forall>c\<in>set P \<union> ran wait. 0 < c \<and> c < next_id)"

text \<open>Servers: each is in at most one place.\<close>

definition servers_ok :: "uuid set \<Rightarrow> uuid list \<Rightarrow> uuid list \<Rightarrow> (chan \<Rightarrow> chan_state) \<Rightarrow> chan set \<Rightarrow> uuid set \<Rightarrow> bool" where
  "servers_ok servers queue held chans wait used \<longleftrightarrow>
     distinct (queue @ held) \<and> uuid_nil \<notin> used \<and> set queue \<subseteq> servers \<and> servers \<subseteq> used \<and> set held \<subseteq> used \<and>
     (\<forall>c\<in>wait. \<forall>s\<in>set (ch_buf (chans c)). s \<in> used \<and> s \<notin> set queue \<and> s \<notin> set held) \<and>
     (\<forall>c\<in>wait. \<forall>c'\<in>wait. c \<noteq> c' \<longrightarrow> set (ch_buf (chans c)) \<inter> set (ch_buf (chans c')) = {})"

lemma chans_ok_send:
  assumes "chans_ok W P chans n wait" "c \<in> W"
  shows "chan_send s (chans c) = Some \<lparr>ch_buf = [s], ch_closed = False\<rparr>"
    "chans_ok (W - {c}) P (chans(c := \<lparr>ch_buf = [s], ch_closed = False\<rparr>)) n wait"
  using assms by (auto simp: chans_ok_def chan_send_def chan_make_def delivered_def)

lemma chans_ok_close:
  assumes "chans_ok W P chans n wait" "c \<in> W"
  shows "chan_close (chans c) = Some \<lparr>ch_buf = [], ch_closed = True\<rparr>"
    "chans_ok (W - {c}) P (chans(c := \<lparr>ch_buf = [], ch_closed = True\<rparr>)) n wait"
  using assms by (auto simp: chans_ok_def chan_close_def chan_make_def delivered_def)

text \<open>A client gives up while its channel is still waiting.\<close>

lemma chans_ok_forget:
  assumes "chans_ok W P chans n wait" "wait t = Some c" "c \<in> W"
  shows "chans_ok (W - {c}) (P @ [c]) chans n (wait(t := None))"
proof -
  have "ran (wait(t := None)) = ran wait - {c}" "wait_inj (wait(t := None))"
    using assms by (auto simp: chans_ok_def intro!: ran_forget wait_inj_forget)
  with assms show ?thesis by (auto simp: chans_ok_def)
qed

text \<open>A client starts to wait, on a channel of the free list or on a new one.\<close>

lemma chans_ok_wait_free:
  assumes "chans_ok W (P @ [c]) chans n wait" "wait t = None"
  shows "chans_ok (insert c W) P chans n (wait(t \<mapsto> c))" "c \<notin> ran wait" "chans c = chan_make"
  using assms wait_inj_upd [of wait c t] by (auto simp: chans_ok_def)

lemma chans_ok_wait_new:
  assumes "chans_ok W P chans n wait" "wait t = None"
  shows "chans_ok (insert n W) P (chans(n := chan_make)) (n + 1) (wait(t \<mapsto> n))" "n \<notin> ran wait"
proof -
  have new: "n \<notin> ran wait" "n \<notin> set P" "n \<notin> W" using assms(1) by (auto simp: chans_ok_def)
  with assms wait_inj_upd [of wait n t] show "chans_ok (insert n W) P (chans(n := chan_make)) (n + 1) (wait(t \<mapsto> n))"
    unfolding chans_ok_def by (auto simp: less_Suc_eq)
  show "n \<notin> ran wait" by (rule new)
qed

lemma servers_ok_send:
  assumes "servers_ok servers queue held chans wait used" "s \<in> used" "s \<notin> set queue" "s \<notin> set held"
    and "\<forall>c\<in>wait. s \<notin> set (ch_buf (chans c))"
  shows "servers_ok servers queue held (chans(c := \<lparr>ch_buf = [s], ch_closed = False\<rparr>)) wait used"
  using assms by (auto simp: servers_ok_def)

text \<open>Receiving: the client's channel was served.\<close>

lemma chans_ok_recv:
  assumes "chans_ok W P chans n wait" "wait t = Some c" "c \<notin> W"
  shows "(chan_recv (chans c) = Some (uuid_nil, False, chans c) \<and> ch_buf (chans c) = [] \<and>
      chans_ok W P chans n (wait(t := None)))
    \<or> (\<exists>s. chan_recv (chans c) = Some (s, True, chan_make) \<and> ch_buf (chans c) = [s] \<and>
      chans_ok W (P @ [c]) (chans(c := chan_make)) n (wait(t := None)))"
proof -
  have inj: "wait_inj wait" "wait_inj (wait(t := None))"
    using assms(1) by (auto simp: chans_ok_def intro: wait_inj_forget)
  have r: "ran (wait(t := None)) = ran wait - {c}" using assms(2) inj(1) by (rule ran_forget)
  have c: "c \<in> ran wait" using assms(2) by (rule ranI)
  show ?thesis
  proof (cases "ch_closed (chans c)")
    case True
    then have "ch_buf (chans c) = []" using assms c by (auto simp: chans_ok_def delivered_def)
    with True assms c r inj show ?thesis
      by (intro disjI1) (auto simp: chans_ok_def chan_recv_def)
  next
    case False
    moreover have "delivered (chans c)" using assms c by (auto simp: chans_ok_def)
    ultimately obtain s where "ch_buf (chans c) = [s]" by (auto simp: delivered_def)
    moreover have "(chans c)\<lparr>ch_buf := []\<rparr> = chan_make" using False by (simp add: chan_make_def)
    moreover have "chans_ok W (P @ [c]) (chans(c := chan_make)) n (wait(t := None))"
      using assms c r inj unfolding chans_ok_def by auto
    ultimately show ?thesis by (auto simp: chan_recv_def)
  qed
qed

lemma servers_ok_recv:
  assumes "servers_ok servers queue held chans R used" "c \<in> R" "ch_buf (chans c) = [s]"
  shows "servers_ok servers queue (client_got s held) (chans(c := chan_make)) (R - {c}) used"
proof -
  have "s \<in> used" "s \<notin> set queue" "s \<notin> set held" "s \<noteq> uuid_nil"
    using assms by (auto simp: servers_ok_def)
  with assms show ?thesis by (force simp: servers_ok_def client_got_def)
qed

lemma servers_ok_mono:
  assumes "servers_ok servers queue held chans R used"
    and "\<And>c. set (ch_buf (chans' c)) \<subseteq> set (ch_buf (chans c))"
  shows "servers_ok {} [] held chans' R used"
proof -
  have "\<forall>c\<in>R. \<forall>s\<in>set (ch_buf (chans' c)). s \<in> used \<and> s \<notin> set held"
    using assms by (meson servers_ok_def subsetD)
  moreover have "\<forall>c\<in>R. \<forall>c'\<in>R. c \<noteq> c' \<longrightarrow> set (ch_buf (chans' c)) \<inter> set (ch_buf (chans' c')) = {}"
    using assms by (meson servers_ok_def disjoint_iff subsetD)
  ultimately show ?thesis using assms(1) by (simp add: servers_ok_def)
qed

lemma servers_ok_sub:
  assumes "servers_ok servers queue held chans R used" "distinct queue'" "set queue' \<subseteq> set queue"
    and "set queue' \<subseteq> servers'" "servers' \<subseteq> used"
  shows "servers_ok servers' queue' held chans R used"
  using assms by (auto simp: servers_ok_def)

lemma servers_ok_fresh:
  assumes "servers_ok servers queue held chans R used" "s \<notin> used"
  shows "s \<notin> set queue" "s \<notin> set held" "\<forall>c\<in>R. s \<notin> set (ch_buf (chans c))"
  using assms by (auto simp: servers_ok_def)

lemma servers_ok_take:
  assumes "servers_ok servers (q @ [s]) held chans R used"
  shows "servers_ok servers q (s # held) chans R used" "s \<noteq> uuid_nil"
proof -
  have s: "s \<in> used" "uuid_nil \<notin> used" using assms by (auto simp: servers_ok_def)
  with assms show "servers_ok servers q (s # held) chans R used" by (auto simp: servers_ok_def)
  show "s \<noteq> uuid_nil" using s by metis
qed

lemma servers_ok_fewer:
  "servers_ok servers queue held chans R used \<Longrightarrow> R' \<subseteq> R \<Longrightarrow> servers_ok servers queue held chans R' used"
  unfolding servers_ok_def by blast

lemma servers_okD:
  assumes "servers_ok servers queue held chans R used"
  shows "distinct (queue @ held)"
    and "c \<in> R \<Longrightarrow> s \<in> set (ch_buf (chans c)) \<Longrightarrow> s \<notin> set queue \<and> s \<notin> set held"
  using assms by (auto simp: servers_ok_def)

lemma servers_ok_exclusive:
  assumes "servers_ok servers queue held chans (ran wait) used" "wait_inj wait"
    and "wait t = Some c" "s \<in> set (ch_buf (chans c))" "wait t' = Some c'" "s \<in> set (ch_buf (chans c'))"
  shows "t = t'"
proof -
  have "c \<in> ran wait" "c' \<in> ran wait" using assms by (auto intro: ranI)
  with assms have "c = c'" unfolding servers_ok_def by blast
  with assms show ?thesis by (auto simp: wait_inj_def)
qed

end
