(* ===== verification/Pooler_Contract.thy ===== *)
theory Pooler_Contract
  imports Go_Channels
begin

text \<open>
  What a pool expects of its pooler (\<^verbatim>\<open>lib/gat/handlers/pool/pooler.go\<close>), as a locale over an event system:
  the calls of the clients and of the owner, and the points where a call waits, are events that may
  interleave in any order; an event that panics or blocks with the mutex held has no next state.
  The LIFO pooler and the rob scheduler interpret it.
\<close>

section \<open>Event systems\<close>

primrec run_events :: "('e \<Rightarrow> 's \<Rightarrow> bool) \<Rightarrow> ('e \<Rightarrow> 's \<Rightarrow> 's option) \<Rightarrow> 'e list \<Rightarrow> 's \<Rightarrow> 's option" where
  "run_events enabled exec [] S = Some S"
| "run_events enabled exec (ev # evs) S =
     (if enabled ev S then exec ev S \<bind> run_events enabled exec evs else None)"

inductive reachable :: "'s \<Rightarrow> ('e \<Rightarrow> 's \<Rightarrow> bool) \<Rightarrow> ('e \<Rightarrow> 's \<Rightarrow> 's option) \<Rightarrow> 's \<Rightarrow> bool"
  for init enabled exec where
  start: "reachable init enabled exec init"
| step: "reachable init enabled exec S \<Longrightarrow> enabled ev S \<Longrightarrow> exec ev S = Some S' \<Longrightarrow>
    reachable init enabled exec S'"

lemma reachable_run:
  "run_events enabled exec evs S = Some S' \<Longrightarrow> reachable init enabled exec S \<Longrightarrow> reachable init enabled exec S'"
  by (induction evs arbitrary: S) (auto split: if_splits bind_splits intro: reachable.step)

section \<open>The contract\<close>

locale pooler =
  fixes init :: 's
    and enabled :: "'e \<Rightarrow> 's \<Rightarrow> bool"
    and exec :: "'e \<Rightarrow> 's \<Rightarrow> 's option"
    and invar :: "'s \<Rightarrow> bool"
    and idle :: "'s \<Rightarrow> uuid list"
    and held :: "'s \<Rightarrow> uuid list"
    and sent :: "'s \<Rightarrow> 'c \<Rightarrow> uuid \<Rightarrow> bool"
    and queued :: "'s \<Rightarrow> 'c set"
    and waiting :: "'s \<Rightarrow> 'c set"
    and ready :: "'s \<Rightarrow> 'c set"
  assumes invar_init: "invar init"
    and invar_step: "invar S \<Longrightarrow> enabled ev S \<Longrightarrow> \<exists>S'. exec ev S = Some S' \<and> invar S'"
    and apart: "invar S \<Longrightarrow> distinct (idle S @ held S)"
    and sent_apart: "invar S \<Longrightarrow> sent S c w \<Longrightarrow> w \<notin> set (idle S) \<and> w \<notin> set (held S)"
    and sent_once: "invar S \<Longrightarrow> sent S c w \<Longrightarrow> sent S c' w \<Longrightarrow> c = c'"
    and conserving: "invar S \<Longrightarrow> idle S = [] \<or> queued S = {}"
    and wakes: "invar S \<Longrightarrow> waiting S \<subseteq> queued S \<union> ready S"
begin

lemma reach_invar: "reachable init enabled exec S \<Longrightarrow> invar S"
  by (induction rule: reachable.induct) (use invar_init invar_step in fastforce)+

lemma never_stuck:
  assumes "reachable init enabled exec S" "enabled ev S"
  shows "\<exists>S'. exec ev S = Some S' \<and> reachable init enabled exec S'"
proof -
  from invar_step [OF reach_invar [OF assms(1)] assms(2)] obtain S' where "exec ev S = Some S'" by blast
  with assms show ?thesis by (blast intro: reachable.step)
qed

lemma run_reach: "run_events enabled exec evs init = Some S \<Longrightarrow> reachable init enabled exec S"
  using reachable_run [of enabled exec evs init S init] reachable.start [of init enabled exec] by blast

lemma exclusive:
  assumes "reachable init enabled exec S"
  shows "distinct (idle S @ held S) \<and>
    (\<forall>c w. sent S c w \<longrightarrow> w \<notin> set (idle S) \<and> w \<notin> set (held S) \<and> (\<forall>c'. sent S c' w \<longrightarrow> c' = c))"
  using reach_invar [OF assms] apart sent_apart sent_once by blast

lemma no_lost_wakeup:
  assumes "reachable init enabled exec S"
  shows "(idle S = [] \<or> queued S = {}) \<and> (\<forall>c\<in>waiting S. c \<in> queued S \<or> c \<in> ready S)"
  using conserving [OF reach_invar [OF assms]] wakes [OF reach_invar [OF assms]] by auto

end

end
