(* ===== verification/Kitchen.thy ===== *)
theory Kitchen
  imports Fed_Message Go_Collections "HOL-Library.AList" "HOL-Library.Product_Lexorder"
begin

text \<open>
  The recipes of a pool and the chef that dials connections with them: \<^verbatim>\<open>lib/gat/handlers/pool/recipe.go\<close> and
  \<^verbatim>\<open>lib/gat/handlers/pool/spool/kitchen\<close>.  Recipes are shared by reference: \<^verbatim>\<open>pool.Recipe\<close> and
  \<^verbatim>\<open>kitchen.Recipe\<close> are values of two stores, addressed by numbers.  Connections are numbered in the order they are
  dialled, and the state records which were closed.  The answers of the network (each \<^verbatim>\<open>Dial\<close>), of the clock and of
  the critics are scripts; a script that is used up dials successfully, reads time 0 and scores 0.  \<^verbatim>\<open>Learn\<close>,
  \<^verbatim>\<open>score\<close> and \<^verbatim>\<open>Cook\<close> do not hold the chef's lock while they dial: here they are composed of their sections as they run
  when no other call comes in between, and \<^verbatim>\<open>Kitchen_Steps\<close> interleaves the same sections with all other calls.  Therefore
  the invariant has parameters for what calls under way have allocated and dialled.  Go's \<^verbatim>\<open>int\<close> has 64 bits.
\<close>

section \<open>State\<close>

record PoolRecipe =
  pr_Priority :: int
  pr_MinConnections :: int
  pr_MaxConnections :: int
  pr_count :: int

record Rating =
  rt_Expiration :: int
  rt_Score :: int

record Recipe =
  kr_recipe :: nat
  kr_ratings :: "Rating list"
  kr_score :: int
  kr_conns :: "nat list"

text \<open>
  What becomes of a call of \<^verbatim>\<open>Dial\<close>: a connection; no connection; or a socket that is connected and then abandoned, because
  the login on it fails and \<^verbatim>\<open>Dial\<close> returns the error without closing it.
\<close>

datatype dial_answer = DialOk | DialRefused fed_error | LoginFailed fed_error

record Chef =
  ch_critics :: nat
  ch_byName :: "(string \<times> nat) list"
  ch_byConn :: "(nat \<times> nat) list"
  ch_order :: "nat list"
  ch_recipes :: "nat \<Rightarrow> Recipe"
  ch_new :: nat
  ch_pool :: "nat \<Rightarrow> PoolRecipe"
  ch_dialed :: nat
  ch_closed :: "nat list"
  ch_lost :: nat
  ch_dials :: "dial_answer list"
  ch_clock :: "int list"
  ch_tastes :: "(fed_error + int \<times> int) list"

definition wrap64 :: "int \<Rightarrow> int" where
  "wrap64 x = (x + 2 ^ 63) mod 2 ^ 64 - 2 ^ 63"

definition MaxInt :: int where "MaxInt = 2 ^ 63 - 1"

definition rating_zero :: Rating where
  "rating_zero = \<lparr>rt_Expiration = 0, rt_Score = 0\<rparr>"

definition ErrNoRecipes :: fed_error where "ErrNoRecipes = ErrNew ''no recipes available''"

section \<open>The outside\<close>

definition Dial :: "Chef \<Rightarrow> (fed_error + nat) \<times> Chef" where
  "Dial T =
     (case ch_dials T of
        DialRefused err # ds \<Rightarrow> (Inl err, T\<lparr>ch_dials := ds\<rparr>)
      | LoginFailed err # ds \<Rightarrow> (Inl err, T\<lparr>ch_dials := ds, ch_lost := ch_lost T + 1\<rparr>)
      | ds \<Rightarrow> (Inr (ch_dialed T), T\<lparr>ch_dials := tl ds, ch_dialed := ch_dialed T + 1\<rparr>))"

definition conn_Close :: "nat \<Rightarrow> Chef \<Rightarrow> Chef" where
  "conn_Close c T = T\<lparr>ch_closed := ch_closed T @ [c]\<rparr>"

definition time_Now :: "Chef \<Rightarrow> int \<times> Chef" where
  "time_Now T = (case ch_clock T of [] \<Rightarrow> (0, T) | t # ts \<Rightarrow> (t, T\<lparr>ch_clock := ts\<rparr>))"

definition Taste :: "Chef \<Rightarrow> (fed_error + int \<times> int) \<times> Chef" where
  "Taste T = (case ch_tastes T of [] \<Rightarrow> (Inr (0, 0), T) | r # rs \<Rightarrow> (r, T\<lparr>ch_tastes := rs\<rparr>))"

section \<open>pool.Recipe\<close>

definition set_count :: "nat \<Rightarrow> int \<Rightarrow> Chef \<Rightarrow> Chef" where
  "set_count p n T = T\<lparr>ch_pool := (ch_pool T)(p := (ch_pool T p)\<lparr>pr_count := n\<rparr>)\<rparr>"

definition AllocateInitial :: "nat \<Rightarrow> Chef \<Rightarrow> int \<times> Chef" where
  "AllocateInitial p T =
     (let r = ch_pool T p in
      if pr_count r \<ge> pr_MinConnections r then (0, T)
      else (pr_MinConnections r - pr_count r, set_count p (pr_MinConnections r) T))"

definition Allocate :: "nat \<Rightarrow> Chef \<Rightarrow> bool \<times> Chef" where
  "Allocate p T =
     (let r = ch_pool T p in
      if pr_MaxConnections r \<noteq> 0 \<and> pr_count r \<ge> pr_MaxConnections r then (False, T)
      else (True, set_count p (pr_count r + 1) T))"

definition TryFree :: "nat \<Rightarrow> Chef \<Rightarrow> bool \<times> Chef" where
  "TryFree p T =
     (let r = ch_pool T p in
      if pr_count r \<le> pr_MinConnections r then (False, T) else (True, set_count p (pr_count r - 1) T))"

definition Free :: "nat \<Rightarrow> Chef \<Rightarrow> Chef" where
  "Free p T = set_count p (pr_count (ch_pool T p) - 1) T"

section \<open>kitchen.Recipe\<close>

definition NewRecipe :: "nat \<Rightarrow> nat list \<Rightarrow> Recipe" where
  "NewRecipe recipe initial = \<lparr>kr_recipe = recipe, kr_ratings = [], kr_score = 0, kr_conns = remdups initial\<rparr>"

definition recipe_Rating :: "nat \<Rightarrow> Chef \<Rightarrow> int" where
  "recipe_Rating r T =
     (let k = ch_recipes T r in
      if kr_score k = MaxInt then kr_score k else wrap64 (kr_score k + pr_Priority (ch_pool T (kr_recipe k))))"

definition set_recipe :: "nat \<Rightarrow> Recipe \<Rightarrow> Chef \<Rightarrow> Chef" where
  "set_recipe r k T = T\<lparr>ch_recipes := (ch_recipes T)(r := k)\<rparr>"

section \<open>Chef\<close>

definition MakeChef :: "nat \<Rightarrow> (nat \<Rightarrow> PoolRecipe) \<Rightarrow> Chef" where
  "MakeChef critics recipes = \<lparr>ch_critics = critics, ch_byName = [], ch_byConn = [], ch_order = [],
     ch_recipes = (\<lambda>_. NewRecipe 0 []), ch_new = 0, ch_pool = recipes, ch_dialed = 0, ch_closed = [], ch_lost = 0, ch_dials = [],
     ch_clock = [], ch_tastes = []\<rparr>"

text \<open>\<^verbatim>\<open>delete(T.byConn, conn); delete(r.conns, conn)\<close>.\<close>

definition delete_conn :: "nat \<Rightarrow> nat \<Rightarrow> Chef \<Rightarrow> Chef" where
  "delete_conn r c T = set_recipe r ((ch_recipes T r)\<lparr>kr_conns := filter (\<lambda>x. x \<noteq> c) (kr_conns (ch_recipes T r))\<rparr>)
     (T\<lparr>ch_byConn := AList.delete c (ch_byConn T)\<rparr>)"

text \<open>The body of the loop of \<^verbatim>\<open>forget\<close>, and that of \<^verbatim>\<open>Burn\<close> and of the loop of \<^verbatim>\<open>Close\<close>.\<close>

definition drop_conn :: "nat \<Rightarrow> nat \<Rightarrow> Chef \<Rightarrow> Chef" where
  "drop_conn r c T = delete_conn r c (Free (kr_recipe (ch_recipes T r)) (conn_Close c T))"

definition burn_conn :: "nat \<Rightarrow> nat \<Rightarrow> Chef \<Rightarrow> Chef" where
  "burn_conn r c T = delete_conn r c (conn_Close c (Free (kr_recipe (ch_recipes T r)) T))"

definition forget :: "string \<Rightarrow> Chef \<Rightarrow> (nat list \<times> Chef) option" where
  "forget name T =
     (case map_of (ch_byName T) name of
        None \<Rightarrow> Some ([], T)
      | Some r \<Rightarrow> do {
          let conns = kr_conns (ch_recipes T r);
          let T = fold (drop_conn r) conns (T\<lparr>ch_byName := AList.delete name (ch_byName T)\<rparr>);
          order \<leftarrow> slices_Remove (ch_order T) r;
          Some (conns, T\<lparr>ch_order := order\<rparr>)
        })"

definition Forget :: "string \<Rightarrow> Chef \<Rightarrow> (nat list \<times> Chef) option" where
  "Forget = forget"

text \<open>The loop of \<^verbatim>\<open>Learn\<close> with \<open>n\<close> connections to go; a failure frees the rest.\<close>

fun learn_dial :: "nat \<Rightarrow> nat \<Rightarrow> nat list \<Rightarrow> Chef \<Rightarrow> nat list \<times> Chef" where
  "learn_dial p 0 added T = (added, T)"
| "learn_dial p (Suc n) added T =
     (case Dial T of
        (Inl err, T) \<Rightarrow> (added, (Free p ^^ Suc n) T)
      | (Inr conn, T) \<Rightarrow> learn_dial p n (added @ [conn]) T)"

text \<open>The section of \<^verbatim>\<open>Learn\<close> under the chef's lock.\<close>

definition learn_finish :: "string \<Rightarrow> nat \<Rightarrow> nat list \<Rightarrow> Chef \<Rightarrow> ((nat list \<times> nat list) \<times> Chef) option" where
  "learn_finish name p added T = do {
     (removed, T) \<leftarrow> forget name T;
     let r = ch_new T;
     let T = set_recipe r (NewRecipe p added) (T\<lparr>ch_new := r + 1\<rparr>);
     let T = T\<lparr>ch_byName := AList.update name r (ch_byName T)\<rparr>;
     let T = T\<lparr>ch_byConn := fold (\<lambda>c. AList.update c r) added (ch_byConn T)\<rparr>;
     Some ((removed, added), T\<lparr>ch_order := ch_order T @ [r]\<rparr>)
   }"

definition Learn :: "string \<Rightarrow> nat \<Rightarrow> Chef \<Rightarrow> ((nat list \<times> nat list) \<times> Chef) option" where
  "Learn name p T = (
     let (n, T) = AllocateInitial p T;
         (added, T) = learn_dial p (nat n) [] T in
     learn_finish name p added T)"

definition Empty :: "Chef \<Rightarrow> bool" where
  "Empty T \<longleftrightarrow> ch_byName T = []"

definition Burn :: "nat \<Rightarrow> Chef \<Rightarrow> Chef" where
  "Burn c T = (case map_of (ch_byConn T) c of None \<Rightarrow> T | Some r \<Rightarrow> burn_conn r c T)"

definition Ignite :: "nat \<Rightarrow> Chef \<Rightarrow> bool \<times> Chef" where
  "Ignite c T =
     (case map_of (ch_byConn T) c of
        None \<Rightarrow> (False, T)
      | Some r \<Rightarrow>
          (case TryFree (kr_recipe (ch_recipes T r)) T of
             (False, T) \<Rightarrow> (False, T)
           | (True, T) \<Rightarrow> (True, delete_conn r c (conn_Close c T))))"

definition Chef_Close :: "Chef \<Rightarrow> Chef" where
  "Chef_Close T = fold (\<lambda>(c, r). burn_conn r c) (ch_byConn T) (T\<lparr>ch_byName := [], ch_order := []\<rparr>)"

text \<open>The recipe whose dialer sends the cancellation, with the key of the connection.\<close>

definition Chef_Cancel :: "nat \<Rightarrow> Chef \<Rightarrow> nat option" where
  "Chef_Cancel c T = map_option (\<lambda>r. kr_recipe (ch_recipes T r)) (map_of (ch_byConn T) c)"

section \<open>Scoring and cooking\<close>

text \<open>The critics whose rating has run out taste the connection; the others (nil in the code) keep their rating.\<close>

fun taste_loop :: "bool list \<Rightarrow> int \<Rightarrow> Rating option list \<Rightarrow> Chef \<Rightarrow> (fed_error + int \<times> Rating option list) \<times> Chef" where
  "taste_loop [] tot ratings T = (Inr (tot, ratings), T)"
| "taste_loop (False # critics) tot ratings T = taste_loop critics tot (ratings @ [None]) T"
| "taste_loop (True # critics) tot ratings T =
     (case Taste T of
        (Inl err, T) \<Rightarrow> (Inl err, T)
      | (Inr (score, validity), T) \<Rightarrow>
          (case time_Now T of (now, T) \<Rightarrow>
             taste_loop critics (wrap64 (tot + score))
               (ratings @ [Some \<lparr>rt_Expiration = now + validity, rt_Score = score\<rparr>]) T))"

text \<open>
  The sections of \<^verbatim>\<open>score\<close>: what there is to taste (nothing, if no rating has run out), and storing the new ratings; in
  between a new connection is tasted and closed without the lock.
\<close>

definition score_start :: "nat \<Rightarrow> Chef \<Rightarrow> ((bool list \<times> int) option \<times> Chef) option" where
  "score_start r T =
     (case time_Now T of (now, T) \<Rightarrow> do {
        let k = ch_recipes T r;
        ratings \<leftarrow> slices_Resize rating_zero (go_len (kr_ratings k)) (kr_ratings k) (int (ch_critics T));
        let T = set_recipe r (k\<lparr>kr_ratings := ratings\<rparr>) T;
        Some (if \<forall>x\<in>set ratings. \<not> now > rt_Expiration x then None
              else Some (map (\<lambda>x. \<not> now < rt_Expiration x) ratings,
                fold (\<lambda>x n. if now < rt_Expiration x then wrap64 (n + rt_Score x) else n) ratings 0), T)
      })"

definition score_store :: "nat \<Rightarrow> int \<Rightarrow> Rating option list \<Rightarrow> Chef \<Rightarrow> Chef option" where
  "score_store r tot new T = do {
     let k = ch_recipes T r;
     old \<leftarrow> slices_Resize rating_zero (go_len (kr_ratings k)) (kr_ratings k) (int (ch_critics T));
     let ratings = map2 (\<lambda>x n. case n of None \<Rightarrow> x | Some y \<Rightarrow> y) old new;
     Some (set_recipe r (k\<lparr>kr_score := tot, kr_ratings := ratings\<rparr>) T)
   }"

text \<open>The connection \<open>conn\<close> is tasted and closed, and the ratings are stored.\<close>

definition score_taste :: "nat \<Rightarrow> bool list \<Rightarrow> int \<Rightarrow> nat \<Rightarrow> Chef \<Rightarrow> (fed_error option \<times> Chef) option" where
  "score_taste r critics tot conn T =
     (case taste_loop critics tot [] T of (res, T) \<Rightarrow>
      let T = conn_Close conn T in
      case res of
        Inl err \<Rightarrow> Some (Some err, T)
      | Inr (tot, new) \<Rightarrow> do { T \<leftarrow> score_store r tot new T; Some (None, T) })"

definition rescore :: "nat \<Rightarrow> bool list \<Rightarrow> int \<Rightarrow> Chef \<Rightarrow> (fed_error option \<times> Chef) option" where
  "rescore r critics tot T =
     (case Dial T of
        (Inl err, T) \<Rightarrow> Some (Some err, T)
      | (Inr conn, T) \<Rightarrow> score_taste r critics tot conn T)"

definition score :: "nat \<Rightarrow> Chef \<Rightarrow> (fed_error option \<times> Chef) option" where
  "score r T = do {
     (todo, T) \<leftarrow> score_start r T;
     case todo of None \<Rightarrow> Some (None, T) | Some (critics, tot) \<Rightarrow> rescore r critics tot T
   }"

text \<open>What \<^verbatim>\<open>Cook\<close> does with the error of \<^verbatim>\<open>score\<close>.\<close>

definition score_failed :: "nat \<Rightarrow> fed_error option \<Rightarrow> Chef \<Rightarrow> Chef" where
  "score_failed r err T = (case err of None \<Rightarrow> T | Some _ \<Rightarrow> set_recipe r ((ch_recipes T r)\<lparr>kr_score := MaxInt\<rparr>) T)"

fun score_all :: "nat list \<Rightarrow> Chef \<Rightarrow> Chef option" where
  "score_all [] T = Some T"
| "score_all (r # rs) T = do { (err, T) \<leftarrow> score r T; score_all rs (score_failed r err T) }"

text \<open>\<^verbatim>\<open>sort.Slice\<close> by rating, then by the number of connections.\<close>

definition sort_order :: "Chef \<Rightarrow> Chef" where
  "sort_order T = T\<lparr>ch_order := sort_key (\<lambda>r. (recipe_Rating r T, length (kr_conns (ch_recipes T r)))) (ch_order T)\<rparr>"

definition cook_finish :: "nat \<Rightarrow> nat \<Rightarrow> Chef \<Rightarrow> Chef" where
  "cook_finish r c T = set_recipe r ((ch_recipes T r)\<lparr>kr_conns := List.insert c (kr_conns (ch_recipes T r))\<rparr>)
     (T\<lparr>ch_byConn := AList.update c r (ch_byConn T)\<rparr>)"

fun cook_loop :: "nat list \<Rightarrow> Chef \<Rightarrow> (fed_error + nat) \<times> Chef" where
  "cook_loop [] T = (Inl ErrNoRecipes, T)"
| "cook_loop (r # rs) T =
     (let p = kr_recipe (ch_recipes T r) in
      case Allocate p T of
        (False, T) \<Rightarrow> cook_loop rs T
      | (True, T) \<Rightarrow>
          (case Dial T of
             (Inr conn, T) \<Rightarrow> (Inr conn, cook_finish r conn T)
           | (Inl err, T) \<Rightarrow>
               (let T = Free p T in
                if rs = [] then (Inl err, T) else cook_loop rs T)))"

definition Cook :: "Chef \<Rightarrow> ((fed_error + nat) \<times> Chef) option" where
  "Cook T = do {
     T \<leftarrow> score_all (map snd (ch_byName T)) T;
     let T = sort_order T;
     Some (cook_loop (ch_order T) T)
   }"

section \<open>Invariant\<close>

text \<open>
  The connections of the kitchen: \<open>extra\<close> slots of a recipe are allocated for connections not dialled yet, and the
  connections in \<open>pend\<close> are dialled but not registered.  A recipe counts exactly its connections, every open connection
  is registered with its recipe, and no registered connection is closed.
\<close>

definition used :: "nat \<Rightarrow> Chef \<Rightarrow> nat" where
  "used p T = length (filter (\<lambda>(c, r). kr_recipe (ch_recipes T r) = p) (ch_byConn T))"

definition conns_ok :: "(nat \<Rightarrow> int) \<Rightarrow> nat set \<Rightarrow> Chef \<Rightarrow> bool" where
  "conns_ok extra pend T \<longleftrightarrow> distinct (map fst (ch_byConn T)) \<and>
     (\<forall>c r. (c, r) \<in> set (ch_byConn T) \<longrightarrow> r < ch_new T) \<and>
     (\<forall>r < ch_new T. distinct (kr_conns (ch_recipes T r)) \<and>
        (\<forall>c. c \<in> set (kr_conns (ch_recipes T r)) \<longleftrightarrow> (c, r) \<in> set (ch_byConn T))) \<and>
     {..<ch_dialed T} = set (ch_closed T) \<union> fst ` set (ch_byConn T) \<union> pend \<and>
     set (ch_closed T) \<inter> (fst ` set (ch_byConn T) \<union> pend) = {} \<and> fst ` set (ch_byConn T) \<inter> pend = {} \<and>
     (\<forall>p. pr_count (ch_pool T p) = extra p + int (used p T))"

definition names_ok :: "Chef \<Rightarrow> bool" where
  "names_ok T \<longleftrightarrow> distinct (map fst (ch_byName T)) \<and> distinct (map snd (ch_byName T)) \<and> distinct (ch_order T) \<and>
     set (ch_order T) = snd ` set (ch_byName T) \<and> (\<forall>r\<in>set (ch_order T). r < ch_new T)"

text \<open>
  No recipe exceeds the greater of its limits.  The greater of them: \<^verbatim>\<open>AllocateInitial\<close> does not look at the maximum
  (\<open>AllocateInitial_exceeds\<close> below).
\<close>

definition limits_ok :: "Chef \<Rightarrow> bool" where
  "limits_ok T \<longleftrightarrow> (\<forall>p. let r = ch_pool T p in pr_MaxConnections r \<noteq> 0 \<longrightarrow>
     pr_count r \<le> max 0 (max (pr_MaxConnections r) (pr_MinConnections r)))"

definition kitchen_inv :: "(nat \<Rightarrow> int) \<Rightarrow> nat set \<Rightarrow> Chef \<Rightarrow> bool" where
  "kitchen_inv extra pend T \<longleftrightarrow> conns_ok extra pend T \<and> names_ok T \<and> limits_ok T"

text \<open>Recipes are added, and the pool recipe behind one never changes.\<close>

definition same_recipes :: "Chef \<Rightarrow> Chef \<Rightarrow> bool" where
  "same_recipes T T' \<longleftrightarrow> ch_new T \<le> ch_new T' \<and> (\<forall>r < ch_new T. kr_recipe (ch_recipes T' r) = kr_recipe (ch_recipes T r))"

lemma same_recipes_refl [simp]: "same_recipes T T"
  by (simp add: same_recipes_def)

lemma same_recipes_trans: "same_recipes T T' \<Longrightarrow> same_recipes T' T'' \<Longrightarrow> same_recipes T T''"
  by (simp add: same_recipes_def)

lemma conns_okD:
  assumes "conns_ok e P T"
  shows "distinct (map fst (ch_byConn T))" "(c, r) \<in> set (ch_byConn T) \<Longrightarrow> r < ch_new T"
    "r < ch_new T \<Longrightarrow> distinct (kr_conns (ch_recipes T r))"
    "r < ch_new T \<Longrightarrow> c \<in> set (kr_conns (ch_recipes T r)) \<longleftrightarrow> (c, r) \<in> set (ch_byConn T)"
    "pr_count (ch_pool T p) = e p + int (used p T)"
  using assms by (simp_all add: conns_ok_def)

lemma conns_ok_pend: "conns_ok e P T \<Longrightarrow> c \<in> P \<Longrightarrow> c < ch_dialed T"
  unfolding conns_ok_def by (metis UnI2 lessThan_iff)

lemma length_filter_delete:
  assumes "distinct (map fst al)" "(c, r) \<in> set al"
  shows "length (filter P al) = length (filter P (AList.delete c al)) + (if P (c, r) then 1 else 0)"
  using assms
proof (induction al)
  case (Cons x al)
  have "AList.delete c al = al" if "c \<notin> fst ` set al" using that by (simp add: AList.delete_id)
  with Cons show ?case by (cases x) (auto simp: image_iff)
qed simp

lemma filter_update_fresh: "c \<notin> fst ` set al \<Longrightarrow> AList.update c r al = al @ [(c, r)]"
  by (induction al) auto

lemma burn_is_drop: "burn_conn r c T = drop_conn r c T"
  by (simp add: burn_conn_def drop_conn_def Free_def conn_Close_def set_count_def delete_conn_def set_recipe_def)

lemma drop_conn_fields [simp]:
  "ch_byConn (drop_conn r c T) = AList.delete c (ch_byConn T)" "ch_closed (drop_conn r c T) = ch_closed T @ [c]"
  "ch_byName (drop_conn r c T) = ch_byName T" "ch_order (drop_conn r c T) = ch_order T" "ch_new (drop_conn r c T) = ch_new T"
  "ch_dialed (drop_conn r c T) = ch_dialed T" "kr_recipe (ch_recipes (drop_conn r c T) x) = kr_recipe (ch_recipes T x)"
  "ch_recipes (drop_conn r c T) r = (ch_recipes T r)\<lparr>kr_conns := filter (\<lambda>x. x \<noteq> c) (kr_conns (ch_recipes T r))\<rparr>"
  "x \<noteq> r \<Longrightarrow> ch_recipes (drop_conn r c T) x = ch_recipes T x"
  "pr_count (ch_pool (drop_conn r c T) p) = pr_count (ch_pool T p) - (if p = kr_recipe (ch_recipes T r) then 1 else 0)"
  "pr_MaxConnections (ch_pool (drop_conn r c T) p) = pr_MaxConnections (ch_pool T p)"
  "pr_MinConnections (ch_pool (drop_conn r c T) p) = pr_MinConnections (ch_pool T p)"
  by (simp_all add: drop_conn_def delete_conn_def set_recipe_def Free_def set_count_def conn_Close_def)

lemma used_drop:
  assumes "distinct (map fst (ch_byConn T))" "(c, r) \<in> set (ch_byConn T)"
  shows "used p T = used p (drop_conn r c T) + (if p = kr_recipe (ch_recipes T r) then 1 else 0)"
  using length_filter_delete [OF assms, of "\<lambda>(c, r). kr_recipe (ch_recipes T r) = p"] by (auto simp: used_def)

lemma in_delete: "(x, y) \<in> set (AList.delete c al) \<longleftrightarrow> x \<noteq> c \<and> (x, y) \<in> set al"
  by (auto simp: AList.delete_eq)

lemma keys_delete: "fst ` set (AList.delete c al) = fst ` set al - {c}"
  by (auto simp: AList.delete_eq image_iff)

lemma drop_conn_ok:
  assumes "conns_ok e P T" "(c, r) \<in> set (ch_byConn T)"
  shows "conns_ok e P (drop_conn r c T)"
proof -
  note d = conns_okD [OF assms(1)]
  have c: "c \<in> fst ` set (ch_byConn T)" using assms(2) by force
  have "pr_count (ch_pool (drop_conn r c T) p) = e p + int (used p (drop_conn r c T))" for p
    using d(5) [of p] used_drop [OF d(1) assms(2), of p] by simp
  moreover have "distinct (kr_conns (ch_recipes (drop_conn r c T) x)) \<and>
      (\<forall>y. y \<in> set (kr_conns (ch_recipes (drop_conn r c T) x)) \<longleftrightarrow> (y, x) \<in> set (ch_byConn (drop_conn r c T)))" if "x < ch_new T" for x
  proof (cases "x = r")
    case True
    with d(3,4) [OF that] show ?thesis by (auto simp: in_delete)
  next
    case False
    then have "(c, x) \<notin> set (ch_byConn T)" using assms(2) d(1) by (meson eq_key_imp_eq_value)
    with False d(3,4) [OF that] show ?thesis by (auto simp: in_delete)
  qed
  moreover have "distinct (map fst (AList.delete c (ch_byConn T)))" using d(1) by (rule distinct_delete)
  moreover have "{..<ch_dialed T} = set (ch_closed T) \<union> fst ` set (ch_byConn T) \<union> P"
    "set (ch_closed T) \<inter> (fst ` set (ch_byConn T) \<union> P) = {}" "fst ` set (ch_byConn T) \<inter> P = {}"
    using assms(1) by (simp_all add: conns_ok_def)
  ultimately show ?thesis using c d(2)
    by (auto simp: conns_ok_def keys_delete in_delete)
qed

lemma fold_drop_ok:
  assumes "conns_ok e P T" "distinct cs" "\<forall>c\<in>set cs. (c, r) \<in> set (ch_byConn T)"
  shows "conns_ok e P (fold (drop_conn r) cs T) \<and> set (ch_byConn (fold (drop_conn r) cs T)) = {x \<in> set (ch_byConn T). fst x \<notin> set cs} \<and>
    set (ch_closed (fold (drop_conn r) cs T)) = set (ch_closed T) \<union> set cs \<and>
    ch_order (fold (drop_conn r) cs T) = ch_order T \<and> ch_byName (fold (drop_conn r) cs T) = ch_byName T \<and>
    ch_new (fold (drop_conn r) cs T) = ch_new T \<and> ch_dialed (fold (drop_conn r) cs T) = ch_dialed T \<and>
    (\<forall>x. kr_recipe (ch_recipes (fold (drop_conn r) cs T) x) = kr_recipe (ch_recipes T x)) \<and>
    (limits_ok T \<longrightarrow> limits_ok (fold (drop_conn r) cs T))"
  using assms
proof (induction cs arbitrary: T)
  case (Cons c cs)
  then have "conns_ok e P (drop_conn r c T)" by (intro drop_conn_ok) simp_all
  moreover have "\<forall>x\<in>set cs. (x, r) \<in> set (ch_byConn (drop_conn r c T))" using Cons.prems by (auto simp: in_delete)
  moreover have "limits_ok T \<longrightarrow> limits_ok (drop_conn r c T)" by (fastforce simp: limits_ok_def Let_def)
  ultimately show ?case using Cons.IH [of "drop_conn r c T"] Cons.prems by (auto simp: in_delete)
qed simp

lemma conns_ok_names: "conns_ok e P (T\<lparr>ch_byName := a\<rparr>) = conns_ok e P T" "conns_ok e P (T\<lparr>ch_order := b\<rparr>) = conns_ok e P T"
  by (simp_all add: conns_ok_def used_def)

lemma limits_ok_names: "limits_ok (T\<lparr>ch_byName := a\<rparr>) = limits_ok T" "limits_ok (T\<lparr>ch_order := b\<rparr>) = limits_ok T"
  "limits_ok (T\<lparr>ch_byConn := c\<rparr>) = limits_ok T" "limits_ok (T\<lparr>ch_new := d\<rparr>) = limits_ok T" "limits_ok (set_recipe r k T) = limits_ok T"
  by (simp_all add: limits_ok_def set_recipe_def)

text \<open>Forgetting a recipe closes its connections, and only those.\<close>

lemma forget_ok:
  assumes "conns_ok e P T" "names_ok T" "limits_ok T"
  shows "\<exists>conns T'. forget name T = Some (conns, T') \<and> conns_ok e P T' \<and> names_ok T' \<and> limits_ok T' \<and>
    name \<notin> fst ` set (ch_byName T') \<and> ch_new T' = ch_new T \<and> ch_dialed T' = ch_dialed T \<and> same_recipes T T' \<and>
    set conns = (case map_of (ch_byName T) name of None \<Rightarrow> {} | Some r \<Rightarrow> {c. (c, r) \<in> set (ch_byConn T)}) \<and>
    set (ch_closed T') = set (ch_closed T) \<union> set conns \<and> set (ch_byConn T') = {x \<in> set (ch_byConn T). fst x \<notin> set conns}"
proof (cases "map_of (ch_byName T) name")
  case None
  then have "name \<notin> fst ` set (ch_byName T)" by (simp add: map_of_eq_None_iff)
  with None assms show ?thesis by (intro exI [of _ "[]"] exI [of _ T]) (simp add: forget_def)
next
  case (Some r)
  let ?T = "T\<lparr>ch_byName := AList.delete name (ch_byName T)\<rparr>" and ?cs = "kr_conns (ch_recipes T r)"
  have n: "(name, r) \<in> set (ch_byName T)" using Some by (rule map_of_SomeD)
  then have "r \<in> snd ` set (ch_byName T)" by force
  then have r: "r \<in> set (ch_order T)" "r < ch_new T" using assms(2) by (simp_all add: names_ok_def)
  note d = conns_okD [OF assms(1)]
  have cs: "distinct ?cs" "\<forall>c\<in>set ?cs. (c, r) \<in> set (ch_byConn ?T)" using d(3,4) [OF r(2)] by simp_all
  have "conns_ok e P ?T" "limits_ok ?T" using assms by (simp_all add: conns_ok_names limits_ok_names)
  note f = fold_drop_ok [OF this(1) cs]
  let ?T1 = "fold (drop_conn r) ?cs ?T"
  have set: "set ?cs = {c. (c, r) \<in> set (ch_byConn T)}" using d(4) [OF r(2)] by auto
  have f': "forget name T = Some (?cs, ?T1\<lparr>ch_order := remove1 r (ch_order T)\<rparr>)"
    using Some f by (simp add: forget_def slices_Remove_remove1 Let_def)
  have other: "snd ` set (AList.delete name (ch_byName T)) = snd ` set (ch_byName T) - {r}"
    using n assms(2) by (auto simp: AList.delete_eq names_ok_def image_iff) (metis eq_key_imp_eq_value inj_onD distinct_map prod.inject snd_conv)+
  have "distinct (map snd (AList.delete name (ch_byName T)))"
    using assms(2) by (auto simp: names_ok_def AList.delete_eq distinct_map intro: inj_on_subset)
  then have "names_ok (?T1\<lparr>ch_order := remove1 r (ch_order T)\<rparr>)"
    using assms(2) other f by (auto simp: names_ok_def distinct_delete set_remove1_eq)
  moreover have "conns_ok e P (?T1\<lparr>ch_order := remove1 r (ch_order T)\<rparr>)" "limits_ok (?T1\<lparr>ch_order := remove1 r (ch_order T)\<rparr>)"
    using f \<open>limits_ok ?T\<close> by (simp_all add: conns_ok_names limits_ok_names)
  moreover have "same_recipes T (?T1\<lparr>ch_order := remove1 r (ch_order T)\<rparr>)" using f by (simp add: same_recipes_def)
  ultimately show ?thesis using f' f set Some by (auto simp: keys_delete)
qed

section \<open>Dialling\<close>

definition bump :: "nat \<Rightarrow> int \<Rightarrow> (nat \<Rightarrow> int) \<Rightarrow> nat \<Rightarrow> int" where
  "bump p n e = e(p := e p + n)"

lemma bump_simps [simp]: "bump p 0 e = e" "bump p m (bump p n e) = bump p (n + m) e"
  by (auto simp: bump_def)

lemma Dial_cases:
  obtains (err) e ds l where "Dial T = (Inl e, T\<lparr>ch_dials := ds, ch_lost := l\<rparr>)"
    | (conn) ds where "Dial T = (Inr (ch_dialed T), T\<lparr>ch_dials := ds, ch_dialed := ch_dialed T + 1\<rparr>)"
proof (cases "ch_dials T")
  case Nil
  then show thesis by (intro conn [of "[]"]) (simp add: Dial_def)
next
  case (Cons d ds)
  show thesis
  proof (cases d)
    case DialOk
    with Cons show thesis by (intro conn [of ds]) (simp add: Dial_def)
  next
    case (DialRefused e)
    with Cons show thesis by (intro err [of e "ch_lost T" ds]) (simp add: Dial_def)
  next
    case (LoginFailed e)
    with Cons show thesis by (intro err [of e "ch_lost T + 1" ds]) (simp add: Dial_def)
  qed
qed

lemma conns_ok_env [simp]:
  "conns_ok e P (T\<lparr>ch_dials := a\<rparr>) = conns_ok e P T" "conns_ok e P (T\<lparr>ch_clock := b\<rparr>) = conns_ok e P T"
  "conns_ok e P (T\<lparr>ch_tastes := c\<rparr>) = conns_ok e P T" "conns_ok e P (T\<lparr>ch_lost := l\<rparr>) = conns_ok e P T"
  by (simp_all add: conns_ok_def used_def)

lemma names_ok_env [simp]:
  "names_ok (T\<lparr>ch_dials := a\<rparr>) = names_ok T" "names_ok (T\<lparr>ch_clock := b\<rparr>) = names_ok T"
  "names_ok (T\<lparr>ch_lost := l\<rparr>) = names_ok T" "names_ok (T\<lparr>ch_tastes := c\<rparr>) = names_ok T" "names_ok (T\<lparr>ch_dialed := d\<rparr>) = names_ok T"
  "names_ok (set_count p n T) = names_ok T" "names_ok (conn_Close x T) = names_ok T" "names_ok (set_recipe r k T) = names_ok T"
  by (simp_all add: names_ok_def set_count_def conn_Close_def set_recipe_def)

lemma limits_ok_env [simp]:
  "limits_ok (T\<lparr>ch_dials := a\<rparr>) = limits_ok T" "limits_ok (T\<lparr>ch_clock := b\<rparr>) = limits_ok T"
  "limits_ok (T\<lparr>ch_lost := l\<rparr>) = limits_ok T" "limits_ok (T\<lparr>ch_tastes := c\<rparr>) = limits_ok T" "limits_ok (T\<lparr>ch_dialed := d\<rparr>) = limits_ok T" "limits_ok (conn_Close x T) = limits_ok T"
  by (simp_all add: limits_ok_def conn_Close_def)

lemma set_count_fields [simp]:
  "ch_dialed (set_count p n T) = ch_dialed T" "ch_recipes (set_count p n T) = ch_recipes T" "ch_order (set_count p n T) = ch_order T"
  "ch_byName (set_count p n T) = ch_byName T" "ch_byConn (set_count p n T) = ch_byConn T" "ch_new (set_count p n T) = ch_new T"
  "ch_closed (set_count p n T) = ch_closed T"
  by (simp_all add: set_count_def)

lemma conns_ok_dial:
  assumes "conns_ok e P T"
  shows "conns_ok e (insert (ch_dialed T) P) (T\<lparr>ch_dialed := ch_dialed T + 1\<rparr>)"
proof -
  have "{..<ch_dialed T + 1} = insert (ch_dialed T) {..<ch_dialed T}" by auto
  moreover have "ch_dialed T \<notin> {..<ch_dialed T}" by simp
  ultimately show ?thesis using assms by (auto simp: conns_ok_def used_def)
qed

lemma conns_ok_Dial:
  "conns_ok e P T \<Longrightarrow> conns_ok e (insert (ch_dialed T) P) (T\<lparr>ch_dials := ds, ch_dialed := ch_dialed T + 1\<rparr>)"
  using conns_ok_dial [of e P "T\<lparr>ch_dials := ds\<rparr>"] by simp

lemma conns_ok_close:
  assumes "conns_ok e (insert c P) T" "c \<notin> P"
  shows "conns_ok e P (conn_Close c T)"
  using assms by (auto simp: conns_ok_def used_def conn_Close_def)

lemma conns_ok_count:
  assumes "conns_ok e P T"
  shows "conns_ok (bump p k e) P (set_count p (pr_count (ch_pool T p) + k) T)"
  using assms by (simp add: conns_ok_def used_def set_count_def bump_def)

lemma limits_ok_Free: "limits_ok T \<Longrightarrow> limits_ok (Free p T)"
  by (fastforce simp: limits_ok_def Let_def Free_def set_count_def)

lemma Free_ok: "conns_ok e P T \<Longrightarrow> conns_ok (bump p (- 1) e) P (Free p T)"
  using conns_ok_count [of e P T p "- 1"] by (simp add: Free_def)

lemma Free_fields [simp]:
  "names_ok (Free p T) = names_ok T" "ch_dialed (Free p T) = ch_dialed T" "ch_recipes (Free p T) = ch_recipes T" "ch_order (Free p T) = ch_order T"
  "ch_new (Free p T) = ch_new T" "ch_byConn (Free p T) = ch_byConn T" "ch_closed (Free p T) = ch_closed T" "ch_byName (Free p T) = ch_byName T"
  by (simp_all add: Free_def)

lemma Free_iter_ok:
  assumes "conns_ok e P T" "names_ok T" "limits_ok T"
  shows "conns_ok (bump p (- int k) e) P ((Free p ^^ k) T) \<and> names_ok ((Free p ^^ k) T) \<and> limits_ok ((Free p ^^ k) T) \<and>
    ch_dialed ((Free p ^^ k) T) = ch_dialed T \<and> same_recipes T ((Free p ^^ k) T)"
proof (induction k)
  case (Suc k)
  then show ?case using Free_ok [of "bump p (- int k) e" P "(Free p ^^ k) T" p] limits_ok_Free
    by (simp add: same_recipes_def algebra_simps)
qed (use assms in simp)

lemma learn_dial_ok:
  assumes "conns_ok (bump p (int (length added + n)) e) (P \<union> set added) T" "distinct added" "set added \<inter> P = {}" "names_ok T" "limits_ok T"
    "learn_dial p n added T = (added', T')"
  shows "conns_ok (bump p (int (length added')) e) (P \<union> set added') T' \<and> distinct added' \<and> set added' \<inter> P = {} \<and>
    names_ok T' \<and> limits_ok T' \<and> same_recipes T T'"
  using assms
proof (induction n arbitrary: added T)
  case (Suc n)
  show ?case
  proof (cases T rule: Dial_cases)
    case (err x ds l)
    let ?T = "T\<lparr>ch_dials := ds, ch_lost := l\<rparr>"
    have r: "added' = added" "T' = (Free p ^^ Suc n) ?T" using err Suc.prems(6) by simp_all
    have "conns_ok (bump p (int (length added + Suc n)) e) (P \<union> set added) ?T" "names_ok ?T"
      "limits_ok ?T" using Suc.prems(1,4,5) by simp_all
    note fr = Free_iter_ok [OF this, of p "Suc n"]
    then have "same_recipes T T'" unfolding r by (simp add: same_recipes_def)
    with fr Suc.prems(2,3) show ?thesis unfolding r by (simp del: funpow.simps)
  next
    case (conn ds)
    let ?c = "ch_dialed T" and ?T = "T\<lparr>ch_dials := ds, ch_dialed := ch_dialed T + 1\<rparr>"
    have "?c \<notin> P \<union> set added" using conns_ok_pend [OF Suc.prems(1), of ?c] by auto
    moreover have "conns_ok (bump p (int (length added + Suc n)) e) (insert ?c (P \<union> set added)) ?T"
      using conns_ok_Dial Suc.prems(1) by blast
    moreover have "learn_dial p n (added @ [?c]) ?T = (added', T')" using Suc.prems(6) conn by simp
    moreover have "names_ok ?T" "limits_ok ?T" using Suc.prems(4,5) by simp_all
    moreover have "same_recipes T ?T" by (simp add: same_recipes_def)
    ultimately show ?thesis using Suc.prems(2,3) Suc.IH [of "added @ [?c]" ?T] same_recipes_trans by simp
  qed
qed simp

section \<open>Registering connections\<close>

lemma fold_update_fresh:
  "distinct cs \<Longrightarrow> set cs \<inter> fst ` set al = {} \<Longrightarrow> fold (\<lambda>c. AList.update c r) cs al = al @ map (\<lambda>c. (c, r)) cs"
proof (induction cs arbitrary: al)
  case (Cons c cs)
  then show ?case by (simp add: filter_update_fresh)
qed simp

lemma register_ok:
  assumes "conns_ok (bump p (int (length cs)) e) (P \<union> set cs) T" "distinct cs" "set cs \<inter> P = {}"
  shows "conns_ok e P ((set_recipe (ch_new T) (NewRecipe p cs) (T\<lparr>ch_new := ch_new T + 1\<rparr>))
    \<lparr>ch_byConn := ch_byConn T @ map (\<lambda>c. (c, ch_new T)) cs\<rparr>)" (is "conns_ok _ _ ?T")
proof -
  note d = conns_okD [OF assms(1)]
  have "filter (\<lambda>(c, r). kr_recipe (ch_recipes ?T r) = q) (ch_byConn T) = filter (\<lambda>(c, r). kr_recipe (ch_recipes T r) = q) (ch_byConn T)" for q
    by (rule filter_cong) (use d(2) in \<open>auto simp: set_recipe_def\<close>)
  then have "used q ?T = used q T + (if q = p then length cs else 0)" for q
    by (auto simp: used_def set_recipe_def NewRecipe_def filter_map comp_def)
  with d(5) have "pr_count (ch_pool ?T q) = e q + int (used q ?T)" for q by (simp add: bump_def set_recipe_def)
  moreover have "distinct (kr_conns (ch_recipes ?T r)) \<and> (\<forall>c. c \<in> set (kr_conns (ch_recipes ?T r)) \<longleftrightarrow> (c, r) \<in> set (ch_byConn ?T))"
    if "r < ch_new T + 1" for r
    using d(2) [of _ "ch_new T"] d(3,4) [of r] that by (cases "r = ch_new T") (auto simp: set_recipe_def NewRecipe_def)
  moreover have "r < ch_new T + 1" if "(c, r) \<in> set (ch_byConn ?T)" for c r using that d(2) [of c r] by auto
  moreover have "distinct (map fst (ch_byConn ?T))" using assms by (auto simp: conns_ok_def comp_def)
  ultimately show ?thesis using assms(1,3) by (auto simp: conns_ok_def set_recipe_def image_Un image_image)
qed

lemma AllocateInitial_ok:
  assumes "kitchen_inv e P T" "AllocateInitial p T = (n, T')"
  shows "0 \<le> n \<and> kitchen_inv (bump p n e) P T' \<and> same_recipes T T'"
proof (cases "pr_count (ch_pool T p) \<ge> pr_MinConnections (ch_pool T p)")
  case False
  let ?n = "pr_MinConnections (ch_pool T p) - pr_count (ch_pool T p)"
  have "conns_ok (bump p ?n e) P (set_count p (pr_count (ch_pool T p) + ?n) T)"
    by (rule conns_ok_count) (use assms(1) in \<open>simp add: kitchen_inv_def\<close>)
  moreover have "limits_ok (set_count p (pr_MinConnections (ch_pool T p)) T)"
    using assms(1) by (auto simp: kitchen_inv_def limits_ok_def set_count_def Let_def)
  ultimately show ?thesis using False assms by (auto simp: AllocateInitial_def Let_def kitchen_inv_def same_recipes_def)
qed (use assms in \<open>auto simp: AllocateInitial_def\<close>)

section \<open>Every operation keeps the invariant\<close>

lemma learn_finish_ok:
  assumes "kitchen_inv (bump p (int (length added)) e) (P \<union> set added) T" "distinct added" "set added \<inter> P = {}"
  shows "\<exists>removed T'. learn_finish name p added T = Some ((removed, added), T') \<and> kitchen_inv e P T' \<and> same_recipes T T' \<and>
    set removed \<subseteq> fst ` set (ch_byConn T) \<and> ch_dialed T' = ch_dialed T \<and>
    fst ` set (ch_byConn T') = (fst ` set (ch_byConn T) - set removed) \<union> set added"
proof -
  let ?e = "bump p (int (length added)) e" and ?P = "P \<union> set added"
  have T: "conns_ok ?e ?P T" "names_ok T" "limits_ok T" using assms(1) by (simp_all add: kitchen_inv_def)
  from forget_ok [OF T, of name] obtain removed T3 where f: "forget name T = Some (removed, T3)"
    "conns_ok ?e ?P T3" "names_ok T3" "limits_ok T3" "name \<notin> fst ` set (ch_byName T3)" "same_recipes T T3"
    "set removed = (case map_of (ch_byName T) name of None \<Rightarrow> {} | Some r \<Rightarrow> {c. (c, r) \<in> set (ch_byConn T)})"
    "set (ch_byConn T3) = {x \<in> set (ch_byConn T). fst x \<notin> set removed}" "ch_dialed T3 = ch_dialed T"
    by (elim exE conjE) rule
  let ?r = "ch_new T3"
  have "set added \<inter> fst ` set (ch_byConn T3) = {}" using f(2) by (auto simp: conns_ok_def)
  note u = fold_update_fresh [OF assms(2) this, of ?r] filter_update_fresh [OF f(5), of ?r]
  let ?T = "(set_recipe ?r (NewRecipe p added) (T3\<lparr>ch_new := ?r + 1\<rparr>))\<lparr>ch_byConn := ch_byConn T3 @ map (\<lambda>c. (c, ?r)) added\<rparr>"
  let ?T' = "?T\<lparr>ch_byName := ch_byName T3 @ [(name, ?r)], ch_order := ch_order T3 @ [?r]\<rparr>"
  have L: "learn_finish name p added T = Some ((removed, added), ?T')"
    using f(1) u by (simp add: learn_finish_def Let_def set_recipe_def)
  have "conns_ok e P ?T'" using register_ok [OF f(2) assms(2,3)] by (simp add: conns_ok_names)
  moreover have "limits_ok ?T'" using f(4) by (simp add: limits_ok_names)
  moreover have "\<forall>r\<in>set (ch_order T3). r < ?r" using f(3) by (simp add: names_ok_def)
  then have "\<forall>r\<in>set (ch_order T3) \<union> {?r}. r < ?r + 1" "?r \<notin> set (ch_order T3)" by (auto simp: less_Suc_eq)
  then have "names_ok ?T'" using f(3,5) unfolding names_ok_def by (simp add: set_recipe_def image_Un)
  ultimately have "kitchen_inv e P ?T'" by (simp add: kitchen_inv_def)
  moreover have "same_recipes T ?T'" using f(6) by (auto simp: same_recipes_def set_recipe_def)
  moreover have "fst ` set (ch_byConn ?T') = (fst ` set (ch_byConn T) - set removed) \<union> set added"
    using f(8) by (auto simp: image_Un image_image)
  moreover have "set removed \<subseteq> fst ` set (ch_byConn T)" using f(7) by (force split: option.splits)
  moreover have "ch_dialed ?T' = ch_dialed T" using f(9) by (simp add: set_recipe_def)
  ultimately show ?thesis using L by blast
qed

lemma Learn_ok:
  assumes "kitchen_inv e P T"
  shows "\<exists>removed added T'. Learn name p T = Some ((removed, added), T') \<and> kitchen_inv e P T' \<and> same_recipes T T'"
proof -
  obtain n T1 where a: "AllocateInitial p T = (n, T1)" by fastforce
  obtain added T2 where l: "learn_dial p (nat n) [] T1 = (added, T2)" by fastforce
  note a' = AllocateInitial_ok [OF assms a]
  then have T2: "conns_ok (bump p (int (length added)) e) (P \<union> set added) T2 \<and> distinct added \<and> set added \<inter> P = {} \<and>
      names_ok T2 \<and> limits_ok T2 \<and> same_recipes T1 T2"
    by (intro learn_dial_ok [OF _ _ _ _ _ l]) (simp_all add: kitchen_inv_def)
  then have "kitchen_inv (bump p (int (length added)) e) (P \<union> set added) T2" by (simp add: kitchen_inv_def)
  from learn_finish_ok [OF this, of name] T2 obtain removed T' where
    "learn_finish name p added T2 = Some ((removed, added), T')" "kitchen_inv e P T'" "same_recipes T2 T'" by auto
  with a a' l T2 show ?thesis by (auto simp: Learn_def dest: same_recipes_trans)
qed

lemma Burn_ok: "kitchen_inv e P T \<Longrightarrow> kitchen_inv e P (Burn c T) \<and> same_recipes T (Burn c T)"
proof -
  assume i: "kitchen_inv e P T"
  show ?thesis
  proof (cases "map_of (ch_byConn T) c")
    case (Some r)
    then have "(c, r) \<in> set (ch_byConn T)" by (rule map_of_SomeD)
    from fold_drop_ok [of e P T "[c]" r] this i Some show ?thesis
      by (auto simp: Burn_def burn_is_drop kitchen_inv_def names_ok_def same_recipes_def)
  qed (use i in \<open>simp add: Burn_def\<close>)
qed

lemma Ignite_Burn: "Ignite c T = (True, T') \<Longrightarrow> T' = Burn c T"
  by (auto simp: Ignite_def Burn_def burn_conn_def TryFree_def Free_def Let_def split: option.splits if_splits)

lemma Ignite_ok: "kitchen_inv e P T \<Longrightarrow> kitchen_inv e P (snd (Ignite c T)) \<and> same_recipes T (snd (Ignite c T))"
proof -
  assume i: "kitchen_inv e P T"
  obtain b T' where r: "Ignite c T = (b, T')" by fastforce
  show ?thesis
  proof (cases b)
    case True
    with r Ignite_Burn [of c T T'] Burn_ok [OF i] show ?thesis by simp
  next
    case False
    with r i show ?thesis by (auto simp: Ignite_def TryFree_def Let_def split: option.splits if_splits)
  qed
qed

lemma fold_burn_ok:
  assumes "conns_ok e P T" "ch_byConn T = al" "ch_byName T = []" "ch_order T = []" "limits_ok T"
  shows "conns_ok e P (fold (\<lambda>(c, r). burn_conn r c) al T) \<and> ch_byConn (fold (\<lambda>(c, r). burn_conn r c) al T) = [] \<and>
    ch_byName (fold (\<lambda>(c, r). burn_conn r c) al T) = [] \<and> ch_order (fold (\<lambda>(c, r). burn_conn r c) al T) = [] \<and>
    ch_dialed (fold (\<lambda>(c, r). burn_conn r c) al T) = ch_dialed T \<and> same_recipes T (fold (\<lambda>(c, r). burn_conn r c) al T) \<and> limits_ok (fold (\<lambda>(c, r). burn_conn r c) al T)"
  using assms
proof (induction al arbitrary: T)
  case (Cons x al)
  obtain c r where x: "x = (c, r)" by (cases x)
  from conns_okD(1) [OF Cons.prems(1)] Cons.prems(2) x have "c \<notin> fst ` set al" by simp
  then have "AList.delete c al = al" by (simp add: AList.delete_id)
  with x Cons.prems have b: "ch_byConn (drop_conn r c T) = al" "ch_byName (drop_conn r c T) = []" "ch_order (drop_conn r c T) = []" by simp_all
  have "conns_ok e P (drop_conn r c T)" by (rule drop_conn_ok [OF Cons.prems(1)]) (use Cons.prems(2) x in simp)
  moreover have "limits_ok (drop_conn r c T)" using Cons.prems(5) by (fastforce simp: limits_ok_def Let_def)
  moreover have "same_recipes T (drop_conn r c T)" by (simp add: same_recipes_def)
  ultimately show ?case using Cons.IH [of "drop_conn r c T"] b x same_recipes_trans by (auto simp: burn_is_drop)
qed simp

lemma Chef_Close_ok:
  assumes "kitchen_inv e P T"
  shows "kitchen_inv e P (Chef_Close T) \<and> ch_byConn (Chef_Close T) = [] \<and> ch_byName (Chef_Close T) = [] \<and>
    ch_dialed (Chef_Close T) = ch_dialed T \<and> same_recipes T (Chef_Close T)"
  using assms fold_burn_ok [of e P "T\<lparr>ch_byName := [], ch_order := []\<rparr>" "ch_byConn T"]
  by (simp add: kitchen_inv_def Chef_Close_def conns_ok_names limits_ok_names names_ok_def same_recipes_def)

subsection \<open>Scoring\<close>

lemma conns_ok_set_recipe:
  assumes "kr_recipe k = kr_recipe (ch_recipes T r)" "kr_conns k = kr_conns (ch_recipes T r)"
  shows "conns_ok e P (set_recipe r k T) = conns_ok e P T"
proof -
  have "kr_recipe (ch_recipes (set_recipe r k T) x) = kr_recipe (ch_recipes T x)" "kr_conns (ch_recipes (set_recipe r k T) x) = kr_conns (ch_recipes T x)" for x
    using assms by (simp_all add: set_recipe_def)
  then show ?thesis by (simp add: conns_ok_def used_def) (simp add: set_recipe_def)
qed

text \<open>A step that touches neither connections nor counts.\<close>

definition untouched :: "Chef \<Rightarrow> Chef \<Rightarrow> bool" where
  "untouched T T' \<longleftrightarrow> (\<forall>e P. conns_ok e P T' = conns_ok e P T) \<and> names_ok T' = names_ok T \<and> limits_ok T' = limits_ok T \<and>
     ch_byName T' = ch_byName T \<and> ch_order T' = ch_order T \<and> ch_dialed T' = ch_dialed T \<and> ch_byConn T' = ch_byConn T \<and>
     same_recipes T T'"

lemma untouched_trans: "untouched T T' \<Longrightarrow> untouched T' T'' \<Longrightarrow> untouched T T''"
  using same_recipes_trans [of T T' T''] by (simp add: untouched_def)

lemma untouched_now: "time_Now T = (t, T') \<Longrightarrow> untouched T T'"
  by (auto simp: time_Now_def untouched_def same_recipes_def split: list.splits)

lemma untouched_Taste: "Taste T = (t, T') \<Longrightarrow> untouched T T'"
  by (auto simp: Taste_def untouched_def same_recipes_def split: list.splits)

lemma untouched_set_recipe:
  "kr_recipe k = kr_recipe (ch_recipes T r) \<Longrightarrow> kr_conns k = kr_conns (ch_recipes T r) \<Longrightarrow> untouched T (set_recipe r k T)"
  by (simp add: untouched_def conns_ok_set_recipe limits_ok_names) (auto simp: set_recipe_def same_recipes_def)

lemma untouched_taste_loop: "taste_loop cs tot rs T = (res, T') \<Longrightarrow> untouched T T'"
proof (induction cs tot rs T rule: taste_loop.induct)
  case (3 critics tot ratings T)
  obtain q T1 where q: "Taste T = (q, T1)" by fastforce
  obtain now T2 where n: "time_Now T1 = (now, T2)" by fastforce
  show ?case
  proof (cases q)
    case (Inl e)
    with 3(2) q untouched_Taste [OF q] show ?thesis by simp
  next
    case (Inr s)
    obtain sc v where s: "s = (sc, v)" by (cases s)
    with Inr 3(2) q n have "taste_loop critics (wrap64 (tot + sc)) (ratings @ [Some \<lparr>rt_Expiration = now + v, rt_Score = sc\<rparr>]) T2 = (res, T')" by simp
    with 3(1) [OF q [symmetric] Inr s [symmetric] n [symmetric]] untouched_trans [OF untouched_Taste [OF q] untouched_now [OF n]] untouched_trans
    show ?thesis by blast
  qed
qed (simp_all add: untouched_def)

lemma untouched_keeps:
  "untouched T T' \<Longrightarrow> kitchen_inv e P T \<Longrightarrow> kitchen_inv e P T' \<and> ch_byName T' = ch_byName T \<and> ch_order T' = ch_order T \<and>
    same_recipes T T'"
  by (simp add: untouched_def kitchen_inv_def)

lemma untouched_dials: "untouched T (T\<lparr>ch_dials := ds, ch_lost := l\<rparr>)"
  by (simp add: untouched_def same_recipes_def)

lemma resize_ratings: "slices_Resize z (go_len xs) xs (int n) = Some (take n xs @ replicate (n - length xs) z)"
  by (simp add: slices_Resize_ok)

lemma untouched_ratings: "untouched T (set_recipe r ((ch_recipes T r)\<lparr>kr_ratings := x\<rparr>) T)"
  "untouched T (set_recipe r ((ch_recipes T r)\<lparr>kr_score := y\<rparr>) T)"
  "untouched T (set_recipe r ((ch_recipes T r)\<lparr>kr_score := y, kr_ratings := x\<rparr>) T)"
  by (rule untouched_set_recipe; simp)+

lemma untouched_failed: "untouched T (score_failed r err T)"
  using untouched_ratings(2) [of T r MaxInt] by (cases err) (simp_all add: score_failed_def untouched_def)

lemma score_start_ok: "\<exists>todo T'. score_start r T = Some (todo, T') \<and> untouched T T'"
proof -
  obtain now T1 where t: "time_Now T = (now, T1)" by fastforce
  have "untouched T (set_recipe r ((ch_recipes T1 r)\<lparr>kr_ratings := rs\<rparr>) T1)" for rs
    by (rule untouched_trans [OF untouched_now [OF t] untouched_ratings(1)])
  then show ?thesis unfolding score_start_def t prod.case Let_def resize_ratings by simp
qed

lemma score_store_ok: "\<exists>T'. score_store r tot new T = Some T' \<and> untouched T T'"
  unfolding score_store_def Let_def resize_ratings using untouched_ratings(3) by simp

lemma score_taste_ok:
  assumes "kitchen_inv e (insert c P) T" "c \<notin> P"
  shows "\<exists>err T'. score_taste r cs tot c T = Some (err, T') \<and> kitchen_inv e P T' \<and> ch_byName T' = ch_byName T \<and> ch_order T' = ch_order T \<and>
    same_recipes T T' \<and> ch_byConn T' = ch_byConn T \<and> ch_dialed T' = ch_dialed T"
proof -
  obtain res T4 where tl: "taste_loop cs tot [] T = (res, T4)" by fastforce
  note u = untouched_taste_loop [OF tl]
  let ?T = "conn_Close c T4"
  have "conns_ok e P ?T" by (rule conns_ok_close [OF _ assms(2)]) (use assms(1) u in \<open>simp add: kitchen_inv_def untouched_def\<close>)
  then have c: "kitchen_inv e P ?T" using assms(1) u by (simp add: kitchen_inv_def untouched_def)
  have k: "ch_byName ?T = ch_byName T" "ch_order ?T = ch_order T" "ch_byConn ?T = ch_byConn T" "ch_dialed ?T = ch_dialed T" "same_recipes T ?T"
    using u by (simp_all add: conn_Close_def untouched_def same_recipes_def)
  show ?thesis
  proof (cases res)
    case (Inl e)
    with c k tl show ?thesis by (simp add: score_taste_def)
  next
    case (Inr x)
    obtain s new where x: "x = (s, new)" by (cases x)
    from score_store_ok [of r s new ?T] obtain T' where "score_store r s new ?T = Some T'" "untouched ?T T'" by blast
    with Inr x tl untouched_keeps [OF _ c, of T'] k same_recipes_trans [OF k(5), of T'] show ?thesis
      by (simp add: score_taste_def untouched_def)
  qed
qed

lemma rescore_ok:
  assumes "kitchen_inv e P T"
  shows "\<exists>err T'. rescore r cs tot T = Some (err, T') \<and> kitchen_inv e P T' \<and> ch_byName T' = ch_byName T \<and> ch_order T' = ch_order T \<and>
    same_recipes T T'"
proof (cases T rule: Dial_cases)
  case (err x ds l)
  with untouched_keeps [OF untouched_dials assms] show ?thesis by (simp add: rescore_def)
next
  case (conn ds)
  let ?T = "T\<lparr>ch_dials := ds, ch_dialed := ch_dialed T + 1\<rparr>"
  have "kitchen_inv e (insert (ch_dialed T) P) ?T" using assms conns_ok_Dial by (simp add: kitchen_inv_def)
  moreover have "ch_dialed T \<notin> P" using assms conns_ok_pend [of e P T "ch_dialed T"] by (auto simp: kitchen_inv_def)
  ultimately obtain err T' where "score_taste r cs tot (ch_dialed T) ?T = Some (err, T')" "kitchen_inv e P T'"
    "ch_byName T' = ch_byName T" "ch_order T' = ch_order T" "same_recipes ?T T'"
    using score_taste_ok [of e "ch_dialed T" P ?T r cs tot] by auto
  with conn show ?thesis by (simp add: rescore_def same_recipes_def)
qed

lemma score_ok:
  assumes "kitchen_inv e P T"
  shows "\<exists>err T'. score r T = Some (err, T') \<and> kitchen_inv e P T' \<and> ch_byName T' = ch_byName T \<and> ch_order T' = ch_order T \<and> same_recipes T T'"
proof -
  from score_start_ok [of r T] obtain todo T1 where s: "score_start r T = Some (todo, T1)" "untouched T T1" by blast
  from untouched_keeps [OF s(2) assms] have i: "kitchen_inv e P T1" "ch_byName T1 = ch_byName T" "ch_order T1 = ch_order T" "same_recipes T T1"
    by simp_all
  show ?thesis
  proof (cases todo)
    case (Some x)
    obtain cs tot where x: "x = (cs, tot)" by (cases x)
    from rescore_ok [OF i(1), of r cs tot] obtain err T' where "rescore r cs tot T1 = Some (err, T')" "kitchen_inv e P T'"
      "ch_byName T' = ch_byName T1" "ch_order T' = ch_order T1" "same_recipes T1 T'" by (elim exE conjE) rule
    with s(1) Some x i same_recipes_trans [OF i(4), of T'] show ?thesis by (simp add: score_def)
  qed (use s(1) i in \<open>simp add: score_def\<close>)
qed

lemma score_all_ok:
  "kitchen_inv e P T \<Longrightarrow> \<exists>T'. score_all rs T = Some T' \<and> kitchen_inv e P T' \<and> ch_byName T' = ch_byName T \<and> ch_order T' = ch_order T \<and>
    same_recipes T T'"
proof (induction rs arbitrary: T)
  case (Cons r rs)
  from score_ok [OF Cons.prems, of r] obtain err T1 where s: "score r T = Some (err, T1)" "kitchen_inv e P T1" "ch_byName T1 = ch_byName T"
    "ch_order T1 = ch_order T" "same_recipes T T1" by (elim exE conjE) rule
  from untouched_keeps [OF untouched_failed s(2), of r err] have f: "kitchen_inv e P (score_failed r err T1)"
    "ch_byName (score_failed r err T1) = ch_byName T" "ch_order (score_failed r err T1) = ch_order T" "same_recipes T1 (score_failed r err T1)"
    using s(3,4) by simp_all
  with Cons.IH [OF f(1)] s(1) same_recipes_trans [OF same_recipes_trans [OF s(5) f(4)]] show ?case by auto
qed simp

subsection \<open>Cooking\<close>

lemma Allocate_ok:
  assumes "kitchen_inv e P T" "Allocate p T = (True, T')"
  shows "kitchen_inv (bump p 1 e) P T' \<and> T' = set_count p (pr_count (ch_pool T p) + 1) T"
proof -
  have T': "T' = set_count p (pr_count (ch_pool T p) + 1) T"
    and l: "pr_MaxConnections (ch_pool T p) \<noteq> 0 \<longrightarrow> pr_count (ch_pool T p) < pr_MaxConnections (ch_pool T p)"
    using assms(2) by (auto simp: Allocate_def Let_def split: if_splits)
  have "conns_ok (bump p 1 e) P T'" unfolding T' by (rule conns_ok_count) (use assms(1) in \<open>simp add: kitchen_inv_def\<close>)
  moreover have "limits_ok T'" using assms(1) l unfolding T' by (auto simp: kitchen_inv_def limits_ok_def set_count_def Let_def)
  ultimately show ?thesis using assms(1) T' by (simp add: kitchen_inv_def)
qed

lemma cook_finish_fields [simp]:
  "kr_recipe (ch_recipes (cook_finish r c T) x) = kr_recipe (ch_recipes T x)" "ch_new (cook_finish r c T) = ch_new T"
  "ch_closed (cook_finish r c T) = ch_closed T" "ch_dialed (cook_finish r c T) = ch_dialed T" "ch_pool (cook_finish r c T) = ch_pool T"
  "names_ok (cook_finish r c T) = names_ok T" "limits_ok (cook_finish r c T) = limits_ok T"
  by (simp_all add: cook_finish_def set_recipe_def names_ok_def limits_ok_def)

lemma cook_finish_ok:
  assumes "kitchen_inv (bump (kr_recipe (ch_recipes T r)) 1 e) (insert c P) T" "r < ch_new T" "c \<notin> P"
  shows "kitchen_inv e P (cook_finish r c T)" "set (ch_byConn (cook_finish r c T)) = insert (c, r) (set (ch_byConn T))"
proof -
  have co: "conns_ok (bump (kr_recipe (ch_recipes T r)) 1 e) (insert c P) T" using assms(1) by (simp add: kitchen_inv_def)
  note d = conns_okD [OF co]
  have c: "c \<notin> fst ` set (ch_byConn T)" using co by (auto simp: conns_ok_def)
  then have u: "AList.update c r (ch_byConn T) = ch_byConn T @ [(c, r)]" by (simp add: filter_update_fresh)
  have cs: "c \<notin> set (kr_conns (ch_recipes T r))" using d(4) [OF assms(2), of c] c by force
  let ?T = "cook_finish r c T"
  have b: "ch_byConn ?T = ch_byConn T @ [(c, r)]" by (simp add: cook_finish_def set_recipe_def u)
  have "used q ?T = used q T + (if q = kr_recipe (ch_recipes T r) then 1 else 0)" for q by (simp add: used_def b)
  with d(5) have "pr_count (ch_pool ?T q) = e q + int (used q ?T)" for q by (simp add: bump_def)
  moreover have "distinct (kr_conns (ch_recipes ?T x)) \<and> (\<forall>y. y \<in> set (kr_conns (ch_recipes ?T x)) \<longleftrightarrow> (y, x) \<in> set (ch_byConn ?T))"
    if "x < ch_new T" for x
    using d(3,4) [OF that] cs unfolding b by (cases "x = r") (auto simp: cook_finish_def set_recipe_def)
  moreover have "distinct (map fst (ch_byConn ?T))" using d(1) c b by simp
  ultimately have "conns_ok e P ?T" using co assms(2,3) b by (auto simp: conns_ok_def)
  then show "kitchen_inv e P ?T" using assms(1) by (simp add: kitchen_inv_def)
  show "set (ch_byConn ?T) = insert (c, r) (set (ch_byConn T))" using b by auto
qed

lemma dial_and_finish_ok:
  assumes "kitchen_inv (bump (kr_recipe (ch_recipes T r)) 1 e) P T" "r < ch_new T"
  shows "kitchen_inv e P (cook_finish r (ch_dialed T) (T\<lparr>ch_dials := ds, ch_dialed := ch_dialed T + 1\<rparr>)) \<and>
    same_recipes T (cook_finish r (ch_dialed T) (T\<lparr>ch_dials := ds, ch_dialed := ch_dialed T + 1\<rparr>))"
proof -
  let ?T = "T\<lparr>ch_dials := ds, ch_dialed := ch_dialed T + 1\<rparr>"
  have "kitchen_inv (bump (kr_recipe (ch_recipes ?T r)) 1 e) (insert (ch_dialed T) P) ?T"
    using assms(1) conns_ok_Dial by (simp add: kitchen_inv_def)
  moreover have "ch_dialed T \<notin> P" using assms(1) conns_ok_pend [of _ P T "ch_dialed T"] by (auto simp: kitchen_inv_def)
  ultimately have "kitchen_inv e P (cook_finish r (ch_dialed T) ?T)" using assms(2) by (intro cook_finish_ok(1)) simp_all
  then show ?thesis by (simp add: same_recipes_def)
qed

lemma cook_loop_ok:
  assumes "kitchen_inv e P T" "set rs \<subseteq> set (ch_order T)" "cook_loop rs T = (res, T')"
  shows "kitchen_inv e P T' \<and> same_recipes T T'"
  using assms
proof (induction rs arbitrary: T)
  case (Cons r rs)
  let ?p = "kr_recipe (ch_recipes T r)"
  obtain b T1 where a: "Allocate ?p T = (b, T1)" by fastforce
  show ?case
  proof (cases b)
    case False
    with a have "T1 = T" by (auto simp: Allocate_def Let_def split: if_splits)
    with False a Cons show ?thesis by (simp add: Let_def)
  next
    case True
    then have "Allocate ?p T = (True, T1)" using a by simp
    note al = Allocate_ok [OF Cons.prems(1) this]
    then have r: "r < ch_new T1" "kr_recipe (ch_recipes T1 r) = ?p" "ch_order T1 = ch_order T" "same_recipes T T1"
      using Cons.prems(1,2) by (auto simp: names_ok_def kitchen_inv_def same_recipes_def)
    show ?thesis
    proof (cases T1 rule: Dial_cases)
      case (conn ds)
      have "kitchen_inv (bump (kr_recipe (ch_recipes T1 r)) 1 e) P T1" using al [THEN conjunct1] r(2) by simp
      note f = dial_and_finish_ok [OF this r(1), of ds]
      with True a conn Cons.prems(3) same_recipes_trans [OF r(4)] show ?thesis by auto
    next
      case (err x ds l)
      let ?T2 = "Free ?p (T1\<lparr>ch_dials := ds, ch_lost := l\<rparr>)"
      have "conns_ok (bump ?p (- 1) (bump ?p 1 e)) P ?T2" by (rule Free_ok) (use al [THEN conjunct1] in \<open>simp add: kitchen_inv_def\<close>)
      then have i: "kitchen_inv e P ?T2" using al [THEN conjunct1] limits_ok_Free [of "T1\<lparr>ch_dials := ds, ch_lost := l\<rparr>"] by (simp add: kitchen_inv_def)
      have s: "same_recipes T ?T2" using r(4) by (simp add: same_recipes_def)
      show ?thesis
      proof (cases "rs = []")
        case True
        with \<open>b\<close> a err Cons.prems(3) i s show ?thesis by (auto simp: Let_def)
      next
        case False
        with \<open>b\<close> a err Cons.prems i r(3) Cons.IH [of ?T2] same_recipes_trans [OF s] show ?thesis by (simp add: Let_def)
      qed
    qed
  qed
qed auto

lemma sort_order_ok: "kitchen_inv e P (sort_order T) = kitchen_inv e P T"
  by (simp add: kitchen_inv_def sort_order_def conns_ok_names limits_ok_names) (simp add: names_ok_def)

lemma Cook_ok:
  assumes "kitchen_inv e P T"
  shows "\<exists>res T'. Cook T = Some (res, T') \<and> kitchen_inv e P T' \<and> same_recipes T T'"
proof -
  from score_all_ok [OF assms, of "map snd (ch_byName T)"] obtain T1 where s: "score_all (map snd (ch_byName T)) T = Some T1"
    "kitchen_inv e P T1" "same_recipes T T1" by (elim exE conjE) rule
  obtain res T' where c: "cook_loop (ch_order (sort_order T1)) (sort_order T1) = (res, T')" by fastforce
  have "kitchen_inv e P T' \<and> same_recipes (sort_order T1) T'" using cook_loop_ok [OF _ _ c] s(2) by (simp add: sort_order_ok)
  moreover have "same_recipes T (sort_order T1)" using s(3) by (simp add: same_recipes_def sort_order_def)
  ultimately show ?thesis using s(1) c same_recipes_trans by (auto simp: Cook_def Let_def)
qed

section \<open>Runs\<close>

text \<open>Calls one after the other.\<close>

abbreviation at_rest :: "Chef \<Rightarrow> bool" where
  "at_rest \<equiv> kitchen_inv (\<lambda>_. 0) {}"

datatype chef_op =
    OLearn string nat | OForget string | OCook | OBurn nat | OIgnite nat | OClose
  | OEnv "dial_answer list" "int list" "(fed_error + int \<times> int) list"

primrec chef_step :: "chef_op \<Rightarrow> Chef \<Rightarrow> Chef option" where
  "chef_step (OLearn name p) T = map_option snd (Learn name p T)"
| "chef_step (OForget name) T = map_option snd (Forget name T)"
| "chef_step OCook T = map_option snd (Cook T)"
| "chef_step (OBurn c) T = Some (Burn c T)"
| "chef_step (OIgnite c) T = Some (snd (Ignite c T))"
| "chef_step OClose T = Some (Chef_Close T)"
| "chef_step (OEnv ds ts rs) T = Some (T\<lparr>ch_dials := ds, ch_clock := ts, ch_tastes := rs\<rparr>)"

fun chef_run :: "chef_op list \<Rightarrow> Chef \<Rightarrow> Chef option" where
  "chef_run [] T = Some T"
| "chef_run (x # xs) T = chef_step x T \<bind> chef_run xs"

lemma chef_step_inv: "at_rest T \<Longrightarrow> \<exists>T'. chef_step x T = Some T' \<and> at_rest T'"
proof (cases x)
  case (OLearn name p)
  assume "at_rest T"
  from Learn_ok [OF this, of name p] OLearn show ?thesis by auto
next
  case (OForget name)
  assume i: "at_rest T"
  then have "conns_ok (\<lambda>_. 0) {} T" "names_ok T" "limits_ok T" by (simp_all add: kitchen_inv_def)
  from forget_ok [OF this, of name] OForget show ?thesis by (auto simp: Forget_def kitchen_inv_def)
next
  case OCook
  assume "at_rest T"
  from Cook_ok [OF this] OCook show ?thesis by auto
next
  case (OEnv ds ts rs)
  assume "at_rest T"
  then show ?thesis using OEnv by (simp add: kitchen_inv_def)
qed (simp_all add: Burn_ok Ignite_ok Chef_Close_ok)

lemma MakeChef_inv: "\<forall>p. pr_count (recipes p) = 0 \<Longrightarrow> at_rest (MakeChef critics recipes)"
  by (auto simp: MakeChef_def kitchen_inv_def conns_ok_def names_ok_def limits_ok_def used_def Let_def)

lemma chef_run_inv: "at_rest T \<Longrightarrow> \<exists>T'. chef_run ops T = Some T' \<and> at_rest T'"
proof (induction ops arbitrary: T)
  case (Cons x ops)
  from chef_step_inv [OF Cons.prems, of x] obtain T1 where "chef_step x T = Some T1" "at_rest T1" by (elim exE conjE)
  with Cons.IH [of T1] show ?case by simp
qed simp

lemma kitchen_accounts_inv:
  "\<forall>p. pr_count (recipes p) = 0 \<Longrightarrow> chef_run ops (MakeChef critics recipes) = Some T \<Longrightarrow> at_rest T"
  using chef_run_inv [OF MakeChef_inv, of recipes ops critics] by auto

lemma fold_drop_order: "ch_order (fold (drop_conn r) cs T) = ch_order T"
  by (induction cs arbitrary: T) simp_all

definition sample_recipe :: PoolRecipe where
  "sample_recipe = \<lparr>pr_Priority = 0, pr_MinConnections = 1, pr_MaxConnections = 2, pr_count = 0\<rparr>"

text \<open>
  When no call is under way and the chef closes, every connection that it ever dialled is closed and every recipe counts none.
\<close>

theorem Chef_Close_leaves_none:
  assumes "\<forall>p. pr_count (recipes p) = 0" "chef_run ops (MakeChef critics recipes) = Some T"
  shows "set (ch_closed (Chef_Close T)) = {..<ch_dialed T} \<and> (\<forall>p. pr_count (ch_pool (Chef_Close T) p) = 0) \<and> Empty (Chef_Close T)"
proof -
  from kitchen_accounts_inv [OF assms] have "at_rest T" .
  note c = Chef_Close_ok [OF this]
  then have "conns_ok (\<lambda>_. 0) {} (Chef_Close T)" by (simp add: kitchen_inv_def)
  with c show ?thesis by (simp add: conns_ok_def used_def Empty_def)
qed

theorem Chef_Close_leaves_none_witness:
  "\<exists>T. chef_run [OLearn ''a'' 0, OCook] (MakeChef 0 (\<lambda>_. sample_recipe)) = Some T \<and> ch_dialed T = 2 \<and>
    set (ch_closed (Chef_Close T)) = {..<2}"
proof -
  have "map_option ch_dialed (chef_run [OLearn ''a'' 0, OCook] (MakeChef 0 (\<lambda>_. sample_recipe))) = Some 2" by code_simp
  then obtain T where t: "chef_run [OLearn ''a'' 0, OCook] (MakeChef 0 (\<lambda>_. sample_recipe)) = Some T" "ch_dialed T = 2" by auto
  have "\<forall>p::nat. pr_count sample_recipe = 0" by (simp add: sample_recipe_def)
  from Chef_Close_leaves_none [OF this t(1)] t show ?thesis by simp
qed

section \<open>The choice of a recipe\<close>

definition full :: "nat \<Rightarrow> Chef \<Rightarrow> bool" where
  "full r T \<longleftrightarrow> (let p = ch_pool T (kr_recipe (ch_recipes T r)) in pr_MaxConnections p \<noteq> 0 \<and> pr_count p \<ge> pr_MaxConnections p)"

definition rank :: "Chef \<Rightarrow> nat \<Rightarrow> int \<times> nat" where
  "rank T r = (recipe_Rating r T, length (kr_conns (ch_recipes T r)))"

lemma cook_loop_picks:
  assumes "ch_dials T = []"
  shows "(\<forall>r\<in>set rs. full r T) \<and> cook_loop rs T = (Inl ErrNoRecipes, T) \<or>
    (\<exists>pre r post T'. rs = pre @ r # post \<and> (\<forall>x\<in>set pre. full x T) \<and> \<not> full r T \<and>
       cook_loop rs T = (Inr (ch_dialed T), T') \<and> map_of (ch_byConn T') (ch_dialed T) = Some r)"
proof (induction rs)
  case (Cons r rs)
  show ?case
  proof (cases "full r T")
    case True
    then have "cook_loop (r # rs) T = cook_loop rs T" by (simp add: Allocate_def full_def Let_def)
    with Cons.IH show ?thesis
    proof (elim disjE exE conjE)
      fix pre x post T' assume "rs = pre @ x # post" "\<forall>x\<in>set pre. full x T" "\<not> full x T"
        "cook_loop rs T = (Inr (ch_dialed T), T')" "map_of (ch_byConn T') (ch_dialed T) = Some x"
      with True \<open>cook_loop (r # rs) T = cook_loop rs T\<close> show ?thesis
        by (intro disjI2 exI [of _ "r # pre"] exI [of _ x] exI [of _ post] exI [of _ T']) simp
    qed (use True in simp)
  next
    case False
    let ?p = "kr_recipe (ch_recipes T r)"
    have a: "Allocate ?p T = (True, set_count ?p (pr_count (ch_pool T ?p) + 1) T)" using False by (auto simp: Allocate_def full_def Let_def)
    let ?T = "cook_finish r (ch_dialed T) ((set_count ?p (pr_count (ch_pool T ?p) + 1) T)\<lparr>ch_dials := [], ch_dialed := ch_dialed T + 1\<rparr>)"
    have "cook_loop (r # rs) T = (Inr (ch_dialed T), ?T)" using a assms by (simp add: Dial_def Let_def) (simp add: set_count_def)
    moreover have "map_of (ch_byConn ?T) (ch_dialed T) = Some r" by (simp add: cook_finish_def set_recipe_def update_conv')
    ultimately show ?thesis using False by (intro disjI2 exI [of _ "[]"] exI [of _ r] exI [of _ rs] exI [of _ ?T]) simp
  qed
qed simp

text \<open>
  (C24) \<^verbatim>\<open>Cook\<close> uses the best recipe that has room: when dialling succeeds, the new connection belongs to a recipe below
  its limit, and every other recipe below its limit has no better rating, or the same rating and no fewer connections.
  There is no connection only when every recipe is at its limit.
\<close>

theorem Cook_picks_best:
  assumes "kitchen_inv e P T" "score_all (map snd (ch_byName T)) T = Some T1" "ch_dials T1 = []"
  shows "(\<forall>r\<in>set (ch_order T). full r T1) \<and> (\<exists>T'. Cook T = Some (Inl ErrNoRecipes, T')) \<or>
    (\<exists>c r T'. Cook T = Some (Inr c, T') \<and> map_of (ch_byConn T') c = Some r \<and> r \<in> set (ch_order T) \<and> \<not> full r T1 \<and>
       (\<forall>x\<in>set (ch_order T). \<not> full x T1 \<longrightarrow> rank T1 r \<le> rank T1 x))"
proof -
  let ?S = "sort_order T1"
  have o: "ch_order T1 = ch_order T" using score_all_ok [OF assms(1), of "map snd (ch_byName T)"] assms(2) by auto
  have S: "ch_order ?S = sort_key (rank T1) (ch_order T)" "ch_dials ?S = []" "full x ?S = full x T1" "ch_dialed ?S = ch_dialed T1" for x
    using o assms(3) by (simp_all add: sort_order_def rank_def [abs_def] full_def)
  have C: "Cook T = Some (cook_loop (ch_order ?S) ?S)" using assms(2) by (simp add: Cook_def Let_def)
  from cook_loop_picks [OF S(2), of "ch_order ?S"] show ?thesis
  proof (elim disjE exE conjE)
    assume "\<forall>r\<in>set (ch_order ?S). full r ?S" "cook_loop (ch_order ?S) ?S = (Inl ErrNoRecipes, ?S)"
    with C S show ?thesis by simp
  next
    fix pre r post T' assume p: "ch_order ?S = pre @ r # post" "\<forall>x\<in>set pre. full x ?S" "\<not> full r ?S"
      "cook_loop (ch_order ?S) ?S = (Inr (ch_dialed ?S), T')" "map_of (ch_byConn T') (ch_dialed ?S) = Some r"
    have s: "set (ch_order T) = set pre \<union> insert r (set post)" using p(1) S(1) by (metis set_append list.simps(15) set_sort)
    have "sorted (map (rank T1) (pre @ r # post))" using p(1) S(1) by (metis sorted_sort_key)
    then have "\<forall>x\<in>set post. rank T1 r \<le> rank T1 x" by (simp add: sorted_append)
    with p s C S show ?thesis by (intro disjI2 exI [of _ "ch_dialed ?S"] exI [of _ r] exI [of _ T']) auto
  qed
qed

theorem Cook_picks_best_witness:
  "\<exists>T c T'. chef_run [OLearn ''a'' 0, OLearn ''b'' 1] (MakeChef 0 (\<lambda>_. sample_recipe)) = Some T \<and> Cook T = Some (Inr c, T')"
proof -
  let ?run = "chef_run [OLearn ''a'' 0, OLearn ''b'' 1] (MakeChef 0 (\<lambda>_. sample_recipe))"
  have "map_option (\<lambda>T. map_option (\<lambda>T1. (ch_dials T1, list_all (\<lambda>r. full r T1) (ch_order T))) (score_all (map snd (ch_byName T)) T)) ?run =
    Some (Some ([], False))" by code_simp
  then obtain T where "?run = Some T" and
    e: "map_option (\<lambda>T1. (ch_dials T1, list_all (\<lambda>r. full r T1) (ch_order T))) (score_all (map snd (ch_byName T)) T) = Some ([], False)"
    by (auto simp del: chef_run.simps)
  moreover from e obtain T1 where "score_all (map snd (ch_byName T)) T = Some T1" "ch_dials T1 = []" "\<not> (\<forall>r\<in>set (ch_order T). full r T1)"
    by (auto simp: list_all_iff)
  ultimately have t: "?run = Some T" "score_all (map snd (ch_byName T)) T = Some T1" "ch_dials T1 = []" "\<not> (\<forall>r\<in>set (ch_order T). full r T1)"
    by blast+
  have "\<forall>p::nat. pr_count sample_recipe = 0" by (simp add: sample_recipe_def)
  from Cook_picks_best [OF kitchen_accounts_inv [OF this t(1)] t(2,3)] t(1,4) show ?thesis by blast
qed

section \<open>Sockets and limits\<close>

text \<open>A dial whose login fails leaves an open socket behind: none of the chef's records knows it, and no call closes it.\<close>

lemma Dial_leaks_socket:
  assumes "ch_dials T = LoginFailed err # ds"
  shows "\<exists>T'. Dial T = (Inl err, T') \<and> ch_lost T' = ch_lost T + 1 \<and> ch_dialed T' = ch_dialed T \<and> ch_closed T' = ch_closed T"
  using assms by (simp add: Dial_def)

text \<open>A minimum above the maximum is allocated in full.\<close>

lemma AllocateInitial_exceeds:
  assumes "pr_MaxConnections (ch_pool T p) < pr_MinConnections (ch_pool T p)" "pr_count (ch_pool T p) = 0" "0 < pr_MaxConnections (ch_pool T p)"
  shows "\<exists>n T'. AllocateInitial p T = (n, T') \<and> pr_count (ch_pool T' p) > pr_MaxConnections (ch_pool T' p)"
  using assms by (simp add: AllocateInitial_def Let_def set_count_def)

section \<open>Calls during a dial\<close>

text \<open>
  \<^verbatim>\<open>Cook\<close> releases the chef's lock while it dials.  A recipe forgotten meanwhile keeps the connection that was
  being dialled: it is not among the connections that \<^verbatim>\<open>Forget\<close> reports and closes, it stays open, and it is then
  registered with a recipe that no name and no order refers to.
\<close>

theorem cook_forget_leaks:
  assumes "kitchen_inv e P T" "map_of (ch_byName T) name = Some r" "Allocate (kr_recipe (ch_recipes T r)) T = (True, T1)"
    "Dial T1 = (Inr c, T2)" "Forget name T2 = Some (conns, T3)"
  shows "c \<notin> set conns \<and> c \<notin> set (ch_closed (cook_finish r c T3)) \<and> map_of (ch_byConn (cook_finish r c T3)) c = Some r \<and>
    r \<notin> snd ` set (ch_byName (cook_finish r c T3)) \<and> r \<notin> set (ch_order (cook_finish r c T3))"
proof -
  let ?e = "bump (kr_recipe (ch_recipes T r)) 1 e"
  note al = Allocate_ok [OF assms(1,3)]
  obtain ds where c: "c = ch_dialed T1" "T2 = T1\<lparr>ch_dials := ds, ch_dialed := ch_dialed T1 + 1\<rparr>"
    by (rule Dial_cases [of T1]) (use assms(4) in auto)
  have T2: "conns_ok ?e (insert c P) T2" "names_ok T2" "limits_ok T2"
    using al [THEN conjunct1] conns_ok_Dial unfolding c by (simp_all add: kitchen_inv_def)
  have n: "map_of (ch_byName T2) name = Some r" using assms(2) al by (simp add: c)
  from forget_ok [OF T2, of name] assms(5) have f: "conns_ok ?e (insert c P) T3" "names_ok T3"
    "set (ch_closed T3) = set (ch_closed T2) \<union> set conns" by (simp_all add: Forget_def)
  have r: "r \<notin> set (ch_order T3)"
    using assms(5) n T2(2) by (auto simp: Forget_def forget_def slices_Remove_remove1 Let_def names_ok_def fold_drop_order)
  have "c \<notin> set (ch_closed T3)" using f(1) by (auto simp: conns_ok_def)
  with f r show ?thesis
    by (auto simp: cook_finish_def set_recipe_def update_conv' names_ok_def)
qed

theorem cook_forget_leaks_witness:
  "\<exists>T T1 c T2 conns T3. chef_run [OLearn ''a'' 0] (MakeChef 0 (\<lambda>_. sample_recipe)) = Some T \<and> Allocate 0 T = (True, T1) \<and>
    Dial T1 = (Inr c, T2) \<and> Forget ''a'' T2 = Some (conns, T3) \<and> c \<notin> set (ch_closed (cook_finish 0 c T3))"
proof -
  let ?run = "chef_run [OLearn ''a'' 0] (MakeChef 0 (\<lambda>_. sample_recipe))"
  have "map_option (\<lambda>T. (map_of (ch_byName T) ''a'', kr_recipe (ch_recipes T 0), fst (Allocate 0 T), map_sum (\<lambda>_. ()) (\<lambda>c. c) (fst (Dial (snd (Allocate 0 T)))),
    map_option fst (Forget ''a'' (snd (Dial (snd (Allocate 0 T))))))) ?run = Some (Some 0, 0, True, Inr 1, Some [0])" by code_simp
  then obtain T where t: "?run = Some T" and e: "map_of (ch_byName T) ''a'' = Some 0" "kr_recipe (ch_recipes T 0) = 0" "fst (Allocate 0 T) = True"
    "map_sum (\<lambda>_. ()) (\<lambda>c. c) (fst (Dial (snd (Allocate 0 T)))) = Inr 1" "map_option fst (Forget ''a'' (snd (Dial (snd (Allocate 0 T))))) = Some [0]"
    by (auto simp del: chef_run.simps)
  obtain T1 where a: "Allocate 0 T = (True, T1)" using e(3) by (cases "Allocate 0 T") simp
  with e(4) obtain T2 where d: "Dial T1 = (Inr 1, T2)" by (cases "Dial T1"; cases "fst (Dial T1)") auto
  with a e(5) obtain T3 where f: "Forget ''a'' T2 = Some ([0], T3)" by auto
  have "\<forall>p::nat. pr_count sample_recipe = 0" by (simp add: sample_recipe_def)
  moreover have "Allocate (kr_recipe (ch_recipes T 0)) T = (True, T1)" using a e(2) by simp
  ultimately have "1 \<notin> set (ch_closed (cook_finish 0 1 T3))" using cook_forget_leaks [OF kitchen_accounts_inv [OF _ t] e(1) _ d f] by simp
  with t a d f show ?thesis by blast
qed

end
