(* ===== verification/Kitchen_Conns.thy ===== *)
theory Kitchen_Conns
  imports Kitchen
begin

text \<open>
  What each call of the chef opens and closes, as the pool of servers relies on it: every call reports exactly the
  connections that it registers and drops, and a connection it opens was never open before.  The second part says
  what a call uses of the answers of the network, and when \<^verbatim>\<open>Cook\<close> fails.
\<close>

definition open_conns :: "Chef \<Rightarrow> nat set" where
  "open_conns T = fst ` set (ch_byConn T)"

text \<open>The connections that calls have reported: the open ones and the closed ones.\<close>

definition handed :: "Chef \<Rightarrow> nat set" where
  "handed T = set (ch_closed T) \<union> open_conns T"

lemma handed_dialed: "kitchen_inv e P T \<Longrightarrow> handed T = {..<ch_dialed T} - P"
  unfolding kitchen_inv_def conns_ok_def handed_def open_conns_def by (elim conjE) auto

lemma closed_not_open: "kitchen_inv e P T \<Longrightarrow> set (ch_closed T) \<inter> open_conns T = {}"
  unfolding kitchen_inv_def conns_ok_def open_conns_def by (elim conjE) auto

text \<open>A call drops the connections in \<open>R\<close> and registers those in \<open>A\<close>.\<close>

definition chef_change :: "(nat \<Rightarrow> int) \<Rightarrow> nat set \<Rightarrow> nat set \<Rightarrow> nat set \<Rightarrow> Chef \<Rightarrow> Chef \<Rightarrow> bool" where
  "chef_change e P R A T T' \<longleftrightarrow> kitchen_inv e P T' \<and> same_recipes T T' \<and> open_conns T' = (open_conns T - R) \<union> A \<and>
     A \<inter> handed T = {} \<and> handed T \<subseteq> handed T'"

lemma chef_changeI:
  assumes "kitchen_inv e P T" "kitchen_inv e P T'" "same_recipes T T'" "open_conns T' = (open_conns T - R) \<union> A"
    "A \<subseteq> {ch_dialed T..<ch_dialed T'}" "ch_dialed T \<le> ch_dialed T'"
  shows "chef_change e P R A T T'"
  using assms handed_dialed [OF assms(1)] handed_dialed [OF assms(2)] by (auto simp: chef_change_def)

section \<open>Steps that register nothing\<close>

definition quiet :: "Chef \<Rightarrow> Chef \<Rightarrow> bool" where
  "quiet T T' \<longleftrightarrow> ch_byConn T' = ch_byConn T \<and> ch_dialed T \<le> ch_dialed T'"

lemma quiet_refl [simp]: "quiet T T"
  by (simp add: quiet_def)

lemma quiet_trans: "quiet T T' \<Longrightarrow> quiet T' T'' \<Longrightarrow> quiet T T''"
  by (simp add: quiet_def)

lemma quiet_set_recipe [simp]: "quiet T (set_recipe r k T') = quiet T T'"
  by (simp add: quiet_def set_recipe_def)

lemma quiet_Free [simp]: "quiet T (Free p T') = quiet T T'"
  by (simp add: quiet_def Free_def set_count_def)

lemma quiet_now: "time_Now T = (t, T') \<Longrightarrow> quiet T T'"
  by (auto simp: time_Now_def quiet_def split: list.splits)

lemma quiet_Taste: "Taste T = (t, T') \<Longrightarrow> quiet T T'"
  by (auto simp: Taste_def quiet_def split: list.splits)

lemma quiet_Dial: "Dial T = (r, T') \<Longrightarrow> quiet T T'"
  by (rule Dial_cases [of T]) (auto simp: quiet_def)

lemma quiet_taste_loop: "taste_loop cs tot rs T = (res, T') \<Longrightarrow> quiet T T'"
proof (induction cs tot rs T rule: taste_loop.induct)
  case (3 critics tot ratings T)
  obtain q T1 where q: "Taste T = (q, T1)" by fastforce
  obtain now T2 where n: "time_Now T1 = (now, T2)" by fastforce
  show ?case
  proof (cases q)
    case (Inl e)
    with 3(2) q quiet_Taste [OF q] show ?thesis by simp
  next
    case (Inr s)
    obtain sc v where s: "s = (sc, v)" by (cases s)
    with Inr 3(2) q n have "taste_loop critics (wrap64 (tot + sc)) (ratings @ [Some \<lparr>rt_Expiration = now + v, rt_Score = sc\<rparr>]) T2 = (res, T')" by simp
    from 3(1) [OF q [symmetric] Inr s [symmetric] n [symmetric] this] quiet_trans [OF quiet_Taste [OF q] quiet_now [OF n]]
    show ?thesis by (blast intro: quiet_trans)
  qed
qed simp_all

lemma quiet_Close [simp]: "quiet T (conn_Close c T') = quiet T T'"
  by (simp add: quiet_def conn_Close_def)

lemma quiet_store: "score_store r tot new T = Some T' \<Longrightarrow> quiet T T'"
  by (auto simp: score_store_def Let_def split: bind_splits)

lemma quiet_taste:
  assumes "score_taste r cs tot c T = Some (err, T')"
  shows "quiet T T'"
proof -
  obtain res T2 where t: "taste_loop cs tot [] T = (res, T2)" by fastforce
  have q: "quiet T (conn_Close c T2)" using quiet_taste_loop [OF t] by simp
  show ?thesis
  proof (cases res)
    case (Inl e)
    with assms t q show ?thesis by (simp add: score_taste_def)
  next
    case (Inr x)
    with assms t obtain s new where "score_store r s new (conn_Close c T2) = Some T'"
      by (cases x) (auto simp: score_taste_def split: bind_splits)
    from quiet_trans [OF q quiet_store [OF this]] show ?thesis .
  qed
qed

lemma quiet_rescore:
  assumes "rescore r cs tot T = Some (err, T')"
  shows "quiet T T'"
proof -
  obtain d T1 where d: "Dial T = (d, T1)" by fastforce
  with assms quiet_trans [OF quiet_Dial [OF d]] quiet_Dial [OF d] show ?thesis
    by (cases d) (auto simp: rescore_def dest!: quiet_taste)
qed

lemma quiet_start: "score_start r T = Some (todo, T') \<Longrightarrow> quiet T T'"
  by (auto simp: score_start_def Let_def split: bind_splits prod.splits dest!: quiet_now)

lemma quiet_score:
  assumes "score r T = Some (err, T')"
  shows "quiet T T'"
proof -
  from assms obtain todo T1 where s: "score_start r T = Some (todo, T1)"
    "(case todo of None \<Rightarrow> Some (None, T1) | Some (critics, tot) \<Rightarrow> rescore r critics tot T1) = Some (err, T')"
    by (auto simp: score_def split: bind_splits)
  with quiet_start [OF s(1)] quiet_trans quiet_rescore show ?thesis by (auto split: option.splits prod.splits)
qed

lemma quiet_failed [simp]: "quiet T (score_failed r err T') = quiet T T'"
  by (cases err) (simp_all add: score_failed_def)

lemma quiet_score_all: "score_all rs T = Some T' \<Longrightarrow> quiet T T'"
proof (induction rs arbitrary: T)
  case (Cons r rs)
  then obtain err T1 where s: "score r T = Some (err, T1)" "score_all rs (score_failed r err T1) = Some T'"
    by (auto split: bind_splits)
  have "quiet T (score_failed r err T1)" using quiet_score [OF s(1)] by simp
  with Cons.IH [OF s(2)] show ?case using quiet_trans by blast
qed simp

section \<open>Calls\<close>

lemma quiet_Free_iter: "quiet T ((Free p ^^ n) T') = quiet T T'"
  by (induction n) simp_all

lemma learn_dial_fresh:
  "learn_dial p n added T = (added', T') \<Longrightarrow>
    quiet T T' \<and> ch_byName T' = ch_byName T \<and> (\<forall>c\<in>set added'. c \<in> set added \<or> c \<in> {ch_dialed T..<ch_dialed T'})"
proof (induction n arbitrary: added T)
  case (Suc n)
  show ?case
  proof (cases T rule: Dial_cases)
    case (err x ds l)
    then have r: "added' = added" "T' = (Free p ^^ Suc n) (T\<lparr>ch_dials := ds, ch_lost := l\<rparr>)" using Suc.prems by simp_all
    have "ch_byName ((Free p ^^ m) T1) = ch_byName T1" for m T1 by (induction m) (simp_all add: Free_def set_count_def)
    with r quiet_Free_iter [of T "Suc n" p "T\<lparr>ch_dials := ds, ch_lost := l\<rparr>"] show ?thesis by (simp add: quiet_def del: funpow.simps)
  next
    case (conn ds)
    then have "learn_dial p n (added @ [ch_dialed T]) (T\<lparr>ch_dials := ds, ch_dialed := ch_dialed T + 1\<rparr>) = (added', T')"
      using Suc.prems by simp
    from Suc.IH [OF this] show ?thesis by (auto simp: quiet_def)
  qed
qed simp

lemma Learn_change:
  assumes "kitchen_inv e P T"
  shows "\<exists>removed added T'. Learn name p T = Some ((removed, added), T') \<and> distinct added \<and> set removed \<subseteq> open_conns T \<and>
    chef_change e P (set removed) (set added) T T'"
proof -
  obtain n T1 where a: "AllocateInitial p T = (n, T1)" by fastforce
  obtain added T2 where l: "learn_dial p (nat n) [] T1 = (added, T2)" by fastforce
  note a' = AllocateInitial_ok [OF assms a]
  then have T2: "conns_ok (bump p (int (length added)) e) (P \<union> set added) T2 \<and> distinct added \<and> set added \<inter> P = {} \<and>
      names_ok T2 \<and> limits_ok T2 \<and> same_recipes T1 T2"
    by (intro learn_dial_ok [OF _ _ _ _ _ l]) (simp_all add: kitchen_inv_def)
  then have "kitchen_inv (bump p (int (length added)) e) (P \<union> set added) T2" by (simp add: kitchen_inv_def)
  from learn_finish_ok [OF this, of name] T2 obtain removed T' where
    f: "learn_finish name p added T2 = Some ((removed, added), T')" "kitchen_inv e P T'" "same_recipes T2 T'"
      "set removed \<subseteq> open_conns T2" "ch_dialed T' = ch_dialed T2" "open_conns T' = (open_conns T2 - set removed) \<union> set added"
    by (auto simp: open_conns_def)
  have q: "ch_byConn T1 = ch_byConn T" "ch_dialed T1 = ch_dialed T"
    using a by (auto simp: AllocateInitial_def Let_def set_count_def split: if_splits)
  note lf = learn_dial_fresh [OF l]
  then have b: "open_conns T2 = open_conns T" "ch_dialed T \<le> ch_dialed T2" using q by (auto simp: quiet_def open_conns_def)
  have "set added \<subseteq> {ch_dialed T..<ch_dialed T'}" using lf q(2) f(5) by auto
  with assms f b a' T2 have "chef_change e P (set removed) (set added) T T'"
    by (intro chef_changeI) (auto dest: same_recipes_trans)
  with a l f T2 b show ?thesis by (auto simp: Learn_def)
qed

lemma Forget_change:
  assumes "kitchen_inv e P T"
  shows "\<exists>conns T'. Forget name T = Some (conns, T') \<and> set conns \<subseteq> open_conns T \<and> chef_change e P (set conns) {} T T'"
proof -
  have T: "conns_ok e P T" "names_ok T" "limits_ok T" using assms by (simp_all add: kitchen_inv_def)
  from forget_ok [OF T, of name] obtain conns T' where f: "forget name T = Some (conns, T')" "conns_ok e P T'"
    "names_ok T'" "limits_ok T'" "ch_dialed T' = ch_dialed T" "set (ch_byConn T') = {x \<in> set (ch_byConn T). fst x \<notin> set conns}"
    "set conns = (case map_of (ch_byName T) name of None \<Rightarrow> {} | Some r \<Rightarrow> {c. (c, r) \<in> set (ch_byConn T)})" "same_recipes T T'"
    by (elim exE conjE) rule
  then have o: "open_conns T' = open_conns T - set conns" "set conns \<subseteq> open_conns T"
    by (force simp: open_conns_def split: option.splits)+
  have "chef_change e P (set conns) {} T T'" by (rule chef_changeI [OF assms]) (use f o in \<open>auto simp: kitchen_inv_def\<close>)
  with f o show ?thesis by (auto simp: Forget_def)
qed

lemma Burn_change:
  assumes "kitchen_inv e P T"
  shows "chef_change e P {c} {} T (Burn c T)"
proof -
  have "open_conns (Burn c T) = open_conns T - {c} \<and> ch_dialed (Burn c T) = ch_dialed T"
  proof (cases "map_of (ch_byConn T) c")
    case None
    then have "c \<notin> open_conns T" by (simp add: open_conns_def map_of_eq_None_iff)
    with None show ?thesis by (simp add: Burn_def)
  qed (simp add: Burn_def burn_is_drop open_conns_def keys_delete)
  with Burn_ok [OF assms, of c] show ?thesis by (intro chef_changeI [OF assms]) simp_all
qed

lemma chef_same: "kitchen_inv e P T \<Longrightarrow> chef_change e P {} {} T T"
  by (simp add: chef_change_def)

lemma Ignite_change:
  assumes "kitchen_inv e P T" "Ignite c T = (b, T')"
  shows "chef_change e P (if b then {c} else {}) {} T T'"
proof (cases b)
  case True
  with Ignite_Burn [of c T T'] assms Burn_change show ?thesis by simp
next
  case False
  with assms(2) have "T' = T" by (auto simp: Ignite_def TryFree_def Let_def split: option.splits if_splits)
  with False assms(1) chef_same show ?thesis by simp
qed

lemma Close_change: "kitchen_inv e P T \<Longrightarrow> chef_change e P (open_conns T) {} T (Chef_Close T)"
  by (frule Chef_Close_ok, rule chef_changeI) (auto simp: open_conns_def)

lemma cook_loop_change:
  assumes "cook_loop rs T = (res, T')"
  shows "open_conns T' = open_conns T \<union> (case res of Inl _ \<Rightarrow> {} | Inr c \<Rightarrow> {c}) \<and>
    (case res of Inl _ \<Rightarrow> {} | Inr c \<Rightarrow> {c}) \<subseteq> {ch_dialed T..<ch_dialed T'} \<and> ch_dialed T \<le> ch_dialed T'"
  using assms
proof (induction rs arbitrary: T)
  case (Cons r rs)
  let ?p = "kr_recipe (ch_recipes T r)"
  obtain b T1 where a: "Allocate ?p T = (b, T1)" by fastforce
  have T1: "ch_byConn T1 = ch_byConn T" "ch_dialed T1 = ch_dialed T"
    using a by (auto simp: Allocate_def Let_def set_count_def split: if_splits)
  show ?case
  proof (cases b)
    case False
    with a Cons.prems have "cook_loop rs T1 = (res, T')" by (simp add: Let_def)
    from Cons.IH [OF this] T1 show ?thesis by (simp add: open_conns_def)
  next
    case True
    show ?thesis
    proof (cases T1 rule: Dial_cases)
      case (conn ds)
      with True a Cons.prems have "res = Inr (ch_dialed T1)" "T' = cook_finish r (ch_dialed T1) (T1\<lparr>ch_dials := ds, ch_dialed := ch_dialed T1 + 1\<rparr>)"
        by (auto simp: Let_def)
      with T1 show ?thesis by (auto simp: cook_finish_def set_recipe_def open_conns_def dom_update)
    next
      case (err x ds l)
      let ?T = "Free ?p (T1\<lparr>ch_dials := ds, ch_lost := l\<rparr>)"
      have q: "ch_byConn ?T = ch_byConn T" "ch_dialed ?T = ch_dialed T" using T1 by simp_all
      show ?thesis
      proof (cases "rs = []")
        case True
        with \<open>b\<close> a err Cons.prems q show ?thesis by (auto simp: Let_def open_conns_def)
      next
        case False
        with \<open>b\<close> a err Cons.prems have "cook_loop rs ?T = (res, T')" by (simp add: Let_def)
        from Cons.IH [OF this] q show ?thesis by (simp add: open_conns_def)
      qed
    qed
  qed
qed (auto simp: open_conns_def)

lemma Cook_change:
  assumes "kitchen_inv e P T"
  shows "\<exists>res T'. Cook T = Some (res, T') \<and> chef_change e P {} (case res of Inl _ \<Rightarrow> {} | Inr c \<Rightarrow> {c}) T T'"
proof -
  from Cook_ok [OF assms] obtain res T' where c: "Cook T = Some (res, T')" "kitchen_inv e P T'" "same_recipes T T'" by (elim exE conjE) rule
  from score_all_ok [OF assms, of "map snd (ch_byName T)"] obtain T1 where s: "score_all (map snd (ch_byName T)) T = Some T1"
    by (elim exE conjE) rule
  have l: "cook_loop (ch_order (sort_order T1)) (sort_order T1) = (res, T')" using c(1) s by (simp add: Cook_def Let_def)
  have "quiet T (sort_order T1)" using quiet_score_all [OF s] by (simp add: quiet_def sort_order_def)
  then have q: "open_conns (sort_order T1) = open_conns T" "ch_dialed T \<le> ch_dialed (sort_order T1)"
    by (simp_all add: quiet_def open_conns_def)
  have "chef_change e P {} (case res of Inl _ \<Rightarrow> {} | Inr c \<Rightarrow> {c}) T T'"
    by (rule chef_changeI [OF assms c(2,3)]) (use cook_loop_change [OF l] q in \<open>cases res; auto\<close>)+
  with c(1) show ?thesis by blast
qed

section \<open>When Cook fails\<close>

text \<open>The answers of the network that a call used, in order.\<close>

definition dials_used :: "dial_answer list \<Rightarrow> Chef \<Rightarrow> Chef \<Rightarrow> bool" where
  "dials_used ds T T' \<longleftrightarrow> ch_dials T = ds @ ch_dials T'"

lemma dials_used_none: "ch_dials T' = ch_dials T \<Longrightarrow> dials_used [] T T'"
  by (simp add: dials_used_def)

lemma dials_used_trans: "dials_used ds T T' \<Longrightarrow> dials_used ds' T' T'' \<Longrightarrow> dials_used (ds @ ds') T T''"
  by (simp add: dials_used_def)

lemma Dial_used:
  "Dial T = (res, T') \<Longrightarrow> \<exists>ds. dials_used ds T T' \<and> (\<forall>err. res = Inl err \<longrightarrow> (\<exists>d\<in>set ds. d \<noteq> DialOk))"
proof (cases "ch_dials T")
  case (Cons d ds)
  assume "Dial T = (res, T')"
  with Cons show ?thesis by (intro exI [of _ "[d]"]) (cases d; auto simp: Dial_def dials_used_def)
qed (auto simp: Dial_def dials_used_def)

lemma taste_loop_dials: "taste_loop cs tot rs T = (res, T') \<Longrightarrow> ch_dials T' = ch_dials T"
  by (induction cs tot rs T rule: taste_loop.induct)
    (auto simp: Taste_def time_Now_def split: list.splits sum.splits prod.splits)

lemma score_taste_dials: "score_taste r cs tot c T = Some (err, T') \<Longrightarrow> ch_dials T' = ch_dials T"
  by (auto simp: score_taste_def score_store_def Let_def conn_Close_def set_recipe_def taste_loop_dials split: prod.splits sum.splits bind_splits)

lemma score_used: "score r T = Some (err, T') \<Longrightarrow> \<exists>ds. dials_used ds T T'"
proof -
  assume "score r T = Some (err, T')"
  then obtain todo T1 where s: "score_start r T = Some (todo, T1)"
    "(case todo of None \<Rightarrow> Some (None, T1) | Some (critics, tot) \<Rightarrow> rescore r critics tot T1) = Some (err, T')"
    by (auto simp: score_def split: bind_splits)
  have d: "ch_dials T1 = ch_dials T"
    using s(1) by (auto simp: score_start_def Let_def set_recipe_def time_Now_def split: bind_splits list.splits)
  show ?thesis
  proof (cases todo)
    case (Some x)
    obtain res T2 where t: "Dial T1 = (res, T2)" by fastforce
    then obtain ds where "dials_used ds T1 T2" using Dial_used by blast
    moreover have "ch_dials T' = ch_dials T2" using s(2) Some t by (cases x; cases res) (auto simp: rescore_def dest: score_taste_dials)
    ultimately show ?thesis using d by (auto simp: dials_used_def)
  qed (use s(2) d in \<open>auto simp: dials_used_def\<close>)
qed

lemma score_all_used: "score_all rs T = Some T' \<Longrightarrow> \<exists>ds. dials_used ds T T'"
proof (induction rs arbitrary: T)
  case (Cons r rs)
  then obtain err T1 where s: "score r T = Some (err, T1)" "score_all rs (score_failed r err T1) = Some T'"
    by (auto split: bind_splits)
  have "ch_dials (score_failed r err T1) = ch_dials T1" by (simp add: score_failed_def set_recipe_def split: option.split)
  with Cons.IH [OF s(2)] score_used [OF s(1)] show ?case by (auto simp: dials_used_def)
qed (auto simp: dials_used_def)

lemma cook_loop_used:
  "cook_loop rs T = (res, T') \<Longrightarrow> \<exists>ds. dials_used ds T T' \<and>
    (\<forall>err. res = Inl err \<longrightarrow> (\<exists>d\<in>set ds. d \<noteq> DialOk) \<or> T' = T \<and> (\<forall>r\<in>set rs. full r T))"
proof (induction rs arbitrary: T)
  case (Cons r rs)
  let ?p = "kr_recipe (ch_recipes T r)"
  obtain b T1 where a: "Allocate ?p T = (b, T1)" by fastforce
  show ?case
  proof (cases b)
    case False
    with a have "T1 = T" "full r T" by (auto simp: Allocate_def full_def Let_def split: if_splits)
    with Cons.IH [of T] Cons.prems a False show ?thesis by (simp add: Let_def)
  next
    case True
    obtain d T2 where t: "Dial T1 = (d, T2)" by fastforce
    have d1: "ch_dials T1 = ch_dials T" using a by (auto simp: Allocate_def set_count_def Let_def split: if_splits)
    from Dial_used [OF t] obtain ds where ds: "dials_used ds T1 T2" "\<forall>err. d = Inl err \<longrightarrow> (\<exists>d\<in>set ds. d \<noteq> DialOk)" by blast
    show ?thesis
    proof (cases d)
      case (Inr c)
      with Cons.prems a True t have "res = Inr c" "T' = cook_finish r c T2" by (auto simp: Let_def)
      with ds d1 show ?thesis by (auto simp: dials_used_def cook_finish_def set_recipe_def)
    next
      case (Inl e)
      let ?T = "Free ?p T2"
      have f: "ch_dials ?T = ch_dials T2" by (simp add: Free_def set_count_def)
      show ?thesis
      proof (cases "rs = []")
        case True
        with Cons.prems a \<open>b\<close> t Inl have "T' = ?T" by (simp add: Let_def)
        with ds f d1 Inl show ?thesis by (auto simp: dials_used_def)
      next
        case False
        with Cons.prems a \<open>b\<close> t Inl have "cook_loop rs ?T = (res, T')" by (simp add: Let_def)
        from Cons.IH [OF this] obtain ds' where "dials_used ds' ?T T'" by blast
        with ds f d1 Inl show ?thesis by (intro exI [of _ "ds @ ds'"]) (auto simp: dials_used_def)
      qed
    qed
  qed
qed (auto simp: dials_used_def)

text \<open>\<^verbatim>\<open>Cook\<close> fails only if a dial failed, or every recipe is at its limit.\<close>

lemma Cook_fails:
  assumes "kitchen_inv e P T" "Cook T = Some (res, T')"
  shows "\<exists>ds. dials_used ds T T' \<and>
    (\<forall>err. res = Inl err \<longrightarrow> (\<exists>d\<in>set ds. d \<noteq> DialOk) \<or> (\<forall>r\<in>set (ch_order T'). full r T'))"
proof -
  from score_all_ok [OF assms(1), of "map snd (ch_byName T)"] obtain T1 where s: "score_all (map snd (ch_byName T)) T = Some T1"
    by (elim exE conjE) rule
  have l: "cook_loop (ch_order (sort_order T1)) (sort_order T1) = (res, T')" using assms(2) s by (simp add: Cook_def Let_def)
  from score_all_used [OF s] obtain ds where "dials_used ds T T1" by blast
  then have ds: "dials_used ds T (sort_order T1)" by (simp add: dials_used_def sort_order_def)
  from cook_loop_used [OF l] obtain ds' where ds': "dials_used ds' (sort_order T1) T'"
    "\<forall>err. res = Inl err \<longrightarrow> (\<exists>d\<in>set ds'. d \<noteq> DialOk) \<or> T' = sort_order T1 \<and> (\<forall>r\<in>set (ch_order (sort_order T1)). full r (sort_order T1))"
    by blast
  with dials_used_trans [OF ds ds'(1)] show ?thesis by (intro exI [of _ "ds @ ds'"]) auto
qed

end
