(* ===== verification/Kitchen_Steps.thy ===== *)
theory Kitchen_Steps
  imports Pooler_Contract Kitchen_Conns
begin

text \<open>
  The chef with all its callers, interleaved.  \<^verbatim>\<open>Learn\<close> allocates and dials before it takes the chef's lock; \<^verbatim>\<open>score\<close> and
  \<^verbatim>\<open>Cook\<close> release the lock while they dial.  A call that is between two of its sections is a value of \<open>kitchen_call\<close>, with
  what it has allocated and dialled so far, and any other call may run before it goes on.  The loop of \<^verbatim>\<open>Cook\<close> walks over
  a slice whose array is shared with the chef's order, which calls during a dial reorder and shorten: it may try any
  recipe that was ever learnt, also one that has been forgotten.  The sections are those of \<^verbatim>\<open>Kitchen\<close>.
\<close>

section \<open>Calls under way\<close>

text \<open>
  \<open>CLearn name p n failed added\<close>: \<open>n\<close> connections are still to be dialled (or, after a failure, to be freed);
  \<open>CScore\<close> and \<open>CTaste\<close>: before and after the dial of \<^verbatim>\<open>score\<close>; \<open>CCook\<close> and \<open>CCooked\<close>: before and after that of \<^verbatim>\<open>cook\<close>.
\<close>

datatype kitchen_call =
    CLearn string nat nat bool "nat list"
  | CScore nat "bool list" int
  | CTaste nat "bool list" int nat
  | CCook nat nat
  | CCooked nat nat nat

text \<open>The next section of a call: what is left of it, and the connections that it reports as removed and added.\<close>

fun call_step :: "kitchen_call \<Rightarrow> Chef \<Rightarrow> ((kitchen_call option \<times> nat list \<times> nat list) \<times> Chef) option" where
  "call_step (CLearn name p (Suc n) False added) T =
     (case Dial T of
        (Inl err, T) \<Rightarrow> Some ((Some (CLearn name p (Suc n) True added), [], []), T)
      | (Inr conn, T) \<Rightarrow> Some ((Some (CLearn name p n False (added @ [conn])), [], []), T))"
| "call_step (CLearn name p (Suc n) True added) T = Some ((Some (CLearn name p n True added), [], []), Free p T)"
| "call_step (CLearn name p 0 failed added) T = do {
     ((removed, added), T) \<leftarrow> learn_finish name p added T;
     Some ((None, removed, added), T)
   }"
| "call_step (CScore r critics tot) T =
     (case Dial T of
        (Inl err, T) \<Rightarrow> Some ((None, [], []), score_failed r (Some err) T)
      | (Inr conn, T) \<Rightarrow> Some ((Some (CTaste r critics tot conn), [], []), T))"
| "call_step (CTaste r critics tot conn) T = do {
     (err, T) \<leftarrow> score_taste r critics tot conn T;
     Some ((None, [], []), score_failed r err T)
   }"
| "call_step (CCook r p) T =
     (case Dial T of
        (Inl err, T) \<Rightarrow> Some ((None, [], []), Free p T)
      | (Inr conn, T) \<Rightarrow> Some ((Some (CCooked r p conn), [], []), T))"
| "call_step (CCooked r p conn) T = Some ((None, [], [conn]), cook_finish r conn T)"

type_synonym kitchen = "Chef \<times> kitchen_call list"

datatype kitchen_event =
    KEnv "dial_answer list" "int list" "(fed_error + int \<times> int) list"
  | KLearn string nat | KScore nat | KSort | KCook nat | KStep nat
  | KForget string | KBurn nat | KIgnite nat | KClose

fun kitchen_enabled :: "kitchen_event \<Rightarrow> kitchen \<Rightarrow> bool" where
  "kitchen_enabled (KScore r) (T, K) = (r \<in> snd ` set (ch_byName T))"
| "kitchen_enabled (KCook r) (T, K) = (r < ch_new T)"
| "kitchen_enabled (KStep i) (T, K) = (i < length K)"
| "kitchen_enabled _ _ = True"

text \<open>The first section of a call, or a call that keeps the lock.\<close>

fun kitchen_step :: "kitchen_event \<Rightarrow> kitchen \<Rightarrow> ((nat list \<times> nat list) \<times> kitchen) option" where
  "kitchen_step (KEnv ds ts rs) (T, K) = Some (([], []), T\<lparr>ch_dials := ds, ch_clock := ts, ch_tastes := rs\<rparr>, K)"
| "kitchen_step (KLearn name p) (T, K) =
     (case AllocateInitial p T of (n, T) \<Rightarrow> Some (([], []), T, K @ [CLearn name p (nat n) False []]))"
| "kitchen_step (KScore r) (T, K) = do {
     (todo, T) \<leftarrow> score_start r T;
     Some (([], []), T, K @ (case todo of None \<Rightarrow> [] | Some (critics, tot) \<Rightarrow> [CScore r critics tot]))
   }"
| "kitchen_step KSort (T, K) = Some (([], []), sort_order T, K)"
| "kitchen_step (KCook r) (T, K) =
     (let p = kr_recipe (ch_recipes T r) in
      case Allocate p T of
        (False, T) \<Rightarrow> Some (([], []), T, K)
      | (True, T) \<Rightarrow> Some (([], []), T, K @ [CCook r p]))"
| "kitchen_step (KStep i) (T, K) = do {
     ((x, removed, added), T) \<leftarrow> call_step (K ! i) T;
     Some ((removed, added), T, take i K @ (case x of None \<Rightarrow> [] | Some x \<Rightarrow> [x]) @ drop (Suc i) K)
   }"
| "kitchen_step (KForget name) (T, K) = do { (conns, T) \<leftarrow> Forget name T; Some ((conns, []), T, K) }"
| "kitchen_step (KBurn c) (T, K) = Some (([], []), Burn c T, K)"
| "kitchen_step (KIgnite c) (T, K) = Some (([], []), snd (Ignite c T), K)"
| "kitchen_step KClose (T, K) = Some (([], []), Chef_Close T, K)"

definition kitchen_exec :: "kitchen_event \<Rightarrow> kitchen \<Rightarrow> kitchen option" where
  "kitchen_exec ev S = map_option snd (kitchen_step ev S)"

abbreviation kitchen_reach :: "nat \<Rightarrow> (nat \<Rightarrow> PoolRecipe) \<Rightarrow> kitchen \<Rightarrow> bool" where
  "kitchen_reach critics recipes \<equiv> reachable (MakeChef critics recipes, []) kitchen_enabled kitchen_exec"

section \<open>The invariant\<close>

text \<open>The slots that a call has allocated, and the connections that it has dialled.\<close>

fun call_slots :: "kitchen_call \<Rightarrow> nat \<Rightarrow> nat" where
  "call_slots (CLearn _ p n _ added) q = (if q = p then n + length added else 0)"
| "call_slots (CCook _ p) q = (if q = p then 1 else 0)"
| "call_slots (CCooked _ p _) q = (if q = p then 1 else 0)"
| "call_slots _ q = 0"

fun call_conns :: "kitchen_call \<Rightarrow> nat list" where
  "call_conns (CLearn _ _ _ _ added) = added"
| "call_conns (CTaste _ _ _ c) = [c]"
| "call_conns (CCooked _ _ c) = [c]"
| "call_conns _ = []"

definition slots :: "kitchen_call list \<Rightarrow> nat \<Rightarrow> nat" where
  "slots K p = sum_list (map (\<lambda>x. call_slots x p) K)"

definition limbo :: "kitchen_call list \<Rightarrow> nat list" where
  "limbo K = concat (map call_conns K)"

fun call_ok :: "Chef \<Rightarrow> kitchen_call \<Rightarrow> bool" where
  "call_ok T (CCook r p) = (r < ch_new T \<and> kr_recipe (ch_recipes T r) = p)"
| "call_ok T (CCooked r p _) = (r < ch_new T \<and> kr_recipe (ch_recipes T r) = p)"
| "call_ok T _ = True"

definition chef_ok :: "kitchen_call list \<Rightarrow> Chef \<Rightarrow> bool" where
  "chef_ok K T \<longleftrightarrow> kitchen_inv (\<lambda>p. int (slots K p)) (set (limbo K)) T \<and> distinct (limbo K) \<and> (\<forall>x\<in>set K. call_ok T x)"

text \<open>A step that reports \<open>R\<close> and \<open>A\<close>, with the calls \<open>K\<close> under way afterwards.\<close>

definition chef_steps :: "kitchen_call list \<Rightarrow> nat set \<Rightarrow> nat set \<Rightarrow> Chef \<Rightarrow> Chef \<Rightarrow> bool" where
  "chef_steps K R A T T' \<longleftrightarrow> chef_ok K T' \<and> chef_change (\<lambda>p. int (slots K p)) (set (limbo K)) R A T T'"

lemma call_ok_mono: "call_ok T x \<Longrightarrow> same_recipes T T' \<Longrightarrow> call_ok T' x"
  by (cases x) (auto simp: same_recipes_def)

lemma chef_okD: "chef_ok K T \<Longrightarrow> kitchen_inv (\<lambda>p. int (slots K p)) (set (limbo K)) T"
  by (simp add: chef_ok_def)

text \<open>A call that keeps the lock leaves the other calls as they are.\<close>

lemma chef_steps_call:
  assumes "chef_ok K T" "chef_change (\<lambda>p. int (slots K p)) (set (limbo K)) R A T T'"
  shows "chef_steps K R A T T'"
  using assms call_ok_mono by (auto simp: chef_steps_def chef_ok_def chef_change_def)

lemma slots_simps [simp]: "slots [] p = 0" "slots (K @ L) p = slots K p + slots L p" "slots (x # K) p = call_slots x p + slots K p"
  by (simp_all add: slots_def)

lemma limbo_simps [simp]: "limbo [] = []" "limbo (K @ L) = limbo K @ limbo L" "limbo (x # K) = call_conns x @ limbo K"
  by (simp_all add: limbo_def)

section \<open>One call goes on\<close>

text \<open>The rest of the kitchen has allocated \<open>e\<close> and dialled \<open>P\<close>; \<open>L\<close> is the call, or nothing when it is over.\<close>

definition beside :: "(nat \<Rightarrow> int) \<Rightarrow> nat set \<Rightarrow> kitchen_call list \<Rightarrow> Chef \<Rightarrow> bool" where
  "beside e P L T \<longleftrightarrow> kitchen_inv (\<lambda>p. e p + int (slots L p)) (P \<union> set (limbo L)) T \<and> distinct (limbo L) \<and> set (limbo L) \<inter> P = {} \<and>
     (\<forall>x\<in>set L. call_ok T x)"

lemma slots_bump:
  "(\<lambda>q. e q + int (slots [CLearn name p n b added] q)) = bump p (int (n + length added)) e"
  "(\<lambda>q. e q + int (slots [CCook r p] q)) = bump p 1 e" "(\<lambda>q. e q + int (slots [CCooked r p c] q)) = bump p 1 e"
  "(\<lambda>q. e q + int (slots [CScore r cs tot] q)) = e" "(\<lambda>q. e q + int (slots [CTaste r cs tot c] q)) = e"
  "(\<lambda>q. e q + int (slots [] q)) = e"
  by (auto simp: bump_def)

definition goes_on :: "(nat \<Rightarrow> int) \<Rightarrow> nat set \<Rightarrow> kitchen_call list \<Rightarrow> nat list \<Rightarrow> nat list \<Rightarrow> Chef \<Rightarrow> Chef \<Rightarrow> bool" where
  "goes_on e P L removed added T T' \<longleftrightarrow> beside e P L T' \<and> distinct added \<and> set removed \<subseteq> open_conns T \<and>
     chef_change (\<lambda>p. e p + int (slots L p)) (P \<union> set (limbo L)) (set removed) (set added) T T'"

lemma goes_onI:
  assumes "kitchen_inv e' P' T" "beside e P L T'" "same_recipes T T'" "open_conns T' = (open_conns T - set removed) \<union> set added"
    "set added \<subseteq> P'" "set removed \<subseteq> open_conns T" "distinct added" "{..<ch_dialed T} - P' \<subseteq> {..<ch_dialed T'} - (P \<union> set (limbo L))"
  shows "goes_on e P L removed added T T'"
proof -
  have i: "kitchen_inv (\<lambda>p. e p + int (slots L p)) (P \<union> set (limbo L)) T'" using assms(2) by (simp add: beside_def)
  have "handed T \<subseteq> handed T'" "set added \<inter> handed T = {}"
    using assms(5,8) handed_dialed [OF assms(1)] handed_dialed [OF i] by auto
  with i assms show ?thesis by (simp add: goes_on_def chef_change_def)
qed

lemma dial_fails:
  assumes "kitchen_inv e P T"
  shows "kitchen_inv e P (T\<lparr>ch_dials := ds, ch_lost := l\<rparr>)"
  using assms by (simp add: kitchen_inv_def)

lemma dial_works:
  assumes "kitchen_inv e P T"
  shows "kitchen_inv e (insert (ch_dialed T) P) (T\<lparr>ch_dials := ds, ch_dialed := ch_dialed T + 1\<rparr>)" "ch_dialed T \<notin> P"
  using assms conns_ok_Dial conns_ok_pend [of e P T "ch_dialed T"] by (auto simp: kitchen_inv_def)

lemma free_one: "kitchen_inv (bump p (n + 1) e) P T \<Longrightarrow> kitchen_inv (bump p n e) P (Free p T)"
  using Free_ok [of "bump p (n + 1) e" P T p] limits_ok_Free by (simp add: kitchen_inv_def)

lemma learn_goes_on:
  assumes "beside e P [CLearn name p n b added] T"
  shows "\<exists>x removed added' T'. call_step (CLearn name p n b added) T = Some ((x, removed, added'), T') \<and>
    goes_on e P (case x of None \<Rightarrow> [] | Some x \<Rightarrow> [x]) removed added' T T'"
proof -
  have i: "kitchen_inv (bump p (int (n + length added)) e) (P \<union> set added) T" "distinct added" "set added \<inter> P = {}"
    using assms by (simp_all add: beside_def slots_bump del: slots_simps)
  consider (last) "n = 0" | (free) m where "n = Suc m" b | (dial) m where "n = Suc m" "\<not> b" by (cases n) auto
  then show ?thesis
  proof cases
    case last
    with i have "kitchen_inv (bump p (int (length added)) e) (P \<union> set added) T" by simp
    from learn_finish_ok [OF this i(2,3), of name] obtain removed T' where
      f: "learn_finish name p added T = Some ((removed, added), T')" "kitchen_inv e P T'" "same_recipes T T'"
        "set removed \<subseteq> open_conns T" "ch_dialed T' = ch_dialed T" "open_conns T' = (open_conns T - set removed) \<union> set added"
      by (auto simp: open_conns_def)
    have "goes_on e P [] removed added T T'" by (rule goes_onI [OF i(1)]) (use f i in \<open>auto simp: beside_def\<close>)
    with last f(1) show ?thesis by simp
  next
    case (free m)
    have "kitchen_inv (bump p (int (m + length added)) e) (P \<union> set added) (Free p T)"
      by (rule free_one) (use i(1) free in \<open>simp add: algebra_simps\<close>)
    then have "goes_on e P [CLearn name p m True added] [] [] T (Free p T)"
      by (intro goes_onI [OF i(1)])
        (use i(2,3) in \<open>simp_all add: beside_def slots_bump same_recipes_def open_conns_def del: slots_simps\<close>)
    with free show ?thesis by simp
  next
    case (dial m)
    show ?thesis
    proof (cases T rule: Dial_cases)
      case (err x ds l)
      have "goes_on e P [CLearn name p n True added] [] [] T (T\<lparr>ch_dials := ds, ch_lost := l\<rparr>)"
        by (rule goes_onI [OF i(1)])
          (use i dial_fails [OF i(1)] in \<open>simp_all add: beside_def slots_bump same_recipes_def open_conns_def del: slots_simps\<close>)
      with dial err show ?thesis by simp
    next
      case (conn ds)
      let ?T = "T\<lparr>ch_dials := ds, ch_dialed := ch_dialed T + 1\<rparr>"
      note w = dial_works [OF i(1)]
      have "beside e P [CLearn name p m False (added @ [ch_dialed T])] ?T"
        using w i(2,3) dial by (simp add: beside_def slots_bump del: slots_simps)
      then have "goes_on e P [CLearn name p m False (added @ [ch_dialed T])] [] [] T ?T"
        by (intro goes_onI [OF i(1)]) (auto simp: same_recipes_def open_conns_def)
      with dial conn show ?thesis by simp
    qed
  qed
qed

lemma score_goes_on:
  assumes "beside e P [CScore r cs tot] T"
  shows "\<exists>x removed added' T'. call_step (CScore r cs tot) T = Some ((x, removed, added'), T') \<and>
    goes_on e P (case x of None \<Rightarrow> [] | Some x \<Rightarrow> [x]) removed added' T T'"
proof -
  have i: "kitchen_inv e P T" using assms by (simp add: beside_def)
  show ?thesis
  proof (cases T rule: Dial_cases)
    case (err x ds l)
    let ?T = "score_failed r (Some x) (T\<lparr>ch_dials := ds, ch_lost := l\<rparr>)"
    have u: "untouched T ?T" by (rule untouched_trans [OF untouched_dials untouched_failed])
    then have "goes_on e P [] [] [] T ?T"
      by (intro goes_onI [OF i]) (use untouched_keeps [OF u i] u in \<open>simp_all add: beside_def untouched_def open_conns_def\<close>)
    with err show ?thesis by simp
  next
    case (conn ds)
    let ?T = "T\<lparr>ch_dials := ds, ch_dialed := ch_dialed T + 1\<rparr>"
    have "beside e P [CTaste r cs tot (ch_dialed T)] ?T" using dial_works [OF i] by (simp add: beside_def)
    then have "goes_on e P [CTaste r cs tot (ch_dialed T)] [] [] T ?T"
      by (intro goes_onI [OF i]) (auto simp: same_recipes_def open_conns_def)
    with conn show ?thesis by simp
  qed
qed

lemma taste_goes_on:
  assumes "beside e P [CTaste r cs tot c] T"
  shows "\<exists>x removed added' T'. call_step (CTaste r cs tot c) T = Some ((x, removed, added'), T') \<and>
    goes_on e P (case x of None \<Rightarrow> [] | Some x \<Rightarrow> [x]) removed added' T T'"
proof -
  have i: "kitchen_inv e (insert c P) T" "c \<notin> P" using assms by (simp_all add: beside_def)
  from score_taste_ok [OF i, of r cs tot] obtain err T1 where t: "score_taste r cs tot c T = Some (err, T1)" "kitchen_inv e P T1"
    "same_recipes T T1" "ch_byConn T1 = ch_byConn T" "ch_dialed T1 = ch_dialed T" by (elim exE conjE) rule
  note u = untouched_failed [of T1 r err]
  note k = untouched_keeps [OF u t(2)]
  have "goes_on e P [] [] [] T (score_failed r err T1)"
    by (rule goes_onI [OF i(1)])
      (use t k u same_recipes_trans [OF t(3)] in \<open>auto simp: beside_def untouched_def open_conns_def\<close>)
  with t(1) show ?thesis by simp
qed

lemma cook_goes_on:
  assumes "beside e P [CCook r p] T"
  shows "\<exists>x removed added' T'. call_step (CCook r p) T = Some ((x, removed, added'), T') \<and>
    goes_on e P (case x of None \<Rightarrow> [] | Some x \<Rightarrow> [x]) removed added' T T'"
proof -
  have i: "kitchen_inv (bump p 1 e) P T" "r < ch_new T" "kr_recipe (ch_recipes T r) = p"
    using assms by (simp_all add: beside_def slots_bump del: slots_simps)
  show ?thesis
  proof (cases T rule: Dial_cases)
    case (err x ds l)
    let ?T = "Free p (T\<lparr>ch_dials := ds, ch_lost := l\<rparr>)"
    have "kitchen_inv (bump p (0 + 1) e) P (T\<lparr>ch_dials := ds, ch_lost := l\<rparr>)" using dial_fails [OF i(1)] by simp
    from free_one [OF this] have "goes_on e P [] [] [] T ?T"
      by (intro goes_onI [OF i(1)]) (simp_all add: beside_def same_recipes_def open_conns_def)
    with err show ?thesis by simp
  next
    case (conn ds)
    let ?T = "T\<lparr>ch_dials := ds, ch_dialed := ch_dialed T + 1\<rparr>"
    have "beside e P [CCooked r p (ch_dialed T)] ?T"
      using dial_works [OF i(1)] i(2,3) by (simp add: beside_def slots_bump del: slots_simps)
    then have "goes_on e P [CCooked r p (ch_dialed T)] [] [] T ?T"
      by (intro goes_onI [OF i(1)]) (auto simp: same_recipes_def open_conns_def)
    with conn show ?thesis by simp
  qed
qed

lemma cooked_goes_on:
  assumes "beside e P [CCooked r p c] T"
  shows "\<exists>x removed added' T'. call_step (CCooked r p c) T = Some ((x, removed, added'), T') \<and>
    goes_on e P (case x of None \<Rightarrow> [] | Some x \<Rightarrow> [x]) removed added' T T'"
proof -
  have i: "kitchen_inv (bump (kr_recipe (ch_recipes T r)) 1 e) (insert c P) T" "r < ch_new T" "c \<notin> P"
    using assms by (simp_all add: beside_def slots_bump del: slots_simps)
  note f = cook_finish_ok [OF i]
  have "goes_on e P [] [] [c] T (cook_finish r c T)"
    by (rule goes_onI [OF i(1)]) (use f i(3) in \<open>auto simp: beside_def same_recipes_def open_conns_def\<close>)
  then show ?thesis by simp
qed

lemma call_goes_on:
  assumes "beside e P [x] T"
  shows "\<exists>x' removed added T'. call_step x T = Some ((x', removed, added), T') \<and>
    goes_on e P (case x' of None \<Rightarrow> [] | Some x' \<Rightarrow> [x']) removed added T T'"
  using assms learn_goes_on score_goes_on taste_goes_on cook_goes_on cooked_goes_on by (cases x) (simp_all del: call_step.simps)

section \<open>Every step\<close>

lemma beside_split:
  "chef_ok (A @ L @ B) T \<longleftrightarrow> beside (\<lambda>p. int (slots (A @ B) p)) (set (limbo (A @ B))) L T \<and> distinct (limbo (A @ B)) \<and>
    (\<forall>x\<in>set (A @ B). call_ok T x)"
proof -
  have "(\<lambda>p. int (slots (A @ L @ B) p)) = (\<lambda>p. int (slots (A @ B) p) + int (slots L p))" by (auto simp: algebra_simps)
  moreover have "set (limbo (A @ L @ B)) = set (limbo (A @ B)) \<union> set (limbo L)" by auto
  ultimately show ?thesis unfolding chef_ok_def beside_def by auto
qed

lemma split_at: "i < length K \<Longrightarrow> K = take i K @ [K ! i] @ drop (Suc i) K"
  by (simp add: id_take_nth_drop)

lemma step_call:
  assumes "chef_ok K T" "i < length K"
  shows "\<exists>removed added T' K'. kitchen_step (KStep i) (T, K) = Some ((removed, added), T', K') \<and> distinct added \<and> set removed \<subseteq> open_conns T \<and>
    chef_steps K' (set removed) (set added) T T'"
proof -
  let ?A = "take i K" and ?B = "drop (Suc i) K"
  have "chef_ok (?A @ [K ! i] @ ?B) T" using assms split_at by metis
  then have b: "beside (\<lambda>p. int (slots (?A @ ?B) p)) (set (limbo (?A @ ?B))) [K ! i] T" "distinct (limbo (?A @ ?B))"
    "\<forall>x\<in>set (?A @ ?B). call_ok T x" unfolding beside_split by blast+
  from call_goes_on [OF b(1)] obtain x removed added T' where s: "call_step (K ! i) T = Some ((x, removed, added), T')"
    and g: "goes_on (\<lambda>p. int (slots (?A @ ?B) p)) (set (limbo (?A @ ?B))) (case x of None \<Rightarrow> [] | Some x \<Rightarrow> [x]) removed added T T'"
    by (elim exE conjE) rule
  let ?L = "case x of None \<Rightarrow> [] | Some x \<Rightarrow> [x]"
  have r: "same_recipes T T'" using g by (simp add: goes_on_def chef_change_def)
  have "chef_ok (?A @ ?L @ ?B) T'"
    unfolding beside_split using g b(2,3) call_ok_mono [OF _ r] by (simp add: goes_on_def)
  moreover have "(\<lambda>p. int (slots (?A @ ?L @ ?B) p)) = (\<lambda>p. int (slots (?A @ ?B) p) + int (slots ?L p))" by (auto simp: algebra_simps)
  moreover have "set (limbo (?A @ ?L @ ?B)) = set (limbo (?A @ ?B)) \<union> set (limbo ?L)" by auto
  ultimately have "chef_steps (?A @ ?L @ ?B) (set removed) (set added) T T'" using g unfolding chef_steps_def goes_on_def by simp
  with s g show ?thesis by (auto simp: goes_on_def)
qed

text \<open>A new call, or none, joins the others.\<close>

lemma chef_joins:
  assumes "chef_ok K T" "kitchen_inv (\<lambda>p. int (slots (K @ L) p)) (set (limbo K)) T'" "limbo L = []" "\<forall>x\<in>set L. call_ok T' x"
    "same_recipes T T'" "ch_byConn T' = ch_byConn T" "ch_dialed T' = ch_dialed T"
  shows "chef_steps (K @ L) {} {} T T'"
proof -
  have "handed T' = handed T" using handed_dialed [OF chef_okD [OF assms(1)]] handed_dialed [OF assms(2)] assms(7) by simp
  moreover have "chef_ok (K @ L) T'" using assms call_ok_mono [OF _ assms(5)] by (auto simp: chef_ok_def)
  ultimately show ?thesis using assms by (simp add: chef_steps_def chef_change_def open_conns_def)
qed

lemma step_learn_start:
  assumes "chef_ok K T"
  shows "\<exists>T' K'. kitchen_step (KLearn name p) (T, K) = Some (([], []), T', K') \<and> chef_steps K' {} {} T T'"
proof -
  obtain n T' where a: "AllocateInitial p T = (n, T')" by fastforce
  note i = AllocateInitial_ok [OF chef_okD [OF assms] a]
  then have "(\<lambda>q. int (slots (K @ [CLearn name p (nat n) False []]) q)) = bump p n (\<lambda>q. int (slots K q))" by (auto simp: bump_def)
  moreover have "ch_byConn T' = ch_byConn T" "ch_dialed T' = ch_dialed T"
    using a by (auto simp: AllocateInitial_def Let_def split: if_splits)
  ultimately have "chef_steps (K @ [CLearn name p (nat n) False []]) {} {} T T'" by (intro chef_joins [OF assms]) (use i in simp_all)
  with a show ?thesis by simp
qed

lemma step_score_start:
  assumes "chef_ok K T"
  shows "\<exists>T' K'. kitchen_step (KScore r) (T, K) = Some (([], []), T', K') \<and> chef_steps K' {} {} T T'"
proof -
  from score_start_ok [of r T] obtain todo T' where s: "score_start r T = Some (todo, T')" "untouched T T'" by blast
  let ?L = "case todo of None \<Rightarrow> [] | Some (critics, tot) \<Rightarrow> [CScore r critics tot]"
  have "slots ?L p = 0" "limbo ?L = []" "\<forall>x\<in>set ?L. call_ok T' x" for p by (auto split: option.splits)
  then have "chef_steps (K @ ?L) {} {} T T'"
    by (intro chef_joins [OF assms]) (use s(2) untouched_keeps [OF s(2) chef_okD [OF assms]] in \<open>simp_all add: untouched_def\<close>)
  with s(1) show ?thesis by simp
qed

lemma step_cook_start:
  assumes "chef_ok K T" "r < ch_new T"
  shows "\<exists>T' K'. kitchen_step (KCook r) (T, K) = Some (([], []), T', K') \<and> chef_steps K' {} {} T T'"
proof -
  let ?p = "kr_recipe (ch_recipes T r)"
  obtain b T' where a: "Allocate ?p T = (b, T')" by fastforce
  show ?thesis
  proof (cases b)
    case False
    with a have "T' = T" by (auto simp: Allocate_def Let_def split: if_splits)
    moreover have "chef_steps K {} {} T T" using assms(1) by (intro chef_steps_call chef_same chef_okD)
    ultimately show ?thesis using a False by (simp add: Let_def)
  next
    case True
    then have "Allocate ?p T = (True, T')" using a by simp
    note i = Allocate_ok [OF chef_okD [OF assms(1)] this, THEN conjunct1] Allocate_ok [OF chef_okD [OF assms(1)] this, THEN conjunct2]
    have f: "ch_new T' = ch_new T" "ch_recipes T' = ch_recipes T" "ch_byConn T' = ch_byConn T" "ch_dialed T' = ch_dialed T"
      by (simp_all add: i(2))
    have "(\<lambda>q. int (slots (K @ [CCook r ?p]) q)) = bump ?p 1 (\<lambda>q. int (slots K q))" by (auto simp: bump_def)
    then have "chef_steps (K @ [CCook r ?p]) {} {} T T'"
      by (intro chef_joins [OF assms(1)]) (use i(1) assms(2) in \<open>simp_all add: f same_recipes_def\<close>)
    with a True show ?thesis by (simp add: Let_def)
  qed
qed

text \<open>
  The calls of the pool other than \<^verbatim>\<open>Burn\<close>, \<^verbatim>\<open>Ignite\<close> and \<^verbatim>\<open>Close\<close>, which report nothing: every step reports the connections
  that it drops and registers, and leaves the kitchen in order.
\<close>

definition reports :: "kitchen_event \<Rightarrow> bool" where
  "reports ev \<longleftrightarrow> (case ev of KBurn _ \<Rightarrow> False | KIgnite _ \<Rightarrow> False | KClose \<Rightarrow> False | _ \<Rightarrow> True)"

lemma kitchen_step_ok:
  assumes "chef_ok K T" "kitchen_enabled ev (T, K)" "reports ev"
  shows "\<exists>removed added T' K'. kitchen_step ev (T, K) = Some ((removed, added), T', K') \<and> distinct added \<and> set removed \<subseteq> open_conns T \<and>
    chef_steps K' (set removed) (set added) T T'"
proof (cases ev)
  case (KEnv ds ts rs)
  let ?T = "T\<lparr>ch_dials := ds, ch_clock := ts, ch_tastes := rs\<rparr>"
  have "chef_steps (K @ []) {} {} T ?T"
    by (rule chef_joins [OF assms(1)]) (use chef_okD [OF assms(1)] in \<open>simp_all add: kitchen_inv_def same_recipes_def\<close>)
  with KEnv show ?thesis by simp
next
  case KSort
  have "chef_steps (K @ []) {} {} T (sort_order T)"
    by (rule chef_joins [OF assms(1)]) (use chef_okD [OF assms(1)] in \<open>simp_all add: sort_order_ok\<close>, simp_all add: sort_order_def same_recipes_def)
  with KSort show ?thesis by simp
next
  case (KForget name)
  from Forget_change [OF chef_okD [OF assms(1)], of name] chef_steps_call [OF assms(1)] KForget show ?thesis by fastforce
next
  case (KLearn name p)
  with step_learn_start [OF assms(1), of name p] show ?thesis by fastforce
next
  case (KScore r)
  with step_score_start [OF assms(1), of r] show ?thesis by fastforce
next
  case (KCook r)
  with step_cook_start [OF assms(1), of r] assms(2) show ?thesis by fastforce
next
  case (KStep i)
  with step_call [OF assms(1), of i] assms(2) show ?thesis by simp
qed (use assms(3) in \<open>simp_all add: reports_def\<close>)

lemma kitchen_exec_ok:
  assumes "chef_ok K T" "kitchen_enabled ev (T, K)"
  shows "\<exists>T' K'. kitchen_exec ev (T, K) = Some (T', K') \<and> chef_ok K' T'"
proof (cases "reports ev")
  case True
  from kitchen_step_ok [OF assms True] show ?thesis by (auto simp: kitchen_exec_def chef_steps_def)
next
  case False
  have c: "chef_ok K T'" if "chef_change (\<lambda>p. int (slots K p)) (set (limbo K)) R A T T'" for R A T'
    using chef_steps_call [OF assms(1) that] by (simp add: chef_steps_def)
  note i = chef_okD [OF assms(1)]
  from False c [OF Burn_change [OF i]] c [OF Ignite_change [OF i surjective_pairing]] c [OF Close_change [OF i]] show ?thesis
    by (cases ev) (simp_all add: reports_def kitchen_exec_def)
qed

lemma chef_ok_init: "\<forall>p. pr_count (recipes p) = 0 \<Longrightarrow> chef_ok [] (MakeChef critics recipes)"
  using MakeChef_inv [of recipes critics] by (simp add: chef_ok_def)

lemma chef_ok_reach:
  assumes "kitchen_reach critics recipes S" "\<forall>p. pr_count (recipes p) = 0"
  shows "chef_ok (snd S) (fst S)"
  using assms
proof (induction rule: reachable.induct)
  case (step S ev S')
  then have "chef_ok (snd S) (fst S)" "kitchen_enabled ev (fst S, snd S)" by simp_all
  from kitchen_exec_ok [OF this] step.hyps(3) show ?case by auto
qed (simp add: chef_ok_init)

section \<open>What holds whenever the lock is free\<close>

text \<open>
  (C7) In every state that the chef and its callers can reach, with any interleaving of their sections and any answers of
  the network, the clock and the critics: no section panics; a recipe counts exactly its registered connections and the
  slots that calls under way have allocated; with a maximum, it stays within the greater of its maximum and its minimum;
  every connection that \<^verbatim>\<open>Dial\<close> returned is exactly one of closed, registered with exactly one recipe (which may have been
  forgotten while it was dialled), or in the hands of exactly one call under way; and the names and the order list the same recipes.
  Sockets on which the login failed are not connections: \<^verbatim>\<open>Dial\<close> drops them without closing them (\<open>Dial_leaks_socket\<close>).
\<close>

theorem kitchen_accounts:
  assumes "\<forall>p. pr_count (recipes p) = 0" "kitchen_reach critics recipes (T, K)"
  shows "(\<forall>ev. kitchen_enabled ev (T, K) \<longrightarrow> kitchen_exec ev (T, K) \<noteq> None) \<and>
    (\<forall>p. pr_count (ch_pool T p) = int (used p T) + int (slots K p)) \<and>
    (\<forall>p. pr_MaxConnections (ch_pool T p) \<noteq> 0 \<longrightarrow>
      pr_count (ch_pool T p) \<le> max 0 (max (pr_MaxConnections (ch_pool T p)) (pr_MinConnections (ch_pool T p)))) \<and>
    {..<ch_dialed T} = set (ch_closed T) \<union> fst ` set (ch_byConn T) \<union> set (limbo K) \<and>
    set (ch_closed T) \<inter> fst ` set (ch_byConn T) = {} \<and> set (limbo K) \<inter> (set (ch_closed T) \<union> fst ` set (ch_byConn T)) = {} \<and>
    distinct (limbo K) \<and> distinct (map fst (ch_byConn T)) \<and>
    (\<forall>c r. (c, r) \<in> set (ch_byConn T) \<longleftrightarrow> r < ch_new T \<and> c \<in> set (kr_conns (ch_recipes T r))) \<and>
    set (ch_order T) = snd ` set (ch_byName T)"
proof -
  have ok: "chef_ok K T" using chef_ok_reach [OF assms(2,1)] by simp
  then have i: "kitchen_inv (\<lambda>p. int (slots K p)) (set (limbo K)) T" "distinct (limbo K)" by (simp_all add: chef_ok_def)
  have co: "conns_ok (\<lambda>p. int (slots K p)) (set (limbo K)) T" using i(1) by (simp add: kitchen_inv_def)
  note d = conns_okD [OF co]
  have "(c, r) \<in> set (ch_byConn T) \<longleftrightarrow> r < ch_new T \<and> c \<in> set (kr_conns (ch_recipes T r))" for c r using d(2,4) by blast
  moreover have "{..<ch_dialed T} = set (ch_closed T) \<union> fst ` set (ch_byConn T) \<union> set (limbo K)"
    "set (ch_closed T) \<inter> fst ` set (ch_byConn T) = {}" "set (limbo K) \<inter> (set (ch_closed T) \<union> fst ` set (ch_byConn T)) = {}"
    using co unfolding conns_ok_def by (elim conjE, blast)+
  moreover have "kitchen_exec ev (T, K) \<noteq> None" if "kitchen_enabled ev (T, K)" for ev using kitchen_exec_ok [OF ok that] by auto
  moreover have "limits_ok T" "names_ok T" using i(1) by (simp_all add: kitchen_inv_def)
  ultimately show ?thesis using i(2) d(1,5) by (simp add: limits_ok_def names_ok_def Let_def)
qed

definition kitchen_run :: "kitchen_event list \<Rightarrow> kitchen option" where
  "kitchen_run evs = run_events kitchen_enabled kitchen_exec evs (MakeChef 0 (\<lambda>_. sample_recipe), [])"

text \<open>A recipe is learnt and forgotten while \<^verbatim>\<open>Cook\<close> dials with it; the connection is registered afterwards and the chef closes.\<close>

theorem kitchen_accounts_witness:
  "\<exists>T K. kitchen_run [KLearn ''a'' 0, KStep 0, KStep 0, KCook 0, KForget ''a'', KStep 0] = Some (T, K) \<and> K \<noteq> [] \<and> ch_closed T \<noteq> [] \<and>
    pr_count (ch_pool T 0) = int (used 0 T) + int (slots K 0)"
proof -
  let ?run = "kitchen_run [KLearn ''a'' 0, KStep 0, KStep 0, KCook 0, KForget ''a'', KStep 0]"
  have "map_option (\<lambda>(T, K). (K, ch_closed T)) ?run = Some ([CCooked 0 0 1], [0])" by code_simp
  then obtain T K where t: "?run = Some (T, K)" "K = [CCooked 0 0 1]" "ch_closed T = [0]" by auto
  have "kitchen_reach 0 (\<lambda>_. sample_recipe) (T, K)"
    using reachable_run [OF t(1) [unfolded kitchen_run_def] reachable.start] .
  from kitchen_accounts [OF _ this] t show ?thesis by (auto simp: sample_recipe_def)
qed

end
