(* ===== verification/Conn_Metrics.thy ===== *)
theory Conn_Metrics
  imports Pggat_Prelude
begin

text \<open>
  The state of a connection in a pool and its metrics: \<^verbatim>\<open>lib/gat/metrics\<close> and the methods that
  \<^verbatim>\<open>spool/server.go\<close>, \<^verbatim>\<open>pools/basic/client.go\<close> and \<^verbatim>\<open>pools/hybrid/client.go\<close> share: \<^verbatim>\<open>SetState\<close>, \<^verbatim>\<open>GetState\<close>,
  \<^verbatim>\<open>TransactionComplete\<close> and \<^verbatim>\<open>ReadMetrics\<close>.  Times are numbers, and the time that a method reads from the clock is
  an argument.  Shown: what is reported between two readings adds up to the time that passed, without gaps and without
  counting twice.
\<close>

section \<open>States\<close>

datatype ConnState = ConnStateIdle | ConnStateActive | ConnStateAwaitingServer | ConnStatePairing | ConnStateRunningResetQuery

primrec ConnState_String :: "ConnState \<Rightarrow> string" where
  "ConnState_String ConnStateIdle = ''idle''"
| "ConnState_String ConnStateActive = ''active''"
| "ConnState_String ConnStateAwaitingServer = ''awaiting server''"
| "ConnState_String ConnStatePairing = ''pairing''"
| "ConnState_String ConnStateRunningResetQuery = ''running reset query''"

definition all_states :: "ConnState list" where
  "all_states = [ConnStateIdle, ConnStateActive, ConnStateAwaitingServer, ConnStatePairing, ConnStateRunningResetQuery]"

text \<open>A connection with a peer: the number of a client or server, or none.\<close>

record conn_state =
  cs_txnCount :: int
  cs_lastMetricsRead :: int
  cs_state :: ConnState
  cs_peer :: uuid
  cs_since :: int
  cs_util :: "ConnState \<Rightarrow> int"

record conn_report =
  mc_Time :: int
  mc_State :: ConnState
  mc_Peer :: uuid
  mc_Since :: int
  mc_Utilization :: "ConnState \<Rightarrow> int"
  mc_TransactionCount :: int

text \<open>\<^verbatim>\<open>lastMetricsRead\<close> starts as the zero time, which is before every other.\<close>

definition new_conn_state :: "int \<Rightarrow> int \<Rightarrow> conn_state" where
  "new_conn_state zero now = \<lparr>cs_txnCount = 0, cs_lastMetricsRead = zero, cs_state = ConnStateIdle, cs_peer = uuid_nil,
     cs_since = now, cs_util = (\<lambda>_. 0)\<rparr>"

text \<open>The time in the current state that was not reported yet.\<close>

definition time_in_state :: "int \<Rightarrow> conn_state \<Rightarrow> int" where
  "time_in_state now T = (if cs_since T < cs_lastMetricsRead T then now - cs_lastMetricsRead T else now - cs_since T)"

definition SetState :: "int \<Rightarrow> ConnState \<Rightarrow> uuid \<Rightarrow> conn_state \<Rightarrow> conn_state" where
  "SetState now state peer T = (
     let since = time_in_state now T in
     T\<lparr>cs_util := (cs_util T)(cs_state T := cs_util T (cs_state T) + since), cs_state := state, cs_peer := peer, cs_since := now\<rparr>)"

definition GetState :: "conn_state \<Rightarrow> int \<times> ConnState \<times> uuid" where
  "GetState T = (cs_since T, cs_state T, cs_peer T)"

definition TransactionComplete :: "conn_state \<Rightarrow> conn_state" where
  "TransactionComplete T = T\<lparr>cs_txnCount := cs_txnCount T + 1\<rparr>"

definition ReadMetrics :: "int \<Rightarrow> conn_state \<Rightarrow> conn_report \<times> conn_state" where
  "ReadMetrics now T = (
     let since = time_in_state now T in
     (\<lparr>mc_Time = now, mc_State = cs_state T, mc_Peer = cs_peer T, mc_Since = cs_since T,
       mc_Utilization = (cs_util T)(cs_state T := cs_util T (cs_state T) + since), mc_TransactionCount = cs_txnCount T\<rparr>,
      T\<lparr>cs_util := (\<lambda>_. 0), cs_txnCount := 0, cs_lastMetricsRead := now\<rparr>))"

section \<open>Pools\<close>

record pool_report =
  mp_Servers :: "(uuid \<times> conn_report) list"
  mp_Clients :: "(uuid \<times> conn_report) list"

definition TransactionCount :: "pool_report \<Rightarrow> int" where
  "TransactionCount T = (
     let serverTransactions = sum_list (map (mc_TransactionCount \<circ> snd) (mp_Servers T));
         clientTransactions = sum_list (map (mc_TransactionCount \<circ> snd) (mp_Clients T)) in
     if clientTransactions > serverTransactions then clientTransactions else serverTransactions)"

definition connStateCounts :: "(uuid \<times> conn_report) list \<Rightarrow> ConnState \<Rightarrow> int" where
  "connStateCounts items = fold (\<lambda>(_, item) states. states(mc_State item := states (mc_State item) + 1)) items (\<lambda>_. 0)"

text \<open>The two sums of \<^verbatim>\<open>connStateUtils\<close>, whose quotient is the share of a state.\<close>

definition connStateUtils :: "(uuid \<times> conn_report) list \<Rightarrow> (ConnState \<Rightarrow> int) \<times> int" where
  "connStateUtils items =
     (\<lambda>state. sum_list (map (\<lambda>(_, item). mc_Utilization item state) items),
      sum_list (map (\<lambda>(_, item). sum_list (map (mc_Utilization item) all_states)) items))"

definition pool_Clear :: "pool_report \<Rightarrow> pool_report" where
  "pool_Clear T = T\<lparr>mp_Servers := [], mp_Clients := []\<rparr>"

section \<open>The reports add up\<close>

datatype metrics_op = MSetState int ConnState uuid | MTransactionComplete | MRead int

fun metrics_run :: "metrics_op list \<Rightarrow> conn_state \<Rightarrow> conn_report list \<Rightarrow> conn_report list \<times> conn_state" where
  "metrics_run [] T reports = (reports, T)"
| "metrics_run (MSetState now st peer # ops) T reports = metrics_run ops (SetState now st peer T) reports"
| "metrics_run (MTransactionComplete # ops) T reports = metrics_run ops (TransactionComplete T) reports"
| "metrics_run (MRead now # ops) T reports =
     (case ReadMetrics now T of (m, T) \<Rightarrow> metrics_run ops T (reports @ [m]))"

definition reported :: "conn_report list \<Rightarrow> int" where
  "reported rs = sum_list (map (\<lambda>m. sum_list (map (mc_Utilization m) all_states)) rs)"

definition pending_util :: "conn_state \<Rightarrow> int" where
  "pending_util T = sum_list (map (cs_util T) all_states)"

text \<open>The clock does not go back.\<close>

fun op_times :: "metrics_op list \<Rightarrow> int list" where
  "op_times [] = []"
| "op_times (MSetState now _ _ # ops) = now # op_times ops"
| "op_times (MTransactionComplete # ops) = op_times ops"
| "op_times (MRead now # ops) = now # op_times ops"

lemma sum_states_upd: "sum_list (map (f(s := f s + x)) all_states) = sum_list (map f all_states) + (x :: int)"
  by (cases s) (simp_all add: all_states_def)

lemma sum_states_zero: "sum_list (map (\<lambda>_. 0 :: int) all_states) = 0"
  by (simp add: all_states_def)

lemma reported_snoc: "reported (rs @ [m]) = reported rs + sum_list (map (mc_Utilization m) all_states)"
  by (simp add: reported_def)

definition last_event :: "conn_state \<Rightarrow> int" where
  "last_event T = (if cs_since T < cs_lastMetricsRead T then cs_lastMetricsRead T else cs_since T)"

lemma time_in_state_last: "time_in_state now T = now - last_event T"
  by (simp add: time_in_state_def last_event_def)

lemma metrics_run_adds_up:
  assumes "metrics_run ops T rs = (rs', T')" "sorted (t # op_times ops)" "last_event T \<le> t" "cs_lastMetricsRead T \<le> t"
  shows "reported rs' + pending_util T' - last_event T' = reported rs + pending_util T - last_event T"
  using assms
proof (induction ops T rs arbitrary: t rule: metrics_run.induct)
  case (2 now st peer ops T reports)
  let ?T = "SetState now st peer T"
  have l: "last_event ?T = now" using 2(3-5) by (auto simp: last_event_def SetState_def Let_def split: if_splits)
  have u: "pending_util ?T = pending_util T + (now - last_event T)"
    by (simp add: pending_util_def SetState_def Let_def sum_states_upd time_in_state_last)
  from 2(1) [of now] 2(2-5) l u show ?case by (auto simp: SetState_def Let_def)
next
  case (3 ops T reports)
  then show ?case by (auto simp: TransactionComplete_def pending_util_def last_event_def)
next
  case (4 now ops T reports)
  obtain m T1 where r: "ReadMetrics now T = (m, T1)" by fastforce
  have l: "last_event T1 = now" using r 4(3-5) by (auto simp: last_event_def ReadMetrics_def Let_def split: if_splits)
  have u: "pending_util T1 = 0" "sum_list (map (mc_Utilization m) all_states) = pending_util T + (now - last_event T)"
    using r by (auto simp: pending_util_def ReadMetrics_def Let_def sum_states_upd sum_states_zero time_in_state_last)
  have "cs_lastMetricsRead T1 = now" using r by (auto simp: ReadMetrics_def Let_def)
  with 4(1) [OF r [symmetric], of now] 4(2-5) r l u show ?case by (simp add: reported_snoc)
qed auto

text \<open>
  The reports of a connection account for its whole life: however often its state changes and its metrics are
  read, the utilisation reported so far adds up to the time from its creation to the last reading.
\<close>

theorem reports_add_up:
  assumes "metrics_run ops (new_conn_state zero created) [] = (rs, T)" "sorted (created # op_times ops @ [now])" "zero \<le> created"
  shows "reported (rs @ [fst (ReadMetrics now T)]) = now - created"
proof -
  have s: "sorted (created # op_times ops)" using assms(2) by (simp add: sorted_append)
  have "last_event (new_conn_state zero created) = created" "pending_util (new_conn_state zero created) = 0"
    "cs_lastMetricsRead (new_conn_state zero created) \<le> created"
    using assms(3) by (auto simp: last_event_def new_conn_state_def pending_util_def sum_states_zero)
  with metrics_run_adds_up [OF assms(1) s] have "reported rs + pending_util T - last_event T = - created" by (simp add: reported_def)
  then show ?thesis
    by (simp add: reported_snoc ReadMetrics_def Let_def sum_states_upd time_in_state_last pending_util_def)
qed

theorem reports_add_up_witness:
  "let ops = [MSetState 3 ConnStateActive 7, MRead 5, MSetState 9 ConnStateIdle 0] in
   reported (fst (metrics_run ops (new_conn_state 0 1) []) @ [fst (ReadMetrics 12 (snd (metrics_run ops (new_conn_state 0 1) [])))]) = 11"
proof -
  let ?ops = "[MSetState 3 ConnStateActive 7, MRead 5, MSetState 9 ConnStateIdle 0]"
  obtain rs T where r: "metrics_run ?ops (new_conn_state 0 1) [] = (rs, T)" by fastforce
  have "sorted (1 # op_times ?ops @ [12])" "(0::int) \<le> 1" by simp_all
  from reports_add_up [OF r this] r show ?thesis unfolding Let_def by (simp del: metrics_run.simps)
qed

end
