(* ===== verification/Lifo_Pooler.thy ===== *)
theory Lifo_Pooler
  imports Ring_Buffer Pooler_Contract
begin

text \<open>
  The LIFO pooler of \<^verbatim>\<open>lib/gat/handlers/pool/poolers/lifo/pooler.go\<close>.  Clients wait on channels of capacity
  one; a channel is a number (0 is nil) into a heap of channel states.  Every critical section under the
  pooler's mutex is one step, and so is a receive outside of it; \<^verbatim>\<open>Acquire\<close> is split at the points where the
  mutex is released.  \<^term>\<open>None\<close> stands for a panic (send on or close of a closed channel, index out of range)
  and for blocking forever with the mutex held (send on a full channel, receive from an empty one).
  The signal on \<^verbatim>\<open>waiting\<close> is a send with a default case and has no effect on the pooler's state.
  Shown, for all interleavings: no step panics or deadlocks, no server is given to two clients, a server
  is idle only when nobody waits, and a client that gives up does not disturb the order of the others.
\<close>

section \<open>The pooler\<close>

record lifo =
  lp_pool :: "chan list"
  lp_servers :: "uuid set"
  lp_queue :: "uuid list"
  lp_waiters :: "chan ring"
  lp_closed :: bool
  lp_chans :: "chan \<Rightarrow> chan_state"
  lp_next :: chan

definition lifo_NewPooler :: lifo where
  "lifo_NewPooler = \<lparr>lp_pool = [], lp_servers = {}, lp_queue = [], lp_waiters = ring_zero,
     lp_closed = False, lp_chans = (\<lambda>_. chan_make), lp_next = 1\<rparr>"

definition lifo_release :: "uuid \<Rightarrow> lifo \<Rightarrow> lifo option" where
  "lifo_release server p =
     (if server \<notin> lp_servers p then Some p
      else do {
        (c, r) \<leftarrow> PopFront 0 (lp_waiters p);
        case c of
          Some c \<Rightarrow> do {
            ch \<leftarrow> chan_send server (lp_chans p c);
            Some (p\<lparr>lp_waiters := r, lp_chans := (lp_chans p)(c := ch)\<rparr>)
          }
        | None \<Rightarrow> Some (p\<lparr>lp_waiters := r, lp_queue := lp_queue p @ [server]\<rparr>)
      })"

definition lifo_AddServer :: "uuid \<Rightarrow> lifo \<Rightarrow> lifo option" where
  "lifo_AddServer server p = lifo_release server (p\<lparr>lp_servers := insert server (lp_servers p)\<rparr>)"

definition lifo_DeleteServer :: "uuid \<Rightarrow> lifo \<Rightarrow> lifo option" where
  "lifo_DeleteServer server p = do {
     q \<leftarrow> slices_Remove (lp_queue p) server;
     Some (p\<lparr>lp_queue := q, lp_servers := lp_servers p - {server}\<rparr>)
   }"

text \<open>The first critical section of \<^verbatim>\<open>Acquire\<close>: a server, or the channel to wait on, or neither.\<close>

definition lifo_Acquire :: "lifo \<Rightarrow> ((uuid \<times> chan option) \<times> lifo) option" where
  "lifo_Acquire p =
     (if lp_closed p then Some ((uuid_nil, None), p)
      else if lp_queue p \<noteq> [] then Some ((last (lp_queue p), None), p\<lparr>lp_queue := butlast (lp_queue p)\<rparr>)
      else do {
        let (got, pool) = Pool_Get (lp_pool p);
        let (ready, p) = (case got of
            Some c \<Rightarrow> (c, p\<lparr>lp_pool := pool\<rparr>)
          | None \<Rightarrow> (lp_next p, p\<lparr>lp_pool := pool, lp_next := lp_next p + 1,
                       lp_chans := (lp_chans p)(lp_next p := chan_make)\<rparr>));
        r \<leftarrow> PushBack 0 ready (lp_waiters p);
        Some ((uuid_nil, Some ready), p\<lparr>lp_waiters := r\<rparr>)
      })"

text \<open>\<^verbatim>\<open>v, ok = <-c\<close>, and the channel goes back to the free list when it delivered a value.\<close>

definition lifo_receive :: "chan \<Rightarrow> lifo \<Rightarrow> (uuid \<times> lifo) option" where
  "lifo_receive c p = do {
     (v, ok, ch) \<leftarrow> chan_recv (lp_chans p c);
     Some (v, p\<lparr>lp_chans := (lp_chans p)(c := ch), lp_pool := (if ok then Pool_Put c (lp_pool p) else lp_pool p)\<rparr>)
   }"

text \<open>One turn of the whole ring of waiters without \<open>c\<close>.\<close>

primrec lifo_rotate :: "nat \<Rightarrow> chan \<Rightarrow> bool \<Rightarrow> chan ring \<Rightarrow> (bool \<times> chan ring) option" where
  "lifo_rotate 0 c found r = Some (found, r)"
| "lifo_rotate (Suc n) c found r = do {
     (cc, r) \<leftarrow> PopFront 0 r;
     let cc = (case cc of Some cc \<Rightarrow> cc | None \<Rightarrow> 0);
     if c = cc then lifo_rotate n c True r
     else do { r \<leftarrow> PushBack 0 cc r; lifo_rotate n c found r }
   }"

text \<open>The critical section of \<^verbatim>\<open>Acquire\<close> after the timeout.\<close>

definition lifo_timeout :: "chan \<Rightarrow> lifo \<Rightarrow> (uuid \<times> lifo) option" where
  "lifo_timeout c p = do {
     (found, r) \<leftarrow> lifo_rotate (nat (Ring_Length (lp_waiters p))) c False (lp_waiters p);
     let p = p\<lparr>lp_waiters := r\<rparr>;
     if found then Some (uuid_nil, p\<lparr>lp_pool := Pool_Put c (lp_pool p)\<rparr>)
     else lifo_receive c p
   }"

definition lifo_Release :: "uuid \<Rightarrow> lifo \<Rightarrow> lifo option" where
  "lifo_Release server p = lifo_release server p"

definition lifo_Waiters :: "lifo \<Rightarrow> int" where
  "lifo_Waiters p = Ring_Length (lp_waiters p)"

partial_function (option) lifo_close_loop ::
  "chan ring \<Rightarrow> (chan \<Rightarrow> chan_state) \<Rightarrow> (chan ring \<times> (chan \<Rightarrow> chan_state)) option" where
  "lifo_close_loop r chans = do {
     (c, r) \<leftarrow> PopFront 0 r;
     case c of
       None \<Rightarrow> Some (r, chans)
     | Some c \<Rightarrow> do {
         ch \<leftarrow> chan_close (chans c);
         lifo_close_loop r (chans(c := ch))
       }
   }"

declare lifo_close_loop.simps [code]

definition lifo_Close :: "lifo \<Rightarrow> lifo option" where
  "lifo_Close p = do {
     (r, chans) \<leftarrow> lifo_close_loop (lp_waiters p) (lp_chans p);
     Some (p\<lparr>lp_closed := True, lp_servers := {}, lp_queue := [], lp_waiters := r, lp_chans := chans\<rparr>)
   }"

section \<open>Clients\<close>

text \<open>
  The pooler together with its clients: which client waits on which channel, the servers handed out and
  not yet given back, and the server ids used so far.  The clients and the owner of the pooler follow
  the protocol of the \<^verbatim>\<open>Pooler\<close> interface: a server id is fresh when it is added, and only a server
  that was acquired is released.
\<close>

record lifo_sys =
  ls_pooler :: lifo
  ls_wait :: "nat \<rightharpoonup> chan"
  ls_held :: "uuid list"
  ls_used :: "uuid set"

datatype lifo_event =
    LAdd uuid | LDelete uuid | LAcquire nat | LReceive nat | LTimeout nat | LRelease uuid | LClose

fun lifo_enabled :: "lifo_event \<Rightarrow> lifo_sys \<Rightarrow> bool" where
  "lifo_enabled (LAdd s) S = (s \<noteq> uuid_nil \<and> s \<notin> ls_used S)"
| "lifo_enabled (LDelete s) S = True"
| "lifo_enabled (LAcquire t) S = (ls_wait S t = None)"
| "lifo_enabled (LReceive t) S = (case ls_wait S t of None \<Rightarrow> False
     | Some c \<Rightarrow> chan_recv (lp_chans (ls_pooler S) c) \<noteq> None)"
| "lifo_enabled (LTimeout t) S = (ls_wait S t \<noteq> None)"
| "lifo_enabled (LRelease s) S = (s \<in> set (ls_held S))"
| "lifo_enabled LClose S = True"

fun lifo_exec :: "lifo_event \<Rightarrow> lifo_sys \<Rightarrow> lifo_sys option" where
  "lifo_exec (LAdd s) S = do {
     p \<leftarrow> lifo_AddServer s (ls_pooler S);
     Some (S\<lparr>ls_pooler := p, ls_used := insert s (ls_used S)\<rparr>)
   }"
| "lifo_exec (LDelete s) S = do {
     p \<leftarrow> lifo_DeleteServer s (ls_pooler S);
     Some (S\<lparr>ls_pooler := p\<rparr>)
   }"
| "lifo_exec (LAcquire t) S = do {
     ((v, c), p) \<leftarrow> lifo_Acquire (ls_pooler S);
     Some (S\<lparr>ls_pooler := p, ls_wait := (ls_wait S)(t := c), ls_held := client_got v (ls_held S)\<rparr>)
   }"
| "lifo_exec (LReceive t) S = do {
     c \<leftarrow> ls_wait S t;
     (v, p) \<leftarrow> lifo_receive c (ls_pooler S);
     Some (S\<lparr>ls_pooler := p, ls_wait := (ls_wait S)(t := None), ls_held := client_got v (ls_held S)\<rparr>)
   }"
| "lifo_exec (LTimeout t) S = do {
     c \<leftarrow> ls_wait S t;
     (v, p) \<leftarrow> lifo_timeout c (ls_pooler S);
     Some (S\<lparr>ls_pooler := p, ls_wait := (ls_wait S)(t := None), ls_held := client_got v (ls_held S)\<rparr>)
   }"
| "lifo_exec (LRelease s) S = do {
     p \<leftarrow> lifo_Release s (ls_pooler S);
     Some (S\<lparr>ls_pooler := p, ls_held := remove1 s (ls_held S)\<rparr>)
   }"
| "lifo_exec LClose S = do {
     p \<leftarrow> lifo_Close (ls_pooler S);
     Some (S\<lparr>ls_pooler := p\<rparr>)
   }"

definition lifo_init :: lifo_sys where
  "lifo_init = \<lparr>ls_pooler = lifo_NewPooler, ls_wait = Map.empty, ls_held = [], ls_used = {}\<rparr>"

abbreviation lifo_reach :: "lifo_sys \<Rightarrow> bool" where
  "lifo_reach \<equiv> reachable lifo_init lifo_enabled lifo_exec"

text \<open>The state after a concrete sequence of events.\<close>

definition lifo_at :: "lifo_event list \<Rightarrow> lifo_sys" where
  "lifo_at evs = the (run_events lifo_enabled lifo_exec evs lifo_init)"

definition lifo_queued :: "lifo_sys \<Rightarrow> nat set" where
  "lifo_queued S = {t. \<exists>c. ls_wait S t = Some c \<and> c \<in> set (ring_list (lp_waiters (ls_pooler S)))}"

definition lifo_sent :: "lifo_sys \<Rightarrow> nat \<Rightarrow> uuid \<Rightarrow> bool" where
  "lifo_sent S t s \<longleftrightarrow> (\<exists>c. ls_wait S t = Some c \<and> s \<in> set (ch_buf (lp_chans (ls_pooler S) c)))"

section \<open>The invariant\<close>

text \<open>The channels of the queue of waiters \<open>W\<close>, in order and without repetition.\<close>

definition queue_ok :: "chan list \<Rightarrow> chan list \<Rightarrow> (chan \<Rightarrow> chan_state) \<Rightarrow> chan \<Rightarrow> (nat \<rightharpoonup> chan) \<Rightarrow> bool" where
  "queue_ok W P chans next_id wait \<longleftrightarrow> distinct W \<and> chans_ok (set W) P chans next_id wait"

lemma queue_ok_send:
  assumes "queue_ok (c # xs) P chans n wait"
  shows "chan_send s (chans c) = Some \<lparr>ch_buf = [s], ch_closed = False\<rparr>"
    "queue_ok xs P (chans(c := \<lparr>ch_buf = [s], ch_closed = False\<rparr>)) n wait"
  using chans_ok_send [of "set (c # xs)" P chans n wait c s] assms by (auto simp: queue_ok_def)

lemma queue_ok_close:
  assumes "queue_ok (c # xs) P chans n wait"
  shows "chan_close (chans c) = Some \<lparr>ch_buf = [], ch_closed = True\<rparr>"
    "queue_ok xs P (chans(c := \<lparr>ch_buf = [], ch_closed = True\<rparr>)) n wait"
  using chans_ok_close [of "set (c # xs)" P chans n wait c] assms by (auto simp: queue_ok_def)

lemma queue_ok_recv:
  assumes "queue_ok W P chans n wait" "wait t = Some c" "c \<notin> set W"
  shows "(chan_recv (chans c) = Some (uuid_nil, False, chans c) \<and> ch_buf (chans c) = [] \<and>
      queue_ok W P chans n (wait(t := None)))
    \<or> (\<exists>s. chan_recv (chans c) = Some (s, True, chan_make) \<and> ch_buf (chans c) = [s] \<and>
      queue_ok W (P @ [c]) (chans(c := chan_make)) n (wait(t := None)))"
  using assms chans_ok_recv [of "set W" P chans n wait t c] by (auto simp: queue_ok_def)

definition lifo_inv :: "lifo_sys \<Rightarrow> bool" where
  "lifo_inv S \<longleftrightarrow> ring_inv (lp_waiters (ls_pooler S)) \<and>
     queue_ok (ring_list (lp_waiters (ls_pooler S))) (lp_pool (ls_pooler S)) (lp_chans (ls_pooler S))
       (lp_next (ls_pooler S)) (ls_wait S) \<and>
     servers_ok (lp_servers (ls_pooler S)) (lp_queue (ls_pooler S)) (ls_held S) (lp_chans (ls_pooler S))
       (ran (ls_wait S)) (ls_used S) \<and>
     (lp_queue (ls_pooler S) = [] \<or> ring_list (lp_waiters (ls_pooler S)) = [])"

lemma lifo_inv_init: "lifo_inv lifo_init"
  by (simp add: lifo_inv_def lifo_init_def lifo_NewPooler_def rg.empty queue_ok_def chans_ok_def servers_ok_def
      wait_inj_def)

section \<open>Every step keeps the invariant\<close>

text \<open>A server that is nowhere else may be released.\<close>

definition loose :: "uuid \<Rightarrow> lifo_sys \<Rightarrow> bool" where
  "loose s S \<longleftrightarrow> s \<in> ls_used S \<and> s \<notin> set (lp_queue (ls_pooler S)) \<and> s \<notin> set (ls_held S) \<and>
     (\<forall>c\<in>ran (ls_wait S). s \<notin> set (ch_buf (lp_chans (ls_pooler S) c)))"

lemma lifo_release_ok:
  assumes "lifo_inv S" "loose s S"
  shows "\<exists>p'. lifo_release s (ls_pooler S) = Some p' \<and> lifo_inv (S\<lparr>ls_pooler := p'\<rparr>)"
proof (cases "s \<in> lp_servers (ls_pooler S)")
  case False
  with assms(1) show ?thesis by (simp add: lifo_release_def lifo_inv_def)
next
  case True
  let ?p = "ls_pooler S"
  have inv: "ring_inv (lp_waiters ?p)"
    "queue_ok (ring_list (lp_waiters ?p)) (lp_pool ?p) (lp_chans ?p) (lp_next ?p) (ls_wait S)"
    "servers_ok (lp_servers ?p) (lp_queue ?p) (ls_held S) (lp_chans ?p) (ran (ls_wait S)) (ls_used S)"
    "lp_queue ?p = [] \<or> ring_list (lp_waiters ?p) = []"
    using assms(1) by (auto simp: lifo_inv_def)
  show ?thesis
  proof (rule rg.pop_front_cases [OF inv(1), of 0])
    assume none: "PopFront 0 (lp_waiters ?p) = Some (None, lp_waiters ?p)" "ring_list (lp_waiters ?p) = []"
    have "servers_ok (lp_servers ?p) (lp_queue ?p @ [s]) (ls_held S) (lp_chans ?p) (ran (ls_wait S)) (ls_used S)"
      using inv(3) True assms(2) by (auto simp: servers_ok_def loose_def)
    with none inv True show ?thesis by (simp add: lifo_release_def lifo_inv_def)
  next
    fix c xs r
    assume some: "PopFront 0 (lp_waiters ?p) = Some (Some c, r)" "ring_list (lp_waiters ?p) = c # xs"
      "ring_inv r" "ring_list r = xs"
    from inv(2) some(2) have ch: "queue_ok (c # xs) (lp_pool ?p) (lp_chans ?p) (lp_next ?p) (ls_wait S)"
      by simp
    note snd = queue_ok_send [OF ch, of s]
    have srv: "servers_ok (lp_servers ?p) (lp_queue ?p) (ls_held S)
        ((lp_chans ?p)(c := \<lparr>ch_buf = [s], ch_closed = False\<rparr>)) (ran (ls_wait S)) (ls_used S)"
      using assms(2) by (intro servers_ok_send [OF inv(3)]) (auto simp: loose_def)
    have "lp_queue ?p = []" using inv(4) some(2) by auto
    with some snd srv True show ?thesis by (simp add: lifo_release_def lifo_inv_def)
  qed
qed

lemma lifo_Add_ok:
  assumes "lifo_inv S" "s \<noteq> uuid_nil" "s \<notin> ls_used S"
  shows "\<exists>S'. lifo_exec (LAdd s) S = Some S' \<and> lifo_inv S'"
proof -
  let ?p = "(ls_pooler S)\<lparr>lp_servers := insert s (lp_servers (ls_pooler S))\<rparr>"
  let ?S = "S\<lparr>ls_pooler := ?p, ls_used := insert s (ls_used S)\<rparr>"
  have inv: "lifo_inv ?S" using assms by (auto simp: lifo_inv_def servers_ok_def)
  have "loose s ?S" using assms by (auto simp: loose_def lifo_inv_def servers_ok_def)
  from lifo_release_ok [OF inv this] show ?thesis by (auto simp: lifo_AddServer_def lifo_inv_def)
qed

lemma lifo_Delete_ok:
  assumes "lifo_inv S"
  shows "\<exists>S'. lifo_exec (LDelete s) S = Some S' \<and> lifo_inv S'"
proof -
  let ?p = "ls_pooler S"
  have "servers_ok (lp_servers ?p - {s}) (remove1 s (lp_queue ?p)) (ls_held S) (lp_chans ?p)
      (ran (ls_wait S)) (ls_used S)"
    if "servers_ok (lp_servers ?p) (lp_queue ?p) (ls_held S) (lp_chans ?p) (ran (ls_wait S)) (ls_used S)"
    using that by (auto simp: servers_ok_def dest: notin_set_remove1)
  with assms show ?thesis
    by (auto simp: lifo_DeleteServer_def slices_Remove_remove1 lifo_inv_def)
qed

lemma lifo_Release_ok:
  assumes "lifo_inv S" "s \<in> set (ls_held S)"
  shows "\<exists>S'. lifo_exec (LRelease s) S = Some S' \<and> lifo_inv S'"
proof -
  let ?S = "S\<lparr>ls_held := remove1 s (ls_held S)\<rparr>"
  have "lifo_inv ?S" using assms by (auto simp: lifo_inv_def servers_ok_def dest: notin_set_remove1)
  moreover have "loose s ?S" using assms by (auto simp: loose_def lifo_inv_def servers_ok_def)
  ultimately show ?thesis using lifo_release_ok [of ?S s] by (auto simp: lifo_Release_def lifo_inv_def)
qed

lemma lifo_receive_ok:
  assumes "lifo_inv S" "ls_wait S t = Some c" "c \<notin> set (ring_list (lp_waiters (ls_pooler S)))"
  shows "\<exists>v p'. lifo_receive c (ls_pooler S) = Some (v, p') \<and>
    lifo_inv (S\<lparr>ls_pooler := p', ls_wait := (ls_wait S)(t := None), ls_held := client_got v (ls_held S)\<rparr>)"
proof -
  let ?p = "ls_pooler S"
  have inv: "queue_ok (ring_list (lp_waiters ?p)) (lp_pool ?p) (lp_chans ?p) (lp_next ?p) (ls_wait S)"
    "servers_ok (lp_servers ?p) (lp_queue ?p) (ls_held S) (lp_chans ?p) (ran (ls_wait S)) (ls_used S)"
    using assms(1) by (auto simp: lifo_inv_def)
  have r: "ran ((ls_wait S)(t := None)) = ran (ls_wait S) - {c}"
    using assms(2) inv(1) by (intro ran_forget) (auto simp: queue_ok_def chans_ok_def)
  have c: "c \<in> ran (ls_wait S)" using assms(2) by (rule ranI)
  from queue_ok_recv [OF inv(1) assms(2,3)] show ?thesis
  proof (elim disjE exE conjE)
    assume a: "chan_recv (lp_chans ?p c) = Some (uuid_nil, False, lp_chans ?p c)"
      "queue_ok (ring_list (lp_waiters ?p)) (lp_pool ?p) (lp_chans ?p) (lp_next ?p) ((ls_wait S)(t := None))"
    have "servers_ok (lp_servers ?p) (lp_queue ?p) (ls_held S) (lp_chans ?p) (ran (ls_wait S) - {c}) (ls_used S)"
      using inv(2) by (auto simp: servers_ok_def)
    with a assms(1) r show ?thesis by (simp add: lifo_receive_def lifo_inv_def client_got_def)
  next
    fix s
    assume a: "chan_recv (lp_chans ?p c) = Some (s, True, chan_make)" "ch_buf (lp_chans ?p c) = [s]"
      "queue_ok (ring_list (lp_waiters ?p)) (lp_pool ?p @ [c]) ((lp_chans ?p)(c := chan_make)) (lp_next ?p)
        ((ls_wait S)(t := None))"
    with servers_ok_recv [OF inv(2) c a(2)] assms(1) r show ?thesis
      by (simp add: lifo_receive_def lifo_inv_def Pool_Put_def)
  qed
qed

text \<open>The turn of the ring removes the channel and keeps the others in order.\<close>

lemma lifo_rotate_ok:
  assumes "ring_inv r" "ring_list r = xs @ ys"
  shows "\<exists>r'. lifo_rotate (length xs) c found r = Some (found \<or> c \<in> set xs, r') \<and> ring_inv r' \<and>
    ring_list r' = ys @ filter (\<lambda>x. x \<noteq> c) xs"
  using assms
proof (induction xs arbitrary: r ys found)
  case (Cons x xs)
  have "ring_list r = x # xs @ ys" using Cons.prems(2) by simp
  from rg.pop_front [OF Cons.prems(1) this, of 0] obtain r1 where
    p: "PopFront 0 r = Some (Some x, r1)" "ring_inv r1" "ring_list r1 = xs @ ys" by blast
  show ?case
  proof (cases "c = x")
    case True
    with p Cons.IH [OF p(2,3), of True] show ?thesis by auto
  next
    case False
    from rg.push_backE [OF p(2), of 0 x] obtain r2 where
      q: "PushBack 0 x r1 = Some r2" "ring_inv r2" "ring_list r2 = (xs @ ys) @ [x]" using p(3) by metis
    then have l: "ring_list r2 = xs @ ys @ [x]" by simp
    from p(1) q(1) False Cons.IH [OF q(2) l, of found] show ?thesis by auto
  qed
qed simp

lemma lifo_rotate_all:
  assumes "ring_inv r"
  shows "\<exists>r'. lifo_rotate (nat (Ring_Length r)) c False r = Some (c \<in> set (ring_list r), r') \<and> ring_inv r' \<and>
    ring_list r' = filter (\<lambda>x. x \<noteq> c) (ring_list r)"
  using lifo_rotate_ok [OF assms, of "ring_list r" "[]" c False] rg.size [OF assms]
  by (simp del: length_ring_list)

lemma lifo_Timeout_ok:
  assumes "lifo_inv S" "ls_wait S t \<noteq> None"
  shows "\<exists>S'. lifo_exec (LTimeout t) S = Some S' \<and> lifo_inv S'"
proof -
  let ?p = "ls_pooler S"
  obtain c where c: "ls_wait S t = Some c" using assms(2) by auto
  have inv: "ring_inv (lp_waiters ?p)"
    "queue_ok (ring_list (lp_waiters ?p)) (lp_pool ?p) (lp_chans ?p) (lp_next ?p) (ls_wait S)"
    "servers_ok (lp_servers ?p) (lp_queue ?p) (ls_held S) (lp_chans ?p) (ran (ls_wait S)) (ls_used S)"
    using assms(1) by (auto simp: lifo_inv_def)
  from lifo_rotate_all [OF inv(1), of c] obtain r where r:
    "lifo_rotate (nat (Ring_Length (lp_waiters ?p))) c False (lp_waiters ?p) =
       Some (c \<in> set (ring_list (lp_waiters ?p)), r)"
    "ring_inv r" "ring_list r = filter (\<lambda>x. x \<noteq> c) (ring_list (lp_waiters ?p))" by blast
  have rn: "ran ((ls_wait S)(t := None)) = ran (ls_wait S) - {c}" "wait_inj ((ls_wait S)(t := None))"
    using c inv(2) by (auto simp: queue_ok_def chans_ok_def intro!: ran_forget wait_inj_forget)
  show ?thesis
  proof (cases "c \<in> set (ring_list (lp_waiters ?p))")
    case True
    have "queue_ok (ring_list r) (lp_pool ?p @ [c]) (lp_chans ?p) (lp_next ?p) ((ls_wait S)(t := None))"
      using inv(2) True rn r(3) by (auto simp: queue_ok_def chans_ok_def)
    moreover have "servers_ok (lp_servers ?p) (lp_queue ?p) (ls_held S) (lp_chans ?p)
        (ran (ls_wait S) - {c}) (ls_used S)"
      using inv(3) by (auto simp: servers_ok_def)
    moreover have "lp_queue ?p = []" using True assms(1) by (auto simp: lifo_inv_def)
    ultimately show ?thesis using c r(1,2) True rn(1)
      by (simp add: lifo_timeout_def lifo_inv_def client_got_def Pool_Put_def)
  next
    case False
    then have same: "ring_list r = ring_list (lp_waiters ?p)" using r(3) by (auto intro: filter_idI)
    let ?S = "S\<lparr>ls_pooler := ?p\<lparr>lp_waiters := r\<rparr>\<rparr>"
    have "lifo_inv ?S" using assms(1) r(2) same by (auto simp: lifo_inv_def)
    from lifo_receive_ok [OF this, of t c] c False same obtain v p' where
      "lifo_receive c (?p\<lparr>lp_waiters := r\<rparr>) = Some (v, p')"
      "lifo_inv (?S\<lparr>ls_pooler := p', ls_wait := (ls_wait S)(t := None), ls_held := client_got v (ls_held S)\<rparr>)"
      by auto
    with c r(1) False show ?thesis by (auto simp: lifo_timeout_def)
  qed
qed

lemma lifo_Receive_ok:
  assumes "lifo_inv S" "lifo_enabled (LReceive t) S"
  shows "\<exists>S'. lifo_exec (LReceive t) S = Some S' \<and> lifo_inv S'"
proof -
  let ?p = "ls_pooler S"
  obtain c where c: "ls_wait S t = Some c" "chan_recv (lp_chans ?p c) \<noteq> None"
    using assms(2) by (auto split: option.splits)
  have "c \<notin> set (ring_list (lp_waiters ?p))"
    using c(2) assms(1) by (auto simp: lifo_inv_def queue_ok_def chans_ok_def chan_recv_def chan_make_def)
  from lifo_receive_ok [OF assms(1) c(1) this] c(1) show ?thesis by auto
qed

lemma lifo_Acquire_ok:
  assumes "lifo_inv S" "ls_wait S t = None"
  shows "\<exists>S'. lifo_exec (LAcquire t) S = Some S' \<and> lifo_inv S'"
proof -
  let ?p = "ls_pooler S"
  have inv: "ring_inv (lp_waiters ?p)"
    "queue_ok (ring_list (lp_waiters ?p)) (lp_pool ?p) (lp_chans ?p) (lp_next ?p) (ls_wait S)"
    "servers_ok (lp_servers ?p) (lp_queue ?p) (ls_held S) (lp_chans ?p) (ran (ls_wait S)) (ls_used S)"
    using assms(1) by (auto simp: lifo_inv_def)
  have same: "(ls_wait S)(t := None) = ls_wait S" using assms(2) by (rule fun_upd_idem)
  consider (closed) "lp_closed ?p" | (idle) q v where "\<not> lp_closed ?p" "lp_queue ?p = q @ [v]"
    | (wait) "\<not> lp_closed ?p" "lp_queue ?p = []" by (cases "lp_queue ?p" rule: rev_cases) auto
  then show ?thesis
  proof cases
    case closed
    then show ?thesis using assms(1) same by (auto simp: lifo_Acquire_def client_got_def lifo_inv_def)
  next
    case idle
    have "servers_ok (lp_servers ?p) q (client_got v (ls_held S)) (lp_chans ?p) (ran (ls_wait S)) (ls_used S)"
      using inv(3) idle(2) by (auto simp: servers_ok_def client_got_def)
    then show ?thesis using idle assms(1) same by (auto simp: lifo_Acquire_def lifo_inv_def)
  next
    case wait
    have ready: "\<exists>c P n chans r. lifo_Acquire ?p = Some ((uuid_nil, Some c), ?p\<lparr>lp_pool := P, lp_next := n,
        lp_chans := chans, lp_waiters := r\<rparr>) \<and> ring_inv r \<and>
        ring_list r = ring_list (lp_waiters ?p) @ [c] \<and> c \<notin> ran (ls_wait S) \<and>
        queue_ok (ring_list (lp_waiters ?p) @ [c]) P chans n ((ls_wait S)(t \<mapsto> c)) \<and>
        (\<forall>d\<in>ran (ls_wait S). chans d = lp_chans ?p d) \<and> chans c = chan_make"
    proof (rule Pool_Get_cases [of "lp_pool ?p"])
      fix c Q assume g: "Pool_Get (lp_pool ?p) = (Some c, Q)" "lp_pool ?p = Q @ [c]"
      from rg.push_backE [OF inv(1), of 0 c] obtain r where r: "PushBack 0 c (lp_waiters ?p) = Some r"
        "ring_inv r" "ring_list r = ring_list (lp_waiters ?p) @ [c]" by metis
      have "c \<notin> ran (ls_wait S)" using inv(2) g(2) by (auto simp: queue_ok_def chans_ok_def)
      moreover from this have "queue_ok (ring_list (lp_waiters ?p) @ [c]) Q (lp_chans ?p) (lp_next ?p)
          ((ls_wait S)(t \<mapsto> c))"
        using inv(2) g(2) assms(2) wait_inj_upd [of "ls_wait S" c t] by (auto simp: queue_ok_def chans_ok_def)
      ultimately show ?thesis using wait g r inv(2)
        by (intro exI [of _ c] exI [of _ Q] exI [of _ "lp_next ?p"] exI [of _ "lp_chans ?p"] exI [of _ r])
          (auto simp: lifo_Acquire_def queue_ok_def chans_ok_def)
    next
      assume g: "Pool_Get (lp_pool ?p) = (None, [])" "lp_pool ?p = []"
      let ?c = "lp_next ?p" and ?ch = "(lp_chans ?p)(lp_next ?p := chan_make)"
      from rg.push_backE [OF inv(1), of 0 ?c] obtain r where r: "PushBack 0 ?c (lp_waiters ?p) = Some r"
        "ring_inv r" "ring_list r = ring_list (lp_waiters ?p) @ [?c]" by metis
      have fresh: "?c \<notin> ran (ls_wait S)" "?c \<notin> set (ring_list (lp_waiters ?p))"
        using inv(2) by (auto simp: queue_ok_def chans_ok_def)
      have "queue_ok (ring_list (lp_waiters ?p) @ [?c]) [] ?ch (?c + 1) ((ls_wait S)(t \<mapsto> ?c))"
        using inv(2) g(2) assms(2) fresh wait_inj_upd [of "ls_wait S" ?c t]
        unfolding queue_ok_def chans_ok_def by (auto simp: less_Suc_eq)
      with wait g r fresh inv(2) show ?thesis
        by (intro exI [of _ ?c] exI [of _ "[]"] exI [of _ "?c + 1"] exI [of _ ?ch] exI [of _ r])
          (auto simp: lifo_Acquire_def)
    qed
    then show ?thesis
    proof (elim exE conjE)
      fix c P n chans r
      assume a: "lifo_Acquire ?p = Some ((uuid_nil, Some c), ?p\<lparr>lp_pool := P, lp_next := n,
          lp_chans := chans, lp_waiters := r\<rparr>)" "ring_inv r" "ring_list r = ring_list (lp_waiters ?p) @ [c]"
        "queue_ok (ring_list (lp_waiters ?p) @ [c]) P chans n ((ls_wait S)(t \<mapsto> c))"
        "\<forall>d\<in>ran (ls_wait S). chans d = lp_chans ?p d" "chans c = chan_make"
      have "servers_ok (lp_servers ?p) (lp_queue ?p) (ls_held S) chans (insert c (ran (ls_wait S))) (ls_used S)"
        using inv(3) a(5,6) by (auto simp: servers_ok_def chan_make_def)
      with a wait assms(2) show ?thesis by (simp add: lifo_inv_def client_got_def)
    qed
  qed
qed

lemma lifo_close_loop_ok:
  assumes "ring_inv r" "queue_ok (ring_list r) P chans n wait"
  shows "\<exists>r' chans'. lifo_close_loop r chans = Some (r', chans') \<and> ring_inv r' \<and> ring_list r' = [] \<and>
    queue_ok [] P chans' n wait \<and> (\<forall>c\<in>set (ring_list r). chans' c = \<lparr>ch_buf = [], ch_closed = True\<rparr>) \<and>
    (\<forall>c. c \<notin> set (ring_list r) \<longrightarrow> chans' c = chans c)"
  using assms
proof (induction "length (ring_list r)" arbitrary: r chans)
  case 0
  then have "PopFront 0 r = Some (None, r)" using rg.pop_front_empty [of r 0] by (simp del: length_ring_list)
  moreover have "ring_list r = []" using 0 by (simp del: length_ring_list)
  ultimately show ?case using 0 by (subst lifo_close_loop.simps) (simp del: length_ring_list)
next
  case (Suc k)
  then obtain c xs where l: "ring_list r = c # xs" by (cases "ring_list r") auto
  from rg.pop_front [OF Suc.prems(1) l, of 0] obtain r1 where
    p: "PopFront 0 r = Some (Some c, r1)" "ring_inv r1" "ring_list r1 = xs" by blast
  note cl = queue_ok_close [OF Suc.prems(2) [unfolded l]]
  have "k = length (ring_list r1)" using Suc.hyps(2) l p(3) by simp
  from Suc.hyps(1) [OF this p(2)] cl(2) p(3) obtain r' chans' where
    q: "lifo_close_loop r1 (chans(c := \<lparr>ch_buf = [], ch_closed = True\<rparr>)) = Some (r', chans')"
    "ring_inv r'" "ring_list r' = []" "queue_ok [] P chans' n wait"
    "\<forall>d\<in>set xs. chans' d = \<lparr>ch_buf = [], ch_closed = True\<rparr>"
    "\<forall>d. d \<notin> set xs \<longrightarrow> chans' d = (chans(c := \<lparr>ch_buf = [], ch_closed = True\<rparr>)) d" by blast
  have "lifo_close_loop r chans = Some (r', chans')"
    using p(1) cl(1) q(1) by (subst lifo_close_loop.simps) simp
  moreover have "\<forall>d\<in>set (ring_list r). chans' d = \<lparr>ch_buf = [], ch_closed = True\<rparr>"
    using q(5,6) l by (metis fun_upd_same set_ConsD)
  ultimately show ?case using q l by auto
qed

lemma lifo_Close_ok:
  assumes "lifo_inv S"
  shows "\<exists>S'. lifo_exec LClose S = Some S' \<and> lifo_inv S' \<and> ls_wait S' = ls_wait S \<and>
    ring_list (lp_waiters (ls_pooler S')) = []"
proof -
  let ?p = "ls_pooler S"
  have inv: "ring_inv (lp_waiters ?p)"
    "queue_ok (ring_list (lp_waiters ?p)) (lp_pool ?p) (lp_chans ?p) (lp_next ?p) (ls_wait S)"
    "servers_ok (lp_servers ?p) (lp_queue ?p) (ls_held S) (lp_chans ?p) (ran (ls_wait S)) (ls_used S)"
    using assms(1) by (auto simp: lifo_inv_def)
  from lifo_close_loop_ok [OF inv(1,2)] obtain r' chans' where
    q: "lifo_close_loop (lp_waiters ?p) (lp_chans ?p) = Some (r', chans')" "ring_inv r'" "ring_list r' = []"
    "queue_ok [] (lp_pool ?p) chans' (lp_next ?p) (ls_wait S)"
    "\<forall>c\<in>set (ring_list (lp_waiters ?p)). chans' c = \<lparr>ch_buf = [], ch_closed = True\<rparr>"
    "\<forall>c. c \<notin> set (ring_list (lp_waiters ?p)) \<longrightarrow> chans' c = lp_chans ?p c" by blast
  have buf: "set (ch_buf (chans' c)) \<subseteq> set (ch_buf (lp_chans ?p c))" for c
    using q(5,6) by (cases "c \<in> set (ring_list (lp_waiters ?p))") auto
  have "servers_ok {} [] (ls_held S) chans' (ran (ls_wait S)) (ls_used S)"
    by (rule servers_ok_mono [OF inv(3)]) (use buf in auto)
  with q(1-4) show ?thesis by (simp add: lifo_Close_def lifo_inv_def)
qed

section \<open>All interleavings\<close>

lemma lifo_exec_ok:
  assumes "lifo_inv S" "lifo_enabled ev S"
  shows "\<exists>S'. lifo_exec ev S = Some S' \<and> lifo_inv S'"
proof (cases ev)
  case (LAdd s)
  with assms show ?thesis using lifo_Add_ok by simp
next
  case (LDelete s)
  with assms show ?thesis using lifo_Delete_ok by blast
next
  case (LAcquire t)
  with assms show ?thesis using lifo_Acquire_ok by simp
next
  case (LReceive t)
  with assms show ?thesis using lifo_Receive_ok by blast
next
  case (LTimeout t)
  with assms show ?thesis using lifo_Timeout_ok by simp
next
  case (LRelease s)
  with assms show ?thesis using lifo_Release_ok by simp
next
  case LClose
  with assms show ?thesis using lifo_Close_ok by blast
qed

lemma lifo_receivable:
  assumes "lifo_inv S" "ls_wait S t = Some c" "c \<notin> set (ring_list (lp_waiters (ls_pooler S)))"
  shows "lifo_enabled (LReceive t) S"
proof -
  have "delivered (lp_chans (ls_pooler S) c)"
    using assms by (auto simp: lifo_inv_def queue_ok_def chans_ok_def intro: ranI)
  with assms(2) show ?thesis by (auto simp: delivered_def chan_recv_def)
qed

interpretation lf: pooler lifo_init lifo_enabled lifo_exec lifo_inv "\<lambda>S. lp_queue (ls_pooler S)" ls_held
  lifo_sent lifo_queued "\<lambda>S. dom (ls_wait S)" "\<lambda>S. {t. lifo_enabled (LReceive t) S}"
proof
  show "lifo_inv lifo_init" by (rule lifo_inv_init)
next
  fix S ev assume "lifo_inv S" "lifo_enabled ev S"
  then show "\<exists>S'. lifo_exec ev S = Some S' \<and> lifo_inv S'" by (rule lifo_exec_ok)
next
  fix S t t' s assume inv: "lifo_inv S"
  then have srv: "servers_ok (lp_servers (ls_pooler S)) (lp_queue (ls_pooler S)) (ls_held S)
      (lp_chans (ls_pooler S)) (ran (ls_wait S)) (ls_used S)" and inj: "wait_inj (ls_wait S)"
    by (simp_all add: lifo_inv_def queue_ok_def chans_ok_def)
  show "distinct (lp_queue (ls_pooler S) @ ls_held S)" using servers_okD(1) [OF srv] .
  show "s \<notin> set (lp_queue (ls_pooler S)) \<and> s \<notin> set (ls_held S)" if "lifo_sent S t s"
    using that servers_okD(2) [OF srv] unfolding lifo_sent_def by (blast intro: ranI)
  show "t = t'" if "lifo_sent S t s" "lifo_sent S t' s"
    using that servers_ok_exclusive [OF srv inj] unfolding lifo_sent_def by blast
  show "lp_queue (ls_pooler S) = [] \<or> lifo_queued S = {}"
    using inv by (auto simp: lifo_inv_def lifo_queued_def)
  show "dom (ls_wait S) \<subseteq> lifo_queued S \<union> {t. lifo_enabled (LReceive t) S}"
    using lifo_receivable [OF inv] unfolding lifo_queued_def by blast
qed

lemma lifo_at_reach: "run_events lifo_enabled lifo_exec evs lifo_init \<noteq> None \<Longrightarrow> lifo_reach (lifo_at evs)"
  unfolding lifo_at_def by (auto intro: lf.run_reach)

text \<open>A reachable state: its invariant, unfolded.\<close>

lemma lifo_reachD:
  assumes "lifo_reach S"
  shows "ring_inv (lp_waiters (ls_pooler S))"
    "queue_ok (ring_list (lp_waiters (ls_pooler S))) (lp_pool (ls_pooler S)) (lp_chans (ls_pooler S))
       (lp_next (ls_pooler S)) (ls_wait S)"
    "servers_ok (lp_servers (ls_pooler S)) (lp_queue (ls_pooler S)) (ls_held S) (lp_chans (ls_pooler S))
       (ran (ls_wait S)) (ls_used S)"
    "lp_queue (ls_pooler S) = [] \<or> ring_list (lp_waiters (ls_pooler S)) = []"
  using lf.reach_invar [OF assms] by (auto simp: lifo_inv_def)

text \<open>
  (C26) In every reachable state every enabled step of a client or the owner succeeds: no send or close on a
  closed channel, no send on a full channel and no receive from an empty one while the mutex is held, no index out of range.
\<close>

theorem lifo_never_stuck:
  assumes "lifo_reach S" "lifo_enabled ev S"
  shows "\<exists>S'. lifo_exec ev S = Some S' \<and> lifo_reach S'"
  using assms by (rule lf.never_stuck)

theorem lifo_never_stuck_witness:
  "\<exists>S'. lifo_exec (LTimeout 2) (lifo_at [LAcquire 1, LAcquire 2, LAdd 7]) = Some S' \<and> lifo_reach S'"
  by (rule lifo_never_stuck [OF lifo_at_reach]) (code_simp+)

text \<open>
  (C25) Mutual exclusion: in every reachable state a server is in at most one of the idle list, the hands of
  one client, and the channel of one client that it was sent to.
\<close>

theorem lifo_exclusive:
  assumes "lifo_reach S"
  shows "distinct (lp_queue (ls_pooler S) @ ls_held S) \<and>
    (\<forall>t s. lifo_sent S t s \<longrightarrow>
      s \<notin> set (lp_queue (ls_pooler S)) \<and> s \<notin> set (ls_held S) \<and> (\<forall>t'. lifo_sent S t' s \<longrightarrow> t' = t))"
  using assms by (rule lf.exclusive)

theorem lifo_exclusive_witness:
  "distinct (lp_queue (ls_pooler (lifo_at [LAdd 8, LAcquire 1, LAcquire 2, LAdd 7])) @
     ls_held (lifo_at [LAdd 8, LAcquire 1, LAcquire 2, LAdd 7]))"
proof -
  have "lifo_reach (lifo_at [LAdd 8, LAcquire 1, LAcquire 2, LAdd 7])" by (rule lifo_at_reach) code_simp
  from lifo_exclusive [OF this] show ?thesis ..
qed

text \<open>
  (C27) No lost wake-up and no idle server while clients wait: in every reachable state the idle list is empty or
  nobody is queued, every client that is not queued any more can receive at once, and after \<^verbatim>\<open>Close\<close>
  every waiting client can.
\<close>

theorem lifo_no_lost_wakeup:
  assumes "lifo_reach S"
  shows "(lp_queue (ls_pooler S) = [] \<or> lifo_queued S = {}) \<and>
    (\<forall>t\<in>dom (ls_wait S). t \<in> lifo_queued S \<or> lifo_enabled (LReceive t) S) \<and>
    (\<exists>S'. lifo_exec LClose S = Some S' \<and> (\<forall>t\<in>dom (ls_wait S). lifo_enabled (LReceive t) S'))"
proof -
  obtain S' where c: "lifo_exec LClose S = Some S'" "lifo_inv S'" "ls_wait S' = ls_wait S"
    "ring_list (lp_waiters (ls_pooler S')) = []"
    using lifo_Close_ok [OF lf.reach_invar [OF assms]] by (elim exE conjE) rule
  have "\<forall>t\<in>dom (ls_wait S). lifo_enabled (LReceive t) S'"
    using lifo_receivable [OF c(2)] c(3,4) by fastforce
  with c(1) lf.no_lost_wakeup [OF assms] show ?thesis by simp
qed

theorem lifo_no_lost_wakeup_witness:
  "lifo_enabled (LReceive 1) (lifo_at [LAcquire 1, LAcquire 2, LAdd 7])"
proof -
  have "lifo_reach (lifo_at [LAcquire 1, LAcquire 2, LAdd 7])" by (rule lifo_at_reach) code_simp
  note w = lifo_no_lost_wakeup [OF this]
  have "ls_wait (lifo_at [LAcquire 1, LAcquire 2, LAdd 7]) 1 = Some 1"
    "1 \<notin> set (ring_list (lp_waiters (ls_pooler (lifo_at [LAcquire 1, LAcquire 2, LAdd 7]))))" by code_simp+
  then have "1 \<in> dom (ls_wait (lifo_at [LAcquire 1, LAcquire 2, LAdd 7]))"
    "1 \<notin> lifo_queued (lifo_at [LAcquire 1, LAcquire 2, LAdd 7])" by (auto simp: lifo_queued_def)
  with w show ?thesis by blast
qed

text \<open>
  The order of service: a released server goes to the client that waits longest, or is the one that the
  next client acquires.
\<close>

theorem lifo_service_order:
  assumes "lifo_reach S" "s \<in> set (ls_held S)" "s \<in> lp_servers (ls_pooler S)" "ls_wait S t = None"
    and "\<not> lp_closed (ls_pooler S)"
  shows "\<exists>S'. lifo_exec (LRelease s) S = Some S' \<and>
    (case ring_list (lp_waiters (ls_pooler S)) of
       c # cs \<Rightarrow> ch_buf (lp_chans (ls_pooler S') c) = [s] \<and> ring_list (lp_waiters (ls_pooler S')) = cs
     | [] \<Rightarrow> (\<exists>S''. lifo_exec (LAcquire t) S' = Some S'' \<and> s \<in> set (ls_held S'') \<and>
               lp_queue (ls_pooler S'') = lp_queue (ls_pooler S) \<and> ls_wait S'' = ls_wait S))"
proof -
  let ?p = "ls_pooler S"
  note r = lifo_reachD [OF assms(1)]
  have nz: "s \<noteq> uuid_nil" using r(3) assms(2) by (auto simp: servers_ok_def)
  show ?thesis
  proof (rule rg.pop_front_cases [OF r(1), of 0])
    assume "PopFront 0 (lp_waiters ?p) = Some (None, lp_waiters ?p)" "ring_list (lp_waiters ?p) = []"
    with assms nz show ?thesis
      by (simp add: lifo_Release_def lifo_release_def lifo_Acquire_def client_got_def fun_upd_idem)
  next
    fix c xs q
    assume some: "PopFront 0 (lp_waiters ?p) = Some (Some c, q)" "ring_list (lp_waiters ?p) = c # xs"
      "ring_list q = xs"
    from r(2) some(2) have "queue_ok (c # xs) (lp_pool ?p) (lp_chans ?p) (lp_next ?p) (ls_wait S)" by simp
    from queue_ok_send(1) [OF this, of s] some assms(3) show ?thesis
      by (simp add: lifo_Release_def lifo_release_def)
  qed
qed

theorem lifo_service_order_witness:
  "\<exists>S'. lifo_exec (LRelease 7) (lifo_at [LAdd 7, LAcquire 1, LAcquire 2, LAcquire 3]) = Some S' \<and>
     ch_buf (lp_chans (ls_pooler S') 1) = [7] \<and> ring_list (lp_waiters (ls_pooler S')) = [2]"
proof -
  let ?S = "lifo_at [LAdd 7, LAcquire 1, LAcquire 2, LAcquire 3]"
  have "lifo_reach ?S" by (rule lifo_at_reach) code_simp
  moreover have "ring_list (lp_waiters (ls_pooler ?S)) = [1, 2]" by code_simp
  moreover have "7 \<in> set (ls_held ?S)" "7 \<in> lp_servers (ls_pooler ?S)" "ls_wait ?S 1 = None" "\<not> lp_closed (ls_pooler ?S)"
    by code_simp+
  ultimately show ?thesis using lifo_service_order [of ?S 7 1] by simp
qed

text \<open>
  A client that gives up: its channel leaves the queue of waiters, the others keep their order, and it
  returns the server that was sent to it in the meantime or nothing.
\<close>

theorem lifo_timeout_order:
  assumes "lifo_reach S" "ls_wait S t = Some c"
  shows "\<exists>S'. lifo_exec (LTimeout t) S = Some S' \<and> ls_wait S' t = None \<and>
    ring_list (lp_waiters (ls_pooler S')) = filter (\<lambda>x. x \<noteq> c) (ring_list (lp_waiters (ls_pooler S))) \<and>
    ls_held S' = (if c \<in> set (ring_list (lp_waiters (ls_pooler S))) then [] else ch_buf (lp_chans (ls_pooler S) c)) @ ls_held S"
proof -
  let ?p = "ls_pooler S"
  note r = lifo_reachD [OF assms(1)]
  from lifo_rotate_all [OF r(1), of c] obtain q where q:
    "lifo_rotate (nat (Ring_Length (lp_waiters ?p))) c False (lp_waiters ?p) =
       Some (c \<in> set (ring_list (lp_waiters ?p)), q)"
    "ring_list q = filter (\<lambda>x. x \<noteq> c) (ring_list (lp_waiters ?p))" by (elim exE conjE) rule
  show ?thesis
  proof (cases "c \<in> set (ring_list (lp_waiters ?p))")
    case True
    with q assms(2) show ?thesis by (simp add: lifo_timeout_def client_got_def)
  next
    case False
    have "c \<in> ran (ls_wait S)" using assms(2) by (rule ranI)
    then have "s \<noteq> uuid_nil" if "ch_buf (lp_chans ?p c) = [s]" for s
      using that r(3) by (auto simp: servers_ok_def)
    then have "\<exists>v p'. lifo_receive c (?p\<lparr>lp_waiters := q\<rparr>) = Some (v, p') \<and> lp_waiters p' = q \<and>
        client_got v (ls_held S) = ch_buf (lp_chans ?p c) @ ls_held S"
      using queue_ok_recv [OF r(2) assms(2) False] by (elim disjE exE) (simp_all add: lifo_receive_def client_got_def)
    with q assms(2) False show ?thesis by (elim exE conjE) (simp add: lifo_timeout_def)
  qed
qed

theorem lifo_timeout_order_witness:
  "\<exists>S'. lifo_exec (LTimeout 2) (lifo_at [LAcquire 1, LAcquire 2, LAcquire 3, LAdd 7]) = Some S' \<and>
     ring_list (lp_waiters (ls_pooler S')) = [3] \<and> ls_held S' = []"
proof -
  let ?S = "lifo_at [LAcquire 1, LAcquire 2, LAcquire 3, LAdd 7]"
  have "lifo_reach ?S" by (rule lifo_at_reach) code_simp
  moreover have "ring_list (lp_waiters (ls_pooler ?S)) = [2, 3]" "ls_wait ?S 2 = Some 2" "ls_held ?S = []"
    by code_simp+
  ultimately show ?thesis using lifo_timeout_order [of ?S 2 2] by (auto simp del: lifo_exec.simps)
qed

end
