(* ===== verification/LLRB_Tree.thy ===== *)
theory LLRB_Tree
  imports Pggat_Prelude
begin

text \<open>
  The left-leaning red-black tree of \<^verbatim>\<open>lib/util/rbtree/rbtree.go\<close>, the priority structure of the
  \<^verbatim>\<open>rob\<close> scheduler.  The linked nodes form a tree without sharing, so they are an inductive type; a
  nil pointer is \<open>Leaf\<close>.  Dereferencing nil and the two assertions of the rotations are panics, hence
  the options.  Freed nodes are zeroed before they enter the memory pool, so the pool is represented
  by the number of nodes it holds.  Shown: no operation ever panics on a tree the operations built, the
  colour and black-height invariants are kept (also by the top-down deletion), and the tree
  implements a finite map with minimum, maximum, successor and predecessor.
\<close>

section \<open>Nodes\<close>

datatype color = Black | Red

datatype ('k, 'v) node =
    Leaf
  | Node "('k, 'v) node" 'k 'v color "('k, 'v) node"

record ('k, 'v) rbtree =
  rb_root :: "('k, 'v) node"
  rb_pool :: nat

fun opposite :: "color \<Rightarrow> color" where
  "opposite Black = Red"
| "opposite Red = Black"

fun getColor :: "('k, 'v) node \<Rightarrow> color" where
  "getColor Leaf = Black"
| "getColor (Node l k v c r) = c"

definition rbtree_free :: "nat \<Rightarrow> nat" where
  "rbtree_free pool = pool + 1"

definition rbtree_alloc :: "nat \<Rightarrow> nat" where
  "rbtree_alloc pool = (if pool > 0 then pool - 1 else 0)"

text \<open>The field accesses \<^verbatim>\<open>n.left\<close> and \<^verbatim>\<open>n.right\<close> of a pointer that may be nil.\<close>

fun deref_left :: "('k, 'v) node \<Rightarrow> ('k, 'v) node option" where
  "deref_left Leaf = None"
| "deref_left (Node l k v c r) = Some l"

section \<open>Rotations and colour flips\<close>

fun rotateRight :: "('k, 'v) node \<Rightarrow> ('k, 'v) node option" where
  "rotateRight (Node (Node ll lk lv Red lr) k v c r) = Some (Node ll lk lv c (Node lr k v Red r))"
| "rotateRight _ = None"

fun rotateLeft :: "('k, 'v) node \<Rightarrow> ('k, 'v) node option" where
  "rotateLeft (Node l k v c (Node rl rk rv Red rr)) = Some (Node (Node l k v Red rl) rk rv c rr)"
| "rotateLeft _ = None"

fun flipColors :: "('k, 'v) node \<Rightarrow> ('k, 'v) node option" where
  "flipColors (Node (Node ll lk lv lc lr) k v c (Node rl rk rv rc rr)) =
     Some (Node (Node ll lk lv (opposite lc) lr) k v (opposite c) (Node rl rk rv (opposite rc) rr))"
| "flipColors _ = None"

definition moveRedLeft :: "('k, 'v) node \<Rightarrow> ('k, 'v) node option" where
  "moveRedLeft n = do {
     n \<leftarrow> flipColors n;
     case n of Leaf \<Rightarrow> None
     | Node l k v c r \<Rightarrow> do {
         rl \<leftarrow> deref_left r;
         if getColor rl = Red then do {
           r \<leftarrow> rotateRight r;
           n \<leftarrow> rotateLeft (Node l k v c r);
           flipColors n
         } else Some n
       }
   }"

definition moveRedRight :: "('k, 'v) node \<Rightarrow> ('k, 'v) node option" where
  "moveRedRight n = do {
     n \<leftarrow> flipColors n;
     case n of Leaf \<Rightarrow> None
     | Node l k v c r \<Rightarrow> do {
         ll \<leftarrow> deref_left l;
         if getColor ll = Red then do {
           n \<leftarrow> rotateRight n;
           flipColors n
         } else Some n
       }
   }"

text \<open>The three repairs of \<^verbatim>\<open>balance\<close>, in the code's order.\<close>

fun balance1 :: "('k, 'v) node \<Rightarrow> ('k, 'v) node option" where
  "balance1 Leaf = None"
| "balance1 (Node l k v c r) =
     (if getColor r = Red \<and> getColor l = Black then rotateLeft (Node l k v c r)
      else Some (Node l k v c r))"

fun balance2 :: "('k, 'v) node \<Rightarrow> ('k, 'v) node option" where
  "balance2 Leaf = None"
| "balance2 (Node l k v c r) =
     (if getColor l = Red then do {
        ll \<leftarrow> deref_left l;
        if getColor ll = Red then rotateRight (Node l k v c r) else Some (Node l k v c r)
      } else Some (Node l k v c r))"

fun balance3 :: "('k, 'v) node \<Rightarrow> ('k, 'v) node option" where
  "balance3 Leaf = None"
| "balance3 (Node l k v c r) =
     (if getColor l = Red \<and> getColor r = Red then flipColors (Node l k v c r)
      else Some (Node l k v c r))"

definition balance :: "('k, 'v) node \<Rightarrow> ('k, 'v) node option" where
  "balance n = do { n \<leftarrow> balance1 n; n \<leftarrow> balance2 n; balance3 n }"

section \<open>Lookup and insertion\<close>

fun node_get :: "'k::linorder \<Rightarrow> ('k, 'v) node \<Rightarrow> 'v option" where
  "node_get key Leaf = None"
| "node_get key (Node l k v c r) =
     (if key > k then node_get key r else if key < k then node_get key l else Some v)"

definition rb_Get :: "'k::linorder \<Rightarrow> ('k, 'v) rbtree \<Rightarrow> 'v option" where
  "rb_Get key T = node_get key (rb_root T)"

fun put :: "'k::linorder \<Rightarrow> 'v \<Rightarrow> ('k, 'v) node \<Rightarrow> nat \<Rightarrow> (('k, 'v) node \<times> nat) option" where
  "put key value Leaf pool = Some (Node Leaf key value Red Leaf, rbtree_alloc pool)"
| "put key value (Node l k v c r) pool =
     (if key > k then do {
        (r', pool) \<leftarrow> put key value r pool;
        n \<leftarrow> balance (Node l k v c r');
        Some (n, pool)
      } else if key < k then do {
        (l', pool) \<leftarrow> put key value l pool;
        n \<leftarrow> balance (Node l' k v c r);
        Some (n, pool)
      } else do {
        n \<leftarrow> balance (Node l k value c r);
        Some (n, pool)
      })"

fun paint :: "color \<Rightarrow> ('k, 'v) node \<Rightarrow> ('k, 'v) node" where
  "paint c Leaf = Leaf"
| "paint c (Node l k v _ r) = Node l k v c r"

definition rb_Set :: "'k::linorder \<Rightarrow> 'v \<Rightarrow> ('k, 'v) rbtree \<Rightarrow> ('k, 'v) rbtree option" where
  "rb_Set key value T = do {
     (root, pool) \<leftarrow> put key value (rb_root T) (rb_pool T);
     if root = Leaf then None
     else Some \<lparr>rb_root = paint Black root, rb_pool = pool\<rparr>
   }"

section \<open>Minimum, maximum, successor, predecessor\<close>

text \<open>A node pointer handed to the caller is the pair of its key and value, nil is \<^term>\<open>None\<close>.\<close>

fun node_min :: "('k, 'v) node \<Rightarrow> ('k \<times> 'v) option" where
  "node_min Leaf = None"
| "node_min (Node l k v c r) = (if l = Leaf then Some (k, v) else node_min l)"

fun node_max :: "('k, 'v) node \<Rightarrow> ('k \<times> 'v) option" where
  "node_max Leaf = None"
| "node_max (Node l k v c r) = (if r = Leaf then Some (k, v) else node_max r)"

fun node_next :: "'k::linorder \<Rightarrow> ('k, 'v) node \<Rightarrow> ('k \<times> 'v) option" where
  "node_next x Leaf = None"
| "node_next x (Node l k v c r) =
     (if k = x then node_min r
      else if k < x then node_next x r
      else case node_next x l of None \<Rightarrow> Some (k, v) | Some n \<Rightarrow> Some n)"

fun node_prev :: "'k::linorder \<Rightarrow> ('k, 'v) node \<Rightarrow> ('k \<times> 'v) option" where
  "node_prev x Leaf = None"
| "node_prev x (Node l k v c r) =
     (if k = x then node_max l
      else if k > x then node_prev x l
      else case node_prev x r of None \<Rightarrow> Some (k, v) | Some n \<Rightarrow> Some n)"

definition rb_Min :: "('k, 'v) rbtree \<Rightarrow> ('k \<times> 'v) option" where
  "rb_Min T = node_min (rb_root T)"

definition rb_Max :: "('k, 'v) rbtree \<Rightarrow> ('k \<times> 'v) option" where
  "rb_Max T = node_max (rb_root T)"

definition rb_Next :: "'k::linorder \<Rightarrow> ('k, 'v) rbtree \<Rightarrow> ('k \<times> 'v) option" where
  "rb_Next x T = node_next x (rb_root T)"

definition rb_Prev :: "'k::linorder \<Rightarrow> ('k, 'v) rbtree \<Rightarrow> ('k \<times> 'v) option" where
  "rb_Prev x T = node_prev x (rb_root T)"

section \<open>Deletion\<close>

text \<open>
  Deletion descends from the root and makes the node it is about to enter red, or its left child,
  on the way down.  The two guarded steps that push a red link ahead of the descent occur at the same
  place in \<^verbatim>\<open>delete\<close> and \<^verbatim>\<open>deleteMin\<close> (to the left) and in \<^verbatim>\<open>delete\<close> (to the right).
\<close>

fun push_left :: "('k, 'v) node \<Rightarrow> ('k, 'v) node option" where
  "push_left Leaf = None"
| "push_left (Node l k v c r) =
     (if getColor l = Black then do {
        ll \<leftarrow> deref_left l;
        if getColor ll = Black then moveRedLeft (Node l k v c r) else Some (Node l k v c r)
      } else Some (Node l k v c r))"

fun push_right :: "('k, 'v) node \<Rightarrow> ('k, 'v) node option" where
  "push_right Leaf = None"
| "push_right (Node l k v c r) =
     (if getColor r = Black then do {
        rl \<leftarrow> deref_left r;
        if getColor rl = Black then moveRedRight (Node l k v c r) else Some (Node l k v c r)
      } else Some (Node l k v c r))"

fun lean_right :: "('k, 'v) node \<Rightarrow> ('k, 'v) node option" where
  "lean_right Leaf = None"
| "lean_right (Node l k v c r) =
     (if getColor l = Red then rotateRight (Node l k v c r) else Some (Node l k v c r))"

text \<open>None of these steps changes the number of nodes, so the descent terminates.\<close>

fun nodes :: "('k, 'v) node \<Rightarrow> nat" where
  "nodes Leaf = 0"
| "nodes (Node l k v c r) = nodes l + nodes r + 1"

lemma nodes_rotateRight: "rotateRight n = Some n' \<Longrightarrow> nodes n' = nodes n"
  by (cases n rule: rotateRight.cases) auto

lemma nodes_rotateLeft: "rotateLeft n = Some n' \<Longrightarrow> nodes n' = nodes n"
  by (cases n rule: rotateLeft.cases) auto

lemma nodes_flipColors: "flipColors n = Some n' \<Longrightarrow> nodes n' = nodes n"
  by (cases n rule: flipColors.cases) auto

lemmas nodes_rotate = nodes_rotateRight nodes_rotateLeft nodes_flipColors

lemma nodes_move:
  "moveRedLeft n = Some n' \<Longrightarrow> nodes n' = nodes n"
  "moveRedRight n = Some n' \<Longrightarrow> nodes n' = nodes n"
  by (auto simp: moveRedLeft_def moveRedRight_def
      split: node.splits if_splits Option.bind_splits dest!: nodes_rotate)

lemma nodes_push:
  "push_left n = Some n' \<Longrightarrow> nodes n' = nodes n"
  "push_right n = Some n' \<Longrightarrow> nodes n' = nodes n"
  "lean_right n = Some n' \<Longrightarrow> nodes n' = nodes n"
  by (cases n; auto split: if_splits Option.bind_splits dest!: nodes_move nodes_rotate)+

function deleteMin :: "('k, 'v) node \<Rightarrow> nat \<Rightarrow> (('k, 'v) node \<times> nat) option" where
  "deleteMin n pool =
     (case n of Leaf \<Rightarrow> None
      | Node l k v c r \<Rightarrow>
          if l = Leaf then Some (Leaf, rbtree_free pool)
          else do {
            n \<leftarrow> push_left n;
            case n of Leaf \<Rightarrow> None
            | Node l k v c r \<Rightarrow> do {
                (l', pool) \<leftarrow> deleteMin l pool;
                n \<leftarrow> balance (Node l' k v c r);
                Some (n, pool)
              }
          })"
  by pat_completeness auto
termination
  by (relation "measure (\<lambda>(n, pool). nodes n)") (auto dest!: nodes_push simp del: push_left.simps)

function node_delete ::
  "'k::linorder \<Rightarrow> ('k, 'v) node \<Rightarrow> nat \<Rightarrow> (('k, 'v) node \<times> nat) option" where
  "node_delete x n pool =
     (case n of Leaf \<Rightarrow> None
      | Node l k v c r \<Rightarrow>
          if x < k then do {
            n \<leftarrow> push_left n;
            case n of Leaf \<Rightarrow> None
            | Node l k v c r \<Rightarrow> do {
                (l', pool) \<leftarrow> node_delete x l pool;
                n \<leftarrow> balance (Node l' k v c r);
                Some (n, pool)
              }
          } else do {
            n \<leftarrow> lean_right n;
            case n of Leaf \<Rightarrow> None
            | Node l k v c r \<Rightarrow>
                if x = k \<and> r = Leaf then Some (Leaf, rbtree_free pool)
                else do {
                  n \<leftarrow> push_right n;
                  case n of Leaf \<Rightarrow> None
                  | Node l k v c r \<Rightarrow>
                      if x = k then do {
                        (mk, mv) \<leftarrow> node_min r;
                        (r', pool) \<leftarrow> deleteMin r pool;
                        n \<leftarrow> balance (Node l mk mv c r');
                        Some (n, pool)
                      } else do {
                        (r', pool) \<leftarrow> node_delete x r pool;
                        n \<leftarrow> balance (Node l k v c r');
                        Some (n, pool)
                      }
                }
          })"
  by pat_completeness auto
termination
  by (relation "measure (\<lambda>(x, n, pool). nodes n)")
    (auto dest!: nodes_push simp del: push_left.simps push_right.simps lean_right.simps)

declare deleteMin.simps [simp del] node_delete.simps [simp del]

definition rb_Delete :: "'k::linorder \<Rightarrow> ('k, 'v) rbtree \<Rightarrow> ('k, 'v) rbtree option" where
  "rb_Delete x T =
     (case rb_Get x T of None \<Rightarrow> Some T
      | Some _ \<Rightarrow>
          (case rb_root T of Leaf \<Rightarrow> None
           | Node l k v c r \<Rightarrow> do {
               let root = (if getColor l = Black \<and> getColor r = Black then Node l k v Red r
                           else Node l k v c r);
               (root, pool) \<leftarrow> node_delete x root (rb_pool T);
               Some \<lparr>rb_root = paint Black root, rb_pool = pool\<rparr>
             }))"

section \<open>Invariants\<close>

text \<open>
  \<open>invc\<close>: red links lean left and no two follow each other.  \<open>invc2\<close> is the weakening an insertion
  below a red node may leave for its parent to repair: the children are fine, the root may be red with
  a red left child.  \<open>bh\<close> is the black height, \<open>invh\<close> says it is the same on every path.
\<close>

fun invc :: "('k, 'v) node \<Rightarrow> bool" where
  "invc Leaf = True"
| "invc (Node l k v c r) =
     (getColor r = Black \<and> (c = Red \<longrightarrow> getColor l = Black) \<and> invc l \<and> invc r)"

fun invc2 :: "('k, 'v) node \<Rightarrow> bool" where
  "invc2 Leaf = True"
| "invc2 (Node l k v c r) = (getColor r = Black \<and> invc l \<and> invc r)"

fun bh :: "('k, 'v) node \<Rightarrow> nat" where
  "bh Leaf = 0"
| "bh (Node l k v c r) = bh l + (if c = Black then 1 else 0)"

fun invh :: "('k, 'v) node \<Rightarrow> bool" where
  "invh Leaf = True"
| "invh (Node l k v c r) = (bh l = bh r \<and> invh l \<and> invh r)"

fun inorder :: "('k, 'v) node \<Rightarrow> ('k \<times> 'v) list" where
  "inorder Leaf = []"
| "inorder (Node l k v c r) = inorder l @ (k, v) # inorder r"

definition sorted1 :: "('k::linorder \<times> 'v) list \<Rightarrow> bool" where
  "sorted1 xs \<longleftrightarrow> sorted_wrt (<) (map fst xs)"

definition llrb :: "('k::linorder, 'v) node \<Rightarrow> bool" where
  "llrb t \<longleftrightarrow> invc t \<and> invh t \<and> getColor t = Black \<and> sorted1 (inorder t)"

definition rb_inv :: "('k::linorder, 'v) rbtree \<Rightarrow> bool" where
  "rb_inv T \<longleftrightarrow> llrb (rb_root T)"

lemma neq_Black [simp]: "(c \<noteq> Black) = (c = Red)" "(c \<noteq> Red) = (c = Black)"
  by (cases c; simp)+

lemma invc_invc2: "invc t \<Longrightarrow> invc2 t"
  by (cases t) auto

lemma invc2_Black: "invc2 t \<Longrightarrow> getColor t = Black \<Longrightarrow> invc t"
  by (cases t) auto

lemma invc_paint_Black: "invc2 t \<Longrightarrow> invc (paint Black t)"
  by (cases t) auto

lemma paint_simps [simp]:
  "inorder (paint c t) = inorder t" "invh (paint c t) = invh t" "getColor (paint Black t) = Black"
  "(paint c t = Leaf) = (t = Leaf)"
  by (cases t; simp)+

lemma red_node: "getColor t = Red \<Longrightarrow> \<exists>l k v r. t = Node l k v Red r"
  by (cases t) auto

lemma black_Leaf: "bh t = 0 \<Longrightarrow> getColor t = Black \<Longrightarrow> t = Leaf"
  by (cases t) auto

lemma inorder_Nil [simp]: "inorder t = [] \<longleftrightarrow> t = Leaf"
  by (cases t) auto

lemma inorder_appendD: "inorder n = xs @ x # ys \<Longrightarrow> n \<noteq> Leaf"
  by (cases n) auto

section \<open>The tree operations keep the invariants\<close>

text \<open>
  \<open>balance\<close> after an insertion: one child may be the result of an insertion (\<open>invc2\<close> below a black
  node, or a red right child).
\<close>

lemma balance_put_left:
  assumes "invc2 l" "c = Red \<Longrightarrow> invc l" "invc r" "getColor r = Black"
    "invh l" "invh r" "bh l = bh r"
  shows "\<exists>n. balance (Node l k v c r) = Some n \<and> invc2 n \<and> (c = Black \<longrightarrow> invc n) \<and> invh n \<and>
    bh n = bh (Node l k v c r) \<and> inorder n = inorder (Node l k v c r)"
proof (cases "getColor l")
  case Black
  with assms invc2_Black [of l] show ?thesis by (auto simp: balance_def)
next
  case Red
  then obtain ll lk lv lr where l: "l = Node ll lk lv Red lr" by (auto dest: red_node)
  show ?thesis
  proof (cases "getColor ll")
    case Black
    with assms l show ?thesis by (auto simp: balance_def)
  next
    case Red
    then obtain lll llk llv llr where ll: "ll = Node lll llk llv Red llr" by (auto dest: red_node)
    with assms l show ?thesis by (cases c) (auto simp: balance_def)
  qed
qed

lemma balance_put_right:
  assumes "invc l" "c = Red \<Longrightarrow> getColor l = Black" "invc r" "invh l" "invh r" "bh l = bh r"
  shows "\<exists>n. balance (Node l k v c r) = Some n \<and> invc2 n \<and> (c = Black \<longrightarrow> invc n) \<and> invh n \<and>
    bh n = bh (Node l k v c r) \<and> inorder n = inorder (Node l k v c r)"
proof (cases "getColor r")
  case Black
  show ?thesis
  proof (cases l)
    case Leaf
    with assms Black show ?thesis by (auto simp: balance_def)
  next
    case (Node ll lk lv lc lr)
    with assms Black show ?thesis by (cases lc) (auto simp: balance_def)
  qed
next
  case Red
  then obtain rl rk rv rr where r: "r = Node rl rk rv Red rr" by (auto dest: red_node)
  show ?thesis
  proof (cases l)
    case Leaf
    with assms r show ?thesis by (cases c) (auto simp: balance_def)
  next
    case (Node ll lk lv lc lr)
    with assms r show ?thesis by (cases c; cases lc) (auto simp: balance_def)
  qed
qed

lemma put_ok:
  assumes "invc t" "invh t"
  shows "\<exists>t' pool'. put key value t pool = Some (t', pool') \<and> t' \<noteq> Leaf \<and> invc2 t' \<and>
    (getColor t = Black \<longrightarrow> invc t') \<and> invh t' \<and> bh t' = bh t"
  using assms
proof (induction t)
  case Leaf
  then show ?case by simp
next
  case (Node l k v c r)
  from Node obtain l' pl where l': "put key value l pool = Some (l', pl)" "invc2 l'"
    "getColor l = Black \<longrightarrow> invc l'" "invh l'" "bh l' = bh l" by auto
  from Node obtain r' pr where r': "put key value r pool = Some (r', pr)" "invc r'" "invh r'"
    "bh r' = bh r" by auto
  consider "key > k" | "key < k" | "key = k" by fastforce
  then show ?case
  proof cases
    case 1
    with r' balance_put_right [of l c r' k v] Node.prems show ?thesis by (auto dest: inorder_appendD)
  next
    case 2
    with l' balance_put_left [of l' c r k v] Node.prems show ?thesis by (auto dest: inorder_appendD)
  next
    case 3
    with balance_put_right [of l c r k "value"] Node.prems show ?thesis by (auto dest: inorder_appendD)
  qed
qed

text \<open>
  Deletion.  The node about to be entered is \<open>ready\<close>: it is red or its left child is.  Below a
  \<^verbatim>\<open>moveRedRight\<close> that rotated, the right child is \<open>tilted\<close> instead: black with a red right child.
\<close>

fun ready :: "('k, 'v) node \<Rightarrow> bool" where
  "ready Leaf = False"
| "ready (Node l k v c r) =
     (invc (Node l k v c r) \<and> invh (Node l k v c r) \<and> (c = Red \<or> getColor l = Red))"

fun tilted :: "('k, 'v) node \<Rightarrow> bool" where
  "tilted Leaf = False"
| "tilted (Node l k v c r) =
     (c = Black \<and> getColor l = Black \<and> getColor r = Red \<and> invc l \<and> invc r \<and>
      invh (Node l k v c r))"

lemma balance_delete:
  assumes "invc l" "invc r" "invh l" "invh r" "bh l = bh r"
    and "c = Red \<Longrightarrow> getColor l = Black \<and> getColor r = Black"
  shows "\<exists>n. balance (Node l k v c r) = Some n \<and> invc n \<and> invh n \<and> bh n = bh (Node l k v c r) \<and>
    inorder n = inorder (Node l k v c r) \<and>
    (c = Black \<and> (getColor l = Black \<or> getColor r = Black) \<longrightarrow> getColor n = Black)"
proof (cases "getColor r")
  case Black
  show ?thesis
  proof (cases l)
    case Leaf
    with assms Black show ?thesis by (auto simp: balance_def)
  next
    case (Node ll lk lv lc lr)
    with assms Black show ?thesis by (cases lc; cases c) (auto simp: balance_def)
  qed
next
  case Red
  then obtain rl rk rv rr where r: "r = Node rl rk rv Red rr" by (auto dest: red_node)
  with assms have c: "c = Black" by (cases c) auto
  show ?thesis
  proof (cases l)
    case Leaf
    with assms r c show ?thesis by (auto simp: balance_def)
  next
    case (Node ll lk lv lc lr)
    with assms r c show ?thesis by (cases lc) (auto simp: balance_def)
  qed
qed

lemma push_left_ok:
  assumes "ready (Node l k v c r)" and "l \<noteq> Leaf"
  shows "\<exists>l1 k1 v1 c1 r1 ys. push_left (Node l k v c r) = Some (Node l1 k1 v1 c1 r1) \<and> ready l1 \<and>
    invc r1 \<and> invh r1 \<and> bh l1 = bh r1 \<and> bh (Node l1 k1 v1 c1 r1) = bh (Node l k v c r) \<and>
    inorder l1 = inorder l @ ys \<and> ys @ (k1, v1) # inorder r1 = (k, v) # inorder r \<and>
    (c1 = Red \<longrightarrow> getColor l1 = Black \<and> getColor r1 = Black) \<and>
    (c = Black \<longrightarrow> c1 = Black \<and> getColor r1 = Black)"
proof -
  obtain ll lk lv lc lr where l: "l = Node ll lk lv lc lr" using assms(2) by (cases l) auto
  show ?thesis
  proof (cases "lc = Black \<and> getColor ll = Black")
    case False
    with assms l show ?thesis by (cases lc) auto
  next
    case True
    with assms l have c: "c = Red" by auto
    obtain rl rk rv rr where r: "r = Node rl rk rv Black rr"
      using assms l c True by (cases r) auto
    show ?thesis
    proof (cases "getColor rl")
      case Black
      with assms l r c True show ?thesis by (auto simp: moveRedLeft_def)
    next
      case Red
      then obtain rll rlk rlv rlr where "rl = Node rll rlk rlv Red rlr" by (auto dest: red_node)
      with assms l r c True show ?thesis by (auto simp: moveRedLeft_def)
    qed
  qed
qed

lemma deleteMin_ok:
  assumes "ready t"
  shows "\<exists>t'. deleteMin t pool = Some (t', pool + 1) \<and> invc t' \<and> invh t' \<and> bh t' = bh t \<and>
    (getColor t = Black \<longrightarrow> getColor t' = Black) \<and> inorder t' = tl (inorder t)"
  using assms
proof (induction t pool rule: deleteMin.induct)
  case (1 n pool)
  from "1.prems" obtain l k v c r where n: "n = Node l k v c r" by (cases n) auto
  show ?case
  proof (cases "l = Leaf")
    case True
    with "1.prems" n have "r = Leaf" by (auto intro: black_Leaf)
    with True "1.prems" n show ?thesis by (simp add: deleteMin.simps rbtree_free_def)
  next
    case False
    from push_left_ok [OF "1.prems" [unfolded n] False, folded n] obtain l1 k1 v1 c1 r1 ys where p:
      "push_left n = Some (Node l1 k1 v1 c1 r1)" "ready l1" "invc r1" "invh r1" "bh l1 = bh r1"
      "bh (Node l1 k1 v1 c1 r1) = bh n" "inorder l1 = inorder l @ ys"
      "ys @ (k1, v1) # inorder r1 = (k, v) # inorder r"
      "c1 = Red \<longrightarrow> getColor l1 = Black \<and> getColor r1 = Black"
      "c = Black \<longrightarrow> c1 = Black \<and> getColor r1 = Black"
      by (elim exE conjE) rule
    from "1.IH" [OF n False p(1) refl p(2)] obtain l1' where d:
      "deleteMin l1 pool = Some (l1', pool + 1)" "invc l1'" "invh l1'" "bh l1' = bh l1"
      "getColor l1 = Black \<longrightarrow> getColor l1' = Black" "inorder l1' = tl (inorder l1)" by blast
    from balance_delete [of l1' r1 c1 k1 v1] d p obtain m where m:
      "balance (Node l1' k1 v1 c1 r1) = Some m" "invc m" "invh m" "bh m = bh (Node l1' k1 v1 c1 r1)"
      "inorder m = inorder (Node l1' k1 v1 c1 r1)"
      "c1 = Black \<and> (getColor l1' = Black \<or> getColor r1 = Black) \<longrightarrow> getColor m = Black" by auto
    have "deleteMin n pool = Some (m, pool + 1)"
      using False p(1) d(1) m(1) by (subst deleteMin.simps) (simp add: n del: push_left.simps)
    moreover have "inorder m = tl (inorder n)"
      using m(5) d(6) p(7,8) False n by (cases "inorder l") auto
    ultimately show ?thesis using m d p n by auto
  qed
qed

lemma lean_right_ok:
  assumes "ready (Node l k v c r) \<or> tilted (Node l k v c r)"
  shows "\<exists>l1 k1 v1 r1. lean_right (Node l k v c r) = Some (Node l1 k1 v1 c r1) \<and> invc l1 \<and> invc r1 \<and>
    invh l1 \<and> invh r1 \<and> bh l1 = bh r1 \<and> bh l1 = bh l \<and> getColor l1 = Black \<and>
    (c = Red \<longleftrightarrow> getColor r1 = Black) \<and> inorder l1 @ (k1, v1) # inorder r1 = inorder (Node l k v c r) \<and>
    (Node l1 k1 v1 c r1 = Node l k v c r \<or> (\<exists>zs. inorder r1 = zs @ (k, v) # inorder r))"
proof (cases "getColor l")
  case Black
  with assms show ?thesis by auto
next
  case Red
  then obtain ll lk lv lr where "l = Node ll lk lv Red lr" by (auto dest: red_node)
  with assms show ?thesis by auto
qed

lemma push_right_ok:
  assumes "invc l" "invc r" "invh l" "invh r" "bh l = bh r" "getColor l = Black"
    "c = Red \<longleftrightarrow> getColor r = Black" "r \<noteq> Leaf"
  shows "\<exists>l2 k2 v2 c2 r2 ys. push_right (Node l k v c r) = Some (Node l2 k2 v2 c2 r2) \<and>
    invc l2 \<and> invh l2 \<and> bh l2 = bh r2 \<and> bh (Node l2 k2 v2 c2 r2) = bh (Node l k v c r) \<and>
    (ready r2 \<or> tilted r2) \<and> inorder r2 = ys @ inorder r \<and>
    inorder l2 @ (k2, v2) # ys = inorder l @ [(k, v)] \<and>
    (k2 = k \<and> v2 = v \<and> ready r2 \<or> (\<exists>a b. ys \<noteq> [] \<and> r2 = Node a k v Black b)) \<and>
    (c2 = Red \<longrightarrow> getColor l2 = Black \<and> getColor r2 = Black) \<and>
    (c = Black \<longrightarrow> c2 = Black \<and> getColor l2 = Black)"
proof -
  obtain rl rk rv rc rr where r: "r = Node rl rk rv rc rr" using assms(8) by (cases r) auto
  show ?thesis
  proof (cases "rc = Black \<and> getColor rl = Black")
    case False
    with assms r show ?thesis by (cases rc) auto
  next
    case True
    with assms r have c: "c = Red" by auto
    obtain ll lk lv lr where l: "l = Node ll lk lv Black lr"
      using assms r True by (cases l) auto
    show ?thesis
    proof (cases "getColor ll")
      case Black
      with assms l r c True show ?thesis by (auto simp: moveRedRight_def)
    next
      case Red
      then obtain lll llk llv llr where "ll = Node lll llk llv Red llr" by (auto dest: red_node)
      with assms l r c True show ?thesis by (auto simp: moveRedRight_def)
    qed
  qed
qed

text \<open>What a deletion does to the sorted list of entries.\<close>

definition del_list :: "'k \<Rightarrow> ('k \<times> 'v) list \<Rightarrow> ('k \<times> 'v) list" where
  "del_list x xs = filter (\<lambda>e. fst e \<noteq> x) xs"

lemma del_list_Nil [simp]: "del_list x [] = []"
  by (simp add: del_list_def)

lemma del_list_append [simp]: "del_list x (xs @ ys) = del_list x xs @ del_list x ys"
  by (simp add: del_list_def)

lemma del_list_Cons [simp]:
  "del_list x ((k, v) # xs) = (if k = x then del_list x xs else (k, v) # del_list x xs)"
  by (simp add: del_list_def)

lemma sorted1_append:
  "sorted1 (xs @ ys) \<longleftrightarrow> sorted1 xs \<and> sorted1 ys \<and> (\<forall>a\<in>set xs. \<forall>b\<in>set ys. fst a < fst b)"
  by (auto simp: sorted1_def sorted_wrt_append)

lemma sorted1_Cons [simp]:
  "sorted1 ((k, v) # xs) \<longleftrightarrow> sorted1 xs \<and> (\<forall>b\<in>set xs. k < fst b)"
  by (auto simp: sorted1_def)

lemma sorted1_Nil [simp]: "sorted1 []"
  by (simp add: sorted1_def)

lemma del_list_idem: "(\<And>e. e \<in> set xs \<Longrightarrow> fst e \<noteq> x) \<Longrightarrow> del_list x xs = xs"
  unfolding del_list_def by (rule filter_idI)

lemma sorted1_left:
  assumes "sorted1 (xs @ (k, v) # ys)" and "x < k"
  shows "del_list x (xs @ (k, v) # ys) = del_list x xs @ (k, v) # ys"
    and "x \<in> fst ` set (xs @ (k, v) # ys) \<Longrightarrow> x \<in> fst ` set xs"
  using assms by (force simp: sorted1_append intro: del_list_idem)+

lemma sorted1_right:
  assumes "sorted1 (xs @ (k, v) # ys)" and "k < x"
  shows "del_list x (xs @ (k, v) # ys) = xs @ (k, v) # del_list x ys"
    and "x \<in> fst ` set (xs @ (k, v) # ys) \<Longrightarrow> x \<in> fst ` set ys"
  using assms by (force simp: sorted1_append intro: del_list_idem)+

lemma sorted1_here:
  assumes "sorted1 (xs @ (k, v) # ys)"
  shows "del_list k (xs @ (k, v) # ys) = xs @ ys"
  using assms by (force simp: sorted1_append intro!: arg_cong2 [of _ _ _ _ "(@)"] del_list_idem)

lemma node_min_inorder: "t \<noteq> Leaf \<Longrightarrow> node_min t = Some (hd (inorder t))"
  by (induction t) (auto simp: hd_append)

lemma node_max_inorder: "t \<noteq> Leaf \<Longrightarrow> node_max t = Some (last (inorder t))"
  by (induction t) auto

text \<open>The contract of the descent, and one lemma per direction.\<close>

definition del_ok :: "'k::linorder \<Rightarrow> ('k, 'v) node \<Rightarrow> nat \<Rightarrow> bool" where
  "del_ok x t pool \<longleftrightarrow> (\<exists>t'. node_delete x t pool = Some (t', pool + 1) \<and> invc t' \<and> invh t' \<and>
     bh t' = bh t \<and> (getColor t = Black \<longrightarrow> getColor t' = Black) \<and>
     inorder t' = del_list x (inorder t))"

lemma node_delete_left:
  assumes n: "n = Node l k v c r" and "ready n" "x < k" "sorted1 (inorder n)"
    "x \<in> fst ` set (inorder n)"
    and IH: "\<And>l1 k1 v1 c1 r1. push_left n = Some (Node l1 k1 v1 c1 r1) \<Longrightarrow> ready l1 \<Longrightarrow>
      sorted1 (inorder l1) \<Longrightarrow> x \<in> fst ` set (inorder l1) \<Longrightarrow> del_ok x l1 pool"
  shows "del_ok x n pool"
proof -
  have xl: "x \<in> fst ` set (inorder l)"
    using assms(3-5) by (intro sorted1_left(2) [of "inorder l" k v "inorder r"]) (auto simp: n)
  then have "l \<noteq> Leaf" by auto
  from push_left_ok [OF assms(2) [unfolded n] this, folded n] obtain l1 k1 v1 c1 r1 ys where p:
    "push_left n = Some (Node l1 k1 v1 c1 r1)" "ready l1" "invc r1" "invh r1" "bh l1 = bh r1"
    "bh (Node l1 k1 v1 c1 r1) = bh n" "inorder l1 = inorder l @ ys"
    "ys @ (k1, v1) # inorder r1 = (k, v) # inorder r"
    "c1 = Red \<longrightarrow> getColor l1 = Black \<and> getColor r1 = Black"
    "c = Black \<longrightarrow> c1 = Black \<and> getColor r1 = Black"
    by (elim exE conjE) rule
  have io: "inorder n = inorder l1 @ (k1, v1) # inorder r1" using p(7,8) n by simp
  have "(k1, v1) \<in> set ((k, v) # inorder r)" by (simp add: p(8) [symmetric])
  then have k1: "x < k1" using assms(3,4) by (auto simp: n sorted1_append)
  have "sorted1 (inorder l1)" using assms(4) io by (simp add: sorted1_append)
  with IH [OF p(1,2)] xl p(7) obtain l1' where d:
    "node_delete x l1 pool = Some (l1', pool + 1)" "invc l1'" "invh l1'" "bh l1' = bh l1"
    "getColor l1 = Black \<longrightarrow> getColor l1' = Black" "inorder l1' = del_list x (inorder l1)"
    by (auto simp: del_ok_def)
  from balance_delete [of l1' r1 c1 k1 v1] d p obtain m where m:
    "balance (Node l1' k1 v1 c1 r1) = Some m" "invc m" "invh m" "bh m = bh (Node l1' k1 v1 c1 r1)"
    "inorder m = inorder (Node l1' k1 v1 c1 r1)"
    "c1 = Black \<and> (getColor l1' = Black \<or> getColor r1 = Black) \<longrightarrow> getColor m = Black" by auto
  have "node_delete x n pool = Some (m, pool + 1)"
    using assms(3) p(1) d(1) m(1) by (subst node_delete.simps) (simp add: n del: push_left.simps)
  moreover have "inorder m = del_list x (inorder n)"
    using m(5) d(6) sorted1_left(1) [OF assms(4) [unfolded io] k1] by (simp add: io)
  ultimately show ?thesis using m d p n by (auto simp: del_ok_def)
qed

lemma remove_below_right:
  assumes "sorted1 (inorder l @ (k, v) # inorder r)" and "k \<le> x"
    and "x = k \<longrightarrow> ready r" and "x \<noteq> k \<longrightarrow> del_ok x r pool"
  shows "\<exists>e r'. (if x = k then node_min r else Some (k, v)) = Some e \<and>
    (if x = k then deleteMin r pool else node_delete x r pool) = Some (r', pool + 1) \<and>
    invc r' \<and> invh r' \<and> bh r' = bh r \<and> (getColor r = Black \<longrightarrow> getColor r' = Black) \<and>
    inorder l @ e # inorder r' = del_list x (inorder l @ (k, v) # inorder r)"
proof (cases "x = k")
  case True
  then have "ready r" using assms(3) by simp
  then have "r \<noteq> Leaf" by auto
  with deleteMin_ok [OF \<open>ready r\<close>, of pool] True sorted1_here [OF assms(1)] show ?thesis
    by (auto simp: node_min_inorder del_list_def)
next
  case False
  with assms sorted1_right(1) [OF assms(1), of x] show ?thesis by (auto simp: del_ok_def)
qed

lemma node_delete_right:
  assumes n: "n = Node l k v c r" and pre: "ready n \<or> tilted n" and "\<not> x < k" "sorted1 (inorder n)"
    "x \<in> fst ` set (inorder n)"
    and IH: "\<And>l1 k1 v1 r1 l2 k2 v2 c2 r2. lean_right n = Some (Node l1 k1 v1 c r1) \<Longrightarrow>
      \<not> (x = k1 \<and> r1 = Leaf) \<Longrightarrow> push_right (Node l1 k1 v1 c r1) = Some (Node l2 k2 v2 c2 r2) \<Longrightarrow>
      x \<noteq> k2 \<Longrightarrow> ready r2 \<or> tilted r2 \<and> (\<exists>a b. r2 = Node a k1 v1 Black b) \<and> k1 \<le> x \<Longrightarrow>
      sorted1 (inorder r2) \<Longrightarrow> x \<in> fst ` set (inorder r2) \<Longrightarrow> del_ok x r2 pool"
  shows "del_ok x n pool"
proof -
  from lean_right_ok [OF pre [unfolded n], folded n] obtain l1 k1 v1 r1 where a:
    "lean_right n = Some (Node l1 k1 v1 c r1)" "invc l1" "invc r1" "invh l1" "invh r1"
    "bh l1 = bh r1" "bh l1 = bh l" "getColor l1 = Black" "c = Red \<longleftrightarrow> getColor r1 = Black"
    "inorder l1 @ (k1, v1) # inorder r1 = inorder n"
    "Node l1 k1 v1 c r1 = n \<or> (\<exists>zs. inorder r1 = zs @ (k, v) # inorder r)"
    by (elim exE conjE) rule
  have srt: "sorted1 (inorder l1 @ (k1, v1) # inorder r1)" using assms(4) a(10) by simp
  have k1: "k1 \<le> x" using a(11) srt assms(3) n by (force simp: sorted1_append)
  then have xr1: "x = k1 \<or> x \<in> fst ` set (inorder r1)"
    using sorted1_right(2) [OF srt, of x] a(10) assms(5) by force
  show ?thesis
  proof (cases "x = k1 \<and> r1 = Leaf")
    case True
    then have "l1 = Leaf" and "c = Red" using a by (auto intro: black_Leaf)
    then have "inorder n = [(k1, v1)]" "bh n = 0" using True a(7,10) n by auto
    moreover have "node_delete x n pool = Some (Leaf, pool + 1)"
      using True a(1) assms(3)
      by (subst node_delete.simps) (simp add: n rbtree_free_def del: lean_right.simps)
    ultimately show ?thesis using True by (simp add: del_ok_def)
  next
    case False
    then have "r1 \<noteq> Leaf" using xr1 by auto
    from push_right_ok [OF a(2-6,8,9) this, where k = k1 and v = v1] obtain l2 k2 v2 c2 r2 ys where p:
      "push_right (Node l1 k1 v1 c r1) = Some (Node l2 k2 v2 c2 r2)" "invc l2" "invh l2"
      "bh l2 = bh r2" "bh (Node l2 k2 v2 c2 r2) = bh (Node l1 k1 v1 c r1)" "ready r2 \<or> tilted r2"
      "inorder r2 = ys @ inorder r1" "inorder l2 @ (k2, v2) # ys = inorder l1 @ [(k1, v1)]"
      "k2 = k1 \<and> v2 = v1 \<and> ready r2 \<or> (\<exists>a b. ys \<noteq> [] \<and> r2 = Node a k1 v1 Black b)"
      "c2 = Red \<longrightarrow> getColor l2 = Black \<and> getColor r2 = Black"
      "c = Black \<longrightarrow> c2 = Black \<and> getColor l2 = Black"
      by (elim exE conjE) rule
    have bhn: "bh (Node l2 k2 v2 c2 r2) = bh n" using p(5) a(7) n by simp
    have "inorder n = (inorder l1 @ [(k1, v1)]) @ inorder r1" using a(10) by simp
    also have "\<dots> = inorder l2 @ (k2, v2) # inorder r2"
      by (simp add: p(7) p(8) [symmetric])
    finally have io: "inorder n = inorder l2 @ (k2, v2) # inorder r2" .
    have srt2: "sorted1 (inorder l2 @ (k2, v2) # inorder r2)" using assms(4) io by simp
    have k2: "k2 \<le> k1" "ys \<noteq> [] \<Longrightarrow> k2 < k1"
      using p(8) srt2 p(7) by (cases ys rule: rev_cases; auto simp: sorted1_append)+
    then have here: "x = k2 \<longrightarrow> ready r2" using p(9) k1 by force
    have below: "x \<noteq> k2 \<longrightarrow> del_ok x r2 pool"
    proof (rule impI, rule IH [OF a(1) False p(1)])
      assume ne: "x \<noteq> k2"
      show "x \<noteq> k2" by (rule ne)
      show "ready r2 \<or> tilted r2 \<and> (\<exists>a b. r2 = Node a k1 v1 Black b) \<and> k1 \<le> x"
        using p(6,9) k1 by blast
      show "sorted1 (inorder r2)" using srt2 by (simp add: sorted1_append)
      show "x \<in> fst ` set (inorder r2)"
        using sorted1_right(2) [OF srt2, of x] k1 k2(1) ne assms(5) io by auto
    qed
    from remove_below_right [OF srt2 order_trans [OF k2(1) k1] here below, folded io]
    obtain e r2' where d: "(if x = k2 then node_min r2 else Some (k2, v2)) = Some e"
      "(if x = k2 then deleteMin r2 pool else node_delete x r2 pool) = Some (r2', pool + 1)"
      "invc r2'" "invh r2'" "bh r2' = bh r2" "getColor r2 = Black \<longrightarrow> getColor r2' = Black"
      "inorder l2 @ e # inorder r2' = del_list x (inorder n)"
      by (elim exE conjE) rule
    from balance_delete [of l2 r2' c2 "fst e" "snd e"] d p obtain m where m:
      "balance (Node l2 (fst e) (snd e) c2 r2') = Some m" "invc m" "invh m"
      "bh m = bh (Node l2 (fst e) (snd e) c2 r2')" "inorder m = inorder (Node l2 (fst e) (snd e) c2 r2')"
      "c2 = Black \<and> (getColor l2 = Black \<or> getColor r2' = Black) \<longrightarrow> getColor m = Black" by auto
    have "node_delete x n pool = Some (m, pool + 1)"
      using assms(3) False a(1) p(1) d(1,2) m(1)
      by (subst node_delete.simps)
        (auto simp: n case_prod_beta simp del: lean_right.simps push_right.simps split: if_splits)
    with m d p bhn n show ?thesis by (auto simp: del_ok_def)
  qed
qed

lemma node_delete_ok:
  assumes "ready t \<or> tilted t \<and> (\<exists>a k v b. t = Node a k v Black b \<and> k \<le> x)"
    and "sorted1 (inorder t)" and "x \<in> fst ` set (inorder t)"
  shows "del_ok x t pool"
  using assms
proof (induction x t pool rule: node_delete.induct)
  case (1 x n pool)
  then obtain l k v c r where n: "n = Node l k v c r" by (cases n) auto
  show ?case
  proof (cases "x < k")
    case True
    with "1.prems" n have "ready n" by auto
    then show ?thesis
    proof (rule node_delete_left [OF n _ True "1.prems"(2,3)])
      fix l1 k1 v1 c1 r1
      assume "push_left n = Some (Node l1 k1 v1 c1 r1)" "ready l1" "sorted1 (inorder l1)"
        "x \<in> fst ` set (inorder l1)"
      with "1.IH"(1) [OF n True, of "Node l1 k1 v1 c1 r1"] show "del_ok x l1 pool" by blast
    qed
  next
    case False
    from "1.prems"(1) have "ready n \<or> tilted n" by blast
    then show ?thesis
    proof (rule node_delete_right [OF n _ False "1.prems"(2,3)])
      fix l1 k1 v1 r1 l2 k2 v2 c2 r2
      assume "lean_right n = Some (Node l1 k1 v1 c r1)" "\<not> (x = k1 \<and> r1 = Leaf)"
        "push_right (Node l1 k1 v1 c r1) = Some (Node l2 k2 v2 c2 r2)" "x \<noteq> k2"
        "ready r2 \<or> tilted r2 \<and> (\<exists>a b. r2 = Node a k1 v1 Black b) \<and> k1 \<le> x"
        "sorted1 (inorder r2)" "x \<in> fst ` set (inorder r2)"
      with "1.IH"(2) [OF n False, of "Node l1 k1 v1 c r1"] show "del_ok x r2 pool" by blast
    qed
  qed
qed

section \<open>The tree as a finite map\<close>

definition rb_map :: "('k::linorder, 'v) rbtree \<Rightarrow> 'k \<rightharpoonup> 'v" where
  "rb_map T = map_of (inorder (rb_root T))"

definition rb_empty :: "('k, 'v) rbtree" where
  "rb_empty = \<lparr>rb_root = Leaf, rb_pool = 0\<rparr>"

lemma map_of_sorted_None:
  "(\<And>e. e \<in> set xs \<Longrightarrow> fst e \<noteq> x) \<Longrightarrow> map_of xs x = None"
  by (force simp: map_of_eq_None_iff)

lemma node_get_map_of: "sorted1 (inorder t) \<Longrightarrow> node_get x t = map_of (inorder t) x"
proof (induction t)
  case (Node l k v c r)
  have "map_of (inorder r) x = None" if "x \<le> k"
    using Node.prems that by (intro map_of_sorted_None) (force simp: sorted1_append)
  moreover have "map_of (inorder l) x = None" if "k \<le> x"
    using Node.prems that by (intro map_of_sorted_None) (force simp: sorted1_append)
  ultimately show ?case
    using Node by (auto simp: sorted1_append map_add_def split: option.split)
qed simp

text \<open>The list of entries after an insertion: smaller keys, the new entry, larger keys.\<close>

definition ins_list :: "'k::linorder \<Rightarrow> 'v \<Rightarrow> ('k \<times> 'v) list \<Rightarrow> ('k \<times> 'v) list" where
  "ins_list x y xs = filter (\<lambda>e. fst e < x) xs @ (x, y) # filter (\<lambda>e. x < fst e) xs"

lemma sorted1_filter: "sorted1 xs \<Longrightarrow> sorted1 (filter P xs)"
  by (simp add: sorted1_def sorted_wrt_map sorted_wrt_filter)

lemma ins_list_sorted: "sorted1 xs \<Longrightarrow> sorted1 (ins_list x y xs)"
  by (auto simp: ins_list_def sorted1_append sorted1_filter)

lemma map_of_filter_less:
  "map_of (filter (\<lambda>e. fst e < (x::'k::linorder)) xs) z = (if z < x then map_of xs z else None)"
  by (induction xs) auto

lemma map_of_filter_greater:
  "map_of (filter (\<lambda>e. (x::'k::linorder) < fst e) xs) z = (if x < z then map_of xs z else None)"
  by (induction xs) auto

lemma map_of_ins_list: "map_of (ins_list x y xs) = (map_of xs)(x \<mapsto> y)"
  by (rule ext)
    (auto simp: ins_list_def map_add_def map_of_filter_less map_of_filter_greater split: option.split)

lemma sorted1_del_list: "sorted1 xs \<Longrightarrow> sorted1 (del_list x xs)"
  by (simp add: del_list_def sorted1_filter)

lemma map_of_del_list: "map_of (del_list x xs) = (map_of xs)(x := None)"
  by (induction xs) (auto simp: fun_eq_iff del_list_def)

lemma inorder_rotate:
  "rotateRight n = Some n' \<Longrightarrow> inorder n' = inorder n"
  "rotateLeft n = Some n' \<Longrightarrow> inorder n' = inorder n"
  "flipColors n = Some n' \<Longrightarrow> inorder n' = inorder n"
  by (auto elim!: rotateRight.elims rotateLeft.elims flipColors.elims)

lemma inorder_balance: "balance n = Some n' \<Longrightarrow> inorder n' = inorder n"
proof -
  have "inorder n' = inorder n" if "balance1 n = Some n' \<or> balance2 n = Some n' \<or> balance3 n = Some n'"
    for n n' :: "('a, 'b) node"
    using that by (cases n) (auto split: if_splits Option.bind_splits dest!: inorder_rotate)
  then show "balance n = Some n' \<Longrightarrow> inorder n' = inorder n"
    by (auto simp: balance_def split: Option.bind_splits) metis
qed

lemma ins_list_right:
  assumes "\<And>e. e \<in> set xs \<Longrightarrow> fst e < k" and "k < x"
  shows "ins_list x y (xs @ (k, v) # ys) = xs @ (k, v) # ins_list x y ys"
proof -
  have "filter (\<lambda>e. fst e < x) xs = xs" using assms by (intro filter_idI) (meson less_trans)
  moreover have "filter (\<lambda>e. x < fst e) xs = []"
    using assms by (intro filter_emptyI) (meson less_trans less_asym)
  ultimately show ?thesis using assms(2) by (simp add: ins_list_def)
qed

lemma ins_list_left:
  assumes "\<And>e. e \<in> set ys \<Longrightarrow> k < fst e" and "x < k"
  shows "ins_list x y (xs @ (k, v) # ys) = ins_list x y xs @ (k, v) # ys"
proof -
  have "filter (\<lambda>e. x < fst e) ys = ys" using assms by (intro filter_idI) (meson less_trans)
  moreover have "filter (\<lambda>e. fst e < x) ys = []"
    using assms by (intro filter_emptyI) (meson less_trans less_asym)
  ultimately show ?thesis using assms(2) by (simp add: ins_list_def)
qed

lemma ins_list_here:
  assumes "\<And>e. e \<in> set xs \<Longrightarrow> fst e < x" and "\<And>e. e \<in> set ys \<Longrightarrow> x < fst e"
  shows "ins_list x y (xs @ (x, v) # ys) = xs @ (x, y) # ys"
proof -
  have "filter (\<lambda>e. fst e < x) xs = xs" "filter (\<lambda>e. x < fst e) ys = ys"
    using assms by (auto intro: filter_idI)
  moreover have "filter (\<lambda>e. x < fst e) xs = []"
    by (rule filter_emptyI) (use assms(1) in \<open>simp add: not_less less_imp_le\<close>)
  moreover have "filter (\<lambda>e. fst e < x) ys = []"
    by (rule filter_emptyI) (use assms(2) in \<open>simp add: not_less less_imp_le\<close>)
  ultimately show ?thesis by (simp add: ins_list_def)
qed

lemma inorder_put:
  assumes "sorted1 (inorder t)" "put x y t pool = Some (t', pool')"
  shows "inorder t' = ins_list x y (inorder t)"
  using assms
proof (induction t arbitrary: t' pool pool')
  case Leaf
  then show ?case by (auto simp: ins_list_def)
next
  case (Node l k v c r)
  have srt: "sorted1 (inorder l)" "sorted1 (inorder r)"
    "\<And>e. e \<in> set (inorder l) \<Longrightarrow> fst e < k" "\<And>e. e \<in> set (inorder r) \<Longrightarrow> k < fst e"
    using Node.prems(1) by (auto simp: sorted1_append)
  consider "k < x" | "x < k" | "x = k" by (rule linorder_cases [of x k])
  then show ?case
  proof cases
    case 1
    with Node.prems(2) obtain r' p where r': "put x y r pool = Some (r', p)"
      "balance (Node l k v c r') = Some t'" by (auto simp: Option.bind_eq_Some_conv split: if_splits)
    from inorder_balance [OF r'(2)] Node.IH(2) [OF srt(2) r'(1)] ins_list_right [OF srt(3) 1]
    show ?thesis by simp
  next
    case 2
    with Node.prems(2) obtain l' p where l': "put x y l pool = Some (l', p)"
      "balance (Node l' k v c r) = Some t'" by (auto simp: Option.bind_eq_Some_conv split: if_splits)
    from inorder_balance [OF l'(2)] Node.IH(1) [OF srt(1) l'(1)] ins_list_left [OF srt(4) 2]
    show ?thesis by simp
  next
    case 3
    with Node.prems(2) have "balance (Node l k y c r) = Some t'" by (auto simp: Option.bind_eq_Some_conv split: if_splits)
    from inorder_balance [OF this] ins_list_here [OF srt(3,4) [folded 3]] 3
    show ?thesis by simp
  qed
qed

section \<open>The exported operations\<close>

lemma rb_Get_map: "rb_inv T \<Longrightarrow> rb_Get x T = rb_map T x"
  by (simp add: rb_Get_def rb_map_def rb_inv_def llrb_def node_get_map_of)

lemma rb_Set_ok:
  assumes "rb_inv T"
  shows "\<exists>T'. rb_Set x y T = Some T' \<and> rb_inv T' \<and> inorder (rb_root T') = ins_list x y (inorder (rb_root T))"
proof -
  have t: "invc (rb_root T)" "invh (rb_root T)" "sorted1 (inorder (rb_root T))"
    using assms by (auto simp: rb_inv_def llrb_def)
  from put_ok [OF t(1,2)] obtain t' p where p: "put x y (rb_root T) (rb_pool T) = Some (t', p)"
    "t' \<noteq> Leaf" "invc2 t'" "invh t'" by blast
  from inorder_put [OF t(3) p(1)] have io: "inorder t' = ins_list x y (inorder (rb_root T))" .
  with p t(3) show ?thesis
    by (auto simp: rb_Set_def rb_inv_def llrb_def invc_paint_Black ins_list_sorted)
qed

lemma node_delete_root:
  assumes "llrb t" and t: "t = Node l k v c r" and "x \<in> fst ` set (inorder t)"
  shows "del_ok x (if getColor l = Black \<and> getColor r = Black then Node l k v Red r else t) pool"
  using assms by (intro node_delete_ok) (auto simp: llrb_def)

lemma rb_Delete_ok:
  assumes "rb_inv T"
  shows "\<exists>T'. rb_Delete x T = Some T' \<and> rb_inv T' \<and>
    inorder (rb_root T') = del_list x (inorder (rb_root T)) \<and>
    rb_pool T' = (if x \<in> dom (rb_map T) then rb_pool T + 1 else rb_pool T)"
proof (cases "rb_map T x")
  case None
  then have "\<forall>e\<in>set (inorder (rb_root T)). fst e \<noteq> x"
    by (force simp: rb_map_def map_of_eq_None_iff)
  then have "del_list x (inorder (rb_root T)) = inorder (rb_root T)" by (auto intro: del_list_idem)
  with None assms show ?thesis by (auto simp: rb_Delete_def rb_Get_map)
next
  case (Some y)
  then have x: "x \<in> fst ` set (inorder (rb_root T))"
    by (force simp: rb_map_def dest: map_of_SomeD)
  then obtain l k v c r where t: "rb_root T = Node l k v c r" by (cases "rb_root T") auto
  have ll: "llrb (rb_root T)" using assms by (simp add: rb_inv_def)
  let ?t = "if getColor l = Black \<and> getColor r = Black then Node l k v Red r else Node l k v c r"
  from node_delete_root [OF ll t x, folded t, of "rb_pool T"] obtain t' where d:
    "node_delete x ?t (rb_pool T) = Some (t', rb_pool T + 1)" "invc t'" "invh t'"
    "inorder t' = del_list x (inorder (rb_root T))"
    by (auto simp: del_ok_def t split: if_splits)
  have "rb_Delete x T = Some \<lparr>rb_root = paint Black t', rb_pool = rb_pool T + 1\<rparr>"
    using d(1) Some assms by (simp add: rb_Delete_def rb_Get_map t Let_def)
  moreover have "rb_inv \<lparr>rb_root = paint Black t', rb_pool = rb_pool T + 1\<rparr>"
    using d ll by (auto simp: rb_inv_def llrb_def invc_paint_Black invc_invc2 sorted1_del_list)
  ultimately show ?thesis using d(4) Some by auto
qed

section \<open>Successor and predecessor\<close>

text \<open>The abstract answers, over the finite map the tree stands for.\<close>

definition map_min :: "('k::linorder \<rightharpoonup> 'v) \<Rightarrow> ('k \<times> 'v) option" where
  "map_min m = (if dom m = {} then None else Some (Min (dom m), the (m (Min (dom m)))))"

definition map_max :: "('k::linorder \<rightharpoonup> 'v) \<Rightarrow> ('k \<times> 'v) option" where
  "map_max m = (if dom m = {} then None else Some (Max (dom m), the (m (Max (dom m)))))"

definition list_first :: "'a list \<Rightarrow> 'a option" where
  "list_first xs = (if xs = [] then None else Some (hd xs))"

definition list_last :: "'a list \<Rightarrow> 'a option" where
  "list_last xs = (if xs = [] then None else Some (last xs))"

lemma list_first_map_min:
  assumes "sorted1 xs"
  shows "list_first xs = map_min (map_of xs)"
proof (cases xs)
  case Nil
  then show ?thesis by (simp add: list_first_def map_min_def)
next
  case (Cons e ys)
  obtain k v where e: "e = (k, v)" by (cases e)
  with assms Cons have "\<forall>x\<in>insert k (dom (map_of ys)). k \<le> x"
    by (auto simp: dom_map_of_conv_image_fst intro: less_imp_le)
  then have "Min (insert k (dom (map_of ys))) = k"
    by (intro Min_eqI) (auto simp: finite_dom_map_of)
  with Cons e show ?thesis by (simp add: list_first_def map_min_def)
qed

lemma list_last_map_max:
  assumes "sorted1 xs"
  shows "list_last xs = map_max (map_of xs)"
proof (cases xs rule: rev_cases)
  case Nil
  then show ?thesis by (simp add: list_last_def map_max_def)
next
  case (snoc ys e)
  obtain k v where e: "e = (k, v)" by (cases e)
  have lt: "\<forall>a\<in>set ys. fst a < k" using assms snoc e by (simp add: sorted1_append)
  have "\<forall>x\<in>insert k (dom (map_of ys)). x \<le> k"
    using lt by (auto simp: dom_map_of_conv_image_fst intro: less_imp_le)
  then have "Max (insert k (dom (map_of ys))) = k"
    by (intro Max_eqI) (auto simp: finite_dom_map_of)
  moreover have "dom (map_of xs) = insert k (dom (map_of ys))" "map_of ys k = None"
    using lt snoc e by (auto simp: map_of_eq_None_iff dom_map_of_conv_image_fst)
  ultimately show ?thesis using snoc e by (simp add: list_last_def map_max_def map_add_def)
qed

lemma node_min_first: "node_min t = list_first (inorder t)"
  using node_min_inorder [of t] by (cases t) (auto simp: list_first_def)

lemma node_max_last: "node_max t = list_last (inorder t)"
  using node_max_inorder [of t] by (cases t) (auto simp: list_last_def)

lemma list_first_append: "list_first (xs @ ys) = (if xs = [] then list_first ys else list_first xs)"
  by (simp add: list_first_def)

lemma list_last_append: "list_last (xs @ ys) = (if ys = [] then list_last xs else list_last ys)"
  by (simp add: list_last_def)

lemma list_first_simps [simp]: "list_first [] = None" "list_first (x # xs) = Some x"
  "(list_first xs = None) = (xs = [])"
  by (simp_all add: list_first_def)

lemma list_last_simps [simp]: "list_last [] = None" "list_last (x # xs) = (if xs = [] then Some x else list_last xs)"
  "(list_last xs = None) = (xs = [])"
  by (simp_all add: list_last_def)

lemma filter_sides:
  assumes "sorted1 (xs @ (k, v) # ys)"
  shows "k \<le> x \<Longrightarrow> filter (\<lambda>e. x < fst e) xs = []" "x \<le> k \<Longrightarrow> filter (\<lambda>e. x < fst e) ys = ys"
    "x \<le> k \<Longrightarrow> filter (\<lambda>e. fst e < x) ys = []" "k \<le> x \<Longrightarrow> filter (\<lambda>e. fst e < x) xs = xs"
proof -
  have s: "\<And>e. e \<in> set xs \<Longrightarrow> fst e < k" "\<And>e. e \<in> set ys \<Longrightarrow> k < fst e"
    using assms by (auto simp: sorted1_append)
  show "filter (\<lambda>e. x < fst e) xs = []" if "k \<le> x"
    using s(1) that by (intro filter_emptyI) (meson less_le_trans less_asym)
  show "filter (\<lambda>e. x < fst e) ys = ys" if "x \<le> k"
    using s(2) that by (intro filter_idI) (meson le_less_trans)
  show "filter (\<lambda>e. fst e < x) ys = []" if "x \<le> k"
    using s(2) that by (intro filter_emptyI) (meson le_less_trans less_asym)
  show "filter (\<lambda>e. fst e < x) xs = xs" if "k \<le> x"
    using s(1) that by (intro filter_idI) (meson less_le_trans)
qed

lemma node_next_list:
  "sorted1 (inorder t) \<Longrightarrow> node_next x t = list_first (filter (\<lambda>e. x < fst e) (inorder t))"
proof (induction t)
  case (Node l k v c r)
  note f = filter_sides [OF Node.prems [unfolded inorder.simps], of x]
  have "sorted1 (inorder l)" "sorted1 (inorder r)" using Node.prems by (auto simp: sorted1_append)
  with Node.IH f show ?case
    by (auto simp: node_min_first list_first_append split: option.split)
qed simp

lemma node_prev_list:
  "sorted1 (inorder t) \<Longrightarrow> node_prev x t = list_last (filter (\<lambda>e. fst e < x) (inorder t))"
proof (induction t)
  case (Node l k v c r)
  note f = filter_sides [OF Node.prems [unfolded inorder.simps], of x]
  have "sorted1 (inorder l)" "sorted1 (inorder r)" using Node.prems by (auto simp: sorted1_append)
  with Node.IH f show ?case
    by (auto simp: node_max_last list_last_append not_less split: option.split if_splits)
qed simp

lemma map_of_filter_restrict:
  "map_of (filter (\<lambda>e. (x::'k::linorder) < fst e) xs) = map_of xs |` {x<..}"
  "map_of (filter (\<lambda>e. fst e < (x::'k::linorder)) xs) = map_of xs |` {..<x}"
  by (auto simp: fun_eq_iff map_of_filter_greater map_of_filter_less restrict_map_def)

section \<open>The interface: an ordered map\<close>

locale ordered_map =
  fixes empty :: 't
    and get :: "'k::linorder \<Rightarrow> 't \<Rightarrow> 'v option"
    and set_key :: "'k \<Rightarrow> 'v \<Rightarrow> 't \<Rightarrow> 't option"
    and delete :: "'k \<Rightarrow> 't \<Rightarrow> 't option"
    and least :: "'t \<Rightarrow> ('k \<times> 'v) option"
    and greatest :: "'t \<Rightarrow> ('k \<times> 'v) option"
    and succ_of :: "'k \<Rightarrow> 't \<Rightarrow> ('k \<times> 'v) option"
    and pred_of :: "'k \<Rightarrow> 't \<Rightarrow> ('k \<times> 'v) option"
    and contents :: "'t \<Rightarrow> 'k \<rightharpoonup> 'v"
    and invar :: "'t \<Rightarrow> bool"
  assumes empty: "invar empty" "contents empty = Map.empty"
    and finite_contents: "invar t \<Longrightarrow> finite (dom (contents t))"
    and get: "invar t \<Longrightarrow> get k t = contents t k"
    and set_key: "invar t \<Longrightarrow>
      \<exists>t'. set_key k v t = Some t' \<and> invar t' \<and> contents t' = (contents t)(k \<mapsto> v)"
    and delete: "invar t \<Longrightarrow>
      \<exists>t'. delete k t = Some t' \<and> invar t' \<and> contents t' = (contents t)(k := None)"
    and least: "invar t \<Longrightarrow> least t = map_min (contents t)"
    and greatest: "invar t \<Longrightarrow> greatest t = map_max (contents t)"
    and succ_of: "invar t \<Longrightarrow> succ_of k t = map_min (contents t |` {k<..})"
    and pred_of: "invar t \<Longrightarrow> pred_of k t = map_max (contents t |` {..<k})"
begin

lemma setE:
  assumes "invar t"
  obtains t' where "set_key k v t = Some t'" "invar t'" "contents t' = (contents t)(k \<mapsto> v)"
  using set_key [OF assms, of k v] by blast

lemma deleteE:
  assumes "invar t"
  obtains t' where "delete k t = Some t'" "invar t'" "contents t' = (contents t)(k := None)"
  using delete [OF assms, of k] by blast

lemma least_cases:
  assumes "invar t"
  obtains (none) "least t = None" "contents t = Map.empty"
    | (some) k v where "least t = Some (k, v)" "contents t k = Some v"
        "\<And>k'. k' \<in> dom (contents t) \<Longrightarrow> k \<le> k'"
proof (cases "dom (contents t) = {}")
  case True
  with least [OF assms] show thesis by (auto simp: map_min_def intro: none)
next
  case False
  have m: "Min (dom (contents t)) \<in> dom (contents t)"
    using False finite_contents [OF assms] by (rule Min_in [rotated])
  then obtain v where v: "contents t (Min (dom (contents t))) = Some v" by auto
  show thesis
  proof (rule some)
    show "least t = Some (Min (dom (contents t)), v)"
      using least [OF assms] False v by (simp add: map_min_def)
    show "contents t (Min (dom (contents t))) = Some v" by (rule v)
    show "Min (dom (contents t)) \<le> k'" if "k' \<in> dom (contents t)" for k'
      using that finite_contents [OF assms] by simp
  qed
qed

lemma least_None: "invar t \<Longrightarrow> least t = None \<longleftrightarrow> contents t = Map.empty"
  by (simp add: least map_min_def dom_eq_empty_conv)

end

interpretation rb: ordered_map rb_empty rb_Get rb_Set rb_Delete rb_Min rb_Max rb_Next rb_Prev rb_map rb_inv
proof
  fix T :: "('a::linorder, 'b) rbtree" and k :: 'a and v :: 'b
  show "rb_inv (rb_empty :: ('a, 'b) rbtree)" by (simp add: rb_empty_def rb_inv_def llrb_def)
  show "rb_map (rb_empty :: ('a, 'b) rbtree) = Map.empty" by (simp add: rb_empty_def rb_map_def)
  assume T: "rb_inv T"
  then have srt: "sorted1 (inorder (rb_root T))" by (simp add: rb_inv_def llrb_def)
  show "finite (dom (rb_map T))" by (simp add: rb_map_def finite_dom_map_of)
  show "rb_Get k T = rb_map T k" using T by (rule rb_Get_map)
  show "\<exists>t'. rb_Set k v T = Some t' \<and> rb_inv t' \<and> rb_map t' = (rb_map T)(k \<mapsto> v)"
    using rb_Set_ok [OF T, of k v] by (auto simp: rb_map_def map_of_ins_list)
  show "\<exists>t'. rb_Delete k T = Some t' \<and> rb_inv t' \<and> rb_map t' = (rb_map T)(k := None)"
    using rb_Delete_ok [OF T, of k] by (auto simp: rb_map_def map_of_del_list)
  show "rb_Min T = map_min (rb_map T)"
    by (simp add: rb_Min_def rb_map_def node_min_first list_first_map_min srt)
  show "rb_Max T = map_max (rb_map T)"
    by (simp add: rb_Max_def rb_map_def node_max_last list_last_map_max srt)
  show "rb_Next k T = map_min (rb_map T |` {k<..})"
    by (simp add: rb_Next_def rb_map_def node_next_list list_first_map_min srt sorted1_filter
        map_of_filter_restrict)
  show "rb_Prev k T = map_max (rb_map T |` {..<k})"
    by (simp add: rb_Prev_def rb_map_def node_prev_list list_last_map_max srt sorted1_filter
        map_of_filter_restrict)
qed

section \<open>Properties\<close>

datatype ('k, 'v) tree_op =
    OpGetKey 'k | OpSet 'k 'v | OpDelete 'k | OpMin | OpMax | OpNext 'k | OpPrev 'k

datatype ('k, 'v) tree_out = OutNone | OutValue "'v option" | OutEntry "('k \<times> 'v) option"

fun rb_step :: "('k::linorder, 'v) tree_op \<Rightarrow> ('k, 'v) rbtree \<Rightarrow>
    (('k, 'v) tree_out \<times> ('k, 'v) rbtree) option" where
  "rb_step (OpGetKey k) T = Some (OutValue (rb_Get k T), T)"
| "rb_step (OpSet k v) T = map_option (\<lambda>T. (OutNone, T)) (rb_Set k v T)"
| "rb_step (OpDelete k) T = map_option (\<lambda>T. (OutNone, T)) (rb_Delete k T)"
| "rb_step OpMin T = Some (OutEntry (rb_Min T), T)"
| "rb_step OpMax T = Some (OutEntry (rb_Max T), T)"
| "rb_step (OpNext k) T = Some (OutEntry (rb_Next k T), T)"
| "rb_step (OpPrev k) T = Some (OutEntry (rb_Prev k T), T)"

fun rb_run :: "('k::linorder, 'v) tree_op list \<Rightarrow> ('k, 'v) rbtree \<Rightarrow>
    (('k, 'v) tree_out list \<times> ('k, 'v) rbtree) option" where
  "rb_run [] T = Some ([], T)"
| "rb_run (p # ps) T = do {
     (out, T) \<leftarrow> rb_step p T;
     (outs, T) \<leftarrow> rb_run ps T;
     Some (out # outs, T)
   }"

text \<open>The same operations on the abstract finite map.\<close>

fun map_step :: "('k::linorder, 'v) tree_op \<Rightarrow> ('k \<rightharpoonup> 'v) \<Rightarrow> ('k, 'v) tree_out \<times> ('k \<rightharpoonup> 'v)" where
  "map_step (OpGetKey k) m = (OutValue (m k), m)"
| "map_step (OpSet k v) m = (OutNone, m(k \<mapsto> v))"
| "map_step (OpDelete k) m = (OutNone, m(k := None))"
| "map_step OpMin m = (OutEntry (map_min m), m)"
| "map_step OpMax m = (OutEntry (map_max m), m)"
| "map_step (OpNext k) m = (OutEntry (map_min (m |` {k<..})), m)"
| "map_step (OpPrev k) m = (OutEntry (map_max (m |` {..<k})), m)"

fun map_run :: "('k::linorder, 'v) tree_op list \<Rightarrow> ('k \<rightharpoonup> 'v) \<Rightarrow>
    ('k, 'v) tree_out list \<times> ('k \<rightharpoonup> 'v)" where
  "map_run [] m = ([], m)"
| "map_run (p # ps) m =
     (case map_step p m of (out, m) \<Rightarrow> case map_run ps m of (outs, m) \<Rightarrow> (out # outs, m))"

lemma rb_step_refines:
  assumes "rb_inv T"
  shows "\<exists>T' out. rb_step p T = Some (out, T') \<and> rb_inv T' \<and> map_step p (rb_map T) = (out, rb_map T')"
proof (cases p)
  case (OpSet k v)
  with rb.set_key [OF assms, of k v] show ?thesis by auto
next
  case (OpDelete k)
  with rb.delete [OF assms, of k] show ?thesis by auto
qed (use assms in \<open>auto simp: rb.get rb.least rb.greatest rb.succ_of rb.pred_of\<close>)

lemma rb_run_refines:
  "rb_inv T \<Longrightarrow>
    \<exists>T' outs. rb_run ps T = Some (outs, T') \<and> rb_inv T' \<and> map_run ps (rb_map T) = (outs, rb_map T')"
proof (induction ps arbitrary: T)
  case (Cons p ps)
  from rb_step_refines [OF Cons.prems, of p] obtain T1 out where s:
    "rb_step p T = Some (out, T1)" "rb_inv T1" "map_step p (rb_map T) = (out, rb_map T1)" by blast
  with Cons.IH [OF s(2)] show ?case by auto
qed simp

text \<open>
  (C35) The red-black tree implements an ordered map: started from the empty tree, every sequence of
  lookups, insertions, deletions, minimum, maximum, successor and predecessor queries runs without a
  panic (no nil dereference, no failed rotation assertion), and every answer and the final contents are
  those of a finite map under the same operations; the final tree satisfies the search-tree, colour
  and black-height invariants.
\<close>

theorem rbtree_refines_map:
  "\<exists>T outs. rb_run ps rb_empty = Some (outs, T) \<and> rb_inv T \<and>
     map_run ps Map.empty = (outs, rb_map T)"
  using rb_run_refines [OF rb.empty(1), of ps] by (simp add: rb.empty(2))

fun height :: "('k, 'v) node \<Rightarrow> nat" where
  "height Leaf = 0"
| "height (Node l k v c r) = 1 + max (height l) (height r)"

lemma height_bh:
  "invc t \<Longrightarrow> invh t \<Longrightarrow> height t \<le> 2 * bh t + (if getColor t = Red then 1 else 0)"
  by (induction t) (auto split: if_splits)

lemma bh_nodes: "invh t \<Longrightarrow> 2 ^ bh t \<le> nodes t + 1"
proof (induction t)
  case (Node l k v c r)
  then have "2 ^ bh l \<le> nodes l + 1" "2 ^ bh l \<le> nodes r + 1" by auto
  then show ?case by (auto intro: order_trans)
qed simp

text \<open>
  (C36) The recursion of every tree operation is logarithmic: whatever sequence of operations was
  run, a tree of height \<open>h\<close> holds at least \<open>2 ^ ((h + 1) div 2) - 1\<close> nodes, that is
  \<open>h \<le> 2 * log\<^sub>2 (n + 1)\<close>.
\<close>

theorem rbtree_height_log:
  assumes "rb_run ps rb_empty = Some (outs, T)"
  shows "2 ^ ((height (rb_root T) + 1) div 2) \<le> nodes (rb_root T) + 1"
proof -
  have "rb_inv T" using rb_run_refines [OF rb.empty(1), of ps] assms by auto
  then have t: "invc (rb_root T)" "invh (rb_root T)" "getColor (rb_root T) = Black"
    by (auto simp: rb_inv_def llrb_def)
  have "(height (rb_root T) + 1) div 2 \<le> bh (rb_root T)" using height_bh [OF t(1,2)] t(3) by simp
  then have "(2::nat) ^ ((height (rb_root T) + 1) div 2) \<le> 2 ^ bh (rb_root T)"
    by (rule power_increasing) simp
  with bh_nodes [OF t(2)] show ?thesis by linarith
qed

theorem rbtree_height_log_witness:
  "\<exists>outs T. rb_run [OpSet (1::nat) (), OpSet 2 (), OpSet 3 (), OpDelete 2, OpSet 4 ()] rb_empty = Some (outs, T) \<and>
     height (rb_root T) = 2 \<and> 2 ^ ((height (rb_root T) + 1) div 2) \<le> nodes (rb_root T) + 1"
proof -
  have "map_option (\<lambda>(outs, T). height (rb_root T))
      (rb_run [OpSet (1::nat) (), OpSet 2 (), OpSet 3 (), OpDelete 2, OpSet 4 ()] rb_empty) = Some 2"
    by code_simp
  then obtain outs T where r: "rb_run [OpSet (1::nat) (), OpSet 2 (), OpSet 3 (), OpDelete 2, OpSet 4 ()]
      rb_empty = Some (outs, T)" "height (rb_root T) = 2" by (auto simp del: rb_run.simps)
  from r rbtree_height_log [OF r(1)] show ?thesis by blast
qed

end
