(* ===== verification/Rob_Scheduler.thy ===== *)
theory Rob_Scheduler
  imports LLRB_Tree Pooler_Contract "HOL-Library.AList"
begin

text \<open>
  The stride scheduler of \<^verbatim>\<open>lib/rob/schedulers/v3\<close>, which \<^verbatim>\<open>poolers/rob\<close> wraps.  Users and workers are heap
  objects (the code compares and shares pointers); pending jobs sit in the red-black tree by stride.
  As for the LIFO pooler every critical section under the mutex is one step, and so is a receive outside
  of it.  \<^verbatim>\<open>time.Now()\<close> is an argument of the step; a duration is an \<^typ>\<open>int\<close> of nanoseconds (the 63 bits of
  \<^verbatim>\<open>time.Duration\<close> are 292 years).  \<^term>\<open>None\<close> is a panic or blocking with the mutex held.
\<close>

section \<open>Data\<close>

record rob_user =
  u_ID :: uuid
  u_Stride :: int
  u_Scheduled :: bool
  u_Worker :: "nat option"

record rob_worker =
  w_ID :: uuid
  w_User :: "nat option"
  w_Since :: int

record job =
  j_User :: nat
  j_Ready :: chan

record scheduler =
  sc_cc :: "chan list"
  sc_closed :: bool
  sc_queue :: "nat list"
  sc_workers :: "(uuid \<times> nat) list"
  sc_floor :: int
  sc_users :: "(uuid \<times> nat) list"
  sc_schedule :: "(int, job) rbtree"
  sc_userheap :: "nat \<Rightarrow> rob_user"
  sc_workerheap :: "nat \<Rightarrow> rob_worker"
  sc_nextuser :: nat
  sc_nextworker :: nat
  sc_chans :: "chan \<Rightarrow> chan_state"
  sc_next :: chan

definition MakeScheduler :: scheduler where
  "MakeScheduler = \<lparr>sc_cc = [], sc_closed = False, sc_queue = [], sc_workers = [], sc_floor = 0,
     sc_users = [], sc_schedule = rb_empty,
     sc_userheap = (\<lambda>_. \<lparr>u_ID = uuid_nil, u_Stride = 0, u_Scheduled = False, u_Worker = None\<rparr>),
     sc_workerheap = (\<lambda>_. \<lparr>w_ID = uuid_nil, w_User = None, w_Since = 0\<rparr>),
     sc_nextuser = 1, sc_nextworker = 1, sc_chans = (\<lambda>_. chan_make), sc_next = 1\<rparr>"

text \<open>Assignments through a pointer.\<close>

definition upd_user :: "nat \<Rightarrow> (rob_user \<Rightarrow> rob_user) \<Rightarrow> scheduler \<Rightarrow> scheduler" where
  "upd_user u f T = T\<lparr>sc_userheap := (sc_userheap T)(u := f (sc_userheap T u))\<rparr>"

definition upd_worker :: "nat \<Rightarrow> (rob_worker \<Rightarrow> rob_worker) \<Rightarrow> scheduler \<Rightarrow> scheduler" where
  "upd_worker w f T = T\<lparr>sc_workerheap := (sc_workerheap T)(w := f (sc_workerheap T w))\<rparr>"

section \<open>Operations\<close>

text \<open>The accounting at the start of \<^verbatim>\<open>releaseWorker\<close>: the time of use is added to the stride of the user.\<close>

definition rob_settle :: "int \<Rightarrow> nat \<Rightarrow> scheduler \<Rightarrow> scheduler" where
  "rob_settle now worker T =
     (case w_User (sc_workerheap T worker) of
        None \<Rightarrow> T
      | Some u \<Rightarrow> upd_worker worker (\<lambda>w. w\<lparr>w_Since := now, w_User := None\<rparr>)
          (upd_user u (\<lambda>x. x\<lparr>u_Stride := u_Stride x + (now - w_Since (sc_workerheap T worker)),
             u_Worker := None\<rparr>) T))"

text \<open>The rest of \<^verbatim>\<open>releaseWorker\<close>: the worker goes to the pending job with the least stride or is idle.\<close>

definition rob_dispatch :: "int \<Rightarrow> nat \<Rightarrow> scheduler \<Rightarrow> scheduler option" where
  "rob_dispatch now worker T =
     (case rb_Min (sc_schedule T) of
        None \<Rightarrow> Some (T\<lparr>sc_queue := sc_queue T @ [worker]\<rparr>)
      | Some (stride, job) \<Rightarrow> do {
          schedule \<leftarrow> rb_Delete stride (sc_schedule T);
          let T = T\<lparr>sc_floor := stride, sc_schedule := schedule\<rparr>;
          let T = upd_user (j_User job) (\<lambda>x. x\<lparr>u_Worker := Some worker, u_Scheduled := False\<rparr>) T;
          let T = upd_worker worker (\<lambda>w. w\<lparr>w_Since := now, w_User := Some (j_User job)\<rparr>) T;
          ch \<leftarrow> chan_send (w_ID (sc_workerheap T worker)) (sc_chans T (j_Ready job));
          Some (T\<lparr>sc_chans := (sc_chans T)(j_Ready job := ch)\<rparr>)
        })"

definition releaseWorker :: "int \<Rightarrow> nat \<Rightarrow> scheduler \<Rightarrow> scheduler option" where
  "releaseWorker now worker T = rob_dispatch now worker (rob_settle now worker T)"

definition rob_release :: "int \<Rightarrow> uuid \<Rightarrow> scheduler \<Rightarrow> scheduler option" where
  "rob_release now worker T =
     (if sc_closed T then Some T
      else case map_of (sc_workers T) worker of
        None \<Rightarrow> Some T
      | Some w \<Rightarrow> releaseWorker now w T)"

definition rob_Release :: "int \<Rightarrow> uuid \<Rightarrow> scheduler \<Rightarrow> scheduler option" where
  "rob_Release now worker T = rob_release now worker T"

definition AddWorker :: "int \<Rightarrow> uuid \<Rightarrow> scheduler \<Rightarrow> scheduler option" where
  "AddWorker now i T =
     (if sc_closed T then Some T
      else let w = sc_nextworker T in
        releaseWorker now w
          (T\<lparr>sc_nextworker := w + 1,
             sc_workerheap := (sc_workerheap T)(w := \<lparr>w_ID = i, w_User = None, w_Since = 0\<rparr>),
             sc_workers := AList.update i w (sc_workers T)\<rparr>))"

definition DeleteWorker :: "uuid \<Rightarrow> scheduler \<Rightarrow> scheduler option" where
  "DeleteWorker worker T =
     (if sc_closed T then Some T
      else case map_of (sc_workers T) worker of
        None \<Rightarrow> Some T
      | Some w \<Rightarrow> do {
          q \<leftarrow> slices_Delete 0 (sc_queue T) w;
          Some (T\<lparr>sc_workers := AList.delete worker (sc_workers T), sc_queue := q\<rparr>)
        })"

definition AddUser :: "uuid \<Rightarrow> scheduler \<Rightarrow> scheduler option" where
  "AddUser user T =
     (if sc_closed T then Some T
      else let stride = (case rb_Max (sc_schedule T) of Some (s, _) \<Rightarrow> s + 1 | None \<Rightarrow> sc_floor T);
               u = sc_nextuser T in
        Some (T\<lparr>sc_nextuser := u + 1,
          sc_userheap := (sc_userheap T)(u := \<lparr>u_ID = user, u_Stride = stride, u_Scheduled = False, u_Worker = None\<rparr>),
          sc_users := AList.update user u (sc_users T)\<rparr>))"

definition DeleteUser :: "uuid \<Rightarrow> scheduler \<Rightarrow> scheduler option" where
  "DeleteUser user T =
     (if sc_closed T then Some T
      else case map_of (sc_users T) user of
        None \<Rightarrow> Some T
      | Some u \<Rightarrow> do {
          let T = T\<lparr>sc_users := AList.delete user (sc_users T)\<rparr>;
          if u_Scheduled (sc_userheap T u) then
            case rb_Get (u_Stride (sc_userheap T u)) (sc_schedule T) of
              None \<Rightarrow> Some T
            | Some j \<Rightarrow> do {
                ch \<leftarrow> chan_close (sc_chans T (j_Ready j));
                schedule \<leftarrow> rb_Delete (u_Stride (sc_userheap T u)) (sc_schedule T);
                Some (T\<lparr>sc_chans := (sc_chans T)(j_Ready j := ch), sc_schedule := schedule\<rparr>)
              }
          else Some T
        })"

text \<open>The loop that looks for an empty slot.\<close>

partial_function (option) rob_slot :: "int \<Rightarrow> (int, job) rbtree \<Rightarrow> int option" where
  "rob_slot stride schedule =
     (case rb_Get stride schedule of Some _ \<Rightarrow> rob_slot (stride + 1) schedule | None \<Rightarrow> Some stride)"

declare rob_slot.simps [code]

text \<open>The first critical section of \<^verbatim>\<open>Acquire\<close>.\<close>

definition rob_Acquire :: "int \<Rightarrow> uuid \<Rightarrow> scheduler \<Rightarrow> ((uuid \<times> chan option) \<times> scheduler) option" where
  "rob_Acquire now user T =
     (if sc_closed T then Some ((uuid_nil, None), T)
      else case map_of (sc_users T) user of
        None \<Rightarrow> Some ((uuid_nil, None), T)
      | Some u \<Rightarrow>
          if sc_queue T \<noteq> [] then
            let worker = last (sc_queue T);
                T = T\<lparr>sc_queue := butlast (sc_queue T)\<rparr>;
                T = upd_user u (\<lambda>x. x\<lparr>u_Worker := Some worker\<rparr>) T;
                T = upd_worker worker (\<lambda>w. w\<lparr>w_User := Some u, w_Since := now\<rparr>) T
            in Some ((w_ID (sc_workerheap T worker), None), T)
          else do {
            let (got, cc) = Pool_Get (sc_cc T);
            let (ready, T) = (case got of
                Some c \<Rightarrow> (c, T\<lparr>sc_cc := cc\<rparr>)
              | None \<Rightarrow> (sc_next T, T\<lparr>sc_cc := cc, sc_next := sc_next T + 1,
                           sc_chans := (sc_chans T)(sc_next T := chan_make)\<rparr>));
            let start = (if u_Stride (sc_userheap T u) < sc_floor T then sc_floor T else u_Stride (sc_userheap T u));
            stride \<leftarrow> rob_slot start (sc_schedule T);
            schedule \<leftarrow> rb_Set stride \<lparr>j_User = u, j_Ready = ready\<rparr> (sc_schedule T);
            Some ((uuid_nil, Some ready),
              upd_user u (\<lambda>x. x\<lparr>u_Stride := stride, u_Scheduled := True\<rparr>) (T\<lparr>sc_schedule := schedule\<rparr>))
          })"

text \<open>\<^verbatim>\<open>v, ok = <-c\<close>, and the channel goes back to the free list when it delivered a value.\<close>

definition rob_receive :: "chan \<Rightarrow> scheduler \<Rightarrow> (uuid \<times> scheduler) option" where
  "rob_receive c T = do {
     (v, ok, ch) \<leftarrow> chan_recv (sc_chans T c);
     Some (v, T\<lparr>sc_chans := (sc_chans T)(c := ch), sc_cc := (if ok then Pool_Put c (sc_cc T) else sc_cc T)\<rparr>)
   }"

text \<open>The critical section of \<^verbatim>\<open>Acquire\<close> after the timeout.\<close>

definition rob_timeout :: "int \<Rightarrow> uuid \<Rightarrow> chan \<Rightarrow> scheduler \<Rightarrow> (uuid \<times> scheduler) option" where
  "rob_timeout now user c T =
     (case map_of (sc_users T) user of
        None \<Rightarrow>
          (case chan_recv (sc_chans T c) of
             None \<Rightarrow> Some (uuid_nil, T)
           | Some _ \<Rightarrow> do {
               (v, T) \<leftarrow> rob_receive c T;
               T \<leftarrow> (if v \<noteq> uuid_nil then rob_release now v T else Some T);
               Some (uuid_nil, T)
             })
      | Some u \<Rightarrow>
          (case rb_Get (u_Stride (sc_userheap T u)) (sc_schedule T) of
             Some _ \<Rightarrow> do {
               let T = upd_user u (\<lambda>x. x\<lparr>u_Scheduled := False\<rparr>) T;
               schedule \<leftarrow> rb_Delete (u_Stride (sc_userheap T u)) (sc_schedule T);
               Some (uuid_nil, T\<lparr>sc_schedule := schedule, sc_cc := Pool_Put c (sc_cc T)\<rparr>)
             }
           | None \<Rightarrow> rob_receive c T))"

definition rob_Waiters :: "scheduler \<Rightarrow> nat" where
  "rob_Waiters T = length (filter (\<lambda>(i, u). u_Scheduled (sc_userheap T u)) (sc_users T))"

partial_function (option) rob_close_loop ::
  "(int, job) rbtree \<Rightarrow> (chan \<Rightarrow> chan_state) \<Rightarrow> ((int, job) rbtree \<times> (chan \<Rightarrow> chan_state)) option" where
  "rob_close_loop schedule chans =
     (case rb_Min schedule of
        None \<Rightarrow> Some (schedule, chans)
      | Some (stride, job) \<Rightarrow> do {
          schedule \<leftarrow> rb_Delete stride schedule;
          ch \<leftarrow> chan_close (chans (j_Ready job));
          rob_close_loop schedule (chans(j_Ready job := ch))
        })"

declare rob_close_loop.simps [code]

definition rob_Close :: "scheduler \<Rightarrow> scheduler option" where
  "rob_Close T =
     (if sc_closed T then Some T
      else do {
        (schedule, chans) \<leftarrow> rob_close_loop (sc_schedule T) (sc_chans T);
        Some (T\<lparr>sc_closed := True, sc_users := [], sc_workers := [], sc_schedule := schedule,
          sc_chans := chans, sc_queue := []\<rparr>)
      })"

section \<open>Clients\<close>

text \<open>
  The scheduler with its clients.  The protocol of the callers: worker and user ids are fresh
  (\<^verbatim>\<open>uuid.New()\<close>), a client acquires only when it neither waits nor holds a worker, and it releases what it
  holds.  A timeout may fire at any time while the client waits.  \<^verbatim>\<open>rob_race\<close> describes the one situation
  in which the code goes wrong: the slot of the client's stride holds the job of another client.
\<close>

record rob_sys =
  rs_sched :: scheduler
  rs_wait :: "uuid \<rightharpoonup> chan"
  rs_held :: "(uuid \<times> uuid) list"
  rs_workers :: "uuid set"
  rs_users :: "uuid set"

datatype rob_event =
    RAddWorker int uuid | RDeleteWorker uuid | RAddUser uuid | RDeleteUser uuid | RAcquire int uuid
  | RReceive uuid | RTimeout int uuid | RRelease int uuid uuid | RClose

definition rob_race :: "uuid \<Rightarrow> rob_sys \<Rightarrow> bool" where
  "rob_race t S =
     (case map_of (sc_users (rs_sched S)) t of
        None \<Rightarrow> False
      | Some u \<Rightarrow>
          (case rb_Get (u_Stride (sc_userheap (rs_sched S) u)) (sc_schedule (rs_sched S)) of
             None \<Rightarrow> False
           | Some j \<Rightarrow> j_User j \<noteq> u))"

fun rob_allowed :: "rob_event \<Rightarrow> rob_sys \<Rightarrow> bool" where
  "rob_allowed (RAddWorker now w) S = (w \<noteq> uuid_nil \<and> w \<notin> rs_workers S)"
| "rob_allowed (RDeleteWorker w) S = True"
| "rob_allowed (RAddUser t) S = (t \<notin> rs_users S)"
| "rob_allowed (RDeleteUser t) S = True"
| "rob_allowed (RAcquire now t) S = (rs_wait S t = None \<and> t \<notin> fst ` set (rs_held S))"
| "rob_allowed (RReceive t) S = (case rs_wait S t of None \<Rightarrow> False
     | Some c \<Rightarrow> chan_recv (sc_chans (rs_sched S) c) \<noteq> None)"
| "rob_allowed (RTimeout now t) S = (rs_wait S t \<noteq> None)"
| "rob_allowed (RRelease now t w) S = ((t, w) \<in> set (rs_held S))"
| "rob_allowed RClose S = True"

fun rob_enabled :: "rob_event \<Rightarrow> rob_sys \<Rightarrow> bool" where
  "rob_enabled (RTimeout now t) S = (rob_allowed (RTimeout now t) S \<and> \<not> rob_race t S)"
| "rob_enabled ev S = rob_allowed ev S"

definition rob_got :: "uuid \<Rightarrow> uuid \<Rightarrow> (uuid \<times> uuid) list \<Rightarrow> (uuid \<times> uuid) list" where
  "rob_got t v held = (if v = uuid_nil then held else (t, v) # held)"

fun rob_exec :: "rob_event \<Rightarrow> rob_sys \<Rightarrow> rob_sys option" where
  "rob_exec (RAddWorker now w) S = do {
     T \<leftarrow> AddWorker now w (rs_sched S);
     Some (S\<lparr>rs_sched := T, rs_workers := insert w (rs_workers S)\<rparr>)
   }"
| "rob_exec (RDeleteWorker w) S = do { T \<leftarrow> DeleteWorker w (rs_sched S); Some (S\<lparr>rs_sched := T\<rparr>) }"
| "rob_exec (RAddUser t) S = do {
     T \<leftarrow> AddUser t (rs_sched S);
     Some (S\<lparr>rs_sched := T, rs_users := insert t (rs_users S)\<rparr>)
   }"
| "rob_exec (RDeleteUser t) S = do { T \<leftarrow> DeleteUser t (rs_sched S); Some (S\<lparr>rs_sched := T\<rparr>) }"
| "rob_exec (RAcquire now t) S = do {
     ((v, c), T) \<leftarrow> rob_Acquire now t (rs_sched S);
     Some (S\<lparr>rs_sched := T, rs_wait := (rs_wait S)(t := c), rs_held := rob_got t v (rs_held S)\<rparr>)
   }"
| "rob_exec (RReceive t) S = do {
     c \<leftarrow> rs_wait S t;
     (v, T) \<leftarrow> rob_receive c (rs_sched S);
     Some (S\<lparr>rs_sched := T, rs_wait := (rs_wait S)(t := None), rs_held := rob_got t v (rs_held S)\<rparr>)
   }"
| "rob_exec (RTimeout now t) S = do {
     c \<leftarrow> rs_wait S t;
     (v, T) \<leftarrow> rob_timeout now t c (rs_sched S);
     Some (S\<lparr>rs_sched := T, rs_wait := (rs_wait S)(t := None), rs_held := rob_got t v (rs_held S)\<rparr>)
   }"
| "rob_exec (RRelease now t w) S = do {
     T \<leftarrow> rob_Release now w (rs_sched S);
     Some (S\<lparr>rs_sched := T, rs_held := remove1 (t, w) (rs_held S)\<rparr>)
   }"
| "rob_exec RClose S = do { T \<leftarrow> rob_Close (rs_sched S); Some (S\<lparr>rs_sched := T\<rparr>) }"

definition rob_init :: rob_sys where
  "rob_init = \<lparr>rs_sched = MakeScheduler, rs_wait = Map.empty, rs_held = [], rs_workers = {}, rs_users = {}\<rparr>"

abbreviation rob_reach :: "rob_sys \<Rightarrow> bool" where
  "rob_reach \<equiv> reachable rob_init rob_enabled rob_exec"

definition rob_at :: "rob_event list \<Rightarrow> rob_sys" where
  "rob_at evs = the (run_events rob_enabled rob_exec evs rob_init)"

section \<open>The invariant\<close>

text \<open>Jobs and users: a scheduled user has its job in the slot of its stride, and waits for it.\<close>

definition jobs_ok :: "(int \<rightharpoonup> job) \<Rightarrow> (uuid \<rightharpoonup> nat) \<Rightarrow> (nat \<Rightarrow> rob_user) \<Rightarrow> nat \<Rightarrow> (uuid \<rightharpoonup> chan) \<Rightarrow> uuid set \<Rightarrow> bool" where
  "jobs_ok sch users uh n wait used \<longleftrightarrow>
     (\<forall>k j. sch k = Some j \<longrightarrow>
        users (u_ID (uh (j_User j))) = Some (j_User j) \<and> u_Scheduled (uh (j_User j)) \<and>
        u_Stride (uh (j_User j)) = k \<and> wait (u_ID (uh (j_User j))) = Some (j_Ready j)) \<and>
     (\<forall>i u. users i = Some u \<longrightarrow> u < n \<and> u_ID (uh u) = i \<and> i \<in> used \<and>
        (u_Scheduled (uh u) \<longrightarrow> (\<exists>j. sch (u_Stride (uh u)) = Some j \<and> j_User j = u)))"

definition pending :: "(int \<rightharpoonup> job) \<Rightarrow> chan set" where
  "pending sch = j_Ready ` ran sch"

text \<open>Workers: those that are registered, and the idle ones among them.\<close>

definition workers_ok :: "(uuid \<rightharpoonup> nat) \<Rightarrow> (nat \<Rightarrow> rob_worker) \<Rightarrow> nat \<Rightarrow> nat list \<Rightarrow> bool" where
  "workers_ok workers wh n queue \<longleftrightarrow>
     (\<forall>i w. workers i = Some w \<longrightarrow> w < n \<and> w_ID (wh w) = i) \<and>
     (\<forall>w\<in>set queue. workers (w_ID (wh w)) = Some w)"

text \<open>A worker in use refers to the user that holds it or that it was sent to.\<close>

definition uses_ok :: "(uuid \<rightharpoonup> nat) \<Rightarrow> (nat \<Rightarrow> rob_worker) \<Rightarrow> (nat \<Rightarrow> rob_user) \<Rightarrow> nat \<Rightarrow> (uuid \<times> uuid) list \<Rightarrow>
    (uuid \<rightharpoonup> chan) \<Rightarrow> (chan \<Rightarrow> chan_state) \<Rightarrow> bool" where
  "uses_ok workers wh uh n held wait chans \<longleftrightarrow>
     (\<forall>i w u. workers i = Some w \<longrightarrow> w_User (wh w) = Some u \<longrightarrow> u < n \<and>
        ((u_ID (uh u), i) \<in> set held \<or>
         (\<exists>c. wait (u_ID (uh u)) = Some c \<and> i \<in> set (ch_buf (chans c)))))"

definition rob_inv :: "rob_sys \<Rightarrow> bool" where
  "rob_inv S \<longleftrightarrow>
     (let T = rs_sched S; sch = rb_map (sc_schedule T); users = map_of (sc_users T);
          workers = map_of (sc_workers T) in
      rb_inv (sc_schedule T) \<and>
      jobs_ok sch users (sc_userheap T) (sc_nextuser T) (rs_wait S) (rs_users S) \<and>
      chans_ok (pending sch) (sc_cc T) (sc_chans T) (sc_next T) (rs_wait S) \<and>
      servers_ok (dom workers) (map (\<lambda>w. w_ID (sc_workerheap T w)) (sc_queue T)) (map snd (rs_held S))
        (sc_chans T) (ran (rs_wait S)) (rs_workers S) \<and>
      workers_ok workers (sc_workerheap T) (sc_nextworker T) (sc_queue T) \<and>
      uses_ok workers (sc_workerheap T) (sc_userheap T) (sc_nextuser T) (rs_held S) (rs_wait S) (sc_chans T) \<and>
      dom (rs_wait S) \<inter> fst ` set (rs_held S) = {} \<and>
      (sc_queue T = [] \<or> sch = Map.empty) \<and>
      distinct (map fst (sc_users T)) \<and>
      (sc_closed T \<longrightarrow> sc_workers T = [] \<and> sc_users T = []))"

lemma rob_invD:
  assumes "rob_inv S"
  shows "rb_inv (sc_schedule (rs_sched S))"
    "jobs_ok (rb_map (sc_schedule (rs_sched S))) (map_of (sc_users (rs_sched S))) (sc_userheap (rs_sched S))
       (sc_nextuser (rs_sched S)) (rs_wait S) (rs_users S)"
    "chans_ok (pending (rb_map (sc_schedule (rs_sched S)))) (sc_cc (rs_sched S)) (sc_chans (rs_sched S))
       (sc_next (rs_sched S)) (rs_wait S)"
    "servers_ok (dom (map_of (sc_workers (rs_sched S))))
       (map (\<lambda>w. w_ID (sc_workerheap (rs_sched S) w)) (sc_queue (rs_sched S))) (map snd (rs_held S))
       (sc_chans (rs_sched S)) (ran (rs_wait S)) (rs_workers S)"
    "workers_ok (map_of (sc_workers (rs_sched S))) (sc_workerheap (rs_sched S)) (sc_nextworker (rs_sched S))
       (sc_queue (rs_sched S))"
    "uses_ok (map_of (sc_workers (rs_sched S))) (sc_workerheap (rs_sched S)) (sc_userheap (rs_sched S))
       (sc_nextuser (rs_sched S)) (rs_held S) (rs_wait S) (sc_chans (rs_sched S))"
    "dom (rs_wait S) \<inter> fst ` set (rs_held S) = {}"
    "sc_queue (rs_sched S) = [] \<or> rb_map (sc_schedule (rs_sched S)) = Map.empty"
    "distinct (map fst (sc_users (rs_sched S)))"
    "sc_closed (rs_sched S) \<longrightarrow> sc_workers (rs_sched S) = [] \<and> sc_users (rs_sched S) = []"
  using assms unfolding rob_inv_def Let_def by blast+

lemma rob_sys_order [simp]:
  "S\<lparr>rs_held := h, rs_sched := T\<rparr> = S\<lparr>rs_sched := T, rs_held := h\<rparr>"
  "S\<lparr>rs_workers := ws, rs_sched := T\<rparr> = S\<lparr>rs_sched := T, rs_workers := ws\<rparr>"
  "S\<lparr>rs_wait := wt, rs_sched := T\<rparr> = S\<lparr>rs_sched := T, rs_wait := wt\<rparr>"
  by simp_all

lemma rob_inv_init: "rob_inv rob_init"
  by (simp add: rob_inv_def rob_init_def MakeScheduler_def rb.empty jobs_ok_def chans_ok_def servers_ok_def
      wait_inj_def workers_ok_def uses_ok_def pending_def)

section \<open>Serving a job\<close>

lemma jobs_ok_user:
  assumes "jobs_ok sch users uh n wait used" "sch k = Some j"
  shows "users (u_ID (uh (j_User j))) = Some (j_User j)" "u_Scheduled (uh (j_User j))" "u_Stride (uh (j_User j)) = k"
    "wait (u_ID (uh (j_User j))) = Some (j_Ready j)" "j_User j < n"
  using assms unfolding jobs_ok_def by blast+

lemma jobs_ok_scheduled:
  assumes "jobs_ok sch users uh n wait used" "users i = Some u" "u_Scheduled (uh u)"
  shows "\<exists>j. sch (u_Stride (uh u)) = Some j \<and> j_User j = u"
  using assms unfolding jobs_ok_def by blast

lemma jobs_ok_id:
  assumes "jobs_ok sch users uh n wait used" "users i = Some u"
  shows "u < n" "u_ID (uh u) = i" "i \<in> used"
  using assms unfolding jobs_ok_def by blast+

lemma jobs_ok_pending:
  assumes "jobs_ok sch users uh n wait used" "sch k = Some j"
  shows "j_Ready j \<in> pending sch" "j_Ready j \<in> ran wait"
proof -
  show "j_Ready j \<in> pending sch" using assms(2) by (auto simp: pending_def ran_def)
  show "j_Ready j \<in> ran wait" using jobs_ok_user(4) [OF assms] by (rule ranI)
qed

lemma jobs_ok_same:
  assumes "jobs_ok sch users uh n wait used" "wait_inj wait" "sch k = Some j" "sch k' = Some j'"
    and "j_Ready j = j_Ready j'"
  shows "k = k'"
proof -
  have "u_ID (uh (j_User j)) = u_ID (uh (j_User j'))"
    using jobs_ok_user(4) [OF assms(1,3)] jobs_ok_user(4) [OF assms(1,4)] assms(2,5) by (auto simp: wait_inj_def)
  then have "j_User j = j_User j'"
    using jobs_ok_user(1) [OF assms(1,3)] jobs_ok_user(1) [OF assms(1,4)] by (metis option.inject)
  then show ?thesis using jobs_ok_user(3) [OF assms(1,3)] jobs_ok_user(3) [OF assms(1,4)] by metis
qed

lemma pending_delete:
  assumes "jobs_ok sch users uh n wait used" "wait_inj wait" "sch k = Some j"
  shows "pending (sch(k := None)) = pending sch - {j_Ready j}"
proof (intro set_eqI iffI)
  fix c assume "c \<in> pending (sch(k := None))"
  then obtain k' j' where "k' \<noteq> k" "sch k' = Some j'" "c = j_Ready j'"
    by (auto simp: pending_def ran_def split: if_splits)
  then show "c \<in> pending sch - {j_Ready j}"
    using jobs_ok_same [OF assms(1-3), of k' j'] by (auto simp: pending_def ran_def)
next
  fix c assume "c \<in> pending sch - {j_Ready j}"
  then obtain k' j' where "sch k' = Some j'" "c = j_Ready j'" "sch k \<noteq> Some j'"
    using assms(3) by (auto simp: pending_def ran_def)
  then have "(sch(k := None)) k' = Some j'" by auto
  then have "j' \<in> ran (sch(k := None))" by (rule ranI)
  then show "c \<in> pending (sch(k := None))" using \<open>c = j_Ready j'\<close> by (auto simp: pending_def)
qed

text \<open>The job leaves its slot and its user is not scheduled any more.\<close>

lemma jobs_ok_serve:
  assumes "jobs_ok sch users uh n wait used" "sch k = Some j"
    and "u_ID x = u_ID (uh (j_User j))" "\<not> u_Scheduled x"
  shows "jobs_ok (sch(k := None)) users (uh(j_User j := x)) n wait used"
proof -
  have "j_User j' \<noteq> j_User j" if "sch k' = Some j'" "k' \<noteq> k" for k' j'
    using jobs_ok_user(3) [OF assms(1,2)] jobs_ok_user(3) [OF assms(1) that(1)] that(2) by auto
  moreover have "u_Stride (uh u) \<noteq> k" if "users i = Some u" "u_Scheduled (uh u)" "u \<noteq> j_User j" for i u
  proof
    assume k: "u_Stride (uh u) = k"
    from jobs_ok_scheduled [OF assms(1) that(1,2)] assms(2) that(3) k show False by auto
  qed
  ultimately show ?thesis
    using assms(3,4) assms(1) [unfolded jobs_ok_def, THEN conjunct1] assms(1) [unfolded jobs_ok_def, THEN conjunct2]
    unfolding jobs_ok_def by (intro conjI allI impI) (simp_all split: if_splits)
qed

text \<open>A worker that nobody has.\<close>

definition rob_loose :: "uuid \<Rightarrow> rob_sys \<Rightarrow> bool" where
  "rob_loose i S \<longleftrightarrow> i \<in> rs_workers S \<and>
     i \<notin> set (map (\<lambda>w. w_ID (sc_workerheap (rs_sched S) w)) (sc_queue (rs_sched S))) \<and>
     i \<notin> snd ` set (rs_held S) \<and> (\<forall>c\<in>ran (rs_wait S). i \<notin> set (ch_buf (sc_chans (rs_sched S) c)))"

lemma uses_ok_serve:
  assumes "uses_ok workers wh uh n held wait chans" "workers_ok workers wh m queue" "workers i = Some w"
    and "wait (u_ID (uh u)) = Some c" "ch_buf (chans c) = []" "u < n" "u_ID x = u_ID (uh u)" "w_User y = Some u"
  shows "uses_ok workers (wh(w := y)) (uh(u := x)) n held wait (chans(c := \<lparr>ch_buf = [i], ch_closed = False\<rparr>))"
  unfolding uses_ok_def
proof (intro allI impI)
  fix i' w' u'
  assume a: "workers i' = Some w'" "w_User ((wh(w := y)) w') = Some u'"
  show "u' < n \<and> ((u_ID ((uh(u := x)) u'), i') \<in> set held \<or>
      (\<exists>c'. wait (u_ID ((uh(u := x)) u')) = Some c' \<and>
        i' \<in> set (ch_buf ((chans(c := \<lparr>ch_buf = [i], ch_closed = False\<rparr>)) c'))))"
  proof (cases "w' = w")
    case True
    have "w_ID (wh w) = i" "w_ID (wh w') = i'" using a(1) assms(2,3) by (auto simp: workers_ok_def)
    with True have "i' = i" "u' = u" using a(2) assms(8) by auto
    with assms(4,6,7) show ?thesis by auto
  next
    case False
    with a assms(1) have u: "u' < n" "(u_ID (uh u'), i') \<in> set held \<or>
        (\<exists>c'. wait (u_ID (uh u')) = Some c' \<and> i' \<in> set (ch_buf (chans c')))" by (auto simp: uses_ok_def)
    moreover have "u_ID ((uh(u := x)) u') = u_ID (uh u')" using assms(7) by simp
    moreover have "c' \<noteq> c" if "i' \<in> set (ch_buf (chans c'))" for c' using that assms(5) by auto
    ultimately show ?thesis by (metis fun_upd_other)
  qed
qed

lemma workers_ok_upd:
  assumes "workers_ok workers wh m queue" "w_ID y = w_ID (wh w)"
  shows "workers_ok workers (wh(w := y)) m queue"
  using assms by (auto simp: workers_ok_def)

lemma map_w_ID_upd:
  assumes "w_ID y = w_ID (wh w)"
  shows "map (\<lambda>v. w_ID ((wh(w := y)) v)) q = map (\<lambda>v. w_ID (wh v)) q"
  using assms by auto

lemma rob_dispatch_ok:
  assumes "rob_inv S" "rob_loose i S" "map_of (sc_workers (rs_sched S)) i = Some w"
  shows "\<exists>T'. rob_dispatch now w (rs_sched S) = Some T' \<and> rob_inv (S\<lparr>rs_sched := T'\<rparr>)"
proof -
  let ?T = "rs_sched S"
  note inv = rob_invD [OF assms(1)]
  have i: "w_ID (sc_workerheap ?T w) = i" using inv(5) assms(3) by (auto simp: workers_ok_def)
  show ?thesis
  proof (rule rb.least_cases [OF inv(1)])
    assume none: "rb_Min (sc_schedule ?T) = None" "rb_map (sc_schedule ?T) = Map.empty"
    have "servers_ok (dom (map_of (sc_workers ?T))) (map (\<lambda>w. w_ID (sc_workerheap ?T w)) (sc_queue ?T @ [w]))
        (map snd (rs_held S)) (sc_chans ?T) (ran (rs_wait S)) (rs_workers S)"
      using inv(4) assms(2,3) i by (auto simp: servers_ok_def rob_loose_def)
    moreover have "workers_ok (map_of (sc_workers ?T)) (sc_workerheap ?T) (sc_nextworker ?T) (sc_queue ?T @ [w])"
      using inv(5) assms(3) i by (auto simp: workers_ok_def)
    ultimately show ?thesis using none inv by (simp add: rob_dispatch_def rob_inv_def Let_def)
  next
    fix k j
    assume some: "rb_Min (sc_schedule ?T) = Some (k, j)" "rb_map (sc_schedule ?T) k = Some j"
    let ?x = "(sc_userheap ?T (j_User j))\<lparr>u_Worker := Some w, u_Scheduled := False\<rparr>"
    let ?y = "(sc_workerheap ?T w)\<lparr>w_Since := now, w_User := Some (j_User j)\<rparr>"
    let ?ch = "(sc_chans ?T)(j_Ready j := \<lparr>ch_buf = [i], ch_closed = False\<rparr>)"
    from rb.deleteE [OF inv(1), of k] obtain sch where
      d: "rb_Delete k (sc_schedule ?T) = Some sch" "rb_inv sch" "rb_map sch = (rb_map (sc_schedule ?T))(k := None)"
      by metis
    note ju = jobs_ok_user [OF inv(2) some(2)] and jp = jobs_ok_pending [OF inv(2) some(2)]
    have inj: "wait_inj (rs_wait S)" using inv(3) by (simp add: chans_ok_def)
    note snd = chans_ok_send [OF inv(3) jp(1), of i]
    have empty: "ch_buf (sc_chans ?T (j_Ready j)) = []"
      using inv(3) jp(1) by (auto simp: chans_ok_def chan_make_def)
    have q: "sc_queue ?T = []" using inv(8) some(2) by auto
    have "jobs_ok (rb_map sch) (map_of (sc_users ?T)) ((sc_userheap ?T)(j_User j := ?x)) (sc_nextuser ?T)
        (rs_wait S) (rs_users S)"
      unfolding d(3) by (rule jobs_ok_serve [OF inv(2) some(2)]) simp_all
    moreover have "chans_ok (pending (rb_map sch)) (sc_cc ?T) ?ch (sc_next ?T) (rs_wait S)"
      using snd(2) unfolding d(3) pending_delete [OF inv(2) inj some(2)] .
    moreover have "servers_ok (dom (map_of (sc_workers ?T))) [] (map snd (rs_held S)) ?ch (ran (rs_wait S)) (rs_workers S)"
      using servers_ok_send [OF inv(4), of i "j_Ready j"] assms(2) q by (simp add: rob_loose_def)
    moreover have "uses_ok (map_of (sc_workers ?T)) ((sc_workerheap ?T)(w := ?y)) ((sc_userheap ?T)(j_User j := ?x))
        (sc_nextuser ?T) (rs_held S) (rs_wait S) ?ch"
      by (rule uses_ok_serve [OF inv(6,5) assms(3) ju(4) empty ju(5)]) simp_all
    moreover have "workers_ok (map_of (sc_workers ?T)) ((sc_workerheap ?T)(w := ?y)) (sc_nextworker ?T) []"
      using workers_ok_upd [OF inv(5), of ?y w] q by simp
    ultimately show ?thesis
      using some d snd(1) inv(7,9,10) q i by (simp add: rob_dispatch_def rob_inv_def Let_def upd_user_def upd_worker_def)
  qed
qed

section \<open>Releasing a worker\<close>

lemma map_snd_remove1:
  "distinct (map snd xs) \<Longrightarrow> (t, i) \<in> set xs \<Longrightarrow> map snd (remove1 (t, i) xs) = remove1 i (map snd xs)"
  by (induction xs) (force simp: image_iff)+

lemma jobs_ok_upd:
  assumes "jobs_ok sch users uh n wait used"
    and "\<And>v. u_ID (uh' v) = u_ID (uh v)" "\<And>v. u_Scheduled (uh' v) = u_Scheduled (uh v)"
    and "\<And>i v. users i = Some v \<Longrightarrow> u_Scheduled (uh v) \<Longrightarrow> u_Stride (uh' v) = u_Stride (uh v)"
  shows "jobs_ok sch users uh' n wait used"
proof -
  have "u_Stride (uh' (j_User j)) = k" if "sch k = Some j" for k j
    using jobs_ok_user(1-3) [OF assms(1) that] assms(4) by metis
  then show ?thesis using assms(1,4) unfolding jobs_ok_def assms(2,3) by simp
qed

lemma uses_ok_upd:
  assumes "uses_ok workers wh uh n held wait chans" "\<And>v. u_ID (uh' v) = u_ID (uh v)"
    and "\<And>v. w_User (wh' v) = None \<or> w_User (wh' v) = w_User (wh v)"
  shows "uses_ok workers wh' uh' n held wait chans"
  using assms(1,3) unfolding uses_ok_def assms(2) by (metis option.distinct(1))

lemma workers_ok_same:
  assumes "workers_ok workers wh m queue" "\<And>v. w_ID (wh' v) = w_ID (wh v)"
  shows "workers_ok workers wh' m queue"
  using assms(1) unfolding workers_ok_def assms(2) .

lemma rob_settle_simps [simp]:
  "sc_workers (rob_settle now w T) = sc_workers T" "sc_closed (rob_settle now w T) = sc_closed T"
  "sc_queue (rob_settle now w T) = sc_queue T" "sc_chans (rob_settle now w T) = sc_chans T"
  "sc_schedule (rob_settle now w T) = sc_schedule T" "sc_users (rob_settle now w T) = sc_users T"
  "sc_cc (rob_settle now w T) = sc_cc T" "sc_next (rob_settle now w T) = sc_next T"
  "sc_nextuser (rob_settle now w T) = sc_nextuser T" "sc_nextworker (rob_settle now w T) = sc_nextworker T"
  "w_User (sc_workerheap (rob_settle now w T) w) = None"
  "w_ID (sc_workerheap (rob_settle now w T) v) = w_ID (sc_workerheap T v)"
  "u_ID (sc_userheap (rob_settle now w T) u) = u_ID (sc_userheap T u)"
  "u_Scheduled (sc_userheap (rob_settle now w T) u) = u_Scheduled (sc_userheap T u)"
  by (simp_all add: rob_settle_def upd_user_def upd_worker_def split: option.split)

lemma rob_settle_stride:
  "w_User (sc_workerheap T w) \<noteq> Some u \<Longrightarrow> u_Stride (sc_userheap (rob_settle now w T) u) = u_Stride (sc_userheap T u)"
  by (simp add: rob_settle_def upd_user_def upd_worker_def split: option.split)

lemma rob_settle_user:
  "w_User (sc_workerheap (rob_settle now w T) v) = None \<or>
   w_User (sc_workerheap (rob_settle now w T) v) = w_User (sc_workerheap T v)"
  by (simp add: rob_settle_def upd_user_def upd_worker_def split: option.split)

lemma rob_settle_ok:
  assumes "rob_inv S" "(t, i) \<in> set (rs_held S)" "map_of (sc_workers (rs_sched S)) i = Some w"
  shows "rob_inv (S\<lparr>rs_sched := rob_settle now w (rs_sched S)\<rparr>)"
proof -
  let ?T = "rs_sched S" and ?T' = "rob_settle now w (rs_sched S)"
  note inv = rob_invD [OF assms(1)]
  have "i \<in> snd ` set (rs_held S)" using assms(2) by force
  then have nb: "i \<notin> set (ch_buf (sc_chans ?T c))" if "rs_wait S v = Some c" for v c
    using servers_okD(2) [OF inv(4), of c i] ranI [of "rs_wait S" v c] that by auto
  have "w_User (sc_workerheap ?T w) \<noteq> Some u" if "map_of (sc_users ?T) v = Some u" "u_Scheduled (sc_userheap ?T u)" for v u
  proof
    assume "w_User (sc_workerheap ?T w) = Some u"
    with inv(6) assms(3) nb have "(u_ID (sc_userheap ?T u), i) \<in> set (rs_held S)" unfolding uses_ok_def by blast
    then have "rs_wait S (u_ID (sc_userheap ?T u)) = None" using inv(7) by force
    with jobs_ok_scheduled [OF inv(2) that] jobs_ok_user(4) [OF inv(2)] show False by fastforce
  qed
  then have "jobs_ok (rb_map (sc_schedule ?T)) (map_of (sc_users ?T)) (sc_userheap ?T') (sc_nextuser ?T)
      (rs_wait S) (rs_users S)"
    by (intro jobs_ok_upd [OF inv(2)]) (simp_all add: rob_settle_stride)
  moreover have "uses_ok (map_of (sc_workers ?T)) (sc_workerheap ?T') (sc_userheap ?T') (sc_nextuser ?T)
      (rs_held S) (rs_wait S) (sc_chans ?T)"
    by (rule uses_ok_upd [OF inv(6)]) (simp_all add: rob_settle_user)
  moreover have "workers_ok (map_of (sc_workers ?T)) (sc_workerheap ?T') (sc_nextworker ?T) (sc_queue ?T)"
    by (rule workers_ok_same [OF inv(5)]) simp
  ultimately show ?thesis using inv by (simp add: rob_inv_def Let_def)
qed

text \<open>The client lets go of a worker that refers to no user.\<close>

lemma rob_drop_ok:
  assumes "rob_inv S" "(t, i) \<in> set (rs_held S)"
    and "\<And>w. map_of (sc_workers (rs_sched S)) i = Some w \<Longrightarrow> w_User (sc_workerheap (rs_sched S) w) = None"
  shows "rob_inv (S\<lparr>rs_held := remove1 (t, i) (rs_held S)\<rparr>)" (is "rob_inv ?S")
    and "rob_loose i (S\<lparr>rs_held := remove1 (t, i) (rs_held S)\<rparr>)"
proof -
  let ?T = "rs_sched S"
  note inv = rob_invD [OF assms(1)]
  have d: "distinct (map snd (rs_held S))" using servers_okD(1) [OF inv(4)] by simp
  note m = map_snd_remove1 [OF d assms(2)]
  have i: "i \<in> set (map snd (rs_held S))" using assms(2) by force
  have notin: "i \<notin> set (remove1 i (map snd (rs_held S)))" using d by simp
  have sub: "set (remove1 (t, i) (rs_held S)) \<subseteq> set (rs_held S)" by (rule set_remove1_subset)
  have "servers_ok (dom (map_of (sc_workers ?T))) (map (\<lambda>w. w_ID (sc_workerheap ?T w)) (sc_queue ?T))
      (map snd (remove1 (t, i) (rs_held S))) (sc_chans ?T) (ran (rs_wait S)) (rs_workers S)"
    unfolding m using inv(4) by (auto simp: servers_ok_def dest: notin_set_remove1)
  moreover have "uses_ok (map_of (sc_workers ?T)) (sc_workerheap ?T) (sc_userheap ?T) (sc_nextuser ?T)
      (remove1 (t, i) (rs_held S)) (rs_wait S) (sc_chans ?T)"
    unfolding uses_ok_def
  proof (intro allI impI)
    fix i' w u assume a: "map_of (sc_workers ?T) i' = Some w" "w_User (sc_workerheap ?T w) = Some u"
    then have "i' \<noteq> i" using assms(3) by auto
    with inv(6) a show "u < sc_nextuser ?T \<and> ((u_ID (sc_userheap ?T u), i') \<in> set (remove1 (t, i) (rs_held S)) \<or>
        (\<exists>c. rs_wait S (u_ID (sc_userheap ?T u)) = Some c \<and> i' \<in> set (ch_buf (sc_chans ?T c))))"
      unfolding uses_ok_def by (metis in_set_remove1 prod.inject)
  qed
  moreover have "dom (rs_wait S) \<inter> fst ` set (remove1 (t, i) (rs_held S)) = {}" using inv(7) sub by blast
  ultimately show "rob_inv ?S" using inv by (simp add: rob_inv_def Let_def)
  have "i \<in> rs_workers S" using inv(4) i by (auto simp: servers_ok_def)
  moreover have "i \<notin> snd ` set (remove1 (t, i) (rs_held S))" using notin m by (metis set_map)
  moreover have "i \<notin> set (map (\<lambda>w. w_ID (sc_workerheap ?T w)) (sc_queue ?T))"
    using servers_okD(1) [OF inv(4)] i unfolding distinct_append by blast
  moreover have "i \<notin> set (ch_buf (sc_chans ?T c))" if "c \<in> ran (rs_wait S)" for c
    using servers_okD(2) [OF inv(4) that] i by blast
  ultimately show "rob_loose i ?S" unfolding rob_loose_def by simp
qed

lemma rob_release_ok:
  assumes "rob_inv S" "(t, i) \<in> set (rs_held S)"
  shows "\<exists>T'. rob_release now i (rs_sched S) = Some T' \<and>
    rob_inv (S\<lparr>rs_sched := T', rs_held := remove1 (t, i) (rs_held S)\<rparr>)"
proof (cases "map_of (sc_workers (rs_sched S)) i")
  case None
  then have "rob_release now i (rs_sched S) = Some (rs_sched S)" by (simp add: rob_release_def)
  moreover have "S\<lparr>rs_sched := rs_sched S, rs_held := h\<rparr> = S\<lparr>rs_held := h\<rparr>" for h by simp
  ultimately show ?thesis using rob_drop_ok(1) [OF assms] None by (metis option.distinct(1))
next
  case (Some w)
  let ?S = "S\<lparr>rs_sched := rob_settle now w (rs_sched S)\<rparr>"
  have open_: "\<not> sc_closed (rs_sched S)" using rob_invD(10) [OF assms(1)] Some by auto
  have "rob_inv ?S" using rob_settle_ok [OF assms Some] .
  from rob_drop_ok [OF this, of t i] assms(2) Some
  have "rob_inv (?S\<lparr>rs_held := remove1 (t, i) (rs_held S)\<rparr>)" "rob_loose i (?S\<lparr>rs_held := remove1 (t, i) (rs_held S)\<rparr>)"
    by simp_all
  from rob_dispatch_ok [OF this, of w now] Some open_ show ?thesis
    by (simp add: rob_release_def releaseWorker_def)
qed

section \<open>Workers come and go\<close>

lemma workers_okD:
  assumes "workers_ok workers wh n queue"
  shows "workers i = Some w \<Longrightarrow> w < n" "workers i = Some w \<Longrightarrow> w_ID (wh w) = i"
    and "v \<in> set queue \<Longrightarrow> workers (w_ID (wh v)) = Some v"
  using assms by (simp_all add: workers_ok_def)

lemma workers_ok_add:
  assumes "workers_ok workers wh n queue" "workers i = None" "w_ID y = i"
  shows "workers_ok (workers(i \<mapsto> n)) (wh(n := y)) (n + 1) queue"
  unfolding workers_ok_def
proof (intro conjI allI impI ballI)
  fix i' w assume "(workers(i \<mapsto> n)) i' = Some w"
  then have "i' = i \<and> w = n \<or> w < n \<and> w_ID (wh w) = i'"
    using workers_okD(1,2) [OF assms(1), of i' w] by (simp split: if_splits)
  with assms(3) show "w < n + 1" "w_ID ((wh(n := y)) w) = i'" by auto
next
  fix v assume "v \<in> set queue"
  note v = workers_okD(3) [OF assms(1) this]
  have "v \<noteq> n" "w_ID (wh v) \<noteq> i" using workers_okD(1) [OF assms(1) v] v assms(2) by auto
  with v show "(workers(i \<mapsto> n)) (w_ID ((wh(n := y)) v)) = Some v" by simp
qed

lemma workers_ok_remove:
  assumes "workers_ok workers wh n queue" "workers i = Some w" "v \<in> set queue" "v \<noteq> w"
  shows "(workers(i := None)) (w_ID (wh v)) = Some v"
  using workers_okD(3) [OF assms(1,3)] assms(2,4) by auto

lemma rob_AddWorker_ok:
  assumes "rob_inv S" "i \<noteq> uuid_nil" "i \<notin> rs_workers S"
  shows "\<exists>S'. rob_exec (RAddWorker now i) S = Some S' \<and> rob_inv S'"
proof (cases "sc_closed (rs_sched S)")
  case True
  have "servers_ok srv queue held chans R (insert i used)" if "servers_ok srv queue held chans R used"
    for srv queue held chans R used using that assms(2) by (auto simp: servers_ok_def)
  from this [OF rob_invD(4) [OF assms(1)]] have "rob_inv (S\<lparr>rs_workers := insert i (rs_workers S)\<rparr>)"
    using rob_invD [OF assms(1)] by (simp add: rob_inv_def Let_def)
  with True show ?thesis by (simp add: AddWorker_def)
next
  case False
  let ?T = "rs_sched S"
  let ?w = "sc_nextworker ?T"
  let ?T1 = "?T\<lparr>sc_nextworker := ?w + 1,
    sc_workerheap := (sc_workerheap ?T)(?w := \<lparr>w_ID = i, w_User = None, w_Since = 0\<rparr>),
    sc_workers := AList.update i ?w (sc_workers ?T)\<rparr>"
  let ?S = "S\<lparr>rs_sched := ?T1, rs_workers := insert i (rs_workers S)\<rparr>"
  note inv = rob_invD [OF assms(1)]
  have new: "v \<noteq> ?w" if "v \<in> set (sc_queue ?T)" for v
    using workers_okD(1) [OF inv(5) workers_okD(3) [OF inv(5) that]] by simp
  then have q: "map (\<lambda>v. w_ID (sc_workerheap ?T1 v)) (sc_queue ?T) = map (\<lambda>v. w_ID (sc_workerheap ?T v)) (sc_queue ?T)"
    by simp
  have fresh: "map_of (sc_workers ?T) i = None" using inv(4) assms(3) by (auto simp: servers_ok_def)
  have "servers_ok (dom (map_of (sc_workers ?T1))) (map (\<lambda>v. w_ID (sc_workerheap ?T1 v)) (sc_queue ?T))
      (map snd (rs_held S)) (sc_chans ?T) (ran (rs_wait S)) (insert i (rs_workers S))"
    unfolding q using inv(4) assms(2) by (auto simp: servers_ok_def update_conv')
  moreover have "workers_ok (map_of (sc_workers ?T1)) (sc_workerheap ?T1) (?w + 1) (sc_queue ?T)"
    using workers_ok_add [OF inv(5) fresh] by (simp add: update_conv')
  moreover have "uses_ok (map_of (sc_workers ?T1)) (sc_workerheap ?T1) (sc_userheap ?T) (sc_nextuser ?T)
      (rs_held S) (rs_wait S) (sc_chans ?T)"
    using inv(6) by (auto simp: uses_ok_def update_conv' split: if_splits)
  ultimately have "rob_inv ?S" using inv False by (simp add: rob_inv_def Let_def)
  moreover have "rob_loose i ?S"
    using servers_ok_fresh [OF inv(4) assms(3)] q unfolding rob_loose_def by (simp add: image_iff)
  moreover have "map_of (sc_workers ?T1) i = Some ?w" by (simp add: update_conv')
  ultimately have "\<exists>T'. rob_dispatch now ?w ?T1 = Some T' \<and> rob_inv (?S\<lparr>rs_sched := T'\<rparr>)"
    using rob_dispatch_ok [of ?S i ?w now] by simp
  moreover have "rob_settle now ?w ?T1 = ?T1" by (simp add: rob_settle_def)
  ultimately show ?thesis using False by (auto simp: AddWorker_def releaseWorker_def Let_def)
qed

lemma rob_DeleteWorker_ok:
  assumes "rob_inv S"
  shows "\<exists>S'. rob_exec (RDeleteWorker i) S = Some S' \<and> rob_inv S'"
proof (cases "sc_closed (rs_sched S) \<or> map_of (sc_workers (rs_sched S)) i = None")
  case True
  with assms show ?thesis by (auto simp: DeleteWorker_def split: option.split)
next
  case False
  let ?T = "rs_sched S"
  obtain w where w: "map_of (sc_workers ?T) i = Some w" using False by auto
  note inv = rob_invD [OF assms(1)]
  have d: "distinct (map (\<lambda>v. w_ID (sc_workerheap ?T v)) (sc_queue ?T))" using servers_okD(1) [OF inv(4)] by simp
  then have q: "set (remove1 w (sc_queue ?T)) = set (sc_queue ?T) - {w}" by (simp add: distinct_map)
  have "servers_ok (dom ((map_of (sc_workers ?T))(i := None)))
      (map (\<lambda>v. w_ID (sc_workerheap ?T v)) (remove1 w (sc_queue ?T)))
      (map snd (rs_held S)) (sc_chans ?T) (ran (rs_wait S)) (rs_workers S)"
  proof (rule servers_ok_sub [OF inv(4)])
    show "distinct (map (\<lambda>v. w_ID (sc_workerheap ?T v)) (remove1 w (sc_queue ?T)))"
      using d q by (simp add: distinct_map) (meson Diff_subset inj_on_subset)
    show "set (map (\<lambda>v. w_ID (sc_workerheap ?T v)) (remove1 w (sc_queue ?T))) \<subseteq>
        dom ((map_of (sc_workers ?T))(i := None))"
      using workers_ok_remove [OF inv(5) w] unfolding set_map q by blast
  qed (use inv(4) q in \<open>auto simp: servers_ok_def\<close>)
  moreover have "workers_ok ((map_of (sc_workers ?T))(i := None)) (sc_workerheap ?T) (sc_nextworker ?T) (remove1 w (sc_queue ?T))"
    using inv(5) workers_ok_remove [OF inv(5) w] unfolding workers_ok_def q by auto
  moreover have "uses_ok ((map_of (sc_workers ?T))(i := None)) (sc_workerheap ?T) (sc_userheap ?T) (sc_nextuser ?T)
      (rs_held S) (rs_wait S) (sc_chans ?T)"
    using inv(6) by (simp add: uses_ok_def)
  moreover have "remove1 w (sc_queue ?T) = [] \<or> rb_map (sc_schedule ?T) = Map.empty" using inv(8) by auto
  ultimately show ?thesis using inv False w
    by (simp add: DeleteWorker_def rob_inv_def Let_def slices_Delete_remove1 delete_conv')
qed

section \<open>Users come and go\<close>

lemma jobs_ok_add:
  assumes "jobs_ok sch users uh n wait used" "users i = None" "u_ID x = i" "\<not> u_Scheduled x"
  shows "jobs_ok sch (users(i \<mapsto> n)) (uh(n := x)) (n + 1) wait (insert i used)"
  unfolding jobs_ok_def
proof (intro conjI [of "\<forall>k j. _ k j"] allI impI)
  fix k j assume "sch k = Some j"
  note ju = jobs_ok_user [OF assms(1) this]
  have "j_User j \<noteq> n" "u_ID (uh (j_User j)) \<noteq> i" using ju(1,5) assms(2) by auto
  with ju show "(users(i \<mapsto> n)) (u_ID ((uh(n := x)) (j_User j))) = Some (j_User j) \<and>
      u_Scheduled ((uh(n := x)) (j_User j)) \<and> u_Stride ((uh(n := x)) (j_User j)) = k \<and>
      wait (u_ID ((uh(n := x)) (j_User j))) = Some (j_Ready j)" by simp
next
  fix i' u assume u: "(users(i \<mapsto> n)) i' = Some u"
  show "u < n + 1 \<and> u_ID ((uh(n := x)) u) = i' \<and> i' \<in> insert i used \<and>
      (u_Scheduled ((uh(n := x)) u) \<longrightarrow> (\<exists>j. sch (u_Stride ((uh(n := x)) u)) = Some j \<and> j_User j = u))"
  proof (cases "i' = i")
    case True
    with u assms(3,4) show ?thesis by auto
  next
    case False
    then have "users i' = Some u" using u by simp
    with jobs_ok_id [OF assms(1) this] jobs_ok_scheduled [OF assms(1) this] show ?thesis by auto
  qed
qed

lemma jobs_ok_used: "jobs_ok sch users uh n wait used \<Longrightarrow> jobs_ok sch users uh n wait (insert i used)"
  unfolding jobs_ok_def by blast

lemma uses_ok_new_user:
  assumes "uses_ok workers wh uh n held wait chans"
  shows "uses_ok workers wh (uh(n := x)) (n + 1) held wait chans"
  using assms unfolding uses_ok_def by (metis fun_upd_other less_SucI add.commute plus_1_eq_Suc nat_neq_iff)

lemma rob_AddUser_ok:
  assumes "rob_inv S" "t \<notin> rs_users S"
  shows "\<exists>S'. rob_exec (RAddUser t) S = Some S' \<and> rob_inv S'"
proof (cases "sc_closed (rs_sched S)")
  case True
  with jobs_ok_used [OF rob_invD(2) [OF assms(1)], of t] rob_invD [OF assms(1)]
  have "rob_inv (S\<lparr>rs_users := insert t (rs_users S)\<rparr>)" by (simp add: rob_inv_def Let_def)
  with True show ?thesis by (simp add: AddUser_def)
next
  case False
  let ?T = "rs_sched S"
  note inv = rob_invD [OF assms(1)]
  have none: "map_of (sc_users ?T) t = None" using jobs_ok_id(3) [OF inv(2)] assms(2) by (metis not_None_eq)
  have "distinct (map fst (AList.update t (sc_nextuser ?T) (sc_users ?T)))" using inv(9) by (rule distinct_update)
  with jobs_ok_add [OF inv(2) none] uses_ok_new_user [OF inv(6)] inv False show ?thesis
    by (simp add: AddUser_def rob_inv_def Let_def update_conv')
qed

text \<open>A user is removed: with its job, whose channel is closed, or without one.\<close>

lemma jobs_ok_forget:
  assumes "jobs_ok sch users uh n wait used" "users i = Some u" "\<not> u_Scheduled (uh u)"
  shows "jobs_ok sch (users(i := None)) uh n wait used"
proof -
  have "u_ID (uh (j_User j)) \<noteq> i" if "sch k = Some j" for k j
    using jobs_ok_user [OF assms(1) that] assms(2,3) by auto
  with assms(1) show ?thesis unfolding jobs_ok_def by simp
qed

lemma jobs_ok_cancel:
  assumes "jobs_ok sch users uh n wait used" "users i = Some u" "sch k = Some j" "j_User j = u"
  shows "jobs_ok (sch(k := None)) (users(i := None)) uh n wait used"
  unfolding jobs_ok_def
proof (intro conjI [of "\<forall>k j. _ k j"] allI impI)
  have i: "u_ID (uh u) = i" using jobs_ok_id(2) [OF assms(1,2)] .
  fix k' j' assume a: "(sch(k := None)) k' = Some j'"
  then have s: "sch k' = Some j'" "k' \<noteq> k" by (auto split: if_splits)
  note ju = jobs_ok_user [OF assms(1) s(1)]
  have "u_ID (uh (j_User j')) \<noteq> i"
    using ju(1,3) jobs_ok_user(3) [OF assms(1,3)] assms(2,4) s(2) by auto
  with ju show "(users(i := None)) (u_ID (uh (j_User j'))) = Some (j_User j') \<and> u_Scheduled (uh (j_User j')) \<and>
      u_Stride (uh (j_User j')) = k' \<and> wait (u_ID (uh (j_User j'))) = Some (j_Ready j')" by simp
next
  fix i' u' assume "(users(i := None)) i' = Some u'"
  then have s: "users i' = Some u'" "i' \<noteq> i" by (auto split: if_splits)
  have "u' \<noteq> u" using jobs_ok_id(2) [OF assms(1) s(1)] jobs_ok_id(2) [OF assms(1,2)] s(2) by auto
  then have "(sch(k := None)) (u_Stride (uh u')) = sch (u_Stride (uh u'))" if "u_Scheduled (uh u')"
    using jobs_ok_scheduled [OF assms(1) s(1) that] assms(3,4) by auto
  with jobs_ok_id [OF assms(1) s(1)] jobs_ok_scheduled [OF assms(1) s(1)]
  show "u' < n \<and> u_ID (uh u') = i' \<and> i' \<in> used \<and>
      (u_Scheduled (uh u') \<longrightarrow> (\<exists>j. (sch(k := None)) (u_Stride (uh u')) = Some j \<and> j_User j = u'))" by simp
qed

lemma rob_DeleteUser_ok:
  assumes "rob_inv S"
  shows "\<exists>S'. rob_exec (RDeleteUser t) S = Some S' \<and> rob_inv S'"
proof (cases "sc_closed (rs_sched S) \<or> map_of (sc_users (rs_sched S)) t = None")
  case True
  with assms show ?thesis by (auto simp: DeleteUser_def split: option.split)
next
  case False
  let ?T = "rs_sched S"
  obtain u where u: "map_of (sc_users ?T) t = Some u" using False by auto
  note inv = rob_invD [OF assms]
  have dist: "distinct (map fst (AList.delete t (sc_users ?T)))" using inv(9) by (rule distinct_delete)
  show ?thesis
  proof (cases "u_Scheduled (sc_userheap ?T u)")
    case unscheduled: False
    from jobs_ok_forget [OF inv(2) u this] inv False u this dist show ?thesis
      by (simp add: DeleteUser_def rob_inv_def Let_def delete_conv')
  next
    case True
    let ?k = "u_Stride (sc_userheap ?T u)"
    obtain j where j: "rb_map (sc_schedule ?T) ?k = Some j" "j_User j = u"
      using jobs_ok_scheduled [OF inv(2) u True] by (elim exE conjE) rule
    have get: "rb_Get ?k (sc_schedule ?T) = Some j" using j rb.get [OF inv(1)] by simp
    from rb.deleteE [OF inv(1), of ?k] obtain sch where
      d: "rb_Delete ?k (sc_schedule ?T) = Some sch" "rb_inv sch" "rb_map sch = (rb_map (sc_schedule ?T))(?k := None)"
      by metis
    have inj: "wait_inj (rs_wait S)" using inv(3) by (simp add: chans_ok_def)
    note cl = chans_ok_close [OF inv(3) jobs_ok_pending(1) [OF inv(2) j(1)]]
    let ?ch = "(sc_chans ?T)(j_Ready j := \<lparr>ch_buf = [], ch_closed = True\<rparr>)"
    have buf: "ch_buf (sc_chans ?T (j_Ready j)) = []"
      using inv(3) jobs_ok_pending(1) [OF inv(2) j(1)] by (auto simp: chans_ok_def chan_make_def)
    then have same: "ch_buf (?ch c) = ch_buf (sc_chans ?T c)" for c by simp
    have "servers_ok srv q h ?ch R used" if "servers_ok srv q h (sc_chans ?T) R used" for srv q h R used
      using that unfolding servers_ok_def same .
    moreover have "uses_ok ws wh uh n h wt ?ch" if "uses_ok ws wh uh n h wt (sc_chans ?T)" for ws wh uh n h wt
      using that unfolding uses_ok_def same .
    moreover have "pending (rb_map sch) = pending (rb_map (sc_schedule ?T)) - {j_Ready j}"
      unfolding d(3) by (rule pending_delete [OF inv(2) inj j(1)])
    moreover have "sc_queue ?T = []" using inv(8) j(1) by auto
    ultimately show ?thesis using False True u get d cl jobs_ok_cancel [OF inv(2) u j] dist inv
      by (simp add: DeleteUser_def rob_inv_def Let_def delete_conv')
  qed
qed

section \<open>Acquiring a worker\<close>

text \<open>The search for a slot ends, at the first free one.\<close>

lemma rob_slot_ok:
  assumes "rb_inv sch"
  shows "\<exists>k. rob_slot s sch = Some k \<and> s \<le> k \<and> rb_map sch k = None"
proof (induction "card {x \<in> dom (rb_map sch). s \<le> x}" arbitrary: s rule: less_induct)
  case less
  show ?case
  proof (cases "rb_Get s sch")
    case None
    then show ?thesis using rb.get [OF assms, of s] by (subst rob_slot.simps) simp
  next
    case (Some j)
    then have "s \<in> dom (rb_map sch)" using rb.get [OF assms, of s] by auto
    moreover have "finite {x \<in> dom (rb_map sch). s \<le> x}" using rb.finite_contents [OF assms] by simp
    moreover have "s \<notin> {x \<in> dom (rb_map sch). s + 1 \<le> x}"
      "{x \<in> dom (rb_map sch). s + 1 \<le> x} \<subseteq> {x \<in> dom (rb_map sch). s \<le> x}" by auto
    ultimately have "card {x \<in> dom (rb_map sch). s + 1 \<le> x} < card {x \<in> dom (rb_map sch). s \<le> x}"
      by (intro psubset_card_mono psubsetI) blast+
    from less [OF this] obtain k where "rob_slot (s + 1) sch = Some k" "s + 1 \<le> k" "rb_map sch k = None" by blast
    with Some show ?thesis by (subst rob_slot.simps) simp
  qed
qed

lemma jobs_ok_schedule:
  assumes "jobs_ok sch users uh n wait used" "users i = Some u" "wait i = None" "sch k = None"
    and "u_ID x = i" "u_Scheduled x" "u_Stride x = k"
  shows "jobs_ok (sch(k \<mapsto> \<lparr>j_User = u, j_Ready = c\<rparr>)) users (uh(u := x)) n (wait(i \<mapsto> c)) used"
  unfolding jobs_ok_def
proof (intro conjI [of "\<forall>k j. _ k j"] allI impI)
  fix k' j assume a: "(sch(k \<mapsto> \<lparr>j_User = u, j_Ready = c\<rparr>)) k' = Some j"
  show "users (u_ID ((uh(u := x)) (j_User j))) = Some (j_User j) \<and> u_Scheduled ((uh(u := x)) (j_User j)) \<and>
      u_Stride ((uh(u := x)) (j_User j)) = k' \<and> (wait(i \<mapsto> c)) (u_ID ((uh(u := x)) (j_User j))) = Some (j_Ready j)"
  proof (cases "k' = k")
    case True
    with a assms(2,5-7) show ?thesis by auto
  next
    case False
    then have "sch k' = Some j" using a by simp
    note ju = jobs_ok_user [OF assms(1) this]
    have "u_ID (uh (j_User j)) \<noteq> i" "j_User j \<noteq> u" using ju(4) assms(3) jobs_ok_id(2) [OF assms(1,2)] by auto
    with ju show ?thesis by simp
  qed
next
  fix i' u' assume a: "users i' = Some u'"
  have "sch (u_Stride (uh u')) \<noteq> None" if "u_Scheduled (uh u')"
    using jobs_ok_scheduled [OF assms(1) a that] by auto
  then have "u_Scheduled (uh u') \<Longrightarrow> u_Stride (uh u') \<noteq> k" using assms(4) by auto
  with jobs_ok_id [OF assms(1) a] jobs_ok_scheduled [OF assms(1) a] jobs_ok_id(2) [OF assms(1,2)] assms(5,7)
  show "u' < n \<and> u_ID ((uh(u := x)) u') = i' \<and> i' \<in> used \<and> (u_Scheduled ((uh(u := x)) u') \<longrightarrow>
      (\<exists>j. (sch(k \<mapsto> \<lparr>j_User = u, j_Ready = c\<rparr>)) (u_Stride ((uh(u := x)) u')) = Some j \<and> j_User j = u'))"
    by auto
qed

lemma pending_insert: "sch k = None \<Longrightarrow> pending (sch(k \<mapsto> j)) = insert (j_Ready j) (pending sch)"
  by (auto simp: pending_def)

lemma uses_ok_wait:
  assumes "uses_ok workers wh uh n held wait chans" "wait i = None" "\<And>v. u_ID (uh' v) = u_ID (uh v)"
    and "\<And>c. c \<in> ran wait \<Longrightarrow> chans' c = chans c"
  shows "uses_ok workers wh uh' n held (wait(i \<mapsto> c)) chans'"
  unfolding uses_ok_def assms(3)
proof (intro allI impI)
  fix i' w u assume "workers i' = Some w" "w_User (wh w) = Some u"
  with assms(1) have "u < n" "(u_ID (uh u), i') \<in> set held \<or> (\<exists>c. wait (u_ID (uh u)) = Some c \<and> i' \<in> set (ch_buf (chans c)))"
    by (auto simp: uses_ok_def)
  moreover have "u_ID (uh u) \<noteq> i" if "wait (u_ID (uh u)) = Some c" for c using that assms(2) by auto
  moreover have "chans' c = chans c" if "wait (u_ID (uh u)) = Some c" for c using that assms(4) ranI by metis
  ultimately show "u < n \<and> ((u_ID (uh u), i') \<in> set held \<or>
      (\<exists>c'. (wait(i \<mapsto> c)) (u_ID (uh u)) = Some c' \<and> i' \<in> set (ch_buf (chans' c'))))" by (metis fun_upd_other)
qed

lemma uses_ok_take:
  assumes "uses_ok workers wh uh n held wait chans" "workers_ok workers wh m (q @ [w])"
    and "u < n" "u_ID (uh u) = t" "\<And>v. u_ID (uh' v) = u_ID (uh v)" "w_User y = Some u"
  shows "uses_ok workers (wh(w := y)) uh' n ((t, w_ID (wh w)) # held) wait chans"
  unfolding uses_ok_def assms(5)
proof (intro allI impI)
  fix i' w' u' assume a: "workers i' = Some w'" "w_User ((wh(w := y)) w') = Some u'"
  show "u' < n \<and> ((u_ID (uh u'), i') \<in> set ((t, w_ID (wh w)) # held) \<or>
      (\<exists>c. wait (u_ID (uh u')) = Some c \<and> i' \<in> set (ch_buf (chans c))))"
  proof (cases "w' = w")
    case True
    with a assms(3,4,6) workers_okD(2) [OF assms(2) a(1)] show ?thesis by auto
  next
    case False
    with a assms(1) show ?thesis by (auto simp: uses_ok_def)
  qed
qed

text \<open>A client starts to wait: the channel, the slot and the state afterwards.\<close>

lemma rob_Acquire_wait:
  assumes "rob_inv S" "rs_wait S t = None" "t \<notin> fst ` set (rs_held S)"
    and "\<not> sc_closed (rs_sched S)" "map_of (sc_users (rs_sched S)) t = Some u" "sc_queue (rs_sched S) = []"
  shows "\<exists>S'. rob_exec (RAcquire now t) S = Some S' \<and> rob_inv S'"
proof -
  let ?T = "rs_sched S"
  note inv = rob_invD [OF assms(1)]
  let ?start = "if u_Stride (sc_userheap ?T u) < sc_floor ?T then sc_floor ?T else u_Stride (sc_userheap ?T u)"
  from rob_slot_ok [OF inv(1), of ?start] obtain k where
    k: "rob_slot ?start (sc_schedule ?T) = Some k" "rb_map (sc_schedule ?T) k = None" by (elim exE conjE) rule
  let ?x = "(sc_userheap ?T u)\<lparr>u_Stride := k, u_Scheduled := True\<rparr>"
  have next_ok: "rob_inv (S\<lparr>rs_sched := upd_user u (\<lambda>x. x\<lparr>u_Stride := k, u_Scheduled := True\<rparr>)
      (?T\<lparr>sc_cc := P, sc_next := n, sc_chans := chans, sc_schedule := sch\<rparr>), rs_wait := (rs_wait S)(t \<mapsto> c)\<rparr>)"
    if ch: "chans_ok (insert c (pending (rb_map (sc_schedule ?T)))) P chans n ((rs_wait S)(t \<mapsto> c))"
      "\<And>d. d \<in> ran (rs_wait S) \<Longrightarrow> chans d = sc_chans ?T d" "chans c = chan_make"
      and sch: "rb_inv sch" "rb_map sch = (rb_map (sc_schedule ?T))(k \<mapsto> \<lparr>j_User = u, j_Ready = c\<rparr>)" for P n chans sch c
  proof -
    have "jobs_ok (rb_map sch) (map_of (sc_users ?T)) ((sc_userheap ?T)(u := ?x)) (sc_nextuser ?T)
        ((rs_wait S)(t \<mapsto> c)) (rs_users S)"
      unfolding sch(2) using jobs_ok_id(2) [OF inv(2) assms(5)]
      by (intro jobs_ok_schedule [OF inv(2) assms(5,2) k(2)]) simp_all
    moreover have "pending (rb_map sch) = insert c (pending (rb_map (sc_schedule ?T)))"
      unfolding sch(2) by (simp add: pending_insert [of "rb_map (sc_schedule ?T)" k] k(2))
    moreover have "ran ((rs_wait S)(t \<mapsto> c)) = insert c (ran (rs_wait S))" using assms(2) by simp
    moreover have "servers_ok (dom (map_of (sc_workers ?T))) [] (map snd (rs_held S)) chans
        (insert c (ran (rs_wait S))) (rs_workers S)"
      using inv(4) assms(6) ch(2,3) by (auto simp: servers_ok_def chan_make_def)
    moreover have "uses_ok (map_of (sc_workers ?T)) (sc_workerheap ?T) ((sc_userheap ?T)(u := ?x)) (sc_nextuser ?T)
        (rs_held S) ((rs_wait S)(t \<mapsto> c)) chans"
      by (rule uses_ok_wait [OF inv(6) assms(2) _ ch(2)]) simp_all
    moreover have "dom ((rs_wait S)(t \<mapsto> c)) \<inter> fst ` set (rs_held S) = {}" using inv(7) assms(3) by auto
    ultimately show ?thesis using inv sch(1) ch(1) assms(4,6) by (simp add: rob_inv_def Let_def upd_user_def)
  qed
  show ?thesis
  proof (rule Pool_Get_cases [of "sc_cc ?T"])
    fix c Q assume g: "Pool_Get (sc_cc ?T) = (Some c, Q)" "sc_cc ?T = Q @ [c]"
    note ch = chans_ok_wait_free [OF inv(3) [unfolded g(2)] assms(2)]
    from rb.setE [OF inv(1), of k "\<lparr>j_User = u, j_Ready = c\<rparr>"] obtain sch where
      s: "rb_Set k \<lparr>j_User = u, j_Ready = c\<rparr> (sc_schedule ?T) = Some sch" "rb_inv sch"
      "rb_map sch = (rb_map (sc_schedule ?T))(k \<mapsto> \<lparr>j_User = u, j_Ready = c\<rparr>)" by metis
    from next_ok [OF ch(1) _ ch(3) s(2,3)] show ?thesis
      using assms(4-6) g k s(1) by (simp add: rob_Acquire_def rob_got_def upd_user_def cong: if_cong)
  next
    assume g: "Pool_Get (sc_cc ?T) = (None, [])" "sc_cc ?T = []"
    let ?c = "sc_next ?T"
    note ch = chans_ok_wait_new [OF inv(3) [unfolded g(2)] assms(2)]
    from rb.setE [OF inv(1), of k "\<lparr>j_User = u, j_Ready = ?c\<rparr>"] obtain sch where
      s: "rb_Set k \<lparr>j_User = u, j_Ready = ?c\<rparr> (sc_schedule ?T) = Some sch" "rb_inv sch"
      "rb_map sch = (rb_map (sc_schedule ?T))(k \<mapsto> \<lparr>j_User = u, j_Ready = ?c\<rparr>)" by metis
    have "((sc_chans ?T)(?c := chan_make)) d = sc_chans ?T d" if "d \<in> ran (rs_wait S)" for d
      using that ch(2) by auto
    from next_ok [where chans = "(sc_chans ?T)(?c := chan_make)", OF ch(1) this _ s(2,3)] show ?thesis
      using assms(4-6) g k s(1) by (simp add: rob_Acquire_def rob_got_def upd_user_def cong: if_cong)
  qed
qed

lemma rob_Acquire_ok:
  assumes "rob_inv S" "rs_wait S t = None" "t \<notin> fst ` set (rs_held S)"
  shows "\<exists>S'. rob_exec (RAcquire now t) S = Some S' \<and> rob_inv S'"
proof -
  let ?T = "rs_sched S"
  note inv = rob_invD [OF assms(1)]
  have same: "(rs_wait S)(t := None) = rs_wait S" using assms(2) by (rule fun_upd_idem)
  consider (no) "sc_closed ?T \<or> map_of (sc_users ?T) t = None"
    | (idle) u q w where "\<not> sc_closed ?T" "map_of (sc_users ?T) t = Some u" "sc_queue ?T = q @ [w]"
    | (wait) u where "\<not> sc_closed ?T" "map_of (sc_users ?T) t = Some u" "sc_queue ?T = []"
    by (cases "sc_queue ?T" rule: rev_cases; cases "map_of (sc_users ?T) t") auto
  then show ?thesis
  proof cases
    case no
    then have "rob_Acquire now t ?T = Some ((uuid_nil, None), ?T)" by (auto simp: rob_Acquire_def split: option.split)
    then show ?thesis using assms(1) same by (simp add: rob_got_def)
  next
    case idle
    let ?x = "(sc_userheap ?T u)\<lparr>u_Worker := Some w\<rparr>" and ?i = "w_ID (sc_workerheap ?T w)"
    let ?y = "(sc_workerheap ?T w)\<lparr>w_User := Some u, w_Since := now\<rparr>"
    note uid = jobs_ok_id [OF inv(2) idle(2)]
    have srv: "servers_ok (dom (map_of (sc_workers ?T))) (map (\<lambda>v. w_ID (sc_workerheap ?T v)) q @ [?i])
        (map snd (rs_held S)) (sc_chans ?T) (ran (rs_wait S)) (rs_workers S)" using inv(4) idle(3) by simp
    note take = servers_ok_take [OF srv]
    have "jobs_ok (rb_map (sc_schedule ?T)) (map_of (sc_users ?T)) ((sc_userheap ?T)(u := ?x)) (sc_nextuser ?T)
        (rs_wait S) (rs_users S)"
      by (rule jobs_ok_upd [OF inv(2)]) simp_all
    moreover have "servers_ok (dom (map_of (sc_workers ?T))) (map (\<lambda>v. w_ID (((sc_workerheap ?T)(w := ?y)) v)) q)
        (?i # map snd (rs_held S)) (sc_chans ?T) (ran (rs_wait S)) (rs_workers S)"
      by (subst map_w_ID_upd) (use take(1) in simp_all)
    moreover have "uses_ok (map_of (sc_workers ?T)) ((sc_workerheap ?T)(w := ?y)) ((sc_userheap ?T)(u := ?x))
        (sc_nextuser ?T) ((t, ?i) # rs_held S) (rs_wait S) (sc_chans ?T)"
      by (rule uses_ok_take [OF inv(6) _ uid(1,2)]) (use inv(5) idle(3) in simp_all)
    moreover have "workers_ok (map_of (sc_workers ?T)) ((sc_workerheap ?T)(w := ?y)) (sc_nextworker ?T) q"
      using workers_ok_upd [OF inv(5), of ?y w] idle(3) by (simp add: workers_ok_def)
    moreover have "dom (rs_wait S) \<inter> fst ` set ((t, ?i) # rs_held S) = {}" using inv(7) assms(2) by auto
    moreover have "rb_map (sc_schedule ?T) = Map.empty" using inv(8) idle(3) by simp
    ultimately show ?thesis using idle inv(1,3,9) take(2) same
      by (simp add: rob_Acquire_def rob_inv_def Let_def upd_user_def upd_worker_def rob_got_def)
  next
    case wait
    then show ?thesis using rob_Acquire_wait [OF assms wait] by simp
  qed
qed

section \<open>Receiving, giving up, closing\<close>

lemma jobs_ok_unwait:
  assumes "jobs_ok sch users uh n wait used" "\<And>k j. sch k = Some j \<Longrightarrow> u_ID (uh (j_User j)) \<noteq> t"
  shows "jobs_ok sch users uh n (wait(t := None)) used"
  using assms unfolding jobs_ok_def by (simp add: fun_upd_apply)

text \<open>The job of a waiting client, if it has one, is in the slot of its user's stride.\<close>

lemma jobs_ok_own:
  assumes "jobs_ok sch users uh n wait used" "wait_inj wait" "wait t = Some c" "c \<in> pending sch"
  obtains u j where "users t = Some u" "sch (u_Stride (uh u)) = Some j" "j_User j = u" "j_Ready j = c"
proof -
  from assms(4) obtain k j where j: "sch k = Some j" "j_Ready j = c" by (auto simp: pending_def ran_def)
  note ju = jobs_ok_user [OF assms(1) j(1)]
  have "u_ID (uh (j_User j)) = t" using ju(4) assms(2,3) j(2) by (auto simp: wait_inj_def)
  with ju j that show thesis by metis
qed

lemma uses_ok_recv:
  assumes "uses_ok workers wh uh n held wait chans" "wait t = Some c" "wait_inj wait"
  shows "ch_buf (chans c) = [] \<Longrightarrow> uses_ok workers wh uh n held (wait(t := None)) chans"
    and "ch_buf (chans c) = [s] \<Longrightarrow> uses_ok workers wh uh n ((t, s) # held) (wait(t := None)) (chans(c := chan_make))"
proof -
  have other: "d \<noteq> c" if "wait v = Some d" "v \<noteq> t" for v d using that assms(2,3) by (auto simp: wait_inj_def)
  show "uses_ok workers wh uh n held (wait(t := None)) chans" if b: "ch_buf (chans c) = []"
    using assms(1,2) b unfolding uses_ok_def by (metis fun_upd_other list.set(1) empty_iff option.inject)
  show "uses_ok workers wh uh n ((t, s) # held) (wait(t := None)) (chans(c := chan_make))" if b: "ch_buf (chans c) = [s]"
    unfolding uses_ok_def
  proof (intro allI impI)
    fix i w u assume "workers i = Some w" "w_User (wh w) = Some u"
    with assms(1) have u: "u < n" "(u_ID (uh u), i) \<in> set held \<or>
        (\<exists>c. wait (u_ID (uh u)) = Some c \<and> i \<in> set (ch_buf (chans c)))" by (auto simp: uses_ok_def)
    show "u < n \<and> ((u_ID (uh u), i) \<in> set ((t, s) # held) \<or>
        (\<exists>d. (wait(t := None)) (u_ID (uh u)) = Some d \<and> i \<in> set (ch_buf ((chans(c := chan_make)) d))))"
    proof (cases "u_ID (uh u) = t")
      case True
      with u assms(2) b show ?thesis by auto
    next
      case False
      with u other [OF _ False] show ?thesis by auto
    qed
  qed
qed

lemma rob_receive_ok:
  assumes "rob_inv S" "rs_wait S t = Some c" "c \<notin> pending (rb_map (sc_schedule (rs_sched S)))"
  shows "\<exists>v T'. rob_receive c (rs_sched S) = Some (v, T') \<and>
    rob_inv (S\<lparr>rs_sched := T', rs_wait := (rs_wait S)(t := None), rs_held := rob_got t v (rs_held S)\<rparr>)"
proof -
  let ?T = "rs_sched S"
  note inv = rob_invD [OF assms(1)]
  have inj: "wait_inj (rs_wait S)" using inv(3) by (simp add: chans_ok_def)
  have r: "ran ((rs_wait S)(t := None)) = ran (rs_wait S) - {c}" using assms(2) inj by (rule ran_forget)
  have c: "c \<in> ran (rs_wait S)" using assms(2) by (rule ranI)
  have "u_ID (sc_userheap ?T (j_User j)) \<noteq> t" if "rb_map (sc_schedule ?T) k = Some j" for k j
    using jobs_ok_user(4) [OF inv(2) that] jobs_ok_pending(1) [OF inv(2) that] assms(2,3) by auto
  note jobs = jobs_ok_unwait [OF inv(2) this]
  have dm: "dom ((rs_wait S)(t := None)) \<inter> fst ` set (rob_got t v (rs_held S)) = {}" for v
    using inv(7) by (auto simp: rob_got_def)
  note uses = uses_ok_recv [OF inv(6) assms(2) inj]
  from chans_ok_recv [OF inv(3) assms(2,3)] show ?thesis
  proof (elim disjE exE conjE)
    assume a: "chan_recv (sc_chans ?T c) = Some (uuid_nil, False, sc_chans ?T c)" "ch_buf (sc_chans ?T c) = []"
      "chans_ok (pending (rb_map (sc_schedule ?T))) (sc_cc ?T) (sc_chans ?T) (sc_next ?T) ((rs_wait S)(t := None))"
    have "servers_ok (dom (map_of (sc_workers ?T))) (map (\<lambda>w. w_ID (sc_workerheap ?T w)) (sc_queue ?T))
        (map snd (rs_held S)) (sc_chans ?T) (ran (rs_wait S) - {c}) (rs_workers S)"
      by (rule servers_ok_fewer [OF inv(4)]) blast
    with a uses(1) jobs dm [of uuid_nil] r inv show ?thesis
      by (simp add: rob_receive_def rob_inv_def Let_def rob_got_def)
  next
    fix s
    assume a: "chan_recv (sc_chans ?T c) = Some (s, True, chan_make)" "ch_buf (sc_chans ?T c) = [s]"
      "chans_ok (pending (rb_map (sc_schedule ?T))) (sc_cc ?T @ [c]) ((sc_chans ?T)(c := chan_make)) (sc_next ?T)
        ((rs_wait S)(t := None))"
    have nz: "s \<noteq> uuid_nil" using inv(4) c a(2) by (force simp: servers_ok_def)
    from servers_ok_recv [OF inv(4) c a(2)] nz a uses(2) [of s] jobs dm [of s] r inv show ?thesis
      by (simp add: rob_receive_def rob_inv_def Let_def rob_got_def client_got_def Pool_Put_def)
  qed
qed

lemma rob_Receive_ok:
  assumes "rob_inv S" "rob_allowed (RReceive t) S"
  shows "\<exists>S'. rob_exec (RReceive t) S = Some S' \<and> rob_inv S'"
proof -
  obtain c where c: "rs_wait S t = Some c" "chan_recv (sc_chans (rs_sched S) c) \<noteq> None"
    using assms(2) by (auto split: option.splits)
  have "c \<notin> pending (rb_map (sc_schedule (rs_sched S)))"
    using c(2) rob_invD(3) [OF assms(1)] by (auto simp: chans_ok_def chan_recv_def chan_make_def)
  from rob_receive_ok [OF assms(1) c(1) this] c(1) show ?thesis by auto
qed

lemma rob_Timeout_ok:
  assumes "rob_inv S" "rs_wait S t \<noteq> None" "\<not> rob_race t S"
  shows "\<exists>S'. rob_exec (RTimeout now t) S = Some S' \<and> rob_inv S'"
proof -
  let ?T = "rs_sched S" and ?sch = "rb_map (sc_schedule (rs_sched S))"
  note inv = rob_invD [OF assms(1)]
  obtain c where c: "rs_wait S t = Some c" using assms(2) by auto
  have inj: "wait_inj (rs_wait S)" using inv(3) by (simp add: chans_ok_def)
  consider (gone) "map_of (sc_users ?T) t = None"
    | (own) u j where "map_of (sc_users ?T) t = Some u" "?sch (u_Stride (sc_userheap ?T u)) = Some j"
    | (late) u where "map_of (sc_users ?T) t = Some u" "?sch (u_Stride (sc_userheap ?T u)) = None" by fastforce
  then show ?thesis
  proof cases
    case gone
    have "c \<notin> pending ?sch"
    proof
      assume "c \<in> pending ?sch"
      then obtain u' where "map_of (sc_users ?T) t = Some u'" by (rule jobs_ok_own [OF inv(2) inj c])
      with gone show False by simp
    qed
    from rob_receive_ok [OF assms(1) c this] obtain v T' where
      v: "rob_receive c ?T = Some (v, T')"
      "rob_inv (S\<lparr>rs_sched := T', rs_wait := (rs_wait S)(t := None), rs_held := rob_got t v (rs_held S)\<rparr>)" (is "rob_inv ?S'")
      by (elim exE conjE) rule
    have ready: "chan_recv (sc_chans ?T c) \<noteq> None" using v(1) by (auto simp: rob_receive_def split: bind_splits)
    show ?thesis
    proof (cases "v = uuid_nil")
      case True
      with v c gone ready show ?thesis by (auto simp: rob_timeout_def rob_got_def)
    next
      case False
      then have "(t, v) \<in> set (rs_held ?S')" "remove1 (t, v) (rs_held ?S') = rs_held S" by (simp_all add: rob_got_def)
      with rob_release_ok [OF v(2), of t v now] obtain T'' where
        "rob_release now v T' = Some T''"
        "rob_inv (S\<lparr>rs_sched := T'', rs_wait := (rs_wait S)(t := None), rs_held := rs_held S\<rparr>)" by auto
      with v(1) c gone ready False show ?thesis by (auto simp: rob_timeout_def rob_got_def)
    qed
  next
    case own
    let ?k = "u_Stride (sc_userheap ?T u)" and ?x = "(sc_userheap ?T u)\<lparr>u_Scheduled := False\<rparr>"
    have get: "rb_Get ?k (sc_schedule ?T) = Some j" using own rb.get [OF inv(1)] by simp
    with assms(3) own(1) have ju: "j_User j = u" by (simp add: rob_race_def)
    have id: "u_ID (sc_userheap ?T u) = t" using jobs_ok_id(2) [OF inv(2) own(1)] .
    then have jr: "j_Ready j = c" using jobs_ok_user(4) [OF inv(2) own(2)] ju c by simp
    have pend: "c \<in> pending ?sch" using jobs_ok_pending(1) [OF inv(2) own(2)] jr by simp
    from rb.deleteE [OF inv(1), of ?k] obtain sch where
      d: "rb_Delete ?k (sc_schedule ?T) = Some sch" "rb_inv sch" "rb_map sch = ?sch(?k := None)" by metis
    have served: "jobs_ok (rb_map sch) (map_of (sc_users ?T)) ((sc_userheap ?T)(u := ?x)) (sc_nextuser ?T)
        (rs_wait S) (rs_users S)"
      using jobs_ok_serve [OF inv(2) own(2), of ?x] ju d(3) by simp
    have "u_ID (((sc_userheap ?T)(u := ?x)) (j_User j')) \<noteq> t" if "rb_map sch k' = Some j'" for k' j'
      using jobs_ok_user(1,2) [OF served that] own(1) by auto
    from jobs_ok_unwait [OF served this] have jobs: "jobs_ok (rb_map sch) (map_of (sc_users ?T))
        ((sc_userheap ?T)(u := ?x)) (sc_nextuser ?T) ((rs_wait S)(t := None)) (rs_users S)" .
    have "pending (rb_map sch) = pending ?sch - {c}"
      unfolding d(3) using pending_delete [OF inv(2) inj own(2)] jr by simp
    then have chans: "chans_ok (pending (rb_map sch)) (sc_cc ?T @ [c]) (sc_chans ?T) (sc_next ?T) ((rs_wait S)(t := None))"
      using chans_ok_forget [OF inv(3) c pend] by simp
    have ran: "ran ((rs_wait S)(t := None)) \<subseteq> ran (rs_wait S)" using ran_forget [OF c inj] by blast
    have "ch_buf (sc_chans ?T c) = []" using inv(3) pend by (auto simp: chans_ok_def chan_make_def)
    from uses_ok_recv(1) [OF inv(6) c inj this] have "uses_ok (map_of (sc_workers ?T)) (sc_workerheap ?T)
        ((sc_userheap ?T)(u := ?x)) (sc_nextuser ?T) (rs_held S) ((rs_wait S)(t := None)) (sc_chans ?T)"
      by (rule uses_ok_upd) simp_all
    moreover have "dom ((rs_wait S)(t := None)) \<inter> fst ` set (rs_held S) = {}" using inv(7) by auto
    moreover have "sc_queue ?T = []" using inv(8) own(2) by auto
    moreover have "\<not> sc_closed ?T" using inv(10) own(1) by auto
    ultimately show ?thesis using own(1) get d(1,2) c jobs chans servers_ok_fewer [OF inv(4) ran] inv(5,9)
      by (simp add: rob_timeout_def rob_got_def rob_inv_def Let_def upd_user_def Pool_Put_def)
  next
    case late
    have "c \<notin> pending ?sch"
    proof
      assume "c \<in> pending ?sch"
      then obtain u' j where "map_of (sc_users ?T) t = Some u'" "?sch (u_Stride (sc_userheap ?T u')) = Some j"
        by (rule jobs_ok_own [OF inv(2) inj c])
      with late show False by simp
    qed
    from rob_receive_ok [OF assms(1) c this] obtain v T' where
      v: "rob_receive c ?T = Some (v, T')"
      "rob_inv (S\<lparr>rs_sched := T', rs_wait := (rs_wait S)(t := None), rs_held := rob_got t v (rs_held S)\<rparr>)"
      by (elim exE conjE) rule
    moreover have "rob_timeout now t c ?T = Some (v, T')"
      using late v(1) rb.get [OF inv(1)] by (simp add: rob_timeout_def)
    ultimately show ?thesis using c by simp
  qed
qed

lemma rob_close_loop_ok:
  assumes "rb_inv sch" "jobs_ok (rb_map sch) users uh n wait used" "chans_ok (pending (rb_map sch)) P chans m wait"
  shows "\<exists>sch' chans'. rob_close_loop sch chans = Some (sch', chans') \<and> rb_inv sch' \<and> rb_map sch' = Map.empty \<and>
    chans_ok {} P chans' m wait \<and> (\<forall>c. ch_buf (chans' c) = ch_buf (chans c))"
  using assms
proof (induction "card (dom (rb_map sch))" arbitrary: sch chans uh rule: less_induct)
  case less
  show ?case
  proof (rule rb.least_cases [OF less.prems(1)])
    assume "rb_Min sch = None" "rb_map sch = Map.empty"
    with less.prems show ?thesis by (subst rob_close_loop.simps) (simp add: pending_def)
  next
    fix k j
    assume some: "rb_Min sch = Some (k, j)" "rb_map sch k = Some j"
    let ?uh = "uh(j_User j := (uh (j_User j))\<lparr>u_Scheduled := False\<rparr>)"
    let ?ch = "chans(j_Ready j := \<lparr>ch_buf = [], ch_closed = True\<rparr>)"
    from rb.deleteE [OF less.prems(1), of k] obtain sch1 where
      d: "rb_Delete k sch = Some sch1" "rb_inv sch1" "rb_map sch1 = (rb_map sch)(k := None)" by metis
    have pend: "j_Ready j \<in> pending (rb_map sch)" using jobs_ok_pending(1) [OF less.prems(2) some(2)] .
    note cl = chans_ok_close [OF less.prems(3) pend]
    have inj: "wait_inj wait" using less.prems(3) by (simp add: chans_ok_def)
    have ch: "chans_ok (pending (rb_map sch1)) P ?ch m wait"
      unfolding d(3) pending_delete [OF less.prems(2) inj some(2)] by (rule cl(2))
    have jobs: "jobs_ok (rb_map sch1) users ?uh n wait used"
      unfolding d(3) by (rule jobs_ok_serve [OF less.prems(2) some(2)]) simp_all
    have "card (dom (rb_map sch1)) < card (dom (rb_map sch))"
      unfolding d(3) using some(2) rb.finite_contents [OF less.prems(1)] by (auto intro!: psubset_card_mono)
    from less.hyps [OF this d(2) jobs ch] obtain sch' chans' where
      q: "rob_close_loop sch1 ?ch = Some (sch', chans')" "rb_inv sch'" "rb_map sch' = Map.empty"
      "chans_ok {} P chans' m wait" "\<forall>c. ch_buf (chans' c) = ch_buf (?ch c)" by (elim exE conjE) rule
    have "ch_buf (chans (j_Ready j)) = []" using less.prems(3) pend by (auto simp: chans_ok_def chan_make_def)
    with q(5) have "\<forall>c. ch_buf (chans' c) = ch_buf (chans c)" by simp
    moreover have "rob_close_loop sch chans = Some (sch', chans')"
      using some(1) d(1) cl(1) q(1) by (subst rob_close_loop.simps) simp
    ultimately show ?thesis using q(2-4) by blast
  qed
qed

lemma rob_Close_wakes:
  assumes "rob_inv S"
  shows "\<exists>S'. rob_exec RClose S = Some S' \<and> rob_inv S' \<and> rs_wait S' = rs_wait S \<and> rb_map (sc_schedule (rs_sched S')) = Map.empty"
proof (cases "sc_closed (rs_sched S)")
  case True
  note inv = rob_invD [OF assms]
  have "sc_users (rs_sched S) = []" using assms True by (simp add: rob_inv_def Let_def)
  then have "rb_map (sc_schedule (rs_sched S)) k = None" for k using inv(2) by (cases "rb_map (sc_schedule (rs_sched S)) k") (auto simp: jobs_ok_def)
  with assms True show ?thesis by (auto simp: rob_Close_def)
next
  case False
  let ?T = "rs_sched S"
  note inv = rob_invD [OF assms]
  from rob_close_loop_ok [OF inv(1-3)] obtain sch' chans' where
    q: "rob_close_loop (sc_schedule ?T) (sc_chans ?T) = Some (sch', chans')" "rb_inv sch'" "rb_map sch' = Map.empty"
    "chans_ok {} (sc_cc ?T) chans' (sc_next ?T) (rs_wait S)" "\<forall>c. ch_buf (chans' c) = ch_buf (sc_chans ?T c)"
    by (elim exE conjE) rule
  have "servers_ok {} [] (map snd (rs_held S)) chans' (ran (rs_wait S)) (rs_workers S)"
    by (rule servers_ok_mono [OF inv(4)]) (use q(5) in simp)
  with q(1-4) False inv(7) show ?thesis
    by (simp add: rob_Close_def rob_inv_def Let_def pending_def jobs_ok_def workers_ok_def uses_ok_def)
qed

lemma rob_Close_ok: "rob_inv S \<Longrightarrow> \<exists>S'. rob_exec RClose S = Some S' \<and> rob_inv S'"
  using rob_Close_wakes by blast

section \<open>All interleavings\<close>

lemma rob_exec_ok:
  assumes "rob_inv S" "rob_enabled ev S"
  shows "\<exists>S'. rob_exec ev S = Some S' \<and> rob_inv S'"
proof (cases ev)
  case (RAddWorker now w)
  with assms show ?thesis using rob_AddWorker_ok by simp
next
  case (RDeleteWorker w)
  with assms show ?thesis using rob_DeleteWorker_ok by blast
next
  case (RAddUser t)
  with assms show ?thesis using rob_AddUser_ok by simp
next
  case (RDeleteUser t)
  with assms show ?thesis using rob_DeleteUser_ok by blast
next
  case (RAcquire now t)
  with assms show ?thesis using rob_Acquire_ok by simp
next
  case (RReceive t)
  with assms have "rob_allowed (RReceive t) S" by simp
  with RReceive assms(1) show ?thesis using rob_Receive_ok by blast
next
  case (RTimeout now t)
  with assms show ?thesis using rob_Timeout_ok by simp
next
  case (RRelease now t w)
  with assms rob_release_ok [of S t w now] show ?thesis by (auto simp: rob_Release_def)
next
  case RClose
  with assms show ?thesis using rob_Close_ok by blast
qed

definition rob_idle :: "rob_sys \<Rightarrow> uuid list" where
  "rob_idle S = map (\<lambda>w. w_ID (sc_workerheap (rs_sched S) w)) (sc_queue (rs_sched S))"

definition rob_sent :: "rob_sys \<Rightarrow> uuid \<Rightarrow> uuid \<Rightarrow> bool" where
  "rob_sent S t s \<longleftrightarrow> (\<exists>c. rs_wait S t = Some c \<and> s \<in> set (ch_buf (sc_chans (rs_sched S) c)))"

definition rob_queued :: "rob_sys \<Rightarrow> uuid set" where
  "rob_queued S = {t. \<exists>c. rs_wait S t = Some c \<and> c \<in> pending (rb_map (sc_schedule (rs_sched S)))}"

interpretation rob: pooler rob_init rob_enabled rob_exec rob_inv rob_idle "\<lambda>S. map snd (rs_held S)"
  rob_sent rob_queued "\<lambda>S. dom (rs_wait S)" "\<lambda>S. {t. rob_enabled (RReceive t) S}"
proof
  show "rob_inv rob_init" by (rule rob_inv_init)
next
  fix S ev assume "rob_inv S" "rob_enabled ev S"
  then show "\<exists>S'. rob_exec ev S = Some S' \<and> rob_inv S'" by (rule rob_exec_ok)
next
  fix S t t' s assume inv: "rob_inv S"
  note i = rob_invD [OF this]
  have inj: "wait_inj (rs_wait S)" using i(3) by (simp add: chans_ok_def)
  show "distinct (rob_idle S @ map snd (rs_held S))" unfolding rob_idle_def by (rule servers_okD(1) [OF i(4)])
  show "s \<notin> set (rob_idle S) \<and> s \<notin> set (map snd (rs_held S))" if "rob_sent S t s"
    using that servers_okD(2) [OF i(4)] unfolding rob_sent_def rob_idle_def by (blast intro: ranI)
  show "t = t'" if "rob_sent S t s" "rob_sent S t' s"
    using that servers_ok_exclusive [OF i(4) inj] unfolding rob_sent_def by blast
  show "rob_idle S = [] \<or> rob_queued S = {}"
    using i(8) by (auto simp: rob_idle_def rob_queued_def pending_def)
  have "rob_enabled (RReceive v) S" if "rs_wait S v = Some c" "c \<notin> pending (rb_map (sc_schedule (rs_sched S)))" for v c
  proof -
    have "delivered (sc_chans (rs_sched S) c)" using that i(3) by (auto simp: chans_ok_def intro: ranI)
    with that(1) show ?thesis by (auto simp: delivered_def chan_recv_def)
  qed
  then show "dom (rs_wait S) \<subseteq> rob_queued S \<union> {t. rob_enabled (RReceive t) S}"
    unfolding rob_queued_def by blast
qed

lemma rob_at_reach: "run_events rob_enabled rob_exec evs rob_init \<noteq> None \<Longrightarrow> rob_reach (rob_at evs)"
  unfolding rob_at_def by (auto intro: rob.run_reach)

text \<open>
  (C29) In every state that the callers can reach without a stale timeout, and for every call they may make next other than a
  stale timeout: the call neither panics nor blocks with the mutex held; in particular the search for a free slot and the
  loop of \<^verbatim>\<open>Close\<close> terminate.  A timeout is stale (\<open>rob_race\<close>) when the slot of the client's stride holds the job of another
  client; \<open>rob_timeout_steals\<close> shows what the code does then.
\<close>

theorem rob_never_stuck:
  assumes "rob_reach S" "rob_allowed ev S" "\<forall>now t. ev = RTimeout now t \<longrightarrow> \<not> rob_race t S"
  shows "\<exists>S'. rob_exec ev S = Some S' \<and> rob_reach S'"
proof (rule rob.never_stuck [OF assms(1)])
  show "rob_enabled ev S" using assms(2,3) by (cases ev) simp_all
qed

theorem rob_never_stuck_witness:
  "\<exists>S'. rob_exec (RTimeout 9 2) (rob_at [RAddUser 1, RAddUser 2, RAcquire 5 1, RAcquire 6 2, RAddWorker 7 3]) = Some S' \<and>
     rob_reach S'"
proof (rule rob_never_stuck)
  let ?S = "rob_at [RAddUser 1, RAddUser 2, RAcquire 5 1, RAcquire 6 2, RAddWorker 7 3]"
  show "rob_reach ?S" by (rule rob_at_reach) code_simp
  show "rob_allowed (RTimeout 9 2) ?S" by code_simp
  have "\<not> rob_race 2 ?S" by code_simp
  then show "\<forall>now t. RTimeout 9 2 = RTimeout now t \<longrightarrow> \<not> rob_race t ?S" by simp
qed

text \<open>
  (C28) A worker is in at most one place: idle, held by one client, or sent to one waiting client.
\<close>

theorem rob_exclusive:
  assumes "rob_reach S"
  shows "distinct (rob_idle S @ map snd (rs_held S)) \<and>
    (\<forall>t s. rob_sent S t s \<longrightarrow>
      s \<notin> set (rob_idle S) \<and> s \<notin> set (map snd (rs_held S)) \<and> (\<forall>t'. rob_sent S t' s \<longrightarrow> t' = t))"
  using assms by (rule rob.exclusive)

theorem rob_exclusive_witness:
  "distinct (rob_idle (rob_at [RAddUser 1, RAddWorker 5 8, RAddWorker 6 9, RAcquire 7 1]) @
     map snd (rs_held (rob_at [RAddUser 1, RAddWorker 5 8, RAddWorker 6 9, RAcquire 7 1])))"
proof -
  have "rob_reach (rob_at [RAddUser 1, RAddWorker 5 8, RAddWorker 6 9, RAcquire 7 1])"
    by (rule rob_at_reach) code_simp
  from rob_exclusive [OF this] show ?thesis ..
qed

text \<open>
  (C30) In every state that the callers can reach without a stale timeout (\<open>rob_race\<close>; \<open>rob_timeout_steals\<close> is a lost
  wake-up): no worker is idle while a job is pending, every waiting client has a pending job or can receive, and after
  \<^verbatim>\<open>Close\<close> every waiting client can receive.
\<close>

theorem rob_no_lost_wakeup:
  assumes "rob_reach S"
  shows "(rob_idle S = [] \<or> rob_queued S = {}) \<and>
    (\<forall>t\<in>dom (rs_wait S). t \<in> rob_queued S \<or> rob_enabled (RReceive t) S) \<and>
    (\<exists>S'. rob_exec RClose S = Some S' \<and> (\<forall>t\<in>dom (rs_wait S). rob_enabled (RReceive t) S'))"
proof -
  obtain S' where c: "rob_exec RClose S = Some S'" "rob_inv S'" "rs_wait S' = rs_wait S" "rb_map (sc_schedule (rs_sched S')) = Map.empty"
    using rob_Close_wakes [OF rob.reach_invar [OF assms]] by (elim exE conjE) rule
  have "rob_queued S' = {}" using c(4) by (simp add: rob_queued_def pending_def)
  with rob.wakes [OF c(2)] c(3) have "\<forall>t\<in>dom (rs_wait S). rob_enabled (RReceive t) S'" by auto
  with c(1) rob.no_lost_wakeup [OF assms] show ?thesis by simp
qed

text \<open>Two clients wait and one worker comes: the first can receive, the second is queued, and \<^verbatim>\<open>Close\<close> wakes both.\<close>

theorem rob_no_lost_wakeup_witness:
  "rob_enabled (RReceive 1) (rob_at [RAddUser 1, RAddUser 2, RAcquire 5 1, RAcquire 6 2, RAddWorker 7 3]) \<and>
    (\<exists>S'. rob_exec RClose (rob_at [RAddUser 1, RAddUser 2, RAcquire 5 1, RAcquire 6 2, RAddWorker 7 3]) = Some S' \<and>
      rob_enabled (RReceive 1) S' \<and> rob_enabled (RReceive 2) S')"
proof -
  let ?S = "rob_at [RAddUser 1, RAddUser 2, RAcquire 5 1, RAcquire 6 2, RAddWorker 7 3]"
  have "rob_reach ?S" by (rule rob_at_reach) code_simp
  note w = rob_no_lost_wakeup [OF this]
  have "rs_wait ?S 1 = Some 1" "rs_wait ?S 2 = Some 2" "rob_enabled (RReceive 1) ?S" by code_simp+
  with w show ?thesis by blast
qed

lemma rob_dispatch_min:
  assumes "rb_inv (sc_schedule T)" "rb_Min (sc_schedule T) = Some (k, j)" "rob_dispatch now w T = Some T'"
  shows "rb_map (sc_schedule T') = (rb_map (sc_schedule T))(k := None)" "sc_floor T' = k"
    "ch_buf (sc_chans T' (j_Ready j)) = [w_ID (sc_workerheap T w)]"
    "u_Stride (sc_userheap T' v) = u_Stride (sc_userheap T v)"
proof -
  from rb.deleteE [OF assms(1), of k] obtain sch where
    d: "rb_Delete k (sc_schedule T) = Some sch" "rb_map sch = (rb_map (sc_schedule T))(k := None)" by metis
  with assms(2,3) show "rb_map (sc_schedule T') = (rb_map (sc_schedule T))(k := None)" "sc_floor T' = k"
    "ch_buf (sc_chans T' (j_Ready j)) = [w_ID (sc_workerheap T w)]"
    "u_Stride (sc_userheap T' v) = u_Stride (sc_userheap T v)"
    by (auto simp: rob_dispatch_def upd_user_def upd_worker_def Let_def chan_send_def split: bind_splits if_splits)
qed

text \<open>
  Stride scheduling: when a client gives a worker back while jobs are pending, the time of use is added to
  its stride and the worker is sent to the client of the job with the least stride, whose slot becomes
  the new floor; all other jobs stay.
\<close>

theorem rob_serves_least:
  assumes "rob_reach S" "(t, w) \<in> set (rs_held S)" "map_of (sc_workers (rs_sched S)) w = Some p"
    and "rb_Min (sc_schedule (rs_sched S)) = Some (k, j)"
  shows "\<exists>S'. rob_exec (RRelease now t w) S = Some S' \<and>
    rb_map (sc_schedule (rs_sched S)) k = Some j \<and>
    (\<forall>k'. rb_map (sc_schedule (rs_sched S)) k' \<noteq> None \<longrightarrow> k \<le> k') \<and>
    rob_sent S' (u_ID (sc_userheap (rs_sched S) (j_User j))) w \<and>
    rb_map (sc_schedule (rs_sched S')) = (rb_map (sc_schedule (rs_sched S)))(k := None) \<and>
    sc_floor (rs_sched S') = k \<and>
    (\<forall>u. u_Stride (sc_userheap (rs_sched S') u) = u_Stride (sc_userheap (rs_sched S) u) +
       (if w_User (sc_workerheap (rs_sched S) p) = Some u then now - w_Since (sc_workerheap (rs_sched S) p) else 0))"
proof -
  let ?T = "rs_sched S"
  let ?T1 = "rob_settle now p ?T"
  note inv = rob_invD [OF rob.reach_invar [OF assms(1)]]
  have "rb_map (sc_schedule ?T) k = Some j" "\<And>k'. k' \<in> dom (rb_map (sc_schedule ?T)) \<Longrightarrow> k \<le> k'"
    using rb.least_cases [OF inv(1)] assms(4) by (metis option.distinct(1) option.inject prod.inject)+
  moreover have open_: "\<not> sc_closed ?T" using inv(10) assms(3) by auto
  from rob_release_ok [OF rob.reach_invar [OF assms(1)] assms(2), of now] obtain T' where
    r: "rob_release now w ?T = Some T'" by (elim exE conjE) rule
  then have d: "rob_dispatch now p ?T1 = Some T'" using open_ assms(3) by (simp add: rob_release_def releaseWorker_def)
  note m = rob_dispatch_min [OF _ _ d, simplified, OF inv(1) assms(4)]
  have "u_Stride (sc_userheap ?T1 u) = u_Stride (sc_userheap ?T u) +
       (if w_User (sc_workerheap ?T p) = Some u then now - w_Since (sc_workerheap ?T p) else 0)" for u
    by (simp add: rob_settle_def upd_user_def upd_worker_def split: option.split)
  moreover have "rs_wait S (u_ID (sc_userheap ?T (j_User j))) = Some (j_Ready j)"
    using jobs_ok_user(4) [OF inv(2) calculation(1)] .
  moreover have "w_ID (sc_workerheap ?T p) = w" using workers_okD(2) [OF inv(5) assms(3)] .
  ultimately show ?thesis using r m by (auto simp: rob_Release_def rob_sent_def)
qed

theorem rob_serves_least_witness:
  "\<exists>S'. rob_exec (RRelease 100 1 9) (rob_at [RAddUser 1, RAddUser 2, RAddWorker 5 9, RAcquire 10 1, RAcquire 20 2]) = Some S' \<and>
     rob_sent S' 2 9"
proof -
  let ?S = "rob_at [RAddUser 1, RAddUser 2, RAddWorker 5 9, RAcquire 10 1, RAcquire 20 2]"
  have "rob_reach ?S" by (rule rob_at_reach) code_simp
  moreover have "(1, 9) \<in> set (rs_held ?S)" "map_of (sc_workers (rs_sched ?S)) 9 = Some 1"
    "rb_Min (sc_schedule (rs_sched ?S)) = Some (0, \<lparr>j_User = 2, j_Ready = 1\<rparr>)"
    "u_ID (sc_userheap (rs_sched ?S) 2) = 2" by code_simp+
  ultimately show ?thesis using rob_serves_least [of ?S 1 9 1 0 "\<lparr>j_User = 2, j_Ready = 1\<rparr>" 100] by auto
qed

text \<open>The users that count as waiting are those with a pending job.\<close>

lemma rob_Waiters_inv:
  assumes "rob_inv S"
  shows "rob_Waiters (rs_sched S) = card (dom (rb_map (sc_schedule (rs_sched S))))"
proof -
  let ?T = "rs_sched S" and ?sch = "rb_map (sc_schedule (rs_sched S))"
  let ?L = "filter (\<lambda>(i, u). u_Scheduled (sc_userheap ?T u)) (sc_users ?T)"
  note inv = rob_invD [OF assms]
  have mem: "(i, u) \<in> set ?L \<longleftrightarrow> map_of (sc_users ?T) i = Some u \<and> u_Scheduled (sc_userheap ?T u)" for i u
    using inv(9) by simp
  have "bij_betw (\<lambda>(i, u). u_Stride (sc_userheap ?T u)) (set ?L) (dom ?sch)"
    unfolding bij_betw_def
  proof
    show "inj_on (\<lambda>(i, u). u_Stride (sc_userheap ?T u)) (set ?L)"
    proof (rule inj_onI, clarify)
      fix i u i' u' assume "(i, u) \<in> set ?L" "(i', u') \<in> set ?L"
        and eq: "u_Stride (sc_userheap ?T u) = u_Stride (sc_userheap ?T u')"
      then have m: "map_of (sc_users ?T) i = Some u" "u_Scheduled (sc_userheap ?T u)"
        "map_of (sc_users ?T) i' = Some u'" "u_Scheduled (sc_userheap ?T u')" unfolding mem by blast+
      from jobs_ok_scheduled [OF inv(2) m(1,2)] obtain j where "?sch (u_Stride (sc_userheap ?T u)) = Some j" "j_User j = u"
        by (elim exE conjE) rule
      moreover from jobs_ok_scheduled [OF inv(2) m(3,4)] obtain j' where
        "?sch (u_Stride (sc_userheap ?T u')) = Some j'" "j_User j' = u'" by (elim exE conjE) rule
      ultimately have "u = u'" unfolding eq by (metis option.inject)
      then show "i = i' \<and> u = u'" using jobs_ok_id(2) [OF inv(2) m(1)] jobs_ok_id(2) [OF inv(2) m(3)] by simp
    qed
    show "(\<lambda>(i, u). u_Stride (sc_userheap ?T u)) ` set ?L = dom ?sch"
    proof (intro set_eqI iffI)
      fix k assume "k \<in> (\<lambda>(i, u). u_Stride (sc_userheap ?T u)) ` set ?L"
      then obtain i u where "(i, u) \<in> set ?L" "k = u_Stride (sc_userheap ?T u)"
        by (elim imageE) (auto simp del: set_filter)
      then show "k \<in> dom ?sch" using jobs_ok_scheduled [OF inv(2), of i u] unfolding mem by auto
    next
      fix k assume "k \<in> dom ?sch"
      then obtain j where "?sch k = Some j" by auto
      note ju = jobs_ok_user [OF inv(2) this]
      have "(u_ID (sc_userheap ?T (j_User j)), j_User j) \<in> set ?L" using ju(1,2) unfolding mem by blast
      then show "k \<in> (\<lambda>(i, u). u_Stride (sc_userheap ?T u)) ` set ?L" using ju(3) by force
    qed
  qed
  then have "card (set ?L) = card (dom ?sch)" by (rule bij_betw_same_card)
  moreover have "distinct ?L" using inv(9) by (simp add: distinct_map)
  ultimately show ?thesis unfolding rob_Waiters_def using distinct_card by metis
qed

text \<open>
  (C40) The timeout of \<^verbatim>\<open>Acquire\<close> looks for any job in the slot of its own stride.  When the client was served
  already and another client has taken the slot, the code removes the job of that other client, who then
  waits without a job and without anything to receive, and puts the served channel, with the worker
  still in it, on the free list.
\<close>

theorem rob_timeout_steals:
  assumes "rob_reach S" "rs_wait S t = Some c" "rob_race t S"
  shows "\<exists>S' t' c'. rob_exec (RTimeout now t) S = Some S' \<and> t' \<noteq> t \<and> rs_wait S' t' = Some c' \<and>
    c' \<notin> pending (rb_map (sc_schedule (rs_sched S'))) \<and> \<not> rob_allowed (RReceive t') S' \<and>
    c \<in> set (sc_cc (rs_sched S')) \<and> delivered (sc_chans (rs_sched S') c)"
proof -
  let ?T = "rs_sched S" and ?sch = "rb_map (sc_schedule (rs_sched S))"
  note inv = rob_invD [OF rob.reach_invar [OF assms(1)]]
  have inj: "wait_inj (rs_wait S)" using inv(3) by (simp add: chans_ok_def)
  from assms(3) rb.get [OF inv(1)] obtain u j where
    u: "map_of (sc_users ?T) t = Some u" "?sch (u_Stride (sc_userheap ?T u)) = Some j" "j_User j \<noteq> u"
    by (auto simp: rob_race_def split: option.splits)
  let ?k = "u_Stride (sc_userheap ?T u)" and ?t' = "u_ID (sc_userheap ?T (j_User j))"
  note ju = jobs_ok_user [OF inv(2) u(2)]
  have other: "?t' \<noteq> t" using ju(1) u(1,3) by auto
  from rb.deleteE [OF inv(1), of ?k] obtain sch where
    d: "rb_Delete ?k (sc_schedule ?T) = Some sch" "rb_map sch = ?sch(?k := None)" by metis
  have "c \<notin> pending ?sch"
  proof
    assume "c \<in> pending ?sch"
    then obtain u' j' where "map_of (sc_users ?T) t = Some u'" "?sch (u_Stride (sc_userheap ?T u')) = Some j'" "j_User j' = u'"
      by (rule jobs_ok_own [OF inv(2) inj assms(2)])
    with u show False by simp
  qed
  moreover have "c \<in> ran (rs_wait S)" using assms(2) by (rule ranI)
  ultimately have del: "delivered (sc_chans ?T c)" using inv(3) by (auto simp: chans_ok_def)
  have pend: "j_Ready j \<notin> pending (rb_map sch)"
    unfolding d(2) pending_delete [OF inv(2) inj u(2)] by simp
  have empty: "chan_recv (sc_chans ?T (j_Ready j)) = None"
    using inv(3) jobs_ok_pending(1) [OF inv(2) u(2)] by (auto simp: chans_ok_def chan_recv_def chan_make_def)
  let ?S' = "S\<lparr>rs_sched := (upd_user u (\<lambda>x. x\<lparr>u_Scheduled := False\<rparr>) ?T)\<lparr>sc_schedule := sch,
      sc_cc := Pool_Put c (sc_cc ?T)\<rparr>, rs_wait := (rs_wait S)(t := None)\<rparr>"
  have "rob_exec (RTimeout now t) S = Some ?S'"
    using assms(2) u rb.get [OF inv(1), of ?k] d(1) by (simp add: rob_timeout_def rob_got_def upd_user_def)
  then show ?thesis
    by (intro exI [of _ ?S'] exI [of _ ?t'] exI [of _ "j_Ready j"])
      (use other ju(4) pend empty del in \<open>simp add: upd_user_def Pool_Put_def\<close>)
qed

theorem rob_timeout_steals_witness:
  "\<exists>S' t' c'. rob_exec (RTimeout 9 1) (rob_at [RAddUser 1, RAddUser 2, RAcquire 5 1, RAddWorker 6 7, RAcquire 8 2]) = Some S' \<and>
     t' \<noteq> 1 \<and> rs_wait S' t' = Some c' \<and> \<not> rob_allowed (RReceive t') S'"
proof -
  let ?S = "rob_at [RAddUser 1, RAddUser 2, RAcquire 5 1, RAddWorker 6 7, RAcquire 8 2]"
  have "rob_reach ?S" by (rule rob_at_reach) code_simp
  moreover have "rs_wait ?S 1 = Some 1" "rob_race 1 ?S" by code_simp+
  ultimately show ?thesis using rob_timeout_steals [of ?S 1 1 9] by blast
qed

end
