(* ===== verification/Pooler_Api.thy ===== *)
theory Pooler_Api
  imports Lifo_Pooler Rob_Scheduler
begin

text \<open>
  The interface \<^verbatim>\<open>pool.Pooler\<close> of \<^verbatim>\<open>lib/gat/handlers/pool/pooler.go\<close> as a pool of servers uses it: a record of operations,
  an abstract view of the state of a pooler, and the laws that relate the two as a locale.  Both poolers provide it.
\<close>

section \<open>The pooler interface\<close>

text \<open>
  \<^verbatim>\<open>Acquire\<close> returns the server, or nothing when the client has to wait; a waiting client goes on by \<open>pa_Receive\<close> or
  \<open>pa_Timeout\<close>, when \<open>pa_ready\<close> or \<open>pa_expires\<close> allow it.  \<open>pa_lost\<close> only does the bookkeeping for a client that drops a
  server which was deleted.
\<close>

record 's pooler_api =
  pa_AddClient :: "uuid \<Rightarrow> 's \<Rightarrow> 's option"
  pa_DeleteClient :: "uuid \<Rightarrow> 's \<Rightarrow> 's option"
  pa_AddServer :: "int \<Rightarrow> uuid \<Rightarrow> 's \<Rightarrow> 's option"
  pa_DeleteServer :: "uuid \<Rightarrow> 's \<Rightarrow> 's option"
  pa_Acquire :: "int \<Rightarrow> uuid \<Rightarrow> 's \<Rightarrow> (uuid option \<times> 's) option"
  pa_Receive :: "uuid \<Rightarrow> 's \<Rightarrow> (uuid \<times> 's) option"
  pa_Timeout :: "int \<Rightarrow> uuid \<Rightarrow> 's \<Rightarrow> (uuid \<times> 's) option"
  pa_Release :: "int \<Rightarrow> uuid \<Rightarrow> uuid \<Rightarrow> 's \<Rightarrow> 's option"
  pa_Waiters :: "'s \<Rightarrow> int"
  pa_Close :: "'s \<Rightarrow> 's option"
  pa_ready :: "uuid \<Rightarrow> 's \<Rightarrow> bool"
  pa_expires :: "uuid \<Rightarrow> 's \<Rightarrow> bool"
  pa_lost :: "uuid \<Rightarrow> uuid \<Rightarrow> 's \<Rightarrow> 's"

section \<open>The contract\<close>

text \<open>
  What a pool can observe: the servers that the pooler knows, all servers and clients ever added, who waits, who holds
  which server, and whether it was closed.
\<close>

record pooler_view =
  vw_known :: "uuid set"
  vw_used :: "uuid set"
  vw_users :: "uuid set"
  vw_waiting :: "uuid set"
  vw_held :: "(uuid \<times> uuid) set"
  vw_shut :: bool

text \<open>A client stops waiting, or never began, with \<open>v\<close>; the nil id means it got nothing.\<close>

definition view_got :: "uuid \<Rightarrow> uuid \<Rightarrow> pooler_view \<Rightarrow> pooler_view" where
  "view_got t v V = V\<lparr>vw_waiting := vw_waiting V - {t}, vw_held := (if v = uuid_nil then vw_held V else insert (t, v) (vw_held V))\<rparr>"

definition view_fresh :: "uuid \<Rightarrow> pooler_view \<Rightarrow> bool" where
  "view_fresh v V \<longleftrightarrow> v = uuid_nil \<or> v \<notin> snd ` vw_held V"

locale spool_pooler =
  fixes api :: "'s pooler_api" and invar :: "'s \<Rightarrow> bool" and view :: "'s \<Rightarrow> pooler_view"
  assumes add_client: "invar S \<Longrightarrow> t \<notin> vw_users (view S) \<Longrightarrow>
      \<exists>S' U. pa_AddClient api t S = Some S' \<and> invar S' \<and> view S' = (view S)\<lparr>vw_users := U\<rparr> \<and> U \<subseteq> insert t (vw_users (view S))"
    and delete_client: "invar S \<Longrightarrow> \<exists>S'. pa_DeleteClient api t S = Some S' \<and> invar S' \<and> view S' = view S"
    and add_server: "invar S \<Longrightarrow> s \<noteq> uuid_nil \<Longrightarrow> s \<notin> vw_used (view S) \<Longrightarrow>
      \<exists>S' K. pa_AddServer api now s S = Some S' \<and> invar S' \<and>
        view S' = (view S)\<lparr>vw_known := K, vw_used := insert s (vw_used (view S))\<rparr> \<and>
        K \<subseteq> insert s (vw_known (view S)) \<and> (\<not> vw_shut (view S) \<longrightarrow> K = insert s (vw_known (view S)))"
    and delete_server: "invar S \<Longrightarrow> \<exists>S'. pa_DeleteServer api s S = Some S' \<and> invar S' \<and>
        view S' = (view S)\<lparr>vw_known := vw_known (view S) - {s}\<rparr>"
    and acquire: "invar S \<Longrightarrow> t \<notin> vw_waiting (view S) \<Longrightarrow> t \<notin> fst ` vw_held (view S) \<Longrightarrow>
      \<exists>r S'. pa_Acquire api now t S = Some (r, S') \<and> invar S' \<and>
        (case r of None \<Rightarrow> view S' = (view S)\<lparr>vw_waiting := insert t (vw_waiting (view S))\<rparr>
         | Some v \<Rightarrow> view S' = view_got t v (view S) \<and> view_fresh v (view S))"
    and receive: "invar S \<Longrightarrow> t \<in> vw_waiting (view S) \<Longrightarrow> pa_ready api t S \<Longrightarrow>
      \<exists>v S'. pa_Receive api t S = Some (v, S') \<and> invar S' \<and> view S' = view_got t v (view S) \<and> view_fresh v (view S)"
    and timeout: "invar S \<Longrightarrow> t \<in> vw_waiting (view S) \<Longrightarrow> pa_expires api t S \<Longrightarrow>
      \<exists>v S'. pa_Timeout api now t S = Some (v, S') \<and> invar S' \<and> view S' = view_got t v (view S) \<and> view_fresh v (view S)"
    and release: "invar S \<Longrightarrow> (t, v) \<in> vw_held (view S) \<Longrightarrow>
      \<exists>S'. pa_Release api now t v S = Some S' \<and> invar S' \<and> view S' = (view S)\<lparr>vw_held := vw_held (view S) - {(t, v)}\<rparr>"
    and lost: "invar S \<Longrightarrow> (t, v) \<in> vw_held (view S) \<Longrightarrow> v \<notin> vw_known (view S) \<Longrightarrow>
      invar (pa_lost api t v S) \<and> view (pa_lost api t v S) = (view S)\<lparr>vw_held := vw_held (view S) - {(t, v)}\<rparr>"
    and close: "invar S \<Longrightarrow> \<exists>S'. pa_Close api S = Some S' \<and> invar S' \<and> view S' = (view S)\<lparr>vw_known := {}, vw_shut := True\<rparr>"
    and waiters: "invar S \<Longrightarrow> 0 < pa_Waiters api S \<Longrightarrow> s \<noteq> uuid_nil \<Longrightarrow> s \<notin> vw_used (view S) \<Longrightarrow>
      pa_AddServer api now s S = Some S' \<Longrightarrow> pa_Waiters api S' < pa_Waiters api S"
    and exclusive: "invar S \<Longrightarrow> (t, v) \<in> vw_held (view S) \<Longrightarrow> (t', v) \<in> vw_held (view S) \<Longrightarrow> t = t'"
    and registered: "invar S \<Longrightarrow> vw_known (view S) \<subseteq> vw_used (view S) \<and> snd ` vw_held (view S) \<subseteq> vw_used (view S) \<and>
      uuid_nil \<notin> vw_used (view S)"

section \<open>The LIFO pooler\<close>

type_synonym lifo_client = "lifo_sys \<times> (uuid \<times> uuid) list"

definition lifo_call :: "lifo_event \<Rightarrow> lifo_client \<Rightarrow> lifo_client option" where
  "lifo_call ev S = map_option (\<lambda>L. (L, snd S)) (lifo_exec ev (fst S))"

definition lifo_got :: "uuid \<Rightarrow> uuid \<Rightarrow> chan option \<Rightarrow> lifo \<Rightarrow> lifo_client \<Rightarrow> lifo_client" where
  "lifo_got t v c p S = ((fst S)\<lparr>ls_pooler := p, ls_wait := (ls_wait (fst S))(t := c), ls_held := client_got v (ls_held (fst S))\<rparr>,
     rob_got t v (snd S))"

definition lifo_api :: "lifo_client pooler_api" where
  "lifo_api = \<lparr>
     pa_AddClient = (\<lambda>_ S. Some S), pa_DeleteClient = (\<lambda>_ S. Some S),
     pa_AddServer = (\<lambda>_ s. lifo_call (LAdd s)), pa_DeleteServer = (\<lambda>s. lifo_call (LDelete s)),
     pa_Acquire = (\<lambda>_ t S. do {
       ((v, c), p) \<leftarrow> lifo_Acquire (ls_pooler (fst S));
       Some (if c = None then Some v else None, lifo_got t v c p S) }),
     pa_Receive = (\<lambda>t S. do {
       c \<leftarrow> ls_wait (fst S) t;
       (v, p) \<leftarrow> lifo_receive c (ls_pooler (fst S));
       Some (v, lifo_got t v None p S) }),
     pa_Timeout = (\<lambda>_ t S. do {
       c \<leftarrow> ls_wait (fst S) t;
       (v, p) \<leftarrow> lifo_timeout c (ls_pooler (fst S));
       Some (v, lifo_got t v None p S) }),
     pa_Release = (\<lambda>_ t s S. map_option (\<lambda>S'. (fst S', remove1 (t, s) (snd S'))) (lifo_call (LRelease s) S)),
     pa_Waiters = (\<lambda>S. lifo_Waiters (ls_pooler (fst S))),
     pa_Close = lifo_call LClose,
     pa_ready = (\<lambda>t S. lifo_enabled (LReceive t) (fst S)),
     pa_expires = (\<lambda>_ _. True),
     pa_lost = (\<lambda>t v S. ((fst S)\<lparr>ls_held := remove1 v (ls_held (fst S))\<rparr>, remove1 (t, v) (snd S)))\<rparr>"

definition lifo_client_inv :: "lifo_client \<Rightarrow> bool" where
  "lifo_client_inv S \<longleftrightarrow> lifo_inv (fst S) \<and> map snd (snd S) = ls_held (fst S)"

definition lifo_view :: "lifo_client \<Rightarrow> pooler_view" where
  "lifo_view S = \<lparr>vw_known = lp_servers (ls_pooler (fst S)), vw_used = ls_used (fst S), vw_users = {},
     vw_waiting = dom (ls_wait (fst S)), vw_held = set (snd S), vw_shut = lp_closed (ls_pooler (fst S))\<rparr>"

lemma map_snd_got: "map snd (rob_got t v h) = client_got v (map snd h)"
  by (simp add: rob_got_def client_got_def)

lemma lifo_release_fields:
  assumes "lifo_release s p = Some p'"
  shows "lp_servers p' = lp_servers p" "lp_closed p' = lp_closed p"
  using assms by (auto simp: lifo_release_def split: if_splits bind_splits option.splits)

lemma lifo_receive_fields:
  assumes "lifo_receive c p = Some (v, p')"
  shows "lp_servers p' = lp_servers p" "lp_closed p' = lp_closed p"
  using assms by (auto simp: lifo_receive_def split: bind_splits)

lemma lifo_timeout_fields:
  assumes "lifo_timeout c p = Some (v, p')"
  shows "lp_servers p' = lp_servers p" "lp_closed p' = lp_closed p"
  using assms by (auto simp: lifo_timeout_def lifo_receive_def Let_def split: bind_splits if_splits)

lemma lifo_Acquire_fields:
  assumes "lifo_Acquire p = Some ((v, c), p')"
  shows "lp_servers p' = lp_servers p" "lp_closed p' = lp_closed p" "c \<noteq> None \<longrightarrow> v = uuid_nil"
  using assms by (auto simp: lifo_Acquire_def Let_def split: bind_splits if_splits option.splits prod.splits)

lemma lifo_view_got:
  "lp_servers p = lp_servers (ls_pooler (fst S)) \<Longrightarrow> lp_closed p = lp_closed (ls_pooler (fst S)) \<Longrightarrow>
    lifo_view (lifo_got t v None p S) = view_got t v (lifo_view S)"
  by (auto simp: lifo_view_def lifo_got_def view_got_def rob_got_def)

lemma lifo_held_apart: "lifo_client_inv S \<Longrightarrow> distinct (map snd (snd S))"
  by (auto simp: lifo_client_inv_def lifo_inv_def servers_ok_def)

lemma lifo_callE:
  assumes "lifo_client_inv S" "lifo_enabled ev (fst S)"
  obtains L where "lifo_call ev S = Some (L, snd S)" "lifo_exec ev (fst S) = Some L" "lifo_inv L"
  using lifo_exec_ok [of "fst S" ev] assms by (auto simp: lifo_call_def lifo_client_inv_def)

lemma lifo_api_add:
  assumes "lifo_client_inv S" "s \<noteq> uuid_nil" "s \<notin> vw_used (lifo_view S)"
  shows "\<exists>S' K. pa_AddServer lifo_api now s S = Some S' \<and> lifo_client_inv S' \<and>
    lifo_view S' = (lifo_view S)\<lparr>vw_known := K, vw_used := insert s (vw_used (lifo_view S))\<rparr> \<and>
    K \<subseteq> insert s (vw_known (lifo_view S)) \<and> (\<not> vw_shut (lifo_view S) \<longrightarrow> K = insert s (vw_known (lifo_view S)))"
proof -
  obtain L where L: "lifo_call (LAdd s) S = Some (L, snd S)" "lifo_exec (LAdd s) (fst S) = Some L" "lifo_inv L"
    by (rule lifo_callE [OF assms(1), of "LAdd s"]) (use assms in \<open>simp_all add: lifo_view_def\<close>)
  from L(2) obtain p where p: "lifo_release s ((ls_pooler (fst S))\<lparr>lp_servers := insert s (lp_servers (ls_pooler (fst S)))\<rparr>) = Some p"
    "L = (fst S)\<lparr>ls_pooler := p, ls_used := insert s (ls_used (fst S))\<rparr>"
    by (auto simp: lifo_AddServer_def split: bind_splits)
  note f = lifo_release_fields [OF p(1)]
  have "lifo_client_inv (L, snd S)" using L(3) assms(1) p(2) by (simp add: lifo_client_inv_def)
  moreover have "lifo_view (L, snd S) = (lifo_view S)\<lparr>vw_known := insert s (vw_known (lifo_view S)), vw_used := insert s (vw_used (lifo_view S))\<rparr>"
    using f p(2) by (simp add: lifo_view_def)
  ultimately show ?thesis using L(1) by (auto simp: lifo_api_def)
qed

lemma lifo_api_delete:
  assumes "lifo_client_inv S"
  shows "\<exists>S'. pa_DeleteServer lifo_api s S = Some S' \<and> lifo_client_inv S' \<and>
    lifo_view S' = (lifo_view S)\<lparr>vw_known := vw_known (lifo_view S) - {s}\<rparr>"
proof -
  obtain L where L: "lifo_call (LDelete s) S = Some (L, snd S)" "lifo_exec (LDelete s) (fst S) = Some L" "lifo_inv L"
    by (rule lifo_callE [OF assms(1), of "LDelete s"]) simp_all
  from L(2) obtain p where "lifo_DeleteServer s (ls_pooler (fst S)) = Some p" "L = (fst S)\<lparr>ls_pooler := p\<rparr>"
    by (auto split: bind_splits)
  with L assms show ?thesis
    by (intro exI [of _ "(L, snd S)"])
      (auto simp: lifo_api_def lifo_view_def lifo_client_inv_def lifo_DeleteServer_def split: bind_splits)
qed

lemma lifo_got_fresh:
  assumes "lifo_client_inv (lifo_got t v c p S)"
  shows "view_fresh v (lifo_view S)"
proof -
  have "distinct (client_got v (map snd (snd S)))"
    using lifo_held_apart [OF assms] by (simp add: lifo_got_def map_snd_got)
  then show ?thesis by (auto simp: view_fresh_def client_got_def lifo_view_def split: if_splits)
qed

lemma lifo_got_inv:
  "lifo_client_inv S \<Longrightarrow> lifo_inv (fst (lifo_got t v c p S)) \<Longrightarrow> lifo_client_inv (lifo_got t v c p S)"
  by (simp add: lifo_client_inv_def lifo_got_def map_snd_got)

lemma lifo_api_acquire:
  assumes "lifo_client_inv S" "t \<notin> vw_waiting (lifo_view S)"
  shows "\<exists>r S'. pa_Acquire lifo_api now t S = Some (r, S') \<and> lifo_client_inv S' \<and>
    (case r of None \<Rightarrow> lifo_view S' = (lifo_view S)\<lparr>vw_waiting := insert t (vw_waiting (lifo_view S))\<rparr>
     | Some v \<Rightarrow> lifo_view S' = view_got t v (lifo_view S) \<and> view_fresh v (lifo_view S))"
proof -
  have "lifo_inv (fst S)" "ls_wait (fst S) t = None"
    using assms by (auto simp: lifo_client_inv_def lifo_view_def domIff)
  from lifo_Acquire_ok [OF this] obtain v c p where
    a: "lifo_Acquire (ls_pooler (fst S)) = Some ((v, c), p)" "lifo_inv (fst (lifo_got t v c p S))"
    by (auto simp: lifo_got_def split: bind_splits)
  note f = lifo_Acquire_fields [OF a(1)]
  have i: "lifo_client_inv (lifo_got t v c p S)" using assms(1) a(2) by (rule lifo_got_inv)
  show ?thesis
  proof (cases c)
    case None
    with a i f lifo_view_got [of p S t v] lifo_got_fresh [OF i] show ?thesis by (simp add: lifo_api_def)
  next
    case (Some ch)
    with f(3) have "v = uuid_nil" by simp
    with f Some have "lifo_view (lifo_got t v c p S) = (lifo_view S)\<lparr>vw_waiting := insert t (vw_waiting (lifo_view S))\<rparr>"
      by (auto simp: lifo_view_def lifo_got_def rob_got_def)
    with a i Some show ?thesis by (simp add: lifo_api_def)
  qed
qed

lemma lifo_api_receive:
  assumes "lifo_client_inv S" "t \<in> vw_waiting (lifo_view S)" "pa_ready lifo_api t S"
  shows "\<exists>v S'. pa_Receive lifo_api t S = Some (v, S') \<and> lifo_client_inv S' \<and> lifo_view S' = view_got t v (lifo_view S) \<and>
    view_fresh v (lifo_view S)"
proof -
  have "lifo_inv (fst S)" "lifo_enabled (LReceive t) (fst S)" using assms by (auto simp: lifo_client_inv_def lifo_api_def)
  from lifo_exec_ok [OF this] obtain c v p where
    a: "ls_wait (fst S) t = Some c" "lifo_receive c (ls_pooler (fst S)) = Some (v, p)" "lifo_inv (fst (lifo_got t v None p S))"
    by (auto simp: lifo_got_def split: bind_splits)
  have i: "lifo_client_inv (lifo_got t v None p S)" using assms(1) a(3) by (rule lifo_got_inv)
  with a lifo_view_got [OF lifo_receive_fields [OF a(2)], of t v] lifo_got_fresh [OF i] show ?thesis by (simp add: lifo_api_def)
qed

lemma lifo_api_timeout:
  assumes "lifo_client_inv S" "t \<in> vw_waiting (lifo_view S)"
  shows "\<exists>v S'. pa_Timeout lifo_api now t S = Some (v, S') \<and> lifo_client_inv S' \<and> lifo_view S' = view_got t v (lifo_view S) \<and>
    view_fresh v (lifo_view S)"
proof -
  have "lifo_inv (fst S)" "lifo_enabled (LTimeout t) (fst S)" using assms by (auto simp: lifo_client_inv_def lifo_view_def)
  from lifo_exec_ok [OF this] obtain c v p where
    a: "ls_wait (fst S) t = Some c" "lifo_timeout c (ls_pooler (fst S)) = Some (v, p)" "lifo_inv (fst (lifo_got t v None p S))"
    by (auto simp: lifo_got_def split: bind_splits)
  have i: "lifo_client_inv (lifo_got t v None p S)" using assms(1) a(3) by (rule lifo_got_inv)
  with a lifo_view_got [OF lifo_timeout_fields [OF a(2)], of t v] lifo_got_fresh [OF i] show ?thesis by (simp add: lifo_api_def)
qed

lemma pairs_unique: "distinct (map snd h) \<Longrightarrow> (t, v) \<in> set h \<Longrightarrow> (t', v) \<in> set h \<Longrightarrow> t = t'"
  by (metis distinct_map fst_conv inj_onD snd_conv)

lemma set_remove1_pairs: "distinct (map snd h) \<Longrightarrow> set (remove1 (t, v) h) = set h - {(t, v)}"
  by (simp add: distinct_map)

lemma lifo_api_release:
  assumes "lifo_client_inv S" "(t, v) \<in> vw_held (lifo_view S)"
  shows "\<exists>S'. pa_Release lifo_api now t v S = Some S' \<and> lifo_client_inv S' \<and>
    lifo_view S' = (lifo_view S)\<lparr>vw_held := vw_held (lifo_view S) - {(t, v)}\<rparr>"
proof -
  have h: "(t, v) \<in> set (snd S)" using assms(2) by (simp add: lifo_view_def)
  note d = lifo_held_apart [OF assms(1)]
  have "v \<in> set (map snd (snd S))" using h by force
  then have "v \<in> set (ls_held (fst S))" using assms(1) unfolding lifo_client_inv_def by metis
  then obtain L where L: "lifo_call (LRelease v) S = Some (L, snd S)" "lifo_exec (LRelease v) (fst S) = Some L" "lifo_inv L"
    using lifo_callE [OF assms(1), of "LRelease v"] by (metis lifo_enabled.simps(6))
  from L(2) obtain p where p: "lifo_release v (ls_pooler (fst S)) = Some p" "L = (fst S)\<lparr>ls_pooler := p, ls_held := remove1 v (ls_held (fst S))\<rparr>"
    by (auto simp: lifo_Release_def split: bind_splits)
  note f = lifo_release_fields [OF p(1)]
  have "lifo_client_inv (L, remove1 (t, v) (snd S))"
    using L(3) assms(1) p(2) map_snd_remove1 [OF d h] by (simp add: lifo_client_inv_def)
  moreover have "lifo_view (L, remove1 (t, v) (snd S)) = (lifo_view S)\<lparr>vw_held := vw_held (lifo_view S) - {(t, v)}\<rparr>"
    using f p(2) set_remove1_pairs [OF d] by (simp add: lifo_view_def)
  ultimately show ?thesis using L(1) by (simp add: lifo_api_def)
qed

lemma lifo_api_lost:
  assumes "lifo_client_inv S" "(t, v) \<in> vw_held (lifo_view S)"
  shows "lifo_client_inv (pa_lost lifo_api t v S) \<and>
    lifo_view (pa_lost lifo_api t v S) = (lifo_view S)\<lparr>vw_held := vw_held (lifo_view S) - {(t, v)}\<rparr>"
proof -
  have h: "(t, v) \<in> set (snd S)" using assms(2) by (simp add: lifo_view_def)
  note d = lifo_held_apart [OF assms(1)]
  have "lifo_inv ((fst S)\<lparr>ls_held := remove1 v (ls_held (fst S))\<rparr>)"
    using assms(1) by (auto simp: lifo_client_inv_def lifo_inv_def servers_ok_def dest: notin_set_remove1)
  then show ?thesis using assms(1) map_snd_remove1 [OF d h] set_remove1_pairs [OF d]
    by (simp add: lifo_client_inv_def lifo_view_def lifo_api_def)
qed

lemma lifo_api_close:
  assumes "lifo_client_inv S"
  shows "\<exists>S'. pa_Close lifo_api S = Some S' \<and> lifo_client_inv S' \<and> lifo_view S' = (lifo_view S)\<lparr>vw_known := {}, vw_shut := True\<rparr>"
proof -
  obtain L where L: "lifo_call LClose S = Some (L, snd S)" "lifo_exec LClose (fst S) = Some L" "lifo_inv L"
    by (rule lifo_callE [OF assms(1), of LClose]) simp_all
  from L(2) obtain p where "lifo_Close (ls_pooler (fst S)) = Some p" "L = (fst S)\<lparr>ls_pooler := p\<rparr>"
    by (auto split: bind_splits)
  with L assms show ?thesis
    by (intro exI [of _ "(L, snd S)"])
      (auto simp: lifo_api_def lifo_view_def lifo_client_inv_def lifo_Close_def split: bind_splits)
qed

lemma lifo_api_waiters:
  assumes "lifo_client_inv S" "0 < pa_Waiters lifo_api S" "pa_AddServer lifo_api now s S = Some S'"
  shows "pa_Waiters lifo_api S' < pa_Waiters lifo_api S"
proof -
  let ?r = "lp_waiters (ls_pooler (fst S))"
  have i: "ring_inv ?r" using assms(1) by (simp add: lifo_client_inv_def lifo_inv_def)
  from assms(3) obtain p where
    p: "lifo_AddServer s (ls_pooler (fst S)) = Some p" "fst S' = (fst S)\<lparr>ls_pooler := p, ls_used := insert s (ls_used (fst S))\<rparr>"
    by (auto simp: lifo_api_def lifo_call_def split: bind_splits)
  show ?thesis
  proof (rule rg.pop_front_cases [OF i, of 0])
    assume "ring_list ?r = []"
    with assms(2) i show ?thesis by (simp add: lifo_api_def lifo_Waiters_def Ring_Length_ring)
  next
    fix c xs r assume r: "PopFront 0 ?r = Some (Some c, r)" "ring_list ?r = c # xs" "ring_inv r" "ring_list r = xs"
    then have "lp_waiters p = r" using p(1) by (auto simp: lifo_AddServer_def lifo_release_def split: bind_splits)
    with p(2) r i show ?thesis by (simp add: lifo_api_def lifo_Waiters_def Ring_Length_ring)
  qed
qed

interpretation lifo_sp: spool_pooler lifo_api lifo_client_inv lifo_view
proof
  fix S t assume "lifo_client_inv S" "t \<notin> vw_users (lifo_view S)"
  then show "\<exists>S' U. pa_AddClient lifo_api t S = Some S' \<and> lifo_client_inv S' \<and> lifo_view S' = (lifo_view S)\<lparr>vw_users := U\<rparr> \<and>
      U \<subseteq> insert t (vw_users (lifo_view S))"
    by (intro exI [of _ S] exI [of _ "{}"]) (simp add: lifo_api_def lifo_view_def)
next
  fix S t v t' assume "lifo_client_inv S" "(t, v) \<in> vw_held (lifo_view S)" "(t', v) \<in> vw_held (lifo_view S)"
  with lifo_held_apart [of S] show "t = t'" unfolding lifo_view_def by (auto intro: pairs_unique)
next
  fix S assume "lifo_client_inv S"
  then have "servers_ok (lp_servers (ls_pooler (fst S))) (lp_queue (ls_pooler (fst S))) (map snd (snd S)) (lp_chans (ls_pooler (fst S)))
      (ran (ls_wait (fst S))) (ls_used (fst S))" by (simp add: lifo_client_inv_def lifo_inv_def)
  then show "vw_known (lifo_view S) \<subseteq> vw_used (lifo_view S) \<and> snd ` vw_held (lifo_view S) \<subseteq> vw_used (lifo_view S) \<and>
      uuid_nil \<notin> vw_used (lifo_view S)" by (simp add: servers_ok_def lifo_view_def)
qed (use lifo_api_add lifo_api_delete lifo_api_acquire lifo_api_receive lifo_api_timeout lifo_api_release lifo_api_lost
    lifo_api_close lifo_api_waiters in \<open>simp_all add: lifo_api_def\<close>)

section \<open>The scheduler\<close>

definition rob_take :: "uuid \<Rightarrow> uuid \<Rightarrow> chan option \<Rightarrow> scheduler \<Rightarrow> rob_sys \<Rightarrow> rob_sys" where
  "rob_take t v c T S = S\<lparr>rs_sched := T, rs_wait := (rs_wait S)(t := c), rs_held := rob_got t v (rs_held S)\<rparr>"

definition rob_api :: "rob_sys pooler_api" where
  "rob_api = \<lparr>
     pa_AddClient = (\<lambda>t. rob_exec (RAddUser t)), pa_DeleteClient = (\<lambda>t. rob_exec (RDeleteUser t)),
     pa_AddServer = (\<lambda>now s. rob_exec (RAddWorker now s)), pa_DeleteServer = (\<lambda>s. rob_exec (RDeleteWorker s)),
     pa_Acquire = (\<lambda>now t S. do {
       ((v, c), T) \<leftarrow> rob_Acquire now t (rs_sched S);
       Some (if c = None then Some v else None, rob_take t v c T S) }),
     pa_Receive = (\<lambda>t S. do {
       c \<leftarrow> rs_wait S t;
       (v, T) \<leftarrow> rob_receive c (rs_sched S);
       Some (v, rob_take t v None T S) }),
     pa_Timeout = (\<lambda>now t S. do {
       c \<leftarrow> rs_wait S t;
       (v, T) \<leftarrow> rob_timeout now t c (rs_sched S);
       Some (v, rob_take t v None T S) }),
     pa_Release = (\<lambda>now t s. rob_exec (RRelease now t s)),
     pa_Waiters = (\<lambda>S. int (rob_Waiters (rs_sched S))),
     pa_Close = rob_exec RClose,
     pa_ready = (\<lambda>t. rob_enabled (RReceive t)),
     pa_expires = (\<lambda>t. rob_enabled (RTimeout 0 t)),
     pa_lost = (\<lambda>t v S. S\<lparr>rs_held := remove1 (t, v) (rs_held S)\<rparr>)\<rparr>"

definition rob_view :: "rob_sys \<Rightarrow> pooler_view" where
  "rob_view S = \<lparr>vw_known = dom (map_of (sc_workers (rs_sched S))), vw_used = rs_workers S, vw_users = rs_users S,
     vw_waiting = dom (rs_wait S), vw_held = set (rs_held S), vw_shut = sc_closed (rs_sched S)\<rparr>"

definition rob_same :: "scheduler \<Rightarrow> scheduler \<Rightarrow> bool" where
  "rob_same T T' \<longleftrightarrow> sc_workers T' = sc_workers T \<and> sc_closed T' = sc_closed T"

lemma rob_same_refl [simp]: "rob_same T T"
  by (simp add: rob_same_def)

lemma rob_same_upd [simp]:
  "rob_same T (upd_user u f T') = rob_same T T'" "rob_same T (upd_worker w g T') = rob_same T T'"
  "rob_same (upd_user u f T) T' = rob_same T T'" "rob_same (upd_worker w g T) T' = rob_same T T'"
  by (simp_all add: rob_same_def upd_user_def upd_worker_def)

lemma rob_settle_same: "rob_same T (rob_settle now w T)"
  by (simp add: rob_settle_def split: option.split)

lemma rob_dispatch_same: "rob_dispatch now w T = Some T' \<Longrightarrow> rob_same T T'"
  by (auto simp: rob_dispatch_def rob_same_def upd_user_def upd_worker_def Let_def split: option.splits bind_splits)

lemma rob_same_trans: "rob_same T T' \<Longrightarrow> rob_same T' T'' \<Longrightarrow> rob_same T T''"
  by (simp add: rob_same_def)

lemma releaseWorker_same: "releaseWorker now w T = Some T' \<Longrightarrow> rob_same T T'"
  unfolding releaseWorker_def by (blast dest: rob_dispatch_same intro: rob_same_trans rob_settle_same)

lemma rob_release_same: "rob_release now i T = Some T' \<Longrightarrow> rob_same T T'"
  by (auto simp: rob_release_def split: if_splits option.splits dest: releaseWorker_same)

lemma rob_receive_same: "rob_receive c T = Some (v, T') \<Longrightarrow> rob_same T T'"
  by (auto simp: rob_receive_def rob_same_def split: bind_splits)

lemma rob_timeout_same: "rob_timeout now t c T = Some (v, T') \<Longrightarrow> rob_same T T'"
proof (cases "map_of (sc_users T) t")
  case None
  assume t: "rob_timeout now t c T = Some (v, T')"
  show ?thesis
  proof (cases "chan_recv (sc_chans T c)")
    case Some
    with t None obtain v1 T1 where "rob_receive c T = Some (v1, T1)" "(if v1 \<noteq> uuid_nil then rob_release now v1 T1 else Some T1) = Some T'"
      by (auto simp: rob_timeout_def split: bind_splits)
    then show ?thesis by (auto split: if_splits dest: rob_receive_same rob_release_same intro: rob_same_trans)
  qed (use t None in \<open>simp add: rob_timeout_def\<close>)
next
  case (Some u)
  assume t: "rob_timeout now t c T = Some (v, T')"
  show ?thesis
  proof (cases "rb_Get (u_Stride (sc_userheap T u)) (sc_schedule T)")
    case None
    with t Some show ?thesis by (simp add: rob_timeout_def rob_receive_same)
  next
    case (Some j)
    with t \<open>map_of (sc_users T) t = Some u\<close> show ?thesis
      by (auto simp: rob_timeout_def rob_same_def upd_user_def Let_def split: bind_splits)
  qed
qed

lemma rob_Acquire_same:
  assumes "rob_Acquire now t T = Some ((v, c), T')"
  shows "rob_same T T'" "c \<noteq> None \<longrightarrow> v = uuid_nil"
  using assms
  by (auto simp: rob_Acquire_def rob_same_def upd_user_def upd_worker_def Let_def split: if_splits option.splits bind_splits prod.splits)

lemma rob_view_take:
  "rob_same (rs_sched S) T \<Longrightarrow> rob_view (rob_take t v None T S) = view_got t v (rob_view S)"
  by (auto simp: rob_view_def rob_take_def view_got_def rob_got_def rob_same_def)

lemma rob_held_apart: "rob_inv S \<Longrightarrow> distinct (map snd (rs_held S))"
  using rob_invD(4) servers_okD(1) by fastforce

lemma rob_take_fresh:
  assumes "rob_inv (rob_take t v c T S)"
  shows "view_fresh v (rob_view S)"
  using rob_held_apart [OF assms] by (auto simp: rob_take_def rob_got_def view_fresh_def rob_view_def split: if_splits)

lemma rob_api_add_client:
  assumes "rob_inv S" "t \<notin> vw_users (rob_view S)"
  shows "\<exists>S' U. pa_AddClient rob_api t S = Some S' \<and> rob_inv S' \<and> rob_view S' = (rob_view S)\<lparr>vw_users := U\<rparr> \<and>
    U \<subseteq> insert t (vw_users (rob_view S))"
proof -
  have "rob_enabled (RAddUser t) S" using assms(2) by (simp add: rob_view_def)
  from rob_exec_ok [OF assms(1) this] obtain S' where s: "rob_exec (RAddUser t) S = Some S'" "rob_inv S'" by blast
  then have "rob_view S' = (rob_view S)\<lparr>vw_users := insert t (vw_users (rob_view S))\<rparr>"
    by (auto simp: AddUser_def rob_view_def Let_def split: if_splits)
  with s show ?thesis by (auto simp: rob_api_def)
qed

lemma rob_api_delete_client:
  assumes "rob_inv S"
  shows "\<exists>S'. pa_DeleteClient rob_api t S = Some S' \<and> rob_inv S' \<and> rob_view S' = rob_view S"
proof -
  have "rob_enabled (RDeleteUser t) S" by simp
  from rob_exec_ok [OF assms(1) this] obtain S' where s: "rob_exec (RDeleteUser t) S = Some S'" "rob_inv S'" by blast
  then have "rob_view S' = rob_view S"
    by (auto simp: DeleteUser_def rob_view_def Let_def split: if_splits option.splits bind_splits)
  with s show ?thesis by (auto simp: rob_api_def)
qed

lemma rob_api_add:
  assumes "rob_inv S" "s \<noteq> uuid_nil" "s \<notin> vw_used (rob_view S)"
  shows "\<exists>S' K. pa_AddServer rob_api now s S = Some S' \<and> rob_inv S' \<and>
    rob_view S' = (rob_view S)\<lparr>vw_known := K, vw_used := insert s (vw_used (rob_view S))\<rparr> \<and>
    K \<subseteq> insert s (vw_known (rob_view S)) \<and> (\<not> vw_shut (rob_view S) \<longrightarrow> K = insert s (vw_known (rob_view S)))"
proof -
  have "rob_enabled (RAddWorker now s) S" using assms(2,3) by (simp add: rob_view_def)
  from rob_exec_ok [OF assms(1) this] obtain S' T where
    s: "rob_exec (RAddWorker now s) S = Some S'" "rob_inv S'" and a: "AddWorker now s (rs_sched S) = Some T"
    and S': "S' = S\<lparr>rs_sched := T, rs_workers := insert s (rs_workers S)\<rparr>"
    by (auto split: bind_splits)
  have "sc_closed T = sc_closed (rs_sched S)"
    "if sc_closed (rs_sched S) then sc_workers T = sc_workers (rs_sched S)
     else dom (map_of (sc_workers T)) = insert s (dom (map_of (sc_workers (rs_sched S))))"
    using a by (auto simp: AddWorker_def Let_def rob_same_def update_conv' split: if_splits dest!: releaseWorker_same)
  then have "rob_view S' = (rob_view S)\<lparr>vw_known := (if sc_closed (rs_sched S) then vw_known (rob_view S) else insert s (vw_known (rob_view S))),
      vw_used := insert s (vw_used (rob_view S))\<rparr>"
    by (simp add: S' rob_view_def split: if_splits)
  with s show ?thesis by (auto simp: rob_api_def rob_view_def)
qed

lemma rob_api_delete:
  assumes "rob_inv S"
  shows "\<exists>S'. pa_DeleteServer rob_api s S = Some S' \<and> rob_inv S' \<and>
    rob_view S' = (rob_view S)\<lparr>vw_known := vw_known (rob_view S) - {s}\<rparr>"
proof -
  have "rob_enabled (RDeleteWorker s) S" by simp
  from rob_exec_ok [OF assms(1) this] obtain S' where s: "rob_exec (RDeleteWorker s) S = Some S'" "rob_inv S'" by blast
  have "sc_closed (rs_sched S) \<longrightarrow> sc_workers (rs_sched S) = []" using rob_invD(10) [OF assms] by blast
  with s(1) have "rob_view S' = (rob_view S)\<lparr>vw_known := vw_known (rob_view S) - {s}\<rparr>"
    by (auto simp: DeleteWorker_def rob_view_def delete_conv' split: if_splits option.splits bind_splits)
  with s show ?thesis by (auto simp: rob_api_def)
qed

lemma rob_api_acquire:
  assumes "rob_inv S" "t \<notin> vw_waiting (rob_view S)" "t \<notin> fst ` vw_held (rob_view S)"
  shows "\<exists>r S'. pa_Acquire rob_api now t S = Some (r, S') \<and> rob_inv S' \<and>
    (case r of None \<Rightarrow> rob_view S' = (rob_view S)\<lparr>vw_waiting := insert t (vw_waiting (rob_view S))\<rparr>
     | Some v \<Rightarrow> rob_view S' = view_got t v (rob_view S) \<and> view_fresh v (rob_view S))"
proof -
  have "rob_enabled (RAcquire now t) S" using assms(2,3) by (simp add: rob_view_def domIff)
  from rob_exec_ok [OF assms(1) this] obtain v c T where
    a: "rob_Acquire now t (rs_sched S) = Some ((v, c), T)" "rob_inv (rob_take t v c T S)"
    by (auto simp: rob_take_def split: bind_splits)
  note f = rob_Acquire_same [OF a(1)]
  show ?thesis
  proof (cases c)
    case None
    with a rob_view_take [OF f(1), of t v] rob_take_fresh [OF a(2)] show ?thesis by (simp add: rob_api_def)
  next
    case (Some ch)
    with f have "rob_view (rob_take t v c T S) = (rob_view S)\<lparr>vw_waiting := insert t (vw_waiting (rob_view S))\<rparr>"
      by (auto simp: rob_view_def rob_take_def rob_got_def rob_same_def)
    with a Some show ?thesis by (simp add: rob_api_def)
  qed
qed

lemma rob_api_receive:
  assumes "rob_inv S" "pa_ready rob_api t S"
  shows "\<exists>v S'. pa_Receive rob_api t S = Some (v, S') \<and> rob_inv S' \<and> rob_view S' = view_got t v (rob_view S) \<and>
    view_fresh v (rob_view S)"
proof -
  have "rob_enabled (RReceive t) S" using assms(2) by (simp add: rob_api_def)
  from rob_exec_ok [OF assms(1) this] obtain c v T where
    a: "rs_wait S t = Some c" "rob_receive c (rs_sched S) = Some (v, T)" "rob_inv (rob_take t v None T S)"
    by (auto simp: rob_take_def split: bind_splits)
  with rob_view_take [OF rob_receive_same [OF a(2)], of t v] rob_take_fresh [OF a(3)] show ?thesis by (simp add: rob_api_def)
qed

lemma rob_api_timeout:
  assumes "rob_inv S" "pa_expires rob_api t S"
  shows "\<exists>v S'. pa_Timeout rob_api now t S = Some (v, S') \<and> rob_inv S' \<and> rob_view S' = view_got t v (rob_view S) \<and>
    view_fresh v (rob_view S)"
proof -
  have "rob_enabled (RTimeout now t) S" using assms(2) by (simp add: rob_api_def)
  from rob_exec_ok [OF assms(1) this] obtain c v T where
    a: "rs_wait S t = Some c" "rob_timeout now t c (rs_sched S) = Some (v, T)" "rob_inv (rob_take t v None T S)"
    by (auto simp: rob_take_def split: bind_splits)
  with rob_view_take [OF rob_timeout_same [OF a(2)], of t v] rob_take_fresh [OF a(3)] show ?thesis by (simp add: rob_api_def)
qed

lemma rob_api_release:
  assumes "rob_inv S" "(t, v) \<in> vw_held (rob_view S)"
  shows "\<exists>S'. pa_Release rob_api now t v S = Some S' \<and> rob_inv S' \<and>
    rob_view S' = (rob_view S)\<lparr>vw_held := vw_held (rob_view S) - {(t, v)}\<rparr>"
proof -
  have "rob_enabled (RRelease now t v) S" using assms(2) by (simp add: rob_view_def)
  from rob_exec_ok [OF assms(1) this] obtain T where
    a: "rob_release now v (rs_sched S) = Some T" "rob_inv (S\<lparr>rs_sched := T, rs_held := remove1 (t, v) (rs_held S)\<rparr>)"
    by (auto simp: rob_Release_def split: bind_splits)
  from rob_release_same [OF a(1)] set_remove1_pairs [OF rob_held_apart [OF assms(1)]] a show ?thesis
    by (simp add: rob_api_def rob_Release_def rob_view_def rob_same_def)
qed

lemma rob_api_lost:
  assumes "rob_inv S" "(t, v) \<in> vw_held (rob_view S)" "v \<notin> vw_known (rob_view S)"
  shows "rob_inv (pa_lost rob_api t v S) \<and> rob_view (pa_lost rob_api t v S) = (rob_view S)\<lparr>vw_held := vw_held (rob_view S) - {(t, v)}\<rparr>"
proof -
  have "(t, v) \<in> set (rs_held S)" "map_of (sc_workers (rs_sched S)) v = None" using assms(2,3) by (auto simp: rob_view_def)
  with rob_drop_ok(1) [OF assms(1), of t v] set_remove1_pairs [OF rob_held_apart [OF assms(1)]] show ?thesis
    by (simp add: rob_api_def rob_view_def)
qed

lemma rob_api_close:
  assumes "rob_inv S"
  shows "\<exists>S'. pa_Close rob_api S = Some S' \<and> rob_inv S' \<and> rob_view S' = (rob_view S)\<lparr>vw_known := {}, vw_shut := True\<rparr>"
proof -
  have "rob_enabled RClose S" by simp
  from rob_exec_ok [OF assms(1) this] obtain S' where s: "rob_exec RClose S = Some S'" "rob_inv S'" by blast
  have "sc_closed (rs_sched S) \<longrightarrow> sc_workers (rs_sched S) = []" using rob_invD(10) [OF assms] by blast
  with s(1) have "rob_view S' = (rob_view S)\<lparr>vw_known := {}, vw_shut := True\<rparr>"
    by (auto simp: rob_Close_def rob_view_def split: if_splits bind_splits)
  with s show ?thesis by (auto simp: rob_api_def)
qed

lemma rob_api_waiters:
  assumes "rob_inv S" "0 < pa_Waiters rob_api S" "s \<noteq> uuid_nil" "s \<notin> vw_used (rob_view S)" "pa_AddServer rob_api now s S = Some S'"
  shows "pa_Waiters rob_api S' < pa_Waiters rob_api S"
proof -
  let ?T = "rs_sched S"
  from rob_api_add [OF assms(1,3,4), of now] assms(5) have i: "rob_inv S'" by auto
  have pos: "0 < card (dom (rb_map (sc_schedule ?T)))" using assms(2) rob_Waiters_inv [OF assms(1)] by (simp add: rob_api_def)
  have "sc_users ?T \<noteq> []" using assms(2) by (auto simp: rob_api_def rob_Waiters_def)
  then have o: "\<not> sc_closed ?T" using rob_invD(10) [OF assms(1)] by blast
  from assms(5) obtain T where t: "AddWorker now s ?T = Some T" "rs_sched S' = T" by (auto simp: rob_api_def split: bind_splits)
  obtain T1 where T1: "rob_dispatch now (sc_nextworker ?T) T1 = Some T" "sc_schedule T1 = sc_schedule ?T"
    using t(1) o by (auto simp: AddWorker_def releaseWorker_def Let_def rob_settle_def split: option.splits)
  have ri: "rb_inv (sc_schedule T1)" using rob_invD(1) [OF assms(1)] T1(2) by simp
  have "rb_map (sc_schedule T1) \<noteq> Map.empty" using pos T1(2) by auto
  then obtain k j where "rb_Min (sc_schedule T1) = Some (k, j)" "rb_map (sc_schedule T1) k = Some j"
    by - (rule rb.least_cases [OF ri], auto)
  from rob_dispatch_min(1) [OF ri this(1) T1(1)] this(2)
  have "dom (rb_map (sc_schedule T)) = dom (rb_map (sc_schedule ?T)) - {k}" "k \<in> dom (rb_map (sc_schedule ?T))"
    using T1(2) by auto
  with pos have "card (dom (rb_map (sc_schedule T))) < card (dom (rb_map (sc_schedule ?T)))"
    by (simp add: card_gt_0_iff)
  with rob_Waiters_inv [OF assms(1)] rob_Waiters_inv [OF i] t(2) show ?thesis by (simp add: rob_api_def)
qed

interpretation rob_sp: spool_pooler rob_api rob_inv rob_view
proof
  fix S t v t' assume "rob_inv S" "(t, v) \<in> vw_held (rob_view S)" "(t', v) \<in> vw_held (rob_view S)"
  with rob_held_apart [of S] show "t = t'" unfolding rob_view_def by (auto intro: pairs_unique)
next
  fix S assume "rob_inv S"
  from rob_invD(4) [OF this] show "vw_known (rob_view S) \<subseteq> vw_used (rob_view S) \<and> snd ` vw_held (rob_view S) \<subseteq> vw_used (rob_view S) \<and>
      uuid_nil \<notin> vw_used (rob_view S)" by (simp add: servers_ok_def rob_view_def)
qed (assumption | rule rob_api_add_client rob_api_delete_client rob_api_add rob_api_delete rob_api_acquire rob_api_receive
    rob_api_timeout rob_api_release rob_api_lost rob_api_close rob_api_waiters)+

end
