(* ===== verification/Spool.thy ===== *)
theory Spool
  imports Kitchen_Steps Conn_Metrics Pooler_Api
begin

text \<open>
  The server pool of \<^verbatim>\<open>lib/gat/handlers/pool/spool/pool.go\<close>: it keeps the servers that the chef dials in two indexes,
  by id and by connection, and hands them to clients through a pooler.  The pooler is the interface of
  \<^verbatim>\<open>lib/gat/handlers/pool/pooler.go\<close>, here a record of operations over a state that holds the pooler together with who
  waits and who holds what.  A server is a heap object; its id, from \<^verbatim>\<open>uuid.New()\<close>, is its (fresh) address.
  Connections are the numbers of \<^verbatim>\<open>Kitchen\<close>.  The time that a section reads from the clock is an argument.
  Every method is composed of the sections between which it holds no lock, here as they run when nothing comes in
  between; the next theory interleaves them with each other and with the sections of the chef's calls.
\<close>

section \<open>State\<close>

datatype server_middleware = MwPacketTrace | MwOtelTrace | MwPS | MwEQP

record spool_config =
  cf_UsePS :: bool
  cf_UseEQP :: bool
  cf_UseOtelTracing :: bool
  cf_UsePacketTracing :: bool
  cf_ResetQuery :: string
  cf_IdleTimeout :: int
  cf_ReconnectInitialTime :: int
  cf_ReconnectMaxTime :: int

record Server =
  sv_ID :: uuid
  sv_Conn :: nat
  sv_state :: conn_state

record 's spool =
  sp_config :: spool_config
  sp_pooler :: 's
  sp_closed :: bool
  sp_chef :: Chef
  sp_serversByID :: "(uuid \<times> nat) list"
  sp_serversByConn :: "(nat \<times> nat) list"
  sp_heap :: "nat \<Rightarrow> Server"
  sp_next :: nat
  sp_middleware :: "nat \<Rightarrow> server_middleware list"

definition MakePool :: "spool_config \<Rightarrow> 's \<Rightarrow> Chef \<Rightarrow> 's spool" where
  "MakePool config poolr chef = \<lparr>sp_config = config, sp_pooler = poolr, sp_closed = False, sp_chef = chef,
     sp_serversByID = [], sp_serversByConn = [],
     sp_heap = (\<lambda>r. \<lparr>sv_ID = r, sv_Conn = 0, sv_state = new_conn_state 0 0\<rparr>), sp_next = 1, sp_middleware = (\<lambda>_. [])\<rparr>"

definition set_state :: "int \<Rightarrow> ConnState \<Rightarrow> uuid \<Rightarrow> nat \<Rightarrow> 's spool \<Rightarrow> 's spool" where
  "set_state now state peer server T =
     T\<lparr>sp_heap := (sp_heap T)(server := (sp_heap T server)\<lparr>sv_state := SetState now state peer (sv_state (sp_heap T server))\<rparr>)\<rparr>"

section \<open>Servers come and go\<close>

definition NewServer :: "int \<Rightarrow> nat \<Rightarrow> nat \<Rightarrow> Server" where
  "NewServer now i conn = \<lparr>sv_ID = i, sv_Conn = conn, sv_state = new_conn_state 0 now\<rparr>"

definition server_middlewares :: "spool_config \<Rightarrow> server_middleware list" where
  "server_middlewares config =
     (if cf_UsePacketTracing config then [MwPacketTrace] else []) @ (if cf_UseOtelTracing config then [MwOtelTrace] else []) @
     (if cf_UsePS config then [MwPS] else []) @ (if cf_UseEQP config then [MwEQP] else [])"

definition addServer :: "'s pooler_api \<Rightarrow> int \<Rightarrow> nat \<Rightarrow> 's spool \<Rightarrow> 's spool option" where
  "addServer api now conn T = (
     let T = T\<lparr>sp_middleware := (sp_middleware T)(conn := sp_middleware T conn @ server_middlewares (sp_config T))\<rparr>;
         server = sp_next T;
         T = T\<lparr>sp_heap := (sp_heap T)(server := NewServer now server conn), sp_next := server + 1\<rparr>;
         T = T\<lparr>sp_serversByID := AList.update server server (sp_serversByID T)\<rparr>;
         T = T\<lparr>sp_serversByConn := AList.update conn server (sp_serversByConn T)\<rparr> in
     do { p \<leftarrow> pa_AddServer api now server (sp_pooler T); Some (T\<lparr>sp_pooler := p\<rparr>) })"

definition removeServer :: "'s pooler_api \<Rightarrow> nat \<Rightarrow> 's spool \<Rightarrow> 's spool option" where
  "removeServer api conn T =
     (case map_of (sp_serversByConn T) conn of
        None \<Rightarrow> Some T
      | Some server \<Rightarrow> do {
          let T = T\<lparr>sp_serversByConn := AList.delete conn (sp_serversByConn T)\<rparr>;
          let i = sv_ID (sp_heap T server);
          let T = T\<lparr>sp_serversByID := AList.delete i (sp_serversByID T)\<rparr>;
          p \<leftarrow> pa_DeleteServer api i (sp_pooler T);
          Some (T\<lparr>sp_pooler := p\<rparr>)
        })"

fun foldM :: "('a \<Rightarrow> 's \<Rightarrow> 's option) \<Rightarrow> 'a list \<Rightarrow> 's \<Rightarrow> 's option" where
  "foldM f [] s = Some s"
| "foldM f (x # xs) s = do { s \<leftarrow> f x s; foldM f xs s }"

text \<open>The critical section of \<^verbatim>\<open>AddRecipe\<close>, \<^verbatim>\<open>RemoveRecipe\<close> and \<^verbatim>\<open>ScaleUp\<close>.\<close>

definition update_servers :: "'s pooler_api \<Rightarrow> int \<Rightarrow> nat list \<Rightarrow> nat list \<Rightarrow> 's spool \<Rightarrow> 's spool option" where
  "update_servers api now removed added T = do { T \<leftarrow> foldM (removeServer api) removed T; foldM (addServer api now) added T }"

definition AddRecipe :: "'s pooler_api \<Rightarrow> int \<Rightarrow> string \<Rightarrow> nat \<Rightarrow> 's spool \<Rightarrow> 's spool option" where
  "AddRecipe api now name recipe T = do {
     ((removed, added), chef) \<leftarrow> Learn name recipe (sp_chef T);
     let T = T\<lparr>sp_chef := chef\<rparr>;
     if removed = [] \<and> added = [] then Some T else update_servers api now removed added T
   }"

definition RemoveRecipe :: "'s pooler_api \<Rightarrow> int \<Rightarrow> string \<Rightarrow> 's spool \<Rightarrow> 's spool option" where
  "RemoveRecipe api now name T = do {
     (servers, chef) \<leftarrow> Forget name (sp_chef T);
     let T = T\<lparr>sp_chef := chef\<rparr>;
     if servers = [] then Some T else update_servers api now servers [] T
   }"

definition spool_Empty :: "'s spool \<Rightarrow> bool" where
  "spool_Empty T = Empty (sp_chef T)"

section \<open>Scaling\<close>

definition ScaleUp :: "'s pooler_api \<Rightarrow> int \<Rightarrow> 's spool \<Rightarrow> (fed_error option \<times> 's spool) option" where
  "ScaleUp api now T = do {
     (r, chef) \<leftarrow> Cook (sp_chef T);
     let T = T\<lparr>sp_chef := chef\<rparr>;
     case r of
       Inl err \<Rightarrow> Some (Some err, T)
     | Inr server \<Rightarrow> do { T \<leftarrow> addServer api now server T; Some (None, T) }
   }"

text \<open>The body of the loop of \<^verbatim>\<open>ScaleDown\<close>, for one server; \<open>m\<close> is the time until the next round.\<close>

definition scale_down_server :: "'s pooler_api \<Rightarrow> int \<Rightarrow> nat \<Rightarrow> int \<times> 's spool \<Rightarrow> (int \<times> 's spool) option" where
  "scale_down_server api now s mT = (
     let (m, T) = mT; (since, state, _) = GetState (sv_state (sp_heap T s)) in
     if state \<noteq> ConnStateIdle then Some (m, T)
     else
       let idle = now - since in
       if idle > cf_IdleTimeout (sp_config T) then
         case Ignite (sv_Conn (sp_heap T s)) (sp_chef T) of
           (False, chef) \<Rightarrow> Some (m, T\<lparr>sp_chef := chef\<rparr>)
         | (True, chef) \<Rightarrow> do {
             let T = T\<lparr>sp_chef := chef\<rparr>;
             let i = sv_ID (sp_heap T s);
             let T = T\<lparr>sp_serversByID := AList.delete i (sp_serversByID T)\<rparr>;
             let T = T\<lparr>sp_serversByConn := AList.delete (sv_Conn (sp_heap T s)) (sp_serversByConn T)\<rparr>;
             p \<leftarrow> pa_DeleteServer api i (sp_pooler T);
             Some (m, T\<lparr>sp_pooler := p\<rparr>)
           }
       else
         let until = cf_IdleTimeout (sp_config T) - idle in
         Some (if idle < m then until else m, T))"

definition ScaleDown :: "'s pooler_api \<Rightarrow> int \<Rightarrow> 's spool \<Rightarrow> (int \<times> 's spool) option" where
  "ScaleDown api now T = foldM (scale_down_server api now) (map snd (sp_serversByID T)) (cf_IdleTimeout (sp_config T), T)"

text \<open>\<^verbatim>\<open>for T.pooler.Waiters() > 0\<close>: the result says whether every \<^verbatim>\<open>ScaleUp\<close> succeeded.\<close>

partial_function (option) scale_up_loop :: "'s pooler_api \<Rightarrow> int \<Rightarrow> 's spool \<Rightarrow> (bool \<times> 's spool) option" where
  "scale_up_loop api now T =
     (if pa_Waiters api (sp_pooler T) > 0 then do {
        (err, T) \<leftarrow> ScaleUp api now T;
        case err of
          Some _ \<Rightarrow> Some (False, T)
        | None \<Rightarrow> scale_up_loop api now T
      }
      else Some (True, T))"

declare scale_up_loop.simps [code]

text \<open>
  The cases of \<^verbatim>\<open>ScaleLoop\<close>, on \<^verbatim>\<open>backoffAmount\<close> and the pool; the last component is the time the backoff timer was reset
  to, if it was.
\<close>

definition on_backoff :: "'s pooler_api \<Rightarrow> int \<Rightarrow> int \<Rightarrow> 's spool \<Rightarrow> (int \<times> 's spool \<times> int option) option" where
  "on_backoff api now backoffAmount T =
     (if backoffAmount = 0 then Some (backoffAmount, T, None)
      else do {
        (ok, T) \<leftarrow> scale_up_loop api now T;
        if ok then Some (0, T, None)
        else
          let backoffAmount = min (cf_ReconnectMaxTime (sp_config T)) (2 * backoffAmount) in
          Some (backoffAmount, T, if backoffAmount \<noteq> 0 then Some backoffAmount else None)
      })"

definition on_waiting :: "'s pooler_api \<Rightarrow> int \<Rightarrow> int \<Rightarrow> 's spool \<Rightarrow> (int \<times> 's spool \<times> int option) option" where
  "on_waiting api now backoffAmount T =
     (if backoffAmount \<noteq> 0 then Some (backoffAmount, T, None)
      else do {
        (ok, T) \<leftarrow> scale_up_loop api now T;
        if ok then Some (backoffAmount, T, None)
        else
          let backoffAmount = cf_ReconnectInitialTime (sp_config T) in
          Some (backoffAmount, T, if backoffAmount \<noteq> 0 then Some backoffAmount else None)
      })"

section \<open>Clients\<close>

definition AddClient :: "'s pooler_api \<Rightarrow> uuid \<Rightarrow> 's spool \<Rightarrow> 's spool option" where
  "AddClient api client T = do { p \<leftarrow> pa_AddClient api client (sp_pooler T); Some (T\<lparr>sp_pooler := p\<rparr>) }"

definition RemoveClient :: "'s pooler_api \<Rightarrow> uuid \<Rightarrow> 's spool \<Rightarrow> 's spool option" where
  "RemoveClient api client T = do { p \<leftarrow> pa_DeleteClient api client (sp_pooler T); Some (T\<lparr>sp_pooler := p\<rparr>) }"

text \<open>The section of \<^verbatim>\<open>Acquire\<close> that looks up the server, and the one that drops an unknown server.\<close>

definition acquire_lookup :: "int \<Rightarrow> uuid \<Rightarrow> uuid \<Rightarrow> 's spool \<Rightarrow> nat option \<times> 's spool" where
  "acquire_lookup now client serverID T =
     (case map_of (sp_serversByID T) serverID of
        Some c \<Rightarrow> (Some c, set_state now ConnStatePairing client c T)
      | None \<Rightarrow> (None, T))"

definition acquire_drop :: "'s pooler_api \<Rightarrow> uuid \<Rightarrow> 's spool \<Rightarrow> 's spool option" where
  "acquire_drop api serverID T = do { p \<leftarrow> pa_DeleteServer api serverID (sp_pooler T); Some (T\<lparr>sp_pooler := p\<rparr>) }"

text \<open>The sections of \<^verbatim>\<open>RemoveServer\<close>.\<close>

definition remove_burn :: "nat \<Rightarrow> 's spool \<Rightarrow> 's spool" where
  "remove_burn server T = T\<lparr>sp_chef := Burn (sv_Conn (sp_heap T server)) (sp_chef T)\<rparr>"

definition remove_pooler :: "'s pooler_api \<Rightarrow> nat \<Rightarrow> 's spool \<Rightarrow> 's spool option" where
  "remove_pooler api server T = do { p \<leftarrow> pa_DeleteServer api (sv_ID (sp_heap T server)) (sp_pooler T); Some (T\<lparr>sp_pooler := p\<rparr>) }"

definition remove_index :: "'s pooler_api \<Rightarrow> nat \<Rightarrow> 's spool \<Rightarrow> 's spool option" where
  "remove_index api server T = do {
     let T = T\<lparr>sp_serversByID := AList.delete (sv_ID (sp_heap T server)) (sp_serversByID T)\<rparr>;
     let T = T\<lparr>sp_serversByConn := AList.delete (sv_Conn (sp_heap T server)) (sp_serversByConn T)\<rparr>;
     p \<leftarrow> pa_DeleteServer api (sv_ID (sp_heap T server)) (sp_pooler T);
     Some (T\<lparr>sp_pooler := p\<rparr>)
   }"

definition RemoveServer :: "'s pooler_api \<Rightarrow> nat \<Rightarrow> 's spool \<Rightarrow> 's spool option" where
  "RemoveServer api server T = do { T \<leftarrow> remove_pooler api server (remove_burn server T); remove_index api server T }"

text \<open>The sections of \<^verbatim>\<open>Release\<close>; \<open>reset\<close> is the error of the reset query.\<close>

definition release_reset :: "int \<Rightarrow> nat \<Rightarrow> 's spool \<Rightarrow> 's spool" where
  "release_reset now server T = set_state now ConnStateRunningResetQuery uuid_nil server T"

definition release_pooler :: "'s pooler_api \<Rightarrow> int \<Rightarrow> uuid \<Rightarrow> nat \<Rightarrow> 's spool \<Rightarrow> 's spool option" where
  "release_pooler api now client server T = do {
     p \<leftarrow> pa_Release api now client (sv_ID (sp_heap T server)) (sp_pooler T);
     Some (T\<lparr>sp_pooler := p\<rparr>)
   }"

definition release_idle :: "int \<Rightarrow> nat \<Rightarrow> 's spool \<Rightarrow> 's spool" where
  "release_idle now server T = set_state now ConnStateIdle uuid_nil server T"

definition Release :: "'s pooler_api \<Rightarrow> int \<Rightarrow> uuid \<Rightarrow> nat \<Rightarrow> fed_error option \<Rightarrow> 's spool \<Rightarrow> 's spool option" where
  "Release api now client server reset T = (
     let T' = release_reset now server T in
     if cf_ResetQuery (sp_config T) \<noteq> '''' \<and> reset \<noteq> None then RemoveServer api server T'
     else do {
       T \<leftarrow> release_pooler api now client server (if cf_ResetQuery (sp_config T) \<noteq> '''' then T' else T);
       Some (release_idle now server T)
     })"

definition spool_Cancel :: "nat \<Rightarrow> 's spool \<Rightarrow> nat option" where
  "spool_Cancel server T = Chef_Cancel (sv_Conn (sp_heap T server)) (sp_chef T)"

definition spool_ReadMetrics :: "int \<Rightarrow> 's spool \<Rightarrow> (uuid \<times> conn_report) list \<times> 's spool" where
  "spool_ReadMetrics now T =
     fold (\<lambda>r (m, T). case ReadMetrics now (sv_state (sp_heap T r)) of (s, st) \<Rightarrow>
         (AList.update (sv_ID (sp_heap T r)) s m, T\<lparr>sp_heap := (sp_heap T)(r := (sp_heap T r)\<lparr>sv_state := st\<rparr>)\<rparr>))
       (map snd (sp_serversByID T)) ([], T)"

text \<open>The sections of \<^verbatim>\<open>Close\<close>.  Closing the channel \<^verbatim>\<open>closed\<close> a second time panics.\<close>

definition close_channel :: "'s spool \<Rightarrow> 's spool option" where
  "close_channel T = (if sp_closed T then None else Some (T\<lparr>sp_closed := True\<rparr>))"

definition close_chef :: "'s spool \<Rightarrow> 's spool" where
  "close_chef T = T\<lparr>sp_chef := Chef_Close (sp_chef T)\<rparr>"

definition close_pooler :: "'s pooler_api \<Rightarrow> 's spool \<Rightarrow> 's spool option" where
  "close_pooler api T = do { p \<leftarrow> pa_Close api (sp_pooler T); Some (T\<lparr>sp_pooler := p\<rparr>) }"

definition close_index :: "'s spool \<Rightarrow> 's spool" where
  "close_index T = T\<lparr>sp_serversByID := [], sp_serversByConn := []\<rparr>"

definition spool_Close :: "'s pooler_api \<Rightarrow> 's spool \<Rightarrow> 's spool option" where
  "spool_Close api T = do { T \<leftarrow> close_channel T; T \<leftarrow> close_pooler api (close_chef T); Some (close_index T) }"

end
