(* ===== verification/Spool_System.thy ===== *)
theory Spool_System
  imports Spool
begin

text \<open>
  The pool of servers with all its users, interleaved.  Goroutines call the pool concurrently; every section between
  two of its locks is one step: the sections of the chef's calls (\<^verbatim>\<open>Kitchen_Steps\<close>), the critical section that updates the
  indexes, the calls of the pooler, the lookup of \<^verbatim>\<open>Acquire\<close>, and the sections of \<^verbatim>\<open>Release\<close>, \<^verbatim>\<open>RemoveServer\<close> and \<^verbatim>\<open>Close\<close>.  A client
  runs through the phases below; an update of the indexes that a call of \<^verbatim>\<open>AddRecipe\<close>, \<^verbatim>\<open>RemoveRecipe\<close> or \<^verbatim>\<open>ScaleUp\<close> still
  has to do is a task.  The field \<open>ss_unlisted\<close> records which servers were listed when \<^verbatim>\<open>Close\<close> cleared the indexes.
  With the rob scheduler, \<open>pa_expires\<close> leaves out the one step after which nothing of this holds: the stale timeout of a
  client that was served already, while the slot of its stride holds the job of another client (\<open>rob_timeout_steals\<close> of
  \<^verbatim>\<open>Rob_Scheduler\<close>).
  The invariant is proved once, from the contract of the pooler, and holds for both poolers.
\<close>

section \<open>Clients and tasks\<close>

datatype phase =
    PNew | PIdle | PWait | PGot uuid | PDrop uuid | PHolds uuid | PReset uuid | PReleased uuid
  | PBurn uuid | PDelete uuid | PIndex uuid | PGone

datatype closing = COpen | CChef | CPooler | CIndex | CDone

record 's spool_sys =
  ss_pool :: "'s spool"
  ss_calls :: "kitchen_call list"
  ss_phase :: "uuid \<Rightarrow> phase"
  ss_tasks :: "(nat list \<times> nat list) list"
  ss_closing :: closing
  ss_unlisted :: "uuid list"

datatype spool_event =
    SChef kitchen_event | STask int nat | SScaleDown int
  | SClose | SCloseChef | SClosePooler | SCloseIndex
  | SAddClient uuid | SRemoveClient uuid
  | SAcquire int uuid | SReceive uuid | STimeout int uuid | SLookup int uuid | SDrop uuid
  | SSetState int uuid ConnState
  | SReset int uuid | SRelease int uuid | SSetIdle int uuid
  | SFail uuid | SBurn uuid | SDelete uuid | SIndex uuid

text \<open>The server that a client holds, as far as the pooler is concerned.\<close>

fun has :: "phase \<Rightarrow> uuid option" where
  "has (PGot v) = Some v"
| "has (PDrop v) = Some v"
| "has (PHolds v) = Some v"
| "has (PReset v) = Some v"
| "has (PBurn v) = Some v"
| "has (PDelete v) = Some v"
| "has (PIndex v) = Some v"
| "has _ = None"

fun spool_enabled :: "'s pooler_api \<Rightarrow> spool_event \<Rightarrow> 's spool_sys \<Rightarrow> bool" where
  "spool_enabled api (SChef ev) S = (reports ev \<and> kitchen_enabled ev (sp_chef (ss_pool S), ss_calls S))"
| "spool_enabled api (STask _ n) S = (n < length (ss_tasks S))"
| "spool_enabled api (SScaleDown _) S = True"
| "spool_enabled api SClose S = (\<not> sp_closed (ss_pool S))"
| "spool_enabled api SCloseChef S = (ss_closing S = CChef)"
| "spool_enabled api SClosePooler S = (ss_closing S = CPooler)"
| "spool_enabled api SCloseIndex S = (ss_closing S = CIndex)"
| "spool_enabled api (SAddClient t) S = (ss_phase S t = PNew)"
| "spool_enabled api (SRemoveClient t) S = (ss_phase S t = PIdle)"
| "spool_enabled api (SAcquire _ t) S = (ss_phase S t = PIdle)"
| "spool_enabled api (SReceive t) S = (ss_phase S t = PWait \<and> pa_ready api t (sp_pooler (ss_pool S)))"
| "spool_enabled api (STimeout _ t) S = (ss_phase S t = PWait \<and> pa_expires api t (sp_pooler (ss_pool S)))"
| "spool_enabled api (SLookup _ t) S = (case ss_phase S t of PGot _ \<Rightarrow> True | _ \<Rightarrow> False)"
| "spool_enabled api (SDrop t) S = (case ss_phase S t of PDrop _ \<Rightarrow> True | _ \<Rightarrow> False)"
| "spool_enabled api (SSetState _ t st) S = ((case ss_phase S t of PHolds _ \<Rightarrow> True | _ \<Rightarrow> False) \<and> st \<noteq> ConnStateIdle)"
| "spool_enabled api (SReset _ t) S = (cf_ResetQuery (sp_config (ss_pool S)) \<noteq> [] \<and> (case ss_phase S t of PHolds _ \<Rightarrow> True | _ \<Rightarrow> False))"
| "spool_enabled api (SRelease _ t) S = (case ss_phase S t of PHolds _ \<Rightarrow> cf_ResetQuery (sp_config (ss_pool S)) = [] | PReset _ \<Rightarrow> True | _ \<Rightarrow> False)"
| "spool_enabled api (SSetIdle _ t) S = (case ss_phase S t of PReleased _ \<Rightarrow> True | _ \<Rightarrow> False)"
| "spool_enabled api (SFail t) S = (case ss_phase S t of PHolds _ \<Rightarrow> True | PReset _ \<Rightarrow> True | _ \<Rightarrow> False)"
| "spool_enabled api (SBurn t) S = (case ss_phase S t of PBurn _ \<Rightarrow> True | _ \<Rightarrow> False)"
| "spool_enabled api (SDelete t) S = (case ss_phase S t of PDelete _ \<Rightarrow> True | _ \<Rightarrow> False)"
| "spool_enabled api (SIndex t) S = (case ss_phase S t of PIndex _ \<Rightarrow> True | _ \<Rightarrow> False)"

definition phase_server :: "uuid \<Rightarrow> 's spool_sys \<Rightarrow> uuid" where
  "phase_server t S = (case ss_phase S t of PReleased v \<Rightarrow> v | p \<Rightarrow> (case has p of Some v \<Rightarrow> v | None \<Rightarrow> uuid_nil))"

definition set_phase :: "uuid \<Rightarrow> phase \<Rightarrow> 's spool_sys \<Rightarrow> 's spool_sys" where
  "set_phase t p S = S\<lparr>ss_phase := (ss_phase S)(t := p)\<rparr>"

definition with_pool :: "'s spool option \<Rightarrow> 's spool_sys \<Rightarrow> 's spool_sys option" where
  "with_pool T S = map_option (\<lambda>T. S\<lparr>ss_pool := T\<rparr>) T"

definition add_task :: "nat list \<Rightarrow> nat list \<Rightarrow> 's spool_sys \<Rightarrow> 's spool_sys" where
  "add_task removed added S = (if removed = [] \<and> added = [] then S else S\<lparr>ss_tasks := ss_tasks S @ [(removed, added)]\<rparr>)"

text \<open>What a client does with the result of a call of the pooler.\<close>

definition got :: "uuid \<Rightarrow> uuid \<Rightarrow> 's \<Rightarrow> 's spool_sys \<Rightarrow> 's spool_sys" where
  "got t v p S = set_phase t (if v = uuid_nil then PIdle else PGot v) (S\<lparr>ss_pool := (ss_pool S)\<lparr>sp_pooler := p\<rparr>\<rparr>)"

definition lose :: "'s pooler_api \<Rightarrow> uuid \<Rightarrow> uuid \<Rightarrow> 's spool \<Rightarrow> 's spool" where
  "lose api t v T = T\<lparr>sp_pooler := pa_lost api t v (sp_pooler T)\<rparr>"

fun spool_exec :: "'s pooler_api \<Rightarrow> spool_event \<Rightarrow> 's spool_sys \<Rightarrow> 's spool_sys option" where
  "spool_exec api (SChef ev) S = do {
     ((removed, added), chef, calls) \<leftarrow> kitchen_step ev (sp_chef (ss_pool S), ss_calls S);
     Some (add_task removed added (S\<lparr>ss_pool := (ss_pool S)\<lparr>sp_chef := chef\<rparr>, ss_calls := calls\<rparr>))
   }"
| "spool_exec api (STask now n) S =
     (case ss_tasks S ! n of (removed, added) \<Rightarrow>
        with_pool (update_servers api now removed added (ss_pool S)) (S\<lparr>ss_tasks := take n (ss_tasks S) @ drop (Suc n) (ss_tasks S)\<rparr>))"
| "spool_exec api (SScaleDown now) S = with_pool (map_option snd (ScaleDown api now (ss_pool S))) S"
| "spool_exec api SClose S = with_pool (close_channel (ss_pool S)) (S\<lparr>ss_closing := CChef\<rparr>)"
| "spool_exec api SCloseChef S = Some (S\<lparr>ss_pool := close_chef (ss_pool S), ss_closing := CPooler\<rparr>)"
| "spool_exec api SClosePooler S = with_pool (close_pooler api (ss_pool S)) (S\<lparr>ss_closing := CIndex\<rparr>)"
| "spool_exec api SCloseIndex S =
     Some (S\<lparr>ss_pool := close_index (ss_pool S), ss_closing := CDone, ss_unlisted := ss_unlisted S @ map snd (sp_serversByID (ss_pool S))\<rparr>)"
| "spool_exec api (SAddClient t) S = with_pool (AddClient api t (ss_pool S)) (set_phase t PIdle S)"
| "spool_exec api (SRemoveClient t) S = with_pool (RemoveClient api t (ss_pool S)) (set_phase t PGone S)"
| "spool_exec api (SAcquire now t) S = do {
     (r, p) \<leftarrow> pa_Acquire api now t (sp_pooler (ss_pool S));
     Some (case r of None \<Rightarrow> set_phase t PWait (S\<lparr>ss_pool := (ss_pool S)\<lparr>sp_pooler := p\<rparr>\<rparr>) | Some v \<Rightarrow> got t v p S)
   }"
| "spool_exec api (SReceive t) S = do { (v, p) \<leftarrow> pa_Receive api t (sp_pooler (ss_pool S)); Some (got t v p S) }"
| "spool_exec api (STimeout now t) S = do { (v, p) \<leftarrow> pa_Timeout api now t (sp_pooler (ss_pool S)); Some (got t v p S) }"
| "spool_exec api (SLookup now t) S =
     (case acquire_lookup now t (phase_server t S) (ss_pool S) of
        (Some c, T) \<Rightarrow> Some (set_phase t (PHolds c) (S\<lparr>ss_pool := T\<rparr>))
      | (None, T) \<Rightarrow> Some (set_phase t (PDrop (phase_server t S)) (S\<lparr>ss_pool := T\<rparr>)))"
| "spool_exec api (SDrop t) S =
     with_pool (map_option (lose api t (phase_server t S)) (acquire_drop api (phase_server t S) (ss_pool S))) (set_phase t PIdle S)"
| "spool_exec api (SSetState now t st) S = Some (S\<lparr>ss_pool := set_state now st t (phase_server t S) (ss_pool S)\<rparr>)"
| "spool_exec api (SReset now t) S =
     Some (set_phase t (PReset (phase_server t S)) (S\<lparr>ss_pool := release_reset now (phase_server t S) (ss_pool S)\<rparr>))"
| "spool_exec api (SRelease now t) S =
     with_pool (release_pooler api now t (phase_server t S) (ss_pool S)) (set_phase t (PReleased (phase_server t S)) S)"
| "spool_exec api (SSetIdle now t) S =
     Some (set_phase t PIdle (S\<lparr>ss_pool := release_idle now (phase_server t S) (ss_pool S)\<rparr>))"
| "spool_exec api (SFail t) S = Some (set_phase t (PBurn (phase_server t S)) S)"
| "spool_exec api (SBurn t) S =
     Some (set_phase t (PDelete (phase_server t S)) (S\<lparr>ss_pool := remove_burn (phase_server t S) (ss_pool S)\<rparr>))"
| "spool_exec api (SDelete t) S =
     with_pool (remove_pooler api (phase_server t S) (ss_pool S)) (set_phase t (PIndex (phase_server t S)) S)"
| "spool_exec api (SIndex t) S =
     with_pool (map_option (lose api t (phase_server t S)) (remove_index api (phase_server t S) (ss_pool S))) (set_phase t PIdle S)"

definition spool_init :: "spool_config \<Rightarrow> 's \<Rightarrow> Chef \<Rightarrow> 's spool_sys" where
  "spool_init config p chef = \<lparr>ss_pool = MakePool config p chef, ss_calls = [], ss_phase = (\<lambda>_. PNew), ss_tasks = [],
     ss_closing = COpen, ss_unlisted = []\<rparr>"

abbreviation spool_reach :: "'s pooler_api \<Rightarrow> 's spool_sys \<Rightarrow> 's spool_sys \<Rightarrow> bool" where
  "spool_reach api init \<equiv> reachable init (spool_enabled api) (spool_exec api)"

section \<open>The invariant\<close>

definition reg :: "'s spool \<Rightarrow> uuid set" where
  "reg T = dom (map_of (sp_serversByID T))"

definition conn_of :: "'s spool \<Rightarrow> uuid \<Rightarrow> nat" where
  "conn_of T r = sv_Conn (sp_heap T r)"

text \<open>The two indexes hold the same servers, and no connection belongs to two servers.\<close>

definition index_ok :: "'s spool \<Rightarrow> bool" where
  "index_ok T \<longleftrightarrow> distinct (map fst (sp_serversByID T)) \<and> (\<forall>i r. map_of (sp_serversByID T) i = Some r \<longrightarrow> i = r) \<and>
     (\<forall>c r. map_of (sp_serversByConn T) c = Some r \<longleftrightarrow> r \<in> reg T \<and> conn_of T r = c) \<and>
     (\<forall>r. sv_ID (sp_heap T r) = r) \<and> 0 < sp_next T \<and> reg T \<subseteq> {1..<sp_next T} \<and>
     inj_on (conn_of T) {1..<sp_next T} \<and> conn_of T ` {1..<sp_next T} \<subseteq> handed (sp_chef T)"

text \<open>
  With the calls \<open>K\<close> under way: every open connection belongs to a registered server, to one (\<open>U\<close>) that \<^verbatim>\<open>Close\<close> dropped
  from the indexes, or is about to be registered (\<open>P\<close>); the pooler knows the registered servers, apart from those (\<open>D\<close>)
  that are on the way out.
\<close>

definition pool_ok ::
  "('s \<Rightarrow> bool) \<Rightarrow> ('s \<Rightarrow> pooler_view) \<Rightarrow> kitchen_call list \<Rightarrow> uuid set \<Rightarrow> nat set \<Rightarrow> uuid set \<Rightarrow> 's spool \<Rightarrow> bool" where
  "pool_ok iv view K U P D T \<longleftrightarrow> iv (sp_pooler T) \<and> chef_ok K (sp_chef T) \<and> index_ok T \<and>
     P \<subseteq> handed (sp_chef T) \<and> P \<inter> conn_of T ` {1..<sp_next T} = {} \<and>
     open_conns (sp_chef T) \<subseteq> conn_of T ` (reg T \<union> U) \<union> P \<and>
     vw_known (view (sp_pooler T)) \<subseteq> reg T \<union> U \<and> U \<subseteq> {1..<sp_next T} \<and>
     (\<not> vw_shut (view (sp_pooler T)) \<longrightarrow> reg T \<subseteq> vw_known (view (sp_pooler T)) \<union> D) \<and>
     vw_used (view (sp_pooler T)) \<subseteq> {1..<sp_next T}"

definition clients_same :: "('s \<Rightarrow> pooler_view) \<Rightarrow> 's \<Rightarrow> 's \<Rightarrow> bool" where
  "clients_same view p p' \<longleftrightarrow> vw_users (view p') = vw_users (view p) \<and> vw_waiting (view p') = vw_waiting (view p) \<and>
     vw_held (view p') = vw_held (view p)"

text \<open>What a call leaves as it is: the clients, the connections of old servers; new servers have new ids.\<close>

definition pool_frame :: "('s \<Rightarrow> pooler_view) \<Rightarrow> 's spool \<Rightarrow> 's spool \<Rightarrow> bool" where
  "pool_frame view T T' \<longleftrightarrow> clients_same view (sp_pooler T) (sp_pooler T') \<and> sp_next T \<le> sp_next T' \<and>
     (\<forall>r. r < sp_next T \<longrightarrow> conn_of T' r = conn_of T r) \<and> reg T' \<subseteq> reg T \<union> {sp_next T..} \<and> sp_config T' = sp_config T \<and>
     open_conns (sp_chef T') \<inter> handed (sp_chef T) \<subseteq> open_conns (sp_chef T) \<and> handed (sp_chef T) \<subseteq> handed (sp_chef T')"

definition pend :: "'s spool_sys \<Rightarrow> nat list" where
  "pend S = concat (map snd (ss_tasks S))"

definition tasks_ok :: "Chef \<Rightarrow> (nat list \<times> nat list) list \<Rightarrow> bool" where
  "tasks_ok chef tasks \<longleftrightarrow> distinct (concat (map snd tasks)) \<and>
     (\<forall>(removed, added)\<in>set tasks. \<forall>c\<in>set removed. c \<in> handed chef \<and> c \<notin> open_conns chef)"

definition phases_ok :: "pooler_view \<Rightarrow> 's spool \<Rightarrow> (uuid \<Rightarrow> phase) \<Rightarrow> bool" where
  "phases_ok V T phases \<longleftrightarrow> vw_waiting V = {t. phases t = PWait} \<and> vw_held V = {(t, v). has (phases t) = Some v} \<and>
     vw_users V \<subseteq> {t. phases t \<noteq> PNew} \<and> (\<forall>t v. phases t = PDrop v \<longrightarrow> v \<notin> reg T) \<and>
     (\<forall>t v. phases t = PDelete v \<or> phases t = PIndex v \<longrightarrow> conn_of T v \<notin> open_conns (sp_chef T))"

definition leaving :: "(uuid \<Rightarrow> phase) \<Rightarrow> uuid set" where
  "leaving phases = {v. \<exists>t. phases t = PIndex v}"

definition sys_ok :: "('s \<Rightarrow> bool) \<Rightarrow> ('s \<Rightarrow> pooler_view) \<Rightarrow> 's spool_sys \<Rightarrow> bool" where
  "sys_ok iv view S \<longleftrightarrow> pool_ok iv view (ss_calls S) (set (ss_unlisted S)) (set (pend S)) (leaving (ss_phase S)) (ss_pool S) \<and>
     tasks_ok (sp_chef (ss_pool S)) (ss_tasks S) \<and> phases_ok (view (sp_pooler (ss_pool S))) (ss_pool S) (ss_phase S)"

lemma pool_okD:
  assumes "pool_ok iv view K U P D T"
  shows "iv (sp_pooler T)" "chef_ok K (sp_chef T)" "index_ok T" "P \<subseteq> handed (sp_chef T)"
    "P \<inter> conn_of T ` {1..<sp_next T} = {}" "open_conns (sp_chef T) \<subseteq> conn_of T ` (reg T \<union> U) \<union> P"
    "vw_known (view (sp_pooler T)) \<subseteq> reg T \<union> U" "U \<subseteq> {1..<sp_next T}"
    "\<not> vw_shut (view (sp_pooler T)) \<Longrightarrow> reg T \<subseteq> vw_known (view (sp_pooler T)) \<union> D" "vw_used (view (sp_pooler T)) \<subseteq> {1..<sp_next T}"
  using assms unfolding pool_ok_def by blast+

lemma pool_okI:
  assumes "iv (sp_pooler T)" "chef_ok K (sp_chef T)" "index_ok T" "P \<subseteq> handed (sp_chef T)"
    "P \<inter> conn_of T ` {1..<sp_next T} = {}" "open_conns (sp_chef T) \<subseteq> conn_of T ` (reg T \<union> U) \<union> P"
    "vw_known (view (sp_pooler T)) \<subseteq> reg T \<union> U" "U \<subseteq> {1..<sp_next T}"
    "\<not> vw_shut (view (sp_pooler T)) \<Longrightarrow> reg T \<subseteq> vw_known (view (sp_pooler T)) \<union> D" "vw_used (view (sp_pooler T)) \<subseteq> {1..<sp_next T}"
  shows "pool_ok iv view K U P D T"
  using assms unfolding pool_ok_def by blast

lemma index_okD:
  assumes "index_ok T"
  shows "map_of (sp_serversByID T) i = Some r \<Longrightarrow> i = r"
    "map_of (sp_serversByConn T) c = Some r \<longleftrightarrow> r \<in> reg T \<and> conn_of T r = c" "sv_ID (sp_heap T r) = r" "0 < sp_next T"
    "reg T \<subseteq> {1..<sp_next T}" "inj_on (conn_of T) {1..<sp_next T}" "conn_of T ` {1..<sp_next T} \<subseteq> handed (sp_chef T)"
    "distinct (map fst (sp_serversByID T))"
  using assms unfolding index_ok_def by blast+

section \<open>The calls of the pool\<close>

text \<open>The invariant looks at the pooler, the chef and the connections of servers only.\<close>

lemma conn_of_fields [simp]:
  "conn_of (T\<lparr>sp_closed := b\<rparr>) = conn_of T" "conn_of (T\<lparr>sp_pooler := p\<rparr>) = conn_of T" "conn_of (T\<lparr>sp_chef := ch\<rparr>) = conn_of T" "conn_of (set_state now st peer r T) = conn_of T"
  by (auto simp: conn_of_def set_state_def)

lemma reg_fields [simp]:
  "reg (T\<lparr>sp_closed := b\<rparr>) = reg T" "reg (T\<lparr>sp_pooler := p\<rparr>) = reg T" "reg (T\<lparr>sp_chef := ch\<rparr>) = reg T" "reg (set_state now st peer r T) = reg T"
  by (simp_all add: reg_def set_state_def)

lemma set_state_fields [simp]:
  "sp_pooler (set_state now st peer r T) = sp_pooler T" "sp_chef (set_state now st peer r T) = sp_chef T"
  "sp_next (set_state now st peer r T) = sp_next T" "sp_closed (set_state now st peer r T) = sp_closed T"
  "sp_config (set_state now st peer r T) = sp_config T" "sp_serversByID (set_state now st peer r T) = sp_serversByID T"
  "sp_serversByConn (set_state now st peer r T) = sp_serversByConn T"
  "sv_ID (sp_heap (set_state now st peer r T) x) = sv_ID (sp_heap T x)"
  by (simp_all add: set_state_def)

lemma index_ok_fields:
  "index_ok (T\<lparr>sp_pooler := p\<rparr>) = index_ok T" "index_ok (set_state now st peer r T) = index_ok T"
  by (simp_all add: index_ok_def)

lemma pool_ok_set_state: "pool_ok iv view K U P D (set_state now st peer r T) = pool_ok iv view K U P D T"
  by (simp add: pool_ok_def index_ok_fields)

lemma pool_frame_refl [simp]: "pool_frame view T T"
  by (simp add: pool_frame_def clients_same_def)

lemma pool_frame_set_state [simp]: "pool_frame view T (set_state now st peer r T)"
  by (simp add: pool_frame_def clients_same_def)

lemma pool_frame_trans:
  assumes "pool_frame view T T'" "pool_frame view T' T''"
  shows "pool_frame view T T''"
proof -
  note a = assms [unfolded pool_frame_def clients_same_def]
  have "reg T'' \<subseteq> reg T \<union> {sp_next T..}"
    by (rule subset_trans [of _ "reg T' \<union> {sp_next T'..}"]) (use a in auto)
  moreover have "open_conns (sp_chef T'') \<inter> handed (sp_chef T) \<subseteq> open_conns (sp_chef T)"
    "handed (sp_chef T) \<subseteq> handed (sp_chef T'')" using a by blast+
  moreover have "conn_of T'' r = conn_of T r" if "r < sp_next T" for r
    using a that by (metis less_le_trans)
  ultimately show ?thesis using a unfolding pool_frame_def clients_same_def by simp
qed

lemma pool_ok_chef:
  assumes "pool_ok iv view K U P D T" "chef_steps K' R A (sp_chef T) chef"
  shows "pool_ok iv view K' U (P \<union> A) D (T\<lparr>sp_chef := chef\<rparr>)" "pool_frame view T (T\<lparr>sp_chef := chef\<rparr>)"
proof -
  note d = pool_okD [OF assms(1)]
  have c: "chef_ok K' chef" "open_conns chef = (open_conns (sp_chef T) - R) \<union> A" "A \<inter> handed (sp_chef T) = {}"
    "handed (sp_chef T) \<subseteq> handed chef" using assms(2) by (simp_all add: chef_steps_def chef_change_def)
  have i: "index_ok (T\<lparr>sp_chef := chef\<rparr>)" using d(3) c(4) unfolding index_ok_def by auto
  have "A \<inter> conn_of T ` {1..<sp_next T} = {}" "A \<subseteq> handed chef" using index_okD(7) [OF d(3)] c(2,3) by (auto simp: handed_def)
  with d c i show "pool_ok iv view K' U (P \<union> A) D (T\<lparr>sp_chef := chef\<rparr>)" unfolding pool_ok_def by auto
  show "pool_frame view T (T\<lparr>sp_chef := chef\<rparr>)" using c by (auto simp: pool_frame_def clients_same_def)
qed

context spool_pooler
begin

lemma addServer_ok:
  assumes "pool_ok invar view K U P D T" "c \<in> P"
  shows "\<exists>T'. addServer api now c T = Some T' \<and> pool_ok invar view K U (P - {c}) D T' \<and> pool_frame view T T' \<and> sp_chef T' = sp_chef T"
proof -
  note d = pool_okD [OF assms(1)] and x = index_okD [OF pool_okD(3) [OF assms(1)]]
  let ?n = "sp_next T"
  have "?n \<notin> vw_used (view (sp_pooler T))" "?n \<noteq> uuid_nil" using d(10) x(4) by auto
  from add_server [OF d(1) this(2,1), of now] obtain p N where
    p: "pa_AddServer api now ?n (sp_pooler T) = Some p" "invar p"
      "view p = (view (sp_pooler T))\<lparr>vw_known := N, vw_used := insert ?n (vw_used (view (sp_pooler T)))\<rparr>"
      "N \<subseteq> insert ?n (vw_known (view (sp_pooler T)))" "\<not> vw_shut (view (sp_pooler T)) \<longrightarrow> N = insert ?n (vw_known (view (sp_pooler T)))"
    by (elim exE conjE) rule
  let ?T = "T\<lparr>sp_middleware := (sp_middleware T)(c := sp_middleware T c @ server_middlewares (sp_config T)),
      sp_heap := (sp_heap T)(?n := NewServer now ?n c), sp_next := ?n + 1,
      sp_serversByID := AList.update ?n ?n (sp_serversByID T), sp_serversByConn := AList.update c ?n (sp_serversByConn T), sp_pooler := p\<rparr>"
  have T: "addServer api now c T = Some ?T" using p(1) by (simp add: addServer_def Let_def)
  have r: "reg ?T = insert ?n (reg T)" by (auto simp: reg_def update_conv' split: if_splits)
  have co: "conn_of ?T = (conn_of T)(?n := c)" by (auto simp: conn_of_def NewServer_def)
  have n: "?n \<notin> reg T" "{1..<?n + 1} = insert ?n {1..<?n}" using x(4,5) by auto
  have cn: "c \<notin> conn_of T ` {1..<?n}" "c \<in> handed (sp_chef T)" using d(4,5) assms(2) by auto
  have im: "conn_of ?T ` {1..<?n + 1} = insert c (conn_of T ` {1..<?n})" unfolding n(2) co by (auto simp: image_iff)
  have U: "?n \<notin> U" using d(8) by auto
  have im': "conn_of ?T ` (insert ?n (reg T) \<union> U) = insert c (conn_of T ` (reg T \<union> U))" unfolding co using n(1) U by (auto simp: image_iff)
  have "index_ok ?T"
    unfolding index_ok_def r
  proof (intro conjI allI impI)
    fix i s assume "map_of (sp_serversByID ?T) i = Some s"
    then show "i = s" using x(1) by (auto simp: update_conv' split: if_splits)
  next
    fix k s
    have "map_of (sp_serversByConn ?T) k = Some s \<longleftrightarrow> (if k = c then s = ?n else map_of (sp_serversByConn T) k = Some s)"
      by (auto simp: update_conv')
    moreover have "s \<in> reg T \<Longrightarrow> conn_of T s \<noteq> c" using cn(1) x(5) by auto
    ultimately show "map_of (sp_serversByConn ?T) k = Some s \<longleftrightarrow> s \<in> insert ?n (reg T) \<and> conn_of ?T s = k"
      unfolding x(2) co using n(1) by auto
  next
    show "inj_on (conn_of ?T) {1..<sp_next ?T}" using x(6) cn(1) n(2) unfolding co by (auto simp: inj_on_def image_iff)
    show "conn_of ?T ` {1..<sp_next ?T} \<subseteq> handed (sp_chef ?T)" using x(7) cn(2) im by simp
  qed (use x in \<open>auto simp: NewServer_def intro: distinct_update\<close>)
  then have "pool_ok invar view K U (P - {c}) D ?T"
  proof (rule pool_okI [rotated 2])
    show "(P - {c}) \<inter> conn_of ?T ` {1..<sp_next ?T} = {}" using d(5) im by auto
    show "open_conns (sp_chef ?T) \<subseteq> conn_of ?T ` (reg ?T \<union> U) \<union> (P - {c})" unfolding r im' using d(6) by auto
    show "vw_known (view (sp_pooler ?T)) \<subseteq> reg ?T \<union> U" unfolding r using p(3,4) d(7) by auto
    show "reg ?T \<subseteq> vw_known (view (sp_pooler ?T)) \<union> D" if "\<not> vw_shut (view (sp_pooler ?T))"
      unfolding r using that p(3,5) d(9) by auto
    show "U \<subseteq> {1..<sp_next ?T}" using d(8) by auto
    show "vw_used (view (sp_pooler ?T)) \<subseteq> {1..<sp_next ?T}" using p(3) d(10) x(4) by auto
  qed (use d p in auto)
  moreover have "pool_frame view T ?T"
    unfolding pool_frame_def clients_same_def r co using p(3) by auto
  ultimately show ?thesis using T by auto
qed


lemma index_order: "T\<lparr>sp_serversByConn := a, sp_serversByID := b\<rparr> = T\<lparr>sp_serversByID := b, sp_serversByConn := a\<rparr>"
  by simp

lemma removeServer_fresh: "map_of (sp_serversByConn T) c = None \<Longrightarrow> removeServer api c T = Some T"
  by (simp add: removeServer_def)

text \<open>A server whose connection is closed leaves both indexes and the pooler.\<close>

lemma unregister_ok:
  assumes "pool_ok invar view K U P D T" "conn_of T r \<notin> open_conns (sp_chef T)" "r \<in> {1..<sp_next T}" "D \<subseteq> insert r D'"
  shows "\<exists>p. pa_DeleteServer api r (sp_pooler T) = Some p \<and>
    (let T' = T\<lparr>sp_serversByID := AList.delete r (sp_serversByID T), sp_serversByConn := AList.delete (conn_of T r) (sp_serversByConn T), sp_pooler := p\<rparr> in
     pool_ok invar view K U P D' T' \<and> pool_frame view T T' \<and> r \<notin> vw_known (view p))"
proof -
  note d = pool_okD [OF assms(1)] and x = index_okD [OF pool_okD(3) [OF assms(1)]]
  from delete_server [OF d(1), of r] obtain p where
    p: "pa_DeleteServer api r (sp_pooler T) = Some p" "invar p" "view p = (view (sp_pooler T))\<lparr>vw_known := vw_known (view (sp_pooler T)) - {r}\<rparr>"
    by (elim exE conjE) rule
  let ?T = "T\<lparr>sp_serversByID := AList.delete r (sp_serversByID T), sp_serversByConn := AList.delete (conn_of T r) (sp_serversByConn T), sp_pooler := p\<rparr>"
  have r: "reg ?T = reg T - {r}" by (auto simp: reg_def delete_conv' split: if_splits)
  have co: "conn_of ?T = conn_of T" by (intro ext) (simp add: conn_of_def)
  have one: "conn_of T s = conn_of T r \<Longrightarrow> s \<in> reg T \<Longrightarrow> s = r" for s using x(5,6) assms(3) by (auto dest: inj_onD)
  have "index_ok ?T"
    unfolding index_ok_def r co
  proof (intro conjI allI impI)
    fix i s assume "map_of (sp_serversByID ?T) i = Some s"
    then show "i = s" using x(1) by (auto simp: delete_conv' split: if_splits)
  next
    fix k s
    have "map_of (sp_serversByConn ?T) k = Some s \<longleftrightarrow> k \<noteq> conn_of T r \<and> map_of (sp_serversByConn T) k = Some s"
      by (simp add: delete_conv' split: if_splits)
    then show "map_of (sp_serversByConn ?T) k = Some s \<longleftrightarrow> s \<in> reg T - {r} \<and> conn_of T s = k"
      unfolding x(2) using one by auto
  qed (use x in \<open>auto intro: distinct_delete\<close>)
  then have "pool_ok invar view K U P D' ?T"
  proof (rule pool_okI [rotated 2])
    show "open_conns (sp_chef ?T) \<subseteq> conn_of ?T ` (reg ?T \<union> U) \<union> P" unfolding r co using d(6) assms(2) by auto
    show "vw_known (view (sp_pooler ?T)) \<subseteq> reg ?T \<union> U" unfolding r using p(3) d(7) by auto
    show "reg ?T \<subseteq> vw_known (view (sp_pooler ?T)) \<union> D'" if "\<not> vw_shut (view (sp_pooler ?T))"
      unfolding r using that p(3) d(9) assms(4) by auto
  qed (use d p co in auto)
  moreover have "pool_frame view T ?T" unfolding pool_frame_def clients_same_def r co using p(3) by auto
  ultimately show ?thesis using p by (intro exI [of _ p]) (simp add: Let_def)
qed

lemma removeServer_ok:
  assumes "pool_ok invar view K U P D T" "c \<notin> open_conns (sp_chef T)"
  shows "\<exists>T'. removeServer api c T = Some T' \<and> pool_ok invar view K U P D T' \<and> pool_frame view T T' \<and> sp_chef T' = sp_chef T"
proof (cases "map_of (sp_serversByConn T) c")
  case None
  with assms(1) show ?thesis by (simp add: removeServer_fresh)
next
  case (Some r)
  note x = index_okD [OF pool_okD(3) [OF assms(1)]]
  from Some have r: "r \<in> reg T" "conn_of T r = c" using x(2) by simp_all
  then have "r \<in> {1..<sp_next T}" using x(5) by blast
  from unregister_ok [OF assms(1) _ this, of D] assms(2) r(2) obtain p where "pa_DeleteServer api r (sp_pooler T) = Some p"
    "pool_ok invar view K U P D (T\<lparr>sp_serversByID := AList.delete r (sp_serversByID T), sp_serversByConn := AList.delete c (sp_serversByConn T), sp_pooler := p\<rparr>)"
    "pool_frame view T (T\<lparr>sp_serversByID := AList.delete r (sp_serversByID T), sp_serversByConn := AList.delete c (sp_serversByConn T), sp_pooler := p\<rparr>)"
    by (auto simp: Let_def)
  with Some x(3) show ?thesis by (simp add: removeServer_def Let_def index_order)
qed

lemma fold_remove_ok:
  "pool_ok invar view K U P D T \<Longrightarrow> set cs \<inter> open_conns (sp_chef T) = {} \<Longrightarrow>
    \<exists>T'. foldM (removeServer api) cs T = Some T' \<and> pool_ok invar view K U P D T' \<and> pool_frame view T T' \<and> sp_chef T' = sp_chef T"
proof (induction cs arbitrary: T)
  case (Cons c cs)
  from removeServer_ok [OF Cons.prems(1), of c] Cons.prems(2) obtain T1 where
    T1: "removeServer api c T = Some T1" "pool_ok invar view K U P D T1" "pool_frame view T T1" "sp_chef T1 = sp_chef T" by auto
  from Cons.IH [OF T1(2)] Cons.prems(2) T1(4) obtain T2 where
    "foldM (removeServer api) cs T1 = Some T2" "pool_ok invar view K U P D T2" "pool_frame view T1 T2" "sp_chef T2 = sp_chef T" by auto
  with T1 pool_frame_trans [OF T1(3)] show ?case by auto
qed simp

lemma fold_add_ok:
  "pool_ok invar view K U P D T \<Longrightarrow> set cs \<subseteq> P \<Longrightarrow> distinct cs \<Longrightarrow>
    \<exists>T'. foldM (addServer api now) cs T = Some T' \<and> pool_ok invar view K U (P - set cs) D T' \<and> pool_frame view T T' \<and> sp_chef T' = sp_chef T"
proof (induction cs arbitrary: T P)
  case (Cons c cs)
  from addServer_ok [OF Cons.prems(1), of c now] Cons.prems(2) obtain T1 where
    T1: "addServer api now c T = Some T1" "pool_ok invar view K U (P - {c}) D T1" "pool_frame view T T1" "sp_chef T1 = sp_chef T" by auto
  have "P - {c} - set cs = P - set (c # cs)" by auto
  with Cons.IH [OF T1(2)] Cons.prems(2,3) T1(4) obtain T2 where
    "foldM (addServer api now) cs T1 = Some T2" "pool_ok invar view K U (P - set (c # cs)) D T2" "pool_frame view T1 T2" "sp_chef T2 = sp_chef T" by auto
  with T1 pool_frame_trans [OF T1(3)] show ?case by auto
qed simp

lemma update_servers_ok:
  assumes "pool_ok invar view K U P D T" "set removed \<inter> open_conns (sp_chef T) = {}" "set added \<subseteq> P" "distinct added"
  shows "\<exists>T'. update_servers api now removed added T = Some T' \<and> pool_ok invar view K U (P - set added) D T' \<and> pool_frame view T T' \<and>
    sp_chef T' = sp_chef T"
proof -
  from fold_remove_ok [OF assms(1,2)] obtain T1 where
    T1: "foldM (removeServer api) removed T = Some T1" "pool_ok invar view K U P D T1" "pool_frame view T T1" "sp_chef T1 = sp_chef T" by auto
  from fold_add_ok [OF T1(2) assms(3,4), of now] T1 pool_frame_trans [OF T1(3)] show ?thesis
    by (auto simp: update_servers_def)
qed

lemma delete_ok:
  assumes "pool_ok invar view K U P D T" "D \<subseteq> D'" "v \<in> reg T \<longrightarrow> v \<in> D'"
  shows "\<exists>p. pa_DeleteServer api v (sp_pooler T) = Some p \<and> pool_ok invar view K U P D' (T\<lparr>sp_pooler := p\<rparr>) \<and>
    pool_frame view T (T\<lparr>sp_pooler := p\<rparr>) \<and> v \<notin> vw_known (view p)"
proof -
  note d = pool_okD [OF assms(1)]
  from delete_server [OF d(1), of v] obtain p where
    p: "pa_DeleteServer api v (sp_pooler T) = Some p" "invar p" "view p = (view (sp_pooler T))\<lparr>vw_known := vw_known (view (sp_pooler T)) - {v}\<rparr>"
    by (elim exE conjE) rule
  have "pool_ok invar view K U P D' (T\<lparr>sp_pooler := p\<rparr>)"
  proof (rule pool_okI)
    show "reg (T\<lparr>sp_pooler := p\<rparr>) \<subseteq> vw_known (view (sp_pooler (T\<lparr>sp_pooler := p\<rparr>))) \<union> D'"
      if "\<not> vw_shut (view (sp_pooler (T\<lparr>sp_pooler := p\<rparr>)))"
      using that p(3) d(9) assms(2,3) by auto
  qed (use d p in \<open>auto simp: index_ok_fields\<close>)
  moreover have "pool_frame view T (T\<lparr>sp_pooler := p\<rparr>)" unfolding pool_frame_def clients_same_def using p(3) by auto
  ultimately show ?thesis using p by auto
qed

text \<open>The view changes in what concerns the clients only.\<close>

lemma pooler_ok:
  assumes "pool_ok invar view K U P D T" "invar p" "vw_known (view p) = vw_known (view (sp_pooler T))"
    "vw_shut (view p) = vw_shut (view (sp_pooler T))" "vw_used (view p) = vw_used (view (sp_pooler T))"
  shows "pool_ok invar view K U P D (T\<lparr>sp_pooler := p\<rparr>)"
  using assms unfolding pool_ok_def by (simp add: index_ok_fields)

lemma scale_down_server_ok:
  assumes "pool_ok invar view K U P D T" "s \<in> {1..<sp_next T}"
  shows "\<exists>m' T'. scale_down_server api now s (m, T) = Some (m', T') \<and> pool_ok invar view K U P D T' \<and> pool_frame view T T'"
proof (cases "cs_state (sv_state (sp_heap T s)) = ConnStateIdle \<and> now - cs_since (sv_state (sp_heap T s)) > cf_IdleTimeout (sp_config T)")
  case False
  with assms(1) show ?thesis by (auto simp: scale_down_server_def GetState_def Let_def)
next
  case True
  note d = pool_okD [OF assms(1)] and x = index_okD [OF pool_okD(3) [OF assms(1)]]
  obtain b chef where i: "Ignite (conn_of T s) (sp_chef T) = (b, chef)" by fastforce
  let ?T = "T\<lparr>sp_chef := chef\<rparr>"
  note c = chef_steps_call [OF d(2) Ignite_change [OF chef_okD [OF d(2)] i]]
  have ok: "pool_ok invar view K U P D ?T" "pool_frame view T ?T" using pool_ok_chef [OF assms(1) c] by simp_all
  show ?thesis
  proof (cases b)
    case False
    with True i ok show ?thesis by (simp add: scale_down_server_def GetState_def Let_def conn_of_def)
  next
    case b: True
    have "conn_of ?T s \<notin> open_conns (sp_chef ?T)" using c b by (simp add: chef_steps_def chef_change_def)
    from unregister_ok [OF ok(1) this, of D] assms(2) obtain p where "pa_DeleteServer api s (sp_pooler T) = Some p"
      "pool_ok invar view K U P D (?T\<lparr>sp_serversByID := AList.delete s (sp_serversByID T), sp_serversByConn := AList.delete (conn_of T s) (sp_serversByConn T), sp_pooler := p\<rparr>)"
      "pool_frame view ?T (?T\<lparr>sp_serversByID := AList.delete s (sp_serversByID T), sp_serversByConn := AList.delete (conn_of T s) (sp_serversByConn T), sp_pooler := p\<rparr>)"
      by (auto simp: Let_def)
    with True b i x(3) pool_frame_trans [OF ok(2)] show ?thesis
      by (simp add: scale_down_server_def GetState_def Let_def conn_of_def)
  qed
qed

lemma fold_scale_down_ok:
  "pool_ok invar view K U P D T \<Longrightarrow> set ss \<subseteq> {1..<sp_next T} \<Longrightarrow>
    \<exists>m' T'. foldM (scale_down_server api now) ss (m, T) = Some (m', T') \<and> pool_ok invar view K U P D T' \<and> pool_frame view T T'"
proof (induction ss arbitrary: m T)
  case (Cons s ss)
  from scale_down_server_ok [OF Cons.prems(1), of s now m] Cons.prems(2) obtain m1 T1 where
    T1: "scale_down_server api now s (m, T) = Some (m1, T1)" "pool_ok invar view K U P D T1" "pool_frame view T T1" by auto
  have "set ss \<subseteq> {1..<sp_next T1}" using Cons.prems(2) T1(3) by (auto simp: pool_frame_def)
  from Cons.IH [OF T1(2) this, of m1] T1 pool_frame_trans [OF T1(3)] show ?case by auto
qed simp

lemma ScaleDown_ok:
  assumes "pool_ok invar view K U P D T"
  shows "\<exists>m T'. ScaleDown api now T = Some (m, T') \<and> pool_ok invar view K U P D T' \<and> pool_frame view T T'"
  unfolding ScaleDown_def
proof (rule fold_scale_down_ok [OF assms])
  note x = index_okD [OF pool_okD(3) [OF assms]]
  have "s \<in> reg T" if "(i, s) \<in> set (sp_serversByID T)" for i s
    using that x(1,8) unfolding reg_def by (metis domI map_of_eq_Some_iff)
  then show "set (map snd (sp_serversByID T)) \<subseteq> {1..<sp_next T}" using x(5) by auto
qed

lemma close_channel_ok:
  assumes "pool_ok invar view K U P D T" "\<not> sp_closed T"
  shows "\<exists>T'. close_channel T = Some T' \<and> pool_ok invar view K U P D T' \<and> pool_frame view T T'"
  using assms by (simp add: close_channel_def pool_ok_def pool_frame_def clients_same_def index_ok_def)

lemma close_chef_ok:
  assumes "pool_ok invar view K U P D T"
  shows "pool_ok invar view K U P D (close_chef T) \<and> pool_frame view T (close_chef T)"
  unfolding close_chef_def
  using pool_ok_chef [OF assms chef_steps_call [OF pool_okD(2) [OF assms] Close_change [OF chef_okD [OF pool_okD(2) [OF assms]]]]] by simp

lemma close_pooler_ok:
  assumes "pool_ok invar view K U P D T"
  shows "\<exists>T'. close_pooler api T = Some T' \<and> pool_ok invar view K U P D T' \<and> pool_frame view T T'"
proof -
  note d = pool_okD [OF assms]
  from close [OF d(1)] obtain p where
    p: "pa_Close api (sp_pooler T) = Some p" "invar p" "view p = (view (sp_pooler T))\<lparr>vw_known := {}, vw_shut := True\<rparr>"
    by (elim exE conjE) rule
  have "pool_ok invar view K U P D (T\<lparr>sp_pooler := p\<rparr>)"
    by (rule pool_okI) (use d p in \<open>simp_all add: index_ok_fields\<close>)
  moreover have "pool_frame view T (T\<lparr>sp_pooler := p\<rparr>)" unfolding pool_frame_def clients_same_def using p(3) by auto
  ultimately show ?thesis using p(1) by (simp add: close_pooler_def)
qed

lemma close_index_ok:
  assumes "pool_ok invar view K U P D T"
  shows "pool_ok invar view K (U \<union> reg T) P D (close_index T) \<and> pool_frame view T (close_index T)"
proof -
  note d = pool_okD [OF assms] and x = index_okD [OF pool_okD(3) [OF assms]]
  let ?T = "close_index T"
  have r: "reg ?T = {}" "conn_of ?T = conn_of T" by (simp_all add: close_index_def reg_def conn_of_def [abs_def])
  have f: "sp_chef ?T = sp_chef T" "sp_pooler ?T = sp_pooler T" "sp_next ?T = sp_next T" "sp_config ?T = sp_config T"
    by (simp_all add: close_index_def)
  have "index_ok ?T" using x unfolding index_ok_def r f by (auto simp: close_index_def)
  then have "pool_ok invar view K (U \<union> reg T) P D ?T"
    by (rule pool_okI [rotated 2]) (use d x(5) in \<open>auto simp: r f\<close>)
  then show ?thesis by (simp add: pool_frame_def clients_same_def r f)
qed

end

end
