(* ===== verification/Spool_Safety.thy ===== *)
theory Spool_Safety
  imports Spool_System
begin

text \<open>
  Every step of the pool of servers keeps the invariant of \<^verbatim>\<open>Spool_System\<close>, and what follows for both poolers: no step
  panics, no two clients use the same server, no open connection is forgotten, and the pooler knows exactly the
  registered servers.  The last part has the race of \<^verbatim>\<open>Release\<close>.
\<close>

section \<open>Clients\<close>

lemma phases_set:
  assumes "phases_ok V T phases" "vw_waiting V' = (if p = PWait then insert t (vw_waiting V) else vw_waiting V - {t})"
    "vw_held V' = {x \<in> vw_held V. fst x \<noteq> t} \<union> (case has p of None \<Rightarrow> {} | Some v \<Rightarrow> {(t, v)})"
    "vw_users V' \<subseteq> insert t (vw_users V)" "p \<noteq> PNew" "\<And>v. p = PDrop v \<Longrightarrow> v \<notin> reg T"
    "\<And>v. p = PDelete v \<or> p = PIndex v \<Longrightarrow> conn_of T v \<notin> open_conns (sp_chef T)"
  shows "phases_ok V' T (phases(t := p))"
proof -
  note a = assms(1) [unfolded phases_ok_def]
  have "vw_waiting V' = {x. (phases(t := p)) x = PWait}" using a assms(2) by (auto split: if_splits)
  moreover have "vw_held V' = {(x, v). has ((phases(t := p)) x) = Some v}" using a assms(3) by (auto split: if_splits option.splits)
  moreover have "vw_users V' \<subseteq> {x. (phases(t := p)) x \<noteq> PNew}" using a assms(4,5) by auto
  moreover have "v \<notin> reg T" if "(phases(t := p)) x = PDrop v" for x v using that a assms(6) by (auto split: if_splits)
  moreover have "conn_of T v \<notin> open_conns (sp_chef T)" if "(phases(t := p)) x = PDelete v \<or> (phases(t := p)) x = PIndex v" for x v
    using that a assms(7) by (auto split: if_splits)
  ultimately show ?thesis unfolding phases_ok_def by blast
qed

lemma leaving_upd: "leaving phases \<subseteq> leaving (phases(t := p)) \<union> {v. phases t = PIndex v}"
  by (auto simp: leaving_def)

lemma leaving_same: "(\<And>v. phases t \<noteq> PIndex v) \<Longrightarrow> (\<And>v. p \<noteq> PIndex v) \<Longrightarrow> leaving (phases(t := p)) = leaving phases"
  unfolding leaving_def by (metis fun_upd_apply)

lemma has_held: "phases_ok V T phases \<Longrightarrow> has (phases t) = Some v \<longleftrightarrow> (t, v) \<in> vw_held V"
  by (simp add: phases_ok_def)

lemma tasks_ok_frame:
  "tasks_ok (sp_chef T) tasks \<Longrightarrow> pool_frame view T T' \<Longrightarrow> tasks_ok (sp_chef T') tasks"
proof -
  assume a: "tasks_ok (sp_chef T) tasks" and f: "pool_frame view T T'"
  have "c \<in> handed (sp_chef T') \<and> c \<notin> open_conns (sp_chef T')" if "(removed, added) \<in> set tasks" "c \<in> set removed" for removed added c
  proof -
    have "c \<in> handed (sp_chef T)" "c \<notin> open_conns (sp_chef T)" using a that by (auto simp: tasks_ok_def)
    with f show ?thesis unfolding pool_frame_def by auto
  qed
  with a show ?thesis by (auto simp: tasks_ok_def)
qed

lemma tasks_ok_sub: "tasks_ok chef ts \<Longrightarrow> set ts' \<subseteq> set ts \<Longrightarrow> distinct (concat (map snd ts')) \<Longrightarrow> tasks_ok chef ts'"
  unfolding tasks_ok_def by blast

context spool_pooler
begin

lemma held_range:
  assumes "pool_ok invar view K U P D T" "(t, v) \<in> vw_held (view (sp_pooler T))"
  shows "v \<in> {1..<sp_next T}" "v \<noteq> uuid_nil"
proof -
  note d = pool_okD [OF assms(1)] and r = registered [OF pool_okD(1) [OF assms(1)]]
  have "v \<in> vw_used (view (sp_pooler T))" using r assms(2) by force
  then show "v \<in> {1..<sp_next T}" "v \<noteq> uuid_nil" using d(10) r by auto
qed

lemma phases_frame:
  assumes "pool_ok invar view K U P D T" "phases_ok (view (sp_pooler T)) T phases" "pool_frame view T T'"
  shows "phases_ok (view (sp_pooler T')) T' phases"
proof -
  note a = assms(2) [unfolded phases_ok_def] and f = assms(3) [unfolded pool_frame_def clients_same_def]
    and x = index_okD [OF pool_okD(3) [OF assms(1)]]
  have range: "v \<in> {1..<sp_next T}" if "has (phases t) = Some v" for t v
    using held_range(1) [OF assms(1)] that has_held [OF assms(2)] by blast
  have "v \<notin> reg T'" if "phases t = PDrop v" for t v
    using range [of t v] that a f by auto
  moreover have "conn_of T' v \<notin> open_conns (sp_chef T')" if "phases t = PDelete v \<or> phases t = PIndex v" for t v
  proof -
    have v: "v \<in> {1..<sp_next T}" using range [of t v] that by auto
    then have "conn_of T v \<in> handed (sp_chef T)" using x(7) by blast
    moreover have "conn_of T v \<notin> open_conns (sp_chef T)" using a that by blast
    moreover have "conn_of T' v = conn_of T v" using f v by auto
    ultimately show ?thesis using f by auto
  qed
  ultimately show ?thesis using a f unfolding phases_ok_def by auto
qed

text \<open>A step that changes the pool but no phase and no task.\<close>

lemma sys_pool:
  assumes "sys_ok invar view S" "pool_ok invar view (ss_calls S) (set (ss_unlisted S)) (set (pend S)) (leaving (ss_phase S)) T'" "pool_frame view (ss_pool S) T'"
  shows "sys_ok invar view (S\<lparr>ss_pool := T'\<rparr>)"
proof -
  have s: "pool_ok invar view (ss_calls S) (set (ss_unlisted S)) (set (pend S)) (leaving (ss_phase S)) (ss_pool S)"
    "tasks_ok (sp_chef (ss_pool S)) (ss_tasks S)" "phases_ok (view (sp_pooler (ss_pool S))) (ss_pool S) (ss_phase S)"
    using assms(1) by (simp_all add: sys_ok_def)
  from assms(2) phases_frame [OF s(1,3) assms(3)] tasks_ok_frame [OF s(2) assms(3)] show ?thesis
    by (simp add: sys_ok_def pend_def)
qed

text \<open>A step of a client: the pool keeps what it has to, and the phase follows the view of the pooler.\<close>

lemma sys_client:
  assumes "sys_ok invar view S" "pool_ok invar view (ss_calls S) (set (ss_unlisted S)) (set (pend S)) (leaving ((ss_phase S)(t := p))) T'"
    "phases_ok (view (sp_pooler T')) T' ((ss_phase S)(t := p))" "tasks_ok (sp_chef T') (ss_tasks S)"
  shows "sys_ok invar view (set_phase t p (S\<lparr>ss_pool := T'\<rparr>))"
  using assms by (simp add: sys_ok_def pend_def set_phase_def)


lemma sys_okD:
  assumes "sys_ok invar view S"
  shows "pool_ok invar view (ss_calls S) (set (ss_unlisted S)) (set (pend S)) (leaving (ss_phase S)) (ss_pool S)"
    "tasks_ok (sp_chef (ss_pool S)) (ss_tasks S)" "phases_ok (view (sp_pooler (ss_pool S))) (ss_pool S) (ss_phase S)"
    "invar (sp_pooler (ss_pool S))" "chef_ok (ss_calls S) (sp_chef (ss_pool S))"
  using assms by (simp_all add: sys_ok_def pool_ok_def)

section \<open>The chef's calls and the tasks\<close>

lemma sys_chef:
  assumes "sys_ok invar view S" "chef_steps calls (set removed) (set added) (sp_chef (ss_pool S)) chef"
    "set removed \<subseteq> open_conns (sp_chef (ss_pool S))" "distinct added"
  shows "sys_ok invar view (add_task removed added (S\<lparr>ss_pool := (ss_pool S)\<lparr>sp_chef := chef\<rparr>, ss_calls := calls\<rparr>))" (is "sys_ok _ _ ?S")
proof -
  let ?T = "ss_pool S" and ?T' = "(ss_pool S)\<lparr>sp_chef := chef\<rparr>"
  note s = sys_okD [OF assms(1)] and d = pool_okD [OF sys_okD(1) [OF assms(1)]]
  note c = pool_ok_chef [OF s(1) assms(2)]
  have ch: "set added \<inter> handed (sp_chef ?T) = {}" "open_conns chef = (open_conns (sp_chef ?T) - set removed) \<union> set added"
    "handed (sp_chef ?T) \<subseteq> handed chef" using assms(2) by (simp_all add: chef_steps_def chef_change_def)
  have p: "set (pend ?S) = set (pend S) \<union> set added" "ss_phase ?S = ss_phase S" "ss_pool ?S = ?T'" "ss_calls ?S = calls"
    "ss_unlisted ?S = ss_unlisted S" by (auto simp: add_task_def pend_def)
  have "set (pend S) \<inter> set added = {}" using d(4) ch(1) by blast
  then have "distinct (concat (map snd (ss_tasks S @ [(removed, added)])))"
    using s(2) assms(4) by (auto simp: tasks_ok_def pend_def)
  moreover have "tasks_ok chef (ss_tasks S)" using tasks_ok_frame [OF s(2) c(2)] by simp
  moreover have "c \<in> handed chef \<and> c \<notin> open_conns chef" if "c \<in> set removed" for c
    using that assms(3) ch by (auto simp: handed_def)
  ultimately have "tasks_ok chef (ss_tasks ?S)" by (auto simp: tasks_ok_def add_task_def)
  with c p phases_frame [OF s(1,3) c(2)] show ?thesis unfolding sys_ok_def by simp
qed

lemma step_chef:
  assumes "sys_ok invar view S" "reports ev" "kitchen_enabled ev (sp_chef (ss_pool S), ss_calls S)"
  shows "\<exists>S'. spool_exec api (SChef ev) S = Some S' \<and> sys_ok invar view S'"
proof -
  from kitchen_step_ok [OF sys_okD(5) [OF assms(1)] assms(3,2)] obtain removed added chef calls where
    "kitchen_step ev (sp_chef (ss_pool S), ss_calls S) = Some ((removed, added), chef, calls)" "distinct added"
    "set removed \<subseteq> open_conns (sp_chef (ss_pool S))" "chef_steps calls (set removed) (set added) (sp_chef (ss_pool S)) chef"
    by (elim exE conjE) rule
  with sys_chef [OF assms(1)] show ?thesis by simp
qed

lemma step_task:
  assumes "sys_ok invar view S" "n < length (ss_tasks S)"
  shows "\<exists>S'. spool_exec api (STask now n) S = Some S' \<and> sys_ok invar view S'"
proof -
  note s = sys_okD [OF assms(1)]
  obtain removed added where t: "ss_tasks S ! n = (removed, added)" by (cases "ss_tasks S ! n")
  have m: "(removed, added) \<in> set (ss_tasks S)" using t assms(2) by (metis nth_mem)
  let ?ts = "take n (ss_tasks S) @ drop (Suc n) (ss_tasks S)"
  have ts: "ss_tasks S = take n (ss_tasks S) @ (removed, added) # drop (Suc n) (ss_tasks S)"
    using id_take_nth_drop [OF assms(2)] t by simp
  have dist: "distinct (concat (map snd (take n (ss_tasks S) @ (removed, added) # drop (Suc n) (ss_tasks S))))"
    using s(2) unfolding ts [symmetric] by (simp add: tasks_ok_def)
  have pe: "pend S = concat (map snd (take n (ss_tasks S))) @ added @ concat (map snd (drop (Suc n) (ss_tasks S)))"
    unfolding pend_def by (subst ts) simp
  have P: "set (concat (map snd ?ts)) = set (pend S) - set added" using dist unfolding pe by auto
  have "set removed \<inter> open_conns (sp_chef (ss_pool S)) = {}" using s(2) m by (auto simp: tasks_ok_def)
  from update_servers_ok [OF s(1) this, of added now] obtain T' where
    T': "update_servers api now removed added (ss_pool S) = Some T'" "pool_ok invar view (ss_calls S) (set (ss_unlisted S)) (set (pend S) - set added) (leaving (ss_phase S)) T'"
      "pool_frame view (ss_pool S) T'" "sp_chef T' = sp_chef (ss_pool S)"
    using dist pe by auto
  have "set ?ts \<subseteq> set (ss_tasks S)" using set_take_subset set_drop_subset by fastforce
  moreover have "distinct (concat (map snd ?ts))" using dist by auto
  ultimately have "tasks_ok (sp_chef T') ?ts" by (rule tasks_ok_sub [OF s(2) [folded T'(4)]])
  with T' P phases_frame [OF s(1,3) T'(3)] t show ?thesis
    by (simp add: with_pool_def sys_ok_def pend_def)
qed

lemma step_scale_down: "sys_ok invar view S \<Longrightarrow> \<exists>S'. spool_exec api (SScaleDown now) S = Some S' \<and> sys_ok invar view S'"
  using ScaleDown_ok [OF sys_okD(1), of S now] sys_pool by (fastforce simp: with_pool_def)

lemma step_close:
  assumes "sys_ok invar view S"
  shows "\<not> sp_closed (ss_pool S) \<Longrightarrow> \<exists>S'. spool_exec api SClose S = Some S' \<and> sys_ok invar view S'"
    "\<exists>S'. spool_exec api SCloseChef S = Some S' \<and> sys_ok invar view S'"
    "\<exists>S'. spool_exec api SClosePooler S = Some S' \<and> sys_ok invar view S'"
    "\<exists>S'. spool_exec api SCloseIndex S = Some S' \<and> sys_ok invar view S'"
proof -
  note s = sys_okD [OF assms] and p = sys_pool [OF assms]
  let ?T = "ss_pool S"
  have c: "sys_ok invar view (S\<lparr>ss_closing := c, ss_pool := T'\<rparr>)"
    if "pool_ok invar view (ss_calls S) (set (ss_unlisted S)) (set (pend S)) (leaving (ss_phase S)) T'" "pool_frame view ?T T'" for c T'
    using p [OF that] by (simp add: sys_ok_def pend_def)
  show "\<exists>S'. spool_exec api SClose S = Some S' \<and> sys_ok invar view S'" if "\<not> sp_closed ?T"
    using close_channel_ok [OF s(1) that] c by (fastforce simp: with_pool_def)
  show "\<exists>S'. spool_exec api SClosePooler S = Some S' \<and> sys_ok invar view S'"
    using close_pooler_ok [OF s(1)] c by (fastforce simp: with_pool_def)
  show "\<exists>S'. spool_exec api SCloseChef S = Some S' \<and> sys_ok invar view S'"
    using close_chef_ok [OF s(1)] p [of "close_chef ?T"] by (simp add: sys_ok_def pend_def)
  let ?S = "S\<lparr>ss_pool := close_index ?T, ss_closing := CDone, ss_unlisted := ss_unlisted S @ map snd (sp_serversByID ?T)\<rparr>"
  note x = index_okD [OF pool_okD(3) [OF s(1)]]
  have "s \<in> reg ?T" if "(i, s) \<in> set (sp_serversByID ?T)" for i s
    using that x(1,8) unfolding reg_def by (metis domI map_of_eq_Some_iff)
  moreover have "s \<in> snd ` set (sp_serversByID ?T)" if "s \<in> reg ?T" for s
    using that unfolding reg_def by (metis domD imageI map_of_SomeD snd_conv x(1))
  ultimately have "set (ss_unlisted ?S) = set (ss_unlisted S) \<union> reg ?T" by auto
  note ci = close_index_ok [OF s(1), folded this]
  then have "sys_ok invar view ?S"
    using phases_frame [OF s(1,3)] tasks_ok_frame [OF s(2), of view "close_index ?T"] by (simp add: sys_ok_def pend_def)
  then show "\<exists>S'. spool_exec api SCloseIndex S = Some S' \<and> sys_ok invar view S'" by simp
qed


section \<open>The clients' steps\<close>

lemma sys_order: "S\<lparr>ss_phase := a, ss_pool := b\<rparr> = S\<lparr>ss_pool := b, ss_phase := a\<rparr>"
  by simp

lemma held_split:
  "phases_ok V T phases \<Longrightarrow> vw_held V = {x \<in> vw_held V. fst x \<noteq> t} \<union> (case has (phases t) of None \<Rightarrow> {} | Some v \<Rightarrow> {(t, v)})"
  by (auto simp: phases_ok_def split: option.splits)

lemma waiting_split:
  "phases_ok V T phases \<Longrightarrow> vw_waiting V = (if phases t = PWait then insert t (vw_waiting V) else vw_waiting V - {t})"
  by (auto simp: phases_ok_def)

text \<open>The client goes on without a change that the pooler sees.\<close>

definition settled :: "phase \<Rightarrow> bool" where
  "settled p \<longleftrightarrow> (case p of PNew \<Rightarrow> False | PWait \<Rightarrow> False | PDelete _ \<Rightarrow> False | PIndex _ \<Rightarrow> False | _ \<Rightarrow> True)"

lemma settledD: "settled p \<Longrightarrow> p \<noteq> PNew \<and> p \<noteq> PWait \<and> p \<noteq> PDelete v \<and> p \<noteq> PIndex v"
  by (auto simp: settled_def)

lemma sys_move:
  assumes "sys_ok invar view S" "pool_ok invar view (ss_calls S) (set (ss_unlisted S)) (set (pend S)) (leaving (ss_phase S)) T'" "pool_frame view (ss_pool S) T'"
    "has p = has (ss_phase S t)" "settled p" "settled (ss_phase S t)" "\<And>v. p = PDrop v \<Longrightarrow> v \<notin> reg T'"
  shows "sys_ok invar view (set_phase t p (S\<lparr>ss_pool := T'\<rparr>))"
proof (rule sys_client [OF assms(1)])
  note s = sys_okD [OF assms(1)] and sp = settledD [OF assms(5)] settledD [OF assms(6)]
  note f = phases_frame [OF s(1,3) assms(3)]
  have "leaving ((ss_phase S)(t := p)) = leaving (ss_phase S)" using sp by (intro leaving_same) blast+
  with assms(2) show "pool_ok invar view (ss_calls S) (set (ss_unlisted S)) (set (pend S)) (leaving ((ss_phase S)(t := p))) T'" by simp
  show "tasks_ok (sp_chef T') (ss_tasks S)" by (rule tasks_ok_frame [OF s(2) assms(3)])
  show "phases_ok (view (sp_pooler T')) T' ((ss_phase S)(t := p))"
  proof (rule phases_set [OF f])
    show "vw_waiting (view (sp_pooler T')) = (if p = PWait then insert t (vw_waiting (view (sp_pooler T'))) else vw_waiting (view (sp_pooler T')) - {t})"
      using waiting_split [OF f, of t] sp by auto
    show "vw_held (view (sp_pooler T')) = {x \<in> vw_held (view (sp_pooler T')). fst x \<noteq> t} \<union> (case has p of None \<Rightarrow> {} | Some v \<Rightarrow> {(t, v)})"
      using held_split [OF f, of t] assms(4) by simp
  qed (use sp assms(7) in auto)
qed

text \<open>The pooler changes what concerns the client, and the phase follows.\<close>

lemma sys_pooler:
  assumes "sys_ok invar view S" "invar p" "vw_known (view p) = vw_known (view (sp_pooler (ss_pool S)))"
    "vw_shut (view p) = vw_shut (view (sp_pooler (ss_pool S)))" "vw_used (view p) = vw_used (view (sp_pooler (ss_pool S)))"
    "vw_users (view p) \<subseteq> insert t (vw_users (view (sp_pooler (ss_pool S))))"
    "vw_waiting (view p) = (if ph = PWait then insert t (vw_waiting (view (sp_pooler (ss_pool S)))) else vw_waiting (view (sp_pooler (ss_pool S))) - {t})"
    "vw_held (view p) = {x \<in> vw_held (view (sp_pooler (ss_pool S))). fst x \<noteq> t} \<union> (case has ph of None \<Rightarrow> {} | Some v \<Rightarrow> {(t, v)})"
    "ph = PWait \<or> settled ph" "\<And>v. ph \<noteq> PDrop v" "\<And>v. ss_phase S t \<noteq> PIndex v"
  shows "sys_ok invar view (set_phase t ph (S\<lparr>ss_pool := (ss_pool S)\<lparr>sp_pooler := p\<rparr>\<rparr>))"
proof (rule sys_client [OF assms(1)])
  let ?T = "(ss_pool S)\<lparr>sp_pooler := p\<rparr>"
  note s = sys_okD [OF assms(1)]
  have ph: "ph \<noteq> PNew" "ph \<noteq> PDelete v" "ph \<noteq> PIndex v" for v using assms(9) by (auto simp: settled_def)
  have "leaving ((ss_phase S)(t := ph)) = leaving (ss_phase S)" using ph assms(11) by (intro leaving_same) blast+
  with pooler_ok [OF s(1) assms(2-5)] show "pool_ok invar view (ss_calls S) (set (ss_unlisted S)) (set (pend S)) (leaving ((ss_phase S)(t := ph))) ?T" by simp
  show "tasks_ok (sp_chef ?T) (ss_tasks S)" using s(2) by simp
  have "phases_ok (view p) (ss_pool S) ((ss_phase S)(t := ph))"
    by (rule phases_set [OF s(3) assms(7,8,6)]) (use ph assms(10) in auto)
  then show "phases_ok (view (sp_pooler ?T)) ?T ((ss_phase S)(t := ph))" by (simp add: phases_ok_def)
qed

lemma step_got:
  assumes "sys_ok invar view S" "invar p" "view p = view_got t v (view (sp_pooler (ss_pool S)))" "ss_phase S t = PIdle \<or> ss_phase S t = PWait"
  shows "sys_ok invar view (got t v p S)"
  unfolding got_def
proof (rule sys_pooler [OF assms(1,2)])
  let ?V = "view (sp_pooler (ss_pool S))"
  have "{x \<in> vw_held ?V. fst x \<noteq> t} = vw_held ?V" using held_split [OF sys_okD(3) [OF assms(1)], of t] assms(4) by auto
  then show "vw_held (view p) = {x \<in> vw_held ?V. fst x \<noteq> t} \<union> (case has (if v = uuid_nil then PIdle else PGot v) of None \<Rightarrow> {} | Some v \<Rightarrow> {(t, v)})"
    using assms(3) by (auto simp: view_got_def)
qed (use assms(3,4) in \<open>auto simp: view_got_def settled_def\<close>)

lemma step_add_client:
  assumes "sys_ok invar view S" "ss_phase S t = PNew"
  shows "\<exists>S'. spool_exec api (SAddClient t) S = Some S' \<and> sys_ok invar view S'"
proof -
  note s = sys_okD [OF assms(1)]
  have "t \<notin> vw_users (view (sp_pooler (ss_pool S)))" using s(3) assms(2) by (auto simp: phases_ok_def)
  from add_client [OF s(4) this] obtain p U where p: "pa_AddClient api t (sp_pooler (ss_pool S)) = Some p" "invar p"
    "view p = (view (sp_pooler (ss_pool S)))\<lparr>vw_users := U\<rparr>" "U \<subseteq> insert t (vw_users (view (sp_pooler (ss_pool S))))"
    by (elim exE conjE) rule
  have "sys_ok invar view (set_phase t PIdle (S\<lparr>ss_pool := (ss_pool S)\<lparr>sp_pooler := p\<rparr>\<rparr>))"
    by (rule sys_pooler [OF assms(1) p(2)])
      (use p(3,4) assms(2) held_split [OF s(3), of t] waiting_split [OF s(3), of t] in \<open>auto simp: settled_def\<close>)
  with p(1) show ?thesis by (simp add: AddClient_def with_pool_def set_phase_def sys_order)
qed

lemma step_remove_client:
  assumes "sys_ok invar view S" "ss_phase S t = PIdle"
  shows "\<exists>S'. spool_exec api (SRemoveClient t) S = Some S' \<and> sys_ok invar view S'"
proof -
  note s = sys_okD [OF assms(1)]
  from delete_client [OF s(4), of t] obtain p where p: "pa_DeleteClient api t (sp_pooler (ss_pool S)) = Some p" "invar p"
    "view p = view (sp_pooler (ss_pool S))" by (elim exE conjE) rule
  have "sys_ok invar view (set_phase t PGone (S\<lparr>ss_pool := (ss_pool S)\<lparr>sp_pooler := p\<rparr>\<rparr>))"
    by (rule sys_pooler [OF assms(1) p(2)])
      (use p(3) assms(2) held_split [OF s(3), of t] waiting_split [OF s(3), of t] in \<open>auto simp: settled_def\<close>)
  with p(1) show ?thesis by (simp add: RemoveClient_def with_pool_def set_phase_def sys_order)
qed

lemma step_acquire:
  assumes "sys_ok invar view S" "ss_phase S t = PIdle"
  shows "\<exists>S'. spool_exec api (SAcquire now t) S = Some S' \<and> sys_ok invar view S'"
proof -
  note s = sys_okD [OF assms(1)]
  let ?V = "view (sp_pooler (ss_pool S))"
  have t: "t \<notin> vw_waiting ?V" "t \<notin> fst ` vw_held ?V" using s(3) assms(2) by (auto simp: phases_ok_def)
  from acquire [OF s(4) t, of now] obtain r p where p: "pa_Acquire api now t (sp_pooler (ss_pool S)) = Some (r, p)" "invar p"
    "case r of None \<Rightarrow> view p = ?V\<lparr>vw_waiting := insert t (vw_waiting ?V)\<rparr> | Some v \<Rightarrow> view p = view_got t v ?V \<and> view_fresh v ?V"
    by (elim exE conjE) rule
  show ?thesis
  proof (cases r)
    case (Some v)
    with p step_got [OF assms(1) p(2), of t v] assms(2) show ?thesis by simp
  next
    case None
    have "sys_ok invar view (set_phase t PWait (S\<lparr>ss_pool := (ss_pool S)\<lparr>sp_pooler := p\<rparr>\<rparr>))"
      by (rule sys_pooler [OF assms(1) p(2)]) (use p(3) None assms(2) held_split [OF s(3), of t] in \<open>auto simp: settled_def\<close>)
    with p(1) None show ?thesis by simp
  qed
qed

lemma step_receive:
  assumes "sys_ok invar view S" "ss_phase S t = PWait" "pa_ready api t (sp_pooler (ss_pool S))"
  shows "\<exists>S'. spool_exec api (SReceive t) S = Some S' \<and> sys_ok invar view S'"
proof -
  note s = sys_okD [OF assms(1)]
  have "t \<in> vw_waiting (view (sp_pooler (ss_pool S)))" using s(3) assms(2) by (auto simp: phases_ok_def)
  from receive [OF s(4) this assms(3)] obtain v p where "pa_Receive api t (sp_pooler (ss_pool S)) = Some (v, p)" "invar p"
    "view p = view_got t v (view (sp_pooler (ss_pool S)))" by (elim exE conjE) rule
  with step_got [OF assms(1), of p t v] assms(2) show ?thesis by simp
qed

lemma step_timeout:
  assumes "sys_ok invar view S" "ss_phase S t = PWait" "pa_expires api t (sp_pooler (ss_pool S))"
  shows "\<exists>S'. spool_exec api (STimeout now t) S = Some S' \<and> sys_ok invar view S'"
proof -
  note s = sys_okD [OF assms(1)]
  have "t \<in> vw_waiting (view (sp_pooler (ss_pool S)))" using s(3) assms(2) by (auto simp: phases_ok_def)
  from timeout [OF s(4) this assms(3), of now] obtain v p where "pa_Timeout api now t (sp_pooler (ss_pool S)) = Some (v, p)" "invar p"
    "view p = view_got t v (view (sp_pooler (ss_pool S)))" by (elim exE conjE) rule
  with step_got [OF assms(1), of p t v] assms(2) show ?thesis by simp
qed

lemma sys_ids: "sys_ok invar view S \<Longrightarrow> sv_ID (sp_heap (ss_pool S) r) = r"
  by (rule index_okD(3) [OF pool_okD(3) [OF sys_okD(1)]])

lemma step_lookup:
  assumes "sys_ok invar view S" "ss_phase S t = PGot v"
  shows "\<exists>S'. spool_exec api (SLookup now t) S = Some S' \<and> sys_ok invar view S'"
proof (cases "map_of (sp_serversByID (ss_pool S)) v")
  case None
  have "sys_ok invar view (set_phase t (PDrop v) (S\<lparr>ss_pool := ss_pool S\<rparr>))"
    by (rule sys_move [OF assms(1) sys_okD(1) [OF assms(1)]]) (use assms(2) None in \<open>auto simp: settled_def reg_def\<close>)
  with None assms(2) show ?thesis by (simp add: acquire_lookup_def phase_server_def)
next
  case (Some c)
  then have c: "c = v" using index_okD(1) [OF pool_okD(3) [OF sys_okD(1) [OF assms(1)]]] by blast
  have "sys_ok invar view (set_phase t (PHolds v) (S\<lparr>ss_pool := set_state now ConnStatePairing t v (ss_pool S)\<rparr>))"
    by (rule sys_move [OF assms(1)]) (use assms(2) sys_okD(1) [OF assms(1)] in \<open>auto simp: settled_def pool_ok_set_state\<close>)
  with Some c assms(2) show ?thesis by (simp add: acquire_lookup_def phase_server_def)
qed

text \<open>A client lets go of a server that the pooler no longer knows.\<close>

lemma lose_ok:
  assumes "pool_ok invar view K U P D T" "(t, v) \<in> vw_held (view (sp_pooler T))" "v \<notin> vw_known (view (sp_pooler T))"
  shows "pool_ok invar view K U P D (lose api t v T)" "view (sp_pooler (lose api t v T)) = (view (sp_pooler T))\<lparr>vw_held := vw_held (view (sp_pooler T)) - {(t, v)}\<rparr>"
    "sp_chef (lose api t v T) = sp_chef T" "reg (lose api t v T) = reg T" "conn_of (lose api t v T) = conn_of T"
proof -
  note l = lost [OF pool_okD(1) [OF assms(1)] assms(2,3)]
  then show "view (sp_pooler (lose api t v T)) = (view (sp_pooler T))\<lparr>vw_held := vw_held (view (sp_pooler T)) - {(t, v)}\<rparr>"
    by (simp add: lose_def)
  show "pool_ok invar view K U P D (lose api t v T)" unfolding lose_def by (rule pooler_ok [OF assms(1)]) (use l in auto)
qed (simp_all add: lose_def)

text \<open>The last section of \<^verbatim>\<open>Acquire\<close> and of \<^verbatim>\<open>RemoveServer\<close>: the client is done with the server.\<close>

lemma sys_leave:
  assumes "sys_ok invar view S" "has (ss_phase S t) = Some v" "ss_phase S t \<noteq> PWait"
    "pool_ok invar view (ss_calls S) (set (ss_unlisted S)) (set (pend S)) (leaving ((ss_phase S)(t := PIdle))) T'" "pool_frame view (ss_pool S) T'"
    "v \<notin> vw_known (view (sp_pooler T'))"
  shows "sys_ok invar view (set_phase t PIdle (S\<lparr>ss_pool := lose api t v T'\<rparr>))"
proof (rule sys_client [OF assms(1)])
  note s = sys_okD [OF assms(1)]
  note f = phases_frame [OF s(1,3) assms(5)]
  have h: "(t, v) \<in> vw_held (view (sp_pooler T'))" using has_held [OF f] assms(2) by blast
  note l = lose_ok [OF assms(4) h assms(6)]
  show "pool_ok invar view (ss_calls S) (set (ss_unlisted S)) (set (pend S)) (leaving ((ss_phase S)(t := PIdle))) (lose api t v T')" by (rule l(1))
  show "tasks_ok (sp_chef (lose api t v T')) (ss_tasks S)" using tasks_ok_frame [OF s(2) assms(5)] l(3) by simp
  have "phases_ok (view (sp_pooler (lose api t v T'))) T' ((ss_phase S)(t := PIdle))"
    by (rule phases_set [OF f]) (use l(2) assms(2,3) held_split [OF f, of t] waiting_split [OF f, of t] in auto)
  then show "phases_ok (view (sp_pooler (lose api t v T'))) (lose api t v T') ((ss_phase S)(t := PIdle))"
    using l(3-5) by (simp add: phases_ok_def)
qed

lemma step_drop:
  assumes "sys_ok invar view S" "ss_phase S t = PDrop v"
  shows "\<exists>S'. spool_exec api (SDrop t) S = Some S' \<and> sys_ok invar view S'"
proof -
  note s = sys_okD [OF assms(1)]
  have l: "leaving ((ss_phase S)(t := PIdle)) = leaving (ss_phase S)" using assms(2) by (intro leaving_same) simp_all
  have "v \<notin> reg (ss_pool S)" using s(3) assms(2) by (auto simp: phases_ok_def)
  then have "v \<in> reg (ss_pool S) \<longrightarrow> v \<in> leaving (ss_phase S)" by simp
  from delete_ok [OF s(1) subset_refl this] obtain p where p: "pa_DeleteServer api v (sp_pooler (ss_pool S)) = Some p"
    "pool_ok invar view (ss_calls S) (set (ss_unlisted S)) (set (pend S)) (leaving (ss_phase S)) ((ss_pool S)\<lparr>sp_pooler := p\<rparr>)"
    "pool_frame view (ss_pool S) ((ss_pool S)\<lparr>sp_pooler := p\<rparr>)" "v \<notin> vw_known (view p)"
    by (elim exE conjE) rule
  from sys_leave [OF assms(1), of t v "(ss_pool S)\<lparr>sp_pooler := p\<rparr>"] p assms(2) l
  show ?thesis by (simp add: acquire_drop_def phase_server_def with_pool_def set_phase_def sys_order)
qed

lemma step_set_state:
  assumes "sys_ok invar view S"
  shows "\<exists>S'. spool_exec api (SSetState now t st) S = Some S' \<and> sys_ok invar view S'"
  using sys_pool [OF assms, of "set_state now st t (phase_server t S) (ss_pool S)"] sys_okD(1) [OF assms]
  by (simp add: pool_ok_set_state)

lemma step_reset:
  assumes "sys_ok invar view S" "ss_phase S t = PHolds v"
  shows "\<exists>S'. spool_exec api (SReset now t) S = Some S' \<and> sys_ok invar view S'"
proof -
  have "sys_ok invar view (set_phase t (PReset v) (S\<lparr>ss_pool := release_reset now v (ss_pool S)\<rparr>))"
    unfolding release_reset_def
    by (rule sys_move [OF assms(1)]) (use assms(2) sys_okD(1) [OF assms(1)] in \<open>auto simp: settled_def pool_ok_set_state\<close>)
  with assms(2) show ?thesis by (simp add: phase_server_def)
qed

lemma step_release:
  assumes "sys_ok invar view S" "ss_phase S t = PHolds v \<or> ss_phase S t = PReset v"
  shows "\<exists>S'. spool_exec api (SRelease now t) S = Some S' \<and> sys_ok invar view S'"
proof -
  note s = sys_okD [OF assms(1)]
  have "(t, v) \<in> vw_held (view (sp_pooler (ss_pool S)))" using has_held [OF s(3), of t v] assms(2) by auto
  from release [OF s(4) this, of now] obtain p where p: "pa_Release api now t v (sp_pooler (ss_pool S)) = Some p" "invar p"
    "view p = (view (sp_pooler (ss_pool S)))\<lparr>vw_held := vw_held (view (sp_pooler (ss_pool S))) - {(t, v)}\<rparr>"
    by (elim exE conjE) rule
  have "sys_ok invar view (set_phase t (PReleased v) (S\<lparr>ss_pool := (ss_pool S)\<lparr>sp_pooler := p\<rparr>\<rparr>))"
    by (rule sys_pooler [OF assms(1) p(2)])
      (use p(3) assms(2) held_split [OF s(3), of t] waiting_split [OF s(3), of t] in \<open>auto simp: settled_def\<close>)
  moreover have "phase_server t S = v" using assms(2) by (auto simp: phase_server_def)
  ultimately show ?thesis using p(1) by (simp add: release_pooler_def sys_ids [OF assms(1)] with_pool_def set_phase_def sys_order)
qed

lemma step_idle:
  assumes "sys_ok invar view S" "ss_phase S t = PReleased v"
  shows "\<exists>S'. spool_exec api (SSetIdle now t) S = Some S' \<and> sys_ok invar view S'"
proof -
  have "sys_ok invar view (set_phase t PIdle (S\<lparr>ss_pool := release_idle now v (ss_pool S)\<rparr>))"
    unfolding release_idle_def
    by (rule sys_move [OF assms(1)]) (use assms(2) sys_okD(1) [OF assms(1)] in \<open>auto simp: settled_def pool_ok_set_state\<close>)
  with assms(2) show ?thesis by (simp add: phase_server_def)
qed

lemma step_fail:
  assumes "sys_ok invar view S" "ss_phase S t = PHolds v \<or> ss_phase S t = PReset v"
  shows "\<exists>S'. spool_exec api (SFail t) S = Some S' \<and> sys_ok invar view S'"
proof -
  have "sys_ok invar view (set_phase t (PBurn v) (S\<lparr>ss_pool := ss_pool S\<rparr>))"
    by (rule sys_move [OF assms(1) sys_okD(1) [OF assms(1)]]) (use assms(2) in \<open>auto simp: settled_def\<close>)
  moreover have "phase_server t S = v" using assms(2) by (auto simp: phase_server_def)
  ultimately show ?thesis by simp
qed

section \<open>Removing a server\<close>

lemma step_burn:
  assumes "sys_ok invar view S" "ss_phase S t = PBurn v"
  shows "\<exists>S'. spool_exec api (SBurn t) S = Some S' \<and> sys_ok invar view S'"
proof -
  note s = sys_okD [OF assms(1)]
  let ?T = "ss_pool S" and ?T' = "remove_burn v (ss_pool S)"
  have T': "?T' = ?T\<lparr>sp_chef := Burn (conn_of ?T v) (sp_chef ?T)\<rparr>" by (simp add: remove_burn_def conn_of_def)
  note c = chef_steps_call [OF s(5) Burn_change [OF chef_okD [OF s(5)], of "conn_of ?T v"]]
  have ok: "pool_ok invar view (ss_calls S) (set (ss_unlisted S)) (set (pend S)) (leaving (ss_phase S)) ?T'" "pool_frame view ?T ?T'"
    using pool_ok_chef [OF s(1) c] by (simp_all add: T')
  note f = phases_frame [OF s(1,3) ok(2)]
  have "leaving ((ss_phase S)(t := PDelete v)) = leaving (ss_phase S)" using assms(2) by (intro leaving_same) simp_all
  moreover have "conn_of ?T' v \<notin> open_conns (sp_chef ?T')" using c by (simp add: T' chef_steps_def chef_change_def)
  then have "phases_ok (view (sp_pooler ?T')) ?T' ((ss_phase S)(t := PDelete v))"
    using held_split [OF f, of t] waiting_split [OF f, of t] assms(2) by (intro phases_set [OF f]) auto
  ultimately have "sys_ok invar view (set_phase t (PDelete v) (S\<lparr>ss_pool := ?T'\<rparr>))"
    using ok tasks_ok_frame [OF s(2) ok(2)] by (intro sys_client [OF assms(1)]) simp_all
  with assms(2) show ?thesis by (simp add: phase_server_def)
qed

lemma step_delete:
  assumes "sys_ok invar view S" "ss_phase S t = PDelete v"
  shows "\<exists>S'. spool_exec api (SDelete t) S = Some S' \<and> sys_ok invar view S'"
proof -
  note s = sys_okD [OF assms(1)]
  have "leaving (ss_phase S) \<subseteq> leaving ((ss_phase S)(t := PIndex v))" "v \<in> leaving ((ss_phase S)(t := PIndex v))"
    using leaving_upd [of "ss_phase S" t "PIndex v"] assms(2) by (auto simp: leaving_def)
  then obtain p where p: "pa_DeleteServer api v (sp_pooler (ss_pool S)) = Some p"
    "pool_ok invar view (ss_calls S) (set (ss_unlisted S)) (set (pend S)) (leaving ((ss_phase S)(t := PIndex v))) ((ss_pool S)\<lparr>sp_pooler := p\<rparr>)"
    "pool_frame view (ss_pool S) ((ss_pool S)\<lparr>sp_pooler := p\<rparr>)"
    using delete_ok [OF s(1), of _ v] by blast
  note f = phases_frame [OF s(1,3) p(3)]
  have "conn_of (ss_pool S) v \<notin> open_conns (sp_chef (ss_pool S))" using s(3) assms(2) by (auto simp: phases_ok_def)
  then have "phases_ok (view p) ((ss_pool S)\<lparr>sp_pooler := p\<rparr>) ((ss_phase S)(t := PIndex v))"
    using held_split [OF f, of t] waiting_split [OF f, of t] assms(2) f by (intro phases_set [OF f]) auto
  then have "sys_ok invar view (set_phase t (PIndex v) (S\<lparr>ss_pool := (ss_pool S)\<lparr>sp_pooler := p\<rparr>\<rparr>))"
    using p s(2) by (intro sys_client [OF assms(1)]) simp_all
  with p(1) assms(2) show ?thesis
    by (simp add: remove_pooler_def sys_ids [OF assms(1)] with_pool_def set_phase_def sys_order phase_server_def)
qed

lemma step_index:
  assumes "sys_ok invar view S" "ss_phase S t = PIndex v"
  shows "\<exists>S'. spool_exec api (SIndex t) S = Some S' \<and> sys_ok invar view S'"
proof -
  note s = sys_okD [OF assms(1)]
  let ?T = "ss_pool S" and ?D = "leaving ((ss_phase S)(t := PIdle))"
  have c: "conn_of ?T v \<notin> open_conns (sp_chef ?T)" using s(3) assms(2) by (auto simp: phases_ok_def)
  have v: "v \<in> {1..<sp_next ?T}" using held_range(1) [OF s(1)] has_held [OF s(3), of t v] assms(2) by simp
  have "leaving (ss_phase S) \<subseteq> insert v ?D" using leaving_upd [of "ss_phase S" t PIdle] assms(2) by auto
  from unregister_ok [OF s(1) c v this] obtain p where p: "pa_DeleteServer api v (sp_pooler ?T) = Some p" "v \<notin> vw_known (view p)"
    and ok: "pool_ok invar view (ss_calls S) (set (ss_unlisted S)) (set (pend S)) ?D (?T\<lparr>sp_serversByID := AList.delete v (sp_serversByID ?T), sp_serversByConn := AList.delete (conn_of ?T v) (sp_serversByConn ?T), sp_pooler := p\<rparr>)"
      "pool_frame view ?T (?T\<lparr>sp_serversByID := AList.delete v (sp_serversByID ?T), sp_serversByConn := AList.delete (conn_of ?T v) (sp_serversByConn ?T), sp_pooler := p\<rparr>)"
    by (auto simp: Let_def)
  from sys_leave [OF assms(1) _ _ ok(1,2)] p assms(2) show ?thesis
    by (simp add: remove_index_def sys_ids [OF assms(1)] with_pool_def set_phase_def sys_order phase_server_def Let_def conn_of_def)
qed

section \<open>Every step\<close>

lemma step_ok:
  assumes "sys_ok invar view S" "spool_enabled api ev S"
  shows "\<exists>S'. spool_exec api ev S = Some S' \<and> sys_ok invar view S'"
proof (cases ev)
  case (SLookup now t)
  with assms(2) obtain v where "ss_phase S t = PGot v" by (cases "ss_phase S t") auto
  with step_lookup [OF assms(1)] SLookup show ?thesis by blast
next
  case (SDrop t)
  with assms(2) obtain v where "ss_phase S t = PDrop v" by (cases "ss_phase S t") auto
  with step_drop [OF assms(1)] SDrop show ?thesis by blast
next
  case (SReset now t)
  with assms(2) obtain v where "ss_phase S t = PHolds v" by (cases "ss_phase S t") auto
  with step_reset [OF assms(1)] SReset show ?thesis by blast
next
  case (SRelease now t)
  with assms(2) obtain v where "ss_phase S t = PHolds v \<or> ss_phase S t = PReset v" by (cases "ss_phase S t") auto
  with step_release [OF assms(1)] SRelease show ?thesis by blast
next
  case (SSetIdle now t)
  with assms(2) obtain v where "ss_phase S t = PReleased v" by (cases "ss_phase S t") auto
  with step_idle [OF assms(1)] SSetIdle show ?thesis by blast
next
  case (SFail t)
  with assms(2) obtain v where "ss_phase S t = PHolds v \<or> ss_phase S t = PReset v" by (cases "ss_phase S t") auto
  with step_fail [OF assms(1)] SFail show ?thesis by blast
next
  case (SBurn t)
  with assms(2) obtain v where "ss_phase S t = PBurn v" by (cases "ss_phase S t") auto
  with step_burn [OF assms(1)] SBurn show ?thesis by blast
next
  case (SDelete t)
  with assms(2) obtain v where "ss_phase S t = PDelete v" by (cases "ss_phase S t") auto
  with step_delete [OF assms(1)] SDelete show ?thesis by blast
next
  case (SIndex t)
  with assms(2) obtain v where "ss_phase S t = PIndex v" by (cases "ss_phase S t") auto
  with step_index [OF assms(1)] SIndex show ?thesis by blast
next
  case (SChef ev')
  with step_chef [OF assms(1), of ev'] assms(2) show ?thesis by simp
qed (use assms step_task step_scale_down step_close step_add_client step_remove_client
    step_acquire step_receive step_timeout step_set_state in \<open>simp_all del: spool_exec.simps\<close>)

lemma sys_ok_reach: "spool_reach api init S \<Longrightarrow> sys_ok invar view init \<Longrightarrow> sys_ok invar view S"
proof (induction rule: reachable.induct)
  case (step S ev S')
  from step.IH step.prems step_ok [OF _ step.hyps(2)] step.hyps(3) show ?case by fastforce
qed

lemma sys_ok_init:
  assumes "invar p" "chef_ok [] chef" "open_conns chef = {}" "vw_known (view p) = {}" "vw_used (view p) = {}" "vw_users (view p) = {}"
    "vw_waiting (view p) = {}" "vw_held (view p) = {}" "\<not> vw_shut (view p)"
  shows "sys_ok invar view (spool_init config p chef)"
  using assms
  by (simp add: sys_ok_def spool_init_def MakePool_def pool_ok_def index_ok_def reg_def conn_of_def pend_def tasks_ok_def
      phases_ok_def leaving_def)

end

section \<open>Scaling up\<close>

text \<open>
  Why \<^verbatim>\<open>Cook\<close> gave up, between two states of the pool: one of the dials made in between failed, or every recipe is at its
  limit.
\<close>

definition gave_up :: "'s spool \<Rightarrow> 's spool \<Rightarrow> bool" where
  "gave_up T T' \<longleftrightarrow> (\<exists>ds. dials_used ds (sp_chef T) (sp_chef T') \<and> (\<exists>d\<in>set ds. d \<noteq> DialOk)) \<or>
     (\<forall>r\<in>set (ch_order (sp_chef T')). full r (sp_chef T'))"

lemma gave_up_later: "dials_used ds (sp_chef T) (sp_chef T1) \<Longrightarrow> gave_up T1 T' \<Longrightarrow> gave_up T T'"
  unfolding gave_up_def by (metis dials_used_trans in_set_conv_decomp append.assoc)

text \<open>What the scaling loop leaves behind when a client waits.\<close>

definition scale_outcome :: "'s pooler_api \<Rightarrow> 's spool \<Rightarrow> int \<times> 's spool \<times> int option \<Rightarrow> bool" where
  "scale_outcome api T res \<longleftrightarrow> (case res of (amount, T', timer) \<Rightarrow>
     pa_Waiters api (sp_pooler T') \<le> 0 \<and> amount = 0 \<and> timer = None \<or>
     0 < pa_Waiters api (sp_pooler T') \<and> gave_up T T' \<and> amount = cf_ReconnectInitialTime (sp_config T) \<and>
       timer = (if amount = 0 then None else Some amount))"

context spool_pooler
begin

lemma pool_ok_used: "pool_ok invar view K U P D T \<Longrightarrow> sp_next T \<notin> vw_used (view (sp_pooler T)) \<and> sp_next T \<noteq> uuid_nil"
  using pool_okD(10) [of invar view K U P D T] index_okD(4) [OF pool_okD(3), of invar view K U P D T] by auto

lemma ScaleUp_ok:
  assumes "pool_ok invar view K U P D T"
  shows "\<exists>err T' ds. ScaleUp api now T = Some (err, T') \<and> pool_ok invar view K U P D T' \<and> pool_frame view T T' \<and>
    (err = None \<longrightarrow> 0 < pa_Waiters api (sp_pooler T) \<longrightarrow> pa_Waiters api (sp_pooler T') < pa_Waiters api (sp_pooler T)) \<and>
    dials_used ds (sp_chef T) (sp_chef T') \<and> (err \<noteq> None \<longrightarrow> sp_pooler T' = sp_pooler T \<and> gave_up T T')"
proof -
  note ch = pool_okD(2) [OF assms]
  from Cook_change [OF chef_okD [OF ch]] obtain r chef where c: "Cook (sp_chef T) = Some (r, chef)"
    "chef_change (\<lambda>p. int (slots K p)) (set (limbo K)) {} (case r of Inl _ \<Rightarrow> {} | Inr c \<Rightarrow> {c}) (sp_chef T) chef"
    by (elim exE conjE) rule
  from Cook_fails [OF chef_okD [OF ch] c(1)] obtain ds where ds: "dials_used ds (sp_chef T) chef"
    "\<forall>err. r = Inl err \<longrightarrow> (\<exists>d\<in>set ds. d \<noteq> DialOk) \<or> (\<forall>r\<in>set (ch_order chef). full r chef)" by blast
  let ?T = "T\<lparr>sp_chef := chef\<rparr>"
  note ok = pool_ok_chef [OF assms chef_steps_call [OF ch c(2)]]
  show ?thesis
  proof (cases r)
    case (Inl e)
    have "gave_up T ?T" using ds Inl by (auto simp: gave_up_def)
    with Inl c(1) ok ds(1) show ?thesis by (auto simp: ScaleUp_def)
  next
    case (Inr x)
    then have p: "pool_ok invar view K U (insert x P) D ?T" using ok(1) by simp
    from addServer_ok [OF p, of x now] obtain T' where
      T': "addServer api now x ?T = Some T'" "pool_ok invar view K U (insert x P - {x}) D T'" "pool_frame view ?T T'" "sp_chef T' = chef" by auto
    have "x \<notin> P" using c(2) Inr pool_okD(4) [OF assms] by (auto simp: chef_change_def)
    moreover have a: "pa_AddServer api now (sp_next T) (sp_pooler T) = Some (sp_pooler T')"
      using T'(1) by (auto simp: addServer_def Let_def split: bind_splits)
    have "0 < pa_Waiters api (sp_pooler T) \<longrightarrow> pa_Waiters api (sp_pooler T') < pa_Waiters api (sp_pooler T)"
      using waiters [OF pool_okD(1) [OF assms] _ _ _ a] pool_ok_used [OF assms] by blast
    ultimately show ?thesis using c(1) Inr T' pool_frame_trans [OF ok(2) T'(3)] ds(1) by (auto simp: ScaleUp_def)
  qed
qed

lemma scale_up_loop_ok:
  "pool_ok invar view K U P D T \<Longrightarrow> \<exists>ok T'. scale_up_loop api now T = Some (ok, T') \<and> pool_ok invar view K U P D T' \<and> pool_frame view T T' \<and>
    (if ok then pa_Waiters api (sp_pooler T') \<le> 0 else 0 < pa_Waiters api (sp_pooler T') \<and> gave_up T T')"
proof (induction "nat (pa_Waiters api (sp_pooler T))" arbitrary: T rule: less_induct)
  case less
  show ?case
  proof (cases "0 < pa_Waiters api (sp_pooler T)")
    case False
    with less.prems show ?thesis by (subst scale_up_loop.simps) (simp add: exI [of _ True])
  next
    case True
    from ScaleUp_ok [OF less.prems, of now] obtain err T1 ds where u: "ScaleUp api now T = Some (err, T1)" "pool_ok invar view K U P D T1"
      "pool_frame view T T1" "err = None \<longrightarrow> 0 < pa_Waiters api (sp_pooler T) \<longrightarrow> pa_Waiters api (sp_pooler T1) < pa_Waiters api (sp_pooler T)"
      "dials_used ds (sp_chef T) (sp_chef T1)" "err \<noteq> None \<longrightarrow> sp_pooler T1 = sp_pooler T \<and> gave_up T T1"
      by (elim exE conjE) rule
    show ?thesis
    proof (cases err)
      case (Some e)
      with True u(1-3,6) show ?thesis by (subst scale_up_loop.simps) (simp add: exI [of _ False])
    next
      case None
      with u(4) True have "nat (pa_Waiters api (sp_pooler T1)) < nat (pa_Waiters api (sp_pooler T))" by simp
      from less.hyps [OF this u(2)] obtain ok T' where l: "scale_up_loop api now T1 = Some (ok, T')" "pool_ok invar view K U P D T'"
        "pool_frame view T1 T'" "if ok then pa_Waiters api (sp_pooler T') \<le> 0 else 0 < pa_Waiters api (sp_pooler T') \<and> gave_up T1 T'"
        by (elim exE conjE) rule
      have "scale_up_loop api now T = Some (ok, T')" using True u(1) None l(1) by (subst scale_up_loop.simps) simp
      with l pool_frame_trans [OF u(3)] gave_up_later [OF u(5), of T'] show ?thesis by (cases ok) auto
    qed
  qed
qed

lemma on_waiting_ok:
  assumes "sys_ok invar view S"
  shows "\<exists>res. on_waiting api now 0 (ss_pool S) = Some res \<and> scale_outcome api (ss_pool S) res"
proof -
  from scale_up_loop_ok [OF sys_okD(1) [OF assms], of now] obtain ok T' where
    u: "scale_up_loop api now (ss_pool S) = Some (ok, T')" "pool_frame view (ss_pool S) T'"
      "if ok then pa_Waiters api (sp_pooler T') \<le> 0 else 0 < pa_Waiters api (sp_pooler T') \<and> gave_up (ss_pool S) T'"
    by (elim exE conjE) rule
  have "sp_config T' = sp_config (ss_pool S)" using u(2) by (simp add: pool_frame_def)
  with u show ?thesis by (cases ok) (auto simp: on_waiting_def Let_def scale_outcome_def)
qed

end

section \<open>Both poolers\<close>

definition lifo_start :: "spool_config \<Rightarrow> nat \<Rightarrow> (nat \<Rightarrow> PoolRecipe) \<Rightarrow> lifo_client spool_sys" where
  "lifo_start config critics recipes = spool_init config (lifo_init, []) (MakeChef critics recipes)"

definition rob_start :: "spool_config \<Rightarrow> nat \<Rightarrow> (nat \<Rightarrow> PoolRecipe) \<Rightarrow> rob_sys spool_sys" where
  "rob_start config critics recipes = spool_init config rob_init (MakeChef critics recipes)"

lemma MakeChef_open: "open_conns (MakeChef critics recipes) = {}"
  by (simp add: open_conns_def MakeChef_def)

lemma lifo_init_client: "lifo_client_inv (lifo_init, [])"
  using lifo_inv_init by (simp add: lifo_client_inv_def) (simp add: lifo_init_def)

lemma lifo_start_ok: "\<forall>p. pr_count (recipes p) = 0 \<Longrightarrow> sys_ok lifo_client_inv lifo_view (lifo_start config critics recipes)"
  unfolding lifo_start_def
  by (rule lifo_sp.sys_ok_init [OF lifo_init_client chef_ok_init MakeChef_open])
    (simp_all add: lifo_view_def lifo_init_def lifo_NewPooler_def)

lemma rob_start_ok: "\<forall>p. pr_count (recipes p) = 0 \<Longrightarrow> sys_ok rob_inv rob_view (rob_start config critics recipes)"
  unfolding rob_start_def
  by (rule rob_sp.sys_ok_init [OF rob_inv_init chef_ok_init MakeChef_open])
    (simp_all add: rob_view_def rob_init_def MakeScheduler_def)

lemmas lifo_reach_ok = lifo_sp.sys_ok_reach [OF _ lifo_start_ok]
lemmas rob_reach_ok = rob_sp.sys_ok_reach [OF _ rob_start_ok]

text \<open>
  The two indexes agree; every open connection belongs to a listed server, to an update of the indexes that is under way,
  or to a server that \<^verbatim>\<open>Close\<close> dropped from the indexes; the pooler knows no other servers and, until it is closed, all listed
  ones, apart from a server in the last section of its removal.
\<close>

definition accounts :: "('s \<Rightarrow> pooler_view) \<Rightarrow> 's spool_sys \<Rightarrow> bool" where
  "accounts view S \<longleftrightarrow> (let T = ss_pool S; known = vw_known (view (sp_pooler T)) in
     (\<forall>i r. map_of (sp_serversByID T) i = Some r \<longleftrightarrow> sv_ID (sp_heap T r) = i \<and> map_of (sp_serversByConn T) (sv_Conn (sp_heap T r)) = Some r) \<and>
     (\<forall>c r. map_of (sp_serversByConn T) c = Some r \<longrightarrow> sv_Conn (sp_heap T r) = c) \<and>
     open_conns (sp_chef T) \<subseteq> dom (map_of (sp_serversByConn T)) \<union> set (concat (map snd (ss_tasks S))) \<union>
       (\<lambda>r. sv_Conn (sp_heap T r)) ` set (ss_unlisted S) \<and>
     known \<subseteq> dom (map_of (sp_serversByID T)) \<union> set (ss_unlisted S) \<and>
     (\<not> vw_shut (view (sp_pooler T)) \<longrightarrow> (\<forall>i\<in>dom (map_of (sp_serversByID T)). i \<in> known \<or> (\<exists>t. ss_phase S t = PIndex i))))"

lemma sys_ok_accounts: "sys_ok iv view S \<Longrightarrow> accounts view S"
proof -
  assume s: "sys_ok iv view S"
  let ?T = "ss_pool S" and ?U = "set (ss_unlisted S)"
  have p: "pool_ok iv view (ss_calls S) ?U (set (pend S)) (leaving (ss_phase S)) ?T" using s by (simp add: sys_ok_def)
  note d = pool_okD [OF p] and x = index_okD [OF pool_okD(3) [OF p]]
  have r: "map_of (sp_serversByID ?T) i = Some r \<longleftrightarrow> i = r \<and> r \<in> reg ?T" for i r
    using x(1) unfolding reg_def by auto
  have "dom (map_of (sp_serversByConn ?T)) = conn_of ?T ` reg ?T" using x(2) by (auto simp: dom_def image_iff)
  then have "open_conns (sp_chef ?T) \<subseteq> dom (map_of (sp_serversByConn ?T)) \<union> set (pend S) \<union> (\<lambda>r. sv_Conn (sp_heap ?T r)) ` ?U"
    using d(6) by (auto simp: image_Un conn_of_def)
  moreover have "map_of (sp_serversByID ?T) i = Some r \<longleftrightarrow> sv_ID (sp_heap ?T r) = i \<and> map_of (sp_serversByConn ?T) (sv_Conn (sp_heap ?T r)) = Some r" for i r
    using r x(2) [of "sv_Conn (sp_heap ?T r)" r] x(3) [of r] by (auto simp: conn_of_def)
  moreover have "sv_Conn (sp_heap ?T r) = c" if "map_of (sp_serversByConn ?T) c = Some r" for c r
    using that x(2) by (simp add: conn_of_def)
  moreover have "i \<in> vw_known (view (sp_pooler ?T)) \<or> (\<exists>t. ss_phase S t = PIndex i)" if "\<not> vw_shut (view (sp_pooler ?T))" "i \<in> reg ?T" for i
    using d(9) that by (auto simp: leaving_def)
  ultimately show ?thesis using d(7) unfolding accounts_def Let_def pend_def reg_def by blast
qed

text \<open>No two clients use one server or one connection.\<close>

definition exclusive_use :: "'s spool_sys \<Rightarrow> bool" where
  "exclusive_use S \<longleftrightarrow> (\<forall>t t' v v'. has (ss_phase S t) = Some v \<longrightarrow> has (ss_phase S t') = Some v' \<longrightarrow> t \<noteq> t' \<longrightarrow>
     v \<noteq> v' \<and> sv_Conn (sp_heap (ss_pool S) v) \<noteq> sv_Conn (sp_heap (ss_pool S) v'))"

context spool_pooler
begin

lemma sys_ok_exclusive: "sys_ok invar view S \<Longrightarrow> exclusive_use S"
proof -
  assume a: "sys_ok invar view S"
  note s = sys_okD [OF a] and x = index_okD [OF pool_okD(3) [OF sys_okD(1) [OF a]]]
  show ?thesis
    unfolding exclusive_use_def
  proof (intro allI impI)
    fix t t' v v' assume h: "has (ss_phase S t) = Some v" "has (ss_phase S t') = Some v'" "t \<noteq> t'"
    then have m: "(t, v) \<in> vw_held (view (sp_pooler (ss_pool S)))" "(t', v') \<in> vw_held (view (sp_pooler (ss_pool S)))"
      using has_held [OF s(3)] by blast+
    then have "v \<noteq> v'" using exclusive [OF s(4)] h(3) by blast
    moreover have "v \<in> {1..<sp_next (ss_pool S)}" "v' \<in> {1..<sp_next (ss_pool S)}" using held_range(1) [OF s(1)] m by blast+
    ultimately show "v \<noteq> v' \<and> sv_Conn (sp_heap (ss_pool S) v) \<noteq> sv_Conn (sp_heap (ss_pool S) v')"
      using x(6) unfolding conn_of_def inj_on_def by blast
  qed
qed

end



text \<open>
  (C9) In every state that the pool and its users can reach, with the LIFO pooler, or with the rob scheduler as long as no
  stale timeout occurs (\<open>rob_timeout_steals\<close>), no two clients use the same server or the same connection.
\<close>

theorem spool_exclusive:
  assumes "\<forall>p. pr_count (recipes p) = 0"
  shows "(\<forall>S. spool_reach lifo_api (lifo_start config critics recipes) S \<longrightarrow> exclusive_use S) \<and>
    (\<forall>S. spool_reach rob_api (rob_start config critics recipes) S \<longrightarrow> exclusive_use S)"
  using lifo_sp.sys_ok_exclusive [OF lifo_reach_ok] rob_sp.sys_ok_exclusive [OF rob_reach_ok] assms by blast


section \<open>Runs\<close>

definition sample_config :: spool_config where
  "sample_config = \<lparr>cf_UsePS = True, cf_UseEQP = True, cf_UseOtelTracing = False, cf_UsePacketTracing = False, cf_ResetQuery = [],
     cf_IdleTimeout = 5, cf_ReconnectInitialTime = 1, cf_ReconnectMaxTime = 8\<rparr>"

definition free_recipe :: PoolRecipe where
  "free_recipe = \<lparr>pr_Priority = 0, pr_MinConnections = 0, pr_MaxConnections = 2, pr_count = 0\<rparr>"

definition lifo_run :: "spool_event list \<Rightarrow> lifo_client spool_sys option" where
  "lifo_run evs = run_events (spool_enabled lifo_api) (spool_exec lifo_api) evs (lifo_start sample_config 0 (\<lambda>_. free_recipe))"

definition rob_run :: "spool_event list \<Rightarrow> rob_sys spool_sys option" where
  "rob_run evs = run_events (spool_enabled rob_api) (spool_exec rob_api) evs (rob_start sample_config 0 (\<lambda>_. free_recipe))"

lemma lifo_run_reach: "lifo_run evs = Some S \<Longrightarrow> spool_reach lifo_api (lifo_start sample_config 0 (\<lambda>_. free_recipe)) S"
  unfolding lifo_run_def by (rule reachable_run) (assumption, rule reachable.start)

lemma rob_run_reach: "rob_run evs = Some S \<Longrightarrow> spool_reach rob_api (rob_start sample_config 0 (\<lambda>_. free_recipe)) S"
  unfolding rob_run_def by (rule reachable_run) (assumption, rule reachable.start)

lemma free_recipe_zero: "\<forall>p::nat. pr_count free_recipe = 0"
  by (simp add: free_recipe_def)

definition waiting_events :: "spool_event list" where
  "waiting_events = [SChef (KLearn ''a'' 0), SChef (KStep 0), SAddClient 7, SAcquire 1 7]"

definition sample_events :: "spool_event list" where
  "sample_events = waiting_events @ [SChef (KCook 0), SChef (KStep 0), SChef (KStep 0), STask 2 0, SReceive 7, SLookup 3 7, SSetState 4 7 ConnStateActive]"

lemma sample_runs: "lifo_run sample_events \<noteq> None" "rob_run sample_events \<noteq> None"
  by code_simp+

lemma sample_reach:
  "spool_reach lifo_api (lifo_start sample_config 0 (\<lambda>_. free_recipe)) (the (lifo_run sample_events))"
  "spool_reach rob_api (rob_start sample_config 0 (\<lambda>_. free_recipe)) (the (rob_run sample_events))"
  using sample_runs lifo_run_reach rob_run_reach by fastforce+



theorem spool_exclusive_witness:
  "exclusive_use (the (lifo_run sample_events)) \<and> exclusive_use (the (rob_run sample_events))"
  using spool_exclusive [OF free_recipe_zero, of sample_config 0] sample_reach by blast

lemma waiting_reach:
  "spool_reach lifo_api (lifo_start sample_config 0 (\<lambda>_. free_recipe)) (the (lifo_run waiting_events))"
  "spool_reach rob_api (rob_start sample_config 0 (\<lambda>_. free_recipe)) (the (rob_run waiting_events))"
proof -
  have "lifo_run waiting_events \<noteq> None" "rob_run waiting_events \<noteq> None" by code_simp+
  with lifo_run_reach rob_run_reach show
    "spool_reach lifo_api (lifo_start sample_config 0 (\<lambda>_. free_recipe)) (the (lifo_run waiting_events))"
    "spool_reach rob_api (rob_start sample_config 0 (\<lambda>_. free_recipe)) (the (rob_run waiting_events))" by fastforce+
qed


section \<open>What can go wrong\<close>

text \<open>
  (C38) \<^verbatim>\<open>Release\<close> gives the server to the pooler before it marks it as idle.  When the next client has taken the server and is
  using it by then, the server is marked as idle all the same: there is a reachable state in which the client uses the
  server, over an open connection, and \<^verbatim>\<open>ScaleDown\<close>, which closes idle servers only, closes this connection in the middle of the
  client's transaction.
\<close>

theorem release_race:
  "\<exists>S S'. spool_reach lifo_api (lifo_start sample_config 0 (\<lambda>_. free_recipe)) S \<and> ss_phase S 2 = PHolds 1 \<and>
    sv_Conn (sp_heap (ss_pool S) 1) \<in> open_conns (sp_chef (ss_pool S)) \<and> map_of (sp_serversByID (ss_pool S)) 1 = Some 1 \<and>
    spool_exec lifo_api (SScaleDown 20) S = Some S' \<and> ss_phase S' 2 = PHolds 1 \<and>
    sv_Conn (sp_heap (ss_pool S') 1) \<in> set (Chef.ch_closed (sp_chef (ss_pool S')))"
proof -
  let ?evs = "[SChef (KLearn ''a'' 0), SChef (KStep 0), SAddClient 1, SAddClient 2, SAcquire 1 1, SChef (KCook 0), SChef (KStep 0), SChef (KStep 0),
    STask 2 0, SReceive 1, SLookup 3 1, SSetState 4 1 ConnStateActive,
    SRelease 10 1, SAcquire 11 2, SLookup 12 2, SSetState 13 2 ConnStateActive, SSetIdle 14 1]"
  have "map_option (\<lambda>S. (ss_phase S 2, sv_Conn (sp_heap (ss_pool S) 1) \<in> open_conns (sp_chef (ss_pool S)), map_of (sp_serversByID (ss_pool S)) 1,
      map_option (\<lambda>S'. (ss_phase S' 2, sv_Conn (sp_heap (ss_pool S') 1) \<in> set (Chef.ch_closed (sp_chef (ss_pool S')))))
        (spool_exec lifo_api (SScaleDown 20) S))) (lifo_run ?evs) = Some (PHolds 1, True, Some 1, Some (PHolds 1, True))"
    by code_simp
  then obtain S S' where "lifo_run ?evs = Some S" "ss_phase S 2 = PHolds 1" "sv_Conn (sp_heap (ss_pool S) 1) \<in> open_conns (sp_chef (ss_pool S))"
    "map_of (sp_serversByID (ss_pool S)) 1 = Some 1" "spool_exec lifo_api (SScaleDown 20) S = Some S'" "ss_phase S' 2 = PHolds 1"
    "sv_Conn (sp_heap (ss_pool S') 1) \<in> set (Chef.ch_closed (sp_chef (ss_pool S')))"
    by (auto simp del: spool_exec.simps)
  with lifo_run_reach show ?thesis by blast
qed

text \<open>
  A connection that \<^verbatim>\<open>Cook\<close> has dialled is added to the pool even when its recipe was removed, and the connection closed,
  in the meantime; the pooler then hands it out.
\<close>

lemma closed_server_listed:
  "\<exists>S. spool_reach lifo_api (lifo_start sample_config 0 (\<lambda>_. free_recipe)) S \<and> ss_tasks S = [] \<and>
    (\<exists>c\<in>set (Chef.ch_closed (sp_chef (ss_pool S))). \<exists>r. map_of (sp_serversByConn (ss_pool S)) c = Some r \<and> r \<in> vw_known (lifo_view (sp_pooler (ss_pool S))))"
proof -
  let ?evs = "[SChef (KLearn ''a'' 0), SChef (KStep 0), SChef (KCook 0), SChef (KStep 0), SChef (KStep 0), SChef (KForget ''a''), STask 1 1, STask 2 0]"
  have "map_option (\<lambda>S. (ss_tasks S, 0 \<in> set (Chef.ch_closed (sp_chef (ss_pool S))), map_of (sp_serversByConn (ss_pool S)) 0,
      1 \<in> lp_servers (ls_pooler (fst (sp_pooler (ss_pool S)))))) (lifo_run ?evs) = Some ([], True, Some 1, True)"
    by code_simp
  then obtain S where S: "lifo_run ?evs = Some S" "ss_tasks S = []" "0 \<in> set (Chef.ch_closed (sp_chef (ss_pool S)))"
    "map_of (sp_serversByConn (ss_pool S)) 0 = Some 1" "1 \<in> vw_known (lifo_view (sp_pooler (ss_pool S)))"
    by (auto simp: lifo_view_def)
  from lifo_run_reach [OF S(1)] S(2-5) show ?thesis by blast
qed

text \<open>
  \<^verbatim>\<open>Close\<close> closes the chef before it takes the lock of the pool and clears the indexes.  A connection that \<^verbatim>\<open>ScaleUp\<close> is
  dialling meanwhile is registered with the closed chef: it stays open, and nothing refers to it any more.
\<close>

lemma close_leaks:
  "\<exists>S. spool_reach lifo_api (lifo_start sample_config 0 (\<lambda>_. free_recipe)) S \<and> ss_tasks S = [] \<and> ss_calls S = [] \<and> ss_closing S = CDone \<and>
    (\<exists>c\<in>open_conns (sp_chef (ss_pool S)). map_of (sp_serversByConn (ss_pool S)) c = None)"
proof -
  let ?evs = "[SChef (KLearn ''a'' 0), SChef (KStep 0), SChef (KCook 0), SClose, SCloseChef, SChef (KStep 0), SChef (KStep 0), STask 1 0,
    SClosePooler, SCloseIndex]"
  have "map_option (\<lambda>S. (ss_tasks S, ss_calls S, ss_closing S, 0 \<in> open_conns (sp_chef (ss_pool S)), map_of (sp_serversByConn (ss_pool S)) 0))
    (lifo_run ?evs) = Some ([], [], CDone, True, None)" by code_simp
  then obtain S where S: "lifo_run ?evs = Some S" "ss_tasks S = []" "ss_calls S = []" "ss_closing S = CDone"
    "0 \<in> open_conns (sp_chef (ss_pool S))" "map_of (sp_serversByConn (ss_pool S)) 0 = None" by auto
  from lifo_run_reach [OF S(1)] S(2-6) show ?thesis by blast
qed

text \<open>
  \<^verbatim>\<open>ScaleDown\<close> compares the idle time of a server, not the time until it expires, with the shortest time so far: with servers
  that expire in 2 and in 9 it sleeps for 9.
\<close>

lemma ScaleDown_oversleeps:
  "map_option fst (foldM (scale_down_server lifo_api 10) [1, 2] (10, (MakePool (sample_config\<lparr>cf_IdleTimeout := 10\<rparr>) (lifo_init, []) (MakeChef 0 (\<lambda>_. free_recipe)))
      \<lparr>sp_heap := (\<lambda>r. NewServer (if r = 1 then 2 else 9) r r)\<rparr>)) = Some 9"
  by code_simp

text \<open>A maximum of 0, documented as backing off without a limit, ends the attempts instead.\<close>

lemma backoff_stops:
  assumes "scale_up_loop api now T = Some (False, T')" "cf_ReconnectMaxTime (sp_config T') = 0" "0 < amount"
  shows "on_backoff api now amount T = Some (0, T', None)"
  using assms by (simp add: on_backoff_def)

end
