(* ===== verification/Sync_Returns.thy ===== *)
theory Sync_Returns
  imports Middleware_Sync
begin

text \<open>
  What every routine of the layers below keeps of a connection: the kinds of its middlewares, in their order, and the
  fields that packets do not touch.  With it: \<^verbatim>\<open>ps.Sync\<close>, \<^verbatim>\<open>eqp.Sync\<close> and the routines under them return, without a panic,
  for every connection that has the middlewares they look up.
\<close>

section \<open>The frame of a connection\<close>

lemma lookup_by_kind:
  "lookup_eqp_client ms \<noteq> None \<longleftrightarrow> KEqpClient \<in> set (map kind_of ms)"
  "lookup_eqp_server ms \<noteq> None \<longleftrightarrow> KEqpServer \<in> set (map kind_of ms)"
  "lookup_ps_client ms \<noteq> None \<longleftrightarrow> KPsClient \<in> set (map kind_of ms)"
  "lookup_ps_server ms \<noteq> None \<longleftrightarrow> KPsServer \<in> set (map kind_of ms)"
proof -
  show "lookup_eqp_client ms \<noteq> None \<longleftrightarrow> KEqpClient \<in> set (map kind_of ms)"
    by (induction ms rule: lookup_eqp_client.induct) auto
  show "lookup_eqp_server ms \<noteq> None \<longleftrightarrow> KEqpServer \<in> set (map kind_of ms)"
    by (induction ms rule: lookup_eqp_server.induct) auto
  show "lookup_ps_client ms \<noteq> None \<longleftrightarrow> KPsClient \<in> set (map kind_of ms)"
    by (induction ms rule: lookup_ps_client.induct) auto
  show "lookup_ps_server ms \<noteq> None \<longleftrightarrow> KPsServer \<in> set (map kind_of ms)"
    by (induction ms rule: lookup_ps_server.induct) auto
qed

lemma conn_rest_fields:
  assumes "conn_rest T' = conn_rest T"
  shows "cn_BackendKey T' = cn_BackendKey T" "cn_InitialParameters T' = cn_InitialParameters T" "cn_Ready T' = cn_Ready T"
proof -
  from assms have "cn_BackendKey (conn_rest T') = cn_BackendKey (conn_rest T)"
    "cn_InitialParameters (conn_rest T') = cn_InitialParameters (conn_rest T)" "cn_Ready (conn_rest T') = cn_Ready (conn_rest T)" by simp_all
  then show "cn_BackendKey T' = cn_BackendKey T" "cn_InitialParameters T' = cn_InitialParameters T" "cn_Ready T' = cn_Ready T"
    by (simp_all add: conn_rest_def)
qed

text \<open>What a routine keeps of a connection: it stays well formed, its frame stays, and it is only read further.\<close>

definition keeps :: "conn_side \<Rightarrow> conn \<Rightarrow> conn \<Rightarrow> bool" where
  "keeps sd T T' \<longleftrightarrow> conn_inv sd T' \<and> conn_same T T' \<and> (\<exists>pre. cn_inbox T = pre @ cn_inbox T') \<and>
     (\<exists>pre. cn_todo T = pre @ cn_todo T')"

lemma keeps_refl: "conn_inv sd T \<Longrightarrow> keeps sd T T"
  by (simp add: keeps_def)

lemma keeps_trans: "keeps sd T T' \<Longrightarrow> keeps sd T' T'' \<Longrightarrow> keeps sd T T''"
  unfolding keeps_def by (elim conjE exE) (simp add: conn_same_def)

lemma keepsD: "keeps sd T T' \<Longrightarrow> conn_inv sd T'" "keeps sd T T' \<Longrightarrow> kinds T' = kinds T"
  "keeps sd T T' \<Longrightarrow> length (cn_inbox T') \<le> length (cn_inbox T)" "keeps sd T T' \<Longrightarrow> conn_rest T' = conn_rest T"
  "keeps sd T T' \<Longrightarrow> length (cn_todo T') \<le> length (cn_todo T)"
  by (auto simp: keeps_def conn_same_def)

lemma server_no_hybrid: "conn_inv ServerSide T \<Longrightarrow> KHybrid \<notin> set (kinds T)"
proof -
  have "mw_ok ServerSide w \<Longrightarrow> kind_of w \<noteq> KHybrid" for w by (cases w) auto
  then show "conn_inv ServerSide T \<Longrightarrow> KHybrid \<notin> set (kinds T)" by (force simp: conn_inv_def)
qed

lemma relays_keeps:
  assumes "relays h T h' T'"
  shows "keeps ServerSide (b_Server T) (b_Server T')" "keeps ClientSide (b_Peer T) (b_Peer T')"
proof -
  have inv: "conn_inv ServerSide (b_Server T')" "conn_same (b_Server T) (b_Server T')"
    using assms by (simp_all add: relays_def binv_def)
  have k: "kinds (b_Server T) = kinds (b_Server T')" using inv(2) by (simp add: conn_same_def)
  have "cn_todo (b_Server T) = cn_inbox (b_Server T)" "cn_todo (b_Server T') = cn_inbox (b_Server T')"
    using todo_plain [of "b_Server T"] server_no_hybrid [OF inv(1)] todo_server [OF inv(1)] unfolding k by blast+
  with assms show "keeps ServerSide (b_Server T) (b_Server T')" unfolding relays_def keeps_def binv_def by simp
  show "keeps ClientSide (b_Peer T) (b_Peer T')" using assms unfolding relays_def keeps_def binv_def by blast
qed

lemma read_keeps:
  assumes "conn_inv sd T"
  obtains (packet) m T' where "conn_ReadPacket typed T = Some (Inr m, T')" "keeps sd T T'" "reads_ok sd m" "cn_todo T = Inr m # cn_todo T'"
    | (err) e T' where "conn_ReadPacket typed T = Some (Inl e, T')" "keeps sd T T'"
proof -
  from conn_ReadPacket_ok [OF assms, of typed] obtain r T' where r: "conn_ReadPacket typed T = Some (r, T')" "read_post sd T r T'"
    by (elim exE conjE) rule
  have t: "\<exists>pre. cn_todo T = pre @ cn_todo T'" using r(2) by (cases r) (auto simp: read_post_def)
  then have k: "keeps sd T T'" using r(2) by (simp add: read_post_def keeps_def)
  show thesis
  proof (cases r)
    case (Inl e)
    with r k show thesis by (intro err) simp_all
  next
    case (Inr m)
    with r k show thesis by (intro packet) (simp_all add: read_post_def)
  qed
qed

lemma write_keeps:
  assumes "conn_inv sd T" "writes_ok sd m"
  shows "\<exists>r T'. conn_WritePacket m T = Some (r, T') \<and> keeps sd T T'"
proof -
  from conn_WritePacket_ok [OF assms] obtain r T' where w: "conn_WritePacket m T = Some (r, T')" "write_post sd m T r T'"
    by (elim exE conjE) rule
  then have "keeps sd T T'" by (simp add: keeps_def write_post_def)
  with w(1) show ?thesis by blast
qed

lemma binding_start:
  assumes "conn_inv ServerSide server" "c2s_msg m"
  shows "binv (new_binding server None (Some m))" "holding (ToServer m) (new_binding server None (Some m))"
  using assms by (simp_all add: new_binding_def binv_def conn_inv_def NewConn_def)

lemma QueryString_keeps:
  assumes "conn_inv ServerSide server"
  shows "\<exists>e e' server' p. QueryString server None q = Some ((e, e'), server', p) \<and> keeps ServerSide server server'"
proof -
  let ?B = "new_binding server None (Some (Msg (PQuery q)))"
  have "c2s_msg (Msg (PQuery q))" by (simp add: c2s_msg_def type_bytes TypeQuery_def TypeClose_def TypeParse_def TypeBind_def)
  from query_returns [OF binding_start [OF assms this]] obtain err T' h where
    r: "query ?B = Some (err, T')" "relays (ToServer (Msg (PQuery q))) ?B h T'" unfolding returns_def by auto
  have "(new_binding server None None)\<lparr>b_Packet := Some (Msg (PQuery q))\<rparr> = ?B" by (simp add: new_binding_def)
  with r(1) have "QueryString server None q = Some ((err, b_PeerError T'), b_Server T', b_Peer T')"
    by (simp add: QueryString_def queryString_def binding_result_def)
  moreover have "keeps ServerSide server (b_Server T')" using relays_keeps(1) [OF r(2)] by (simp add: new_binding_def)
  ultimately show ?thesis by blast
qed

lemma Backend_Sync_keeps:
  assumes "conn_inv ServerSide server"
  shows "\<exists>e e' server' p. Backend_Sync server None = Some ((e, e'), server', p) \<and> keeps ServerSide server server'"
proof -
  let ?B = "new_binding server None (Some Sync_packet)"
  have "c2s_msg Sync_packet" by (simp add: Sync_packet_def c2s_msg_def type_bytes TypeSync_def TypeClose_def TypeParse_def TypeBind_def)
  from sync_returns_sync [OF binding_start [OF assms this]] obtain ok err T' h where
    r: "sync ?B = Some ((ok, err), T')" "relays (ToServer Sync_packet) ?B h T'" unfolding sync_returns_def by auto
  from r(1) have "Backend_Sync server None = Some ((err, b_PeerError T'), b_Server T', b_Peer T')"
    by (simp add: Backend_Sync_def binding_result_def)
  moreover have "keeps ServerSide server (b_Server T')" using relays_keeps(1) [OF r(2)] by (simp add: new_binding_def)
  ultimately show ?thesis by blast
qed

lemma Bounce_keeps:
  assumes "conn_inv ServerSide server" "conn_inv ClientSide client" "c2s_msg m"
  shows "\<exists>e e' client' server'. Bounce client server m = Some ((e, e'), client', server') \<and>
    keeps ClientSide client client' \<and> keeps ServerSide server server' \<and>
    (e' = None \<longrightarrow> (\<exists>taken. cn_inbox server = taken @ [Inr (Msg (PReadyForQuery (type_code CHR ''I'')))] @ cn_inbox server'))"
proof -
  let ?B = "new_binding server (Some client) (Some m)"
  from transaction_returns [OF new_binding_start [OF assms]] obtain err T h where
    t: "transaction ?B = Some (err, T)" "relays (FromPeer m) ?B h T"
      "err = None \<longrightarrow> h = Idle \<and> settled ?B T \<and> b_TxState T = type_code CHR ''I''"
    unfolding returns_def by (elim exE conjE) simp
  have "Bounce client server m = Some ((b_PeerError T, err), b_Peer T, b_Server T)"
    by (simp add: Bounce_def Transaction_def binding_result_def t)
  moreover have "keeps ClientSide client (b_Peer T)" "keeps ServerSide server (b_Server T)"
    using relays_keeps [OF t(2)] by (simp_all add: new_binding_def)
  moreover have "err = None \<longrightarrow> (\<exists>taken. cn_inbox server = taken @ [Inr (Msg (PReadyForQuery (type_code CHR ''I'')))] @ cn_inbox (b_Server T))"
    using t(3) by (auto simp: settled_def new_binding_def)
  ultimately show ?thesis by blast
qed

section \<open>Prepared statements\<close>

lemma c2s_req: "c2s_msg (req_msg r)"
  by (cases r) (simp_all add: c2s_msg_def type_bytes)

lemma sync_phases_c2s:
  "\<forall>m\<in>set (portal_closes s). c2s_msg m" "\<forall>m\<in>set (statement_closes c s). c2s_msg m"
  "\<forall>m\<in>set (statement_parses c s). c2s_msg m" "\<forall>m\<in>set (portal_binds c). c2s_msg m"
  unfolding sync_phases_msgs set_map using c2s_req by blast+

lemma write_all_keeps:
  assumes "conn_inv ServerSide T" "\<forall>m\<in>set ms. c2s_msg m"
  shows "\<exists>e T'. write_all ms T = Some (e, T') \<and> keeps ServerSide T T'"
  using assms
proof (induction ms arbitrary: T)
  case (Cons m ms)
  from write_keeps [of ServerSide T m] Cons.prems obtain r T1 where
    w: "conn_WritePacket m T = Some (r, T1)" "keeps ServerSide T T1" by auto
  from Cons.IH [OF keepsD(1) [OF w(2)]] Cons.prems(2) obtain e T2 where "write_all ms T1 = Some (e, T2)" "keeps ServerSide T1 T2" by auto
  with w show ?case by (cases r) (auto intro: keeps_trans)
qed (simp add: keeps_refl)

lemma eqp_sync_phases_keeps:
  assumes "conn_inv ServerSide T" "KEqpServer \<in> set (kinds T)" "\<forall>f\<in>set fs. \<forall>s. \<forall>m\<in>set (f s). c2s_msg m"
  shows "\<exists>b' e T'. eqp_sync_phases fs b T = Some ((b', e), T') \<and> keeps ServerSide T T'"
  using assms
proof (induction fs arbitrary: T b)
  case (Cons f fs)
  from Cons.prems(2) obtain s where s: "lookup_eqp_server (cn_Middleware T) = Some s"
    unfolding lookup_by_kind(2) [symmetric] by blast
  from write_all_keeps [OF Cons.prems(1), of "f s"] Cons.prems(3) obtain e T1 where
    w: "write_all (f s) T = Some (e, T1)" "keeps ServerSide T T1" by auto
  have "conn_inv ServerSide T1" "KEqpServer \<in> set (kinds T1)" using w(2) Cons.prems(2) by (simp_all add: keepsD)
  from Cons.IH [OF this, of "b \<or> f s \<noteq> []"] Cons.prems(3) obtain b' e' T2 where
    "eqp_sync_phases fs (b \<or> f s \<noteq> []) T1 = Some ((b', e'), T2)" "keeps ServerSide T1 T2" by auto
  with s w show ?case by (cases e) (auto simp: eqp_sync_phase_def intro: keeps_trans)
qed (simp add: keeps_refl)

lemma eqp_SyncMiddleware_keeps:
  assumes "conn_inv ServerSide server" "KEqpServer \<in> set (kinds server)"
  shows "\<exists>e server'. eqp_SyncMiddleware c server = Some (e, server') \<and> keeps ServerSide server server'"
proof -
  let ?fs = "[portal_closes, statement_closes c, statement_parses c, \<lambda>_. portal_binds c]"
  have "\<forall>f\<in>set ?fs. \<forall>s. \<forall>m\<in>set (f s). c2s_msg m" by (simp add: sync_phases_c2s)
  from eqp_sync_phases_keeps [OF assms this, of False] obtain b e T1 where
    p: "eqp_sync_phases ?fs False server = Some ((b, e), T1)" "keeps ServerSide server T1" by (elim exE conjE) rule
  from Backend_Sync_keeps [OF keepsD(1) [OF p(2)]] obtain e1 e2 T2 q where
    s: "Backend_Sync T1 None = Some ((e1, e2), T2, q)" "keeps ServerSide T1 T2" by (elim exE conjE) rule
  show ?thesis using p s keeps_trans [OF p(2) s(2)]
    by (cases e) (simp_all add: eqp_SyncMiddleware_def del: eqp_sync_phases.simps)
qed

lemma eqp_Sync_keeps:
  assumes "KEqpClient \<in> set (kinds client)" "conn_inv ServerSide server" "KEqpServer \<in> set (kinds server)"
  shows "\<exists>e server'. eqp_Sync client server = Some (e, server') \<and> keeps ServerSide server server'"
proof -
  from assms(1) obtain c where "lookup_eqp_client (cn_Middleware client) = Some c" unfolding lookup_by_kind(1) [symmetric] by blast
  with eqp_SyncMiddleware_keeps [OF assms(2,3), of c] show ?thesis by (simp add: eqp_Sync_def)
qed

section \<open>Parameters\<close>

lemma store_kind:
  "map kind_of (store_ps_client c ms) = map kind_of ms" "map kind_of (store_ps_server s ms) = map kind_of ms"
proof -
  show "map kind_of (store_ps_client c ms) = map kind_of ms" by (induction c ms rule: store_ps_client.induct) auto
  show "map kind_of (store_ps_server s ms) = map kind_of ms" by (induction s ms rule: store_ps_server.induct) auto
qed

lemma store_unread:
  "map unread (store_ps_client c ms) = map unread ms" "map unread (store_ps_server s ms) = map unread ms"
proof -
  show "map unread (store_ps_client c ms) = map unread ms" by (induction c ms rule: store_ps_client.induct) auto
  show "map unread (store_ps_server s ms) = map unread ms" by (induction s ms rule: store_ps_server.induct) auto
qed

lemma store_ps_ok:
  "\<forall>w\<in>set ms. mw_ok ClientSide w \<Longrightarrow> \<forall>w\<in>set (store_ps_client c ms). mw_ok ClientSide w"
  "\<forall>w\<in>set ms. mw_ok ServerSide w \<Longrightarrow> \<forall>w\<in>set (store_ps_server s ms). mw_ok ServerSide w"
proof -
  show "\<forall>w\<in>set ms. mw_ok ClientSide w \<Longrightarrow> \<forall>w\<in>set (store_ps_client c ms). mw_ok ClientSide w"
    by (induction c ms rule: store_ps_client.induct) auto
  show "\<forall>w\<in>set ms. mw_ok ServerSide w \<Longrightarrow> \<forall>w\<in>set (store_ps_server s ms). mw_ok ServerSide w"
    by (induction s ms rule: store_ps_server.induct) auto
qed

lemma store_keeps:
  "conn_inv ClientSide T \<Longrightarrow> keeps ClientSide T (T\<lparr>cn_Middleware := store_ps_client c (cn_Middleware T)\<rparr>)"
  "conn_inv ServerSide T \<Longrightarrow> keeps ServerSide T (T\<lparr>cn_Middleware := store_ps_server s (cn_Middleware T)\<rparr>)"
  using store_ps_ok by (auto simp: keeps_def conn_inv_def conn_same_def store_kind cn_todo_def replay_def store_unread)

lemma s2c_status: "s2c_msg (Msg (PParameterStatus p))"
  by (simp add: s2c_msg_def type_bytes TypeParameterStatus_def TypeMarkiplierResponse_def)

lemma write_status_keeps:
  assumes "conn_inv ClientSide client"
  shows "\<exists>e client'. write_status (Some client) name v = Some (e, Some client') \<and> keeps ClientSide client client'"
  using write_keeps [OF assms, of "Msg (PParameterStatus \<lparr>ParameterStatus_Key = name, ParameterStatus_Value = v\<rparr>)"]
  by (auto simp: write_status_def s2c_status)

lemma SetParameter_keeps:
  "conn_inv ServerSide server \<Longrightarrow>
   \<exists>e e' server' p. SetParameter server None name v = Some ((e, e'), server', p) \<and> keeps ServerSide server server'"
  unfolding SetParameter_def by (rule QueryString_keeps)

lemma ps_sync_keeps:
  assumes "conn_inv ClientSide client" "conn_inv ServerSide server" "KPsServer \<in> set (kinds server)"
  shows "\<exists>e e' client' server'. ps_sync tracking c (Some client) server name = Some ((e, e'), Some client', server') \<and>
    keeps ClientSide client client' \<and> keeps ServerSide server server'"
proof -
  from assms(3) obtain s where s: "lookup_ps_server (cn_Middleware server) = Some s" unfolding lookup_by_kind(4) [symmetric] by blast
  note rf = keeps_refl [OF assms(1)] keeps_refl [OF assms(2)]
  have ws: "\<exists>e client'. write_status (Some client) name v = Some (e, Some client') \<and> keeps ClientSide client client'" for v
    by (rule write_status_keeps [OF assms(1)])
  from SetParameter_keeps [OF assms(2), of name "map_get (pc_parameters c) name"] obtain e1 e2 T1 q where
    sp: "SetParameter server None name (map_get (pc_parameters c) name) = Some ((e1, e2), T1, q)" "keeps ServerSide server T1"
    by (elim exE conjE) rule
  have "KPsServer \<in> set (kinds T1)" using assms(3) keepsD(2) [OF sp(2)] by simp
  then obtain s1 where s1: "lookup_ps_server (cn_Middleware T1) = Some s1" unfolding lookup_by_kind(4) [symmetric] by blast
  have st: "keeps ServerSide server (T1\<lparr>cn_Middleware := store_ps_server x (cn_Middleware T1)\<rparr>)" for x
    by (rule keeps_trans [OF sp(2) store_keeps(2) [OF keepsD(1) [OF sp(2)]]])
  from ws [of "map_get (pv_parameters s) name"] ws [of "map_get (pc_parameters c) name"] show ?thesis
    using s sp s1 st rf by (cases e1) (auto simp: ps_sync_def Let_def)
qed

lemma ps_sync_alone_keeps:
  assumes "conn_inv ServerSide server" "KPsServer \<in> set (kinds server)"
  shows "\<exists>e e' server'. ps_sync tracking c None server name = Some ((e, e'), None, server') \<and> keeps ServerSide server server'"
proof -
  from assms(2) obtain s where s: "lookup_ps_server (cn_Middleware server) = Some s" unfolding lookup_by_kind(4) [symmetric] by blast
  from SetParameter_keeps [OF assms(1), of name "map_get (pc_parameters c) name"] obtain e1 e2 T1 q where
    sp: "SetParameter server None name (map_get (pc_parameters c) name) = Some ((e1, e2), T1, q)" "keeps ServerSide server T1"
    by (elim exE conjE) rule
  have "KPsServer \<in> set (kinds T1)" using assms(2) keepsD(2) [OF sp(2)] by simp
  then obtain s1 where s1: "lookup_ps_server (cn_Middleware T1) = Some s1" unfolding lookup_by_kind(4) [symmetric] by blast
  have st: "keeps ServerSide server (T1\<lparr>cn_Middleware := store_ps_server x (cn_Middleware T1)\<rparr>)" for x
    by (rule keeps_trans [OF sp(2) store_keeps(2) [OF keepsD(1) [OF sp(2)]]])
  show ?thesis using s sp s1 st keeps_refl [OF assms(1)] by (cases e1) (auto simp: ps_sync_def Let_def write_status_def)
qed

lemma ps_SyncMiddleware_loop_keeps:
  assumes "conn_inv ServerSide server" "KPsServer \<in> set (kinds server)"
  shows "\<exists>e server'. ps_SyncMiddleware_loop tracking c server names = Some (e, server') \<and> keeps ServerSide server server'"
  using assms
proof (induction names arbitrary: server)
  case (Cons name names)
  from ps_sync_alone_keeps [OF Cons.prems, of tracking c name] obtain e e' s1 where
    p: "ps_sync tracking c None server name = Some ((e, e'), None, s1)" "keeps ServerSide server s1" by (elim exE conjE) rule
  have "conn_inv ServerSide s1" "KPsServer \<in> set (kinds s1)" using p(2) Cons.prems(2) by (simp_all add: keepsD)
  from Cons.IH [OF this] obtain f s2 where "ps_SyncMiddleware_loop tracking c s1 names = Some (f, s2)" "keeps ServerSide s1 s2"
    by (elim exE conjE) rule
  with p keeps_trans [OF p(2), of s2] show ?case by (cases e') auto
qed (simp add: keeps_refl)

lemma ps_SyncMiddleware_keeps:
  assumes "conn_inv ServerSide server" "KPsServer \<in> set (kinds server)"
  shows "\<exists>e server'. ps_SyncMiddleware tracking c server = Some (e, server') \<and> keeps ServerSide server server'"
proof -
  from assms(2) obtain s where s: "lookup_ps_server (cn_Middleware server) = Some s" unfolding lookup_by_kind(4) [symmetric] by blast
  from ps_SyncMiddleware_loop_keeps [OF assms, of tracking c "map fst (pc_parameters c)"] obtain e s1 where
    p: "ps_SyncMiddleware_loop tracking c server (map fst (pc_parameters c)) = Some (e, s1)" "keeps ServerSide server s1" by (elim exE conjE) rule
  have i: "conn_inv ServerSide s1" "KPsServer \<in> set (kinds s1)" using p(2) assms(2) by (simp_all add: keepsD)
  then obtain s' where s': "lookup_ps_server (cn_Middleware s1) = Some s'" unfolding lookup_by_kind(4) [symmetric] by blast
  let ?ns = "filter (\<lambda>name. map_of (pc_parameters c) name = None) (map fst (pv_parameters s'))"
  from ps_SyncMiddleware_loop_keeps [OF i, of tracking c ?ns] obtain f s2 where
    q: "ps_SyncMiddleware_loop tracking c s1 ?ns = Some (f, s2)" "keeps ServerSide s1 s2" by (elim exE conjE) rule
  show ?thesis using s s' p q keeps_trans [OF p(2) q(2)] by (cases e) (simp_all add: ps_SyncMiddleware_def)
qed

definition synced_pair :: "conn \<Rightarrow> conn \<Rightarrow> bool" where
  "synced_pair client server \<longleftrightarrow> conn_inv ClientSide client \<and> conn_inv ServerSide server \<and>
     KPsClient \<in> set (kinds client) \<and> KPsServer \<in> set (kinds server)"

lemma synced_pair_keeps:
  "synced_pair client server \<Longrightarrow> keeps ClientSide client client' \<Longrightarrow> keeps ServerSide server server' \<Longrightarrow> synced_pair client' server'"
  by (simp add: synced_pair_def keepsD)

lemma ps_Sync_loop_keeps:
  assumes "synced_pair client server"
  shows "\<exists>e e' client' server'. ps_Sync_loop skip tracking client server names = Some ((e, e'), Some client', server') \<and>
    keeps ClientSide client client' \<and> keeps ServerSide server server'"
  using assms
proof (induction names arbitrary: client server)
  case (Cons name names)
  then have i: "conn_inv ClientSide client" "conn_inv ServerSide server" "KPsServer \<in> set (kinds server)" by (simp_all add: synced_pair_def)
  from Cons.prems obtain c where c: "lookup_ps_client (cn_Middleware client) = Some c"
    unfolding synced_pair_def lookup_by_kind(3) [symmetric] by blast
  from ps_sync_keeps [OF i, of tracking c name] obtain e e' c1 s1 where
    p: "ps_sync tracking c (Some client) server name = Some ((e, e'), Some c1, s1)" "keeps ClientSide client c1" "keeps ServerSide server s1"
    by (elim exE conjE) rule
  from Cons.IH [OF synced_pair_keeps [OF Cons.prems p(2,3)]] obtain f f' c2 s2 where
    q: "ps_Sync_loop skip tracking c1 s1 names = Some ((f, f'), Some c2, s2)" "keeps ClientSide c1 c2" "keeps ServerSide s1 s2"
    by (elim exE conjE) rule
  show ?case using c p q Cons.IH [OF Cons.prems] keeps_trans [OF p(2) q(2)] keeps_trans [OF p(3) q(3)] by auto
qed (auto simp: synced_pair_def keeps_refl)

lemma ps_Sync_keeps:
  assumes "synced_pair client server"
  shows "\<exists>e e' client' server'. ps_Sync tracking client server = Some ((e, e'), Some client', server') \<and>
    keeps ClientSide client client' \<and> keeps ServerSide server server'"
proof -
  from assms obtain c s where l: "lookup_ps_client (cn_Middleware client) = Some c" "lookup_ps_server (cn_Middleware server) = Some s"
    unfolding synced_pair_def lookup_by_kind(3,4) [symmetric] by blast
  from ps_Sync_loop_keeps [OF assms, of False tracking "map fst (pc_parameters c)"] obtain e e' c1 s1 where
    p: "ps_Sync_loop False tracking client server (map fst (pc_parameters c)) = Some ((e, e'), Some c1, s1)"
      "keeps ClientSide client c1" "keeps ServerSide server s1" by (elim exE conjE) rule
  note i1 = synced_pair_keeps [OF assms p(2,3)]
  then obtain s' where l1: "lookup_ps_server (cn_Middleware s1) = Some s'" unfolding synced_pair_def lookup_by_kind(3,4) [symmetric] by blast
  from ps_Sync_loop_keeps [OF i1, of True tracking "map fst (pv_parameters s')"] obtain f f' c2 s2 where
    q: "ps_Sync_loop True tracking c1 s1 (map fst (pv_parameters s')) = Some ((f, f'), Some c2, s2)"
      "keeps ClientSide c1 c2" "keeps ServerSide s1 s2" by (elim exE conjE) rule
  from synced_pair_keeps [OF i1 q(2,3)] obtain c' where l2: "lookup_ps_client (cn_Middleware c2) = Some c'" "conn_inv ClientSide c2"
    unfolding synced_pair_def lookup_by_kind(3,4) [symmetric] by blast
  note k = keeps_trans [OF p(2) q(2)] keeps_trans [OF p(3) q(3)]
  show ?thesis using l l1 l2(1) p q k keeps_trans [OF k(1) store_keeps(1) [OF l2(2), of "c'\<lparr>pc_synced := True\<rparr>"]]
    by (auto simp: ps_Sync_def)
qed

end
