(* ===== verification/Basic_Pool.thy ===== *)
theory Basic_Pool
  imports Sync_Returns Spool
begin

text \<open>
  The client pool of \<^verbatim>\<open>lib/gat/handlers/pool/pools/basic\<close>: \<^verbatim>\<open>config.go\<close>, \<^verbatim>\<open>client.go\<close> and \<^verbatim>\<open>pool.go\<close>.  \<^verbatim>\<open>Serve\<close> is the life of
  one client: it acquires servers from the server pool, pairs them with the client, bounces one transaction after
  another and gives the servers back.  What the server pool answers to \<^verbatim>\<open>Acquire\<close> depends on the other clients: it is a
  script, and every call of the server pool is recorded, with the state of the server's connection at that time.
  Shown: \<^verbatim>\<open>Serve\<close> ends, and the calls of every run follow the protocol that the server pool relies on.
\<close>

section \<open>config.go\<close>

definition ParameterStatusSyncNone :: string where "ParameterStatusSyncNone = ''''"
definition ParameterStatusSyncInitial :: string where "ParameterStatusSyncInitial = ''initial''"
definition ParameterStatusSyncDynamic :: string where "ParameterStatusSyncDynamic = ''dynamic''"

definition TracingOptionDisabled :: int where "TracingOptionDisabled = 0"
definition TracingOptionClient :: int where "TracingOptionClient = 1"
definition TracingOptionServer :: int where "TracingOptionServer = 2"
definition TracingOptionClientAndServer :: int where "TracingOptionClientAndServer = TracingOptionClient OR TracingOptionServer"

lemmas option_defs = ParameterStatusSyncNone_def ParameterStatusSyncInitial_def ParameterStatusSyncDynamic_def
  TracingOptionDisabled_def TracingOptionClient_def TracingOptionServer_def TracingOptionClientAndServer_def

definition MapTracingOption :: "string \<Rightarrow> string + int" where
  "MapTracingOption s = (
     let l = ToLower s in
     if l \<in> {''disable'', ''disabled'', ''none'', ''off''} then Inr TracingOptionDisabled
     else if l = ''client'' then Inr TracingOptionClient
     else if l = ''server'' then Inr TracingOptionServer
     else if l \<in> {''client-and-server'', ''both'', ''all''} then Inr TracingOptionClientAndServer
     else Inl (''unknown tracing option: '' @ s))"

text \<open>Durations are numbers of nanoseconds; the pooler factory is the name of its module.\<close>

definition time_Second :: int where "time_Second = 1000000000"

record Config =
  bc_PoolerFactory :: string
  bc_ReleaseAfterTransaction :: bool
  bc_ParameterStatusSync :: string
  bc_ExtendedQuerySync :: bool
  bc_PacketTracingOption :: int
  bc_OtelTracingOption :: int
  bc_ServerResetQuery :: string
  bc_ServerResetQueryTimeout :: int
  bc_ClientAcquireTimeout :: int
  bc_ServerIdleTimeout :: int
  bc_ServerReconnectInitialTime :: int
  bc_ServerReconnectMaxTime :: int
  bc_TrackedParameters :: "CIString list"

text \<open>The configuration of the server pool, with the fields that only \<^verbatim>\<open>config.go\<close> sets.\<close>

record server_pool_config = spool_config +
  cf_PoolerFactory :: string
  cf_ResetQueryTimeout :: int
  cf_AcquireTimeout :: int

definition Config_Spool :: "Config \<Rightarrow> server_pool_config" where
  "Config_Spool T = (
     let resetQueryTimeout = bc_ServerResetQueryTimeout T;
         resetQueryTimeout = (if bc_ServerResetQuery T \<noteq> '''' \<and> resetQueryTimeout = 0 then 15 * time_Second else resetQueryTimeout) in
     \<lparr>cf_UsePS = (bc_ParameterStatusSync T = ParameterStatusSyncDynamic),
      cf_UseEQP = bc_ExtendedQuerySync T,
      cf_UseOtelTracing = (bc_OtelTracingOption T AND TracingOptionServer \<noteq> 0),
      cf_UsePacketTracing = (bc_PacketTracingOption T AND TracingOptionServer \<noteq> 0),
      cf_ResetQuery = bc_ServerResetQuery T,
      cf_IdleTimeout = bc_ServerIdleTimeout T,
      cf_ReconnectInitialTime = bc_ServerReconnectInitialTime T,
      cf_ReconnectMaxTime = bc_ServerReconnectMaxTime T,
      cf_PoolerFactory = bc_PoolerFactory T,
      cf_ResetQueryTimeout = resetQueryTimeout,
      cf_AcquireTimeout = bc_ClientAcquireTimeout T\<rparr>)"

definition Session :: Config where
  "Session = \<lparr>bc_PoolerFactory = ''lifo'', bc_ReleaseAfterTransaction = False,
     bc_ParameterStatusSync = ParameterStatusSyncInitial, bc_ExtendedQuerySync = False,
     bc_PacketTracingOption = TracingOptionDisabled, bc_OtelTracingOption = TracingOptionClient,
     bc_ServerResetQuery = ''DISCARD ALL'', bc_ServerResetQueryTimeout = 15 * time_Second, bc_ClientAcquireTimeout = 0,
     bc_ServerIdleTimeout = 0, bc_ServerReconnectInitialTime = 0, bc_ServerReconnectMaxTime = 0, bc_TrackedParameters = []\<rparr>"

definition Transaction_config :: Config where
  "Transaction_config = \<lparr>bc_PoolerFactory = ''rob'', bc_ReleaseAfterTransaction = True,
     bc_ParameterStatusSync = ParameterStatusSyncDynamic, bc_ExtendedQuerySync = True,
     bc_PacketTracingOption = TracingOptionDisabled, bc_OtelTracingOption = TracingOptionClient,
     bc_ServerResetQuery = '''', bc_ServerResetQueryTimeout = 0, bc_ClientAcquireTimeout = 0,
     bc_ServerIdleTimeout = 0, bc_ServerReconnectInitialTime = 0, bc_ServerReconnectMaxTime = 0, bc_TrackedParameters = []\<rparr>"

section \<open>Clients and servers\<close>

text \<open>
  A server as \<^verbatim>\<open>Serve\<close> holds it.  The clients are found by their backend key; the fields of a client that other threads
  read are kept under its id.  The clock is a script of times; once it is used up the time stands still.  This part is
  the same in both kinds of pool.
\<close>

record held_server =
  hs_ID :: uuid
  hs_Conn :: conn
  hs_state :: conn_state

datatype pool_call =
    CAddClient uuid
  | CRemoveClient uuid
  | CAcquire "(uuid \<times> conn) option"
  | CPair uuid conn conn "fed_error option" "fed_error option"
  | CBounce uuid conn conn "fed_error option" "fed_error option"
  | CRelease uuid conn
  | CRemoveServer uuid conn

record pool_clients =
  bp_clients :: "(BackendKey \<times> uuid) list"
  bp_state :: "uuid \<Rightarrow> conn_state"
  bp_now :: int
  bp_clock :: "int list"

record basic_pool = pool_clients +
  bp_acquire :: "held_server option list"
  bp_calls :: "pool_call list"

definition time_Now :: "'a pool_clients_scheme \<Rightarrow> int \<times> 'a pool_clients_scheme" where
  "time_Now w = (case bp_clock w of [] \<Rightarrow> (bp_now w, w) | t # ts \<Rightarrow> (t, w\<lparr>bp_now := t, bp_clock := ts\<rparr>))"

definition pool_called :: "pool_call \<Rightarrow> basic_pool \<Rightarrow> basic_pool" where
  "pool_called c w = w\<lparr>bp_calls := bp_calls w @ [c]\<rparr>"

definition basic_NewClient :: "uuid \<Rightarrow> 'a pool_clients_scheme \<Rightarrow> 'a pool_clients_scheme" where
  "basic_NewClient i w = (case time_Now w of (now, w) \<Rightarrow> w\<lparr>bp_state := (bp_state w)(i := new_conn_state 0 now)\<rparr>)"

definition client_SetState :: "uuid \<Rightarrow> ConnState \<Rightarrow> uuid \<Rightarrow> 'a pool_clients_scheme \<Rightarrow> 'a pool_clients_scheme" where
  "client_SetState i st peer w =
     (case time_Now w of (now, w) \<Rightarrow> w\<lparr>bp_state := (bp_state w)(i := SetState now st peer (bp_state w i))\<rparr>)"

definition server_SetState :: "ConnState \<Rightarrow> uuid \<Rightarrow> held_server \<Rightarrow> 'a pool_clients_scheme \<Rightarrow> held_server \<times> 'a pool_clients_scheme" where
  "server_SetState st peer s w = (case time_Now w of (now, w) \<Rightarrow> (s\<lparr>hs_state := SetState now st peer (hs_state s)\<rparr>, w))"

definition client_TransactionComplete :: "uuid \<Rightarrow> 'a pool_clients_scheme \<Rightarrow> 'a pool_clients_scheme" where
  "client_TransactionComplete i w = w\<lparr>bp_state := (bp_state w)(i := TransactionComplete (bp_state w i))\<rparr>"

definition addClient :: "BackendKey \<Rightarrow> uuid \<Rightarrow> 'a pool_clients_scheme \<Rightarrow> 'a pool_clients_scheme" where
  "addClient key i w = w\<lparr>bp_clients := AList.update key i (bp_clients w)\<rparr>"

definition removeClient :: "BackendKey \<Rightarrow> 'a pool_clients_scheme \<Rightarrow> 'a pool_clients_scheme" where
  "removeClient key w = w\<lparr>bp_clients := AList.delete key (bp_clients w)\<rparr>"

text \<open>
  \<^verbatim>\<open>T.servers.Acquire\<close>.  The script holds what the successive calls return, nil once it is used up.  A call that never
  returns, because no server comes and there is no timeout, is not part of it: what is said about \<^verbatim>\<open>Serve\<close> is said about
  runs in which every call of \<^verbatim>\<open>Acquire\<close> returns.  When a waiting client is served is the subject of \<^verbatim>\<open>Spool_Safety\<close>.
\<close>

definition servers_Acquire :: "basic_pool \<Rightarrow> held_server option \<times> basic_pool" where
  "servers_Acquire w =
     (case bp_acquire w of
        [] \<Rightarrow> (None, pool_called (CAcquire None) w)
      | r # rs \<Rightarrow> (r, pool_called (CAcquire (map_option (\<lambda>s. (hs_ID s, hs_Conn s)) r)) (w\<lparr>bp_acquire := rs\<rparr>)))"

definition servers_Release :: "held_server \<Rightarrow> basic_pool \<Rightarrow> basic_pool" where
  "servers_Release s w = pool_called (CRelease (hs_ID s) (hs_Conn s)) w"

definition servers_RemoveServer :: "held_server \<Rightarrow> basic_pool \<Rightarrow> basic_pool" where
  "servers_RemoveServer s w = pool_called (CRemoveServer (hs_ID s) (hs_Conn s)) w"

section \<open>Pairing\<close>

type_synonym pair_result = "((fed_error option \<times> fed_error option) \<times> conn \<times> conn) option"

definition status_msg :: "CIString \<Rightarrow> string \<Rightarrow> msg" where
  "status_msg key v = Msg (PParameterStatus \<lparr>ParameterStatus_Key = key, ParameterStatus_Value = v\<rparr>)"

text \<open>The two loops of \<^verbatim>\<open>syncInitialParameters\<close>; a map is visited in the order of its list.\<close>

fun sync_initial_client :: "CIString list \<Rightarrow> (CIString \<times> string) list \<Rightarrow> (CIString \<times> string) list \<Rightarrow> conn \<Rightarrow> conn \<Rightarrow> pair_result" where
  "sync_initial_client tracked serverParams [] client server = Some ((None, None), client, server)"
| "sync_initial_client tracked serverParams ((key, v) # ps) client server =
     (if map_get serverParams key = v then do {
        (err, client) \<leftarrow> conn_WritePacket (status_msg key (map_get serverParams key)) client;
        case err of
          Some err \<Rightarrow> Some ((Some err, None), client, server)
        | None \<Rightarrow> sync_initial_client tracked serverParams ps client server
      }
      else do {
        let setServer = slices_Contains tracked key;
        let v = (if \<not> setServer then map_get serverParams key else v);
        (err, client) \<leftarrow> conn_WritePacket (status_msg key v) client;
        case err of
          Some err \<Rightarrow> Some ((Some err, None), client, server)
        | None \<Rightarrow>
            if \<not> setServer then sync_initial_client tracked serverParams ps client server
            else do {
              ((serverErr, _), server, _) \<leftarrow> SetParameter server None key v;
              case serverErr of
                Some e \<Rightarrow> Some ((None, Some e), client, server)
              | None \<Rightarrow> sync_initial_client tracked serverParams ps client server
            }
      })"

fun sync_initial_server :: "(CIString \<times> string) list \<Rightarrow> (CIString \<times> string) list \<Rightarrow> conn \<Rightarrow> (fed_error option \<times> conn) option" where
  "sync_initial_server clientParams [] client = Some (None, client)"
| "sync_initial_server clientParams ((key, v) # ps) client =
     (if map_of clientParams key \<noteq> None then sync_initial_server clientParams ps client
      else do {
        (err, client) \<leftarrow> conn_WritePacket (status_msg key v) client;
        case err of
          Some err \<Rightarrow> Some (Some err, client)
        | None \<Rightarrow> sync_initial_server clientParams ps client
      })"

definition syncInitialParameters :: "Config \<Rightarrow> conn \<Rightarrow> conn \<Rightarrow> pair_result" where
  "syncInitialParameters T client server = do {
     let clientParams = cn_InitialParameters client;
     let serverParams = cn_InitialParameters server;
     ((err, serverErr), client, server) \<leftarrow> sync_initial_client (bc_TrackedParameters T) serverParams clientParams client server;
     if err \<noteq> None \<or> serverErr \<noteq> None then Some ((err, serverErr), client, server)
     else do {
       (err, client) \<leftarrow> sync_initial_server clientParams serverParams client;
       Some ((err, None), client, server)
     }
   }"

definition pair_params :: "Config \<Rightarrow> conn \<Rightarrow> conn \<Rightarrow> pair_result" where
  "pair_params T client server =
     (if bc_ParameterStatusSync T = ParameterStatusSyncDynamic then do {
        (errs, client', server) \<leftarrow> ps_Sync (bc_TrackedParameters T) client server;
        client \<leftarrow> client';
        Some (errs, client, server)
      }
      else if bc_ParameterStatusSync T = ParameterStatusSyncInitial then syncInitialParameters T client server
      else Some ((None, None), client, server))"

definition pair_sync :: "Config \<Rightarrow> conn \<Rightarrow> conn \<Rightarrow> pair_result" where
  "pair_sync T client server = do {
     ((err, serverErr), client, server) \<leftarrow> pair_params T client server;
     if err \<noteq> None \<or> serverErr \<noteq> None then Some ((err, serverErr), client, server)
     else if bc_ExtendedQuerySync T then do {
       (serverErr, server) \<leftarrow> eqp_Sync client server;
       Some ((None, serverErr), client, server)
     }
     else Some ((None, None), client, server)
   }"

type_synonym paired_result = "((fed_error option \<times> fed_error option) \<times> conn \<times> held_server \<times> basic_pool) option"

definition set_both :: "ConnState \<Rightarrow> uuid \<Rightarrow> held_server \<Rightarrow> basic_pool \<Rightarrow> held_server \<times> basic_pool" where
  "set_both st i server w = server_SetState st i server (client_SetState i st (hs_ID server) w)"

definition pair :: "Config \<Rightarrow> uuid \<Rightarrow> conn \<Rightarrow> held_server \<Rightarrow> basic_pool \<Rightarrow> paired_result" where
  "pair T i client server w =
     (if bc_ParameterStatusSync T \<noteq> ParameterStatusSyncNone \<or> bc_ExtendedQuerySync T then
        (case set_both ConnStatePairing i server w of (server, w) \<Rightarrow> do {
           ((err, serverErr), client, sconn) \<leftarrow> pair_sync T client (hs_Conn server);
           let server = server\<lparr>hs_Conn := sconn\<rparr>;
           if err \<noteq> None \<or> serverErr \<noteq> None then Some ((err, serverErr), client, server, w)
           else (case set_both ConnStateActive i server w of (server, w) \<Rightarrow> Some ((None, None), client, server, w))
         })
      else (case set_both ConnStateActive i server w of (server, w) \<Rightarrow> Some ((None, None), client, server, w)))"

text \<open>\<^verbatim>\<open>Pair\<close> wraps \<^verbatim>\<open>pair\<close> in a tracing span; here it records the call.\<close>

definition basic_Pair :: "Config \<Rightarrow> uuid \<Rightarrow> conn \<Rightarrow> held_server \<Rightarrow> basic_pool \<Rightarrow> paired_result" where
  "basic_Pair T i client server w = do {
     ((err, serverErr), client, server', w) \<leftarrow> pair T i client server w;
     Some ((err, serverErr), client, server', pool_called (CPair (hs_ID server) (hs_Conn server) (hs_Conn server') err serverErr) w)
   }"

section \<open>Serving a client\<close>

datatype serve_error = ErrFailedToAcquirePeer | PlainError fed_error | ServerError fed_error

type_synonym serve_result = "((serve_error \<times> fed_error option) \<times> conn \<times> held_server option \<times> basic_pool) option"

definition client_middlewares :: "Config \<Rightarrow> conn \<Rightarrow> middleware list" where
  "client_middlewares T conn =
     (if bc_PacketTracingOption T AND TracingOptionClient \<noteq> 0 then [MwTrace] else []) @
     (if bc_OtelTracingOption T AND TracingOptionClient \<noteq> 0 then [MwTrace] else []) @
     (if bc_ParameterStatusSync T = ParameterStatusSyncDynamic then [MwPsClient (ps_NewClient (cn_InitialParameters conn))] else []) @
     (if bc_ExtendedQuerySync T then [MwEqpClient eqp_new] else [])"

text \<open>\<^verbatim>\<open>client.SetState(AwaitingServer)\<close>, \<^verbatim>\<open>Acquire\<close> and \<^verbatim>\<open>Pair\<close>; no server is \<^term>\<open>None\<close> in the third component.\<close>

definition acquire_pair :: "Config \<Rightarrow> uuid \<Rightarrow> conn \<Rightarrow> basic_pool \<Rightarrow>
    ((fed_error option \<times> fed_error option) \<times> conn \<times> held_server option \<times> basic_pool) option" where
  "acquire_pair T i client w =
     (case servers_Acquire (client_SetState i ConnStateAwaitingServer uuid_nil w) of
        (None, w) \<Rightarrow> Some ((None, None), client, None, w)
      | (Some server, w) \<Rightarrow>
          map_option (\<lambda>(errs, client, server, w). (errs, client, Some server, w)) (basic_Pair T i client server w))"

definition serve_bounce :: "conn \<Rightarrow> held_server \<Rightarrow> msg \<Rightarrow> basic_pool \<Rightarrow> paired_result" where
  "serve_bounce client server packet w = do {
     ((err, serverErr), client, sconn) \<leftarrow> Bounce client (hs_Conn server) packet;
     Some ((err, serverErr), client, server\<lparr>hs_Conn := sconn\<rparr>,
       pool_called (CBounce (hs_ID server) (hs_Conn server) sconn err serverErr) w)
   }"

text \<open>The part of a round of the loop that has a server and a packet: the result is an error to return with, or none.\<close>

definition serve_packet :: "Config \<Rightarrow> uuid \<Rightarrow> conn \<Rightarrow> held_server option \<Rightarrow> msg \<Rightarrow> basic_pool \<Rightarrow>
    ((serve_error option \<times> fed_error option) \<times> conn \<times> held_server option \<times> basic_pool) option" where
  "serve_packet T i client server packet w = do {
     ((err, serverErr), client, server, w) \<leftarrow>
       (case server of None \<Rightarrow> acquire_pair T i client w | Some s \<Rightarrow> Some ((None, None), client, Some s, w));
     case server of
       None \<Rightarrow> Some ((Some ErrFailedToAcquirePeer, None), client, None, w)
     | Some s \<Rightarrow> do {
         ((err, serverErr), client, s, w) \<leftarrow>
           (if err = None \<and> serverErr = None then serve_bounce client s packet w else Some ((err, serverErr), client, s, w));
         case serverErr of
           Some e \<Rightarrow> Some ((Some (ServerError e), Some e), client, Some s, w)
         | None \<Rightarrow>
             let w = client_TransactionComplete i w;
                 s = s\<lparr>hs_state := TransactionComplete (hs_state s)\<rparr> in
             Some ((map_option PlainError err, None), client, Some s, w)
       }
   }"

text \<open>The release at the head of a round.\<close>

definition release_after :: "Config \<Rightarrow> uuid \<Rightarrow> held_server option \<Rightarrow> basic_pool \<Rightarrow> held_server option \<times> basic_pool" where
  "release_after T i server w =
     (case server of
        Some s \<Rightarrow>
          if bc_ReleaseAfterTransaction T
          then (None, servers_Release s (client_SetState i ConnStateIdle uuid_nil w))
          else (Some s, w)
      | None \<Rightarrow> (None, w))"

partial_function (option) serve_loop :: "Config \<Rightarrow> uuid \<Rightarrow> conn \<Rightarrow> held_server option \<Rightarrow> basic_pool \<Rightarrow> serve_result" where
  "serve_loop T i client server w =
     (case release_after T i server w of (server, w) \<Rightarrow> do {
        (r, client) \<leftarrow> conn_ReadPacket True client;
        case r of
          Inl err \<Rightarrow> Some ((PlainError err, None), client, server, w)
        | Inr packet \<Rightarrow> do {
            ((err, serverErr), client, server, w) \<leftarrow> serve_packet T i client server packet w;
            case err of
              Some err \<Rightarrow> Some ((err, serverErr), client, server, w)
            | None \<Rightarrow> serve_loop T i client server w
          }
      })"

declare serve_loop.simps [code]

text \<open>The phase before the loop: a client that is not ready is paired first.\<close>

definition serve_start :: "Config \<Rightarrow> uuid \<Rightarrow> conn \<Rightarrow> basic_pool \<Rightarrow>
    ((serve_error option \<times> fed_error option) \<times> conn \<times> held_server option \<times> basic_pool) option" where
  "serve_start T i client w =
     (if cn_Ready client then Some ((None, None), client, None, w)
      else do {
        ((err, serverErr), client, server, w) \<leftarrow> acquire_pair T i client w;
        case server of
          None \<Rightarrow> Some ((Some ErrFailedToAcquirePeer, None), client, None, w)
        | Some s \<Rightarrow>
            (case (serverErr, err) of
               (Some e, _) \<Rightarrow> Some ((Some (PlainError e), Some e), client, Some s, w)
             | (None, Some e) \<Rightarrow> Some ((Some (PlainError e), None), client, Some s, w)
             | (None, None) \<Rightarrow> do {
                 (err, client) \<leftarrow> conn_WritePacket (Msg (PReadyForQuery (type_code CHR ''I''))) client;
                 case err of
                   Some e \<Rightarrow> Some ((Some (PlainError e), None), client, Some s, w)
                 | None \<Rightarrow> Some ((None, None), client\<lparr>cn_Ready := True\<rparr>, Some s, w)
               })
      })"

text \<open>The deferred function that gives the server back.\<close>

definition give_back :: "held_server option \<Rightarrow> fed_error option \<Rightarrow> basic_pool \<Rightarrow> basic_pool" where
  "give_back server serverErr w =
     (case server of
        None \<Rightarrow> w
      | Some s \<Rightarrow> if serverErr \<noteq> None then servers_RemoveServer s w else servers_Release s w)"

definition serve_connected :: "Config \<Rightarrow> uuid \<Rightarrow> conn \<Rightarrow> basic_pool \<Rightarrow> serve_result" where
  "serve_connected T i client w = do {
     ((err, serverErr), client, server, w) \<leftarrow> serve_start T i client w;
     case err of
       Some err \<Rightarrow> Some ((err, serverErr), client, server, w)
     | None \<Rightarrow> serve_loop T i client server w
   }"

text \<open>\<^verbatim>\<open>serve\<close> for a client with id \<open>i\<close>; the deferred calls run in the reverse order.\<close>

definition serve_open :: "Config \<Rightarrow> uuid \<Rightarrow> conn \<Rightarrow> basic_pool \<Rightarrow> conn \<times> basic_pool" where
  "serve_open T i conn w = (
     let client = conn\<lparr>cn_Middleware := cn_Middleware conn @ client_middlewares T conn\<rparr>;
         w = basic_NewClient i w;
         w = addClient (cn_BackendKey client) i w in
     (client, pool_called (CAddClient i) w))"

definition serve_close :: "uuid \<Rightarrow> BackendKey \<Rightarrow> held_server option \<Rightarrow> fed_error option \<Rightarrow> basic_pool \<Rightarrow> basic_pool" where
  "serve_close i key server serverErr w = removeClient key (pool_called (CRemoveClient i) (give_back server serverErr w))"

definition serve :: "Config \<Rightarrow> uuid \<Rightarrow> conn \<Rightarrow> basic_pool \<Rightarrow> (serve_error \<times> conn \<times> basic_pool) option" where
  "serve T i conn w =
     (case serve_open T i conn w of (client, w) \<Rightarrow> do {
        ((err, serverErr), client, server, w) \<leftarrow> serve_connected T i client w;
        Some (err, client, serve_close i (cn_BackendKey client) server serverErr w)
      })"

section \<open>The other methods\<close>

text \<open>\<^verbatim>\<open>Cancel\<close>: the server that the client with the key is paired with, if any, and what the server pool does with it.\<close>

definition cancel_peer :: "BackendKey \<Rightarrow> basic_pool \<Rightarrow> uuid option" where
  "cancel_peer key w =
     (case map_of (bp_clients w) key of
        None \<Rightarrow> None
      | Some c \<Rightarrow> (case GetState (bp_state w c) of (_, _, peer) \<Rightarrow> if peer = uuid_nil then None else Some peer))"

definition basic_Cancel :: "BackendKey \<Rightarrow> basic_pool \<Rightarrow> 's spool \<Rightarrow> nat option" where
  "basic_Cancel key w servers = do { peer \<leftarrow> cancel_peer key w; spool_Cancel peer servers }"

text \<open>\<^verbatim>\<open>ReadMetrics\<close>: the report of the server pool is added to the map, then those of the clients.\<close>

definition servers_ReadMetrics :: "int \<Rightarrow> 's spool \<Rightarrow> pool_report \<Rightarrow> pool_report \<times> 's spool" where
  "servers_ReadMetrics now servers m =
     (case spool_ReadMetrics now servers of (ms, servers) \<Rightarrow>
        (m\<lparr>mp_Servers := fold (\<lambda>(k, v). AList.update k v) ms (mp_Servers m)\<rparr>, servers))"

definition clients_ReadMetrics :: "'a pool_clients_scheme \<Rightarrow> (uuid \<times> conn_report) list \<Rightarrow> (uuid \<times> conn_report) list \<times> 'a pool_clients_scheme" where
  "clients_ReadMetrics w cs =
     fold (\<lambda>i (cs, w). case time_Now w of (now, w) \<Rightarrow> case ReadMetrics now (bp_state w i) of (c, st) \<Rightarrow>
       (AList.update i c cs, w\<lparr>bp_state := (bp_state w)(i := st)\<rparr>)) (map snd (bp_clients w)) (cs, w)"

definition basic_ReadMetrics :: "basic_pool \<Rightarrow> 's spool \<Rightarrow> pool_report \<Rightarrow> pool_report \<times> basic_pool \<times> 's spool" where
  "basic_ReadMetrics w servers m =
     (case servers_ReadMetrics (bp_now w) servers m of (m, servers) \<Rightarrow>
      case clients_ReadMetrics w (mp_Clients m) of (cs, w) \<Rightarrow> (m\<lparr>mp_Clients := cs\<rparr>, w, servers))"

text \<open>\<^verbatim>\<open>NewPool\<close> makes a server pool with the configuration of the client pool; recipes and closing are passed on.\<close>

definition NewPool :: "Config \<Rightarrow> 's \<Rightarrow> Chef \<Rightarrow> 's spool" where
  "NewPool config poolr chef = MakePool (spool_config.truncate (Config_Spool config)) poolr chef"

definition basic_AddRecipe :: "'s pooler_api \<Rightarrow> int \<Rightarrow> string \<Rightarrow> nat \<Rightarrow> 's spool \<Rightarrow> 's spool option" where
  "basic_AddRecipe api now name recipe servers = AddRecipe api now name recipe servers"

definition basic_RemoveRecipe :: "'s pooler_api \<Rightarrow> int \<Rightarrow> string \<Rightarrow> 's spool \<Rightarrow> 's spool option" where
  "basic_RemoveRecipe api now name servers = RemoveRecipe api now name servers"

definition basic_Close :: "'s pooler_api \<Rightarrow> 's spool \<Rightarrow> 's spool option" where
  "basic_Close api servers = spool_Close api servers"

text \<open>What \<^verbatim>\<open>addServer\<close> of the server pool appends to the middlewares of a new connection.\<close>

definition server_mw :: "conn \<Rightarrow> server_middleware \<Rightarrow> middleware" where
  "server_mw conn m =
     (case m of
        MwPacketTrace \<Rightarrow> MwTrace
      | MwOtelTrace \<Rightarrow> MwTrace
      | MwPS \<Rightarrow> MwPsServer (ps_NewServer (cn_InitialParameters conn))
      | MwEQP \<Rightarrow> MwEqpServer eqp_new)"

end
