(* ===== verification/Basic_Serve.thy ===== *)
theory Basic_Serve
  imports Basic_Pool
begin

text \<open>
  What \<^verbatim>\<open>Serve\<close> of the basic pool promises to the server pool, as an automaton over the recorded calls, and that it ends.
\<close>

section \<open>The protocol\<close>

text \<open>
  A client registers, acquires a server, pairs with it, runs transactions on it and gives it back before it acquires
  another or leaves.  A server that failed is removed, any other is released, and only after its last transaction ended
  with the server idle.  With \<^verbatim>\<open>ReleaseAfterTransaction\<close> a server that ran a transaction is \<open>Spent\<close>: it has to be released.
\<close>

datatype phase =
    Absent | NoServer | Fresh uuid conn | Ready uuid conn | Spent uuid conn | Leaving uuid conn | Failed uuid conn | Done | Gone

definition ends_idle :: "conn \<Rightarrow> conn \<Rightarrow> bool" where
  "ends_idle c c' \<longleftrightarrow> (
     let taken = take (length (cn_inbox c) - length (cn_inbox c')) (cn_inbox c) in
     cn_inbox c = taken @ cn_inbox c' \<and> taken \<noteq> [] \<and> last taken = Inr (Msg (PReadyForQuery (type_code CHR ''I''))))"

definition after_pair :: "uuid \<Rightarrow> conn \<Rightarrow> fed_error option \<Rightarrow> fed_error option \<Rightarrow> phase \<Rightarrow> phase" where
  "after_pair s c err serverErr ok = (if serverErr \<noteq> None then Failed s c else if err \<noteq> None then Leaving s c else ok)"

definition proto_step :: "Config \<Rightarrow> uuid \<Rightarrow> phase \<Rightarrow> pool_call \<Rightarrow> phase option" where
  "proto_step T i ph call =
     (case call of
        CAddClient j \<Rightarrow> if ph = Absent \<and> j = i then Some NoServer else None
      | CRemoveClient j \<Rightarrow> if ph \<in> {NoServer, Done} \<and> j = i then Some Gone else None
      | CAcquire r \<Rightarrow> if ph = NoServer then Some (case r of None \<Rightarrow> Done | Some (s, c) \<Rightarrow> Fresh s c) else None
      | CPair s c c' err serverErr \<Rightarrow> if ph = Fresh s c then Some (after_pair s c' err serverErr (Ready s c')) else None
      | CBounce s c c' err serverErr \<Rightarrow>
          if ph = Ready s c \<and> (serverErr = None \<longrightarrow> ends_idle c c')
          then Some (after_pair s c' err serverErr (if bc_ReleaseAfterTransaction T then Spent s c' else Ready s c'))
          else None
      | CRelease s c \<Rightarrow>
          if ph = Ready s c \<or> ph = Spent s c then Some NoServer else if ph = Leaving s c then Some Done else None
      | CRemoveServer s c \<Rightarrow> if ph = Failed s c then Some Done else None)"

primrec proto_run :: "Config \<Rightarrow> uuid \<Rightarrow> phase \<Rightarrow> pool_call list \<Rightarrow> phase option" where
  "proto_run T i ph [] = Some ph"
| "proto_run T i ph (c # cs) = do { ph \<leftarrow> proto_step T i ph c; proto_run T i ph cs }"

lemma proto_run_append: "proto_run T i ph (xs @ ys) = Option.bind (proto_run T i ph xs) (\<lambda>ph. proto_run T i ph ys)"
  by (induction xs arbitrary: ph) (auto split: bind_splits)

text \<open>The calls since the client came, and the phase they lead to.\<close>

definition in_phase :: "pool_call list \<Rightarrow> Config \<Rightarrow> uuid \<Rightarrow> basic_pool \<Rightarrow> phase \<Rightarrow> bool" where
  "in_phase base T i w ph \<longleftrightarrow> (\<exists>cs. bp_calls w = base @ cs \<and> proto_run T i Absent cs = Some ph)"

lemma in_phase_called:
  assumes "in_phase base T i w ph" "proto_step T i ph c = Some ph'"
  shows "in_phase base T i (pool_called c w) ph'"
proof -
  from assms(1) obtain cs where "bp_calls w = base @ cs" "proto_run T i Absent cs = Some ph" unfolding in_phase_def by blast
  with assms(2) show ?thesis unfolding in_phase_def
    by (intro exI [of _ "cs @ [c]"]) (simp add: pool_called_def proto_run_append)
qed

text \<open>The servers that a run acquired, and those that it gave back, in the order of the calls.\<close>

fun acquired :: "pool_call list \<Rightarrow> uuid list" where
  "acquired [] = []"
| "acquired (CAcquire (Some (s, c)) # cs) = s # acquired cs"
| "acquired (_ # cs) = acquired cs"

fun given_back :: "pool_call list \<Rightarrow> uuid list" where
  "given_back [] = []"
| "given_back (CRelease s c # cs) = s # given_back cs"
| "given_back (CRemoveServer s c # cs) = s # given_back cs"
| "given_back (_ # cs) = given_back cs"

primrec held_in :: "phase \<Rightarrow> uuid list" where
  "held_in Absent = []"
| "held_in NoServer = []"
| "held_in (Fresh s c) = [s]"
| "held_in (Ready s c) = [s]"
| "held_in (Spent s c) = [s]"
| "held_in (Leaving s c) = [s]"
| "held_in (Failed s c) = [s]"
| "held_in Done = []"
| "held_in Gone = []"

lemma proto_step_held:
  "proto_step T i ph c = Some ph' \<Longrightarrow> held_in ph @ acquired (c # cs) = given_back [c] @ held_in ph' @ acquired cs"
  by (cases c) (auto simp: proto_step_def after_pair_def split: if_splits option.splits)

lemma given_back_append: "given_back (xs @ ys) = given_back xs @ given_back ys"
  by (induction xs rule: given_back.induct) auto

lemma proto_run_held: "proto_run T i ph cs = Some ph' \<Longrightarrow> held_in ph @ acquired cs = given_back cs @ held_in ph'"
proof (induction cs arbitrary: ph)
  case (Cons c cs)
  then obtain ph1 where p: "proto_step T i ph c = Some ph1" "proto_run T i ph1 cs = Some ph'" by (auto split: bind_splits)
  show ?case using proto_step_held [OF p(1), of cs] Cons.IH [OF p(2)] given_back_append [of "[c]" cs] by simp
qed simp

section \<open>What a step leaves alone\<close>

definition quietly :: "basic_pool \<Rightarrow> basic_pool \<Rightarrow> bool" where
  "quietly w w' \<longleftrightarrow> bp_calls w' = bp_calls w \<and> bp_acquire w' = bp_acquire w \<and> bp_clients w' = bp_clients w"

lemma quietly_refl [simp]: "quietly w w"
  by (simp add: quietly_def)

lemma quietly_phase: "quietly w w' \<Longrightarrow> in_phase base T i w' ph \<longleftrightarrow> in_phase base T i w ph"
  by (simp add: quietly_def in_phase_def)

lemma time_Now_fields:
  fixes w w' :: basic_pool
  shows "time_Now w = (t, w') \<Longrightarrow> bp_calls w' = bp_calls w \<and> bp_acquire w' = bp_acquire w \<and> bp_clients w' = bp_clients w \<and> bp_state w' = bp_state w"
  by (auto simp: time_Now_def split: list.splits)

lemma client_SetState_quiet: "quietly w (client_SetState i st peer w)"
  by (auto simp: client_SetState_def quietly_def split: prod.splits dest: time_Now_fields)

lemma client_TransactionComplete_quiet: "quietly w (client_TransactionComplete i w)"
  by (simp add: client_TransactionComplete_def quietly_def)

lemma client_SetState_peer:
  fixes w :: basic_pool
  shows "bp_state (client_SetState i st peer w) j = (if j = i then SetState (fst (time_Now w)) st peer (bp_state w i) else bp_state w j)"
  by (auto simp: client_SetState_def split: prod.splits dest: time_Now_fields)

lemma set_both_quiet:
  "set_both st i s w = (s', w') \<Longrightarrow> quietly w w' \<and> hs_ID s' = hs_ID s \<and> hs_Conn s' = hs_Conn s"
  using client_SetState_quiet [of w i st "hs_ID s"]
  by (auto simp: set_both_def server_SetState_def quietly_def split: prod.splits dest: time_Now_fields)

lemma set_both_peer: "set_both st i s w = (s', w') \<Longrightarrow> cs_peer (bp_state w' i) = hs_ID s"
  by (auto simp: set_both_def server_SetState_def client_SetState_peer SetState_def Let_def split: prod.splits dest!: time_Now_fields)

section \<open>Pairing returns\<close>

definition client_ok :: "Config \<Rightarrow> conn \<Rightarrow> bool" where
  "client_ok T c \<longleftrightarrow> conn_inv ClientSide c \<and>
     (bc_ParameterStatusSync T = ParameterStatusSyncDynamic \<longrightarrow> KPsClient \<in> set (kinds c)) \<and>
     (bc_ExtendedQuerySync T \<longrightarrow> KEqpClient \<in> set (kinds c))"

definition server_ok :: "Config \<Rightarrow> conn \<Rightarrow> bool" where
  "server_ok T c \<longleftrightarrow> conn_inv ServerSide c \<and>
     (bc_ParameterStatusSync T = ParameterStatusSyncDynamic \<longrightarrow> KPsServer \<in> set (kinds c)) \<and>
     (bc_ExtendedQuerySync T \<longrightarrow> KEqpServer \<in> set (kinds c))"

lemma client_ok_keeps: "client_ok T c \<Longrightarrow> keeps ClientSide c c' \<Longrightarrow> client_ok T c'"
  by (simp add: client_ok_def keepsD)

lemma server_ok_keeps: "server_ok T c \<Longrightarrow> keeps ServerSide c c' \<Longrightarrow> server_ok T c'"
  by (simp add: server_ok_def keepsD)

lemma status_keeps: "conn_inv ClientSide c \<Longrightarrow> \<exists>e c'. conn_WritePacket (status_msg key v) c = Some (e, c') \<and> keeps ClientSide c c'"
  by (rule write_keeps) (simp_all add: status_msg_def s2c_status)

text \<open>A step that returns and keeps both connections.\<close>

definition pairs :: "conn \<Rightarrow> conn \<Rightarrow> pair_result \<Rightarrow> bool" where
  "pairs client server r \<longleftrightarrow> (\<exists>e e' client' server'. r = Some ((e, e'), client', server') \<and>
     keeps ClientSide client client' \<and> keeps ServerSide server server')"

lemma pairsI: "keeps ClientSide client client' \<Longrightarrow> keeps ServerSide server server' \<Longrightarrow> pairs client server (Some (es, client', server'))"
  by (cases es) (auto simp: pairs_def)

lemma pairs_from:
  "keeps ClientSide client c1 \<Longrightarrow> keeps ServerSide server s1 \<Longrightarrow> pairs c1 s1 r \<Longrightarrow> pairs client server r"
  unfolding pairs_def by (blast intro: keeps_trans)

lemma sync_initial_client_pairs:
  assumes "conn_inv ClientSide client" "conn_inv ServerSide server"
  shows "pairs client server (sync_initial_client tracked sp ps client server)"
  using assms
proof (induction ps arbitrary: client server)
  case (Cons kv ps)
  obtain key v where kv: "kv = (key, v)" by fastforce
  note rf = keeps_refl [OF Cons.prems(2)]
  let ?v = "if map_get sp key = v then map_get sp key else if \<not> slices_Contains tracked key then map_get sp key else v"
  from status_keeps [OF Cons.prems(1), of key ?v] obtain e c1 where
    w: "conn_WritePacket (status_msg key ?v) client = Some (e, c1)" "keeps ClientSide client c1" by (elim exE conjE) rule
  from SetParameter_keeps [OF Cons.prems(2), of key ?v] obtain f f' s1 q where
    p: "SetParameter server None key ?v = Some ((f, f'), s1, q)" "keeps ServerSide server s1" by (elim exE conjE) rule
  note IH = pairs_from [OF w(2) rf Cons.IH [OF keepsD(1) [OF w(2)] Cons.prems(2)]]
    pairs_from [OF w(2) p(2) Cons.IH [OF keepsD(1) [OF w(2)] keepsD(1) [OF p(2)]]]
  show ?case using w p IH pairsI [OF w(2) rf] pairsI [OF w(2) p(2)] unfolding kv
    by (cases e; cases f) (auto simp: Let_def split: if_splits)
qed (simp add: pairsI keeps_refl)

lemma sync_initial_server_keeps:
  assumes "conn_inv ClientSide client"
  shows "\<exists>e client'. sync_initial_server cp ps client = Some (e, client') \<and> keeps ClientSide client client'"
  using assms
proof (induction ps arbitrary: client)
  case (Cons kv ps)
  obtain key v where kv: "kv = (key, v)" by fastforce
  from status_keeps [OF Cons.prems, of key v] obtain e c1 where
    w: "conn_WritePacket (status_msg key v) client = Some (e, c1)" "keeps ClientSide client c1" by (elim exE conjE) rule
  from Cons.IH [OF keepsD(1) [OF w(2)]] obtain f c2 where "sync_initial_server cp ps c1 = Some (f, c2)" "keeps ClientSide c1 c2"
    by (elim exE conjE) rule
  with w Cons.IH [OF Cons.prems] keeps_trans [OF w(2), of c2] show ?case unfolding kv by (cases e) auto
qed (simp add: keeps_refl)

lemma syncInitialParameters_pairs:
  assumes "conn_inv ClientSide client" "conn_inv ServerSide server"
  shows "pairs client server (syncInitialParameters T client server)"
proof -
  from sync_initial_client_pairs [OF assms, of "bc_TrackedParameters T" "cn_InitialParameters server" "cn_InitialParameters client"]
  obtain e e' c1 s1 where p: "sync_initial_client (bc_TrackedParameters T) (cn_InitialParameters server) (cn_InitialParameters client) client server =
      Some ((e, e'), c1, s1)" "keeps ClientSide client c1" "keeps ServerSide server s1" unfolding pairs_def by (elim exE conjE) rule
  from sync_initial_server_keeps [OF keepsD(1) [OF p(2)], of "cn_InitialParameters client" "cn_InitialParameters server"] obtain f c2 where
    q: "sync_initial_server (cn_InitialParameters client) (cn_InitialParameters server) c1 = Some (f, c2)" "keeps ClientSide c1 c2"
    by (elim exE conjE) rule
  show ?thesis using p(1) q(1) pairsI [OF p(2,3)] pairsI [OF keeps_trans [OF p(2) q(2)] p(3)]
    by (simp add: syncInitialParameters_def)
qed

lemma pair_params_pairs:
  assumes "client_ok T client" "server_ok T server"
  shows "pairs client server (pair_params T client server)"
proof -
  have i: "conn_inv ClientSide client" "conn_inv ServerSide server" using assms by (simp_all add: client_ok_def server_ok_def)
  have d: "bc_ParameterStatusSync T = ParameterStatusSyncDynamic \<Longrightarrow> synced_pair client server"
    using assms by (simp add: client_ok_def server_ok_def synced_pair_def)
  show ?thesis
    using syncInitialParameters_pairs [OF i, of T] ps_Sync_keeps [OF d, of "bc_TrackedParameters T"] i
    by (auto simp: pair_params_def pairs_def keeps_refl)
qed

lemma pair_sync_pairs:
  assumes "client_ok T client" "server_ok T server"
  shows "pairs client server (pair_sync T client server)"
proof -
  from pair_params_pairs [OF assms] obtain e e' c1 s1 where p: "pair_params T client server = Some ((e, e'), c1, s1)"
    "keeps ClientSide client c1" "keeps ServerSide server s1" unfolding pairs_def by (elim exE conjE) rule
  note ok = client_ok_keeps [OF assms(1) p(2)] server_ok_keeps [OF assms(2) p(3)]
  have "\<exists>f s2. eqp_Sync c1 s1 = Some (f, s2) \<and> keeps ServerSide s1 s2" if "bc_ExtendedQuerySync T"
    using eqp_Sync_keeps [of c1 s1] ok that by (simp add: client_ok_def server_ok_def)
  then show ?thesis using p(1) pairsI [OF p(2,3)] pairsI [OF p(2) keeps_trans [OF p(3)]] by (auto simp: pair_sync_def)
qed

lemma pair_returns:
  assumes "client_ok T client" "server_ok T (hs_Conn s)"
  shows "\<exists>e e' client' s' w'. pair T i client s w = Some ((e, e'), client', s', w') \<and> keeps ClientSide client client' \<and>
    server_ok T (hs_Conn s') \<and> hs_ID s' = hs_ID s \<and> quietly w w' \<and> (e = None \<and> e' = None \<longrightarrow> cs_peer (bp_state w' i) = hs_ID s)"
proof -
  obtain s1 w1 where b1: "set_both ConnStatePairing i s w = (s1, w1)" by fastforce
  note q1 = set_both_quiet [OF b1]
  obtain s0 w0 where b0: "set_both ConnStateActive i s w = (s0, w0)" by fastforce
  note q0 = set_both_quiet [OF b0] set_both_peer [OF b0]
  from pair_sync_pairs [OF assms] obtain e e' c2 sc where p: "pair_sync T client (hs_Conn s) = Some ((e, e'), c2, sc)"
    "keeps ClientSide client c2" "keeps ServerSide (hs_Conn s) sc" unfolding pairs_def by (elim exE conjE) rule
  obtain s2 w2 where b2: "set_both ConnStateActive i (s1\<lparr>hs_Conn := sc\<rparr>) w1 = (s2, w2)" by fastforce
  note q2 = set_both_quiet [OF b2] set_both_peer [OF b2]
  have "quietly w w2" using q1 q2 by (auto simp: quietly_def)
  moreover have "keeps ClientSide client client" using assms(1) by (simp add: client_ok_def keeps_refl)
  ultimately show ?thesis
    using b0 b1 b2 p q0 q1 q2 server_ok_keeps [OF assms(2) p(3)] assms(2)
    by (cases e; cases e'; cases "bc_ParameterStatusSync T \<noteq> ParameterStatusSyncNone \<or> bc_ExtendedQuerySync T") (simp_all add: pair_def)
qed

section \<open>One round\<close>

definition scripts_ok :: "Config \<Rightarrow> basic_pool \<Rightarrow> bool" where
  "scripts_ok T w \<longleftrightarrow> (\<forall>s. Some s \<in> set (bp_acquire w) \<longrightarrow> server_ok T (hs_Conn s))"

text \<open>The phase that belongs to what \<^verbatim>\<open>Serve\<close> holds: at the head of a round, with a packet, and when it returns.\<close>

definition going :: "pool_call list \<Rightarrow> Config \<Rightarrow> uuid \<Rightarrow> held_server option \<Rightarrow> basic_pool \<Rightarrow> bool" where
  "going base T i server w \<longleftrightarrow>
     (case server of
        None \<Rightarrow> in_phase base T i w NoServer
      | Some s \<Rightarrow> server_ok T (hs_Conn s) \<and> (in_phase base T i w (Ready (hs_ID s) (hs_Conn s)) \<or>
          bc_ReleaseAfterTransaction T \<and> in_phase base T i w (Spent (hs_ID s) (hs_Conn s))))"

definition resting :: "pool_call list \<Rightarrow> Config \<Rightarrow> uuid \<Rightarrow> held_server option \<Rightarrow> basic_pool \<Rightarrow> bool" where
  "resting base T i server w \<longleftrightarrow>
     (case server of
        None \<Rightarrow> in_phase base T i w NoServer
      | Some s \<Rightarrow> server_ok T (hs_Conn s) \<and> in_phase base T i w (Ready (hs_ID s) (hs_Conn s)))"

definition leaving :: "pool_call list \<Rightarrow> Config \<Rightarrow> uuid \<Rightarrow> held_server option \<Rightarrow> fed_error option \<Rightarrow> basic_pool \<Rightarrow> bool" where
  "leaving base T i server serverErr w \<longleftrightarrow>
     (case server of
        None \<Rightarrow> in_phase base T i w NoServer \<or> in_phase base T i w Done
      | Some s \<Rightarrow>
          if serverErr \<noteq> None then in_phase base T i w (Failed (hs_ID s) (hs_Conn s))
          else in_phase base T i w (Ready (hs_ID s) (hs_Conn s)) \<or> in_phase base T i w (Leaving (hs_ID s) (hs_Conn s)))"

lemma resting_leaving: "resting base T i server w \<Longrightarrow> leaving base T i server None w"
  by (auto simp: resting_def leaving_def split: option.splits)

lemma acquire_pair_returns:
  assumes "client_ok T client" "scripts_ok T w" "in_phase base T i w NoServer"
  shows "\<exists>e e' client' server w'. acquire_pair T i client w = Some ((e, e'), client', server, w') \<and> keeps ClientSide client client' \<and>
    scripts_ok T w' \<and> bp_clients w' = bp_clients w \<and>
    (case server of
       None \<Rightarrow> in_phase base T i w' Done
     | Some s \<Rightarrow> server_ok T (hs_Conn s) \<and>
         in_phase base T i w' (after_pair (hs_ID s) (hs_Conn s) e e' (Ready (hs_ID s) (hs_Conn s))))"
proof -
  let ?w = "client_SetState i ConnStateAwaitingServer uuid_nil w"
  note q = client_SetState_quiet [of w i ConnStateAwaitingServer uuid_nil]
  have ph: "in_phase base T i ?w NoServer" using assms(3) quietly_phase [OF q] by simp
  obtain r w1 where a: "servers_Acquire ?w = (r, w1)" by fastforce
  have w1: "bp_clients w1 = bp_clients w" "scripts_ok T w1" "\<And>s. r = Some s \<Longrightarrow> server_ok T (hs_Conn s)"
    "in_phase base T i w1 (case r of None \<Rightarrow> Done | Some s \<Rightarrow> Fresh (hs_ID s) (hs_Conn s))"
    using a q assms(2) in_phase_called [OF ph, of "CAcquire (map_option (\<lambda>s. (hs_ID s, hs_Conn s)) r)"]
    by (auto simp: servers_Acquire_def pool_called_def quietly_def scripts_ok_def proto_step_def in_phase_def split: list.splits option.splits)
  show ?thesis
  proof (cases r)
    case None
    with a w1 assms(1) show ?thesis by (simp add: acquire_pair_def client_ok_def keeps_refl)
  next
    case (Some s)
    from pair_returns [OF assms(1) w1(3) [OF Some], of i w1] obtain e e' c2 s2 w2 where
      p: "pair T i client s w1 = Some ((e, e'), c2, s2, w2)" "keeps ClientSide client c2" "server_ok T (hs_Conn s2)"
        "hs_ID s2 = hs_ID s" "quietly w1 w2" by (elim exE conjE) rule
    let ?c = "CPair (hs_ID s) (hs_Conn s) (hs_Conn s2) e e'"
    have "in_phase base T i (pool_called ?c w2) (after_pair (hs_ID s2) (hs_Conn s2) e e' (Ready (hs_ID s2) (hs_Conn s2)))"
      by (rule in_phase_called [where ph = "Fresh (hs_ID s) (hs_Conn s)"])
        (use w1(4) Some quietly_phase [OF p(5)] p(4) in \<open>simp_all add: proto_step_def\<close>)
    moreover have "scripts_ok T (pool_called ?c w2)" "bp_clients (pool_called ?c w2) = bp_clients w"
      using w1(1,2) p(5) by (simp_all add: scripts_ok_def pool_called_def quietly_def)
    ultimately show ?thesis using a Some p(1-3) by (simp add: acquire_pair_def basic_Pair_def)
  qed
qed

lemma ends_idleI:
  "cn_inbox c = taken @ [Inr (Msg (PReadyForQuery (type_code CHR ''I'')))] @ cn_inbox c' \<Longrightarrow> ends_idle c c'"
  by (simp add: ends_idle_def)

lemma serve_bounce_returns:
  assumes "client_ok T client" "server_ok T (hs_Conn s)" "c2s_msg m" "in_phase base T i w (Ready (hs_ID s) (hs_Conn s))"
  shows "\<exists>e e' client' s' w'. serve_bounce client s m w = Some ((e, e'), client', s', w') \<and> keeps ClientSide client client' \<and>
    server_ok T (hs_Conn s') \<and> bp_acquire w' = bp_acquire w \<and> bp_clients w' = bp_clients w \<and>
    in_phase base T i w' (after_pair (hs_ID s') (hs_Conn s') e e'
      (if bc_ReleaseAfterTransaction T then Spent (hs_ID s') (hs_Conn s') else Ready (hs_ID s') (hs_Conn s')))"
proof -
  have "conn_inv ServerSide (hs_Conn s)" "conn_inv ClientSide client" using assms by (simp_all add: client_ok_def server_ok_def)
  from Bounce_keeps [OF this assms(3)] obtain e e' c sc where
    b: "Bounce client (hs_Conn s) m = Some ((e, e'), c, sc)" "keeps ClientSide client c" "keeps ServerSide (hs_Conn s) sc"
      "e' = None \<longrightarrow> (\<exists>taken. cn_inbox (hs_Conn s) = taken @ [Inr (Msg (PReadyForQuery (type_code CHR ''I'')))] @ cn_inbox sc)"
    by (elim exE conjE) rule
  from b(4) have "e' = None \<longrightarrow> ends_idle (hs_Conn s) sc" using ends_idleI by blast
  then have "in_phase base T i (pool_called (CBounce (hs_ID s) (hs_Conn s) sc e e') w) (after_pair (hs_ID s) sc e e'
      (if bc_ReleaseAfterTransaction T then Spent (hs_ID s) sc else Ready (hs_ID s) sc))"
    by (intro in_phase_called [OF assms(4)]) (simp add: proto_step_def)
  with b(1-3) server_ok_keeps [OF assms(2) b(3)] show ?thesis
    by (simp add: serve_bounce_def pool_called_def split: if_splits)
qed

lemma release_after_ok:
  assumes "going base T i server w" "scripts_ok T w" "release_after T i server w = (server', w')"
  shows "resting base T i server' w'" "scripts_ok T w'" "bp_clients w' = bp_clients w"
proof -
  have "resting base T i server' w' \<and> scripts_ok T w' \<and> bp_clients w' = bp_clients w"
  proof (cases server)
    case (Some s)
    let ?w = "client_SetState i ConnStateIdle uuid_nil w"
    note q = client_SetState_quiet [of w i ConnStateIdle uuid_nil]
    have r: "in_phase base T i (pool_called (CRelease (hs_ID s) (hs_Conn s)) ?w) NoServer"
      using assms(1) Some quietly_phase [OF q]
      by (auto simp: going_def proto_step_def intro: in_phase_called)
    show ?thesis using assms Some q r
      by (auto simp: release_after_def resting_def going_def servers_Release_def scripts_ok_def pool_called_def quietly_def split: if_splits)
  qed (use assms in \<open>auto simp: release_after_def resting_def going_def\<close>)
  then show "resting base T i server' w'" "scripts_ok T w'" "bp_clients w' = bp_clients w" by simp_all
qed

lemma serve_packet_returns:
  assumes "client_ok T client" "scripts_ok T w" "c2s_msg m" "resting base T i server w"
    and "server \<noteq> None \<longrightarrow> \<not> bc_ReleaseAfterTransaction T"
  shows "\<exists>err serverErr client' server' w'. serve_packet T i client server m w = Some ((err, serverErr), client', server', w') \<and>
    keeps ClientSide client client' \<and> scripts_ok T w' \<and> bp_clients w' = bp_clients w \<and>
    (if err = None then going base T i server' w' else leaving base T i server' serverErr w')"
proof -
  have c: "keeps ClientSide client client" using assms(1) by (simp add: client_ok_def keeps_refl)
  have "\<exists>e e' c1 s1 w1. (case server of None \<Rightarrow> acquire_pair T i client w | Some s \<Rightarrow> Some ((None, None), client, Some s, w)) =
      Some ((e, e'), c1, s1, w1) \<and> keeps ClientSide client c1 \<and> scripts_ok T w1 \<and> bp_clients w1 = bp_clients w \<and>
      (case s1 of
         None \<Rightarrow> in_phase base T i w1 Done
       | Some s \<Rightarrow> server_ok T (hs_Conn s) \<and>
           in_phase base T i w1 (after_pair (hs_ID s) (hs_Conn s) e e' (Ready (hs_ID s) (hs_Conn s))))"
    using acquire_pair_returns [OF assms(1,2), of base i] assms(2,4) c
    by (cases server) (simp_all add: resting_def after_pair_def)
  then obtain e e' c1 s1 w1 where a: "(case server of None \<Rightarrow> acquire_pair T i client w | Some s \<Rightarrow> Some ((None, None), client, Some s, w)) =
      Some ((e, e'), c1, s1, w1)" "keeps ClientSide client c1" "scripts_ok T w1" "bp_clients w1 = bp_clients w"
    and ph: "case s1 of
         None \<Rightarrow> in_phase base T i w1 Done
       | Some s \<Rightarrow> server_ok T (hs_Conn s) \<and>
           in_phase base T i w1 (after_pair (hs_ID s) (hs_Conn s) e e' (Ready (hs_ID s) (hs_Conn s)))" by (elim exE conjE) rule
  show ?thesis
  proof (cases s1)
    case None
    with a ph show ?thesis by (simp add: serve_packet_def leaving_def)
  next
    case (Some s)
    note done_quiet = client_TransactionComplete_quiet [of _ i]
    show ?thesis
    proof (cases "e = None \<and> e' = None")
      case True
      have "in_phase base T i w1 (Ready (hs_ID s) (hs_Conn s))" "server_ok T (hs_Conn s)"
        using ph Some True by (simp_all add: after_pair_def)
      from serve_bounce_returns [OF client_ok_keeps [OF assms(1) a(2)] this(2) assms(3) this(1)] obtain f f' c2 s2 w2 where
        b: "serve_bounce c1 s m w1 = Some ((f, f'), c2, s2, w2)" "keeps ClientSide c1 c2" "server_ok T (hs_Conn s2)"
          "bp_acquire w2 = bp_acquire w1" "bp_clients w2 = bp_clients w1"
          "in_phase base T i w2 (after_pair (hs_ID s2) (hs_Conn s2) f f'
            (if bc_ReleaseAfterTransaction T then Spent (hs_ID s2) (hs_Conn s2) else Ready (hs_ID s2) (hs_Conn s2)))" by (elim exE conjE) rule
      show ?thesis using a b Some True keeps_trans [OF a(2) b(2)] quietly_phase [OF done_quiet [of w2]] done_quiet [of w2]
        by (cases f; cases f') (auto simp: serve_packet_def after_pair_def going_def leaving_def scripts_ok_def quietly_def split: if_splits)
    next
      case False
      with a ph Some quietly_phase [OF done_quiet [of w1]] done_quiet [of w1] show ?thesis
        by (cases e; cases e') (auto simp: serve_packet_def after_pair_def leaving_def scripts_ok_def quietly_def)
    qed
  qed
qed

section \<open>The whole session\<close>

lemma serve_loop_returns:
  assumes "client_ok T client" "scripts_ok T w" "going base T i server w"
  shows "\<exists>err serverErr client' server' w'. serve_loop T i client server w = Some ((err, serverErr), client', server', w') \<and>
    conn_inv ClientSide client' \<and> cn_BackendKey client' = cn_BackendKey client \<and> bp_clients w' = bp_clients w \<and>
    leaving base T i server' serverErr w'"
  using assms
proof (induction "length (cn_todo client)" arbitrary: client server w rule: less_induct)
  case less
  obtain s1 w1 where r: "release_after T i server w = (s1, w1)" by fastforce
  note r1 = release_after_ok [OF less.prems(3,2) r]
  have nr: "s1 \<noteq> None \<longrightarrow> \<not> bc_ReleaseAfterTransaction T" using r by (auto simp: release_after_def split: option.splits if_splits)
  have inv: "conn_inv ClientSide client" using less.prems(1) by (simp add: client_ok_def)
  show ?case
  proof (rule read_keeps [OF inv, of True])
    fix e c1 assume p: "conn_ReadPacket True client = Some (Inl e, c1)" "keeps ClientSide client c1"
    with r r1 resting_leaving [OF r1(1)] conn_rest_fields(1) [OF keepsD(4) [OF p(2)]] keepsD(1) [OF p(2)] show ?thesis
      by (subst serve_loop.simps) simp
  next
    fix m c1 assume p: "conn_ReadPacket True client = Some (Inr m, c1)" "keeps ClientSide client c1" "reads_ok ClientSide m"
      "cn_todo client = Inr m # cn_todo c1"
    then have "c2s_msg m" by simp
    from serve_packet_returns [OF client_ok_keeps [OF less.prems(1) p(2)] r1(2) this r1(1) nr] obtain err serverErr c2 s2 w2 where
      s: "serve_packet T i c1 s1 m w1 = Some ((err, serverErr), c2, s2, w2)" "keeps ClientSide c1 c2" "scripts_ok T w2"
        "bp_clients w2 = bp_clients w1" "if err = None then going base T i s2 w2 else leaving base T i s2 serverErr w2"
      by (elim exE conjE) rule
    note k = keeps_trans [OF p(2) s(2)]
    note key2 = conn_rest_fields(1) [OF keepsD(4) [OF k]]
    show ?thesis
    proof (cases err)
      case None
      have "length (cn_todo c2) < length (cn_todo client)" using p(4) keepsD(5) [OF s(2)] by simp
      from less.hyps [OF this client_ok_keeps [OF less.prems(1) k] s(3), of s2] s(5) None key2 r1(3) s(4) r p(1) s(1)
      show ?thesis by (subst serve_loop.simps) simp
    next
      case (Some e)
      with r p(1) s r1(3) key2 keepsD(1) [OF s(2)] show ?thesis by (subst serve_loop.simps) simp
    qed
  qed
qed

lemma s2c_ready: "s2c_msg (Msg (PReadyForQuery b))"
  by (simp add: s2c_msg_def type_bytes TypeParameterStatus_def TypeMarkiplierResponse_def)

lemma serve_start_returns:
  assumes "client_ok T client" "scripts_ok T w" "in_phase base T i w NoServer"
  shows "\<exists>err serverErr client' server' w'. serve_start T i client w = Some ((err, serverErr), client', server', w') \<and>
    client_ok T client' \<and> cn_BackendKey client' = cn_BackendKey client \<and> scripts_ok T w' \<and> bp_clients w' = bp_clients w \<and>
    (if err = None then going base T i server' w' else leaving base T i server' serverErr w')"
proof (cases "cn_Ready client")
  case True
  with assms show ?thesis by (simp add: serve_start_def going_def)
next
  case False
  from acquire_pair_returns [OF assms] obtain e e' c1 s1 w1 where
    a: "acquire_pair T i client w = Some ((e, e'), c1, s1, w1)" "keeps ClientSide client c1" "scripts_ok T w1" "bp_clients w1 = bp_clients w"
    and ph: "case s1 of None \<Rightarrow> in_phase base T i w1 Done
      | Some s \<Rightarrow> server_ok T (hs_Conn s) \<and> in_phase base T i w1 (after_pair (hs_ID s) (hs_Conn s) e e' (Ready (hs_ID s) (hs_Conn s)))"
    by (elim exE conjE) rule
  note ok = client_ok_keeps [OF assms(1) a(2)]
  note key = conn_rest_fields(1) [OF keepsD(4) [OF a(2)]]
  from write_keeps [OF keepsD(1) [OF a(2)], of "Msg (PReadyForQuery (type_code CHR ''I''))"] obtain f c2 where
    w: "conn_WritePacket (Msg (PReadyForQuery (type_code CHR ''I''))) c1 = Some (f, c2)" "keeps ClientSide c1 c2" by (auto simp: s2c_ready)
  have ok2: "client_ok T c2" "client_ok T (c2\<lparr>cn_Ready := True\<rparr>)" "cn_BackendKey c2 = cn_BackendKey client"
    using client_ok_keeps [OF ok w(2)] conn_rest_fields(1) [OF keepsD(4) [OF w(2)]] key by (simp_all add: client_ok_def conn_inv_def)
  show ?thesis
  proof (cases s1)
    case None
    with False a ph ok key show ?thesis by (simp add: serve_start_def leaving_def)
  next
    case (Some s)
    with False a ph ok key w ok2 show ?thesis
      by (cases e; cases e'; cases f) (simp_all add: serve_start_def leaving_def going_def after_pair_def)
  qed
qed

lemma client_middlewares_ok:
  assumes "conn_inv ClientSide conn"
  shows "client_ok T (conn\<lparr>cn_Middleware := cn_Middleware conn @ client_middlewares T conn\<rparr>)"
  using assms by (auto simp: client_ok_def conn_inv_def client_middlewares_def eqp_inv_new)

lemma serve_open_ok:
  assumes "conn_inv ClientSide conn" "scripts_ok T w" "serve_open T i conn w = (client, w')"
  shows "client_ok T client" "cn_BackendKey client = cn_BackendKey conn" "scripts_ok T w'"
    "bp_clients w' = AList.update (cn_BackendKey conn) i (bp_clients w)" "in_phase (bp_calls w) T i w' NoServer"
proof -
  have "bp_calls (basic_NewClient i w) = bp_calls w" "bp_acquire (basic_NewClient i w) = bp_acquire w"
    "bp_clients (basic_NewClient i w) = bp_clients w"
    by (auto simp: basic_NewClient_def split: prod.splits dest: time_Now_fields)
  then show "cn_BackendKey client = cn_BackendKey conn" "scripts_ok T w'"
    "bp_clients w' = AList.update (cn_BackendKey conn) i (bp_clients w)" "in_phase (bp_calls w) T i w' NoServer"
    using assms(2,3) by (auto simp: serve_open_def Let_def addClient_def pool_called_def scripts_ok_def in_phase_def proto_step_def)
  show "client_ok T client" using client_middlewares_ok [OF assms(1)] assms(3) by (auto simp: serve_open_def Let_def)
qed

lemma in_phase_given:
  "in_phase base T i w (Ready s c) \<Longrightarrow> in_phase base T i (pool_called (CRelease s c) w) NoServer"
  "in_phase base T i w (Leaving s c) \<Longrightarrow> in_phase base T i (pool_called (CRelease s c) w) Done"
  "in_phase base T i w (Failed s c) \<Longrightarrow> in_phase base T i (pool_called (CRemoveServer s c) w) Done"
  by (erule in_phase_called, simp add: proto_step_def)+

lemma serve_close_ok:
  assumes "leaving base T i server serverErr w"
  shows "in_phase base T i (serve_close i key server serverErr w) Gone"
    "bp_clients (serve_close i key server serverErr w) = AList.delete key (bp_clients w)"
proof -
  have "in_phase base T i (give_back server serverErr w) NoServer \<or> in_phase base T i (give_back server serverErr w) Done"
    using assms by (auto simp: leaving_def give_back_def servers_Release_def servers_RemoveServer_def
        split: option.splits if_splits dest: in_phase_given)
  then have "in_phase base T i (pool_called (CRemoveClient i) (give_back server serverErr w)) Gone"
    by (auto simp: proto_step_def intro: in_phase_called)
  then show "in_phase base T i (serve_close i key server serverErr w) Gone"
    by (simp add: serve_close_def removeClient_def in_phase_def)
  show "bp_clients (serve_close i key server serverErr w) = AList.delete key (bp_clients w)"
    by (simp add: serve_close_def removeClient_def give_back_def servers_Release_def servers_RemoveServer_def pool_called_def split: option.split)
qed

lemma serve_connected_returns:
  assumes "client_ok T client" "scripts_ok T w" "in_phase base T i w NoServer"
  shows "\<exists>err serverErr client' server' w'. serve_connected T i client w = Some ((err, serverErr), client', server', w') \<and>
    conn_inv ClientSide client' \<and> cn_BackendKey client' = cn_BackendKey client \<and> bp_clients w' = bp_clients w \<and>
    leaving base T i server' serverErr w'"
proof -
  from serve_start_returns [OF assms] obtain err serverErr c1 s1 w1 where
    s: "serve_start T i client w = Some ((err, serverErr), c1, s1, w1)" "client_ok T c1" "cn_BackendKey c1 = cn_BackendKey client"
      "scripts_ok T w1" "bp_clients w1 = bp_clients w" "if err = None then going base T i s1 w1 else leaving base T i s1 serverErr w1"
    by (elim exE conjE) rule
  show ?thesis
  proof (cases err)
    case None
    with s serve_loop_returns [OF s(2,4), of base i s1] show ?thesis by (simp add: serve_connected_def)
  next
    case (Some e)
    with s show ?thesis by (simp add: serve_connected_def client_ok_def)
  qed
qed

section \<open>Results\<close>

text \<open>A session in transaction mode: the client sends a query and leaves.\<close>

definition sample_conn :: conn where
  "sample_conn = (NewConn [Inr (Msg (PQuery ''SELECT 1'')), Inr (Msg (PTerminate Terminate))])
     \<lparr>cn_Middleware := [MwUnterminate], cn_BackendKey := \<lparr>bk_ProcessID = 7, bk_SecretKey = 9\<rparr>\<rparr>"

definition sample_pool :: basic_pool where
  "sample_pool = \<lparr>bp_clients = [], bp_state = (\<lambda>_. new_conn_state 0 0), bp_now = 0, bp_clock = [],
     bp_acquire = replicate 2 (Some \<lparr>hs_ID = 3, hs_Conn = sample_server, hs_state = new_conn_state 0 0\<rparr>), bp_calls = []\<rparr>"

lemma sample_serve_ok: "conn_inv ClientSide sample_conn" "scripts_ok Transaction_config sample_pool"
  using sample_ok(1)
  by (simp_all add: sample_conn_def sample_pool_def NewConn_def conn_inv_def scripts_ok_def server_ok_def sample_server_def c2s_msg_def
      type_bytes TypeQuery_def TypeTerminate_def)

text \<open>
  (C12) If every call of \<^verbatim>\<open>Acquire\<close> returns (with a server or with nil), if the client delivers a finite sequence of packets and errors, and if
  it sends no \<^verbatim>\<open>Bind\<close> with a parameter length below -1 (on which the extended query middleware panics), then
  \<^verbatim>\<open>Serve\<close> of the basic pool ends, and the run follows the protocol of the server pool: the client registers,
  pairs with a server before it uses it, runs one transaction per acquired server if \<^verbatim>\<open>ReleaseAfterTransaction\<close> is set,
  releases a server only if its last transaction left it idle, removes it if it failed, and leaves last.  Every server
  that it acquired is given back exactly once, in the same order, and the client's key is forgotten.
\<close>

theorem serve_protocol:
  assumes "conn_inv ClientSide conn" "scripts_ok T w"
  shows "\<exists>err client' w' cs. serve T i conn w = Some (err, client', w') \<and> bp_calls w' = bp_calls w @ cs \<and>
    proto_run T i Absent cs = Some Gone \<and> given_back cs = acquired cs \<and>
    map_of (bp_clients w') = (map_of (bp_clients w))(cn_BackendKey conn := None)"
proof -
  obtain client w1 where o: "serve_open T i conn w = (client, w1)" by fastforce
  note ok = serve_open_ok [OF assms o]
  from serve_connected_returns [OF ok(1,3,5)] obtain err serverErr c2 s2 w2 where
    r: "serve_connected T i client w1 = Some ((err, serverErr), c2, s2, w2)" "cn_BackendKey c2 = cn_BackendKey client"
      "bp_clients w2 = bp_clients w1" "leaving (bp_calls w) T i s2 serverErr w2" by (elim exE conjE) rule
  let ?w = "serve_close i (cn_BackendKey conn) s2 serverErr w2"
  note c = serve_close_ok [OF r(4), of "cn_BackendKey conn"]
  from c(1) obtain cs where cs: "bp_calls ?w = bp_calls w @ cs" "proto_run T i Absent cs = Some Gone" unfolding in_phase_def by blast
  have "given_back cs = acquired cs" using proto_run_held [OF cs(2)] by simp
  moreover have "map_of (bp_clients ?w) = (map_of (bp_clients w))(cn_BackendKey conn := None)"
    using c(2) r(3) ok(4) by (simp add: delete_conv' update_conv' fun_eq_iff)
  moreover have "serve T i conn w = Some (err, c2, ?w)" using o r(1,2) ok(2) by (simp add: serve_def)
  ultimately show ?thesis using cs by blast
qed

theorem serve_protocol_witness:
  "\<exists>err client' w' cs. serve Transaction_config 5 sample_conn sample_pool = Some (err, client', w') \<and> bp_calls w' = bp_calls sample_pool @ cs \<and>
    proto_run Transaction_config 5 Absent cs = Some Gone \<and> given_back cs = acquired cs \<and>
    map_of (bp_clients w') = (map_of (bp_clients sample_pool))(cn_BackendKey sample_conn := None)"
  using serve_protocol [OF sample_serve_ok] .

text \<open>
  (C13) \<^verbatim>\<open>Cancel\<close> reaches the server that the client is paired with, and nothing once the client has left.  In between, after the
  deferred function has released the server and before the client is removed, it still reaches the released server.
\<close>

theorem Cancel_reaches:
  assumes "client_ok T client" "server_ok T (hs_Conn s)" "hs_ID s \<noteq> uuid_nil" "map_of (bp_clients w) key = Some i"
    "pair T i client s w = Some ((None, None), client', s', w')"
  shows "cancel_peer key w' = Some (hs_ID s) \<and> cancel_peer key (give_back (Some s') None w') = Some (hs_ID s) \<and>
    cancel_peer key (serve_close i key (Some s') None w') = None"
proof -
  from pair_returns [OF assms(1,2), of i w] assms(5) have "quietly w w'" "cs_peer (bp_state w' i) = hs_ID s" by auto
  with assms(3,4) show ?thesis
    by (simp add: cancel_peer_def quietly_def GetState_def give_back_def servers_Release_def pool_called_def serve_close_def
        removeClient_def delete_conv')
qed

theorem Cancel_reaches_witness:
  "\<exists>s' w'. pair (Session\<lparr>bc_ParameterStatusSync := ParameterStatusSyncNone\<rparr>) 5 sample_client
      \<lparr>hs_ID = 3, hs_Conn = sample_server, hs_state = new_conn_state 0 0\<rparr>
      (sample_pool\<lparr>bp_clients := [(cn_BackendKey sample_client, 5)]\<rparr>) = Some ((None, None), sample_client, s', w') \<and>
    cancel_peer (cn_BackendKey sample_client) w' = Some 3 \<and>
    cancel_peer (cn_BackendKey sample_client) (serve_close 5 (cn_BackendKey sample_client) (Some s') None w') = None"
proof -
  let ?s = "\<lparr>hs_ID = 3, hs_Conn = sample_server, hs_state = new_conn_state 0 0\<rparr>"
  let ?T = "Session\<lparr>bc_ParameterStatusSync := ParameterStatusSyncNone\<rparr>"
  let ?w = "sample_pool\<lparr>bp_clients := [(cn_BackendKey sample_client, 5)]\<rparr>"
  have ok: "client_ok ?T sample_client" "server_ok ?T sample_server"
    using sample_ok(1,2) by (simp_all add: client_ok_def server_ok_def option_defs Session_def)
  obtain s' w' where "set_both ConnStateActive 5 ?s ?w = (s', w')" by fastforce
  then have p: "pair ?T 5 sample_client ?s ?w = Some ((None, None), sample_client, s', w')" by (simp add: pair_def Session_def)
  with Cancel_reaches [where s = ?s and T = ?T, OF _ _ _ _ p, of "cn_BackendKey sample_client"] ok show ?thesis by auto
qed

text \<open>
  (C14) The two pools fit: a connection that a server pool with the configuration of \<^verbatim>\<open>Config.Spool\<close> has prepared carries every
  middleware that \<^verbatim>\<open>Pair\<close> looks up under the same configuration, for every configuration.
\<close>

theorem Config_Spool_fits:
  assumes "conn_inv ServerSide conn"
  shows "server_ok T (conn\<lparr>cn_Middleware := cn_Middleware conn @
    map (server_mw conn) (server_middlewares (sp_config (NewPool T poolr chef)))\<rparr>)"
  using assms
  by (auto simp: server_ok_def conn_inv_def server_mw_def server_middlewares_def NewPool_def MakePool_def Config_Spool_def Let_def
      spool_config.defs eqp_inv_new)

theorem Config_Spool_fits_witness:
  "\<forall>chef. server_ok Transaction_config ((NewConn [])\<lparr>cn_Middleware := cn_Middleware (NewConn []) @
    map (server_mw (NewConn [])) (server_middlewares (sp_config (NewPool Transaction_config () chef)))\<rparr>)"
  by (intro allI Config_Spool_fits) (simp add: conn_inv_def NewConn_def)

section \<open>The initial parameters\<close>

definition transparent :: "conn \<Rightarrow> bool" where
  "transparent c \<longleftrightarrow> set (cn_Middleware c) \<subseteq> {MwUnterminate, MwTrace}"

lemma transparent_through: "set ms \<subseteq> {MwUnterminate, MwTrace} \<Longrightarrow> mw_through mw_WritePacket p ms = Some (Inr (Some p), ms)"
  by (induction ms) auto

lemma transparent_write:
  assumes "transparent c" "conn_WritePacket m c = Some (None, c')"
  shows "transparent c'" "cn_outbox c' = cn_outbox c @ [m]"
proof -
  have w: "conn_write_from (length (cn_Middleware c)) m c = Some (Inr (Some m), c)"
    using assms(1) by (simp add: transparent_def conn_write_from_def transparent_through)
  obtain e c1 where e: "conn_writePacket m c = (e, c1)" by fastforce
  with w assms(2) conn_writePacket_frame [of m c] have "e = None" "c' = c1" "cn_outbox c1 = cn_outbox c @ (if e = None then [m] else [])"
    "cn_Middleware c1 = cn_Middleware c"
    by (auto simp: conn_WritePacket_def conn_PostWrite_none split: option.splits)
  with assms(1) show "transparent c'" "cn_outbox c' = cn_outbox c @ [m]" by (simp_all add: transparent_def)
qed

lemma sync_initial_client_reports:
  assumes "transparent client" "sync_initial_client tracked sp ps client server = Some ((None, None), client', server')"
  shows "transparent client' \<and>
    cn_outbox client' = cn_outbox client @ map (\<lambda>(k, v). status_msg k (if slices_Contains tracked k then v else map_get sp k)) ps"
  using assms
proof (induction ps arbitrary: client server)
  case (Cons kv ps)
  obtain key v where kv: "kv = (key, v)" by fastforce
  let ?v = "if slices_Contains tracked key then v else map_get sp key"
  from Cons.prems(2) obtain c1 s1 where w: "conn_WritePacket (status_msg key ?v) client = Some (None, c1)"
    "sync_initial_client tracked sp ps c1 s1 = Some ((None, None), client', server')"
    unfolding kv by (auto simp: Let_def split: if_splits bind_splits option.splits)
  note p = transparent_write [OF Cons.prems(1) w(1)]
  from Cons.IH [OF p(1) w(2)] p(2) show ?case by (simp add: kv)
qed auto

lemma sync_initial_server_reports:
  assumes "transparent client" "sync_initial_server cp ps client = Some (None, client')"
  shows "cn_outbox client' = cn_outbox client @ map (\<lambda>(k, v). status_msg k v) (filter (\<lambda>(k, v). map_of cp k = None) ps)"
  using assms
proof (induction ps arbitrary: client)
  case (Cons kv ps)
  obtain key v where kv: "kv = (key, v)" by fastforce
  show ?case
  proof (cases "map_of cp key")
    case None
    with Cons.prems(2) obtain c1 where w: "conn_WritePacket (status_msg key v) client = Some (None, c1)"
      "sync_initial_server cp ps c1 = Some (None, client')" unfolding kv by (auto split: bind_splits option.splits)
    note p = transparent_write [OF Cons.prems(1) w(1)]
    from Cons.IH [OF p(1) w(2)] p(2) None show ?thesis by (simp add: kv)
  qed (use Cons kv in auto)
qed auto

text \<open>
  Pairing by initial parameters tells the client, without an error, every parameter that it or the server has exactly
  once per entry: its own value for a tracked parameter, the server's for any other.
\<close>

theorem syncInitialParameters_reports:
  assumes "transparent client" "syncInitialParameters T client server = Some ((None, None), client', server')"
  shows "cn_outbox client' = cn_outbox client @
    map (\<lambda>(k, v). status_msg k (if slices_Contains (bc_TrackedParameters T) k then v else map_get (cn_InitialParameters server) k))
      (cn_InitialParameters client) @
    map (\<lambda>(k, v). status_msg k v) (filter (\<lambda>(k, v). map_of (cn_InitialParameters client) k = None) (cn_InitialParameters server))"
proof -
  from assms(2) obtain c1 where
    a: "sync_initial_client (bc_TrackedParameters T) (cn_InitialParameters server) (cn_InitialParameters client) client server = Some ((None, None), c1, server')"
      "sync_initial_server (cn_InitialParameters client) (cn_InitialParameters server) c1 = Some (None, client')"
    unfolding syncInitialParameters_def by (auto simp: Let_def split: bind_splits if_splits)
  from sync_initial_client_reports [OF assms(1) a(1)] sync_initial_server_reports [OF _ a(2)] show ?thesis by simp
qed

theorem syncInitialParameters_reports_witness:
  "\<exists>client' server'. syncInitialParameters (Session\<lparr>bc_TrackedParameters := [''b'']\<rparr>)
      ((NewConn [])\<lparr>cn_Middleware := [MwUnterminate, MwTrace], cn_InitialParameters := [(''a'', ''1'')]\<rparr>)
      ((NewConn [])\<lparr>cn_InitialParameters := [(''a'', ''2''), (''c'', ''3'')]\<rparr>) = Some ((None, None), client', server') \<and>
    cn_outbox client' = [status_msg ''a'' ''2'', status_msg ''c'' ''3'']"
proof -
  let ?T = "Session\<lparr>bc_TrackedParameters := [''b'']\<rparr>"
  let ?c = "(NewConn [])\<lparr>cn_Middleware := [MwUnterminate, MwTrace], cn_InitialParameters := [(''a'', ''1'')]\<rparr>"
  let ?s = "(NewConn [])\<lparr>cn_InitialParameters := [(''a'', ''2''), (''c'', ''3'')]\<rparr>"
  have "map_option fst (syncInitialParameters ?T ?c ?s) = Some (None, None)" by code_simp
  then obtain client' server' where r: "syncInitialParameters ?T ?c ?s = Some ((None, None), client', server')" by auto
  from syncInitialParameters_reports [OF _ r] have "cn_outbox client' = [status_msg ''a'' ''2'', status_msg ''c'' ''3'']"
    by (simp add: transparent_def NewConn_def map_get_def)
  with r show ?thesis by blast
qed

end
