(* ===== verification/Hybrid_Pool.thy ===== *)
theory Hybrid_Pool
  imports Basic_Serve
begin

text \<open>
  The client pool of \<^verbatim>\<open>lib/gat/handlers/pool/pools/hybrid\<close>: it keeps a pool of primaries and one of replicas.  A
  transaction is tried on a replica first; when the replica answers that it is read only, the packets that the client
  sent are replayed to a primary.  As in \<^verbatim>\<open>Basic_Pool\<close> what the two server pools answer is a script and every call is
  recorded, here together with the pool that was called (\<^term>\<open>True\<close> for the replicas).
\<close>

section \<open>config.go\<close>

record Hybrid_Config =
  hc_ClientAcquireTimeout :: int
  hc_ServerResetQuery :: string
  hc_ServerResetQueryTimeout :: int
  hc_ServerIdleTimeout :: int
  hc_ServerReconnectInitialTime :: int
  hc_ServerReconnectMaxTime :: int
  hc_TrackedParameters :: "CIString list"

definition Hybrid_Config_Spool :: "Hybrid_Config \<Rightarrow> server_pool_config" where
  "Hybrid_Config_Spool T = (
     let resetQueryTimeout = hc_ServerResetQueryTimeout T;
         resetQueryTimeout = (if hc_ServerResetQuery T \<noteq> '''' \<and> resetQueryTimeout = 0 then 15 * time_Second else resetQueryTimeout) in
     \<lparr>cf_UsePS = True, cf_UseEQP = True, cf_UseOtelTracing = False, cf_UsePacketTracing = False,
      cf_ResetQuery = hc_ServerResetQuery T,
      cf_IdleTimeout = hc_ServerIdleTimeout T,
      cf_ReconnectInitialTime = hc_ServerReconnectInitialTime T,
      cf_ReconnectMaxTime = hc_ServerReconnectMaxTime T,
      cf_PoolerFactory = ''rob'',
      cf_ResetQueryTimeout = resetQueryTimeout,
      cf_AcquireTimeout = hc_ClientAcquireTimeout T\<rparr>)"

section \<open>Clients and servers\<close>

text \<open>The two scripts, by pool; what \<^verbatim>\<open>T.replica.Empty()\<close> answers is a script as well.\<close>

record hybrid_pool = pool_clients +
  hp_isReplica :: "uuid \<Rightarrow> bool"
  hp_acquire :: "bool \<Rightarrow> held_server option list"
  hp_empty :: "bool list"
  hp_calls :: "(bool \<times> pool_call) list"

definition h_called :: "bool \<Rightarrow> pool_call \<Rightarrow> hybrid_pool \<Rightarrow> hybrid_pool" where
  "h_called b c w = w\<lparr>hp_calls := hp_calls w @ [(b, c)]\<rparr>"

definition h_SetState :: "uuid \<Rightarrow> ConnState \<Rightarrow> uuid \<Rightarrow> bool \<Rightarrow> hybrid_pool \<Rightarrow> hybrid_pool" where
  "h_SetState i st peer replica w = (
     let w = client_SetState i st peer w in
     w\<lparr>hp_isReplica := (hp_isReplica w)(i := replica)\<rparr>)"

definition h_NewClient :: "uuid \<Rightarrow> hybrid_pool \<Rightarrow> hybrid_pool" where
  "h_NewClient i w = (let w = basic_NewClient i w in w\<lparr>hp_isReplica := (hp_isReplica w)(i := False)\<rparr>)"

text \<open>As in the basic pool, the scripts hold the answers of the calls of \<^verbatim>\<open>Acquire\<close> that return.\<close>

definition h_Acquire :: "bool \<Rightarrow> hybrid_pool \<Rightarrow> held_server option \<times> hybrid_pool" where
  "h_Acquire b w =
     (case hp_acquire w b of
        [] \<Rightarrow> (None, h_called b (CAcquire None) w)
      | r # rs \<Rightarrow> (r, h_called b (CAcquire (map_option (\<lambda>s. (hs_ID s, hs_Conn s)) r)) (w\<lparr>hp_acquire := (hp_acquire w)(b := rs)\<rparr>)))"

definition h_Release :: "bool \<Rightarrow> held_server \<Rightarrow> hybrid_pool \<Rightarrow> hybrid_pool" where
  "h_Release b s w = h_called b (CRelease (hs_ID s) (hs_Conn s)) w"

definition h_RemoveServer :: "bool \<Rightarrow> held_server \<Rightarrow> hybrid_pool \<Rightarrow> hybrid_pool" where
  "h_RemoveServer b s w = h_called b (CRemoveServer (hs_ID s) (hs_Conn s)) w"

definition replica_Empty :: "hybrid_pool \<Rightarrow> bool \<times> hybrid_pool" where
  "replica_Empty w = (case hp_empty w of [] \<Rightarrow> (True, w) | e # es \<Rightarrow> (e, w\<lparr>hp_empty := es\<rparr>))"

section \<open>Pairing\<close>

type_synonym hpaired_result = "((fed_error option \<times> fed_error option) \<times> conn \<times> held_server \<times> hybrid_pool) option"

definition h_sync :: "Hybrid_Config \<Rightarrow> conn \<Rightarrow> conn \<Rightarrow> pair_result" where
  "h_sync T client server = do {
     ((err, serverErr), client', server) \<leftarrow> ps_Sync (hc_TrackedParameters T) client server;
     client \<leftarrow> client';
     if err \<noteq> None \<or> serverErr \<noteq> None then Some ((err, serverErr), client, server)
     else do {
       (serverErr, server) \<leftarrow> eqp_Sync client server;
       Some ((None, serverErr), client, server)
     }
   }"

definition h_pair :: "Hybrid_Config \<Rightarrow> uuid \<Rightarrow> conn \<Rightarrow> held_server \<Rightarrow> hybrid_pool \<Rightarrow> hpaired_result" where
  "h_pair T i client server w = (
     let w = h_SetState i ConnStatePairing (hs_ID server) True w in
     case server_SetState ConnStatePairing i server w of (server, w) \<Rightarrow> do {
       ((err, serverErr), client, sconn) \<leftarrow> h_sync T client (hs_Conn server);
       let server = server\<lparr>hs_Conn := sconn\<rparr>;
       if err \<noteq> None \<or> serverErr \<noteq> None then Some ((err, serverErr), client, server, w)
       else (
         let w = h_SetState i ConnStateActive (hs_ID server) True w in
         case server_SetState ConnStateActive i server w of (server, w) \<Rightarrow> Some ((None, None), client, server, w))
     })"

definition h_Pair :: "Hybrid_Config \<Rightarrow> bool \<Rightarrow> uuid \<Rightarrow> conn \<Rightarrow> held_server \<Rightarrow> hybrid_pool \<Rightarrow> hpaired_result" where
  "h_Pair T b i client server w = do {
     ((err, serverErr), client, server', w) \<leftarrow> h_pair T i client server w;
     Some ((err, serverErr), client, server', h_called b (CPair (hs_ID server) (hs_Conn server) (hs_Conn server') err serverErr) w)
   }"

text \<open>\<^verbatim>\<open>PairPrimary\<close>, with the state of the client as it was before the replica ran its transaction.\<close>

definition sync_primary :: "Hybrid_Config \<Rightarrow> ps_client \<Rightarrow> eqp_state \<Rightarrow> conn \<Rightarrow> (fed_error option \<times> conn) option" where
  "sync_primary T psc eqpc server = do {
     (err, server) \<leftarrow> ps_SyncMiddleware (hc_TrackedParameters T) psc server;
     case err of
       Some err \<Rightarrow> Some (Some err, server)
     | None \<Rightarrow> eqp_SyncMiddleware eqpc server
   }"

definition PairPrimary :: "Hybrid_Config \<Rightarrow> uuid \<Rightarrow> ps_client \<Rightarrow> eqp_state \<Rightarrow> held_server \<Rightarrow> hybrid_pool \<Rightarrow>
    (fed_error option \<times> held_server \<times> hybrid_pool) option" where
  "PairPrimary T i psc eqpc server w =
     (case server_SetState ConnStatePairing i server w of (server', w) \<Rightarrow> do {
        (err, sconn) \<leftarrow> sync_primary T psc eqpc (hs_Conn server');
        let server' = server'\<lparr>hs_Conn := sconn\<rparr>;
        let w = h_called False (CPair (hs_ID server) (hs_Conn server) sconn None err) w;
        case err of
          Some err \<Rightarrow> Some (Some err, server', w)
        | None \<Rightarrow> (
            let w = h_SetState i ConnStateActive (hs_ID server') False w in
            case server_SetState ConnStateActive i server' w of (server', w) \<Rightarrow> Some (None, server', w))
      })"

section \<open>The parts of a session\<close>

type_synonym hround = "((serve_error option \<times> fed_error option) \<times> conn \<times> held_server option \<times> hybrid_pool) option"

definition h_bounce :: "bool \<Rightarrow> conn \<Rightarrow> held_server \<Rightarrow> msg \<Rightarrow> hybrid_pool \<Rightarrow> hpaired_result" where
  "h_bounce b client server packet w = do {
     ((err, serverErr), client, sconn) \<leftarrow> Bounce client (hs_Conn server) packet;
     Some ((err, serverErr), client, server\<lparr>hs_Conn := sconn\<rparr>, h_called b (CBounce (hs_ID server) (hs_Conn server) sconn err serverErr) w)
   }"

definition h_acquire_pair :: "Hybrid_Config \<Rightarrow> bool \<Rightarrow> uuid \<Rightarrow> conn \<Rightarrow> hybrid_pool \<Rightarrow>
    ((fed_error option \<times> fed_error option) \<times> conn \<times> held_server option \<times> hybrid_pool) option" where
  "h_acquire_pair T b i client w =
     (case h_Acquire b w of
        (None, w) \<Rightarrow> Some ((None, None), client, None, w)
      | (Some server, w) \<Rightarrow>
          map_option (\<lambda>(errs, client, server, w). (errs, client, Some server, w)) (h_Pair T b i client server w))"

text \<open>The deferred function, for one of the two pools.\<close>

definition h_give_back :: "bool \<Rightarrow> held_server option \<Rightarrow> fed_error option \<Rightarrow> hybrid_pool \<Rightarrow> hybrid_pool" where
  "h_give_back b server serverErr w =
     (case server of
        None \<Rightarrow> w
      | Some s \<Rightarrow> if serverErr \<noteq> None then h_RemoveServer b s w else h_Release b s w)"

definition h_release_held :: "bool \<Rightarrow> held_server option \<Rightarrow> hybrid_pool \<Rightarrow> hybrid_pool" where
  "h_release_held b server w = (case server of None \<Rightarrow> w | Some s \<Rightarrow> h_Release b s w)"

text \<open>Before the loop: the client that is not ready is paired with a server of one of the pools.\<close>

definition h_start :: "Hybrid_Config \<Rightarrow> bool \<Rightarrow> uuid \<Rightarrow> conn \<Rightarrow> hybrid_pool \<Rightarrow> hround" where
  "h_start T b i client w = do {
     ((err, serverErr), client, server, w) \<leftarrow> h_acquire_pair T b i client w;
     case server of
       None \<Rightarrow> Some ((Some ErrFailedToAcquirePeer, None), client, None, w)
     | Some s \<Rightarrow>
         (case (serverErr, err) of
            (Some e, _) \<Rightarrow> Some ((Some (PlainError e), Some e), client, Some s, w)
          | (None, Some e) \<Rightarrow> Some ((Some (PlainError e), None), client, Some s, w)
          | (None, None) \<Rightarrow> do {
              (err, client) \<leftarrow> conn_WritePacket (Msg (PReadyForQuery (type_code CHR ''I''))) client;
              case err of
                Some e \<Rightarrow> Some ((Some (PlainError e), None), client, Some s, w)
              | None \<Rightarrow> Some ((None, None), client\<lparr>cn_Ready := True\<rparr>, Some s, w)
            })
   }"

section \<open>Only one pool\<close>

text \<open>
  \<^verbatim>\<open>serveOnly\<close>: the modes \<^verbatim>\<open>ro\<close> and \<^verbatim>\<open>wo\<close>.  The part of a round after the client's packet was read; an error to return with,
  or none.
\<close>

definition only_packet :: "Hybrid_Config \<Rightarrow> bool \<Rightarrow> uuid \<Rightarrow> conn \<Rightarrow> msg \<Rightarrow> hybrid_pool \<Rightarrow> hround" where
  "only_packet T b i client packet w = do {
     ((err, serverErr), client, server, w) \<leftarrow> h_acquire_pair T b i client w;
     case server of
       None \<Rightarrow> Some ((Some ErrFailedToAcquirePeer, None), client, None, w)
     | Some s \<Rightarrow> do {
         ((err, serverErr), client, s, w) \<leftarrow>
           (if err = None \<and> serverErr = None then h_bounce b client s packet w else Some ((err, serverErr), client, s, w));
         case serverErr of
           Some e \<Rightarrow> Some ((Some (ServerError e), Some e), client, Some s, w)
         | None \<Rightarrow>
             let s = s\<lparr>hs_state := TransactionComplete (hs_state s)\<rparr>; w = client_TransactionComplete i w in
             Some ((map_option PlainError err, None), client, Some s, w)
       }
   }"

partial_function (option) only_loop :: "Hybrid_Config \<Rightarrow> bool \<Rightarrow> uuid \<Rightarrow> conn \<Rightarrow> held_server option \<Rightarrow> hybrid_pool \<Rightarrow>
    ((serve_error \<times> fed_error option) \<times> conn \<times> held_server option \<times> hybrid_pool) option" where
  "only_loop T b i client server w = do {
     let w = h_release_held b server w;
     let w = h_SetState i ConnStateIdle uuid_nil True w;
     (r, client) \<leftarrow> conn_ReadPacket True client;
     case r of
       Inl err \<Rightarrow> Some ((PlainError err, None), client, None, w)
     | Inr packet \<Rightarrow> do {
         let w = h_SetState i ConnStateAwaitingServer uuid_nil True w;
         ((err, serverErr), client, server, w) \<leftarrow> only_packet T b i client packet w;
         case err of
           Some err \<Rightarrow> Some ((err, serverErr), client, server, w)
         | None \<Rightarrow> only_loop T b i client server w
       }
   }"

declare only_loop.simps [code]

definition only_connected :: "Hybrid_Config \<Rightarrow> bool \<Rightarrow> uuid \<Rightarrow> conn \<Rightarrow> hybrid_pool \<Rightarrow>
    ((serve_error \<times> fed_error option) \<times> conn \<times> held_server option \<times> hybrid_pool) option" where
  "only_connected T b i client w = do {
     ((err, serverErr), client, server, w) \<leftarrow>
       (if cn_Ready client then Some ((None, None), client, None, w)
        else h_start T b i client (h_SetState i ConnStateAwaitingServer uuid_nil True w));
     case err of
       Some err \<Rightarrow> Some ((err, serverErr), client, server, w)
     | None \<Rightarrow> only_loop T b i client server w
   }"

definition serveOnly :: "Hybrid_Config \<Rightarrow> bool \<Rightarrow> uuid \<Rightarrow> conn \<Rightarrow> hybrid_pool \<Rightarrow> (serve_error \<times> conn \<times> hybrid_pool) option" where
  "serveOnly T write i conn w = (
     let b = (\<not> write);
         client = conn\<lparr>cn_Middleware := cn_Middleware conn @
           [MwUnterminate, MwPsClient (ps_NewClient (cn_InitialParameters conn)), MwEqpClient eqp_new]\<rparr>;
         w = addClient (cn_BackendKey client) i (h_NewClient i w);
         w = h_called b (CAddClient i) w in
     do {
       ((err, serverErr), client, server, w) \<leftarrow> only_connected T b i client w;
       let w = h_called b (CRemoveClient i) (h_give_back b server serverErr w);
       Some (err, client, removeClient (cn_BackendKey client) w)
     })"

section \<open>Replica first\<close>

text \<open>\<^verbatim>\<open>m.Primary()\<close> and \<^verbatim>\<open>m.Reset()\<close>: the middleware is shared with the connection.\<close>

definition on_hybrid :: "(hybrid_mw \<Rightarrow> hybrid_mw) \<Rightarrow> conn \<Rightarrow> conn" where
  "on_hybrid f c = c\<lparr>cn_Middleware := map (\<lambda>m. case m of MwHybrid h \<Rightarrow> MwHybrid (f h) | _ \<Rightarrow> m) (cn_Middleware c)\<rparr>"

text \<open>
  The state of \<^verbatim>\<open>serveRW\<close> between its parts: the client, the servers it holds (the primary and the replica), the two
  snapshots \<^verbatim>\<open>psi\<close> and \<^verbatim>\<open>eqpi\<close>, and the pool.  A part ends with an error to return (\<^term>\<open>Some\<close>) or with the client's error.
\<close>

record rw =
  rw_client :: conn
  rw_primary :: "held_server option"
  rw_replica :: "held_server option"
  rw_psi :: ps_client
  rw_eqpi :: eqp_state
  rw_pool :: hybrid_pool

datatype rw_end = Return serve_error "fed_error option" | Continue "fed_error option"

text \<open>A packet on a primary that is held and paired.\<close>

definition rw_on_primary :: "msg \<Rightarrow> fed_error option \<times> fed_error option \<Rightarrow> held_server \<Rightarrow> rw \<Rightarrow> (rw_end \<times> rw) option" where
  "rw_on_primary packet errs p S = do {
     ((err, serverErr), client, p, w) \<leftarrow>
       (if errs = (None, None) then h_bounce False (rw_client S) p packet (rw_pool S) else Some (errs, rw_client S, p, rw_pool S));
     case serverErr of
       Some e \<Rightarrow> Some (Return (ServerError e) (Some e), S\<lparr>rw_client := client, rw_primary := Some p, rw_pool := w\<rparr>)
     | None \<Rightarrow>
         let p = p\<lparr>hs_state := TransactionComplete (hs_state p)\<rparr> in
         Some (Continue err, S\<lparr>rw_client := client, rw_primary := Some p, rw_pool := w\<rparr>)
   }"

text \<open>The packet is read again, from the record; then a primary is acquired.\<close>

definition rw_reread :: "uuid \<Rightarrow> rw \<Rightarrow> ((fed_error + msg) \<times> rw) option" where
  "rw_reread i S = do {
     (r, client) \<leftarrow> conn_ReadPacket True (rw_client S);
     let S = S\<lparr>rw_client := client\<rparr>;
     case r of
       Inl err \<Rightarrow> Some (Inl err, S)
     | Inr packet \<Rightarrow> Some (Inr packet, S\<lparr>rw_pool := h_SetState i ConnStateAwaitingServer uuid_nil False (rw_pool S)\<rparr>)
   }"

definition rw_fallback :: "Hybrid_Config \<Rightarrow> uuid \<Rightarrow> held_server \<Rightarrow> rw \<Rightarrow> (rw_end \<times> rw) option" where
  "rw_fallback T i replica S = do {
     let S = S\<lparr>rw_client := on_hybrid hybrid_Primary (rw_client S)\<rparr>;
     let S = S\<lparr>rw_replica := None, rw_pool := h_Release True replica (rw_pool S)\<rparr>;
     (r, S) \<leftarrow> rw_reread i S;
     case r of
       Inl err \<Rightarrow> Some (Return (PlainError err) None, S)
     | Inr packet \<Rightarrow>
         (case h_Acquire False (rw_pool S) of
            (None, w) \<Rightarrow> Some (Return ErrFailedToAcquirePeer None, S\<lparr>rw_pool := w\<rparr>)
          | (Some p, w) \<Rightarrow> do {
              (serverErr, p, w) \<leftarrow> PairPrimary T i (rw_psi S) (rw_eqpi S) p w;
              rw_on_primary packet (None, serverErr) p (S\<lparr>rw_pool := w\<rparr>)
            })
   }"

definition rw_try_replica :: "Hybrid_Config \<Rightarrow> uuid \<Rightarrow> msg \<Rightarrow> rw \<Rightarrow> (rw_end \<times> rw) option" where
  "rw_try_replica T i packet S = do {
     ((err, serverErr), client, replica, w) \<leftarrow> h_acquire_pair T True i (rw_client S) (rw_pool S);
     case replica of
       None \<Rightarrow> Some (Return ErrFailedToAcquirePeer None, S\<lparr>rw_client := client, rw_pool := w\<rparr>)
     | Some s \<Rightarrow> do {
         psa \<leftarrow> lookup_ps_client (cn_Middleware client);
         eqpa \<leftarrow> lookup_eqp_client (cn_Middleware client);
         eqpi \<leftarrow> eqp_Set eqpa (rw_eqpi S);
         let S = S\<lparr>rw_psi := ps_Client_Set psa (rw_psi S), rw_eqpi := eqpi\<rparr>;
         ((err, serverErr), client, s, w) \<leftarrow>
           (if err = None \<and> serverErr = None then h_bounce True client s packet w else Some ((err, serverErr), client, s, w));
         let S = S\<lparr>rw_client := client, rw_replica := Some s, rw_pool := w\<rparr>;
         case serverErr of
           Some e \<Rightarrow> Some (Return (ServerError e) (Some e), S)
         | None \<Rightarrow>
             let s = s\<lparr>hs_state := TransactionComplete (hs_state s)\<rparr>; S = S\<lparr>rw_replica := Some s\<rparr> in
             if err = Some ErrReadOnly then rw_fallback T i s S else Some (Continue err, S)
       }
   }"

definition rw_straight :: "Hybrid_Config \<Rightarrow> uuid \<Rightarrow> rw \<Rightarrow> (rw_end \<times> rw) option" where
  "rw_straight T i S = do {
     let S = S\<lparr>rw_client := on_hybrid hybrid_Primary (rw_client S)\<rparr>;
     (r, S) \<leftarrow> rw_reread i S;
     case r of
       Inl err \<Rightarrow> Some (Return (PlainError err) None, S)
     | Inr packet \<Rightarrow> do {
         (errs, client, primary, w) \<leftarrow> h_acquire_pair T False i (rw_client S) (rw_pool S);
         let S = S\<lparr>rw_client := client, rw_pool := w\<rparr>;
         case primary of
           None \<Rightarrow> Some (Return ErrFailedToAcquirePeer None, S)
         | Some p \<Rightarrow> rw_on_primary packet errs p S
       }
   }"

text \<open>The head of a round: both servers go back, primary first.\<close>

definition rw_head :: "uuid \<Rightarrow> rw \<Rightarrow> rw" where
  "rw_head i S = (
     let w = h_release_held True (rw_replica S) (h_release_held False (rw_primary S) (rw_pool S)) in
     S\<lparr>rw_primary := None, rw_replica := None, rw_pool := h_SetState i ConnStateIdle uuid_nil False w\<rparr>)"

definition rw_packet :: "Hybrid_Config \<Rightarrow> uuid \<Rightarrow> msg \<Rightarrow> rw \<Rightarrow> (rw_end \<times> rw) option" where
  "rw_packet T i packet S = (
     case replica_Empty (h_SetState i ConnStateAwaitingServer uuid_nil False (rw_pool S)) of (isEmpty, w) \<Rightarrow>
     let S = S\<lparr>rw_pool := w\<rparr> in
     if \<not> isEmpty then rw_try_replica T i packet S else rw_straight T i S)"

partial_function (option) rw_loop :: "Hybrid_Config \<Rightarrow> uuid \<Rightarrow> rw \<Rightarrow> ((serve_error \<times> fed_error option) \<times> rw) option" where
  "rw_loop T i S = do {
     let S = rw_head i S;
     (r, client) \<leftarrow> conn_ReadPacket True (rw_client S);
     let S = S\<lparr>rw_client := client\<rparr>;
     case r of
       Inl err \<Rightarrow> Some ((PlainError err, None), S)
     | Inr packet \<Rightarrow> do {
         (e, S) \<leftarrow> rw_packet T i packet S;
         case e of
           Return err serverErr \<Rightarrow> Some ((err, serverErr), S)
         | Continue err \<Rightarrow>
             let S = S\<lparr>rw_pool := client_TransactionComplete i (rw_pool S)\<rparr> in
             (case err of
                Some e \<Rightarrow> Some ((PlainError e, None), S)
              | None \<Rightarrow> rw_loop T i (S\<lparr>rw_client := on_hybrid hybrid_Reset (rw_client S)\<rparr>))
       }
   }"

declare rw_loop.simps [code]

definition rw_start :: "Hybrid_Config \<Rightarrow> uuid \<Rightarrow> rw \<Rightarrow> ((serve_error option \<times> fed_error option) \<times> rw) option" where
  "rw_start T i S =
     (if cn_Ready (rw_client S) then Some ((None, None), S)
      else
        (case replica_Empty (h_SetState i ConnStateAwaitingServer uuid_nil False (rw_pool S)) of (isEmpty, w) \<Rightarrow>
         map_option (\<lambda>(errs, client, server, w).
             (errs, if isEmpty then S\<lparr>rw_client := client, rw_primary := server, rw_pool := w\<rparr>
                    else S\<lparr>rw_client := client, rw_replica := server, rw_pool := w\<rparr>))
           (h_start T (\<not> isEmpty) i (rw_client S) w)))"

definition rw_connected :: "Hybrid_Config \<Rightarrow> uuid \<Rightarrow> rw \<Rightarrow> ((serve_error \<times> fed_error option) \<times> rw) option" where
  "rw_connected T i S = do {
     ((err, serverErr), S) \<leftarrow> rw_start T i S;
     case err of
       Some err \<Rightarrow> Some ((err, serverErr), S)
     | None \<Rightarrow> rw_loop T i S
   }"

definition rw_open :: "uuid \<Rightarrow> conn \<Rightarrow> hybrid_pool \<Rightarrow> rw" where
  "rw_open i conn w = (
     let client = conn\<lparr>cn_Middleware := cn_Middleware conn @ [MwUnterminate, MwPsClient (ps_NewClient (cn_InitialParameters conn)),
           MwEqpClient eqp_new, MwHybrid hybrid_NewMiddleware]\<rparr>;
         w = addClient (cn_BackendKey client) i (h_NewClient i w);
         w = h_called True (CAddClient i) (h_called False (CAddClient i) w) in
     \<lparr>rw_client = client, rw_primary = None, rw_replica = None, rw_psi = ps_NewClient [], rw_eqpi = eqp_new, rw_pool = w\<rparr>)"

definition rw_close :: "uuid \<Rightarrow> fed_error option \<Rightarrow> rw \<Rightarrow> hybrid_pool" where
  "rw_close i serverErr S = (
     let w = h_give_back True (rw_replica S) serverErr (h_give_back False (rw_primary S) serverErr (rw_pool S));
         w = h_called False (CRemoveClient i) (h_called True (CRemoveClient i) w) in
     removeClient (cn_BackendKey (rw_client S)) w)"

definition serveRW :: "Hybrid_Config \<Rightarrow> uuid \<Rightarrow> conn \<Rightarrow> hybrid_pool \<Rightarrow> (serve_error \<times> conn \<times> hybrid_pool) option" where
  "serveRW T i conn w = do {
     ((err, serverErr), S) \<leftarrow> rw_connected T i (rw_open i conn w);
     Some (err, rw_client S, rw_close i serverErr S)
   }"

definition hybrid_mode :: "conn \<Rightarrow> string" where
  "hybrid_mode conn = (
     let v = map_get (cn_InitialParameters conn) (MakeCIString ''hybrid.mode'') in
     if v = ''ro'' then ''ro'' else if v = ''wo'' then ''wo'' else ''rw'')"

definition hybrid_serve :: "Hybrid_Config \<Rightarrow> uuid \<Rightarrow> conn \<Rightarrow> hybrid_pool \<Rightarrow> (serve_error \<times> conn \<times> hybrid_pool) option" where
  "hybrid_serve T i conn w = (
     let mode = hybrid_mode conn in
     if mode = ''ro'' then serveOnly T False i conn w
     else if mode = ''wo'' then serveOnly T True i conn w
     else if mode = ''rw'' then serveRW T i conn w
     else None)"

section \<open>The other methods\<close>

text \<open>\<^verbatim>\<open>Cancel\<close>: the pool that is asked, and the server.\<close>

definition hybrid_Cancel :: "BackendKey \<Rightarrow> hybrid_pool \<Rightarrow> (bool \<times> uuid) option" where
  "hybrid_Cancel key w =
     (case map_of (bp_clients w) key of
        None \<Rightarrow> None
      | Some c \<Rightarrow> (case GetState (bp_state w c) of (_, _, peer) \<Rightarrow> if peer = uuid_nil then None else Some (hp_isReplica w c, peer)))"

definition hybrid_NewPool :: "Hybrid_Config \<Rightarrow> 's \<Rightarrow> 's \<Rightarrow> Chef \<Rightarrow> Chef \<Rightarrow> 's spool \<times> 's spool" where
  "hybrid_NewPool config poolr poolr' chef chef' = (
     let c = spool_config.truncate (Hybrid_Config_Spool config) in (MakePool c poolr chef, MakePool c poolr' chef'))"

text \<open>Recipes go to the primary or to the replica pool; \<^verbatim>\<open>Close\<close> and \<^verbatim>\<open>ReadMetrics\<close> to both.\<close>

definition hybrid_AddRecipe :: "'s pooler_api \<Rightarrow> int \<Rightarrow> string \<Rightarrow> nat \<Rightarrow> 's spool \<times> 's spool \<Rightarrow> ('s spool \<times> 's spool) option" where
  "hybrid_AddRecipe api now name recipe pools = map_option (\<lambda>p. (p, snd pools)) (AddRecipe api now name recipe (fst pools))"

definition hybrid_RemoveRecipe :: "'s pooler_api \<Rightarrow> int \<Rightarrow> string \<Rightarrow> 's spool \<times> 's spool \<Rightarrow> ('s spool \<times> 's spool) option" where
  "hybrid_RemoveRecipe api now name pools = map_option (\<lambda>p. (p, snd pools)) (RemoveRecipe api now name (fst pools))"

definition AddReplicaRecipe :: "'s pooler_api \<Rightarrow> int \<Rightarrow> string \<Rightarrow> nat \<Rightarrow> 's spool \<times> 's spool \<Rightarrow> ('s spool \<times> 's spool) option" where
  "AddReplicaRecipe api now name recipe pools = map_option (\<lambda>r. (fst pools, r)) (AddRecipe api now name recipe (snd pools))"

definition RemoveReplicaRecipe :: "'s pooler_api \<Rightarrow> int \<Rightarrow> string \<Rightarrow> 's spool \<times> 's spool \<Rightarrow> ('s spool \<times> 's spool) option" where
  "RemoveReplicaRecipe api now name pools = map_option (\<lambda>r. (fst pools, r)) (RemoveRecipe api now name (snd pools))"

definition hybrid_ReadMetrics :: "hybrid_pool \<Rightarrow> 's spool \<times> 's spool \<Rightarrow> pool_report \<Rightarrow> pool_report \<times> hybrid_pool \<times> 's spool \<times> 's spool" where
  "hybrid_ReadMetrics w pools m =
     (case servers_ReadMetrics (bp_now w) (fst pools) m of (m, p) \<Rightarrow>
      case servers_ReadMetrics (bp_now w) (snd pools) m of (m, r) \<Rightarrow>
      case clients_ReadMetrics w (mp_Clients m) of (cs, w) \<Rightarrow> (m\<lparr>mp_Clients := cs\<rparr>, w, p, r))"

definition hybrid_Close :: "'s pooler_api \<Rightarrow> 's spool \<times> 's spool \<Rightarrow> ('s spool \<times> 's spool) option" where
  "hybrid_Close api pools = do { p \<leftarrow> spool_Close api (fst pools); r \<leftarrow> spool_Close api (snd pools); Some (p, r) }"

end
