(* ===== verification/Hybrid_Serve.thy ===== *)
theory Hybrid_Serve
  imports Hybrid_Pool
begin

text \<open>
  \<^verbatim>\<open>Serve\<close> of the hybrid pool ends in every mode and follows the protocol of both server pools.  The automaton is that of
  \<^verbatim>\<open>Basic_Serve\<close>, run once per pool, with two differences: after the client failed on a replica it may go on (the fallback),
  and a server is acquired only while no server of the other pool is held.
\<close>

section \<open>The protocol\<close>

definition one_step :: "uuid \<Rightarrow> phase \<Rightarrow> pool_call \<Rightarrow> phase option" where
  "one_step i ph c =
     (case c of
        CRelease s k \<Rightarrow> if ph = Ready s k \<or> ph = Spent s k \<or> ph = Leaving s k then Some NoServer else None
      | _ \<Rightarrow> proto_step Transaction_config i ph c)"

definition hybrid_step :: "uuid \<Rightarrow> (bool \<Rightarrow> phase) \<Rightarrow> bool \<times> pool_call \<Rightarrow> (bool \<Rightarrow> phase) option" where
  "hybrid_step i st bc =
     (case bc of (b, c) \<Rightarrow>
        if (case c of CAcquire _ \<Rightarrow> held_in (st (\<not> b)) \<noteq> [] | _ \<Rightarrow> False) then None
        else map_option (\<lambda>ph. st(b := ph)) (one_step i (st b) c))"

primrec hybrid_run :: "uuid \<Rightarrow> (bool \<Rightarrow> phase) \<Rightarrow> (bool \<times> pool_call) list \<Rightarrow> (bool \<Rightarrow> phase) option" where
  "hybrid_run i st [] = Some st"
| "hybrid_run i st (c # cs) = do { st \<leftarrow> hybrid_step i st c; hybrid_run i st cs }"

lemma hybrid_run_append: "hybrid_run i st (xs @ ys) = Option.bind (hybrid_run i st xs) (\<lambda>st. hybrid_run i st ys)"
  by (induction xs arbitrary: st) (auto split: bind_splits)

text \<open>The calls of one pool.\<close>

definition calls_of :: "bool \<Rightarrow> (bool \<times> pool_call) list \<Rightarrow> pool_call list" where
  "calls_of b cs = map snd (filter (\<lambda>bc. fst bc = b) cs)"

lemma one_step_held: "one_step i ph c = Some ph' \<Longrightarrow> held_in ph @ acquired (c # cs) = given_back [c] @ held_in ph' @ acquired cs"
  using proto_step_held [of Transaction_config i ph c ph' cs]
  by (cases c) (auto simp: one_step_def split: if_splits)

lemma hybrid_run_held:
  "hybrid_run i st cs = Some st' \<Longrightarrow> held_in (st b) @ acquired (calls_of b cs) = given_back (calls_of b cs) @ held_in (st' b)"
proof (induction cs arbitrary: st)
  case (Cons bc cs)
  obtain d c where bc: "bc = (d, c)" by fastforce
  from Cons.prems obtain st1 where s: "hybrid_step i st bc = Some st1" "hybrid_run i st1 cs = Some st'" by (auto split: bind_splits)
  from s(1) obtain ph where ph: "one_step i (st d) c = Some ph" "st1 = st(d := ph)"
    unfolding bc hybrid_step_def by (auto split: if_splits)
  show ?case
  proof (cases "d = b")
    case True
    have "calls_of b (bc # cs) = c # calls_of b cs" using True by (simp add: calls_of_def bc)
    with one_step_held [OF ph(1), of "calls_of b cs"] Cons.IH [OF s(2)] True ph(2) given_back_append [of "[c]" "calls_of b cs"]
    show ?thesis by simp
  next
    case False
    then have "calls_of b (bc # cs) = calls_of b cs" "st1 b = st b" using ph(2) by (simp_all add: calls_of_def bc)
    with Cons.IH [OF s(2)] show ?thesis by simp
  qed
qed (simp add: calls_of_def)

definition h_phase :: "(bool \<times> pool_call) list \<Rightarrow> (bool \<Rightarrow> phase) \<Rightarrow> uuid \<Rightarrow> hybrid_pool \<Rightarrow> (bool \<Rightarrow> phase) \<Rightarrow> bool" where
  "h_phase base st0 i w st \<longleftrightarrow> (\<exists>cs. hp_calls w = base @ cs \<and> hybrid_run i st0 cs = Some st)"

lemma h_phase_called:
  assumes "h_phase base st0 i w st" "one_step i (st b) c = Some ph" "\<forall>r. c = CAcquire r \<longrightarrow> held_in (st (\<not> b)) = []"
  shows "h_phase base st0 i (h_called b c w) (st(b := ph))"
proof -
  from assms(1) obtain cs where "hp_calls w = base @ cs" "hybrid_run i st0 cs = Some st" unfolding h_phase_def by blast
  moreover have "hybrid_step i st (b, c) = Some (st(b := ph))" using assms(2,3) by (cases c) (auto simp: hybrid_step_def)
  ultimately show ?thesis unfolding h_phase_def
    by (intro exI [of _ "cs @ [(b, c)]"]) (simp add: h_called_def hybrid_run_append)
qed

section \<open>What a step leaves alone\<close>

definition h_quiet :: "hybrid_pool \<Rightarrow> hybrid_pool \<Rightarrow> bool" where
  "h_quiet w w' \<longleftrightarrow> hp_calls w' = hp_calls w \<and> hp_acquire w' = hp_acquire w \<and> bp_clients w' = bp_clients w"

lemma h_quiet_refl [simp]: "h_quiet w w"
  by (simp add: h_quiet_def)

lemma h_quiet_trans: "h_quiet w w' \<Longrightarrow> h_quiet w' w'' \<Longrightarrow> h_quiet w w''"
  by (simp add: h_quiet_def)

lemma h_quiet_phase: "h_quiet w w' \<Longrightarrow> h_phase base st0 i w' st \<longleftrightarrow> h_phase base st0 i w st"
  by (simp add: h_quiet_def h_phase_def)

lemma h_time_Now: "time_Now w = (t, w') \<Longrightarrow> h_quiet w w'"
  by (auto simp: time_Now_def h_quiet_def split: list.splits)

lemma h_SetState_quiet: "h_quiet w (h_SetState i st peer replica w)"
proof -
  obtain t w' where t: "time_Now w = (t, w')" by fastforce
  from h_time_Now [OF t] show ?thesis by (simp add: h_SetState_def client_SetState_def t h_quiet_def Let_def)
qed

lemma h_server_SetState_quiet:
  "server_SetState st peer s w = (s', w') \<Longrightarrow> h_quiet w w' \<and> hs_ID s' = hs_ID s \<and> hs_Conn s' = hs_Conn s"
  by (auto simp: server_SetState_def split: prod.splits dest: h_time_Now)

lemma h_TransactionComplete_quiet: "h_quiet w (client_TransactionComplete i w)"
  by (simp add: client_TransactionComplete_def h_quiet_def)

lemma replica_Empty_quiet: "replica_Empty w = (e, w') \<Longrightarrow> h_quiet w w'"
  by (auto simp: replica_Empty_def h_quiet_def split: list.splits)

definition h_scripts :: "hybrid_pool \<Rightarrow> bool" where
  "h_scripts w \<longleftrightarrow> (\<forall>b s. Some s \<in> set (hp_acquire w b) \<longrightarrow> server_ok Transaction_config (hs_Conn s))"

lemma h_quiet_scripts: "h_quiet w w' \<Longrightarrow> h_scripts w' \<longleftrightarrow> h_scripts w"
  by (simp add: h_quiet_def h_scripts_def)

lemma h_called_fields [simp]:
  "bp_clients (h_called b c w) = bp_clients w" "h_scripts (h_called b c w) = h_scripts w" "hp_acquire (h_called b c w) = hp_acquire w"
  by (simp_all add: h_called_def h_scripts_def)

section \<open>Pairing\<close>

lemma transaction_config [simp]:
  "bc_ParameterStatusSync Transaction_config = ParameterStatusSyncDynamic" "bc_ExtendedQuerySync Transaction_config"
  "bc_ReleaseAfterTransaction Transaction_config"
  by (simp_all add: Transaction_config_def)

lemma h_sync_pairs:
  assumes "client_ok Transaction_config client" "server_ok Transaction_config server"
  shows "pairs client server (h_sync T client server)"
proof -
  have "synced_pair client server" using assms by (simp add: client_ok_def server_ok_def synced_pair_def)
  from ps_Sync_keeps [OF this, of "hc_TrackedParameters T"] obtain e e' c1 s1 where
    p: "ps_Sync (hc_TrackedParameters T) client server = Some ((e, e'), Some c1, s1)"
      "keeps ClientSide client c1" "keeps ServerSide server s1" by (elim exE conjE) rule
  note ok = client_ok_keeps [OF assms(1) p(2)] server_ok_keeps [OF assms(2) p(3)]
  then obtain f s2 where "eqp_Sync c1 s1 = Some (f, s2)" "keeps ServerSide s1 s2"
    using eqp_Sync_keeps [of c1 s1] by (auto simp: client_ok_def server_ok_def)
  with p(1) pairsI [OF p(2,3)] pairsI [OF p(2) keeps_trans [OF p(3)]] show ?thesis by (auto simp: h_sync_def)
qed

lemma h_pair_returns:
  assumes "client_ok Transaction_config client" "server_ok Transaction_config (hs_Conn s)"
  shows "\<exists>e e' client' s' w'. h_pair T i client s w = Some ((e, e'), client', s', w') \<and> keeps ClientSide client client' \<and>
    server_ok Transaction_config (hs_Conn s') \<and> hs_ID s' = hs_ID s \<and> h_quiet w w'"
proof -
  let ?w = "h_SetState i ConnStatePairing (hs_ID s) True w"
  obtain s1 w1 where b1: "server_SetState ConnStatePairing i s ?w = (s1, w1)" by fastforce
  note q1 = h_server_SetState_quiet [OF b1] h_SetState_quiet [of w i ConnStatePairing "hs_ID s" True]
  have q1': "h_quiet w w1" using q1 by (blast intro: h_quiet_trans)
  from h_sync_pairs [OF assms, of T] obtain e e' c2 sc where p: "h_sync T client (hs_Conn s) = Some ((e, e'), c2, sc)"
    "keeps ClientSide client c2" "keeps ServerSide (hs_Conn s) sc" unfolding pairs_def by (elim exE conjE) rule
  let ?w1 = "h_SetState i ConnStateActive (hs_ID s) True w1"
  obtain s2 w2 where b2: "server_SetState ConnStateActive i (s1\<lparr>hs_Conn := sc\<rparr>) ?w1 = (s2, w2)" by fastforce
  note q2 = h_server_SetState_quiet [OF b2] h_SetState_quiet [of w1 i ConnStateActive "hs_ID s" True]
  have q2': "h_quiet w w2" using q1' q2 by (blast intro: h_quiet_trans)
  show ?thesis using b1 b2 p q1(1) q1' q2(1) q2' server_ok_keeps [OF assms(2) p(3)]
    by (cases e; cases e') (simp_all add: h_pair_def Let_def)
qed

lemma h_Acquire_ok:
  assumes "h_phase base st0 i w st" "st b = NoServer" "held_in (st (\<not> b)) = []" "h_scripts w" "h_Acquire b w = (r, w')"
  shows "h_phase base st0 i w' (st(b := case r of None \<Rightarrow> Done | Some s \<Rightarrow> Fresh (hs_ID s) (hs_Conn s)))" "h_scripts w'"
    "bp_clients w' = bp_clients w" "\<And>s. r = Some s \<Longrightarrow> server_ok Transaction_config (hs_Conn s)"
proof -
  let ?c = "CAcquire (map_option (\<lambda>s. (hs_ID s, hs_Conn s)) r)"
  from assms(5) have w': "\<exists>a. w' = h_called b ?c (w\<lparr>hp_acquire := a\<rparr>)"
    by (auto simp: h_Acquire_def split: list.splits intro: exI [of _ "hp_acquire w"])
  then obtain a where a: "w' = h_called b ?c (w\<lparr>hp_acquire := a\<rparr>)" ..
  have "h_phase base st0 i (w\<lparr>hp_acquire := a\<rparr>) st" using assms(1) by (simp add: h_phase_def)
  from h_phase_called [OF this, of b ?c] show "h_phase base st0 i w' (st(b := case r of None \<Rightarrow> Done | Some s \<Rightarrow> Fresh (hs_ID s) (hs_Conn s)))"
    unfolding a using assms(2,3) by (auto simp: one_step_def proto_step_def split: option.splits)
  show "bp_clients w' = bp_clients w" by (simp add: a)
  have sc: "server_ok Transaction_config (hs_Conn s)" if "Some s \<in> set (hp_acquire w d)" for s d
    using assms(4) that unfolding h_scripts_def by blast
  have "h_scripts w' \<and> (\<forall>s. r = Some s \<longrightarrow> server_ok Transaction_config (hs_Conn s))"
  proof (cases "hp_acquire w b")
    case Nil
    with assms(5) have "r = None" "w' = h_called b (CAcquire None) w" by (simp_all add: h_Acquire_def)
    with assms(4) show ?thesis by simp
  next
    case (Cons x xs)
    with assms(5) have x: "x = r" "w' = h_called b ?c (w\<lparr>hp_acquire := (hp_acquire w)(b := xs)\<rparr>)" by (auto simp: h_Acquire_def)
    have "h_scripts w'" unfolding h_scripts_def
      by (intro allI impI) (rule sc, use Cons x(2) in \<open>auto simp: h_called_def split: if_splits\<close>)
    moreover have "server_ok Transaction_config (hs_Conn s)" if "r = Some s" for s by (rule sc [of _ b]) (use Cons x(1) that in simp)
    ultimately show ?thesis by blast
  qed
  then show "h_scripts w'" "\<And>s. r = Some s \<Longrightarrow> server_ok Transaction_config (hs_Conn s)" by blast+
qed

lemma h_acquire_pair_returns:
  assumes "client_ok Transaction_config client" "h_scripts w" "h_phase base st0 i w st" "st b = NoServer" "held_in (st (\<not> b)) = []"
  shows "\<exists>e e' client' server w'. h_acquire_pair T b i client w = Some ((e, e'), client', server, w') \<and> keeps ClientSide client client' \<and>
    h_scripts w' \<and> bp_clients w' = bp_clients w \<and>
    (case server of
       None \<Rightarrow> h_phase base st0 i w' (st(b := Done))
     | Some s \<Rightarrow> server_ok Transaction_config (hs_Conn s) \<and>
         h_phase base st0 i w' (st(b := after_pair (hs_ID s) (hs_Conn s) e e' (Ready (hs_ID s) (hs_Conn s)))))"
proof -
  obtain r w1 where a: "h_Acquire b w = (r, w1)" by fastforce
  note w1 = h_Acquire_ok [OF assms(3,4,5,2) a]
  show ?thesis
  proof (cases r)
    case None
    with a w1 assms(1) show ?thesis by (simp add: h_acquire_pair_def client_ok_def keeps_refl)
  next
    case (Some s)
    from h_pair_returns [OF assms(1) w1(4) [OF Some], of T i w1] obtain e e' c2 s2 w2 where
      p: "h_pair T i client s w1 = Some ((e, e'), c2, s2, w2)" "keeps ClientSide client c2" "server_ok Transaction_config (hs_Conn s2)"
        "hs_ID s2 = hs_ID s" "h_quiet w1 w2" by (elim exE conjE) rule
    let ?c = "CPair (hs_ID s) (hs_Conn s) (hs_Conn s2) e e'" and ?ph = "after_pair (hs_ID s2) (hs_Conn s2) e e' (Ready (hs_ID s2) (hs_Conn s2))"
    have "h_phase base st0 i (h_called b ?c w2) ((st(b := Fresh (hs_ID s) (hs_Conn s)))(b := ?ph))"
      by (rule h_phase_called) (use w1(1) Some h_quiet_phase [OF p(5)] p(4) in \<open>simp_all add: one_step_def proto_step_def\<close>)
    moreover have "h_scripts (h_called b ?c w2)" "bp_clients (h_called b ?c w2) = bp_clients w"
      using w1(2,3) p(5) h_quiet_scripts [OF p(5)] by (simp_all add: h_quiet_def)
    ultimately show ?thesis using a Some p(1-3) by (simp add: h_acquire_pair_def h_Pair_def)
  qed
qed

lemma h_bounce_returns:
  assumes "client_ok Transaction_config client" "server_ok Transaction_config (hs_Conn s)" "c2s_msg m"
    "h_phase base st0 i w st" "st b = Ready (hs_ID s) (hs_Conn s)"
  shows "\<exists>e e' client' s' w'. h_bounce b client s m w = Some ((e, e'), client', s', w') \<and> keeps ClientSide client client' \<and>
    server_ok Transaction_config (hs_Conn s') \<and> h_scripts w' = h_scripts w \<and> bp_clients w' = bp_clients w \<and>
    h_phase base st0 i w' (st(b := after_pair (hs_ID s') (hs_Conn s') e e' (Spent (hs_ID s') (hs_Conn s'))))"
proof -
  have "conn_inv ServerSide (hs_Conn s)" "conn_inv ClientSide client" using assms by (simp_all add: client_ok_def server_ok_def)
  from Bounce_keeps [OF this assms(3)] obtain e e' c sc where
    b: "Bounce client (hs_Conn s) m = Some ((e, e'), c, sc)" "keeps ClientSide client c" "keeps ServerSide (hs_Conn s) sc"
      "e' = None \<longrightarrow> (\<exists>taken. cn_inbox (hs_Conn s) = taken @ [Inr (Msg (PReadyForQuery (type_code CHR ''I'')))] @ cn_inbox sc)"
    by (elim exE conjE) rule
  from b(4) have "e' = None \<longrightarrow> ends_idle (hs_Conn s) sc" using ends_idleI by blast
  then have "h_phase base st0 i (h_called b (CBounce (hs_ID s) (hs_Conn s) sc e e') w) (st(b := after_pair (hs_ID s) sc e e' (Spent (hs_ID s) sc)))"
    by (intro h_phase_called [OF assms(4)]) (simp_all add: one_step_def proto_step_def assms(5))
  with b(1-3) server_ok_keeps [OF assms(2) b(3)] show ?thesis by (simp add: h_bounce_def)
qed

text \<open>A pairing that succeeded is followed by the packet.\<close>

lemma h_use_returns:
  assumes "client_ok Transaction_config client" "server_ok Transaction_config (hs_Conn s)" "c2s_msg m"
    "h_phase base st0 i w (st(b := after_pair (hs_ID s) (hs_Conn s) e e' (Ready (hs_ID s) (hs_Conn s))))"
  shows "\<exists>f f' client' s' w'.
    (if e = None \<and> e' = None then h_bounce b client s m w else Some ((e, e'), client, s, w)) = Some ((f, f'), client', s', w') \<and>
    keeps ClientSide client client' \<and> server_ok Transaction_config (hs_Conn s') \<and> h_scripts w' = h_scripts w \<and>
    bp_clients w' = bp_clients w \<and>
    h_phase base st0 i w' (st(b := after_pair (hs_ID s') (hs_Conn s') f f' (Spent (hs_ID s') (hs_Conn s'))))"
proof (cases "e = None \<and> e' = None")
  case True
  with assms(4) have "h_phase base st0 i w (st(b := Ready (hs_ID s) (hs_Conn s)))" by (simp add: after_pair_def)
  from h_bounce_returns [OF assms(1-3) this, of b] True show ?thesis by simp
next
  case False
  have "keeps ClientSide client client" using assms(1) by (simp add: client_ok_def keeps_refl)
  with False assms show ?thesis by (auto simp: after_pair_def)
qed

section \<open>The phase of a held server\<close>

text \<open>At the end of a part that goes on, and of one that returns.\<close>

definition held_good :: "held_server option \<Rightarrow> phase \<Rightarrow> bool" where
  "held_good server ph \<longleftrightarrow>
     (case server of
        None \<Rightarrow> ph = NoServer
      | Some s \<Rightarrow> ph = Ready (hs_ID s) (hs_Conn s) \<or> ph = Spent (hs_ID s) (hs_Conn s) \<or> ph = Leaving (hs_ID s) (hs_Conn s))"

definition held_last :: "held_server option \<Rightarrow> fed_error option \<Rightarrow> phase \<Rightarrow> bool" where
  "held_last server serverErr ph \<longleftrightarrow>
     (case server of
        None \<Rightarrow> ph = NoServer \<or> ph = Done
      | Some s \<Rightarrow> if serverErr \<noteq> None then ph = Failed (hs_ID s) (hs_Conn s) else held_good server ph)"

lemma held_good_last: "held_good server ph \<Longrightarrow> held_last server None ph"
  by (simp add: held_good_def held_last_def split: option.splits)

lemma held_none: "held_good None NoServer" "held_last None e NoServer" "held_last None e Done"
  by (simp_all add: held_good_def held_last_def)

lemma held_after:
  "held_good (Some s) (after_pair (hs_ID s) (hs_Conn s) e None (Spent (hs_ID s) (hs_Conn s)))"
  "held_good (Some s) (after_pair (hs_ID s) (hs_Conn s) e None (Ready (hs_ID s) (hs_Conn s)))"
  "held_last (Some s) None (after_pair (hs_ID s) (hs_Conn s) e None (Ready (hs_ID s) (hs_Conn s)))"
  "held_last (Some s) (Some e') (after_pair (hs_ID s) (hs_Conn s) e (Some e') ok)"
  by (simp_all add: held_good_def held_last_def after_pair_def)

lemma held_state [simp]:
  "held_good (Some (s\<lparr>hs_state := x\<rparr>)) ph = held_good (Some s) ph" "held_last (Some (s\<lparr>hs_state := x\<rparr>)) e ph = held_last (Some s) e ph"
  by (simp_all add: held_good_def held_last_def)

lemma h_release_held_ok:
  assumes "h_phase base st0 i w st" "held_good server (st b)"
  shows "h_phase base st0 i (h_release_held b server w) (st(b := NoServer))" "h_scripts (h_release_held b server w) = h_scripts w"
    "bp_clients (h_release_held b server w) = bp_clients w"
proof -
  have n: "st b = NoServer \<Longrightarrow> st(b := NoServer) = st" by auto
  show "h_phase base st0 i (h_release_held b server w) (st(b := NoServer))"
    using assms n by (auto simp: h_release_held_def held_good_def h_Release_def one_step_def split: option.splits intro!: h_phase_called)
  show "h_scripts (h_release_held b server w) = h_scripts w" "bp_clients (h_release_held b server w) = bp_clients w"
    by (simp_all add: h_release_held_def h_Release_def split: option.split)
qed

lemma h_give_back_ok:
  assumes "h_phase base st0 i w st" "held_last server serverErr (st b)"
  shows "\<exists>ph. h_phase base st0 i (h_give_back b server serverErr w) (st(b := ph)) \<and> (ph = NoServer \<or> ph = Done)"
    "bp_clients (h_give_back b server serverErr w) = bp_clients w"
proof -
  have "\<exists>ph. (ph = NoServer \<or> ph = Done) \<and> h_phase base st0 i (h_give_back b server serverErr w) (st(b := ph))"
  proof (cases server)
    case None
    with assms show ?thesis
      by (intro exI [of _ "st b"]) (auto simp: held_last_def h_give_back_def)
  next
    case (Some s)
    show ?thesis
    proof (cases serverErr)
      case None
      with Some assms have "held_good (Some s) (st b)" by (simp add: held_last_def)
      from h_release_held_ok(1) [OF assms(1) this] Some None show ?thesis
        by (intro exI [of _ NoServer]) (simp add: h_give_back_def h_release_held_def)
    next
      fix e assume e: "serverErr = Some e"
      with Some assms(2) have "st b = Failed (hs_ID s) (hs_Conn s)" by (simp add: held_last_def)
      then have "h_phase base st0 i (h_called b (CRemoveServer (hs_ID s) (hs_Conn s)) w) (st(b := Done))"
        by (intro h_phase_called [OF assms(1)]) (simp_all add: one_step_def proto_step_def)
      with Some e show ?thesis by (intro exI [of _ Done]) (simp add: h_give_back_def h_RemoveServer_def)
    qed
  qed
  then show "\<exists>ph. h_phase base st0 i (h_give_back b server serverErr w) (st(b := ph)) \<and> (ph = NoServer \<or> ph = Done)" by blast
  show "bp_clients (h_give_back b server serverErr w) = bp_clients w"
    by (simp add: h_give_back_def h_Release_def h_RemoveServer_def split: option.split)
qed

section \<open>Only one pool\<close>

text \<open>A part of a session on pool \<open>b\<close> that ends with an error to return, or with none.\<close>

definition h_part :: "(bool \<times> pool_call) list \<Rightarrow> (bool \<Rightarrow> phase) \<Rightarrow> uuid \<Rightarrow> (bool \<Rightarrow> phase) \<Rightarrow> bool \<Rightarrow> held_server option \<Rightarrow>
    serve_error option \<Rightarrow> fed_error option \<Rightarrow> hybrid_pool \<Rightarrow> hybrid_pool \<Rightarrow> bool" where
  "h_part base st0 i st b server err serverErr w w' \<longleftrightarrow> h_scripts w' \<and> bp_clients w' = bp_clients w \<and>
     (\<exists>ph. h_phase base st0 i w' (st(b := ph)) \<and> (if err = None then held_good server ph else held_last server serverErr ph))"

lemma h_partI:
  assumes "h_scripts w'" "bp_clients w' = bp_clients w" "h_phase base st0 i w' (st(b := ph))"
  shows "held_good server ph \<Longrightarrow> h_part base st0 i st b server err None w w'"
    "held_last server serverErr ph \<Longrightarrow> h_part base st0 i st b server (Some e) serverErr w w'"
  using assms held_good_last [of server ph] unfolding h_part_def by (metis, metis option.distinct(1))

lemma h_part_state [simp]: "h_part base st0 i st b (Some (s\<lparr>hs_state := x\<rparr>)) = h_part base st0 i st b (Some s)"
  by (simp add: h_part_def fun_eq_iff)

lemma h_part_from: "bp_clients w1 = bp_clients w \<Longrightarrow> h_part base st0 i st b server err serverErr w1 w' = h_part base st0 i st b server err serverErr w w'"
  by (simp add: h_part_def)

lemma h_part_quiet: "h_quiet w' w'' \<Longrightarrow> h_part base st0 i st b server err serverErr w w' \<Longrightarrow> h_part base st0 i st b server err serverErr w w''"
  by (simp add: h_part_def h_quiet_scripts h_quiet_phase) (simp add: h_quiet_def)

lemma only_packet_returns:
  assumes "client_ok Transaction_config client" "h_scripts w" "c2s_msg m" "h_phase base st0 i w st" "st b = NoServer"
    "held_in (st (\<not> b)) = []"
  shows "\<exists>err serverErr client' server w'. only_packet T b i client m w = Some ((err, serverErr), client', server, w') \<and>
    keeps ClientSide client client' \<and> h_part base st0 i st b server err serverErr w w'"
proof -
  from h_acquire_pair_returns [OF assms(1,2,4,5,6), of T] obtain e e' c1 s1 w1 where
    a: "h_acquire_pair T b i client w = Some ((e, e'), c1, s1, w1)" "keeps ClientSide client c1" "h_scripts w1" "bp_clients w1 = bp_clients w"
    and ph: "case s1 of None \<Rightarrow> h_phase base st0 i w1 (st(b := Done))
      | Some s \<Rightarrow> server_ok Transaction_config (hs_Conn s) \<and>
         h_phase base st0 i w1 (st(b := after_pair (hs_ID s) (hs_Conn s) e e' (Ready (hs_ID s) (hs_Conn s))))" by (elim exE conjE) rule
  show ?thesis
  proof (cases s1)
    case None
    with a ph show ?thesis by (auto simp: only_packet_def h_part_def intro: held_none)
  next
    case (Some s)
    with ph have s: "server_ok Transaction_config (hs_Conn s)"
      "h_phase base st0 i w1 (st(b := after_pair (hs_ID s) (hs_Conn s) e e' (Ready (hs_ID s) (hs_Conn s))))" by simp_all
    from h_use_returns [OF client_ok_keeps [OF assms(1) a(2)] s(1) assms(3) s(2)] obtain f f' c2 s2 w2 where
      u: "(if e = None \<and> e' = None then h_bounce b c1 s m w1 else Some ((e, e'), c1, s, w1)) = Some ((f, f'), c2, s2, w2)"
        "keeps ClientSide c1 c2" "h_scripts w2 = h_scripts w1" "bp_clients w2 = bp_clients w1"
        "h_phase base st0 i w2 (st(b := after_pair (hs_ID s2) (hs_Conn s2) f f' (Spent (hs_ID s2) (hs_Conn s2))))" by (elim exE conjE) rule
    note k = keeps_trans [OF a(2) u(2)]
    note q = h_part_quiet [OF h_TransactionComplete_quiet [of w2 i]]
    show ?thesis
    proof (cases f')
      case None
      have "h_part base st0 i st b (Some s2) (map_option PlainError f) None w w2"
        by (rule h_partI(1) [OF _ _ u(5) [unfolded None] held_after(1)]) (use u(3,4) a(3,4) in simp_all)
      from q [OF this] a(1) Some u(1) k None show ?thesis by (simp add: only_packet_def Let_def)
    next
      fix x assume x: "f' = Some x"
      have "h_part base st0 i st b (Some s2) (Some (ServerError x)) (Some x) w w2"
        by (rule h_partI(2) [OF _ _ u(5) [unfolded x] held_after(4)]) (use u(3,4) a(3,4) in simp_all)
      with a(1) Some u(1) k x show ?thesis by (simp add: only_packet_def)
    qed
  qed
qed

lemma only_loop_returns:
  assumes "client_ok Transaction_config client" "h_scripts w" "h_phase base st0 i w st" "held_good server (st b)" "held_in (st (\<not> b)) = []"
  shows "\<exists>err serverErr client' server' w'. only_loop T b i client server w = Some ((err, serverErr), client', server', w') \<and>
    cn_BackendKey client' = cn_BackendKey client \<and> h_part base st0 i st b server' (Some err) serverErr w w'"
  using assms
proof (induction "length (cn_todo client)" arbitrary: client server w st rule: less_induct)
  case less
  let ?st = "st(b := NoServer)" and ?w0 = "h_SetState i ConnStateIdle uuid_nil True (h_release_held b server w)"
  let ?w1 = "h_SetState i ConnStateAwaitingServer uuid_nil True ?w0"
  note r = h_release_held_ok [OF less.prems(3,4)]
  have q: "h_quiet (h_release_held b server w) ?w0" "h_quiet (h_release_held b server w) ?w1"
    by (blast intro: h_quiet_trans h_SetState_quiet)+
  have "h_part base st0 i st b None err None w (h_release_held b server w)" for err
    by (rule h_partI(1) [OF _ _ r(1) held_none(1)]) (use r(2,3) less.prems(2) in simp_all)
  then have h0: "\<And>err. h_part base st0 i st b None err None w ?w0" "h_part base st0 i st b None None None w ?w1"
    using h_part_quiet q by blast+
  from h0(2) have w1: "h_scripts ?w1" "bp_clients ?w1 = bp_clients w" "h_phase base st0 i ?w1 ?st" "?st b = NoServer" "held_in (?st (\<not> b)) = []"
    using less.prems(5) by (auto simp: h_part_def held_good_def)
  have inv: "conn_inv ClientSide client" using less.prems(1) by (simp add: client_ok_def)
  show ?case
  proof (rule read_keeps [OF inv, of True])
    fix e c1 assume p: "conn_ReadPacket True client = Some (Inl e, c1)" "keeps ClientSide client c1"
    with h0(1) [of "Some (PlainError e)"] conn_rest_fields(1) [OF keepsD(4) [OF p(2)]] show ?thesis by (subst only_loop.simps) (simp add: Let_def)
  next
    fix m c1 assume p: "conn_ReadPacket True client = Some (Inr m, c1)" "keeps ClientSide client c1" "reads_ok ClientSide m"
      "cn_todo client = Inr m # cn_todo c1"
    then have "c2s_msg m" by simp
    from only_packet_returns [OF client_ok_keeps [OF less.prems(1) p(2)] w1(1) this w1(3-5), of T] obtain err serverErr c2 s2 w2 where
      s: "only_packet T b i c1 m ?w1 = Some ((err, serverErr), c2, s2, w2)" "keeps ClientSide c1 c2"
        "h_part base st0 i ?st b s2 err serverErr ?w1 w2" by (elim exE conjE) rule
    note k = keeps_trans [OF p(2) s(2)]
    note key2 = conn_rest_fields(1) [OF keepsD(4) [OF k]]
    show ?thesis
    proof (cases err)
      case None
      have l: "length (cn_todo c2) < length (cn_todo client)" using p(4) keepsD(5) [OF s(2)] by simp
      from s(3) None obtain ph where ph: "h_scripts w2" "bp_clients w2 = bp_clients ?w1" "h_phase base st0 i w2 (?st(b := ph))" "held_good s2 ph"
        by (auto simp: h_part_def)
      have "held_good s2 ((?st(b := ph)) b)" "held_in ((?st(b := ph)) (\<not> b)) = []" using ph(4) less.prems(5) by simp_all
      from less.hyps [OF l client_ok_keeps [OF less.prems(1) k] ph(1,3) this] obtain err' serverErr' c3 s3 w3 where
        "only_loop T b i c2 s2 w2 = Some ((err', serverErr'), c3, s3, w3)" "cn_BackendKey c3 = cn_BackendKey c2"
        "h_part base st0 i (?st(b := ph)) b s3 (Some err') serverErr' w2 w3" by (elim exE conjE) rule
      with key2 p(1) s(1) None ph(2) w1(2) show ?thesis by (subst only_loop.simps) (simp add: Let_def h_part_def)
    next
      case (Some e)
      with p(1) s w1(2) key2 show ?thesis by (subst only_loop.simps) (simp add: Let_def h_part_def)
    qed
  qed
qed

lemma h_start_returns:
  assumes "client_ok Transaction_config client" "h_scripts w" "h_phase base st0 i w st" "st b = NoServer" "held_in (st (\<not> b)) = []"
  shows "\<exists>err serverErr client' server w'. h_start T b i client w = Some ((err, serverErr), client', server, w') \<and>
    client_ok Transaction_config client' \<and> cn_BackendKey client' = cn_BackendKey client \<and> h_part base st0 i st b server err serverErr w w'"
proof -
  from h_acquire_pair_returns [OF assms, of T] obtain e e' c1 s1 w1 where
    a: "h_acquire_pair T b i client w = Some ((e, e'), c1, s1, w1)" "keeps ClientSide client c1" "h_scripts w1" "bp_clients w1 = bp_clients w"
    and ph: "case s1 of None \<Rightarrow> h_phase base st0 i w1 (st(b := Done))
      | Some s \<Rightarrow> server_ok Transaction_config (hs_Conn s) \<and>
         h_phase base st0 i w1 (st(b := after_pair (hs_ID s) (hs_Conn s) e e' (Ready (hs_ID s) (hs_Conn s))))" by (elim exE conjE) rule
  note ok = client_ok_keeps [OF assms(1) a(2)]
  note key = conn_rest_fields(1) [OF keepsD(4) [OF a(2)]]
  from write_keeps [OF keepsD(1) [OF a(2)], of "Msg (PReadyForQuery (type_code CHR ''I''))"] obtain f c2 where
    w: "conn_WritePacket (Msg (PReadyForQuery (type_code CHR ''I''))) c1 = Some (f, c2)" "keeps ClientSide c1 c2" by (auto simp: s2c_ready)
  have ok2: "client_ok Transaction_config c2" "client_ok Transaction_config (c2\<lparr>cn_Ready := True\<rparr>)" "cn_BackendKey c2 = cn_BackendKey client"
    using client_ok_keeps [OF ok w(2)] conn_rest_fields(1) [OF keepsD(4) [OF w(2)]] key by (simp_all add: client_ok_def conn_inv_def)
  show ?thesis
  proof (cases s1)
    case None
    with ph have "h_part base st0 i st b None (Some ErrFailedToAcquirePeer) None w w1" by (auto intro: h_partI(2) [OF a(3,4)] held_none)
    with None a(1) ok key show ?thesis by (simp add: h_start_def)
  next
    case (Some s)
    with ph have s: "h_phase base st0 i w1 (st(b := after_pair (hs_ID s) (hs_Conn s) e e' (Ready (hs_ID s) (hs_Conn s))))" by simp
    show ?thesis
    proof (cases e')
      case None
      have "h_part base st0 i st b (Some s) err None w w1" for err
        by (rule h_partI(1) [OF a(3,4) s [unfolded None] held_after(2)])
      with None Some a(1) ok ok2 key w(1) show ?thesis by (cases e; cases f) (simp_all add: h_start_def)
    next
      fix x assume x: "e' = Some x"
      have "h_part base st0 i st b (Some s) (Some (PlainError x)) (Some x) w w1"
        by (rule h_partI(2) [OF a(3,4) s [unfolded x] held_after(4)])
      with x Some a(1) ok key show ?thesis by (simp add: h_start_def)
    qed
  qed
qed

lemma only_connected_returns:
  assumes "client_ok Transaction_config client" "h_scripts w" "h_phase base st0 i w st" "st b = NoServer" "held_in (st (\<not> b)) = []"
  shows "\<exists>err serverErr client' server w'. only_connected T b i client w = Some ((err, serverErr), client', server, w') \<and>
    cn_BackendKey client' = cn_BackendKey client \<and> h_part base st0 i st b server (Some err) serverErr w w'"
proof -
  let ?w = "h_SetState i ConnStateAwaitingServer uuid_nil True w"
  let ?r = "if cn_Ready client then Some ((None, None), client, None, w) else h_start T b i client ?w"
  note q = h_SetState_quiet [of w i ConnStateAwaitingServer uuid_nil True]
  have st: "st(b := NoServer) = st" using assms(4) by auto
  have w: "h_scripts ?w" "h_phase base st0 i ?w st" "bp_clients ?w = bp_clients w"
    using assms(2,3) h_quiet_scripts [OF q] h_quiet_phase [OF q] q by (simp_all add: h_quiet_def)
  have "h_part base st0 i st b None None None w w" by (rule h_partI(1) [OF assms(2) refl _ held_none(1)]) (use assms(3) st in simp)
  with h_start_returns [OF assms(1) w(1,2) assms(4,5), of T, unfolded h_part_from [OF w(3)]] assms(1) obtain err serverErr c1 s1 w1 where
    s: "?r = Some ((err, serverErr), c1, s1, w1)" "client_ok Transaction_config c1" "cn_BackendKey c1 = cn_BackendKey client"
      "h_part base st0 i st b s1 err serverErr w w1"
    by (cases "cn_Ready client") auto
  show ?thesis
  proof (cases err)
    case None
    with s(4) obtain ph where ph: "h_scripts w1" "bp_clients w1 = bp_clients w" "h_phase base st0 i w1 (st(b := ph))" "held_good s1 ph"
      by (auto simp: h_part_def)
    have "held_good s1 ((st(b := ph)) b)" "held_in ((st(b := ph)) (\<not> b)) = []" using ph(4) assms(5) by simp_all
    from only_loop_returns [OF s(2) ph(1,3) this, of T] obtain err' serverErr' c2 s2 w2 where
      "only_loop T b i c1 s1 w1 = Some ((err', serverErr'), c2, s2, w2)" "cn_BackendKey c2 = cn_BackendKey c1"
      "h_part base st0 i (st(b := ph)) b s2 (Some err') serverErr' w1 w2" by (elim exE conjE) rule
    with s(1,3) ph(2) None show ?thesis unfolding only_connected_def s(1) by (simp add: h_part_def)
  next
    case (Some e)
    with s show ?thesis unfolding only_connected_def s(1) by simp
  qed
qed

lemma h_addClient_ok:
  "hp_calls (addClient key i (h_NewClient i w)) = hp_calls w" "hp_acquire (addClient key i (h_NewClient i w)) = hp_acquire w"
  "bp_clients (addClient key i (h_NewClient i w)) = AList.update key i (bp_clients w)"
  by (auto simp: addClient_def h_NewClient_def basic_NewClient_def h_quiet_def split: prod.splits dest!: h_time_Now)

lemma h_removeClient_ok:
  "hp_calls (removeClient key w) = hp_calls (w :: hybrid_pool)" "bp_clients (removeClient key w) = AList.delete key (bp_clients w)"
  by (simp_all add: removeClient_def)

text \<open>A client that leaves, on one pool.\<close>

lemma h_leave_ok:
  assumes "h_phase base st0 i w st" "st b = NoServer \<or> st b = Done"
  shows "h_phase base st0 i (h_called b (CRemoveClient i) w) (st(b := Gone))"
  by (rule h_phase_called [OF assms(1)]) (use assms(2) in \<open>auto simp: one_step_def proto_step_def\<close>)

lemma serveOnly_returns:
  assumes "conn_inv ClientSide conn" "h_scripts w"
  shows "\<exists>err client' w'. serveOnly T write i conn w = Some (err, client', w') \<and>
    h_phase (hp_calls w) (\<lambda>_. Absent) i w' ((\<lambda>_. Absent)((\<not> write) := Gone)) \<and>
    bp_clients w' = AList.delete (cn_BackendKey conn) (AList.update (cn_BackendKey conn) i (bp_clients w))"
proof -
  let ?b = "\<not> write" and ?st = "(\<lambda>_. Absent)((\<not> write) := NoServer)"
  let ?client = "conn\<lparr>cn_Middleware := cn_Middleware conn @
           [MwUnterminate, MwPsClient (ps_NewClient (cn_InitialParameters conn)), MwEqpClient eqp_new]\<rparr>"
  let ?w0 = "addClient (cn_BackendKey conn) i (h_NewClient i w)"
  let ?w1 = "h_called ?b (CAddClient i) ?w0"
  note o = h_addClient_ok [of "cn_BackendKey conn" i w]
  have c: "client_ok Transaction_config ?client" using assms(1) by (auto simp: client_ok_def conn_inv_def eqp_inv_new)
  have "h_phase (hp_calls w) (\<lambda>_. Absent) i ?w0 (\<lambda>_. Absent)" using o(1) by (simp add: h_phase_def)
  then have w1: "h_phase (hp_calls w) (\<lambda>_. Absent) i ?w1 ?st" "h_scripts ?w1" "bp_clients ?w1 = AList.update (cn_BackendKey conn) i (bp_clients w)"
    using o assms(2) by (auto simp: one_step_def proto_step_def h_scripts_def intro!: h_phase_called)
  from only_connected_returns [OF c w1(2,1), of ?b T] obtain err serverErr c2 s2 w2 where
    r: "only_connected T ?b i ?client ?w1 = Some ((err, serverErr), c2, s2, w2)" "cn_BackendKey c2 = cn_BackendKey conn"
      "h_part (hp_calls w) (\<lambda>_. Absent) i ?st ?b s2 (Some err) serverErr ?w1 w2" by auto
  from r(3) obtain ph where ph: "h_phase (hp_calls w) (\<lambda>_. Absent) i w2 (?st(?b := ph))" "held_last s2 serverErr ph" "bp_clients w2 = bp_clients ?w1"
    by (auto simp: h_part_def)
  have "held_last s2 serverErr ((?st(?b := ph)) ?b)" using ph(2) by simp
  note g = h_give_back_ok [OF ph(1) this]
  from g(1) obtain ph' where g': "h_phase (hp_calls w) (\<lambda>_. Absent) i (h_give_back ?b s2 serverErr w2) (?st(?b := ph, ?b := ph'))"
    "ph' = NoServer \<or> ph' = Done" by blast
  from h_leave_ok [OF g'(1), of ?b] g'(2) r(1,2) g(2) ph(3) w1(3) show ?thesis
    by (simp add: serveOnly_def Let_def h_phase_def h_removeClient_ok)
qed

section \<open>Replica first: the client\<close>

text \<open>What every part of \<^verbatim>\<open>serveRW\<close> keeps of the client's connection; the record may be rewound, so only the codec's packets count.\<close>

definition client_on :: "conn \<Rightarrow> conn \<Rightarrow> bool" where
  "client_on c c' \<longleftrightarrow> client_ok Transaction_config c' \<and> cn_BackendKey c' = cn_BackendKey c \<and> length (cn_inbox c') \<le> length (cn_inbox c)"

lemma client_on_trans: "client_on c c' \<Longrightarrow> client_on c' c'' \<Longrightarrow> client_on c c''"
  by (simp add: client_on_def)

lemma client_on_keeps: "client_ok Transaction_config c \<Longrightarrow> keeps ClientSide c c' \<Longrightarrow> client_on c c'"
  by (simp add: client_on_def client_ok_keeps keepsD(3) conn_rest_fields(1) [OF keepsD(4)])

lemma client_onD: "client_on c c' \<Longrightarrow> client_ok Transaction_config c'"
  by (simp add: client_on_def)

lemma on_hybrid_ok:
  assumes "client_ok Transaction_config c" "\<And>h. mw_ok ClientSide (MwHybrid h) \<Longrightarrow> mw_ok ClientSide (MwHybrid (f h))"
  shows "client_on c (on_hybrid f c)"
proof -
  let ?f = "\<lambda>m. case m of MwHybrid h \<Rightarrow> MwHybrid (f h) | _ \<Rightarrow> m"
  have "kind_of (?f m) = kind_of m" for m by (cases m) simp_all
  moreover have "mw_ok ClientSide m \<Longrightarrow> mw_ok ClientSide (?f m)" for m using assms(2) by (cases m) simp_all
  ultimately show ?thesis using assms(1) by (auto simp: client_on_def on_hybrid_def client_ok_def conn_inv_def comp_def)
qed

lemma on_Primary_ok: "client_ok Transaction_config c \<Longrightarrow> client_on c (on_hybrid hybrid_Primary c)"
  by (rule on_hybrid_ok) (simp_all add: hybrid_Primary_def)

lemma on_Reset_ok:
  assumes "client_ok Transaction_config c"
  shows "client_on c (on_hybrid hybrid_Reset c)" "cn_todo (on_hybrid hybrid_Reset c) = cn_inbox c"
proof -
  show "client_on c (on_hybrid hybrid_Reset c)" using assms by (rule on_hybrid_ok) (simp_all add: hybrid_Reset_def)
  have "unread (case m of MwHybrid h \<Rightarrow> MwHybrid (hybrid_Reset h) | _ \<Rightarrow> m) = []" for m by (cases m) (simp_all add: hybrid_Reset_def)
  then show "cn_todo (on_hybrid hybrid_Reset c) = cn_inbox c" by (simp add: cn_todo_def replay_def on_hybrid_def comp_def)
qed

lemma lookup_eqp_client_ok:
  assumes "client_ok Transaction_config c"
  shows "\<exists>psa eqpa. lookup_ps_client (cn_Middleware c) = Some psa \<and> lookup_eqp_client (cn_Middleware c) = Some eqpa \<and> eqp_inv eqpa"
proof -
  have "lookup_eqp_client ms = Some e \<Longrightarrow> MwEqpClient e \<in> set ms" for ms e by (induction ms rule: lookup_eqp_client.induct) auto
  moreover from assms obtain psa eqpa where l: "lookup_ps_client (cn_Middleware c) = Some psa" "lookup_eqp_client (cn_Middleware c) = Some eqpa"
    unfolding client_ok_def using lookup_by_kind(1,3) [of "cn_Middleware c"] by auto
  ultimately have "mw_ok ClientSide (MwEqpClient eqpa)" using assms unfolding client_ok_def conn_inv_def by blast
  with l show ?thesis by simp
qed

section \<open>Replica first: the parts\<close>

definition rw_ok :: "rw \<Rightarrow> bool" where
  "rw_ok S \<longleftrightarrow> client_ok Transaction_config (rw_client S) \<and> eqp_inv (rw_eqpi S) \<and> h_scripts (rw_pool S)"

definition rw_keeps :: "rw \<Rightarrow> rw \<Rightarrow> bool" where
  "rw_keeps S S' \<longleftrightarrow> rw_ok S' \<and> client_on (rw_client S) (rw_client S') \<and> bp_clients (rw_pool S') = bp_clients (rw_pool S)"

lemma rw_keeps_trans: "rw_keeps S S' \<Longrightarrow> rw_keeps S' S'' \<Longrightarrow> rw_keeps S S''"
  unfolding rw_keeps_def by (auto intro: client_on_trans)

primrec rw_held :: "rw_end \<Rightarrow> rw \<Rightarrow> (bool \<Rightarrow> phase) \<Rightarrow> bool" where
  "rw_held (Return err serverErr) S st = (held_last (rw_primary S) serverErr (st False) \<and> held_last (rw_replica S) serverErr (st True))"
| "rw_held (Continue err) S st = (held_good (rw_primary S) (st False) \<and> held_good (rw_replica S) (st True))"

definition rw_part :: "(bool \<times> pool_call) list \<Rightarrow> (bool \<Rightarrow> phase) \<Rightarrow> uuid \<Rightarrow> rw \<Rightarrow> rw_end \<Rightarrow> rw \<Rightarrow> bool" where
  "rw_part base st0 i S e S' \<longleftrightarrow> rw_keeps S S' \<and> (\<exists>st. h_phase base st0 i (rw_pool S') st \<and> rw_held e S' st)"

lemma rw_partI: "rw_keeps S S' \<Longrightarrow> h_phase base st0 i (rw_pool S') st \<Longrightarrow> rw_held e S' st \<Longrightarrow> rw_part base st0 i S e S'"
  unfolding rw_part_def by blast

lemma rw_part_trans: "rw_keeps S S' \<Longrightarrow> rw_part base st0 i S' e S'' \<Longrightarrow> rw_part base st0 i S e S''"
  unfolding rw_part_def by (blast intro: rw_keeps_trans)

lemma PairPrimary_returns:
  assumes "server_ok Transaction_config (hs_Conn p)" "h_phase base st0 i w st" "st False = Fresh (hs_ID p) (hs_Conn p)"
  shows "\<exists>e p' w'. PairPrimary T i psc eqpc p w = Some (e, p', w') \<and> server_ok Transaction_config (hs_Conn p') \<and>
    h_scripts w' = h_scripts w \<and> bp_clients w' = bp_clients w \<and>
    h_phase base st0 i w' (st(False := after_pair (hs_ID p') (hs_Conn p') None e (Ready (hs_ID p') (hs_Conn p'))))"
proof -
  obtain p1 w1 where b1: "server_SetState ConnStatePairing i p w = (p1, w1)" by fastforce
  note q1 = h_server_SetState_quiet [OF b1]
  have sv: "conn_inv ServerSide (hs_Conn p)" "KPsServer \<in> set (kinds (hs_Conn p))" "KEqpServer \<in> set (kinds (hs_Conn p))"
    using assms(1) by (simp_all add: server_ok_def)
  from ps_SyncMiddleware_keeps [OF sv(1,2), of "hc_TrackedParameters T" psc] obtain e c1 where
    p: "ps_SyncMiddleware (hc_TrackedParameters T) psc (hs_Conn p) = Some (e, c1)" "keeps ServerSide (hs_Conn p) c1" by (elim exE conjE) rule
  have "conn_inv ServerSide c1" "KEqpServer \<in> set (kinds c1)" using p(2) sv(3) by (simp_all add: keepsD)
  from eqp_SyncMiddleware_keeps [OF this, of eqpc] obtain f c2 where
    q: "eqp_SyncMiddleware eqpc c1 = Some (f, c2)" "keeps ServerSide c1 c2" by (elim exE conjE) rule
  obtain g c where s: "sync_primary T psc eqpc (hs_Conn p) = Some (g, c)" "keeps ServerSide (hs_Conn p) c"
    using p q keeps_trans [OF p(2) q(2)] by (cases e) (auto simp: sync_primary_def)
  let ?w = "h_called False (CPair (hs_ID p) (hs_Conn p) c None g) w1"
  have ph: "h_phase base st0 i ?w (st(False := after_pair (hs_ID p) c None g (Ready (hs_ID p) c)))"
    by (rule h_phase_called) (use assms(2,3) q1 h_quiet_phase in \<open>auto simp: one_step_def proto_step_def\<close>)
  let ?w2 = "h_SetState i ConnStateActive (hs_ID p) False ?w"
  obtain p2 w2 where b2: "server_SetState ConnStateActive i (p1\<lparr>hs_Conn := c\<rparr>) ?w2 = (p2, w2)" by fastforce
  note q2 = h_server_SetState_quiet [OF b2]
  have "h_quiet ?w w2" using q2 h_SetState_quiet by (blast intro: h_quiet_trans)
  then show ?thesis using b1 b2 s(1) ph q1 q2 server_ok_keeps [OF assms(1) s(2)] h_quiet_scripts [of w w1] h_quiet_scripts [of ?w w2] h_quiet_phase [of ?w w2]
    by (cases g) (simp_all add: PairPrimary_def h_quiet_def)
qed

lemma rw_on_primary_returns:
  assumes "rw_ok S" "server_ok Transaction_config (hs_Conn p)" "c2s_msg m"
    "h_phase base st0 i (rw_pool S) (st(False := after_pair (hs_ID p) (hs_Conn p) e e' (Ready (hs_ID p) (hs_Conn p))))"
    "rw_replica S = None" "st True = NoServer"
  shows "\<exists>r S'. rw_on_primary m (e, e') p S = Some (r, S') \<and> rw_part base st0 i S r S'"
proof -
  have c: "client_ok Transaction_config (rw_client S)" using assms(1) by (simp add: rw_ok_def)
  from h_use_returns [OF c assms(2-4)] obtain f f' c2 p2 w2 where
    u: "(if e = None \<and> e' = None then h_bounce False (rw_client S) p m (rw_pool S) else Some ((e, e'), rw_client S, p, rw_pool S)) =
        Some ((f, f'), c2, p2, w2)"
      "keeps ClientSide (rw_client S) c2" "h_scripts w2 = h_scripts (rw_pool S)" "bp_clients w2 = bp_clients (rw_pool S)"
      "h_phase base st0 i w2 (st(False := after_pair (hs_ID p2) (hs_Conn p2) f f' (Spent (hs_ID p2) (hs_Conn p2))))" by (elim exE conjE) rule
  let ?st = "st(False := after_pair (hs_ID p2) (hs_Conn p2) f f' (Spent (hs_ID p2) (hs_Conn p2)))"
  let ?S = "\<lambda>p. S\<lparr>rw_client := c2, rw_primary := Some p, rw_pool := w2\<rparr>"
  have k: "rw_keeps S (?S q)" for q
    using assms(1) client_on_keeps [OF c u(2)] u(3,4) by (simp add: rw_keeps_def rw_ok_def client_onD)
  have "rw_part base st0 i S (Continue f) (?S (p2\<lparr>hs_state := x\<rparr>))" if "f' = None" for x
    by (rule rw_partI [OF k, where st = ?st]) (use u(5) assms(5,6) held_after(1) [of p2 f] held_none(1) that in simp_all)
  moreover have "rw_part base st0 i S (Return (ServerError y) (Some y)) (?S p2)" if "f' = Some y" for y
    by (rule rw_partI [OF k, where st = ?st]) (use u(5) assms(5,6) held_after(4) [of p2 y f] held_none(2) that in simp_all)
  ultimately show ?thesis using u(1) by (cases f') (simp_all add: rw_on_primary_def Let_def)
qed

lemma rw_reread_returns:
  assumes "rw_ok S"
  shows "\<exists>r S'. rw_reread i S = Some (r, S') \<and> rw_keeps S S' \<and> h_quiet (rw_pool S) (rw_pool S') \<and> rw_primary S' = rw_primary S \<and>
    rw_replica S' = rw_replica S \<and> (\<forall>m. r = Inr m \<longrightarrow> c2s_msg m)"
proof -
  have c: "client_ok Transaction_config (rw_client S)" "conn_inv ClientSide (rw_client S)" using assms by (simp_all add: rw_ok_def client_ok_def)
  note q = h_SetState_quiet [of "rw_pool S" i ConnStateAwaitingServer uuid_nil False]
  show ?thesis
  proof (rule read_keeps [OF c(2), of True])
    fix m c1 assume p: "conn_ReadPacket True (rw_client S) = Some (Inr m, c1)" "keeps ClientSide (rw_client S) c1" "reads_ok ClientSide m"
    from p q assms client_on_keeps [OF c(1) p(2)] h_quiet_scripts [OF q] show ?thesis
      by (simp add: rw_reread_def rw_keeps_def rw_ok_def client_onD) (simp add: h_quiet_def)
  next
    fix e c1 assume p: "conn_ReadPacket True (rw_client S) = Some (Inl e, c1)" "keeps ClientSide (rw_client S) c1"
    from p assms client_on_keeps [OF c(1) p(2)] show ?thesis
      by (simp add: rw_reread_def rw_keeps_def rw_ok_def client_onD)
  qed
qed

lemma rw_keeps_pool:
  "rw_ok S \<Longrightarrow> h_scripts w \<Longrightarrow> bp_clients w = bp_clients (rw_pool S) \<Longrightarrow> rw_keeps S (S\<lparr>rw_pool := w\<rparr>)"
  by (simp add: rw_keeps_def rw_ok_def client_on_def)

lemma rw_keepsD: "rw_keeps S S' \<Longrightarrow> rw_ok S'" "rw_keeps S S' \<Longrightarrow> bp_clients (rw_pool S') = bp_clients (rw_pool S)"
  "rw_keeps S S' \<Longrightarrow> h_scripts (rw_pool S')" "rw_keeps S S' \<Longrightarrow> client_ok Transaction_config (rw_client S')"
  by (simp_all add: rw_keeps_def rw_ok_def)

text \<open>No server is held: the packet is read again, and the primary is next.\<close>

lemma rw_fallback_acquires:
  assumes "rw_ok S" "rw_primary S = None" "rw_replica S = None" "h_phase base st0 i (rw_pool S) st" "st True = NoServer" "st False = NoServer" "c2s_msg m"
  shows "\<exists>r S'. (case h_Acquire False (rw_pool S) of
            (None, w) \<Rightarrow> Some (Return ErrFailedToAcquirePeer None, S\<lparr>rw_pool := w\<rparr>)
          | (Some p, w) \<Rightarrow> do {
              (serverErr, p, w) \<leftarrow> PairPrimary T i (rw_psi S) (rw_eqpi S) p w;
              rw_on_primary m (None, serverErr) p (S\<lparr>rw_pool := w\<rparr>)
            }) = Some (r, S') \<and> rw_part base st0 i S r S'"
proof -
  obtain x w where x: "h_Acquire False (rw_pool S) = (x, w)" by fastforce
  have sc: "h_scripts (rw_pool S)" using assms(1) by (simp add: rw_ok_def)
  have "held_in (st (\<not> False)) = []" using assms(5) by simp
  note a = h_Acquire_ok [OF assms(4,6) this sc x]
  note k = rw_keeps_pool [OF assms(1) a(2,3)]
  show ?thesis
  proof (cases x)
    case None
    have "rw_part base st0 i S (Return ErrFailedToAcquirePeer None) (S\<lparr>rw_pool := w\<rparr>)"
      by (rule rw_partI [OF k, where st = "st(False := Done)"]) (use a(1) None assms(2,3,5) held_none in simp_all)
    with x None show ?thesis by simp
  next
    case (Some p)
    let ?st = "st(False := Fresh (hs_ID p) (hs_Conn p))"
    have ph: "h_phase base st0 i w ?st" using a(1) Some by simp
    from PairPrimary_returns [OF a(4) [OF Some] ph, of T "rw_psi S" "rw_eqpi S"] obtain e p' w' where
      p: "PairPrimary T i (rw_psi S) (rw_eqpi S) p w = Some (e, p', w')" "server_ok Transaction_config (hs_Conn p')" "h_scripts w' = h_scripts w"
        "bp_clients w' = bp_clients w" "h_phase base st0 i w' (?st(False := after_pair (hs_ID p') (hs_Conn p') None e (Ready (hs_ID p') (hs_Conn p'))))"
      by auto
    have k': "rw_keeps S (S\<lparr>rw_pool := w'\<rparr>)" by (rule rw_keeps_pool [OF assms(1)]) (use p(3,4) a(2,3) in simp_all)
    have "h_phase base st0 i (rw_pool (S\<lparr>rw_pool := w'\<rparr>)) (st(False := after_pair (hs_ID p') (hs_Conn p') None e (Ready (hs_ID p') (hs_Conn p'))))"
      using p(5) by simp
    from rw_on_primary_returns [OF rw_keepsD(1) [OF k'] p(2) assms(7) this] assms(3,5) rw_part_trans [OF k'] x Some p(1) show ?thesis by auto
  qed
qed

lemma rw_fallback_returns:
  assumes "rw_ok S" "rw_primary S = None" "h_phase base st0 i (rw_pool S) st" "held_good (Some s) (st True)" "st False = NoServer"
  shows "\<exists>r S'. rw_fallback T i s S = Some (r, S') \<and> rw_part base st0 i S r S'"
proof -
  let ?S = "S\<lparr>rw_client := on_hybrid hybrid_Primary (rw_client S), rw_replica := None, rw_pool := h_Release True s (rw_pool S)\<rparr>"
  have c: "client_ok Transaction_config (rw_client S)" using assms(1) by (simp add: rw_ok_def)
  note r = h_release_held_ok [OF assms(3,4)]
  have k: "rw_keeps S ?S"
    using assms(1) on_Primary_ok [OF c] r(2,3) by (simp add: rw_keeps_def rw_ok_def client_onD h_release_held_def)
  have ph: "h_phase base st0 i (rw_pool ?S) (st(True := NoServer))" using r(1) by (simp add: h_release_held_def)
  from rw_reread_returns [OF rw_keepsD(1) [OF k], of i] obtain x S1 where
    x: "rw_reread i ?S = Some (x, S1)" "rw_keeps ?S S1" "h_quiet (rw_pool ?S) (rw_pool S1)" "rw_primary S1 = rw_primary ?S"
      "rw_replica S1 = rw_replica ?S" "\<forall>m. x = Inr m \<longrightarrow> c2s_msg m" by (elim exE conjE) rule
  note k1 = rw_keeps_trans [OF k x(2)]
  have ph1: "h_phase base st0 i (rw_pool S1) (st(True := NoServer))" using ph h_quiet_phase [OF x(3)] by simp
  have n: "rw_primary S1 = None" "rw_replica S1 = None" using x(4,5) assms(2) by simp_all
  show ?thesis
  proof (cases x)
    case (Inl e)
    have "rw_part base st0 i S (Return (PlainError e) None) S1"
      by (rule rw_partI [OF k1 ph1]) (use n assms(5) held_none(2) in simp)
    with Inl x(1) show ?thesis by (simp add: rw_fallback_def Let_def)
  next
    case (Inr m)
    with x(6) have "c2s_msg m" by simp
    with rw_fallback_acquires [OF rw_keepsD(1) [OF k1] n ph1, of m T] assms(5) obtain r S' where
      "(case h_Acquire False (rw_pool S1) of
            (None, w) \<Rightarrow> Some (Return ErrFailedToAcquirePeer None, S1\<lparr>rw_pool := w\<rparr>)
          | (Some p, w) \<Rightarrow> do {
              (serverErr, p, w) \<leftarrow> PairPrimary T i (rw_psi S1) (rw_eqpi S1) p w;
              rw_on_primary m (None, serverErr) p (S1\<lparr>rw_pool := w\<rparr>)
            }) = Some (r, S')" "rw_part base st0 i S1 r S'" by auto
    with rw_part_trans [OF k1] Inr x(1) show ?thesis by (auto simp: rw_fallback_def Let_def)
  qed
qed

lemma rw_straight_returns:
  assumes "rw_ok S" "rw_primary S = None" "rw_replica S = None" "h_phase base st0 i (rw_pool S) st" "st True = NoServer" "st False = NoServer"
  shows "\<exists>r S'. rw_straight T i S = Some (r, S') \<and> rw_part base st0 i S r S'"
proof -
  let ?S = "S\<lparr>rw_client := on_hybrid hybrid_Primary (rw_client S)\<rparr>"
  have c: "client_ok Transaction_config (rw_client S)" using assms(1) by (simp add: rw_ok_def)
  have k: "rw_keeps S ?S" using assms(1) on_Primary_ok [OF c] by (simp add: rw_keeps_def rw_ok_def client_onD)
  from rw_reread_returns [OF rw_keepsD(1) [OF k], of i] obtain x S1 where
    x: "rw_reread i ?S = Some (x, S1)" "rw_keeps ?S S1" "h_quiet (rw_pool ?S) (rw_pool S1)" "rw_primary S1 = rw_primary ?S"
      "rw_replica S1 = rw_replica ?S" "\<forall>m. x = Inr m \<longrightarrow> c2s_msg m" by (elim exE conjE) rule
  note k1 = rw_keeps_trans [OF k x(2)]
  have ph1: "h_phase base st0 i (rw_pool S1) st" using assms(4) h_quiet_phase [OF x(3)] by simp
  have n: "rw_primary S1 = None" "rw_replica S1 = None" using x(4,5) assms(2,3) by simp_all
  show ?thesis
  proof (cases x)
    case (Inl e)
    have "rw_part base st0 i S (Return (PlainError e) None) S1"
      by (rule rw_partI [OF k1 ph1]) (use n assms(5,6) held_none(2) in simp)
    with Inl x(1) show ?thesis by (simp add: rw_straight_def Let_def)
  next
    case (Inr m)
    then have m: "c2s_msg m" using x(6) by simp
    have "held_in (st (\<not> False)) = []" using assms(5) by simp
    from h_acquire_pair_returns [OF rw_keepsD(4,3) [OF k1] ph1 assms(6) this, of T] obtain e e' c1 s1 w1 where
      a: "h_acquire_pair T False i (rw_client S1) (rw_pool S1) = Some ((e, e'), c1, s1, w1)" "keeps ClientSide (rw_client S1) c1" "h_scripts w1"
        "bp_clients w1 = bp_clients (rw_pool S1)"
      and ph: "case s1 of None \<Rightarrow> h_phase base st0 i w1 (st(False := Done))
        | Some s \<Rightarrow> server_ok Transaction_config (hs_Conn s) \<and>
           h_phase base st0 i w1 (st(False := after_pair (hs_ID s) (hs_Conn s) e e' (Ready (hs_ID s) (hs_Conn s))))" by (elim exE conjE) rule
    let ?S2 = "S1\<lparr>rw_client := c1, rw_pool := w1\<rparr>"
    have "rw_keeps S1 ?S2" using rw_keepsD(1) [OF k1] client_on_keeps [OF rw_keepsD(4) [OF k1] a(2)] a(3,4)
      by (simp add: rw_keeps_def rw_ok_def client_onD)
    note k2 = rw_keeps_trans [OF k1 this]
    show ?thesis
    proof (cases s1)
      case None
      have "rw_part base st0 i S (Return ErrFailedToAcquirePeer None) ?S2"
        by (rule rw_partI [OF k2, where st = "st(False := Done)"]) (use ph None n assms(5) held_none in simp_all)
      with Inr x(1) None a(1) show ?thesis by (simp add: rw_straight_def Let_def)
    next
      case (Some s)
      with ph rw_on_primary_returns [OF rw_keepsD(1) [OF k2] _ m, where p = s and e = e and e' = e' and st = st and base = base and ?st0.0 = st0 and i = i] n(2) assms(5) obtain r S' where
        "rw_on_primary m (e, e') s ?S2 = Some (r, S')" "rw_part base st0 i ?S2 r S'" by auto
      with Inr x(1) Some a(1) rw_part_trans [OF k2] show ?thesis by (auto simp: rw_straight_def Let_def)
    qed
  qed
qed

lemma rw_swap: "S\<lparr>rw_replica := a, rw_pool := w\<rparr> = S\<lparr>rw_pool := w, rw_replica := a\<rparr>"
  by (cases S) simp

lemma rw_try_replica_returns:
  assumes "rw_ok S" "rw_primary S = None" "rw_replica S = None" "h_phase base st0 i (rw_pool S) st" "st True = NoServer" "st False = NoServer" "c2s_msg m"
  shows "\<exists>r S'. rw_try_replica T i m S = Some (r, S') \<and> rw_part base st0 i S r S'"
proof -
  have c: "client_ok Transaction_config (rw_client S)" "h_scripts (rw_pool S)" "eqp_inv (rw_eqpi S)" using assms(1) by (simp_all add: rw_ok_def)
  have "held_in (st (\<not> True)) = []" using assms(6) by simp
  from h_acquire_pair_returns [OF c(1,2) assms(4,5) this, of T] obtain e e' c1 s1 w1 where
    a: "h_acquire_pair T True i (rw_client S) (rw_pool S) = Some ((e, e'), c1, s1, w1)" "keeps ClientSide (rw_client S) c1" "h_scripts w1"
      "bp_clients w1 = bp_clients (rw_pool S)"
    and ph: "case s1 of None \<Rightarrow> h_phase base st0 i w1 (st(True := Done))
      | Some s \<Rightarrow> server_ok Transaction_config (hs_Conn s) \<and>
         h_phase base st0 i w1 (st(True := after_pair (hs_ID s) (hs_Conn s) e e' (Ready (hs_ID s) (hs_Conn s))))" by (elim exE conjE) rule
  note c1 = client_ok_keeps [OF c(1) a(2)]
  show ?thesis
  proof (cases s1)
    case None
    let ?S1 = "S\<lparr>rw_client := c1, rw_pool := w1\<rparr>"
    have k: "rw_keeps S ?S1" using c c1 client_on_keeps [OF c(1) a(2)] a(3,4) by (simp add: rw_keeps_def rw_ok_def)
    have "rw_part base st0 i S (Return ErrFailedToAcquirePeer None) ?S1"
      by (rule rw_partI [OF k, where st = "st(True := Done)"]) (use ph None assms(2,3,6) held_none in simp_all)
    with None a(1) show ?thesis by (simp add: rw_try_replica_def)
  next
    case (Some s)
    with ph have s: "server_ok Transaction_config (hs_Conn s)"
      "h_phase base st0 i w1 (st(True := after_pair (hs_ID s) (hs_Conn s) e e' (Ready (hs_ID s) (hs_Conn s))))" by simp_all
    from lookup_eqp_client_ok [OF c1] obtain psa eqpa where
      l: "lookup_ps_client (cn_Middleware c1) = Some psa" "lookup_eqp_client (cn_Middleware c1) = Some eqpa" "eqp_inv eqpa" by (elim exE conjE) rule
    from eqp_Set_ok [OF l(3) c(3)] obtain eqpi where q: "eqp_Set eqpa (rw_eqpi S) = Some eqpi" "eqp_inv eqpi" by (elim exE conjE) rule
    from h_use_returns [OF c1 s(1) assms(7) s(2)] obtain f f' c2 s2 w2 where
      u: "(if e = None \<and> e' = None then h_bounce True c1 s m w1 else Some ((e, e'), c1, s, w1)) = Some ((f, f'), c2, s2, w2)"
        "keeps ClientSide c1 c2" "h_scripts w2 = h_scripts w1" "bp_clients w2 = bp_clients w1"
        "h_phase base st0 i w2 (st(True := after_pair (hs_ID s2) (hs_Conn s2) f f' (Spent (hs_ID s2) (hs_Conn s2))))" by (elim exE conjE) rule
    let ?S = "\<lambda>x. S\<lparr>rw_psi := ps_Client_Set psa (rw_psi S), rw_eqpi := eqpi, rw_client := c2, rw_replica := Some x, rw_pool := w2\<rparr>"
    let ?st = "st(True := after_pair (hs_ID s2) (hs_Conn s2) f f' (Spent (hs_ID s2) (hs_Conn s2)))"
    have k: "rw_keeps S (?S x)" for x
      using c q(2) client_on_keeps [OF c(1) keeps_trans [OF a(2) u(2)]] a(3,4) u(3,4) by (simp add: rw_keeps_def rw_ok_def client_onD)
    show ?thesis
    proof (cases f')
      case None
      let ?s = "s2\<lparr>hs_state := TransactionComplete (hs_state s2)\<rparr>"
      have g: "held_good (Some ?s) (?st True)" using held_after(1) [of s2 f] None by simp
      have "rw_part base st0 i S (Continue f) (?S ?s)"
        by (rule rw_partI [OF k, where st = ?st]) (use u(5) g assms(2,6) held_none(1) in simp_all)
      moreover have "\<exists>r S'. rw_fallback T i ?s (?S ?s) = Some (r, S') \<and> rw_part base st0 i S r S'"
        using rw_fallback_returns [OF rw_keepsD(1) [OF k], of ?s base st0 i ?st ?s T] rw_part_trans [OF k, of base st0 i ?s] u(5) g assms(2,6) by auto
      ultimately show ?thesis using a(1) Some l(1,2) q(1) u(1) None by (simp add: rw_try_replica_def Let_def rw_swap)
    next
      fix y assume y: "f' = Some y"
      have "rw_part base st0 i S (Return (ServerError y) (Some y)) (?S s2)"
        by (rule rw_partI [OF k, where st = ?st]) (use u(5) assms(2,6) held_after(4) [of s2 y f] held_none(2) y in simp_all)
      with a(1) Some l(1,2) q(1) u(1) y show ?thesis by (simp add: rw_try_replica_def Let_def)
    qed
  qed
qed

lemma rw_packet_returns:
  assumes "rw_ok S" "rw_primary S = None" "rw_replica S = None" "h_phase base st0 i (rw_pool S) st" "st True = NoServer" "st False = NoServer" "c2s_msg m"
  shows "\<exists>r S'. rw_packet T i m S = Some (r, S') \<and> rw_part base st0 i S r S'"
proof -
  let ?w = "h_SetState i ConnStateAwaitingServer uuid_nil False (rw_pool S)"
  obtain b w where b: "replica_Empty ?w = (b, w)" by fastforce
  have q: "h_quiet (rw_pool S) w" using h_quiet_trans [OF h_SetState_quiet replica_Empty_quiet [OF b]] .
  have k: "rw_keeps S (S\<lparr>rw_pool := w\<rparr>)"
    by (rule rw_keeps_pool [OF assms(1)]) (use q assms(1) h_quiet_scripts [OF q] in \<open>simp_all add: rw_ok_def h_quiet_def\<close>)
  have ph: "h_phase base st0 i (rw_pool (S\<lparr>rw_pool := w\<rparr>)) st" using assms(4) h_quiet_phase [OF q] by simp
  have n: "rw_primary (S\<lparr>rw_pool := w\<rparr>) = None" "rw_replica (S\<lparr>rw_pool := w\<rparr>) = None" using assms(2,3) by simp_all
  show ?thesis
    using rw_try_replica_returns [OF rw_keepsD(1) [OF k] n ph assms(5-7), of T] rw_straight_returns [OF rw_keepsD(1) [OF k] n ph assms(5,6), of T]
      rw_part_trans [OF k] b by (cases b) (auto simp: rw_packet_def Let_def)
qed

section \<open>Replica first: the session\<close>

lemma rw_head_ok:
  assumes "rw_ok S" "h_phase base st0 i (rw_pool S) st" "held_good (rw_primary S) (st False)" "held_good (rw_replica S) (st True)"
  shows "rw_keeps S (rw_head i S)" "h_phase base st0 i (rw_pool (rw_head i S)) (\<lambda>_. NoServer)"
    "rw_primary (rw_head i S) = None" "rw_replica (rw_head i S) = None" "rw_client (rw_head i S) = rw_client S"
proof -
  note r = h_release_held_ok [OF assms(2,3)]
  have "held_good (rw_replica S) ((st(False := NoServer)) True)" using assms(4) by simp
  note r' = h_release_held_ok [OF r(1) this]
  let ?w = "h_release_held True (rw_replica S) (h_release_held False (rw_primary S) (rw_pool S))"
  note q = h_SetState_quiet [of ?w i ConnStateIdle uuid_nil False]
  have st: "st(False := NoServer, True := NoServer) = (\<lambda>_. NoServer)" by (auto simp: fun_eq_iff)
  show "h_phase base st0 i (rw_pool (rw_head i S)) (\<lambda>_. NoServer)"
    using r'(1) [unfolded st] h_quiet_phase [OF q] by (simp add: rw_head_def Let_def)
  show "rw_keeps S (rw_head i S)" using r r' assms(1) h_quiet_scripts [OF q] q
    by (simp add: rw_keeps_def rw_ok_def rw_head_def Let_def client_on_def h_quiet_def)
qed (simp_all add: rw_head_def Let_def)

lemma rw_loop_returns:
  assumes "rw_ok S" "h_phase base st0 i (rw_pool S) st" "held_good (rw_primary S) (st False)" "held_good (rw_replica S) (st True)"
  shows "\<exists>err serverErr S'. rw_loop T i S = Some ((err, serverErr), S') \<and> cn_BackendKey (rw_client S') = cn_BackendKey (rw_client S) \<and>
    bp_clients (rw_pool S') = bp_clients (rw_pool S) \<and> (\<exists>st. h_phase base st0 i (rw_pool S') st \<and> rw_held (Return err serverErr) S' st)"
  using assms
proof (induction "length (cn_todo (rw_client S))" arbitrary: S st rule: less_induct)
  case less
  let ?S = "rw_head i S"
  note h = rw_head_ok [OF less.prems]
  have inv: "conn_inv ClientSide (rw_client S)" "client_ok Transaction_config (rw_client S)" using less.prems(1) by (simp_all add: rw_ok_def client_ok_def)
  show ?case
  proof (rule read_keeps [OF inv(1), of True])
    fix e c1 assume p: "conn_ReadPacket True (rw_client S) = Some (Inl e, c1)" "keeps ClientSide (rw_client S) c1"
    have "rw_held (Return (PlainError e) None) (?S\<lparr>rw_client := c1\<rparr>) (\<lambda>_. NoServer)" using h(3,4) held_none by simp
    with p h(2) rw_keepsD(2) [OF h(1)] h(5) conn_rest_fields(1) [OF keepsD(4) [OF p(2)]] show ?thesis
      by (subst rw_loop.simps) (auto simp: Let_def)
  next
    fix m c1 assume p: "conn_ReadPacket True (rw_client S) = Some (Inr m, c1)" "keeps ClientSide (rw_client S) c1" "reads_ok ClientSide m"
      "cn_todo (rw_client S) = Inr m # cn_todo c1"
    let ?S1 = "?S\<lparr>rw_client := c1\<rparr>"
    have m: "c2s_msg m" using p(3) by simp
    have "rw_keeps ?S ?S1" using rw_keepsD(1) [OF h(1)] client_on_keeps [OF inv(2) p(2)] h(5) by (simp add: rw_keeps_def rw_ok_def client_onD)
    note k1 = rw_keeps_trans [OF h(1) this]
    have "h_phase base st0 i (rw_pool ?S1) (\<lambda>_. NoServer)" "rw_primary ?S1 = None" "rw_replica ?S1 = None" using h(2-4) by simp_all
    from rw_packet_returns [OF rw_keepsD(1) [OF k1] this(2,3,1) refl refl m, of T] obtain r S2 where
      r: "rw_packet T i m ?S1 = Some (r, S2)" "rw_part base st0 i ?S1 r S2" by (elim exE conjE) rule
    from r(2) obtain st2 where s2: "rw_keeps ?S1 S2" "h_phase base st0 i (rw_pool S2) st2" "rw_held r S2 st2" unfolding rw_part_def by blast
    note k2 = rw_keeps_trans [OF k1 s2(1)]
    have key: "cn_BackendKey (rw_client S2) = cn_BackendKey (rw_client S)" using k2 by (simp add: rw_keeps_def client_on_def)
    let ?w = "client_TransactionComplete i (rw_pool S2)"
    note q = h_TransactionComplete_quiet [of "rw_pool S2" i]
    have ph: "h_phase base st0 i ?w st2" "h_scripts ?w" "bp_clients ?w = bp_clients (rw_pool S2)"
      using s2(2) h_quiet_phase [OF q] h_quiet_scripts [OF q] rw_keepsD(3) [OF k2] q by (simp_all add: h_quiet_def)
    show ?thesis
    proof (cases r)
      case (Return err serverErr)
      with p(1) h(5) r(1) s2(2,3) key rw_keepsD(2) [OF k2] show ?thesis by (subst rw_loop.simps) (auto simp: Let_def)
    next
      case (Continue err)
      show ?thesis
      proof (cases err)
        case None
        let ?S3 = "S2\<lparr>rw_pool := ?w, rw_client := on_hybrid hybrid_Reset (rw_client S2)\<rparr>"
        note o = on_Reset_ok [OF rw_keepsD(4) [OF k2]]
        have "length (cn_inbox (rw_client S2)) \<le> length (cn_inbox c1)" using s2(1) by (simp add: rw_keeps_def client_on_def)
        then have l: "length (cn_todo (rw_client ?S3)) < length (cn_todo (rw_client S))" using p(4) o(2) by (simp add: cn_todo_def)
        have ok: "rw_ok ?S3" "h_phase base st0 i (rw_pool ?S3) st2" "held_good (rw_primary ?S3) (st2 False)" "held_good (rw_replica ?S3) (st2 True)"
          using rw_keepsD(1) [OF k2] client_onD [OF o(1)] ph s2(3) Continue by (simp_all add: rw_ok_def)
        from less.hyps [OF l ok] obtain err' serverErr' S4 where
          "rw_loop T i ?S3 = Some ((err', serverErr'), S4)" "cn_BackendKey (rw_client S4) = cn_BackendKey (rw_client ?S3)"
          "bp_clients (rw_pool S4) = bp_clients (rw_pool ?S3)" "\<exists>st. h_phase base st0 i (rw_pool S4) st \<and> rw_held (Return err' serverErr') S4 st"
          by (elim exE conjE) auto
        with p(1) h(5) r(1) Continue None key o(1) ph(3) rw_keepsD(2) [OF k2] show ?thesis
          by (subst rw_loop.simps) (simp add: Let_def client_on_def)
      next
        case (Some e)
        have "rw_held (Return (PlainError e) None) (S2\<lparr>rw_pool := ?w\<rparr>) st2" using s2(3) Continue held_good_last by simp
        with p(1) h(5) r(1) Continue Some key ph rw_keepsD(2) [OF k2] show ?thesis
          by (subst rw_loop.simps) (auto simp: Let_def)
      qed
    qed
  qed
qed

lemma rw_start_returns:
  assumes "rw_ok S" "rw_primary S = None" "rw_replica S = None" "h_phase base st0 i (rw_pool S) (\<lambda>_. NoServer)"
  shows "\<exists>err serverErr S'. rw_start T i S = Some ((err, serverErr), S') \<and> rw_ok S' \<and>
    cn_BackendKey (rw_client S') = cn_BackendKey (rw_client S) \<and> bp_clients (rw_pool S') = bp_clients (rw_pool S) \<and>
    (\<exists>st. h_phase base st0 i (rw_pool S') st \<and> rw_held (case err of None \<Rightarrow> Continue None | Some e \<Rightarrow> Return e serverErr) S' st)"
proof (cases "cn_Ready (rw_client S)")
  case True
  with assms held_none(1) show ?thesis by (auto simp: rw_start_def)
next
  case False
  let ?w = "h_SetState i ConnStateAwaitingServer uuid_nil False (rw_pool S)"
  obtain b w where b: "replica_Empty ?w = (b, w)" by fastforce
  have q: "h_quiet (rw_pool S) w" using h_quiet_trans [OF h_SetState_quiet replica_Empty_quiet [OF b]] .
  have o: "client_ok Transaction_config (rw_client S)" "h_scripts w" "h_phase base st0 i w (\<lambda>_. NoServer)" "bp_clients w = bp_clients (rw_pool S)"
    using assms(1,4) h_quiet_scripts [OF q] h_quiet_phase [OF q] q by (simp_all add: rw_ok_def h_quiet_def)
  from h_start_returns [OF o(1-3), where b = "\<not> b" and T = T] obtain err serverErr c1 s1 w1 where
    s: "h_start T (\<not> b) i (rw_client S) w = Some ((err, serverErr), c1, s1, w1)" "client_ok Transaction_config c1"
      "cn_BackendKey c1 = cn_BackendKey (rw_client S)" "h_part base st0 i (\<lambda>_. NoServer) (\<not> b) s1 err serverErr w w1" by auto
  let ?S = "if b then S\<lparr>rw_client := c1, rw_primary := s1, rw_pool := w1\<rparr> else S\<lparr>rw_client := c1, rw_replica := s1, rw_pool := w1\<rparr>"
  from s(4) obtain ph where ph: "h_scripts w1" "bp_clients w1 = bp_clients w" "h_phase base st0 i w1 ((\<lambda>_. NoServer)((\<not> b) := ph))"
    "if err = None then held_good s1 ph else held_last s1 serverErr ph" unfolding h_part_def by blast
  have "rw_held (case err of None \<Rightarrow> Continue None | Some e \<Rightarrow> Return e serverErr) ?S ((\<lambda>_. NoServer)((\<not> b) := ph))"
    using ph(4) assms(2,3) held_none(1,2) by (cases b; cases err) simp_all
  moreover have "rw_ok ?S" "bp_clients (rw_pool ?S) = bp_clients (rw_pool S)" "rw_pool ?S = w1" "rw_client ?S = c1"
    using assms(1) s(2) ph(1,2) o(4) by (simp_all add: rw_ok_def)
  moreover have "rw_start T i S = Some ((err, serverErr), ?S)" using False b s(1) by (simp add: rw_start_def)
  ultimately show ?thesis using s(3) ph(3) by metis
qed

lemma rw_close_ok:
  assumes "h_phase base st0 i (rw_pool S) st" "rw_held (Return err serverErr) S st"
  shows "h_phase base st0 i (rw_close i serverErr S) (\<lambda>_. Gone)"
    "bp_clients (rw_close i serverErr S) = AList.delete (cn_BackendKey (rw_client S)) (bp_clients (rw_pool S))"
proof -
  let ?w1 = "h_give_back False (rw_primary S) serverErr (rw_pool S)"
  let ?w2 = "h_give_back True (rw_replica S) serverErr ?w1"
  have l: "held_last (rw_primary S) serverErr (st False)" "held_last (rw_replica S) serverErr (st True)" using assms(2) by simp_all
  note g = h_give_back_ok [OF assms(1) l(1)]
  from g(1) obtain p where p: "h_phase base st0 i ?w1 (st(False := p))" "p = NoServer \<or> p = Done" by blast
  have "held_last (rw_replica S) serverErr ((st(False := p)) True)" using l(2) by simp
  note g' = h_give_back_ok [OF p(1) this]
  from g'(1) obtain q where q: "h_phase base st0 i ?w2 (st(False := p, True := q))" "q = NoServer \<or> q = Done" by blast
  have "h_phase base st0 i (h_called True (CRemoveClient i) ?w2) (st(False := p, True := q, True := Gone))"
    by (rule h_leave_ok [OF q(1)]) (use q(2) in simp)
  then have "h_phase base st0 i (h_called False (CRemoveClient i) (h_called True (CRemoveClient i) ?w2)) (st(False := p, True := q, True := Gone, False := Gone))"
    by (rule h_leave_ok) (use p(2) in simp)
  moreover have "st(False := p, True := q, True := Gone, False := Gone) = (\<lambda>_. Gone)" by (auto simp: fun_eq_iff)
  ultimately show "h_phase base st0 i (rw_close i serverErr S) (\<lambda>_. Gone)" by (simp add: rw_close_def Let_def h_phase_def h_removeClient_ok)
  show "bp_clients (rw_close i serverErr S) = AList.delete (cn_BackendKey (rw_client S)) (bp_clients (rw_pool S))"
    using g(2) g'(2) by (simp add: rw_close_def Let_def h_removeClient_ok)
qed

lemma rw_connected_returns:
  assumes "rw_ok S" "rw_primary S = None" "rw_replica S = None" "h_phase base st0 i (rw_pool S) (\<lambda>_. NoServer)"
  shows "\<exists>err serverErr S'. rw_connected T i S = Some ((err, serverErr), S') \<and> cn_BackendKey (rw_client S') = cn_BackendKey (rw_client S) \<and>
    bp_clients (rw_pool S') = bp_clients (rw_pool S) \<and> (\<exists>st. h_phase base st0 i (rw_pool S') st \<and> rw_held (Return err serverErr) S' st)"
proof -
  from rw_start_returns [OF assms, of T] obtain err serverErr S1 st where
    s: "rw_start T i S = Some ((err, serverErr), S1)" "rw_ok S1" "cn_BackendKey (rw_client S1) = cn_BackendKey (rw_client S)"
      "bp_clients (rw_pool S1) = bp_clients (rw_pool S)" "h_phase base st0 i (rw_pool S1) st"
      "rw_held (case err of None \<Rightarrow> Continue None | Some e \<Rightarrow> Return e serverErr) S1 st" by (elim exE conjE) rule
  show ?thesis
  proof (cases err)
    case None
    with s rw_loop_returns [OF s(2,5), of T] show ?thesis by (auto simp: rw_connected_def)
  next
    case (Some e)
    with s show ?thesis by (auto simp: rw_connected_def)
  qed
qed

lemma serveRW_returns:
  assumes "conn_inv ClientSide conn" "h_scripts w"
  shows "\<exists>err client' w'. serveRW T i conn w = Some (err, client', w') \<and> h_phase (hp_calls w) (\<lambda>_. Absent) i w' (\<lambda>_. Gone) \<and>
    bp_clients w' = AList.delete (cn_BackendKey conn) (AList.update (cn_BackendKey conn) i (bp_clients w))"
proof -
  let ?S = "rw_open i conn w" and ?w0 = "addClient (cn_BackendKey conn) i (h_NewClient i w)"
  note o = h_addClient_ok [of "cn_BackendKey conn" i w]
  have "h_phase (hp_calls w) (\<lambda>_. Absent) i ?w0 (\<lambda>_. Absent)" using o(1) by (simp add: h_phase_def)
  then have "h_phase (hp_calls w) (\<lambda>_. Absent) i (h_called False (CAddClient i) ?w0) ((\<lambda>_. Absent)(False := NoServer))"
    by (rule h_phase_called) (simp_all add: one_step_def proto_step_def)
  then have "h_phase (hp_calls w) (\<lambda>_. Absent) i (h_called True (CAddClient i) (h_called False (CAddClient i) ?w0))
      ((\<lambda>_. Absent)(False := NoServer, True := NoServer))"
    by (rule h_phase_called) (simp_all add: one_step_def proto_step_def)
  moreover have "(\<lambda>_. Absent)(False := NoServer, True := NoServer) = (\<lambda>_. NoServer)" by (auto simp: fun_eq_iff)
  ultimately have ph: "h_phase (hp_calls w) (\<lambda>_. Absent) i (rw_pool ?S) (\<lambda>_. NoServer)" by (simp add: rw_open_def Let_def)
  have "rw_ok ?S" "rw_primary ?S = None" "rw_replica ?S = None" and k: "cn_BackendKey (rw_client ?S) = cn_BackendKey conn"
    "bp_clients (rw_pool ?S) = AList.update (cn_BackendKey conn) i (bp_clients w)"
    using assms o by (auto simp: rw_ok_def rw_open_def Let_def client_ok_def conn_inv_def eqp_inv_new h_scripts_def hybrid_NewMiddleware_def)
  from rw_connected_returns [OF this(1-3) ph, of T] obtain err serverErr S' st where
    r: "rw_connected T i ?S = Some ((err, serverErr), S')" "cn_BackendKey (rw_client S') = cn_BackendKey (rw_client ?S)"
      "bp_clients (rw_pool S') = bp_clients (rw_pool ?S)" "h_phase (hp_calls w) (\<lambda>_. Absent) i (rw_pool S') st" "rw_held (Return err serverErr) S' st"
    by (elim exE conjE) rule
  from rw_close_ok [OF r(4,5)] r(1-3) k show ?thesis by (simp add: serveRW_def)
qed

section \<open>The record\<close>

text \<open>What the client sends while a replica serves it, and what is read again afterwards.\<close>

primrec hybrid_record :: "msg list \<Rightarrow> hybrid_mw \<Rightarrow> hybrid_mw" where
  "hybrid_record [] T = T"
| "hybrid_record (m # ms) T = hybrid_record ms (snd (hybrid_ReadPacket m T))"

primrec hybrid_reread :: "nat \<Rightarrow> hybrid_mw \<Rightarrow> msg option list \<times> hybrid_mw" where
  "hybrid_reread 0 T = ([], T)"
| "hybrid_reread (Suc n) T = (case hybrid_PreRead T of (r, T) \<Rightarrow> case hybrid_reread n T of (rs, T) \<Rightarrow> (r # rs, T))"

lemma hybrid_record_buf:
  "\<not> hm_primary T \<Longrightarrow> hm_pos T = length (hm_buf T) \<Longrightarrow> hybrid_record ms T = T\<lparr>hm_buf := hm_buf T @ ms, hm_pos := hm_pos T + length ms\<rparr>"
  by (induction ms arbitrary: T) (simp_all add: hybrid_ReadPacket_def Let_def)

lemma hybrid_reread_buf:
  "hm_primary T \<Longrightarrow> hm_pos T + n \<le> length (hm_buf T) \<Longrightarrow>
   hybrid_reread n T = (map Some (take n (drop (hm_pos T) (hm_buf T))), T\<lparr>hm_pos := hm_pos T + n\<rparr>)"
proof (induction n arbitrary: T)
  case (Suc n)
  let ?T = "T\<lparr>hm_pos := hm_pos T + 1\<rparr>"
  have l: "hm_pos T < length (hm_buf T)" using Suc.prems(2) by simp
  then have "drop (hm_pos T) (hm_buf T) = hm_buf T ! hm_pos T # drop (hm_pos ?T) (hm_buf ?T)" by (simp add: Cons_nth_drop_Suc)
  then show ?case using Suc.IH [of ?T] Suc.prems l by (simp add: hybrid_PreRead_def hybrid_Buffered_def)
qed simp

section \<open>Cancel\<close>

lemma h_SetState_peer:
  "cs_peer (bp_state (h_SetState i st peer b w) i) = peer" "hp_isReplica (h_SetState i st peer b w) i = b"
  by (simp_all add: h_SetState_def client_SetState_def SetState_def Let_def split: prod.split)

lemma h_server_SetState_peer:
  fixes w w' :: hybrid_pool
  shows "server_SetState st peer s w = (s', w') \<Longrightarrow> bp_state w' = bp_state w \<and> hp_isReplica w' = hp_isReplica w"
  by (auto simp: server_SetState_def time_Now_def split: prod.splits list.splits)

lemma hybrid_Cancel_peer:
  assumes "map_of (bp_clients w) key = Some i" "cs_peer (bp_state w i) = peer" "hp_isReplica w i = b" "peer \<noteq> uuid_nil"
  shows "hybrid_Cancel key w = Some (b, peer)"
  using assms by (simp add: hybrid_Cancel_def GetState_def)

lemma h_pair_peer:
  assumes "h_pair T i client s w = Some ((None, None), client', s', w')"
  shows "cs_peer (bp_state w' i) = hs_ID s \<and> hp_isReplica w' i \<and> bp_clients w' = bp_clients w"
proof -
  obtain s1 w1 where b1: "server_SetState ConnStatePairing i s (h_SetState i ConnStatePairing (hs_ID s) True w) = (s1, w1)" by fastforce
  from assms b1 obtain sc where b2: "server_SetState ConnStateActive i (s1\<lparr>hs_Conn := sc\<rparr>) (h_SetState i ConnStateActive (hs_ID s1) True w1) = (s', w')"
    by (auto simp: h_pair_def Let_def split: bind_splits if_splits prod.splits)
  have "bp_clients w1 = bp_clients w" "bp_clients w' = bp_clients w1" "hs_ID s1 = hs_ID s"
    using h_server_SetState_quiet [OF b1] h_server_SetState_quiet [OF b2] h_SetState_quiet [of w i ConnStatePairing "hs_ID s" True]
      h_SetState_quiet [of w1 i ConnStateActive "hs_ID s1" True] by (simp_all add: h_quiet_def)
  with h_server_SetState_peer [OF b2] show ?thesis by (simp add: h_SetState_peer)
qed

lemma PairPrimary_peer:
  assumes "PairPrimary T i psc eqpc s w = Some (None, s', w')"
  shows "cs_peer (bp_state w' i) = hs_ID s \<and> \<not> hp_isReplica w' i \<and> bp_clients w' = bp_clients w"
proof -
  obtain s1 w1 where b1: "server_SetState ConnStatePairing i s w = (s1, w1)" by fastforce
  from assms b1 obtain sc c where
    b2: "server_SetState ConnStateActive i (s1\<lparr>hs_Conn := sc\<rparr>) (h_SetState i ConnStateActive (hs_ID s1) False (h_called False c w1)) = (s', w')"
    by (auto simp: PairPrimary_def Let_def split: bind_splits option.splits prod.splits)
  have "bp_clients w1 = bp_clients w" "bp_clients w' = bp_clients w1" "hs_ID s1 = hs_ID s"
    using h_server_SetState_quiet [OF b1] h_server_SetState_quiet [OF b2]
      h_SetState_quiet [of "h_called False c w1" i ConnStateActive "hs_ID s1" False] by (simp_all add: h_quiet_def)
  with h_server_SetState_peer [OF b2] show ?thesis by (simp add: h_SetState_peer)
qed

section \<open>The servers fit\<close>

text \<open>Both server pools prepare their connections with the middlewares that \<^verbatim>\<open>Pair\<close> and \<^verbatim>\<open>PairPrimary\<close> look up.\<close>

lemma hybrid_NewPool_fits:
  assumes "conn_inv ServerSide conn" "hybrid_NewPool T poolr poolr' chef chef' = (p, r)" "pool \<in> {p, r}"
  shows "server_ok Transaction_config (conn\<lparr>cn_Middleware := cn_Middleware conn @ map (server_mw conn) (server_middlewares (sp_config pool))\<rparr>)"
  using assms
  by (auto simp: server_ok_def conn_inv_def server_mw_def server_middlewares_def hybrid_NewPool_def MakePool_def Hybrid_Config_Spool_def Let_def
      spool_config.defs eqp_inv_new)

section \<open>Results\<close>

text \<open>A session on a replica and a primary: the client sends a query and leaves.\<close>

definition sample_hybrid :: hybrid_pool where
  "sample_hybrid = \<lparr>bp_clients = [], bp_state = (\<lambda>_. new_conn_state 0 0), bp_now = 0, bp_clock = [], hp_isReplica = (\<lambda>_. False),
     hp_acquire = (\<lambda>b. replicate 2 (Some \<lparr>hs_ID = (if b then 3 else 4), hs_Conn = sample_server, hs_state = new_conn_state 0 0\<rparr>)),
     hp_empty = [False, False], hp_calls = []\<rparr>"

definition sample_hybrid_config :: Hybrid_Config where
  "sample_hybrid_config = \<lparr>hc_ClientAcquireTimeout = 0, hc_ServerResetQuery = [], hc_ServerResetQueryTimeout = 0,
     hc_ServerIdleTimeout = 0, hc_ServerReconnectInitialTime = 0, hc_ServerReconnectMaxTime = 0, hc_TrackedParameters = []\<rparr>"

lemma sample_hybrid_ok: "h_scripts sample_hybrid"
  using sample_serve_ok(2) by (auto simp: h_scripts_def sample_hybrid_def scripts_ok_def sample_pool_def)

text \<open>
  (C15) If every call of \<^verbatim>\<open>Acquire\<close> returns (with a server or with nil), if the client delivers a finite sequence of packets and errors, and if
  it sends no \<^verbatim>\<open>Bind\<close> with a parameter length below -1 (on which the extended query middleware panics), then
  \<^verbatim>\<open>Serve\<close> of the hybrid pool ends in every mode, and the run follows the protocol of both server pools: mode \<^verbatim>\<open>ro\<close> uses
  the replicas only, \<^verbatim>\<open>wo\<close> the primaries only, any other both; the client never holds two servers at a time, also while it
  falls back from a replica to a primary, gives back every server it acquired exactly once and in order, removes those
  that failed, and leaves both pools.
\<close>

theorem hybrid_serve_protocol:
  assumes "conn_inv ClientSide conn" "h_scripts w"
  shows "\<exists>err client' w' cs. hybrid_serve T i conn w = Some (err, client', w') \<and> hp_calls w' = hp_calls w @ cs \<and>
    hybrid_run i (\<lambda>_. Absent) cs = Some (\<lambda>b. if hybrid_mode conn = (if b then ''wo'' else ''ro'') then Absent else Gone) \<and>
    (\<forall>b. given_back (calls_of b cs) = acquired (calls_of b cs)) \<and>
    map_of (bp_clients w') = (map_of (bp_clients w))(cn_BackendKey conn := None)"
proof -
  let ?st = "\<lambda>b. if hybrid_mode conn = (if b then ''wo'' else ''ro'') then Absent else Gone"
  have "hybrid_mode conn \<in> {''ro'', ''wo'', ''rw''}" by (simp add: hybrid_mode_def Let_def)
  then consider "hybrid_mode conn = ''ro''" | "hybrid_mode conn = ''wo''" | "hybrid_mode conn = ''rw''" by blast
  then obtain err c' w' where r: "hybrid_serve T i conn w = Some (err, c', w')" "h_phase (hp_calls w) (\<lambda>_. Absent) i w' ?st"
    "bp_clients w' = AList.delete (cn_BackendKey conn) (AList.update (cn_BackendKey conn) i (bp_clients w))"
  proof cases
    case 1
    then have "?st = (\<lambda>_. Absent)((\<not> False) := Gone)" by (simp add: fun_eq_iff)
    with 1 serveOnly_returns [OF assms, of T False i] that show thesis by (auto simp: hybrid_serve_def)
  next
    case 2
    then have "?st = (\<lambda>_. Absent)((\<not> True) := Gone)" by (simp add: fun_eq_iff)
    with 2 serveOnly_returns [OF assms, of T True i] that show thesis by (auto simp: hybrid_serve_def)
  next
    case 3
    then have "?st = (\<lambda>_. Gone)" by (auto simp: fun_eq_iff)
    with 3 serveRW_returns [OF assms, of T i] that show thesis by (auto simp: hybrid_serve_def)
  qed
  from r(2) obtain cs where cs: "hp_calls w' = hp_calls w @ cs" "hybrid_run i (\<lambda>_. Absent) cs = Some ?st" unfolding h_phase_def by blast
  have "given_back (calls_of b cs) = acquired (calls_of b cs)" for b using hybrid_run_held [OF cs(2), of b] by (simp split: if_splits)
  moreover have "map_of (bp_clients w') = (map_of (bp_clients w))(cn_BackendKey conn := None)"
    using r(3) by (simp add: delete_conv' update_conv' fun_eq_iff)
  ultimately show ?thesis using r(1) cs by blast
qed

theorem hybrid_serve_protocol_witness:
  "\<exists>err client' w' cs. hybrid_serve sample_hybrid_config 5 sample_conn sample_hybrid = Some (err, client', w') \<and>
    hp_calls w' = hp_calls sample_hybrid @ cs \<and>
    hybrid_run 5 (\<lambda>_. Absent) cs = Some (\<lambda>b. if hybrid_mode sample_conn = (if b then ''wo'' else ''ro'') then Absent else Gone) \<and>
    (\<forall>b. given_back (calls_of b cs) = acquired (calls_of b cs)) \<and>
    map_of (bp_clients w') = (map_of (bp_clients sample_hybrid))(cn_BackendKey sample_conn := None)"
  using hybrid_serve_protocol [OF sample_serve_ok(1) sample_hybrid_ok] .

text \<open>
  What the client sent to the replica is read again, packet by packet and in the same order, after \<^verbatim>\<open>Primary\<close>; nothing that the
  primary answers reaches the client before the last of it was read; and then reading goes on with the codec.
\<close>

theorem hybrid_replays:
  assumes "T' = hybrid_Primary (hybrid_record ms (hybrid_Reset T))" "n < length ms"
  shows "fst (hybrid_reread (length ms) T') = map Some ms \<and> hybrid_WritePacket p (snd (hybrid_reread n T')) = Some (Inr None) \<and>
    fst (hybrid_PreRead (snd (hybrid_reread (length ms) T'))) = None"
  using assms by (simp add: hybrid_record_buf hybrid_reread_buf hybrid_Reset_def hybrid_Primary_def hybrid_WritePacket_def hybrid_Buffered_def
      hybrid_PreRead_def)

theorem hybrid_replays_witness:
  "fst (hybrid_reread 2 (hybrid_Primary (hybrid_record [Msg (PQuery ''BEGIN''), Msg (PQuery ''DELETE'')] (hybrid_Reset hybrid_NewMiddleware)))) =
    [Some (Msg (PQuery ''BEGIN'')), Some (Msg (PQuery ''DELETE''))]"
  using hybrid_replays [OF refl, of 0 "[Msg (PQuery ''BEGIN''), Msg (PQuery ''DELETE'')]" hybrid_NewMiddleware]
  by (simp del: hybrid_reread.simps hybrid_record.simps add: numeral_2_eq_2)

text \<open>
  (C19) \<^verbatim>\<open>Cancel\<close> names the server that the client is paired with, but the pool it asks is the one of the replicas after every
  \<^verbatim>\<open>Pair\<close>, although \<^verbatim>\<open>Pair\<close> also takes primaries (mode \<^verbatim>\<open>wo\<close>, and mode \<^verbatim>\<open>rw\<close> without replicas); only after \<^verbatim>\<open>PairPrimary\<close> is it the
  pool of the primaries.
\<close>

theorem hybrid_Cancel_asks:
  assumes "map_of (bp_clients w) key = Some i" "hs_ID s \<noteq> uuid_nil"
  shows "(h_pair T i client s w = Some ((None, None), client', s', w') \<longrightarrow> hybrid_Cancel key w' = Some (True, hs_ID s)) \<and>
    (PairPrimary T i psc eqpc s w = Some (None, s', w') \<longrightarrow> hybrid_Cancel key w' = Some (False, hs_ID s))"
  using h_pair_peer [of T i client s w client' s' w'] PairPrimary_peer [of T i psc eqpc s w s' w'] assms
  by (auto intro!: hybrid_Cancel_peer)

theorem hybrid_Cancel_asks_witness:
  "\<exists>client client' s s' s'' w w' w''. h_pair sample_hybrid_config 5 client s w = Some ((None, None), client', s', w') \<and>
    PairPrimary sample_hybrid_config 5 (ps_NewClient []) eqp_new s w = Some (None, s'', w'') \<and> hs_ID s = 3 \<and>
    hybrid_Cancel (cn_BackendKey client) w' = Some (True, 3) \<and> hybrid_Cancel (cn_BackendKey client) w'' = Some (False, 3)"
proof -
  let ?c = "(NewConn [])\<lparr>cn_Middleware := [MwPsClient (ps_NewClient []), MwEqpClient eqp_new]\<rparr>"
  let ?s = "\<lparr>hs_ID = 3, hs_Conn = (NewConn [])\<lparr>cn_Middleware := [MwPsServer (ps_NewServer []), MwEqpServer eqp_new]\<rparr>, hs_state = new_conn_state 0 0\<rparr>"
  let ?w = "sample_hybrid\<lparr>bp_clients := [(cn_BackendKey ?c, 5)]\<rparr>"
  let ?T = sample_hybrid_config
  have "map_option fst (h_pair ?T 5 ?c ?s ?w) = Some (None, None)" by code_simp
  then obtain c' s' w' where p: "h_pair ?T 5 ?c ?s ?w = Some ((None, None), c', s', w')" by auto
  have "map_option fst (PairPrimary ?T 5 (ps_NewClient []) eqp_new ?s ?w) = Some None" by code_simp
  then obtain s'' w'' where q: "PairPrimary ?T 5 (ps_NewClient []) eqp_new ?s ?w = Some (None, s'', w'')" by auto
  have k: "map_of (bp_clients ?w) (cn_BackendKey ?c) = Some 5" "hs_ID ?s \<noteq> uuid_nil" by simp_all
  from hybrid_Cancel_asks [OF k, of ?T ?c c' s' w'] p have "hybrid_Cancel (cn_BackendKey ?c) w' = Some (True, 3)" by simp
  moreover from hybrid_Cancel_asks [OF k, of ?T ?c c' s'' w'' "ps_NewClient []" eqp_new] q
  have "hybrid_Cancel (cn_BackendKey ?c) w'' = Some (False, 3)" by simp
  moreover have "hs_ID ?s = 3" by simp
  ultimately show ?thesis using p q by blast
qed

end
