(* ===== verification/Hybrid_Buffer.thy ===== *)
theory Hybrid_Buffer
  imports Fed_Transport Fed_Conn
begin

text \<open>
  The middleware of the hybrid pool over bytes: \<^verbatim>\<open>pools/hybrid/buffer.go\<close> and \<^verbatim>\<open>pools/hybrid/middleware.go\<close>.  While a transaction
  runs on a replica the middleware encodes every packet of the client into a byte buffer and hands on what its own decoder
  reads back; after \<^verbatim>\<open>Primary\<close> the decoder reads the buffer from its start.  Encoder and decoder are those of \<^verbatim>\<open>lib/fed\<close> with
  their own 4096 byte buffers, so a packet may be in the byte buffer, in the decoder, or partly in both.  Shown: the
  packets that were recorded are read again, the same and in the same order, whatever their sizes and however much of
  each the replica's side had read; answers are dropped exactly until the last one was read; and
  the packet list of \<^verbatim>\<open>Fed_Conn\<close>, which the layers above use, is what the bytes stand for.
\<close>

section \<open>Buffer\<close>

record Buffer =
  bf_buf :: "byte list"
  bf_pos :: int

definition Buffer_Buffered :: "Buffer \<Rightarrow> int" where
  "Buffer_Buffered T = go_len (bf_buf T) - bf_pos T"

definition Buffer_Read :: "nat \<Rightarrow> Buffer \<Rightarrow> (byte list \<times> go_error option \<times> Buffer) option" where
  "Buffer_Read k T =
     (if Buffer_Buffered T = 0 then Some ([], Some EOF, T)
      else do {
        unread \<leftarrow> go_slice (bf_buf T) (bf_pos T) (go_len (bf_buf T));
        let n = min k (length unread);
        Some (take n unread, None, T\<lparr>bf_pos := bf_pos T + int n\<rparr>)
      })"

definition Buffer_Write :: "byte list \<Rightarrow> Buffer \<Rightarrow> Buffer" where
  "Buffer_Write bs T = T\<lparr>bf_buf := bf_buf T @ bs\<rparr>"

definition Buffer_Reset :: "Buffer \<Rightarrow> Buffer" where
  "Buffer_Reset T = T\<lparr>bf_buf := [], bf_pos := 0\<rparr>"

definition Buffer_ResetRead :: "Buffer \<Rightarrow> Buffer" where
  "Buffer_ResetRead T = T\<lparr>bf_pos := 0\<rparr>"

text \<open>
  The encoder writes to the buffer and the decoder reads from it through a pointer.  In the terms of the two: the writer whose
  sink is the buffer, and the reader that has the unread bytes to offer and then \<open>EOF\<close>; the two lemmas say that their
  methods are those of the buffer.
\<close>

definition Buffer_writer :: "Buffer \<Rightarrow> writer" where
  "Buffer_writer T = \<lparr>w_sink = bf_buf T, w_faults = []\<rparr>"

definition Buffer_reader :: "Buffer \<Rightarrow> reader" where
  "Buffer_reader T = (if Buffer_Buffered T = 0 then [] else [(drop (nat (bf_pos T)) (bf_buf T), None)])"

definition Buffer_left :: "reader \<Rightarrow> Buffer \<Rightarrow> Buffer" where
  "Buffer_left r T = T\<lparr>bf_pos := go_len (bf_buf T) - go_len (concat (map fst r))\<rparr>"

definition buf_ok :: "Buffer \<Rightarrow> bool" where
  "buf_ok T \<longleftrightarrow> 0 \<le> bf_pos T \<and> bf_pos T \<le> go_len (bf_buf T)"

lemma Buffer_Write_is: "Writer_Write bs (Buffer_writer T) = (None, Buffer_writer (Buffer_Write bs T))"
  by (simp add: Writer_Write_def Buffer_writer_def Buffer_Write_def)

lemma Buffer_Read_is:
  assumes "buf_ok T" "Reader_Read k (Buffer_reader T) = (bs, err, r)"
  shows "Buffer_Read k T = Some (bs, err, Buffer_left r T) \<and> Buffer_reader (Buffer_left r T) = r"
  using assms
  by (auto simp: Buffer_Read_def Buffer_reader_def Buffer_left_def Buffer_Buffered_def buf_ok_def go_slice_def go_len_def
      min_def of_nat_diff nat_add_distrib split: if_splits)

lemma Buffer_reader_bytes: "buf_ok T \<Longrightarrow> concat (map fst (Buffer_reader T)) = drop (nat (bf_pos T)) (bf_buf T)"
  by (auto simp: Buffer_reader_def Buffer_Buffered_def buf_ok_def go_len_def)

section \<open>The middleware\<close>

record buffered_mw =
  bm_primary :: bool
  bm_buf :: Buffer
  bm_bufEnc :: encoder
  bm_bufDec :: decoder

text \<open>A call of the encoder or of the decoder, with the buffer behind it.\<close>

definition on_enc :: "(encoder \<Rightarrow> ('a \<times> encoder) option) \<Rightarrow> buffered_mw \<Rightarrow> ('a \<times> buffered_mw) option" where
  "on_enc f T = do {
     (r, e) \<leftarrow> f ((bm_bufEnc T)\<lparr>e_writer := Buffer_writer (bm_buf T)\<rparr>);
     Some (r, T\<lparr>bm_bufEnc := e, bm_buf := (bm_buf T)\<lparr>bf_buf := w_sink (e_writer e)\<rparr>\<rparr>)
   }"

definition on_dec :: "(decoder \<Rightarrow> ('a \<times> decoder) option) \<Rightarrow> buffered_mw \<Rightarrow> ('a \<times> buffered_mw) option" where
  "on_dec f T = do {
     (r, d) \<leftarrow> f ((bm_bufDec T)\<lparr>d_reader := Buffer_reader (bm_buf T)\<rparr>);
     Some (r, T\<lparr>bm_bufDec := d, bm_buf := Buffer_left (d_reader d) (bm_buf T)\<rparr>)
   }"

text \<open>
  A \<^verbatim>\<open>fed.Packet\<close>: a concrete packet, or a \<^verbatim>\<open>PendingPacket\<close> in the decoder it was read with.  What the middleware returns: nil, the
  packet it was given, or the pending packet in its own decoder.
\<close>

datatype fed_packet = Concrete packet | Pending decoder

datatype hb_packet = NoPacket | Given fed_packet | OwnPending

primrec fp_Type :: "fed_packet \<Rightarrow> byte" where
  "fp_Type (Concrete p) = packet_Type p"
| "fp_Type (Pending d) = d_packetType d"

primrec fp_Length :: "fed_packet \<Rightarrow> int" where
  "fp_Length (Concrete p) = packet_Length p"
| "fp_Length (Pending d) = d_packetLength d"

primrec fp_WriteTo :: "fed_packet \<Rightarrow> encoder \<Rightarrow> ((go_error option \<times> fed_packet) \<times> encoder) option" where
  "fp_WriteTo (Concrete p) e = map_option (\<lambda>(err, e). ((err, Concrete p), e)) (packet_WriteTo p e)"
| "fp_WriteTo (Pending d) e = map_option (\<lambda>(err, e, d). ((err, Pending d), e)) (Pending_WriteTo e d)"

definition hb_NewMiddleware :: buffered_mw where
  "hb_NewMiddleware = (
     let buf = \<lparr>bf_buf = [], bf_pos = 0\<rparr> in
     \<lparr>bm_primary = False, bm_buf = buf, bm_bufEnc = enc_Reset (Buffer_writer buf) (NewEncoder (Buffer_writer buf)),
      bm_bufDec = dec_Reset (Buffer_reader buf) (NewDecoder [])\<rparr>)"

definition hb_PreRead :: "bool \<Rightarrow> buffered_mw \<Rightarrow> ((go_error + hb_packet) \<times> buffered_mw) option" where
  "hb_PreRead typed T =
     (if \<not> bm_primary T then Some (Inr NoPacket, T)
      else if Buffer_Buffered (bm_buf T) = 0 \<and> dec_Buffered (bm_bufDec T) = 0 then Some (Inr NoPacket, T)
      else do {
        (r, T) \<leftarrow> on_dec (dec_Next typed) T;
        case r of Inl err \<Rightarrow> Some (Inl err, T) | Inr _ \<Rightarrow> Some (Inr OwnPending, T)
      })"

definition hb_ReadPacket :: "fed_packet \<Rightarrow> buffered_mw \<Rightarrow> ((go_error + hb_packet) \<times> fed_packet \<times> buffered_mw) option" where
  "hb_ReadPacket packet T =
     (if bm_primary T then Some (Inr (Given packet), packet, T)
      else do {
        (err, T) \<leftarrow> on_enc (enc_Next (fp_Type packet) (fp_Length packet)) T;
        case err of
          Some err \<Rightarrow> Some (Inl err, packet, T)
        | None \<Rightarrow> do {
            ((err, packet), T) \<leftarrow> on_enc (fp_WriteTo packet) T;
            case err of
              Some err \<Rightarrow> Some (Inl err, packet, T)
            | None \<Rightarrow> do {
                (err, T) \<leftarrow> on_enc enc_Flush T;
                case err of
                  Some err \<Rightarrow> Some (Inl err, packet, T)
                | None \<Rightarrow> do {
                    (r, T) \<leftarrow> on_dec (dec_Next (fp_Type packet \<noteq> 0)) T;
                    case r of Inl err \<Rightarrow> Some (Inl err, packet, T) | Inr _ \<Rightarrow> Some (Inr OwnPending, packet, T)
                  }
              }
          }
      })"

definition hb_WritePacket :: "msg \<Rightarrow> buffered_mw \<Rightarrow> (fed_error + msg option) option" where
  "hb_WritePacket packet T =
     (if bm_primary T \<and> (Buffer_Buffered (bm_buf T) > 0 \<or> dec_Buffered (bm_bufDec T) > 0) then Some (Inr None)
      else if msg_Type packet = TypeMarkiplierResponse then do {
        r \<leftarrow> to_MarkiplierResponse packet;
        case r of
          Inl err \<Rightarrow> Some (Inl err)
        | Inr p \<Rightarrow>
            if \<exists>field\<in>set p. MarkiplierResponseField_Code field = type_code CHR ''C'' \<and>
                MarkiplierResponseField_Value field = ReadOnlySqlTransaction
            then Some (Inl ErrReadOnly)
            else Some (Inr (Some (Msg (PMarkiplierResponse p))))
      }
      else Some (Inr (Some packet)))"

definition hb_Reset :: "buffered_mw \<Rightarrow> buffered_mw" where
  "hb_Reset T = (
     let buf = Buffer_Reset (bm_buf T) in
     T\<lparr>bm_primary := False, bm_buf := buf, bm_bufEnc := enc_Reset (Buffer_writer buf) (bm_bufEnc T),
       bm_bufDec := dec_Reset (Buffer_reader buf) (bm_bufDec T)\<rparr>)"

definition hb_Primary :: "buffered_mw \<Rightarrow> buffered_mw" where
  "hb_Primary T = (
     let buf = Buffer_ResetRead (bm_buf T) in
     T\<lparr>bm_primary := True, bm_buf := buf, bm_bufDec := dec_Reset (Buffer_reader buf) (bm_bufDec T)\<rparr>)"

section \<open>What the bytes stand for\<close>

text \<open>The body of a packet as its \<^verbatim>\<open>WriteTo\<close> writes it, and the packet on the wire.\<close>

definition packet_body :: "packet \<Rightarrow> byte list" where
  "packet_body p = (case packet_WriteTo p (NewEncoder \<lparr>w_sink = [], w_faults = []\<rparr>) of Some (_, e) \<Rightarrow> enc_out e | None \<Rightarrow> [])"

definition wire :: "packet \<Rightarrow> byte list" where
  "wire p = header (packet_Type p) (packet_Length p) @ packet_body p"

lemma packet_body_is:
  assumes "emits (packet_WriteTo p) bs"
  shows "packet_body p = bs"
proof -
  let ?e = "NewEncoder \<lparr>w_sink = [], w_faults = []\<rparr>"
  have e: "enc_inv ?e" "no_faults ?e" "enc_out ?e = []"
    by (simp_all add: NewEncoder_def enc_inv_def no_faults_def enc_out_def)
  obtain e' where "packet_WriteTo p ?e = Some (None, e')" "enc_out e' = enc_out ?e @ bs"
    by (rule emits_rawE [OF assms e(1)]) (use e(2) in auto)
  with e(3) show ?thesis by (simp add: packet_body_def)
qed

lemma packet_body_law:
  "emits (packet_WriteTo p) (packet_body p)" "packet_Length p = go_len (packet_body p)"
  "packet_ok p \<Longrightarrow> dec_inv d \<Longrightarrow> clean d \<Longrightarrow> dec_stream d = packet_body p @ rest \<Longrightarrow> d_packetType d = packet_Type p \<Longrightarrow>
     d_packetPos d + go_len (packet_body p) = d_packetLength d \<Longrightarrow>
     \<exists>d'. packet_ReadFrom p d = Some (Inr p, d') \<and> dec_step d (packet_body p) d' \<and>
       d_packetPos d' = d_packetPos d + go_len (packet_body p)"
proof -
  from packet_law_all [of p] obtain bs where bs: "emits (packet_WriteTo p) bs" "packet_Length p = go_len bs"
    and rd: "packet_ok p \<longrightarrow> (\<forall>d rest. dec_inv d \<longrightarrow> clean d \<longrightarrow> dec_stream d = bs @ rest \<longrightarrow> d_packetType d = packet_Type p \<longrightarrow>
        d_packetPos d + go_len bs = d_packetLength d \<longrightarrow>
        (\<exists>d'. packet_ReadFrom p d = Some (Inr p, d') \<and> dec_step d bs d' \<and> d_packetPos d' = d_packetPos d + go_len bs))"
    unfolding packet_law_def by (elim exE conjE)
  have b: "packet_body p = bs" by (rule packet_body_is [OF bs(1)])
  show "emits (packet_WriteTo p) (packet_body p)" "packet_Length p = go_len (packet_body p)" unfolding b by (fact bs)+
  show "packet_ok p \<Longrightarrow> dec_inv d \<Longrightarrow> clean d \<Longrightarrow> dec_stream d = packet_body p @ rest \<Longrightarrow> d_packetType d = packet_Type p \<Longrightarrow>
     d_packetPos d + go_len (packet_body p) = d_packetLength d \<Longrightarrow>
     \<exists>d'. packet_ReadFrom p d = Some (Inr p, d') \<and> dec_step d (packet_body p) d' \<and>
       d_packetPos d' = d_packetPos d + go_len (packet_body p)"
    unfolding b using rd by (elim impE allE) assumption+
qed

text \<open>A packet that the codec can transmit, with a type byte, as every packet of a client in a pool has.\<close>

definition sendable :: "packet \<Rightarrow> bool" where
  "sendable p \<longleftrightarrow> packet_ok p \<and> packet_Length p + 4 < 2 ^ 32 \<and> packet_Type p \<noteq> 0"

text \<open>The packet \<open>p\<close> as it comes to the middleware: concrete, or pending in a decoder that stands at the start of its body.\<close>

definition pending_at :: "packet \<Rightarrow> decoder \<Rightarrow> bool" where
  "pending_at p d \<longleftrightarrow> dec_inv d \<and> clean d \<and> d_packetType d = packet_Type p \<and> d_packetLength d = packet_Length p \<and>
     d_packetPos d = 0 \<and> (\<exists>rest. dec_stream d = packet_body p @ rest)"

primrec carries :: "packet \<Rightarrow> fed_packet \<Rightarrow> bool" where
  "carries p (Concrete q) = (q = p)"
| "carries p (Pending d) = pending_at p d"

lemma carries_meta: "carries p x \<Longrightarrow> fp_Type x = packet_Type p \<and> fp_Length x = packet_Length p"
  by (cases x) (auto simp: pending_at_def)

lemma carries_writes:
  assumes "carries p x" "enc_inv e" "no_faults e"
  shows "\<exists>x' e'. fp_WriteTo x e = Some ((None, x'), e') \<and> fp_Type x' = packet_Type p \<and> enc_inv e' \<and>
    enc_out e' = enc_out e @ packet_body p \<and> e_packetPos e' = e_packetPos e + packet_Length p \<and> e_packetLength e' = e_packetLength e"
proof (cases x)
  case (Concrete q)
  obtain e' where "packet_WriteTo p e = Some (None, e')" "enc_inv e'" "enc_out e' = enc_out e @ packet_body p"
    "e_packetPos e' = e_packetPos e + go_len (packet_body p)" "e_packetLength e' = e_packetLength e"
    by (rule emits_rawE [OF packet_body_law(1) assms(2), of p]) (use assms(3) in auto)
  with Concrete assms(1) packet_body_law(2) [of p] show ?thesis by auto
next
  case (Pending d)
  with assms(1) obtain rest where d: "dec_inv d" "clean d" "d_packetType d = packet_Type p" "d_packetLength d = packet_Length p"
    "d_packetPos d = 0" "dec_stream d = packet_body p @ rest" by (auto simp: pending_at_def)
  from Pending_WriteTo_ok [OF assms(2) d(1)] d(4,5) packet_body_law(2) [of p] have "forwarded e d (Pending_WriteTo e d)"
    by (simp add: go_len_def)
  with d assms(3) packet_body_law(2) [of p] obtain e' d' bs where w: "Pending_WriteTo e d = Some (None, e', d')" "dec_step d bs d'" "enc_inv e'"
    "d_packetPos d' = go_len bs" "d_packetPos d' = packet_Length p" "enc_out e' = enc_out e @ bs" "e_packetPos e' = e_packetPos e + go_len bs"
    "e_packetLength e' = e_packetLength e" by (auto simp: forwarded_def go_len_def)
  then have "bs = packet_body p" using d(6) packet_body_law(2) [of p] by (auto simp: dec_step_def go_len_def append_eq_append_conv)
  with Pending w d(3) packet_body_law(2) [of p] show ?thesis by (auto simp: dec_step_def)
qed

section \<open>Calls of the encoder and the decoder\<close>

abbreviation enc_at :: "buffered_mw \<Rightarrow> encoder" where
  "enc_at T \<equiv> (bm_bufEnc T)\<lparr>e_writer := Buffer_writer (bm_buf T)\<rparr>"

abbreviation dec_at :: "buffered_mw \<Rightarrow> decoder" where
  "dec_at T \<equiv> (bm_bufDec T)\<lparr>d_reader := Buffer_reader (bm_buf T)\<rparr>"

lemma enc_at_faultless: "no_faults (enc_at T)"
  by (simp add: no_faults_def Buffer_writer_def)

lemma dec_at_clean: "clean (dec_at T)"
  by (simp add: clean_def Buffer_reader_def)

lemma on_enc_ok:
  assumes "f (enc_at T) = Some (r, e)"
  shows "\<exists>T'. on_enc f T = Some (r, T') \<and> bm_primary T' = bm_primary T \<and> bm_bufDec T' = bm_bufDec T \<and>
    bf_pos (bm_buf T') = bf_pos (bm_buf T) \<and> bf_buf (bm_buf T') = w_sink (e_writer e) \<and> enc_inv (enc_at T') = enc_inv e \<and>
    enc_out (enc_at T') = enc_out e \<and> e_bufferPos (enc_at T') = e_bufferPos e \<and> e_packetPos (enc_at T') = e_packetPos e \<and>
    e_packetLength (enc_at T') = e_packetLength e"
  using assms by (simp add: on_enc_def Buffer_writer_def enc_inv_def enc_out_def)

lemma suffix_drop: "xs @ r = ys @ s \<Longrightarrow> length s \<le> length r \<Longrightarrow> drop (length r - length s) r = s"
  by (auto simp: append_eq_append_conv2)

text \<open>The decoder only takes bytes from the front of what the buffer has left, so the position of the buffer follows.\<close>

lemma on_dec_ok:
  assumes "buf_ok (bm_buf T)" "f (dec_at T) = Some (r, d)" "dec_inv d" "dec_stream (dec_at T) = bs @ dec_stream d"
    "length (concat (map fst (d_reader d))) \<le> length (concat (map fst (d_reader (dec_at T))))"
  shows "\<exists>T'. on_dec f T = Some (r, T') \<and> bm_primary T' = bm_primary T \<and> bm_bufEnc T' = bm_bufEnc T \<and>
    bf_buf (bm_buf T') = bf_buf (bm_buf T) \<and> buf_ok (bm_buf T') \<and> dec_inv (dec_at T') \<and> dec_stream (dec_at T') = dec_stream d \<and>
    d_packetType (dec_at T') = d_packetType d \<and> d_packetPos (dec_at T') = d_packetPos d \<and> d_packetLength (dec_at T') = d_packetLength d"
proof -
  let ?R = "drop (nat (bf_pos (bm_buf T))) (bf_buf (bm_buf T))" let ?S = "concat (map fst (d_reader d))"
  let ?B = "Buffer_left (d_reader d) (bm_buf T)"
  have R: "concat (map fst (d_reader (dec_at T))) = ?R" using Buffer_reader_bytes [OF assms(1)] by simp
  have "buffered (bm_bufDec T) @ ?R = (bs @ buffered d) @ ?S"
    using assms(4) R by (simp add: dec_stream_def buffered_def)
  then have "drop (length ?R - length ?S) ?R = ?S" using assms(5) unfolding R by (rule suffix_drop)
  then have s: "drop (length (bf_buf (bm_buf T)) - length ?S) (bf_buf (bm_buf T)) = ?S" "length ?S \<le> length (bf_buf (bm_buf T))"
    using assms(1,5) R by (auto simp: buf_ok_def go_len_def add.commute)
  have ok: "buf_ok ?B" using s(2) by (simp add: buf_ok_def Buffer_left_def go_len_def)
  have "drop (nat (bf_pos ?B)) (bf_buf ?B) = ?S" using s by (simp add: Buffer_left_def go_len_def nat_diff_distrib)
  then have "concat (map fst (Buffer_reader ?B)) = ?S" using Buffer_reader_bytes [OF ok] by simp
  with assms(2,3) ok show ?thesis
    by (simp add: on_dec_def dec_stream_def buffered_def dec_inv_def Buffer_left_def)
qed

lemma drained_iff:
  assumes "buf_ok (bm_buf T)" "dec_inv (dec_at T)"
  shows "(Buffer_Buffered (bm_buf T) = 0 \<and> dec_Buffered (bm_bufDec T) = 0) = (dec_stream (dec_at T) = [])"
    "(Buffer_Buffered (bm_buf T) > 0 \<or> dec_Buffered (bm_bufDec T) > 0) = (dec_stream (dec_at T) \<noteq> [])"
proof -
  have "Buffer_Buffered (bm_buf T) \<ge> 0" "dec_Buffered (bm_bufDec T) \<ge> 0"
    using assms by (simp_all add: Buffer_Buffered_def buf_ok_def dec_Buffered_def dec_inv_def)
  moreover have "(concat (map fst (Buffer_reader (bm_buf T))) = []) = (Buffer_Buffered (bm_buf T) = 0)"
    using Buffer_reader_bytes [OF assms(1)] assms(1) by (auto simp: Buffer_Buffered_def buf_ok_def go_len_def)
  moreover have "(buffered (dec_at T) = []) = (dec_Buffered (bm_bufDec T) = 0)"
    using assms(2) by (auto simp: buffered_def dec_Buffered_def dec_inv_def)
  ultimately show "(Buffer_Buffered (bm_buf T) = 0 \<and> dec_Buffered (bm_bufDec T) = 0) = (dec_stream (dec_at T) = [])"
    "(Buffer_Buffered (bm_buf T) > 0 \<or> dec_Buffered (bm_bufDec T) > 0) = (dec_stream (dec_at T) \<noteq> [])"
    by (auto simp: dec_stream_def)
qed

section \<open>Recording and replaying\<close>

text \<open>
  \<open>hb_rep ps n tail T\<close>: the buffer holds the packets \<open>ps\<close>, the encoder has nothing left to flush, and of the first \<open>n\<close> packets, which the
  decoder has begun to read, only the bytes \<open>tail\<close> of the last one are still to come.
\<close>

definition hb_rep :: "packet list \<Rightarrow> nat \<Rightarrow> byte list \<Rightarrow> buffered_mw \<Rightarrow> bool" where
  "hb_rep ps n tail T \<longleftrightarrow> buf_ok (bm_buf T) \<and> bf_buf (bm_buf T) = concat (map wire ps) \<and>
     enc_inv (enc_at T) \<and> e_bufferPos (enc_at T) = 0 \<and> e_packetPos (enc_at T) = e_packetLength (enc_at T) \<and>
     dec_inv (dec_at T) \<and> dec_stream (dec_at T) = tail @ concat (map wire (drop n ps)) \<and>
     go_len tail = d_packetLength (dec_at T) - d_packetPos (dec_at T) \<and> n \<le> length ps"

lemma hb_NewMiddleware_rep: "hb_rep [] 0 [] hb_NewMiddleware"
  by (simp add: hb_rep_def hb_NewMiddleware_def Let_def buf_ok_def enc_Reset_def dec_Reset_def NewEncoder_def NewDecoder_def enc_inv_def
      dec_inv_def dec_stream_def buffered_def Buffer_reader_def Buffer_Buffered_def go_len_def)

lemma hb_Reset_rep: "hb_rep ps n tail T \<Longrightarrow> hb_rep [] 0 [] (hb_Reset T)"
  by (simp add: hb_rep_def hb_Reset_def Let_def buf_ok_def Buffer_Reset_def enc_Reset_def dec_Reset_def enc_inv_def
      dec_inv_def dec_stream_def buffered_def Buffer_reader_def Buffer_Buffered_def go_len_def)

lemma hb_Primary_rep: "hb_rep ps n tail T \<Longrightarrow> hb_rep ps 0 [] (hb_Primary T)"
  by (auto simp: hb_rep_def hb_Primary_def Let_def buf_ok_def Buffer_ResetRead_def dec_Reset_def enc_inv_def
      dec_inv_def dec_stream_def buffered_def Buffer_reader_def Buffer_Buffered_def go_len_def)

lemma hb_rep_drained:
  assumes "hb_rep ps n tail T" "\<forall>p\<in>set ps. sendable p"
  shows "(dec_stream (dec_at T) = []) = (tail = [] \<and> n = length ps)"
proof -
  have "wire p \<noteq> []" if "sendable p" for p using that by (simp add: wire_def header_def sendable_def)
  moreover have "p \<in> set (drop n ps) \<Longrightarrow> sendable p" for p using assms(2) by (meson in_set_dropD)
  ultimately have "(concat (map wire (drop n ps)) = []) = (drop n ps = [])" by (cases "drop n ps") auto
  with assms(1) show ?thesis by (auto simp: hb_rep_def)
qed

text \<open>\<^verbatim>\<open>Next\<close> skips what is left of the current packet and stands at the body of the next one.\<close>

lemma next_rep:
  assumes "hb_rep ps n tail T" "n < length ps" "sendable (ps ! n)"
  shows "\<exists>T'. on_dec (dec_Next True) T = Some (Inr (), T') \<and> bm_primary T' = bm_primary T \<and>
    hb_rep ps (n + 1) (packet_body (ps ! n)) T' \<and> pending_at (ps ! n) (dec_at T')"
proof -
  let ?p = "ps ! n" let ?d = "dec_at T" let ?more = "concat (map wire (drop (n + 1) ps))"
  from assms(1) have i: "buf_ok (bm_buf T)" "dec_inv ?d" "go_len tail = d_packetLength ?d - d_packetPos ?d"
    "dec_stream ?d = tail @ concat (map wire (drop n ps))" by (simp_all add: hb_rep_def)
  have st: "dec_stream ?d = tail @ header (packet_Type ?p) (packet_Length ?p) @ (packet_body ?p @ ?more)"
    using i(4) Cons_nth_drop_Suc [OF assms(2), symmetric] by (simp add: wire_def)
  have len: "0 \<le> packet_Length ?p" "packet_Length ?p + 4 < 2 ^ 32" "packet_Type ?p \<noteq> 0"
    using assms(3) packet_body_law(2) [of ?p] by (simp_all add: sendable_def)
  note h = fed.header_split [OF len(1,2), of "packet_Type ?p"]
  have "d_packetPos ?d \<le> d_packetLength ?d" using i(3) by (simp add: go_len_def)
  from dec_Next_ok [OF i(2) dec_at_clean this st i(3), of True] h len(3) obtain d where d:
    "dec_Next True ?d = Some (Inr (), d)" "dec_inv d" "dec_stream d = packet_body ?p @ ?more"
    "d_packetType d = packet_Type ?p" "d_packetPos d = 0" "d_packetLength d = packet_Length ?p"
    "length (concat (map fst (d_reader d))) \<le> length (concat (map fst (d_reader ?d)))" by auto
  have s: "dec_stream ?d = (tail @ header (packet_Type ?p) (packet_Length ?p)) @ dec_stream d" using st d(3) by simp
  from on_dec_ok [where f = "dec_Next True", OF i(1) d(1,2) s d(7)] obtain T' where "on_dec (dec_Next True) T = Some (Inr (), T')" "bm_primary T' = bm_primary T"
    "bm_bufEnc T' = bm_bufEnc T" "bf_buf (bm_buf T') = bf_buf (bm_buf T)" "buf_ok (bm_buf T')" "dec_inv (dec_at T')"
    "dec_stream (dec_at T') = dec_stream d" "d_packetType (dec_at T') = d_packetType d" "d_packetPos (dec_at T') = d_packetPos d"
    "d_packetLength (dec_at T') = d_packetLength d" by blast
  with d assms(1,2) packet_body_law(2) [of ?p] dec_at_clean [of T'] show ?thesis
    by (auto simp: hb_rep_def pending_at_def enc_inv_def)
qed

text \<open>\<^verbatim>\<open>Next\<close>, \<^verbatim>\<open>WriteTo\<close> and \<^verbatim>\<open>Flush\<close> append the packet to the buffer.\<close>

lemma encode_rep:
  assumes "hb_rep ps n tail T" "carries p x"
  shows "\<exists>T1 T2 T3 x'. on_enc (enc_Next (fp_Type x) (fp_Length x)) T = Some (None, T1) \<and> on_enc (fp_WriteTo x) T1 = Some ((None, x'), T2) \<and>
    on_enc enc_Flush T2 = Some (None, T3) \<and> fp_Type x' = packet_Type p \<and> bm_primary T3 = bm_primary T \<and>
    bm_bufDec T3 = bm_bufDec T \<and> bf_pos (bm_buf T3) = bf_pos (bm_buf T) \<and> bf_buf (bm_buf T3) = bf_buf (bm_buf T) @ wire p \<and>
    enc_inv (enc_at T3) \<and> e_bufferPos (enc_at T3) = 0 \<and> e_packetPos (enc_at T3) = e_packetLength (enc_at T3)"
proof -
  from assms(1) have e: "enc_inv (enc_at T)" "e_packetPos (enc_at T) = e_packetLength (enc_at T)" "enc_out (enc_at T) = bf_buf (bm_buf T)"
    by (simp_all add: hb_rep_def) (simp add: hb_rep_def enc_out_def Buffer_writer_def)
  from Next_ok [OF e(1,2), of "packet_Type p" "packet_Length p"] enc_at_faultless obtain e1 where n:
    "enc_Next (packet_Type p) (packet_Length p) (enc_at T) = Some (None, e1)" "enc_inv e1"
    "enc_out e1 = enc_out (enc_at T) @ header (packet_Type p) (packet_Length p)" "e_packetLength e1 = packet_Length p" "e_packetPos e1 = 0"
    by auto
  from on_enc_ok [where f = "enc_Next (packet_Type p) (packet_Length p)", OF n(1)] n obtain T1 where T1:
    "on_enc (enc_Next (packet_Type p) (packet_Length p)) T = Some (None, T1)" "bm_primary T1 = bm_primary T" "bm_bufDec T1 = bm_bufDec T"
    "bf_pos (bm_buf T1) = bf_pos (bm_buf T)" "enc_inv (enc_at T1)" "e_packetPos (enc_at T1) = 0" "e_packetLength (enc_at T1) = packet_Length p"
    "enc_out (enc_at T1) = bf_buf (bm_buf T) @ header (packet_Type p) (packet_Length p)" using e(3) by auto
  from carries_writes [OF assms(2) T1(5) enc_at_faultless] T1(6-8) obtain x' e2 where w: "fp_WriteTo x (enc_at T1) = Some ((None, x'), e2)"
    "fp_Type x' = packet_Type p" "enc_inv e2" "enc_out e2 = bf_buf (bm_buf T) @ wire p" "e_packetPos e2 = packet_Length p"
    "e_packetLength e2 = packet_Length p" by (auto simp: wire_def)
  from on_enc_ok [where f = "fp_WriteTo x", OF w(1)] w obtain T2 where T2: "on_enc (fp_WriteTo x) T1 = Some ((None, x'), T2)"
    "bm_primary T2 = bm_primary T1" "bm_bufDec T2 = bm_bufDec T1" "bf_pos (bm_buf T2) = bf_pos (bm_buf T1)" "enc_inv (enc_at T2)"
    "e_packetPos (enc_at T2) = packet_Length p" "e_packetLength (enc_at T2) = packet_Length p"
    "enc_out (enc_at T2) = bf_buf (bm_buf T) @ wire p" by auto
  obtain e3 where f: "enc_Flush (enc_at T2) = Some (None, e3)" "e_packetPos e3 = e_packetPos (enc_at T2)" "e_packetLength e3 = e_packetLength (enc_at T2)"
    by (rule emits_rawE [OF Flush_emits T2(5)]) (use enc_at_faultless in auto)
  from on_enc_ok [where f = enc_Flush, OF f(1)] Flush_sink [OF T2(5) f(1)] Flush_pos [OF f(1)] f T1 T2 w(2) assms(2) carries_meta [OF assms(2)]
  show ?thesis by auto
qed

lemma record_rep:
  assumes "hb_rep ps (length ps) tail T" "\<not> bm_primary T" "carries p x" "sendable p"
  shows "\<exists>x' T'. hb_ReadPacket x T = Some (Inr OwnPending, x', T') \<and> \<not> bm_primary T' \<and>
    hb_rep (ps @ [p]) (length ps + 1) (packet_body p) T' \<and> pending_at p (dec_at T')"
proof -
  from encode_rep [OF assms(1,3)] obtain T1 T2 T3 x' where e: "on_enc (enc_Next (fp_Type x) (fp_Length x)) T = Some (None, T1)"
    "on_enc (fp_WriteTo x) T1 = Some ((None, x'), T2)" "on_enc enc_Flush T2 = Some (None, T3)" "fp_Type x' = packet_Type p"
    "bm_primary T3 = bm_primary T" "bm_bufDec T3 = bm_bufDec T" "bf_pos (bm_buf T3) = bf_pos (bm_buf T)"
    "bf_buf (bm_buf T3) = bf_buf (bm_buf T) @ wire p" "enc_inv (enc_at T3)" "e_bufferPos (enc_at T3) = 0"
    "e_packetPos (enc_at T3) = e_packetLength (enc_at T3)" by (elim exE conjE) rule
  have ok: "buf_ok (bm_buf T)" "buf_ok (bm_buf T3)" using assms(1) e(7,8) by (auto simp: hb_rep_def buf_ok_def go_len_def)
  have "nat (bf_pos (bm_buf T)) \<le> length (bf_buf (bm_buf T))" using ok(1) by (auto simp: buf_ok_def go_len_def)
  then have "concat (map fst (Buffer_reader (bm_buf T3))) = concat (map fst (Buffer_reader (bm_buf T))) @ wire p"
    using ok e(7,8) by (simp add: Buffer_reader_bytes)
  with e ok assms(1) have rep: "hb_rep (ps @ [p]) (length ps) tail T3"
    by (auto simp: hb_rep_def dec_stream_def buffered_def dec_inv_def)
  from next_rep [OF rep] assms(4) obtain T' where n: "on_dec (dec_Next True) T3 = Some (Inr (), T')" "bm_primary T' = bm_primary T3"
    "hb_rep (ps @ [p]) (length ps + 1) (packet_body p) T'" "pending_at p (dec_at T')" by auto
  have "fp_Type x' \<noteq> 0" using e(4) assms(4) by (simp add: sendable_def)
  with e(1-5) n assms(2) show ?thesis by (simp add: hb_ReadPacket_def)
qed

text \<open>
  What the side that a pending packet is handed to may do with it: call methods of the decoder that read the bytes \<open>bs\<close> from the
  start of its body, all of them, some or none, with the result \<open>v\<close>.  The rest is skipped by the following \<^verbatim>\<open>Next\<close>.
\<close>

definition consumes :: "packet \<Rightarrow> (decoder \<Rightarrow> ('a \<times> decoder) option) \<Rightarrow> 'a \<Rightarrow> byte list \<Rightarrow> bool" where
  "consumes p f v bs \<longleftrightarrow> (\<exists>left. packet_body p = bs @ left) \<and>
     (\<forall>d. pending_at p d \<longrightarrow> (\<exists>d'. f d = Some (v, d') \<and> dec_step d bs d' \<and> d_packetPos d' = go_len bs))"

lemma consumes_ReadFrom: "sendable p \<Longrightarrow> consumes p (packet_ReadFrom p) (Inr p) (packet_body p)"
  using packet_body_law(2,3) [of p] by (fastforce simp: consumes_def pending_at_def sendable_def)

lemma use_rep:
  assumes "hb_rep ps n (packet_body p) T" "pending_at p (dec_at T)" "consumes p f v bs" "packet_body p = bs @ left"
  shows "\<exists>T'. on_dec f T = Some (v, T') \<and> bm_primary T' = bm_primary T \<and> hb_rep ps n left T'"
proof -
  from assms(2,3) obtain d where d: "f (dec_at T) = Some (v, d)" "dec_step (dec_at T) bs d" "d_packetPos d = go_len bs"
    unfolding consumes_def by blast
  have s: "dec_inv d" "dec_stream (dec_at T) = bs @ dec_stream d" "d_packetLength d = packet_Length p"
    "length (concat (map fst (d_reader d))) \<le> length (concat (map fst (d_reader (dec_at T))))"
    using d(2) assms(2) by (auto simp: dec_step_def pending_at_def)
  have "buf_ok (bm_buf T)" using assms(1) by (simp add: hb_rep_def)
  from on_dec_ok [where f = f, OF this d(1) s(1,2,4)] obtain T' where "on_dec f T = Some (v, T')" "bm_primary T' = bm_primary T"
    "bm_bufEnc T' = bm_bufEnc T" "bf_buf (bm_buf T') = bf_buf (bm_buf T)" "buf_ok (bm_buf T')" "dec_inv (dec_at T')"
    "dec_stream (dec_at T') = dec_stream d" "d_packetPos (dec_at T') = d_packetPos d" "d_packetLength (dec_at T') = d_packetLength d" by blast
  moreover have "dec_stream d = left @ concat (map wire (drop n ps))" using s(2) assms(1,4) by (simp add: hb_rep_def)
  moreover have "go_len left = d_packetLength d - d_packetPos d" using s(3) d(3) packet_body_law(2) [of p] assms(4) by (simp add: go_len_def)
  ultimately show ?thesis using assms(1) by (auto simp: hb_rep_def enc_inv_def)
qed

text \<open>
  A transaction on the replica: every packet of the client goes through \<^verbatim>\<open>ReadPacket\<close>, and the packet that is handed on is used.  On the
  primary: \<^verbatim>\<open>PreRead\<close> before every read, and the packet is decoded as the type that is expected.
\<close>

fun hb_sends :: "(fed_packet \<times> (decoder \<Rightarrow> ('a \<times> decoder) option)) list \<Rightarrow> buffered_mw \<Rightarrow> ((go_error + 'a list) \<times> buffered_mw) option" where
  "hb_sends [] T = Some (Inr [], T)"
| "hb_sends ((packet, f) # xs) T = do {
     (r, _, T) \<leftarrow> hb_ReadPacket packet T;
     case r of
       Inl err \<Rightarrow> Some (Inl err, T)
     | Inr _ \<Rightarrow> do {
         (v, T) \<leftarrow> on_dec f T;
         (r, T) \<leftarrow> hb_sends xs T;
         Some (map_sum id ((#) v) r, T)
       }
   }"

fun hb_replay :: "packet list \<Rightarrow> buffered_mw \<Rightarrow> ((go_error + packet list) \<times> buffered_mw) option" where
  "hb_replay [] T = Some (Inr [], T)"
| "hb_replay (p # ps) T = do {
     (r, T) \<leftarrow> hb_PreRead True T;
     case r of
       Inl err \<Rightarrow> Some (Inl err, T)
     | Inr OwnPending \<Rightarrow> do {
         (r, T) \<leftarrow> on_dec (packet_ReadFrom p) T;
         case r of
           Inl err \<Rightarrow> Some (Inl err, T)
         | Inr q \<Rightarrow> do {
             (r, T) \<leftarrow> hb_replay ps T;
             Some (map_sum id ((#) q) r, T)
           }
       }
     | Inr _ \<Rightarrow> Some (Inr [], T)
   }"

lemma sends_rep:
  assumes "hb_rep ps (length ps) tail T" "\<not> bm_primary T" "\<forall>(p, x, f, v)\<in>set xs. sendable p \<and> carries p x \<and> (\<exists>bs. consumes p f v bs)"
  shows "\<exists>T' tail'. hb_sends (map (\<lambda>(p, x, f, v). (x, f)) xs) T = Some (Inr (map (\<lambda>(p, x, f, v). v) xs), T') \<and>
    hb_rep (ps @ map fst xs) (length ps + length xs) tail' T'"
  using assms
proof (induction xs arbitrary: ps tail T)
  case (Cons a xs)
  obtain p x f v where a: "a = (p, x, f, v)" by (cases a)
  with Cons.prems(3) obtain bs left where p: "sendable p" "carries p x" "consumes p f v bs" "packet_body p = bs @ left"
    by (auto simp: consumes_def)
  from record_rep [OF Cons.prems(1,2) p(2,1)] obtain x' T1 where r: "hb_ReadPacket x T = Some (Inr OwnPending, x', T1)"
    "\<not> bm_primary T1" "hb_rep (ps @ [p]) (length ps + 1) (packet_body p) T1" "pending_at p (dec_at T1)" by blast
  from use_rep [OF r(3,4) p(3,4)] obtain T2 where u: "on_dec f T1 = Some (v, T2)" "bm_primary T2 = bm_primary T1"
    "hb_rep (ps @ [p]) (length (ps @ [p])) left T2" by auto
  from Cons.IH [OF u(3)] u(2) r(2) Cons.prems(3) obtain T' tail' where
    "hb_sends (map (\<lambda>(p, x, f, v). (x, f)) xs) T2 = Some (Inr (map (\<lambda>(p, x, f, v). v) xs), T')"
    "hb_rep ((ps @ [p]) @ map fst xs) (length (ps @ [p]) + length xs) tail' T'" by auto
  with a r(1) u(1) show ?case by auto
qed auto

lemma PreRead_rep:
  assumes "hb_rep ps n [] T" "bm_primary T" "\<forall>p\<in>set ps. sendable p"
  shows "n = length ps \<Longrightarrow> hb_PreRead True T = Some (Inr NoPacket, T)"
    "n < length ps \<Longrightarrow> \<exists>T'. hb_PreRead True T = Some (Inr OwnPending, T') \<and> bm_primary T' \<and>
       hb_rep ps (n + 1) (packet_body (ps ! n)) T' \<and> pending_at (ps ! n) (dec_at T')"
proof -
  have i: "buf_ok (bm_buf T)" "dec_inv (dec_at T)" using assms(1) by (simp_all add: hb_rep_def)
  note d = drained_iff(1) [OF i] hb_rep_drained [OF assms(1,3)]
  show "n = length ps \<Longrightarrow> hb_PreRead True T = Some (Inr NoPacket, T)" using assms(2) d by (simp add: hb_PreRead_def)
  assume n: "n < length ps"
  with assms(3) next_rep [OF assms(1)] obtain T' where "on_dec (dec_Next True) T = Some (Inr (), T')" "bm_primary T' = bm_primary T"
    "hb_rep ps (n + 1) (packet_body (ps ! n)) T'" "pending_at (ps ! n) (dec_at T')" by auto
  moreover have "\<not> (Buffer_Buffered (bm_buf T) = 0 \<and> dec_Buffered (bm_bufDec T) = 0)" using d n by simp
  ultimately show "\<exists>T'. hb_PreRead True T = Some (Inr OwnPending, T') \<and> bm_primary T' \<and>
       hb_rep ps (n + 1) (packet_body (ps ! n)) T' \<and> pending_at (ps ! n) (dec_at T')"
    using assms(2) by (simp add: hb_PreRead_def)
qed

lemma replay_rep:
  assumes "hb_rep ps n [] T" "bm_primary T" "\<forall>p\<in>set ps. sendable p" "drop n ps = read @ rest"
  shows "\<exists>T'. hb_replay read T = Some (Inr read, T') \<and> bm_primary T' \<and> hb_rep ps (n + length read) [] T'"
  using assms
proof (induction read arbitrary: n T)
  case (Cons p read)
  have n: "n < length ps" using Cons.prems(4) by (metis drop_all not_less list.discI append_Cons)
  then have p: "ps ! n = p" "drop (n + 1) ps = read @ rest" using Cons.prems(4) Cons_nth_drop_Suc [OF n] by auto
  have ok: "sendable p" using Cons.prems(3) n p(1) by auto
  from PreRead_rep(2) [OF Cons.prems(1-3) n] p(1) obtain T1 where r: "hb_PreRead True T = Some (Inr OwnPending, T1)" "bm_primary T1"
    "hb_rep ps (n + 1) (packet_body p) T1" "pending_at p (dec_at T1)" by auto
  from use_rep [OF r(3,4) consumes_ReadFrom [OF ok], of "[]"] r(2) obtain T2 where u: "on_dec (packet_ReadFrom p) T1 = Some (Inr p, T2)"
    "bm_primary T2" "hb_rep ps (n + 1) [] T2" by auto
  from Cons.IH [OF u(3,2) Cons.prems(3) p(2)] r(1) u(1) show ?case by auto
qed auto

lemma WritePacket_rep:
  assumes "hb_rep ps n [] T" "bm_primary T" "\<forall>p\<in>set ps. sendable p"
  shows "n < length ps \<Longrightarrow> hb_WritePacket m T = Some (Inr None)"
    "n = length ps \<Longrightarrow> msg_Type m \<noteq> TypeMarkiplierResponse \<Longrightarrow> hb_WritePacket m T = Some (Inr (Some m))"
proof -
  have i: "buf_ok (bm_buf T)" "dec_inv (dec_at T)" using assms(1) by (simp_all add: hb_rep_def)
  note d = drained_iff(2) [OF i] hb_rep_drained [OF assms(1,3)]
  show "n < length ps \<Longrightarrow> hb_WritePacket m T = Some (Inr None)"
    "n = length ps \<Longrightarrow> msg_Type m \<noteq> TypeMarkiplierResponse \<Longrightarrow> hb_WritePacket m T = Some (Inr (Some m))"
    using assms(2) d by (simp_all add: hb_WritePacket_def)
qed

section \<open>The packet list of the connection model\<close>

text \<open>
  \<^verbatim>\<open>Fed_Conn\<close> describes the record by the list of its packets and the number of those that were read.  Whenever the packet that was handed on
  last has been used up, the operations over bytes do what those over the list do.
\<close>

definition hb_abs :: "packet list \<Rightarrow> nat \<Rightarrow> buffered_mw \<Rightarrow> hybrid_mw" where
  "hb_abs ps n T = \<lparr>hm_primary = bm_primary T, hm_buf = map Msg ps, hm_pos = n\<rparr>"

lemma hb_abs_start: "hb_abs [] 0 hb_NewMiddleware = hybrid_NewMiddleware" "hb_abs [] 0 (hb_Reset T) = hybrid_Reset (hb_abs ps n T)"
  "hb_abs ps 0 (hb_Primary T) = hybrid_Primary (hb_abs ps n T)"
  by (simp_all add: hb_abs_def hb_NewMiddleware_def hybrid_NewMiddleware_def hb_Reset_def hybrid_Reset_def hb_Primary_def hybrid_Primary_def Let_def)

lemma hb_ReadPacket_refines:
  assumes "hb_rep ps (length ps) tail T" "\<not> bm_primary T" "carries p x" "sendable p"
  shows "\<exists>x' T'. hb_ReadPacket x T = Some (Inr OwnPending, x', T') \<and> pending_at p (dec_at T') \<and>
    hb_rep (ps @ [p]) (length ps + 1) (packet_body p) T' \<and>
    hybrid_ReadPacket (Msg p) (hb_abs ps (length ps) T) = (Msg p, hb_abs (ps @ [p]) (length ps + 1) T')"
  using record_rep [OF assms] assms(2) by (force simp: hybrid_ReadPacket_def hb_abs_def nth_append)

lemma hb_PreRead_refines:
  assumes "hb_rep ps n [] T" "\<forall>p\<in>set ps. sendable p"
  shows "case hybrid_PreRead (hb_abs ps n T) of
      (None, _) \<Rightarrow> hb_PreRead True T = Some (Inr NoPacket, T)
    | (Some m, A) \<Rightarrow> \<exists>p T'. m = Msg p \<and> hb_PreRead True T = Some (Inr OwnPending, T') \<and> pending_at p (dec_at T') \<and>
        hb_rep ps (n + 1) (packet_body p) T' \<and> A = hb_abs ps (n + 1) T'"
proof (cases "bm_primary T \<and> n < length ps")
  case True
  with PreRead_rep(2) [OF assms(1) _ assms(2)] show ?thesis by (force simp: hybrid_PreRead_def hybrid_Buffered_def hb_abs_def)
next
  case False
  moreover have "n \<le> length ps" using assms(1) by (simp add: hb_rep_def)
  ultimately show ?thesis using PreRead_rep(1) [OF assms(1) _ assms(2)]
    by (auto simp: hybrid_PreRead_def hybrid_Buffered_def hb_abs_def hb_PreRead_def)
qed

lemma hb_WritePacket_refines:
  assumes "hb_rep ps n [] T" "\<forall>p\<in>set ps. sendable p"
  shows "hb_WritePacket m T = hybrid_WritePacket m (hb_abs ps n T)"
proof -
  have i: "buf_ok (bm_buf T)" "dec_inv (dec_at T)" "n \<le> length ps" using assms(1) by (simp_all add: hb_rep_def)
  with drained_iff(2) [OF i(1,2)] hb_rep_drained [OF assms] show ?thesis
    by (auto simp: hb_WritePacket_def hybrid_WritePacket_def hybrid_Buffered_def hb_abs_def)
qed

section \<open>Result\<close>

text \<open>
  (C16) The record is replayed.  Packets of any size and number that can be transmitted come to a new or reset middleware, concrete or
  pending in the decoder of the client; each is handed on, and whatever the other side reads of it, all, a part or nothing, no call reports an error and the reads
  see the packet's bytes.  After \<^verbatim>\<open>Primary\<close>, reading through \<^verbatim>\<open>PreRead\<close> and decoding gives the same packets in the same order, then
  nil; as long as one of them has not been read every answer is dropped, and once the last one was read every answer other than
  an error passes unchanged.
\<close>

theorem hybrid_buffer_replays:
  assumes "T0 = hb_NewMiddleware \<or> (\<exists>qs n tail T1. hb_rep qs n tail T1 \<and> T0 = hb_Reset T1)"
    "\<forall>(p, x, f, v)\<in>set xs. sendable p \<and> carries p x \<and> (\<exists>bs. consumes p f v bs)"
  shows "\<exists>T. hb_sends (map (\<lambda>(p, x, f, v). (x, f)) xs) T0 = Some (Inr (map (\<lambda>(p, x, f, v). v) xs), T) \<and>
    (\<forall>read rest. map fst xs = read @ rest \<longrightarrow> (\<exists>T'. hb_replay read (hb_Primary T) = Some (Inr read, T') \<and>
       (if rest = [] then hb_PreRead True T' = Some (Inr NoPacket, T') \<and>
          (\<forall>m. msg_Type m \<noteq> TypeMarkiplierResponse \<longrightarrow> hb_WritePacket m T' = Some (Inr (Some m)))
        else \<forall>m. hb_WritePacket m T' = Some (Inr None))))"
proof -
  let ?ps = "map fst xs"
  have T0: "hb_rep [] (length []) [] T0" "\<not> bm_primary T0"
    using assms(1) hb_NewMiddleware_rep hb_Reset_rep by (auto simp: hb_NewMiddleware_def hb_Reset_def Let_def)
  from sends_rep [OF T0 assms(2)] obtain T tail where s:
    "hb_sends (map (\<lambda>(p, x, f, v). (x, f)) xs) T0 = Some (Inr (map (\<lambda>(p, x, f, v). v) xs), T)" "hb_rep ?ps (length xs) tail T" by auto
  have ok: "\<forall>p\<in>set ?ps. sendable p" using assms(2) by auto
  have P: "hb_rep ?ps 0 [] (hb_Primary T)" "bm_primary (hb_Primary T)"
    using hb_Primary_rep [OF s(2)] by (simp_all add: hb_Primary_def Let_def)
  have "\<exists>T'. hb_replay read (hb_Primary T) = Some (Inr read, T') \<and>
       (if rest = [] then hb_PreRead True T' = Some (Inr NoPacket, T') \<and>
          (\<forall>m. msg_Type m \<noteq> TypeMarkiplierResponse \<longrightarrow> hb_WritePacket m T' = Some (Inr (Some m)))
        else \<forall>m. hb_WritePacket m T' = Some (Inr None))" if e: "?ps = read @ rest" for read rest
  proof -
    from replay_rep [OF P ok, of read rest] e obtain T' where r: "hb_replay read (hb_Primary T) = Some (Inr read, T')" "bm_primary T'"
      "hb_rep ?ps (length read) [] T'" by auto
    have "length ?ps = length read + length rest" using e by (metis length_append)
    with r(1) PreRead_rep(1) [OF r(3,2) ok] WritePacket_rep [OF r(3,2) ok] show ?thesis by auto
  qed
  with s(1) show ?thesis by blast
qed

definition sample_record :: "packet list" where
  "sample_record = [PQuery ''BEGIN'', PParse \<lparr>Parse_Destination = [], Parse_Query = ''SELECT 1'', Parse_ParameterDataTypes = []\<rparr>, PSync Sync]"

definition sample_pending :: "packet \<Rightarrow> decoder" where
  "sample_pending p = (NewDecoder [(packet_body p, None)])\<lparr>d_packetType := packet_Type p, d_packetLength := packet_Length p\<rparr>"

theorem hybrid_buffer_replays_witness:
  "\<exists>T T'. hb_sends [(Concrete (sample_record ! 0), packet_ReadFrom (sample_record ! 0)), (Pending (sample_pending (sample_record ! 1)), \<lambda>d. Some (Inl EOF, d)),
      (Concrete (sample_record ! 2), packet_ReadFrom (sample_record ! 2))] hb_NewMiddleware =
      Some (Inr [Inr (sample_record ! 0), Inl EOF, Inr (sample_record ! 2)], T) \<and>
    hb_replay sample_record (hb_Primary T) = Some (Inr sample_record, T') \<and> hb_PreRead True T' = Some (Inr NoPacket, T')"
proof -
  let ?p = "\<lambda>i. sample_record ! i"
  let ?xs = "[(?p 0, Concrete (?p 0), packet_ReadFrom (?p 0), Inr (?p 0)), (?p 1, Pending (sample_pending (?p 1)), \<lambda>d. Some (Inl EOF, d), Inl EOF),
    (?p 2, Concrete (?p 2), packet_ReadFrom (?p 2), Inr (?p 2))]"
  have s: "sendable (?p 0)" "sendable (?p 1)" "sendable (?p 2)"
    by (simp_all add: sample_record_def sendable_def Query_ok_def Parse_ok_def Sync_ok_def no_nul_def fits31_def Query_Length_def Parse_Length_def
        Sync_Length_def go_len_def type_bytes TypeQuery_def TypeSync_def)
  have "pending_at p (sample_pending p)" for p
    by (simp add: pending_at_def sample_pending_def NewDecoder_def dec_Reset_def dec_inv_def clean_def dec_stream_def buffered_def)
  moreover have "consumes p (\<lambda>d. Some (Inl EOF, d)) (Inl EOF) []" for p :: packet
    by (auto simp: consumes_def pending_at_def dec_step_refl go_len_def)
  ultimately have h: "\<forall>(p, x, f, v)\<in>set ?xs. sendable p \<and> carries p x \<and> (\<exists>bs. consumes p f v bs)"
    using s consumes_ReadFrom by auto
  have "map fst ?xs = sample_record @ []" by (simp add: sample_record_def)
  with hybrid_buffer_replays [OF disjI1 [OF refl] h] show ?thesis by force
qed

end
