(* ===== verification/Discovery.thy ===== *)
theory Discovery
  imports Credentials Go_Collections "HOL-Library.AList"
begin

text \<open>
  The discovery handler of \<^verbatim>\<open>lib/gat/handlers/discovery\<close>: it keeps one pool per user and database of the clusters that a
  discoverer reports, and follows their changes.  A pool is an address in a store; the store holds the calls that the
  pool received, in order.  Maps are association lists, so that a loop over a map runs in the order of the list; the
  theorems quantify over the lists and hold for every order.
\<close>

section \<open>cluster.go, recipe.go, dialer.go\<close>

record User =
  us_Username :: string
  us_Password :: string

record Node =
  nd_Address :: string
  nd_Priority :: int

record Cluster =
  cl_ID :: string
  cl_Primary :: Node
  cl_Replicas :: "(string \<times> Node) list"
  cl_Databases :: "string list"
  cl_Users :: "User list"

record Dialer =
  dl_Address :: string
  dl_Username :: string
  dl_Credentials :: "credentials option"
  dl_Database :: string
  dl_SSLMode :: SSLMode
  dl_SSLConfig :: "nat option"
  dl_Parameters :: "(CIString \<times> string) list"

record recipe_spec =
  rs_Dialer :: Dialer
  rs_Priority :: int
  rs_MinConnections :: int
  rs_MaxConnections :: int

section \<open>State\<close>

datatype pool_op =
    OAddRecipe string recipe_spec | ORemoveRecipe string | OAddReplicaRecipe string recipe_spec | ORemoveReplicaRecipe string | OClose

text \<open>The configuration; \<open>dc_ReplicaPool\<close> says whether the pools of the factory implement \<^verbatim>\<open>pool.ReplicaPool\<close> (the hybrid pool).\<close>

record disc_config =
  dc_ServerSSLMode :: SSLMode
  dc_sslConfig :: "nat option"
  dc_ServerMinConnections :: int
  dc_ServerMaxConnections :: int
  dc_serverStartupParameters :: "(CIString \<times> string) list"
  dc_ReplicaPool :: bool

record discovery =
  di_config :: disc_config
  di_open :: bool
  di_clusters :: "(string \<times> Cluster) list"
  di_creds :: "(User \<times> credentials option) list"
  di_pools :: "((string \<times> string) \<times> nat \<times> credentials option) list"
  di_heap :: "nat \<Rightarrow> pool_op list"
  di_next :: nat

definition on_pool :: "nat \<Rightarrow> pool_op \<Rightarrow> discovery \<Rightarrow> discovery" where
  "on_pool p x T = T\<lparr>di_heap := (di_heap T)(p := di_heap T p @ [x])\<rparr>"

definition poolFactory_NewPool :: "discovery \<Rightarrow> nat \<times> discovery" where
  "poolFactory_NewPool T = (di_next T, T\<lparr>di_next := di_next T + 1\<rparr>)"

section \<open>The pools\<close>

definition toReplicaUsername :: "string \<Rightarrow> string" where
  "toReplicaUsername username = username @ ''_ro''"

definition toReplicaUser :: "User \<Rightarrow> User" where
  "toReplicaUser user = \<lparr>us_Username = toReplicaUsername (us_Username user), us_Password = us_Password user\<rparr>"

definition getCreds :: "User \<Rightarrow> discovery \<Rightarrow> credentials option \<times> discovery" where
  "getCreds user T =
     (case map_of (di_creds T) user of
        Some creds \<Rightarrow> (creds, T)
      | None \<Rightarrow>
          let creds = FromString (us_Username user) (us_Password user) in
          (creds, T\<lparr>di_creds := AList.update user creds (di_creds T)\<rparr>))"

definition getOrAddPool :: "User \<Rightarrow> string \<Rightarrow> discovery \<Rightarrow> (nat \<times> credentials option) \<times> discovery" where
  "getOrAddPool user database T =
     (case map_of (di_pools T) (us_Username user, database) of
        Some old \<Rightarrow> (old, T)
      | None \<Rightarrow>
          (case getCreds user T of (creds, T) \<Rightarrow>
           case poolFactory_NewPool T of (p, T) \<Rightarrow>
             ((p, creds), T\<lparr>di_pools := AList.update (us_Username user, database) (p, creds) (di_pools T)\<rparr>)))"

definition getOrAddReplicaPool :: "User \<Rightarrow> string \<Rightarrow> discovery \<Rightarrow> (nat \<times> credentials option) \<times> discovery" where
  "getOrAddReplicaPool user database T = getOrAddPool (toReplicaUser user) database T"

definition getPool :: "string \<Rightarrow> string \<Rightarrow> discovery \<Rightarrow> (nat \<times> credentials option) option" where
  "getPool user database T = map_of (di_pools T) (user, database)"

definition getReplicaPool :: "string \<Rightarrow> string \<Rightarrow> discovery \<Rightarrow> (nat \<times> credentials option) option" where
  "getReplicaPool user database T = getPool (toReplicaUsername user) database T"

definition removePool :: "string \<Rightarrow> string \<Rightarrow> discovery \<Rightarrow> discovery" where
  "removePool user database T =
     (case map_of (di_pools T) (user, database) of
        None \<Rightarrow> T
      | Some (p, creds) \<Rightarrow> let T = on_pool p OClose T in T\<lparr>di_pools := AList.delete (user, database) (di_pools T)\<rparr>)"

definition removeReplicaPool :: "string \<Rightarrow> string \<Rightarrow> discovery \<Rightarrow> discovery" where
  "removeReplicaPool user database T = removePool (toReplicaUsername user) database T"

section \<open>The nodes of a pool\<close>

definition node_recipe :: "disc_config \<Rightarrow> User \<Rightarrow> credentials option \<Rightarrow> string \<Rightarrow> Node \<Rightarrow> recipe_spec" where
  "node_recipe c user creds database node =
     \<lparr>rs_Dialer = \<lparr>dl_Address = nd_Address node, dl_Username = us_Username user, dl_Credentials = creds, dl_Database = database,
        dl_SSLMode = dc_ServerSSLMode c, dl_SSLConfig = dc_sslConfig c, dl_Parameters = dc_serverStartupParameters c\<rparr>,
      rs_Priority = nd_Priority node, rs_MinConnections = dc_ServerMinConnections c, rs_MaxConnections = dc_ServerMaxConnections c\<rparr>"

definition addPrimaryNode :: "User \<Rightarrow> string \<Rightarrow> Node \<Rightarrow> discovery \<Rightarrow> discovery" where
  "addPrimaryNode user database primary T =
     (case getOrAddPool user database T of ((p, creds), T) \<Rightarrow>
        on_pool p (OAddRecipe ''primary'' (node_recipe (di_config T) user creds database primary)) T)"

definition removePrimaryNode :: "string \<Rightarrow> string \<Rightarrow> discovery \<Rightarrow> discovery" where
  "removePrimaryNode username database T = removePool username database T"

definition addReplicaNodes :: "User \<Rightarrow> string \<Rightarrow> (string \<times> Node) list \<Rightarrow> discovery \<Rightarrow> discovery" where
  "addReplicaNodes user database replicas T =
     (case getOrAddPool user database T of ((p, creds), T) \<Rightarrow>
        if dc_ReplicaPool (di_config T) then
          fold (\<lambda>(i, replica) T. on_pool p (OAddReplicaRecipe i (node_recipe (di_config T) user creds database replica)) T) replicas T
        else
          (case getOrAddReplicaPool user database T of ((rp, _), T) \<Rightarrow>
             fold (\<lambda>(i, replica) T. on_pool rp (OAddRecipe i (node_recipe (di_config T) user creds database replica)) T) replicas T))"

definition removeReplicaNodes :: "string \<Rightarrow> string \<Rightarrow> (string \<times> Node) list \<Rightarrow> discovery \<Rightarrow> discovery" where
  "removeReplicaNodes username database replicas T =
     (case getPool username database T of
        None \<Rightarrow> T
      | Some (p, creds) \<Rightarrow>
          if dc_ReplicaPool (di_config T) then fold (\<lambda>(key, _). on_pool p (ORemoveReplicaRecipe key)) replicas T
          else removeReplicaPool username database T)"

definition addReplicaNode :: "User \<Rightarrow> string \<Rightarrow> string \<Rightarrow> Node \<Rightarrow> discovery \<Rightarrow> discovery" where
  "addReplicaNode user database i replica T =
     (case getOrAddPool user database T of ((p, creds), T) \<Rightarrow>
        let d = node_recipe (di_config T) user creds database replica in
        if dc_ReplicaPool (di_config T) then on_pool p (OAddReplicaRecipe i d) T
        else (case getOrAddReplicaPool user database T of ((rp, _), T) \<Rightarrow> on_pool rp (OAddRecipe i d) T))"

definition removeReplicaNode :: "string \<Rightarrow> string \<Rightarrow> string \<Rightarrow> discovery \<Rightarrow> discovery" where
  "removeReplicaNode username database i T =
     (case getPool username database T of
        None \<Rightarrow> T
      | Some (p, creds) \<Rightarrow>
          if dc_ReplicaPool (di_config T) then on_pool p (ORemoveReplicaRecipe i) T
          else
            (case getReplicaPool username database T of
               None \<Rightarrow> T
             | Some (rp, _) \<Rightarrow> on_pool rp (ORemoveRecipe i) T))"

section \<open>Changes of a cluster\<close>

definition each_pool :: "(User \<Rightarrow> string \<Rightarrow> discovery \<Rightarrow> discovery) \<Rightarrow> User list \<Rightarrow> string list \<Rightarrow> discovery \<Rightarrow> discovery" where
  "each_pool f users databases = fold (\<lambda>user. fold (\<lambda>database. f user database) databases) users"

definition replacePrimary :: "User list \<Rightarrow> string list \<Rightarrow> Node \<Rightarrow> discovery \<Rightarrow> discovery" where
  "replacePrimary users databases primary = each_pool (\<lambda>user database. addPrimaryNode user database primary) users databases"

definition addReplicas :: "(string \<times> Node) list \<Rightarrow> User list \<Rightarrow> string list \<Rightarrow> discovery \<Rightarrow> discovery" where
  "addReplicas replicas users databases = each_pool (\<lambda>user database. addReplicaNodes user database replicas) users databases"

definition removeReplicas :: "(string \<times> Node) list \<Rightarrow> User list \<Rightarrow> string list \<Rightarrow> discovery \<Rightarrow> discovery" where
  "removeReplicas replicas users databases =
     each_pool (\<lambda>user database. removeReplicaNodes (us_Username user) database replicas) users databases"

definition addReplica :: "User list \<Rightarrow> string list \<Rightarrow> string \<Rightarrow> Node \<Rightarrow> discovery \<Rightarrow> discovery" where
  "addReplica users databases i replica = each_pool (\<lambda>user database. addReplicaNode user database i replica) users databases"

definition removeReplica :: "User list \<Rightarrow> string list \<Rightarrow> string \<Rightarrow> discovery \<Rightarrow> discovery" where
  "removeReplica users databases i = each_pool (\<lambda>user database. removeReplicaNode (us_Username user) database i) users databases"

definition addUser :: "Node \<Rightarrow> (string \<times> Node) list \<Rightarrow> string list \<Rightarrow> User \<Rightarrow> discovery \<Rightarrow> discovery" where
  "addUser primary replicas databases user =
     fold (\<lambda>database T. addReplicaNodes user database replicas (addPrimaryNode user database primary T)) databases"

definition removeUser :: "(string \<times> Node) list \<Rightarrow> string list \<Rightarrow> string \<Rightarrow> discovery \<Rightarrow> discovery" where
  "removeUser replicas databases username =
     fold (\<lambda>database T. removePrimaryNode username database (removeReplicaNodes username database replicas T)) databases"

definition addDatabase :: "Node \<Rightarrow> (string \<times> Node) list \<Rightarrow> User list \<Rightarrow> string \<Rightarrow> discovery \<Rightarrow> discovery" where
  "addDatabase primary replicas users database =
     fold (\<lambda>user T. addReplicaNodes user database replicas (addPrimaryNode user database primary T)) users"

definition removeDatabase :: "(string \<times> Node) list \<Rightarrow> User list \<Rightarrow> string \<Rightarrow> discovery \<Rightarrow> discovery" where
  "removeDatabase replicas users database =
     fold (\<lambda>user T. removePrimaryNode (us_Username user) database (removeReplicaNodes (us_Username user) database replicas T)) users"

text \<open>The parts of \<^verbatim>\<open>updated\<close>, in their order.\<close>

definition update_replicas :: "Cluster \<Rightarrow> Cluster \<Rightarrow> discovery \<Rightarrow> discovery" where
  "update_replicas prv nxt T =
     (if cl_Replicas prv \<noteq> [] \<and> cl_Replicas nxt = [] then removeReplicas (cl_Replicas prv) (cl_Users prv) (cl_Databases prv) T
      else if cl_Replicas prv = [] \<and> cl_Replicas nxt \<noteq> [] then addReplicas (cl_Replicas nxt) (cl_Users prv) (cl_Databases prv) T
      else
        let T = fold (\<lambda>(i, nextReplica) T.
              case map_of (cl_Replicas prv) i of
                None \<Rightarrow> addReplica (cl_Users prv) (cl_Databases prv) i nextReplica T
              | Some prevReplica \<Rightarrow>
                  if prevReplica \<noteq> nextReplica then addReplica (cl_Users prv) (cl_Databases prv) i nextReplica T else T)
            (cl_Replicas nxt) T in
        fold (\<lambda>(i, _) T.
            if map_of (cl_Replicas nxt) i \<noteq> None then T else removeReplica (cl_Users prv) (cl_Databases prv) i T)
          (cl_Replicas prv) T)"

definition update_users :: "Cluster \<Rightarrow> Cluster \<Rightarrow> discovery \<Rightarrow> discovery" where
  "update_users prv nxt T = (
     let T = fold (\<lambda>nextUser T.
           case find (\<lambda>u. us_Username u = us_Username nextUser) (cl_Users prv) of
             None \<Rightarrow> addUser (cl_Primary nxt) (cl_Replicas nxt) (cl_Databases prv) nextUser T
           | Some prevUser \<Rightarrow>
               if us_Password nextUser \<noteq> us_Password prevUser then
                 addUser (cl_Primary nxt) (cl_Replicas nxt) (cl_Databases prv) nextUser
                   (removeUser (cl_Replicas nxt) (cl_Databases prv) (us_Username nextUser) T)
               else T)
         (cl_Users nxt) T in
     fold (\<lambda>prevUser T.
         if us_Username prevUser \<in> us_Username ` set (cl_Users nxt) then T
         else removeUser (cl_Replicas nxt) (cl_Databases prv) (us_Username prevUser) T)
       (cl_Users prv) T)"

definition update_databases :: "Cluster \<Rightarrow> Cluster \<Rightarrow> discovery \<Rightarrow> discovery" where
  "update_databases prv nxt T = (
     let T = fold (\<lambda>nextDatabase T.
           if \<not> slices_Contains (cl_Databases prv) nextDatabase
           then addDatabase (cl_Primary nxt) (cl_Replicas nxt) (cl_Users nxt) nextDatabase T else T)
         (cl_Databases nxt) T in
     fold (\<lambda>prevDatabase T.
         if \<not> slices_Contains (cl_Databases nxt) prevDatabase then removeDatabase (cl_Replicas nxt) (cl_Users nxt) prevDatabase T else T)
       (cl_Databases prv) T)"

definition updated :: "Cluster \<Rightarrow> Cluster \<Rightarrow> discovery \<Rightarrow> discovery" where
  "updated prv nxt T = (
     let T = T\<lparr>di_clusters := AList.update (cl_ID nxt) nxt (di_clusters T)\<rparr>;
         T = (if cl_Primary prv \<noteq> cl_Primary nxt then replacePrimary (cl_Users prv) (cl_Databases prv) (cl_Primary nxt) T else T) in
     update_databases prv nxt (update_users prv nxt (update_replicas prv nxt T)))"

definition added :: "Cluster \<Rightarrow> discovery \<Rightarrow> discovery" where
  "added cluster T =
     (case map_of (di_clusters T) (cl_ID cluster) of
        Some prv \<Rightarrow> updated prv cluster T
      | None \<Rightarrow>
          let T = T\<lparr>di_clusters := AList.update (cl_ID cluster) cluster (di_clusters T)\<rparr> in
          fold (addUser (cl_Primary cluster) (cl_Replicas cluster) (cl_Databases cluster)) (cl_Users cluster) T)"

definition removed :: "string \<Rightarrow> discovery \<Rightarrow> discovery" where
  "removed i T =
     (case map_of (di_clusters T) i of
        None \<Rightarrow> T
      | Some cluster \<Rightarrow>
          let T = T\<lparr>di_clusters := AList.delete i (di_clusters T)\<rparr> in
          fold (removeDatabase (cl_Replicas cluster) (cl_Users cluster)) (cl_Databases cluster) T)"

text \<open>\<^verbatim>\<open>reconcile\<close>, with what the discoverer answers; an error leaves everything as it is.\<close>

definition reconcile :: "fed_error + Cluster list \<Rightarrow> discovery \<Rightarrow> fed_error option \<times> discovery" where
  "reconcile answer T =
     (case answer of
        Inl err \<Rightarrow> (Some err, T)
      | Inr clusters \<Rightarrow>
          let T = fold (\<lambda>cluster T.
                case map_of (di_clusters T) (cl_ID cluster) of
                  None \<Rightarrow> added cluster T
                | Some prv \<Rightarrow> updated prv cluster T) clusters T in
          (None, fold (\<lambda>i T. if i \<in> cl_ID ` set clusters then T else removed i T) (map fst (di_clusters T)) T))"

section \<open>The loop, and the end\<close>

datatype disc_event = Added Cluster | Removed string | Reconcile "fed_error + Cluster list"

primrec disc_step :: "disc_event \<Rightarrow> discovery \<Rightarrow> discovery" where
  "disc_step (Added cluster) T = added cluster T"
| "disc_step (Removed i) T = removed i T"
| "disc_step (Reconcile answer) T = snd (reconcile answer T)"

definition discoverLoop :: "disc_event list \<Rightarrow> discovery \<Rightarrow> discovery" where
  "discoverLoop = fold disc_step"

definition new_discovery :: "disc_config \<Rightarrow> discovery" where
  "new_discovery c = \<lparr>di_config = c, di_open = True, di_clusters = [], di_creds = [], di_pools = [], di_heap = (\<lambda>_. []), di_next = 0\<rparr>"

definition disc_Cleanup :: "discovery \<Rightarrow> discovery" where
  "disc_Cleanup T =
     (if \<not> di_open T then T
      else
        fold (\<lambda>(k, p, creds) T. let T = on_pool p OClose T in T\<lparr>di_pools := AList.delete k (di_pools T)\<rparr>)
          (di_pools T) (T\<lparr>di_open := False\<rparr>))"

end
