(* ===== verification/Discovery_Tracks.thy ===== *)
theory Discovery_Tracks
  imports Discovery
begin

text \<open>
  What the discovery handler promises: no pool that it made is lost or closed twice, whatever is reported; and with hybrid
  pools its pools are, after every run of reports, exactly those of the clusters reported last.
\<close>

section \<open>What a pool was told\<close>

type_synonym recipes = "string \<rightharpoonup> recipe_spec"
type_synonym pool_view = "credentials option \<times> recipes \<times> recipes"

primrec pool_effect :: "pool_op \<Rightarrow> recipes \<times> recipes \<Rightarrow> recipes \<times> recipes" where
  "pool_effect (OAddRecipe n r) pq = ((fst pq)(n \<mapsto> r), snd pq)"
| "pool_effect (ORemoveRecipe n) pq = ((fst pq)(n := None), snd pq)"
| "pool_effect (OAddReplicaRecipe n r) pq = (fst pq, (snd pq)(n \<mapsto> r))"
| "pool_effect (ORemoveReplicaRecipe n) pq = (fst pq, (snd pq)(n := None))"
| "pool_effect OClose pq = (Map.empty, Map.empty)"

definition recipes_of :: "pool_op list \<Rightarrow> recipes \<times> recipes" where
  "recipes_of xs = fold pool_effect xs (Map.empty, Map.empty)"

definition view :: "discovery \<Rightarrow> string \<times> string \<Rightarrow> pool_view option" where
  "view T k = map_option (\<lambda>(p, creds). (creds, recipes_of (di_heap T p))) (map_of (di_pools T) k)"

definition user_creds :: "User \<Rightarrow> credentials option" where
  "user_creds u = FromString (us_Username u) (us_Password u)"

text \<open>The pools in the table are open and different; every other pool was closed once, and not used afterwards.\<close>

definition pool_live :: "pool_op list \<Rightarrow> bool" where
  "pool_live xs \<longleftrightarrow> OClose \<notin> set xs"

definition pool_dead :: "pool_op list \<Rightarrow> bool" where
  "pool_dead xs \<longleftrightarrow> (\<exists>ys. xs = ys @ [OClose] \<and> pool_live ys)"

definition pool_ids :: "discovery \<Rightarrow> nat list" where
  "pool_ids T = map (\<lambda>(k, p, creds). p) (di_pools T)"

definition disc_ok :: "discovery \<Rightarrow> bool" where
  "disc_ok T \<longleftrightarrow> distinct (map fst (di_pools T)) \<and> distinct (pool_ids T) \<and> (\<forall>p\<in>set (pool_ids T). p < di_next T \<and> pool_live (di_heap T p)) \<and>
     (\<forall>p<di_next T. p \<notin> set (pool_ids T) \<longrightarrow> pool_dead (di_heap T p)) \<and> (\<forall>p\<ge>di_next T. di_heap T p = []) \<and>
     (\<forall>u c. map_of (di_creds T) u = Some c \<longrightarrow> c = user_creds u)"

definition same :: "discovery \<Rightarrow> discovery \<Rightarrow> bool" where
  "same T T' \<longleftrightarrow> di_config T' = di_config T \<and> di_clusters T' = di_clusters T \<and> di_open T' = di_open T"

lemma same_refl [simp]: "same T T"
  by (simp add: same_def)

lemma same_trans: "same T T' \<Longrightarrow> same T' T'' \<Longrightarrow> same T T''"
  by (simp add: same_def)

lemma pool_ids_mem: "map_of (di_pools T) k = Some (p, c) \<Longrightarrow> p \<in> set (pool_ids T)"
  by (force simp: pool_ids_def dest: map_of_SomeD)

lemma pool_ids_inj:
  assumes "disc_ok T" "map_of (di_pools T) k = Some (p, c)" "map_of (di_pools T) k' = Some (p, c')"
  shows "k = k' \<and> c = c'"
proof -
  have d: "distinct (map (\<lambda>(k, p, creds). p) (di_pools T))" using assms(1) by (simp add: disc_ok_def pool_ids_def)
  have "(k, p, c) \<in> set (di_pools T)" "(k', p, c') \<in> set (di_pools T)" using assms(2,3) by (auto dest: map_of_SomeD)
  with d show ?thesis unfolding distinct_map inj_on_def by fastforce
qed

section \<open>The steps on the store\<close>

lemma on_pool_fields [simp]:
  "di_pools (on_pool p x T) = di_pools T" "di_next (on_pool p x T) = di_next T" "di_creds (on_pool p x T) = di_creds T"
  "pool_ids (on_pool p x T) = pool_ids T" "same T (on_pool p x T)" "di_config (on_pool p x T) = di_config T"
  by (simp_all add: on_pool_def pool_ids_def same_def)

lemma on_pool_ok:
  assumes "disc_ok T" "map_of (di_pools T) k = Some (p, c)" "x \<noteq> OClose"
  shows "disc_ok (on_pool p x T)" "view (on_pool p x T) = (view T)(k \<mapsto> (c, pool_effect x (recipes_of (di_heap T p))))"
proof -
  have "p \<in> set (pool_ids T)" using assms(2) by (rule pool_ids_mem)
  then show "disc_ok (on_pool p x T)" using assms(1,3) by (auto simp: disc_ok_def on_pool_def pool_live_def pool_ids_def)
  show "view (on_pool p x T) = (view T)(k \<mapsto> (c, pool_effect x (recipes_of (di_heap T p))))"
  proof
    fix k' show "view (on_pool p x T) k' = ((view T)(k \<mapsto> (c, pool_effect x (recipes_of (di_heap T p))))) k'"
    proof (cases "k' = k")
      case True
      with assms(2) show ?thesis by (simp add: view_def on_pool_def recipes_of_def)
    next
      case False
      with pool_ids_inj [OF assms(1,2)] have "map_of (di_pools T) k' = Some (q, c') \<Longrightarrow> q \<noteq> p" for q c' by blast
      with False show ?thesis by (cases "map_of (di_pools T) k'") (auto simp: view_def on_pool_def)
    qed
  qed
qed

lemma alist_update_new: "k \<notin> set (map fst xs) \<Longrightarrow> AList.update k v xs = xs @ [(k, v)]"
  by (induction xs) auto

definition base_view :: "User \<Rightarrow> pool_view option \<Rightarrow> pool_view" where
  "base_view u v = (case v of None \<Rightarrow> (user_creds u, Map.empty, Map.empty) | Some v \<Rightarrow> v)"

lemma getOrAddPool_ok:
  assumes "disc_ok T" "getOrAddPool u d T = ((p, c), T')"
  shows "disc_ok T' \<and> same T T' \<and> map_of (di_pools T') (us_Username u, d) = Some (p, c) \<and>
    view T' = (view T)((us_Username u, d) \<mapsto> base_view u (view T (us_Username u, d))) \<and>
    (c, recipes_of (di_heap T' p)) = base_view u (view T (us_Username u, d))"
proof (cases "map_of (di_pools T) (us_Username u, d)")
  case None
  let ?k = "(us_Username u, d)"
  obtain cr T1 where g: "getCreds u T = (cr, T1)" by fastforce
  have t1: "cr = user_creds u" "di_pools T1 = di_pools T" "di_heap T1 = di_heap T" "di_next T1 = di_next T" "same T T1"
    "\<forall>u c. map_of (di_creds T1) u = Some c \<longrightarrow> c = user_creds u"
    using g assms(1) by (auto simp: getCreds_def disc_ok_def user_creds_def same_def update_conv' Let_def split: option.splits if_splits)
  have T': "p = di_next T" "c = cr" "T' = T1\<lparr>di_next := di_next T + 1, di_pools := AList.update ?k (di_next T, cr) (di_pools T)\<rparr>"
    using assms(2) None g t1(2,4) by (auto simp: getOrAddPool_def poolFactory_NewPool_def)
  have nk: "?k \<notin> set (map fst (di_pools T))" using None by (simp add: map_of_eq_None_iff)
  then have up: "AList.update ?k (di_next T, cr) (di_pools T) = di_pools T @ [(?k, di_next T, cr)]" by (rule alist_update_new)
  have fresh: "di_next T \<notin> set (pool_ids T)" "di_heap T (di_next T) = []" using assms(1) by (auto simp: disc_ok_def)
  have ids: "pool_ids T' = pool_ids T @ [di_next T]" using T'(3) up by (simp add: pool_ids_def)
  have "disc_ok T'" using assms(1) T'(3) up nk fresh ids t1 unfolding disc_ok_def
    by (auto simp: less_Suc_eq pool_live_def)
  moreover have "view T' = (view T)(?k \<mapsto> base_view u (view T ?k))" using None T'(3) t1(1,3) fresh(2)
    by (auto simp: fun_eq_iff view_def base_view_def update_conv' recipes_of_def)
  moreover have "(c, recipes_of (di_heap T' p)) = base_view u (view T ?k)" using None T' t1(1,3) fresh(2)
    by (simp add: base_view_def view_def recipes_of_def)
  ultimately show ?thesis using T' t1(5) by (auto simp: same_def update_conv')
next
  case (Some old)
  with assms have "old = (p, c)" "T' = T" by (simp_all add: getOrAddPool_def)
  with Some assms(1) show ?thesis by (auto simp: view_def base_view_def fun_eq_iff)
qed

lemma removePool_ok:
  assumes "disc_ok T"
  shows "disc_ok (removePool n d T)" "same T (removePool n d T)" "view (removePool n d T) = (view T)((n, d) := None)"
proof -
  have "disc_ok (removePool n d T) \<and> same T (removePool n d T) \<and> view (removePool n d T) = (view T)((n, d) := None)"
  proof (cases "map_of (di_pools T) (n, d)")
    case None
    with assms show ?thesis by (auto simp: removePool_def view_def fun_eq_iff)
  next
    case (Some pc)
    obtain p c where pc: "pc = (p, c)" by fastforce
    let ?T = "removePool n d T"
    have T': "?T = (on_pool p OClose T)\<lparr>di_pools := AList.delete (n, d) (di_pools T)\<rparr>" using Some pc by (simp add: removePool_def)
    let ?g = "\<lambda>(k :: string \<times> string, p :: nat, creds :: credentials option). p"
    have m: "((n, d), p, c) \<in> set (di_pools T)" using Some pc by (auto dest: map_of_SomeD)
    have dk: "distinct (map fst (di_pools T))" and di: "distinct (pool_ids T)" using assms by (simp_all add: disc_ok_def)
    have ids: "set (pool_ids ?T) = set (pool_ids T) - {p}"
    proof -
      have "inj_on fst (set (di_pools T))" using dk by (simp add: distinct_map)
      then have u: "x = ((n, d), p, c) \<longleftrightarrow> fst x = (n, d)" if "x \<in> set (di_pools T)" for x
        using inj_on_eq_iff [of fst "set (di_pools T)" x "((n, d), p, c)"] m that by simp
      have "set (AList.delete (n, d) (di_pools T)) = {x \<in> set (di_pools T). fst x \<noteq> (n, d)}" by (auto simp: AList.delete_eq)
      also have "\<dots> = set (di_pools T) - {((n, d), p, c)}" using u by auto
      finally have "set (AList.delete (n, d) (di_pools T)) = set (di_pools T) - {((n, d), p, c)}" .
      then have "set (pool_ids ?T) = ?g ` (set (di_pools T) - {((n, d), p, c)})" unfolding T' by (simp add: pool_ids_def)
      also have "\<dots> = ?g ` set (di_pools T) - ?g ` {((n, d), p, c)}"
        by (rule inj_on_image_set_diff [of ?g "set (di_pools T)"]) (use di m in \<open>simp_all add: pool_ids_def distinct_map\<close>)
      finally show ?thesis by (simp add: pool_ids_def)
    qed
    have dd: "distinct (pool_ids ?T)" using di unfolding T' by (simp add: pool_ids_def AList.delete_eq distinct_map_filter)
    have live: "pool_live (di_heap T p)" "p < di_next T" using assms m by (force simp: disc_ok_def pool_ids_def)+
    have "disc_ok ?T" using assms ids dd live unfolding disc_ok_def
      by (auto simp: T' on_pool_def pool_dead_def distinct_delete)
    moreover have "view ?T = (view T)((n, d) := None)"
    proof
      fix k show "view ?T k = ((view T)((n, d) := None)) k"
      proof (cases "k = (n, d)")
        case False
        have "map_of (di_pools T) k = Some (q, c') \<Longrightarrow> q \<noteq> p" for q c' using pool_ids_inj [OF assms, of k] Some pc False by blast
        with False show ?thesis by (cases "map_of (di_pools T) k") (auto simp: view_def T' on_pool_def delete_conv')
      qed (simp add: view_def T' delete_conv')
    qed
    ultimately show ?thesis by (simp add: T' same_def on_pool_def)
  qed
  then show "disc_ok (removePool n d T)" "same T (removePool n d T)" "view (removePool n d T) = (view T)((n, d) := None)" by simp_all
qed

section \<open>Steps on one pool\<close>

lemma fold_on_pool:
  assumes "disc_ok T" "map_of (di_pools T) k = Some (p, c)" "OClose \<notin> set xs"
  shows "disc_ok (fold (on_pool p) xs T)" "same T (fold (on_pool p) xs T)" "di_pools (fold (on_pool p) xs T) = di_pools T"
    "view (fold (on_pool p) xs T) = (view T)(k \<mapsto> (c, fold pool_effect xs (recipes_of (di_heap T p))))"
proof -
  have "disc_ok (fold (on_pool p) xs T) \<and> same T (fold (on_pool p) xs T) \<and> di_pools (fold (on_pool p) xs T) = di_pools T \<and>
    view (fold (on_pool p) xs T) = (view T)(k \<mapsto> (c, fold pool_effect xs (recipes_of (di_heap T p))))"
    using assms
  proof (induction xs arbitrary: T)
    case Nil
    then show ?case by (auto simp: view_def fun_eq_iff)
  next
    case (Cons x xs)
    note p = on_pool_ok [OF Cons.prems(1,2), of x]
    have "recipes_of (di_heap (on_pool p x T) p) = pool_effect x (recipes_of (di_heap T p))" by (simp add: on_pool_def recipes_of_def)
    with Cons.IH [of "on_pool p x T"] Cons.prems p same_trans [OF on_pool_fields(5)] show ?case by auto
  qed
  then show "disc_ok (fold (on_pool p) xs T)" "same T (fold (on_pool p) xs T)" "di_pools (fold (on_pool p) xs T) = di_pools T"
    "view (fold (on_pool p) xs T) = (view T)(k \<mapsto> (c, fold pool_effect xs (recipes_of (di_heap T p))))" by simp_all
qed

lemma fold_on_pool_nodes:
  "fold (\<lambda>(i, n) T. on_pool p (h i (node_recipe (di_config T) u cr d n)) T) rs T =
   fold (on_pool p) (map (\<lambda>(i, n). h i (node_recipe (di_config T) u cr d n)) rs) T"
proof (induction rs arbitrary: T)
  case (Cons r rs)
  obtain i n where "r = (i, n)" by fastforce
  with Cons.IH [of "on_pool p (h i (node_recipe (di_config T) u cr d n)) T"] show ?case by simp
qed simp

lemma fold_on_pool_keys: "fold (\<lambda>(i, _). on_pool p (h i)) rs T = fold (on_pool p) (map (\<lambda>(i, _). h i) rs) T"
  by (induction rs arbitrary: T) auto

section \<open>Steps on the pools of some users and databases\<close>

text \<open>
  A step on the pools of the users \<open>us\<close> and the databases \<open>ds\<close>: each of them changes by \<open>e\<close>, no other pool changes.
\<close>

type_synonym effect = "User \<Rightarrow> string \<Rightarrow> pool_view option \<Rightarrow> pool_view option"

definition acts :: "discovery \<Rightarrow> User list \<Rightarrow> string list \<Rightarrow> effect \<Rightarrow> discovery \<Rightarrow> bool" where
  "acts T us ds e T' \<longleftrightarrow> disc_ok T' \<and> same T T' \<and>
     (\<forall>u\<in>set us. \<forall>d\<in>set ds. view T' (us_Username u, d) = e u d (view T (us_Username u, d))) \<and>
     (\<forall>n d. \<not> (n \<in> us_Username ` set us \<and> d \<in> set ds) \<longrightarrow> view T' (n, d) = view T (n, d))"

definition ready :: "disc_config \<Rightarrow> discovery \<Rightarrow> bool" where
  "ready c T \<longleftrightarrow> disc_ok T \<and> di_config T = c \<and> dc_ReplicaPool c"

lemma acts_ready: "ready c T \<Longrightarrow> acts T us ds e T' \<Longrightarrow> ready c T'"
  by (simp add: ready_def acts_def same_def)

lemma acts_id: "ready c T \<Longrightarrow> acts T us ds (\<lambda>_ _ v. v) T"
  by (simp add: acts_def ready_def)

lemma acts_cong: "acts T us ds e T' \<Longrightarrow> (\<And>u d v. u \<in> set us \<Longrightarrow> d \<in> set ds \<Longrightarrow> e u d v = e' u d v) \<Longrightarrow> acts T us ds e' T'"
  by (simp add: acts_def)

lemma acts_comp:
  assumes "acts T us ds e T'" "acts T' us ds e' T''"
  shows "acts T us ds (\<lambda>u d v. e' u d (e u d v)) T''"
proof -
  have "same T T''" using assms same_trans unfolding acts_def by blast
  with assms show ?thesis unfolding acts_def by auto
qed

lemma acts_users:
  assumes "\<And>u T. u \<in> set us \<Longrightarrow> ready c T \<Longrightarrow> acts T [u] ds e (g u T)" "distinct (map us_Username us)" "ready c T"
  shows "acts T us ds e (fold g us T)"
  using assms
proof (induction us arbitrary: T)
  case Nil
  then show ?case by (simp add: acts_def ready_def)
next
  case (Cons u us)
  let ?T = "g u T"
  have s: "acts T [u] ds e ?T" using Cons.prems by simp
  have r: "acts ?T us ds e (fold g us ?T)" using Cons.IH [of ?T] Cons.prems acts_ready [OF Cons.prems(3) s] by simp
  have n: "us_Username u \<notin> us_Username ` set us" using Cons.prems(2) by simp
  have "same T (fold g us ?T)" using s r same_trans unfolding acts_def by blast
  moreover have "view (fold g us ?T) (us_Username v, d) = e v d (view T (us_Username v, d))" if "v \<in> set (u # us)" "d \<in> set ds" for v d
  proof (cases "v = u")
    case True
    with r n have "view (fold g us ?T) (us_Username u, d) = view ?T (us_Username u, d)" unfolding acts_def by blast
    with True s that(2) show ?thesis unfolding acts_def by simp
  next
    case False
    with that have v: "v \<in> set us" by simp
    with n have "us_Username v \<noteq> us_Username u" by (metis imageI)
    with v r s that(2) show ?thesis unfolding acts_def by simp
  qed
  moreover have "view (fold g us ?T) (n', d) = view T (n', d)" if "\<not> (n' \<in> us_Username ` set (u # us) \<and> d \<in> set ds)" for n' d
    using r s that unfolding acts_def by auto
  ultimately show ?case using r unfolding acts_def by simp
qed

lemma acts_databases:
  assumes "\<And>d T. d \<in> set ds \<Longrightarrow> ready c T \<Longrightarrow> acts T us [d] e (g d T)" "distinct ds" "ready c T"
  shows "acts T us ds e (fold g ds T)"
  using assms
proof (induction ds arbitrary: T)
  case Nil
  then show ?case by (simp add: acts_def ready_def)
next
  case (Cons d ds)
  let ?T = "g d T"
  have s: "acts T us [d] e ?T" using Cons.prems by simp
  have r: "acts ?T us ds e (fold g ds ?T)" using Cons.IH [of ?T] Cons.prems acts_ready [OF Cons.prems(3) s] by simp
  have n: "d \<notin> set ds" using Cons.prems(2) by simp
  have "same T (fold g ds ?T)" using s r same_trans unfolding acts_def by blast
  moreover have "view (fold g ds ?T) (us_Username u, d') = e u d' (view T (us_Username u, d'))" if "u \<in> set us" "d' \<in> set (d # ds)" for u d'
    using r s n that unfolding acts_def by (cases "d' = d") auto
  moreover have "view (fold g ds ?T) (n', d') = view T (n', d')" if "\<not> (n' \<in> us_Username ` set us \<and> d' \<in> set (d # ds))" for n' d'
    using r s that unfolding acts_def by auto
  ultimately show ?case using r unfolding acts_def by simp
qed

lemma acts_one:
  assumes "disc_ok T'" "same T T'" "view T' = (view T)((us_Username u, d) := e u d (view T (us_Username u, d)))"
  shows "acts T [u] [d] e T'"
  using assms by (auto simp: acts_def)

text \<open>The contract of the operations on one pool, and what it gives for the loops over users and databases.\<close>

locale node_op =
  fixes c :: disc_config and f :: "User \<Rightarrow> string \<Rightarrow> discovery \<Rightarrow> discovery" and e :: effect
  assumes step: "ready c T \<Longrightarrow> acts T [u] [d] e (f u d T)"
begin

lemma over_databases: "distinct ds \<Longrightarrow> ready c T \<Longrightarrow> acts T [u] ds e (fold (f u) ds T)"
  by (rule acts_databases) (auto intro: step)

lemma over_users: "distinct (map us_Username us) \<Longrightarrow> ready c T \<Longrightarrow> acts T us [d] e (fold (\<lambda>u. f u d) us T)"
  by (rule acts_users) (auto intro: step)

lemma over_pools:
  "distinct (map us_Username us) \<Longrightarrow> distinct ds \<Longrightarrow> ready c T \<Longrightarrow> acts T us ds e (each_pool f us ds T)"
  unfolding each_pool_def by (rule acts_users) (auto intro: over_databases)

end

section \<open>The operations on one pool\<close>

definition put_nodes :: "disc_config \<Rightarrow> User \<Rightarrow> credentials option \<Rightarrow> string \<Rightarrow> (string \<times> Node) list \<Rightarrow> recipes \<Rightarrow> recipes" where
  "put_nodes c u cr d = fold (\<lambda>(i, n) m. m(i \<mapsto> node_recipe c u cr d n))"

definition drop_nodes :: "(string \<times> Node) list \<Rightarrow> recipes \<Rightarrow> recipes" where
  "drop_nodes = fold (\<lambda>(i, _) m. m(i := None))"

definition e_primary :: "disc_config \<Rightarrow> Node \<Rightarrow> effect" where
  "e_primary c n u d v = (case base_view u v of (cr, p, q) \<Rightarrow> Some (cr, p(''primary'' \<mapsto> node_recipe c u cr d n), q))"

definition e_replicas :: "disc_config \<Rightarrow> (string \<times> Node) list \<Rightarrow> effect" where
  "e_replicas c rs u d v = (case base_view u v of (cr, p, q) \<Rightarrow> Some (cr, p, put_nodes c u cr d rs q))"

definition e_drop :: "(string \<times> Node) list \<Rightarrow> effect" where
  "e_drop rs u d v = map_option (\<lambda>(cr, p, q). (cr, p, drop_nodes rs q)) v"

lemma fold_effects:
  "fold pool_effect (map (\<lambda>(i, n). OAddReplicaRecipe i (node_recipe c u cr d n)) rs) (p, q) = (p, put_nodes c u cr d rs q)"
  "fold pool_effect (map (\<lambda>(i, _). ORemoveReplicaRecipe i) rs) (p, q) = (p, drop_nodes rs q)"
  by (induction rs arbitrary: q) (auto simp: put_nodes_def drop_nodes_def)

lemma getOrAddPool_use:
  assumes "ready c T" "getOrAddPool u d T = ((p, cr), T')" "OClose \<notin> set xs"
    "base_view u (view T (us_Username u, d)) = (cr', pq)"
  shows "cr' = cr" "di_config T' = c" "disc_ok (fold (on_pool p) xs T')" "same T (fold (on_pool p) xs T')"
    "view (fold (on_pool p) xs T') = (view T)((us_Username u, d) \<mapsto> (cr, fold pool_effect xs pq))"
proof -
  have "disc_ok T" "di_config T = c" using assms(1) by (simp_all add: ready_def)
  note g = getOrAddPool_ok [OF this(1) assms(2)]
  then have t: "disc_ok T'" "same T T'" "map_of (di_pools T') (us_Username u, d) = Some (p, cr)"
    "view T' = (view T)((us_Username u, d) \<mapsto> base_view u (view T (us_Username u, d)))" "cr' = cr" "recipes_of (di_heap T' p) = pq"
    using assms(4) by auto
  note f = fold_on_pool [OF t(1,3) assms(3)]
  show "cr' = cr" "di_config T' = c" using t(2,5) \<open>di_config T = c\<close> by (simp_all add: same_def)
  show "disc_ok (fold (on_pool p) xs T')" "same T (fold (on_pool p) xs T')" using f(1,2) same_trans [OF t(2)] by blast+
  show "view (fold (on_pool p) xs T') = (view T)((us_Username u, d) \<mapsto> (cr, fold pool_effect xs pq))" unfolding f(4) t(4,6) by simp
qed

lemma addPrimaryNode_acts: "ready c T \<Longrightarrow> acts T [u] [d] (e_primary c n) (addPrimaryNode u d n T)"
proof -
  assume r: "ready c T"
  obtain p cr T' where g: "getOrAddPool u d T = ((p, cr), T')" by (metis prod.exhaust)
  obtain cr' pq where b: "base_view u (view T (us_Username u, d)) = (cr', pq)" by (metis prod.exhaust)
  let ?x = "OAddRecipe ''primary'' (node_recipe c u cr d n)"
  note f = getOrAddPool_use [OF r g _ b, of "[?x]"]
  have a: "addPrimaryNode u d n T = on_pool p ?x T'" using g f(2) by (simp add: addPrimaryNode_def)
  show ?thesis unfolding a by (rule acts_one) (use f b in \<open>auto simp: e_primary_def split: prod.splits\<close>)
qed

lemma addReplicaNodes_acts: "ready c T \<Longrightarrow> acts T [u] [d] (e_replicas c rs) (addReplicaNodes u d rs T)"
proof -
  assume r: "ready c T"
  obtain p cr T' where g: "getOrAddPool u d T = ((p, cr), T')" by (metis prod.exhaust)
  obtain cr' m q where b: "base_view u (view T (us_Username u, d)) = (cr', m, q)" by (metis prod.exhaust)
  let ?xs = "map (\<lambda>(i, n). OAddReplicaRecipe i (node_recipe c u cr d n)) rs"
  note f = getOrAddPool_use [OF r g _ b, of ?xs]
  have n: "OClose \<notin> set ?xs" by auto
  have a: "addReplicaNodes u d rs T = fold (on_pool p) ?xs T'"
    using g f(2) [OF n] r by (simp add: addReplicaNodes_def fold_on_pool_nodes ready_def)
  show ?thesis unfolding a by (rule acts_one) (use f [OF n] b in \<open>auto simp: e_replicas_def fold_effects\<close>)
qed

lemma addReplicaNode_acts: "ready c T \<Longrightarrow> acts T [u] [d] (e_replicas c [(i, n)]) (addReplicaNode u d i n T)"
proof -
  assume r: "ready c T"
  have "addReplicaNode u d i n T = addReplicaNodes u d [(i, n)] T"
  proof -
    obtain p cr T' where g: "getOrAddPool u d T = ((p, cr), T')" by (metis prod.exhaust)
    have "dc_ReplicaPool (di_config T')" using getOrAddPool_ok [OF _ g] r by (simp add: ready_def same_def)
    with g show ?thesis by (simp add: addReplicaNode_def addReplicaNodes_def Let_def)
  qed
  with addReplicaNodes_acts [OF r] show ?thesis by simp
qed

lemma removeReplicaNodes_acts: "ready c T \<Longrightarrow> acts T [u] [d] (e_drop rs) (removeReplicaNodes (us_Username u) d rs T)"
proof -
  assume r: "ready c T"
  let ?k = "(us_Username u, d)"
  show ?thesis
  proof (cases "map_of (di_pools T) ?k")
    case None
    then have "view T ?k = None" by (simp add: view_def)
    then have "view T = (view T)(?k := e_drop rs u d (view T ?k))" by (auto simp: e_drop_def)
    with r None show ?thesis by (intro acts_one) (simp_all add: removeReplicaNodes_def getPool_def ready_def)
  next
    case (Some pc)
    obtain p cr where pc: "pc = (p, cr)" by fastforce
    obtain m q where mq: "recipes_of (di_heap T p) = (m, q)" by fastforce
    let ?xs = "map (\<lambda>(i, _). ORemoveReplicaRecipe i) rs :: pool_op list"
    have n: "OClose \<notin> set ?xs" by auto
    have "disc_ok T" using r by (simp add: ready_def)
    note f = fold_on_pool [OF this Some [unfolded pc] n]
    have a: "removeReplicaNodes (us_Username u) d rs T = fold (on_pool p) ?xs T"
      using Some pc r fold_on_pool_keys [of p ORemoveReplicaRecipe rs T] by (simp add: removeReplicaNodes_def getPool_def ready_def)
    have v: "view T ?k = Some (cr, m, q)" using Some pc mq by (simp add: view_def)
    show ?thesis unfolding a by (rule acts_one) (use f v mq in \<open>simp_all add: e_drop_def fold_effects\<close>)
  qed
qed

lemma removeReplicaNode_acts: "ready c T \<Longrightarrow> acts T [u] [d] (e_drop [(i, n)]) (removeReplicaNode (us_Username u) d i T)"
proof -
  assume r: "ready c T"
  have "removeReplicaNode (us_Username u) d i T = removeReplicaNodes (us_Username u) d [(i, n)] T"
    using r by (simp add: removeReplicaNode_def removeReplicaNodes_def ready_def split: option.split)
  with removeReplicaNodes_acts [OF r] show ?thesis by simp
qed

lemma removePrimaryNode_acts: "ready c T \<Longrightarrow> acts T [u] [d] (\<lambda>_ _ _. None) (removePrimaryNode (us_Username u) d T)"
  unfolding removePrimaryNode_def by (rule acts_one) (simp_all add: removePool_ok ready_def)

interpretation prim: node_op c "\<lambda>u d. addPrimaryNode u d n" "e_primary c n" for c n
  by unfold_locales (rule addPrimaryNode_acts)

interpretation repls: node_op c "\<lambda>u d. addReplicaNodes u d rs" "e_replicas c rs" for c rs
  by unfold_locales (rule addReplicaNodes_acts)

interpretation repl: node_op c "\<lambda>u d. addReplicaNode u d i n" "e_replicas c [(i, n)]" for c i n
  by unfold_locales (rule addReplicaNode_acts)

interpretation unrepls: node_op c "\<lambda>u d. removeReplicaNodes (us_Username u) d rs" "e_drop rs" for c rs
  by unfold_locales (rule removeReplicaNodes_acts)

interpretation unrepl: node_op c "\<lambda>u d. removeReplicaNode (us_Username u) d i" "e_drop [(i, n)]" for c i n
  by unfold_locales (rule removeReplicaNode_acts)

text \<open>A pool that is made, and one that is removed.\<close>

definition e_make :: "disc_config \<Rightarrow> Node \<Rightarrow> (string \<times> Node) list \<Rightarrow> effect" where
  "e_make c n rs u d v = e_replicas c rs u d (e_primary c n u d v)"

interpretation make: node_op c "\<lambda>u d T. addReplicaNodes u d rs (addPrimaryNode u d n T)" "e_make c n rs" for c n rs
proof
  fix T u d assume r: "ready c T"
  note a = addPrimaryNode_acts [OF r, of u d n]
  show "acts T [u] [d] (e_make c n rs) (addReplicaNodes u d rs (addPrimaryNode u d n T))"
    by (rule acts_cong [OF acts_comp [OF a addReplicaNodes_acts [OF acts_ready [OF r a]]]]) (simp add: e_make_def)
qed

interpretation unmake: node_op c "\<lambda>u d T. removePrimaryNode (us_Username u) d (removeReplicaNodes (us_Username u) d rs T)" "\<lambda>_ _ _. None" for c rs
proof
  fix T u d assume r: "ready c T"
  note a = removeReplicaNodes_acts [OF r, of u d rs]
  show "acts T [u] [d] (\<lambda>_ _ _. None) (removePrimaryNode (us_Username u) d (removeReplicaNodes (us_Username u) d rs T))"
    by (rule acts_comp [OF a removePrimaryNode_acts [OF acts_ready [OF r a]]])
qed

section \<open>What a cluster asks for\<close>

definition replica_recipes :: "disc_config \<Rightarrow> Cluster \<Rightarrow> User \<Rightarrow> string \<Rightarrow> recipes" where
  "replica_recipes c cl u d = put_nodes c u (user_creds u) d (cl_Replicas cl) Map.empty"

definition cluster_pool :: "disc_config \<Rightarrow> Cluster \<Rightarrow> User \<Rightarrow> string \<Rightarrow> pool_view" where
  "cluster_pool c cl u d =
     (user_creds u, [''primary'' \<mapsto> node_recipe c u (user_creds u) d (cl_Primary cl)], replica_recipes c cl u d)"

definition wants :: "disc_config \<Rightarrow> Cluster \<Rightarrow> string \<times> string \<Rightarrow> pool_view option" where
  "wants c cl k =
     (case find (\<lambda>u. us_Username u = fst k) (cl_Users cl) of
        None \<Rightarrow> None
      | Some u \<Rightarrow> if snd k \<in> set (cl_Databases cl) then Some (cluster_pool c cl u (snd k)) else None)"

definition cluster_ok :: "Cluster \<Rightarrow> bool" where
  "cluster_ok cl \<longleftrightarrow> distinct (map us_Username (cl_Users cl)) \<and> distinct (cl_Databases cl) \<and> distinct (map fst (cl_Replicas cl))"

abbreviation usernames :: "Cluster \<Rightarrow> string set" where
  "usernames cl \<equiv> us_Username ` set (cl_Users cl)"

lemma find_user:
  assumes "distinct (map us_Username us)" "u \<in> set us"
  shows "find (\<lambda>v. us_Username v = us_Username u) us = Some u"
proof -
  have "find (\<lambda>v. us_Username v = us_Username u) us \<noteq> None" using assms(2) by (auto simp: find_None_iff)
  then obtain v where v: "find (\<lambda>v. us_Username v = us_Username u) us = Some v" by blast
  then have "v \<in> set us" "us_Username v = us_Username u" by (auto simp: find_Some_iff)
  with assms have "v = u" by (auto simp: distinct_map dest: inj_onD)
  with v show ?thesis by simp
qed

lemma wants_in: "cluster_ok cl \<Longrightarrow> u \<in> set (cl_Users cl) \<Longrightarrow>
    wants c cl (us_Username u, d) = (if d \<in> set (cl_Databases cl) then Some (cluster_pool c cl u d) else None)"
  by (simp add: wants_def find_user cluster_ok_def)

lemma wants_out: "\<not> (n \<in> usernames cl \<and> d \<in> set (cl_Databases cl)) \<Longrightarrow> wants c cl (n, d) = None"
  by (auto simp: wants_def find_Some_iff split: option.split)

lemma put_nodes_at: "distinct (map fst rs) \<Longrightarrow> put_nodes c u cr d rs m i = (case map_of rs i of None \<Rightarrow> m i | Some n \<Rightarrow> Some (node_recipe c u cr d n))"
proof (induction rs arbitrary: m)
  case (Cons r rs)
  obtain j n where r: "r = (j, n)" by fastforce
  have "put_nodes c u cr d (r # rs) m = put_nodes c u cr d rs (m(j \<mapsto> node_recipe c u cr d n))" by (simp add: put_nodes_def r)
  with Cons r show ?case by (auto simp: map_of_eq_None_iff [symmetric] split: option.split)
qed (simp add: put_nodes_def)

lemma drop_nodes_at: "drop_nodes rs m i = (if i \<in> fst ` set rs then None else m i)"
proof (induction rs arbitrary: m)
  case (Cons r rs)
  obtain j n where r: "r = (j, n)" by fastforce
  have "drop_nodes (r # rs) m = drop_nodes rs (m(j := None))" by (simp add: drop_nodes_def r)
  then have "drop_nodes (r # rs) m i = (if i \<in> fst ` set rs then None else (m(j := None)) i)" by (simp only: Cons.IH)
  with r show ?case by auto
qed (simp add: drop_nodes_def)

lemma e_make_new: "e_make c (cl_Primary cl) (cl_Replicas cl) u d None = Some (cluster_pool c cl u d)"
  by (simp add: e_make_def e_primary_def e_replicas_def base_view_def cluster_pool_def replica_recipes_def)

section \<open>The parts of an update\<close>

lemma acts_fold:
  assumes "\<And>x T. x \<in> set xs \<Longrightarrow> ready c T \<Longrightarrow> acts T us ds (e x) (g x T)" "ready c T"
  shows "acts T us ds (\<lambda>u d v. fold (\<lambda>x. e x u d) xs v) (fold g xs T)"
  using assms
proof (induction xs arbitrary: T)
  case Nil
  then show ?case by (simp add: acts_def ready_def)
next
  case (Cons x xs)
  have s: "acts T us ds (e x) (g x T)" using Cons.prems by simp
  have "acts (g x T) us ds (\<lambda>u d v. fold (\<lambda>x. e x u d) xs v) (fold g xs (g x T))"
    using Cons.IH [of "g x T"] Cons.prems acts_ready [OF Cons.prems(2) s] by simp
  from acts_comp [OF s this] show ?case by simp
qed

text \<open>The replicas that are new or changed, and those that are gone.\<close>

definition e_changed :: "disc_config \<Rightarrow> (string \<times> Node) list \<Rightarrow> string \<times> Node \<Rightarrow> effect" where
  "e_changed c rs x u d v = (if map_of rs (fst x) = Some (snd x) then v else e_replicas c [x] u d v)"

definition e_gone :: "(string \<times> Node) list \<Rightarrow> string \<times> Node \<Rightarrow> effect" where
  "e_gone rs x u d v = (if map_of rs (fst x) \<noteq> None then v else e_drop [x] u d v)"

lemma fold_changed:
  "distinct (map fst xs) \<Longrightarrow>
   \<exists>q'. fold (\<lambda>x. e_changed c rs x u d) xs (Some (cr, p, q)) = Some (cr, p, q') \<and>
     (\<forall>i. q' i = (case map_of xs i of None \<Rightarrow> q i | Some n \<Rightarrow> if map_of rs i = Some n then q i else Some (node_recipe c u cr d n)))"
proof (induction xs arbitrary: q)
  case (Cons x xs)
  obtain j n where x: "x = (j, n)" by fastforce
  have j: "map_of xs j = None" "distinct (map fst xs)" using Cons.prems x by (auto simp: map_of_eq_None_iff)
  let ?q = "if map_of rs j = Some n then q else q(j \<mapsto> node_recipe c u cr d n)"
  have s: "e_changed c rs x u d (Some (cr, p, q)) = Some (cr, p, ?q)"
    by (simp add: e_changed_def x e_replicas_def base_view_def put_nodes_def)
  from Cons.IH [OF j(2), of ?q] obtain q' where
    "fold (\<lambda>x. e_changed c rs x u d) xs (Some (cr, p, ?q)) = Some (cr, p, q')"
    "\<forall>i. q' i = (case map_of xs i of None \<Rightarrow> ?q i | Some n \<Rightarrow> if map_of rs i = Some n then ?q i else Some (node_recipe c u cr d n))" by blast
  with s j(1) x show ?case by (intro exI [of _ q']) (auto split: option.split)
qed simp

lemma fold_gone:
  "\<exists>q'. fold (\<lambda>x. e_gone rs x u d) xs (Some (cr, p, q)) = Some (cr, p, q') \<and>
     (\<forall>i. q' i = (if i \<in> fst ` set xs \<and> map_of rs i = None then None else q i))"
proof (induction xs arbitrary: q)
  case (Cons x xs)
  obtain j n where x: "x = (j, n)" by fastforce
  let ?q = "if map_of rs j \<noteq> None then q else q(j := None)"
  have s: "e_gone rs x u d (Some (cr, p, q)) = Some (cr, p, ?q)" by (simp add: e_gone_def x e_drop_def drop_nodes_def)
  from Cons.IH [of ?q] obtain q' where "fold (\<lambda>x. e_gone rs x u d) xs (Some (cr, p, ?q)) = Some (cr, p, q')"
    "\<forall>i. q' i = (if i \<in> fst ` set xs \<and> map_of rs i = None then None else ?q i)" by blast
  with s x show ?case by (intro exI [of _ q']) auto
qed simp

definition e_update_replicas :: "disc_config \<Rightarrow> Cluster \<Rightarrow> Cluster \<Rightarrow> effect" where
  "e_update_replicas c prv nxt u d v =
     (if cl_Replicas prv \<noteq> [] \<and> cl_Replicas nxt = [] then e_drop (cl_Replicas prv) u d v
      else if cl_Replicas prv = [] \<and> cl_Replicas nxt \<noteq> [] then e_replicas c (cl_Replicas nxt) u d v
      else fold (\<lambda>x. e_gone (cl_Replicas nxt) x u d) (cl_Replicas prv) (fold (\<lambda>x. e_changed c (cl_Replicas prv) x u d) (cl_Replicas nxt) v))"

lemma update_replicas_acts:
  assumes "cluster_ok prv" "ready c T"
  shows "acts T (cl_Users prv) (cl_Databases prv) (e_update_replicas c prv nxt) (update_replicas prv nxt T)"
proof -
  have d: "distinct (map us_Username (cl_Users prv))" "distinct (cl_Databases prv)" using assms(1) by (simp_all add: cluster_ok_def)
  let ?us = "cl_Users prv" and ?ds = "cl_Databases prv" and ?pr = "cl_Replicas prv" and ?nr = "cl_Replicas nxt"
  let ?g = "\<lambda>(i, n) T. case map_of ?pr i of None \<Rightarrow> addReplica ?us ?ds i n T
    | Some m \<Rightarrow> if m \<noteq> n then addReplica ?us ?ds i n T else T"
  let ?h = "\<lambda>(i, n :: Node) T. if map_of ?nr i \<noteq> None then T else removeReplica ?us ?ds i T"
  have g: "acts T ?us ?ds (e_changed c ?pr x) (?g x T)" if "ready c T" for x T
  proof -
    obtain i n where x: "x = (i, n)" by fastforce
    from repl.over_pools [OF d that, of i n] acts_id [OF that, of ?us ?ds] show ?thesis unfolding x addReplica_def
      by (auto simp: e_changed_def acts_def split: option.split)
  qed
  have h: "acts T ?us ?ds (e_gone ?nr x) (?h x T)" if "ready c T" for x T
  proof -
    obtain i n where x: "x = (i, n)" by fastforce
    from unrepl.over_pools [OF d that, of i n] acts_id [OF that, of ?us ?ds] show ?thesis unfolding x removeReplica_def
      by (auto simp: e_gone_def acts_def)
  qed
  have G: "acts T ?us ?ds (\<lambda>u d v. fold (\<lambda>x. e_changed c ?pr x u d) ?nr v) (fold ?g ?nr T)" using g assms(2) by (rule acts_fold)
  have "acts (fold ?g ?nr T) ?us ?ds (\<lambda>u d v. fold (\<lambda>x. e_gone ?nr x u d) ?pr v) (fold ?h ?pr (fold ?g ?nr T))"
    using h acts_ready [OF assms(2) G] by (rule acts_fold)
  note GH = acts_comp [OF G this]
  consider (drop) "?pr \<noteq> [] \<and> ?nr = []" | (new) "?pr = [] \<and> ?nr \<noteq> []" | (mix) "\<not> (?pr \<noteq> [] \<and> ?nr = [])" "\<not> (?pr = [] \<and> ?nr \<noteq> [])" by blast
  then show ?thesis
  proof cases
    case drop
    from unrepls.over_pools [OF d assms(2), of ?pr] have "acts T ?us ?ds (e_drop ?pr) (update_replicas prv nxt T)"
      using drop by (simp add: update_replicas_def removeReplicas_def)
    then show ?thesis by (rule acts_cong) (use drop in \<open>simp add: e_update_replicas_def\<close>)
  next
    case new
    from repls.over_pools [OF d assms(2), of ?nr] have "acts T ?us ?ds (e_replicas c ?nr) (update_replicas prv nxt T)"
      using new by (simp add: update_replicas_def addReplicas_def)
    then show ?thesis by (rule acts_cong) (use new in \<open>simp add: e_update_replicas_def\<close>)
  next
    case mix
    have u: "update_replicas prv nxt T = fold ?h ?pr (fold ?g ?nr T)" unfolding update_replicas_def Let_def by (simp only: mix if_False)
    show ?thesis unfolding u
      by (rule acts_cong [OF GH]) (simp only: e_update_replicas_def mix if_False)
  qed
qed

lemma e_update_replicas_ok:
  assumes "cluster_ok prv" "cluster_ok nxt"
  shows "e_update_replicas c prv nxt u d (Some (user_creds u, p, replica_recipes c prv u d)) = Some (user_creds u, p, replica_recipes c nxt u d)"
proof -
  let ?pr = "cl_Replicas prv" and ?nr = "cl_Replicas nxt" and ?cr = "user_creds u"
  have d: "distinct (map fst ?pr)" "distinct (map fst ?nr)" using assms by (simp_all add: cluster_ok_def)
  have rr: "replica_recipes c cl u d i = map_option (node_recipe c u ?cr d) (map_of (cl_Replicas cl) i)" if "cluster_ok cl" for cl i
    using that by (simp add: replica_recipes_def put_nodes_at cluster_ok_def split: option.split)
  have "drop_nodes ?pr (replica_recipes c prv u d) = Map.empty"
    by (auto simp: drop_nodes_at rr [OF assms(1)] fun_eq_iff map_of_eq_None_iff)
  moreover from fold_changed [OF d(2), of c ?pr u d ?cr p "replica_recipes c prv u d"] obtain q where
    q: "fold (\<lambda>x. e_changed c ?pr x u d) ?nr (Some (?cr, p, replica_recipes c prv u d)) = Some (?cr, p, q)"
      "\<forall>i. q i = (case map_of ?nr i of None \<Rightarrow> replica_recipes c prv u d i
        | Some n \<Rightarrow> if map_of ?pr i = Some n then replica_recipes c prv u d i else Some (node_recipe c u ?cr d n))" by blast
  moreover from fold_gone [of ?nr u d ?pr ?cr p q] obtain q' where
    q': "fold (\<lambda>x. e_gone ?nr x u d) ?pr (Some (?cr, p, q)) = Some (?cr, p, q')"
      "\<forall>i. q' i = (if i \<in> fst ` set ?pr \<and> map_of ?nr i = None then None else q i)" by blast
  moreover have "q' = replica_recipes c nxt u d"
  proof
    fix i show "q' i = replica_recipes c nxt u d i"
      using q(2) q'(2) rr [OF assms(1), of i] rr [OF assms(2), of i] map_of_eq_None_iff [of ?pr i]
      by (cases "map_of ?pr i"; cases "map_of ?nr i") auto
  qed
  ultimately show ?thesis
    by (auto simp: e_update_replicas_def e_drop_def e_replicas_def base_view_def replica_recipes_def put_nodes_def)
qed

lemma acts_in: "acts T us ds e T' \<Longrightarrow> u \<in> set us \<Longrightarrow> d \<in> set ds \<Longrightarrow> view T' (us_Username u, d) = e u d (view T (us_Username u, d))"
  by (simp add: acts_def)

lemma acts_out: "acts T us ds e T' \<Longrightarrow> \<not> (n \<in> us_Username ` set us \<and> d \<in> set ds) \<Longrightarrow> view T' (n, d) = view T (n, d)"
  by (simp add: acts_def)

lemma acts_same: "acts T us ds e T' \<Longrightarrow> same T T'"
  by (simp add: acts_def)

definition e_users :: "disc_config \<Rightarrow> Cluster \<Rightarrow> Cluster \<Rightarrow> effect" where
  "e_users c prv nxt u d v =
     (case find (\<lambda>w. us_Username w = us_Username u) (cl_Users prv) of
        None \<Rightarrow> e_make c (cl_Primary nxt) (cl_Replicas nxt) u d v
      | Some w \<Rightarrow> if us_Password u \<noteq> us_Password w then e_make c (cl_Primary nxt) (cl_Replicas nxt) u d None else v)"

lemma update_users_acts:
  assumes "cluster_ok prv" "cluster_ok nxt" "ready c T"
  shows "\<exists>T1. acts T (cl_Users nxt) (cl_Databases prv) (e_users c prv nxt) T1 \<and>
    acts T1 (cl_Users prv) (cl_Databases prv) (\<lambda>u d v. if us_Username u \<in> usernames nxt then v else None) (update_users prv nxt T)"
proof -
  have d: "distinct (map us_Username (cl_Users prv))" "distinct (map us_Username (cl_Users nxt))" "distinct (cl_Databases prv)"
    using assms(1,2) by (simp_all add: cluster_ok_def)
  let ?n = "cl_Primary nxt" and ?rs = "cl_Replicas nxt" and ?ds = "cl_Databases prv"
  let ?g = "\<lambda>u T. case find (\<lambda>w. us_Username w = us_Username u) (cl_Users prv) of
      None \<Rightarrow> addUser ?n ?rs ?ds u T
    | Some w \<Rightarrow> if us_Password u \<noteq> us_Password w then addUser ?n ?rs ?ds u (removeUser ?rs ?ds (us_Username u) T) else T"
  let ?h = "\<lambda>u T. if us_Username u \<in> usernames nxt then T else removeUser ?rs ?ds (us_Username u) T"
  have add: "acts T [u] ?ds (e_make c ?n ?rs) (addUser ?n ?rs ?ds u T)" if "ready c T" for u T
    unfolding addUser_def by (rule make.over_databases [OF d(3) that])
  have del: "acts T [u] ?ds (\<lambda>_ _ _. None) (removeUser ?rs ?ds (us_Username u) T)" if "ready c T" for u T
    unfolding removeUser_def by (rule unmake.over_databases [OF d(3) that])
  have g: "acts T [u] ?ds (e_users c prv nxt) (?g u T)" if r: "ready c T" for u T
  proof (cases "find (\<lambda>w. us_Username w = us_Username u) (cl_Users prv)")
    case None
    from acts_cong [OF add [OF r, of u], of "e_users c prv nxt"] None show ?thesis by (simp add: e_users_def)
  next
    case (Some w)
    note a = del [OF r, of u]
    from acts_cong [OF acts_comp [OF a add [OF acts_ready [OF r a], of u]], of "e_users c prv nxt"]
      acts_cong [OF acts_id [OF r, of "[u]" ?ds], of "e_users c prv nxt"] Some show ?thesis by (simp add: e_users_def)
  qed
  have h: "acts T [u] ?ds (\<lambda>u d v. if us_Username u \<in> usernames nxt then v else None) (?h u T)" if r: "ready c T" for u T
    using acts_cong [OF acts_id [OF r, of "[u]" ?ds], of "\<lambda>u d v. if us_Username u \<in> usernames nxt then v else None"]
      acts_cong [OF del [OF r, of u], of "\<lambda>u d v. if us_Username u \<in> usernames nxt then v else None"] by auto
  have G: "acts T (cl_Users nxt) ?ds (e_users c prv nxt) (fold ?g (cl_Users nxt) T)" by (rule acts_users [OF g d(2) assms(3)])
  have "acts (fold ?g (cl_Users nxt) T) (cl_Users prv) ?ds (\<lambda>u d v. if us_Username u \<in> usernames nxt then v else None)
      (fold ?h (cl_Users prv) (fold ?g (cl_Users nxt) T))" by (rule acts_users [OF h d(1) acts_ready [OF assms(3) G]])
  with G show ?thesis unfolding update_users_def Let_def by blast
qed

lemma update_databases_acts:
  assumes "cluster_ok prv" "cluster_ok nxt" "ready c T"
  shows "\<exists>T1. acts T (cl_Users nxt) (cl_Databases nxt)
      (\<lambda>u d v. if d \<in> set (cl_Databases prv) then v else e_make c (cl_Primary nxt) (cl_Replicas nxt) u d v) T1 \<and>
    acts T1 (cl_Users nxt) (cl_Databases prv) (\<lambda>u d v. if d \<in> set (cl_Databases nxt) then v else None) (update_databases prv nxt T)"
    (is "\<exists>T1. acts T _ _ ?e T1 \<and> acts T1 _ _ ?e' _")
proof -
  let ?n = "cl_Primary nxt" and ?rs = "cl_Replicas nxt" and ?us = "cl_Users nxt"
  have d: "distinct (map us_Username ?us)" "distinct (cl_Databases prv)" "distinct (cl_Databases nxt)"
    using assms(1,2) by (simp_all add: cluster_ok_def)
  let ?g = "\<lambda>d T. if \<not> slices_Contains (cl_Databases prv) d then addDatabase ?n ?rs ?us d T else T"
  let ?h = "\<lambda>d T. if \<not> slices_Contains (cl_Databases nxt) d then removeDatabase ?rs ?us d T else T"
  have g: "acts T ?us [d] ?e (?g d T)" if r: "ready c T" for d T
    using acts_cong [OF acts_id [OF r, of ?us "[d]"], of ?e] acts_cong [OF make.over_users [where d = d and n = ?n and rs = ?rs, OF d(1) r], of ?e]
    by (auto simp: addDatabase_def)
  have h: "acts T ?us [d] ?e' (?h d T)" if r: "ready c T" for d T
    using acts_cong [OF acts_id [OF r, of ?us "[d]"], of ?e'] acts_cong [OF unmake.over_users [where d = d and rs = ?rs, OF d(1) r], of ?e']
    by (auto simp: removeDatabase_def)
  have G: "acts T ?us (cl_Databases nxt) ?e (fold ?g (cl_Databases nxt) T)" by (rule acts_databases [OF g d(3) assms(3)])
  have "acts (fold ?g (cl_Databases nxt) T) ?us (cl_Databases prv) ?e' (fold ?h (cl_Databases prv) (fold ?g (cl_Databases nxt) T))"
    by (rule acts_databases [OF h d(2) acts_ready [OF assms(3) G]])
  with G show ?thesis unfolding update_databases_def Let_def by blast
qed

section \<open>An update\<close>

lemma clusters_field [simp]:
  "view (T\<lparr>di_clusters := x\<rparr>) = view T" "disc_ok (T\<lparr>di_clusters := x\<rparr>) = disc_ok T" "ready c (T\<lparr>di_clusters := x\<rparr>) = ready c T"
  by (simp_all add: view_def disc_ok_def pool_ids_def ready_def fun_eq_iff)

text \<open>After the nodes were replaced the pools of the users and databases that were there have the new nodes.\<close>

lemma update_nodes_view:
  assumes "cluster_ok prv" "cluster_ok nxt" "ready c T" "\<forall>n\<in>usernames prv. \<forall>d\<in>set (cl_Databases prv). view T (n, d) = wants c prv (n, d)"
    and T1: "T1 = (if cl_Primary prv \<noteq> cl_Primary nxt then replacePrimary (cl_Users prv) (cl_Databases prv) (cl_Primary nxt) T else T)"
  shows "ready c (update_replicas prv nxt T1)" "same T (update_replicas prv nxt T1)"
    "\<And>u d. u \<in> set (cl_Users prv) \<Longrightarrow> d \<in> set (cl_Databases prv) \<Longrightarrow>
      view (update_replicas prv nxt T1) (us_Username u, d) = Some (cluster_pool c nxt u d)"
    "\<And>n d. \<not> (n \<in> usernames prv \<and> d \<in> set (cl_Databases prv)) \<Longrightarrow> view (update_replicas prv nxt T1) (n, d) = view T (n, d)"
proof -
  have d: "distinct (map us_Username (cl_Users prv))" "distinct (cl_Databases prv)" using assms(1) by (simp_all add: cluster_ok_def)
  let ?e = "if cl_Primary prv \<noteq> cl_Primary nxt then e_primary c (cl_Primary nxt) else (\<lambda>_ _ v. v)"
  have A: "acts T (cl_Users prv) (cl_Databases prv) ?e T1"
    using prim.over_pools [OF d assms(3), of "cl_Primary nxt"] acts_id [OF assms(3)] by (simp add: T1 replacePrimary_def)
  note r1 = acts_ready [OF assms(3) A]
  note B = update_replicas_acts [OF assms(1) r1, of nxt]
  show "ready c (update_replicas prv nxt T1)" by (rule acts_ready [OF r1 B])
  show "same T (update_replicas prv nxt T1)" by (rule same_trans [OF acts_same [OF A] acts_same [OF B]])
  show "view (update_replicas prv nxt T1) (n, d) = view T (n, d)" if "\<not> (n \<in> usernames prv \<and> d \<in> set (cl_Databases prv))" for n d
    using acts_out [OF A that] acts_out [OF B that] by simp
  show "view (update_replicas prv nxt T1) (us_Username u, d) = Some (cluster_pool c nxt u d)"
    if "u \<in> set (cl_Users prv)" "d \<in> set (cl_Databases prv)" for u d
  proof -
    let ?p = "[''primary'' \<mapsto> node_recipe c u (user_creds u) d (cl_Primary nxt)]"
    have "view T (us_Username u, d) = Some (cluster_pool c prv u d)" using assms(4) that wants_in [OF assms(1) that(1)] by simp
    then have "view T1 (us_Username u, d) = Some (user_creds u, ?p, replica_recipes c prv u d)"
      using acts_in [OF A that] by (auto simp: cluster_pool_def e_primary_def base_view_def)
    with acts_in [OF B that] e_update_replicas_ok [OF assms(1,2), of c u d ?p] show ?thesis by (simp add: cluster_pool_def)
  qed
qed

lemma updated_view:
  assumes ok: "cluster_ok prv" "cluster_ok nxt" "ready c T"
    and old: "\<And>n d. n \<in> usernames prv \<union> usernames nxt \<Longrightarrow> d \<in> set (cl_Databases prv) \<union> set (cl_Databases nxt) \<Longrightarrow>
      view T (n, d) = wants c prv (n, d)"
  shows "ready c (updated prv nxt T) \<and> di_clusters (updated prv nxt T) = AList.update (cl_ID nxt) nxt (di_clusters T) \<and>
    (\<forall>n d. view (updated prv nxt T) (n, d) =
      (if n \<in> usernames prv \<union> usernames nxt \<and> d \<in> set (cl_Databases prv) \<union> set (cl_Databases nxt) then wants c nxt (n, d) else view T (n, d)))"
proof -
  let ?T0 = "T\<lparr>di_clusters := AList.update (cl_ID nxt) nxt (di_clusters T)\<rparr>"
  let ?T1 = "if cl_Primary prv \<noteq> cl_Primary nxt then replacePrimary (cl_Users prv) (cl_Databases prv) (cl_Primary nxt) ?T0 else ?T0"
  let ?T2 = "update_replicas prv nxt ?T1" and ?P = "set (cl_Databases prv)" and ?N = "set (cl_Databases nxt)"
  have r0: "ready c ?T0" using ok(3) by simp
  have "\<forall>n\<in>usernames prv. \<forall>d\<in>?P. view ?T0 (n, d) = wants c prv (n, d)" using old by auto
  note v2 = update_nodes_view [OF ok(1,2) r0 this refl]
  from update_users_acts [OF ok(1,2) v2(1)] obtain T3 where
    a3: "acts ?T2 (cl_Users nxt) (cl_Databases prv) (e_users c prv nxt) T3" and
    a4: "acts T3 (cl_Users prv) (cl_Databases prv) (\<lambda>u d v. if us_Username u \<in> usernames nxt then v else None) (update_users prv nxt ?T2)" by blast
  let ?T4 = "update_users prv nxt ?T2"
  note r4 = acts_ready [OF acts_ready [OF v2(1) a3] a4]
  from update_databases_acts [OF ok(1,2) r4] obtain T5 where
    a5: "acts ?T4 (cl_Users nxt) (cl_Databases nxt) (\<lambda>u d v. if d \<in> ?P then v else e_make c (cl_Primary nxt) (cl_Replicas nxt) u d v) T5" and
    a6: "acts T5 (cl_Users nxt) (cl_Databases prv) (\<lambda>u d v. if d \<in> ?N then v else None) (update_databases prv nxt ?T4)" by blast
  let ?T6 = "update_databases prv nxt ?T4"
  have T6: "updated prv nxt T = ?T6" by (simp add: updated_def Let_def)
  have new: "view ?T0 (n, d) = None" if "\<not> (n \<in> usernames prv \<and> d \<in> ?P)" "n \<in> usernames prv \<union> usernames nxt" "d \<in> ?P \<union> ?N" for n d
    using old [OF that(2,3)] wants_out [OF that(1)] by simp
  have v4: "view ?T4 (us_Username u, d) = (if d \<in> ?P then Some (cluster_pool c nxt u d) else view ?T0 (us_Username u, d))" if u: "u \<in> set (cl_Users nxt)" for u d
  proof (cases "d \<in> ?P")
    case False
    with acts_out [OF a3, of "us_Username u" d] acts_out [OF a4, of "us_Username u" d] v2(4) [of "us_Username u" d] show ?thesis by simp
  next
    case True
    have "view T3 (us_Username u, d) = Some (cluster_pool c nxt u d)"
    proof (cases "find (\<lambda>w. us_Username w = us_Username u) (cl_Users prv)")
      case None
      then have "us_Username u \<notin> usernames prv" by (auto simp: find_None_iff)
      then have "view ?T2 (us_Username u, d) = None" using v2(4) [of "us_Username u" d] new [of "us_Username u" d] u True by auto
      with acts_in [OF a3 u True] None show ?thesis by (simp add: e_users_def e_make_new)
    next
      case (Some w)
      then have w: "w \<in> set (cl_Users prv)" "us_Username w = us_Username u" by (auto simp: find_Some_iff)
      have "view ?T2 (us_Username u, d) = Some (cluster_pool c nxt w d)" using v2(3) [OF w(1) True] w(2) by simp
      moreover have "us_Password u = us_Password w \<Longrightarrow> u = w" using w(2) by (cases u; cases w) simp
      ultimately show ?thesis using acts_in [OF a3 u True] Some by (auto simp: e_users_def e_make_new)
    qed
    moreover have "view ?T4 (us_Username u, d) = view T3 (us_Username u, d)"
    proof (cases "us_Username u \<in> usernames prv")
      case in_prv: True
      then obtain w where "w \<in> set (cl_Users prv)" "us_Username w = us_Username u" by auto
      with acts_in [OF a4 _ True, of w] u show ?thesis by auto
    qed (use acts_out [OF a4] in blast)
    ultimately show ?thesis using True by simp
  qed
  have v4': "view ?T4 (n, d) = (if n \<in> usernames prv \<and> d \<in> ?P then None else view ?T0 (n, d))" if n: "n \<notin> usernames nxt" for n d
  proof (cases "n \<in> usernames prv \<and> d \<in> ?P")
    case True
    then obtain w where "w \<in> set (cl_Users prv)" "n = us_Username w" by auto
    with acts_in [OF a4, of w d] True n show ?thesis by simp
  next
    case False
    with acts_out [OF a3, of n d] acts_out [OF a4, of n d] v2(4) [of n d] n show ?thesis by auto
  qed
  have "view ?T6 (n, d) = (if n \<in> usernames prv \<union> usernames nxt \<and> d \<in> ?P \<union> ?N then wants c nxt (n, d) else view T (n, d))" for n d
  proof (cases "n \<in> usernames nxt")
    case True
    then obtain u where u: "u \<in> set (cl_Users nxt)" "n = us_Username u" by auto
    have "view T5 (n, d) = (if d \<in> ?N \<and> d \<notin> ?P then Some (cluster_pool c nxt u d) else view ?T4 (n, d))"
      using acts_in [OF a5 u(1), of d] acts_out [OF a5, of n d] v4 [OF u(1), of d] new [of n d] u True
      by (cases "d \<in> ?N"; cases "d \<in> ?P") (auto simp: e_make_new)
    moreover have "view ?T6 (n, d) = (if d \<in> ?P \<and> d \<notin> ?N then None else view T5 (n, d))"
      using acts_in [OF a6 u(1), of d] acts_out [OF a6, of n d] u by (cases "d \<in> ?N"; cases "d \<in> ?P") auto
    ultimately show ?thesis using v4 [OF u(1), of d] wants_in [OF ok(2) u(1), of c d] u True by auto
  next
    case False
    then have "view ?T6 (n, d) = view ?T4 (n, d)" using acts_out [OF a5, of n d] acts_out [OF a6, of n d] by simp
    with v4' [OF False, of d] wants_out [of n nxt d c] False new [of n d] show ?thesis by auto
  qed
  moreover have "ready c ?T6" by (rule acts_ready [OF acts_ready [OF r4 a5] a6])
  moreover have "same ?T0 ?T6" using v2(2) acts_same [OF a3] acts_same [OF a4] acts_same [OF a5] acts_same [OF a6] by (blast intro: same_trans)
  ultimately show ?thesis unfolding T6 by (simp add: same_def)
qed

section \<open>Runs\<close>

text \<open>
  The clusters of a run, by identity: each is well formed, and no user and database belongs to clusters of two identities,
  also when the users of one report are combined with the databases of another (an update passes through these pools).
\<close>

definition apart :: "Cluster set \<Rightarrow> bool" where
  "apart S \<longleftrightarrow> (\<forall>a\<in>S. cluster_ok a) \<and>
     (\<forall>a\<in>S. \<forall>a'\<in>S. \<forall>b\<in>S. cl_ID a = cl_ID a' \<and> cl_ID a \<noteq> cl_ID b \<longrightarrow>
        \<not> (\<exists>n d. n \<in> usernames a \<and> d \<in> set (cl_Databases a') \<and> n \<in> usernames b \<and> d \<in> set (cl_Databases b)))"

definition tracks :: "disc_config \<Rightarrow> Cluster set \<Rightarrow> discovery \<Rightarrow> bool" where
  "tracks c S T \<longleftrightarrow> ready c T \<and> (\<forall>i cl. map_of (di_clusters T) i = Some cl \<longrightarrow> cl \<in> S \<and> cl_ID cl = i) \<and>
     (\<forall>k v. view T k = Some v \<longleftrightarrow> (\<exists>i cl. map_of (di_clusters T) i = Some cl \<and> wants c cl k = Some v))"

lemma wants_owned: "wants c cl (n, d) = Some v \<Longrightarrow> n \<in> usernames cl \<and> d \<in> set (cl_Databases cl)"
  using wants_out [of n cl d c] by fastforce

lemma tracks_alone:
  assumes "tracks c S T" "apart S" "a \<in> S" "a' \<in> S" "cl_ID a = i" "cl_ID a' = i" "n \<in> usernames a" "d \<in> set (cl_Databases a')"
  shows "map_of (di_clusters T) j = Some cl \<Longrightarrow> wants c cl (n, d) = Some v \<Longrightarrow> j = i"
proof -
  assume j: "map_of (di_clusters T) j = Some cl" "wants c cl (n, d) = Some v"
  have "cl \<in> S" "cl_ID cl = j" using assms(1) j(1) by (auto simp: tracks_def)
  with assms wants_owned [OF j(2)] show "j = i" unfolding apart_def by metis
qed

lemma tracks_step:
  assumes T: "tracks c S T" "apart S" and T': "ready c T'" "map_of (di_clusters T') = (map_of (di_clusters T))(i := r)"
    and r: "\<And>cl. r = Some cl \<Longrightarrow> cl \<in> S \<and> cl_ID cl = i"
    and R: "\<And>n d. (n, d) \<in> R \<Longrightarrow> \<exists>a\<in>S. \<exists>a'\<in>S. cl_ID a = i \<and> cl_ID a' = i \<and> n \<in> usernames a \<and> d \<in> set (cl_Databases a')"
    and own: "\<And>cl n d v. r = Some cl \<or> map_of (di_clusters T) i = Some cl \<Longrightarrow> wants c cl (n, d) = Some v \<Longrightarrow> (n, d) \<in> R"
    and v: "\<And>n d. view T' (n, d) = (if (n, d) \<in> R then Option.bind r (\<lambda>cl. wants c cl (n, d)) else view T (n, d))"
  shows "tracks c S T'"
proof -
  have "view T' k = Some x \<longleftrightarrow> (\<exists>j cl. map_of (di_clusters T') j = Some cl \<and> wants c cl k = Some x)" for k x
  proof -
    obtain n d where k: "k = (n, d)" by fastforce
    show ?thesis
    proof (cases "(n, d) \<in> R")
      case True
      from R [OF True] obtain a a' where "a \<in> S" "a' \<in> S" "cl_ID a = i" "cl_ID a' = i" "n \<in> usernames a" "d \<in> set (cl_Databases a')" by blast
      note alone = tracks_alone [OF T this]
      have "(\<exists>j cl. map_of (di_clusters T') j = Some cl \<and> wants c cl (n, d) = Some x) \<longleftrightarrow> (\<exists>cl. r = Some cl \<and> wants c cl (n, d) = Some x)"
        unfolding T'(2) using alone [where v = x] by (metis fun_upd_apply)
      with True v [of n d] show ?thesis unfolding k by (cases r) simp_all
    next
      case False
      have "view T (n, d) = Some x \<longleftrightarrow> (\<exists>j cl. map_of (di_clusters T) j = Some cl \<and> wants c cl (n, d) = Some x)" using T(1) unfolding tracks_def by blast
      moreover have "(\<exists>j cl. map_of (di_clusters T) j = Some cl \<and> wants c cl (n, d) = Some x) \<longleftrightarrow>
          (\<exists>j cl. map_of (di_clusters T') j = Some cl \<and> wants c cl (n, d) = Some x)"
        unfolding T'(2) using own False by (metis fun_upd_apply)
      ultimately show ?thesis unfolding k using v [of n d] False by simp
    qed
  qed
  moreover have "cl \<in> S \<and> cl_ID cl = j" if "map_of (di_clusters T') j = Some cl" for j cl
    using that T(1) r unfolding T'(2) tracks_def by (auto split: if_splits)
  ultimately show ?thesis using T'(1) unfolding tracks_def by blast
qed

lemma tracks_view:
  assumes "tracks c S T" "apart S" "a \<in> S" "a' \<in> S" "cl_ID a = i" "cl_ID a' = i" "n \<in> usernames a" "d \<in> set (cl_Databases a')"
  shows "view T (n, d) = Option.bind (map_of (di_clusters T) i) (\<lambda>cl. wants c cl (n, d))"
proof -
  note alone = tracks_alone [OF assms]
  have "view T (n, d) = Some v \<longleftrightarrow> (\<exists>j cl. map_of (di_clusters T) j = Some cl \<and> wants c cl (n, d) = Some v)" for v
    using assms(1) unfolding tracks_def by blast
  moreover have "(\<exists>j cl. map_of (di_clusters T) j = Some cl \<and> wants c cl (n, d) = Some v) \<longleftrightarrow>
      Option.bind (map_of (di_clusters T) i) (\<lambda>cl. wants c cl (n, d)) = Some v" for v
    unfolding bind_eq_Some_conv using alone [where v = v] by metis
  ultimately show ?thesis by (metis option.exhaust)
qed

lemma added_tracks:
  assumes "tracks c S T" "apart S" "cl \<in> S"
  shows "tracks c S (added cl T)" "map_of (di_clusters (added cl T)) = (map_of (di_clusters T))(cl_ID cl \<mapsto> cl)"
proof -
  have ok: "cluster_ok cl" and r: "ready c T" using assms by (auto simp: apart_def tracks_def)
  have "tracks c S (added cl T) \<and> map_of (di_clusters (added cl T)) = (map_of (di_clusters T))(cl_ID cl \<mapsto> cl)"
  proof (cases "map_of (di_clusters T) (cl_ID cl)")
    case None
    let ?T0 = "T\<lparr>di_clusters := AList.update (cl_ID cl) cl (di_clusters T)\<rparr>"
    have d: "distinct (map us_Username (cl_Users cl))" "distinct (cl_Databases cl)" using ok by (simp_all add: cluster_ok_def)
    have r0: "ready c ?T0" using r by simp
    have a: "acts ?T0 (cl_Users cl) (cl_Databases cl) (e_make c (cl_Primary cl) (cl_Replicas cl)) (added cl T)"
      unfolding added_def None Let_def option.case addUser_def
      by (rule acts_users [OF _ d(1) r0]) (rule make.over_databases [OF d(2)])
    have m: "map_of (di_clusters (added cl T)) = (map_of (di_clusters T))(cl_ID cl \<mapsto> cl)"
      using acts_same [OF a] by (simp add: same_def update_conv')
    have "tracks c S (added cl T)"
    proof (rule tracks_step [OF assms(1,2) acts_ready [OF r0 a] m, where R = "usernames cl \<times> set (cl_Databases cl)"])
      fix n d assume "(n, d) \<in> usernames cl \<times> set (cl_Databases cl)"
      then show "\<exists>a\<in>S. \<exists>a'\<in>S. cl_ID a = cl_ID cl \<and> cl_ID a' = cl_ID cl \<and> n \<in> usernames a \<and> d \<in> set (cl_Databases a')" using assms(3) by auto
    next
      fix n d
      show "view (added cl T) (n, d) = (if (n, d) \<in> usernames cl \<times> set (cl_Databases cl)
          then Option.bind (Some cl) (\<lambda>cl. wants c cl (n, d)) else view T (n, d))"
      proof (cases "(n, d) \<in> usernames cl \<times> set (cl_Databases cl)")
        case True
        then obtain u where u: "u \<in> set (cl_Users cl)" "n = us_Username u" "d \<in> set (cl_Databases cl)" by auto
        have "view T (n, d) = None" using tracks_view [OF assms(1,2,3,3) refl refl, of n d] True None by simp
        with acts_in [OF a u(1,3)] u True wants_in [OF ok u(1)] show ?thesis by (simp add: e_make_new)
      qed (use acts_out [OF a, of n d] in auto)
    qed (use None assms(3) wants_owned in auto)
    with m show ?thesis by blast
  next
    case (Some prv)
    then have p: "prv \<in> S" "cl_ID prv = cl_ID cl" "cluster_ok prv" using assms by (auto simp: tracks_def apart_def)
    have e: "added cl T = updated prv cl T" using Some by (simp add: added_def)
    let ?R = "(usernames prv \<union> usernames cl) \<times> (set (cl_Databases prv) \<union> set (cl_Databases cl))"
    have reg: "\<exists>a\<in>S. \<exists>a'\<in>S. cl_ID a = cl_ID cl \<and> cl_ID a' = cl_ID cl \<and> n \<in> usernames a \<and> d \<in> set (cl_Databases a')" if "(n, d) \<in> ?R" for n d
      using that p(1,2) assms(3) by (auto simp del: image_iff)
    have "view T (n, d) = wants c prv (n, d)" if "(n, d) \<in> ?R" for n d
    proof -
      from reg [OF that] obtain a a' where "a \<in> S" "a' \<in> S" "cl_ID a = cl_ID cl" "cl_ID a' = cl_ID cl" "n \<in> usernames a" "d \<in> set (cl_Databases a')" by blast
      from tracks_view [OF assms(1,2) this] Some show ?thesis by simp
    qed
    then have "ready c (updated prv cl T) \<and> di_clusters (updated prv cl T) = AList.update (cl_ID cl) cl (di_clusters T) \<and>
      (\<forall>n d. view (updated prv cl T) (n, d) =
        (if n \<in> usernames prv \<union> usernames cl \<and> d \<in> set (cl_Databases prv) \<union> set (cl_Databases cl) then wants c cl (n, d) else view T (n, d)))"
      by (intro updated_view [OF p(3) ok r]) blast
    then have u: "ready c (added cl T)" "map_of (di_clusters (added cl T)) = (map_of (di_clusters T))(cl_ID cl \<mapsto> cl)"
      "\<And>n d. view (added cl T) (n, d) = (if (n, d) \<in> ?R then wants c cl (n, d) else view T (n, d))"
      unfolding e by (simp_all add: update_conv')
    have "tracks c S (added cl T)"
    proof (rule tracks_step [OF assms(1,2) u(1,2), where R = ?R])
      show "\<exists>a\<in>S. \<exists>a'\<in>S. cl_ID a = cl_ID cl \<and> cl_ID a' = cl_ID cl \<and> n \<in> usernames a \<and> d \<in> set (cl_Databases a')" if "(n, d) \<in> ?R" for n d
        using reg [OF that] .
      show "(n, d) \<in> ?R" if "Some cl = Some cl' \<or> map_of (di_clusters T) (cl_ID cl) = Some cl'" "wants c cl' (n, d) = Some v" for cl' n d v
        using that Some wants_owned [OF that(2)] by auto
      show "view (added cl T) (n, d) = (if (n, d) \<in> ?R then Option.bind (Some cl) (\<lambda>cl. wants c cl (n, d)) else view T (n, d))" for n d
        using u(3) [of n d] by simp
    qed (use assms(3) in auto)
    with u(2) show ?thesis by blast
  qed
  then show "tracks c S (added cl T)" "map_of (di_clusters (added cl T)) = (map_of (di_clusters T))(cl_ID cl \<mapsto> cl)" by simp_all
qed

lemma removed_tracks:
  assumes "tracks c S T" "apart S"
  shows "tracks c S (removed i T)" "map_of (di_clusters (removed i T)) = (map_of (di_clusters T))(i := None)"
proof -
  have "tracks c S (removed i T) \<and> map_of (di_clusters (removed i T)) = (map_of (di_clusters T))(i := None)"
  proof (cases "map_of (di_clusters T) i")
    case None
    with assms(1) show ?thesis by (auto simp: removed_def)
  next
    case (Some cl)
    then have cl: "cl \<in> S" "cl_ID cl = i" "cluster_ok cl" and r: "ready c T" using assms by (auto simp: tracks_def apart_def)
    let ?T0 = "T\<lparr>di_clusters := AList.delete i (di_clusters T)\<rparr>"
    have d: "distinct (map us_Username (cl_Users cl))" "distinct (cl_Databases cl)" using cl(3) by (simp_all add: cluster_ok_def)
    have r0: "ready c ?T0" using r by simp
    have a: "acts ?T0 (cl_Users cl) (cl_Databases cl) (\<lambda>_ _ _. None) (removed i T)"
      unfolding removed_def Some Let_def option.case removeDatabase_def
      by (rule acts_databases [OF _ d(2) r0]) (rule unmake.over_users [OF d(1)])
    have m: "map_of (di_clusters (removed i T)) = (map_of (di_clusters T))(i := None)"
      using acts_same [OF a] by (simp add: same_def delete_conv')
    have "tracks c S (removed i T)"
    proof (rule tracks_step [OF assms acts_ready [OF r0 a] m, where R = "usernames cl \<times> set (cl_Databases cl)"])
      fix n d assume "(n, d) \<in> usernames cl \<times> set (cl_Databases cl)"
      then show "\<exists>a\<in>S. \<exists>a'\<in>S. cl_ID a = i \<and> cl_ID a' = i \<and> n \<in> usernames a \<and> d \<in> set (cl_Databases a')" using cl(1,2) by auto
    next
      fix n d
      show "view (removed i T) (n, d) = (if (n, d) \<in> usernames cl \<times> set (cl_Databases cl)
          then Option.bind None (\<lambda>cl. wants c cl (n, d)) else view T (n, d))"
        using acts_in [OF a, of _ d] acts_out [OF a, of n d] by auto
    qed (use Some wants_owned in auto)
    with m show ?thesis by blast
  qed
  then show "tracks c S (removed i T)" "map_of (di_clusters (removed i T)) = (map_of (di_clusters T))(i := None)" by simp_all
qed

text \<open>The clusters that were reported, and that a report leaves.\<close>

primrec mentions :: "disc_event \<Rightarrow> Cluster set" where
  "mentions (Added cl) = {cl}"
| "mentions (Removed i) = {}"
| "mentions (Reconcile answer) = (case answer of Inl _ \<Rightarrow> {} | Inr cls \<Rightarrow> set cls)"

definition by_ID :: "Cluster list \<Rightarrow> (string \<rightharpoonup> Cluster) \<Rightarrow> string \<rightharpoonup> Cluster" where
  "by_ID = fold (\<lambda>cl m. m(cl_ID cl \<mapsto> cl))"

primrec reported :: "disc_event \<Rightarrow> (string \<rightharpoonup> Cluster) \<Rightarrow> string \<rightharpoonup> Cluster" where
  "reported (Added cl) m = m(cl_ID cl \<mapsto> cl)"
| "reported (Removed i) m = m(i := None)"
| "reported (Reconcile answer) m = (case answer of Inl _ \<Rightarrow> m | Inr cls \<Rightarrow> by_ID cls Map.empty)"

lemma by_ID_other: "by_ID cls m i = (if i \<in> cl_ID ` set cls then by_ID cls Map.empty i else m i)"
proof (induction cls rule: rev_induct)
  case Nil
  then show ?case by (simp add: by_ID_def)
next
  case (snoc cl cls)
  have "by_ID (cls @ [cl]) m = (by_ID cls m)(cl_ID cl \<mapsto> cl)" for m by (simp add: by_ID_def)
  then show ?case using snoc by auto
qed

lemma fold_added_tracks:
  assumes "tracks c S T" "apart S" "set cls \<subseteq> S"
  shows "tracks c S (fold added cls T) \<and> map_of (di_clusters (fold added cls T)) = by_ID cls (map_of (di_clusters T))"
  using assms
proof (induction cls arbitrary: T)
  case (Cons cl cls)
  from added_tracks [OF Cons.prems(1,2), of cl] Cons.IH [of "added cl T"] Cons.prems show ?case by (simp add: by_ID_def)
qed (simp add: by_ID_def)

lemma fold_removed_tracks:
  assumes "tracks c S T" "apart S"
  shows "tracks c S (fold (\<lambda>i T. if i \<in> X then T else removed i T) is T) \<and>
    map_of (di_clusters (fold (\<lambda>i T. if i \<in> X then T else removed i T) is T)) = (\<lambda>i. if i \<in> set is - X then None else map_of (di_clusters T) i)"
  using assms
proof (induction "is" arbitrary: T)
  case (Cons i "is")
  from removed_tracks [OF Cons.prems, of i] Cons.IH [of T] Cons.IH [of "removed i T"] Cons.prems show ?case by (auto simp: fun_eq_iff)
qed simp

lemma disc_step_tracks:
  assumes "tracks c S T" "apart S" "mentions ev \<subseteq> S"
  shows "tracks c S (disc_step ev T) \<and> map_of (di_clusters (disc_step ev T)) = reported ev (map_of (di_clusters T))"
proof (cases ev)
  case (Added cl)
  with added_tracks [OF assms(1,2), of cl] assms(3) show ?thesis by simp
next
  case (Removed i)
  with removed_tracks [OF assms(1,2), of i] show ?thesis by simp
next
  case (Reconcile answer)
  show ?thesis
  proof (cases answer)
    case (Inl e)
    with Reconcile assms(1) show ?thesis by (simp add: reconcile_def)
  next
    case (Inr cls)
    let ?T = "fold added cls T" and ?X = "cl_ID ` set cls"
    have a: "(\<lambda>cluster T. case map_of (di_clusters T) (cl_ID cluster) of None \<Rightarrow> added cluster T | Some prv \<Rightarrow> updated prv cluster T) = added"
      by (auto simp: fun_eq_iff added_def split: option.split)
    have e: "disc_step ev T = fold (\<lambda>i T. if i \<in> ?X then T else removed i T) (map fst (di_clusters ?T)) ?T"
      unfolding Reconcile Inr disc_step.simps reconcile_def by (simp add: a Let_def)
    from fold_added_tracks [OF assms(1,2), of cls] assms(3) Reconcile Inr
    have t: "tracks c S ?T" "map_of (di_clusters ?T) = by_ID cls (map_of (di_clusters T))" by simp_all
    note f = fold_removed_tracks [OF t(1) assms(2), of ?X "map fst (di_clusters ?T)"]
    have "(\<lambda>i. if i \<in> set (map fst (di_clusters ?T)) - ?X then None else map_of (di_clusters ?T) i) = by_ID cls Map.empty"
    proof
      fix i show "(if i \<in> set (map fst (di_clusters ?T)) - ?X then None else map_of (di_clusters ?T) i) = by_ID cls Map.empty i"
        using by_ID_other [of cls Map.empty i] by_ID_other [of cls "map_of (di_clusters T)" i] t(2) map_of_eq_None_iff [of "di_clusters ?T" i]
        by (cases "i \<in> ?X") auto
    qed
    with f e Reconcile Inr show ?thesis by simp
  qed
qed

lemma discoverLoop_tracks:
  assumes "tracks c S T" "apart S" "\<forall>ev\<in>set evs. mentions ev \<subseteq> S"
  shows "tracks c S (discoverLoop evs T) \<and> map_of (di_clusters (discoverLoop evs T)) = fold reported evs (map_of (di_clusters T))"
  using assms
proof (induction evs arbitrary: T)
  case (Cons ev evs)
  from disc_step_tracks [OF Cons.prems(1,2), of ev] Cons.IH [of "disc_step ev T"] Cons.prems show ?case by (simp add: discoverLoop_def)
qed (simp add: discoverLoop_def)

lemma new_discovery_ok: "disc_ok (new_discovery c)" "view (new_discovery c) = Map.empty" "di_config (new_discovery c) = c"
  by (simp_all add: disc_ok_def new_discovery_def pool_ids_def view_def fun_eq_iff)

section \<open>No pool is lost, for every kind of pool\<close>

lemma disc_ok_fold: "(\<And>x T. disc_ok T \<Longrightarrow> disc_ok (g x T)) \<Longrightarrow> disc_ok T \<Longrightarrow> disc_ok (fold g xs T)"
  by (induction xs arbitrary: T) auto

lemma getOrAddPool_calls:
  assumes "disc_ok T" "getOrAddPool u d T = ((p, cr), T')" "OClose \<notin> set xs"
  shows "disc_ok (fold (on_pool p) xs T')" "disc_ok T'"
  using fold_on_pool(1) [OF _ _ assms(3)] getOrAddPool_ok [OF assms(1,2)] by blast+

lemma addPrimaryNode_safe: "disc_ok T \<Longrightarrow> disc_ok (addPrimaryNode u d n T)"
proof -
  assume T: "disc_ok T"
  obtain p cr T' where g: "getOrAddPool u d T = ((p, cr), T')" by (metis prod.exhaust)
  from getOrAddPool_calls(1) [OF T g, of "[OAddRecipe ''primary'' (node_recipe (di_config T') u cr d n)]"] g show ?thesis
    by (simp add: addPrimaryNode_def)
qed

lemma addReplicaNodes_safe: "disc_ok T \<Longrightarrow> disc_ok (addReplicaNodes u d rs T)"
proof -
  assume T: "disc_ok T"
  obtain p cr T' where g: "getOrAddPool u d T = ((p, cr), T')" by (metis prod.exhaust)
  have T': "disc_ok T'" using getOrAddPool_calls(2) [OF T g, of "[]"] by simp
  obtain p' cr' T'' where g': "getOrAddPool (toReplicaUser u) d T' = ((p', cr'), T'')" by (metis prod.exhaust)
  let ?xs = "map (\<lambda>(i, n). OAddReplicaRecipe i (node_recipe (di_config T') u cr d n)) rs"
  let ?ys = "map (\<lambda>(i, n). OAddRecipe i (node_recipe (di_config T'') u cr d n)) rs"
  have "OClose \<notin> set ?xs" "OClose \<notin> set ?ys" by auto
  with getOrAddPool_calls(1) [OF T g, of ?xs] getOrAddPool_calls(1) [OF T' g', of ?ys] g g' show ?thesis
    by (simp add: addReplicaNodes_def getOrAddReplicaPool_def fold_on_pool_nodes)
qed

lemma addReplicaNode_safe: "disc_ok T \<Longrightarrow> disc_ok (addReplicaNode u d i n T)"
proof -
  assume T: "disc_ok T"
  obtain p cr T' where g: "getOrAddPool u d T = ((p, cr), T')" by (metis prod.exhaust)
  have T': "disc_ok T'" using getOrAddPool_calls(2) [OF T g, of "[]"] by simp
  obtain p' cr' T'' where g': "getOrAddPool (toReplicaUser u) d T' = ((p', cr'), T'')" by (metis prod.exhaust)
  let ?d = "node_recipe (di_config T') u cr d n"
  from getOrAddPool_calls(1) [OF T g, of "[OAddReplicaRecipe i ?d]"] getOrAddPool_calls(1) [OF T' g', of "[OAddRecipe i ?d]"] g g' show ?thesis
    by (simp add: addReplicaNode_def getOrAddReplicaPool_def Let_def)
qed

lemma removeReplicaNodes_safe: "disc_ok T \<Longrightarrow> disc_ok (removeReplicaNodes n d rs T)"
proof -
  assume T: "disc_ok T"
  have "OClose \<notin> set (map (\<lambda>(i, _). ORemoveReplicaRecipe i) rs)" by auto
  note f = fold_on_pool(1) [OF T _ this, of "(n, d)"]
  show ?thesis unfolding removeReplicaNodes_def getPool_def removeReplicaPool_def fold_on_pool_keys
    using T f by (auto simp: removePool_ok(1) split: option.split)
qed

lemma removeReplicaNode_safe: "disc_ok T \<Longrightarrow> disc_ok (removeReplicaNode n d i T)"
  unfolding removeReplicaNode_def getPool_def getReplicaPool_def by (auto simp: on_pool_ok(1) split: option.split)

lemma each_pool_safe: "(\<And>u d T. disc_ok T \<Longrightarrow> disc_ok (f u d T)) \<Longrightarrow> disc_ok T \<Longrightarrow> disc_ok (each_pool f us ds T)"
  unfolding each_pool_def by (intro disc_ok_fold) assumption+

lemmas nodes_safe = addPrimaryNode_safe addReplicaNodes_safe addReplicaNode_safe removeReplicaNodes_safe removeReplicaNode_safe removePool_ok(1)

lemma pools_safe:
  assumes "disc_ok T"
  shows "disc_ok (replacePrimary us ds n T)" "disc_ok (addReplicas rs us ds T)" "disc_ok (removeReplicas rs us ds T)"
    "disc_ok (addReplica us ds i n T)" "disc_ok (removeReplica us ds i T)" "disc_ok (addUser n rs ds u T)" "disc_ok (removeUser rs ds un T)"
    "disc_ok (addDatabase n rs us d T)" "disc_ok (removeDatabase rs us d T)"
  unfolding replacePrimary_def addReplicas_def removeReplicas_def addReplica_def removeReplica_def addUser_def removeUser_def
    addDatabase_def removeDatabase_def removePrimaryNode_def
  by (rule each_pool_safe disc_ok_fold; simp add: nodes_safe assms)+

lemma updated_safe: "disc_ok T \<Longrightarrow> disc_ok (updated prv nxt T)"
proof -
  have r: "disc_ok T \<Longrightarrow> disc_ok (update_replicas prv nxt T)" for T
    unfolding update_replicas_def Let_def by (auto intro!: disc_ok_fold simp: pools_safe split: option.splits)
  have u: "disc_ok T \<Longrightarrow> disc_ok (update_users prv nxt T)" for T
    unfolding update_users_def Let_def by (auto intro!: disc_ok_fold simp: pools_safe split: option.splits)
  have d: "disc_ok T \<Longrightarrow> disc_ok (update_databases prv nxt T)" for T
    unfolding update_databases_def Let_def by (auto intro!: disc_ok_fold simp: pools_safe)
  show "disc_ok T \<Longrightarrow> disc_ok (updated prv nxt T)" unfolding updated_def Let_def by (auto intro!: r u d simp: pools_safe)
qed

lemma added_safe: "disc_ok T \<Longrightarrow> disc_ok (added cl T)"
  unfolding added_def Let_def by (auto intro!: disc_ok_fold simp: pools_safe updated_safe split: option.split)

lemma removed_safe: "disc_ok T \<Longrightarrow> disc_ok (removed i T)"
  unfolding removed_def Let_def by (auto intro!: disc_ok_fold simp: pools_safe split: option.split)

lemma disc_step_safe: "disc_ok T \<Longrightarrow> disc_ok (disc_step ev T)"
  by (cases ev) (auto intro!: disc_ok_fold simp: reconcile_def Let_def added_safe removed_safe updated_safe split: sum.split option.split)

lemma discoverLoop_safe: "disc_ok T \<Longrightarrow> disc_ok (discoverLoop evs T)"
  unfolding discoverLoop_def by (rule disc_ok_fold) (simp_all add: disc_step_safe)

lemma Cleanup_safe:
  assumes "disc_ok T" "di_pools T = xs"
  shows "disc_ok (fold (\<lambda>(k, p, creds) T. let T = on_pool p OClose T in T\<lparr>di_pools := AList.delete k (di_pools T)\<rparr>) xs T) \<and>
    di_pools (fold (\<lambda>(k, p, creds) T. let T = on_pool p OClose T in T\<lparr>di_pools := AList.delete k (di_pools T)\<rparr>) xs T) = []"
  using assms
proof (induction xs arbitrary: T)
  case (Cons x xs)
  obtain n d p cr where x: "x = ((n, d), p, cr)" by (metis prod.exhaust)
  have "distinct (map fst (di_pools T))" using Cons.prems(1) by (simp add: disc_ok_def)
  then have del: "AList.delete (n, d) (di_pools T) = xs" using Cons.prems(2) x by simp
  have e: "removePool n d T = (on_pool p OClose T)\<lparr>di_pools := xs\<rparr>" using Cons.prems(2) x del by (simp add: removePool_def)
  have ok: "disc_ok (removePool n d T)" by (rule removePool_ok(1) [OF Cons.prems(1)])
  have left: "di_pools (removePool n d T) = xs" by (simp add: e)
  from Cons.IH [OF ok left] show ?case using e del by (simp add: x Let_def)
qed simp

lemma di_open_fold: "(\<And>x T. di_open (g x T) = di_open T) \<Longrightarrow> di_open (fold g xs T) = di_open T"
  by (induction xs arbitrary: T) auto

lemma di_open_pools [simp]:
  "di_open (on_pool p x T) = di_open T" "di_open (snd (getOrAddPool u d T)) = di_open T" "di_open (removePool n d T) = di_open T"
  by (simp_all add: on_pool_def getOrAddPool_def getCreds_def poolFactory_NewPool_def removePool_def Let_def split: option.split prod.split)

lemma di_open_on_pools [simp]:
  "di_open (fold (\<lambda>(i, n) T. on_pool p (h i n T) T) rs T) = di_open T" "di_open (fold (\<lambda>(i, n). on_pool p (h' i n)) rs T) = di_open T"
  by (rule di_open_fold; simp add: split_beta)+

lemma di_open_nodes [simp]:
  "di_open (addPrimaryNode u d n T) = di_open T" "di_open (addReplicaNodes u d rs T) = di_open T" "di_open (addReplicaNode u d i n T) = di_open T"
  "di_open (removeReplicaNodes un d rs T) = di_open T" "di_open (removeReplicaNode un d i T) = di_open T"
  by (simp_all add: addPrimaryNode_def addReplicaNodes_def addReplicaNode_def removeReplicaNodes_def removeReplicaNode_def getOrAddReplicaPool_def
      removeReplicaPool_def split_beta Let_def split: option.split)

lemma di_open_cluster [simp]:
  "di_open (replacePrimary us ds n T) = di_open T" "di_open (addReplicas rs us ds T) = di_open T" "di_open (removeReplicas rs us ds T) = di_open T"
  "di_open (addReplica us ds i n T) = di_open T" "di_open (removeReplica us ds i T) = di_open T" "di_open (addUser n rs ds u T) = di_open T"
  "di_open (removeUser rs ds un T) = di_open T" "di_open (addDatabase n rs us d T) = di_open T" "di_open (removeDatabase rs us d T) = di_open T"
  unfolding replacePrimary_def addReplicas_def removeReplicas_def addReplica_def removeReplica_def addUser_def removeUser_def
    addDatabase_def removeDatabase_def removePrimaryNode_def each_pool_def
  by (intro di_open_fold; simp)+

lemma di_open_updated [simp]: "di_open (updated prv nxt T) = di_open T"
proof -
  have "di_open (update_replicas prv nxt T) = di_open T" for T
    unfolding update_replicas_def Let_def by (auto simp: split_beta di_open_fold split: option.split)
  moreover have "di_open (update_users prv nxt T) = di_open T" for T
    unfolding update_users_def Let_def by (simp add: di_open_fold split: option.split)
  moreover have "di_open (update_databases prv nxt T) = di_open T" for T
    unfolding update_databases_def Let_def by (simp add: di_open_fold)
  ultimately show ?thesis by (simp add: updated_def Let_def)
qed

lemma di_open_step [simp]: "di_open (disc_step ev T) = di_open T"
proof -
  have a: "di_open (added cl T) = di_open T" for cl T by (simp add: added_def Let_def di_open_fold split: option.split)
  have r: "di_open (removed i T) = di_open T" for i T by (simp add: removed_def Let_def di_open_fold split: option.split)
  show ?thesis by (cases ev) (simp_all add: a r reconcile_def Let_def di_open_fold split: sum.split option.split)
qed

lemma discoverLoop_open: "di_open (discoverLoop evs T) = di_open T"
  by (simp add: discoverLoop_def di_open_fold)

lemma disc_Cleanup_ok:
  assumes "disc_ok T" "di_open T"
  shows "disc_ok (disc_Cleanup T) \<and> di_pools (disc_Cleanup T) = []"
proof -
  let ?T = "T\<lparr>di_open := False\<rparr>"
  have "disc_ok ?T" "di_pools ?T = di_pools T" using assms(1) by (simp_all add: disc_ok_def pool_ids_def)
  from Cleanup_safe [OF this] assms(2) show ?thesis by (simp add: disc_Cleanup_def)
qed

section \<open>Samples\<close>

definition sample_disc :: "bool \<Rightarrow> disc_config" where
  "sample_disc hybrid = \<lparr>dc_ServerSSLMode = ''prefer'', dc_sslConfig = None, dc_ServerMinConnections = 1, dc_ServerMaxConnections = 5,
     dc_serverStartupParameters = [], dc_ReplicaPool = hybrid\<rparr>"

definition sample_node :: "string \<Rightarrow> Node" where
  "sample_node a = \<lparr>nd_Address = a, nd_Priority = 0\<rparr>"

definition sample_cluster :: "string \<Rightarrow> (string \<times> Node) list \<Rightarrow> string list \<Rightarrow> Cluster" where
  "sample_cluster i rs ds = \<lparr>cl_ID = i, cl_Primary = sample_node i, cl_Replicas = rs, cl_Databases = ds,
     cl_Users = [\<lparr>us_Username = ''bob'', us_Password = []\<rparr>]\<rparr>"

definition sample_reports :: "disc_event list" where
  "sample_reports =
     [Added (sample_cluster ''a'' [] [''x'', ''y'']),
      Reconcile (Inr [sample_cluster ''b'' [] [''z''], sample_cluster ''a'' [(''r'', sample_node ''r'')] [''y'']]),
      Removed ''b'']"

definition moved_reports :: "disc_event list" where
  "moved_reports =
     [Reconcile (Inr [sample_cluster ''a'' [] [], sample_cluster ''b'' [] [''x'']]),
      Reconcile (Inr [sample_cluster ''a'' [] [''x''], sample_cluster ''b'' [] []])]"

lemmas sample_disc_defs = sample_disc_def sample_node_def sample_cluster_def

lemmas disc_run = discoverLoop_def new_discovery_def reconcile_def added_def removed_def updated_def update_replicas_def update_users_def
  update_databases_def replacePrimary_def addReplicas_def removeReplicas_def addReplica_def removeReplica_def addUser_def removeUser_def
  addDatabase_def removeDatabase_def each_pool_def addPrimaryNode_def removePrimaryNode_def addReplicaNodes_def removeReplicaNodes_def
  addReplicaNode_def removeReplicaNode_def getOrAddPool_def getOrAddReplicaPool_def getPool_def getReplicaPool_def removePool_def
  removeReplicaPool_def getCreds_def FromString_def poolFactory_NewPool_def on_pool_def toReplicaUser_def toReplicaUsername_def
  disc_Cleanup_def pool_ids_def Let_def

section \<open>Results\<close>

text \<open>
  (C17) With hybrid pools, if the reported clusters have no duplicate users, databases or endpoints and no user and database belong to two
  clusters (also over time), then after any sequence of reports (additions, removals, and reconciliations that succeed or fail) the
  clusters that the handler keeps are those reported last, and its pools are exactly the pools that these clusters ask
  for: one for each user and database of a cluster, with the credentials of the user as reported last, the primary and
  the replicas of the cluster as its recipes, and nothing else.  The reports may change every part of a cluster at once.
  Without the condition on two clusters it fails: \<open>moved_database_loses_pool\<close>.
\<close>

theorem discovery_tracks:
  assumes "dc_ReplicaPool c" "apart (\<Union>ev\<in>set evs. mentions ev)"
  shows "map_of (di_clusters (discoverLoop evs (new_discovery c))) = fold reported evs Map.empty \<and>
    (\<forall>k v. view (discoverLoop evs (new_discovery c)) k = Some v \<longleftrightarrow>
       (\<exists>cl\<in>ran (fold reported evs Map.empty). wants c cl k = Some v))"
proof -
  let ?S = "\<Union>ev\<in>set evs. mentions ev" and ?T = "new_discovery c"
  have "tracks c ?S ?T" using assms(1) new_discovery_ok [of c] by (simp add: tracks_def ready_def) (simp add: new_discovery_def)
  moreover have "map_of (di_clusters ?T) = Map.empty" by (simp add: new_discovery_def)
  moreover have "\<forall>ev\<in>set evs. mentions ev \<subseteq> ?S" by blast
  ultimately have "tracks c ?S (discoverLoop evs ?T)" and m: "map_of (di_clusters (discoverLoop evs ?T)) = fold reported evs Map.empty"
    using discoverLoop_tracks [of c ?S ?T evs] assms(2) by simp_all
  then have "\<forall>k v. view (discoverLoop evs ?T) k = Some v \<longleftrightarrow> (\<exists>i cl. fold reported evs Map.empty i = Some cl \<and> wants c cl k = Some v)"
    unfolding tracks_def m by blast
  with m show ?thesis unfolding ran_def by blast
qed

lemma discovery_tracks_witness:
  "apart (\<Union>ev\<in>set sample_reports. mentions ev) \<and>
   fold reported sample_reports Map.empty = [''a'' \<mapsto> sample_cluster ''a'' [(''r'', sample_node ''r'')] [''y'']] \<and>
   view (discoverLoop sample_reports (new_discovery (sample_disc True))) (''bob'', ''x'') = None \<and>
   view (discoverLoop sample_reports (new_discovery (sample_disc True))) (''bob'', ''y'') \<noteq> None"
proof -
  let ?a = "sample_cluster ''a'' [(''r'', sample_node ''r'')] [''y'']"
  have a: "apart (\<Union>ev\<in>set sample_reports. mentions ev)"
    by (auto simp: apart_def cluster_ok_def sample_reports_def sample_disc_defs)
  have m: "fold reported sample_reports Map.empty = [''a'' \<mapsto> ?a]"
    by (auto simp: sample_reports_def by_ID_def fun_eq_iff sample_disc_defs)
  have "dc_ReplicaPool (sample_disc True)" by (simp add: sample_disc_def)
  from discovery_tracks [OF this a] have v: "\<forall>k v. view (discoverLoop sample_reports (new_discovery (sample_disc True))) k = Some v \<longleftrightarrow>
     wants (sample_disc True) ?a k = Some v" by (simp add: m)
  have "wants (sample_disc True) ?a (''bob'', ''x'') = None" "wants (sample_disc True) ?a (''bob'', ''y'') \<noteq> None"
    by (simp_all add: wants_def sample_disc_defs)
  with v a m show ?thesis by (metis not_None_eq)
qed

text \<open>
  (C18) Whatever is reported, with and without hybrid pools: every pool that the handler made is either in its table, once,
  and open, or it was closed exactly once and never used again; and after \<^verbatim>\<open>Cleanup\<close> the table is empty and every pool
  that was ever made is closed exactly once.
\<close>

theorem discovery_no_leak:
  "let T = discoverLoop evs (new_discovery c); T' = disc_Cleanup T in
   distinct (pool_ids T) \<and>
   (\<forall>p<di_next T. if p \<in> set (pool_ids T) then pool_live (di_heap T p) else pool_dead (di_heap T p)) \<and>
   (\<forall>p\<ge>di_next T. p \<notin> set (pool_ids T) \<and> di_heap T p = []) \<and>
   di_pools T' = [] \<and> (\<forall>p<di_next T'. pool_dead (di_heap T' p))"
proof -
  let ?T = "discoverLoop evs (new_discovery c)"
  have ok: "disc_ok ?T" by (rule discoverLoop_safe [OF new_discovery_ok(1)])
  have "di_open ?T" by (simp add: discoverLoop_open) (simp add: new_discovery_def)
  from disc_Cleanup_ok [OF ok this] have "disc_ok (disc_Cleanup ?T)" "di_pools (disc_Cleanup ?T) = []" by simp_all
  then have "\<forall>p<di_next (disc_Cleanup ?T). pool_dead (di_heap (disc_Cleanup ?T) p)" by (simp add: disc_ok_def pool_ids_def)
  with ok \<open>di_pools (disc_Cleanup ?T) = []\<close> show ?thesis unfolding disc_ok_def Let_def by (auto simp: not_less [symmetric])
qed

lemma discovery_no_leak_witness:
  "let T = discoverLoop sample_reports (new_discovery (sample_disc False)) in
   di_next T = 6 \<and> pool_ids T = [2, 3] \<and> pool_dead (di_heap T 4) \<and> (\<forall>p<6. pool_dead (di_heap (disc_Cleanup T) p))"
proof -
  let ?T = "discoverLoop sample_reports (new_discovery (sample_disc False))"
  have "di_next ?T = 6" "pool_ids ?T = [2, 3]" "di_next (disc_Cleanup ?T) = 6"
    by (simp_all add: sample_reports_def sample_disc_defs disc_run)
  with discovery_no_leak [of sample_reports "sample_disc False"] show ?thesis by (simp add: Let_def)
qed

text \<open>
  A database that moves from one cluster to another, in one reconciliation that lists the gaining cluster first: the gaining
  cluster reuses the pool and the losing cluster then closes it, so the handler keeps a cluster whose pool is gone.
\<close>

theorem moved_database_loses_pool:
  "map_of (di_clusters (discoverLoop moved_reports (new_discovery (sample_disc True)))) ''a'' = Some (sample_cluster ''a'' [] [''x'']) \<and>
   di_pools (discoverLoop moved_reports (new_discovery (sample_disc True))) = []"
  by (simp add: moved_reports_def sample_disc_defs disc_run)

end
