(* ===== verification/Spec2Isabelle.thy ===== *)
theory Spec2Isabelle
  imports Fed_Transport Middleware_Sync Credentials Spool_Safety Hybrid_Serve Hybrid_Buffer Discovery_Tracks
begin

section \<open>A verified model of pggat\<close>

text \<open>
  \<^bold>\<open>The program.\<close>  pggat is a PostgreSQL connection pooler written in Go.  A client connects, is accepted and
  authenticated like by a PostgreSQL server (\<^verbatim>\<open>lib/bouncer/frontends\<close>), and its transactions are run on server connections
  that a pool keeps open (\<^verbatim>\<open>lib/gat/handlers/pool\<close>).  The parts and how they interact, from the bytes up:

  \<^item> \<^verbatim>\<open>lib/fed\<close> encodes and decodes packets over buffered connections; \<^verbatim>\<open>fed.Conn\<close> runs every packet through a list
    of middlewares, which track parameters (\<^verbatim>\<open>ps\<close>) and prepared statements (\<^verbatim>\<open>eqp\<close>) of either side;
  \<^item> \<^verbatim>\<open>lib/bouncer\<close> logs in to servers, accepts clients, and runs one transaction of a client on a server
    (\<^verbatim>\<open>Bounce\<close>), copying packets between the two connections;
  \<^item> a \<^verbatim>\<open>kitchen.Chef\<close> dials server connections with recipes, a \<^verbatim>\<open>pool.Pooler\<close> (LIFO, or the fair scheduler \<^verbatim>\<open>rob\<close>)
    decides which waiting client gets which free server, \<^verbatim>\<open>spool.Pool\<close> combines the two, and the pools of
    \<^verbatim>\<open>pools/basic\<close> and \<^verbatim>\<open>pools/hybrid\<close> serve a client: acquire a server, synchronise both ends, bounce, release;
  \<^item> \<^verbatim>\<open>lib/util\<close> holds the data structures these use: a ring buffer, a red-black tree, slices, free lists, strings.

  \<^bold>\<open>Theories and sources.\<close>  Every definition that models code keeps the name of the code, with a prefix where
  HOL or another component has the name (\<^verbatim>\<open>dec_\<close>, \<^verbatim>\<open>enc_\<close>, \<^verbatim>\<open>rb_\<close>, \<^verbatim>\<open>lifo_\<close>, \<^verbatim>\<open>rob_\<close>, \<^verbatim>\<open>eqp_\<close>, \<^verbatim>\<open>ps_\<close>, \<^verbatim>\<open>client_\<close>).

  \<^item> \<^verbatim>\<open>Pggat_Prelude\<close>: vocabulary and lemmas that all theories share.  \<^verbatim>\<open>Go_Collections\<close>: \<^verbatim>\<open>lib/util/slices\<close> and
    \<^verbatim>\<open>lib/util/pools\<close>.  \<^verbatim>\<open>Go_Channels\<close>: channels of capacity one.
  \<^item> \<^verbatim>\<open>Ring_Buffer\<close> (\<^verbatim>\<open>lib/util/ring\<close>): refines a double-ended queue, through the locale \<open>deque\<close>.
    \<^verbatim>\<open>LLRB_Tree\<close> (\<^verbatim>\<open>lib/util/rbtree\<close>): refines a finite ordered map, keeps the colour and height invariants, has
    logarithmic height.  \<^verbatim>\<open>Strutil\<close> (\<^verbatim>\<open>lib/util/strutil\<close>): case folding, cutting, quoting, globs.
  \<^item> \<^verbatim>\<open>Fed_Base\<close>, \<^verbatim>\<open>Fed_Encoder\<close>, \<^verbatim>\<open>Fed_Decoder\<close>, \<^verbatim>\<open>Fed_Codec\<close>, \<^verbatim>\<open>Packet_Combinators\<close>, \<^verbatim>\<open>Packets\<close>, \<^verbatim>\<open>Packet_Transport\<close>,
    \<^verbatim>\<open>Fed_Transport\<close>: \<^verbatim>\<open>lib/fed/encoder.go\<close>, \<^verbatim>\<open>decoder.go\<close>, \<^verbatim>\<open>packet.go\<close>, \<^verbatim>\<open>codecs/netconncodec\<close> and every packet of
    \<^verbatim>\<open>packets/v3.0/packets.go\<close>.  Packets survive the way through an encoder, any chunking of the bytes, and a
    decoder; announced lengths are exact; forwarding copies exactly; reading returns on every connection that delivers finitely many bytes.
  \<^item> \<^verbatim>\<open>Perror\<close>, \<^verbatim>\<open>Fed_Message\<close> (\<^verbatim>\<open>lib/perror\<close>): packets and errors as the layers above see them, with round trips.
  \<^item> \<^verbatim>\<open>Eqp_State\<close>, \<^verbatim>\<open>Fed_Conn\<close> (\<^verbatim>\<open>lib/fed/middlewares\<close>, \<^verbatim>\<open>lib/fed/conn.go\<close>): the tracked prepared statements and portals are those
    of an abstract session that runs beside the middleware; the connection with its middlewares.
  \<^item> \<^verbatim>\<open>Backend_Query\<close> (\<^verbatim>\<open>lib/bouncer/backends/v0\<close>, \<^verbatim>\<open>bouncers/v2\<close>): a transaction returns (without a panic, unless the
    client sends a \<^verbatim>\<open>Bind\<close> with a negative parameter length other than -1), delivers every packet in order, and leaves the server idle.  \<^verbatim>\<open>Middleware_Sync\<close> (\<^verbatim>\<open>eqp/sync.go\<close>, \<^verbatim>\<open>ps/sync.go\<close>): after the synchronisation
    the server has the client's statements, and the two sides agree on every parameter that one of them can tell the other.
  \<^item> \<^verbatim>\<open>Server_Login\<close> (\<^verbatim>\<open>backends/v0/accept.go\<close>), \<^verbatim>\<open>Client_Login\<close> (\<^verbatim>\<open>frontends/v0\<close>), \<^verbatim>\<open>Credentials\<close>
    (\<^verbatim>\<open>lib/auth/credentials\<close>): both logins return, required TLS is enforced, a client is let in only on a proof of
    its credentials, and the two ends of MD5 agree.
  \<^item> \<^verbatim>\<open>Pooler_Contract\<close>, \<^verbatim>\<open>Lifo_Pooler\<close>, \<^verbatim>\<open>Rob_Scheduler\<close> (\<^verbatim>\<open>poolers/lifo\<close>, \<^verbatim>\<open>poolers/rob\<close>, \<^verbatim>\<open>lib/rob/schedulers/v3\<close>): the
    contract of a pooler as a locale over an event system, interpreted for both poolers.  A server is in one
    place, no interleaving panics or blocks, no wakeup is lost; for \<^verbatim>\<open>rob\<close> this leaves out the stale timeout, a race that the
    code loses (\<open>rob_race\<close>).
  \<^item> \<^verbatim>\<open>Kitchen\<close> (\<^verbatim>\<open>pool/recipe.go\<close>, \<^verbatim>\<open>spool/kitchen\<close>): recipes count exactly their connections and the
    dials under way, within limits.  \<^verbatim>\<open>Kitchen_Steps\<close> splits the calls where they release the lock and interleaves them.
    \<^verbatim>\<open>Conn_Metrics\<close> (\<^verbatim>\<open>lib/gat/metrics\<close>, \<^verbatim>\<open>spool/server.go\<close>): reported times add up.
  \<^item> \<^verbatim>\<open>Pooler_Api\<close>, \<^verbatim>\<open>Kitchen_Conns\<close>, \<^verbatim>\<open>Spool\<close>, \<^verbatim>\<open>Spool_System\<close>, \<^verbatim>\<open>Spool_Safety\<close> (\<^verbatim>\<open>pool/pooler.go\<close>, \<^verbatim>\<open>spool/pool.go\<close>): the pool of
    servers over the chef and a pooler.  The pooler is an interface, a record of operations with its laws in the locale
    \<open>spool_pooler\<close>, interpreted for both poolers; the methods, \<^verbatim>\<open>Close\<close> too, are split at their locks and interleaved with each other and
    with the sections of the chef; with \<^verbatim>\<open>rob\<close>, runs with a stale timeout are left out.  The indexes agree,
    no open connection is forgotten, no server is used by two clients, waiting clients get servers.
  \<^item> \<^verbatim>\<open>Sync_Returns\<close>, \<^verbatim>\<open>Basic_Pool\<close>, \<^verbatim>\<open>Basic_Serve\<close> (\<^verbatim>\<open>pools/basic\<close>): the pool that serves a client.  Every run in which \<^verbatim>\<open>Acquire\<close> returns ends and follows
    the protocol that the server pool relies on, an automaton over the recorded calls; \<^verbatim>\<open>Cancel\<close> reaches the right server.
  \<^item> \<^verbatim>\<open>Hybrid_Pool\<close>, \<^verbatim>\<open>Hybrid_Serve\<close>, \<^verbatim>\<open>Hybrid_Buffer\<close> (\<^verbatim>\<open>pools/hybrid\<close>): the pool that tries a replica first and falls back to a primary.  Every
    run in which \<^verbatim>\<open>Acquire\<close> returns ends and follows the protocol of both server pools; which pool a cancellation asks.  \<^verbatim>\<open>Hybrid_Buffer\<close> is its
    middleware over the byte buffer with the encoder and the decoder: what the client sent is replayed exactly and in
    order, and answers are dropped until the last packet was read.  The connections of \<^verbatim>\<open>Fed_Conn\<close> use its
    abstraction, a list of packets.
  \<^item> \<^verbatim>\<open>Discovery\<close>, \<^verbatim>\<open>Discovery_Tracks\<close> (\<^verbatim>\<open>handlers/discovery\<close>): the handler that keeps the pools of the clusters a discoverer
    reports.  After any sequence of reports of clusters that share no user and database its pools are exactly those that these clusters ask for (every
    operation on a pool is an instance of the locale \<open>node_op\<close>); no pool is lost or closed twice.

  \<^bold>\<open>Modelling.\<close>  Structs are records, interfaces are datatypes or parameters.  State is passed explicitly; what is shared
  by pointer lives in a store addressed by numbers.  A Go panic is \<^term>\<open>None\<close>, an error value is on the left of
  a sum.  Integers of the wire keep their width as words; Go's \<^verbatim>\<open>int\<close> is an integer, with its wrap-around written out
  where it can occur.  The network, the clock, random numbers and the critics are scripts in the state (lists of
  answers), quantified in the theorems, so that a statement holds for every behaviour of the outside.  A script that
  is used up is the end of the connection.  Loops over a script terminate because every round consumes from it;
  where fuel bounds a loop it is the length of the scripts, and the termination theorems (\<open>Bounce_returns\<close>,
  \<open>accept_returns\<close>, \<open>client_Accept_returns\<close>, \<open>ReadFrom_returns\<close>) show that it is enough.
  Concurrency is modelled where the code has it at its core, in the poolers, the chef and the pool of servers: every critical
  section and every channel operation is a step, and the theorems quantify over all interleavings.  Elsewhere a method is
  one step.  A call of \<^verbatim>\<open>Acquire\<close> by the basic or the hybrid pool returns what a script says; one that never returns is not
  represented there.

  \<^bold>\<open>Not modelled.\<close>  The command line, the configuration parser of the Caddyfile and the discoverers that ask
  Kubernetes or cloud services (glue and I/O); TLS and SASL, which are libraries and appear as parameters with the
  laws that are used; logging and tracing, which do not change state.  The table of error codes is represented by
  the codes that the modelled code uses.  Percentages of the metrics report are floating point and left out.

  \<^bold>\<open>Plan.\<close>  Every part of the connection path from the wire to the pools is modelled, and the handler that creates the pools.
  What could follow are the other handlers and the matchers that choose a pool for a client, and the proof that the
  fallback of the hybrid pool loses no packet.
\<close>

end
